(* ===== verification/Prelude.thy ===== *)
theory Prelude
  imports
    Complex_Main
    "HOL-Library.AList"
    "HOL-Library.Char_ord"
    "HOL-Library.List_Lexorder"
    "HOL-Library.Product_Lexorder"
begin

text \<open>
  Shared vocabulary of the development: Python exceptions and results, insertion ordered
  dictionaries, string splitting, runs of a step function and the generic invariant locale.

  Conventions.
  \<^item> A Python \<open>int\<close> is an \<^typ>\<open>int\<close>, a Python \<open>float\<close> that the code only adds, scales
    and compares is a \<^typ>\<open>real\<close> (rounding is not modelled); where infinities and NaN can
    reach the code, theory \<open>Py_Values\<close> has an extended type.
  \<^item> A \<open>dict\<close> is an association list in insertion order, read with \<^const>\<open>map_of\<close>, written
    with \<^const>\<open>AList.update\<close> (an existing key keeps its place, a new key goes to the end, as
    in CPython) and shortened with \<^const>\<open>AList.delete\<close>.
  \<^item> A method that may raise returns \<open>py_error + value\<close>; a method that changes state and may
    raise returns the result together with the state it leaves behind, so a mutation made before
    the exception is visible.
\<close>

section \<open>Exceptions and results\<close>

datatype py_error =
    ValueError | TypeError | KeyError | IndexError | OverflowError | RuntimeError
  | PermissionError | TimeoutError | ConnectionError | ZeroDivisionError | InvalidState
  | OtherError string

type_synonym 'a result = "py_error + 'a"

definition is_ok :: "'a result \<Rightarrow> bool" where
  "is_ok r = (case r of Inl _ \<Rightarrow> False | Inr _ \<Rightarrow> True)"

lemma is_ok_simps [simp]:
  "is_ok (Inr x)" "\<not> is_ok (Inl e)"
  by (simp_all add: is_ok_def)

lemma is_okE:
  assumes "is_ok r"
  obtains x where "r = Inr x"
  using assms by (cases r) auto

text \<open>\<open>int(x)\<close> of a finite float truncates towards zero.\<close>

definition py_trunc :: "real \<Rightarrow> int" where
  "py_trunc x = (if 0 \<le> x then \<lfloor>x\<rfloor> else \<lceil>x\<rceil>)"

lemma py_trunc_le: "0 \<le> x \<Longrightarrow> of_int (py_trunc x) \<le> x" "0 \<le> x \<Longrightarrow> 0 \<le> py_trunc x"
  by (simp_all add: py_trunc_def)

text \<open>\<open>round(x, n)\<close>: to even on ties.\<close>

definition py_round :: "nat \<Rightarrow> real \<Rightarrow> real" where
  "py_round n x =
     (let y = x * 10 ^ n; m = \<lfloor>y\<rfloor>; fr = y - of_int m
      in of_int (if fr < 1 / 2 then m else if fr > 1 / 2 then m + 1
                 else if even m then m else m + 1) / 10 ^ n)"

text \<open>A comprehension whose element expression may raise: the first exception ends it.\<close>

fun map_result :: "('a \<Rightarrow> 'b result) \<Rightarrow> 'a list \<Rightarrow> 'b list result" where
  "map_result f [] = Inr []"
| "map_result f (x # xs) =
     (case f x of
        Inl e \<Rightarrow> Inl e
      | Inr y \<Rightarrow> (case map_result f xs of Inl e \<Rightarrow> Inl e | Inr ys \<Rightarrow> Inr (y # ys)))"

lemma map_result_total: "(\<And>x. x \<in> set xs \<Longrightarrow> f x = Inr (g x)) \<Longrightarrow> map_result f xs = Inr (map g xs)"
  by (induction xs) auto

lemma map_result_Inr: "map_result f xs = Inr ys \<Longrightarrow> list_all2 (\<lambda>x y. f x = Inr y) xs ys"
  by (induction xs arbitrary: ys) (auto split: sum.splits)

lemma map_result_mem: "map_result f xs = Inr ys \<Longrightarrow> y \<in> set ys \<Longrightarrow> \<exists>x \<in> set xs. f x = Inr y"
proof (induction xs arbitrary: ys)
  case (Cons x xs)
  then show ?case by (fastforce split: sum.splits)
qed simp

section \<open>Dictionaries\<close>

type_synonym ('k, 'v) dict = "('k \<times> 'v) list"

abbreviation dget :: "('k, 'v) dict \<Rightarrow> 'k \<Rightarrow> 'v option" where
  "dget d k \<equiv> map_of d k"

abbreviation dput :: "'k \<Rightarrow> 'v \<Rightarrow> ('k, 'v) dict \<Rightarrow> ('k, 'v) dict" where
  "dput k v d \<equiv> AList.update k v d"

abbreviation dpop :: "'k \<Rightarrow> ('k, 'v) dict \<Rightarrow> ('k, 'v) dict" where
  "dpop k d \<equiv> AList.delete k d"

abbreviation dkeys :: "('k, 'v) dict \<Rightarrow> 'k list" where
  "dkeys d \<equiv> map fst d"

text \<open>\<open>d.setdefault(k, v)\<close> and \<open>d.get(k, v)\<close>.\<close>

definition dsetdefault :: "'k \<Rightarrow> 'v \<Rightarrow> ('k, 'v) dict \<Rightarrow> ('k, 'v) dict" where
  "dsetdefault k v d = (case dget d k of None \<Rightarrow> dput k v d | Some _ \<Rightarrow> d)"

definition dget_or :: "('k, 'v) dict \<Rightarrow> 'k \<Rightarrow> 'v \<Rightarrow> 'v" where
  "dget_or d k v = (case dget d k of None \<Rightarrow> v | Some w \<Rightarrow> w)"

text \<open>A dictionary has each key once.\<close>

definition wf_dict :: "('k, 'v) dict \<Rightarrow> bool" where
  "wf_dict d = distinct (dkeys d)"

named_theorems dict_simps "reading a dictionary after a write"

declare update_conv' [dict_simps] delete_conv' [dict_simps]

lemma dget_setdefault [dict_simps]:
  "dget (dsetdefault k v d) j =
     (if j = k \<and> dget d k = None then Some v else dget d j)"
  by (simp add: dsetdefault_def update_conv' split: option.split)

lemma dget_or_put [dict_simps]: "dget_or (dput k v d) j x = (if j = k then v else dget_or d j x)"
  by (simp add: dget_or_def update_conv')

lemma dget_or_setdefault [simp]: "dget_or (dsetdefault k x d) j x = dget_or d j x"
  by (auto simp: dget_or_def dget_setdefault split: option.split)

lemma wf_dict_Nil [simp]: "wf_dict []"
  by (simp add: wf_dict_def)

lemma wf_dict_put [intro, simp]: "wf_dict d \<Longrightarrow> wf_dict (dput k v d)"
  by (simp add: wf_dict_def distinct_update)

lemma wf_dict_pop [intro, simp]: "wf_dict d \<Longrightarrow> wf_dict (dpop k d)"
  by (simp add: wf_dict_def distinct_delete)

lemma wf_dict_filter [intro, simp]: "wf_dict d \<Longrightarrow> wf_dict (filter P d)"
  by (simp add: wf_dict_def distinct_map_filter)

lemma wf_dict_Cons: "wf_dict ((k, v) # d) \<longleftrightarrow> k \<notin> set (dkeys d) \<and> wf_dict d"
  by (simp add: wf_dict_def)

lemma dget_filter_key:
  "dget (filter (\<lambda>(k, v). P k) d) j = (if P j then dget d j else None)"
  by (induction d) auto

lemma wf_dict_get_mem: "wf_dict d \<Longrightarrow> (k, v) \<in> set d \<longleftrightarrow> dget d k = Some v"
  by (auto simp: wf_dict_def map_of_is_SomeI dest: map_of_SomeD)

lemma dget_None_keys: "dget d k = None \<longleftrightarrow> k \<notin> set (dkeys d)"
  by (simp add: map_of_eq_None_iff)

lemma dkeys_put_set [simp]: "set (dkeys (dput k v d)) = insert k (set (dkeys d))"
  by (simp add: update_keys insert_absorb)

lemma dput_subset: "set (dput k v d) \<subseteq> insert (k, v) (set d)"
  by (induction d) auto

lemma dpop_subset: "set (dpop k d) \<subseteq> set d"
  by (induction d) auto

lemma dput_mem: "p \<in> set (dput k v d) \<Longrightarrow> p = (k, v) \<or> p \<in> set d"
  by (drule subsetD [OF dput_subset]) simp

lemma dpop_mem: "p \<in> set (dpop k d) \<Longrightarrow> p \<in> set d"
  by (rule subsetD [OF dpop_subset])

lemma mem_dkeys: "dget d i = Some v \<Longrightarrow> i \<in> set (dkeys d)"
  by (drule map_of_SomeD) force

lemma not_dkeys: "i \<notin> set (dkeys d) \<Longrightarrow> dget d i = None"
  using dget_None_keys [of d i] by blast

lemma dkeys_dpop: "dkeys (dpop i d) = filter (\<lambda>j. j \<noteq> i) (dkeys d)"
  by (induction d) auto

lemma dput_new_append: "dget d k = None \<Longrightarrow> dput k v d = d @ [(k, v)]"
  by (induction d) (auto split: if_splits)

lemma dkeys_dput_new: "i \<notin> set (dkeys d) \<Longrightarrow> dkeys (dput i v d) = dkeys d @ [i]"
  by (induction d) auto

lemma dkeys_dput_old: "i \<in> set (dkeys d) \<Longrightarrow> dkeys (dput i v d) = dkeys d"
  by (simp add: update_keys del: set_map)

lemma dpop_id: "k \<notin> set (dkeys d) \<Longrightarrow> dpop k d = d"
  by (simp add: delete_id)

lemma length_dpop: "wf_dict d \<Longrightarrow> k \<in> set (dkeys d) \<Longrightarrow> length d = Suc (length (dpop k d))"
proof (induction d)
  case (Cons p d)
  obtain j v where p: "p = (j, v)" by (cases p)
  show ?case
  proof (cases "k = j")
    case True
    with Cons.prems(1) have "dpop k d = d" by (intro dpop_id) (simp add: p wf_dict_Cons)
    with True show ?thesis by (simp add: p)
  next
    case False
    with Cons show ?thesis by (auto simp: p wf_dict_Cons)
  qed
qed simp

section \<open>Strings\<close>

text \<open>\<open>s.split(sep)\<close> for a one-character separator: always at least one part.\<close>

fun split_on :: "'a \<Rightarrow> 'a list \<Rightarrow> 'a list list" where
  "split_on c [] = [[]]"
| "split_on c (x # xs) =
     (if x = c then [] # split_on c xs
      else case split_on c xs of [] \<Rightarrow> [[x]] | p # ps \<Rightarrow> (x # p) # ps)"

text \<open>\<open>sep.join(parts)\<close>.\<close>

fun join_with :: "'a \<Rightarrow> 'a list list \<Rightarrow> 'a list" where
  "join_with c [] = []"
| "join_with c [p] = p"
| "join_with c (p # q # ps) = p @ c # join_with c (q # ps)"

lemma split_on_nonempty [simp]: "split_on c xs \<noteq> []"
  by (induction xs) (auto split: list.splits)

lemma join_split: "join_with c (split_on c xs) = xs"
proof (induction xs)
  case (Cons x xs)
  then show ?case
    by (cases "split_on c xs"; cases "tl (split_on c xs)") auto
qed simp

lemma split_on_no_sep: "c \<notin> set p \<Longrightarrow> split_on c p = [p]"
  by (induction p) auto

lemma split_on_append: "c \<notin> set p \<Longrightarrow> split_on c (p @ c # xs) = p # split_on c xs"
  by (induction p) auto

definition starts_with :: "'a list \<Rightarrow> 'a list \<Rightarrow> bool" where
  "starts_with p s = (take (length p) s = p)"

lemma starts_with_iff: "starts_with p s \<longleftrightarrow> (\<exists>r. s = p @ r)"
proof
  assume "starts_with p s"
  then have "s = p @ drop (length p) s"
    by (metis append_take_drop_id starts_with_def)
  then show "\<exists>r. s = p @ r" ..
qed (auto simp: starts_with_def)

text \<open>\<open>s.rstrip(c)\<close> for one character.\<close>

definition rstrip_char :: "char \<Rightarrow> string \<Rightarrow> string" where
  "rstrip_char c s = rev (dropWhile (\<lambda>d. d = c) (rev s))"

text \<open>\<open>sorted(set(xs))\<close> of strings.\<close>

definition sorted_set :: "string list \<Rightarrow> string list" where
  "sorted_set xs = sort (remdups xs)"

lemma set_sorted_set [simp]: "set (sorted_set xs) = set xs"
  by (simp add: sorted_set_def)

section \<open>Runs of a step function\<close>

fun run_steps :: "('s \<Rightarrow> 'e \<Rightarrow> 's) \<Rightarrow> 's \<Rightarrow> 'e list \<Rightarrow> 's" where
  "run_steps step s [] = s"
| "run_steps step s (e # es) = run_steps step (step s e) es"

lemma run_steps_append:
  "run_steps step s (xs @ ys) = run_steps step (run_steps step s xs) ys"
  by (induction xs arbitrary: s) auto

text \<open>
  A component whose every operation keeps an invariant. The conclusion, that any sequence of
  operations keeps it, is proved here once and used by every component that interprets the
  locale on its own operations.
\<close>

locale kept_invariant =
  fixes step :: "'s \<Rightarrow> 'e \<Rightarrow> 's"
    and invar :: "'s \<Rightarrow> bool"
  assumes step_invar: "invar s \<Longrightarrow> invar (step s e)"
begin

lemma run_invar: "invar s \<Longrightarrow> invar (run_steps step s es)"
  by (induction es arbitrary: s) (auto intro: step_invar)

lemma run_prefix_invar:
  "invar s \<Longrightarrow> invar (run_steps step s (take n es))"
  by (rule run_invar)

end

text \<open>
  A component with a counter that no operation moves down (an epoch, a fencing token, a
  sequence number).
\<close>

locale never_decreasing =
  fixes step :: "'s \<Rightarrow> 'e \<Rightarrow> 's"
    and measure_of :: "'s \<Rightarrow> 'm :: linorder"
  assumes step_grows: "measure_of s \<le> measure_of (step s e)"
begin

lemma run_grows: "measure_of s \<le> measure_of (run_steps step s es)"
proof (induction es arbitrary: s)
  case (Cons e es)
  have "measure_of s \<le> measure_of (step s e)"
    by (rule step_grows)
  also have "\<dots> \<le> measure_of (run_steps step (step s e) es)"
    by (rule Cons.IH)
  finally show ?case by simp
qed simp

lemma run_grows_between:
  "measure_of (run_steps step s xs) \<le> measure_of (run_steps step s (xs @ ys))"
  by (simp add: run_steps_append run_grows)

end

text \<open>
  A component built on another one: each of its steps is matched by some steps of the component
  below, so a run of it is a run of that component.
\<close>

locale simulation =
  fixes astep :: "'a \<Rightarrow> 'e \<Rightarrow> 'a"
    and cstep :: "'c \<Rightarrow> 'f \<Rightarrow> 'c"
    and sim :: "'a \<Rightarrow> 'c \<Rightarrow> bool"
  assumes step_sim: "sim a c \<Longrightarrow> \<exists>es. sim (run_steps astep a es) (cstep c f)"
begin

lemma run_sim: "sim a c \<Longrightarrow> \<exists>es. sim (run_steps astep a es) (run_steps cstep c fs)"
proof (induction fs arbitrary: a c)
  case Nil
  then show ?case by (metis run_steps.simps(1))
next
  case (Cons f fs)
  from step_sim [OF Cons.prems, of f] obtain es where
    "sim (run_steps astep a es) (cstep c f)" ..
  from Cons.IH [OF this] obtain es' where
    "sim (run_steps astep (run_steps astep a es) es') (run_steps cstep (cstep c f) fs)" ..
  then have "sim (run_steps astep a (es @ es')) (run_steps cstep c (f # fs))"
    by (simp add: run_steps_append)
  then show ?case ..
qed

end

section \<open>Sums over lists\<close>

lemma sum_list_nonneg_int: "(\<forall>x\<in>set xs. (0::int) \<le> f x) \<Longrightarrow> 0 \<le> sum_list (map f xs)"
  by (induction xs) auto

lemma sum_list_update_keys:
  fixes f :: "'v \<Rightarrow> int"
  assumes "wf_dict d"
  shows "sum_list (map (f \<circ> snd) (dput k v d)) =
    sum_list (map (f \<circ> snd) d) + f v - (case dget d k of None \<Rightarrow> 0 | Some w \<Rightarrow> f w)"
  using assms
proof (induction d)
  case (Cons p d)
  then show ?case
    by (cases p) (auto simp: wf_dict_Cons)
qed simp

lemma sum_list_pop_keys:
  fixes f :: "'v \<Rightarrow> int"
  assumes "wf_dict d"
  shows "sum_list (map (f \<circ> snd) (dpop k d)) =
    sum_list (map (f \<circ> snd) d) - (case dget d k of None \<Rightarrow> 0 | Some w \<Rightarrow> f w)"
  using assms
proof (induction d)
  case (Cons p d)
  then show ?case
    by (cases p) (auto simp: wf_dict_Cons delete_id dget_None_keys image_iff)
qed simp

end
