(* ===== verification/Py_Values.thy ===== *)
theory Py_Values
  imports Prelude
begin

text \<open>
  The values that arrive over the wire and Python's conversions on them: the result of
  \<open>json.loads\<close>, truth testing, \<open>int(x)\<close> and \<open>float(x)\<close> with every exception they raise. Several
  components read such values from a sender they do not control, and the exceptions that these
  conversions raise decide which handler runs.

  \<open>json.loads\<close> accepts \<open>Infinity\<close> and \<open>NaN\<close>, so a decoded float is a real, an infinity or NaN.
  Finite floats are real numbers: rounding is not modelled, except that a finite value too large
  for a double becomes an infinity (string parsing) or \<open>OverflowError\<close> (from an integer), which
  the code can observe. Strings are ASCII: \<open>int\<close> and \<open>float\<close> also accept other Unicode digits and
  white space, which are not modelled.
\<close>

section \<open>Extended floats\<close>

datatype pfloat = Fin real | PosInf | NegInf | NaN

fun pf_add :: "pfloat \<Rightarrow> pfloat \<Rightarrow> pfloat" where
  "pf_add NaN _ = NaN"
| "pf_add _ NaN = NaN"
| "pf_add PosInf NegInf = NaN"
| "pf_add NegInf PosInf = NaN"
| "pf_add PosInf _ = PosInf"
| "pf_add _ PosInf = PosInf"
| "pf_add NegInf _ = NegInf"
| "pf_add _ NegInf = NegInf"
| "pf_add (Fin a) (Fin b) = Fin (a + b)"

text \<open>\<open>x > y\<close>: every comparison with NaN is false.\<close>

fun pf_gt :: "pfloat \<Rightarrow> pfloat \<Rightarrow> bool" where
  "pf_gt NaN _ = False"
| "pf_gt _ NaN = False"
| "pf_gt (Fin a) (Fin b) = (a > b)"
| "pf_gt PosInf b = (b \<noteq> PosInf)"
| "pf_gt NegInf _ = False"
| "pf_gt (Fin _) b = (b = NegInf)"

section \<open>Decoded JSON\<close>

datatype json =
    JNull
  | JBool bool
  | JInt int
  | JFloat pfloat
  | JStr string
  | JList "json list"
  | JObj "(string \<times> json) list"

text \<open>\<open>bool(x)\<close>.\<close>

fun truthy :: "json \<Rightarrow> bool" where
  "truthy JNull = False"
| "truthy (JBool b) = b"
| "truthy (JInt n) = (n \<noteq> 0)"
| "truthy (JFloat f) = (f \<noteq> Fin 0)"
| "truthy (JStr s) = (s \<noteq> [])"
| "truthy (JList xs) = (xs \<noteq> [])"
| "truthy (JObj kvs) = (kvs \<noteq> [])"

text \<open>\<open>d.get(k)\<close>: a missing key reads as \<open>None\<close>, the value JSON's null decodes to.\<close>

definition jget :: "(string, json) dict \<Rightarrow> string \<Rightarrow> json" where
  "jget d k = (case dget d k of None \<Rightarrow> JNull | Some v \<Rightarrow> v)"

lemma jget_put: "jget (dput k v d) j = (if j = k then v else jget d j)"
  by (simp add: jget_def update_conv')

lemma jget_setdefault:
  "jget (dsetdefault k v d) j = (if j = k \<and> dget d k = None then v else jget d j)"
  by (auto simp: jget_def dict_simps)

section \<open>Parsing numbers\<close>

definition is_space :: "char \<Rightarrow> bool" where
  "is_space c = (let n = (of_char c :: nat) in (9 \<le> n \<and> n \<le> 13) \<or> (28 \<le> n \<and> n \<le> 32))"

definition strip :: "string \<Rightarrow> string" where
  "strip s = rev (dropWhile is_space (rev (dropWhile is_space s)))"

definition is_digit :: "char \<Rightarrow> bool" where
  "is_digit c = (let n = (of_char c :: nat) in 48 \<le> n \<and> n \<le> 57)"

text \<open>A digit group: digits with single underscores between them.\<close>

fun digit_group :: "string \<Rightarrow> bool" where
  "digit_group [] = False"
| "digit_group [c] = is_digit c"
| "digit_group (c # d # cs) =
     (is_digit c \<and> (if d = CHR ''_'' then digit_group cs else digit_group (d # cs)))"

definition digits_value :: "string \<Rightarrow> int" where
  "digits_value s = foldl (\<lambda>n c. if is_digit c then 10 * n + (int (of_char c) - 48) else n) 0 s"

text \<open>An optional sign in front of a body.\<close>

definition split_sign :: "string \<Rightarrow> int \<times> string" where
  "split_sign s =
     (case s of
        [] \<Rightarrow> (1, [])
      | c # cs \<Rightarrow> if c = CHR ''-'' then (-1, cs) else if c = CHR ''+'' then (1, cs) else (1, s))"

definition int_of_string :: "string \<Rightarrow> int option" where
  "int_of_string s =
     (let (sg, body) = split_sign (strip s)
      in if digit_group body then Some (sg * digits_value body) else None)"

definition lower_char :: "char \<Rightarrow> char" where
  "lower_char c =
     (let n = (of_char c :: nat) in if 65 \<le> n \<and> n \<le> 90 then char_of (n + 32) else c)"

text \<open>Everything before and, if present, after the first occurrence of a character.\<close>

fun split_at :: "char \<Rightarrow> string \<Rightarrow> string \<times> string option" where
  "split_at c [] = ([], None)"
| "split_at c (x # xs) =
     (if x = c then ([], Some xs) else let (a, b) = split_at c xs in (x # a, b))"

text \<open>Values at or beyond this magnitude do not fit a double.\<close>

definition double_limit :: int where
  "double_limit = 2 ^ 1024 - 2 ^ 970"

definition round_double :: "real \<Rightarrow> pfloat" where
  "round_double x =
     (if x \<ge> of_int double_limit then PosInf
      else if x \<le> - of_int double_limit then NegInf else Fin x)"

definition decimal_value :: "string \<Rightarrow> string \<Rightarrow> int \<Rightarrow> real" where
  "decimal_value ip fp e =
     (real_of_int (digits_value ip)
        + real_of_int (digits_value fp) / 10 ^ length (filter is_digit fp))
     * (if 0 \<le> e then 10 ^ nat e else 1 / 10 ^ nat (- e))"

definition float_of_string :: "string \<Rightarrow> pfloat option" where
  "float_of_string s =
     (let (sg, body) = split_sign (map lower_char (strip s))
      in if body = ''inf'' \<or> body = ''infinity'' then Some (if sg = 1 then PosInf else NegInf)
         else if body = ''nan'' then Some NaN
         else
           let (mant, ex) = split_at (CHR ''e'') body;
               (ip, fpo) = split_at (CHR ''.'') mant;
               fp = (case fpo of None \<Rightarrow> [] | Some f \<Rightarrow> f);
               ok_mant = ((ip \<noteq> [] \<or> fp \<noteq> [])
                 \<and> (ip = [] \<or> digit_group ip) \<and> (fp = [] \<or> digit_group fp));
               exv = (case ex of
                   None \<Rightarrow> Some 0
                 | Some e \<Rightarrow> (let (esg, ed) = split_sign e
                              in if digit_group ed then Some (esg * digits_value ed) else None))
           in case exv of
                None \<Rightarrow> None
              | Some e \<Rightarrow>
                  if ok_mant
                  then Some (round_double (of_int sg * decimal_value ip fp e))
                  else None)"

section \<open>int(x) and float(x)\<close>

fun py_int :: "json \<Rightarrow> int result" where
  "py_int (JInt n) = Inr n"
| "py_int (JBool b) = Inr (if b then 1 else 0)"
| "py_int (JFloat (Fin r)) = Inr (if 0 \<le> r then \<lfloor>r\<rfloor> else \<lceil>r\<rceil>)"
| "py_int (JFloat NaN) = Inl ValueError"
| "py_int (JFloat _) = Inl OverflowError"
| "py_int (JStr s) = (case int_of_string s of Some n \<Rightarrow> Inr n | None \<Rightarrow> Inl ValueError)"
| "py_int _ = Inl TypeError"

fun py_float :: "json \<Rightarrow> pfloat result" where
  "py_float (JFloat f) = Inr f"
| "py_float (JInt n) = (if \<bar>n\<bar> < double_limit then Inr (Fin (of_int n)) else Inl OverflowError)"
| "py_float (JBool b) = Inr (Fin (if b then 1 else 0))"
| "py_float (JStr s) = (case float_of_string s of Some f \<Rightarrow> Inr f | None \<Rightarrow> Inl ValueError)"
| "py_float _ = Inl TypeError"

text \<open>The only exceptions the two conversions raise.\<close>

lemma py_int_errors: "py_int v = Inl e \<Longrightarrow> e \<in> {ValueError, TypeError, OverflowError}"
  by (cases v rule: py_int.cases) (auto split: option.splits)

lemma py_float_errors: "py_float v = Inl e \<Longrightarrow> e \<in> {ValueError, TypeError, OverflowError}"
  by (cases v) (auto split: option.splits if_splits)

end
