(* ===== verification/Pod_Contract.thy ===== *)
theory Pod_Contract
  imports Prelude
begin

text \<open>
  \<open>neural_pods/pod_contract.py\<close>: pod manifests, links between pods and the lifecycle gate.

  \<^item> \<open>pod_manifest\<close> and \<open>make_manifest\<close>: the frozen dataclass \<open>PodManifest\<close> and the checks of its
    \<open>__post_init__\<close>; \<open>as_dict\<close> is the field dictionary, whose tuples have become lists.
  \<^item> \<open>pod_link\<close>, \<open>link_validate\<close>, \<open>link_next_hop\<close>: \<open>PodLink\<close> and its two methods.
  \<^item> \<open>lifecycle_transition\<close>: \<open>LifecycleGate.transition\<close>; \<open>promotes\<close> is a history of transitions.

  A field that the code compares with a tuple literal keeps the distinction between a Python
  tuple and a Python list (\<open>pyseq\<close>): the two are never equal. \<open>manifest_hash\<close> is SHA-256 of the
  canonical JSON of \<open>as_dict()\<close>: a parameter \<open>H\<close> applied to that dictionary.
\<close>

section \<open>Manifests\<close>

datatype pyseq = PyTuple "string list" | PyList "string list"

fun seq_items :: "pyseq \<Rightarrow> string list" where
  "seq_items (PyTuple xs) = xs"
| "seq_items (PyList xs) = xs"

record pod_manifest =
  pm_pod_id :: string
  pm_generation :: string
  pm_artifact_id :: string
  pm_pod_type :: string
  pm_model_track :: string
  pm_model_family :: string
  pm_interface :: string
  pm_capabilities :: pyseq
  pm_tags :: pyseq
  pm_namespace :: string
  pm_acl :: pyseq
  pm_status :: string
  pm_provenance :: "(string, string) dict"

definition lifecycle_statuses :: "string list" where
  "lifecycle_statuses =
     [''candidate'', ''trained'', ''evaluated'', ''approved'', ''active'', ''superseded'',
      ''retired'', ''revoked'']"

text \<open>\<open>PodManifest(...)\<close>: construction runs \<open>__post_init__\<close>.\<close>

definition make_manifest :: "pod_manifest \<Rightarrow> pod_manifest result" where
  "make_manifest m =
     (if pm_pod_id m = [] \<or> pm_generation m = [] \<or> pm_artifact_id m = [] then Inl ValueError
      else if pm_status m \<notin> set lifecycle_statuses then Inl ValueError
      else if seq_items (pm_capabilities m) = [] then Inl ValueError
      else if dget (pm_provenance m) ''origin_key'' = None then Inl ValueError
      else Inr m)"

text \<open>\<open>as_dict\<close>: the same fields, with three sequences turned into lists.\<close>

definition manifest_as_dict :: "pod_manifest \<Rightarrow> pod_manifest" where
  "manifest_as_dict m =
     m\<lparr>pm_capabilities := PyList (seq_items (pm_capabilities m)),
       pm_tags := PyList (seq_items (pm_tags m)),
       pm_acl := PyList (seq_items (pm_acl m))\<rparr>"

definition manifest_hash :: "(pod_manifest \<Rightarrow> string) \<Rightarrow> pod_manifest \<Rightarrow> string" where
  "manifest_hash H m = H (manifest_as_dict m)"

lemma make_manifest_Inr: "make_manifest m = Inr m' \<Longrightarrow> m' = m"
  by (auto simp: make_manifest_def split: if_splits)

lemma manifest_as_dict_idem [simp]:
  "manifest_as_dict (manifest_as_dict m) = manifest_as_dict m"
  by (simp add: manifest_as_dict_def)

section \<open>Links\<close>

record pod_link =
  pl_trace_id :: string
  pl_source_pod_id :: string
  pl_target_pod_id :: string
  pl_target_generation :: string
  pl_artifact_id :: string
  pl_transport :: string
  pl_capability :: string
  pl_acl :: pyseq
  pl_deadline_ms :: int
  pl_hop_budget :: int
  pl_visited :: "string list"
  pl_attestation :: string
  pl_egress_topics :: "string list"
  pl_egress_hosts :: "string list"
  pl_egress_ports :: "int list"

text \<open>\<open>acl != ("*",) and principal not in acl\<close>.\<close>

definition acl_denies :: "pyseq \<Rightarrow> string \<Rightarrow> bool" where
  "acl_denies acl who =
     (acl \<noteq> PyTuple [''*''] \<and> who \<notin> set (seq_items acl))"

definition link_validate ::
    "(pod_manifest \<Rightarrow> string) \<Rightarrow> pod_link \<Rightarrow> pod_manifest \<Rightarrow> string \<Rightarrow> bool result" where
  "link_validate H l t who =
     (if pl_target_pod_id l \<noteq> pm_pod_id t \<or> pl_target_generation l \<noteq> pm_generation t
      then Inl InvalidState
      else if pl_artifact_id l \<noteq> pm_artifact_id t then Inl InvalidState
      else if pl_capability l \<notin> set (seq_items (pm_capabilities t)) then Inl InvalidState
      else if pm_status t \<noteq> ''active'' then Inl InvalidState
      else if acl_denies (pm_acl t) who then Inl InvalidState
      else if acl_denies (pl_acl l) who then Inl InvalidState
      else if pl_deadline_ms l < 1 \<or> pl_hop_budget l < 1 then Inl InvalidState
      else if pl_target_pod_id l \<in> set (pl_visited l) then Inl InvalidState
      else if pl_hop_budget l \<le> int (length (pl_visited l)) then Inl InvalidState
      else if pl_attestation l \<noteq> [] \<and> pl_attestation l \<noteq> manifest_hash H t then Inl InvalidState
      else Inr True)"

definition link_next_hop :: "pod_link \<Rightarrow> pod_link" where
  "link_next_hop l =
     l\<lparr>pl_hop_budget := pl_hop_budget l - 1,
       pl_visited := pl_visited l @ [pl_source_pod_id l]\<rparr>"

lemma link_next_hop_sel [simp]:
  "pl_hop_budget (link_next_hop l) = pl_hop_budget l - 1"
  "pl_visited (link_next_hop l) = pl_visited l @ [pl_source_pod_id l]"
  "pl_source_pod_id (link_next_hop l) = pl_source_pod_id l"
  "pl_target_pod_id (link_next_hop l) = pl_target_pod_id l"
  by (simp_all add: link_next_hop_def)

lemma link_hops_sel:
  "pl_hop_budget ((link_next_hop ^^ n) l) = pl_hop_budget l - int n"
  "pl_visited ((link_next_hop ^^ n) l) = pl_visited l @ replicate n (pl_source_pod_id l)"
  "pl_source_pod_id ((link_next_hop ^^ n) l) = pl_source_pod_id l"
  "pl_target_pod_id ((link_next_hop ^^ n) l) = pl_target_pod_id l"
  by (induction n) (simp_all add: replicate_append_same flip: replicate_append_same)

text \<open>The conditions a link checks of its target, apart from the hop bound.\<close>

definition link_matches ::
    "(pod_manifest \<Rightarrow> string) \<Rightarrow> pod_link \<Rightarrow> pod_manifest \<Rightarrow> string \<Rightarrow> bool" where
  "link_matches H l t who \<longleftrightarrow>
     pl_target_pod_id l = pm_pod_id t \<and> pl_target_generation l = pm_generation t
     \<and> pl_artifact_id l = pm_artifact_id t
     \<and> pl_capability l \<in> set (seq_items (pm_capabilities t))
     \<and> pm_status t = ''active''
     \<and> \<not> acl_denies (pm_acl t) who \<and> \<not> acl_denies (pl_acl l) who
     \<and> (pl_attestation l = [] \<or> pl_attestation l = manifest_hash H t)"

lemma link_validate_iff:
  "link_validate H l t who = Inr b \<longleftrightarrow>
     b \<and> link_matches H l t who \<and> 1 \<le> pl_deadline_ms l \<and> 1 \<le> pl_hop_budget l
     \<and> pl_target_pod_id l \<notin> set (pl_visited l)
     \<and> int (length (pl_visited l)) < pl_hop_budget l"
  by (auto simp: link_validate_def link_matches_def)

lemma link_validate_total: "link_validate H l t p = Inl InvalidState \<or> link_validate H l t p = Inr True"
  by (auto simp: link_validate_def)

lemma link_matches_hops [simp]:
  "link_matches H ((link_next_hop ^^ n) l) t who = link_matches H l t who"
  by (induction n) (auto simp: link_matches_def link_next_hop_def)

lemma link_deadline_hops [simp]: "pl_deadline_ms ((link_next_hop ^^ n) l) = pl_deadline_ms l"
  by (induction n) (auto simp: link_next_hop_def)

section \<open>The lifecycle gate\<close>

fun allowed_transitions :: "string \<Rightarrow> string list" where
  "allowed_transitions s =
     (if s = ''candidate'' then [''trained'']
      else if s = ''trained'' then [''evaluated'']
      else if s = ''evaluated'' then [''approved'', ''candidate'']
      else if s = ''approved'' then [''active'']
      else if s = ''active'' then [''superseded'', ''revoked'', ''retired'']
      else [])"

definition required_checks :: "string list" where
  "required_checks = [''manifest_hash'', ''provenance'', ''base_identity'']"

definition checks_pass :: "(string, bool) dict \<Rightarrow> bool" where
  "checks_pass checks = (\<forall>k \<in> set required_checks. dget checks k = Some True)"

definition lifecycle_transition ::
    "pod_manifest \<Rightarrow> string \<Rightarrow> (string, bool) dict \<Rightarrow> pod_manifest result" where
  "lifecycle_transition m status checks =
     (if status \<notin> set (allowed_transitions (pm_status m)) then Inl InvalidState
      else if status \<in> {''evaluated'', ''approved'', ''active''} \<and> \<not> checks_pass checks
        then Inl InvalidState
      else make_manifest ((manifest_as_dict m)\<lparr>pm_status := status\<rparr>))"

lemma lifecycle_transition_Inr:
  assumes "lifecycle_transition m s c = Inr m'"
  shows "m' = (manifest_as_dict m)\<lparr>pm_status := s\<rparr>"
    and "s \<in> set (allowed_transitions (pm_status m))"
    and "s \<in> {''evaluated'', ''approved'', ''active''} \<Longrightarrow> checks_pass c"
  using assms by (auto simp: lifecycle_transition_def dest!: make_manifest_Inr split: if_splits)

text \<open>A history of transitions, each with the checks it was given.\<close>

inductive promotes ::
    "pod_manifest \<Rightarrow> (string \<times> (string, bool) dict) list \<Rightarrow> pod_manifest \<Rightarrow> bool" where
  promotes_refl: "promotes m [] m"
| promotes_step: "promotes m h m' \<Longrightarrow> lifecycle_transition m' s c = Inr m'' \<Longrightarrow>
     promotes m (h @ [(s, c)]) m''"

inductive_cases promotes_snocE: "promotes m (h @ [x]) m''"

lemma promotes_active_history:
  assumes "promotes m h m'" and "pm_status m = ''candidate''"
  shows "(pm_status m' \<in> {''evaluated'', ''approved'', ''active'', ''superseded'', ''revoked'', ''retired''}
            \<longrightarrow> (\<exists>c. (''evaluated'', c) \<in> set h \<and> checks_pass c))
       \<and> (pm_status m' \<in> {''approved'', ''active'', ''superseded'', ''revoked'', ''retired''}
            \<longrightarrow> (\<exists>c. (''approved'', c) \<in> set h \<and> checks_pass c))
       \<and> (pm_status m' \<in> {''active'', ''superseded'', ''revoked'', ''retired''}
            \<longrightarrow> (\<exists>c. (''active'', c) \<in> set h \<and> checks_pass c))"
  using assms
proof (induction rule: promotes.induct)
  case (promotes_step m h m' s c m'')
  note tr = lifecycle_transition_Inr [OF promotes_step.hyps(2)]
  have "pm_status m'' = s" using tr(1) by simp
  with tr(2,3) promotes_step.IH [OF promotes_step.prems] show ?case
    by (auto split: if_splits)
qed simp

section \<open>Properties\<close>

definition sample_manifest :: pod_manifest where
  "sample_manifest =
     \<lparr>pm_pod_id = ''pod:reader'', pm_generation = ''g8'', pm_artifact_id = ''artifact:reader:g8'',
      pm_pod_type = ''reader'', pm_model_track = ''track'', pm_model_family = ''family'',
      pm_interface = ''openai_chat'', pm_capabilities = PyTuple [''answer''],
      pm_tags = PyTuple [], pm_namespace = ''default'', pm_acl = PyTuple [''*''],
      pm_status = ''active'', pm_provenance = [(''origin_key'', ''src:1'')]\<rparr>"

definition sample_link :: pod_link where
  "sample_link =
     \<lparr>pl_trace_id = ''t'', pl_source_pod_id = ''pod:research'', pl_target_pod_id = ''pod:reader'',
      pl_target_generation = ''g8'', pl_artifact_id = ''artifact:reader:g8'',
      pl_transport = ''ssh'', pl_capability = ''answer'', pl_acl = PyTuple [''*''],
      pl_deadline_ms = 1500, pl_hop_budget = 3, pl_visited = [], pl_attestation = [],
      pl_egress_topics = [], pl_egress_hosts = [], pl_egress_ports = []\<rparr>"

lemmas sample_defs = sample_manifest_def sample_link_def

text \<open>The hop budget of a link is spent twice per hop: \<open>next_hop\<close> both lowers the budget and
  lengthens \<open>visited\<close>, and \<open>validate\<close> compares the two. A link that starts with an empty
  \<open>visited\<close> and validates, between two different pods, still validates after \<open>n\<close> hops exactly
  when \<open>2 * n < hop_budget\<close>: a budget of \<open>b\<close> carries half of \<open>b\<close> hops.\<close>

theorem link_budget_spent_twice:
  assumes "pl_visited l = []" and "pl_source_pod_id l \<noteq> pl_target_pod_id l"
    and "link_validate H l t who = Inr True"
  shows "link_validate H ((link_next_hop ^^ n) l) t who = Inr True \<longleftrightarrow> 2 * int n < pl_hop_budget l"
  using assms by (auto simp: link_validate_iff link_hops_sel)

theorem link_budget_spent_twice_witness:
  "link_validate (\<lambda>_. []) sample_link sample_manifest ''local'' = Inr True
   \<and> link_validate (\<lambda>_. []) ((link_next_hop ^^ 1) sample_link) sample_manifest ''local'' = Inr True
   \<and> link_validate (\<lambda>_. []) ((link_next_hop ^^ 2) sample_link) sample_manifest ''local''
       \<noteq> Inr True"
proof -
  have v: "link_validate (\<lambda>_. []) sample_link sample_manifest ''local'' = Inr True"
    by (simp add: link_validate_def sample_defs acl_denies_def)
  have p: "pl_visited sample_link = []" "pl_source_pod_id sample_link \<noteq> pl_target_pod_id sample_link"
    and b: "pl_hop_budget sample_link = 3"
    by (simp_all add: sample_defs)
  note spent = link_budget_spent_twice [OF p v, unfolded b]
  from v spent [of 1] spent [of 2] show ?thesis
    by simp
qed

lemma checks_pass_exact:
  "checks_pass c \<longleftrightarrow> dget c ''manifest_hash'' = Some True \<and> dget c ''provenance'' = Some True
     \<and> dget c ''base_identity'' = Some True"
  by (simp add: checks_pass_def required_checks_def)

text \<open>C10. A manifest reaches status \<open>active\<close> from \<open>candidate\<close> only through the states
  \<open>evaluated\<close>, \<open>approved\<close> and \<open>active\<close>, and each of the three transitions was taken with the
  manifest hash, provenance and base identity checks all true.\<close>

theorem active_needs_checked_promotion:
  assumes "promotes m h m'" and "pm_status m = ''candidate''" and "pm_status m' = ''active''"
  shows "\<forall>status \<in> {''evaluated'', ''approved'', ''active''}. \<exists>c. (status, c) \<in> set h
    \<and> dget c ''manifest_hash'' = Some True \<and> dget c ''provenance'' = Some True
    \<and> dget c ''base_identity'' = Some True"
  using promotes_active_history [OF assms(1,2)] assms(3)
  unfolding checks_pass_exact by auto

definition good_checks :: "(string, bool) dict" where
  "good_checks = map (\<lambda>k. (k, True)) required_checks"

lemma sample_promotion:
  "promotes (sample_manifest\<lparr>pm_status := ''candidate''\<rparr>)
     [(''trained'', []), (''evaluated'', good_checks), (''approved'', good_checks),
      (''active'', good_checks)]
     (manifest_as_dict sample_manifest)"
proof -
  let ?m = "\<lambda>s. (manifest_as_dict sample_manifest)\<lparr>pm_status := s\<rparr>"
  let ?c = "sample_manifest\<lparr>pm_status := ''candidate''\<rparr>"
  note defs = lifecycle_transition_def manifest_as_dict_def make_manifest_def sample_manifest_def
    lifecycle_statuses_def checks_pass_def good_checks_def required_checks_def
  have "promotes ?c ([] @ [(''trained'', [])]) (?m ''trained'')"
    by (rule promotes_step [OF promotes_refl]) (simp add: defs)
  then have "promotes ?c (([] @ [(''trained'', [])]) @ [(''evaluated'', good_checks)]) (?m ''evaluated'')"
    by (rule promotes_step) (simp add: defs)
  then have "promotes ?c ((([] @ [(''trained'', [])]) @ [(''evaluated'', good_checks)])
      @ [(''approved'', good_checks)]) (?m ''approved'')"
    by (rule promotes_step) (simp add: defs)
  then have "promotes ?c (((([] @ [(''trained'', [])]) @ [(''evaluated'', good_checks)])
      @ [(''approved'', good_checks)]) @ [(''active'', good_checks)]) (?m ''active'')"
    by (rule promotes_step) (simp add: defs)
  then show ?thesis
    by (simp add: manifest_as_dict_def sample_manifest_def)
qed

theorem active_needs_checked_promotion_witness:
  "promotes (sample_manifest\<lparr>pm_status := ''candidate''\<rparr>)
     [(''trained'', []), (''evaluated'', good_checks), (''approved'', good_checks),
      (''active'', good_checks)]
     (manifest_as_dict sample_manifest)
   \<and> (\<exists>c. (''approved'', c) \<in> set [(''trained'', []), (''evaluated'', good_checks),
          (''approved'', good_checks), (''active'', good_checks)] \<and> dget c ''provenance'' = Some True)"
proof -
  have s: "pm_status (sample_manifest\<lparr>pm_status := ''candidate''\<rparr>) = ''candidate''"
    "pm_status (manifest_as_dict sample_manifest) = ''active''"
    by (simp_all add: manifest_as_dict_def sample_manifest_def)
  from active_needs_checked_promotion [OF sample_promotion s] sample_promotion show ?thesis
    by blast
qed

text \<open>A manifest that has gone through \<open>LifecycleGate.transition\<close> loses its wildcard ACL:
  \<open>as_dict\<close> has turned the tuple \<open>("*",)\<close> into the list \<open>["*"]\<close>, which \<open>validate\<close> does not
  recognise, so every link to the promoted pod is denied for every principal but the literal
  \<open>"*"\<close>. A freshly built manifest with the same fields admits the principal.\<close>

theorem transition_loses_wildcard_acl:
  assumes "lifecycle_transition m s c = Inr m'" and "pm_acl m = PyTuple [''*'']" and "who \<noteq> ''*''"
  shows "\<not> acl_denies (pm_acl m) who \<and> link_validate H l m' who = Inl InvalidState"
proof -
  have "acl_denies (pm_acl m') who"
    using lifecycle_transition_Inr(1) [OF assms(1)] assms(2,3)
    by (simp add: manifest_as_dict_def acl_denies_def)
  then have "link_validate H l m' who = Inl InvalidState"
    by (simp add: link_validate_def)
  with assms(2) show ?thesis
    by (simp add: acl_denies_def)
qed

theorem transition_loses_wildcard_acl_witness:
  "\<exists>m'. lifecycle_transition (sample_manifest\<lparr>pm_status := ''approved''\<rparr>) ''active'' good_checks = Inr m'
     \<and> link_validate (\<lambda>_. []) sample_link sample_manifest ''local'' = Inr True
     \<and> link_validate (\<lambda>_. []) sample_link m' ''local'' = Inl InvalidState"
proof -
  let ?m = "sample_manifest\<lparr>pm_status := ''approved''\<rparr>"
  have tr: "lifecycle_transition ?m ''active'' good_checks
      = Inr ((manifest_as_dict ?m)\<lparr>pm_status := ''active''\<rparr>)"
    by (simp add: lifecycle_transition_def manifest_as_dict_def make_manifest_def
        sample_manifest_def lifecycle_statuses_def checks_pass_def good_checks_def required_checks_def)
  have acl: "pm_acl ?m = PyTuple [''*'']" "''local'' \<noteq> ''*''"
    by (simp_all add: sample_manifest_def)
  have "link_validate (\<lambda>_. []) sample_link sample_manifest ''local'' = Inr True"
    by (simp add: link_validate_def sample_defs acl_denies_def)
  with tr transition_loses_wildcard_acl [OF tr acl] show ?thesis
    by blast
qed

end
