(* ===== verification/Mesh.thy ===== *)
theory Mesh
  imports Py_Values Pod_Contract
begin

text \<open>
  \<open>neural_pods/mesh.py\<close>: the MQTT endpoint of one pod.

  \<^item> \<open>envelope_refusal\<close>: the bounds check shared by the arriving and the departing side.
  \<^item> \<open>endpoint\<close>: the state of \<open>MeshEndpoint\<close> (identity, ACL, key, counters, handlers); the
    operations \<open>mesh_publish\<close>, \<open>mesh_forward\<close>, \<open>mesh_publish_raw\<close>, \<open>mesh_subscribe\<close>,
    \<open>mesh_on_message\<close>, \<open>mesh_announce\<close> and \<open>mesh_close\<close>.
  \<^item> \<open>topic_allowed\<close> and \<open>topic_matches\<close>: the two topic walks; \<open>mqtt_match\<close> is the meaning of an
    MQTT topic filter, level by level.

  An envelope is the dictionary \<open>json.loads\<close> returns. \<open>time.time() * 1000\<close> is an argument \<open>now\<close>,
  the return codes of the broker client's 15 attempts are an argument \<open>rc\<close>, and the keyed hash
  (HMAC-SHA256 over the canonical JSON text) is an argument \<open>mac\<close> applied to the key and the
  canonical envelope: all pairs but the signature, sorted by key at every level, which is what
  the text renders. A message handed to the broker and accepted is a triple of topic, envelope
  and retain flag. Handlers are named by numbers; running them is not modelled, and the
  connection, the heartbeat timer and the network thread are not either.
\<close>

section \<open>The bounds of an envelope\<close>

type_synonym envelope = "(string, json) dict"

definition PROTOCOL_VERSION :: int where
  "PROTOCOL_VERSION = 1"

datatype refusal = Malformed | Expired | Unbounded | Cycle | Hop_Exhausted

text \<open>\<open>float(started) + float(deadline)\<close> under \<open>try ... except (TypeError, ValueError)\<close>.\<close>

definition deadline_expired :: "json \<Rightarrow> json \<Rightarrow> pfloat \<Rightarrow> bool result" where
  "deadline_expired started deadline now =
     (case py_float started of
        Inl e \<Rightarrow> Inl e
      | Inr s \<Rightarrow> (case py_float deadline of
            Inl e \<Rightarrow> Inl e
          | Inr d \<Rightarrow> Inr (pf_gt now (pf_add s d))))"

definition budget_refusal :: "json \<Rightarrow> json list \<Rightarrow> string \<Rightarrow> bool \<Rightarrow> refusal option result" where
  "budget_refusal budget visited pod forwarding =
     (if budget = JNull then Inr (if forwarding then Some Unbounded else None)
      else case py_int budget of
        Inl e \<Rightarrow> if e = TypeError \<or> e = ValueError then Inr (Some Malformed) else Inl e
      | Inr n \<Rightarrow>
          (let remaining = (if forwarding then n - 1 else n)
           in if forwarding \<and> JStr pod \<in> set visited then Inr (Some Cycle)
              else if remaining \<le> 0 then Inr (Some Hop_Exhausted)
              else Inr None))"

definition envelope_refusal ::
    "envelope \<Rightarrow> string \<Rightarrow> pfloat \<Rightarrow> bool \<Rightarrow> refusal option result" where
  "envelope_refusal env pod now forwarding =
     (let budget = jget env ''hop_budget'';
          visited = (if truthy (jget env ''visited'') then jget env ''visited'' else JList []);
          deadline = jget env ''deadline_ms'';
          started = jget env ''ts_ms''
      in case visited of
           JList vs \<Rightarrow>
             (if deadline \<noteq> JNull \<and> started \<noteq> JNull
              then (case deadline_expired started deadline now of
                  Inl e \<Rightarrow> if e = TypeError \<or> e = ValueError then Inr (Some Malformed) else Inl e
                | Inr True \<Rightarrow> Inr (Some Expired)
                | Inr False \<Rightarrow> budget_refusal budget vs pod forwarding)
              else budget_refusal budget vs pod forwarding)
         | _ \<Rightarrow> Inr (Some Malformed))"

section \<open>Topics\<close>

text \<open>\<open>_topic_allowed\<close>: the walk over one pattern. \<open>i\<close> is the position, \<open>n\<close> the pattern's length.\<close>

fun acl_walk :: "string list \<Rightarrow> nat \<Rightarrow> string list \<Rightarrow> nat \<Rightarrow> bool" where
  "acl_walk [] i ts n = (length ts = n)"
| "acl_walk (p # ps) i ts n =
     (if p = ''#'' then True
      else if p = ''+'' then acl_walk ps (Suc i) ts n
      else if i \<ge> length ts \<or> ts ! i \<noteq> p then False
      else acl_walk ps (Suc i) ts n)"

definition topic_allowed :: "string list \<Rightarrow> string \<Rightarrow> bool" where
  "topic_allowed allowed topic =
     (\<exists>pattern \<in> set allowed.
        acl_walk (split_on CHR ''/'' pattern) 0 (split_on CHR ''/'' topic)
          (length (split_on CHR ''/'' pattern)))"

text \<open>\<open>_topic_matches\<close>.\<close>

fun match_walk :: "string list \<Rightarrow> nat \<Rightarrow> string list \<Rightarrow> nat \<Rightarrow> bool" where
  "match_walk [] i ts n = (n = length ts)"
| "match_walk (p # ps) i ts n =
     (if p = ''#'' then True
      else if i \<ge> length ts then False
      else if p \<noteq> ''+'' \<and> p \<noteq> ts ! i then False
      else match_walk ps (Suc i) ts n)"

definition topic_matches :: "string \<Rightarrow> string \<Rightarrow> bool" where
  "topic_matches pattern topic =
     match_walk (split_on CHR ''/'' pattern) 0 (split_on CHR ''/'' topic)
       (length (split_on CHR ''/'' pattern))"

text \<open>What an MQTT topic filter means: \<open>#\<close> matches the rest, \<open>+\<close> matches one level.\<close>

fun mqtt_match :: "string list \<Rightarrow> string list \<Rightarrow> bool" where
  "mqtt_match [] ts = (ts = [])"
| "mqtt_match (p # ps) [] = (p = ''#'')"
| "mqtt_match (p # ps) (t # ts) =
     (p = ''#'' \<or> ((p = ''+'' \<or> p = t) \<and> mqtt_match ps ts))"

lemma match_walk_mqtt_aux:
  "i \<le> length ts \<Longrightarrow> match_walk ps i ts (i + length ps) = mqtt_match ps (drop i ts)"
proof (induction ps arbitrary: i)
  case Nil
  then show ?case by auto
next
  case (Cons p ps)
  show ?case
  proof (cases "i < length ts")
    case True
    then have "drop i ts = ts ! i # drop (Suc i) ts"
      by (rule Cons_nth_drop_Suc [symmetric])
    with True Cons.IH [of "Suc i"] show ?thesis by auto
  qed simp
qed

lemma topic_matches_mqtt:
  "topic_matches pattern topic
     = mqtt_match (split_on CHR ''/'' pattern) (split_on CHR ''/'' topic)"
  using match_walk_mqtt_aux [of 0] by (simp add: topic_matches_def)

text \<open>A run of \<open>+\<close> levels that ends in \<open>#\<close>.\<close>

fun plus_hash :: "string list \<Rightarrow> bool" where
  "plus_hash [] = False"
| "plus_hash (p # ps) = (p = ''#'' \<or> (p = ''+'' \<and> plus_hash ps))"

lemma acl_walk_overrun:
  "length ts \<le> i \<Longrightarrow> length ts < i + length ps \<or> length ts < i \<Longrightarrow>
     acl_walk ps i ts (i + length ps) = plus_hash ps"
proof (induction ps arbitrary: i)
  case (Cons p ps)
  from Cons.IH [of "Suc i"] Cons.prems show ?case by simp
qed simp

text \<open>
  The pattern levels that the two walks judge differently: after the topic has run out, only
  \<open>+\<close> levels remain before a \<open>#\<close>, and at least one of them.
\<close>

fun overreach :: "string list \<Rightarrow> string list \<Rightarrow> bool" where
  "overreach [] ts = False"
| "overreach (p # ps) [] = (p = ''+'' \<and> plus_hash ps)"
| "overreach (p # ps) (t # ts) = (p \<noteq> ''#'' \<and> (p = ''+'' \<or> p = t) \<and> overreach ps ts)"

lemma acl_walk_mqtt_aux:
  "i \<le> length ts \<Longrightarrow> acl_walk ps i ts (i + length ps)
     \<longleftrightarrow> mqtt_match ps (drop i ts) \<or> overreach ps (drop i ts)"
proof (induction ps arbitrary: i)
  case Nil
  then show ?case by auto
next
  case (Cons p ps)
  show ?case
  proof (cases "i < length ts")
    case True
    then have "drop i ts = ts ! i # drop (Suc i) ts"
      by (rule Cons_nth_drop_Suc [symmetric])
    with True Cons.IH [of "Suc i"] show ?thesis by auto
  next
    case False
    with Cons.prems have "i = length ts" by simp
    then show ?thesis
      using acl_walk_overrun [of ts "Suc i" ps] by auto
  qed
qed

lemma topic_allowed_mqtt:
  "topic_allowed allowed topic \<longleftrightarrow>
     (\<exists>pattern \<in> set allowed.
        mqtt_match (split_on CHR ''/'' pattern) (split_on CHR ''/'' topic)
        \<or> overreach (split_on CHR ''/'' pattern) (split_on CHR ''/'' topic))"
  using acl_walk_mqtt_aux [of 0] by (simp add: topic_allowed_def)

lemma plus_hash_hash: "plus_hash ps \<Longrightarrow> ''#'' \<in> set ps"
  by (induction ps) auto

lemma overreach_plus: "overreach ps ts \<Longrightarrow> ''+'' \<in> set ps \<and> ''#'' \<in> set ps"
  by (induction ps ts rule: overreach.induct) (auto dest: plus_hash_hash)

section \<open>The endpoint\<close>

record endpoint =
  ep_pod_id :: string
  ep_principal :: string
  ep_manifest_hash :: string
  ep_allowed :: "string list"
  ep_secret :: "string option"
  ep_bad_envelopes :: int
  ep_unsigned_rejected :: int
  ep_published :: int
  ep_received :: int
  ep_hop_exhausted :: int
  ep_expired :: int
  ep_forwarded :: int
  ep_handlers :: "(string, nat) dict"

definition new_endpoint ::
    "string \<Rightarrow> string \<Rightarrow> string \<Rightarrow> string list option \<Rightarrow> string option \<Rightarrow> endpoint" where
  "new_endpoint pod who mhash allowed secret =
     \<lparr>ep_pod_id = pod, ep_principal = who, ep_manifest_hash = mhash,
      ep_allowed = (case allowed of None \<Rightarrow> [''np/#''] | Some ts \<Rightarrow> ts), ep_secret = secret,
      ep_bad_envelopes = 0, ep_unsigned_rejected = 0, ep_published = 0, ep_received = 0,
      ep_hop_exhausted = 0, ep_expired = 0, ep_forwarded = 0, ep_handlers = []\<rparr>"

text \<open>\<open>_canonical\<close>: every pair but the signature, keys sorted at every level.\<close>

fun canon_json :: "json \<Rightarrow> json" where
  "canon_json (JList xs) = JList (map canon_json xs)"
| "canon_json (JObj kvs) = JObj (sort_key fst (map (\<lambda>kv. (fst kv, canon_json (snd kv))) kvs))"
| "canon_json v = v"

definition canonical_env :: "envelope \<Rightarrow> (string \<times> json) list" where
  "canonical_env env =
     sort_key fst (map (\<lambda>kv. (fst kv, canon_json (snd kv))) (filter (\<lambda>kv. fst kv \<noteq> ''sig'') env))"

type_synonym mac = "string \<Rightarrow> (string \<times> json) list \<Rightarrow> string"

definition sign_env :: "mac \<Rightarrow> endpoint \<Rightarrow> envelope \<Rightarrow> envelope" where
  "sign_env mac ep env =
     (case ep_secret ep of
        None \<Rightarrow> env
      | Some k \<Rightarrow> dput ''sig'' (JStr (mac k (canonical_env env))) env)"

text \<open>\<open>compare_digest\<close> raises \<open>TypeError\<close> on a signature that is not ASCII; here it is a wrong one.\<close>

definition signature_ok :: "mac \<Rightarrow> endpoint \<Rightarrow> envelope \<Rightarrow> bool" where
  "signature_ok mac ep env =
     (case ep_secret ep of
        None \<Rightarrow> True
      | Some k \<Rightarrow> (case jget env ''sig'' of
            JStr s \<Rightarrow> s = mac k (canonical_env env)
          | _ \<Rightarrow> False))"

text \<open>
  The 15 attempts of \<open>_publish_raw\<close>: \<open>rc i\<close> is the return code of attempt \<open>i\<close>, and the loop
  stops at the first 0. Afterwards \<open>published\<close> counts up whether or not any attempt succeeded.
\<close>

fun broker_accepts :: "(nat \<Rightarrow> int) \<Rightarrow> nat \<Rightarrow> nat \<Rightarrow> bool" where
  "broker_accepts rc i 0 = False"
| "broker_accepts rc i (Suc left) = (rc i = 0 \<or> broker_accepts rc (Suc i) left)"

type_synonym wire = "(string \<times> envelope \<times> bool) list"

definition stamp_env :: "endpoint \<Rightarrow> real \<Rightarrow> envelope \<Rightarrow> envelope" where
  "stamp_env ep now env =
     dsetdefault ''ts_ms'' (JInt \<lfloor>now\<rfloor>)
       (dsetdefault ''protocol_version'' (JInt PROTOCOL_VERSION)
         (dsetdefault ''principal'' (JStr (ep_principal ep))
           (dsetdefault ''manifest_hash'' (JStr (ep_manifest_hash ep)) env)))"

definition mesh_publish_env ::
    "mac \<Rightarrow> (nat \<Rightarrow> int) \<Rightarrow> real \<Rightarrow> endpoint \<Rightarrow> string \<Rightarrow> envelope \<Rightarrow> bool \<Rightarrow> endpoint \<times> wire" where
  "mesh_publish_env mac rc now ep topic env retain =
     (let signed = sign_env mac ep (stamp_env ep now env)
      in (ep\<lparr>ep_published := ep_published ep + 1\<rparr>,
          if broker_accepts rc 0 15 then [(topic, signed, retain)] else []))"

section \<open>Publishing, forwarding, subscribing\<close>

definition presence_topic :: "endpoint \<Rightarrow> string" where
  "presence_topic ep = ''np/presence/'' @ ep_pod_id ep"

definition mesh_announce :: "mac \<Rightarrow> (nat \<Rightarrow> int) \<Rightarrow> real \<Rightarrow> endpoint \<Rightarrow> endpoint \<times> wire" where
  "mesh_announce mac rc now ep =
     mesh_publish_env mac rc now ep (presence_topic ep)
       [(''pod_id'', JStr (ep_pod_id ep)), (''principal'', JStr (ep_principal ep)),
        (''manifest_hash'', JStr (ep_manifest_hash ep)),
        (''protocol_version'', JInt PROTOCOL_VERSION), (''state'', JStr ''online'')] True"

definition mesh_close :: "mac \<Rightarrow> (nat \<Rightarrow> int) \<Rightarrow> real \<Rightarrow> endpoint \<Rightarrow> endpoint \<times> wire" where
  "mesh_close mac rc now ep =
     mesh_publish_env mac rc now ep (presence_topic ep)
       [(''pod_id'', JStr (ep_pod_id ep)), (''state'', JStr ''offline''),
        (''protocol_version'', JInt PROTOCOL_VERSION)] True"

text \<open>Construction: connect and announce the presence once.\<close>

definition mesh_init ::
    "mac \<Rightarrow> (nat \<Rightarrow> int) \<Rightarrow> real \<Rightarrow> string \<Rightarrow> string \<Rightarrow> string \<Rightarrow> string list option
       \<Rightarrow> string option \<Rightarrow> endpoint \<times> wire" where
  "mesh_init mac rc now pod who mhash allowed secret =
     mesh_announce mac rc now (new_endpoint pod who mhash allowed secret)"

text \<open>The envelope \<open>publish\<close> builds from its arguments and, if given, from a link's bounds.\<close>

definition publish_env ::
    "json \<Rightarrow> pod_link option \<Rightarrow> int option \<Rightarrow> int option \<Rightarrow> string option \<Rightarrow> envelope" where
  "publish_env body link hop deadline trace =
     (let e0 = [(''body'', body)];
          hop' = (case link of None \<Rightarrow> hop
                  | Some l \<Rightarrow> (case hop of None \<Rightarrow> Some (pl_hop_budget l) | Some h \<Rightarrow> Some h));
          deadline' = (case link of None \<Rightarrow> deadline
                  | Some l \<Rightarrow> (case deadline of None \<Rightarrow> Some (pl_deadline_ms l) | Some d \<Rightarrow> Some d));
          trace' = (case link of None \<Rightarrow> trace
                  | Some l \<Rightarrow> (case trace of None \<Rightarrow> Some (pl_trace_id l)
                      | Some t \<Rightarrow> if t = [] then Some (pl_trace_id l) else Some t));
          e1 = (case link of None \<Rightarrow> e0
                | Some l \<Rightarrow> dput ''visited'' (JList (map JStr (pl_visited l))) e0);
          e2 = (case hop' of None \<Rightarrow> e1
                | Some h \<Rightarrow> dsetdefault ''visited'' (JList []) (dput ''hop_budget'' (JInt h) e1));
          e3 = (case deadline' of None \<Rightarrow> e2 | Some d \<Rightarrow> dput ''deadline_ms'' (JInt d) e2)
      in case trace' of None \<Rightarrow> e3 | Some t \<Rightarrow> dput ''trace_id'' (JStr t) e3)"

definition publish_topic :: "endpoint \<Rightarrow> string option \<Rightarrow> string \<Rightarrow> string" where
  "publish_topic ep target channel =
     (case target of
        Some t \<Rightarrow> if t \<noteq> [] then ''np/'' @ t @ ''/'' @ channel
                  else ''np/'' @ ep_pod_id ep @ ''/'' @ channel
      | None \<Rightarrow> ''np/'' @ ep_pod_id ep @ ''/'' @ channel)"

definition mesh_publish ::
    "mac \<Rightarrow> (nat \<Rightarrow> int) \<Rightarrow> real \<Rightarrow> endpoint \<Rightarrow> string \<Rightarrow> json \<Rightarrow> string option \<Rightarrow> pod_link option
       \<Rightarrow> int option \<Rightarrow> int option \<Rightarrow> string option \<Rightarrow> unit result \<times> endpoint \<times> wire" where
  "mesh_publish mac rc now ep channel body target link hop deadline trace =
     (let topic = publish_topic ep target channel
      in if \<not> topic_allowed (ep_allowed ep) topic then (Inl PermissionError, ep, [])
         else (Inr (),
               mesh_publish_env mac rc now ep topic (publish_env body link hop deadline trace) False))"

text \<open>\<open>publish_raw\<close>: any topic, past the ACL, still signed.\<close>

definition mesh_publish_raw ::
    "mac \<Rightarrow> (nat \<Rightarrow> int) \<Rightarrow> real \<Rightarrow> endpoint \<Rightarrow> string \<Rightarrow> json \<Rightarrow> bool \<Rightarrow> endpoint \<times> wire" where
  "mesh_publish_raw mac rc now ep topic body retain =
     mesh_publish_env mac rc now ep topic [(''body'', body)] retain"

text \<open>\<open>list(v or ())\<close>: a string gives its characters, a dictionary its keys.\<close>

fun py_list :: "json \<Rightarrow> json list result" where
  "py_list (JList xs) = Inr xs"
| "py_list (JStr s) = Inr (map (\<lambda>c. JStr [c]) s)"
| "py_list (JObj kvs) = Inr (map (JStr \<circ> fst) kvs)"
| "py_list v = (if truthy v then Inl TypeError else Inr [])"

definition onward_env :: "endpoint \<Rightarrow> envelope \<Rightarrow> json list \<Rightarrow> int \<Rightarrow> json option \<Rightarrow> envelope" where
  "onward_env ep env visited b body =
     (let o1 = filter (\<lambda>kv. fst kv \<noteq> ''sig'') env;
          o2 = dput ''visited'' (JList (visited @ [JStr (ep_pod_id ep)]))
                 (dput ''hop_budget'' (JInt (b - 1)) o1);
          o3 = (case body of None \<Rightarrow> o2 | Some v \<Rightarrow> dput ''body'' v o2)
      in dput ''manifest_hash'' (JStr (ep_manifest_hash ep))
           (dput ''principal'' (JStr (ep_principal ep)) o3))"

definition mesh_forward ::
    "mac \<Rightarrow> (nat \<Rightarrow> int) \<Rightarrow> real \<Rightarrow> endpoint \<Rightarrow> string \<Rightarrow> envelope \<Rightarrow> json option
       \<Rightarrow> bool result \<times> endpoint \<times> wire" where
  "mesh_forward mac rc now ep topic env body =
     (case py_list (jget env ''visited'') of
        Inl e \<Rightarrow> (Inl e, ep, [])
      | Inr visited \<Rightarrow>
          (case envelope_refusal env (ep_pod_id ep) (Fin now) True of
             Inl e \<Rightarrow> (Inl e, ep, [])
           | Inr (Some Unbounded) \<Rightarrow> (Inl ValueError, ep, [])
           | Inr (Some Malformed) \<Rightarrow> (Inr False, ep\<lparr>ep_bad_envelopes := ep_bad_envelopes ep + 1\<rparr>, [])
           | Inr (Some Expired) \<Rightarrow> (Inr False, ep\<lparr>ep_expired := ep_expired ep + 1\<rparr>, [])
           | Inr (Some _) \<Rightarrow> (Inr False, ep\<lparr>ep_hop_exhausted := ep_hop_exhausted ep + 1\<rparr>, [])
           | Inr None \<Rightarrow>
               (if \<not> topic_allowed (ep_allowed ep) topic then (Inl PermissionError, ep, [])
                else case py_int (jget env ''hop_budget'') of
                  Inl e \<Rightarrow> (Inl e, ep, [])
                | Inr b \<Rightarrow>
                    (let (ep', w) = mesh_publish_env mac rc now ep topic
                                      (onward_env ep env visited b body) False
                     in (Inr True, ep'\<lparr>ep_forwarded := ep_forwarded ep' + 1\<rparr>, w)))))"

definition mesh_subscribe :: "endpoint \<Rightarrow> string \<Rightarrow> nat \<Rightarrow> unit result \<times> endpoint" where
  "mesh_subscribe ep topic_filter handler =
     (if \<not> topic_allowed (ep_allowed ep) topic_filter then (Inl PermissionError, ep)
      else (Inr (), ep\<lparr>ep_handlers := dput topic_filter handler (ep_handlers ep)\<rparr>))"

section \<open>Receiving\<close>

text \<open>\<open>v == 1\<close> in Python: integers, booleans and floats compare by value.\<close>

fun json_eq_int :: "json \<Rightarrow> int \<Rightarrow> bool" where
  "json_eq_int (JInt m) n = (m = n)"
| "json_eq_int (JBool b) n = ((if b then 1 else 0) = n)"
| "json_eq_int (JFloat (Fin r)) n = (r = of_int n)"
| "json_eq_int _ n = False"

text \<open>Why a decoded payload is not acted on, or \<open>None\<close>.\<close>

datatype arrival = Bad | Bad_Signature | Arrived_Expired | Out_Of_Hops | Accepted

definition judge_arrival :: "mac \<Rightarrow> endpoint \<Rightarrow> real \<Rightarrow> json option \<Rightarrow> arrival" where
  "judge_arrival mac ep now payload =
     (case payload of
        Some (JObj env) \<Rightarrow>
          (if \<not> json_eq_int (jget env ''protocol_version'') PROTOCOL_VERSION then Bad
           else if dget env ''manifest_hash'' = None \<or> dget env ''principal'' = None then Bad
           else if \<not> signature_ok mac ep env then Bad_Signature
           else (case envelope_refusal env (ep_pod_id ep) (Fin now) False of
               Inl _ \<Rightarrow> Bad
             | Inr (Some Malformed) \<Rightarrow> Bad
             | Inr (Some Expired) \<Rightarrow> Arrived_Expired
             | Inr (Some _) \<Rightarrow> Out_Of_Hops
             | Inr None \<Rightarrow> Accepted))
      | _ \<Rightarrow> Bad)"

definition mesh_on_message ::
    "mac \<Rightarrow> endpoint \<Rightarrow> real \<Rightarrow> string \<Rightarrow> json option \<Rightarrow> endpoint \<times> nat list" where
  "mesh_on_message mac ep now topic payload =
     (case judge_arrival mac ep now payload of
        Bad \<Rightarrow> (ep\<lparr>ep_bad_envelopes := ep_bad_envelopes ep + 1\<rparr>, [])
      | Bad_Signature \<Rightarrow>
          (ep\<lparr>ep_bad_envelopes := ep_bad_envelopes ep + 1,
              ep_unsigned_rejected := ep_unsigned_rejected ep + 1\<rparr>, [])
      | Arrived_Expired \<Rightarrow> (ep\<lparr>ep_expired := ep_expired ep + 1\<rparr>, [])
      | Out_Of_Hops \<Rightarrow> (ep\<lparr>ep_hop_exhausted := ep_hop_exhausted ep + 1\<rparr>, [])
      | Accepted \<Rightarrow>
          (ep\<lparr>ep_received := ep_received ep + 1\<rparr>,
           map snd (filter (\<lambda>(p, h). topic_matches p topic) (ep_handlers ep))))"

text \<open>\<open>wait_for_peer\<close>: what its handler keeps of the presence records that arrive in time.\<close>

definition is_peer_online :: "string \<Rightarrow> envelope \<Rightarrow> bool" where
  "is_peer_online pod env =
     (jget env ''pod_id'' = JStr pod \<and> jget env ''state'' = JStr ''online'')"

definition mesh_wait_for_peer ::
    "endpoint \<Rightarrow> string \<Rightarrow> nat \<Rightarrow> envelope list \<Rightarrow> envelope option result \<times> endpoint" where
  "mesh_wait_for_peer ep pod handler arrivals =
     (case mesh_subscribe ep (''np/presence/'' @ pod) handler of
        (Inl e, ep') \<Rightarrow> (Inl e, ep')
      | (Inr _, ep') \<Rightarrow> (Inr (find (is_peer_online pod) arrivals), ep'))"

section \<open>Signatures and stamps\<close>

named_theorems mesh_simps "reading the fields of an envelope the endpoint has written"

lemma canonical_sig_irrelevant [mesh_simps]:
  "canonical_env (dput ''sig'' v env) = canonical_env env"
proof -
  have "filter (\<lambda>kv. fst kv \<noteq> ''sig'') (dput ''sig'' v env) = filter (\<lambda>kv. fst kv \<noteq> ''sig'') env"
    by (induction env) auto
  then show ?thesis by (simp add: canonical_env_def)
qed

lemma sign_env_ok [mesh_simps]:
  "ep_secret ep' = ep_secret ep \<Longrightarrow> signature_ok mac ep' (sign_env mac ep env)"
  by (auto simp: signature_ok_def sign_env_def jget_put canonical_sig_irrelevant split: option.split)

lemma jget_sign_env [mesh_simps]:
  "k \<noteq> ''sig'' \<Longrightarrow> jget (sign_env mac ep env) k = jget env k"
  by (simp add: sign_env_def jget_put split: option.split)

lemma dget_sign_env [mesh_simps]:
  "k \<noteq> ''sig'' \<Longrightarrow> dget (sign_env mac ep env) k = dget env k"
  by (simp add: sign_env_def update_conv' split: option.split)

lemma dget_stamp_env [mesh_simps]:
  "dget (stamp_env ep now env) k =
     (case dget env k of
        Some v \<Rightarrow> Some v
      | None \<Rightarrow>
          if k = ''ts_ms'' then Some (JInt \<lfloor>now\<rfloor>)
          else if k = ''protocol_version'' then Some (JInt PROTOCOL_VERSION)
          else if k = ''principal'' then Some (JStr (ep_principal ep))
          else if k = ''manifest_hash'' then Some (JStr (ep_manifest_hash ep))
          else None)"
  by (auto simp: stamp_env_def dget_setdefault split: option.split)

lemma jget_stamp_env_other [mesh_simps]:
  "k \<notin> {''ts_ms'', ''protocol_version'', ''principal'', ''manifest_hash''} \<Longrightarrow>
     jget (stamp_env ep now env) k = jget env k"
  by (auto simp: jget_def dget_stamp_env split: option.split)

lemma jget_stamp_env_kept [mesh_simps]:
  "dget env k = Some v \<Longrightarrow> jget (stamp_env ep now env) k = v"
  by (simp add: jget_def dget_stamp_env)

lemma dget_filter_sig: "k \<noteq> ''sig'' \<Longrightarrow> dget (filter (\<lambda>kv. fst kv \<noteq> ''sig'') env) k = dget env k"
  by (induction env) auto

lemma jget_onward [mesh_simps]:
  "jget (onward_env ep env vs b body) ''hop_budget'' = JInt (b - 1)"
  "jget (onward_env ep env vs b body) ''visited'' = JList (vs @ [JStr (ep_pod_id ep)])"
  "k \<notin> {''hop_budget'', ''visited'', ''body'', ''principal'', ''manifest_hash'', ''sig''} \<Longrightarrow>
     dget (onward_env ep env vs b body) k = dget env k"
  by (cases body; simp add: onward_env_def jget_def update_conv' dget_filter_sig Let_def)+

section \<open>What a successful forward did\<close>

lemma budget_refusal_forward_None:
  "budget_refusal v vs pod True = Inr None \<longleftrightarrow>
     (\<exists>b. v \<noteq> JNull \<and> py_int v = Inr b \<and> 2 \<le> b \<and> JStr pod \<notin> set vs)"
  by (auto simp: budget_refusal_def Let_def split: sum.split)

lemma envelope_refusal_None_visited:
  assumes "envelope_refusal env pod now fwd = Inr None"
  obtains vs where "py_list (jget env ''visited'') = Inr vs"
    and "budget_refusal (jget env ''hop_budget'') vs pod fwd = Inr None"
proof (cases "jget env ''visited''")
  case (JList xs)
  then show ?thesis
    using assms that [of xs]
    by (auto simp: envelope_refusal_def Let_def split: if_splits sum.splits bool.splits)
qed (use assms that [of "[]"] in
      \<open>auto simp: envelope_refusal_def Let_def split: if_splits sum.splits bool.splits\<close>)

lemma mesh_forward_True:
  assumes "mesh_forward mac rc now ep topic env body = (Inr True, ep', w)"
  obtains vs b where "py_list (jget env ''visited'') = Inr vs"
    and "py_int (jget env ''hop_budget'') = Inr b" and "2 \<le> b"
    and "JStr (ep_pod_id ep) \<notin> set vs"
    and "topic_allowed (ep_allowed ep) topic"
    and "envelope_refusal env (ep_pod_id ep) (Fin now) True = Inr None"
    and "w = (if broker_accepts rc 0 15
              then [(topic, sign_env mac ep (stamp_env ep now (onward_env ep env vs b body)), False)]
              else [])"
    and "ep' = ep\<lparr>ep_published := ep_published ep + 1, ep_forwarded := ep_forwarded ep + 1\<rparr>"
proof -
  from assms have ref: "envelope_refusal env (ep_pod_id ep) (Fin now) True = Inr None"
    and acl: "topic_allowed (ep_allowed ep) topic"
    by (auto simp: mesh_forward_def split: sum.splits option.splits refusal.splits if_splits)
  from ref obtain vs where vs: "py_list (jget env ''visited'') = Inr vs"
    and bud: "budget_refusal (jget env ''hop_budget'') vs (ep_pod_id ep) True = Inr None"
    by (rule envelope_refusal_None_visited)
  from bud obtain b where b: "py_int (jget env ''hop_budget'') = Inr b" "2 \<le> b"
    "JStr (ep_pod_id ep) \<notin> set vs"
    by (auto simp: budget_refusal_forward_None)
  from assms vs b ref acl show ?thesis
    by (intro that [OF vs b(1,2,3) acl ref])
       (auto simp: mesh_forward_def mesh_publish_env_def Let_def split: if_splits)
qed

text \<open>A message passed on by a row of endpoints, each forwarding what the one before sent.\<close>

inductive relayed :: "mac \<Rightarrow> endpoint list \<Rightarrow> envelope \<Rightarrow> envelope \<Rightarrow> bool" for mac where
  relayed_none: "relayed mac [] e e"
| relayed_hop: "mesh_forward mac rc now ep topic e body = (Inr True, ep', [(topic, e', False)]) \<Longrightarrow>
     relayed mac eps e' e'' \<Longrightarrow> relayed mac (ep # eps) e e''"

inductive_cases relayed_ConsE: "relayed mac (ep # eps) e e''"

lemma forwarded_env_fields:
  assumes "mesh_forward mac rc now ep topic env body = (Inr True, ep', [(topic, env', False)])"
    and "py_list (jget env ''visited'') = Inr vs" and "py_int (jget env ''hop_budget'') = Inr b"
  shows "2 \<le> b" and "JStr (ep_pod_id ep) \<notin> set vs"
    and "jget env' ''hop_budget'' = JInt (b - 1)"
    and "jget env' ''visited'' = JList (vs @ [JStr (ep_pod_id ep)])"
    and "dget env ''ts_ms'' = Some t \<Longrightarrow> jget env' ''ts_ms'' = t"
    and "jget env' ''deadline_ms'' = jget env ''deadline_ms''"
    and "jget env' ''trace_id'' = jget env ''trace_id''"
    and "envelope_refusal env (ep_pod_id ep) (Fin now) True = Inr None"
proof -
  from assms(1) obtain vs' b' where vs': "py_list (jget env ''visited'') = Inr vs'"
    and b': "py_int (jget env ''hop_budget'') = Inr b'" and two: "2 \<le> b'"
    and new: "JStr (ep_pod_id ep) \<notin> set vs'"
    and ref: "envelope_refusal env (ep_pod_id ep) (Fin now) True = Inr None"
    and w: "[(topic, env', False)] = (if broker_accepts rc 0 15
              then [(topic, sign_env mac ep (stamp_env ep now (onward_env ep env vs' b' body)), False)]
              else [])"
    by (rule mesh_forward_True)
  from vs' b' assms(2,3) have eq: "vs' = vs" "b' = b" by simp_all
  from w have env': "env' = sign_env mac ep (stamp_env ep now (onward_env ep env vs b body))"
    by (simp add: eq split: if_splits)
  show "2 \<le> b" "JStr (ep_pod_id ep) \<notin> set vs"
    "envelope_refusal env (ep_pod_id ep) (Fin now) True = Inr None"
    using two new ref eq by simp_all
  show "jget env' ''hop_budget'' = JInt (b - 1)"
    "jget env' ''visited'' = JList (vs @ [JStr (ep_pod_id ep)])"
    by (simp_all add: env' mesh_simps)
  show "dget env ''ts_ms'' = Some t \<Longrightarrow> jget env' ''ts_ms'' = t"
    by (simp add: env' mesh_simps)
  show "jget env' ''deadline_ms'' = jget env ''deadline_ms''"
    "jget env' ''trace_id'' = jget env ''trace_id''"
    by (simp_all add: env' mesh_simps jget_def [of "onward_env _ _ _ _ _"] jget_def [of env])
qed

section \<open>Properties\<close>

text \<open>C6. The hop budget bounds a relay for real: however a message is passed on by endpoints
  that each forward what they were handed, with a budget of \<open>b\<close> at the start there are fewer
  than \<open>b\<close> forwards, no pod forwards it twice and none that was already in \<open>visited\<close> does.\<close>

theorem relay_bounded_and_acyclic:
  assumes "relayed mac eps env env'" and "eps \<noteq> []"
    and "py_list (jget env ''visited'') = Inr vs" and "py_int (jget env ''hop_budget'') = Inr b"
  shows "int (length eps) < b \<and> distinct (map ep_pod_id eps)
    \<and> (JStr ` set (map ep_pod_id eps)) \<inter> set vs = {}"
  using assms
proof (induction arbitrary: vs b rule: relayed.induct)
  case (relayed_hop rc now ep topic e body ep' e' eps e'')
  note f = forwarded_env_fields [OF relayed_hop.hyps(1) relayed_hop.prems(2,3)]
  show ?case
  proof (cases "eps = []")
    case True
    with f(1,2) show ?thesis by auto
  next
    case False
    have "py_list (jget e' ''visited'') = Inr (vs @ [JStr (ep_pod_id ep)])"
      and "py_int (jget e' ''hop_budget'') = Inr (b - 1)"
      by (simp_all add: f(3,4))
    from relayed_hop.IH [OF False this] f(2) show ?thesis
      by auto
  qed
qed simp

definition hop_env :: envelope where
  "hop_env = [(''body'', JStr ''work''), (''visited'', JList []), (''hop_budget'', JInt 3),
     (''deadline_ms'', JInt 500), (''ts_ms'', JInt 1000)]"

definition pod_a :: endpoint where
  "pod_a = new_endpoint ''a'' ''local'' ''h'' None None"

lemma split_np: "split_on CHR ''/'' ''np/x/y'' = [''np'', ''x'', ''y'']"
  and split_np_hash: "split_on CHR ''/'' ''np/#'' = [''np'', ''#'']"
  by simp_all

lemma hop_env_forward:
  "mesh_forward (\<lambda>_ _. []) (\<lambda>_. 0) 1200 pod_a ''np/x/y'' hop_env None =
     (Inr True, pod_a\<lparr>ep_published := 1, ep_forwarded := 1\<rparr>,
      [(''np/x/y'', sign_env (\<lambda>_ _. []) pod_a
          (stamp_env pod_a 1200 (onward_env pod_a hop_env [] 3 None)), False)])"
  by (simp add: mesh_forward_def hop_env_def pod_a_def new_endpoint_def jget_def
      envelope_refusal_def deadline_expired_def budget_refusal_def double_limit_def
      topic_allowed_def mesh_publish_env_def eval_nat_numeral)

theorem relay_bounded_and_acyclic_witness:
  "\<exists>env'. relayed (\<lambda>_ _. []) [pod_a] hop_env env' \<and> int (length [pod_a]) < 3"
proof -
  let ?env' = "sign_env (\<lambda>_ _. []) pod_a (stamp_env pod_a 1200 (onward_env pod_a hop_env [] 3 None))"
  have r: "relayed (\<lambda>_ _. []) [pod_a] hop_env ?env'"
    by (rule relayed_hop [OF hop_env_forward relayed_none])
  have "py_list (jget hop_env ''visited'') = Inr []" "py_int (jget hop_env ''hop_budget'') = Inr 3"
    by (simp_all add: hop_env_def jget_def)
  from relay_bounded_and_acyclic [OF r _ this] r show ?thesis
    by auto
qed

text \<open>A forward that sends keeps the clock of the request: the budget goes down by one, the
  forwarding pod joins \<open>visited\<close>, and \<open>deadline_ms\<close>, \<open>trace_id\<close> and the original \<open>ts_ms\<close> are
  what they were, so the next hop counts the deadline from when the work was requested.\<close>

theorem forward_keeps_deadline_clock:
  assumes "mesh_forward mac rc now ep topic env body = (Inr True, ep', [(topic, env', False)])"
    and "py_list (jget env ''visited'') = Inr vs" and "py_int (jget env ''hop_budget'') = Inr b"
    and "dget env ''ts_ms'' = Some t"
  shows "jget env' ''hop_budget'' = JInt (b - 1) \<and> 1 \<le> b - 1
    \<and> jget env' ''visited'' = JList (vs @ [JStr (ep_pod_id ep)])
    \<and> jget env' ''ts_ms'' = t
    \<and> jget env' ''deadline_ms'' = jget env ''deadline_ms''
    \<and> jget env' ''trace_id'' = jget env ''trace_id''"
  using forwarded_env_fields [OF assms(1,2,3)] assms(4) by simp

theorem forward_keeps_deadline_clock_witness:
  "jget (sign_env (\<lambda>_ _. []) pod_a (stamp_env pod_a 1200 (onward_env pod_a hop_env [] 3 None)))
     ''ts_ms'' = JInt 1000"
proof -
  have "py_list (jget hop_env ''visited'') = Inr []" "py_int (jget hop_env ''hop_budget'') = Inr 3"
    "dget hop_env ''ts_ms'' = Some (JInt 1000)"
    by (simp_all add: hop_env_def jget_def)
  from forward_keeps_deadline_clock [OF hop_env_forward this] show ?thesis
    by simp
qed

text \<open>C7. Nothing reaches a handler unless the envelope has the protocol version, names a manifest
  and a principal, carries the right signature when the endpoint has a key, and is inside the
  bounds it carries; and every message moves exactly one of the four outcome counters.\<close>

theorem delivered_only_if_admitted:
  assumes "mesh_on_message mac ep now topic payload = (ep', delivered)"
  shows "(delivered \<noteq> [] \<longrightarrow>
      (\<exists>env. payload = Some (JObj env)
         \<and> json_eq_int (jget env ''protocol_version'') PROTOCOL_VERSION
         \<and> dget env ''manifest_hash'' \<noteq> None \<and> dget env ''principal'' \<noteq> None
         \<and> (\<forall>k. ep_secret ep = Some k \<longrightarrow> jget env ''sig'' = JStr (mac k (canonical_env env)))
         \<and> envelope_refusal env (ep_pod_id ep) (Fin now) False = Inr None))
    \<and> ep_received ep' + ep_bad_envelopes ep' + ep_expired ep' + ep_hop_exhausted ep'
        = ep_received ep + ep_bad_envelopes ep + ep_expired ep + ep_hop_exhausted ep + 1"
proof -
  have acc: "judge_arrival mac ep now payload = Accepted \<Longrightarrow>
      \<exists>env. payload = Some (JObj env)
         \<and> json_eq_int (jget env ''protocol_version'') PROTOCOL_VERSION
         \<and> dget env ''manifest_hash'' \<noteq> None \<and> dget env ''principal'' \<noteq> None
         \<and> signature_ok mac ep env
         \<and> envelope_refusal env (ep_pod_id ep) (Fin now) False = Inr None"
    by (auto simp: judge_arrival_def
        split: option.splits json.splits if_splits sum.splits refusal.splits)
  have sig: "signature_ok mac ep env \<Longrightarrow> ep_secret ep = Some k \<Longrightarrow>
      jget env ''sig'' = JStr (mac k (canonical_env env))" for env k
    by (auto simp: signature_ok_def split: json.splits)
  from assms acc sig show ?thesis
    by (auto simp: mesh_on_message_def split: arrival.splits)
qed

definition plain_env :: envelope where
  "plain_env = [(''body'', JStr ''hello''), (''manifest_hash'', JStr ''h''),
     (''principal'', JStr ''local''), (''protocol_version'', JInt 1), (''ts_ms'', JInt 1000)]"

theorem delivered_only_if_admitted_witness:
  "\<exists>ep'. mesh_on_message (\<lambda>_ _. []) (pod_a\<lparr>ep_handlers := [(''np/+'', 7)]\<rparr>) 1200 ''np/b''
       (Some (JObj plain_env)) = (ep', [7])
     \<and> ep_received ep' + ep_bad_envelopes ep' + ep_expired ep' + ep_hop_exhausted ep' = 1"
proof -
  let ?ep = "pod_a\<lparr>ep_handlers := [(''np/+'', 7)]\<rparr>"
  have m: "mesh_on_message (\<lambda>_ _. []) ?ep 1200 ''np/b'' (Some (JObj plain_env))
      = (?ep\<lparr>ep_received := 1\<rparr>, [7])"
    by (simp add: mesh_on_message_def judge_arrival_def plain_env_def pod_a_def new_endpoint_def
        jget_def PROTOCOL_VERSION_def signature_ok_def envelope_refusal_def budget_refusal_def
        topic_matches_def)
  from delivered_only_if_admitted [OF m] m show ?thesis
    by (auto simp: pod_a_def new_endpoint_def)
qed

text \<open>What one pod publishes under a link contract, a second pod of the same household (the same
  key, or none) accepts while the contract's deadline lasts, and hands to every handler whose
  filter matches.\<close>

theorem published_is_delivered:
  assumes "mesh_publish mac rc now ep channel body target (Some l) None None None
             = (Inr (), ep1, [(topic, env, retain)])"
    and "ep_secret peer = ep_secret ep" and "0 < pl_hop_budget l"
    and "now' \<le> of_int (\<lfloor>now\<rfloor> + pl_deadline_ms l)"
    and "\<bar>\<lfloor>now\<rfloor>\<bar> < double_limit" and "\<bar>pl_deadline_ms l\<bar> < double_limit"
  shows "mesh_on_message mac peer now' topic (Some (JObj env))
    = (peer\<lparr>ep_received := ep_received peer + 1\<rparr>,
       map snd (filter (\<lambda>(p, h). topic_matches p topic) (ep_handlers peer)))"
proof -
  let ?e = "publish_env body (Some l) None None None"
  have env: "env = sign_env mac ep (stamp_env ep now ?e)"
    using assms(1) by (auto simp: mesh_publish_def mesh_publish_env_def Let_def split: if_splits)
  have f: "dget ?e ''hop_budget'' = Some (JInt (pl_hop_budget l))"
    "dget ?e ''visited'' = Some (JList (map JStr (pl_visited l)))"
    "dget ?e ''deadline_ms'' = Some (JInt (pl_deadline_ms l))"
    "dget ?e ''ts_ms'' = None" "dget ?e ''protocol_version'' = None"
    by (simp_all add: publish_env_def dict_simps)
  have g: "jget env ''hop_budget'' = JInt (pl_hop_budget l)"
    "jget env ''visited'' = JList (map JStr (pl_visited l))"
    "jget env ''deadline_ms'' = JInt (pl_deadline_ms l)"
    "jget env ''ts_ms'' = JInt \<lfloor>now\<rfloor>" "jget env ''protocol_version'' = JInt PROTOCOL_VERSION"
    "dget env ''manifest_hash'' \<noteq> None" "dget env ''principal'' \<noteq> None"
    by (simp_all add: env f mesh_simps jget_def split: option.split)
  have "envelope_refusal env (ep_pod_id peer) (Fin now') False = Inr None"
    using assms(3-6)
    by (simp add: envelope_refusal_def g deadline_expired_def budget_refusal_def)
  moreover have "signature_ok mac peer env"
    using assms(2) by (simp add: env sign_env_ok)
  ultimately have "judge_arrival mac peer now' (Some (JObj env)) = Accepted"
    using g by (simp add: judge_arrival_def)
  then show ?thesis
    by (simp add: mesh_on_message_def)
qed

theorem published_is_delivered_witness:
  "\<exists>env ep1. mesh_publish (\<lambda>k _. k) (\<lambda>_. 0) 1000 (pod_a\<lparr>ep_secret := Some ''key''\<rparr>) ''work''
       (JStr ''hello'') None (Some sample_link) None None None
         = (Inr (), ep1, [(''np/a/work'', env, False)])
     \<and> snd (mesh_on_message (\<lambda>k _. k)
         (pod_a\<lparr>ep_secret := Some ''key'', ep_handlers := [(''np/a/#'', 4)]\<rparr>) 1400 ''np/a/work''
         (Some (JObj env))) = [4]"
proof -
  let ?ep = "pod_a\<lparr>ep_secret := Some ''key''\<rparr>"
  let ?peer = "pod_a\<lparr>ep_secret := Some ''key'', ep_handlers := [(''np/a/#'', 4)]\<rparr>"
  let ?env = "sign_env (\<lambda>k _. k) ?ep (stamp_env ?ep 1000
      (publish_env (JStr ''hello'') (Some sample_link) None None None))"
  have m: "mesh_publish (\<lambda>k _. k) (\<lambda>_. 0) 1000 ?ep ''work'' (JStr ''hello'') None (Some sample_link)
      None None None = (Inr (), ?ep\<lparr>ep_published := 1\<rparr>, [(''np/a/work'', ?env, False)])"
    by (simp add: mesh_publish_def mesh_publish_env_def publish_topic_def pod_a_def new_endpoint_def
        topic_allowed_def eval_nat_numeral)
  have h: "ep_secret ?peer = ep_secret ?ep" "0 < pl_hop_budget sample_link"
    "(1400::real) \<le> of_int (\<lfloor>1000::real\<rfloor> + pl_deadline_ms sample_link)"
    "\<bar>\<lfloor>1000::real\<rfloor>\<bar> < double_limit" "\<bar>pl_deadline_ms sample_link\<bar> < double_limit"
    by (simp_all add: sample_link_def double_limit_def)
  from published_is_delivered [OF m h] m show ?thesis
    by (simp add: topic_matches_def)
qed

text \<open>Topic filters. \<open>_topic_matches\<close>, which selects the handlers, is exactly the MQTT meaning
  of a filter. \<open>_topic_allowed\<close>, which guards publish and subscribe, is wider: it also admits a
  topic that ends while the pattern still has \<open>+\<close> levels, if a \<open>#\<close> follows them.\<close>

theorem topic_walks_characterised:
  "(topic_matches pattern topic
      \<longleftrightarrow> mqtt_match (split_on CHR ''/'' pattern) (split_on CHR ''/'' topic))
   \<and> (topic_allowed allowed topic \<longleftrightarrow>
       (\<exists>p \<in> set allowed. topic_matches p topic
          \<or> overreach (split_on CHR ''/'' p) (split_on CHR ''/'' topic)))
   \<and> topic_allowed [''np/pods/+/#''] ''np/pods'' \<and> \<not> topic_matches ''np/pods/+/#'' ''np/pods''"
proof -
  have "topic_allowed [''np/pods/+/#''] ''np/pods''" "\<not> topic_matches ''np/pods/+/#'' ''np/pods''"
    by (simp_all add: topic_allowed_def topic_matches_def)
  then show ?thesis
    by (simp add: topic_matches_mqtt topic_allowed_mqtt)
qed

text \<open>The topic ACL compares a subscription filter with the allowed patterns as if it were a
  topic, so a filter wider than its grant passes: an endpoint allowed only \<open>np/+\<close> may subscribe
  to \<open>np/#\<close> and then receives \<open>np/b/private\<close>, which the ACL itself does not admit.\<close>

theorem subscribe_acl_admits_wider_filter:
  "mesh_subscribe (ep\<lparr>ep_allowed := [''np/+'']\<rparr>) ''np/#'' h
     = (Inr (), ep\<lparr>ep_allowed := [''np/+''], ep_handlers := dput ''np/#'' h (ep_handlers ep)\<rparr>)
   \<and> topic_matches ''np/#'' ''np/b/private'' \<and> \<not> topic_allowed [''np/+''] ''np/b/private''"
  by (simp add: mesh_subscribe_def topic_allowed_def topic_matches_def)

text \<open>\<open>forward\<close> lets two kinds of malformed envelope escape as exceptions, uncounted, where the
  arriving side counts both as bad: a budget of JSON \<open>Infinity\<close> (\<open>int\<close> raises \<open>OverflowError\<close>,
  which only \<open>TypeError\<close> and \<open>ValueError\<close> are caught) and a \<open>visited\<close> that is a number
  (\<open>list(5)\<close> runs before the check).\<close>

theorem forward_raises_on_malformed:
  assumes "ep_secret ep = None"
  shows "mesh_forward mac rc now ep topic ((''hop_budget'', JFloat PosInf) # plain_env) body
           = (Inl OverflowError, ep, [])
    \<and> mesh_forward mac rc now ep topic ((''visited'', JInt 5) # plain_env) body
           = (Inl TypeError, ep, [])
    \<and> mesh_on_message mac ep now topic (Some (JObj ((''hop_budget'', JFloat PosInf) # plain_env)))
           = (ep\<lparr>ep_bad_envelopes := ep_bad_envelopes ep + 1\<rparr>, [])
    \<and> mesh_on_message mac ep now topic (Some (JObj ((''visited'', JInt 5) # plain_env)))
           = (ep\<lparr>ep_bad_envelopes := ep_bad_envelopes ep + 1\<rparr>, [])"
  using assms
  by (simp add: mesh_forward_def mesh_on_message_def judge_arrival_def plain_env_def jget_def
      envelope_refusal_def budget_refusal_def signature_ok_def PROTOCOL_VERSION_def)

theorem forward_raises_on_malformed_witness:
  "mesh_forward (\<lambda>_ _. []) (\<lambda>_. 0) 1 pod_a ''np/a/x'' ((''visited'', JInt 5) # plain_env) None
     = (Inl TypeError, pod_a, [])"
proof -
  have "ep_secret pod_a = None"
    by (simp add: pod_a_def new_endpoint_def)
  from forward_raises_on_malformed [OF this] show ?thesis
    by simp
qed

end
