(* ===== verification/Registry.thy ===== *)
theory Registry
  imports Py_Values
begin

text \<open>
  \<open>neural_pods/registry.py\<close>: the lineage graph and its commit barrier.

  \<^item> \<open>registry\<close>: the four SQLite tables. A node is content addressed: its id is its kind and the
    digest of kind, payload and parents. \<open>D\<close> is that digest (SHA-256 of the canonical JSON), \<open>C\<close>
    the digest of a content or payload value; both are parameters.
  \<^item> \<open>reg_add\<close>, \<open>reg_ancestors\<close>, \<open>reg_roots\<close>, \<open>reg_valid\<close>: the private steps; \<open>reach\<close> is the
    recursive query (\<open>UNION\<close> keeps each id once), proved to be the reflexive transitive closure.
  \<^item> \<open>reg_origin\<close>, \<open>reg_publish\<close>, \<open>reg_artifact\<close>, \<open>reg_snapshot\<close>, \<open>reg_commit\<close>, \<open>reg_revoke\<close>,
    \<open>reg_record_event\<close>, \<open>reg_events\<close>, \<open>reg_head\<close>: the public methods. Each runs in one transaction
    that rolls back when it raises, so an operation returns either an exception, the state being
    unchanged, or a value and the new state.

  The clock is an argument \<open>now\<close> in seconds. A validity timestamp is parsed text: aware, naive or
  not ISO at all. Opening the database, the write-ahead log, the re-entrant lock and the file
  hashing of adapter directories are not modelled.
\<close>

section \<open>Tables\<close>

datatype iso_time = Aware real | Naive real | Not_Iso

text \<open>The lifecycle of a generation: the interval, the other entries of the dictionary as they came, and the
  generation before it.\<close>

record lifecycle =
  lc_from :: "real option"
  lc_until :: "real option"
  lc_rest :: "(string, json) dict"
  lc_supersedes :: "string option"

datatype reg_payload =
    Origin_Payload string string string string "string list"
  | Knowledge_Payload string int json "string list" "lifecycle option"
  | Artifact_Payload json "string list" "(string \<times> string \<times> int) list" "string list" string

record reg_node =
  nd_kind :: string
  nd_payload :: reg_payload
  nd_revoked :: bool

record reg_event =
  ev_seq :: nat
  ev_action :: string
  ev_payload :: json
  ev_ts :: real

record registry =
  rg_nodes :: "(string, reg_node) dict"
  rg_edges :: "(string \<times> string) list"
  rg_heads :: "(string, int \<times> string) dict"
  rg_events :: "reg_event list"

definition empty_registry :: registry where
  "empty_registry = \<lparr>rg_nodes = [], rg_edges = [], rg_heads = [], rg_events = []\<rparr>"

text \<open>\<open>payload.get("acl", ["*"])\<close>.\<close>

fun payload_acl :: "reg_payload \<Rightarrow> string list" where
  "payload_acl (Origin_Payload _ _ _ _ acl) = acl"
| "payload_acl (Knowledge_Payload _ _ _ acl _) = acl"
| "payload_acl (Artifact_Payload _ _ _ _ _) = [''*'']"

type_synonym digest = "string \<Rightarrow> reg_payload \<Rightarrow> string list \<Rightarrow> string"

definition node_id :: "digest \<Rightarrow> string \<Rightarrow> reg_payload \<Rightarrow> string list \<Rightarrow> string" where
  "node_id D kind payload parents = kind @ '':'' @ D kind payload parents"

section \<open>Events\<close>

definition reg_record_event :: "real \<Rightarrow> string \<Rightarrow> json \<Rightarrow> registry \<Rightarrow> registry" where
  "reg_record_event now action payload r =
     r\<lparr>rg_events := rg_events r @
        [\<lparr>ev_seq = length (rg_events r) + 1, ev_action = action, ev_payload = payload,
          ev_ts = now\<rparr>]\<rparr>"

text \<open>\<open>events(action, limit)\<close>: newest first; SQLite reads a negative limit as none.\<close>

definition reg_events :: "registry \<Rightarrow> string option \<Rightarrow> int \<Rightarrow> reg_event list" where
  "reg_events r action limit =
     (let rows = rev (filter (\<lambda>e. case action of None \<Rightarrow> True | Some a \<Rightarrow> ev_action e = a)
                       (rg_events r))
      in if limit < 0 then rows else take (nat limit) rows)"

definition reg_history :: "registry \<Rightarrow> (string \<times> json) list" where
  "reg_history r = map (\<lambda>e. (ev_action e, ev_payload e)) (rg_events r)"

text \<open>
  The interface other components use: an append-only log. A client proves its own facts about the
  log from this one law.
\<close>

locale event_log =
  fixes record_event :: "string \<Rightarrow> json \<Rightarrow> 's \<Rightarrow> 's"
    and history :: "'s \<Rightarrow> (string \<times> json) list"
  assumes history_record: "history (record_event action payload s) = history s @ [(action, payload)]"
begin

lemma history_fold:
  "history (fold (\<lambda>(a, p). record_event a p) es s) = history s @ es"
  by (induction es arbitrary: s) (auto simp: history_record)

lemma history_kept: "e \<in> set (history s) \<Longrightarrow> e \<in> set (history (record_event a p s))"
  by (simp add: history_record)

end

interpretation reg_log: event_log "reg_record_event now" reg_history for now
  by unfold_locales (simp add: reg_record_event_def reg_history_def)

section \<open>The recursive query\<close>

definition successors :: "(string \<times> string) list \<Rightarrow> string \<Rightarrow> string list" where
  "successors es x = map snd (filter (\<lambda>e. fst e = x) es)"

lemma set_successors [simp]: "set (successors es x) = {y. (x, y) \<in> set es}"
  by (force simp: successors_def)

text \<open>The queue, the rows found so far, and the rows each new row adds to the queue.\<close>

function reach :: "(string \<times> string) list \<Rightarrow> string list \<Rightarrow> string list \<Rightarrow> string list" where
  "reach es [] seen = seen"
| "reach es (x # xs) seen =
     (if x \<in> set seen then reach es xs seen
      else reach es (xs @ successors es x) (seen @ [x]))"
  by pat_completeness auto
termination
proof (relation "measures
    [\<lambda>(es, fr, seen). card ((set fr \<union> snd ` set es) - set seen), \<lambda>(es, fr, seen). length fr]")
  fix es :: "(string \<times> string) list" and x and xs seen :: "string list"
  assume new: "x \<notin> set seen"
  let ?a = "(set (xs @ successors es x) \<union> snd ` set es) - set (seen @ [x])"
  let ?b = "(set (x # xs) \<union> snd ` set es) - set seen"
  have "?a \<subset> ?b" using new by force
  then have "card ?a < card ?b" by (intro psubset_card_mono) auto
  then show "((es, xs @ successors es x, seen @ [x]), (es, x # xs, seen)) \<in> measures
      [\<lambda>(es, fr, seen). card ((set fr \<union> snd ` set es) - set seen), \<lambda>(es, fr, seen). length fr]"
    by simp
next
  fix es :: "(string \<times> string) list" and x and xs seen :: "string list"
  assume "x \<in> set seen"
  then have "(set xs \<union> snd ` set es) - set seen = (set (x # xs) \<union> snd ` set es) - set seen"
    by auto
  then show "((es, xs, seen), (es, x # xs, seen)) \<in> measures
      [\<lambda>(es, fr, seen). card ((set fr \<union> snd ` set es) - set seen), \<lambda>(es, fr, seen). length fr]"
    by simp
qed simp

lemma reach_sound:
  assumes "\<forall>y \<in> set fr \<union> set seen. (r, y) \<in> (set es)\<^sup>*"
  shows "\<forall>y \<in> set (reach es fr seen). (r, y) \<in> (set es)\<^sup>*"
  using assms
proof (induction es fr seen rule: reach.induct)
  case (2 es x xs seen)
  show ?case
  proof (cases "x \<in> set seen")
    case True
    with 2 show ?thesis by simp
  next
    case False
    have "\<forall>y \<in> set (xs @ successors es x) \<union> set (seen @ [x]). (r, y) \<in> (set es)\<^sup>*"
      using "2.prems" by (auto intro: rtrancl_into_rtrancl)
    from "2.IH"(2) [OF False this] False show ?thesis by simp
  qed
qed simp

lemma reach_closed:
  assumes "\<forall>y \<in> set seen. \<forall>z. (y, z) \<in> set es \<longrightarrow> z \<in> set seen \<union> set fr"
  shows "set seen \<union> set fr \<subseteq> set (reach es fr seen)
    \<and> (\<forall>y \<in> set (reach es fr seen). \<forall>z. (y, z) \<in> set es \<longrightarrow> z \<in> set (reach es fr seen))"
  using assms
proof (induction es fr seen rule: reach.induct)
  case (2 es x xs seen)
  show ?case
  proof (cases "x \<in> set seen")
    case True
    then have "\<forall>y \<in> set seen. \<forall>z. (y, z) \<in> set es \<longrightarrow> z \<in> set seen \<union> set xs"
      using "2.prems" by auto
    from "2.IH"(1) [OF True this] True show ?thesis by auto
  next
    case False
    have "\<forall>y \<in> set (seen @ [x]). \<forall>z. (y, z) \<in> set es \<longrightarrow>
        z \<in> set (seen @ [x]) \<union> set (xs @ successors es x)"
      using "2.prems" by auto
    from "2.IH"(2) [OF False this] False show ?thesis by auto
  qed
qed simp

theorem reach_rtrancl: "set (reach es [x] []) = {y. (x, y) \<in> (set es)\<^sup>*}"
proof
  show "set (reach es [x] []) \<subseteq> {y. (x, y) \<in> (set es)\<^sup>*}"
    using reach_sound [of "[x]" "[]" x es] by auto
  have closed: "x \<in> set (reach es [x] [])"
    "\<And>y z. y \<in> set (reach es [x] []) \<Longrightarrow> (y, z) \<in> set es \<Longrightarrow> z \<in> set (reach es [x] [])"
    using reach_closed [of "[]" es "[x]"] by (auto simp del: reach.simps)
  show "{y. (x, y) \<in> (set es)\<^sup>*} \<subseteq> set (reach es [x] [])"
  proof
    fix y assume "y \<in> {y. (x, y) \<in> (set es)\<^sup>*}"
    then have "(x, y) \<in> (set es)\<^sup>*" by simp
    then show "y \<in> set (reach es [x] [])"
      by (induction rule: rtrancl_induct) (auto intro: closed simp del: reach.simps)
  qed
qed

lemma reach_distinct: "distinct seen \<Longrightarrow> distinct (reach es fr seen)"
  by (induction es fr seen rule: reach.induct) auto

section \<open>Reading the graph\<close>

definition reg_get_node :: "registry \<Rightarrow> string \<Rightarrow> reg_node result" where
  "reg_get_node r i = (case dget (rg_nodes r) i of None \<Rightarrow> Inl InvalidState | Some nd \<Rightarrow> Inr nd)"

definition reg_ancestors :: "registry \<Rightarrow> string \<Rightarrow> string list result" where
  "reg_ancestors r i =
     (case reg_get_node r i of Inl e \<Rightarrow> Inl e | Inr _ \<Rightarrow> Inr (reach (rg_edges r) [i] []))"

definition is_origin :: "registry \<Rightarrow> string \<Rightarrow> bool" where
  "is_origin r i =
     (case dget (rg_nodes r) i of None \<Rightarrow> False | Some nd \<Rightarrow> nd_kind nd = ''origin'')"

definition reg_roots :: "registry \<Rightarrow> string \<Rightarrow> string list result" where
  "reg_roots r i =
     (case reg_ancestors r i of Inl e \<Rightarrow> Inl e | Inr as \<Rightarrow> Inr (sort (filter (is_origin r) as)))"

fun reg_independent_origins :: "registry \<Rightarrow> string list \<Rightarrow> string list result" where
  "reg_independent_origins r [] = Inr []"
| "reg_independent_origins r (i # is) =
     (case reg_roots r i of
        Inl e \<Rightarrow> Inl e
      | Inr rs \<Rightarrow> (case reg_independent_origins r is of
            Inl e \<Rightarrow> Inl e
          | Inr rest \<Rightarrow> Inr (sorted_set (rs @ rest))))"

definition reg_head :: "registry \<Rightarrow> string \<Rightarrow> string result" where
  "reg_head r key = (case dget (rg_heads r) key of None \<Rightarrow> Inl InvalidState | Some (g, i) \<Rightarrow> Inr i)"

text \<open>Whether one node of a lineage bars its use by \<open>who\<close> at \<open>now\<close>.\<close>

definition lifecycle_bars :: "real \<Rightarrow> lifecycle option \<Rightarrow> bool" where
  "lifecycle_bars now lc =
     (case lc of
        None \<Rightarrow> False
      | Some l \<Rightarrow>
          (case lc_from l of None \<Rightarrow> False | Some t \<Rightarrow> now < t)
          \<or> (case lc_until l of None \<Rightarrow> False | Some t \<Rightarrow> t \<le> now))"

definition node_bars :: "real \<Rightarrow> registry \<Rightarrow> string \<Rightarrow> string \<Rightarrow> bool" where
  "node_bars now r who i =
     (case dget (rg_nodes r) i of
        None \<Rightarrow> True
      | Some nd \<Rightarrow>
          nd_revoked nd
          \<or> (''*'' \<notin> set (payload_acl (nd_payload nd)) \<and> who \<notin> set (payload_acl (nd_payload nd)))
          \<or> (nd_kind nd = ''knowledge'' \<and>
              (case nd_payload nd of
                 Knowledge_Payload key g sem acl lc \<Rightarrow>
                   lifecycle_bars now lc
                   \<or> (case dget (rg_heads r) key of None \<Rightarrow> True | Some (g', h) \<Rightarrow> h \<noteq> i)
               | _ \<Rightarrow> True)))"

definition reg_valid :: "real \<Rightarrow> registry \<Rightarrow> string \<Rightarrow> string \<Rightarrow> unit result" where
  "reg_valid now r i who =
     (case reg_ancestors r i of
        Inl e \<Rightarrow> Inl e
      | Inr as \<Rightarrow> if list_ex (node_bars now r who) as then Inl InvalidState else Inr ())"

section \<open>Operations\<close>

definition reg_add ::
    "digest \<Rightarrow> registry \<Rightarrow> string \<Rightarrow> reg_payload \<Rightarrow> string list \<Rightarrow> (string \<times> registry) result" where
  "reg_add D r kind payload parents =
     (let ps = sorted_set parents; i = node_id D kind payload ps
      in case dget (rg_nodes r) i of
           Some nd \<Rightarrow> if nd_revoked nd then Inl InvalidState else Inr (i, r)
         | None \<Rightarrow>
             if list_ex (\<lambda>p. dget (rg_nodes r) p = None) ps then Inl InvalidState
             else Inr (i, r\<lparr>rg_nodes := rg_nodes r @
                              [(i, \<lparr>nd_kind = kind, nd_payload = payload, nd_revoked = False\<rparr>)],
                            rg_edges := rg_edges r @ map (\<lambda>p. (i, p)) ps\<rparr>))"

definition reg_origin ::
    "(json \<Rightarrow> string) \<Rightarrow> digest \<Rightarrow> registry \<Rightarrow> string \<Rightarrow> string \<Rightarrow> string \<Rightarrow> json \<Rightarrow> string list
       \<Rightarrow> (string \<times> registry) result" where
  "reg_origin C D r namespace record_id version content acl =
     reg_add D r ''origin''
       (Origin_Payload namespace record_id version (C content) (sorted_set acl)) []"

text \<open>One validity timestamp: absent, or ISO text with a time zone, else \<open>ValueError\<close>.\<close>

fun validity_time :: "iso_time option \<Rightarrow> real option result" where
  "validity_time None = Inr None"
| "validity_time (Some (Aware t)) = Inr (Some t)"
| "validity_time (Some _) = Inl ValueError"

type_synonym lifecycle_arg = "(iso_time option \<times> iso_time option \<times> (string, json) dict) option"

definition check_lifecycle :: "lifecycle_arg \<Rightarrow> (real option \<times> real option \<times> (string, json) dict) option result" where
  "check_lifecycle lc =
     (case lc of
        None \<Rightarrow> Inr None
      | Some (f, u, rest) \<Rightarrow>
          (case validity_time f of
             Inl e \<Rightarrow> Inl e
           | Inr f' \<Rightarrow> (case validity_time u of
                 Inl e \<Rightarrow> Inl e
               | Inr u' \<Rightarrow>
                   (case (f', u') of
                      (Some a, Some b) \<Rightarrow> if b \<le> a then Inl ValueError else Inr (Some (f', u', rest))
                    | _ \<Rightarrow> Inr (Some (f', u', rest))))))"

definition all_valid :: "real \<Rightarrow> registry \<Rightarrow> string list \<Rightarrow> string \<Rightarrow> bool" where
  "all_valid now r is who = list_all (\<lambda>i. is_ok (reg_valid now r i who)) is"

definition reg_publish ::
    "digest \<Rightarrow> real \<Rightarrow> registry \<Rightarrow> string \<Rightarrow> json \<Rightarrow> string list \<Rightarrow> string \<Rightarrow> string list
       \<Rightarrow> lifecycle_arg \<Rightarrow> (string \<times> registry) result" where
  "reg_publish D now r key semantic parents who acl lifecycle =
     (if parents = [] then Inl InvalidState
      else case check_lifecycle lifecycle of
        Inl e \<Rightarrow> Inl e
      | Inr lc \<Rightarrow>
          if \<not> all_valid now r parents who then Inl InvalidState
          else
            (let previous = dget (rg_heads r) key;
                 generation = (case previous of None \<Rightarrow> 1 | Some (g, h) \<Rightarrow> g + 1);
                 lc' = (case lc of
                     None \<Rightarrow> None
                   | Some (f, u, rest) \<Rightarrow>
                       Some \<lparr>lc_from = f, lc_until = u, lc_rest = rest, lc_supersedes = map_option snd previous\<rparr>)
             in case reg_add D r ''knowledge''
                       (Knowledge_Payload key generation semantic (sorted_set acl) lc') parents of
                  Inl e \<Rightarrow> Inl e
                | Inr (i, r') \<Rightarrow>
                    Inr (i, reg_record_event now ''publish''
                              (JObj [(''node'', JStr i), (''knowledge'', JStr key),
                                     (''generation'', JInt generation)])
                              (r'\<lparr>rg_heads := dput key (generation, i) (rg_heads r')\<rparr>))))"

definition artifact_kinds :: "string list" where
  "artifact_kinds =
     [''lora'', ''model'', ''vector'', ''text'', ''jspace'', ''cache'', ''answer'', ''router'',
      ''embedding'', ''ranker'', ''speculator'', ''runtime'', ''policy'', ''quantization'',
      ''vision'']"

text \<open>The origins and the knowledge generations found above the parents.\<close>

definition lineage_of :: "registry \<Rightarrow> string list \<Rightarrow> string list" where
  "lineage_of r parents = remdups (concat (map (\<lambda>p. reach (rg_edges r) [p] []) parents))"

definition generation_entry :: "registry \<Rightarrow> string \<Rightarrow> (string \<times> string \<times> int) list" where
  "generation_entry r i =
     (case dget (rg_nodes r) i of
        None \<Rightarrow> []
      | Some nd \<Rightarrow>
          if nd_kind nd = ''knowledge''
          then (case nd_payload nd of Knowledge_Payload key g _ _ _ \<Rightarrow> [(i, key, g)] | _ \<Rightarrow> [])
          else [])"

definition reg_artifact ::
    "(json \<Rightarrow> string) \<Rightarrow> digest \<Rightarrow> real \<Rightarrow> registry \<Rightarrow> string \<Rightarrow> json \<Rightarrow> string list \<Rightarrow> string
       \<Rightarrow> (string \<times> registry) result" where
  "reg_artifact C D now r kind payload parents who =
     (if kind \<notin> set artifact_kinds then Inl ValueError
      else if parents = [] then Inl InvalidState
      else if \<not> all_valid now r parents who then Inl InvalidState
      else
        (let above = lineage_of r parents;
             origins = filter (is_origin r) above;
             generations = concat (map (generation_entry r) above)
         in if generations = [] \<or> origins = [] then Inl InvalidState
            else reg_add D r kind
                   (Artifact_Payload payload (sort origins) generations (sorted_set parents)
                      (C payload)) parents))"

definition reg_snapshot ::
    "real \<Rightarrow> registry \<Rightarrow> string list \<Rightarrow> string \<Rightarrow> (string list \<times> string) result" where
  "reg_snapshot now r artifacts who =
     (let ids = sorted_set artifacts
      in if ids = [] then Inl InvalidState
         else if \<not> all_valid now r ids who then Inl InvalidState
         else Inr (ids, who))"

definition reg_commit ::
    "(json \<Rightarrow> string) \<Rightarrow> digest \<Rightarrow> real \<Rightarrow> registry \<Rightarrow> string list \<times> string \<Rightarrow> string
       \<Rightarrow> (string \<times> registry) result" where
  "reg_commit C D now r snapshot answer =
     (let (artifacts, who) = snapshot
      in if \<not> all_valid now r artifacts who then Inl InvalidState
         else case reg_artifact C D now r ''answer'' (JObj [(''text'', JStr answer)]) artifacts who of
           Inl e \<Rightarrow> Inl e
         | Inr (i, r') \<Rightarrow>
             Inr (i, reg_record_event now ''commit'' (JObj [(''answer'', JStr i)]) r'))"

definition reg_revoke :: "real \<Rightarrow> registry \<Rightarrow> string \<Rightarrow> (string list \<times> registry) result" where
  "reg_revoke now r i =
     (case reg_get_node r i of
        Inl e \<Rightarrow> Inl e
      | Inr _ \<Rightarrow>
          (let affected = reach (map (\<lambda>e. (snd e, fst e)) (rg_edges r)) [i] []
           in Inr (sort affected,
                   reg_record_event now ''revoke''
                     (JObj [(''root'', JStr i), (''affected'', JList (map JStr affected))])
                     (r\<lparr>rg_nodes := map (\<lambda>(j, nd). (j, if j \<in> set affected
                                                        then nd\<lparr>nd_revoked := True\<rparr> else nd))
                                       (rg_nodes r)\<rparr>))))"

text \<open>Sequences of operations: one that raises leaves the tables alone.\<close>

datatype reg_op =
    Do_Origin string string string json "string list"
  | Do_Publish real string json "string list" string "string list"
      lifecycle_arg
  | Do_Artifact real string json "string list" string
  | Do_Commit real "string list \<times> string" string
  | Do_Revoke real string
  | Do_Event real string json

definition kept :: "registry \<Rightarrow> ('a \<times> registry) result \<Rightarrow> registry" where
  "kept r res = (case res of Inl _ \<Rightarrow> r | Inr (x, r') \<Rightarrow> r')"

fun reg_step :: "(json \<Rightarrow> string) \<Rightarrow> digest \<Rightarrow> registry \<Rightarrow> reg_op \<Rightarrow> registry" where
  "reg_step C D r (Do_Origin ns i v c acl) = kept r (reg_origin C D r ns i v c acl)"
| "reg_step C D r (Do_Publish now k sem ps who acl lc) =
     kept r (reg_publish D now r k sem ps who acl lc)"
| "reg_step C D r (Do_Artifact now kind payload ps who) =
     kept r (reg_artifact C D now r kind payload ps who)"
| "reg_step C D r (Do_Commit now snap answer) = kept r (reg_commit C D now r snap answer)"
| "reg_step C D r (Do_Revoke now i) = kept r (reg_revoke now r i)"
| "reg_step C D r (Do_Event now a p) = reg_record_event now a p r"

section \<open>The invariant of the tables\<close>

definition revoked :: "registry \<Rightarrow> string \<Rightarrow> bool" where
  "revoked r i = (case dget (rg_nodes r) i of None \<Rightarrow> False | Some nd \<Rightarrow> nd_revoked nd)"

definition present :: "registry \<Rightarrow> string \<Rightarrow> bool" where
  "present r i = (dget (rg_nodes r) i \<noteq> None)"

definition lineage :: "registry \<Rightarrow> (string \<times> string) set" where
  "lineage r = (set (rg_edges r))\<^sup>*"

text \<open>The foreign key of the head table.\<close>

definition head_ok :: "registry \<Rightarrow> string \<Rightarrow> bool" where
  "head_ok r key = (\<forall>g i. dget (rg_heads r) key = Some (g, i) \<longrightarrow> present r i)"

definition reg_wf :: "registry \<Rightarrow> bool" where
  "reg_wf r \<longleftrightarrow>
     wf_dict (rg_nodes r)
     \<and> (\<forall>c p. (c, p) \<in> set (rg_edges r) \<longrightarrow> present r c \<and> present r p)
     \<and> acyclic (set (rg_edges r))
     \<and> (\<forall>c p. (c, p) \<in> set (rg_edges r) \<longrightarrow> revoked r p \<longrightarrow> revoked r c)
     \<and> (\<forall>key. head_ok r key)"

lemma reg_wf_empty: "reg_wf empty_registry"
  by (simp add: reg_wf_def empty_registry_def head_ok_def acyclic_def)

lemma revoked_present: "revoked r i \<Longrightarrow> present r i"
  by (auto simp: revoked_def present_def split: option.splits)

lemma record_event_tables [simp]:
  "rg_nodes (reg_record_event now a p r) = rg_nodes r"
  "rg_edges (reg_record_event now a p r) = rg_edges r"
  "rg_heads (reg_record_event now a p r) = rg_heads r"
  by (simp_all add: reg_record_event_def)

lemma record_event_reads [simp]:
  "revoked (reg_record_event now a p r) = revoked r"
  "present (reg_record_event now a p r) = present r"
  "lineage (reg_record_event now a p r) = lineage r"
  "head_ok (reg_record_event now a p r) = head_ok r"
  "reg_wf (reg_record_event now a p r) = reg_wf r"
  unfolding fun_eq_iff revoked_def present_def lineage_def head_ok_def reg_wf_def
    record_event_tables
  by (rule refl allI)+

lemma acyclic_add_source:
  assumes "acyclic E" and "\<forall>(c, p) \<in> E. c \<noteq> x \<and> p \<noteq> x" and "x \<notin> P" and "finite P"
  shows "acyclic (E \<union> {x} \<times> P)"
  using assms(4,3)
proof (induction P rule: finite_induct)
  case empty
  then show ?case using assms(1) by simp
next
  case (insert p P)
  let ?E = "E \<union> {x} \<times> P"
  have no: "\<forall>(c, q) \<in> ?E. q \<noteq> x" using assms(2) insert.prems by auto
  have "(p, x) \<notin> ?E\<^sup>*"
  proof
    assume "(p, x) \<in> ?E\<^sup>*"
    then show False
      using insert.prems no by (cases rule: rtranclE) auto
  qed
  moreover have "acyclic ?E" using insert by auto
  moreover have "E \<union> {x} \<times> insert p P = insert (x, p) ?E" by auto
  ultimately show ?case by (simp add: acyclic_insert)
qed

text \<open>What \<open>_add\<close> does when it succeeds: nothing, or one fresh node and its edges.\<close>

lemma reg_add_cases:
  assumes "reg_add D r kind payload parents = Inr (i, r')"
  obtains
    (old) nd where "r' = r" and "dget (rg_nodes r) i = Some nd" and "\<not> nd_revoked nd"
      and "i = node_id D kind payload (sorted_set parents)"
  | (new) "\<not> present r i" and "\<forall>p \<in> set parents. present r p"
      and "i = node_id D kind payload (sorted_set parents)"
      and "r' = r\<lparr>rg_nodes := rg_nodes r @
                    [(i, \<lparr>nd_kind = kind, nd_payload = payload, nd_revoked = False\<rparr>)],
                  rg_edges := rg_edges r @ map (\<lambda>p. (i, p)) (sorted_set parents)\<rparr>"
  using assms
  by (auto simp: reg_add_def Let_def present_def list_ex_iff split: option.splits if_splits)

lemma reg_add_fresh:
  assumes "reg_add D r kind payload parents = Inr (i, r')" and "\<not> present r i"
  shows "dget (rg_nodes r') j = (if j = i
      then Some \<lparr>nd_kind = kind, nd_payload = payload, nd_revoked = False\<rparr> else dget (rg_nodes r) j)"
    and "set (rg_edges r') = set (rg_edges r) \<union> {i} \<times> set parents"
    and "rg_heads r' = rg_heads r" and "i \<notin> set parents"
  using assms(1)
  by (cases rule: reg_add_cases;
      use assms(2) in \<open>auto simp: present_def map_add_def split: option.split\<close>)+

definition extends :: "registry \<Rightarrow> registry \<Rightarrow> bool" where
  "extends r r' \<longleftrightarrow>
     (\<forall>i nd. dget (rg_nodes r) i = Some nd \<longrightarrow>
        (\<exists>nd'. dget (rg_nodes r') i = Some nd' \<and> nd_kind nd' = nd_kind nd
          \<and> nd_payload nd' = nd_payload nd \<and> (nd_revoked nd \<longrightarrow> nd_revoked nd')))
     \<and> set (rg_edges r) \<subseteq> set (rg_edges r')"

lemma extends_refl [simp]: "extends r r"
  by (simp add: extends_def)

lemma extends_trans: "extends r s \<Longrightarrow> extends s t \<Longrightarrow> extends r t"
  unfolding extends_def by (metis subset_trans)

lemma extends_revoked: "extends r r' \<Longrightarrow> revoked r i \<Longrightarrow> revoked r' i"
  by (fastforce simp: extends_def revoked_def split: option.splits)

lemma extends_lineage: "extends r r' \<Longrightarrow> lineage r \<subseteq> lineage r'"
  by (simp add: extends_def lineage_def rtrancl_mono)

lemma extends_cong:
  "extends r r' \<Longrightarrow> rg_nodes r'' = rg_nodes r' \<Longrightarrow> rg_edges r'' = rg_edges r' \<Longrightarrow> extends r r''"
  by (simp add: extends_def)

lemma reg_add_extends:
  assumes "reg_add D r kind payload parents = Inr (i, r')"
  shows "extends r r'" and "rg_heads r' = rg_heads r" and "rg_events r' = rg_events r"
  using assms by (cases rule: reg_add_cases; simp add: extends_def)+

lemma reg_add_head_ok:
  assumes "reg_add D r kind payload parents = Inr (i, r')" and "head_ok r key"
  shows "head_ok r' key"
  using assms(1)
  by (cases rule: reg_add_cases)
     (use assms(2) in \<open>auto simp: head_ok_def present_def map_add_def\<close>)

lemma reg_add_wf:
  assumes add: "reg_add D r kind payload parents = Inr (i, r')"
    and wf: "reg_wf r" and live: "\<forall>p \<in> set parents. \<not> revoked r p"
  shows "reg_wf r'"
  using add
proof (cases rule: reg_add_cases)
  case old
  with wf show ?thesis by simp
next
  case new
  let ?n = "\<lparr>nd_kind = kind, nd_payload = payload, nd_revoked = False\<rparr>"
  have pr: "present r' j \<longleftrightarrow> j = i \<or> present r j" for j
    using new(1) by (auto simp: new(4) present_def map_add_def split: if_splits)
  have rv: "revoked r' j \<longleftrightarrow> revoked r j" for j
    using new(1) by (auto simp: new(4) revoked_def present_def map_add_def split: option.splits)
  have ed: "set (rg_edges r') = set (rg_edges r) \<union> {i} \<times> set parents"
    by (auto simp: new(4))
  have "wf_dict (rg_nodes r')"
    using wf new(1) by (auto simp: new(4) reg_wf_def wf_dict_def present_def dget_None_keys)
  moreover have "acyclic (set (rg_edges r'))"
    unfolding ed
  proof (rule acyclic_add_source)
    show "acyclic (set (rg_edges r))" using wf by (simp add: reg_wf_def)
    show "\<forall>(c, p) \<in> set (rg_edges r). c \<noteq> i \<and> p \<noteq> i"
      using wf new(1) by (auto simp: reg_wf_def)
    show "i \<notin> set parents" using new(1,2) by auto
  qed simp
  moreover have "\<forall>c p. (c, p) \<in> set (rg_edges r') \<longrightarrow> present r' c \<and> present r' p"
    using wf new(2) by (auto simp: reg_wf_def ed pr)
  moreover have "\<forall>c p. (c, p) \<in> set (rg_edges r') \<longrightarrow> revoked r' p \<longrightarrow> revoked r' c"
    using wf live by (auto simp: reg_wf_def ed rv)
  moreover have "\<forall>key. head_ok r' key"
    using wf reg_add_head_ok [OF add] by (simp add: reg_wf_def)
  ultimately show ?thesis by (simp add: reg_wf_def)
qed

lemma reg_ancestors_Inr:
  "reg_ancestors r i = Inr as \<longleftrightarrow> present r i \<and> as = reach (rg_edges r) [i] []"
  by (auto simp: reg_ancestors_def reg_get_node_def present_def split: option.splits)

lemma reg_valid_iff:
  "is_ok (reg_valid now r i who) \<longleftrightarrow>
     present r i \<and> (\<forall>a. (i, a) \<in> lineage r \<longrightarrow> \<not> node_bars now r who a)"
proof (cases "present r i")
  case True
  then have "reg_ancestors r i = Inr (reach (rg_edges r) [i] [])"
    by (simp add: reg_ancestors_Inr)
  then have "is_ok (reg_valid now r i who) \<longleftrightarrow>
      (\<forall>a \<in> set (reach (rg_edges r) [i] []). \<not> node_bars now r who a)"
    by (simp add: reg_valid_def list_ex_iff del: reach.simps)
  then show ?thesis
    unfolding reach_rtrancl lineage_def using True by auto
next
  case False
  then have "reg_valid now r i who = Inl InvalidState"
    by (simp add: reg_valid_def reg_ancestors_def reg_get_node_def present_def)
  with False show ?thesis by simp
qed

lemma reg_valid_not_revoked:
  "is_ok (reg_valid now r i who) \<Longrightarrow> (i, a) \<in> lineage r \<Longrightarrow> \<not> revoked r a"
  by (auto simp: reg_valid_iff node_bars_def revoked_def split: option.splits)

lemma lineage_self [simp]: "(i, i) \<in> lineage r"
  by (simp add: lineage_def)

lemma all_valid_live:
  "all_valid now r is who \<Longrightarrow> \<forall>p \<in> set is. \<not> revoked r p"
  by (auto simp: all_valid_def list_all_iff dest: reg_valid_not_revoked [OF _ lineage_self])

text \<open>How the successful operations decompose.\<close>

lemma reg_publish_Inr:
  assumes "reg_publish D now r key sem parents who acl lc = Inr (i, r')"
  obtains r1 g lc' where "parents \<noteq> []" and "all_valid now r parents who"
    and "g = (case dget (rg_heads r) key of None \<Rightarrow> 1 | Some (g', h) \<Rightarrow> g' + 1)"
    and "reg_add D r ''knowledge'' (Knowledge_Payload key g sem (sorted_set acl) lc') parents
           = Inr (i, r1)"
    and "r' = reg_record_event now ''publish''
           (JObj [(''node'', JStr i), (''knowledge'', JStr key), (''generation'', JInt g)])
           (r1\<lparr>rg_heads := dput key (g, i) (rg_heads r1)\<rparr>)"
  using assms
  by (auto simp: reg_publish_def Let_def split: if_splits sum.splits prod.splits)

lemma reg_artifact_Inr:
  assumes "reg_artifact C D now r kind payload parents who = Inr (i, r')"
  obtains origins generations where "kind \<in> set artifact_kinds" and "parents \<noteq> []"
    and "all_valid now r parents who"
    and "reg_add D r kind
           (Artifact_Payload payload origins generations (sorted_set parents) (C payload)) parents
         = Inr (i, r')"
  using assms
  by (auto simp only: reg_artifact_def Let_def split: if_splits)

lemma reg_commit_Inr:
  assumes "reg_commit C D now r (artifacts, who) answer = Inr (i, r')"
  obtains r1 where "all_valid now r artifacts who"
    and "reg_artifact C D now r ''answer'' (JObj [(''text'', JStr answer)]) artifacts who = Inr (i, r1)"
    and "r' = reg_record_event now ''commit'' (JObj [(''answer'', JStr i)]) r1"
  using assms
  by (auto simp: reg_commit_def split: if_splits sum.splits)

lemma dget_map_nodes:
  "dget (map (\<lambda>(j, nd). (j, f j nd)) ns) i = map_option (f i) (dget ns i)"
  by (induction ns) auto

lemma reg_revoke_Inr:
  assumes "reg_revoke now r i = Inr (affected, r')"
  shows "present r i" and "rg_edges r' = rg_edges r" and "rg_heads r' = rg_heads r"
    and "set affected = {j. (j, i) \<in> lineage r}"
    and "dget (rg_nodes r') j = map_option
           (\<lambda>nd. if (j, i) \<in> lineage r then nd\<lparr>nd_revoked := True\<rparr> else nd) (dget (rg_nodes r) j)"
    and "wf_dict (rg_nodes r') = wf_dict (rg_nodes r)"
proof -
  let ?E = "map (\<lambda>e. (snd e, fst e)) (rg_edges r)"
  let ?aff = "reach ?E [i] []"
  have conv: "set ?E = (set (rg_edges r))\<inverse>" by force
  have aff: "set ?aff = {j. (j, i) \<in> lineage r}"
    unfolding reach_rtrancl conv rtrancl_converse by (simp add: lineage_def)
  from assms have "present r i" and "affected = sort ?aff"
    and r': "r' = reg_record_event now ''revoke''
        (JObj [(''root'', JStr i), (''affected'', JList (map JStr ?aff))])
        (r\<lparr>rg_nodes := map (\<lambda>(j, nd). (j, if j \<in> set ?aff then nd\<lparr>nd_revoked := True\<rparr> else nd))
                          (rg_nodes r)\<rparr>)"
    by (auto simp: reg_revoke_def reg_get_node_def present_def Let_def split: option.splits
        simp del: reach.simps)
  then show "present r i" and "set affected = {j. (j, i) \<in> lineage r}"
    using aff by (simp_all del: reach.simps)
  show "rg_edges r' = rg_edges r" "rg_heads r' = rg_heads r"
    by (simp_all add: r' del: reach.simps)
  show "dget (rg_nodes r') j = map_option
      (\<lambda>nd. if (j, i) \<in> lineage r then nd\<lparr>nd_revoked := True\<rparr> else nd) (dget (rg_nodes r) j)"
    by (simp add: r' dget_map_nodes aff del: reach.simps)
  have "dkeys (rg_nodes r') = dkeys (rg_nodes r)"
    by (simp add: r' comp_def split_def del: reach.simps)
  then show "wf_dict (rg_nodes r') = wf_dict (rg_nodes r)"
    by (simp add: wf_dict_def)
qed

lemma reg_revoke_revoked:
  assumes "reg_revoke now r i = Inr (affected, r')"
  shows "revoked r' j \<longleftrightarrow> revoked r j \<or> (present r j \<and> (j, i) \<in> lineage r)"
    and "present r' j = present r j"
  using reg_revoke_Inr(5) [OF assms, of j]
  by (auto simp: revoked_def present_def split: option.splits if_splits)

lemma reg_revoke_wf:
  assumes rev: "reg_revoke now r i = Inr (affected, r')" and wf: "reg_wf r"
  shows "reg_wf r'"
proof -
  note d = reg_revoke_Inr [OF rev] reg_revoke_revoked [OF rev]
  have "head_ok r' key" for key
    using wf by (simp add: reg_wf_def head_ok_def d(3,8))
  moreover have "(c, p) \<in> set (rg_edges r) \<Longrightarrow> (p, i) \<in> lineage r \<Longrightarrow> (c, i) \<in> lineage r" for c p
    by (simp add: lineage_def converse_rtrancl_into_rtrancl)
  ultimately show ?thesis
    using wf unfolding reg_wf_def d(2,6) d(7,8) by blast
qed

lemma reg_revoke_extends: "reg_revoke now r i = Inr (affected, r') \<Longrightarrow> extends r r'"
  by (auto simp: extends_def reg_revoke_Inr(2,5))

lemma heads_put_wf:
  assumes "reg_wf r" and "present r i"
  shows "reg_wf (r\<lparr>rg_heads := dput key (g, i) (rg_heads r)\<rparr>)"
proof -
  let ?r = "r\<lparr>rg_heads := dput key (g, i) (rg_heads r)\<rparr>"
  have reads: "revoked ?r = revoked r" "present ?r = present r"
    by (simp_all add: fun_eq_iff revoked_def present_def)
  then have "head_ok ?r k" for k
    using assms by (auto simp: head_ok_def reg_wf_def update_conv')
  with assms(1) reads show ?thesis
    by (simp add: reg_wf_def)
qed

lemma reg_add_present:
  "reg_add D r kind payload parents = Inr (i, r') \<Longrightarrow> present r' i"
  by (erule reg_add_cases) (auto simp: present_def map_add_def)

section \<open>Every operation keeps the invariant and only extends the tables\<close>

lemma reg_publish_keeps:
  assumes "reg_publish D now r key sem parents who acl lc = Inr (i, r')"
  shows "extends r r'" and "reg_wf r \<Longrightarrow> reg_wf r'" and "dget (rg_heads r') key = Some
      (case dget (rg_heads r) key of None \<Rightarrow> 1 | Some (g, h) \<Rightarrow> g + 1, i)"
proof -
  from assms obtain r1 g lc' where av: "all_valid now r parents who"
    and g: "g = (case dget (rg_heads r) key of None \<Rightarrow> 1 | Some (g', h) \<Rightarrow> g' + 1)"
    and add: "reg_add D r ''knowledge'' (Knowledge_Payload key g sem (sorted_set acl) lc') parents
           = Inr (i, r1)"
    and r': "r' = reg_record_event now ''publish''
           (JObj [(''node'', JStr i), (''knowledge'', JStr key), (''generation'', JInt g)])
           (r1\<lparr>rg_heads := dput key (g, i) (rg_heads r1)\<rparr>)"
    by (rule reg_publish_Inr)
  show "extends r r'"
    by (rule extends_cong [OF reg_add_extends(1) [OF add]]) (simp_all add: r')
  show "reg_wf r \<Longrightarrow> reg_wf r'"
    using reg_add_wf [OF add _ all_valid_live [OF av]] heads_put_wf reg_add_present [OF add]
    by (simp add: r')
  show "dget (rg_heads r') key = Some
      (case dget (rg_heads r) key of None \<Rightarrow> 1 | Some (g, h) \<Rightarrow> g + 1, i)"
    by (simp add: r' g update_conv')
qed

lemma reg_artifact_keeps:
  assumes "reg_artifact C D now r kind payload parents who = Inr (i, r')"
  shows "extends r r'" and "reg_wf r \<Longrightarrow> reg_wf r'"
  using assms
  by (auto elim!: reg_artifact_Inr intro: reg_add_extends(1) reg_add_wf dest: all_valid_live)

lemma reg_commit_keeps:
  assumes "reg_commit C D now r snap answer = Inr (i, r')"
  shows "extends r r'" and "reg_wf r \<Longrightarrow> reg_wf r'"
proof -
  obtain artifacts who where snap: "snap = (artifacts, who)" by (cases snap)
  from assms [unfolded snap] obtain r1
    where art: "reg_artifact C D now r ''answer'' (JObj [(''text'', JStr answer)]) artifacts who
             = Inr (i, r1)"
      and r': "r' = reg_record_event now ''commit'' (JObj [(''answer'', JStr i)]) r1"
    by (rule reg_commit_Inr)
  show "extends r r'"
    by (rule extends_cong [OF reg_artifact_keeps(1) [OF art]]) (simp_all add: r')
  show "reg_wf r \<Longrightarrow> reg_wf r'"
    using reg_artifact_keeps(2) [OF art] by (simp add: r')
qed

lemma reg_step_keeps:
  "extends r (reg_step C D r op)" "reg_wf r \<Longrightarrow> reg_wf (reg_step C D r op)"
proof -
  have ev: "extends r (reg_record_event now a p r)" for now a p
    by (rule extends_cong [OF extends_refl]) simp_all
  show "extends r (reg_step C D r op)"
    by (cases op)
       (auto simp: kept_def reg_origin_def ev split: sum.split
          intro: reg_add_extends(1) reg_publish_keeps(1) reg_artifact_keeps(1) reg_commit_keeps(1)
            reg_revoke_extends)
  show "reg_wf r \<Longrightarrow> reg_wf (reg_step C D r op)"
    by (cases op)
       (auto simp: kept_def reg_origin_def split: sum.split
          intro: reg_add_wf reg_publish_keeps(2) reg_artifact_keeps(2) reg_commit_keeps(2)
            reg_revoke_wf)
qed

interpretation reg_machine: kept_invariant "reg_step C D" reg_wf for C D
  by unfold_locales (rule reg_step_keeps(2))

interpretation reg_growth: kept_invariant "reg_step C D" "extends r0" for C D r0
  by unfold_locales (rule extends_trans [OF _ reg_step_keeps(1)])

lemma reg_run_extends: "extends r (run_steps (reg_step C D) r ops)"
  by (rule reg_growth.run_invar [OF extends_refl])

lemma revoked_lineage:
  assumes "reg_wf r" and "(x, y) \<in> lineage r" and "revoked r y"
  shows "revoked r x"
  using assms(2,3) unfolding lineage_def
  by (induction rule: converse_rtrancl_induct) (use assms(1) in \<open>auto simp: reg_wf_def\<close>)

lemma not_valid_if_bars:
  "(y, a) \<in> lineage r \<Longrightarrow> node_bars now r who a \<Longrightarrow> \<not> is_ok (reg_valid now r y who)"
  by (auto simp: reg_valid_iff)

lemma reg_commit_needs_valid:
  "a \<in> set artifacts \<Longrightarrow> \<not> is_ok (reg_valid now r a who) \<Longrightarrow>
     reg_commit C D now r (artifacts, who) answer = Inl InvalidState"
  by (auto simp: reg_commit_def all_valid_def list_all_iff)

section \<open>A small registry for the witnesses\<close>

text \<open>One source, one generation of one knowledge key, one adapter below it.\<close>

fun sample_D :: digest where
  "sample_D k (Origin_Payload ns i v c acl) ps = i"
| "sample_D k (Knowledge_Payload key g sem acl lc) ps = key @ replicate (nat g) CHR ''+''"
| "sample_D k (Artifact_Payload b os gs ps' h) ps = h"

definition sample_C :: "json \<Rightarrow> string" where
  "sample_C v = (case v of JStr s \<Rightarrow> s | JObj kvs \<Rightarrow> ''answer'' | _ \<Rightarrow> [])"

definition sample_ops :: "reg_op list" where
  "sample_ops =
     [Do_Origin ''erp'' ''o1'' ''1'' (JStr ''text'') [''*''],
      Do_Publish 1 ''k'' JNull [''origin:o1''] ''local'' [''*''] None,
      Do_Artifact 2 ''lora'' (JStr ''w'') [''knowledge:k+''] ''local'']"

definition sample_reg :: registry where
  "sample_reg = run_steps (reg_step sample_C sample_D) empty_registry sample_ops"

section \<open>Properties\<close>

text \<open>C1. Whatever sequence of origins, publications, artifacts, commits, revocations and events
  runs on a fresh registry, the lineage graph is acyclic and the revoked nodes are exactly the
  nodes that have a revoked node in their lineage: revocation is closed under descent and no
  operation can hang a live node below a revoked one.\<close>

theorem lineage_acyclic_and_revocation_closed:
  fixes C :: "json \<Rightarrow> string" and D :: digest and ops :: "reg_op list"
  defines "r \<equiv> run_steps (reg_step C D) empty_registry ops"
  shows "acyclic (set (rg_edges r)) \<and> {x. \<exists>y. (x, y) \<in> lineage r \<and> revoked r y} = {x. revoked r x}"
proof -
  have wf: "reg_wf r"
    unfolding r_def by (rule reg_machine.run_invar [OF reg_wf_empty])
  then have "acyclic (set (rg_edges r))"
    by (simp add: reg_wf_def)
  with revoked_lineage [OF wf] show ?thesis
    by (auto intro: lineage_self)
qed

text \<open>C2. Revocation is final and transitive: once a node is revoked, no artifact below it is valid
  for anyone at any time, whatever operations follow, and no snapshot that contains such an
  artifact can be committed.\<close>

theorem revocation_is_final:
  assumes "reg_revoke now r x = Inr (affected, r1)" and "(y, x) \<in> lineage r" and "y \<in> set artifacts"
  shows "reg_valid now' (run_steps (reg_step C D) r1 ops) y who = Inl InvalidState
    \<and> reg_commit C D now' (run_steps (reg_step C D) r1 ops) (artifacts, who) answer
        = Inl InvalidState"
proof -
  let ?r = "run_steps (reg_step C D) r1 ops"
  have ext: "extends r1 ?r" by (rule reg_run_extends)
  have "revoked r1 x"
    using reg_revoke_revoked(1) [OF assms(1), of x] reg_revoke_Inr(1) [OF assms(1)] by simp
  then have "revoked ?r x" by (rule extends_revoked [OF ext])
  then have bars: "node_bars now' ?r who x"
    by (auto simp: node_bars_def revoked_def split: option.splits)
  have "(y, x) \<in> lineage r1"
    using assms(2) by (simp add: lineage_def reg_revoke_Inr(2) [OF assms(1)])
  then have "(y, x) \<in> lineage ?r"
    using extends_lineage [OF ext] by auto
  then have bad: "\<not> is_ok (reg_valid now' ?r y who)"
    using bars by (rule not_valid_if_bars)
  then have "reg_valid now' ?r y who = Inl InvalidState"
    by (auto simp: reg_valid_def reg_ancestors_def reg_get_node_def is_ok_def
        split: sum.splits option.splits if_splits)
  with reg_commit_needs_valid [OF assms(3) bad] show ?thesis by simp
qed

lemma sample_reg_lineage: "(''lora:w'', ''origin:o1'') \<in> lineage sample_reg"
proof -
  have "set (reach (rg_edges sample_reg) [''lora:w''] [])
      = set [''lora:w'', ''knowledge:k+'', ''origin:o1'']"
    by code_simp
  then show ?thesis
    unfolding reach_rtrancl lineage_def by auto
qed

theorem revocation_is_final_witness:
  "is_ok (reg_valid 3 sample_reg ''lora:w'' ''local'')
   \<and> (\<exists>affected r1. reg_revoke 4 sample_reg ''origin:o1'' = Inr (affected, r1)
        \<and> reg_valid 5 r1 ''lora:w'' ''local'' = Inl InvalidState)"
proof -
  have ok: "is_ok (reg_valid 3 sample_reg ''lora:w'' ''local'')"
    by code_simp
  have "is_ok (reg_revoke 4 sample_reg ''origin:o1'')"
    by code_simp
  then obtain affected r1 where rev: "reg_revoke 4 sample_reg ''origin:o1'' = Inr (affected, r1)"
    by (cases "reg_revoke 4 sample_reg ''origin:o1''") auto
  from revocation_is_final [OF rev sample_reg_lineage, where artifacts = "[''lora:w'']" and ops = "[]"]
    rev ok show ?thesis
    by auto
qed

lemma lineage_new_source:
  assumes edges: "set (rg_edges r') = set (rg_edges r) \<union> {i} \<times> set parents"
    and fresh: "\<forall>(c, p) \<in> set (rg_edges r). c \<noteq> i \<and> p \<noteq> i" and "i \<notin> set parents"
    and path: "(i, a) \<in> lineage r'"
  shows "a = i \<or> (\<exists>p \<in> set parents. (p, a) \<in> lineage r)"
  using path unfolding lineage_def
proof (induction rule: rtrancl_induct)
  case (step b c)
  then show ?case
    using fresh assms(3) by (auto simp: edges intro: rtrancl_into_rtrancl)
qed simp

text \<open>A fresh artifact is valid for the caller at the moment it is stored.\<close>

lemma reg_artifact_valid:
  assumes wf: "reg_wf r" and fresh: "\<not> present r i" and art: "reg_artifact C D now r kind payload parents who = Inr (i, r')"
  shows "is_ok (reg_valid now r' i who)"
proof -
  from art obtain os gs where kind: "kind \<in> set artifact_kinds" and av: "all_valid now r parents who" and add: "reg_add D r kind
      (Artifact_Payload payload os gs (sorted_set parents) (C payload)) parents = Inr (i, r')"
    by (rule reg_artifact_Inr)
  note new = reg_add_fresh [OF add fresh]
  have nodes: "\<And>j. j \<noteq> i \<Longrightarrow> dget (rg_nodes r') j = dget (rg_nodes r) j"
    and self: "\<exists>h. dget (rg_nodes r') i = Some \<lparr>nd_kind = kind, nd_payload = h, nd_revoked = False\<rparr> \<and> payload_acl h = [''*'']"
    using new by simp_all
  have "kind \<noteq> ''knowledge''" using kind by (auto simp: artifact_kinds_def)
  have "\<not> node_bars now r' who a" if path: "(i, a) \<in> lineage r'" for a
  proof (cases "a = i")
    case True
    with self \<open>kind \<noteq> ''knowledge''\<close> show ?thesis by (auto simp: node_bars_def)
  next
    case False
    have "\<forall>(c, p) \<in> set (rg_edges r). c \<noteq> i \<and> p \<noteq> i"
      using wf fresh by (auto simp: reg_wf_def)
    from lineage_new_source [OF new(2) this new(4) path] False
    obtain p where "p \<in> set parents" "(p, a) \<in> lineage r" by auto
    with av have "\<not> node_bars now r who a" by (auto simp: all_valid_def list_all_iff reg_valid_iff)
    then show ?thesis
      unfolding node_bars_def nodes [OF False] new(3) .
  qed
  moreover have "present r' i" using self by (auto simp: present_def)
  ultimately show ?thesis by (simp add: reg_valid_iff)
qed

text \<open>The commit barrier. A commit that succeeds found every artifact of the snapshot valid for
  the snapshot's principal at that moment, and the answer it stores is itself valid for that
  principal: its whole lineage is live, permitted, current and in force.\<close>

theorem commit_stores_valid_answer:
  assumes wf: "reg_wf r" and fresh: "\<not> present r i"
    and commit: "reg_commit C D now r (artifacts, who) answer = Inr (i, r')"
  shows "(\<forall>a \<in> set artifacts. is_ok (reg_valid now r a who)) \<and> is_ok (reg_valid now r' i who)"
proof -
  from commit obtain r1 where av: "all_valid now r artifacts who"
    and art: "reg_artifact C D now r ''answer'' (JObj [(''text'', JStr answer)]) artifacts who
             = Inr (i, r1)"
    and r': "r' = reg_record_event now ''commit'' (JObj [(''answer'', JStr i)]) r1"
    by (rule reg_commit_Inr)
  have "is_ok (reg_valid now r1 i who)" by (rule reg_artifact_valid [OF wf fresh art])
  then have "is_ok (reg_valid now r' i who)"
    unfolding r' reg_valid_iff record_event_reads node_bars_def record_event_tables .
  moreover have "\<forall>a \<in> set artifacts. is_ok (reg_valid now r a who)"
    using av by (simp add: all_valid_def list_all_iff)
  ultimately show ?thesis by simp
qed

theorem commit_stores_valid_answer_witness:
  "\<exists>i r'. reg_commit sample_C sample_D 3 sample_reg ([''lora:w''], ''local'') ''18 days'' = Inr (i, r')
     \<and> is_ok (reg_valid 3 r' i ''local'')"
proof -
  have wf: "reg_wf sample_reg"
    unfolding sample_reg_def by (rule reg_machine.run_invar [OF reg_wf_empty])
  have "map_sum id fst (reg_commit sample_C sample_D 3 sample_reg ([''lora:w''], ''local'') ''18 days'')
      = Inr ''answer:answer''"
    by code_simp
  then obtain r' where c: "reg_commit sample_C sample_D 3 sample_reg ([''lora:w''], ''local'') ''18 days''
      = Inr (''answer:answer'', r')"
    by (cases "reg_commit sample_C sample_D 3 sample_reg ([''lora:w''], ''local'') ''18 days''") auto
  have "\<not> present sample_reg ''answer:answer''"
    unfolding present_def by code_simp
  from commit_stores_valid_answer [OF wf this c] c show ?thesis
    by auto
qed

text \<open>Publishing a new generation retires everything below the old one: any node with the
  superseded generation in its lineage stops being valid for anyone, at once. (The digest tells
  the two generations apart.)\<close>

theorem publish_retires_old_generation:
  assumes "reg_publish D now r key sem parents who acl lc = Inr (new, r')"
    and "dget (rg_heads r) key = Some (g, old)" and "new \<noteq> old"
    and "dget (rg_nodes r) old = Some nd" and "nd_kind nd = ''knowledge''"
    and "nd_payload nd = Knowledge_Payload key g0 sem0 acl0 lc0"
    and "(y, old) \<in> lineage r"
  shows "\<not> is_ok (reg_valid now' r' y who')"
proof -
  note k = reg_publish_keeps [OF assms(1)]
  from k(1) assms(4,5,6) obtain nd' where "dget (rg_nodes r') old = Some nd'"
    "nd_kind nd' = ''knowledge''" "nd_payload nd' = Knowledge_Payload key g0 sem0 acl0 lc0"
    unfolding extends_def by metis
  moreover have "dget (rg_heads r') key = Some (g + 1, new)"
    using k(3) assms(2) by simp
  ultimately have bars: "node_bars now' r' who' old"
    using assms(3) by (simp add: node_bars_def)
  have "(y, old) \<in> lineage r'"
    using extends_lineage [OF k(1)] assms(7) by auto
  then show ?thesis
    using bars by (rule not_valid_if_bars)
qed

lemma sample_publish_again:
  "map_sum id fst (reg_publish sample_D 5 sample_reg ''k'' JNull parents ''local'' [''*''] None)
     = Inr ''knowledge:k++''"
  if "parents = [''origin:o1''] \<or> parents = [''knowledge:k+'']"
  using that by (elim disjE; hypsubst; code_simp)

lemma sample_reg_reads:
  "dget (rg_heads sample_reg) ''k'' = Some (1, ''knowledge:k+'')"
  "dget (rg_nodes sample_reg) ''knowledge:k+'' = Some \<lparr>nd_kind = ''knowledge'',
     nd_payload = Knowledge_Payload ''k'' 1 JNull [''*''] None, nd_revoked = False\<rparr>"
  by code_simp+

lemma sample_publish_Inr:
  assumes "parents = [''origin:o1''] \<or> parents = [''knowledge:k+'']"
  obtains r' where "reg_publish sample_D 5 sample_reg ''k'' JNull parents ''local'' [''*''] None
      = Inr (''knowledge:k++'', r')"
  using sample_publish_again [OF assms] that
  by (cases "reg_publish sample_D 5 sample_reg ''k'' JNull parents ''local'' [''*''] None") auto

theorem publish_retires_old_generation_witness:
  "\<exists>r'. reg_publish sample_D 5 sample_reg ''k'' JNull [''origin:o1''] ''local'' [''*''] None
       = Inr (''knowledge:k++'', r')
     \<and> is_ok (reg_valid 5 sample_reg ''lora:w'' ''local'')
     \<and> \<not> is_ok (reg_valid 5 r' ''lora:w'' ''local'')"
proof -
  obtain r' where p: "reg_publish sample_D 5 sample_reg ''k'' JNull [''origin:o1''] ''local'' [''*''] None
      = Inr (''knowledge:k++'', r')"
    by (rule sample_publish_Inr [of "[''origin:o1'']"]) simp
  have "set (reach (rg_edges sample_reg) [''lora:w''] [])
      = set [''lora:w'', ''knowledge:k+'', ''origin:o1'']"
    by code_simp
  then have l: "(''lora:w'', ''knowledge:k+'') \<in> lineage sample_reg"
    unfolding reach_rtrancl lineage_def by auto
  have ok: "is_ok (reg_valid 5 sample_reg ''lora:w'' ''local'')"
    by code_simp
  have "''knowledge:k++'' \<noteq> ''knowledge:k+''" by simp
  from publish_retires_old_generation [OF p sample_reg_reads(1) this sample_reg_reads(2) _ _ l] p ok
  show ?thesis by auto
qed

text \<open>A generation derived from its own predecessor is dead on arrival: \<open>publish\<close> accepts a
  parent that has the current generation of the same key in its lineage, and the node it
  creates is then never valid, because its lineage holds a generation that is no longer the
  head.\<close>

theorem self_derived_generation_is_dead:
  assumes "reg_publish D now r key sem parents who acl lc = Inr (new, r')"
    and "dget (rg_heads r) key = Some (g, old)" and "\<not> present r new"
    and "dget (rg_nodes r) old = Some nd" and "nd_kind nd = ''knowledge''"
    and "nd_payload nd = Knowledge_Payload key g0 sem0 acl0 lc0"
    and "p \<in> set parents" and "(p, old) \<in> lineage r"
  shows "reg_head r' key = Inr new \<and> \<not> is_ok (reg_valid now' r' new who')"
proof -
  note k = reg_publish_keeps [OF assms(1)]
  from assms(1) obtain r1 h lc' where
    add: "reg_add D r ''knowledge'' (Knowledge_Payload key h sem (sorted_set acl) lc') parents
           = Inr (new, r1)"
    and r': "r' = reg_record_event now ''publish''
           (JObj [(''node'', JStr new), (''knowledge'', JStr key), (''generation'', JInt h)])
           (r1\<lparr>rg_heads := dput key (h, new) (rg_heads r1)\<rparr>)"
    by (rule reg_publish_Inr)
  have "new \<noteq> old" using assms(3,4) by (auto simp: present_def)
  with k(1,3) assms(2,4,5,6) have bars: "node_bars now' r' who' old"
    by (fastforce simp: extends_def node_bars_def)
  have "(new, p) \<in> set (rg_edges r')"
    using reg_add_fresh(2) [OF add assms(3)] assms(7) by (simp add: r')
  moreover have "(p, old) \<in> lineage r'"
    using extends_lineage [OF k(1)] assms(8) by auto
  ultimately have "(new, old) \<in> lineage r'"
    by (auto simp: lineage_def intro: converse_rtrancl_into_rtrancl)
  then have "\<not> is_ok (reg_valid now' r' new who')"
    using bars by (rule not_valid_if_bars)
  moreover have "reg_head r' key = Inr new"
    using k(3) by (simp add: reg_head_def)
  ultimately show ?thesis by simp
qed

theorem self_derived_generation_is_dead_witness:
  "\<exists>r'. reg_publish sample_D 5 sample_reg ''k'' JNull [''knowledge:k+''] ''local'' [''*''] None
       = Inr (''knowledge:k++'', r')
     \<and> \<not> is_ok (reg_valid 5 r' ''knowledge:k++'' ''local'')"
proof -
  obtain r' where p: "reg_publish sample_D 5 sample_reg ''k'' JNull [''knowledge:k+''] ''local''
      [''*''] None = Inr (''knowledge:k++'', r')"
    by (rule sample_publish_Inr [of "[''knowledge:k+'']"]) simp
  have "\<not> present sample_reg ''knowledge:k++''"
    unfolding present_def by code_simp
  from self_derived_generation_is_dead [OF p sample_reg_reads(1) this sample_reg_reads(2) _ _ _
      lineage_self] p
  show ?thesis by auto
qed

end
