(* ===== verification/Resource_Runtime.thy ===== *)
theory Resource_Runtime
  imports Prelude
begin

text \<open>
  \<open>neural_pods/resource_runtime.py\<close>: admission of pods against measured hardware.

  \<^item> \<open>hardware\<close>, \<open>budget_from_snapshot\<close>: a snapshot and the budget derived from it. A missing
    measurement is \<open>None\<close>.
  \<^item> \<open>governor\<close> with \<open>gov_try_acquire\<close>, \<open>gov_release\<close>, \<open>gov_choose\<close>, \<open>gov_activate\<close>,
    \<open>gov_deactivate\<close>: \<open>ResourceGovernor\<close>. Its \<open>Counter\<close> reads 0 for an unknown key.
  \<^item> \<open>bound_call\<close>: \<open>ResourceBoundHandler.__call__\<close>; the handler is an argument that sees the
    governor and may itself raise.
  \<^item> \<open>tracker\<close> with \<open>tr_start\<close>, \<open>tr_phase\<close>, \<open>tr_finish\<close>, \<open>tr_stats\<close>: \<open>RequestTracker\<close>.

  Every method runs under the object's lock, so it is one step. Probing \<open>psutil\<close>, \<open>nvidia-smi\<close>
  and the disk and exporting the receipts to a file are not modelled; the clock is an argument.
\<close>

section \<open>Hardware and budgets\<close>

definition GIB :: int where
  "GIB = 1024 ^ 3"

record gpu_info =
  gpu_index :: int
  gpu_name :: string
  gpu_total :: "int option"
  gpu_free :: "int option"
  gpu_used :: "int option"

record hardware =
  hw_captured_at :: real
  hw_cpu_logical :: int
  hw_cpu_physical :: "int option"
  hw_ram_total :: "int option"
  hw_ram_available :: "int option"
  hw_gpus :: "gpu_info list"
  hw_disk_free :: "int option"

record budget =
  bd_ram :: "int option"
  bd_vram :: "(int, int) dict"
  bd_disk :: "int option"

fun vram_budget :: "int \<Rightarrow> gpu_info list \<Rightarrow> (int, int) dict \<Rightarrow> (int, int) dict" where
  "vram_budget reserve [] d = d"
| "vram_budget reserve (g # gs) d =
     vram_budget reserve gs
       (case gpu_free g of None \<Rightarrow> d | Some f \<Rightarrow> dput (gpu_index g) (max 0 (f - reserve)) d)"

text \<open>\<open>ResourceBudget.from_snapshot\<close>. \<open>int(available * (1 - reserve))\<close> truncates.\<close>

definition budget_from_snapshot :: "hardware \<Rightarrow> real \<Rightarrow> int \<Rightarrow> int \<Rightarrow> budget result" where
  "budget_from_snapshot s ram_reserve vram_reserve disk_reserve =
     (if \<not> (0 \<le> ram_reserve \<and> ram_reserve < 1) then Inl ValueError
      else Inr \<lparr>bd_ram = map_option (\<lambda>a. py_trunc (of_int a * (1 - ram_reserve))) (hw_ram_available s),
                bd_vram = vram_budget vram_reserve (hw_gpus s) [],
                bd_disk = map_option (\<lambda>f. max 0 (f - disk_reserve)) (hw_disk_free s)\<rparr>)"

section \<open>The governor\<close>

type_synonym slot = "string \<times> int option"

record lease =
  ls_tier :: string
  ls_amount :: int
  ls_device :: "int option"

definition lease_slot :: "lease \<Rightarrow> slot" where
  "lease_slot l = (ls_tier l, ls_device l)"

record residency =
  rs_pod :: string
  rs_generation :: string
  rs_lease :: lease

record governor =
  gv_budget :: budget
  gv_used :: "(slot, int) dict"
  gv_residencies :: "(string, residency) dict"

definition new_governor :: "budget \<Rightarrow> governor" where
  "new_governor b = \<lparr>gv_budget = b, gv_used = [], gv_residencies = []\<rparr>"

definition gov_used :: "governor \<Rightarrow> slot \<Rightarrow> int" where
  "gov_used g k = dget_or (gv_used g) k 0"

definition gov_add :: "slot \<Rightarrow> int \<Rightarrow> governor \<Rightarrow> governor" where
  "gov_add k n g = g\<lparr>gv_used := dput k (gov_used g k + n) (gv_used g)\<rparr>"

definition gov_limit :: "governor \<Rightarrow> string \<Rightarrow> int option \<Rightarrow> int option result" where
  "gov_limit g tier device =
     (if tier = ''ram'' then Inr (bd_ram (gv_budget g))
      else if tier = ''disk'' then Inr (bd_disk (gv_budget g))
      else if tier = ''vram'' then
        Inr (case device of None \<Rightarrow> None | Some d \<Rightarrow> dget (bd_vram (gv_budget g)) d)
      else Inl ValueError)"

text \<open>The test both admission paths make: a limit is known and the amount still fits.\<close>

definition gov_fits :: "governor \<Rightarrow> string \<Rightarrow> int option \<Rightarrow> int \<Rightarrow> bool result" where
  "gov_fits g tier device amount =
     (case gov_limit g tier device of
        Inl e \<Rightarrow> Inl e
      | Inr None \<Rightarrow> Inr False
      | Inr (Some limit) \<Rightarrow> Inr (gov_used g (tier, device) + amount \<le> limit))"

definition gov_try_acquire ::
    "governor \<Rightarrow> string \<Rightarrow> int \<Rightarrow> int option \<Rightarrow> lease option result \<times> governor" where
  "gov_try_acquire g tier amount device =
     (if amount < 0 then (Inl ValueError, g)
      else case gov_fits g tier device amount of
        Inl e \<Rightarrow> (Inl e, g)
      | Inr False \<Rightarrow> (Inr None, g)
      | Inr True \<Rightarrow>
          (Inr (Some \<lparr>ls_tier = tier, ls_amount = amount, ls_device = device\<rparr>),
           gov_add (tier, device) amount g))"

text \<open>\<open>release\<close> subtracts first and raises afterwards, leaving the subtraction in place.\<close>

definition gov_release :: "governor \<Rightarrow> lease \<Rightarrow> unit result \<times> governor" where
  "gov_release g l =
     (let g' = gov_add (lease_slot l) (- ls_amount l) g
      in if gov_used g' (lease_slot l) < 0 then (Inl RuntimeError, g') else (Inr (), g'))"

fun tier_order :: "string \<Rightarrow> string list option" where
  "tier_order p =
     (if p = ''vram'' then Some [''vram'', ''ram'', ''disk'']
      else if p = ''ram'' then Some [''ram'', ''disk'']
      else if p = ''disk'' then Some [''disk''] else None)"

definition candidate_slots :: "governor \<Rightarrow> string list \<Rightarrow> slot list" where
  "candidate_slots g order =
     concat (map (\<lambda>tier. if tier = ''vram'' then map (\<lambda>d. (tier, Some d)) (dkeys (bd_vram (gv_budget g)))
                         else [(tier, None)]) order)"

fun gov_choose_from :: "governor \<Rightarrow> int \<Rightarrow> slot list \<Rightarrow> lease option result \<times> governor" where
  "gov_choose_from g amount [] = (Inr None, g)"
| "gov_choose_from g amount ((tier, device) # ss) =
     (case gov_try_acquire g tier amount device of
        (Inr None, g') \<Rightarrow> gov_choose_from g' amount ss
      | r \<Rightarrow> r)"

definition gov_choose :: "governor \<Rightarrow> int \<Rightarrow> string \<Rightarrow> lease option result \<times> governor" where
  "gov_choose g amount preferred =
     (case tier_order preferred of
        None \<Rightarrow> (Inl ValueError, g)
      | Some order \<Rightarrow> gov_choose_from g amount (candidate_slots g order))"

text \<open>The selection \<open>activate\<close> performs inline: the first slot that fits.\<close>

fun first_fit :: "governor \<Rightarrow> int \<Rightarrow> slot list \<Rightarrow> slot option result" where
  "first_fit g amount [] = Inr None"
| "first_fit g amount ((tier, device) # ss) =
     (case gov_fits g tier device amount of
        Inl e \<Rightarrow> Inl e
      | Inr True \<Rightarrow> Inr (Some (tier, device))
      | Inr False \<Rightarrow> first_fit g amount ss)"

definition gov_activate ::
    "governor \<Rightarrow> string \<Rightarrow> string \<Rightarrow> int \<Rightarrow> string \<Rightarrow> residency option result \<times> governor" where
  "gov_activate g pod generation amount preferred =
     (if pod = [] \<or> generation = [] then (Inl ValueError, g)
      else case dget (gv_residencies g) pod of
        Some current \<Rightarrow>
          if rs_generation current \<noteq> generation then (Inl RuntimeError, g)
          else (Inr (Some current), g)
      | None \<Rightarrow>
          (case tier_order preferred of
             None \<Rightarrow> (Inl ValueError, g)
           | Some order \<Rightarrow>
               (case first_fit g amount (candidate_slots g order) of
                  Inl e \<Rightarrow> (Inl e, g)
                | Inr None \<Rightarrow> (Inr None, g)
                | Inr (Some (tier, device)) \<Rightarrow>
                    (let l = \<lparr>ls_tier = tier, ls_amount = amount, ls_device = device\<rparr>;
                         r = \<lparr>rs_pod = pod, rs_generation = generation, rs_lease = l\<rparr>;
                         g' = gov_add (tier, device) amount g
                     in (Inr (Some r), g'\<lparr>gv_residencies := dput pod r (gv_residencies g')\<rparr>)))))"

definition gov_deactivate ::
    "governor \<Rightarrow> string \<Rightarrow> string option \<Rightarrow> bool result \<times> governor" where
  "gov_deactivate g pod generation =
     (case dget (gv_residencies g) pod of
        None \<Rightarrow> (Inr False, g)
      | Some r \<Rightarrow>
          if generation \<noteq> None \<and> generation \<noteq> Some (rs_generation r) then (Inl RuntimeError, g)
          else
            (let g' = gov_add (lease_slot (rs_lease r)) (- ls_amount (rs_lease r)) g
             in (Inr True, g'\<lparr>gv_residencies := dpop pod (gv_residencies g')\<rparr>)))"

section \<open>The bound handler\<close>

record bound_handler =
  bh_governor :: governor
  bh_amount :: int
  bh_preferred :: string
  bh_admitted :: int
  bh_rejected :: int

definition new_bound_handler :: "governor \<Rightarrow> int \<Rightarrow> string \<Rightarrow> bound_handler result" where
  "new_bound_handler g amount preferred =
     (if amount < 0 then Inl ValueError
      else Inr \<lparr>bh_governor = g, bh_amount = amount, bh_preferred = preferred,
                bh_admitted = 0, bh_rejected = 0\<rparr>)"

text \<open>
  The handler runs with the lease held; \<open>finally\<close> releases it, and an exception of the release
  replaces the handler's outcome.
\<close>

definition bound_call ::
    "(governor \<Rightarrow> 'r result \<times> governor) \<Rightarrow> bound_handler \<Rightarrow> 'r result \<times> bound_handler" where
  "bound_call handler b =
     (case gov_choose (bh_governor b) (bh_amount b) (bh_preferred b) of
        (Inl e, g) \<Rightarrow> (Inl e, b\<lparr>bh_governor := g\<rparr>)
      | (Inr None, g) \<Rightarrow>
          (Inl RuntimeError, b\<lparr>bh_governor := g, bh_rejected := bh_rejected b + 1\<rparr>)
      | (Inr (Some l), g) \<Rightarrow>
          (case handler g of
             (res, g1) \<Rightarrow>
               (case gov_release g1 l of
                  (rel, g2) \<Rightarrow>
                    (case rel of Inl e \<Rightarrow> Inl e | Inr _ \<Rightarrow> res,
                     b\<lparr>bh_governor := g2, bh_admitted := bh_admitted b + 1\<rparr>))))"

section \<open>Request receipts\<close>

record receipt =
  rc_request_id :: string
  rc_trace_id :: string
  rc_pod_id :: string
  rc_generation :: "string option"
  rc_started_at :: real
  rc_ended_at :: "real option"
  rc_success :: "bool option"
  rc_error :: "string option"
  rc_input_tokens :: int
  rc_output_tokens :: int
  rc_cache_hit :: bool
  rc_phases :: "(string, real) dict"
  rc_resource_start :: "hardware option"
  rc_resource_end :: "hardware option"

definition receipt_latency :: "receipt \<Rightarrow> real option" where
  "receipt_latency r = map_option (\<lambda>e. (e - rc_started_at r) * 1000) (rc_ended_at r)"

record tracker =
  tk_max :: nat
  tk_records :: "receipt list"
  tk_active :: "(string, receipt) dict"

definition new_tracker :: "int \<Rightarrow> tracker result" where
  "new_tracker max_records =
     (if max_records < 1 then Inl ValueError
      else Inr \<lparr>tk_max = nat max_records, tk_records = [], tk_active = []\<rparr>)"

definition tr_start ::
    "real \<Rightarrow> tracker \<Rightarrow> string \<Rightarrow> string \<Rightarrow> string \<Rightarrow> string option \<Rightarrow> hardware option
       \<Rightarrow> receipt result \<times> tracker" where
  "tr_start now t rid trace pod generation hw =
     (if dget (tk_active t) rid \<noteq> None then (Inl ValueError, t)
      else let r = \<lparr>rc_request_id = rid, rc_trace_id = trace, rc_pod_id = pod,
                    rc_generation = generation, rc_started_at = now, rc_ended_at = None,
                    rc_success = None, rc_error = None, rc_input_tokens = 0, rc_output_tokens = 0,
                    rc_cache_hit = False, rc_phases = [], rc_resource_start = hw,
                    rc_resource_end = None\<rparr>
           in (Inr r, t\<lparr>tk_active := dput rid r (tk_active t)\<rparr>))"

definition tr_phase :: "tracker \<Rightarrow> string \<Rightarrow> string \<Rightarrow> real \<Rightarrow> unit result \<times> tracker" where
  "tr_phase t rid name elapsed =
     (if elapsed < 0 then (Inl ValueError, t)
      else case dget (tk_active t) rid of
        None \<Rightarrow> (Inl KeyError, t)
      | Some r \<Rightarrow>
          (Inr (), t\<lparr>tk_active :=
             dput rid (r\<lparr>rc_phases := dput name elapsed (rc_phases r)\<rparr>) (tk_active t)\<rparr>))"

text \<open>\<open>deque(maxlen=n).append\<close>: the oldest entry makes room.\<close>

definition deque_append :: "nat \<Rightarrow> 'a list \<Rightarrow> 'a \<Rightarrow> 'a list" where
  "deque_append n xs x = drop (length xs + 1 - n) (xs @ [x])"

definition tr_finish ::
    "real \<Rightarrow> tracker \<Rightarrow> string \<Rightarrow> bool \<Rightarrow> string option \<Rightarrow> int \<Rightarrow> int \<Rightarrow> bool \<Rightarrow> hardware option
       \<Rightarrow> receipt result \<times> tracker" where
  "tr_finish now t rid success err tin tout hit hw =
     (case dget (tk_active t) rid of
        None \<Rightarrow> (Inl KeyError, t)
      | Some r \<Rightarrow>
          (let r' = r\<lparr>rc_ended_at := Some now, rc_success := Some success, rc_error := err,
                      rc_input_tokens := tin, rc_output_tokens := tout, rc_cache_hit := hit,
                      rc_resource_end := hw\<rparr>
           in (Inr r', t\<lparr>tk_active := dpop rid (tk_active t),
                         tk_records := deque_append (tk_max t) (tk_records t) r'\<rparr>)))"

text \<open>\<open>_percentile\<close>: the element at the truncated rank, never past the end.\<close>

definition percentile :: "real list \<Rightarrow> real \<Rightarrow> real" where
  "percentile values q =
     (if values = [] then 0
      else sort values ! min (length values - 1) (nat \<lfloor>real (length values - 1) * q\<rfloor>))"

record tracker_stats =
  ts_completed :: nat
  ts_active :: nat
  ts_success :: nat
  ts_errors :: nat
  ts_cache_hits :: nat
  ts_input_tokens :: int
  ts_output_tokens :: int
  ts_p50 :: real
  ts_p95 :: real
  ts_max :: real

definition latencies :: "tracker \<Rightarrow> real list" where
  "latencies t = List.map_filter receipt_latency (tk_records t)"

definition tr_stats :: "tracker \<Rightarrow> tracker_stats" where
  "tr_stats t =
     (let rows = tk_records t; lat = latencies t
      in \<lparr>ts_completed = length rows, ts_active = length (tk_active t),
          ts_success = length (filter (\<lambda>r. rc_success r = Some True) rows),
          ts_errors = length (filter (\<lambda>r. rc_success r = Some False) rows),
          ts_cache_hits = length (filter rc_cache_hit rows),
          ts_input_tokens = sum_list (map rc_input_tokens rows),
          ts_output_tokens = sum_list (map rc_output_tokens rows),
          ts_p50 = percentile lat (50 / 100), ts_p95 = percentile lat (95 / 100),
          ts_max = (if lat = [] then 0 else Max (set lat))\<rparr>)"

section \<open>Accounting lemmas\<close>

named_theorems gov_simps "reading the governor after an operation"

lemma gov_used_add [gov_simps]:
  "gov_used (gov_add k n g) j = (if j = k then gov_used g k + n else gov_used g j)"
  by (simp add: gov_used_def gov_add_def dget_or_def update_conv')

lemma gov_add_frame [gov_simps]:
  "gv_budget (gov_add k n g) = gv_budget g"
  "gv_residencies (gov_add k n g) = gv_residencies g"
  by (simp_all add: gov_add_def)

lemma gov_used_residencies [gov_simps]: "gov_used (g\<lparr>gv_residencies := rs\<rparr>) k = gov_used g k"
  by (simp add: gov_used_def)

lemma gov_limit_cong: "gv_budget g' = gv_budget g \<Longrightarrow> gov_limit g' = gov_limit g"
  unfolding fun_eq_iff gov_limit_def by (auto split: option.split)

lemma gov_fits_True:
  "gov_fits g tier device n = Inr True \<longleftrightarrow>
     (\<exists>lim. gov_limit g tier device = Inr (Some lim) \<and> gov_used g (tier, device) + n \<le> lim)"
  by (auto simp: gov_fits_def split: sum.splits option.splits)

text \<open>A successful choice is one successful acquisition.\<close>

definition acquired_one ::
    "governor \<Rightarrow> int \<Rightarrow> lease option result \<Rightarrow> governor \<Rightarrow> bool" where
  "acquired_one g n res g' =
     ((g' = g \<and> (\<forall>l. res \<noteq> Inr (Some l))) \<or>
      (\<exists>tier device. 0 \<le> n \<and> gov_fits g tier device n = Inr True \<and>
         res = Inr (Some \<lparr>ls_tier = tier, ls_amount = n, ls_device = device\<rparr>) \<and>
         g' = gov_add (tier, device) n g))"

lemma acquired_one_acquire:
  assumes "gov_try_acquire g tier n device = (res, g')"
  shows "acquired_one g n res g'"
  using assms
  by (auto simp: gov_try_acquire_def acquired_one_def split: if_splits sum.splits bool.splits)

lemma acquired_one_none: "acquired_one g n (Inr None) g' \<Longrightarrow> g' = g"
  by (auto simp: acquired_one_def)

lemma acquired_one_choose_from:
  "gov_choose_from g n ss = (res, g') \<Longrightarrow> acquired_one g n res g'"
proof (induction g n ss rule: gov_choose_from.induct)
  case (2 g n tier device ss)
  obtain r1 g1 where a: "gov_try_acquire g tier n device = (r1, g1)" by fastforce
  note one = acquired_one_acquire [OF a]
  show ?case
  proof (cases "r1 = Inr None")
    case True
    with one have g: "g1 = g" by (simp add: acquired_one_none)
    from "2.prems" a True have "gov_choose_from g1 n ss = (res, g')" by simp
    with "2.IH" [OF a [symmetric] True refl] g show ?thesis by simp
  next
    case False
    with a "2.prems" have "res = r1 \<and> g' = g1"
      by (auto split: sum.splits option.splits)
    with one show ?thesis by simp
  qed
qed (auto simp: acquired_one_def)

lemma acquired_one_choose:
  "gov_choose g n preferred = (res, g') \<Longrightarrow> acquired_one g n res g'"
  by (cases "tier_order preferred")
    (auto simp: gov_choose_def acquired_one_def [of _ _ "Inl ValueError"]
      simp del: tier_order.simps intro: acquired_one_choose_from)

lemma first_fit_Some:
  "first_fit g n ss = Inr (Some (tier, device)) \<Longrightarrow> gov_fits g tier device n = Inr True"
  by (induction g n ss rule: first_fit.induct) (auto split: sum.splits bool.splits)

lemma gov_activate_cases:
  assumes "gov_activate g pod gen n preferred = (res, g')"
  obtains (same) "g' = g"
  | (placed) tier device r where "dget (gv_residencies g) pod = None"
      and "gov_fits g tier device n = Inr True"
      and "r = \<lparr>rs_pod = pod, rs_generation = gen,
             rs_lease = \<lparr>ls_tier = tier, ls_amount = n, ls_device = device\<rparr>\<rparr>"
      and "res = Inr (Some r)"
      and "g' = (gov_add (tier, device) n g)\<lparr>gv_residencies := dput pod r (gv_residencies g)\<rparr>"
proof (cases "pod = [] \<or> gen = [] \<or> dget (gv_residencies g) pod \<noteq> None \<or>
    tier_order preferred = None")
  case True
  with assms have "g' = g"
    by (auto simp: gov_activate_def simp del: tier_order.simps split: if_splits option.splits)
  with same show ?thesis .
next
  case False
  then obtain order where o: "tier_order preferred = Some order" by blast
  note act = assms [unfolded gov_activate_def]
  consider e where "first_fit g n (candidate_slots g order) = Inl e"
    | "first_fit g n (candidate_slots g order) = Inr None"
    | tier device where "first_fit g n (candidate_slots g order) = Inr (Some (tier, device))"
    by (metis old.sum.exhaust option.exhaust surj_pair)
  then show ?thesis
  proof cases
    case 3
    with act False o show ?thesis
      by (intro placed [of tier device]) (auto simp: Let_def gov_simps first_fit_Some
          simp del: tier_order.simps)
  qed (use act False o same in \<open>auto simp del: tier_order.simps\<close>)
qed


lemma gov_deactivate_cases:
  assumes "gov_deactivate g pod gen = (res, g')"
  obtains (same) "g' = g"
  | (evicted) r where "dget (gv_residencies g) pod = Some r"
      and "gen = None \<or> gen = Some (rs_generation r)"
      and "g' = (gov_add (lease_slot (rs_lease r)) (- ls_amount (rs_lease r)) g)
             \<lparr>gv_residencies := dpop pod (gv_residencies g)\<rparr>"
  using assms
  by (auto simp: gov_deactivate_def Let_def gov_simps split: option.splits if_splits)

section \<open>Callers and their leases\<close>

text \<open>
  The governor together with the leases its callers hold. A caller releases a lease it was
  handed, once; \<open>Op_Release i\<close> gives back the lease at position \<open>i\<close>.
\<close>

record gov_world =
  gw_gov :: governor
  gw_held :: "lease list"

datatype gov_op =
    Op_Acquire string int "int option"
  | Op_Choose int string
  | Op_Release nat
  | Op_Activate string string nat string
  | Op_Deactivate string "string option"

definition take_lease :: "lease option result \<times> governor \<Rightarrow> lease list \<Rightarrow> gov_world" where
  "take_lease r held =
     \<lparr>gw_gov = snd r,
      gw_held = (case fst r of Inr (Some l) \<Rightarrow> l # held | _ \<Rightarrow> held)\<rparr>"

fun gov_step :: "gov_world \<Rightarrow> gov_op \<Rightarrow> gov_world" where
  "gov_step w (Op_Acquire tier n device) =
     take_lease (gov_try_acquire (gw_gov w) tier n device) (gw_held w)"
| "gov_step w (Op_Choose n preferred) =
     take_lease (gov_choose (gw_gov w) n preferred) (gw_held w)"
| "gov_step w (Op_Release i) =
     (if i < length (gw_held w)
      then \<lparr>gw_gov = snd (gov_release (gw_gov w) (gw_held w ! i)),
            gw_held = take i (gw_held w) @ drop (Suc i) (gw_held w)\<rparr>
      else w)"
| "gov_step w (Op_Activate pod gen n preferred) =
     w\<lparr>gw_gov := snd (gov_activate (gw_gov w) pod gen (int n) preferred)\<rparr>"
| "gov_step w (Op_Deactivate pod gen) =
     w\<lparr>gw_gov := snd (gov_deactivate (gw_gov w) pod gen)\<rparr>"

definition new_world :: "budget \<Rightarrow> gov_world" where
  "new_world b = \<lparr>gw_gov = new_governor b, gw_held = []\<rparr>"

text \<open>What a lease charges to a slot, and what all leases in circulation charge to it.\<close>

definition charge :: "slot \<Rightarrow> lease \<Rightarrow> int" where
  "charge k l = (if lease_slot l = k then ls_amount l else 0)"

definition charged :: "gov_world \<Rightarrow> slot \<Rightarrow> int" where
  "charged w k =
     sum_list (map (charge k) (gw_held w))
     + sum_list (map ((\<lambda>r. charge k (rs_lease r)) \<circ> snd) (gv_residencies (gw_gov w)))"

definition lease_amounts_ok :: "gov_world \<Rightarrow> bool" where
  "lease_amounts_ok w =
     ((\<forall>l \<in> set (gw_held w). 0 \<le> ls_amount l) \<and>
      (\<forall>p \<in> set (gv_residencies (gw_gov w)). 0 \<le> ls_amount (rs_lease (snd p))))"

text \<open>
  The books balance: usage is the sum of the leases in circulation, is never negative, and
  where it is positive a limit is known and respected.
\<close>

definition within_limit :: "governor \<Rightarrow> slot \<Rightarrow> bool" where
  "within_limit g k =
     (gov_used g k = 0 \<or>
      (\<exists>lim. gov_limit g (fst k) (snd k) = Inr (Some lim) \<and> gov_used g k \<le> lim))"

definition gov_balanced :: "budget \<Rightarrow> gov_world \<Rightarrow> bool" where
  "gov_balanced b w =
     (wf_dict (gv_residencies (gw_gov w)) \<and> lease_amounts_ok w \<and> gv_budget (gw_gov w) = b \<and>
      (\<forall>k. gov_used (gw_gov w) k = charged w k) \<and> (\<forall>k. within_limit (gw_gov w) k))"

lemma gov_balancedD:
  assumes "gov_balanced b w"
  shows "wf_dict (gv_residencies (gw_gov w))" and "lease_amounts_ok w"
    and "gv_budget (gw_gov w) = b" and "gov_used (gw_gov w) k = charged w k"
    and "within_limit (gw_gov w) k"
  using assms by (simp_all add: gov_balanced_def del: split_paired_All)

lemma charged_nonneg: "lease_amounts_ok w \<Longrightarrow> 0 \<le> charged w k"
  unfolding charged_def lease_amounts_ok_def charge_def
  by (auto intro!: add_nonneg_nonneg sum_list_nonneg split: if_splits)

lemma within_limit_cong:
  "gv_budget g' = gv_budget g \<Longrightarrow> gov_used g' k = gov_used g k \<Longrightarrow>
   within_limit g' k \<longleftrightarrow> within_limit g k"
  by (simp add: within_limit_def gov_limit_cong [of g' g])

lemma within_limit_residencies [simp]:
  "within_limit (g\<lparr>gv_residencies := rs\<rparr>) k \<longleftrightarrow> within_limit g k"
  by (rule within_limit_cong) (simp_all add: gov_simps)

lemma within_limit_grow:
  assumes "gov_fits g tier device n = Inr True" and "within_limit g k"
  shows "within_limit (gov_add (tier, device) n g) k"
  using assms by (auto simp: within_limit_def gov_simps gov_fits_True
      gov_limit_cong [OF gov_add_frame(1)])

lemma within_limit_shrink:
  assumes "within_limit g k" and "0 \<le> n" and "n \<le> gov_used g j"
  shows "within_limit (gov_add j (- n) g) k"
  using assms by (auto simp: within_limit_def gov_simps gov_limit_cong [OF gov_add_frame(1)])

lemma sum_list_remove_nth:
  fixes f :: "'a \<Rightarrow> int"
  shows "i < length xs \<Longrightarrow>
    sum_list (map f (take i xs @ drop (Suc i) xs)) = sum_list (map f xs) - f (xs ! i)"
  by (subst (3) id_take_nth_drop [of i xs]) (simp_all del: append_take_drop_id)

lemma sum_list_ge_member:
  fixes f :: "'a \<Rightarrow> int"
  shows "x \<in> set xs \<Longrightarrow> \<forall>y\<in>set xs. 0 \<le> f y \<Longrightarrow> f x \<le> sum_list (map f xs)"
  by (rule member_le_sum_list) auto

lemma charge_nonneg: "0 \<le> ls_amount l \<Longrightarrow> 0 \<le> charge k l"
  by (simp add: charge_def)

lemma charge_own [simp]: "charge (lease_slot l) l = ls_amount l"
  by (simp add: charge_def)

text \<open>A lease in circulation is covered by the usage of its slot.\<close>

lemma held_covered:
  assumes "lease_amounts_ok w" and "l \<in> set (gw_held w)"
  shows "ls_amount l \<le> charged w (lease_slot l)"
proof -
  have "charge (lease_slot l) l \<le> sum_list (map (charge (lease_slot l)) (gw_held w))"
    using assms by (intro sum_list_ge_member) (auto simp: lease_amounts_ok_def charge_nonneg)
  moreover have "0 \<le> sum_list (map ((\<lambda>r. charge (lease_slot l) (rs_lease r)) \<circ> snd)
      (gv_residencies (gw_gov w)))"
    using assms(1) by (intro sum_list_nonneg) (auto simp: lease_amounts_ok_def charge_nonneg)
  ultimately show ?thesis by (simp add: charged_def)
qed

lemma resident_covered:
  assumes "lease_amounts_ok w" and "(pod, r) \<in> set (gv_residencies (gw_gov w))"
  shows "ls_amount (rs_lease r) \<le> charged w (lease_slot (rs_lease r))"
proof -
  let ?k = "lease_slot (rs_lease r)"
  have "((\<lambda>r. charge ?k (rs_lease r)) \<circ> snd) (pod, r) \<le>
      sum_list (map ((\<lambda>r. charge ?k (rs_lease r)) \<circ> snd) (gv_residencies (gw_gov w)))"
    using assms by (intro sum_list_ge_member) (auto simp: lease_amounts_ok_def charge_nonneg)
  moreover have "0 \<le> sum_list (map (charge ?k) (gw_held w))"
    using assms(1) by (intro sum_list_nonneg) (auto simp: lease_amounts_ok_def charge_nonneg)
  ultimately show ?thesis by (simp add: charged_def)
qed

lemma take_lease_balanced:
  assumes "acquired_one (gw_gov w) n res g'" and "gov_balanced b w"
  shows "gov_balanced b (take_lease (res, g') (gw_held w))"
  using assms(1) unfolding acquired_one_def
proof (elim disjE exE conjE)
  assume "g' = gw_gov w" "\<forall>l. res \<noteq> Inr (Some l)"
  then have "take_lease (res, g') (gw_held w) = w"
    by (cases w) (auto simp: take_lease_def split: sum.split option.split)
  with assms(2) show ?thesis by simp
next
  fix tier device
  assume "0 \<le> n" "gov_fits (gw_gov w) tier device n = Inr True"
    "res = Inr (Some \<lparr>ls_tier = tier, ls_amount = n, ls_device = device\<rparr>)"
    "g' = gov_add (tier, device) n (gw_gov w)"
  with assms(2) show ?thesis
    by (auto simp: gov_balanced_def take_lease_def charged_def gov_simps lease_amounts_ok_def
        charge_def lease_slot_def intro: within_limit_grow)
qed

lemma release_balanced:
  assumes "gov_balanced b w" and "i < length (gw_held w)"
  shows "gov_balanced b (gov_step w (Op_Release i))"
proof -
  let ?l = "gw_held w ! i"
  have ok: "lease_amounts_ok w" and mem: "?l \<in> set (gw_held w)"
    using assms by (auto simp: gov_balanced_def)
  have "ls_amount ?l \<le> gov_used (gw_gov w) (lease_slot ?l)"
    using held_covered [OF ok mem] by (simp add: gov_balancedD(4) [OF assms(1)])
  moreover have "0 \<le> ls_amount ?l" using ok mem by (auto simp: lease_amounts_ok_def)
  ultimately have lim:
    "within_limit (gov_add (lease_slot ?l) (- ls_amount ?l) (gw_gov w)) k" for k
    using gov_balancedD(5) [OF assms(1)] by (intro within_limit_shrink)
  have rel: "snd (gov_release (gw_gov w) ?l)
      = gov_add (lease_slot ?l) (- ls_amount ?l) (gw_gov w)"
    by (simp add: gov_release_def Let_def)
  have ch: "charged (gov_step w (Op_Release i)) k = charged w k - charge k ?l" for k
    using assms(2) sum_list_remove_nth [OF assms(2), of "charge k"]
    by (simp add: charged_def rel gov_simps)
  have "lease_amounts_ok (gov_step w (Op_Release i))"
    using ok assms(2)
    by (auto simp: lease_amounts_ok_def rel gov_simps dest: in_set_takeD in_set_dropD)
  then show ?thesis
    using rel assms(2) ch lim gov_balancedD(1,3,4) [OF assms(1)]
    by (auto simp: gov_balanced_def gov_simps charge_def)
qed

lemma activate_balanced:
  assumes "gov_balanced b w"
  shows "gov_balanced b (gov_step w (Op_Activate pod gen n preferred))"
proof -
  obtain res g' where a: "gov_activate (gw_gov w) pod gen (int n) preferred = (res, g')"
    by fastforce
  from a show ?thesis
  proof (cases rule: gov_activate_cases)
    case same
    with a assms show ?thesis by simp
  next
    case (placed tier device r)
    have wf: "wf_dict (gv_residencies (gw_gov w))" using assms by (simp add: gov_balanced_def)
    have "charged (gov_step w (Op_Activate pod gen n preferred)) k
        = charged w k + charge k (rs_lease r)" for k
      using a placed sum_list_update_keys [OF wf, where f = "\<lambda>r. charge k (rs_lease r)"]
      by (simp add: charged_def)
    moreover have "lease_amounts_ok (gov_step w (Op_Activate pod gen n preferred))"
      using a placed assms
      by (auto simp: lease_amounts_ok_def gov_balanced_def dest!: dput_mem)
    ultimately show ?thesis
      using a placed assms
      by (auto simp: gov_balanced_def gov_simps charge_def lease_slot_def intro: within_limit_grow)
  qed
qed

lemma deactivate_balanced:
  assumes "gov_balanced b w"
  shows "gov_balanced b (gov_step w (Op_Deactivate pod gen))"
proof -
  obtain res g' where a: "gov_deactivate (gw_gov w) pod gen = (res, g')"
    by fastforce
  from a show ?thesis
  proof (cases rule: gov_deactivate_cases)
    case same
    with a assms show ?thesis by simp
  next
    case (evicted r)
    note wf = gov_balancedD(1) [OF assms] and ok = gov_balancedD(2) [OF assms]
    have mem: "(pod, r) \<in> set (gv_residencies (gw_gov w))"
      using evicted(1) by (rule map_of_SomeD)
    let ?l = "rs_lease r"
    have ch: "charged (gov_step w (Op_Deactivate pod gen)) k = charged w k - charge k ?l" for k
      using a evicted sum_list_pop_keys [OF wf, where f = "\<lambda>r. charge k (rs_lease r)"]
      by (simp add: charged_def)
    have ok': "lease_amounts_ok (gov_step w (Op_Deactivate pod gen))"
      using a evicted ok by (auto simp: lease_amounts_ok_def dest!: dpop_mem)
    have "ls_amount ?l \<le> gov_used (gw_gov w) (lease_slot ?l)"
      using resident_covered [OF ok mem] by (simp add: gov_balancedD(4) [OF assms])
    moreover have "0 \<le> ls_amount ?l" using ok mem by (auto simp: lease_amounts_ok_def)
    ultimately have "within_limit (gov_add (lease_slot ?l) (- ls_amount ?l) (gw_gov w)) k" for k
      using gov_balancedD(5) [OF assms] by (intro within_limit_shrink)
    then show ?thesis
      using a evicted(3) wf ok' ch gov_balancedD(3,4) [OF assms]
      by (auto simp: gov_balanced_def gov_simps charge_def)
  qed
qed

lemma gov_step_balanced: "gov_balanced b w \<Longrightarrow> gov_balanced b (gov_step w op)"
proof (cases op)
  case (Op_Acquire tier n device)
  then show "gov_balanced b w \<Longrightarrow> ?thesis"
    using take_lease_balanced [OF acquired_one_acquire]
    by (metis gov_step.simps(1) prod.collapse)
next
  case (Op_Choose n preferred)
  then show "gov_balanced b w \<Longrightarrow> ?thesis"
    using take_lease_balanced [OF acquired_one_choose]
    by (metis gov_step.simps(2) prod.collapse)
next
  case (Op_Release i)
  then show "gov_balanced b w \<Longrightarrow> ?thesis"
    using release_balanced by (cases "i < length (gw_held w)") auto
qed (auto intro: activate_balanced deactivate_balanced simp del: gov_step.simps)

lemma new_world_balanced: "gov_balanced b (new_world b)"
  by (auto simp: gov_balanced_def new_world_def new_governor_def lease_amounts_ok_def charged_def
      within_limit_def gov_used_def dget_or_def)

interpretation gov_machine: kept_invariant gov_step "gov_balanced b" for b
  by unfold_locales (rule gov_step_balanced)

lemma gov_reachable_balanced: "gov_balanced b (run_steps gov_step (new_world b) ops)"
  by (rule gov_machine.run_invar [OF new_world_balanced])

section \<open>Admission as an interface\<close>

text \<open>
  What a caller that brackets its work with a lease relies on: a choice charges exactly the
  lease it hands out and nothing otherwise, a release takes the charge back, and a covered lease
  can be released.
\<close>

locale admission =
  fixes admit :: "'s \<Rightarrow> 'a \<Rightarrow> 'l option result \<times> 's"
    and release :: "'s \<Rightarrow> 'l \<Rightarrow> unit result \<times> 's"
    and usage :: "'s \<Rightarrow> 'k \<Rightarrow> int"
    and cost :: "'k \<Rightarrow> 'l \<Rightarrow> int"
  assumes refused: "admit s a = (r, s') \<Longrightarrow> \<forall>l. r \<noteq> Inr (Some l) \<Longrightarrow> usage s' k = usage s k"
    and admitted: "admit s a = (Inr (Some l), s') \<Longrightarrow> usage s' k = usage s k + cost k l"
    and released: "release s l = (u, s') \<Longrightarrow> usage s' k = usage s k - cost k l"
    and covered: "\<forall>k. cost k l \<le> usage s k \<Longrightarrow> fst (release s l) = Inr ()"
begin

lemma bracket_restores:
  assumes "admit s a = (Inr (Some l), s1)" and "usage s2 k = usage s1 k"
    and "release s2 l = (u, s3)"
  shows "usage s3 k = usage s k"
  using admitted [OF assms(1)] released [OF assms(3)] assms(2) by simp

lemma bracket_releases:
  assumes "admit s a = (Inr (Some l), s1)" and "\<forall>k. usage s2 k = usage s1 k"
    and "\<forall>k. 0 \<le> usage s k"
  shows "fst (release s2 l) = Inr ()"
  by (rule covered) (use assms(2,3) admitted [OF assms(1)] in simp)

end

lemma gov_release_used:
  "gov_release g l = (r, g') \<Longrightarrow> gov_used g' k = gov_used g k - charge k l"
  by (auto simp: gov_release_def Let_def gov_simps charge_def split: if_splits)

interpretation gov_admission: admission "\<lambda>g (n, preferred). gov_choose g n preferred"
    gov_release gov_used charge
proof unfold_locales
  fix g a r g' k
  assume "(\<lambda>(n, preferred). gov_choose g n preferred) a = (r, g')"
    and none: "\<forall>l. r \<noteq> Inr (Some l)"
  then have "acquired_one g (fst a) r g'"
    by (cases a) (simp add: acquired_one_choose)
  with none show "gov_used g' k = gov_used g k" by (auto simp: acquired_one_def)
next
  fix g a l g' k
  assume "(\<lambda>(n, preferred). gov_choose g n preferred) a = (Inr (Some l), g')"
  then have "acquired_one g (fst a) (Inr (Some l)) g'"
    by (cases a) (simp add: acquired_one_choose)
  then show "gov_used g' k = gov_used g k + charge k l"
    by (auto simp: acquired_one_def gov_simps charge_def lease_slot_def)
next
  fix g l r g' k
  show "gov_release g l = (r, g') \<Longrightarrow> gov_used g' k = gov_used g k - charge k l"
    by (rule gov_release_used)
next
  fix l g
  assume c: "\<forall>k. charge k l \<le> gov_used g k"
  have "ls_amount l \<le> gov_used g (lease_slot l)" using spec [OF c, of "lease_slot l"] by simp
  then show "fst (gov_release g l) = Inr ()"
    by (simp add: gov_release_def Let_def gov_simps)
qed

section \<open>Correctness of the governor\<close>

text \<open>C5. \<open>ResourceGovernor\<close> never over-commits. Take any sequence of \<open>try_acquire\<close>, \<open>choose\<close>,
  \<open>release\<close> of a held lease, \<open>activate\<close> with a non-negative amount and \<open>deactivate\<close> on a fresh
  governor, whatever their arguments. For every tier and device the counter then equals the sum
  of the held leases plus the resident pods' leases, is not negative, and is zero or at most the
  measured limit of that tier and device.\<close>

theorem governor_never_overcommits:
  "0 \<le> gov_used (gw_gov (run_steps gov_step (new_world b) ops)) k
   \<and> gov_used (gw_gov (run_steps gov_step (new_world b) ops)) k
       = charged (run_steps gov_step (new_world b) ops) k
   \<and> (gov_used (gw_gov (run_steps gov_step (new_world b) ops)) k = 0
      \<or> (\<exists>lim. gov_limit (new_governor b) (fst k) (snd k) = Inr (Some lim)
           \<and> gov_used (gw_gov (run_steps gov_step (new_world b) ops)) k \<le> lim))"
proof -
  let ?w = "run_steps gov_step (new_world b) ops"
  note bal = gov_reachable_balanced [of b ops]
  have "gov_limit (gw_gov ?w) = gov_limit (new_governor b)"
    by (rule gov_limit_cong) (simp add: gov_balancedD(3) [OF bal] new_governor_def)
  with gov_balancedD(5) [OF bal, of k] show ?thesis
    by (simp add: within_limit_def gov_balancedD(4) [OF bal] charged_nonneg gov_balancedD(2) [OF bal])
qed

text \<open>A lease that is held can always be given back: after any sequence of operations,
  \<open>release\<close> of any lease still held does not raise, and lowers only that slot by its amount.\<close>

theorem held_lease_release_succeeds:
  assumes "i < length (gw_held (run_steps gov_step (new_world b) ops))"
  shows "fst (gov_release (gw_gov (run_steps gov_step (new_world b) ops))
            (gw_held (run_steps gov_step (new_world b) ops) ! i)) = Inr ()
    \<and> gov_used (gw_gov (run_steps gov_step (new_world b) (ops @ [Op_Release i]))) k
        = gov_used (gw_gov (run_steps gov_step (new_world b) ops)) k
          - charge k (gw_held (run_steps gov_step (new_world b) ops) ! i)"
proof -
  let ?w = "run_steps gov_step (new_world b) ops"
  let ?l = "gw_held ?w ! i"
  note bal = gov_reachable_balanced [of b ops]
  have "ls_amount ?l \<le> gov_used (gw_gov ?w) (lease_slot ?l)"
    using held_covered [OF gov_balancedD(2) [OF bal]] assms by (simp add: gov_balancedD(4) [OF bal])
  then have "fst (gov_release (gw_gov ?w) ?l) = Inr ()"
    by (simp add: gov_release_def Let_def gov_simps)
  moreover have "gov_used (snd (gov_release (gw_gov ?w) ?l)) k = gov_used (gw_gov ?w) k - charge k ?l"
    by (rule gov_release_used) (rule prod.collapse [symmetric])
  ultimately show ?thesis
    using assms by (simp add: run_steps_append)
qed

definition sample_budget :: budget where
  "sample_budget = \<lparr>bd_ram = Some 100, bd_vram = [(0, 40)], bd_disk = None\<rparr>"

theorem held_lease_release_succeeds_witness:
  "fst (gov_release (gw_gov (run_steps gov_step (new_world sample_budget) [Op_Choose 60 ''vram'']))
        (gw_held (run_steps gov_step (new_world sample_budget) [Op_Choose 60 ''vram'']) ! 0))
    = Inr ()"
proof -
  have "0 < length (gw_held (run_steps gov_step (new_world sample_budget) [Op_Choose 60 ''vram'']))"
    by code_simp
  from held_lease_release_succeeds [OF this, of "(''ram'', None)"] show ?thesis by blast
qed

text \<open>\<open>ResourceBoundHandler\<close> gives its lease back on every path. If the counters were
  non-negative and the wrapped handler leaves them as it finds them, whether it returns or
  raises, then after the call every counter is what it was; the release itself does not raise, so
  an admitted call has exactly the handler's outcome and counts as admitted, and a call without a
  lease raises, never runs the handler and, when no slot fits, counts as rejected.\<close>

theorem bound_handler_restores_usage:
  assumes "\<forall>g k. gov_used (snd (handler g)) k = gov_used g k"
    and "\<forall>k. 0 \<le> gov_used (bh_governor b) k"
    and "bound_call handler b = (res, b')"
  shows "gov_used (bh_governor b') k = gov_used (bh_governor b) k
    \<and> (case gov_choose (bh_governor b) (bh_amount b) (bh_preferred b) of
         (Inl e, _) \<Rightarrow> res = Inl e \<and> bh_admitted b' = bh_admitted b \<and> bh_rejected b' = bh_rejected b
       | (Inr None, _) \<Rightarrow> res = Inl RuntimeError \<and> bh_admitted b' = bh_admitted b
                            \<and> bh_rejected b' = bh_rejected b + 1
       | (Inr (Some l), g) \<Rightarrow> res = fst (handler g) \<and> bh_admitted b' = bh_admitted b + 1
                            \<and> bh_rejected b' = bh_rejected b)"
proof -
  obtain r g where c: "gov_choose (bh_governor b) (bh_amount b) (bh_preferred b) = (r, g)"
    by fastforce
  note c' = c [folded prod.case [of "\<lambda>n p. gov_choose (bh_governor b) n p" "bh_amount b" "bh_preferred b"]]
  show ?thesis
  proof (cases "\<exists>l. r = Inr (Some l)")
    case False
    then have "gov_used g k = gov_used (bh_governor b) k"
      by (intro gov_admission.refused [OF c']) blast
    with c False assms(3) show ?thesis
      by (auto simp: bound_call_def split: sum.splits option.splits)
  next
    case True
    then obtain l where r: "r = Inr (Some l)" by blast
    note c'' = c' [unfolded r]
    obtain hr g1 where h: "handler g = (hr, g1)" by fastforce
    have frame: "\<forall>k. gov_used g1 k = gov_used g k" using assms(1) h by (metis snd_conv)
    obtain rr g2 where rel: "gov_release g1 l = (rr, g2)" by fastforce
    have "rr = Inr ()"
      using gov_admission.bracket_releases [OF c'' frame assms(2)] rel by simp
    moreover have "gov_used g2 k = gov_used (bh_governor b) k"
      using gov_admission.bracket_restores [OF c'' spec [OF frame] rel] .
    ultimately show ?thesis using c r h rel assms(3) by (auto simp: bound_call_def)
  qed
qed

definition sample_bound :: bound_handler where
  "sample_bound = \<lparr>bh_governor = new_governor sample_budget, bh_amount = 60,
     bh_preferred = ''vram'', bh_admitted = 0, bh_rejected = 0\<rparr>"

theorem bound_handler_restores_usage_witness:
  "gov_used (bh_governor (snd (bound_call (\<lambda>g. (Inl TimeoutError :: int result, g)) sample_bound)))
     (''ram'', None) = 0"
proof -
  have z: "\<forall>k. 0 \<le> gov_used (bh_governor sample_bound) k"
    by (simp add: sample_bound_def new_governor_def gov_used_def dget_or_def)
  have "\<forall>g k. gov_used (snd ((\<lambda>g. (Inl TimeoutError :: int result, g)) g)) k = gov_used g k"
    by simp
  from bound_handler_restores_usage [OF this z prod.collapse [symmetric], of "(''ram'', None)"]
  show ?thesis by (simp add: sample_bound_def new_governor_def gov_used_def dget_or_def)
qed

text \<open>The generation barrier of a resident pod. While a pod is resident, only \<open>deactivate\<close> of
  that very pod, with no generation or with the resident one, changes its residency, and then it
  removes it; \<open>activate\<close> with the resident generation returns the residency and charges nothing,
  with any other generation it raises and changes nothing.\<close>

theorem resident_generation_pinned:
  assumes "dget (gv_residencies (gw_gov w)) pod = Some r"
  shows "(dget (gv_residencies (gw_gov (gov_step w op))) pod = Some r
      \<or> (dget (gv_residencies (gw_gov (gov_step w op))) pod = None
         \<and> op \<in> {Op_Deactivate pod None, Op_Deactivate pod (Some (rs_generation r))}))
    \<and> (pod = [] \<or> gen = [] \<or> gov_activate (gw_gov w) pod gen n preferred =
         (if gen = rs_generation r then (Inr (Some r), gw_gov w) else (Inl RuntimeError, gw_gov w)))"
proof -
  have keep: "acquired_one (gw_gov w) m res g' \<Longrightarrow> gv_residencies g' = gv_residencies (gw_gov w)"
    for m res g'
    by (auto simp: acquired_one_def gov_simps)
  show ?thesis
  proof (cases op)
    case (Op_Acquire tier m device)
    then show ?thesis
      using assms keep [OF acquired_one_acquire [OF prod.collapse [symmetric]], of tier m device]
      by (simp add: take_lease_def gov_activate_def)
  next
    case (Op_Choose m pref)
    then show ?thesis
      using assms keep [OF acquired_one_choose [OF prod.collapse [symmetric]], of m pref]
      by (simp add: take_lease_def gov_activate_def)
  next
    case (Op_Release i)
    then show ?thesis
      using assms by (auto simp: gov_release_def Let_def gov_simps gov_activate_def)
  next
    case (Op_Activate pod' gen' m pref)
    obtain res g' where a: "gov_activate (gw_gov w) pod' gen' (int m) pref = (res, g')"
      by fastforce
    then have "dget (gv_residencies g') pod = Some r"
      by (cases rule: gov_activate_cases) (use assms in \<open>auto simp: dict_simps\<close>)
    with a Op_Activate assms show ?thesis by (simp add: gov_activate_def)
  next
    case (Op_Deactivate pod' gen')
    then show ?thesis
      using assms
      by (auto simp: gov_deactivate_def Let_def gov_simps gov_activate_def dict_simps
          split: option.splits)
  qed
qed

theorem resident_generation_pinned_witness:
  "gov_activate (gw_gov (gov_step (new_world sample_budget) (Op_Activate ''p'' ''g1'' 30 ''vram'')))
     ''p'' ''g2'' 30 ''vram''
   = (Inl RuntimeError,
      gw_gov (gov_step (new_world sample_budget) (Op_Activate ''p'' ''g1'' 30 ''vram'')))"
proof -
  have "dget (gv_residencies (gw_gov (gov_step (new_world sample_budget)
      (Op_Activate ''p'' ''g1'' 30 ''vram'')))) ''p'' =
    Some \<lparr>rs_pod = ''p'', rs_generation = ''g1'',
          rs_lease = \<lparr>ls_tier = ''vram'', ls_amount = 30, ls_device = Some 0\<rparr>\<rparr>"
    by code_simp
  from resident_generation_pinned [OF this, of "Op_Release 0" "''g2''" 30 "''vram''"]
  show ?thesis by simp
qed

text \<open>\<open>activate\<close>, unlike \<open>try_acquire\<close>, does not check the sign of its amount. A negative
  amount is granted wherever a limit is known and lowers the counter, so later leases of any
  caller can exceed the measured limit: for every limit and every excess there is a run of two
  admissions whose granted lease is larger than the limit.\<close>

theorem negative_activation_overcommits:
  "\<exists>l. snd (gov_activate (new_governor \<lparr>bd_ram = Some (int cap), bd_vram = [], bd_disk = None\<rparr>)
          ''p'' ''g'' (- int (Suc n)) ''ram'')
        = gov_add (''ram'', None) (- int (Suc n))
            (new_governor \<lparr>bd_ram = Some (int cap), bd_vram = [], bd_disk = None\<rparr>)
          \<lparr>gv_residencies := [(''p'', \<lparr>rs_pod = ''p'', rs_generation = ''g'', rs_lease =
               \<lparr>ls_tier = ''ram'', ls_amount = - int (Suc n), ls_device = None\<rparr>\<rparr>)]\<rparr>
     \<and> fst (gov_try_acquire
          (snd (gov_activate (new_governor \<lparr>bd_ram = Some (int cap), bd_vram = [], bd_disk = None\<rparr>)
             ''p'' ''g'' (- int (Suc n)) ''ram''))
          ''ram'' (int cap + int (Suc n)) None) = Inr (Some l)
     \<and> ls_amount l = int cap + int (Suc n)"
  by (simp add: gov_activate_def candidate_slots_def gov_fits_def gov_limit_def new_governor_def
      gov_used_def dget_or_def gov_add_def gov_try_acquire_def Let_def)

lemma vram_budget_entry:
  "dget (vram_budget reserve gs d) i = Some v \<Longrightarrow>
     dget d i = Some v \<or> (\<exists>g\<in>set gs. \<exists>f. gpu_index g = i \<and> gpu_free g = Some f \<and> v = max 0 (f - reserve))"
  by (induction reserve gs d rule: vram_budget.induct)
    (fastforce simp: dict_simps split: option.splits if_splits)+

text \<open>A budget never promises more than was measured. With a reserve fraction in \<open>[0, 1)\<close> and
  non-negative byte reserves, the RAM budget is between 0 and the available RAM, every VRAM entry
  belongs to a GPU whose free memory was measured and lies between 0 and that measurement, and the
  disk budget is at most the free space when that covers the reserve; a missing measurement gives
  no budget at all, and a fraction outside the range is rejected.\<close>

theorem budget_within_measurement:
  assumes "0 \<le> ram_reserve" and "ram_reserve < 1" and "0 \<le> vram_reserve" and "0 \<le> disk_reserve"
    and "hw_ram_available s = Some a" and "0 \<le> a"
    and "\<forall>g\<in>set (hw_gpus s). \<forall>f. gpu_free g = Some f \<longrightarrow> 0 \<le> f"
  shows "\<exists>b ram. budget_from_snapshot s ram_reserve vram_reserve disk_reserve = Inr b
    \<and> bd_ram b = Some ram \<and> 0 \<le> ram \<and> ram \<le> a
    \<and> (\<forall>i v. dget (bd_vram b) i = Some v \<longrightarrow>
         0 \<le> v \<and> (\<exists>g\<in>set (hw_gpus s). \<exists>f. gpu_index g = i \<and> gpu_free g = Some f \<and> v \<le> f))
    \<and> bd_disk b = map_option (\<lambda>f. max 0 (f - disk_reserve)) (hw_disk_free s)
    \<and> budget_from_snapshot s (1 + ram_reserve) vram_reserve disk_reserve = Inl ValueError"
proof -
  let ?x = "real_of_int a * (1 - ram_reserve)"
  have x0: "0 \<le> ?x" using assms(2,6) by simp
  have "?x \<le> real_of_int a"
    using assms(1,6) by (simp add: mult_left_le)
  with py_trunc_le(1) [OF x0] have "py_trunc ?x \<le> a" by linarith
  moreover note py_trunc_le(2) [OF x0]
  moreover have "0 \<le> v \<and> (\<exists>g\<in>set (hw_gpus s). \<exists>f. gpu_index g = i \<and> gpu_free g = Some f \<and> v \<le> f)"
    if "dget (vram_budget vram_reserve (hw_gpus s) []) i = Some v" for i v
    using vram_budget_entry [OF that] assms(3,7) by fastforce
  ultimately show ?thesis
    using assms(1,2,5) by (auto simp: budget_from_snapshot_def)
qed

definition sample_hw :: hardware where
  "sample_hw = \<lparr>hw_captured_at = 0, hw_cpu_logical = 8, hw_cpu_physical = None,
     hw_ram_total = Some 2000, hw_ram_available = Some 1000,
     hw_gpus = [\<lparr>gpu_index = 1, gpu_name = ''a'', gpu_total = None, gpu_free = Some 500,
                gpu_used = None\<rparr>],
     hw_disk_free = None\<rparr>"

theorem budget_within_measurement_witness:
  "\<exists>b ram. budget_from_snapshot sample_hw (15/100) 200 10 = Inr b \<and> bd_ram b = Some ram \<and> ram \<le> 1000"
  using budget_within_measurement [of "15/100" 200 10 sample_hw 1000]
  by (auto simp: sample_hw_def)

section \<open>Correctness of the request tracker\<close>

text \<open>
  A run of the tracker beside its ghost history: the ids started, and every receipt finished, in
  order.
\<close>

record tracker_world =
  tw_tracker :: tracker
  tw_started :: "string list"
  tw_finished :: "receipt list"

datatype tracker_op =
    Tr_Start real string string string "string option" "hardware option"
  | Tr_Phase string string real
  | Tr_Finish real string bool "string option" int int bool "hardware option"

fun tracker_step :: "tracker_world \<Rightarrow> tracker_op \<Rightarrow> tracker_world" where
  "tracker_step w (Tr_Start now rid trace pod gen hw) =
     (case tr_start now (tw_tracker w) rid trace pod gen hw of
        (Inl _, t) \<Rightarrow> w\<lparr>tw_tracker := t\<rparr>
      | (Inr _, t) \<Rightarrow> w\<lparr>tw_tracker := t, tw_started := tw_started w @ [rid]\<rparr>)"
| "tracker_step w (Tr_Phase rid name elapsed) =
     w\<lparr>tw_tracker := snd (tr_phase (tw_tracker w) rid name elapsed)\<rparr>"
| "tracker_step w (Tr_Finish now rid success err tin tout hit hw) =
     (case tr_finish now (tw_tracker w) rid success err tin tout hit hw of
        (Inl _, t) \<Rightarrow> w\<lparr>tw_tracker := t\<rparr>
      | (Inr r, t) \<Rightarrow> w\<lparr>tw_tracker := t, tw_finished := tw_finished w @ [r]\<rparr>)"

definition last_n :: "nat \<Rightarrow> 'a list \<Rightarrow> 'a list" where
  "last_n n xs = drop (length xs - n) xs"

lemma length_last_n [simp]: "length (last_n n xs) = min n (length xs)"
  by (auto simp: last_n_def)

lemma last_n_snoc: "0 < n \<Longrightarrow> deque_append n (last_n n xs) x = last_n n (xs @ [x])"
  by (cases "n \<le> length xs") (auto simp: last_n_def deque_append_def Suc_diff_le)

definition receipt_closed :: "receipt \<Rightarrow> bool" where
  "receipt_closed r = (rc_ended_at r \<noteq> None \<and> rc_success r \<noteq> None)"

definition tracker_inv :: "nat \<Rightarrow> tracker_world \<Rightarrow> bool" where
  "tracker_inv m w =
     (0 < m \<and> tk_max (tw_tracker w) = m \<and> wf_dict (tk_active (tw_tracker w))
      \<and> (\<forall>p\<in>set (tk_active (tw_tracker w)). rc_request_id (snd p) = fst p)
      \<and> tk_records (tw_tracker w) = last_n m (tw_finished w)
      \<and> (\<forall>r\<in>set (tw_finished w). receipt_closed r)
      \<and> (\<forall>i. count_list (tw_started w) i
             = count_list (map rc_request_id (tw_finished w)) i
               + (if dget (tk_active (tw_tracker w)) i = None then 0 else 1)))"

lemma tracker_start_inv:
  "tracker_inv m w \<Longrightarrow> tracker_inv m (tracker_step w (Tr_Start now rid trace pod gen hw))"
  by (auto simp: tracker_inv_def tr_start_def Let_def dict_simps count_list_append
      dest!: dput_mem)

lemma tracker_phase_inv:
  assumes "tracker_inv m w"
  shows "tracker_inv m (tracker_step w (Tr_Phase rid name elapsed))"
proof (cases "elapsed < 0 \<or> dget (tk_active (tw_tracker w)) rid = None")
  case True
  with assms show ?thesis by (auto simp: tr_phase_def)
next
  case False
  then obtain r where r: "dget (tk_active (tw_tracker w)) rid = Some r" by blast
  with False assms map_of_SomeD [OF r] show ?thesis
    by (auto simp: tracker_inv_def tr_phase_def dict_simps dest!: dput_mem)
qed

lemma tracker_finish_inv:
  assumes "tracker_inv m w"
  shows "tracker_inv m (tracker_step w (Tr_Finish now rid success err tin tout hit hw))"
proof (cases "dget (tk_active (tw_tracker w)) rid")
  case None
  with assms show ?thesis by (simp add: tr_finish_def)
next
  case (Some r)
  from map_of_SomeD [OF this] have mem: "(rid, r) \<in> set (tk_active (tw_tracker w))" .
  then have "rc_request_id r = rid" using assms by (auto simp: tracker_inv_def)
  then show ?thesis
    using assms Some
    by (auto simp: tracker_inv_def tr_finish_def Let_def last_n_snoc receipt_closed_def
        count_list_append dict_simps dest!: dpop_mem)
qed

lemma tracker_step_inv: "tracker_inv m w \<Longrightarrow> tracker_inv m (tracker_step w op)"
  by (cases op) (simp_all only: tracker_start_inv tracker_phase_inv tracker_finish_inv)

interpretation tracker_machine: kept_invariant tracker_step "tracker_inv m" for m
  by unfold_locales (rule tracker_step_inv)

lemma new_tracker_inv:
  "new_tracker n = Inr t \<Longrightarrow> tracker_inv (nat n) \<lparr>tw_tracker = t, tw_started = [], tw_finished = []\<rparr>"
  by (auto simp: new_tracker_def tracker_inv_def last_n_def split: if_splits)

lemma success_or_error:
  "\<forall>r\<in>set rs. receipt_closed r \<Longrightarrow>
   length (filter (\<lambda>r. rc_success r = Some True) rs)
     + length (filter (\<lambda>r. rc_success r = Some False) rs) = length rs"
  by (induction rs) (auto simp: receipt_closed_def)

text \<open>\<open>RequestTracker\<close> loses nothing but age. From a fresh tracker, whatever is started, phased
  and finished: its history is exactly the last \<open>max_records\<close> finished receipts in the order they
  finished; each id was started as often as it finished plus once if it is still active; and the
  statistics count every retained receipt as a success or an error, never both or neither.\<close>

theorem tracker_history_is_recent:
  assumes "new_tracker n = Inr t"
    and "w = run_steps tracker_step \<lparr>tw_tracker = t, tw_started = [], tw_finished = []\<rparr> ops"
  shows "tk_records (tw_tracker w) = last_n (nat n) (tw_finished w)
    \<and> ts_completed (tr_stats (tw_tracker w)) \<le> nat n
    \<and> ts_success (tr_stats (tw_tracker w)) + ts_errors (tr_stats (tw_tracker w))
        = ts_completed (tr_stats (tw_tracker w))
    \<and> count_list (tw_started w) i
        = count_list (map rc_request_id (tw_finished w)) i
          + (if dget (tk_active (tw_tracker w)) i = None then 0 else 1)"
proof -
  have inv: "tracker_inv (nat n) w"
    unfolding assms(2) by (rule tracker_machine.run_invar [OF new_tracker_inv [OF assms(1)]])
  then have "\<forall>r\<in>set (last_n (nat n) (tw_finished w)). receipt_closed r"
    by (auto simp: tracker_inv_def last_n_def dest: in_set_dropD)
  from success_or_error [OF this] inv show ?thesis
    by (simp add: tracker_inv_def tr_stats_def Let_def)
qed

theorem tracker_history_is_recent_witness:
  "ts_completed (tr_stats (tw_tracker (run_steps tracker_step
     \<lparr>tw_tracker = \<lparr>tk_max = 1, tk_records = [], tk_active = []\<rparr>, tw_started = [], tw_finished = []\<rparr>
     [Tr_Start 0 ''a'' ''t'' ''p'' None None, Tr_Finish 2 ''a'' True None 1 1 False None]))) \<le> 1"
  using tracker_history_is_recent [of 1 "\<lparr>tk_max = 1, tk_records = [], tk_active = []\<rparr>",
      OF _ refl, of "[Tr_Start 0 ''a'' ''t'' ''p'' None None,
        Tr_Finish 2 ''a'' True None 1 1 False None]" "''a''"]
  by (simp add: new_tracker_def)

lemma rank_in_range: "xs \<noteq> [] \<Longrightarrow> min (length xs - 1) k < length xs"
  by (simp add: min_less_iff_disj)

lemma percentile_mono:
  assumes "0 \<le> p" and "p \<le> q" and "q \<le> 1"
  shows "percentile xs p \<le> percentile xs q"
proof (cases "xs = []")
  case False
  let ?n = "length xs - 1"
  have "nat \<lfloor>real ?n * p\<rfloor> \<le> nat \<lfloor>real ?n * q\<rfloor>"
    by (intro nat_mono floor_mono mult_left_mono) (use assms in auto)
  then have "min ?n (nat \<lfloor>real ?n * p\<rfloor>) \<le> min ?n (nat \<lfloor>real ?n * q\<rfloor>)"
    by (rule min.mono [OF order_refl])
  with False rank_in_range [OF False] show ?thesis
    unfolding percentile_def by (auto intro!: sorted_nth_mono)
qed (simp add: percentile_def)

lemma percentile_mem:
  assumes "xs \<noteq> []"
  shows "percentile xs q \<in> set xs"
proof -
  have "sort xs ! min (length xs - 1) (nat \<lfloor>real (length xs - 1) * q\<rfloor>) \<in> set (sort xs)"
    by (rule nth_mem) (use rank_in_range [OF assms] in simp)
  then show ?thesis using assms by (simp add: percentile_def)
qed

lemma percentile_le_max: "xs \<noteq> [] \<Longrightarrow> percentile xs q \<le> Max (set xs)"
  by (rule Max_ge) (simp_all add: percentile_mem)

text \<open>The latency summary is ordered: the median is at most the 95th percentile, which is at
  most the maximum, and each of the two percentiles of a non-empty history is one of the measured
  latencies.\<close>

theorem latency_summary_ordered:
  "ts_p50 (tr_stats t) \<le> ts_p95 (tr_stats t) \<and> ts_p95 (tr_stats t) \<le> ts_max (tr_stats t)
   \<and> (latencies t = [] \<or> {ts_p50 (tr_stats t), ts_p95 (tr_stats t)} \<subseteq> set (latencies t))"
proof -
  have "percentile (latencies t) (95/100) \<le> ts_max (tr_stats t)"
    by (cases "latencies t = []")
      (simp_all add: tr_stats_def Let_def percentile_le_max percentile_def [of "[]"])
  with percentile_mem [of "latencies t"] percentile_mono [of "50/100" "95/100" "latencies t"] show ?thesis
    by (auto simp: tr_stats_def Let_def)
qed

end
