(* ===== verification/Household.thy ===== *)
theory Household
  imports Registry
begin

text \<open>
  \<open>neural_pods/household.py\<close>: donor pods, approval-gated allocations and their reconstruction from
  the provenance log.

  \<^item> \<open>household\<close>: the object's attributes; its registry is the model of theory \<open>Registry\<close>, used
    through the \<open>event_log\<close> interface.
  \<^item> \<open>hh_join\<close>, \<open>hh_request\<close>, \<open>hh_approve\<close>, \<open>hh_start\<close>, \<open>hh_release\<close>, \<open>hh_restore\<close>,
    \<open>hh_calibrate\<close>, \<open>hh_token_lookup\<close>, \<open>hh_token_store\<close>: the public methods.
  \<^item> \<open>place_tiers\<close>, \<open>place_segment\<close>, \<open>place_all\<close>: the three nested loops of \<open>start\<close>.

  \<open>H\<close> is \<open>_hash\<close>, the truncated SHA-256 of a canonical JSON value, and a parameter. The clock is an
  argument. A method and the event it records are one step. An event of another shape than the
  household writes makes \<open>hh_restore\<close> fail before it changes anything; the code fails midway.
\<close>

section \<open>State\<close>

record calibration =
  cb_model_ref :: string
  cb_tokens :: int
  cb_tokens_per_s :: real
  cb_measured_at :: real

record offer =
  of_ram :: int
  of_vram :: int
  of_busy :: bool
  of_busy_with :: "string option"
  of_calibrations :: "(string, calibration) dict"

record segment =
  sg_name :: string
  sg_bytes :: int
  sg_tiers :: "string list"

record allocation =
  al_request_id :: string
  al_model_ref :: string
  al_segments :: "segment list"
  al_donors :: "string list"
  al_approved :: "string list"
  al_status :: string
  al_plan_hash :: string

record placed =
  pe_segment :: string
  pe_pod :: string
  pe_tier :: string
  pe_bytes :: int

record reservation =
  rv_plan :: "placed list"
  rv_started_at :: "real option"

record token_entry =
  te_session_id :: string
  te_prefix_hash :: string
  te_token_count :: int
  te_replica :: string

record household =
  hh_key_hash :: string
  hh_registry :: registry
  hh_offers :: "(string, offer) dict"
  hh_reservations :: "(string, reservation) dict"
  hh_requests :: "(string, allocation) dict"
  hh_token_cache :: "(string \<times> string, token_entry) dict"
  hh_saved_tokens :: int

definition hash_key :: "(json \<Rightarrow> string) \<Rightarrow> string \<Rightarrow> string" where
  "hash_key H key = H (JObj [(''household_key'', JStr key)])"

definition new_household :: "(json \<Rightarrow> string) \<Rightarrow> string \<Rightarrow> registry \<Rightarrow> household" where
  "new_household H key r =
     \<lparr>hh_key_hash = hash_key H key, hh_registry = r, hh_offers = [], hh_reservations = [],
      hh_requests = [], hh_token_cache = [], hh_saved_tokens = 0\<rparr>"

definition hh_log :: "real \<Rightarrow> string \<Rightarrow> json \<Rightarrow> household \<Rightarrow> household" where
  "hh_log now action payload h =
     h\<lparr>hh_registry := reg_record_event now action payload (hh_registry h)\<rparr>"

definition plan_pods :: "placed list \<Rightarrow> string list" where
  "plan_pods plan = map pe_pod plan"

section \<open>Joining and asking\<close>

definition hh_join ::
    "(json \<Rightarrow> string) \<Rightarrow> household \<Rightarrow> string \<Rightarrow> string \<Rightarrow> int \<Rightarrow> int \<Rightarrow> offer result \<times> household" where
  "hh_join H h pod key ram vram =
     (if hash_key H key \<noteq> hh_key_hash h then (Inl PermissionError, h)
      else let ofr = \<lparr>of_ram = ram, of_vram = vram, of_busy = False, of_busy_with = None,
                     of_calibrations = []\<rparr>
           in (Inr ofr, h\<lparr>hh_offers := dput pod ofr (hh_offers h)\<rparr>))"

definition segment_json :: "segment \<Rightarrow> json" where
  "segment_json s =
     JObj [(''name'', JStr (sg_name s)), (''bytes_needed'', JInt (sg_bytes s)),
           (''tier_preference'', JList (map JStr (sg_tiers s)))]"

definition plan_json :: "string \<Rightarrow> segment list \<Rightarrow> string list \<Rightarrow> json" where
  "plan_json model segs donors =
     JObj [(''model_ref'', JStr model), (''segments'', JList (map segment_json segs)),
           (''donors'', JList (map JStr donors))]"

text \<open>The first donor that is unknown or busy decides; the donors before it do not matter.\<close>

fun donor_check :: "(string, offer) dict \<Rightarrow> string list \<Rightarrow> (string \<times> offer) option result" where
  "donor_check offers [] = Inr None"
| "donor_check offers (d # ds) =
     (case dget offers d of
        None \<Rightarrow> Inl KeyError
      | Some ofr \<Rightarrow> if of_busy ofr then Inr (Some (d, ofr)) else donor_check offers ds)"

definition opt_json :: "string option \<Rightarrow> json" where
  "opt_json s = (case s of None \<Rightarrow> JNull | Some t \<Rightarrow> JStr t)"

definition request_id_for :: "(json \<Rightarrow> string) \<Rightarrow> string \<Rightarrow> real \<Rightarrow> string" where
  "request_id_for H model now =
     ''alloc-'' @ H (JObj [(''model'', JStr model), (''time'', JFloat (Fin now))])"

definition hh_request ::
    "(json \<Rightarrow> string) \<Rightarrow> real \<Rightarrow> household \<Rightarrow> string \<Rightarrow> segment list \<Rightarrow> string list
       \<Rightarrow> allocation result \<times> household" where
  "hh_request H now h model segs donors =
     (case donor_check (hh_offers h) donors of
        Inl e \<Rightarrow> (Inl e, h)
      | Inr (Some (pod, ofr)) \<Rightarrow>
          (Inr \<lparr>al_request_id = ''BUSY'', al_model_ref = model, al_segments = segs,
                al_donors = donors, al_approved = [], al_status = ''refused'',
                al_plan_hash = []\<rparr>,
           hh_log now ''allocation_refused''
             (JObj [(''model_ref'', JStr model), (''pod'', JStr pod),
                    (''busy_with'', opt_json (of_busy_with ofr))]) h)
      | Inr None \<Rightarrow>
          (let rid = request_id_for H model now;
               rq = \<lparr>al_request_id = rid, al_model_ref = model, al_segments = segs,
                     al_donors = donors, al_approved = [], al_status = ''pending'',
                     al_plan_hash = H (plan_json model segs donors)\<rparr>
           in (Inr rq,
               hh_log now ''allocation_request''
                 (JObj [(''request'', JStr rid), (''plan_hash'', JStr (al_plan_hash rq))])
                 (h\<lparr>hh_requests := dput rid rq (hh_requests h)\<rparr>))))"

definition hh_approve ::
    "(json \<Rightarrow> string) \<Rightarrow> real \<Rightarrow> household \<Rightarrow> string \<Rightarrow> string \<Rightarrow> string
       \<Rightarrow> string result \<times> household" where
  "hh_approve H now h rid pod key =
     (if hash_key H key \<noteq> hh_key_hash h then (Inl PermissionError, h)
      else case dget (hh_requests h) rid of
        None \<Rightarrow> (Inl KeyError, h)
      | Some rq \<Rightarrow>
          if pod \<notin> set (al_donors rq) then (Inl PermissionError, h)
          else if pod \<in> set (al_approved rq) then (Inr (al_status rq), h)
          else
            (let approved = al_approved rq @ [pod];
                 status = (if set approved = set (al_donors rq) then ''approved''
                           else al_status rq);
                 rq' = rq\<lparr>al_approved := approved, al_status := status\<rparr>
             in (Inr status,
                 hh_log now ''allocation_approved''
                   (JObj [(''request'', JStr rid), (''pod'', JStr pod),
                          (''plan_hash'', JStr (al_plan_hash rq))])
                   (h\<lparr>hh_requests := dput rid rq' (hh_requests h)\<rparr>))))"

section \<open>Starting and releasing\<close>

text \<open>What a donor already gives to the request being placed: VRAM and RAM.\<close>

record claim =
  cl_vram :: int
  cl_ram :: int

definition no_claim :: claim where
  "no_claim = \<lparr>cl_vram = 0, cl_ram = 0\<rparr>"

definition claim_of :: "claim \<Rightarrow> string \<Rightarrow> int" where
  "claim_of c tier = (if tier = ''vram'' then cl_vram c else cl_ram c)"

definition add_claim :: "string \<Rightarrow> int \<Rightarrow> claim \<Rightarrow> claim" where
  "add_claim tier n c =
     (if tier = ''vram'' then c\<lparr>cl_vram := cl_vram c + n\<rparr> else c\<lparr>cl_ram := cl_ram c + n\<rparr>)"

definition capacity :: "offer \<Rightarrow> string \<Rightarrow> int" where
  "capacity ofr tier = (if tier = ''vram'' then of_vram ofr else of_ram ofr)"

fun place_tiers :: "offer \<Rightarrow> claim \<Rightarrow> int \<Rightarrow> string list \<Rightarrow> string option result" where
  "place_tiers ofr used need [] = Inr None"
| "place_tiers ofr used need (t # ts) =
     (if t \<noteq> ''vram'' \<and> t \<noteq> ''ram'' then Inl ValueError
      else if claim_of used t + need \<le> capacity ofr t then Inr (Some t)
      else place_tiers ofr used need ts)"

fun place_segment ::
    "(string, offer) dict \<Rightarrow> (string, claim) dict \<Rightarrow> segment \<Rightarrow> string list
       \<Rightarrow> (string \<times> string) option result \<times> (string, claim) dict" where
  "place_segment offers claimed s [] = (Inr None, claimed)"
| "place_segment offers claimed s (d # ds) =
     (case dget offers d of
        None \<Rightarrow> (Inl KeyError, claimed)
      | Some ofr \<Rightarrow>
          if of_busy ofr then place_segment offers claimed s ds
          else
            (let claimed' = dsetdefault d no_claim claimed; used = dget_or claimed' d no_claim
             in case place_tiers ofr used (sg_bytes s) (sg_tiers s) of
                  Inl e \<Rightarrow> (Inl e, claimed')
                | Inr (Some t) \<Rightarrow>
                    (Inr (Some (d, t)), dput d (add_claim t (sg_bytes s) used) claimed')
                | Inr None \<Rightarrow> place_segment offers claimed' s ds))"

fun place_all ::
    "(string, offer) dict \<Rightarrow> (string, claim) dict \<Rightarrow> string list \<Rightarrow> segment list \<Rightarrow> placed list result"
where
  "place_all offers claimed donors [] = Inr []"
| "place_all offers claimed donors (s # ss) =
     (case place_segment offers claimed s donors of
        (Inl e, _) \<Rightarrow> Inl e
      | (Inr None, _) \<Rightarrow> Inl RuntimeError
      | (Inr (Some (d, t)), claimed') \<Rightarrow>
          (case place_all offers claimed' donors ss of
             Inl e \<Rightarrow> Inl e
           | Inr plan \<Rightarrow>
               Inr (\<lparr>pe_segment = sg_name s, pe_pod = d, pe_tier = t, pe_bytes = sg_bytes s\<rparr>
                    # plan)))"

definition entry_json :: "placed \<Rightarrow> json" where
  "entry_json e =
     JObj [(''segment'', JStr (pe_segment e)), (''pod'', JStr (pe_pod e)),
           (''tier'', JStr (pe_tier e)), (''bytes'', JInt (pe_bytes e))]"

definition set_busy :: "string list \<Rightarrow> string option \<Rightarrow> (string, offer) dict \<Rightarrow> (string, offer) dict" where
  "set_busy pods w offers =
     map (\<lambda>(p, ofr). (p, if p \<in> set pods then ofr\<lparr>of_busy := (w \<noteq> None), of_busy_with := w\<rparr> else ofr))
       offers"

definition started_json :: "string \<Rightarrow> placed list \<Rightarrow> allocation \<Rightarrow> json" where
  "started_json rid plan rq =
     JObj [(''request'', JStr rid), (''plan'', JList (map entry_json plan)),
           (''plan_hash'', JStr (al_plan_hash rq)), (''model_ref'', JStr (al_model_ref rq)),
           (''donors'', JList (map JStr (al_donors rq)))]"

definition hh_start :: "real \<Rightarrow> household \<Rightarrow> string \<Rightarrow> placed list result \<times> household" where
  "hh_start now h rid =
     (case dget (hh_requests h) rid of
        None \<Rightarrow> (Inl KeyError, h)
      | Some rq \<Rightarrow>
          if al_status rq \<noteq> ''approved'' then (Inl PermissionError, h)
          else (case place_all (hh_offers h) [] (al_donors rq) (al_segments rq) of
              Inl e \<Rightarrow> (Inl e, h)
            | Inr plan \<Rightarrow>
                (Inr plan,
                 hh_log now ''allocation_started'' (started_json rid plan rq)
                   (h\<lparr>hh_offers := set_busy (plan_pods plan) (Some rid) (hh_offers h),
                      hh_reservations :=
                        dput rid \<lparr>rv_plan = plan, rv_started_at = Some now\<rparr> (hh_reservations h),
                      hh_requests :=
                        dput rid (rq\<lparr>al_status := ''started''\<rparr>) (hh_requests h)\<rparr>))))"

definition held_by :: "household \<Rightarrow> string \<Rightarrow> string \<Rightarrow> bool" where
  "held_by h rid pod =
     (case dget (hh_offers h) pod of None \<Rightarrow> False | Some ofr \<Rightarrow> of_busy_with ofr = Some rid)"

definition hh_release ::
    "(json \<Rightarrow> string) \<Rightarrow> real \<Rightarrow> household \<Rightarrow> string \<Rightarrow> string \<Rightarrow> string list result \<times> household" where
  "hh_release H now h rid key =
     (if hash_key H key \<noteq> hh_key_hash h then (Inl PermissionError, h)
      else case dget (hh_requests h) rid of
        None \<Rightarrow> (Inl KeyError, h)
      | Some rq \<Rightarrow>
          if al_status rq \<noteq> ''started'' then (Inl PermissionError, h)
          else
            (let plan = (case dget (hh_reservations h) rid of None \<Rightarrow> [] | Some rv \<Rightarrow> rv_plan rv);
                 freed = sorted_set (filter (held_by h rid) (plan_pods plan))
             in (Inr freed,
                 hh_log now ''allocation_released''
                   (JObj [(''request'', JStr rid), (''pods'', JList (map JStr freed))])
                   (h\<lparr>hh_offers := set_busy freed None (hh_offers h),
                      hh_reservations := dpop rid (hh_reservations h),
                      hh_requests :=
                        dput rid (rq\<lparr>al_status := ''released''\<rparr>) (hh_requests h)\<rparr>))))"

section \<open>Reconstruction from the log\<close>

definition as_str :: "json \<Rightarrow> string result" where
  "as_str v = (case v of JStr s \<Rightarrow> Inr s | _ \<Rightarrow> Inl TypeError)"

definition as_int :: "json \<Rightarrow> int result" where
  "as_int v = (case v of JInt n \<Rightarrow> Inr n | _ \<Rightarrow> Inl TypeError)"

definition as_list :: "json \<Rightarrow> json list result" where
  "as_list v = (case v of JList xs \<Rightarrow> Inr xs | _ \<Rightarrow> Inl TypeError)"

definition as_obj :: "json \<Rightarrow> (string, json) dict result" where
  "as_obj v = (case v of JObj d \<Rightarrow> Inr d | _ \<Rightarrow> Inl TypeError)"

text \<open>\<open>d[k]\<close> and \<open>d.get(k, v)\<close>.\<close>

definition jitem :: "(string, json) dict \<Rightarrow> string \<Rightarrow> json result" where
  "jitem d k = (case dget d k of None \<Rightarrow> Inl KeyError | Some v \<Rightarrow> Inr v)"

definition bind_result :: "'a result \<Rightarrow> ('a \<Rightarrow> 'b result) \<Rightarrow> 'b result" where
  "bind_result r f = (case r of Inl e \<Rightarrow> Inl e | Inr x \<Rightarrow> f x)"

lemma bind_result_simps [simp]:
  "bind_result (Inr x) f = f x" "bind_result (Inl e) f = Inl e"
  by (simp_all add: bind_result_def)

definition read_entry :: "json \<Rightarrow> placed result" where
  "read_entry v =
     bind_result (as_obj v) (\<lambda>d.
     bind_result (bind_result (jitem d ''segment'') as_str) (\<lambda>name.
     bind_result (bind_result (jitem d ''pod'') as_str) (\<lambda>pod.
     bind_result (as_str (dget_or d ''tier'' (JStr ''ram''))) (\<lambda>tier.
     bind_result (as_int (dget_or d ''bytes'' (JInt 0))) (\<lambda>n.
       Inr \<lparr>pe_segment = name, pe_pod = pod, pe_tier = tier, pe_bytes = n\<rparr>)))))"

record open_start =
  os_plan :: "placed list"
  os_model_ref :: string
  os_donors :: "string list"
  os_plan_hash :: string

definition read_started :: "(string, json) dict \<Rightarrow> open_start result" where
  "read_started d =
     bind_result (bind_result (as_list (dget_or d ''plan'' (JList []))) (map_result read_entry)) (\<lambda>plan.
     bind_result (as_str (dget_or d ''model_ref'' (JStr []))) (\<lambda>model.
     bind_result (bind_result (as_list (dget_or d ''donors'' (JList []))) (map_result as_str)) (\<lambda>donors.
     bind_result (as_str (dget_or d ''plan_hash'' (JStr []))) (\<lambda>ph.
       Inr \<lparr>os_plan = plan, os_model_ref = model,
            os_donors = (if donors = [] then sorted_set (plan_pods plan) else donors),
            os_plan_hash = ph\<rparr>))))"

definition replay_event ::
    "string \<times> json \<Rightarrow> (string, open_start) dict \<Rightarrow> (string, open_start) dict result" where
  "replay_event ev d =
     (if fst ev = ''allocation_started'' then
        bind_result (as_obj (snd ev)) (\<lambda>p.
        bind_result (bind_result (jitem p ''request'') as_str) (\<lambda>rid.
        bind_result (read_started p) (\<lambda>st. Inr (dput rid st d))))
      else if fst ev = ''allocation_released'' then
        bind_result (as_obj (snd ev)) (\<lambda>p.
        bind_result (bind_result (jitem p ''request'') as_str) (\<lambda>rid. Inr (dpop rid d)))
      else Inr d)"

fun replay :: "(string \<times> json) list \<Rightarrow> (string, open_start) dict \<Rightarrow> (string, open_start) dict result"
where
  "replay [] d = Inr d"
| "replay (ev # evs) d = bind_result (replay_event ev d) (replay evs)"

definition restored_request :: "string \<Rightarrow> open_start \<Rightarrow> allocation" where
  "restored_request rid st =
     \<lparr>al_request_id = rid, al_model_ref = os_model_ref st,
      al_segments = map (\<lambda>e. \<lparr>sg_name = pe_segment e, sg_bytes = pe_bytes e,
                              sg_tiers = [pe_tier e]\<rparr>) (os_plan st),
      al_donors = os_donors st, al_approved = os_donors st, al_status = ''started'',
      al_plan_hash = os_plan_hash st\<rparr>"

definition EVENT_LIMIT :: int where
  "EVENT_LIMIT = 1000000"

record restored =
  rs_requests :: "string list"
  rs_busy_pods :: "string list"

definition hh_restore :: "household \<Rightarrow> restored result \<times> household" where
  "hh_restore h =
     (case replay (map (\<lambda>e. (ev_action e, ev_payload e))
                     (rev (reg_events (hh_registry h) None EVENT_LIMIT))) [] of
        Inl e \<Rightarrow> (Inl e, h)
      | Inr starts \<Rightarrow>
          (let cleared = map (\<lambda>(p, ofr). (p, ofr\<lparr>of_busy := False, of_busy_with := None\<rparr>)) (hh_offers h);
               offers = fold (\<lambda>(rid, st). set_busy (plan_pods (os_plan st)) (Some rid)) starts cleared
           in (Inr \<lparr>rs_requests = sort (dkeys starts),
                    rs_busy_pods = sort (map fst (filter (\<lambda>(p, ofr). of_busy ofr) offers))\<rparr>,
               h\<lparr>hh_reservations :=
                    map (\<lambda>(rid, st). (rid, \<lparr>rv_plan = os_plan st, rv_started_at = None\<rparr>)) starts,
                 hh_requests := fold (\<lambda>(rid, st). dput rid (restored_request rid st)) starts
                                  (hh_requests h),
                 hh_offers := offers\<rparr>)))"

section \<open>Calibration, token cache, statistics\<close>

definition hh_calibrate ::
    "real \<Rightarrow> household \<Rightarrow> string \<Rightarrow> string \<Rightarrow> real \<Rightarrow> int \<Rightarrow> calibration result \<times> household" where
  "hh_calibrate now h pod model speed tokens =
     (case dget (hh_offers h) pod of
        None \<Rightarrow> (Inl KeyError, h)
      | Some ofr \<Rightarrow>
          (let c = \<lparr>cb_model_ref = model, cb_tokens = tokens, cb_tokens_per_s = py_round 2 speed,
                    cb_measured_at = now\<rparr>;
               ofr' = ofr\<lparr>of_calibrations := dput (model @ ''@'' @ pod) c (of_calibrations ofr)\<rparr>
           in (Inr c, h\<lparr>hh_offers := dput pod ofr' (hh_offers h)\<rparr>)))"

definition hh_token_lookup :: "household \<Rightarrow> string \<Rightarrow> string \<Rightarrow> token_entry option \<times> household" where
  "hh_token_lookup h session prefix =
     (case dget (hh_token_cache h) (session, prefix) of
        None \<Rightarrow> (None, h)
      | Some te \<Rightarrow> (Some te, h\<lparr>hh_saved_tokens := hh_saved_tokens h + te_token_count te\<rparr>))"

definition hh_token_store ::
    "household \<Rightarrow> string \<Rightarrow> string \<Rightarrow> int \<Rightarrow> string \<Rightarrow> token_entry \<times> household" where
  "hh_token_store h session prefix n replica =
     (let te = \<lparr>te_session_id = session, te_prefix_hash = prefix, te_token_count = n,
                te_replica = replica\<rparr>
      in (te, h\<lparr>hh_token_cache := dput (session, prefix) te (hh_token_cache h)\<rparr>))"

record household_stats =
  hs_members :: nat
  hs_busy_pods :: nat
  hs_requests :: nat
  hs_reservations :: nat
  hs_saved_tokens :: int
  hs_key_hash :: string

definition hh_stats :: "household \<Rightarrow> household_stats" where
  "hh_stats h =
     \<lparr>hs_members = length (hh_offers h),
      hs_busy_pods = length (filter (\<lambda>(p, ofr). of_busy ofr) (hh_offers h)),
      hs_requests = length (hh_requests h), hs_reservations = length (hh_reservations h),
      hs_saved_tokens = hh_saved_tokens h, hs_key_hash = hh_key_hash h\<rparr>"

section \<open>Placement\<close>

lemma dget_set_busy [dict_simps]:
  "dget (set_busy pods w offers) p =
     map_option (\<lambda>ofr. if p \<in> set pods then ofr\<lparr>of_busy := (w \<noteq> None), of_busy_with := w\<rparr> else ofr)
       (dget offers p)"
  by (induction offers) (auto simp: set_busy_def)

lemma wf_set_busy [simp]: "wf_dict (set_busy pods w offers) = wf_dict offers"
  by (simp add: wf_dict_def set_busy_def case_prod_beta comp_def)

lemma place_segment_Some:
  "place_segment offers claimed s ds = (Inr (Some (d, t)), claimed') \<Longrightarrow>
     d \<in> set ds \<and> (\<exists>ofr. dget offers d = Some ofr \<and> \<not> of_busy ofr \<and> t \<in> {''vram'', ''ram''} \<and>
        claim_of (dget_or claimed d no_claim) t + sg_bytes s \<le> capacity ofr t \<and>
        (\<forall>p. dget_or claimed' p no_claim =
           (if p = d then add_claim t (sg_bytes s) (dget_or claimed d no_claim)
            else dget_or claimed p no_claim)))"
proof (induction ds arbitrary: claimed)
  case (Cons x ds)
  have place: "place_tiers ofr used need ts = Inr (Some t) \<Longrightarrow>
      t \<in> {''vram'', ''ram''} \<and> claim_of used t + need \<le> capacity ofr t" for ofr used need ts
    by (induction ofr used need ts rule: place_tiers.induct) (auto split: if_splits)
  from Cons.prems obtain ofr where ofr: "dget offers x = Some ofr"
    by (auto split: option.splits)
  show ?case
  proof (cases "of_busy ofr")
    case True
    with Cons ofr show ?thesis by auto
  next
    case False
    let ?r = "place_tiers ofr (dget_or claimed x no_claim) (sg_bytes s) (sg_tiers s)"
    consider "?r = Inr None" | u where "?r = Inr (Some u)" | e where "?r = Inl e"
      by (metis option.exhaust sum.exhaust_sel)
    then show ?thesis
    proof cases
      case 1
      with Cons.prems ofr False
      have "place_segment offers (dsetdefault x no_claim claimed) s ds = (Inr (Some (d, t)), claimed')"
        by (simp add: Let_def)
      from Cons.IH [OF this, unfolded dget_or_setdefault] show ?thesis by simp
    next
      case 2
      with Cons.prems ofr False have "u = t" "x = d"
        "claimed' = dput d (add_claim t (sg_bytes s) (dget_or claimed d no_claim))
            (dsetdefault d no_claim claimed)"
        by (auto simp: Let_def)
      with 2 ofr False place [of ofr _ _ _] show ?thesis by (auto simp: dict_simps)
    qed (use Cons.prems ofr False in \<open>simp add: Let_def\<close>)
  qed
qed simp

definition tier_load :: "string \<Rightarrow> string \<Rightarrow> placed list \<Rightarrow> int" where
  "tier_load pod tier plan =
     sum_list (map pe_bytes (filter (\<lambda>e. pe_pod e = pod \<and> pe_tier e = tier) plan))"

lemma claim_add: "t \<in> {''vram'', ''ram''} \<Longrightarrow> u \<in> {''vram'', ''ram''} \<Longrightarrow>
  claim_of (add_claim t n c) u = claim_of c u + (if u = t then n else 0)"
  by (auto simp: claim_of_def add_claim_def)

text \<open>Every entry sits on an idle donor of the request and the claimed load of its tier fits.\<close>

lemma place_all_fits:
  "place_all offers claimed donors segs = Inr plan \<Longrightarrow>
     map pe_segment plan = map sg_name segs \<and>
     (\<forall>e\<in>set plan. pe_pod e \<in> set donors \<and> pe_tier e \<in> {''vram'', ''ram''} \<and>
        (\<exists>ofr. dget offers (pe_pod e) = Some ofr \<and> \<not> of_busy ofr \<and>
           claim_of (dget_or claimed (pe_pod e) no_claim) (pe_tier e)
             + tier_load (pe_pod e) (pe_tier e) plan \<le> capacity ofr (pe_tier e)))"
proof (induction segs arbitrary: claimed plan)
  case (Cons s segs)
  from Cons.prems obtain d t claimed' plan' where
    one: "place_segment offers claimed s donors = (Inr (Some (d, t)), claimed')"
    and rest: "place_all offers claimed' donors segs = Inr plan'"
    and plan: "plan = \<lparr>pe_segment = sg_name s, pe_pod = d, pe_tier = t, pe_bytes = sg_bytes s\<rparr> # plan'"
    by (auto split: prod.splits sum.splits option.splits)
  note P = place_segment_Some [OF one] and IH = Cons.IH [OF rest]
  from P obtain ofr where ofr: "dget offers d = Some ofr" "\<not> of_busy ofr" "t \<in> {''vram'', ''ram''}"
    and fit: "claim_of (dget_or claimed d no_claim) t + sg_bytes s \<le> capacity ofr t"
    and upd: "\<And>p. dget_or claimed' p no_claim =
           (if p = d then add_claim t (sg_bytes s) (dget_or claimed d no_claim)
            else dget_or claimed p no_claim)" by blast
  have load: "claim_of (dget_or claimed' p no_claim) u + tier_load p u plan' =
      claim_of (dget_or claimed p no_claim) u + tier_load p u plan"
    if "u \<in> {''vram'', ''ram''}" for p u
    using ofr(3) that by (auto simp: upd claim_add plan tier_load_def)
  have "claim_of (dget_or claimed d no_claim) t + tier_load d t plan \<le> capacity ofr t"
  proof (cases "\<exists>e\<in>set plan'. pe_pod e = d \<and> pe_tier e = t")
    case True
    with IH load [OF ofr(3), of d] ofr(1) show ?thesis by force
  next
    case False
    then have "tier_load d t plan' = 0" by (simp add: tier_load_def filter_empty_conv)
    with fit show ?thesis by (simp add: plan tier_load_def)
  qed
  with IH load ofr P show ?case by (auto simp: plan)
qed simp

section \<open>Encoding of the log\<close>

lemma read_entry_json [simp]: "read_entry (entry_json e) = Inr e"
  by (simp add: read_entry_def entry_json_def as_obj_def as_str_def as_int_def jitem_def dget_or_def)

lemma read_started_json:
  "started_json rid plan rq = JObj d \<Longrightarrow>
   read_started d = Inr \<lparr>os_plan = plan, os_model_ref = al_model_ref rq,
     os_donors = (if al_donors rq = [] then sorted_set (plan_pods plan) else al_donors rq),
     os_plan_hash = al_plan_hash rq\<rparr>"
proof -
  have "map_result read_entry (map entry_json plan) = Inr plan"
    by (induction plan) simp_all
  moreover have "map_result as_str (map JStr xs) = Inr xs" for xs
    by (induction xs) (simp_all add: as_str_def)
  ultimately show "started_json rid plan rq = JObj d \<Longrightarrow> ?thesis"
    by (auto simp: started_json_def read_started_def as_list_def as_str_def dget_or_def)
qed

lemma replay_snoc: "replay (xs @ [ev]) d = bind_result (replay xs d) (replay_event ev)"
proof (induction xs arbitrary: d)
  case (Cons x xs)
  then show ?case by (cases "replay_event x d") simp_all
qed (simp add: bind_result_def split: sum.split)

lemma replay_started:
  "replay_event (''allocation_started'', started_json rid plan rq) d =
     Inr (dput rid \<lparr>os_plan = plan, os_model_ref = al_model_ref rq,
       os_donors = (if al_donors rq = [] then sorted_set (plan_pods plan) else al_donors rq),
       os_plan_hash = al_plan_hash rq\<rparr> d)"
  using read_started_json [of rid plan rq]
  by (simp add: replay_event_def started_json_def as_obj_def jitem_def as_str_def)

lemma replay_released:
  "replay_event (''allocation_released'', JObj [(''request'', JStr rid), (''pods'', v)]) d =
     Inr (dpop rid d)"
  by (simp add: replay_event_def as_obj_def jitem_def as_str_def)

lemma replay_other:
  "a \<notin> {''allocation_started'', ''allocation_released''} \<Longrightarrow> replay_event (a, v) d = Inr d"
  by (simp add: replay_event_def)

section \<open>Invariant\<close>

definition reserved :: "household \<Rightarrow> string \<Rightarrow> string \<Rightarrow> bool" where
  "reserved h pod rid =
     (case dget (hh_reservations h) rid of None \<Rightarrow> False | Some rv \<Rightarrow> pod \<in> set (plan_pods (rv_plan rv)))"

definition offer_exact :: "household \<Rightarrow> string \<Rightarrow> offer \<Rightarrow> bool" where
  "offer_exact h pod ofr =
     (of_busy ofr = (of_busy_with ofr \<noteq> None) \<and>
      (\<forall>rid. of_busy_with ofr = Some rid \<longleftrightarrow> reserved h pod rid))"

definition start_recorded :: "household \<Rightarrow> string \<Rightarrow> open_start \<Rightarrow> bool" where
  "start_recorded h rid st =
     (\<exists>rq rv. dget (hh_requests h) rid = Some rq \<and> dget (hh_reservations h) rid = Some rv \<and>
        os_plan st = rv_plan rv \<and> os_model_ref st = al_model_ref rq \<and>
        os_donors st = al_donors rq \<and> os_plan_hash st = al_plan_hash rq)"

definition is_started :: "household \<Rightarrow> string \<Rightarrow> bool" where
  "is_started h rid =
     (case dget (hh_requests h) rid of None \<Rightarrow> False | Some rq \<Rightarrow> al_status rq = ''started'')"

text \<open>
  BUSY means reserved, started requests are the reserved ones, and the log replays to exactly the
  open reservations.
\<close>

definition offers_exact :: "household \<Rightarrow> bool" where
  "offers_exact h =
     (wf_dict (hh_offers h) \<and> (\<forall>pod ofr. dget (hh_offers h) pod = Some ofr \<longrightarrow> offer_exact h pod ofr))"

definition reservations_exact :: "household \<Rightarrow> bool" where
  "reservations_exact h = (\<forall>rid. is_started h rid = (dget (hh_reservations h) rid \<noteq> None))"

definition log_exact :: "household \<Rightarrow> (string, open_start) dict \<Rightarrow> bool" where
  "log_exact h starts =
     (replay (reg_history (hh_registry h)) [] = Inr starts \<and> wf_dict starts \<and>
      (\<forall>rid. dget starts rid = None \<longrightarrow> dget (hh_reservations h) rid = None) \<and>
      (\<forall>rid st. dget starts rid = Some st \<longrightarrow> start_recorded h rid st))"

text \<open>An approved or started request has the consent of every donor.\<close>

definition consented :: "allocation \<Rightarrow> bool" where
  "consented rq =
     (al_status rq \<in> {''approved'', ''started''} \<longrightarrow> set (al_approved rq) = set (al_donors rq))"

definition all_consented :: "household \<Rightarrow> bool" where
  "all_consented h = (\<forall>rid rq. dget (hh_requests h) rid = Some rq \<longrightarrow> consented rq)"

text \<open>No donor is in two reservations.\<close>

definition exclusive :: "household \<Rightarrow> bool" where
  "exclusive h = (\<forall>pod i j. reserved h pod i \<longrightarrow> reserved h pod j \<longrightarrow> i = j)"

definition hh_inv :: "household \<Rightarrow> bool" where
  "hh_inv h =
     (offers_exact h \<and> reservations_exact h \<and> all_consented h \<and> exclusive h
      \<and> (\<exists>starts. log_exact h starts))"

datatype hh_op =
    Hh_Join string string int int
  | Hh_Request real string "segment list" "string list"
  | Hh_Approve real string string string
  | Hh_Start real string
  | Hh_Release real string string
  | Hh_Calibrate real string string real int
  | Hh_Token_Lookup string string
  | Hh_Token_Store string string int string
  | Hh_Other_Event real string json

fun hh_step :: "(json \<Rightarrow> string) \<Rightarrow> household \<Rightarrow> hh_op \<Rightarrow> household" where
  "hh_step H h (Hh_Join pod key ram vram) = snd (hh_join H h pod key ram vram)"
| "hh_step H h (Hh_Request now model segs donors) = snd (hh_request H now h model segs donors)"
| "hh_step H h (Hh_Approve now rid pod key) = snd (hh_approve H now h rid pod key)"
| "hh_step H h (Hh_Start now rid) = snd (hh_start now h rid)"
| "hh_step H h (Hh_Release now rid key) = snd (hh_release H now h rid key)"
| "hh_step H h (Hh_Calibrate now pod model speed n) = snd (hh_calibrate now h pod model speed n)"
| "hh_step H h (Hh_Token_Lookup sid ph) = snd (hh_token_lookup h sid ph)"
| "hh_step H h (Hh_Token_Store sid ph n rep) = snd (hh_token_store h sid ph n rep)"
| "hh_step H h (Hh_Other_Event now a p) = hh_log now a p h"

text \<open>
  Orderly use: a pod does not join again while a reservation holds it, a new request id is new,
  and nobody else writes the household's two bookkeeping events.
\<close>

fun orderly :: "(json \<Rightarrow> string) \<Rightarrow> household \<Rightarrow> hh_op \<Rightarrow> bool" where
  "orderly H h (Hh_Join pod key ram vram) =
     list_all (\<lambda>(rid, rv). pod \<notin> set (plan_pods (rv_plan rv))) (hh_reservations h)"
| "orderly H h (Hh_Request now model segs donors) =
     (dget (hh_requests h) (request_id_for H model now) = None)"
| "orderly H h (Hh_Other_Event now a p) = (a \<notin> {''allocation_started'', ''allocation_released''})"
| "orderly H h _ = True"

definition hh_orderly_step :: "(json \<Rightarrow> string) \<Rightarrow> household \<Rightarrow> hh_op \<Rightarrow> household" where
  "hh_orderly_step H h op = (if orderly H h op then hh_step H h op else h)"

named_theorems hh_frames "fields a household operation leaves alone"

lemma hh_log_frames [hh_frames]:
  "hh_offers (hh_log now a p h) = hh_offers h" "hh_reservations (hh_log now a p h) = hh_reservations h"
  "hh_requests (hh_log now a p h) = hh_requests h" "hh_key_hash (hh_log now a p h) = hh_key_hash h"
  "reg_history (hh_registry (hh_log now a p h)) = reg_history (hh_registry h) @ [(a, p)]"
  by (simp_all add: hh_log_def reg_log.history_record)

text \<open>The invariant reads only these fields, so an operation that keeps them keeps it.\<close>

lemma hh_inv_cong:
  assumes "hh_inv h" and "hh_offers h' = hh_offers h" and "hh_reservations h' = hh_reservations h"
    and "hh_requests h' = hh_requests h"
    and "replay (reg_history (hh_registry h')) [] = replay (reg_history (hh_registry h)) []"
  shows "hh_inv h'"
proof -
  have "reserved h' = reserved h" "is_started h' = is_started h" "start_recorded h' = start_recorded h"
    using assms by (simp_all add: fun_eq_iff reserved_def is_started_def start_recorded_def)
  then show ?thesis
    using assms
    by (simp add: hh_inv_def offers_exact_def reservations_exact_def log_exact_def offer_exact_def
        all_consented_def exclusive_def)
qed

lemma replay_log_other:
  "a \<notin> {''allocation_started'', ''allocation_released''} \<Longrightarrow>
   replay (reg_history (hh_registry (hh_log now a p h))) [] = replay (reg_history (hh_registry h)) []"
  by (simp add: hh_frames replay_snoc replay_other bind_result_def split: sum.split)

lemma hh_inv_log_other:
  "hh_inv h \<Longrightarrow> a \<notin> {''allocation_started'', ''allocation_released''} \<Longrightarrow> hh_inv (hh_log now a p h)"
  by (rule hh_inv_cong [of h], assumption)
    (simp_all only: hh_log_frames(1-3) replay_log_other not_False_eq_True)

text \<open>Changing a request that is not started, without starting it.\<close>

lemma hh_inv_put_request:
  assumes inv: "hh_inv h" and "\<not> is_started h rid" and "al_status rq \<noteq> ''started''"
    and "consented rq"
  shows "hh_inv (h\<lparr>hh_requests := dput rid rq (hh_requests h)\<rparr>)" (is "hh_inv ?h")
proof -
  from inv obtain starts where L: "log_exact h starts" by (auto simp: hh_inv_def)
  have none: "dget (hh_reservations h) rid = None"
    using inv assms(2) by (auto simp: hh_inv_def reservations_exact_def)
  have "is_started ?h i = is_started h i" for i
    using assms(2,3) by (cases "i = rid") (auto simp: is_started_def dict_simps)
  then have "reservations_exact ?h"
    using inv by (simp add: hh_inv_def reservations_exact_def)
  moreover have "offers_exact ?h"
    using inv by (simp add: hh_inv_def offers_exact_def offer_exact_def reserved_def)
  moreover have "start_recorded h i st \<Longrightarrow> start_recorded ?h i st" for i st
    using none by (auto simp: start_recorded_def dict_simps)
  then have "log_exact ?h starts"
    using L by (simp add: log_exact_def)
  moreover have "all_consented ?h"
    using inv assms(4) by (simp add: hh_inv_def all_consented_def dict_simps)
  moreover have "exclusive ?h"
    using inv by (simp add: hh_inv_def exclusive_def reserved_def)
  ultimately show ?thesis by (auto simp: hh_inv_def)
qed

lemma hh_join_inv:
  assumes inv: "hh_inv h" and "orderly H h (Hh_Join pod key ram vram)"
  shows "hh_inv (hh_step H h (Hh_Join pod key ram vram))"
proof -
  have free: "\<not> reserved h pod rid" for rid
    using assms(2) map_of_SomeD
    by (fastforce simp: reserved_def list_all_iff split: option.splits)
  let ?h = "hh_step H h (Hh_Join pod key ram vram)"
  have R: "reserved ?h = reserved h" "is_started ?h = is_started h"
    "start_recorded ?h = start_recorded h"
    by (simp_all add: fun_eq_iff reserved_def is_started_def start_recorded_def hh_join_def Let_def)
  have "offers_exact ?h"
    using inv R(1) free
    by (auto simp: hh_inv_def offers_exact_def offer_exact_def hh_join_def Let_def dict_simps)
  moreover have "reservations_exact ?h" "log_exact ?h = log_exact h"
    "all_consented ?h" "exclusive ?h"
    using inv R by (auto simp: hh_inv_def reservations_exact_def log_exact_def fun_eq_iff all_consented_def
        exclusive_def
        hh_join_def Let_def)
  ultimately show ?thesis using inv by (simp add: hh_inv_def)
qed

lemma hh_request_inv:
  assumes inv: "hh_inv h" and "orderly H h (Hh_Request now model segs donors)"
  shows "hh_inv (hh_step H h (Hh_Request now model segs donors))"
proof -
  have "\<not> is_started h (request_id_for H model now)"
    using assms(2) by (simp add: is_started_def)
  then show ?thesis
    using inv by (auto simp: hh_request_def Let_def consented_def
        intro!: hh_inv_log_other hh_inv_put_request split: sum.split option.split)
qed

lemma hh_approve_inv:
  assumes inv: "hh_inv h"
  shows "hh_inv (hh_step H h (Hh_Approve now rid pod key))"
proof (cases "dget (hh_requests h) rid")
  case None
  with inv show ?thesis by (simp add: hh_approve_def)
next
  case (Some rq)
  with inv have con: "consented rq" by (auto simp: hh_inv_def all_consented_def)
  show ?thesis
  proof (cases "pod \<in> set (al_donors rq) - set (al_approved rq)")
    case False
    with Some inv show ?thesis by (simp add: hh_approve_def)
  next
    case True
    with con have "al_status rq \<notin> {''approved'', ''started''}" by (auto simp: consented_def)
    with Some True inv show ?thesis
      by (auto simp: hh_approve_def Let_def is_started_def consented_def
          intro!: hh_inv_log_other hh_inv_put_request)
  qed
qed

lemma offers_busy_iff:
  assumes "offers_exact h" and "dget (hh_offers h) pod = Some ofr"
  shows "of_busy ofr \<longleftrightarrow> (\<exists>rid. reserved h pod rid)"
    and "of_busy_with ofr = Some rid \<longleftrightarrow> reserved h pod rid"
  using assms by (auto simp: offers_exact_def offer_exact_def)

lemma hh_start_inv:
  assumes inv: "hh_inv h"
  shows "hh_inv (hh_step H h (Hh_Start now rid))"
proof (cases "hh_start now h rid")
  case (Pair res h')
  show ?thesis
  proof (cases res)
    case (Inl e)
    with Pair have "h' = h" by (auto simp: hh_start_def split: option.splits if_splits sum.splits)
    with inv Pair show ?thesis by simp
  next
    case (Inr plan)
    with Pair obtain rq where rq: "dget (hh_requests h) rid = Some rq" "al_status rq = ''approved''"
      and pl: "place_all (hh_offers h) [] (al_donors rq) (al_segments rq) = Inr plan"
      and h': "h' = hh_log now ''allocation_started'' (started_json rid plan rq)
        (h\<lparr>hh_offers := set_busy (plan_pods plan) (Some rid) (hh_offers h),
           hh_reservations := dput rid \<lparr>rv_plan = plan, rv_started_at = Some now\<rparr> (hh_reservations h),
           hh_requests := dput rid (rq\<lparr>al_status := ''started''\<rparr>) (hh_requests h)\<rparr>)"
      by (auto simp: hh_start_def split: option.splits if_splits sum.splits)
    from inv obtain starts where L: "log_exact h starts" and O: "offers_exact h"
      and R: "reservations_exact h" and C: "all_consented h" and X: "exclusive h"
      by (auto simp: hh_inv_def)
    have none: "dget (hh_reservations h) rid = None"
      using R [unfolded reservations_exact_def, THEN spec, of rid] rq by (simp add: is_started_def)
    have idle: "dget (hh_offers h) p = Some ofr \<Longrightarrow> \<not> reserved h p i"
      if "p \<in> set (plan_pods plan)" for p ofr i
      using place_all_fits [OF pl] that offers_busy_iff(1) [OF O] by (fastforce simp: plan_pods_def)
    have res: "reserved h' p i = (if i = rid then p \<in> set (plan_pods plan) else reserved h p i)" for p i
      by (simp add: h' hh_frames reserved_def dict_simps)
    have "offer_exact h' p ofr'" if "dget (hh_offers h') p = Some ofr'" for p ofr'
    proof -
      from that obtain ofr where ofr: "dget (hh_offers h) p = Some ofr"
        "ofr' = (if p \<in> set (plan_pods plan)
                 then ofr\<lparr>of_busy := True, of_busy_with := Some rid\<rparr> else ofr)"
        by (auto simp: h' hh_frames dict_simps)
      moreover have "offer_exact h p ofr" using O ofr(1) by (simp add: offers_exact_def)
      moreover have "\<not> reserved h p rid" using none by (simp add: reserved_def)
      ultimately show ?thesis
        using idle [OF _ ofr(1)] by (auto simp: offer_exact_def res)
    qed
    then have "offers_exact h'" using O by (simp add: offers_exact_def h' hh_frames)
    moreover have "exclusive h'"
      using X idle place_all_fits [OF pl] unfolding exclusive_def res plan_pods_def
      by (auto split: if_splits)
    moreover have "reservations_exact h'"
      using R by (auto simp: reservations_exact_def is_started_def h' hh_frames dict_simps)
    moreover have "all_consented h'"
      using C rq by (auto simp: all_consented_def consented_def h' hh_frames dict_simps)
    moreover have "\<exists>st. log_exact h' st"
    proof
      let ?st = "\<lparr>os_plan = plan, os_model_ref = al_model_ref rq, os_donors = al_donors rq,
        os_plan_hash = al_plan_hash rq\<rparr>"
      have "plan = []" if "al_donors rq = []"
        using place_all_fits [OF pl] that by (cases plan) auto
      then have "replay (reg_history (hh_registry h')) [] = Inr (dput rid ?st starts)"
        using L by (auto simp: h' hh_frames replay_snoc log_exact_def replay_started plan_pods_def
            sorted_set_def)
      then show "log_exact h' (dput rid ?st starts)"
        using L rq none
        by (auto simp: log_exact_def start_recorded_def h' hh_frames dict_simps)
    qed
    ultimately show ?thesis using Pair by (simp add: hh_inv_def)
  qed
qed

lemma hh_release_inv:
  assumes inv: "hh_inv h"
  shows "hh_inv (hh_step H h (Hh_Release now rid key))"
proof (cases "hash_key H key = hh_key_hash h \<and> is_started h rid")
  case False
  then have "hh_step H h (Hh_Release now rid key) = h"
    by (auto simp: hh_release_def is_started_def split: option.split)
  with inv show ?thesis by simp
next
  case True
  then obtain rq where rq: "dget (hh_requests h) rid = Some rq" "al_status rq = ''started''"
    by (auto simp: is_started_def split: option.splits)
  from inv obtain starts where L: "log_exact h starts" and O: "offers_exact h"
    and R: "reservations_exact h" and C: "all_consented h" and X: "exclusive h"
    by (auto simp: hh_inv_def)
  from R True obtain rv where rv: "dget (hh_reservations h) rid = Some rv"
    unfolding reservations_exact_def by blast
  define freed where "freed = sorted_set (filter (held_by h rid) (plan_pods (rv_plan rv)))"
  define h2 where "h2 = hh_step H h (Hh_Release now rid key)"
  have h': "h2 = hh_log now ''allocation_released''
      (JObj [(''request'', JStr rid), (''pods'', JList (map JStr freed))])
      (h\<lparr>hh_offers := set_busy freed None (hh_offers h),
         hh_reservations := dpop rid (hh_reservations h),
         hh_requests := dput rid (rq\<lparr>al_status := ''released''\<rparr>) (hh_requests h)\<rparr>)"
    using True rq rv by (simp add: h2_def hh_release_def freed_def Let_def)
  have res: "reserved h2 p i = (i \<noteq> rid \<and> reserved h p i)" for p i
    unfolding h' by (auto simp: hh_frames reserved_def dict_simps)
  have "offer_exact h2 p ofr'" if d: "dget (hh_offers h2) p = Some ofr'" for p ofr'
  proof -
    from d obtain ofr where ofr: "dget (hh_offers h) p = Some ofr"
      "ofr' = (if p \<in> set freed then ofr\<lparr>of_busy := False, of_busy_with := None\<rparr> else ofr)"
      unfolding h' by (auto simp: hh_frames dict_simps)
    note ex = offers_busy_iff [OF O ofr(1)]
    have "p \<in> set freed \<longleftrightarrow> reserved h p rid"
      using ofr(1) ex(2) [of rid] rv by (auto simp: freed_def held_by_def reserved_def)
    moreover have "offer_exact h p ofr" using O ofr(1) by (simp add: offers_exact_def)
    moreover have "reserved h p i \<Longrightarrow> reserved h p j \<Longrightarrow> i = j" for i j
      using ex(2) by (metis option.inject)
    ultimately show ?thesis
      unfolding ofr(2) offer_exact_def res using ex by auto
  qed
  then have "offers_exact h2" using O unfolding h' by (simp add: offers_exact_def hh_frames)
  moreover have "exclusive h2" using X by (auto simp: exclusive_def res)
  moreover have "reservations_exact h2"
    using R unfolding h' by (auto simp: reservations_exact_def is_started_def hh_frames dict_simps)
  moreover have "all_consented h2"
    using C unfolding h' by (auto simp: all_consented_def consented_def hh_frames dict_simps)
  moreover have "log_exact h2 (dpop rid starts)"
    using L unfolding h' by (auto simp: log_exact_def start_recorded_def hh_frames dict_simps
        replay_snoc replay_released)
  ultimately have "hh_inv h2" by (auto simp: hh_inv_def)
  then show ?thesis by (simp add: h2_def)
qed

lemma hh_calibrate_inv:
  assumes inv: "hh_inv h"
  shows "hh_inv (hh_step H h (Hh_Calibrate now pod model speed n))"
proof (cases "dget (hh_offers h) pod")
  case None
  with inv show ?thesis by (simp add: hh_calibrate_def)
next
  case (Some ofr)
  define ofr' where "ofr' = ofr\<lparr>of_calibrations := dput (model @ ''@'' @ pod)
    \<lparr>cb_model_ref = model, cb_tokens = n, cb_tokens_per_s = py_round 2 speed, cb_measured_at = now\<rparr>
    (of_calibrations ofr)\<rparr>"
  let ?h = "h\<lparr>hh_offers := dput pod ofr' (hh_offers h)\<rparr>"
  have R: "reserved ?h = reserved h" "is_started ?h = is_started h"
    "start_recorded ?h = start_recorded h"
    by (auto simp: fun_eq_iff reserved_def is_started_def start_recorded_def)
  have "offer_exact h pod ofr" using inv Some by (simp add: hh_inv_def offers_exact_def)
  then have "offer_exact h pod ofr'" by (simp add: offer_exact_def ofr'_def)
  then have "offers_exact ?h"
    using inv by (simp add: hh_inv_def offers_exact_def offer_exact_def R dict_simps)
  then have "hh_inv ?h"
    using inv R by (simp add: hh_inv_def reservations_exact_def log_exact_def all_consented_def
        exclusive_def)
  with Some show ?thesis by (simp add: hh_calibrate_def Let_def ofr'_def)
qed

lemma hh_orderly_step_inv: "hh_inv h \<Longrightarrow> hh_inv (hh_orderly_step H h op)"
proof (cases "orderly H h op")
  case True
  assume inv: "hh_inv h"
  have "hh_inv (hh_step H h op)"
  proof (cases op)
    case (Hh_Token_Lookup sid ph)
    show ?thesis
      by (rule hh_inv_cong [OF inv])
        (simp_all add: Hh_Token_Lookup hh_token_lookup_def split: option.split)
  next
    case (Hh_Token_Store sid ph n rep)
    show ?thesis
      by (rule hh_inv_cong [OF inv]) (simp_all add: Hh_Token_Store hh_token_store_def Let_def)
  next
    case (Hh_Other_Event now a p)
    with True inv show ?thesis by (simp add: hh_inv_log_other)
  qed (use True inv in \<open>simp_all only: hh_join_inv hh_request_inv hh_approve_inv hh_start_inv
      hh_release_inv hh_calibrate_inv\<close>)
  with True show ?thesis by (simp add: hh_orderly_step_def)
qed (simp add: hh_orderly_step_def)

interpretation hh_machine: kept_invariant "hh_orderly_step H" hh_inv for H
  by unfold_locales (rule hh_orderly_step_inv)

lemma new_household_inv:
  assumes "\<forall>e\<in>set (rg_events r). ev_action e \<notin> {''allocation_started'', ''allocation_released''}"
  shows "hh_inv (new_household H key r)"
proof -
  have "replay evs [] = Inr []"
    if "\<forall>e\<in>set evs. fst e \<notin> {''allocation_started'', ''allocation_released''}" for evs
    using that by (induction evs) (auto simp: replay_other)
  from this [of "reg_history r"] assms have "replay (reg_history r) [] = Inr []"
    by (simp add: reg_history_def)
  then show ?thesis
    by (auto simp: hh_inv_def new_household_def offers_exact_def reservations_exact_def
        is_started_def all_consented_def log_exact_def exclusive_def reserved_def)
qed

section \<open>Restart\<close>

lemma dget_fold_put:
  "wf_dict d \<Longrightarrow> dget (fold (\<lambda>(k, v). dput k (f k v)) d base) i =
     (case dget d i of None \<Rightarrow> dget base i | Some v \<Rightarrow> Some (f i v))"
proof (induction d arbitrary: base)
  case (Cons kv d)
  obtain k v where kv: "kv = (k, v)" by (cases kv)
  with Cons.prems have wf: "wf_dict d" and k: "dget d k = None"
    by (auto simp: wf_dict_Cons dget_None_keys)
  show ?case
    using Cons.IH [OF wf, of "dput k (f k v) base"] k
    by (cases "i = k") (simp_all add: kv update_conv' split: option.split)
qed simp

lemma fold_busy_wf [simp]:
  "wf_dict (fold (\<lambda>(rid, st). set_busy (plan_pods (os_plan st)) (Some rid)) starts offers)
     = wf_dict offers"
  by (induction starts arbitrary: offers) (simp_all add: case_prod_beta)

lemma fold_busy_read:
  "dget (fold (\<lambda>(rid, st). set_busy (plan_pods (os_plan st)) (Some rid)) starts offers) p = Some ofr' \<Longrightarrow>
   \<exists>ofr. dget offers p = Some ofr \<and>
     ((\<exists>rid st. (rid, st) \<in> set starts \<and> p \<in> set (plan_pods (os_plan st)) \<and>
         of_busy ofr' \<and> of_busy_with ofr' = Some rid) \<or>
      ((\<forall>rid st. (rid, st) \<in> set starts \<longrightarrow> p \<notin> set (plan_pods (os_plan st))) \<and> ofr' = ofr))"
proof (induction starts arbitrary: offers)
  case (Cons a starts)
  obtain r0 s0 where a: "a = (r0, s0)" by (cases a)
  with Cons.prems have "dget (fold (\<lambda>(rid, st). set_busy (plan_pods (os_plan st)) (Some rid)) starts
      (set_busy (plan_pods (os_plan s0)) (Some r0) offers)) p = Some ofr'" by simp
  from Cons.IH [OF this] obtain ofr1 where
    one: "dget (set_busy (plan_pods (os_plan s0)) (Some r0) offers) p = Some ofr1"
    and alt: "(\<exists>rid st. (rid, st) \<in> set starts \<and> p \<in> set (plan_pods (os_plan st)) \<and>
         of_busy ofr' \<and> of_busy_with ofr' = Some rid) \<or>
      ((\<forall>rid st. (rid, st) \<in> set starts \<longrightarrow> p \<notin> set (plan_pods (os_plan st))) \<and> ofr' = ofr1)"
    by blast
  from one obtain ofr where ofr: "dget offers p = Some ofr"
    and ofr1: "ofr1 = (if p \<in> set (plan_pods (os_plan s0))
      then ofr\<lparr>of_busy := True, of_busy_with := Some r0\<rparr> else ofr)"
    by (auto simp: dict_simps)
  show ?case
  proof (cases "p \<in> set (plan_pods (os_plan s0))")
    case True
    with ofr1 have "of_busy ofr1" "of_busy_with ofr1 = Some r0" by simp_all
    with alt True have "\<exists>rid st. (rid, st) \<in> set (a # starts) \<and> p \<in> set (plan_pods (os_plan st)) \<and>
         of_busy ofr' \<and> of_busy_with ofr' = Some rid"
      unfolding a by (elim disjE exE conjE) force+
    with ofr show ?thesis by blast
  next
    case False
    with alt ofr ofr1 show ?thesis unfolding a by auto
  qed
qed simp

lemma restore_reads_log:
  assumes "length (rg_events (hh_registry h)) \<le> nat EVENT_LIMIT"
  shows "map (\<lambda>e. (ev_action e, ev_payload e)) (rev (reg_events (hh_registry h) None EVENT_LIMIT))
    = reg_history (hh_registry h)"
  using assms by (simp add: reg_events_def reg_history_def EVENT_LIMIT_def)

lemma reserved_plan:
  "reserved h p i \<longleftrightarrow> (\<exists>plan. map_option rv_plan (dget (hh_reservations h) i) = Some plan
     \<and> p \<in> set (plan_pods plan))"
  by (simp add: reserved_def split: option.split)

lemma restore_rebuilds:
  assumes inv: "hh_inv h" and reg: "hh_registry h0 = hh_registry h"
    and few: "length (rg_events (hh_registry h)) \<le> nat EVENT_LIMIT"
    and fresh: "hh_requests h0 = []" and wf: "wf_dict (hh_offers h0)"
    and rest: "hh_restore h0 = (res, h')"
  shows "\<exists>rs. res = Inr rs" and "reserved h' = reserved h" and "is_started h' = is_started h"
    and "hh_inv h'"
    and "map_option rv_plan (dget (hh_reservations h') i)
      = map_option rv_plan (dget (hh_reservations h) i)"
    and "dget (hh_requests h') i = None \<longleftrightarrow> \<not> is_started h i"
proof -
  from inv obtain starts where L: "log_exact h starts" and R: "reservations_exact h"
    and X: "exclusive h" by (auto simp: hh_inv_def)
  have rep: "replay (map (\<lambda>e. (ev_action e, ev_payload e))
      (rev (reg_events (hh_registry h0) None EVENT_LIMIT))) [] = Inr starts"
    using L restore_reads_log [of h0] few reg by (simp add: log_exact_def)
  have wfs: "wf_dict starts" using L by (simp add: log_exact_def)
  define cleared where "cleared =
    map (\<lambda>(p, ofr). (p, ofr\<lparr>of_busy := False, of_busy_with := None\<rparr>)) (hh_offers h0)"
  have h': "hh_offers h' = fold (\<lambda>(rid, st). set_busy (plan_pods (os_plan st)) (Some rid)) starts cleared"
    "hh_reservations h' = map (\<lambda>(rid, st). (rid, \<lparr>rv_plan = os_plan st, rv_started_at = None\<rparr>)) starts"
    "hh_requests h' = fold (\<lambda>(rid, st). dput rid (restored_request rid st)) starts []"
    "hh_registry h' = hh_registry h" and ok: "\<exists>rs. res = Inr rs"
    using rest rep by (auto simp: hh_restore_def Let_def cleared_def fresh reg)
  have rq: "dget (hh_requests h') i = map_option (restored_request i) (dget starts i)" for i
    by (simp add: h' dget_fold_put [OF wfs] split: option.split)
  have rv: "dget (hh_reservations h') i =
      map_option (\<lambda>st. \<lparr>rv_plan = os_plan st, rv_started_at = None\<rparr>) (dget starts i)" for i
    by (simp add: h' map_of_map)
  have st: "dget starts i = Some st \<Longrightarrow> \<exists>v. dget (hh_reservations h) i = Some v \<and> os_plan st = rv_plan v"
    "dget starts i = None \<Longrightarrow> dget (hh_reservations h) i = None" for i st
    using L unfolding log_exact_def start_recorded_def by blast+
  have plans: "map_option rv_plan (dget (hh_reservations h') i)
      = map_option rv_plan (dget (hh_reservations h) i)" for i
    using st [of i] by (cases "dget starts i") (auto simp: rv)
  then show "map_option rv_plan (dget (hh_reservations h') i)
      = map_option rv_plan (dget (hh_reservations h) i)" .
  have res': "reserved h' p i = (\<exists>st. dget starts i = Some st \<and> p \<in> set (plan_pods (os_plan st)))" for p i
    by (simp add: reserved_def rv split: option.split)
  show same: "reserved h' = reserved h"
    unfolding fun_eq_iff reserved_plan plans by simp
  then have X': "exclusive h'" using X by (simp add: exclusive_def)
  have "is_started h' i \<longleftrightarrow> dget starts i \<noteq> None" for i
    by (simp add: is_started_def rq restored_request_def split: option.split)
  moreover have "dget starts i \<noteq> None \<longleftrightarrow> is_started h i" for i
    using st [of i] R [unfolded reservations_exact_def, THEN spec, of i]
    by (cases "dget starts i") auto
  ultimately show is': "is_started h' = is_started h" by (simp add: fun_eq_iff)
  show "dget (hh_requests h') i = None \<longleftrightarrow> \<not> is_started h i"
    unfolding rq using st [of i] R [unfolded reservations_exact_def, THEN spec, of i]
    by (cases "dget starts i") auto
  have cl: "dget cleared p = Some ofr \<Longrightarrow> \<not> of_busy ofr \<and> of_busy_with ofr = None" for p ofr
    by (auto simp: cleared_def map_of_map)
  have "offer_exact h' p ofr'" if d: "dget (hh_offers h') p = Some ofr'" for p ofr'
    using fold_busy_read [OF d [unfolded h'(1)]]
  proof (elim exE conjE disjE)
    fix ofr rid s
    assume "(rid, s) \<in> set starts" "p \<in> set (plan_pods (os_plan s))"
      and b: "of_busy ofr'" "of_busy_with ofr' = Some rid"
    then have "reserved h' p rid" by (auto simp: res' wf_dict_get_mem [OF wfs])
    with b X' show ?thesis by (auto simp: offer_exact_def exclusive_def)
  next
    fix ofr
    assume "\<forall>rid st. (rid, st) \<in> set starts \<longrightarrow> p \<notin> set (plan_pods (os_plan st))"
      "ofr' = ofr" "dget cleared p = Some ofr"
    then show ?thesis using cl [of p ofr] by (auto simp: offer_exact_def res' dest: map_of_SomeD)
  qed
  moreover have "wf_dict cleared"
    using wf by (simp add: cleared_def wf_dict_def case_prod_beta comp_def)
  ultimately have "offers_exact h'" by (simp add: offers_exact_def h'(1))
  moreover have "dget (hh_reservations h') i = None \<longleftrightarrow> dget (hh_reservations h) i = None" for i
    using plans [of i] by (metis option.map_disc_iff)
  then have "reservations_exact h'"
    using R is' unfolding reservations_exact_def by simp
  moreover have "all_consented h'"
    by (auto simp: all_consented_def consented_def rq restored_request_def)
  moreover have "log_exact h' starts"
    using L by (auto simp: log_exact_def start_recorded_def rq rv restored_request_def h'(4))
  ultimately show "hh_inv h'" using X' by (auto simp: hh_inv_def)
  show "\<exists>rs. res = Inr rs" by (rule ok)
qed

section \<open>Correctness of the household\<close>

abbreviation hh_run :: "(json \<Rightarrow> string) \<Rightarrow> string \<Rightarrow> hh_op list \<Rightarrow> household" where
  "hh_run H key ops \<equiv> run_steps (hh_orderly_step H) (new_household H key empty_registry) ops"

lemma hh_run_inv: "hh_inv (hh_run H key ops)"
  by (rule hh_machine.run_invar) (simp add: new_household_inv empty_registry_def)

text \<open>C11. The household's books are exact in every state that orderly use reaches, any sequence of joins, requests,
  approvals, starts, releases and the other calls in which a pod does not join again while a reservation holds it,
  a new request id is new, and nobody else writes the two bookkeeping events: no donor is held by
  two reservations; a donor is BUSY exactly when a reservation holds it, and names that reservation;
  the reservations are exactly those of the started requests; and an approved or started request has
  the consent of exactly its donors.\<close>

theorem household_books_exact:
  "exclusive (hh_run H key ops) \<and> offers_exact (hh_run H key ops)
   \<and> reservations_exact (hh_run H key ops) \<and> all_consented (hh_run H key ops)"
  using hh_run_inv [of H key ops] by (simp add: hh_inv_def)

text \<open>A start commits only what was offered. When \<open>start\<close> succeeds, every segment of the request
  has one entry, in order; each entry sits in VRAM or RAM of a donor of the request that consented,
  that was idle and is now BUSY with this request; and per donor and tier the placed bytes do not
  exceed the offer. When it fails, nothing has changed.\<close>

theorem start_places_within_offers:
  assumes "h = hh_run H key ops" and "hh_start now h rid = (res, h')"
  shows "(case res of
       Inl e \<Rightarrow> h' = h
     | Inr plan \<Rightarrow> (\<exists>rq. dget (hh_requests h) rid = Some rq
         \<and> map pe_segment plan = map sg_name (al_segments rq)
         \<and> (\<forall>e\<in>set plan. pe_pod e \<in> set (al_donors rq) \<inter> set (al_approved rq)
              \<and> pe_tier e \<in> {''vram'', ''ram''}
              \<and> (\<exists>ofr ofr'. dget (hh_offers h) (pe_pod e) = Some ofr \<and> \<not> of_busy ofr
                   \<and> dget (hh_offers h') (pe_pod e) = Some ofr' \<and> of_busy_with ofr' = Some rid
                   \<and> tier_load (pe_pod e) (pe_tier e) plan \<le> capacity ofr (pe_tier e)))))"
proof (cases res)
  case (Inl e)
  with assms(2) show ?thesis by (auto simp: hh_start_def split: option.splits if_splits sum.splits)
next
  case (Inr plan)
  with assms(2) obtain rq where rq: "dget (hh_requests h) rid = Some rq" "al_status rq = ''approved''"
    and pl: "place_all (hh_offers h) [] (al_donors rq) (al_segments rq) = Inr plan"
    and off: "hh_offers h' = set_busy (plan_pods plan) (Some rid) (hh_offers h)"
    by (auto simp: hh_start_def hh_frames split: option.splits if_splits sum.splits)
  have "consented rq"
    using hh_run_inv [of H key ops] rq(1) assms(1) by (auto simp: hh_inv_def all_consented_def)
  then have con: "set (al_approved rq) = set (al_donors rq)" using rq(2) by (simp add: consented_def)
  have zero: "claim_of (dget_or [] p no_claim) t = 0" for p t
    by (simp add: dget_or_def claim_of_def no_claim_def)
  have "\<exists>ofr'. dget (hh_offers h') (pe_pod e) = Some ofr' \<and> of_busy_with ofr' = Some rid"
    if "e \<in> set plan" "dget (hh_offers h) (pe_pod e) = Some ofr" for e ofr
    using that by (simp add: off dict_simps plan_pods_def)
  with place_all_fits [OF pl] rq(1) con show ?thesis
    unfolding Inr zero by auto
qed

definition sample_H :: "json \<Rightarrow> string" where
  "sample_H v = (case v of JObj ((k, JStr s) # _) \<Rightarrow> k @ s | _ \<Rightarrow> [])"

definition sample_hh_ops :: "hh_op list" where
  "sample_hh_ops =
     [Hh_Join ''a'' ''k'' 8 4, Hh_Join ''b'' ''k'' 8 0,
      Hh_Request 1 ''m'' [\<lparr>sg_name = ''s1'', sg_bytes = 3, sg_tiers = [''vram'', ''ram'']\<rparr>,
                         \<lparr>sg_name = ''s2'', sg_bytes = 7, sg_tiers = [''vram'', ''ram'']\<rparr>] [''a'', ''b''],
      Hh_Approve 2 ''alloc-modelm'' ''a'' ''k'', Hh_Approve 3 ''alloc-modelm'' ''b'' ''k'']"

theorem start_places_within_offers_witness:
  "\<exists>plan h'. hh_start 4 (hh_run sample_H ''k'' sample_hh_ops) ''alloc-modelm'' = (Inr plan, h')
     \<and> map pe_segment plan = [''s1'', ''s2'']
     \<and> (\<exists>rq. dget (hh_requests (hh_run sample_H ''k'' sample_hh_ops)) ''alloc-modelm'' = Some rq
          \<and> map pe_segment plan = map sg_name (al_segments rq))"
proof -
  let ?h = "hh_run sample_H ''k'' sample_hh_ops"
  let ?plan = "[\<lparr>pe_segment = ''s1'', pe_pod = ''a'', pe_tier = ''vram'', pe_bytes = 3\<rparr>,
                \<lparr>pe_segment = ''s2'', pe_pod = ''a'', pe_tier = ''ram'', pe_bytes = 7\<rparr>]"
  have "fst (hh_start 4 ?h ''alloc-modelm'') = Inr ?plan" by code_simp
  then have st: "hh_start 4 ?h ''alloc-modelm'' = (Inr ?plan, snd (hh_start 4 ?h ''alloc-modelm''))"
    by (metis prod.collapse)
  from start_places_within_offers [OF refl st] st show ?thesis by auto
qed

text \<open>The zero-cost rule, as far as it holds. Whatever orderly use did, a household that starts from
  nothing but the same registry and the offers the pods announce again gets back, by
  \<open>restore_from_events\<close>, exactly the open reservations with their plans; every re-announced donor is
  BUSY exactly if it was, with the same request; the restored household satisfies the whole invariant,
  so its allocations can be released. The requests restored are exactly the started ones: one that was
  only pending or approved is gone. The log may hold at most a million events.\<close>

theorem restart_recovers_reservations:
  assumes "h = hh_run H key ops"
    and "length (rg_events (hh_registry h)) \<le> 1000000"
    and "hh_registry h0 = hh_registry h" and "hh_requests h0 = []" and "wf_dict (hh_offers h0)"
    and "hh_restore h0 = (res, h')"
  shows "is_ok res \<and> hh_inv h'
    \<and> map_option rv_plan (dget (hh_reservations h') rid) = map_option rv_plan (dget (hh_reservations h) rid)
    \<and> (dget (hh_requests h') rid \<noteq> None \<longleftrightarrow> is_started h rid)
    \<and> is_started h' rid = is_started h rid
    \<and> (\<forall>pod ofr ofr'. dget (hh_offers h) pod = Some ofr \<longrightarrow> dget (hh_offers h') pod = Some ofr' \<longrightarrow>
         of_busy ofr' = of_busy ofr \<and> of_busy_with ofr' = of_busy_with ofr)"
proof -
  have inv: "hh_inv h" using hh_run_inv assms(1) by simp
  have few: "length (rg_events (hh_registry h)) \<le> nat EVENT_LIMIT"
    using assms(2) by (simp add: EVENT_LIMIT_def)
  note R = restore_rebuilds [OF inv assms(3) few assms(4,5,6)]
  have same: "of_busy ofr' = of_busy ofr \<and> of_busy_with ofr' = of_busy_with ofr"
    if "dget (hh_offers h) pod = Some ofr" "dget (hh_offers h') pod = Some ofr'" for pod ofr ofr'
  proof -
    have "offer_exact h pod ofr" "offer_exact h' pod ofr'"
      using inv R(4) that by (auto simp: hh_inv_def offers_exact_def)
    then have "of_busy_with ofr' = Some i \<longleftrightarrow> of_busy_with ofr = Some i" for i
      by (simp add: offer_exact_def R(2))
    then have "of_busy_with ofr' = of_busy_with ofr"
      by (metis not_Some_eq)
    with \<open>offer_exact h pod ofr\<close> \<open>offer_exact h' pod ofr'\<close> show ?thesis
      by (simp add: offer_exact_def)
  qed
  obtain rs where "res = Inr rs" using R(1) by blast
  then show ?thesis using R(3-6) same by simp
qed

theorem restart_recovers_reservations_witness:
  "is_started (snd (hh_restore ((new_household sample_H ''k''
       (hh_registry (hh_run sample_H ''k'' (sample_hh_ops @ [Hh_Start 4 ''alloc-modelm'']))))))) ''alloc-modelm''"
proof -
  let ?h = "hh_run sample_H ''k'' (sample_hh_ops @ [Hh_Start 4 ''alloc-modelm''])"
  have "length (rg_events (hh_registry ?h)) = 4" by code_simp
  then have "length (rg_events (hh_registry ?h)) \<le> 1000000" by simp
  from restart_recovers_reservations [OF refl this, of "new_household sample_H ''k'' (hh_registry ?h)",
      OF _ _ _ prod.collapse [symmetric], of "''alloc-modelm''"]
  have "is_started (snd (hh_restore (new_household sample_H ''k'' (hh_registry ?h)))) ''alloc-modelm''
    = is_started ?h ''alloc-modelm''"
    by (simp add: new_household_def)
  moreover have "is_started ?h ''alloc-modelm''" by code_simp
  ultimately show ?thesis by simp
qed

text \<open>Releasing frees. In every reachable state, with the household key, \<open>release\<close> of a started
  request succeeds, frees exactly the donors its reservation holds, leaves no trace of the reservation,
  and does not touch the donors of other requests; a second release is refused.\<close>

theorem release_frees_exactly:
  assumes "h = hh_run H key ops" and "is_started h rid" and "hh_release H now h rid key = (res, h')"
  shows "\<exists>freed. res = Inr freed
    \<and> set freed = {pod. reserved h pod rid \<and> dget (hh_offers h) pod \<noteq> None}
    \<and> dget (hh_reservations h') rid = None
    \<and> (\<forall>pod ofr'. dget (hh_offers h') pod = Some ofr' \<longrightarrow> of_busy_with ofr' \<noteq> Some rid)
    \<and> (\<forall>pod. pod \<notin> set freed \<longrightarrow> dget (hh_offers h') pod = dget (hh_offers h) pod)
    \<and> fst (hh_release H now h' rid key) = Inl PermissionError"
proof -
  have inv: "hh_inv h" using hh_run_inv assms(1) by simp
  have khash: "hh_key_hash (hh_orderly_step H s op) = hh_key_hash s" for s op
    by (cases op) (auto simp: hh_orderly_step_def hh_join_def hh_request_def hh_approve_def hh_start_def
        hh_release_def hh_calibrate_def hh_token_lookup_def hh_token_store_def Let_def hh_frames
        split: option.split sum.split)
  have kh: "hh_key_hash (run_steps (hh_orderly_step H) s ops) = hh_key_hash s" for s
    by (induction ops arbitrary: s) (simp_all add: khash)
  then have key: "hash_key H key = hh_key_hash h" by (simp add: assms(1) new_household_def)
  from assms(2) obtain rq where rq: "dget (hh_requests h) rid = Some rq" "al_status rq = ''started''"
    by (auto simp: is_started_def split: option.splits)
  have O: "offers_exact h" and "dget (hh_reservations h) rid \<noteq> None"
    using inv assms(2) by (auto simp: hh_inv_def reservations_exact_def)
  then obtain rv where rv: "dget (hh_reservations h) rid = Some rv" by blast
  define freed where "freed = sorted_set (filter (held_by h rid) (plan_pods (rv_plan rv)))"
  have fr: "set freed = {pod. reserved h pod rid \<and> dget (hh_offers h) pod \<noteq> None}"
    using offers_busy_iff(2) [OF O] rv
    by (auto simp: freed_def held_by_def reserved_def split: option.splits)
  have res: "res = Inr freed" and h': "hh_offers h' = set_busy freed None (hh_offers h)"
    "hh_reservations h' = dpop rid (hh_reservations h)" "hh_key_hash h' = hh_key_hash h"
    "hh_requests h' = dput rid (rq\<lparr>al_status := ''released''\<rparr>) (hh_requests h)"
    using assms(3) rq rv key by (auto simp: hh_release_def Let_def freed_def hh_frames)
  have "of_busy_with ofr' \<noteq> Some rid" if d: "dget (hh_offers h') pod = Some ofr'" for pod ofr'
  proof -
    from d obtain ofr where "dget (hh_offers h) pod = Some ofr"
      "ofr' = (if pod \<in> set freed then ofr\<lparr>of_busy := False, of_busy_with := None\<rparr> else ofr)"
      by (auto simp: h' dict_simps)
    then show ?thesis using offers_busy_iff(2) [OF O] fr by auto
  qed
  then show ?thesis
    using res fr key by (auto simp: h' dict_simps hh_release_def option.map_ident)
qed

theorem release_frees_exactly_witness:
  "\<exists>freed. fst (hh_release sample_H 5 (hh_run sample_H ''k'' (sample_hh_ops @ [Hh_Start 4 ''alloc-modelm'']))
      ''alloc-modelm'' ''k'') = Inr freed \<and> ''a'' \<in> set freed"
proof -
  let ?h = "hh_run sample_H ''k'' (sample_hh_ops @ [Hh_Start 4 ''alloc-modelm''])"
  have "is_started ?h ''alloc-modelm''" by code_simp
  from release_frees_exactly [OF refl this prod.collapse [symmetric], of 5]
  obtain freed where "fst (hh_release sample_H 5 ?h ''alloc-modelm'' ''k'') = Inr freed"
    and fr: "set freed = {pod. reserved ?h pod ''alloc-modelm'' \<and> dget (hh_offers ?h) pod \<noteq> None}"
    by blast
  moreover have "reserved ?h ''a'' ''alloc-modelm'' \<and> dget (hh_offers ?h) ''a'' \<noteq> None" by code_simp
  ultimately show ?thesis by blast
qed

text \<open>Joining again loses BUSY. \<open>join\<close> overwrites the offer of a pod that is already a member: if a
  reservation holds the pod, it is still reserved afterwards but offered as idle, so new requests on it
  are accepted and started a second time on the same memory. Restoring from the events repairs it; the
  code does not do that on a join.\<close>

theorem rejoin_forgets_busy:
  assumes "reserved h pod rid" and "hash_key H key = hh_key_hash h"
  shows "reserved (snd (hh_join H h pod key ram vram)) pod rid
    \<and> donor_check (hh_offers (snd (hh_join H h pod key ram vram))) [pod] = Inr None
    \<and> \<not> offers_exact (snd (hh_join H h pod key ram vram))"
proof -
  let ?h = "snd (hh_join H h pod key ram vram)"
  have r: "reserved ?h pod rid" using assms by (simp add: hh_join_def Let_def reserved_def)
  have d: "dget (hh_offers ?h) pod = Some \<lparr>of_ram = ram, of_vram = vram, of_busy = False,
      of_busy_with = None, of_calibrations = []\<rparr>"
    using assms(2) by (simp add: hh_join_def Let_def dict_simps)
  have "\<not> offers_exact ?h" using offers_busy_iff(1) [of ?h, OF _ d] r by auto
  with r d show ?thesis by simp
qed

theorem rejoin_forgets_busy_witness:
  "donor_check (hh_offers (snd (hh_join sample_H
      (hh_run sample_H ''k'' (sample_hh_ops @ [Hh_Start 4 ''alloc-modelm''])) ''a'' ''k'' 8 4))) [''a'']
    = Inr None"
proof -
  let ?h = "hh_run sample_H ''k'' (sample_hh_ops @ [Hh_Start 4 ''alloc-modelm''])"
  have "reserved ?h ''a'' ''alloc-modelm''" "hash_key sample_H ''k'' = hh_key_hash ?h" by code_simp+
  from rejoin_forgets_busy [OF this] show ?thesis by blast
qed

end
