(* ===== verification/Placement.thy ===== *)
theory Placement
  imports Prelude
begin

text \<open>
  \<open>neural_pods/placement.py\<close>: placing regions on replica nodes, and the fenced leader lease.

  \<^item> \<open>replica\<close>, \<open>node_live\<close>, \<open>driver\<close> with \<open>pd_register\<close>, \<open>pd_heartbeat\<close>, \<open>pd_set_health\<close>,
    \<open>pd_assign\<close>, \<open>pd_rebalance\<close>, \<open>pd_reconcile\<close>, \<open>pd_route\<close>: \<open>PlacementDriver\<close>. \<open>pick_zones\<close> and
    \<open>fill_slots\<close> are the two selection loops of \<open>assign\<close>.
  \<^item> \<open>leader\<close> with \<open>fl_acquire\<close>, \<open>fl_renew\<close>, \<open>fl_validate\<close>: \<open>FencedLeader\<close>.

  The monotonic clock is an argument; \<open>pd_reconcile\<close> reads it once for the health pass and once more
  in every assignment it triggers, so it takes a sequence of readings.
\<close>

section \<open>Replica nodes\<close>

record replica =
  rn_node_id :: string
  rn_zone :: string
  rn_capacity :: int
  rn_load :: real
  rn_last_heartbeat :: real
  rn_healthy :: bool

definition node_live :: "real \<Rightarrow> real \<Rightarrow> replica \<Rightarrow> bool" where
  "node_live now timeout n = (rn_healthy n \<and> now - rn_last_heartbeat n \<le> timeout)"

record region =
  rp_namespace :: string
  rp_region_id :: string
  rp_replicas :: "string list"
  rp_leader :: string
  rp_epoch :: int

record driver =
  pd_timeout :: real
  pd_nodes :: "(string, replica) dict"
  pd_regions :: "(string \<times> string, region) dict"
  pd_epoch :: int

definition new_driver :: "real \<Rightarrow> driver result" where
  "new_driver timeout =
     (if timeout \<le> 0 then Inl ValueError
      else Inr \<lparr>pd_timeout = timeout, pd_nodes = [], pd_regions = [], pd_epoch = 0\<rparr>)"

definition pd_register :: "real \<Rightarrow> driver \<Rightarrow> string \<Rightarrow> string \<Rightarrow> int \<Rightarrow> unit result \<times> driver" where
  "pd_register now d i zone cap =
     (if i = [] \<or> zone = [] \<or> cap < 1 then (Inl ValueError, d)
      else (Inr (), d\<lparr>pd_nodes := dput i
              \<lparr>rn_node_id = i, rn_zone = zone, rn_capacity = cap, rn_load = 0,
               rn_last_heartbeat = now, rn_healthy = True\<rparr> (pd_nodes d)\<rparr>))"

text \<open>A negative load raises after the node was already marked healthy.\<close>

definition pd_heartbeat :: "real \<Rightarrow> driver \<Rightarrow> string \<Rightarrow> real option \<Rightarrow> unit result \<times> driver" where
  "pd_heartbeat now d i load =
     (case dget (pd_nodes d) i of
        None \<Rightarrow> (Inl KeyError, d)
      | Some n \<Rightarrow>
          (let n1 = n\<lparr>rn_last_heartbeat := now, rn_healthy := True\<rparr>;
               put = (\<lambda>m. d\<lparr>pd_nodes := dput i m (pd_nodes d)\<rparr>)
           in case load of
                None \<Rightarrow> (Inr (), put n1)
              | Some l \<Rightarrow> if l < 0 then (Inl ValueError, put n1)
                          else (Inr (), put (n1\<lparr>rn_load := l\<rparr>))))"

definition pd_set_health :: "driver \<Rightarrow> string \<Rightarrow> bool \<Rightarrow> unit result \<times> driver" where
  "pd_set_health d i healthy =
     (case dget (pd_nodes d) i of
        None \<Rightarrow> (Inl KeyError, d)
      | Some n \<Rightarrow> (Inr (), d\<lparr>pd_nodes := dput i (n\<lparr>rn_healthy := healthy\<rparr>) (pd_nodes d)\<rparr>))"

section \<open>Assignment\<close>

text \<open>One node per zone, in order, until \<open>rf\<close> are selected.\<close>

fun pick_zones :: "nat \<Rightarrow> replica list \<Rightarrow> replica list \<Rightarrow> string list \<Rightarrow> replica list" where
  "pick_zones rf [] selected zones = selected"
| "pick_zones rf (n # ns) selected zones =
     (if rn_zone n \<in> set zones then pick_zones rf ns selected zones
      else let selected' = selected @ [n]
           in if length selected' = rf then selected'
              else pick_zones rf ns selected' (rn_zone n # zones))"

text \<open>Then any node not selected yet.\<close>

fun fill_slots :: "nat \<Rightarrow> replica list \<Rightarrow> replica list \<Rightarrow> replica list" where
  "fill_slots rf [] selected = selected"
| "fill_slots rf (n # ns) selected =
     (if n \<in> set selected then fill_slots rf ns selected
      else let selected' = selected @ [n]
           in if length selected' = rf then selected' else fill_slots rf ns selected')"

definition candidates :: "real \<Rightarrow> driver \<Rightarrow> replica list" where
  "candidates now d =
     sort_key (\<lambda>n. (rn_load n, rn_node_id n))
       (filter (node_live now (pd_timeout d)) (map snd (pd_nodes d)))"

definition select_replicas :: "nat \<Rightarrow> replica list \<Rightarrow> replica list" where
  "select_replicas rf cs =
     (let s = pick_zones rf cs [] [] in if length s < rf then fill_slots rf cs s else s)"

definition pd_assign :: "real \<Rightarrow> driver \<Rightarrow> string \<Rightarrow> string \<Rightarrow> int \<Rightarrow> region result \<times> driver" where
  "pd_assign now d ns rid rf =
     (if ns = [] \<or> rid = [] \<or> rf < 1 then (Inl ValueError, d)
      else let cs = candidates now d
           in if int (length cs) < rf then (Inl RuntimeError, d)
              else let s = select_replicas (nat rf) cs; e = pd_epoch d + 1;
                       p = \<lparr>rp_namespace = ns, rp_region_id = rid, rp_replicas = map rn_node_id s,
                            rp_leader = rn_node_id (hd s), rp_epoch = e\<rparr>
                   in (Inr p, d\<lparr>pd_epoch := e, pd_regions := dput (ns, rid) p (pd_regions d)\<rparr>))"

definition pd_rebalance :: "real \<Rightarrow> driver \<Rightarrow> string \<Rightarrow> string \<Rightarrow> region result \<times> driver" where
  "pd_rebalance now d ns rid =
     (case dget (pd_regions d) (ns, rid) of
        None \<Rightarrow> (Inl KeyError, d)
      | Some p \<Rightarrow> pd_assign now d ns rid (int (length (rp_replicas p))))"

text \<open>\<open>any\<close> stops at the first failed replica; an unregistered one raises.\<close>

fun any_failed :: "real \<Rightarrow> driver \<Rightarrow> string list \<Rightarrow> bool result" where
  "any_failed now d [] = Inr False"
| "any_failed now d (i # is) =
     (case dget (pd_nodes d) i of
        None \<Rightarrow> Inl KeyError
      | Some n \<Rightarrow> if \<not> node_live now (pd_timeout d) n then Inr True else any_failed now d is)"

text \<open>The health pass: reading \<open>t0\<close> for the check, \<open>tick i\<close> in the \<open>i\<close>-th assignment.\<close>

fun reconcile_keys ::
    "real \<Rightarrow> (nat \<Rightarrow> real) \<Rightarrow> nat \<Rightarrow> (string \<times> string) list \<Rightarrow> driver \<Rightarrow> region list
       \<Rightarrow> region list result \<times> driver" where
  "reconcile_keys t0 tick i [] d changed = (Inr changed, d)"
| "reconcile_keys t0 tick i ((ns, rid) # ks) d changed =
     (case dget (pd_regions d) (ns, rid) of
        None \<Rightarrow> (Inl KeyError, d)
      | Some p \<Rightarrow>
          (case any_failed t0 d (rp_replicas p) of
             Inl e \<Rightarrow> (Inl e, d)
           | Inr False \<Rightarrow> reconcile_keys t0 tick i ks d changed
           | Inr True \<Rightarrow>
               (case pd_rebalance (tick i) d ns rid of
                  (Inl e, d') \<Rightarrow> (Inl e, d')
                | (Inr p', d') \<Rightarrow> reconcile_keys t0 tick (Suc i) ks d' (changed @ [p']))))"

definition pd_reconcile :: "real \<Rightarrow> (nat \<Rightarrow> real) \<Rightarrow> driver \<Rightarrow> region list result \<times> driver" where
  "pd_reconcile t0 tick d = reconcile_keys t0 tick 0 (dkeys (pd_regions d)) d []"

fun first_live :: "real \<Rightarrow> driver \<Rightarrow> string list \<Rightarrow> string result" where
  "first_live now d [] = Inl RuntimeError"
| "first_live now d (i # is) =
     (case dget (pd_nodes d) i of
        None \<Rightarrow> Inl KeyError
      | Some n \<Rightarrow> if node_live now (pd_timeout d) n then Inr i else first_live now d is)"

definition pd_route :: "real \<Rightarrow> driver \<Rightarrow> string \<Rightarrow> string \<Rightarrow> bool \<Rightarrow> string result" where
  "pd_route now d ns rid for_write =
     (case dget (pd_regions d) (ns, rid) of
        None \<Rightarrow> Inl KeyError
      | Some p \<Rightarrow>
          if for_write then
            (case dget (pd_nodes d) (rp_leader p) of
               None \<Rightarrow> Inl KeyError
             | Some n \<Rightarrow> if \<not> node_live now (pd_timeout d) n then Inl RuntimeError
                         else Inr (rp_leader p))
          else first_live now d (rp_replicas p))"

section \<open>The leader lease\<close>

record leader_lease =
  ll_holder :: string
  ll_term :: int
  ll_fence :: int
  ll_expires_at :: real

record leader =
  fl_lease_s :: real
  fl_lease :: "leader_lease option"
  fl_term :: int
  fl_fence :: int

definition new_leader :: "real \<Rightarrow> leader result" where
  "new_leader lease_s =
     (if lease_s \<le> 0 then Inl ValueError
      else Inr \<lparr>fl_lease_s = lease_s, fl_lease = None, fl_term = 0, fl_fence = 0\<rparr>)"

definition fl_acquire :: "real \<Rightarrow> leader \<Rightarrow> string \<Rightarrow> leader_lease result \<times> leader" where
  "fl_acquire now l holder =
     (if holder = [] then (Inl ValueError, l)
      else if (case fl_lease l of None \<Rightarrow> False
               | Some c \<Rightarrow> ll_expires_at c > now \<and> ll_holder c \<noteq> holder) then (Inl RuntimeError, l)
      else let c = \<lparr>ll_holder = holder, ll_term = fl_term l + 1, ll_fence = fl_fence l + 1,
                    ll_expires_at = now + fl_lease_s l\<rparr>
           in (Inr c, l\<lparr>fl_term := fl_term l + 1, fl_fence := fl_fence l + 1, fl_lease := Some c\<rparr>))"

definition fl_renew :: "real \<Rightarrow> leader \<Rightarrow> string \<Rightarrow> int \<Rightarrow> leader_lease result \<times> leader" where
  "fl_renew now l holder fence =
     (case fl_lease l of
        None \<Rightarrow> (Inl RuntimeError, l)
      | Some c \<Rightarrow>
          if ll_holder c \<noteq> holder \<or> ll_fence c \<noteq> fence then (Inl RuntimeError, l)
          else let c' = c\<lparr>ll_expires_at := now + fl_lease_s l\<rparr>
               in (Inr c', l\<lparr>fl_lease := Some c'\<rparr>))"

definition fl_validate :: "real \<Rightarrow> leader \<Rightarrow> string \<Rightarrow> int \<Rightarrow> bool" where
  "fl_validate now l holder fence =
     (case fl_lease l of
        None \<Rightarrow> False
      | Some c \<Rightarrow> ll_holder c = holder \<and> ll_fence c = fence \<and> ll_expires_at c > now)"

section \<open>Selection\<close>

lemma pick_zones_ext:
  "length sel < rf \<Longrightarrow>
   \<exists>ys. pick_zones rf ns sel zones = sel @ ys \<and> set ys \<subseteq> set ns
     \<and> distinct (map rn_zone ys) \<and> rn_zone ` set ys \<inter> set zones = {}
     \<and> length (sel @ ys) \<le> rf
     \<and> (length (sel @ ys) = rf \<or> rn_zone ` set ns \<subseteq> set zones \<union> rn_zone ` set ys)"
proof (induction ns arbitrary: sel zones)
  case (Cons n ns)
  show ?case
  proof (cases "rn_zone n \<in> set zones")
    case True
    from Cons.IH [OF Cons.prems, of zones] True show ?thesis by fastforce
  next
    case new: False
    show ?thesis
    proof (cases "length (sel @ [n]) = rf")
      case True
      with new show ?thesis by (intro exI [of _ "[n]"]) auto
    next
      case False
      with Cons.prems have "length (sel @ [n]) < rf" by simp
      from Cons.IH [OF this, of "rn_zone n # zones"] obtain ys where
        "pick_zones rf ns (sel @ [n]) (rn_zone n # zones) = (sel @ [n]) @ ys" "set ys \<subseteq> set ns"
        "distinct (map rn_zone ys)" "rn_zone ` set ys \<inter> set (rn_zone n # zones) = {}"
        "length ((sel @ [n]) @ ys) \<le> rf"
        "length ((sel @ [n]) @ ys) = rf \<or>
          rn_zone ` set ns \<subseteq> set (rn_zone n # zones) \<union> rn_zone ` set ys"
        by blast
      with new False show ?thesis by (intro exI [of _ "n # ys"]) auto
    qed
  qed
qed auto

lemma fill_slots_ext:
  "length sel < rf \<Longrightarrow> distinct sel \<Longrightarrow>
   \<exists>ys. fill_slots rf ns sel = sel @ ys \<and> set ys \<subseteq> set ns \<and> distinct (sel @ ys)
     \<and> length (sel @ ys) \<le> rf \<and> (length (sel @ ys) = rf \<or> set ns \<subseteq> set (sel @ ys))"
proof (induction ns arbitrary: sel)
  case (Cons n ns)
  show ?case
  proof (cases "n \<in> set sel")
    case True
    from Cons.IH [OF Cons.prems] True show ?thesis by fastforce
  next
    case new: False
    show ?thesis
    proof (cases "length (sel @ [n]) = rf")
      case True
      with new Cons.prems show ?thesis by (intro exI [of _ "[n]"]) auto
    next
      case False
      with Cons.prems have "length (sel @ [n]) < rf" by simp
      moreover have "distinct (sel @ [n])" using new Cons.prems by simp
      ultimately obtain ys where "fill_slots rf ns (sel @ [n]) = (sel @ [n]) @ ys" "set ys \<subseteq> set ns"
        "distinct ((sel @ [n]) @ ys)" "length ((sel @ [n]) @ ys) \<le> rf"
        "length ((sel @ [n]) @ ys) = rf \<or> set ns \<subseteq> set ((sel @ [n]) @ ys)"
        using Cons.IH by blast
      with new False show ?thesis by (intro exI [of _ "n # ys"]) auto
    qed
  qed
qed auto

lemma select_replicas_ok:
  assumes "0 < rf" and "rf \<le> length cs" and "distinct cs"
  shows "length (select_replicas rf cs) = rf" and "distinct (select_replicas rf cs)"
    and "set (select_replicas rf cs) \<subseteq> set cs" and "hd (select_replicas rf cs) = hd cs"
    and "card (rn_zone ` set (select_replicas rf cs)) = min rf (card (rn_zone ` set cs))"
proof -
  let ?s = "select_replicas rf cs" and ?p = "pick_zones rf cs [] []"
  obtain ps where P: "?p = ps" "set ps \<subseteq> set cs" "distinct (map rn_zone ps)" "length ps \<le> rf"
    "length ps = rf \<or> rn_zone ` set cs \<subseteq> rn_zone ` set ps"
    using pick_zones_ext [of "[]" rf cs "[]"] assms(1) by auto
  have dp: "distinct ps" using P(3) by (simp add: distinct_map)
  have zp: "card (rn_zone ` set ps) = length ps" using P(3) distinct_card by fastforce
  obtain ys where S: "?s = ps @ ys" "set ys \<subseteq> set cs" "distinct (ps @ ys)" "length (ps @ ys) \<le> rf"
    "length (ps @ ys) = rf \<or> set cs \<subseteq> set (ps @ ys)"
  proof (cases "length ps < rf")
    case True
    from fill_slots_ext [OF this dp, of cs] show ?thesis
      using that True P(1) by (auto simp: select_replicas_def Let_def simp del: distinct_append)
  next
    case False
    with P(1,4) dp show ?thesis using that [of "[]"] by (simp add: select_replicas_def)
  qed
  show len: "length ?s = rf"
  proof (rule ccontr)
    assume "length ?s \<noteq> rf"
    with S(1,5) have "set cs \<subseteq> set ?s" by simp
    then have "card (set cs) \<le> card (set ?s)" by (simp add: card_mono)
    then have "length cs \<le> length ?s" using S(1,3) distinct_card assms(3) by metis
    with S(1,4) assms(2) \<open>length ?s \<noteq> rf\<close> show False by simp
  qed
  show "distinct ?s" unfolding S(1) by (rule S(3))
  show sub: "set ?s \<subseteq> set cs" using S(1,2) P(2) by auto
  obtain c cs' where cs: "cs = c # cs'" using assms(1,2) by (cases cs) auto
  have "hd ps = c \<and> ps \<noteq> []"
  proof (cases "rf = 1")
    case True
    with P(1) show ?thesis by (auto simp: cs)
  next
    case False
    then have "length [c] < rf" using assms(1) by simp
    from pick_zones_ext [OF this, of cs' "[rn_zone c]"] P(1) False show ?thesis
      by (auto simp: cs)
  qed
  then show "hd ?s = hd cs" using S(1) cs by (metis hd_append2 list.sel(1))
  have zs: "card (rn_zone ` set ?s) \<le> card (rn_zone ` set cs)"
    by (rule card_mono) (use sub in auto)
  show "card (rn_zone ` set ?s) = min rf (card (rn_zone ` set cs))"
  proof (cases "length ps = rf")
    case True
    then have "?s = ps" using S(1) len by simp
    with zp True zs show ?thesis by simp
  next
    case False
    with P(5) have "rn_zone ` set cs \<subseteq> rn_zone ` set ps" by blast
    then have "rn_zone ` set ?s = rn_zone ` set cs" using sub P(2) unfolding S(1) by auto
    moreover have "card (rn_zone ` set ?s) \<le> rf"
      using len card_image_le [of "set ?s" rn_zone] card_length [of ?s] by auto
    ultimately show ?thesis by simp
  qed
qed

section \<open>Driver invariant\<close>

text \<open>Nodes are stored under their ids; every region carries an epoch the driver has issued, a leader
  that is its first replica, no replica twice, and only registered replicas; two regions never
  share an epoch.\<close>

definition region_ok :: "driver \<Rightarrow> region \<Rightarrow> bool" where
  "region_ok d p =
     (rp_replicas p \<noteq> [] \<and> distinct (rp_replicas p) \<and> rp_leader p = hd (rp_replicas p) \<and>
      0 < rp_epoch p \<and> rp_epoch p \<le> pd_epoch d \<and>
      (\<forall>i\<in>set (rp_replicas p). dget (pd_nodes d) i \<noteq> None))"

definition nodes_ok :: "driver \<Rightarrow> bool" where
  "nodes_ok d = (wf_dict (pd_nodes d) \<and> (\<forall>(i, n)\<in>set (pd_nodes d). rn_node_id n = i))"

definition driver_ok :: "driver \<Rightarrow> bool" where
  "driver_ok d =
     (nodes_ok d \<and> 0 \<le> pd_epoch d \<and>
      (\<forall>k p. dget (pd_regions d) k = Some p \<longrightarrow>
         region_ok d p \<and> k = (rp_namespace p, rp_region_id p)) \<and>
      (\<forall>j k p q. dget (pd_regions d) j = Some p \<longrightarrow> dget (pd_regions d) k = Some q \<longrightarrow>
         rp_epoch p = rp_epoch q \<longrightarrow> j = k))"

lemma candidates_ok:
  assumes "nodes_ok d"
  shows "distinct (map rn_node_id (candidates now d))" and "distinct (candidates now d)"
    and "n \<in> set (candidates now d) \<longleftrightarrow>
      dget (pd_nodes d) (rn_node_id n) = Some n \<and> node_live now (pd_timeout d) n"
proof -
  have "map rn_node_id (map snd (pd_nodes d)) = dkeys (pd_nodes d)"
    using assms by (auto simp: nodes_ok_def)
  moreover have "distinct (dkeys (pd_nodes d))"
    using assms by (simp add: nodes_ok_def wf_dict_def)
  ultimately have "distinct (map rn_node_id (map snd (pd_nodes d)))" by (simp only:)
  then have "distinct (map rn_node_id (filter (node_live now (pd_timeout d)) (map snd (pd_nodes d))))"
    by (rule distinct_map_filter)
  then have "inj_on rn_node_id (set (candidates now d)) \<and> distinct (candidates now d)"
    by (simp add: candidates_def distinct_map)
  then show "distinct (map rn_node_id (candidates now d))" "distinct (candidates now d)"
    by (simp_all add: distinct_map)
  have "n \<in> snd ` set (pd_nodes d) \<longleftrightarrow> dget (pd_nodes d) (rn_node_id n) = Some n"
  proof
    assume "n \<in> snd ` set (pd_nodes d)"
    then obtain i where i: "(i, n) \<in> set (pd_nodes d)" by auto
    then have "dget (pd_nodes d) i = Some n" "rn_node_id n = i"
      using assms wf_dict_get_mem [of "pd_nodes d" i n] by (auto simp: nodes_ok_def)
    then show "dget (pd_nodes d) (rn_node_id n) = Some n" by simp
  next
    assume "dget (pd_nodes d) (rn_node_id n) = Some n"
    from map_of_SomeD [OF this] show "n \<in> snd ` set (pd_nodes d)" by (rule image_eqI [rotated]) simp
  qed
  then show "n \<in> set (candidates now d) \<longleftrightarrow>
      dget (pd_nodes d) (rn_node_id n) = Some n \<and> node_live now (pd_timeout d) n"
    by (auto simp: candidates_def)
qed

text \<open>What a successful assignment is.\<close>

lemma pd_assign_Inr:
  assumes "nodes_ok d" and "pd_assign now d ns rid rf = (Inr p, d')"
  obtains s where "s = select_replicas (nat rf) (candidates now d)" and "0 < rf"
    and "rf \<le> int (length (candidates now d))" and "s \<noteq> []"
    and "set s \<subseteq> set (candidates now d)"
    and "p = \<lparr>rp_namespace = ns, rp_region_id = rid, rp_replicas = map rn_node_id s,
              rp_leader = rn_node_id (hd s), rp_epoch = pd_epoch d + 1\<rparr>"
    and "d' = d\<lparr>pd_epoch := pd_epoch d + 1, pd_regions := dput (ns, rid) p (pd_regions d)\<rparr>"
    and "distinct (map rn_node_id s)"
proof -
  let ?cs = "candidates now d" and ?s = "select_replicas (nat rf) (candidates now d)"
  from assms(2) have rf: "0 < rf" "rf \<le> int (length ?cs)"
    and p: "p = \<lparr>rp_namespace = ns, rp_region_id = rid, rp_replicas = map rn_node_id ?s,
              rp_leader = rn_node_id (hd ?s), rp_epoch = pd_epoch d + 1\<rparr>"
    and d': "d' = d\<lparr>pd_epoch := pd_epoch d + 1, pd_regions := dput (ns, rid) p (pd_regions d)\<rparr>"
    by (auto simp: pd_assign_def Let_def split: if_splits)
  have R: "0 < nat rf" "nat rf \<le> length ?cs" using rf by auto
  note S = select_replicas_ok [OF R candidates_ok(2) [OF assms(1)]]
  have "distinct (map rn_node_id ?s)"
    using S(2,3) candidates_ok(1) [OF assms(1), of now] by (auto simp: distinct_map inj_on_subset)
  moreover have "?s \<noteq> []" using S(1) R by auto
  ultimately show thesis using that [OF refl rf _ S(3) p d'] by blast
qed

lemma pd_assign_Inl: "pd_assign now d ns rid rf = (Inl e, d') \<Longrightarrow> d' = d"
  by (auto simp: pd_assign_def Let_def split: if_splits)

lemma pd_assign_ok:
  assumes "driver_ok d" and "pd_assign now d ns rid rf = (r, d')"
  shows "driver_ok d'"
proof (cases r)
  case (Inl e)
  with assms pd_assign_Inl show ?thesis by blast
next
  case (Inr p)
  have nodes: "nodes_ok d" using assms(1) by (simp add: driver_ok_def)
  from assms(2) Inr obtain s where s: "s \<noteq> []" "set s \<subseteq> set (candidates now d)"
    and p: "p = \<lparr>rp_namespace = ns, rp_region_id = rid, rp_replicas = map rn_node_id s,
              rp_leader = rn_node_id (hd s), rp_epoch = pd_epoch d + 1\<rparr>"
    and d': "d' = d\<lparr>pd_epoch := pd_epoch d + 1, pd_regions := dput (ns, rid) p (pd_regions d)\<rparr>"
    and ds: "distinct (map rn_node_id s)"
    using pd_assign_Inr [OF nodes] by metis
  have new: "region_ok d' p" "(rp_namespace p, rp_region_id p) = (ns, rid)"
    using s ds assms(1) candidates_ok(3) [OF nodes, of _ now]
    by (auto simp: region_ok_def p d' driver_ok_def hd_map)
  have read: "dget (pd_regions d') k = (if k = (ns, rid) then Some p else dget (pd_regions d) k)" for k
    by (simp add: d' update_conv')
  have old: "region_ok d' q \<and> rp_epoch q \<noteq> rp_epoch p \<and> k = (rp_namespace q, rp_region_id q)"
    if "dget (pd_regions d) k = Some q" for k q
  proof -
    have "region_ok d q \<and> k = (rp_namespace q, rp_region_id q)"
      using assms(1) that unfolding driver_ok_def by blast
    then show ?thesis by (auto simp: region_ok_def d' p)
  qed
  have "\<forall>k q. dget (pd_regions d') k = Some q \<longrightarrow>
      region_ok d' q \<and> k = (rp_namespace q, rp_region_id q)"
    using old new by (auto simp only: read split: if_splits)
  moreover have "\<forall>j k u v. dget (pd_regions d') j = Some u \<longrightarrow> dget (pd_regions d') k = Some v \<longrightarrow>
      rp_epoch u = rp_epoch v \<longrightarrow> j = k"
  proof (intro allI impI)
    fix j k u v
    assume a: "dget (pd_regions d') j = Some u" "dget (pd_regions d') k = Some v"
      "rp_epoch u = rp_epoch v"
    show "j = k"
    proof (cases "j = (ns, rid) \<or> k = (ns, rid)")
      case True
      with a old show ?thesis unfolding read by (metis option.inject)
    next
      case False
      with a have "dget (pd_regions d) j = Some u" "dget (pd_regions d) k = Some v"
        unfolding read by simp_all
      with a(3) assms(1) show ?thesis unfolding driver_ok_def by blast
    qed
  qed
  ultimately show ?thesis
    using assms(1) by (simp add: driver_ok_def nodes_ok_def d')
qed

text \<open>Operations on nodes keep every registered node registered.\<close>

lemma driver_ok_put_node:
  assumes "driver_ok d" and "rn_node_id n = i"
  shows "driver_ok (d\<lparr>pd_nodes := dput i n (pd_nodes d)\<rparr>)" (is "driver_ok ?d")
proof -
  have "nodes_ok ?d"
    using assms by (auto simp: driver_ok_def nodes_ok_def dest!: dput_mem)
  moreover have "region_ok d p \<Longrightarrow> region_ok ?d p" for p
    by (auto simp: region_ok_def dict_simps)
  ultimately show ?thesis using assms(1) unfolding driver_ok_def by simp
qed

datatype pd_op =
    Pd_Register real string string int
  | Pd_Heartbeat real string "real option"
  | Pd_Set_Health string bool
  | Pd_Assign real string string int
  | Pd_Rebalance real string string
  | Pd_Reconcile real "nat \<Rightarrow> real"

fun pd_step :: "driver \<Rightarrow> pd_op \<Rightarrow> driver" where
  "pd_step d (Pd_Register now i zone cap) = snd (pd_register now d i zone cap)"
| "pd_step d (Pd_Heartbeat now i load) = snd (pd_heartbeat now d i load)"
| "pd_step d (Pd_Set_Health i h) = snd (pd_set_health d i h)"
| "pd_step d (Pd_Assign now ns rid rf) = snd (pd_assign now d ns rid rf)"
| "pd_step d (Pd_Rebalance now ns rid) = snd (pd_rebalance now d ns rid)"
| "pd_step d (Pd_Reconcile t0 tick) = snd (pd_reconcile t0 tick d)"

lemma node_id_known: "driver_ok d \<Longrightarrow> dget (pd_nodes d) i = Some n \<Longrightarrow> rn_node_id n = i"
  by (auto simp: driver_ok_def nodes_ok_def dest: map_of_SomeD)

lemma pd_rebalance_ok: "driver_ok d \<Longrightarrow> pd_rebalance now d ns rid = (r, d') \<Longrightarrow> driver_ok d'"
  by (auto simp: pd_rebalance_def intro: pd_assign_ok split: option.splits)

lemma reconcile_keys_ok:
  "driver_ok d \<Longrightarrow> reconcile_keys t0 tick i ks d ch = (r, d') \<Longrightarrow> driver_ok d'"
proof (induction ks arbitrary: i d ch)
  case (Cons k ks)
  obtain ns rid where k: "k = (ns, rid)" by (cases k)
  obtain r1 d1 where rb: "pd_rebalance (tick i) d ns rid = (r1, d1)" by fastforce
  from Cons.prems(1) rb have "driver_ok d1" by (rule pd_rebalance_ok)
  with Cons k rb show ?case by (auto split: option.splits sum.splits bool.splits)
qed simp

lemma pd_step_ok: "driver_ok d \<Longrightarrow> driver_ok (pd_step d op)"
proof (cases op)
  case (Pd_Register now i zone cap)
  then show "driver_ok d \<Longrightarrow> ?thesis" by (auto simp: pd_register_def intro: driver_ok_put_node)
next
  case (Pd_Heartbeat now i load)
  then show "driver_ok d \<Longrightarrow> ?thesis"
    by (auto simp: pd_heartbeat_def Let_def node_id_known intro!: driver_ok_put_node
        split: option.split)
next
  case (Pd_Set_Health i h)
  then show "driver_ok d \<Longrightarrow> ?thesis"
    by (auto simp: pd_set_health_def node_id_known intro!: driver_ok_put_node split: option.split)
next
  case (Pd_Assign now ns rid rf)
  then show "driver_ok d \<Longrightarrow> ?thesis" using pd_assign_ok by (metis pd_step.simps(4) prod.collapse)
next
  case (Pd_Rebalance now ns rid)
  then show "driver_ok d \<Longrightarrow> ?thesis" using pd_rebalance_ok by (metis pd_step.simps(5) prod.collapse)
next
  case (Pd_Reconcile t0 tick)
  then show "driver_ok d \<Longrightarrow> ?thesis"
    using reconcile_keys_ok by (metis pd_reconcile_def pd_step.simps(6) prod.collapse)
qed

interpretation pd_machine: kept_invariant pd_step driver_ok
  by unfold_locales (rule pd_step_ok)

lemma pd_assign_epoch: "pd_epoch d \<le> pd_epoch (snd (pd_assign now d ns rid rf))"
  by (simp add: pd_assign_def Let_def)

lemma pd_rebalance_epoch: "pd_epoch d \<le> pd_epoch (snd (pd_rebalance now d ns rid))"
  by (simp add: pd_rebalance_def pd_assign_epoch split: option.split)

lemma reconcile_epoch:
  "reconcile_keys t0 tick i ks d ch = (r, d') \<Longrightarrow> pd_epoch d \<le> pd_epoch d'"
proof (induction ks arbitrary: i d ch)
  case (Cons k ks)
  obtain ns rid where k: "k = (ns, rid)" by (cases k)
  obtain r1 d1 where rb: "pd_rebalance (tick i) d ns rid = (r1, d1)" by fastforce
  have "pd_epoch d \<le> pd_epoch d1" using pd_rebalance_epoch [of d "tick i" ns rid] rb by simp
  with Cons k rb show ?case
    by (auto split: option.splits sum.splits bool.splits intro: order_trans)
qed simp

lemma pd_step_epoch: "pd_epoch d \<le> pd_epoch (pd_step d op)"
proof (cases op)
  case (Pd_Reconcile t0 tick)
  then show ?thesis using reconcile_epoch by (metis pd_reconcile_def pd_step.simps(6) prod.collapse)
qed (auto simp: pd_register_def pd_heartbeat_def pd_set_health_def Let_def pd_assign_epoch
    pd_rebalance_epoch split: option.split)

interpretation pd_clock: never_decreasing pd_step pd_epoch
  by unfold_locales (rule pd_step_epoch)

abbreviation pd_run :: "real \<Rightarrow> pd_op list \<Rightarrow> driver" where
  "pd_run timeout ops \<equiv>
     run_steps pd_step \<lparr>pd_timeout = timeout, pd_nodes = [], pd_regions = [], pd_epoch = 0\<rparr> ops"

lemma pd_run_ok: "driver_ok (pd_run timeout ops)"
  by (rule pd_machine.run_invar) (simp add: driver_ok_def nodes_ok_def)

section \<open>Correctness of the placement driver\<close>

text \<open>Assignment spreads replicas and picks the best leader. Whatever happened before, a successful
  \<open>assign\<close> returns exactly \<open>replication_factor\<close> different nodes, all registered and live; they cover as
  many zones as that number and the live zones allow; the leader is one of them and no live node has
  a smaller load, or the same load and a smaller id; the region's epoch is above that of every
  placement made before; and no other region changes.\<close>

theorem assign_spreads_zones:
  assumes "d = pd_run timeout ops" and "pd_assign now d ns rid rf = (Inr p, d')"
  shows "int (length (rp_replicas p)) = rf \<and> distinct (rp_replicas p)
    \<and> (\<forall>i\<in>set (rp_replicas p). \<exists>n. dget (pd_nodes d) i = Some n \<and> node_live now (pd_timeout d) n)
    \<and> int (card {rn_zone n |n. \<exists>i\<in>set (rp_replicas p). dget (pd_nodes d) i = Some n})
        = min rf (int (card (rn_zone ` set (candidates now d))))
    \<and> rp_leader p \<in> set (rp_replicas p)
    \<and> (\<forall>l n. dget (pd_nodes d) (rp_leader p) = Some l \<longrightarrow> n \<in> set (candidates now d) \<longrightarrow>
         (rn_load l, rn_node_id l) \<le> (rn_load n, rn_node_id n))
    \<and> (\<forall>k q. dget (pd_regions d) k = Some q \<longrightarrow> rp_epoch q < rp_epoch p)
    \<and> (\<forall>k. k \<noteq> (ns, rid) \<longrightarrow> dget (pd_regions d') k = dget (pd_regions d) k)"
proof -
  have ok: "driver_ok d" using pd_run_ok assms(1) by simp
  then have nodes: "nodes_ok d" by (simp add: driver_ok_def)
  let ?cs = "candidates now d"
  from pd_assign_Inr [OF nodes assms(2)] obtain s where
    s: "s = select_replicas (nat rf) ?cs" and rf: "0 < rf" "rf \<le> int (length ?cs)"
    and ne: "s \<noteq> []" and sub: "set s \<subseteq> set ?cs"
    and p: "p = \<lparr>rp_namespace = ns, rp_region_id = rid, rp_replicas = map rn_node_id s,
              rp_leader = rn_node_id (hd s), rp_epoch = pd_epoch d + 1\<rparr>"
    and d': "d' = d\<lparr>pd_epoch := pd_epoch d + 1, pd_regions := dput (ns, rid) p (pd_regions d)\<rparr>"
    and ds: "distinct (map rn_node_id s)" by metis
  have R: "0 < nat rf" "nat rf \<le> length ?cs" using rf by auto
  note S = select_replicas_ok [OF R candidates_ok(2) [OF nodes], folded s]
  have known: "dget (pd_nodes d) (rn_node_id n) = Some n \<and> node_live now (pd_timeout d) n"
    if "n \<in> set s" for n
    using that sub candidates_ok(3) [OF nodes] by blast
  then have zones: "{rn_zone n |n. \<exists>i\<in>set (rp_replicas p). dget (pd_nodes d) i = Some n}
      = rn_zone ` set s"
    by (auto simp: p)
  have "sorted (map (\<lambda>n. (rn_load n, rn_node_id n)) ?cs)" by (simp add: candidates_def)
  moreover have "hd s = hd ?cs" by (rule S(4))
  ultimately have best: "(rn_load (hd s), rn_node_id (hd s)) \<le> (rn_load n, rn_node_id n)"
    if "n \<in> set ?cs" for n
    using that by (cases ?cs) auto
  have epochs: "rp_epoch q < rp_epoch p" if "dget (pd_regions d) k = Some q" for k q
  proof -
    have "region_ok d q" using ok that unfolding driver_ok_def by blast
    then show ?thesis by (simp add: region_ok_def p)
  qed
  have len: "int (length s) = rf" using S(1) rf by simp
  have lead: "dget (pd_nodes d) (rp_leader p) = Some (hd s)" using known [of "hd s"] ne by (simp add: p)
  have "int (card (rn_zone ` set s)) = min rf (int (card (rn_zone ` set ?cs)))"
    using S(5) rf by (auto simp: min_def nat_le_iff le_nat_iff)
  then show ?thesis
    unfolding zones using len ds known best epochs lead ne by (auto simp: p d' update_conv')
qed

definition sample_pd_ops :: "pd_op list" where
  "sample_pd_ops =
     [Pd_Register 0 ''n1'' ''z1'' 1, Pd_Register 0 ''n2'' ''z1'' 1, Pd_Register 0 ''n3'' ''z2'' 1,
      Pd_Heartbeat 1 ''n1'' (Some 5)]"

theorem assign_spreads_zones_witness:
  "\<exists>p d'. pd_assign 2 (pd_run 5 sample_pd_ops) ''ns'' ''r'' 2 = (Inr p, d')
     \<and> rp_replicas p = [''n2'', ''n3''] \<and> int (length (rp_replicas p)) = 2"
proof -
  let ?d = "pd_run 5 sample_pd_ops"
  have "fst (pd_assign 2 ?d ''ns'' ''r'' 2) = Inr \<lparr>rp_namespace = ''ns'', rp_region_id = ''r'',
      rp_replicas = [''n2'', ''n3''], rp_leader = ''n2'', rp_epoch = 1\<rparr>"
    by code_simp
  then have a: "pd_assign 2 ?d ''ns'' ''r'' 2 = (Inr \<lparr>rp_namespace = ''ns'', rp_region_id = ''r'',
      rp_replicas = [''n2'', ''n3''], rp_leader = ''n2'', rp_epoch = 1\<rparr>,
      snd (pd_assign 2 ?d ''ns'' ''r'' 2))"
    by (metis prod.collapse)
  from assign_spreads_zones [OF refl a] a show ?thesis by auto
qed

lemma first_live_cases:
  assumes "\<forall>i\<in>set is. dget (pd_nodes d) i \<noteq> None"
  shows "case first_live now d is of
      Inr i \<Rightarrow> i \<in> set is \<and> (\<exists>n. dget (pd_nodes d) i = Some n \<and> node_live now (pd_timeout d) n)
    | Inl e \<Rightarrow> e = RuntimeError \<and>
        (\<forall>i\<in>set is. \<forall>n. dget (pd_nodes d) i = Some n \<longrightarrow> \<not> node_live now (pd_timeout d) n)"
  using assms
proof (induction "is")
  case (Cons i js)
  then obtain n where n: "dget (pd_nodes d) i = Some n" by auto
  show ?case
  proof (cases "node_live now (pd_timeout d) n")
    case False
    with Cons n show ?thesis by (auto split: sum.splits)
  qed (use n in auto)
qed simp

text \<open>Routing never leaves the live replicas. In every reachable state, \<open>route\<close> for a placed region
  either returns a live replica of it, the leader when writing, or raises \<open>RuntimeError\<close> exactly when no
  such replica is live.\<close>

theorem route_only_live:
  assumes "d = pd_run timeout ops" and "dget (pd_regions d) (ns, rid) = Some p"
  shows "case pd_route now d ns rid for_write of
      Inr i \<Rightarrow> i \<in> set (rp_replicas p) \<and> (\<not> for_write \<or> i = rp_leader p)
        \<and> (\<exists>n. dget (pd_nodes d) i = Some n \<and> node_live now (pd_timeout d) n)
    | Inl e \<Rightarrow> e = RuntimeError
        \<and> (\<forall>i\<in>(if for_write then {rp_leader p} else set (rp_replicas p)).
             \<forall>n. dget (pd_nodes d) i = Some n \<longrightarrow> \<not> node_live now (pd_timeout d) n)"
proof -
  have "region_ok d p"
    using pd_run_ok [of timeout ops] assms unfolding driver_ok_def by blast
  then have known: "\<forall>i\<in>set (rp_replicas p). dget (pd_nodes d) i \<noteq> None"
    and lead: "rp_leader p \<in> set (rp_replicas p)"
    by (auto simp: region_ok_def)
  obtain l where l: "dget (pd_nodes d) (rp_leader p) = Some l" using known lead by blast
  show ?thesis
  proof (cases for_write)
    case True
    then show ?thesis using assms(2) l lead by (auto simp: pd_route_def)
  next
    case False
    then show ?thesis
      using assms(2) first_live_cases [OF known, of now] by (auto simp: pd_route_def split: sum.splits)
  qed
qed

theorem route_only_live_witness:
  "pd_route 2 (pd_run 5 (sample_pd_ops @ [Pd_Assign 2 ''ns'' ''r'' 2])) ''ns'' ''r'' True = Inr ''n2''
   \<and> ''n2'' \<in> {''n2'', ''n3''}"
proof -
  let ?d = "pd_run 5 (sample_pd_ops @ [Pd_Assign 2 ''ns'' ''r'' 2])"
  let ?p = "\<lparr>rp_namespace = ''ns'', rp_region_id = ''r'', rp_replicas = [''n2'', ''n3''],
      rp_leader = ''n2'', rp_epoch = 1\<rparr>"
  have "dget (pd_regions ?d) (''ns'', ''r'') = Some ?p" by code_simp
  from route_only_live [OF refl this, where now = 2 and for_write = True]
  have "case pd_route 2 ?d ''ns'' ''r'' True of Inr i \<Rightarrow> i \<in> {''n2'', ''n3''} | Inl e \<Rightarrow> True"
    by (auto split: sum.splits)
  moreover have "pd_route 2 ?d ''ns'' ''r'' True = Inr ''n2''" by code_simp
  ultimately show ?thesis by simp
qed

text \<open>All replicas of a region are live.\<close>

definition region_live :: "real \<Rightarrow> driver \<Rightarrow> string \<times> string \<Rightarrow> bool" where
  "region_live now d k =
     (case dget (pd_regions d) k of
        None \<Rightarrow> True
      | Some p \<Rightarrow> \<forall>i\<in>set (rp_replicas p). \<exists>n. dget (pd_nodes d) i = Some n
                    \<and> node_live now (pd_timeout d) n)"

lemma any_failed_False:
  "any_failed now d is = Inr False \<longleftrightarrow>
     (\<forall>i\<in>set is. \<exists>n. dget (pd_nodes d) i = Some n \<and> node_live now (pd_timeout d) n)"
  by (induction now d "is" rule: any_failed.induct) (auto split: option.splits)

lemma assign_live:
  assumes "nodes_ok d" and "pd_assign now d ns rid rf = (Inr p, d')"
  shows "region_live now d' (ns, rid)" and "region_live now d k \<Longrightarrow> region_live now d' k"
    and "nodes_ok d'" and "pd_nodes d' = pd_nodes d" and "pd_timeout d' = pd_timeout d"
proof -
  from pd_assign_Inr [OF assms] obtain s where
    sub: "set s \<subseteq> set (candidates now d)"
    and p: "p = \<lparr>rp_namespace = ns, rp_region_id = rid, rp_replicas = map rn_node_id s,
              rp_leader = rn_node_id (hd s), rp_epoch = pd_epoch d + 1\<rparr>"
    and d': "d' = d\<lparr>pd_epoch := pd_epoch d + 1, pd_regions := dput (ns, rid) p (pd_regions d)\<rparr>"
    by metis
  show live: "region_live now d' (ns, rid)"
    using sub candidates_ok(3) [OF assms(1), of _ now] by (auto simp: region_live_def d' p update_conv')
  show "region_live now d k \<Longrightarrow> region_live now d' k"
    using live by (cases "k = (ns, rid)")
      (auto simp: region_live_def d' update_conv' split: option.splits)
  show "nodes_ok d'" "pd_nodes d' = pd_nodes d" "pd_timeout d' = pd_timeout d"
    using assms(1) by (simp_all add: d' nodes_ok_def)
qed

lemma reconcile_heals:
  "nodes_ok d \<Longrightarrow> reconcile_keys now (\<lambda>_. now) i ks d ch = (Inr ch', d') \<Longrightarrow>
   (\<forall>k. k \<in> set ks \<or> region_live now d k \<longrightarrow> region_live now d' k)"
proof (induction ks arbitrary: i d ch)
  case (Cons k ks)
  obtain ns rid where k: "k = (ns, rid)" by (cases k)
  from Cons.prems k obtain p where p: "dget (pd_regions d) (ns, rid) = Some p"
    by (auto split: option.splits)
  show ?case
  proof (cases "any_failed now d (rp_replicas p) = Inr False")
    case True
    then have "region_live now d k" using p by (simp add: region_live_def k any_failed_False)
    moreover have "reconcile_keys now (\<lambda>_. now) i ks d ch = (Inr ch', d')"
      using Cons.prems(2) p True by (simp add: k)
    ultimately show ?thesis using Cons.IH [OF Cons.prems(1)] by auto
  next
    case False
    with Cons.prems(2) p obtain p' d1 where
      rb: "pd_assign now d ns rid (int (length (rp_replicas p))) = (Inr p', d1)"
      and rest: "reconcile_keys now (\<lambda>_. now) (Suc i) ks d1 (ch @ [p']) = (Inr ch', d')"
      by (auto simp: k pd_rebalance_def split: sum.splits bool.splits prod.splits)
    note A = assign_live [OF Cons.prems(1) rb]
    from Cons.IH [OF A(3) rest] A(1,2) show ?thesis unfolding k by auto
  qed
qed simp

text \<open>A completed health pass heals everything. If \<open>reconcile\<close> returns, and the clock does not move
  during the pass, then afterwards every replica of every region is live, nodes are as they were, and
  epochs have not gone back.\<close>

theorem reconcile_leaves_no_failed_replica:
  assumes "d = pd_run timeout ops" and "pd_reconcile now (\<lambda>_. now) d = (Inr changed, d')"
  shows "region_live now d' k \<and> pd_epoch d \<le> pd_epoch d' \<and> driver_ok d'"
proof -
  have ok: "driver_ok d" using pd_run_ok assms(1) by simp
  then have nodes: "nodes_ok d" by (simp add: driver_ok_def)
  note run = assms(2) [unfolded pd_reconcile_def]
  have "k \<in> set (dkeys (pd_regions d)) \<or> region_live now d k"
    using dget_None_keys [of "pd_regions d" k] by (cases "dget (pd_regions d) k") (auto simp: region_live_def)
  then show ?thesis
    using reconcile_heals [OF nodes run] reconcile_epoch [OF run] reconcile_keys_ok [OF ok run] by blast
qed

theorem reconcile_leaves_no_failed_replica_witness:
  "\<exists>changed d'. pd_reconcile 3 (\<lambda>_. 3) (pd_run 5 (sample_pd_ops @ [Pd_Assign 2 ''ns'' ''r'' 2, Pd_Set_Health ''n2'' False]))
      = (Inr changed, d') \<and> region_live 3 d' (''ns'', ''r'') \<and> length changed = 1"
proof -
  let ?d = "pd_run 5 (sample_pd_ops @ [Pd_Assign 2 ''ns'' ''r'' 2, Pd_Set_Health ''n2'' False])"
  have "fst (pd_reconcile 3 (\<lambda>_. 3) ?d) = Inr [\<lparr>rp_namespace = ''ns'', rp_region_id = ''r'',
      rp_replicas = [''n3'', ''n1''], rp_leader = ''n3'', rp_epoch = 2\<rparr>]" by code_simp
  then have r: "pd_reconcile 3 (\<lambda>_. 3) ?d = (Inr [\<lparr>rp_namespace = ''ns'', rp_region_id = ''r'',
      rp_replicas = [''n3'', ''n1''], rp_leader = ''n3'', rp_epoch = 2\<rparr>], snd (pd_reconcile 3 (\<lambda>_. 3) ?d))"
    by (metis prod.collapse)
  from reconcile_leaves_no_failed_replica [OF refl r, of "(''ns'', ''r'')"]
  have "region_live 3 (snd (pd_reconcile 3 (\<lambda>_. 3) ?d)) (''ns'', ''r'')" by blast
  with r show ?thesis by (intro exI conjI) (assumption, assumption, simp)
qed

section \<open>Correctness of the leader lease\<close>

datatype fl_op = Fl_Acquire real string | Fl_Renew real string int

fun fl_step :: "leader \<Rightarrow> fl_op \<Rightarrow> leader" where
  "fl_step l (Fl_Acquire now holder) = snd (fl_acquire now l holder)"
| "fl_step l (Fl_Renew now holder fence) = snd (fl_renew now l holder fence)"

definition leader_ok :: "leader \<Rightarrow> bool" where
  "leader_ok l =
     (\<forall>c. fl_lease l = Some c \<longrightarrow> ll_fence c = fl_fence l \<and> ll_term c = fl_term l \<and> ll_holder c \<noteq> [])"

lemma fl_step_ok: "leader_ok l \<Longrightarrow> leader_ok (fl_step l op)"
  by (cases op; cases "fl_lease l")
    (simp_all add: leader_ok_def fl_acquire_def fl_renew_def Let_def, auto)

interpretation fl_machine: kept_invariant fl_step leader_ok
  by unfold_locales (rule fl_step_ok)

lemma fl_step_fence: "fl_fence l \<le> fl_fence (fl_step l op)"
  by (cases op; cases "fl_lease l") (simp_all add: fl_acquire_def fl_renew_def Let_def)

interpretation fl_clock: never_decreasing fl_step fl_fence
  by unfold_locales (rule fl_step_fence)

text \<open>As long as the fence stands still, the lease stays with its holder.\<close>

lemma fl_step_holder:
  assumes "fl_lease l = Some c" and "fl_fence (fl_step l op) = fl_fence l"
  shows "\<exists>c'. fl_lease (fl_step l op) = Some c' \<and> ll_holder c' = ll_holder c"
  using assms by (cases op) (auto simp: fl_acquire_def fl_renew_def Let_def split: if_splits)

lemma fl_run_holder:
  "fl_lease l = Some c \<Longrightarrow> fl_fence (run_steps fl_step l ops) = fl_fence l \<Longrightarrow>
   \<exists>c'. fl_lease (run_steps fl_step l ops) = Some c' \<and> ll_holder c' = ll_holder c"
proof (induction ops arbitrary: l c)
  case (Cons op ops)
  have "fl_fence (fl_step l op) = fl_fence l"
    using fl_step_fence [of l op] fl_clock.run_grows [of "fl_step l op" ops] Cons.prems(2) by simp
  with fl_step_holder [OF Cons.prems(1) this] Cons show ?case by fastforce
qed simp

abbreviation fl_run :: "real \<Rightarrow> fl_op list \<Rightarrow> leader" where
  "fl_run lease_s ops \<equiv>
     run_steps fl_step \<lparr>fl_lease_s = lease_s, fl_lease = None, fl_term = 0, fl_fence = 0\<rparr> ops"

text \<open>C12. Fencing. Take any run, an \<open>acquire\<close> by \<open>h\<close> in it that succeeds with lease \<open>c\<close>, and any
  operations and clock readings afterwards. The fence and the term of \<open>c\<close> are above all earlier ones. Whoever validates
  with this fence later is \<open>h\<close>, and nobody has acquired since: a stale leader cannot commit. While \<open>h\<close>
  validates, every other holder's \<open>acquire\<close> fails and changes nothing, and no other pair of holder and
  fence validates.\<close>

theorem stale_leader_is_fenced:
  assumes "l = fl_run lease_s ops" and "fl_acquire now l h = (Inr c, l1)"
    and "l2 = run_steps fl_step l1 later"
  shows "ll_fence c = fl_fence l + 1 \<and> ll_term c = fl_term l + 1 \<and> ll_holder c = h
    \<and> (fl_validate t l2 h' (ll_fence c) \<longrightarrow> h' = h \<and> fl_fence l2 = ll_fence c)
    \<and> (fl_validate t l2 h (ll_fence c) \<longrightarrow>
         (\<forall>h''. h'' \<noteq> h \<longrightarrow> \<not> is_ok (fst (fl_acquire t l2 h'')) \<and> snd (fl_acquire t l2 h'') = l2)
         \<and> (\<forall>h'' f. fl_validate t l2 h'' f \<longrightarrow> h'' = h \<and> f = ll_fence c))"
proof -
  have "leader_ok l" unfolding assms(1) by (rule fl_machine.run_invar) (simp add: leader_ok_def)
  from assms(2) have c: "ll_fence c = fl_fence l + 1" "ll_term c = fl_term l + 1" "ll_holder c = h"
    "fl_lease l1 = Some c" "fl_fence l1 = ll_fence c"
    by (auto simp: fl_acquire_def Let_def split: if_splits)
  have "leader_ok l1" using fl_step_ok [OF \<open>leader_ok l\<close>, of "Fl_Acquire now h"] assms(2) by simp
  then have ok2: "leader_ok l2" unfolding assms(3) by (rule fl_machine.run_invar)
  have own: "h' = h \<and> fl_fence l2 = ll_fence c" if v: "fl_validate t l2 h' (ll_fence c)" for h' t
  proof -
    from v obtain c2 where c2: "fl_lease l2 = Some c2" "ll_holder c2 = h'" "ll_fence c2 = ll_fence c"
      by (auto simp: fl_validate_def split: option.splits)
    with ok2 have "fl_fence l2 = fl_fence l1" by (simp add: leader_ok_def c(5))
    then have same: "fl_fence (run_steps fl_step l1 later) = fl_fence l1" by (simp add: assms(3))
    from fl_run_holder [OF c(4) same] c2 c(3,5) same show ?thesis by (auto simp: assms(3))
  qed
  moreover have "\<not> is_ok (fst (fl_acquire t l2 h'')) \<and> snd (fl_acquire t l2 h'') = l2"
    if "fl_validate t l2 h (ll_fence c)" "h'' \<noteq> h" for h''
    using that by (auto simp: fl_validate_def fl_acquire_def split: option.splits)
  moreover have "h'' = h \<and> f = ll_fence c"
    if "fl_validate t l2 h (ll_fence c)" "fl_validate t l2 h'' f" for h'' f
    using that by (auto simp: fl_validate_def split: option.splits)
  ultimately show ?thesis using c(1-3) by blast
qed

theorem stale_leader_is_fenced_witness:
  "\<exists>c l1. fl_acquire 0 (fl_run 5 []) ''a'' = (Inr c, l1) \<and> ll_fence c = 1
     \<and> \<not> fl_validate 7 (run_steps fl_step l1 [Fl_Acquire 6 ''b'']) ''b'' (ll_fence c)"
proof -
  have a: "fl_acquire 0 (fl_run 5 []) ''a'' = (Inr \<lparr>ll_holder = ''a'', ll_term = 1, ll_fence = 1,
      ll_expires_at = 5\<rparr>, snd (fl_acquire 0 (fl_run 5 []) ''a''))"
    by (simp add: fl_acquire_def Let_def)
  from stale_leader_is_fenced [OF refl a refl, of 7 "[Fl_Acquire 6 ''b'']" "''b''"] a
  show ?thesis by (intro exI conjI) (assumption, auto)
qed

end
