(* ===== verification/Pod_Protocol.thy ===== *)
theory Pod_Protocol
  imports Py_Values Resource_Runtime
begin

text \<open>
  \<open>neural_pods/pod_protocol.py\<close>: the request envelope of a pod-to-pod call, the in-process transport
  and bounded fan-out.

  \<^item> \<open>pod_request\<close> with \<open>pr_validate\<close>, \<open>pr_signed\<close>, \<open>pr_sign\<close>, \<open>pr_next_hop\<close>: \<open>PodRequest\<close>.
  \<^item> \<open>transport\<close> with \<open>new_transport\<close>, \<open>pt_register\<close>, \<open>attempt_loop\<close>, \<open>pt_dispatch\<close>,
    \<open>pt_dispatch_tracked\<close>: \<open>PodTransport\<close>; the tracker is the model of theory \<open>Resource_Runtime\<close>.
  \<^item> \<open>fanout\<close>: \<open>PodFanout.dispatch\<close>.

  The HMAC is a parameter. A handler is a function of payload, request and attempt number, so it may
  answer each attempt differently; \<open>tm i\<close> is the elapsed time read before attempt \<open>i\<close> and \<open>t_end\<close>
  the one read afterwards, in milliseconds. Fresh trace and request ids are arguments of the record.
\<close>

section \<open>Requests\<close>

record pod_request =
  pr_source_pod :: string
  pr_target_pod :: string
  pr_capability :: string
  pr_payload :: json
  pr_trace_id :: string
  pr_request_id :: string
  pr_deadline_ms :: int
  pr_hop_budget :: int
  pr_visited :: "string list"
  pr_target_generation :: "string option"
  pr_target_artifact :: "string option"
  pr_principal :: string
  pr_epoch :: int
  pr_manifest_hash :: "string option"
  pr_signature :: "string option"
  pr_protocol_version :: int

definition pr_validate :: "int option \<Rightarrow> pod_request \<Rightarrow> unit result" where
  "pr_validate now_ms r =
     (if pr_source_pod r = [] \<or> pr_target_pod r = [] \<or> pr_capability r = [] then Inl ValueError
      else if pr_source_pod r = pr_target_pod r \<or> pr_target_pod r \<in> set (pr_visited r) then Inl ValueError
      else if pr_hop_budget r < 1 then Inl ValueError
      else if pr_deadline_ms r \<le> 0 then Inl ValueError
      else case now_ms of
        None \<Rightarrow> Inr ()
      | Some now \<Rightarrow> if now \<ge> pr_deadline_ms r then Inl TimeoutError else Inr ())"

text \<open>What \<open>signing_bytes\<close> serialises: these fields and no others.\<close>

record signed_fields =
  sf_trace_id :: string
  sf_request_id :: string
  sf_source_pod :: string
  sf_target_pod :: string
  sf_capability :: string
  sf_payload :: json
  sf_target_generation :: "string option"
  sf_target_artifact :: "string option"
  sf_epoch :: int

definition pr_signed :: "pod_request \<Rightarrow> signed_fields" where
  "pr_signed r =
     \<lparr>sf_trace_id = pr_trace_id r, sf_request_id = pr_request_id r,
      sf_source_pod = pr_source_pod r, sf_target_pod = pr_target_pod r,
      sf_capability = pr_capability r, sf_payload = pr_payload r,
      sf_target_generation = pr_target_generation r, sf_target_artifact = pr_target_artifact r,
      sf_epoch = pr_epoch r\<rparr>"

type_synonym pod_mac = "string \<Rightarrow> signed_fields \<Rightarrow> string"

definition pr_sign :: "pod_mac \<Rightarrow> string \<Rightarrow> pod_request \<Rightarrow> pod_request" where
  "pr_sign mac secret r = r\<lparr>pr_signature := Some (mac secret (pr_signed r))\<rparr>"

text \<open>\<open>next_hop\<close> builds a new request; the protocol version falls back to its default.\<close>

definition pr_next_hop :: "pod_request \<Rightarrow> string \<Rightarrow> pod_request result" where
  "pr_next_hop r target =
     (case pr_validate None r of
        Inl e \<Rightarrow> Inl e
      | Inr _ \<Rightarrow>
          if target \<in> set (pr_visited r @ [pr_source_pod r, pr_target_pod r]) then Inl ValueError
          else Inr (r\<lparr>pr_source_pod := pr_target_pod r, pr_target_pod := target,
                      pr_hop_budget := pr_hop_budget r - 1,
                      pr_visited := pr_visited r @ [pr_target_pod r],
                      pr_protocol_version := 1\<rparr>))"

section \<open>The transport\<close>

record pod_response =
  ps_request_id :: string
  ps_trace_id :: string
  ps_source_pod :: string
  ps_target_pod :: string
  ps_payload :: json
  ps_error :: "string option"
  ps_epoch :: int
  ps_latency_ms :: real

definition ps_ok :: "pod_response \<Rightarrow> bool" where
  "ps_ok r = (ps_error r = None)"

type_synonym pod_handler = "json \<Rightarrow> pod_request \<Rightarrow> nat \<Rightarrow> json result"

record transport =
  pt_secret :: "string option"
  pt_max_retries :: int
  pt_handlers :: "(string \<times> string, pod_handler) dict"
  pt_manifests :: "(string, string option) dict"

definition new_transport :: "string option \<Rightarrow> int \<Rightarrow> transport result" where
  "new_transport secret retries =
     (if retries < 0 \<or> retries > 5 then Inl ValueError
      else Inr \<lparr>pt_secret = secret, pt_max_retries = retries, pt_handlers = [], pt_manifests = []\<rparr>)"

definition pt_register ::
    "transport \<Rightarrow> string \<Rightarrow> string \<Rightarrow> pod_handler \<Rightarrow> string option \<Rightarrow> transport" where
  "pt_register t pod cap handler mhash =
     t\<lparr>pt_handlers := dput (pod, cap) handler (pt_handlers t),
       pt_manifests := dput pod mhash (pt_manifests t)\<rparr>"

text \<open>\<open>type(exc).__name__\<close>.\<close>

fun err_name :: "py_error \<Rightarrow> string" where
  "err_name ValueError = ''ValueError''"
| "err_name TypeError = ''TypeError''"
| "err_name KeyError = ''KeyError''"
| "err_name IndexError = ''IndexError''"
| "err_name OverflowError = ''OverflowError''"
| "err_name RuntimeError = ''RuntimeError''"
| "err_name PermissionError = ''PermissionError''"
| "err_name TimeoutError = ''TimeoutError''"
| "err_name ConnectionError = ''ConnectionError''"
| "err_name ZeroDivisionError = ''ZeroDivisionError''"
| "err_name InvalidState = ''InvalidState''"
| "err_name (OtherError s) = s"

definition respond :: "pod_request \<Rightarrow> json \<Rightarrow> string option \<Rightarrow> int \<Rightarrow> real \<Rightarrow> pod_response" where
  "respond r payload err epoch latency =
     \<lparr>ps_request_id = pr_request_id r, ps_trace_id = pr_trace_id r,
      ps_source_pod = pr_source_pod r, ps_target_pod = pr_target_pod r,
      ps_payload = payload, ps_error = err, ps_epoch = epoch, ps_latency_ms = latency\<rparr>"

definition error_response :: "pod_request \<Rightarrow> string \<Rightarrow> real \<Rightarrow> pod_response" where
  "error_response r err latency = respond r (JObj []) (Some err) 0 latency"

text \<open>
  The retry loop from attempt \<open>i\<close> with \<open>left\<close> attempts remaining: its payload or exception, and the
  number of handler calls made so far.
\<close>

fun attempt_loop ::
    "(nat \<Rightarrow> json result) \<Rightarrow> (nat \<Rightarrow> real) \<Rightarrow> int \<Rightarrow> nat \<Rightarrow> nat \<Rightarrow> json result \<times> nat" where
  "attempt_loop call tm deadline i 0 = (Inr JNull, i)"
| "attempt_loop call tm deadline i (Suc left) =
     (if tm i \<ge> of_int deadline then (Inr JNull, i)
      else case call i of
        Inr payload \<Rightarrow> (Inr payload, Suc i)
      | Inl e \<Rightarrow>
          if (e = TimeoutError \<or> e = ConnectionError) \<and> left \<noteq> 0
          then attempt_loop call tm deadline (Suc i) left
          else (Inl e, Suc i))"

definition or_empty :: "json \<Rightarrow> json" where
  "or_empty v = (if truthy v then v else JObj [])"

definition manifest_refused :: "transport \<Rightarrow> pod_request \<Rightarrow> bool" where
  "manifest_refused t r =
     (case dget (pt_manifests t) (pr_target_pod r) of
        Some (Some m) \<Rightarrow> m \<noteq> [] \<and> pr_manifest_hash r \<noteq> Some m
      | _ \<Rightarrow> False)"

definition signature_refused :: "pod_mac \<Rightarrow> transport \<Rightarrow> pod_request \<Rightarrow> bool" where
  "signature_refused mac t r =
     (case pt_secret t of
        None \<Rightarrow> False
      | Some k \<Rightarrow> (case pr_signature r of
            None \<Rightarrow> True
          | Some s \<Rightarrow> s = [] \<or> s \<noteq> mac k (pr_signed r)))"

definition run_handler ::
    "(nat \<Rightarrow> real) \<Rightarrow> real \<Rightarrow> transport \<Rightarrow> pod_handler \<Rightarrow> pod_request \<Rightarrow> pod_response \<times> nat" where
  "run_handler tm t_end t handler r =
     (case attempt_loop (handler (pr_payload r) r) tm (pr_deadline_ms r) 0
             (Suc (nat (pt_max_retries t))) of
        (Inl e, n) \<Rightarrow>
          (if e = TimeoutError then error_response r ''deadline_exceeded'' t_end
           else error_response r (''handler_error:'' @ err_name e) 0, n)
      | (Inr payload, n) \<Rightarrow>
          (if t_end > of_int (pr_deadline_ms r) then error_response r ''deadline_exceeded'' t_end
           else respond r (or_empty payload) None (pr_epoch r) t_end, n))"

text \<open>\<open>_dispatch\<close>, together with the number of handler calls it makes.\<close>

definition pt_dispatch ::
    "pod_mac \<Rightarrow> (nat \<Rightarrow> real) \<Rightarrow> real \<Rightarrow> transport \<Rightarrow> pod_request \<Rightarrow> pod_response result \<times> nat" where
  "pt_dispatch mac tm t_end t r =
     (case pr_validate (Some 0) r of
        Inl e \<Rightarrow> (Inl e, 0)
      | Inr _ \<Rightarrow>
          if manifest_refused t r then (Inr (error_response r ''manifest_mismatch'' 0), 0)
          else if signature_refused mac t r then (Inr (error_response r ''invalid_signature'' 0), 0)
          else (case dget (pt_handlers t) (pr_target_pod r, pr_capability r) of
              None \<Rightarrow> (Inr (error_response r ''capability_unavailable'' 0), 0)
            | Some handler \<Rightarrow> (case run_handler tm t_end t handler r of (resp, n) \<Rightarrow> (Inr resp, n))))"

text \<open>\<open>int(payload.get(k, 0) or 0)\<close> and \<open>bool(payload.get(k, False))\<close> for a mapping payload.\<close>

definition payload_dict :: "json \<Rightarrow> (string, json) dict" where
  "payload_dict v = (case v of JObj d \<Rightarrow> d | _ \<Rightarrow> [])"

definition token_count :: "json \<Rightarrow> string \<Rightarrow> int result" where
  "token_count v k =
     (let x = jget (payload_dict v) k in if truthy x then py_int x else Inr 0)"

definition pt_dispatch_tracked ::
    "pod_mac \<Rightarrow> (nat \<Rightarrow> real) \<Rightarrow> real \<Rightarrow> transport \<Rightarrow> real \<Rightarrow> real \<Rightarrow> tracker \<Rightarrow> pod_request
       \<Rightarrow> pod_response result \<times> tracker" where
  "pt_dispatch_tracked mac tm t_end t now now' tk r =
     (case tr_start now tk (pr_request_id r) (pr_trace_id r) (pr_target_pod r)
             (pr_target_generation r) None of
        (Inl e, tk1) \<Rightarrow> (Inl e, tk1)
      | (Inr _, tk1) \<Rightarrow>
          (let fail = (\<lambda>e tk. (Inl e, snd (tr_finish now' tk (pr_request_id r) False
                                 (Some (err_name e)) 0 0 False None)))
           in case fst (pt_dispatch mac tm t_end t r) of
                Inl e \<Rightarrow> fail e tk1
              | Inr resp \<Rightarrow>
                  (case tr_phase tk1 (pr_request_id r) ''dispatch'' (ps_latency_ms resp) of
                     (Inl e, tk2) \<Rightarrow> fail e tk2
                   | (Inr _, tk2) \<Rightarrow>
                       (case (token_count (ps_payload resp) ''input_tokens'',
                              token_count (ps_payload resp) ''output_tokens'') of
                          (Inl e, _) \<Rightarrow> fail e tk2
                        | (Inr _, Inl e) \<Rightarrow> fail e tk2
                        | (Inr tin, Inr tout) \<Rightarrow>
                            (Inr resp,
                             snd (tr_finish now' tk2 (pr_request_id r) (ps_ok resp) (ps_error resp)
                                    tin tout (truthy (jget (payload_dict (ps_payload resp)) ''cache_hit''))
                                    None))))))"

section \<open>Fan-out\<close>

definition new_fanout :: "int \<Rightarrow> int result" where
  "new_fanout workers = (if workers < 1 \<or> workers > 64 then Inl ValueError else Inr workers)"

text \<open>
  \<open>list(pool.map(f, requests))\<close>: every request is dispatched, results come in request order, and the
  first exception in that order is raised in place of the whole list.
\<close>

definition fanout :: "(pod_request \<Rightarrow> pod_response result) \<Rightarrow> pod_request list \<Rightarrow> pod_response list result" where
  "fanout dispatch rs = map_result dispatch rs"

section \<open>Chains of hops\<close>

fun hop_path :: "pod_request \<Rightarrow> string list \<Rightarrow> pod_request result" where
  "hop_path r [] = Inr r"
| "hop_path r (t # ts) = (case pr_next_hop r t of Inl e \<Rightarrow> Inl e | Inr r' \<Rightarrow> hop_path r' ts)"

lemma pr_validate_Inr:
  "pr_validate now r = Inr u \<longleftrightarrow>
     pr_source_pod r \<noteq> [] \<and> pr_target_pod r \<noteq> [] \<and> pr_capability r \<noteq> [] \<and>
     pr_source_pod r \<noteq> pr_target_pod r \<and> pr_target_pod r \<notin> set (pr_visited r) \<and>
     1 \<le> pr_hop_budget r \<and> 0 < pr_deadline_ms r \<and>
     (case now of None \<Rightarrow> True | Some n \<Rightarrow> n < pr_deadline_ms r)"
  by (auto simp: pr_validate_def split: option.splits)

lemma pr_next_hop_Inr:
  "pr_next_hop r t = Inr r' \<longleftrightarrow>
     pr_validate None r = Inr () \<and> t \<notin> set (pr_visited r @ [pr_source_pod r, pr_target_pod r]) \<and>
     r' = r\<lparr>pr_source_pod := pr_target_pod r, pr_target_pod := t,
            pr_hop_budget := pr_hop_budget r - 1,
            pr_visited := pr_visited r @ [pr_target_pod r], pr_protocol_version := 1\<rparr>"
  by (auto simp: pr_next_hop_def split: sum.splits)

text \<open>The pods that have received the request, in order.\<close>

definition trail :: "pod_request \<Rightarrow> string list" where
  "trail r = pr_visited r @ [pr_target_pod r]"

lemma hop_path_trail:
  "hop_path r ts = Inr r' \<Longrightarrow>
     trail r' = trail r @ ts
     \<and> pr_hop_budget r' = pr_hop_budget r - int (length ts)
     \<and> (ts = [] \<or> int (length ts) \<le> pr_hop_budget r)
     \<and> (pr_payload r', pr_principal r', pr_trace_id r', pr_request_id r', pr_deadline_ms r')
        = (pr_payload r, pr_principal r, pr_trace_id r, pr_request_id r, pr_deadline_ms r)
     \<and> (distinct (trail r) \<longrightarrow> distinct (trail r'))"
proof (induction ts arbitrary: r)
  case (Cons t ts)
  then obtain r1 where one: "pr_next_hop r t = Inr r1" and rest: "hop_path r1 ts = Inr r'"
    by (auto split: sum.splits)
  from one have r1: "pr_validate None r = Inr ()" "t \<notin> set (trail r)" "trail r1 = trail r @ [t]"
    "pr_hop_budget r1 = pr_hop_budget r - 1"
    "(pr_payload r1, pr_principal r1, pr_trace_id r1, pr_request_id r1, pr_deadline_ms r1)
     = (pr_payload r, pr_principal r, pr_trace_id r, pr_request_id r, pr_deadline_ms r)"
    by (auto simp: pr_next_hop_Inr trail_def)
  have "1 \<le> pr_hop_budget r" using r1(1) by (simp add: pr_validate_Inr)
  moreover have "distinct (trail r) \<longrightarrow> distinct (trail r1)" using r1(2,3) by simp
  ultimately show ?case using Cons.IH [OF rest] r1(3-) by (auto simp del: distinct_append)
qed simp

text \<open>A call cannot be passed on forever. If a request is handed on along a list of pods by
  successive \<open>next_hop\<close> calls, the list is no longer than the hop budget, the budget shrinks by one per
  hop, \<open>visited\<close> grows by exactly the pods that handed it on, in order, no pod receives it twice, and
  trace, request id, payload, principal and deadline arrive unchanged.\<close>

theorem hop_chain_bounded:
  assumes "hop_path r ts = Inr r'" and "distinct (trail r)"
  shows "(ts = [] \<or> int (length ts) \<le> pr_hop_budget r)
    \<and> pr_hop_budget r' = pr_hop_budget r - int (length ts)
    \<and> trail r' = trail r @ ts
    \<and> distinct (trail r')
    \<and> (pr_payload r', pr_principal r', pr_trace_id r', pr_request_id r', pr_deadline_ms r')
       = (pr_payload r, pr_principal r, pr_trace_id r, pr_request_id r, pr_deadline_ms r)"
  using hop_path_trail [OF assms(1)] assms(2) by blast

definition sample_request :: pod_request where
  "sample_request =
     \<lparr>pr_source_pod = ''a'', pr_target_pod = ''b'', pr_capability = ''c'', pr_payload = JObj [],
      pr_trace_id = ''t'', pr_request_id = ''r'', pr_deadline_ms = 5000, pr_hop_budget = 4,
      pr_visited = [], pr_target_generation = None, pr_target_artifact = None,
      pr_principal = ''local'', pr_epoch = 0, pr_manifest_hash = None, pr_signature = None,
      pr_protocol_version = 1\<rparr>"

theorem hop_chain_bounded_witness:
  "\<exists>r'. hop_path sample_request [''c'', ''d''] = Inr r' \<and> trail r' = [''b'', ''c'', ''d'']"
proof -
  have "is_ok (hop_path sample_request [''c'', ''d''])" by code_simp
  then obtain r' where r': "hop_path sample_request [''c'', ''d''] = Inr r'" by (rule is_okE)
  from hop_chain_bounded [OF r'] show ?thesis
    using r' by (simp add: sample_request_def trail_def)
qed

text \<open>The cycle check forgets the origin. \<open>next_hop\<close> adds the forwarding target to \<open>visited\<close> and
  never the original source, so after one hop to a third pod the call may be sent back to where it
  started, and it still validates there: every request with an empty trail, at least three hops of
  budget and three distinct pods does it.\<close>

theorem next_hop_admits_origin:
  assumes "pr_validate None r = Inr ()" and "pr_visited r = []" and "3 \<le> pr_hop_budget r"
    and "c \<notin> {[], pr_source_pod r, pr_target_pod r}"
  shows "\<exists>r'. hop_path r [c, pr_source_pod r] = Inr r' \<and> pr_target_pod r' = pr_source_pod r
    \<and> pr_validate None r' = Inr ()"
proof -
  have two: "hop_path r [c, pr_source_pod r] = Inr r' \<longleftrightarrow>
      (\<exists>r1. pr_next_hop r c = Inr r1 \<and> pr_next_hop r1 (pr_source_pod r) = Inr r')" for r'
    by (auto split: sum.splits)
  show ?thesis
    unfolding two pr_next_hop_Inr pr_validate_Inr using assms by (auto simp: pr_validate_Inr)
qed

theorem next_hop_admits_origin_witness:
  "\<exists>r'. hop_path sample_request [''c'', ''a''] = Inr r' \<and> pr_target_pod r' = ''a''"
  using next_hop_admits_origin [of sample_request "''c''"]
  by (auto simp: sample_request_def pr_validate_def)

section \<open>Dispatch\<close>

lemma attempt_loop_cases:
  "attempt_loop call tm dl i left = (res, n) \<Longrightarrow>
     i \<le> n \<and> n \<le> i + left
     \<and> (\<forall>j. i \<le> j \<longrightarrow> Suc j < n \<longrightarrow> call j \<in> {Inl TimeoutError, Inl ConnectionError})
     \<and> (case res of
          Inl e \<Rightarrow> i < n \<and> call (n - 1) = Inl e
        | Inr p \<Rightarrow> (i < n \<and> call (n - 1) = Inr p) \<or> (p = JNull \<and> (left = 0 \<or> tm n \<ge> of_int dl)))"
proof (induction call tm dl i left arbitrary: res n rule: attempt_loop.induct)
  case (2 call tm dl i left)
  show ?case
  proof (cases "tm i \<ge> of_int dl")
    case True
    with "2.prems" show ?thesis by auto
  next
    case False
    show ?thesis
    proof (cases "\<exists>e. call i = Inl e \<and> (e = TimeoutError \<or> e = ConnectionError) \<and> left \<noteq> 0")
      case True
      then obtain e where e: "call i = Inl e" "e = TimeoutError \<or> e = ConnectionError" "left \<noteq> 0"
        by blast
      with "2.prems" False have rest: "attempt_loop call tm dl (Suc i) left = (res, n)" by simp
      from "2.IH" [OF _ e(1) _ this] False e
      have IH: "Suc i \<le> n \<and> n \<le> Suc i + left"
        "\<forall>j. Suc i \<le> j \<longrightarrow> Suc j < n \<longrightarrow> call j \<in> {Inl TimeoutError, Inl ConnectionError}"
        "case res of
          Inl e \<Rightarrow> Suc i < n \<and> call (n - 1) = Inl e
        | Inr p \<Rightarrow> (Suc i < n \<and> call (n - 1) = Inr p) \<or> (p = JNull \<and> (left = 0 \<or> tm n \<ge> of_int dl))"
        by auto
      have "\<forall>j. i \<le> j \<longrightarrow> Suc j < n \<longrightarrow> call j \<in> {Inl TimeoutError, Inl ConnectionError}"
        using IH(2) e(1,2) by (metis insert_iff le_antisym not_less_eq_eq)
      with IH(1,3) e(3) show ?thesis by (auto split: sum.splits)
    next
      case False': False
      with "2.prems" False show ?thesis by (auto split: sum.splits if_splits)
    qed
  qed
qed auto

text \<open>What a dispatch does. It raises only when the request does not validate, and then no handler
  ran. Otherwise it answers with the request's own ids; the handler is called at most \<open>max_retries + 1\<close>
  times, again only after a timeout or a connection error; and a successful answer means that the
  manifest and the signature were accepted, a handler is registered, the deadline was met on a clock that
  does not run backwards, and the payload is the last call's answer, or the clock stood exactly at the
  deadline, where the code reports success with an empty payload.\<close>

theorem dispatch_outcome:
  assumes "\<forall>i. tm i \<le> t_end" and "0 \<le> pt_max_retries t"
    and "pt_dispatch mac tm t_end t r = (res, n)"
  shows "case res of
      Inl e \<Rightarrow> pr_validate (Some 0) r = Inl e \<and> n = 0
    | Inr resp \<Rightarrow>
        (ps_request_id resp, ps_trace_id resp, ps_source_pod resp, ps_target_pod resp)
          = (pr_request_id r, pr_trace_id r, pr_source_pod r, pr_target_pod r)
        \<and> int n \<le> pt_max_retries t + 1
        \<and> (\<not> ps_ok resp \<or>
           (\<exists>handler. \<not> manifest_refused t r \<and> \<not> signature_refused mac t r
              \<and> dget (pt_handlers t) (pr_target_pod r, pr_capability r) = Some handler
              \<and> t_end \<le> of_int (pr_deadline_ms r) \<and> ps_epoch resp = pr_epoch r
              \<and> (\<forall>j. Suc j < n \<longrightarrow> handler (pr_payload r) r j \<in> {Inl TimeoutError, Inl ConnectionError})
              \<and> ((\<exists>p. 0 < n \<and> handler (pr_payload r) r (n - 1) = Inr p \<and> ps_payload resp = or_empty p)
                 \<or> (t_end = of_int (pr_deadline_ms r) \<and> ps_payload resp = JObj []))))"
proof (cases "is_ok (pr_validate (Some 0) r)")
  case False
  then obtain e where "pr_validate (Some 0) r = Inl e"
    by (cases "pr_validate (Some 0) r") simp_all
  with assms(3) show ?thesis by (auto simp: pt_dispatch_def)
next
  case True
  then have v: "pr_validate (Some 0) r = Inr ()" by (auto elim: is_okE)
  consider (early) err where "res = Inr (error_response r err 0)" "n = 0"
    | (run) handler resp where "\<not> manifest_refused t r" "\<not> signature_refused mac t r"
        "dget (pt_handlers t) (pr_target_pod r, pr_capability r) = Some handler"
        "run_handler tm t_end t handler r = (resp, n)" "res = Inr resp"
    using assms(3) v by (auto simp: pt_dispatch_def split: if_splits option.splits prod.splits)
  then show ?thesis
  proof cases
    case early
    then show ?thesis using assms(2) by (simp add: error_response_def respond_def ps_ok_def)
  next
    case run
    obtain lr where lp: "attempt_loop (handler (pr_payload r) r) tm (pr_deadline_ms r) 0
        (Suc (nat (pt_max_retries t))) = (lr, n)"
      using run(4) by (auto simp: run_handler_def split: prod.splits sum.splits)
    note L = attempt_loop_cases [OF lp]
    have bound: "int n \<le> pt_max_retries t + 1" using L assms(2) by auto
    show ?thesis
    proof (cases lr)
      case (Inl e)
      with run(4,5) lp bound show ?thesis
        by (auto simp: run_handler_def error_response_def respond_def ps_ok_def split: if_splits)
    next
      case (Inr p)
      have "t_end = of_int (pr_deadline_ms r)"
        if "tm n \<ge> of_int (pr_deadline_ms r)" "t_end \<le> of_int (pr_deadline_ms r)"
        using that assms(1) by (meson antisym order_trans)
      with run lp bound L Inr show ?thesis
        by (auto simp: run_handler_def error_response_def respond_def ps_ok_def or_empty_def
            split: if_splits)
    qed
  qed
qed

definition echo_handler :: pod_handler where
  "echo_handler v r attempt = (if attempt = 0 then Inl ConnectionError else Inr v)"

definition sample_transport :: transport where
  "sample_transport =
     \<lparr>pt_secret = None, pt_max_retries = 2, pt_handlers = [((''b'', ''c''), echo_handler)],
      pt_manifests = [(''b'', None)]\<rparr>"

theorem dispatch_outcome_witness:
  "snd (pt_dispatch (\<lambda>k m. k) (\<lambda>i. 1) 1 sample_transport sample_request) = 2 \<and> 2 \<le> pt_max_retries sample_transport + 1"
proof -
  have "pt_dispatch (\<lambda>k m. k) (\<lambda>i. 1) 1 sample_transport sample_request
    = (Inr (respond sample_request (JObj []) None 0 1), 2)"
    by code_simp
  with dispatch_outcome [OF _ _ this] show ?thesis
    by (simp add: sample_transport_def)
qed

text \<open>A forwarded request cannot be authenticated. \<open>next_hop\<close> keeps the old signature, while the
  source and target it signs have changed: on a transport with the key that signed it, the forwarded
  request is refused as \<open>invalid_signature\<close> without calling a handler, unless the MAC collides on the two
  messages.\<close>

theorem forwarded_signature_invalid:
  assumes "pr_next_hop (pr_sign mac k r) target = Inr r'"
    and "pt_secret t = Some k" and "\<not> manifest_refused t r'" and "pr_validate (Some 0) r' = Inr ()"
    and "mac k (pr_signed r) \<noteq> mac k (pr_signed r')"
  shows "pt_dispatch mac tm t_end t r' = (Inr (error_response r' ''invalid_signature'' 0), 0)
    \<and> pr_signed r' \<noteq> pr_signed r"
proof -
  have "pr_signature r' = Some (mac k (pr_signed r))"
    using assms(1) by (simp add: pr_next_hop_Inr pr_sign_def pr_signed_def)
  then have "signature_refused mac t r'" using assms(2,5) by (simp add: signature_refused_def)
  then show ?thesis using assms(3-5) by (auto simp: pt_dispatch_def)
qed

definition sample_mac :: pod_mac where
  "sample_mac k m = k @ sf_source_pod m"

theorem forwarded_signature_invalid_witness:
  "\<exists>r'. pr_next_hop (pr_sign sample_mac ''k'' sample_request) ''d'' = Inr r'
    \<and> pt_dispatch sample_mac (\<lambda>i. 0) 0 (sample_transport\<lparr>pt_secret := Some ''k''\<rparr>) r'
      = (Inr (error_response r' ''invalid_signature'' 0), 0)"
proof -
  have "is_ok (pr_next_hop (pr_sign sample_mac ''k'' sample_request) ''d'')" by code_simp
  then obtain r' where r': "pr_next_hop (pr_sign sample_mac ''k'' sample_request) ''d'' = Inr r'"
    by (rule is_okE)
  with forwarded_signature_invalid [OF r', of "sample_transport\<lparr>pt_secret := Some ''k''\<rparr>"]
  show ?thesis
    by (auto simp: pr_next_hop_Inr pr_validate_Inr sample_request_def sample_mac_def pr_sign_def
        pr_signed_def sample_transport_def manifest_refused_def)
qed

text \<open>What a signature does not cover. Changing the principal, the deadline, the hop budget, the trail
  or the manifest hash of a signed request never changes whether the transport accepts its signature; an
  intermediary without the key can act as any principal and lift every bound.\<close>

theorem signature_leaves_bounds_open:
  "signature_refused mac t (r\<lparr>pr_principal := p, pr_deadline_ms := d, pr_hop_budget := b,
     pr_visited := v, pr_manifest_hash := m\<rparr>) = signature_refused mac t r"
  by (simp add: signature_refused_def pr_signed_def split: option.split)

section \<open>Tracked dispatch\<close>

text \<open>
  What a client relies on when it books work in a ledger: an entry is opened once, booking on an open
  entry keeps the others, closing removes exactly that entry.
\<close>

locale ledger =
  fixes opened :: "'s \<Rightarrow> 'k set"
    and start :: "'s \<Rightarrow> 'k \<Rightarrow> 's \<Rightarrow> bool"
    and touch :: "'s \<Rightarrow> 'k \<Rightarrow> 's \<Rightarrow> bool"
    and finish :: "'s \<Rightarrow> 'k \<Rightarrow> 's \<Rightarrow> bool"
  assumes start_opens: "start s k s' \<Longrightarrow> k \<notin> opened s \<and> opened s' = insert k (opened s)"
    and touch_keeps: "touch s k s' \<Longrightarrow> opened s' = opened s"
    and finish_closes: "finish s k s' \<Longrightarrow> opened s' = opened s - {k}"
begin

lemma bracket: "start s k s1 \<Longrightarrow> finish s1 k s2 \<Longrightarrow> opened s2 = opened s"
  using start_opens finish_closes by blast

lemma bracket_touch: "start s k s1 \<Longrightarrow> touch s1 k s2 \<Longrightarrow> finish s2 k s3 \<Longrightarrow> opened s3 = opened s"
  using start_opens finish_closes touch_keeps by blast

end

definition tk_opens :: "tracker \<Rightarrow> string \<Rightarrow> tracker \<Rightarrow> bool" where
  "tk_opens t rid t' = (\<exists>now trace pod gen hw r. tr_start now t rid trace pod gen hw = (Inr r, t'))"

definition tk_touches :: "tracker \<Rightarrow> string \<Rightarrow> tracker \<Rightarrow> bool" where
  "tk_touches t rid t' = (\<exists>name ms. snd (tr_phase t rid name ms) = t')"

definition tk_closes :: "tracker \<Rightarrow> string \<Rightarrow> tracker \<Rightarrow> bool" where
  "tk_closes t rid t' =
     (\<exists>now ok err tin tout hit hw. snd (tr_finish now t rid ok err tin tout hit hw) = t')"

lemma tr_finish_dom:
  "dom (dget (tk_active (snd (tr_finish now t rid ok err tin tout hit hw))))
     = dom (dget (tk_active t)) - {rid}"
  by (auto simp: tr_finish_def Let_def dict_simps split: option.splits if_splits)

lemma tr_phase_dom: "dom (dget (tk_active (snd (tr_phase t rid name ms)))) = dom (dget (tk_active t))"
  by (auto simp: tr_phase_def dict_simps split: option.splits if_splits)

interpretation tracker_ledger: ledger "\<lambda>t. dom (dget (tk_active t))" tk_opens tk_touches tk_closes
proof unfold_locales
  fix t k t'
  show "tk_opens t k t' \<Longrightarrow> k \<notin> dom (dget (tk_active t)) \<and>
      dom (dget (tk_active t')) = insert k (dom (dget (tk_active t)))"
    by (auto simp: tk_opens_def tr_start_def Let_def dict_simps split: if_splits)
  show "tk_touches t k t' \<Longrightarrow> dom (dget (tk_active t')) = dom (dget (tk_active t))"
    unfolding tk_touches_def using tr_phase_dom by blast
  show "tk_closes t k t' \<Longrightarrow> dom (dget (tk_active t')) = dom (dget (tk_active t)) - {k}"
    unfolding tk_closes_def using tr_finish_dom by blast
qed

text \<open>The shape of a tracked dispatch: start, maybe a phase, finish.\<close>

lemma tracked_shape:
  assumes "pt_dispatch_tracked mac tm t_end t now now' tk r = (res, tk')"
    and "dget (tk_active tk) (pr_request_id r) = None"
  obtains tk1 tk2 ok err tin tout hit where "tk_opens tk (pr_request_id r) tk1"
    and "tk2 = tk1 \<or> tk_touches tk1 (pr_request_id r) tk2"
    and "tk' = snd (tr_finish now' tk2 (pr_request_id r) ok err tin tout hit None)"
    and "ok = (case res of Inl _ \<Rightarrow> False | Inr resp \<Rightarrow> ps_ok resp)"
    and "tk_records tk2 = tk_records tk" and "tk_max tk2 = tk_max tk"
    and "\<exists>rc. dget (tk_active tk2) (pr_request_id r) = Some rc \<and> rc_request_id rc = pr_request_id r"
    and "case res of Inr resp \<Rightarrow> fst (pt_dispatch mac tm t_end t r) = Inr resp | Inl _ \<Rightarrow> True"
proof -
  obtain rc tk1 where st: "tr_start now tk (pr_request_id r) (pr_trace_id r) (pr_target_pod r)
      (pr_target_generation r) None = (Inr rc, tk1)"
    and rec1: "tk_records tk1 = tk_records tk" "tk_max tk1 = tk_max tk"
      "\<exists>rc. dget (tk_active tk1) (pr_request_id r) = Some rc \<and> rc_request_id rc = pr_request_id r"
    using assms(2) by (simp add: tr_start_def Let_def dict_simps)
  then have op: "tk_opens tk (pr_request_id r) tk1" unfolding tk_opens_def by blast
  note unf = assms(1) [unfolded pt_dispatch_tracked_def st Let_def prod.case sum.case]
  show thesis
  proof (cases "fst (pt_dispatch mac tm t_end t r)")
    case (Inl e)
    with unf have "res = Inl e" "tk' = snd (tr_finish now' tk1 (pr_request_id r) False
        (Some (err_name e)) 0 0 False None)" by auto
    with op rec1 show thesis by (intro that [of tk1 tk1]) auto
  next
    case (Inr resp)
    obtain pr tk2 where ph: "tr_phase tk1 (pr_request_id r) ''dispatch'' (ps_latency_ms resp) = (pr, tk2)"
      by fastforce
    then have "tk2 = snd (tr_phase tk1 (pr_request_id r) ''dispatch'' (ps_latency_ms resp))" by simp
    then have tch: "tk_touches tk1 (pr_request_id r) tk2" unfolding tk_touches_def by blast
    from ph rec1 have rec2: "tk_records tk2 = tk_records tk" "tk_max tk2 = tk_max tk"
      "\<exists>rc. dget (tk_active tk2) (pr_request_id r) = Some rc \<and> rc_request_id rc = pr_request_id r"
      by (auto simp: tr_phase_def dict_simps split: option.splits if_splits)
    consider (fail) e where "res = Inl e" "tk' = snd (tr_finish now' tk2 (pr_request_id r) False
        (Some (err_name e)) 0 0 False None)"
      | (fine) tin tout where "res = Inr resp"
        "tk' = snd (tr_finish now' tk2 (pr_request_id r) (ps_ok resp) (ps_error resp)
           tin tout (truthy (jget (payload_dict (ps_payload resp)) ''cache_hit'')) None)"
      using unf Inr ph by (auto split: sum.splits prod.splits)
    then show thesis
    proof cases
      case fail
      with op tch rec2 show thesis by (intro that [of tk1 tk2]) auto
    next
      case fine
      with op tch rec2 Inr show thesis by (intro that [of tk1 tk2]) auto
    qed
  qed
qed

text \<open>A tracked dispatch always closes its receipt. If the request id is not active when it starts,
  then whether the dispatch answers, reports an error or raises, afterwards the same requests are active
  as before, and exactly one receipt was added to the history: finished, for this request id, and a success
  only if an answer without error is returned. If the id is already active, it raises \<open>ValueError\<close> and
  the tracker is untouched.\<close>

theorem tracked_dispatch_closes:
  assumes "pt_dispatch_tracked mac tm t_end t now now' tk r = (res, tk')"
  shows "if dget (tk_active tk) (pr_request_id r) \<noteq> None then res = Inl ValueError \<and> tk' = tk
    else dom (dget (tk_active tk')) = dom (dget (tk_active tk))
      \<and> (\<exists>rc. tk_records tk' = deque_append (tk_max tk) (tk_records tk) rc \<and> receipt_closed rc
           \<and> rc_request_id rc = pr_request_id r
           \<and> rc_success rc = Some (case res of Inl _ \<Rightarrow> False | Inr resp \<Rightarrow> ps_ok resp))"
proof (cases "dget (tk_active tk) (pr_request_id r) = None")
  case False
  with assms(1) show ?thesis by (auto simp: pt_dispatch_tracked_def tr_start_def)
next
  case True
  from assms(1) True show ?thesis
  proof (cases rule: tracked_shape)
    case (1 tk1 tk2 ok err tin tout hit)
    have cl: "tk_closes tk2 (pr_request_id r) tk'" using 1(3) unfolding tk_closes_def by blast
    have "dom (dget (tk_active tk')) = dom (dget (tk_active tk))"
      using 1(2) tracker_ledger.bracket [OF 1(1), of tk'] cl
        tracker_ledger.bracket_touch [OF 1(1) _ cl] by blast
    moreover obtain rc2 where "dget (tk_active tk2) (pr_request_id r) = Some rc2"
      "rc_request_id rc2 = pr_request_id r" using 1(7) by blast
    ultimately show ?thesis
      using True 1(3,5,6) unfolding 1(4)
      by (auto simp: tr_finish_def Let_def receipt_closed_def)
  qed
qed

theorem tracked_dispatch_closes_witness:
  "dom (dget (tk_active (snd (pt_dispatch_tracked (\<lambda>k m. k) (\<lambda>i. 1) 1 sample_transport 0 1
     \<lparr>tk_max = 4, tk_records = [], tk_active = []\<rparr> sample_request)))) = {}"
  using tracked_dispatch_closes [OF prod.collapse [symmetric], of "\<lparr>tk_max = 4, tk_records = [], tk_active = []\<rparr>"]
  by (simp split: if_splits)

text \<open>Fan-out is all or nothing. Answers come in request order, one per request; but a request that does
  not validate makes the whole fan-out raise, and every other branch's answer is lost, although
  every branch was dispatched.\<close>

theorem fanout_order_and_loss:
  "(case fanout (\<lambda>r. fst (pt_dispatch mac tm t_end t r)) rs of
      Inr resps \<Rightarrow> length resps = length rs
        \<and> list_all2 (\<lambda>r resp. fst (pt_dispatch mac tm t_end t r) = Inr resp) rs resps
    | Inl e \<Rightarrow> \<exists>r\<in>set rs. pr_validate (Some 0) r = Inl e)
   \<and> (is_ok (fanout (\<lambda>r. fst (pt_dispatch mac tm t_end t r)) rs)
        = list_all (\<lambda>r. is_ok (pr_validate (Some 0) r)) rs)"
proof (induction rs)
  case (Cons r rs)
  have "fst (pt_dispatch mac tm t_end t r) = Inl e \<Longrightarrow> pr_validate (Some 0) r = Inl e" for e
    by (auto simp: pt_dispatch_def split: sum.splits if_splits option.splits prod.splits)
  moreover have "pr_validate (Some 0) r = Inl e \<Longrightarrow> fst (pt_dispatch mac tm t_end t r) = Inl e" for e
    by (simp add: pt_dispatch_def)
  ultimately show ?case
    using Cons.IH
    by (cases "fst (pt_dispatch mac tm t_end t r)"; cases "pr_validate (Some 0) r")
      (auto simp: fanout_def is_ok_def split: sum.splits)
qed (simp add: fanout_def)

end
