(* ===== verification/Task_Graph.thy ===== *)
theory Task_Graph
  imports Py_Values
begin

text \<open>
  \<open>neural_pods/taskgraph.py\<close>: a graph of pod calls run on a bounded worker pool.

  \<^item> \<open>task_node\<close>, \<open>task_graph\<close>, \<open>resolve_pass\<close>, \<open>resolve_all\<close>, \<open>validate_dag\<close>, \<open>new_graph\<close>: the
    constructor and its cycle check.
  \<^item> \<open>pool_state\<close>, \<open>pool_exec\<close>, \<open>pool_reach\<close>: \<open>run\<close>. The executor takes submitted nodes in order
    while fewer than \<open>max_parallel\<close> workers are busy; a worker first blocks until all dependencies
    are done, then starts the handler, then records the result. Each is one event that carries a reading
    of the clock; any interleaving the pool allows is a sequence of events.
  \<^item> \<open>path_end\<close>, \<open>critical_path\<close>, \<open>run_report\<close>: the metrics.

  A handler is a function of its payload; an exception becomes the result's error (its class
  stands for \<open>repr\<close>).
\<close>

section \<open>Graphs\<close>

record task_node =
  tn_handler :: "(string, json) dict \<Rightarrow> json result"
  tn_depends_on :: "string list"
  tn_context_key :: string

type_synonym task_graph = "(string, task_node) dict"

text \<open>One pass of the \<open>for\<close> loop: a node resolved in it counts for the nodes after it.\<close>

fun resolve_pass :: "task_graph \<Rightarrow> string list \<Rightarrow> string list" where
  "resolve_pass [] r = r"
| "resolve_pass ((i, n) # ns) r =
     (if i \<in> set r then resolve_pass ns r
      else if list_all (\<lambda>dep. dep \<in> set r) (tn_depends_on n) then resolve_pass ns (r @ [i])
      else resolve_pass ns r)"

function resolve_all :: "task_graph \<Rightarrow> string list \<Rightarrow> string list result" where
  "resolve_all g r =
     (if length r < length g then
        (let r' = resolve_pass g r
         in if length r' = length r then Inl ValueError else resolve_all g r')
      else Inr r)"
  by pat_completeness auto

lemma resolve_pass_ext: "\<exists>ys. resolve_pass ns r = r @ ys"
proof (induction ns r rule: resolve_pass.induct)
  case (2 i n ns r)
  then show ?case by (auto split: if_splits)
qed simp

termination resolve_all
proof (relation "measure (\<lambda>(g, r). length g - length r)", simp)
  fix g :: task_graph and r r'
  assume "length r < length g" "r' = resolve_pass g r" "length r' \<noteq> length r"
  moreover from this resolve_pass_ext [of g r] have "length r < length r'"
    by (metis append_Nil2 length_append length_greater_0_conv less_add_same_cancel1)
  ultimately show "((g, r'), (g, r)) \<in> measure (\<lambda>(g, r). length g - length r)"
    by simp
qed

declare resolve_all.simps [simp del]

definition validate_dag :: "task_graph \<Rightarrow> string list result" where
  "validate_dag g =
     (if list_all (\<lambda>(i, n). list_all (\<lambda>dep. dget g dep \<noteq> None) (tn_depends_on n)) g
      then resolve_all g [] else Inl ValueError)"

text \<open>The constructor: the nodes by id, in order; a repeated id is an error.\<close>

definition new_graph :: "(string \<times> task_node) list \<Rightarrow> task_graph result" where
  "new_graph ns =
     (let g = fold (\<lambda>(i, n). dput i n) ns []
      in if length g \<noteq> length ns then Inl ValueError
         else case validate_dag g of Inl e \<Rightarrow> Inl e | Inr _ \<Rightarrow> Inr g)"

section \<open>Running\<close>

record task_result =
  tr_output :: json
  tr_error :: "py_error option"
  tr_started :: real
  tr_finished :: real
  tr_inputs_from :: "string list"

record pool_state =
  po_queue :: "string list"
  po_waiting :: "string list"
  po_active :: "(string, real) dict"
  po_results :: "(string, task_result) dict"
  po_now :: real

datatype pool_event = Take real | Begin string real | End string real

definition pool_init :: "task_graph \<Rightarrow> real \<Rightarrow> pool_state" where
  "pool_init g t0 =
     \<lparr>po_queue = dkeys g, po_waiting = [], po_active = [], po_results = [], po_now = t0\<rparr>"

text \<open>\<open>outputs.get(dep)\<close> for each dependency, and the payload built from them.\<close>

definition output_of :: "(string, task_result) dict \<Rightarrow> string \<Rightarrow> json" where
  "output_of rs i = (case dget rs i of None \<Rightarrow> JNull | Some r \<Rightarrow> tr_output r)"

definition node_inputs :: "(string \<Rightarrow> json) \<Rightarrow> task_node \<Rightarrow> (string, json) dict" where
  "node_inputs out n = fold (\<lambda>dep. dput dep (out dep)) (tn_depends_on n) []"

definition node_payload :: "(string, json) dict \<Rightarrow> (string \<Rightarrow> json) \<Rightarrow> task_node \<Rightarrow> (string, json) dict" where
  "node_payload base out n =
     (case tn_depends_on n of
        [] \<Rightarrow> base
      | [dep] \<Rightarrow> dput (tn_context_key n) (out dep) base
      | _ \<Rightarrow> dput (tn_context_key n) (JObj (node_inputs out n)) base)"

definition exec_node ::
    "(string, json) dict \<Rightarrow> (string \<Rightarrow> json) \<Rightarrow> task_node \<Rightarrow> json \<times> py_error option" where
  "exec_node base out n =
     (case tn_handler n (node_payload base out n) of
        Inl e \<Rightarrow> (JNull, Some e)
      | Inr v \<Rightarrow> (v, None))"

definition pool_exec ::
    "task_graph \<Rightarrow> nat \<Rightarrow> (string, json) dict \<Rightarrow> pool_state \<Rightarrow> pool_event \<Rightarrow> pool_state option" where
  "pool_exec g k base s ev =
     (case ev of
        Take t \<Rightarrow>
          (case po_queue s of
             [] \<Rightarrow> None
           | i # q \<Rightarrow>
               if length (po_waiting s) + length (po_active s) < k \<and> po_now s \<le> t
               then Some (s\<lparr>po_queue := q, po_waiting := po_waiting s @ [i], po_now := t\<rparr>)
               else None)
      | Begin i t \<Rightarrow>
          (case dget g i of
             None \<Rightarrow> None
           | Some n \<Rightarrow>
               if i \<in> set (po_waiting s) \<and> po_now s \<le> t
                 \<and> list_all (\<lambda>dep. dget (po_results s) dep \<noteq> None) (tn_depends_on n)
               then Some (s\<lparr>po_waiting := removeAll i (po_waiting s),
                            po_active := dput i t (po_active s), po_now := t\<rparr>)
               else None)
      | End i t \<Rightarrow>
          (case (dget g i, dget (po_active s) i) of
             (Some n, Some t0) \<Rightarrow>
               if po_now s \<le> t then
                 (let (out, err) = exec_node base (output_of (po_results s)) n;
                      r = \<lparr>tr_output = out, tr_error = err, tr_started = t0, tr_finished = t,
                           tr_inputs_from = tn_depends_on n\<rparr>
                  in Some (s\<lparr>po_active := dpop i (po_active s),
                             po_results := dput i r (po_results s), po_now := t\<rparr>))
               else None
           | _ \<Rightarrow> None))"

inductive pool_reach ::
    "task_graph \<Rightarrow> nat \<Rightarrow> (string, json) dict \<Rightarrow> real \<Rightarrow> pool_state \<Rightarrow> bool"
  for g k base t0 where
  reach_init: "pool_reach g k base t0 (pool_init g t0)"
| reach_step: "pool_reach g k base t0 s \<Longrightarrow> pool_exec g k base s ev = Some s' \<Longrightarrow>
    pool_reach g k base t0 s'"

text \<open>Every future is done.\<close>

definition pool_done :: "pool_state \<Rightarrow> bool" where
  "pool_done s = (po_queue s = [] \<and> po_waiting s = [] \<and> po_active s = [])"

fun pool_run ::
    "task_graph \<Rightarrow> nat \<Rightarrow> (string, json) dict \<Rightarrow> pool_state \<Rightarrow> pool_event list \<Rightarrow> pool_state option" where
  "pool_run g k base s [] = Some s"
| "pool_run g k base s (ev # evs) =
     (case pool_exec g k base s ev of None \<Rightarrow> None | Some s' \<Rightarrow> pool_run g k base s' evs)"

section \<open>Metrics\<close>

text \<open>The recursion \<open>resolve\<close> of \<open>_critical_path_s\<close>; a missing result or lack of fuel is \<open>None\<close>.\<close>

fun path_end :: "task_graph \<Rightarrow> (string, task_result) dict \<Rightarrow> nat \<Rightarrow> string \<Rightarrow> real option" where
  "path_end g rs 0 i = None"
| "path_end g rs (Suc f) i =
     (case (dget g i, dget rs i) of
        (Some n, Some r) \<Rightarrow>
          (let ends = map (path_end g rs f) (tn_depends_on n)
           in if None \<in> set ends then None
              else Some ((if ends = [] then 0 else Max (the ` set ends))
                         + (tr_finished r - tr_started r)))
      | _ \<Rightarrow> None)"

definition critical_path :: "task_graph \<Rightarrow> (string, task_result) dict \<Rightarrow> real option" where
  "critical_path g rs =
     (let ends = map (path_end g rs (length g)) (dkeys g)
      in if None \<in> set ends then None else Some (if ends = [] then 0 else Max (the ` set ends)))"

record run_report =
  rr_wall_s :: real
  rr_elapsed_sum_s :: real
  rr_critical_path_s :: real
  rr_mean_concurrency :: real
  rr_critical_path_ratio :: real

definition elapsed_sum :: "(string, task_result) dict \<Rightarrow> real" where
  "elapsed_sum rs = sum_list (map (\<lambda>(i, r). tr_finished r - tr_started r) rs)"

definition report_of :: "real \<Rightarrow> real \<Rightarrow> real \<Rightarrow> run_report" where
  "report_of wall elapsed cp =
     \<lparr>rr_wall_s = py_round 3 wall, rr_elapsed_sum_s = py_round 3 elapsed,
      rr_critical_path_s = py_round 3 cp,
      rr_mean_concurrency = py_round 2 (elapsed / max wall (1 / 10 ^ 9)),
      rr_critical_path_ratio = py_round 2 (cp / max wall (1 / 10 ^ 9))\<rparr>"

section \<open>The cycle check\<close>

text \<open>A list in which every node's dependencies come before it.\<close>

definition ordered :: "task_graph \<Rightarrow> string list \<Rightarrow> bool" where
  "ordered g r =
     (distinct r \<and> (\<forall>i<length r. \<exists>n. dget g (r ! i) = Some n \<and> set (tn_depends_on n) \<subseteq> set (take i r)))"

lemma ordered_Nil [simp]: "ordered g []"
  by (simp add: ordered_def)

lemma ordered_snoc:
  "ordered g (r @ [i]) \<longleftrightarrow> ordered g r \<and> i \<notin> set r \<and>
     (\<exists>n. dget g i = Some n \<and> set (tn_depends_on n) \<subseteq> set r)"
  by (auto simp: ordered_def nth_append less_Suc_eq)

lemma resolve_pass_ordered:
  "ordered g r \<Longrightarrow> wf_dict g \<Longrightarrow> set ns \<subseteq> set g \<Longrightarrow> ordered g (resolve_pass ns r)"
proof (induction ns r rule: resolve_pass.induct)
  case (2 i n ns r)
  have "dget g i = Some n" using 2(5,6) wf_dict_get_mem [OF 2(5), of i n] by auto
  with 2 show ?case by (auto simp: ordered_snoc list_all_iff subset_iff)
qed simp

lemma resolve_pass_stuck:
  "length (resolve_pass ns r) = length r \<Longrightarrow> (i, n) \<in> set ns \<Longrightarrow> i \<notin> set r \<Longrightarrow>
     \<not> set (tn_depends_on n) \<subseteq> set r"
proof (induction ns r rule: resolve_pass.induct)
  case (2 j m ns r)
  have "length r < length (resolve_pass ns (r @ [j]))"
    using resolve_pass_ext [of ns "r @ [j]"] by auto
  with 2 show ?case by (auto simp: list_all_iff split: if_splits)
qed simp

lemma resolve_all_Inr:
  "resolve_all g r = Inr r' \<Longrightarrow> ordered g r \<Longrightarrow> wf_dict g \<Longrightarrow> ordered g r' \<and> length g \<le> length r'"
proof (induction g r rule: resolve_all.induct)
  case (1 g r)
  show ?case
  proof (cases "length r < length g")
    case True
    with "1.prems"(1) have "length (resolve_pass g r) \<noteq> length r"
      "resolve_all g (resolve_pass g r) = Inr r'"
      by (subst (asm) resolve_all.simps, simp add: Let_def split: if_splits)+
    with "1.IH" [OF True refl] resolve_pass_ordered [OF "1.prems"(2,3), of g] "1.prems"(3)
    show ?thesis by simp
  next
    case False
    with "1.prems" show ?thesis by (subst (asm) resolve_all.simps) simp
  qed
qed

text \<open>A stuck check leaves a set of nodes of which each waits for another.\<close>

definition blocked :: "task_graph \<Rightarrow> string set \<Rightarrow> bool" where
  "blocked g U = (U \<noteq> {} \<and> U \<subseteq> set (dkeys g) \<and>
     (\<forall>i n. i \<in> U \<longrightarrow> dget g i = Some n \<longrightarrow> set (tn_depends_on n) \<inter> U \<noteq> {}))"

lemma resolve_all_Inl:
  "resolve_all g r = Inl e \<Longrightarrow> ordered g r \<Longrightarrow> wf_dict g \<Longrightarrow>
   \<forall>(i, n)\<in>set g. set (tn_depends_on n) \<subseteq> set (dkeys g) \<Longrightarrow> \<exists>U. blocked g U"
proof (induction g r rule: resolve_all.induct)
  case (1 g r)
  from "1.prems"(1) have lt: "length r < length g"
    by (subst (asm) resolve_all.simps) (auto split: if_splits)
  show ?case
  proof (cases "length (resolve_pass g r) = length r")
    case False
    then have "resolve_all g (resolve_pass g r) = Inl e"
      using "1.prems"(1) lt by (subst (asm) resolve_all.simps) (simp add: Let_def)
    with "1.IH" [OF lt refl False _ resolve_pass_ordered [OF "1.prems"(2,3)]] "1.prems"(3,4)
    show ?thesis by simp
  next
    case True
    let ?U = "set (dkeys g) - set r"
    have "card (set (dkeys g)) = length g"
      using distinct_card [of "dkeys g"] "1.prems"(3) by (simp add: wf_dict_def)
    then have "?U \<noteq> {}"
      using lt card_length [of r] card_mono [of "set r" "set (dkeys g)"] by auto
    moreover have "set (tn_depends_on n) \<inter> ?U \<noteq> {}"
      if "i \<in> ?U" "dget g i = Some n" for i n
    proof -
      from map_of_SomeD [OF that(2)] have mem: "(i, n) \<in> set g" .
      have "set (tn_depends_on n) \<subseteq> set (dkeys g)" using "1.prems"(4) mem by blast
      with resolve_pass_stuck [OF True mem] that(1) show ?thesis by blast
    qed
    ultimately have "blocked g ?U" unfolding blocked_def by blast
    then show ?thesis ..
  qed
qed

text \<open>The dependency relation: \<open>(d, i)\<close> when \<open>i\<close> depends on \<open>d\<close>.\<close>

definition dep_rel :: "task_graph \<Rightarrow> (string \<times> string) set" where
  "dep_rel g = {(d, i). \<exists>n. dget g i = Some n \<and> d \<in> set (tn_depends_on n)}"

lemma dep_rel_finite: "finite (dep_rel g)"
proof (rule finite_subset)
  show "dep_rel g \<subseteq> (\<Union>(i, n)\<in>set g. set (tn_depends_on n) \<times> {i})"
    by (auto simp: dep_rel_def dest!: map_of_SomeD)
qed auto

lemma blocked_cyclic: "blocked g U \<Longrightarrow> \<not> acyclic (dep_rel g)"
proof
  assume b: "blocked g U" and "acyclic (dep_rel g)"
  then have "wf (dep_rel g)" using finite_acyclic_wf dep_rel_finite by blast
  moreover obtain x where "x \<in> U" using b by (auto simp: blocked_def)
  ultimately obtain z where z: "z \<in> U" "\<forall>y. (y, z) \<in> dep_rel g \<longrightarrow> y \<notin> U"
    by (auto elim: wfE_min)
  have "z \<in> set (dkeys g)" using b z(1) unfolding blocked_def by blast
  then obtain n where n: "dget g z = Some n"
    using dget_None_keys [of g z] by (cases "dget g z") simp_all
  with b z(1) obtain d where "d \<in> set (tn_depends_on n)" "d \<in> U" unfolding blocked_def by blast
  with n z(2) show False by (auto simp: dep_rel_def)
qed

lemma ordered_acyclic:
  assumes "ordered g r" and "set (dkeys g) \<subseteq> set r"
  shows "acyclic (dep_rel g)"
proof -
  define idx where "idx x = length (takeWhile (\<lambda>y. y \<noteq> x) r)" for x
  have idx: "idx (r ! k) = k" if "k < length r" for k
  proof -
    have "takeWhile (\<lambda>y. y \<noteq> r ! k) r = take k r"
      using that assms(1) by (intro takeWhile_eq_take_P_nth) (auto simp: ordered_def nth_eq_iff_index_eq)
    then show ?thesis using that by (simp add: idx_def)
  qed
  have "dep_rel g \<subseteq> measure idx"
  proof
    fix e assume "e \<in> dep_rel g"
    then obtain d i n where e: "e = (d, i)" "dget g i = Some n" "d \<in> set (tn_depends_on n)"
      by (auto simp: dep_rel_def)
    from map_of_SomeD [OF e(2)] assms(2) have "i \<in> set r" by force
    then obtain k where k: "k < length r" "r ! k = i" by (auto simp: in_set_conv_nth)
    with assms(1) e have "d \<in> set (take k r)" unfolding ordered_def by force
    then obtain j where "j < k" "r ! j = d" using k(1) by (auto simp: in_set_conv_nth)
    with idx [of j] idx [of k] k show "e \<in> measure idx" by (simp add: e(1))
  qed
  then show ?thesis using wf_subset wf_measure wf_acyclic by blast
qed

lemma validate_dag_ordered:
  assumes "validate_dag g = Inr r" and "wf_dict g"
  shows "ordered g r" and "set r = set (dkeys g)" and "length r = length g"
proof -
  have R: "ordered g r \<and> length g \<le> length r"
    using assms resolve_all_Inr [of g "[]" r] by (simp add: validate_dag_def split: if_splits)
  then have o: "ordered g r" and len: "length g \<le> length r" by auto
  show "ordered g r" by (rule o)
  have sub: "set r \<subseteq> set (dkeys g)"
  proof
    fix i assume "i \<in> set r"
    then obtain n where "dget g i = Some n" using o unfolding ordered_def in_set_conv_nth by blast
    then show "i \<in> set (dkeys g)" using dget_None_keys [of g i] by auto
  qed
  have d: "distinct r" using o by (simp add: ordered_def)
  have c: "card (set (dkeys g)) = length g"
    using distinct_card [of "dkeys g"] assms(2) by (simp add: wf_dict_def)
  have "card (set r) = length r" by (rule distinct_card [OF d])
  then have "card (set (dkeys g)) \<le> card (set r)" using c len by simp
  then show eq: "set r = set (dkeys g)" using sub by (meson List.finite_set card_seteq)
  show "length r = length g" using eq c \<open>card (set r) = length r\<close> by simp
qed

definition const_node :: "json \<Rightarrow> string list \<Rightarrow> task_node" where
  "const_node v deps = \<lparr>tn_handler = (\<lambda>p. Inr v), tn_depends_on = deps, tn_context_key = ''context''\<rparr>"

text \<open>C13. The constructor's cycle check is exact. For a graph with distinct node ids it succeeds if and only
  if every dependency names a node and the dependency relation has no cycle; and then the order in which
  it resolved the nodes contains every node once, each after all its dependencies. It always
  terminates.\<close>

theorem validate_dag_exact:
  assumes "wf_dict g"
  shows "(is_ok (validate_dag g)
      \<longleftrightarrow> (\<forall>(i, n)\<in>set g. set (tn_depends_on n) \<subseteq> set (dkeys g)) \<and> acyclic (dep_rel g))
    \<and> (case validate_dag g of
         Inl e \<Rightarrow> e = ValueError
       | Inr r \<Rightarrow> ordered g r \<and> set r = set (dkeys g))"
proof -
  have known: "list_all (\<lambda>(i, n). list_all (\<lambda>dep. dget g dep \<noteq> None) (tn_depends_on n)) g \<longleftrightarrow>
      (\<forall>(i, n)\<in>set g. set (tn_depends_on n) \<subseteq> set (dkeys g))"
    by (auto simp: list_all_iff dget_None_keys subset_iff split_beta simp del: set_map)
  have err: "resolve_all g r = Inl e \<Longrightarrow> e = ValueError" for r e
    by (induction g r rule: resolve_all.induct)
      (subst (asm) (2) resolve_all.simps, auto simp: Let_def split: if_splits)
  show ?thesis
  proof (cases "validate_dag g")
    case (Inl e)
    then show ?thesis
      using err resolve_all_Inl [of g "[]" e] blocked_cyclic known assms
      by (auto simp: validate_dag_def split: if_splits)
  next
    case (Inr r)
    note V = validate_dag_ordered [OF Inr assms]
    have "acyclic (dep_rel g)" using V by (intro ordered_acyclic [of g r]) auto
    then show ?thesis using Inr V known by (auto simp: validate_dag_def split: if_splits)
  qed
qed

theorem validate_dag_exact_witness:
  "is_ok (validate_dag [(''a'', const_node (JInt 1) []), (''b'', const_node (JInt 2) [''a''])])
   \<longleftrightarrow> acyclic (dep_rel [(''a'', const_node (JInt 1) []), (''b'', const_node (JInt 2) [''a''])])"
proof -
  let ?g = "[(''a'', const_node (JInt 1) []), (''b'', const_node (JInt 2) [''a''])]"
  have "wf_dict ?g" by (simp add: wf_dict_def)
  from validate_dag_exact [OF this] show ?thesis by (auto simp: const_node_def)
qed

section \<open>What the pool keeps\<close>

definition deps_done :: "(string, task_result) dict \<Rightarrow> task_node \<Rightarrow> real \<Rightarrow> bool" where
  "deps_done rs n t =
     (\<forall>dep\<in>set (tn_depends_on n). \<exists>r. dget rs dep = Some r \<and> tr_finished r \<le> t)"

definition result_ok ::
    "task_graph \<Rightarrow> (string, json) dict \<Rightarrow> real \<Rightarrow> pool_state \<Rightarrow> string \<Rightarrow> task_result \<Rightarrow> bool" where
  "result_ok g base t0 s i r =
     (\<exists>n. dget g i = Some n \<and> tr_inputs_from r = tn_depends_on n
        \<and> (tr_output r, tr_error r) = exec_node base (output_of (po_results s)) n
        \<and> deps_done (po_results s) n (tr_started r)
        \<and> t0 \<le> tr_started r \<and> tr_started r \<le> tr_finished r \<and> tr_finished r \<le> po_now s)"

definition active_ok :: "task_graph \<Rightarrow> real \<Rightarrow> pool_state \<Rightarrow> string \<Rightarrow> real \<Rightarrow> bool" where
  "active_ok g t0 s i t =
     (\<exists>n. dget g i = Some n \<and> deps_done (po_results s) n t \<and> t0 \<le> t \<and> t \<le> po_now s)"

text \<open>Each node is in exactly one place, and the nodes taken are the first ones in order.\<close>

definition placed_once :: "task_graph \<Rightarrow> pool_state \<Rightarrow> bool" where
  "placed_once g s =
     (distinct (po_queue s @ po_waiting s @ dkeys (po_active s) @ dkeys (po_results s)) \<and>
      (\<exists>pre. dkeys g = pre @ po_queue s \<and>
         set pre = set (po_waiting s) \<union> set (dkeys (po_active s)) \<union> set (dkeys (po_results s))))"

definition pool_inv ::
    "task_graph \<Rightarrow> nat \<Rightarrow> (string, json) dict \<Rightarrow> real \<Rightarrow> pool_state \<Rightarrow> bool" where
  "pool_inv g k base t0 s =
     (placed_once g s \<and> length (po_waiting s) + length (po_active s) \<le> k \<and> t0 \<le> po_now s \<and>
      (\<forall>i r. dget (po_results s) i = Some r \<longrightarrow> result_ok g base t0 s i r) \<and>
      (\<forall>i t. dget (po_active s) i = Some t \<longrightarrow> active_ok g t0 s i t))"

lemma pool_invD:
  assumes "pool_inv g k base t0 s"
  shows "placed_once g s" and "length (po_waiting s) + length (po_active s) \<le> k" and "t0 \<le> po_now s"
    and "dget (po_results s) i = Some r \<Longrightarrow> result_ok g base t0 s i r"
    and "dget (po_active s) i = Some t \<Longrightarrow> active_ok g t0 s i t"
  using assms unfolding pool_inv_def by blast+

lemma exec_node_cong:
  assumes "\<forall>dep\<in>set (tn_depends_on n). out dep = out' dep"
  shows "exec_node base out n = exec_node base out' n"
proof -
  have "fold (\<lambda>dep. dput dep (out dep)) ds acc = fold (\<lambda>dep. dput dep (out' dep)) ds acc"
    if "\<forall>dep\<in>set ds. out dep = out' dep" for ds acc
    using that by (induction ds arbitrary: acc) auto
  then have "node_inputs out n = node_inputs out' n" using assms by (simp add: node_inputs_def)
  then have "node_payload base out n = node_payload base out' n"
    using assms by (auto simp: node_payload_def split: list.split)
  then show ?thesis by (simp add: exec_node_def)
qed

text \<open>The three events.\<close>

lemma pool_exec_Some:
  assumes "pool_exec g k base s ev = Some s'"
  obtains (take) t i q where "ev = Take t" and "po_queue s = i # q"
      and "length (po_waiting s) + length (po_active s) < k" and "po_now s \<le> t"
      and "s' = s\<lparr>po_queue := q, po_waiting := po_waiting s @ [i], po_now := t\<rparr>"
  | (starts) i t n where "ev = Begin i t" and "dget g i = Some n" and "i \<in> set (po_waiting s)"
      and "po_now s \<le> t" and "\<forall>dep\<in>set (tn_depends_on n). dget (po_results s) dep \<noteq> None"
      and "s' = s\<lparr>po_waiting := removeAll i (po_waiting s), po_active := dput i t (po_active s),
                  po_now := t\<rparr>"
  | (finish) i t n t1 out err where "ev = End i t" and "dget g i = Some n"
      and "dget (po_active s) i = Some t1" and "po_now s \<le> t"
      and "(out, err) = exec_node base (output_of (po_results s)) n"
      and "s' = s\<lparr>po_active := dpop i (po_active s),
                  po_results := dput i \<lparr>tr_output = out, tr_error = err, tr_started = t1,
                    tr_finished = t, tr_inputs_from = tn_depends_on n\<rparr> (po_results s),
                  po_now := t\<rparr>"
proof (cases ev)
  case (Take t)
  with assms that(1) show thesis
    by (auto simp: pool_exec_def split: list.splits if_splits)
next
  case (Begin i t)
  with assms that(2) show thesis
    by (auto simp: pool_exec_def list_all_iff split: option.splits if_splits)
next
  case (End i t)
  with assms that(3) show thesis
    by (auto simp: pool_exec_def Let_def split: option.splits if_splits prod.splits)
qed

lemma wf_parts:
  "placed_once g s \<Longrightarrow> wf_dict (po_active s)" "placed_once g s \<Longrightarrow> wf_dict (po_results s)"
  by (simp_all add: placed_once_def wf_dict_def)

lemma pool_exec_placed:
  assumes "placed_once g s" and "pool_exec g k base s ev = Some s'"
  shows "placed_once g s'"
proof -
  from assms(1) obtain pre where D: "distinct (po_queue s @ po_waiting s @ dkeys (po_active s) @ dkeys (po_results s))"
    and pre: "dkeys g = pre @ po_queue s"
    "set pre = set (po_waiting s) \<union> set (dkeys (po_active s)) \<union> set (dkeys (po_results s))"
    by (auto simp: placed_once_def simp del: set_map)
  from assms(2) show ?thesis
  proof (cases rule: pool_exec_Some)
    case (take t i q)
    with D pre show ?thesis
      unfolding placed_once_def by (intro conjI exI [of _ "pre @ [i]"]) (auto simp del: set_map)
  next
    case (starts i t n)
    then have "i \<notin> set (dkeys (po_active s))" using D by (auto simp del: set_map)
    with starts D pre show ?thesis
      unfolding placed_once_def
      by (intro conjI exI [of _ pre]) (auto simp: dkeys_dput_new distinct_removeAll simp del: set_map)
  next
    case (finish i t n t1 out err)
    have i: "i \<in> set (dkeys (po_active s))" using finish(3) by (rule mem_dkeys)
    then have "i \<notin> set (dkeys (po_results s))" using D by (auto simp del: set_map)
    with i finish D pre show ?thesis
      unfolding placed_once_def
      by (intro conjI exI [of _ pre]) (auto simp: dkeys_dput_new dkeys_dpop simp del: set_map)
  qed
qed

text \<open>Nothing recorded is disturbed by a later event.\<close>

lemma deps_done_mono: "deps_done rs n t \<Longrightarrow> t \<le> t' \<Longrightarrow> deps_done rs n t'"
  by (fastforce simp: deps_done_def)

lemma deps_done_put:
  "deps_done rs n t \<Longrightarrow> dget rs i = None \<Longrightarrow> deps_done (dput i r rs) n t"
  by (fastforce simp: deps_done_def update_conv')

lemma output_of_put:
  "deps_done rs n t \<Longrightarrow> dget rs i = None \<Longrightarrow> dep \<in> set (tn_depends_on n) \<Longrightarrow>
   output_of (dput i r rs) dep = output_of rs dep"
  by (auto simp: output_of_def update_conv' deps_done_def)

lemma result_ok_mono:
  assumes "result_ok g base t0 s i r" and "po_now s \<le> po_now s'"
    and "po_results s' = po_results s \<or> (\<exists>j q. dget (po_results s) j = None
          \<and> po_results s' = dput j q (po_results s))"
  shows "result_ok g base t0 s' i r"
proof -
  from assms(1) obtain n where n: "dget g i = Some n" "tr_inputs_from r = tn_depends_on n"
    "(tr_output r, tr_error r) = exec_node base (output_of (po_results s)) n"
    "deps_done (po_results s) n (tr_started r)"
    "t0 \<le> tr_started r" "tr_started r \<le> tr_finished r" "tr_finished r \<le> po_now s"
    unfolding result_ok_def by blast
  have "deps_done (po_results s') n (tr_started r)
    \<and> exec_node base (output_of (po_results s')) n = exec_node base (output_of (po_results s)) n"
    using assms(3) n(4) by (auto intro!: exec_node_cong deps_done_put output_of_put)
  with n assms(2) show ?thesis unfolding result_ok_def by force
qed

lemma active_ok_mono:
  assumes "active_ok g t0 s i t" and "po_now s \<le> po_now s'"
    and "po_results s' = po_results s \<or> (\<exists>j q. dget (po_results s) j = None
          \<and> po_results s' = dput j q (po_results s))"
  shows "active_ok g t0 s' i t"
  using assms unfolding active_ok_def by (metis deps_done_put order_trans)

lemma pool_exec_inv:
  assumes inv: "pool_inv g k base t0 s" and ex: "pool_exec g k base s ev = Some s'"
  shows "pool_inv g k base t0 s'"
proof -
  note I = pool_invD [OF inv]
  have placed: "placed_once g s'" by (rule pool_exec_placed [OF I(1) ex])
  from ex show ?thesis
  proof (cases rule: pool_exec_Some)
    case (take t i q)
    then have eq: "po_results s' = po_results s" "po_active s' = po_active s" "po_now s \<le> po_now s'"
      by simp_all
    have "result_ok g base t0 s' j r" if "dget (po_results s') j = Some r" for j r
      by (rule result_ok_mono [OF I(4) eq(3)]) (use that eq in simp_all)
    moreover have "active_ok g t0 s' j u" if "dget (po_active s') j = Some u" for j u
      by (rule active_ok_mono [OF I(5) eq(3)]) (use that eq in simp_all)
    ultimately show ?thesis using placed take I(3) unfolding pool_inv_def by simp
  next
    case (starts i t n)
    then have eq: "po_results s' = po_results s" "po_now s \<le> po_now s'" by simp_all
    have res: "result_ok g base t0 s' j r" if "dget (po_results s') j = Some r" for j r
      by (rule result_ok_mono [OF I(4) eq(2)]) (use that eq in simp_all)
    have "tr_finished r \<le> t" if "dget (po_results s) j = Some r" for j r
      using I(4) [OF that] starts(4) by (auto simp: result_ok_def)
    then have "deps_done (po_results s) n t" using starts(5) by (fastforce simp: deps_done_def)
    then have "active_ok g t0 s' i t" using starts I(3) by (auto simp: active_ok_def)
    have act: "active_ok g t0 s' j u" if "dget (po_active s') j = Some u" for j u
    proof (cases "j = i")
      case True
      with that starts(6) \<open>active_ok g t0 s' i t\<close> show ?thesis by (simp add: update_conv')
    next
      case False
      with that starts(6) have "dget (po_active s) j = Some u" by (simp add: update_conv')
      from active_ok_mono [OF I(5) [OF this] eq(2)] eq(1) show ?thesis by simp
    qed
    have D: "distinct (po_waiting s)" "i \<notin> set (dkeys (po_active s))"
      using I(1) starts(3) by (auto simp: placed_once_def simp del: set_map)
    have "length (dkeys (po_active s')) = Suc (length (dkeys (po_active s)))"
      using starts(6) dkeys_dput_new [OF D(2), of t] by simp
    moreover have "length (po_waiting s') < length (po_waiting s)"
      using starts by (simp add: length_removeAll_less)
    ultimately have "length (po_waiting s') + length (po_active s') \<le> k" using I(2) by simp
    with placed res act starts I(3) show ?thesis unfolding pool_inv_def by auto
  next
    case (finish i t n t1 out err)
    have new: "dget (po_results s) i = None"
      using I(1) mem_dkeys [OF finish(3)]
      by (intro not_dkeys) (auto simp: placed_once_def simp del: set_map)
    have eq: "po_results s' = po_results s \<or> (\<exists>j q. dget (po_results s) j = None
        \<and> po_results s' = dput j q (po_results s))" "po_now s \<le> po_now s'"
      using new finish(4,6) by auto
    have a: "active_ok g t0 s i t1" using I(5) [OF finish(3)] .
    then have dd: "deps_done (po_results s) n t1" "t0 \<le> t1" "t1 \<le> t"
      using finish(2,4) by (auto simp: active_ok_def)
    have same: "exec_node base (output_of (po_results s')) n = exec_node base (output_of (po_results s)) n"
      using finish(6) dd(1) new by (auto intro!: exec_node_cong output_of_put)
    have "result_ok g base t0 s' j r" if "dget (po_results s') j = Some r" for j r
    proof (cases "j = i")
      case True
      with that finish same dd new show ?thesis
        by (auto simp: result_ok_def update_conv' intro!: deps_done_put)
    next
      case False
      with that finish(6) have "dget (po_results s) j = Some r" by (simp add: update_conv')
      from result_ok_mono [OF I(4) [OF this] eq(2)] eq(1) show ?thesis by blast
    qed
    moreover have "active_ok g t0 s' j u" if "dget (po_active s') j = Some u" for j u
    proof -
      have "dget (po_active s) j = Some u"
        using that finish(6) by (simp add: delete_conv' split: if_splits)
      from active_ok_mono [OF I(5) [OF this] eq(2)] eq(1) show ?thesis by blast
    qed
    moreover have "length (po_active s') \<le> length (po_active s)"
      using finish(6) by (simp add: length_delete_le)
    ultimately show ?thesis using placed finish I(2,3) unfolding pool_inv_def by auto
  qed
qed

lemma pool_reach_inv:
  assumes "pool_reach g k base t0 s" and "wf_dict g"
  shows "pool_inv g k base t0 s"
  using assms(1)
proof induction
  case reach_init
  show ?case using assms(2) by (auto simp: pool_inv_def placed_once_def pool_init_def wf_dict_def)
next
  case (reach_step s ev s')
  show ?case by (rule pool_exec_inv [OF reach_step.IH reach_step.hyps(2)])
qed

lemma pool_run_reach:
  "pool_run g k base s evs = Some s' \<Longrightarrow> pool_reach g k base t0 s \<Longrightarrow> pool_reach g k base t0 s'"
proof (induction evs arbitrary: s)
  case (Cons ev evs)
  then show ?case by (auto intro: reach_step split: option.splits)
qed simp

section \<open>Correctness of a run\<close>

lemma ordered_nth:
  assumes "ordered g r" and "i \<in> set r"
  obtains k n where "k < length r" and "r ! k = i" and "dget g i = Some n"
    and "set (tn_depends_on n) \<subseteq> set (take k r)"
  using assms unfolding ordered_def in_set_conv_nth by blast

text \<open>For a node whose definition is known, the facts about its result.\<close>

lemma result_of_node:
  assumes "pool_inv g k base t0 s" and "dget (po_results s) i = Some r" and "dget g i = Some n"
  shows "(tr_output r, tr_error r) = exec_node base (output_of (po_results s)) n"
    and "dep \<in> set (tn_depends_on n) \<Longrightarrow>
      \<exists>q. dget (po_results s) dep = Some q \<and> tr_finished q \<le> tr_started r"
    and "t0 \<le> tr_started r" and "tr_started r \<le> tr_finished r" and "tr_finished r \<le> po_now s"
  using pool_invD(4) [OF assms(1,2)] assms(3) by (auto simp: result_ok_def deps_done_def)

lemma result_has_node:
  assumes "pool_inv g k base t0 s" and "dget (po_results s) i = Some r"
  obtains n where "dget g i = Some n"
  using pool_invD(4) [OF assms] by (auto simp: result_ok_def)

text \<open>Two runs of the same graph, whatever their schedules, agree wherever both have a result.\<close>

lemma results_agree:
  assumes ord: "ordered g r" and I1: "pool_inv g k1 base t1 s1" and I2: "pool_inv g k2 base t2 s2"
  shows "k < length r \<Longrightarrow> dget (po_results s1) (r ! k) = Some r1 \<Longrightarrow>
    dget (po_results s2) (r ! k) = Some r2 \<Longrightarrow>
    tr_output r1 = tr_output r2 \<and> tr_error r1 = tr_error r2"
proof (induction k arbitrary: r1 r2 rule: less_induct)
  case (less k)
  obtain n where n: "dget g (r ! k) = Some n" "set (tn_depends_on n) \<subseteq> set (take k r)"
    using ord less.prems(1) unfolding ordered_def by blast
  have "output_of (po_results s1) dep = output_of (po_results s2) dep"
    if dep: "dep \<in> set (tn_depends_on n)" for dep
  proof -
    have "dep \<in> set (take k r)" using n(2) dep by (rule subsetD)
    then obtain j where "j < length (take k r)" "take k r ! j = dep" unfolding in_set_conv_nth by blast
    then have j: "j < k" "j < length r" "dep = r ! j" by simp_all
    from result_of_node(2) [OF I1 less.prems(2) n(1) dep] result_of_node(2) [OF I2 less.prems(3) n(1) dep]
    obtain q1 q2 where q: "dget (po_results s1) dep = Some q1" "dget (po_results s2) dep = Some q2"
      by blast
    have "tr_output q1 = tr_output q2"
      using less.IH [OF j(1,2) q [unfolded j(3)]] by blast
    with q show ?thesis by (simp add: output_of_def)
  qed
  then have "exec_node base (output_of (po_results s1)) n = exec_node base (output_of (po_results s2)) n"
    by (intro exec_node_cong) blast
  with result_of_node(1) [OF I1 less.prems(2) n(1)] result_of_node(1) [OF I2 less.prems(3) n(1)]
  show ?case by (metis Pair_inject)
qed

lemma done_has_all:
  assumes "placed_once g s" and "pool_done s"
  shows "set (dkeys (po_results s)) = set (dkeys g)"
  using assms by (auto simp: placed_once_def pool_done_def simp del: set_map)

lemma new_graph_Inr:
  assumes "new_graph ns = Inr g"
  shows "wf_dict g" and "set (dkeys g) = set (map fst ns)" and "\<exists>r. validate_dag g = Inr r"
proof -
  have f: "wf_dict acc \<Longrightarrow> wf_dict (fold (\<lambda>(i, n). dput i n) xs acc) \<and>
      set (dkeys (fold (\<lambda>(i, n). dput i n) xs acc)) = set (dkeys acc) \<union> set (map fst xs)"
    for xs :: "(string \<times> task_node) list" and acc
    by (induction xs arbitrary: acc) (auto simp del: set_map)
  from assms(1) have g: "g = fold (\<lambda>(i, n). dput i n) ns []"
    by (auto simp: new_graph_def Let_def split: if_splits sum.splits)
  show "wf_dict g" "set (dkeys g) = set (map fst ns)" using f [of "[]" ns] by (simp_all add: g)
  show "\<exists>r. validate_dag g = Inr r"
    using assms(1) by (auto simp: new_graph_def Let_def split: if_splits sum.splits)
qed

text \<open>C14. The result of a run does not depend on the schedule. For a graph the constructor accepted, take any
  two runs, with any pool sizes and any interleaving of workers: a node that has a result in both has
  the same output and the same error in both. When a run is done, every node has exactly one result,
  and each node's handler received the outputs of all its dependencies, which had finished before it
  started.\<close>

theorem run_schedule_independent:
  assumes "new_graph ns = Inr g"
    and "pool_reach g k1 base t1 s1" and "pool_reach g k2 base t2 s2"
  shows "(\<forall>i r1 r2. dget (po_results s1) i = Some r1 \<longrightarrow> dget (po_results s2) i = Some r2 \<longrightarrow>
        tr_output r1 = tr_output r2 \<and> tr_error r1 = tr_error r2)
    \<and> (pool_done s1 \<longrightarrow> set (dkeys (po_results s1)) = set (map fst ns) \<and> wf_dict (po_results s1))
    \<and> (\<forall>i r. dget (po_results s1) i = Some r \<longrightarrow>
        (\<exists>n. dget g i = Some n \<and> (tr_output r, tr_error r) = exec_node base (output_of (po_results s1)) n
           \<and> (\<forall>dep\<in>set (tn_depends_on n). \<exists>q. dget (po_results s1) dep = Some q
                \<and> tr_finished q \<le> tr_started r)))"
proof -
  note wf = new_graph_Inr(1) [OF assms(1)] and keys = new_graph_Inr(2) [OF assms(1)]
    and val = new_graph_Inr(3) [OF assms(1)]
  from val obtain r where r: "validate_dag g = Inr r" ..
  note V = validate_dag_ordered [OF r wf]
  note I1 = pool_reach_inv [OF assms(2) wf] and I2 = pool_reach_inv [OF assms(3) wf]
  have agree: "tr_output r1 = tr_output r2 \<and> tr_error r1 = tr_error r2"
    if d: "dget (po_results s1) i = Some r1" "dget (po_results s2) i = Some r2" for i r1 r2
  proof -
    obtain n where "dget g i = Some n" by (rule result_has_node [OF I1 d(1)])
    from mem_dkeys [OF this] have "i \<in> set r" by (simp only: V(2))
    then obtain j where "j < length r" "r ! j = i" by (auto simp: in_set_conv_nth)
    with results_agree [OF V(1) I1 I2, of j] d show ?thesis by blast
  qed
  have placed: "placed_once g s1" by (rule pool_invD(1) [OF I1])
  have all: "set (dkeys (po_results s1)) = set (map fst ns)" if "pool_done s1"
    using done_has_all [OF placed that] keys by (simp only:)
  have local: "\<exists>n. dget g i = Some n
       \<and> (tr_output r, tr_error r) = exec_node base (output_of (po_results s1)) n
       \<and> (\<forall>dep\<in>set (tn_depends_on n). \<exists>q. dget (po_results s1) dep = Some q
            \<and> tr_finished q \<le> tr_started r)"
    if d: "dget (po_results s1) i = Some r" for i r
  proof -
    obtain n where n: "dget g i = Some n" by (rule result_has_node [OF I1 d])
    with result_of_node(1,2) [OF I1 d n] show ?thesis by blast
  qed
  show ?thesis using agree all wf_parts(2) [OF placed] local by blast
qed

text \<open>Work left: three events per queued node, two per waiting one, one per running one.\<close>

definition work_left :: "pool_state \<Rightarrow> nat" where
  "work_left s = 3 * length (po_queue s) + 2 * length (po_waiting s) + length (po_active s)"

lemma pool_exec_work:
  assumes "pool_inv g k base t0 s" and "pool_exec g k base s ev = Some s'"
  shows "work_left s = Suc (work_left s')"
proof -
  have D: "distinct (po_waiting s)" "\<And>i. i \<in> set (po_waiting s) \<Longrightarrow> i \<notin> set (dkeys (po_active s))"
    "distinct (dkeys (po_active s))"
    using pool_invD(1) [OF assms(1)] by (auto simp: placed_once_def simp del: set_map)
  from assms(2) show ?thesis
  proof (cases rule: pool_exec_Some)
    case (starts i t n)
    have "length (removeAll i (po_waiting s)) = length (po_waiting s) - 1" "0 < length (po_waiting s)"
      using D(1) starts(3) by (auto simp: distinct_remove1_removeAll [symmetric] length_remove1)
    then have "length (po_waiting s) = Suc (length (removeAll i (po_waiting s)))" by linarith
    moreover have "length (dput i t (po_active s)) = Suc (length (po_active s))"
      using dkeys_dput_new [OF D(2) [OF starts(3)], of t] by (metis length_append_singleton length_map)
    ultimately show ?thesis using starts(6) by (simp add: work_left_def)
  next
    case (finish i t n t1 out err)
    have "filter (\<lambda>j. j \<noteq> i) (dkeys (po_active s)) = remove1 i (dkeys (po_active s))"
      using D(3) by (simp add: distinct_remove1_removeAll removeAll_filter_not_eq eq_commute)
    then have "length (dpop i (po_active s)) = length (po_active s) - 1" "0 < length (po_active s)"
      using mem_dkeys [OF finish(3)] dkeys_dpop [of i "po_active s"]
      by (metis length_map length_remove1, auto)
    then show ?thesis using finish(6) by (simp add: work_left_def)
  qed (simp add: work_left_def)
qed

text \<open>A pool that is not done can move, if the nodes were listed after their dependencies or the pool
  has a worker for every node.\<close>

lemma pool_moves:
  assumes inv: "pool_inv g k base t0 s" and wf: "wf_dict g" and r: "validate_dag g = Inr r"
    and k: "0 < k" and cap: "ordered g (dkeys g) \<or> length g \<le> k" and busy: "\<not> pool_done s"
  shows "\<exists>ev s'. pool_exec g k base s ev = Some s'"
proof (cases "po_active s")
  case (Cons a as)
  then have "dget (po_active s) (fst a) = Some (snd a)" by (cases a) simp
  then obtain i t1 where a: "dget (po_active s) i = Some t1" by blast
  from pool_invD(5) [OF inv a] obtain n where "dget g i = Some n" by (auto simp: active_ok_def)
  then have "pool_exec g k base s (End i (po_now s)) \<noteq> None"
    using a by (simp add: pool_exec_def Let_def split: prod.split)
  then show ?thesis by blast
next
  case Nil
  have P: "placed_once g s" by (rule pool_invD(1) [OF inv])
  have pick: "\<exists>ev s'. pool_exec g k base s ev = Some s'"
    if i: "i \<in> set (po_waiting s)" "dget g i = Some n"
      "set (tn_depends_on n) \<subseteq> set (dkeys (po_results s))" for i n
  proof -
    have "list_all (\<lambda>dep. dget (po_results s) dep \<noteq> None) (tn_depends_on n)"
      using i(3) by (auto simp only: list_all_iff dget_None_keys)
    then have "pool_exec g k base s (Begin i (po_now s)) \<noteq> None"
      using i by (simp add: pool_exec_def)
    then show ?thesis by blast
  qed
  have first: "\<exists>ev s'. pool_exec g k base s ev = Some s'"
    if p1: "po_waiting s \<noteq> []" and p2: "ordered g xs" and p3: "set xs = set (dkeys g)"
      and p4: "\<And>i m. i \<in> set (po_waiting s) \<Longrightarrow> m < length xs \<Longrightarrow> xs ! m = i \<Longrightarrow>
         set (take m xs) \<subseteq> set (po_waiting s) \<union> set (dkeys (po_results s))" for xs
  proof -
    let ?M = "{m. m < length xs \<and> xs ! m \<in> set (po_waiting s)}"
    have "set (po_waiting s) \<subseteq> set xs"
      using P p3 by (auto simp: placed_once_def simp del: set_map)
    moreover from p1 have "hd (po_waiting s) \<in> set (po_waiting s)" by simp
    ultimately obtain m where "m < length xs" "xs ! m = hd (po_waiting s)"
      by (metis in_set_conv_nth subsetD)
    with \<open>hd (po_waiting s) \<in> set (po_waiting s)\<close> have "m \<in> ?M" by simp
    then have "?M \<noteq> {}" by blast
    have fin: "finite ?M" by simp
    have m: "Min ?M \<in> ?M" by (rule Min_in [OF fin \<open>?M \<noteq> {}\<close>])
    have least: "Min ?M \<le> j" if "j \<in> ?M" for j by (rule Min_le [OF fin that])
    let ?m = "Min ?M"
    obtain n where n: "dget g (xs ! ?m) = Some n" "set (tn_depends_on n) \<subseteq> set (take ?m xs)"
      using p2 m unfolding ordered_def by blast
    have "set (take ?m xs) \<inter> set (po_waiting s) = {}"
    proof (rule ccontr)
      assume "set (take ?m xs) \<inter> set (po_waiting s) \<noteq> {}"
      then obtain y where "y \<in> set (take ?m xs)" and y: "y \<in> set (po_waiting s)" by blast
      then obtain j where j: "j < ?m" "j < length xs" "y = xs ! j"
        unfolding in_set_conv_nth by auto
      with y have "j \<in> ?M" by simp
      then have "?m \<le> j" by (rule least)
      with j(1) show False by simp
    qed
    with p4 [of "xs ! ?m" ?m] m n(2) have "set (tn_depends_on n) \<subseteq> set (dkeys (po_results s))"
      by blast
    with pick m n(1) show ?thesis by blast
  qed
  show ?thesis
  proof (cases "po_queue s")
    case queue: Nil
    with busy Nil have w: "po_waiting s \<noteq> []" by (simp add: pool_done_def)
    note V = validate_dag_ordered [OF r wf]
    have "set (dkeys g) = set (po_waiting s) \<union> set (dkeys (po_results s))"
      using P queue Nil by (auto simp: placed_once_def simp del: set_map)
    then have "set (take m r) \<subseteq> set (po_waiting s) \<union> set (dkeys (po_results s))" for m
      using set_take_subset [of m r] V(2) by blast
    with first [OF w V(1,2)] show ?thesis by blast
  next
    case queue: (Cons i q)
    show ?thesis
    proof (cases "length (po_waiting s) < k")
      case True
      then have "pool_exec g k base s (Take (po_now s)) \<noteq> None"
        using queue Nil by (simp add: pool_exec_def)
      then show ?thesis by blast
    next
      case False
      then have w: "po_waiting s \<noteq> []" using k by auto
      obtain pre where pre: "dkeys g = pre @ po_queue s"
        "set pre = set (po_waiting s) \<union> set (dkeys (po_results s))"
        and dw: "distinct (po_waiting s)" "set (po_waiting s) \<inter> set (po_queue s) = {}"
        using P Nil by (auto simp: placed_once_def simp del: set_map)
      have "card (set (po_waiting s)) \<le> length pre"
        using pre(2) card_mono [of "set pre" "set (po_waiting s)"] card_length [of pre] by auto
      then have "length (po_waiting s) \<le> length pre" using distinct_card [OF dw(1)] by simp
      moreover have "length g = length pre + length (po_queue s)"
        using pre(1) by (metis length_append length_map)
      ultimately have "\<not> length g \<le> k" using False queue by simp
      then have ord: "ordered g (dkeys g)" using cap by blast
      have "set (take m (dkeys g)) \<subseteq> set (po_waiting s) \<union> set (dkeys (po_results s))"
        if "i \<in> set (po_waiting s)" "m < length (dkeys g)" "dkeys g ! m = i" for i m
      proof -
        have "m < length pre"
        proof (rule ccontr)
          assume "\<not> m < length pre"
          with that(2,3) have "i \<in> set (po_queue s)"
            by (metis pre(1) leI nth_append nth_mem length_append nat_add_left_cancel_less
                le_add_diff_inverse)
          with that(1) dw(2) show False by blast
        qed
        then have "take m (dkeys g) = take m pre" by (simp add: pre(1))
        with pre(2) show ?thesis using set_take_subset [of m pre] by simp
      qed
      with first [OF w ord] show ?thesis by blast
    qed
  qed
qed

definition sample_graph :: task_graph where
  "sample_graph = [(''a'', const_node (JInt 1) []), (''b'', const_node (JInt 2) [''a''])]"

definition sample_events :: "pool_event list" where
  "sample_events = [Take 0, Take 0, Begin ''a'' 1, End ''a'' 2, Begin ''b'' 2, End ''b'' 5]"

lemma sample_new_graph: "new_graph sample_graph = Inr sample_graph"
proof -
  have f: "fold (\<lambda>(i, n). dput i n) sample_graph [] = sample_graph"
    by (simp add: sample_graph_def)
  have "is_ok (validate_dag sample_graph)"
    by (simp add: validate_dag_def sample_graph_def const_node_def resolve_all.simps)
  then show ?thesis unfolding new_graph_def Let_def f by (auto elim: is_okE)
qed

lemma sample_run:
  "\<exists>s. pool_run sample_graph 2 [] (pool_init sample_graph 0) sample_events = Some s
     \<and> pool_done s \<and> po_now s = 5
     \<and> dget (po_results s) ''b'' = Some \<lparr>tr_output = JInt 2, tr_error = None, tr_started = 2,
          tr_finished = 5, tr_inputs_from = [''a'']\<rparr>"
  by (simp add: sample_graph_def sample_events_def pool_init_def pool_exec_def const_node_def
      exec_node_def pool_done_def)

theorem run_schedule_independent_witness:
  "\<exists>s. pool_reach sample_graph 2 [] 0 s \<and> set (dkeys (po_results s)) = {''a'', ''b''}"
proof -
  from sample_run obtain s where s: "pool_run sample_graph 2 [] (pool_init sample_graph 0) sample_events = Some s"
    "pool_done s" by blast
  have R: "pool_reach sample_graph 2 [] 0 s" by (rule pool_run_reach [OF s(1) reach_init])
  from run_schedule_independent [OF sample_new_graph R R] s(2)
  have "set (dkeys (po_results s)) = set (map fst sample_graph)" by blast
  with R show ?thesis by (auto simp: sample_graph_def)
qed

text \<open>C15. Every run ends. If every node was listed after its dependencies, or the pool has at least as many
  workers as there are nodes, then in every reachable state either all nodes are done or some worker
  can move, and every move lowers the remaining work, at most three moves per node; so whatever the
  schedule, the run is done after exactly as many moves.\<close>

theorem run_terminates:
  assumes "new_graph ns = Inr g" and "0 < k" and "ordered g (dkeys g) \<or> length g \<le> k"
    and "pool_reach g k base t0 s"
  shows "(pool_done s \<or> (\<exists>ev s'. pool_exec g k base s ev = Some s'))
    \<and> (\<forall>ev s'. pool_exec g k base s ev = Some s' \<longrightarrow> work_left s = Suc (work_left s'))
    \<and> work_left (pool_init g t0) = 3 * length g
    \<and> (work_left s = 0 \<longleftrightarrow> pool_done s)"
proof -
  note wf = new_graph_Inr(1) [OF assms(1)]
  note inv = pool_reach_inv [OF assms(4) wf]
  obtain r where "validate_dag g = Inr r" using new_graph_Inr(3) [OF assms(1)] by blast
  from pool_moves [OF inv wf this assms(2,3)] pool_exec_work [OF inv] show ?thesis
    by (auto simp: work_left_def pool_init_def pool_done_def)
qed

theorem run_terminates_witness:
  "work_left (pool_init sample_graph 0) = 6
   \<and> (\<exists>ev s'. pool_exec sample_graph 2 [] (pool_init sample_graph 0) ev = Some s')"
proof -
  have len: "length sample_graph = 2" by (simp add: sample_graph_def)
  then have "0 < (2::nat)" "ordered sample_graph (dkeys sample_graph) \<or> length sample_graph \<le> 2"
    by simp_all
  from run_terminates [OF sample_new_graph this reach_init] len
  show ?thesis by (auto simp: pool_done_def pool_init_def sample_graph_def)
qed

lemma take_all_first:
  "length w + length q \<le> k \<Longrightarrow>
   pool_run g k base \<lparr>po_queue = q @ q', po_waiting = w, po_active = [], po_results = [], po_now = t\<rparr>
     (replicate (length q) (Take t)) =
   Some \<lparr>po_queue = q', po_waiting = w @ q, po_active = [], po_results = [], po_now = t\<rparr>"
  by (induction q arbitrary: w) (auto simp: pool_exec_def)

text \<open>A run can hang. If each of the first \<open>k\<close> nodes of the graph, in the order they were given, depends
  on some node, then a pool of \<open>k\<close> workers reaches a state in which nothing has run, the run is not done
  and no event is possible, although the constructor accepted the graph: all workers wait for nodes
  that are still queued.\<close>

theorem pool_deadlock:
  assumes "new_graph ns = Inr g" and "0 < k" and "k \<le> length g"
    and "\<forall>i\<in>set (take k (dkeys g)). \<forall>n. dget g i = Some n \<longrightarrow> tn_depends_on n \<noteq> []"
  shows "\<exists>s. pool_reach g k base t0 s \<and> po_results s = [] \<and> \<not> pool_done s
    \<and> (\<forall>ev. pool_exec g k base s ev = None)"
proof -
  let ?q = "take k (dkeys g)" and ?s = "\<lparr>po_queue = drop k (dkeys g), po_waiting = take k (dkeys g),
    po_active = [], po_results = [], po_now = t0\<rparr>"
  have len: "length ?q = k" using assms(3) by simp
  have "pool_run g k base (pool_init g t0) (replicate (length ?q) (Take t0)) = Some ?s"
    using take_all_first [of "[]" ?q k g base "drop k (dkeys g)" t0] len by (simp add: pool_init_def)
  then have "pool_reach g k base t0 ?s" by (rule pool_run_reach) (rule reach_init)
  moreover have "\<not> pool_done ?s" using assms(2) len by (auto simp: pool_done_def)
  moreover have "pool_exec g k base ?s ev = None" for ev
  proof (cases ev)
    case (Begin i t)
    have "\<not> list_all (\<lambda>dep. False) (tn_depends_on n)" if "dget g i = Some n" "i \<in> set ?q" for n
      using assms(4) that by (cases "tn_depends_on n") auto
    then show ?thesis using Begin by (auto simp: pool_exec_def split: option.split)
  qed (use len in \<open>auto simp: pool_exec_def split: list.split option.split\<close>)
  ultimately show ?thesis by (intro exI [of _ ?s]) simp
qed

definition hanging_graph :: task_graph where
  "hanging_graph = [(''b'', const_node (JInt 2) [''a'']), (''a'', const_node (JInt 1) [])]"

lemma hanging_new_graph: "new_graph hanging_graph = Inr hanging_graph"
proof -
  have f: "fold (\<lambda>(i, n). dput i n) hanging_graph [] = hanging_graph"
    by (simp add: hanging_graph_def)
  have "is_ok (validate_dag hanging_graph)"
    by (simp add: validate_dag_def hanging_graph_def const_node_def resolve_all.simps)
  then show ?thesis unfolding new_graph_def Let_def f by (auto elim: is_okE)
qed

theorem pool_deadlock_witness:
  "\<exists>s. pool_reach hanging_graph 1 [] 0 s \<and> \<not> pool_done s
     \<and> (\<forall>ev. pool_exec hanging_graph 1 [] s ev = None)"
proof -
  have "1 \<le> length hanging_graph"
    "\<forall>i\<in>set (take 1 (dkeys hanging_graph)). \<forall>n. dget hanging_graph i = Some n \<longrightarrow> tn_depends_on n \<noteq> []"
    by (simp_all add: hanging_graph_def const_node_def)
  from pool_deadlock [OF hanging_new_graph _ this, of "[]" 0] show ?thesis by auto
qed

section \<open>The critical path\<close>

lemma path_end_bounds:
  assumes ord: "ordered g r" and inv: "pool_inv g k base t0 s"
    and all: "set r = set (dkeys (po_results s))"
  shows "m < length r \<Longrightarrow> m < f \<Longrightarrow> dget (po_results s) (r ! m) = Some q \<Longrightarrow>
    \<exists>e. path_end g (po_results s) f (r ! m) = Some e
      \<and> tr_finished q - tr_started q \<le> e \<and> e \<le> tr_finished q - t0"
proof (induction m arbitrary: f q rule: less_induct)
  case (less m)
  let ?rs = "po_results s"
  obtain f' where f: "f = Suc f'" using less.prems(2) by (cases f) auto
  obtain n where n: "dget g (r ! m) = Some n" "set (tn_depends_on n) \<subseteq> set (take m r)"
    using ord less.prems(1) unfolding ordered_def by blast
  have dep: "\<exists>e. path_end g ?rs f' d = Some e \<and> 0 \<le> e \<and> e \<le> tr_started q - t0"
    if d: "d \<in> set (tn_depends_on n)" for d
  proof -
    obtain j where j: "j < m" "r ! j = d" "j < length r"
      using subsetD [OF n(2) d] by (auto simp: in_set_conv_nth)
    obtain p where p: "dget ?rs d = Some p" "tr_finished p \<le> tr_started q"
      using result_of_node(2) [OF inv less.prems(3) n(1) d] by blast
    obtain n' where "dget g d = Some n'" by (rule result_has_node [OF inv p(1)])
    from result_of_node(4) [OF inv p(1) this] less.IH [OF j(1,3), of f' p] p j f less.prems(2)
    show ?thesis by force
  qed
  let ?E = "map (path_end g ?rs f') (tn_depends_on n)"
  have E: "None \<notin> set ?E" using dep by force
  define b where "b = (if ?E = [] then 0 else Max (the ` set ?E))"
  have step: "path_end g ?rs f (r ! m) = Some (b + (tr_finished q - tr_started q))"
    unfolding f b_def path_end.simps n(1) less.prems(3) Let_def
    using E by (simp only: option.case prod.case if_False)
  have "0 \<le> b \<and> b \<le> tr_started q - t0"
  proof (cases "?E = []")
    case True
    with result_of_node(3) [OF inv less.prems(3) n(1)] show ?thesis by (simp add: b_def)
  next
    case False
    then have "b \<in> the ` set ?E" unfolding b_def by (auto intro!: Max_in)
    with dep show ?thesis by force
  qed
  with step show ?case by auto
qed

text \<open>The critical path is a lower bound on the wall time of the observed run, and at least the longest
  single node. When a run is done, \<open>_critical_path_s\<close> raises no error on its results, the value is at
  most the time between the start of the run and its last event, and no node took longer.\<close>

theorem critical_path_lower_bound:
  assumes "new_graph ns = Inr g" and "pool_reach g k base t0 s" and "pool_done s"
  shows "\<exists>c. critical_path g (po_results s) = Some c \<and> c \<le> po_now s - t0
    \<and> (\<forall>i q. dget (po_results s) i = Some q \<longrightarrow> tr_finished q - tr_started q \<le> c)"
proof -
  let ?rs = "po_results s"
  note wf = new_graph_Inr(1) [OF assms(1)]
  note inv = pool_reach_inv [OF assms(2) wf]
  obtain r where r: "validate_dag g = Inr r" using new_graph_Inr(3) [OF assms(1)] by blast
  note V = validate_dag_ordered [OF r wf]
  have all: "set r = set (dkeys ?rs)"
    using done_has_all [OF pool_invD(1) [OF inv] assms(3)] V(2) by (simp only:)
  have node: "\<exists>e q. dget ?rs i = Some q \<and> path_end g ?rs (length g) i = Some e
      \<and> tr_finished q - tr_started q \<le> e \<and> e \<le> po_now s - t0"
    if i: "i \<in> set (dkeys g)" for i
  proof -
    obtain m where m: "m < length r" "r ! m = i"
      using i unfolding V(2) [symmetric] in_set_conv_nth by blast
    obtain q where q: "dget ?rs i = Some q"
      using i V(2) all dget_None_keys [of ?rs i] by (cases "dget ?rs i") (simp_all del: set_map)
    obtain n where "dget g i = Some n" by (rule result_has_node [OF inv q])
    from result_of_node(5) [OF inv q this] path_end_bounds [OF V(1) inv all m(1), of "length g" q] q m V(3)
    show ?thesis by force
  qed
  let ?E = "map (path_end g ?rs (length g)) (dkeys g)"
  have E: "None \<notin> set ?E"
  proof
    assume "None \<in> set ?E"
    then have "None \<in> path_end g ?rs (length g) ` set (dkeys g)" by (simp only: set_map)
    then obtain i where "i \<in> set (dkeys g)" "path_end g ?rs (length g) i = None" by (metis imageE)
    with node show False by force
  qed
  define c where "c = (if ?E = [] then 0 else Max (the ` set ?E))"
  have c: "critical_path g ?rs = Some c"
    unfolding critical_path_def Let_def c_def using E by (simp only: if_False)
  have "c \<le> po_now s - t0"
  proof (cases "?E = []")
    case True
    with pool_invD(3) [OF inv] show ?thesis by (simp add: c_def)
  next
    case False
    then have "c \<in> the ` set ?E" unfolding c_def by (auto intro!: Max_in)
    then obtain i where "i \<in> set (dkeys g)" "c = the (path_end g ?rs (length g) i)" by auto
    with node show ?thesis by force
  qed
  moreover have "tr_finished q - tr_started q \<le> c" if q: "dget ?rs i = Some q" for i q
  proof -
    obtain n where "dget g i = Some n" by (rule result_has_node [OF inv q])
    then have i: "i \<in> set (dkeys g)" by (rule mem_dkeys)
    with node obtain e where e: "path_end g ?rs (length g) i = Some e" "tr_finished q - tr_started q \<le> e"
      using q by force
    then have "Some e \<in> set ?E" using i by force
    then have "the (Some e) \<in> the ` set ?E" "?E \<noteq> []" by (rule imageI, use i in auto)
    then have "e \<in> the ` set ?E" and ne: "?E \<noteq> []" by (unfold option.sel)
    moreover from ne have "c = Max (the ` set ?E)" unfolding c_def by (rule if_not_P)
    moreover have "finite (the ` set ?E)" by (intro finite_imageI List.finite_set)
    ultimately have "e \<le> c" by (metis Max_ge)
    with e(2) show ?thesis by simp
  qed
  ultimately show ?thesis using c by blast
qed

theorem critical_path_lower_bound_witness:
  "\<exists>s c. pool_done s \<and> po_now s = 5 \<and> critical_path sample_graph (po_results s) = Some c
     \<and> 3 \<le> c \<and> c \<le> 5"
proof -
  from sample_run obtain s where s: "pool_run sample_graph 2 [] (pool_init sample_graph 0) sample_events = Some s"
    "pool_done s" "po_now s = 5" "dget (po_results s) ''b'' = Some \<lparr>tr_output = JInt 2, tr_error = None,
       tr_started = 2, tr_finished = 5, tr_inputs_from = [''a'']\<rparr>" by blast
  have R: "pool_reach sample_graph 2 [] 0 s" by (rule pool_run_reach [OF s(1) reach_init])
  from critical_path_lower_bound [OF sample_new_graph R s(2)] s show ?thesis by force
qed

end
