(* ===== verification/Adaptive_Batcher.thy ===== *)
theory Adaptive_Batcher
  imports Pod_Protocol "HOL-Library.Multiset"
begin

text \<open>
  \<open>neural_pods/adaptive_batcher.py\<close>: micro-batching of compatible requests.

  \<^item> \<open>future\<close>, \<open>batch_req\<close>, \<open>batcher\<close>: a request and its future (an entry of \<open>bt_futures\<close>, which
    clients and the worker share), the queues by compatibility key, the statistics and the batch the
    worker holds.
  \<^item> \<open>bt_submit\<close>, \<open>bt_cancel\<close>, \<open>bt_close\<close>: the clients' operations, each under the lock.
  \<^item> \<open>bt_select\<close>, \<open>bt_start\<close>, \<open>bt_finish\<close>: the worker's loop, in the three parts between which
    clients can act: selection, the second look at cancellations, and delivery. The test
    \<open>done()\<close> and the write that follows it are one step.
  \<^item> \<open>bt_step\<close>: any interleaving of them.

  Clock readings and the model's answers are arguments of the steps.
\<close>

section \<open>State\<close>

datatype future = Pending | Cancelled | Finished "json result"

definition future_done :: "future \<Rightarrow> bool" where
  "future_done f = (f \<noteq> Pending)"

record ('k, 'p) batch_req =
  br_id :: nat
  br_payload :: 'p
  br_key :: 'k
  br_deadline :: "real option"
  br_submitted :: real

record batch_stats =
  bs_submitted :: nat
  bs_completed :: nat
  bs_rejected :: nat
  bs_batches :: nat
  bs_deadline_drops :: nat
  bs_cancelled :: nat
  bs_errors :: nat
  bs_wait_total :: real
  bs_wait_max :: real
  bs_latency_total :: real
  bs_latency_max :: real
  bs_items_total :: nat

definition zero_stats :: batch_stats where
  "zero_stats =
     \<lparr>bs_submitted = 0, bs_completed = 0, bs_rejected = 0, bs_batches = 0, bs_deadline_drops = 0,
      bs_cancelled = 0, bs_errors = 0, bs_wait_total = 0, bs_wait_max = 0, bs_latency_total = 0,
      bs_latency_max = 0, bs_items_total = 0\<rparr>"

record ('k, 'p) batcher =
  bt_max_batch :: nat
  bt_max_wait :: real
  bt_target :: real
  bt_max_queue :: nat
  bt_queues :: "('k, ('k, 'p) batch_req list) dict"
  bt_futures :: "(nat, future) dict"
  bt_next :: nat
  bt_stopping :: bool
  bt_queued :: int
  bt_stats :: batch_stats
  bt_selected :: "('k, 'p) batch_req list"
  bt_running :: "('k, 'p) batch_req list"

definition new_batcher :: "int \<Rightarrow> real \<Rightarrow> real \<Rightarrow> int \<Rightarrow> ('k, 'p) batcher result" where
  "new_batcher max_batch max_wait_ms target_ms max_queue =
     (if max_batch < 1 \<or> max_queue < 1 then Inl ValueError
      else Inr \<lparr>bt_max_batch = nat max_batch, bt_max_wait = max_wait_ms / 1000,
                bt_target = target_ms / 1000, bt_max_queue = nat max_queue, bt_queues = [],
                bt_futures = [], bt_next = 0, bt_stopping = False, bt_queued = 0,
                bt_stats = zero_stats, bt_selected = [], bt_running = []\<rparr>)"

definition fut :: "('k, 'p) batcher \<Rightarrow> nat \<Rightarrow> future" where
  "fut b i = dget_or (bt_futures b) i Pending"

text \<open>\<open>if not future.done(): future.set_...\<close>\<close>

definition settle :: "nat \<Rightarrow> json result \<Rightarrow> (nat, future) dict \<Rightarrow> (nat, future) dict" where
  "settle i v fs =
     (if future_done (dget_or fs i Pending) then fs else dput i (Finished v) fs)"

section \<open>Clients\<close>

text \<open>The new request's future is number \<open>bt_next\<close>; \<open>made\<close> is the reading of \<open>submitted_at\<close>.\<close>

definition bt_submit ::
    "real \<Rightarrow> real \<Rightarrow> ('k, 'p) batcher \<Rightarrow> 'p \<Rightarrow> 'k \<Rightarrow> real option \<Rightarrow> ('k, 'p) batcher" where
  "bt_submit now made b payload k timeout_ms =
     (let i = bt_next b;
          r = \<lparr>br_id = i, br_payload = payload, br_key = k,
               br_deadline = map_option (\<lambda>t. now + t / 1000) timeout_ms, br_submitted = made\<rparr>;
          st = bt_stats b
      in if bt_stopping b then
           b\<lparr>bt_next := Suc i, bt_futures := dput i (Finished (Inl RuntimeError)) (bt_futures b)\<rparr>
         else if int (bt_max_queue b) \<le> bt_queued b then
           b\<lparr>bt_next := Suc i, bt_futures := dput i (Finished (Inl OverflowError)) (bt_futures b),
             bt_stats := st\<lparr>bs_rejected := Suc (bs_rejected st)\<rparr>\<rparr>
         else
           b\<lparr>bt_next := Suc i, bt_futures := dput i Pending (bt_futures b),
             bt_queues := dput k (dget_or (bt_queues b) k [] @ [r]) (bt_queues b),
             bt_queued := bt_queued b + 1,
             bt_stats := st\<lparr>bs_submitted := Suc (bs_submitted st)\<rparr>\<rparr>)"

text \<open>\<open>Future.cancel()\<close>: the batcher never marks a future as running.\<close>

definition bt_cancel :: "('k, 'p) batcher \<Rightarrow> nat \<Rightarrow> ('k, 'p) batcher" where
  "bt_cancel b i =
     (case dget (bt_futures b) i of
        Some Pending \<Rightarrow> b\<lparr>bt_futures := dput i Cancelled (bt_futures b)\<rparr>
      | _ \<Rightarrow> b)"

definition all_queued :: "('k, ('k, 'p) batch_req list) dict \<Rightarrow> ('k, 'p) batch_req list" where
  "all_queued qs = concat (map snd qs)"

definition bt_close :: "('k, 'p) batcher \<Rightarrow> bool \<Rightarrow> ('k, 'p) batcher" where
  "bt_close b cancel_pending =
     (if cancel_pending then
        b\<lparr>bt_stopping := True,
          bt_queued := bt_queued b - int (length (all_queued (bt_queues b))),
          bt_futures := fold (\<lambda>r. settle (br_id r) (Inl RuntimeError)) (all_queued (bt_queues b))
             (bt_futures b),
          bt_queues := map (\<lambda>(k, q). (k, [])) (bt_queues b)\<rparr>
      else b\<lparr>bt_stopping := True\<rparr>)"

section \<open>The worker\<close>

text \<open>The head of a queue: cancelled requests and requests past their deadline are dropped.\<close>

record ('k, 'p) sweep =
  sw_queue :: "('k, 'p) batch_req list"
  sw_futures :: "(nat, future) dict"
  sw_cancelled :: nat
  sw_expired :: nat

definition expired :: "real \<Rightarrow> ('k, 'p) batch_req \<Rightarrow> bool" where
  "expired now r = (case br_deadline r of None \<Rightarrow> False | Some d \<Rightarrow> d \<le> now)"

fun drop_heads ::
    "real \<Rightarrow> ('k, 'p) batch_req list \<Rightarrow> (nat, future) dict \<Rightarrow> nat \<Rightarrow> nat \<Rightarrow> ('k, 'p) sweep" where
  "drop_heads now [] fs c e = \<lparr>sw_queue = [], sw_futures = fs, sw_cancelled = c, sw_expired = e\<rparr>"
| "drop_heads now (r # q) fs c e =
     (if dget_or fs (br_id r) Pending = Cancelled then drop_heads now q fs (Suc c) e
      else if expired now r then drop_heads now q (settle (br_id r) (Inl TimeoutError) fs) c (Suc e)
      else \<lparr>sw_queue = r # q, sw_futures = fs, sw_cancelled = c, sw_expired = e\<rparr>)"

text \<open>The loop over the keys: every queue is swept, and the key with the oldest head is chosen.\<close>

fun scan_queues ::
    "real \<Rightarrow> ('k, ('k, 'p) batch_req list) dict \<Rightarrow> ('k, 'p) batcher \<Rightarrow> ('k \<times> ('k, 'p) batch_req) option \<Rightarrow>
     ('k, 'p) batcher \<times> ('k \<times> ('k, 'p) batch_req) option" where
  "scan_queues now [] b best = (b, best)"
| "scan_queues now ((k, q) # qs) b best =
     (let s = drop_heads now q (bt_futures b) 0 0;
          st = bt_stats b;
          b' = b\<lparr>bt_queues := dput k (sw_queue s) (bt_queues b), bt_futures := sw_futures s,
                 bt_queued := bt_queued b - int (sw_cancelled s + sw_expired s),
                 bt_stats := st\<lparr>bs_cancelled := bs_cancelled st + sw_cancelled s,
                                bs_deadline_drops := bs_deadline_drops st + sw_expired s\<rparr>\<rparr>;
          best' = (case sw_queue s of
                     [] \<Rightarrow> best
                   | r # _ \<Rightarrow> (case best of
                       None \<Rightarrow> Some (k, r)
                     | Some (j, h) \<Rightarrow> if br_submitted r < br_submitted h then Some (k, r) else best))
      in scan_queues now qs b' best')"

text \<open>\<open>while chosen and len(items) < max_batch_size\<close>: the items, what is left, the cancelled.\<close>

fun take_batch ::
    "nat \<Rightarrow> (nat, future) dict \<Rightarrow> ('k, 'p) batch_req list \<Rightarrow>
     ('k, 'p) batch_req list \<times> ('k, 'p) batch_req list \<times> nat" where
  "take_batch 0 fs q = ([], q, 0)"
| "take_batch n fs [] = ([], [], 0)"
| "take_batch (Suc n) fs (r # q) =
     (if dget_or fs (br_id r) Pending = Cancelled
      then (let (items, rest, c) = take_batch (Suc n) fs q in (items, rest, Suc c))
      else (let (items, rest, c) = take_batch n fs q in (r # items, rest, c)))"

text \<open>Is the chosen queue to wait for more requests?\<close>

definition hold_back :: "real \<Rightarrow> ('k, 'p) batcher \<Rightarrow> ('k, 'p) batch_req list \<Rightarrow> ('k, 'p) batch_req \<Rightarrow> bool" where
  "hold_back now b q first =
     (length q < bt_max_batch b
      \<and> (case br_deadline first of None \<Rightarrow> True | Some d \<Rightarrow> bt_target b < d - now)
      \<and> now - br_submitted first < bt_max_wait b)"

definition bt_select :: "real \<Rightarrow> ('k, 'p) batcher \<Rightarrow> ('k, 'p) batcher" where
  "bt_select now b =
     (case scan_queues now (bt_queues b) b None of
        (b1, None) \<Rightarrow> b1
      | (b1, Some (k, first)) \<Rightarrow>
          (let q = dget_or (bt_queues b1) k []
           in if hold_back now b1 q first then b1
              else (let (items, rest, c) = take_batch (bt_max_batch b1) (bt_futures b1) q;
                        st = bt_stats b1
                    in b1\<lparr>bt_queues := (if rest = [] then dpop k (bt_queues b1)
                                         else dput k rest (bt_queues b1)),
                          bt_queued := bt_queued b1 - int (length items + c),
                          bt_stats := st\<lparr>bs_cancelled := bs_cancelled st + c\<rparr>,
                          bt_selected := items\<rparr>)))"

text \<open>The second look at cancellations and the accounting of the waiting times.\<close>

definition bt_start :: "real \<Rightarrow> ('k, 'p) batcher \<Rightarrow> ('k, 'p) batcher" where
  "bt_start now b =
     (let active = filter (\<lambda>r. fut b (br_id r) \<noteq> Cancelled) (bt_selected b);
          st = (bt_stats b)\<lparr>bs_cancelled :=
                  bs_cancelled (bt_stats b) + (length (bt_selected b) - length active)\<rparr>;
          waits = map (\<lambda>r. (now - br_submitted r) * 1000) active
      in if active = [] then b\<lparr>bt_selected := [], bt_stats := st\<rparr>
         else b\<lparr>bt_selected := [], bt_running := active,
                bt_stats := st\<lparr>bs_wait_total := bs_wait_total st + sum_list waits,
                               bs_wait_max := max (bs_wait_max st) (Max (set waits))\<rparr>\<rparr>)"

text \<open>Delivery: \<open>answer\<close> is what \<open>run_batch\<close> returned or raised.\<close>

definition count_open :: "('k, 'p) batch_req list \<Rightarrow> (nat, future) dict \<Rightarrow> nat" where
  "count_open rs fs = length (filter (\<lambda>r. \<not> future_done (dget_or fs (br_id r) Pending)) rs)"

definition bt_finish :: "real \<Rightarrow> json list result \<Rightarrow> ('k, 'p) batcher \<Rightarrow> ('k, 'p) batcher" where
  "bt_finish elapsed_ms answer b =
     (let batch = bt_running b;
          st = bt_stats b;
          outcome = (case answer of
                       Inl e \<Rightarrow> Inl e
                     | Inr vs \<Rightarrow> if length vs = length batch then Inr vs else Inl ValueError);
          (fs, st1) = (case outcome of
             Inr vs \<Rightarrow>
               (fold (\<lambda>(r, v). settle (br_id r) (Inr v)) (zip batch vs) (bt_futures b),
                st\<lparr>bs_completed := bs_completed st + count_open batch (bt_futures b)\<rparr>)
           | Inl e \<Rightarrow>
               (fold (\<lambda>r. settle (br_id r) (Inl e)) batch (bt_futures b),
                st\<lparr>bs_errors := Suc (bs_errors st)\<rparr>))
      in b\<lparr>bt_running := [], bt_futures := fs,
           bt_stats := st1\<lparr>bs_batches := Suc (bs_batches st1),
             bs_items_total := bs_items_total st1 + length batch,
             bs_latency_total := bs_latency_total st1 + elapsed_ms,
             bs_latency_max := max (bs_latency_max st1) elapsed_ms\<rparr>\<rparr>)"

section \<open>The handler adapter\<close>

record lineage_key =
  lk_generation :: "string option"
  lk_artifact :: "string option"
  lk_manifest :: "string option"
  lk_principal :: string

definition default_key :: "json \<Rightarrow> pod_request \<Rightarrow> lineage_key" where
  "default_key payload r =
     \<lparr>lk_generation = pr_target_generation r, lk_artifact = pr_target_artifact r,
      lk_manifest = pr_manifest_hash r, lk_principal = pr_principal r\<rparr>"

type_synonym handler_batcher = "(lineage_key, json \<times> pod_request) batcher"

definition handler_submit ::
    "real \<Rightarrow> real \<Rightarrow> handler_batcher \<Rightarrow> json \<Rightarrow> pod_request \<Rightarrow> handler_batcher" where
  "handler_submit now made b payload r =
     bt_submit now made b (payload, r) (default_key payload r) (Some (of_int (pr_deadline_ms r)))"

text \<open>The end of the call's wait: a finished future's outcome, or a timeout, on which the call cancels.
  A \<open>TimeoutError\<close> that the batcher itself stored takes the same branch.\<close>

definition handler_return :: "handler_batcher \<Rightarrow> nat \<Rightarrow> json result \<times> handler_batcher" where
  "handler_return b i =
     (case fut b i of
        Finished (Inr v) \<Rightarrow> (Inr v, b)
      | Finished (Inl e) \<Rightarrow> (Inl e, if e = TimeoutError then bt_cancel b i else b)
      | Cancelled \<Rightarrow> (Inl (OtherError ''CancelledError''), b)
      | Pending \<Rightarrow> (Inl TimeoutError, bt_cancel b i))"

section \<open>Steps\<close>

datatype ('k, 'p) bt_event =
    Submit real real 'p 'k "real option"
  | Cancel nat
  | Close bool
  | Select real
  | Start real
  | Finish real "json list result"

text \<open>The worker selects while it holds nothing and something is queued; otherwise it waits or, once
  stopped, has ended.\<close>

fun bt_step :: "('k, 'p) batcher \<Rightarrow> ('k, 'p) bt_event \<Rightarrow> ('k, 'p) batcher" where
  "bt_step b (Submit now made p k t) = bt_submit now made b p k t"
| "bt_step b (Cancel i) = bt_cancel b i"
| "bt_step b (Close c) = bt_close b c"
| "bt_step b (Select now) =
     (if bt_selected b = [] \<and> bt_running b = [] \<and> 0 < bt_queued b then bt_select now b else b)"
| "bt_step b (Start now) = (if bt_selected b = [] then b else bt_start now b)"
| "bt_step b (Finish t ans) = (if bt_running b = [] then b else bt_finish t ans b)"

abbreviation bt_run :: "('k, 'p) batcher \<Rightarrow> ('k, 'p) bt_event list \<Rightarrow> ('k, 'p) batcher" where
  "bt_run \<equiv> run_steps bt_step"

section \<open>Futures are written once\<close>

definition fs_le :: "(nat, future) dict \<Rightarrow> (nat, future) dict \<Rightarrow> bool" where
  "fs_le fs fs' =
     (\<forall>i. future_done (dget_or fs i Pending) \<longrightarrow> dget_or fs' i Pending = dget_or fs i Pending)"

lemma fs_le_refl [simp]: "fs_le fs fs"
  by (simp add: fs_le_def)

lemma fs_le_trans: "fs_le fs fs' \<Longrightarrow> fs_le fs' fs'' \<Longrightarrow> fs_le fs fs''"
  by (simp add: fs_le_def)

lemma fs_le_done: "fs_le fs fs' \<Longrightarrow> future_done (dget_or fs i Pending) \<Longrightarrow> future_done (dget_or fs' i Pending)"
  by (simp add: fs_le_def)

lemma settle_le [simp]: "fs_le fs (settle i v fs)"
  by (auto simp: fs_le_def settle_def dict_simps)

lemma settle_done [simp]: "future_done (dget_or (settle i v fs) i Pending)"
  by (auto simp: settle_def dict_simps future_done_def)

lemma settle_other: "j \<noteq> i \<Longrightarrow> dget_or (settle i v fs) j Pending = dget_or fs j Pending"
  by (simp add: settle_def dict_simps)

lemma fold_settle:
  "fs_le fs (fold (\<lambda>r. settle (br_id r) v) rs fs)"
  "\<forall>r\<in>set rs. future_done (dget_or (fold (\<lambda>r. settle (br_id r) v) rs fs) (br_id r) Pending)"
proof (induction rs arbitrary: fs)
  case (Cons r rs)
  {
    case 1
    show ?case using fs_le_trans [OF settle_le Cons(1)] by simp
  next
    case 2
    have "future_done (dget_or (fold (\<lambda>r. settle (br_id r) v) rs (settle (br_id r) v fs)) (br_id r) Pending)"
      by (rule fs_le_done [OF Cons(1) settle_done])
    then show ?case using Cons(2) by simp
  }
qed simp_all

text \<open>Results go to their requests by position.\<close>

lemma fold_settle_zip:
  assumes "distinct (map br_id rs)" and "length vs = length rs"
  shows "dget_or (fold (\<lambda>(r, v). settle (br_id r) (Inr v)) (zip rs vs) fs) i Pending =
    (if i \<in> br_id ` set rs \<and> \<not> future_done (dget_or fs i Pending)
     then Finished (Inr (vs ! length (takeWhile (\<lambda>r. br_id r \<noteq> i) rs)))
     else dget_or fs i Pending)"
  using assms
proof (induction rs vs arbitrary: fs rule: list_induct2')
  case (4 r rs v vs)
  then show ?case
    by (auto simp: settle_def dict_simps)
qed simp_all

section \<open>Where requests are\<close>

lemma all_queued_Cons [simp]: "all_queued ((k, q) # qs) = q @ all_queued qs"
  by (simp add: all_queued_def)

lemma mset_all_queued_put:
  "wf_dict qs \<Longrightarrow> mset (all_queued (dput k q qs)) + mset (dget_or qs k []) = mset (all_queued qs) + mset q"
proof (induction qs)
  case (Cons p qs)
  obtain j q0 where p: "p = (j, q0)" by (cases p)
  show ?case
  proof (cases "k = j")
    case True
    then show ?thesis by (simp add: p dget_or_def)
  next
    case False
    then have "dget_or (p # qs) k [] = dget_or qs k []" by (simp add: p dget_or_def)
    with False Cons show ?thesis by (simp add: p wf_dict_Cons add.assoc)
  qed
qed (simp add: all_queued_def dget_or_def)

lemma mset_all_queued_pop:
  "wf_dict qs \<Longrightarrow> mset (all_queued (dpop k qs)) + mset (dget_or qs k []) = mset (all_queued qs)"
proof (induction qs)
  case (Cons p qs)
  obtain j q0 where p: "p = (j, q0)" by (cases p)
  show ?case
  proof (cases "k = j")
    case True
    with Cons.prems have "dpop k qs = qs" by (intro dpop_id) (simp add: p wf_dict_Cons)
    with True show ?thesis by (simp add: p dget_or_def add.commute)
  next
    case False
    then have "dget_or (p # qs) k [] = dget_or qs k []" by (simp add: p dget_or_def)
    with False Cons show ?thesis by (simp add: p wf_dict_Cons add.assoc)
  qed
qed (simp add: all_queued_def dget_or_def)

text \<open>Every request the batcher holds, and the state that its operations keep: a request is held at most
  once, its future exists, a future that is not done belongs to a held request, the counter is exact and
  within the limit, queues and batches are pure in the key.\<close>

definition held :: "('k, 'p) batcher \<Rightarrow> ('k, 'p) batch_req multiset" where
  "held b = mset (all_queued (bt_queues b)) + mset (bt_selected b) + mset (bt_running b)"

definition one_key :: "('k, 'p) batch_req list \<Rightarrow> bool" where
  "one_key rs = (\<forall>r\<in>set rs. \<forall>r'\<in>set rs. br_key r = br_key r')"

lemma one_key_Nil [simp]: "one_key []"
  by (simp add: one_key_def)

definition queues_pure :: "('k, ('k, 'p) batch_req list) dict \<Rightarrow> bool" where
  "queues_pure qs = (wf_dict qs \<and> (\<forall>k q. dget qs k = Some q \<longrightarrow> (\<forall>r\<in>set q. br_key r = k)))"

definition open_held :: "('k, 'p) batcher \<Rightarrow> bool" where
  "open_held b = (\<forall>i<bt_next b. future_done (fut b i) \<or> i \<in># image_mset br_id (held b))"

definition bt_inv :: "('k, 'p) batcher \<Rightarrow> bool" where
  "bt_inv b =
     (image_mset br_id (held b) \<subseteq># mset [0..<bt_next b] \<and> open_held b
      \<and> bt_queued b = int (length (all_queued (bt_queues b))) \<and> bt_queued b \<le> int (bt_max_queue b)
      \<and> queues_pure (bt_queues b)
      \<and> one_key (bt_selected b) \<and> one_key (bt_running b)
      \<and> length (bt_selected b) \<le> bt_max_batch b \<and> length (bt_running b) \<le> bt_max_batch b
      \<and> 0 < bt_max_batch b)"

text \<open>Giving requests back: the invariant survives when what leaves the batcher is done.\<close>

lemma open_held_leave:
  assumes "open_held b" and "bt_next b' = bt_next b" and "fs_le (bt_futures b) (bt_futures b')"
    and "\<forall>r\<in>#held b. r \<in># held b' \<or> future_done (fut b' (br_id r))"
  shows "open_held b'"
  unfolding open_held_def
proof (intro allI impI)
  fix i assume "i < bt_next b'"
  then have "future_done (fut b i) \<or> i \<in># image_mset br_id (held b)"
    using assms(1,2) by (simp add: open_held_def)
  then show "future_done (fut b' i) \<or> i \<in># image_mset br_id (held b')"
    using assms(3,4) fs_le_done [OF assms(3), of i] by (auto simp: fut_def)
qed

lemma ids_leave:
  "image_mset br_id (held b) \<subseteq># m \<Longrightarrow> held b' \<subseteq># held b \<Longrightarrow> image_mset br_id (held b') \<subseteq># m"
  by (meson image_mset_subseteq_mono subset_mset.order_trans)

lemma one_key_sub: "one_key rs \<Longrightarrow> set rs' \<subseteq> set rs \<Longrightarrow> one_key rs'"
  by (auto simp: one_key_def)

lemma queues_pure_put:
  "queues_pure qs \<Longrightarrow> \<forall>r\<in>set q. br_key r = k \<Longrightarrow> queues_pure (dput k q qs)"
  by (auto simp: queues_pure_def update_conv' split: if_splits)

lemma queues_pure_pop: "queues_pure qs \<Longrightarrow> queues_pure (dpop k qs)"
  by (auto simp: queues_pure_def delete_conv' split: if_splits)

lemma queues_pure_get: "queues_pure qs \<Longrightarrow> r \<in> set (dget_or qs k []) \<Longrightarrow> br_key r = k"
  by (cases "dget qs k") (auto simp: queues_pure_def dget_or_def)

section \<open>Sweeping the queues\<close>

definition fresh :: "real \<Rightarrow> (nat, future) dict \<Rightarrow> ('k, 'p) batch_req \<Rightarrow> bool" where
  "fresh now fs r = (\<not> expired now r \<and> dget_or fs (br_id r) Pending \<noteq> Cancelled)"

definition no_new_cancel :: "(nat, future) dict \<Rightarrow> (nat, future) dict \<Rightarrow> bool" where
  "no_new_cancel fs fs' = (\<forall>i. dget_or fs' i Pending = Cancelled \<longrightarrow> dget_or fs i Pending = Cancelled)"

lemma no_new_cancel_refl [simp]: "no_new_cancel fs fs"
  by (simp add: no_new_cancel_def)

lemma no_new_cancel_trans: "no_new_cancel fs fs' \<Longrightarrow> no_new_cancel fs' fs'' \<Longrightarrow> no_new_cancel fs fs''"
  by (simp add: no_new_cancel_def)

lemma settle_no_cancel [simp]: "no_new_cancel fs (settle i v fs)"
  by (auto simp: no_new_cancel_def settle_def dict_simps)

lemma fresh_later: "no_new_cancel fs fs' \<Longrightarrow> fresh now fs r \<Longrightarrow> fresh now fs' r"
  by (auto simp: fresh_def no_new_cancel_def)

lemma drop_heads_spec:
  assumes "s = drop_heads now q fs c e"
  obtains d where "q = d @ sw_queue s" and "sw_cancelled s + sw_expired s = c + e + length d"
    and "fs_le fs (sw_futures s)" and "\<forall>r\<in>set d. future_done (dget_or (sw_futures s) (br_id r) Pending)"
    and "no_new_cancel fs (sw_futures s)" and "\<And>r t. sw_queue s = r # t \<Longrightarrow> fresh now (sw_futures s) r"
proof -
  have "\<exists>d. q = d @ sw_queue s \<and> sw_cancelled s + sw_expired s = c + e + length d
    \<and> fs_le fs (sw_futures s) \<and> (\<forall>r\<in>set d. future_done (dget_or (sw_futures s) (br_id r) Pending))
    \<and> no_new_cancel fs (sw_futures s) \<and> (\<forall>r t. sw_queue s = r # t \<longrightarrow> fresh now (sw_futures s) r)"
    using assms
  proof (induction now q fs c e rule: drop_heads.induct)
    case (2 now r q fs c e)
    consider (can) "dget_or fs (br_id r) Pending = Cancelled"
      | (exp) "dget_or fs (br_id r) Pending \<noteq> Cancelled" "expired now r"
      | (stay) "dget_or fs (br_id r) Pending \<noteq> Cancelled" "\<not> expired now r" by blast
    then show ?case
    proof cases
      case can
      with 2(1,3) obtain d where d: "q = d @ sw_queue s" "sw_cancelled s + sw_expired s = Suc c + e + length d"
        "fs_le fs (sw_futures s)" "\<forall>r\<in>set d. future_done (dget_or (sw_futures s) (br_id r) Pending)"
        "no_new_cancel fs (sw_futures s)"
        "\<forall>r t. sw_queue s = r # t \<longrightarrow> fresh now (sw_futures s) r" by auto
      have "future_done (dget_or (sw_futures s) (br_id r) Pending)"
        by (rule fs_le_done [OF d(3)]) (simp add: can future_done_def)
      with d show ?thesis by (intro exI [of _ "r # d"]) simp
    next
      case exp
      let ?fs = "settle (br_id r) (Inl TimeoutError) fs"
      from exp 2(2,3) obtain d where d: "q = d @ sw_queue s"
        "sw_cancelled s + sw_expired s = c + Suc e + length d"
        "fs_le ?fs (sw_futures s)" "\<forall>r\<in>set d. future_done (dget_or (sw_futures s) (br_id r) Pending)"
        "no_new_cancel ?fs (sw_futures s)"
        "\<forall>r t. sw_queue s = r # t \<longrightarrow> fresh now (sw_futures s) r" by auto
      have "future_done (dget_or (sw_futures s) (br_id r) Pending)"
        by (rule fs_le_done [OF d(3) settle_done])
      with d fs_le_trans [OF settle_le d(3)] no_new_cancel_trans [OF settle_no_cancel d(5)] show ?thesis by (intro exI [of _ "r # d"]) simp
    qed (use 2 in \<open>simp add: fresh_def\<close>)
  qed simp
  with that show thesis by blast
qed

lemma drop_heads_zero:
  assumes "s = drop_heads now q fs 0 0"
  obtains d where "q = d @ sw_queue s" and "sw_cancelled s + sw_expired s = length d"
    and "fs_le fs (sw_futures s)" and "\<forall>r\<in>set d. future_done (dget_or (sw_futures s) (br_id r) Pending)"
    and "no_new_cancel fs (sw_futures s)" and "\<And>r t. sw_queue s = r # t \<Longrightarrow> fresh now (sw_futures s) r"
  using drop_heads_spec [OF assms, unfolded add_0] by metis

definition bt_keeps :: "('k, 'p) batcher \<Rightarrow> ('k, 'p) batcher \<Rightarrow> bool" where
  "bt_keeps b b' =
     (fs_le (bt_futures b) (bt_futures b') \<and> no_new_cancel (bt_futures b) (bt_futures b')
      \<and> bt_next b' = bt_next b \<and> bt_selected b' = bt_selected b
      \<and> bt_running b' = bt_running b \<and> bt_max_batch b' = bt_max_batch b
      \<and> bt_max_wait b' = bt_max_wait b \<and> bt_target b' = bt_target b
      \<and> bt_max_queue b' = bt_max_queue b \<and> bt_stopping b' = bt_stopping b)"

lemma bt_keeps_refl [simp]: "bt_keeps b b"
  by (simp add: bt_keeps_def)

lemma bt_keeps_trans: "bt_keeps b b' \<Longrightarrow> bt_keeps b' b'' \<Longrightarrow> bt_keeps b b''"
  by (auto simp: bt_keeps_def intro: fs_le_trans no_new_cancel_trans)

lemma sweep_queue_keeps:
  assumes inv: "bt_inv b" and q: "dget (bt_queues b) k = Some q"
    and s: "s = drop_heads now q (bt_futures b) 0 0"
    and b': "bt_queues b' = dput k (sw_queue s) (bt_queues b)" "bt_futures b' = sw_futures s"
      "bt_queued b' = bt_queued b - int (sw_cancelled s + sw_expired s)"
      "bt_next b' = bt_next b" "bt_selected b' = bt_selected b" "bt_running b' = bt_running b"
      "bt_max_batch b' = bt_max_batch b" "bt_max_queue b' = bt_max_queue b"
  shows "bt_inv b'"
proof -
  obtain d where d: "q = d @ sw_queue s" "sw_cancelled s + sw_expired s = length d"
    "fs_le (bt_futures b) (sw_futures s)" "\<forall>r\<in>set d. future_done (dget_or (sw_futures s) (br_id r) Pending)"
    by (rule drop_heads_zero [OF s])
  note I = inv [unfolded bt_inv_def]
  then have wf: "wf_dict (bt_queues b)" by (simp add: queues_pure_def)
  have "mset (all_queued (bt_queues b')) + mset q = mset (all_queued (bt_queues b)) + mset (sw_queue s)"
    using mset_all_queued_put [OF wf, of k "sw_queue s"] q by (simp add: b' dget_or_def)
  then have M: "mset (all_queued (bt_queues b)) = mset (all_queued (bt_queues b')) + mset d"
    by (simp add: d(1) add.assoc [symmetric])
  then have H: "held b = held b' + mset d" by (simp add: held_def b' ac_simps)
  have len: "length (all_queued (bt_queues b)) = length (all_queued (bt_queues b')) + length d"
    using arg_cong [OF M, of size] by simp
  have "open_held b'"
  proof (rule open_held_leave)
    show "open_held b" using I by blast
    show "\<forall>r\<in>#held b. r \<in># held b' \<or> future_done (fut b' (br_id r))"
      using d(4) unfolding H fut_def b'(2) by auto
  qed (simp_all only: b' d(3))
  moreover have "image_mset br_id (held b') \<subseteq># mset [0..<bt_next b']"
    unfolding b'(4) by (rule ids_leave [of b]) (use I H in simp_all)
  moreover have "queues_pure (bt_queues b')"
    unfolding b' using I d(1) queues_pure_get [of "bt_queues b" _ k] q
    by (intro queues_pure_put) (auto simp: dget_or_def)
  ultimately show ?thesis using I len d(2) b' by (simp add: bt_inv_def)
qed

lemma scan_queues_spec:
  assumes "scan_queues now qs b best = (b1, best1)" and "bt_inv b" and "wf_dict qs"
    and "\<forall>(k, q)\<in>set qs. dget (bt_queues b) k = Some q"
    and "\<forall>k h. best = Some (k, h) \<longrightarrow> k \<notin> set (dkeys qs) \<and> (\<exists>t. dget (bt_queues b) k = Some (h # t))"
  shows "bt_inv b1 \<and> bt_keeps b b1 \<and> (\<forall>j. j \<notin> set (dkeys qs) \<longrightarrow> dget (bt_queues b1) j = dget (bt_queues b) j)
    \<and> (\<forall>k h. best1 = Some (k, h) \<longrightarrow> (\<exists>t. dget (bt_queues b1) k = Some (h # t)))
    \<and> (\<forall>k r t. k \<in> set (dkeys qs) \<longrightarrow> dget (bt_queues b1) k = Some (r # t) \<longrightarrow> fresh now (bt_futures b1) r)
    \<and> (\<forall>k r t. k \<in> set (dkeys qs) \<or> (\<exists>h. best = Some (k, h)) \<longrightarrow> dget (bt_queues b1) k = Some (r # t) \<longrightarrow>
          (\<exists>j h. best1 = Some (j, h) \<and> br_submitted h \<le> br_submitted r))"
  using assms
proof (induction qs arbitrary: b best)
  case Nil
  then show ?case by auto
next
  case (Cons p qs)
  obtain k q where p: "p = (k, q)" by (cases p)
  define s where "s = drop_heads now q (bt_futures b) 0 0"
  define b' where "b' = b\<lparr>bt_queues := dput k (sw_queue s) (bt_queues b), bt_futures := sw_futures s,
      bt_queued := bt_queued b - int (sw_cancelled s + sw_expired s),
      bt_stats := (bt_stats b)\<lparr>bs_cancelled := bs_cancelled (bt_stats b) + sw_cancelled s,
        bs_deadline_drops := bs_deadline_drops (bt_stats b) + sw_expired s\<rparr>\<rparr>"
  define best' where "best' = (case sw_queue s of [] \<Rightarrow> best | r # _ \<Rightarrow> (case best of
      None \<Rightarrow> Some (k, r) | Some (j, h) \<Rightarrow> if br_submitted r < br_submitted h then Some (k, r) else best))"
  have q: "dget (bt_queues b) k = Some q" using Cons.prems(4) by (simp add: p)
  have scan: "scan_queues now qs b' best' = (b1, best1)"
    using Cons.prems(1) unfolding p scan_queues.simps Let_def s_def b'_def best'_def .
  have inv': "bt_inv b'"
    by (rule sweep_queue_keeps [OF Cons.prems(2) q s_def]) (simp_all add: b'_def)
  have get': "dget (bt_queues b') j = (if j = k then Some (sw_queue s) else dget (bt_queues b) j)" for j
    by (simp add: b'_def update_conv')
  have k: "k \<notin> set (dkeys qs)" "wf_dict qs" using Cons.prems(3) by (simp_all add: p wf_dict_Cons)
  have qs': "\<forall>(j, r)\<in>set qs. dget (bt_queues b') j = Some r"
    using Cons.prems(4) k(1) by (auto simp: get' p image_iff split: prod.splits)
  have best_old: "\<forall>j h. best = Some (j, h) \<longrightarrow> j \<noteq> k \<and> j \<notin> set (dkeys qs) \<and> (\<exists>t. dget (bt_queues b) j = Some (h # t))"
    using Cons.prems(5) by (simp add: p)
  have best'_ok: "\<forall>j h. best' = Some (j, h) \<longrightarrow> j \<notin> set (dkeys qs) \<and> (\<exists>t. dget (bt_queues b') j = Some (h # t))"
  proof (intro allI impI)
    fix j h assume "best' = Some (j, h)"
    then consider "best = Some (j, h)" | t where "j = k" "sw_queue s = h # t"
      by (auto simp: best'_def split: list.splits option.splits if_splits)
    then show "j \<notin> set (dkeys qs) \<and> (\<exists>t. dget (bt_queues b') j = Some (h # t))"
      using best_old k(1) by cases (auto simp: get')
  qed
  note IH = Cons.IH [OF scan inv' k(2) qs' best'_ok]
  note out = IH [THEN conjunct2, THEN conjunct2, THEN conjunct1, rule_format]
    and late = IH [THEN conjunct2, THEN conjunct2, THEN conjunct2, THEN conjunct2, THEN conjunct1, rule_format]
    and least1 = IH [THEN conjunct2, THEN conjunct2, THEN conjunct2, THEN conjunct2, THEN conjunct2, rule_format]
  have d: "fs_le (bt_futures b) (sw_futures s)" "no_new_cancel (bt_futures b) (sw_futures s)"
    "\<And>r t. sw_queue s = r # t \<Longrightarrow> fresh now (sw_futures s) r"
    using drop_heads_zero [OF s_def] by metis+
  have kept: "bt_keeps b b1"
    by (rule bt_keeps_trans [of _ b']) (use IH d(1,2) in \<open>simp_all add: bt_keeps_def b'_def\<close>)
  have k1: "dget (bt_queues b1) k = Some (sw_queue s)" using IH k(1) get' [of k] by simp
  have minimal: "\<exists>j h. best1 = Some (j, h) \<and> br_submitted h \<le> br_submitted r"
    if r: "i = k \<or> (\<exists>h. best = Some (i, h))" "dget (bt_queues b1) i = Some (r # t)" for i r t
  proof -
    from r(1) have "\<exists>j h. best' = Some (j, h) \<and> br_submitted h \<le> br_submitted r"
    proof
      assume "i = k"
      with r(2) k1 have "sw_queue s = r # t" by simp
      then show ?thesis by (auto simp: best'_def split: option.splits)
    next
      assume "\<exists>h. best = Some (i, h)"
      then obtain h where h: "best = Some (i, h)" by blast
      from best_old [rule_format, OF h]
      obtain t' where "i \<noteq> k" "i \<notin> set (dkeys qs)" "dget (bt_queues b) i = Some (h # t')" by blast
      with out [of i] r(2) get' [of i] have "h = r" by simp
      then have b: "best = Some (i, r)" using h by simp
      show ?thesis
      proof (cases "sw_queue s")
        case (Cons x xs)
        then have "best' = (if br_submitted x < br_submitted r then Some (k, x) else Some (i, r))"
          by (simp add: best'_def b)
        then show ?thesis by (cases "br_submitted x < br_submitted r") auto
      qed (simp add: best'_def b)
    qed
    then obtain j h where jh: "best' = Some (j, h)" "br_submitted h \<le> br_submitted r" by blast
    from best'_ok [rule_format, OF jh(1)]
    obtain t' where "j \<notin> set (dkeys qs)" "dget (bt_queues b') j = Some (h # t')" by blast
    then have "dget (bt_queues b1) j = Some (h # t')" using out [of j] by simp
    with least1 [of j] jh(1) obtain j' h' where "best1 = Some (j', h')" "br_submitted h' \<le> br_submitted h"
      by metis
    with jh(2) show ?thesis by auto
  qed
  show ?case
  proof (intro conjI allI impI)
    fix i r t
    assume "i \<in> set (dkeys (p # qs)) \<or> (\<exists>h. best = Some (i, h))" "dget (bt_queues b1) i = Some (r # t)"
    then show "\<exists>j h. best1 = Some (j, h) \<and> br_submitted h \<le> br_submitted r"
      using minimal [of i r t] least1 [of i r t] p by (auto simp del: set_map)
  next
    fix i r t
    assume "i \<in> set (dkeys (p # qs))" "dget (bt_queues b1) i = Some (r # t)"
    moreover have "no_new_cancel (sw_futures s) (bt_futures b1)"
      using IH by (simp add: bt_keeps_def b'_def)
    ultimately show "fresh now (bt_futures b1) r"
      using late [of i r t] k1 fresh_later d(3) p by (auto simp del: set_map)
  next
    fix j assume "j \<notin> set (dkeys (p # qs))"
    then show "dget (bt_queues b1) j = dget (bt_queues b) j" using out [of j] get' [of j] p by simp
  qed (use IH kept in blast)+
qed

section \<open>Every operation keeps the invariant\<close>

lemma take_batch_spec:
  assumes "take_batch n fs q = (items, rest, c)"
  shows "(\<exists>d. mset q = mset items + mset rest + mset d \<and> length d = c
      \<and> (\<forall>r\<in>set d. future_done (dget_or fs (br_id r) Pending)))
    \<and> length items \<le> n \<and> (\<forall>r\<in>set items. dget_or fs (br_id r) Pending \<noteq> Cancelled)
    \<and> (length items < n \<longrightarrow> rest = [])"
  using assms
proof (induction n fs q arbitrary: items rest c rule: take_batch.induct)
  case (3 n fs r q)
  show ?case
  proof (cases "dget_or fs (br_id r) Pending = Cancelled")
    case True
    obtain items' rest' c' where t: "take_batch (Suc n) fs q = (items', rest', c')"
      by (cases "take_batch (Suc n) fs q") auto
    with True 3(3) have eq: "items = items'" "rest = rest'" "c = Suc c'" by auto
    from 3(1) [OF True t] obtain d where d: "mset q = mset items' + mset rest' + mset d" "length d = c'"
      "\<forall>r\<in>set d. future_done (dget_or fs (br_id r) Pending)" by blast
    have "mset (r # q) = mset items + mset rest + mset (r # d)" "length (r # d) = c"
      "\<forall>r\<in>set (r # d). future_done (dget_or fs (br_id r) Pending)"
      using d True by (simp_all add: eq future_done_def)
    then show ?thesis using 3(1) [OF True t] eq by blast
  next
    case False
    obtain items' rest' c' where t: "take_batch n fs q = (items', rest', c')"
      by (cases "take_batch n fs q") auto
    with False 3(3) have eq: "items = r # items'" "rest = rest'" "c = c'" by auto
    from 3(2) [OF False t] obtain d where d: "mset q = mset items' + mset rest' + mset d" "length d = c'"
      "\<forall>r\<in>set d. future_done (dget_or fs (br_id r) Pending)" by blast
    have "mset (r # q) = mset items + mset rest + mset d" using d by (simp add: eq)
    then show ?thesis using 3(2) [OF False t] False d eq by auto
  qed
qed auto

lemma bt_inv_leave:
  assumes "bt_inv b" and "held b = held b' + mset d" and "fs_le (bt_futures b) (bt_futures b')"
    and "\<forall>r\<in>set d. future_done (fut b' (br_id r))" and "bt_next b' = bt_next b"
    and "bt_queued b' = int (length (all_queued (bt_queues b')))" and "bt_queued b' \<le> bt_queued b"
    and "queues_pure (bt_queues b')" and "one_key (bt_selected b')" and "one_key (bt_running b')"
    and "length (bt_selected b') \<le> bt_max_batch b" and "length (bt_running b') \<le> bt_max_batch b"
    and "bt_max_batch b' = bt_max_batch b" and "bt_max_queue b' = bt_max_queue b"
  shows "bt_inv b'"
proof -
  have I: "open_held b" "image_mset br_id (held b) \<subseteq># mset [0..<bt_next b]" "bt_queued b \<le> int (bt_max_queue b)"
    "0 < bt_max_batch b"
    using assms(1) by (simp_all add: bt_inv_def)
  have "open_held b'"
    by (rule open_held_leave [OF I(1) assms(5,3)]) (use assms(2,4) in auto)
  moreover have "image_mset br_id (held b') \<subseteq># mset [0..<bt_next b']"
    unfolding assms(5) by (rule ids_leave [OF I(2)]) (simp add: assms(2))
  ultimately show ?thesis using assms(6-14) I(3,4) by (simp add: bt_inv_def)
qed

text \<open>What a selection takes, it takes from the front of queues.\<close>

abbreviation queue_of :: "('k, 'p) batcher \<Rightarrow> 'k \<Rightarrow> ('k, 'p) batch_req list" where
  "queue_of b k \<equiv> dget_or (bt_queues b) k []"

abbreviation queued_mset :: "('k, 'p) batcher \<Rightarrow> ('k, 'p) batch_req multiset" where
  "queued_mset b \<equiv> mset (all_queued (bt_queues b))"

definition shorter :: "('k, 'p) batcher \<Rightarrow> ('k, 'p) batcher \<Rightarrow> bool" where
  "shorter b b' = ((\<forall>k. \<exists>d. queue_of b k = d @ queue_of b' k) \<and> queued_mset b' \<subseteq># queued_mset b
     \<and> wf_dict (bt_queues b'))"

lemma shorter_refl: "wf_dict (bt_queues b) \<Longrightarrow> shorter b b"
  by (simp add: shorter_def)

lemma shorter_trans: "shorter b b' \<Longrightarrow> shorter b' b'' \<Longrightarrow> shorter b b''"
proof -
  assume a: "shorter b b'" "shorter b' b''"
  have "\<exists>d. queue_of b k = d @ queue_of b'' k" for k
  proof -
    obtain d e where "queue_of b k = d @ queue_of b' k" "queue_of b' k = e @ queue_of b'' k"
      using a unfolding shorter_def by blast
    then have "queue_of b k = (d @ e) @ queue_of b'' k" by simp
    then show ?thesis by blast
  qed
  moreover have "queued_mset b'' \<subseteq># queued_mset b"
    using a subset_mset.order_trans unfolding shorter_def by blast
  ultimately show ?thesis using a(2) unfolding shorter_def by blast
qed

lemma shorter_put:
  assumes "wf_dict (bt_queues b)" and "queue_of b k = d @ q"
    and "bt_queues b' = dput k q (bt_queues b) \<or> (q = [] \<and> bt_queues b' = dpop k (bt_queues b))"
  shows "shorter b b'"
proof -
  have get: "queue_of b' j = (if j = k then q else queue_of b j)" for j
    using assms(3) by (auto simp: dget_or_def update_conv' delete_conv')
  have "queued_mset b' + mset (queue_of b k) = queued_mset b + mset q"
    using assms(3) mset_all_queued_put [OF assms(1), of k q] mset_all_queued_pop [OF assms(1), of k] by auto
  then have "queued_mset b' + mset d = queued_mset b" by (simp add: assms(2))
  then have "queued_mset b' \<subseteq># queued_mset b" by (metis mset_subset_eq_add_left)
  moreover have "wf_dict (bt_queues b')" using assms(1,3) by auto
  ultimately show ?thesis using assms(2) by (auto simp: shorter_def get)
qed

lemma drop_heads_suffix: "\<exists>d. q = d @ sw_queue (drop_heads now q fs c e)"
  by (rule drop_heads_spec [OF refl]) blast

lemma scan_shorter:
  "scan_queues now qs b best = (b1, best1) \<Longrightarrow> wf_dict (bt_queues b) \<Longrightarrow> wf_dict qs
     \<Longrightarrow> \<forall>(k, q) \<in> set qs. dget (bt_queues b) k = Some q \<Longrightarrow> shorter b b1"
proof (induction qs arbitrary: b best)
  case Nil
  then show ?case by (simp add: shorter_refl)
next
  case (Cons p qs)
  obtain k q where p: "p = (k, q)" by (cases p)
  define s where "s = drop_heads now q (bt_futures b) 0 0"
  define b' where "b' = b\<lparr>bt_queues := dput k (sw_queue s) (bt_queues b), bt_futures := sw_futures s,
      bt_queued := bt_queued b - int (sw_cancelled s + sw_expired s),
      bt_stats := (bt_stats b)\<lparr>bs_cancelled := bs_cancelled (bt_stats b) + sw_cancelled s,
        bs_deadline_drops := bs_deadline_drops (bt_stats b) + sw_expired s\<rparr>\<rparr>"
  obtain best' where scan: "scan_queues now qs b' best' = (b1, best1)"
    using Cons.prems(1) by (simp add: p Let_def s_def b'_def)
  obtain d where "q = d @ sw_queue s" using drop_heads_suffix unfolding s_def by blast
  then have sh: "shorter b b'"
    using Cons.prems(2,4) by (intro shorter_put [of b k d "sw_queue s"]) (simp_all add: p b'_def dget_or_def)
  have k: "k \<notin> set (dkeys qs)" "wf_dict qs" using Cons.prems(3) by (simp_all add: p wf_dict_Cons)
  have "\<forall>(j, x) \<in> set qs. dget (bt_queues b') j = Some x"
    using Cons.prems(4) k(1) by (auto simp: b'_def update_conv' p image_iff split: prod.splits)
  moreover have "wf_dict (bt_queues b')" using Cons.prems(2) by (simp add: b'_def)
  ultimately have "shorter b' b1" using Cons.IH [OF scan _ k(2)] by blast
  with sh show ?case by (rule shorter_trans)
qed

lemma take_batch_suffix: "take_batch n fs q = (items, rest, c) \<Longrightarrow> \<exists>d. q = d @ rest"
proof (induction n fs q arbitrary: items rest c rule: take_batch.induct)
  case (3 n fs r q)
  then show ?case
    by (auto split: if_splits prod.splits; metis append_Cons)
qed auto

text \<open>What a selection did.\<close>

lemma bt_select_cases:
  assumes "bt_inv b" and "bt_selected b = []"
  obtains (wait) "bt_inv (bt_select now b)" and "bt_keeps b (bt_select now b)"
      and "\<forall>k r t. dget (bt_queues (bt_select now b)) k = Some (r # t) \<longrightarrow>
             now - br_submitted r < bt_max_wait b" and "shorter b (bt_select now b)"
  | (batch) k first q b1 items rest c where "bt_inv b1" and "bt_keeps b b1"
      and "dget (bt_queues b1) k = Some (first # q)" and "fresh now (bt_futures b1) first"
      and "\<forall>j r t. dget (bt_queues b1) j = Some (r # t) \<longrightarrow> br_submitted first \<le> br_submitted r"
      and "take_batch (bt_max_batch b) (bt_futures b1) (first # q) = (items, rest, c)"
      and "bt_select now b = b1\<lparr>
        bt_queues := (if rest = [] then dpop k (bt_queues b1) else dput k rest (bt_queues b1)),
        bt_queued := bt_queued b1 - int (length items + c),
        bt_stats := (bt_stats b1)\<lparr>bs_cancelled := bs_cancelled (bt_stats b1) + c\<rparr>, bt_selected := items\<rparr>"
      and "shorter b b1"
proof -
  obtain b1 best where sc: "scan_queues now (bt_queues b) b None = (b1, best)"
    by (cases "scan_queues now (bt_queues b) b None") auto
  have wf: "wf_dict (bt_queues b)" using assms(1) by (simp add: bt_inv_def queues_pure_def)
  have mem: "\<forall>(k, q)\<in>set (bt_queues b). dget (bt_queues b) k = Some q"
    using wf_dict_get_mem [OF wf] by auto
  have none: "\<forall>k h. None = Some (k, h) \<longrightarrow> k \<notin> set (dkeys (bt_queues b)) \<and>
      (\<exists>t. dget (bt_queues b) k = Some (h # t))" by simp
  note S = scan_queues_spec [OF sc assms(1) wf mem none]
  note sh = scan_shorter [OF sc wf wf mem]
  note inv1 = S [THEN conjunct1] and K = S [THEN conjunct2, THEN conjunct1]
    and out = S [THEN conjunct2, THEN conjunct2, THEN conjunct1, rule_format]
    and got = S [THEN conjunct2, THEN conjunct2, THEN conjunct2, THEN conjunct1, rule_format]
    and late = S [THEN conjunct2, THEN conjunct2, THEN conjunct2, THEN conjunct2, THEN conjunct1, rule_format]
    and oldest = S [THEN conjunct2, THEN conjunct2, THEN conjunct2, THEN conjunct2, THEN conjunct2, rule_format]
  have least: "\<exists>j h. best = Some (j, h) \<and> br_submitted h \<le> br_submitted r \<and> fresh now (bt_futures b1) r"
    if "dget (bt_queues b1) k = Some (r # t)" for k r t
  proof -
    have "k \<in> set (dkeys (bt_queues b))"
    proof (rule ccontr)
      assume k: "k \<notin> set (dkeys (bt_queues b))"
      with out [OF k] not_dkeys [OF k] that show False by simp
    qed
    with oldest [of k r t] late [of k r t] that show ?thesis by blast
  qed
  show thesis
  proof (cases best)
    case None
    then have "bt_select now b = b1" by (simp add: bt_select_def sc)
    with inv1 K least None sh show ?thesis by (intro wait) auto
  next
    case (Some kf)
    obtain k first where kf: "kf = (k, first)" by (cases kf)
    from got [of k first] Some kf obtain q where q: "dget (bt_queues b1) k = Some (first # q)" by blast
    have old: "br_submitted first \<le> br_submitted r" if "dget (bt_queues b1) j = Some (r # t)" for j r t
      using least [OF that] Some kf by auto
    show ?thesis
    proof (cases "hold_back now b1 (first # q) first")
      case True
      then have eq: "bt_select now b = b1" by (simp add: bt_select_def sc Some kf q dget_or_def)
      have "now - br_submitted first < bt_max_wait b" using True K by (simp add: hold_back_def bt_keeps_def)
      then have "now - br_submitted r < bt_max_wait b" if "dget (bt_queues b1) j = Some (r # t)" for j r t
        using old [OF that] by linarith
      with inv1 K sh show ?thesis by (intro wait) (auto simp: eq)
    next
      case False
      obtain items rest c where t: "take_batch (bt_max_batch b1) (bt_futures b1) (first # q) = (items, rest, c)"
        by (cases "take_batch (bt_max_batch b1) (bt_futures b1) (first # q)") auto
      have "bt_max_batch b1 = bt_max_batch b" using K by (simp add: bt_keeps_def)
      have fresh: "fresh now (bt_futures b1) first" using least [OF q] Some kf by auto
      have eq: "bt_select now b = b1\<lparr>
          bt_queues := (if rest = [] then dpop k (bt_queues b1) else dput k rest (bt_queues b1)),
          bt_queued := bt_queued b1 - int (length items + c),
          bt_stats := (bt_stats b1)\<lparr>bs_cancelled := bs_cancelled (bt_stats b1) + c\<rparr>, bt_selected := items\<rparr>"
        using False t q by (simp add: bt_select_def sc Some kf dget_or_def Let_def)
      show ?thesis
        by (rule batch [OF inv1 K q fresh _ _ eq sh]) (use old t \<open>bt_max_batch b1 = _\<close> in auto)
    qed
  qed
qed

lemma bt_select_inv:
  assumes inv: "bt_inv b" and idle: "bt_selected b = []"
  shows "bt_inv (bt_select now b) \<and> fs_le (bt_futures b) (bt_futures (bt_select now b))
    \<and> bt_next (bt_select now b) = bt_next b \<and> bt_running (bt_select now b) = bt_running b"
  using inv idle
proof (cases rule: bt_select_cases [of b now])
  case wait
  then show ?thesis by (simp add: bt_keeps_def)
next
  case (batch k first q b1 items rest c)
  let ?b' = "bt_select now b"
  have wf: "wf_dict (bt_queues b1)" and pure: "queues_pure (bt_queues b1)"
    and n: "bt_queued b1 = int (length (all_queued (bt_queues b1)))"
    using batch(1) by (simp_all add: bt_inv_def queues_pure_def)
  obtain d where d: "mset (first # q) = mset items + mset rest + mset d" "length d = c"
    "\<forall>r\<in>set d. future_done (dget_or (bt_futures b1) (br_id r) Pending)" "length items \<le> bt_max_batch b"
    using take_batch_spec [OF batch(6)] by blast
  have q: "dget_or (bt_queues b1) k [] = first # q" using batch(3) by (simp add: dget_or_def)
  have "mset (all_queued (bt_queues ?b')) + mset (first # q) = mset (all_queued (bt_queues b1)) + mset rest"
    using mset_all_queued_put [OF wf, of k rest] mset_all_queued_pop [OF wf, of k]
    unfolding q by (simp add: batch(7))
  then have M: "mset (all_queued (bt_queues b1)) = mset (all_queued (bt_queues ?b')) + mset items + mset d"
    unfolding d(1) by (simp add: ac_simps)
  have "size (mset (all_queued (bt_queues b1))) = size (mset (all_queued (bt_queues ?b')) + mset items + mset d)"
    by (simp only: M)
  then have len: "length (all_queued (bt_queues b1)) = length (all_queued (bt_queues ?b')) + length items + c"
    by (simp add: d(2))
  have sel: "bt_selected b1 = []" using batch(2) idle by (simp add: bt_keeps_def)
  have "set items \<union> set rest \<subseteq> set (first # q)"
    using arg_cong [OF d(1), of set_mset] by auto
  then have key: "br_key r = k" if "r \<in> set items \<union> set rest" for r
    using that queues_pure_get [OF pure, of r k] q by auto
  have "bt_inv ?b'"
  proof (rule bt_inv_leave [OF batch(1)])
    show "held b1 = held ?b' + mset d" using M sel by (simp add: held_def batch(7) ac_simps)
    show "queues_pure (bt_queues ?b')"
      using pure key by (simp add: batch(7) queues_pure_put queues_pure_pop)
    show "bt_queued ?b' = int (length (all_queued (bt_queues ?b')))"
      using len n by (simp add: batch(7))
    show "one_key (bt_selected ?b')" using key by (simp add: batch(7) one_key_def)
    show "one_key (bt_running ?b')" "length (bt_running ?b') \<le> bt_max_batch b1"
      using batch(1) by (simp_all add: batch(7) bt_inv_def)
    show "length (bt_selected ?b') \<le> bt_max_batch b1"
      using d(4) batch(2) by (simp add: batch(7) bt_keeps_def)
  qed (use d(3) in \<open>simp_all add: batch(7) fut_def\<close>)
  with batch(2) show ?thesis by (simp add: batch(7) bt_keeps_def)
qed

text \<open>The worker holds one batch at most.\<close>

definition bt_ok :: "('k, 'p) batcher \<Rightarrow> bool" where
  "bt_ok b = (bt_inv b \<and> (bt_selected b = [] \<or> bt_running b = []))"

lemma bt_submit_cases:
  obtains (refused) e st where "bt_submit now made b p k t = b\<lparr>bt_next := Suc (bt_next b),
      bt_futures := dput (bt_next b) (Finished (Inl e)) (bt_futures b), bt_stats := st\<rparr>"
  | (accepted) r st where "br_id r = bt_next b" and "br_key r = k" and "bt_queued b < int (bt_max_queue b)"
      and "bt_submit now made b p k t = b\<lparr>bt_next := Suc (bt_next b), bt_futures := dput (bt_next b) Pending (bt_futures b),
             bt_queues := dput k (dget_or (bt_queues b) k [] @ [r]) (bt_queues b),
             bt_queued := bt_queued b + 1, bt_stats := st\<rparr>"
proof (cases "bt_stopping b")
  case True
  have "b\<lparr>bt_next := n, bt_futures := fs, bt_stats := bt_stats b\<rparr> = b\<lparr>bt_next := n, bt_futures := fs\<rparr>" for n fs
    by (cases b) simp
  with True refused [where e = RuntimeError and st = "bt_stats b"] show thesis by (simp add: bt_submit_def Let_def)
next
  case run: False
  show thesis
  proof (cases "int (bt_max_queue b) \<le> bt_queued b")
    case True
    with run show thesis by (intro refused) (simp add: bt_submit_def Let_def)
  next
    case False
    with run show thesis
      by (intro accepted [of "\<lparr>br_id = bt_next b, br_payload = p, br_key = k,
          br_deadline = map_option (\<lambda>t. now + t / 1000) t, br_submitted = made\<rparr>"])
        (simp_all add: bt_submit_def Let_def)
  qed
qed

lemma bt_submit_inv:
  assumes "bt_ok b"
  shows "bt_ok (bt_submit now made b p k t)" and "bt_next (bt_submit now made b p k t) = Suc (bt_next b)"
    and "i \<noteq> bt_next b \<Longrightarrow> fut (bt_submit now made b p k t) i = fut b i"
proof -
  let ?b' = "bt_submit now made b p k t"
  note J = assms [unfolded bt_ok_def bt_inv_def]
  then have wf: "wf_dict (bt_queues b)" by (simp add: queues_pure_def)
  have ids: "image_mset br_id (held b) \<subseteq># mset [0..<Suc (bt_next b)]"
    using J by (auto intro: subset_mset.order_trans [of _ "mset [0..<bt_next b]"])
  show "bt_next ?b' = Suc (bt_next b)" by (simp add: bt_submit_def Let_def)
  show old: "fut ?b' i = fut b i" if "i \<noteq> bt_next b" for i
    using that by (simp add: bt_submit_def Let_def fut_def dict_simps)
  show "bt_ok ?b'"
  proof (cases rule: bt_submit_cases [where now = now and made = made and b = b and p = p and k = k and t = t])
    case (refused e st)
    have "open_held ?b'"
      using J old by (auto simp: open_held_def refused fut_def less_Suc_eq held_def dict_simps future_done_def)
    then show ?thesis using J ids by (simp add: bt_ok_def bt_inv_def refused held_def)
  next
    case (accepted r st)
    have M: "mset (all_queued (bt_queues ?b')) = mset (all_queued (bt_queues b)) + {#r#}"
      using mset_all_queued_put [OF wf, of k "dget_or (bt_queues b) k [] @ [r]"]
      by (simp add: accepted(4) ac_simps)
    have H: "held ?b' = add_mset r (held b)" using M by (simp add: held_def accepted(4))
    have len: "length (all_queued (bt_queues ?b')) = Suc (length (all_queued (bt_queues b)))"
      using arg_cong [OF M, of size] by simp
    have "queues_pure (bt_queues ?b')"
      using J queues_pure_get [of "bt_queues b" _ k] accepted(2) by (auto simp: accepted(4) intro!: queues_pure_put)
    moreover have "open_held ?b'"
      unfolding open_held_def H
    proof (intro allI impI)
      fix i assume "i < bt_next ?b'"
      then have "i = bt_next b \<or> i < bt_next b \<and> i \<noteq> bt_next b" by (auto simp: accepted(4))
      then show "future_done (fut ?b' i) \<or> i \<in># image_mset br_id (add_mset r (held b))"
        using J old [of i] accepted(1) by (auto simp: open_held_def)
    qed
    ultimately show ?thesis
      using J len accepted(1,3) unfolding bt_ok_def bt_inv_def H by (simp add: accepted(4))
  qed
qed

lemma bt_cancel_inv:
  "bt_ok b \<Longrightarrow> bt_ok (bt_cancel b i)" "fs_le (bt_futures b) (bt_futures (bt_cancel b i))"
proof -
  have le: "fs_le (bt_futures b) (bt_futures (bt_cancel b i))"
    by (auto simp: bt_cancel_def fs_le_def dict_simps dget_or_def future_done_def split: option.split future.split)
  then show "fs_le (bt_futures b) (bt_futures (bt_cancel b i))" .
  have same: "held (bt_cancel b i) = held b" "bt_queues (bt_cancel b i) = bt_queues b"
    "bt_selected (bt_cancel b i) = bt_selected b" "bt_running (bt_cancel b i) = bt_running b"
    "bt_next (bt_cancel b i) = bt_next b" "bt_queued (bt_cancel b i) = bt_queued b"
    "bt_max_batch (bt_cancel b i) = bt_max_batch b" "bt_max_queue (bt_cancel b i) = bt_max_queue b"
    by (auto simp: bt_cancel_def held_def split: option.split future.split)
  assume ok: "bt_ok b"
  have "bt_inv (bt_cancel b i)"
    by (rule bt_inv_leave [of b _ "[]"]) (use ok same le in \<open>auto simp: bt_ok_def bt_inv_def\<close>)
  with ok same show "bt_ok (bt_cancel b i)" by (simp add: bt_ok_def)
qed

lemma all_queued_cleared [simp]: "all_queued (map (\<lambda>(k, q). (k, [])) qs) = []"
  by (induction qs) (auto simp: all_queued_def)

lemma bt_close_inv:
  assumes "bt_ok b"
  shows "bt_ok (bt_close b c)" and "fs_le (bt_futures b) (bt_futures (bt_close b c))"
    and "c \<Longrightarrow> all_queued (bt_queues (bt_close b c)) = []" and "bt_next (bt_close b c) = bt_next b"
    and "bt_stopping (bt_close b c)"
proof -
  let ?b' = "bt_close b c"
  show le: "fs_le (bt_futures b) (bt_futures ?b')" by (simp add: bt_close_def fold_settle(1))
  show "c \<Longrightarrow> all_queued (bt_queues ?b') = []" "bt_next ?b' = bt_next b" "bt_stopping ?b'"
    by (simp_all add: bt_close_def)
  note J = assms [unfolded bt_ok_def bt_inv_def]
  have keys: "dkeys (map (\<lambda>(k, q). (k, [])) qs) = dkeys qs" for qs :: "('a, ('a, 'b) batch_req list) dict"
    by (induction qs) auto
  have pure: "queues_pure (map (\<lambda>(k, q). (k, [])) (bt_queues b))"
    using J unfolding queues_pure_def wf_dict_def keys by (auto dest!: map_of_SomeD)
  have "bt_inv ?b'"
  proof (rule bt_inv_leave [of b _ "if c then all_queued (bt_queues b) else []"])
    show "\<forall>r\<in>set (if c then all_queued (bt_queues b) else []). future_done (fut ?b' (br_id r))"
      using fold_settle(2) [of "all_queued (bt_queues b)"] by (simp add: bt_close_def fut_def)
  qed (use J le pure in \<open>auto simp: bt_close_def held_def ac_simps bt_inv_def\<close>)
  with J show "bt_ok ?b'" by (simp add: bt_ok_def bt_close_def)
qed

lemma bt_start_inv:
  assumes "bt_ok b" and "bt_selected b \<noteq> []"
  shows "bt_ok (bt_start now b)" and "bt_futures (bt_start now b) = bt_futures b"
    and "bt_next (bt_start now b) = bt_next b"
proof -
  let ?b' = "bt_start now b" and ?a = "filter (\<lambda>r. fut b (br_id r) \<noteq> Cancelled) (bt_selected b)"
  let ?d = "filter (\<lambda>r. fut b (br_id r) = Cancelled) (bt_selected b)"
  have run: "bt_running b = []" using assms by (simp add: bt_ok_def)
  have parts: "bt_selected ?b' = []" "bt_running ?b' = ?a" "bt_queues ?b' = bt_queues b"
    "bt_queued ?b' = bt_queued b" "bt_max_batch ?b' = bt_max_batch b" "bt_max_queue ?b' = bt_max_queue b"
    using run by (auto simp: bt_start_def Let_def)
  show futs: "bt_futures ?b' = bt_futures b" and nxt: "bt_next ?b' = bt_next b"
    by (simp_all add: bt_start_def Let_def)
  note J = assms(1) [unfolded bt_ok_def bt_inv_def]
  have "mset (bt_selected b) = mset ?a + mset ?d"
    using multiset_partition [of "mset (bt_selected b)" "\<lambda>r. fut b (br_id r) \<noteq> Cancelled"] by simp
  then have H: "held b = held ?b' + mset ?d" using run parts by (simp add: held_def ac_simps)
  have len: "length ?a \<le> bt_max_batch b"
    using J length_filter_le [of "\<lambda>r. fut b (br_id r) \<noteq> Cancelled" "bt_selected b"] by linarith
  have key: "one_key ?a" using J by (auto intro: one_key_sub)
  have dn: "\<forall>r\<in>set ?d. future_done (fut ?b' (br_id r))" by (simp add: fut_def futs future_done_def)
  have "bt_inv ?b'"
    by (rule bt_inv_leave [OF _ H _ dn])
      (use J futs nxt parts len key in \<open>simp_all add: bt_inv_def\<close>)
  with parts show "bt_ok ?b'" by (simp add: bt_ok_def)
qed

lemma running_distinct:
  assumes "bt_inv b"
  shows "distinct (map br_id (bt_running b))" and "\<forall>r\<in>set (bt_running b). br_id r < bt_next b"
proof -
  have sub: "mset (map br_id (bt_running b)) \<subseteq># mset [0..<bt_next b]"
    using assms unfolding bt_inv_def held_def
    by (metis image_mset_union mset_map mset_subset_eq_add_right subset_mset.order_trans)
  have "count (mset (map br_id (bt_running b))) a \<le> 1" for a
    using mset_subset_eq_count [OF sub, of a] distinct_count_atmost_1 [of "[0..<bt_next b]"]
    by (simp split: if_splits)
  then show "distinct (map br_id (bt_running b))"
    by (metis One_nat_def count_mset_0_iff distinct_count_atmost_1 le_Suc_eq le_zero_eq)
  show "\<forall>r\<in>set (bt_running b). br_id r < bt_next b"
    using mset_subset_eqD [OF sub] by auto
qed

definition answer_for :: "json list result \<Rightarrow> nat \<Rightarrow> nat \<Rightarrow> json result" where
  "answer_for ans n j =
     (case ans of Inl e \<Rightarrow> Inl e | Inr vs \<Rightarrow> if length vs = n then Inr (vs ! j) else Inl ValueError)"

lemma fold_settle_const:
  "dget_or (fold (\<lambda>r. settle (br_id r) v) rs fs) i Pending =
    (if i \<in> br_id ` set rs \<and> \<not> future_done (dget_or fs i Pending) then Finished v else dget_or fs i Pending)"
  by (induction rs arbitrary: fs) (auto simp: settle_def dict_simps future_done_def)

lemma bt_finish_fut:
  assumes "bt_inv b"
  shows "fut (bt_finish t ans b) i =
    (if i \<in> br_id ` set (bt_running b) \<and> \<not> future_done (fut b i)
     then Finished (answer_for ans (length (bt_running b))
            (length (takeWhile (\<lambda>r. br_id r \<noteq> i) (bt_running b))))
     else fut b i)"
proof (cases "\<exists>vs. ans = Inr vs \<and> length vs = length (bt_running b)")
  case True
  then obtain vs where vs: "ans = Inr vs" "length vs = length (bt_running b)" by blast
  show ?thesis
    using fold_settle_zip [OF running_distinct(1) [OF assms] vs(2), of "bt_futures b" i] vs
    by (simp add: bt_finish_def Let_def fut_def answer_for_def)
next
  case False
  then show ?thesis
    by (cases ans) (auto simp: bt_finish_def Let_def fut_def answer_for_def fold_settle_const)
qed

lemma bt_finish_inv:
  assumes "bt_ok b"
  shows "bt_ok (bt_finish t ans b)" and "fs_le (bt_futures b) (bt_futures (bt_finish t ans b))"
    and "bt_next (bt_finish t ans b) = bt_next b"
proof -
  let ?b' = "bt_finish t ans b"
  have inv: "bt_inv b" using assms by (simp add: bt_ok_def)
  show le: "fs_le (bt_futures b) (bt_futures ?b')"
    using bt_finish_fut [OF inv, of t ans] by (simp add: fs_le_def fut_def)
  have parts: "bt_running ?b' = []" "bt_queues ?b' = bt_queues b" "bt_selected ?b' = bt_selected b"
    "bt_queued ?b' = bt_queued b" "bt_max_batch ?b' = bt_max_batch b" "bt_max_queue ?b' = bt_max_queue b"
    by (simp_all add: bt_finish_def Let_def split_beta)
  show nxt: "bt_next ?b' = bt_next b" by (simp add: bt_finish_def Let_def split_beta)
  have H: "held b = held ?b' + mset (bt_running b)" by (simp add: held_def parts)
  have dn: "\<forall>r\<in>set (bt_running b). future_done (fut ?b' (br_id r))"
    using bt_finish_fut [OF inv, of t ans] by (simp add: future_done_def)
  have "bt_inv ?b'"
    by (rule bt_inv_leave [OF inv H le dn nxt]) (use inv parts in \<open>simp_all add: bt_inv_def\<close>)
  with parts show "bt_ok ?b'" by (simp add: bt_ok_def)
qed

lemma bt_step_ok: "bt_ok b \<Longrightarrow> bt_ok (bt_step b ev)"
proof (cases ev)
  case (Select now)
  assume "bt_ok b"
  then show ?thesis
    using Select bt_select_inv [of b now] by (auto simp: bt_ok_def)
qed (simp_all add: bt_submit_inv bt_cancel_inv bt_close_inv bt_start_inv bt_finish_inv)

lemma bt_step_final:
  assumes "bt_ok b" and "i < bt_next b" and "future_done (fut b i)"
  shows "fut (bt_step b ev) i = fut b i" and "bt_next b \<le> bt_next (bt_step b ev)"
proof -
  have le: "fs_le (bt_futures b) (bt_futures b') \<Longrightarrow> fut b' i = fut b i" for b' :: "('a, 'b) batcher"
    using assms(3) by (simp add: fs_le_def fut_def)
  show "fut (bt_step b ev) i = fut b i"
  proof (cases ev)
    case (Select now)
    show ?thesis
    proof (cases "bt_selected b = [] \<and> bt_running b = [] \<and> 0 < bt_queued b")
      case True
      with bt_select_inv [of b now] assms(1) have "fs_le (bt_futures b) (bt_futures (bt_select now b))"
        by (simp add: bt_ok_def)
      from le [OF this] True Select show ?thesis by simp
    next
      case False
      then have "bt_step b ev = b" unfolding Select by (simp only: bt_step.simps if_False)
      then show ?thesis by simp
    qed
  next
    case (Start now)
    then show ?thesis using bt_start_inv(2) [OF assms(1)] by (simp add: fut_def)
  next
    case (Submit now made p k t)
    then show ?thesis using bt_submit_inv(3) [OF assms(1), of i] assms(2) by simp
  next
    case (Cancel j)
    then show ?thesis using le [OF bt_cancel_inv(2)] by simp
  next
    case (Close c)
    then show ?thesis using le [OF bt_close_inv(2) [OF assms(1)]] by simp
  next
    case (Finish t ans)
    then show ?thesis using le [OF bt_finish_inv(2) [OF assms(1)]] by simp
  qed
  show "bt_next b \<le> bt_next (bt_step b ev)"
  proof (cases ev)
    case (Select now)
    then show ?thesis using bt_select_inv [of b now] assms(1) by (auto simp: bt_ok_def)
  qed (use assms(1) in \<open>auto simp: bt_submit_inv bt_close_inv bt_start_inv bt_finish_inv bt_cancel_def
         split: option.split future.split\<close>)
qed

interpretation bt_machine: kept_invariant bt_step bt_ok
  by unfold_locales (rule bt_step_ok)

lemma bt_run_final:
  "bt_ok b \<Longrightarrow> i < bt_next b \<Longrightarrow> future_done (fut b i) \<Longrightarrow> fut (bt_run b es) i = fut b i"
proof (induction es arbitrary: b)
  case (Cons e es)
  from bt_step_final [OF Cons.prems, of e] bt_step_ok [OF Cons.prems(1), of e] Cons.IH [of "bt_step b e"] Cons.prems
  show ?case by simp
qed simp

lemma new_batcher_ok: "new_batcher mb w t mq = Inr b \<Longrightarrow> bt_ok b"
  by (auto simp: new_batcher_def bt_ok_def bt_inv_def held_def all_queued_def open_held_def queues_pure_def
      split: if_splits)

section \<open>Properties\<close>

text \<open>C16. The batcher loses no request and answers none twice. After any sequence of submissions, cancellations,
  closings and worker steps: every request ever submitted has a finished or cancelled future, or is in
  exactly one of the queues, the selected and the running batch; the counter of queued requests is exact
  and never above the limit; a batch never exceeds its maximal size and never mixes compatibility keys;
  and a future that is done keeps its value in every later state.\<close>

theorem batcher_loses_no_request:
  assumes "new_batcher max_batch wait_ms target_ms max_queue = Inr b0" and "b = bt_run b0 es"
  shows "(\<forall>i<bt_next b. future_done (fut b i) \<or> i \<in># image_mset br_id (held b))
    \<and> image_mset br_id (held b) \<subseteq># mset [0..<bt_next b]
    \<and> bt_queued b = int (length (all_queued (bt_queues b))) \<and> bt_queued b \<le> int (bt_max_queue b)
    \<and> one_key (bt_selected b) \<and> one_key (bt_running b)
    \<and> length (bt_selected b) \<le> bt_max_batch b \<and> length (bt_running b) \<le> bt_max_batch b
    \<and> (\<forall>es' i. i < bt_next b \<longrightarrow> future_done (fut b i) \<longrightarrow> fut (bt_run b es') i = fut b i)"
proof -
  have "bt_ok b" unfolding assms(2) by (rule bt_machine.run_invar [OF new_batcher_ok [OF assms(1)]])
  then show ?thesis using bt_run_final [of b] by (simp add: bt_ok_def bt_inv_def open_held_def)
qed

definition demo_batcher :: "(string, json) batcher" where
  "demo_batcher =
     \<lparr>bt_max_batch = 2, bt_max_wait = 2 / 1000, bt_target = 1 / 10, bt_max_queue = 4, bt_queues = [],
      bt_futures = [], bt_next = 0, bt_stopping = False, bt_queued = 0, bt_stats = zero_stats,
      bt_selected = [], bt_running = []\<rparr>"

definition demo_events :: "(string, json) bt_event list" where
  "demo_events =
     [Submit 0 0 (JInt 1) ''a'' None, Submit 0 0 (JInt 2) ''b'' None, Submit 0 0 (JInt 3) ''a'' None,
      Cancel 1, Select 1, Start 1]"

lemma demo_new: "new_batcher 2 2 100 4 = Inr demo_batcher"
  by (simp add: new_batcher_def demo_batcher_def)

lemma demo_run:
  "map br_id (bt_running (bt_run demo_batcher demo_events)) = [0, 2]"
  "bt_next (bt_run demo_batcher demo_events) = 3"
  "fut (bt_run demo_batcher demo_events) 0 = Pending" "fut (bt_run demo_batcher demo_events) 1 = Cancelled"
  "fut (bt_run demo_batcher demo_events) 2 = Pending"
  by (simp_all add: demo_batcher_def demo_events_def bt_submit_def bt_cancel_def bt_select_def bt_start_def
      Let_def dget_or_def hold_back_def fut_def expired_def numeral_2_eq_2)

theorem batcher_loses_no_request_witness:
  "\<forall>es'. fut (bt_run (bt_run demo_batcher demo_events) es') 1 = Cancelled"
  using batcher_loses_no_request [OF demo_new refl, of demo_events] demo_run(2,4)
  by (auto simp: future_done_def)

text \<open>Answers go to the requests they were computed for. When the model returns one answer per request,
  the \<open>j\<close>th request of the running batch gets the \<open>j\<close>th answer; if it raises, or returns another number of
  answers, every request of the batch gets that error; a future that was already cancelled or
  finished, and every future outside the batch, is left alone.\<close>

theorem batch_delivers_in_order:
  assumes "new_batcher max_batch wait_ms target_ms max_queue = Inr b0" and "b = bt_run b0 es"
  shows "(\<forall>j<length (bt_running b). fut (bt_finish t ans b) (br_id (bt_running b ! j)) =
        (if future_done (fut b (br_id (bt_running b ! j))) then fut b (br_id (bt_running b ! j))
         else Finished (answer_for ans (length (bt_running b)) j)))
    \<and> (\<forall>i. i \<notin> br_id ` set (bt_running b) \<longrightarrow> fut (bt_finish t ans b) i = fut b i)
    \<and> bt_running (bt_finish t ans b) = []"
proof -
  have ok: "bt_inv b"
    using bt_machine.run_invar [OF new_batcher_ok [OF assms(1)], of es] by (simp add: assms(2) bt_ok_def)
  have "length (takeWhile (\<lambda>r. br_id r \<noteq> br_id (bt_running b ! j)) (bt_running b)) = j"
    if j: "j < length (bt_running b)" for j
  proof -
    have "takeWhile (\<lambda>r. br_id r \<noteq> br_id (bt_running b ! j)) (bt_running b) = take j (bt_running b)"
    proof (rule takeWhile_eq_take_P_nth)
      fix i assume "i < j" "i < length (bt_running b)"
      with j running_distinct(1) [OF ok] show "br_id (bt_running b ! i) \<noteq> br_id (bt_running b ! j)"
        by (metis distinct_conv_nth length_map nat_neq_iff nth_map)
    qed simp
    with j show ?thesis by simp
  qed
  then show ?thesis
    by (simp add: bt_finish_fut [OF ok]) (simp add: bt_finish_def Let_def split_beta)
qed

theorem batch_delivers_in_order_witness:
  "fut (bt_finish 5 (Inr [JStr ''x'', JStr ''y'']) (bt_run demo_batcher demo_events)) 2 = Finished (Inr (JStr ''y''))"
proof -
  let ?b = "bt_run demo_batcher demo_events"
  have r: "length (bt_running ?b) = 2" "br_id (bt_running ?b ! 1) = 2"
    using demo_run(1) by (auto simp: map_eq_Cons_conv numeral_2_eq_2)
  have "1 < length (bt_running ?b)" using r(1) by simp
  with batch_delivers_in_order [OF demo_new refl, of demo_events 5 "Inr [JStr ''x'', JStr ''y'']"]
  have "fut (bt_finish 5 (Inr [JStr ''x'', JStr ''y'']) ?b) (br_id (bt_running ?b ! 1)) =
    (if future_done (fut ?b (br_id (bt_running ?b ! 1))) then fut ?b (br_id (bt_running ?b ! 1))
     else Finished (answer_for (Inr [JStr ''x'', JStr ''y'']) (length (bt_running ?b)) 1))" by blast
  then show ?thesis by (simp only: r demo_run(5)) (simp add: answer_for_def future_done_def)
qed

text \<open>The oldest head goes first. A selection by an idle worker either leaves
  every queue with a head younger than \<open>max_wait\<close> and takes nothing, or takes a nonempty batch that starts
  with the oldest head among all queues, all of its key, neither expired nor cancelled at the head, and
  fills it up to the maximal size unless that queue is emptied.\<close>

theorem selection_is_fair:
  assumes "new_batcher max_batch wait_ms target_ms max_queue = Inr b0" and "b = bt_run b0 es"
    and "bt_selected b = []" and "b' = bt_select now b"
  shows "bt_selected b' = [] \<and>
      (\<forall>k r t. dget (bt_queues b') k = Some (r # t) \<longrightarrow> now - br_submitted r < bt_max_wait b)
    \<or> (\<exists>k first items. bt_selected b' = first # items \<and> (\<forall>r\<in>set items. br_key r = k) \<and> br_key first = k
        \<and> fresh now (bt_futures b') first
        \<and> (\<forall>j r t. j \<noteq> k \<longrightarrow> dget (bt_queues b') j = Some (r # t) \<longrightarrow> br_submitted first \<le> br_submitted r)
        \<and> (length (bt_selected b') < bt_max_batch b \<longrightarrow> dget (bt_queues b') k = None))"
proof -
  have ok: "bt_inv b" and pos: "0 < bt_max_batch b"
  proof -
    show "bt_inv b"
      using bt_machine.run_invar [OF new_batcher_ok [OF assms(1)], of es] by (simp add: assms(2) bt_ok_def)
    then show "0 < bt_max_batch b" by (simp add: bt_inv_def)
  qed
  show ?thesis
    using ok assms(3)
  proof (cases rule: bt_select_cases [of b now])
    case wait
    with assms(3,4) show ?thesis by (simp add: bt_keeps_def)
  next
    case (batch k first q b1 items rest c)
    obtain n where n: "bt_max_batch b = Suc n" using pos by (cases "bt_max_batch b") auto
    from batch(4) have "dget_or (bt_futures b1) (br_id first) Pending \<noteq> Cancelled" by (simp add: fresh_def)
    with batch(6) n obtain items' where items: "items = first # items'"
      by (auto split: prod.splits)
    have pure: "queues_pure (bt_queues b1)" using batch(1) by (simp add: bt_inv_def)
    obtain d where "mset (first # q) = mset items + mset rest + mset d"
      using take_batch_spec [OF batch(6)] by blast
    then have "set items \<subseteq> set (first # q)" by (metis set_mset_mset set_mset_union Un_subset_iff order_refl)
    then have key: "br_key r = k" if "r \<in> set items" for r
      using that queues_pure_get [OF pure, of r k] batch(3) by (auto simp: dget_or_def)
    have "length items < bt_max_batch b \<longrightarrow> rest = []" using take_batch_spec [OF batch(6)] by blast
    with batch(4,5) key items show ?thesis
      by (intro disjI2 exI [of _ k] exI [of _ first] exI [of _ items'])
        (auto simp: assms(4) batch(7) delete_conv' update_conv' split: if_splits)
  qed
qed

theorem selection_is_fair_witness:
  "\<exists>first items. bt_selected (bt_select 1 (bt_run demo_batcher (take 4 demo_events))) = first # items"
proof -
  let ?b = "bt_run demo_batcher (take 4 demo_events)"
  have s: "bt_selected ?b = []" "map br_id (bt_selected (bt_select 1 ?b)) = [0, 2]"
    by (simp_all add: demo_batcher_def demo_events_def bt_submit_def bt_cancel_def bt_select_def
        Let_def dget_or_def hold_back_def expired_def numeral_2_eq_2)
  from s(2) have "bt_selected (bt_select 1 ?b) \<noteq> []" by auto
  with selection_is_fair [OF demo_new refl s(1) refl, of 1] show ?thesis by blast
qed

text \<open>Closing with \<open>cancel_pending\<close> settles every request that is not in the worker's hands, and after the
  worker has delivered the batch it holds, every future there is.\<close>

theorem close_settles_all:
  assumes "new_batcher max_batch wait_ms target_ms max_queue = Inr b0" and "b = bt_run b0 es"
    and "i < bt_next b"
  shows "future_done (fut (bt_close b True) i) \<or> i \<in> br_id ` set (bt_selected b @ bt_running b)"
proof -
  have "bt_ok b" unfolding assms(2) by (rule bt_machine.run_invar [OF new_batcher_ok [OF assms(1)]])
  note C = bt_close_inv [OF this, of True]
  then have "open_held (bt_close b True)" by (simp add: bt_ok_def bt_inv_def)
  moreover have "held (bt_close b True) = mset (bt_selected b @ bt_running b)"
    using C(3) by (simp add: held_def bt_close_def)
  ultimately show ?thesis using C(4) assms(3) by (auto simp: open_held_def)
qed

theorem close_settles_all_witness:
  "future_done (fut (bt_close (bt_run demo_batcher (take 1 demo_events)) True) 0)"
  using close_settles_all [OF demo_new refl, of 0 "take 1 demo_events"]
  by (auto simp: demo_batcher_def demo_events_def bt_submit_def Let_def dget_or_def)

end
