(* ===== verification/Pod_Cache.thy ===== *)
theory Pod_Cache
  imports Py_Values
begin

text \<open>
  \<open>neural_pods/pod_cache.py\<close>: the two-level result cache of searches.

  \<^item> \<open>cache_key\<close>, \<open>cache_query\<close>, \<open>key_of\<close>, \<open>hard_filters\<close>: keys and the filters handed to the backend.
    The canonical JSON and its SHA-256 are the parameters \<open>canon\<close> and \<open>digest\<close>.
  \<^item> \<open>cache\<close>: the LRU dictionary (oldest first), the pinned keys, the keys with an event in
    \<open>_inflight\<close>, the counters; \<open>pc_callers\<close> are the keys whose owning call has not returned.
  \<^item> \<open>pc_lookup\<close>, \<open>pc_l2\<close>, \<open>pc_done\<close>: the three parts of \<open>search\<close> between which other threads run: the
    look into the dictionary, the look into Redis, and the backend's answer with the insertion.
  \<^item> \<open>pc_invalidate\<close>, \<open>pc_pin\<close>, \<open>pc_unpin\<close>, \<open>pc_drop_stale\<close>, \<open>pc_stats\<close>: the rest.

  The revision is the one the backend's metadata reports for the namespace; Redis' and the backend's
  answers and the clock are arguments of the steps.
\<close>

section \<open>Keys\<close>

record cache_key =
  ck_namespace :: string
  ck_branch :: string
  ck_pod_type :: "string option"
  ck_tags :: "string list"
  ck_query :: string
  ck_vector_digest :: string
  ck_filters :: string
  ck_principal :: "string option"
  ck_generation :: "string option"
  ck_rank_profile :: "string option"
  ck_revision :: "string option"
  ck_top_k :: int

record cache_query =
  cq_namespace :: string
  cq_branch :: string
  cq_text :: string
  cq_vector :: "json list option"
  cq_pod_type :: "string option"
  cq_tags :: "string list"
  cq_filters :: "(string, json) dict"
  cq_principal :: "string option"
  cq_top_k :: int
  cq_generation :: "string option"
  cq_rank_profile :: "json option"

definition sorted_tags :: "string list \<Rightarrow> string list" where
  "sorted_tags xs = sort (remdups xs)"

definition key_of :: "(json \<Rightarrow> string) \<Rightarrow> (string \<Rightarrow> string) \<Rightarrow> cache_query \<Rightarrow> string option \<Rightarrow> cache_key" where
  "key_of canon digest q revn =
     \<lparr>ck_namespace = cq_namespace q, ck_branch = cq_branch q, ck_pod_type = cq_pod_type q,
      ck_tags = sorted_tags (cq_tags q), ck_query = cq_text q,
      ck_vector_digest = (case cq_vector q of
          None \<Rightarrow> []
        | Some v \<Rightarrow> if canon (JList v) = [] then [] else digest (canon (JList v))),
      ck_filters = canon (JObj (cq_filters q)), ck_principal = cq_principal q,
      ck_generation = cq_generation q, ck_rank_profile = map_option canon (cq_rank_profile q),
      ck_revision = revn, ck_top_k = cq_top_k q\<rparr>"

definition opt_str :: "string option \<Rightarrow> json" where
  "opt_str v = (case v of None \<Rightarrow> JNull | Some s \<Rightarrow> JStr s)"

definition redis_key :: "(json \<Rightarrow> string) \<Rightarrow> (string \<Rightarrow> string) \<Rightarrow> cache_key \<Rightarrow> string" where
  "redis_key canon digest k =
     ''np:'' @ ck_namespace k @ '':'' @ digest (canon (JList
       [JStr (ck_namespace k), JStr (ck_branch k), opt_str (ck_pod_type k),
        JList (map JStr (ck_tags k)), JStr (ck_query k), JStr (ck_vector_digest k),
        JStr (ck_filters k), opt_str (ck_principal k), opt_str (ck_generation k),
        opt_str (ck_rank_profile k), opt_str (ck_revision k), JInt (ck_top_k k)]))"

text \<open>The filters handed to the backend.\<close>

definition hard_filters :: "cache_query \<Rightarrow> (string, json) dict" where
  "hard_filters q =
     (let f = (case cq_pod_type q of None \<Rightarrow> cq_filters q | Some t \<Rightarrow> dput ''type'' (JStr t) (cq_filters q))
      in if cq_tags q = [] then f
         else dput ''tags'' (JObj [(''contains'', JList (map JStr (sorted_tags (cq_tags q))))]) f)"

section \<open>State\<close>

record cache =
  pc_max_entries :: nat
  pc_ttl :: real
  pc_data :: "(cache_key, real \<times> json list) dict"
  pc_inflight :: "cache_key list"
  pc_pinned :: "cache_key list"
  pc_hits :: nat
  pc_misses :: nat
  pc_evictions :: nat
  pc_redis_hits :: nat
  pc_redis_stores :: nat
  pc_redis_errors :: nat
  pc_callers :: "cache_key list"

definition new_cache :: "int \<Rightarrow> real \<Rightarrow> cache result" where
  "new_cache max_entries ttl =
     (if max_entries < 1 \<or> ttl \<le> 0 then Inl ValueError
      else Inr \<lparr>pc_max_entries = nat max_entries, pc_ttl = ttl, pc_data = [], pc_inflight = [],
                pc_pinned = [], pc_hits = 0, pc_misses = 0, pc_evictions = 0, pc_redis_hits = 0,
                pc_redis_stores = 0, pc_redis_errors = 0, pc_callers = []\<rparr>)"

text \<open>\<open>data[k] = v; data.move_to_end(k)\<close>.\<close>

definition put_last :: "'k \<Rightarrow> 'v \<Rightarrow> ('k, 'v) dict \<Rightarrow> ('k, 'v) dict" where
  "put_last k v d = dpop k d @ [(k, v)]"

section \<open>Search\<close>

definition pc_drop_stale :: "cache \<Rightarrow> string \<Rightarrow> string option \<Rightarrow> cache" where
  "pc_drop_stale c ns revn =
     (case revn of
        None \<Rightarrow> c
      | Some _ \<Rightarrow>
          (let stale = (\<lambda>k. ck_namespace k = ns \<and> ck_revision k \<noteq> revn)
           in c\<lparr>pc_data := filter (\<lambda>(k, v). \<not> stale k) (pc_data c),
                pc_pinned := filter (\<lambda>k. \<not> (stale k \<and> k \<in> set (dkeys (pc_data c)))) (pc_pinned c)\<rparr>))"

datatype lookup = Hit "json list" | Owner | Wait

text \<open>One round of the \<open>while True\<close> loop: a fresh entry, the call that must fetch, or a wait on the event
  of the call that does.\<close>

definition pc_lookup :: "real \<Rightarrow> cache \<Rightarrow> cache_key \<Rightarrow> lookup \<times> cache" where
  "pc_lookup now c k =
     (case dget (pc_data c) k of
        Some (t, xs) \<Rightarrow>
          if now - t < pc_ttl c
          then (Hit xs, c\<lparr>pc_hits := Suc (pc_hits c), pc_data := put_last k (t, xs) (pc_data c)\<rparr>)
          else if k \<in> set (pc_inflight c) then (Wait, c)
          else (Owner, c\<lparr>pc_inflight := pc_inflight c @ [k], pc_callers := pc_callers c @ [k],
                         pc_misses := Suc (pc_misses c)\<rparr>)
      | None \<Rightarrow>
          if k \<in> set (pc_inflight c) then (Wait, c)
          else (Owner, c\<lparr>pc_inflight := pc_inflight c @ [k], pc_callers := pc_callers c @ [k],
                         pc_misses := Suc (pc_misses c)\<rparr>))"

definition pc_search :: "real \<Rightarrow> cache \<Rightarrow> cache_key \<Rightarrow> lookup \<times> cache" where
  "pc_search now c k = pc_lookup now (pc_drop_stale c (ck_namespace k) (ck_revision k)) k"

text \<open>The owner asks Redis. On a hit the call returns from inside the loop.\<close>

datatype l2_answer = L2_Miss | L2_Error | L2_Hit "json list"

definition pc_l2 :: "real \<Rightarrow> cache \<Rightarrow> cache_key \<Rightarrow> l2_answer \<Rightarrow> json list option \<times> cache" where
  "pc_l2 now c k ans =
     (case ans of
        L2_Miss \<Rightarrow> (None, c)
      | L2_Error \<Rightarrow> (None, c\<lparr>pc_redis_errors := Suc (pc_redis_errors c)\<rparr>)
      | L2_Hit xs \<Rightarrow>
          (Some xs, c\<lparr>pc_data := put_last k (now, xs) (pc_data c), pc_hits := Suc (pc_hits c),
                      pc_redis_hits := Suc (pc_redis_hits c), pc_callers := remove1 k (pc_callers c)\<rparr>))"

text \<open>Evict the least recently used entries that are not pinned.\<close>

function evict :: "nat \<Rightarrow> cache_key list \<Rightarrow> (cache_key, 'v) dict \<Rightarrow> nat \<Rightarrow> (cache_key, 'v) dict \<times> nat" where
  "evict m pins d n =
     (if length d \<le> m then (d, n)
      else case find (\<lambda>k. k \<notin> set pins) (dkeys d) of
             None \<Rightarrow> (d, n)
           | Some k \<Rightarrow> evict m pins (dpop k d) (Suc n))"
  by pat_completeness auto

lemma find_mem: "find P xs = Some x \<Longrightarrow> x \<in> set xs" "find P xs = Some x \<Longrightarrow> P x"
  by (induction xs) (auto split: if_splits)

lemma dpop_shorter: "k \<in> set (dkeys d) \<Longrightarrow> length (dpop k d) < length d"
proof (induction d)
  case (Cons p d)
  then show ?case
    using length_delete_le [of k d] by (cases p) (auto simp: le_imp_less_Suc)
qed simp

termination evict
proof (relation "measure (\<lambda>(m, pins, d, n). length d)", simp)
  fix m pins and d :: "(cache_key, 'v) dict" and n k
  assume "find (\<lambda>k. k \<notin> set pins) (dkeys d) = Some k"
  then have "k \<in> set (dkeys d)" by (simp only: find_mem)
  then show "((m, pins, dpop k d, Suc n), (m, pins, d, n)) \<in> measure (\<lambda>(m, pins, d, n). length d)"
    using dpop_shorter by simp
qed

declare evict.simps [simp del]

text \<open>The backend's answer: stored and, if it raised, only the event is withdrawn. \<open>stored\<close> says
  what became of the write to Redis, if there is one.\<close>

definition pc_done :: "real \<Rightarrow> cache \<Rightarrow> cache_key \<Rightarrow> json list result \<Rightarrow> bool option \<Rightarrow> json list result \<times> cache" where
  "pc_done now c k ans stored =
     (let c1 = (case ans of
          Inl e \<Rightarrow> c
        | Inr xs \<Rightarrow>
            (let (d, n) = evict (pc_max_entries c) (pc_pinned c) (put_last k (now, xs) (pc_data c)) (pc_evictions c)
             in c\<lparr>pc_data := d, pc_evictions := n,
                  pc_redis_stores := pc_redis_stores c + (if stored = Some True then 1 else 0),
                  pc_redis_errors := pc_redis_errors c + (if stored = Some False then 1 else 0)\<rparr>))
      in (ans, c1\<lparr>pc_inflight := removeAll k (pc_inflight c1), pc_callers := remove1 k (pc_callers c1)\<rparr>))"

section \<open>Invalidation and pinning\<close>

record cache_scope =
  sc_namespace :: "string option"
  sc_branch :: "string option"
  sc_pod_type :: "string option"
  sc_tags :: "string list"

definition in_scope :: "cache_scope \<Rightarrow> cache_key \<Rightarrow> bool" where
  "in_scope s k =
     ((sc_namespace s = None \<or> sc_namespace s = Some (ck_namespace k))
      \<and> (sc_branch s = None \<or> sc_branch s = Some (ck_branch k))
      \<and> (sc_pod_type s = None \<or> sc_pod_type s = ck_pod_type k)
      \<and> (sc_tags s = [] \<or> (\<exists>t\<in>set (sc_tags s). t \<in> set (ck_tags k))))"

definition pc_invalidate :: "cache \<Rightarrow> cache_scope \<Rightarrow> nat \<times> cache" where
  "pc_invalidate c s =
     (length (filter (in_scope s) (dkeys (pc_data c))),
      c\<lparr>pc_data := filter (\<lambda>(k, v). \<not> in_scope s k) (pc_data c),
        pc_pinned := filter (\<lambda>k. \<not> (in_scope s k \<and> k \<in> set (dkeys (pc_data c)))) (pc_pinned c)\<rparr>)"

text \<open>The end of \<open>pin_query\<close>, after its search.\<close>

definition pc_pin :: "cache \<Rightarrow> cache_key \<Rightarrow> cache" where
  "pc_pin c k =
     (if dget (pc_data c) k \<noteq> None then c\<lparr>pc_pinned := List.insert k (pc_pinned c)\<rparr> else c)"

definition pc_unpin :: "cache \<Rightarrow> cache_scope \<Rightarrow> nat \<times> cache" where
  "pc_unpin c s =
     (let pins = filter (\<lambda>k. \<not> in_scope s k) (pc_pinned c);
          (d, n) = evict (pc_max_entries c) pins (pc_data c) (pc_evictions c)
      in (length (filter (in_scope s) (pc_pinned c)), c\<lparr>pc_pinned := pins, pc_data := d, pc_evictions := n\<rparr>))"

record cache_stats =
  cs_entries :: nat
  cs_hits :: nat
  cs_misses :: nat
  cs_hit_rate :: real
  cs_inflight :: nat
  cs_max_entries :: nat
  cs_pinned :: nat
  cs_evictions :: nat
  cs_redis_hits :: nat
  cs_redis_stores :: nat
  cs_redis_errors :: nat

definition pc_stats :: "cache \<Rightarrow> cache_stats" where
  "pc_stats c =
     (let total = pc_hits c + pc_misses c
      in \<lparr>cs_entries = length (pc_data c), cs_hits = pc_hits c, cs_misses = pc_misses c,
          cs_hit_rate = (if total = 0 then 0 else real (pc_hits c) / real total),
          cs_inflight = length (pc_inflight c), cs_max_entries = pc_max_entries c,
          cs_pinned = length (pc_pinned c), cs_evictions = pc_evictions c,
          cs_redis_hits = pc_redis_hits c, cs_redis_stores = pc_redis_stores c,
          cs_redis_errors = pc_redis_errors c\<rparr>)"

section \<open>Steps\<close>

datatype pc_op =
    Search real cache_key
  | Ask_L2 real cache_key l2_answer
  | Done real cache_key "json list result" "bool option"
  | Invalidate cache_scope
  | Pin cache_key
  | Unpin cache_scope

text \<open>Redis and the backend are asked by the owning call.\<close>

fun pc_step :: "cache \<Rightarrow> pc_op \<Rightarrow> cache" where
  "pc_step c (Search now k) = snd (pc_search now c k)"
| "pc_step c (Ask_L2 now k ans) = (if k \<in> set (pc_callers c) then snd (pc_l2 now c k ans) else c)"
| "pc_step c (Done now k ans st) = (if k \<in> set (pc_callers c) then snd (pc_done now c k ans st) else c)"
| "pc_step c (Invalidate s) = snd (pc_invalidate c s)"
| "pc_step c (Pin k) = pc_pin c k"
| "pc_step c (Unpin s) = snd (pc_unpin c s)"

abbreviation pc_run :: "cache \<Rightarrow> pc_op list \<Rightarrow> cache" where
  "pc_run \<equiv> run_steps pc_step"

section \<open>Eviction\<close>

lemma wf_put_last [simp]: "wf_dict d \<Longrightarrow> wf_dict (put_last k v d)"
  by (auto simp: put_last_def wf_dict_def dkeys_dpop simp del: set_map)

lemma dget_put_last: "dget (put_last k v d) j = (if j = k then Some v else dget d j)"
  by (simp add: put_last_def map_add_def delete_conv' split: option.split)

lemma dkeys_put_last [simp]: "set (dkeys (put_last k v d)) = insert k (set (dkeys d))"
  by (auto simp: put_last_def dkeys_dpop simp del: set_map)

lemma evict_spec:
  assumes "evict m pins d n = (d', n')" and "wf_dict d" and "set pins \<subseteq> set (dkeys d)"
  shows "wf_dict d' \<and> set pins \<subseteq> set (dkeys d') \<and> set d' \<subseteq> set d
    \<and> (length d' \<le> m \<or> set (dkeys d') \<subseteq> set pins) \<and> length d = length d' + (n' - n) \<and> n \<le> n'"
  using assms
proof (induction m pins d n arbitrary: d' n' rule: evict.induct)
  case (1 m pins d n)
  show ?case
  proof (cases "length d \<le> m")
    case True
    with "1.prems" show ?thesis by (simp add: evict.simps)
  next
    case False
    show ?thesis
    proof (cases "find (\<lambda>k. k \<notin> set pins) (dkeys d)")
      case None
      with "1.prems" False show ?thesis by (subst (asm) evict.simps) (auto simp: find_None_iff)
    next
      case (Some k)
      then have k: "k \<in> set (dkeys d)" "k \<notin> set pins"
        by (simp only: find_mem) (rule find_mem(2) [OF Some])
      have ev: "evict m pins (dpop k d) (Suc n) = (d', n')"
        using "1.prems"(1) False Some by (subst (asm) evict.simps) simp
      have "set pins \<subseteq> set (dkeys (dpop k d))"
        using k "1.prems"(3) by (auto simp: dkeys_dpop simp del: set_map)
      note IH = "1.IH" [OF False Some ev wf_dict_pop [OF "1.prems"(2)] this]
      have "length d = Suc (length (dpop k d))" by (rule length_dpop [OF "1.prems"(2) k(1)])
      with IH dpop_subset [of k d] show ?thesis by auto
    qed
  qed
qed

definition pc_inv :: "cache \<Rightarrow> bool" where
  "pc_inv c =
     (wf_dict (pc_data c) \<and> set (pc_pinned c) \<subseteq> set (dkeys (pc_data c))
      \<and> length (pc_data c) \<le> pc_max_entries c + pc_redis_hits c
      \<and> distinct (pc_callers c) \<and> set (pc_callers c) \<subseteq> set (pc_inflight c)
      \<and> distinct (pc_inflight c))"

lemma dkeys_filter: "dkeys (filter (\<lambda>(k, v). P k) d) = filter P (dkeys d)"
  by (induction d) auto

lemma length_put_last:
  assumes "wf_dict d"
  shows "length (put_last k v d) = (if k \<in> set (dkeys d) then length d else Suc (length d))"
proof (cases "k \<in> set (dkeys d)")
  case True
  from length_dpop [OF assms this] True show ?thesis by (simp add: put_last_def)
next
  case False
  then show ?thesis by (simp add: put_last_def dpop_id)
qed

lemma filter_keys_inv:
  assumes "pc_inv c"
  shows "pc_inv (c\<lparr>pc_data := filter (\<lambda>(k, v). \<not> Q k) (pc_data c),
    pc_pinned := filter (\<lambda>k. \<not> (Q k \<and> k \<in> set (dkeys (pc_data c)))) (pc_pinned c)\<rparr>)"
proof -
  note I = assms [unfolded pc_inv_def]
  have "length (filter (\<lambda>(k, v). \<not> Q k) (pc_data c)) \<le> pc_max_entries c + pc_redis_hits c"
    using I length_filter_le [of "\<lambda>(k, v). \<not> Q k" "pc_data c"] by linarith
  moreover have "set (filter (\<lambda>k. \<not> (Q k \<and> k \<in> set (dkeys (pc_data c)))) (pc_pinned c))
      \<subseteq> set (dkeys (filter (\<lambda>(k, v). \<not> Q k) (pc_data c)))"
    using I unfolding dkeys_filter [of "\<lambda>k. \<not> Q k"] by (auto simp del: set_map)
  moreover have "wf_dict (filter (\<lambda>(k, v). \<not> Q k) (pc_data c))" using I by blast
  ultimately show ?thesis using I by (simp add: pc_inv_def del: set_map)
qed

lemma pc_drop_stale_inv: "pc_inv c \<Longrightarrow> pc_inv (pc_drop_stale c ns r)"
proof (cases r)
  case (Some a)
  assume "pc_inv c"
  then show ?thesis unfolding pc_drop_stale_def Let_def Some option.case by (rule filter_keys_inv)
qed (simp add: pc_drop_stale_def)

lemma pc_lookup_cases:
  obtains (hit) t xs where "dget (pc_data c) k = Some (t, xs)" and "now - t < pc_ttl c"
      and "pc_lookup now c k = (Hit xs, c\<lparr>pc_hits := Suc (pc_hits c), pc_data := put_last k (t, xs) (pc_data c)\<rparr>)"
  | (wait) "k \<in> set (pc_inflight c)" and "pc_lookup now c k = (Wait, c)"
  | (owner) "k \<notin> set (pc_inflight c)" and "pc_lookup now c k = (Owner, c\<lparr>pc_inflight := pc_inflight c @ [k],
      pc_callers := pc_callers c @ [k], pc_misses := Suc (pc_misses c)\<rparr>)"
proof (cases "\<exists>t xs. dget (pc_data c) k = Some (t, xs) \<and> now - t < pc_ttl c")
  case True
  then show ?thesis using hit by (auto simp: pc_lookup_def)
next
  case False
  then have "pc_lookup now c k = (if k \<in> set (pc_inflight c) then (Wait, c)
      else (Owner, c\<lparr>pc_inflight := pc_inflight c @ [k], pc_callers := pc_callers c @ [k],
                     pc_misses := Suc (pc_misses c)\<rparr>))"
    by (auto simp: pc_lookup_def split: option.split)
  with wait owner show ?thesis by (cases "k \<in> set (pc_inflight c)") auto
qed

lemma pc_lookup_inv: "pc_inv c \<Longrightarrow> pc_inv (snd (pc_lookup now c k))"
proof (cases rule: pc_lookup_cases [of c k now])
  case (hit t xs)
  assume inv: "pc_inv c"
  have "k \<in> set (dkeys (pc_data c))" using hit(1) by (rule mem_dkeys)
  with inv hit(3) show ?thesis by (auto simp: pc_inv_def length_put_last simp del: set_map)
qed (auto simp: pc_inv_def)

lemma pc_l2_inv: "pc_inv c \<Longrightarrow> pc_inv (snd (pc_l2 now c k ans))"
proof (cases ans)
  case (L2_Hit xs)
  assume inv: "pc_inv c"
  then have "length (put_last k (now, xs) (pc_data c)) \<le> Suc (length (pc_data c))"
    by (simp add: pc_inv_def length_put_last)
  with inv L2_Hit show ?thesis
    by (auto simp: pc_inv_def pc_l2_def dest: notin_set_remove1 simp del: set_map)
qed (auto simp: pc_inv_def pc_l2_def)

lemma distinct_subset_length: "distinct xs \<Longrightarrow> set xs \<subseteq> set ys \<Longrightarrow> length xs \<le> length ys"
  by (metis List.finite_set card_length card_mono distinct_card order_trans)

lemma pc_done_inv:
  assumes inv: "pc_inv c" and k: "k \<in> set (pc_callers c)"
  shows "pc_inv (snd (pc_done now c k ans st))"
proof -
  note I = inv [unfolded pc_inv_def]
  have callers: "distinct (remove1 k (pc_callers c))" "set (remove1 k (pc_callers c)) \<subseteq> set (removeAll k (pc_inflight c))"
    "distinct (removeAll k (pc_inflight c))"
    using I by (auto simp: distinct_removeAll)
  show ?thesis
  proof (cases ans)
    case (Inl e)
    with I callers show ?thesis by (simp add: pc_done_def pc_inv_def)
  next
    case (Inr xs)
    obtain d n where ev: "evict (pc_max_entries c) (pc_pinned c) (put_last k (now, xs) (pc_data c)) (pc_evictions c) = (d, n)"
      by (cases "evict (pc_max_entries c) (pc_pinned c) (put_last k (now, xs) (pc_data c)) (pc_evictions c)") auto
    have S: "wf_dict d" "set (pc_pinned c) \<subseteq> set (dkeys d)"
      "length d \<le> pc_max_entries c \<or> set (dkeys d) \<subseteq> set (pc_pinned c)"
      using evict_spec [OF ev] I by (auto simp del: set_map)
    have "length d \<le> pc_max_entries c + pc_redis_hits c"
      using S(3)
    proof
      assume "set (dkeys d) \<subseteq> set (pc_pinned c)"
      then have "set (dkeys d) \<subseteq> set (dkeys (pc_data c))" using I by blast
      then have "length (dkeys d) \<le> length (dkeys (pc_data c))"
        using S(1) unfolding wf_dict_def by (intro distinct_subset_length)
      with I show ?thesis by simp
    qed simp
    with I S callers show ?thesis by (simp add: pc_done_def pc_inv_def Inr ev)
  qed
qed

lemma pc_step_inv: "pc_inv c \<Longrightarrow> pc_inv (pc_step c op)"
proof (cases op)
  case (Search now k)
  assume "pc_inv c"
  then show ?thesis by (simp add: Search pc_search_def pc_lookup_inv pc_drop_stale_inv)
next
  case (Invalidate s)
  assume "pc_inv c"
  from filter_keys_inv [OF this, of "in_scope s"] show ?thesis
    by (simp add: pc_invalidate_def Invalidate)
next
  case (Pin k)
  assume inv: "pc_inv c"
  then show ?thesis
    using mem_dkeys [of "pc_data c" k] by (auto simp: pc_inv_def pc_pin_def Pin simp del: set_map)
next
  case (Unpin s)
  assume inv: "pc_inv c"
  obtain d n where ev: "evict (pc_max_entries c) (filter (\<lambda>k. \<not> in_scope s k) (pc_pinned c)) (pc_data c) (pc_evictions c) = (d, n)"
    by (cases "evict (pc_max_entries c) (filter (\<lambda>k. \<not> in_scope s k) (pc_pinned c)) (pc_data c) (pc_evictions c)") auto
  have S: "wf_dict d" "set (filter (\<lambda>k. \<not> in_scope s k) (pc_pinned c)) \<subseteq> set (dkeys d)" "length d \<le> length (pc_data c)"
    using evict_spec [OF ev] inv by (force simp: pc_inv_def simp del: set_map)+
  with inv show ?thesis by (auto simp: pc_inv_def pc_unpin_def Unpin ev simp del: set_map)
qed (simp_all add: pc_l2_inv pc_done_inv)

interpretation pc_machine: kept_invariant pc_step pc_inv
  by unfold_locales (rule pc_step_inv)

lemma new_cache_inv: "new_cache m ttl = Inr c \<Longrightarrow> pc_inv c"
  by (auto simp: new_cache_def pc_inv_def split: if_splits)

section \<open>Where an entry comes from\<close>

definition brings :: "pc_op \<Rightarrow> cache_key \<Rightarrow> real \<Rightarrow> json list \<Rightarrow> bool" where
  "brings op k t xs = (op = Ask_L2 t k (L2_Hit xs) \<or> (\<exists>st. op = Done t k (Inr xs) st))"

lemma pc_step_entry:
  assumes "pc_inv c" and "dget (pc_data (pc_step c op)) k = Some (t, xs)"
  shows "dget (pc_data c) k = Some (t, xs) \<or> brings op k t xs"
proof -
  have wf: "wf_dict (pc_data c)" "wf_dict (pc_data (pc_step c op))"
    using assms(1) pc_step_inv [OF assms(1), of op] by (simp_all add: pc_inv_def)
  have ev: "dget d' k = Some v \<Longrightarrow> evict m pins d n = (d', n') \<Longrightarrow> wf_dict d \<Longrightarrow> set pins \<subseteq> set (dkeys d) \<Longrightarrow>
      dget d k = Some v" for d d' :: "(cache_key, real \<times> json list) dict" and m pins n n' v
    using evict_spec [of m pins d n d' n'] wf_dict_get_mem [of d' k v] wf_dict_get_mem [of d k v] by blast
  have stale: "dget (pc_data (pc_drop_stale c ns r)) k = Some v \<Longrightarrow> dget (pc_data c) k = Some v" for ns r v
    by (auto simp: pc_drop_stale_def Let_def dget_filter_key split: option.splits if_splits)
  show ?thesis
  proof (cases op)
    case (Search now j)
    let ?c = "pc_drop_stale c (ck_namespace j) (ck_revision j)"
    have "dget (pc_data (snd (pc_lookup now ?c j))) k = dget (pc_data ?c) k"
      by (cases rule: pc_lookup_cases [of ?c j now]) (auto simp: dget_put_last)
    with assms(2) stale show ?thesis by (simp add: Search pc_search_def)
  next
    case (Ask_L2 now j ans)
    with assms(2) show ?thesis
      by (cases ans) (auto simp: pc_l2_def brings_def dget_put_last split: if_splits)
  next
    case (Done now j ans st)
    show ?thesis
    proof (cases "j \<in> set (pc_callers c) \<and> is_ok ans")
      case True
      then obtain ys where ys: "ans = Inr ys" by (auto elim: is_okE)
      obtain d n where e: "evict (pc_max_entries c) (pc_pinned c) (put_last j (now, ys) (pc_data c)) (pc_evictions c) = (d, n)"
        by (cases "evict (pc_max_entries c) (pc_pinned c) (put_last j (now, ys) (pc_data c)) (pc_evictions c)") auto
      have "dget d k = Some (t, xs)" using assms(2) True by (simp add: Done pc_done_def ys e)
      from ev [OF this e] assms(1) have "dget (put_last j (now, ys) (pc_data c)) k = Some (t, xs)"
        by (auto simp: pc_inv_def simp del: set_map)
      then show ?thesis by (auto simp: dget_put_last brings_def Done ys split: if_splits)
    next
      case False
      with assms(2) show ?thesis by (cases ans) (auto simp: Done pc_done_def split: if_splits)
    qed
  next
    case (Invalidate s)
    with assms(2) show ?thesis by (auto simp: pc_invalidate_def dget_filter_key split: if_splits)
  next
    case (Pin j)
    with assms(2) show ?thesis by (simp add: pc_pin_def split: if_splits)
  next
    case (Unpin s)
    obtain d n where e: "evict (pc_max_entries c) (filter (\<lambda>k. \<not> in_scope s k) (pc_pinned c)) (pc_data c) (pc_evictions c) = (d, n)"
      by (cases "evict (pc_max_entries c) (filter (\<lambda>k. \<not> in_scope s k) (pc_pinned c)) (pc_data c) (pc_evictions c)") auto
    have "dget d k = Some (t, xs)" using assms(2) by (simp add: Unpin pc_unpin_def e)
    from ev [OF this e] assms(1) show ?thesis by (auto simp: pc_inv_def simp del: set_map)
  qed
qed

lemma pc_run_entry:
  "pc_inv c \<Longrightarrow> dget (pc_data (pc_run c es)) k = Some (t, xs) \<Longrightarrow>
   dget (pc_data c) k = Some (t, xs) \<or> (\<exists>op\<in>set es. brings op k t xs)"
proof (induction es arbitrary: c)
  case (Cons e es)
  from Cons.IH [OF pc_step_inv [OF Cons.prems(1)], of e] Cons.prems(2)
  have "dget (pc_data (pc_step c e)) k = Some (t, xs) \<or> (\<exists>op\<in>set es. brings op k t xs)" by simp
  with pc_step_entry [OF Cons.prems(1), of e k t xs] show ?case by auto
qed simp

lemma pc_step_limits [simp]:
  "pc_max_entries (pc_step c e) = pc_max_entries c" "pc_ttl (pc_step c e) = pc_ttl c"
  by (cases e; auto simp: pc_search_def pc_drop_stale_def pc_lookup_def pc_l2_def pc_done_def pc_invalidate_def
      pc_pin_def pc_unpin_def Let_def split: option.split l2_answer.split sum.split prod.split)+

lemma pc_run_limits:
  "pc_max_entries (pc_run c es) = pc_max_entries c" "pc_ttl (pc_run c es) = pc_ttl c"
  by (induction es arbitrary: c) auto

section \<open>Properties\<close>

text \<open>C18. The memory of the cache is bounded. After any interleaving of searches, Redis answers, backend answers,
  invalidations, pins and unpins, the cache holds at most \<open>max_entries\<close> entries plus one for every hit
  in Redis, so without Redis never more than \<open>max_entries\<close>, however many entries are pinned; every
  pinned key is resident, each key has one entry, and at most one call at a time fetches a key.\<close>

theorem cache_memory_bounded:
  assumes "new_cache max_entries ttl = Inr c0" and "c = pc_run c0 es"
  shows "length (pc_data c) \<le> nat max_entries + pc_redis_hits c
    \<and> set (pc_pinned c) \<subseteq> set (dkeys (pc_data c)) \<and> wf_dict (pc_data c)
    \<and> distinct (pc_callers c) \<and> set (pc_callers c) \<subseteq> set (pc_inflight c)"
proof -
  have inv: "pc_inv c" unfolding assms(2) by (rule pc_machine.run_invar [OF new_cache_inv [OF assms(1)]])
  have "pc_max_entries c = nat max_entries"
    using assms(1) by (auto simp: assms(2) pc_run_limits new_cache_def split: if_splits)
  with inv show ?thesis by (simp add: pc_inv_def)
qed

definition demo_key :: "string \<Rightarrow> cache_key" where
  "demo_key q =
     \<lparr>ck_namespace = ''ns'', ck_branch = ''main'', ck_pod_type = None, ck_tags = [], ck_query = q,
      ck_vector_digest = [], ck_filters = [], ck_principal = Some ''p'', ck_generation = None,
      ck_rank_profile = None, ck_revision = Some ''1'', ck_top_k = 10\<rparr>"

definition demo_cache :: cache where
  "demo_cache =
     \<lparr>pc_max_entries = 1, pc_ttl = 60, pc_data = [], pc_inflight = [], pc_pinned = [], pc_hits = 0,
      pc_misses = 0, pc_evictions = 0, pc_redis_hits = 0, pc_redis_stores = 0, pc_redis_errors = 0,
      pc_callers = []\<rparr>"

definition demo_ops :: "pc_op list" where
  "demo_ops =
     [Search 0 (demo_key ''a''), Done 1 (demo_key ''a'') (Inr [JInt 1]) None,
      Search 2 (demo_key ''b''), Done 3 (demo_key ''b'') (Inr [JInt 2]) None]"

lemma demo_cache_new: "new_cache 1 60 = Inr demo_cache"
  by (simp add: new_cache_def demo_cache_def)

lemma demo_cache_run: "pc_data (pc_run demo_cache demo_ops) = [(demo_key ''b'', 3, [JInt 2])]"
  by (simp add: demo_ops_def demo_cache_def pc_search_def pc_drop_stale_def pc_lookup_def pc_done_def
      evict.simps put_last_def demo_key_def)

theorem cache_memory_bounded_witness:
  "length (pc_data (pc_run demo_cache demo_ops)) = 1
   \<and> length (pc_data (pc_run demo_cache demo_ops)) \<le> 1 + pc_redis_hits (pc_run demo_cache demo_ops)"
  using cache_memory_bounded [OF demo_cache_new refl, of demo_ops] demo_cache_run by simp

text \<open>A hit is an earlier answer for the very same key that is younger than the time to live. The answer
  was given by the backend or by Redis to a call for that key (so for the same namespace, branch, pod
  type, tags, filters, principal, generation, revision and limit), and, if the key was invalidated
  since, the answer arrived after the invalidation.\<close>

theorem hit_is_recent_answer:
  assumes "new_cache max_entries ttl = Inr c0" and "c = pc_run c0 (es1 @ es2)"
    and "fst (pc_search now c k) = Hit xs"
  shows "\<exists>t op. op \<in> set (es1 @ es2) \<and> brings op k t xs \<and> now - t < ttl
    \<and> (\<forall>es s. es1 = es @ [Invalidate s] \<longrightarrow> in_scope s k \<longrightarrow> op \<in> set es2)"
proof -
  let ?c1 = "pc_run c0 es1" and ?d = "pc_drop_stale c (ck_namespace k) (ck_revision k)"
  have inv0: "pc_inv c0" by (rule new_cache_inv [OF assms(1)])
  have inv1: "pc_inv ?c1" by (rule pc_machine.run_invar [OF inv0])
  have ttl: "pc_ttl ?d = ttl"
    using assms(1) by (auto simp: assms(2) pc_run_limits new_cache_def pc_drop_stale_def Let_def
        split: if_splits option.split)
  obtain t where t: "dget (pc_data ?d) k = Some (t, xs)" "now - t < ttl"
    using assms(3) ttl unfolding pc_search_def by (cases rule: pc_lookup_cases [of ?d k now]) auto
  then have data: "dget (pc_data (pc_run ?c1 es2)) k = Some (t, xs)"
    using assms(2) by (auto simp: pc_drop_stale_def Let_def dget_filter_key run_steps_append
        split: option.splits if_splits)
  from pc_run_entry [OF inv1 this] show ?thesis
  proof
    assume old: "dget (pc_data ?c1) k = Some (t, xs)"
    then obtain op where op: "op \<in> set es1" "brings op k t xs"
      using pc_run_entry [OF inv0 old] assms(1) by (auto simp: new_cache_def split: if_splits)
    have "\<not> in_scope s k" if "es1 = es @ [Invalidate s]" for es s
      using old by (auto simp: that run_steps_append pc_invalidate_def dget_filter_key split: if_splits)
    with op t(2) show ?thesis by auto
  next
    assume "\<exists>op\<in>set es2. brings op k t xs"
    with t(2) show ?thesis by auto
  qed
qed

theorem hit_is_recent_answer_witness:
  "\<exists>t op. op \<in> set demo_ops \<and> brings op (demo_key ''b'') t [JInt 2] \<and> 10 - t < 60"
proof -
  have "fst (pc_search 10 (pc_run demo_cache (demo_ops @ [])) (demo_key ''b'')) = Hit [JInt 2]"
    using demo_cache_run
    by (simp add: pc_search_def pc_drop_stale_def pc_lookup_def)
      (simp add: demo_key_def demo_ops_def demo_cache_def pc_search_def pc_drop_stale_def pc_lookup_def pc_done_def
        evict.simps put_last_def)
  from hit_is_recent_answer [OF demo_cache_new refl this] show ?thesis by auto
qed

text \<open>A hit in Redis wedges its key. The call that asked Redis returns without withdrawing its event, so
  from then on, whatever happens, no later search of that key asks the backend again: it is a hit while
  some entry is fresh, and once the entry has outlived the time to live every search of the key waits
  for an event that nobody will set, for ever.\<close>

theorem l2_hit_wedges_key:
  assumes "new_cache max_entries ttl = Inr c0" and "c = pc_run c0 es" and "k \<in> set (pc_callers c)"
    and "c1 = snd (pc_l2 t c k (L2_Hit xs))" and "c2 = pc_run c1 es'"
  shows "fst (pc_search now c2 k) \<noteq> Owner
    \<and> (t + ttl \<le> now \<longrightarrow> pc_search now c2 k = (Wait, pc_drop_stale c2 (ck_namespace k) (ck_revision k)))"
proof -
  have inv: "pc_inv c" unfolding assms(2) by (rule pc_machine.run_invar [OF new_cache_inv [OF assms(1)]])
  define stuck where "stuck c' = (k \<in> set (pc_inflight c') \<and> k \<notin> set (pc_callers c') \<and>
    pc_inv c' \<and> (\<forall>u xs. dget (pc_data c') k = Some (u, xs) \<longrightarrow> u = t))" for c'
  have s1: "stuck c1"
    using inv assms(3) pc_l2_inv [OF inv, of t k "L2_Hit xs"]
    by (auto simp: stuck_def assms(4) pc_l2_def dget_put_last pc_inv_def simp del: set_map)
  have step: "stuck (pc_step c' e)" if s: "stuck c'" for c' e
  proof -
    have i: "pc_inv (pc_step c' e)" using s by (simp add: stuck_def pc_step_inv)
    have data: "u = t" if d: "dget (pc_data (pc_step c' e)) k = Some (u, ys)" for u ys
    proof -
      have "\<not> brings e k u ys \<or> pc_step c' e = c'"
        using s by (auto simp: brings_def stuck_def)
      then show ?thesis
        using pc_step_entry [of c' e k u ys] s d by (auto simp: stuck_def)
    qed
    have "k \<in> set (pc_inflight (pc_step c' e)) \<and> k \<notin> set (pc_callers (pc_step c' e))"
      using s by (cases e) (auto simp: stuck_def pc_search_def pc_drop_stale_def pc_lookup_def pc_l2_def pc_done_def
          pc_invalidate_def pc_pin_def pc_unpin_def Let_def dest: notin_set_remove1
          split: option.split l2_answer.split sum.split prod.split)
    with i data show ?thesis by (simp add: stuck_def)
  qed
  have "stuck (pc_run c' es')" if "stuck c'" for c'
    using that by (induction es' arbitrary: c') (auto intro: step)
  then have s2: "stuck c2" using s1 by (simp add: assms(5))
  let ?d = "pc_drop_stale c2 (ck_namespace k) (ck_revision k)"
  have s3: "k \<in> set (pc_inflight ?d)" "\<And>u ys. dget (pc_data ?d) k = Some (u, ys) \<Longrightarrow> u = t"
    using s2 by (auto simp: stuck_def pc_drop_stale_def Let_def dget_filter_key split: option.splits if_splits)
  have "pc_ttl c1 = pc_ttl c" by (simp add: assms(4) pc_l2_def)
  then have ttl: "pc_ttl ?d = ttl"
    using assms(1) by (auto simp: assms(2,5) pc_run_limits new_cache_def pc_drop_stale_def Let_def
        split: if_splits option.split)
  from s3 ttl show ?thesis
    unfolding pc_search_def by (cases rule: pc_lookup_cases [of ?d k now]) fastforce+
qed

theorem l2_hit_wedges_key_witness:
  "fst (pc_search 100 (snd (pc_l2 1 (pc_run demo_cache [Search 0 (demo_key ''a'')]) (demo_key ''a'')
     (L2_Hit [JInt 7]))) (demo_key ''a'')) = Wait"
proof -
  have "demo_key ''a'' \<in> set (pc_callers (pc_run demo_cache [Search 0 (demo_key ''a'')]))"
    by (simp add: demo_cache_def pc_search_def pc_drop_stale_def pc_lookup_def demo_key_def)
  from l2_hit_wedges_key [OF demo_cache_new refl this refl refl, of 100 1 "[JInt 7]" "[]"]
  show ?thesis by simp
qed

text \<open>Keys separate what must not be shared.\<close>

lemma key_of_eqD:
  assumes "key_of canon digest q r = key_of canon digest q' r'"
  shows "cq_namespace q = cq_namespace q'" "cq_branch q = cq_branch q'" "cq_pod_type q = cq_pod_type q'"
    "set (cq_tags q) = set (cq_tags q')" "cq_text q = cq_text q'" "cq_principal q = cq_principal q'"
    "cq_generation q = cq_generation q'" "r = r'" "cq_top_k q = cq_top_k q'"
    "canon (JObj (cq_filters q)) = canon (JObj (cq_filters q'))"
proof -
  have "sorted_tags (cq_tags q) = sorted_tags (cq_tags q')" using assms by (simp add: key_of_def)
  then have "set (sorted_tags (cq_tags q)) = set (sorted_tags (cq_tags q'))" by simp
  then show "set (cq_tags q) = set (cq_tags q')" by (simp add: sorted_tags_def)
qed (use assms in \<open>simp_all add: key_of_def\<close>)

end
