(* ===== verification/Native_Comm.thy ===== *)
theory Native_Comm
  imports Mesh Registry
begin

text \<open>
  \<open>neural_pods/native_comm.py\<close>: the executor of the frames a pod's model emits.

  \<^item> \<open>split_lines\<close>, \<open>split_ws\<close>, \<open>is_topic\<close>, \<open>is_b64\<close>, \<open>is_address\<close>, \<open>parse_line\<close>, \<open>parse_frames\<close>,
    \<open>frame_overflow\<close>: the parser. Whether a text is JSON is decided by \<open>loads\<close>, the decoder, which is
    a parameter.
  \<^item> \<open>egress\<close>, \<open>egress_from_link\<close>, \<open>check_topic\<close>, \<open>check_host_port\<close>: the egress ACL, its counters and the
    refusal events in the registry.
  \<^item> \<open>comm_state\<close>, \<open>exec_frame\<close>, \<open>exec_frames\<close>, \<open>nc_execute\<close>: execution. Publishing and subscribing are
    the mesh endpoint's own operations (theory \<open>Mesh\<close>); what the network answers (\<open>net\<close>) is a
    parameter. An exception leaves \<open>execute\<close> with the effects it had.

  Throttling only delays frames and is not modelled.
\<close>

section \<open>Parsing\<close>

definition MAX_FRAMES :: nat where
  "MAX_FRAMES = 16"

definition MAX_PAYLOAD_BYTES :: nat where
  "MAX_PAYLOAD_BYTES = 64 * 1024"

datatype frame_kind = PUB | SUB | DIAL | SEND | RECV | CLOSE | INVALID

record frame =
  fr_kind :: frame_kind
  fr_args :: "string list"
  fr_raw :: string

definition fr_valid :: "frame \<Rightarrow> bool" where
  "fr_valid f = (fr_kind f \<noteq> INVALID)"

definition line_break :: "char \<Rightarrow> bool" where
  "line_break c = (let n = (of_char c :: nat) in (10 \<le> n \<and> n \<le> 13) \<or> (28 \<le> n \<and> n \<le> 30))"

text \<open>\<open>str.splitlines()\<close>: a carriage return and a line feed are one break.\<close>

fun lines_from :: "string \<Rightarrow> string \<Rightarrow> string list" where
  "lines_from acc [] = (if acc = [] then [] else [rev acc])"
| "lines_from acc (c # cs) =
     (if of_char c = (13::nat) \<and> cs \<noteq> [] \<and> of_char (hd cs) = (10::nat) then rev acc # lines_from [] (tl cs)
      else if line_break c then rev acc # lines_from [] cs
      else lines_from (c # acc) cs)"

definition split_lines :: "string \<Rightarrow> string list" where
  "split_lines s = lines_from [] s"

text \<open>\<open>line.split(None, n)\<close>.\<close>

fun split_ws :: "nat \<Rightarrow> string \<Rightarrow> string list" where
  "split_ws 0 s = (let t = dropWhile is_space s in if t = [] then [] else [t])"
| "split_ws (Suc n) s =
     (let t = dropWhile is_space s
      in if t = [] then []
         else takeWhile (\<lambda>c. \<not> is_space c) t # split_ws n (dropWhile (\<lambda>c. \<not> is_space c) t))"

definition upper_char :: "char \<Rightarrow> char" where
  "upper_char c = (let n = (of_char c :: nat) in if 97 \<le> n \<and> n \<le> 122 then char_of (n - 32) else c)"

definition is_alnum :: "char \<Rightarrow> bool" where
  "is_alnum c =
     (let n = (of_char c :: nat) in (48 \<le> n \<and> n \<le> 57) \<or> (65 \<le> n \<and> n \<le> 90) \<or> (97 \<le> n \<and> n \<le> 122))"

definition is_topic :: "string \<Rightarrow> bool" where
  "is_topic t =
     (starts_with ''np/'' t \<and> 1 \<le> length (drop 3 t) \<and> length (drop 3 t) \<le> 120
      \<and> list_all (\<lambda>c. is_alnum c \<or> c \<in> set ''_-+#/'') (drop 3 t))"

text \<open>\<open>base64.b64decode(text, validate=True)\<close> succeeds, and the length of what it returns.\<close>

definition b64_body :: "string \<Rightarrow> string" where
  "b64_body s = takeWhile (\<lambda>c. c \<noteq> CHR ''='') s"

definition b64_size :: "string \<Rightarrow> nat" where
  "b64_size s = length (b64_body s) * 3 div 4"

definition is_b64 :: "string \<Rightarrow> bool" where
  "is_b64 s =
     (let body = b64_body s; pad = drop (length body) s
      in list_all (\<lambda>c. is_alnum c \<or> c \<in> set ''+/'') body \<and> list_all (\<lambda>c. c = CHR ''='') pad
         \<and> length pad \<le> 2 \<and> length s mod 4 = 0 \<and> b64_size s \<le> MAX_PAYLOAD_BYTES)"

text \<open>\<open>[A-Za-z0-9.\-]+:\d{1,5}\<close>, and the split at the last colon.\<close>

definition host_part :: "string \<Rightarrow> string" where
  "host_part a = rev (tl (dropWhile (\<lambda>c. c \<noteq> CHR '':'') (rev a)))"

definition port_part :: "string \<Rightarrow> string" where
  "port_part a = rev (takeWhile (\<lambda>c. c \<noteq> CHR '':'') (rev a))"

definition is_address :: "string \<Rightarrow> bool" where
  "is_address a =
     (CHR '':'' \<in> set a \<and> host_part a \<noteq> [] \<and> list_all (\<lambda>c. is_alnum c \<or> c \<in> set ''.-'') (host_part a)
      \<and> 1 \<le> length (port_part a) \<and> length (port_part a) \<le> 5 \<and> list_all is_digit (port_part a))"

definition port_of :: "string \<Rightarrow> int" where
  "port_of a = digits_value (port_part a)"

text \<open>The port as it is printed again: without leading zeros.\<close>

definition shown_address :: "string \<Rightarrow> string" where
  "shown_address a =
     host_part a @ '':'' @ (case dropWhile (\<lambda>c. c = CHR ''0'') (port_part a) of [] \<Rightarrow> ''0'' | p \<Rightarrow> p)"

definition parse_line :: "(string \<Rightarrow> json option) \<Rightarrow> string \<Rightarrow> frame" where
  "parse_line loads line =
     (let parts = split_ws 2 line; kind = map upper_char (hd parts); n = length parts
      in if kind = ''PUB'' \<and> n = 3 \<and> is_topic (parts ! 1) \<and> loads (parts ! 2) \<noteq> None
         then \<lparr>fr_kind = PUB, fr_args = [parts ! 1, parts ! 2], fr_raw = line\<rparr>
         else if kind = ''SUB'' \<and> n = 2 \<and> is_topic (parts ! 1)
         then \<lparr>fr_kind = SUB, fr_args = [parts ! 1], fr_raw = line\<rparr>
         else if kind = ''DIAL'' \<and> n = 2 \<and> is_address (parts ! 1)
         then \<lparr>fr_kind = DIAL, fr_args = [parts ! 1], fr_raw = line\<rparr>
         else if kind = ''SEND'' \<and> n = 2 \<and> is_b64 (parts ! 1)
         then \<lparr>fr_kind = SEND, fr_args = [parts ! 1], fr_raw = line\<rparr>
         else if kind = ''RECV'' \<and> n = 1 then \<lparr>fr_kind = RECV, fr_args = [], fr_raw = line\<rparr>
         else if kind = ''CLOSE'' \<and> n = 1 then \<lparr>fr_kind = CLOSE, fr_args = [], fr_raw = line\<rparr>
         else \<lparr>fr_kind = INVALID, fr_args = [line], fr_raw = line\<rparr>)"

definition frame_lines :: "string \<Rightarrow> string list" where
  "frame_lines text = filter (\<lambda>l. l \<noteq> []) (map strip (split_lines (strip text)))"

definition parse_frames :: "(string \<Rightarrow> json option) \<Rightarrow> string \<Rightarrow> frame list" where
  "parse_frames loads text = take MAX_FRAMES (map (parse_line loads) (frame_lines text))"

definition frame_overflow :: "string \<Rightarrow> nat" where
  "frame_overflow text = length (frame_lines text) - MAX_FRAMES"

section \<open>The egress ACL\<close>

record egress =
  eg_topics :: "string list"
  eg_hosts :: "string list"
  eg_ports :: "int list"
  eg_principal :: string
  eg_registry :: "registry option"
  eg_pod_id :: string
  eg_trace_id :: "string option"
  eg_violations :: nat
  eg_recorded :: nat

definition new_egress ::
    "string list \<Rightarrow> string list \<Rightarrow> int list \<Rightarrow> string \<Rightarrow> registry option \<Rightarrow> string \<Rightarrow> string option \<Rightarrow> egress" where
  "new_egress topics hosts ports who reg pod trace =
     \<lparr>eg_topics = topics, eg_hosts = hosts, eg_ports = ports, eg_principal = who, eg_registry = reg,
      eg_pod_id = pod, eg_trace_id = trace, eg_violations = 0, eg_recorded = 0\<rparr>"

definition egress_from_link :: "pod_link \<Rightarrow> registry option \<Rightarrow> string option \<Rightarrow> egress" where
  "egress_from_link l reg pod =
     new_egress (pl_egress_topics l) (pl_egress_hosts l) (pl_egress_ports l)
       (case seq_items (pl_acl l) of [] \<Rightarrow> ''local'' | p # _ \<Rightarrow> p) reg
       (case pod of None \<Rightarrow> pl_source_pod_id l | Some p \<Rightarrow> if p = [] then pl_source_pod_id l else p)
       (Some (pl_trace_id l))"

definition refusal_json :: "real \<Rightarrow> egress \<Rightarrow> string \<Rightarrow> string \<Rightarrow> json" where
  "refusal_json now e kind target =
     JObj [(''pod_id'', JStr (eg_pod_id e)), (''principal'', JStr (eg_principal e)),
       (''trace_id'', case eg_trace_id e of None \<Rightarrow> JNull | Some t \<Rightarrow> JStr t),
       (''kind'', JStr kind), (''target'', JStr target),
       (''allowed_topics'', JList (map JStr (eg_topics e))), (''allowed_hosts'', JList (map JStr (eg_hosts e))),
       (''allowed_ports'', JList (map JInt (eg_ports e))), (''at'', JFloat (Fin now))]"

definition eg_refuse :: "real \<Rightarrow> egress \<Rightarrow> string \<Rightarrow> string \<Rightarrow> egress" where
  "eg_refuse now e kind target =
     (case eg_registry e of
        None \<Rightarrow> e\<lparr>eg_violations := Suc (eg_violations e)\<rparr>
      | Some r \<Rightarrow>
          e\<lparr>eg_violations := Suc (eg_violations e), eg_recorded := Suc (eg_recorded e),
            eg_registry := Some (reg_record_event now ''egress_refused'' (refusal_json now e kind target) r)\<rparr>)"

definition topic_granted :: "string list \<Rightarrow> string \<Rightarrow> bool" where
  "topic_granted ts topic =
     list_ex (\<lambda>t. topic = t \<or> starts_with (rstrip_char (CHR ''#'') t) topic
                    \<and> ((t \<noteq> [] \<and> last t = CHR ''#'') \<or> topic = t)) ts"

definition check_topic :: "real \<Rightarrow> egress \<Rightarrow> string \<Rightarrow> bool \<times> egress" where
  "check_topic now e topic =
     (if topic_granted (eg_topics e) topic then (True, e) else (False, eg_refuse now e ''topic'' topic))"

definition address_granted :: "egress \<Rightarrow> string \<Rightarrow> int \<Rightarrow> bool" where
  "address_granted e host port = (host \<in> set (eg_hosts e) \<and> port \<in> set (eg_ports e))"

definition check_host_port :: "real \<Rightarrow> egress \<Rightarrow> string \<Rightarrow> int \<Rightarrow> string \<Rightarrow> bool \<times> egress" where
  "check_host_port now e host port shown =
     (if address_granted e host port then (True, e) else (False, eg_refuse now e ''host_port'' shown))"

section \<open>Execution\<close>

text \<open>What reaches the outside: messages on the wire, subscriptions, connections, bytes.\<close>

datatype effect =
    Published string json
  | Subscribed string
  | Dialled string int
  | Sent nat
  | Received nat
  | Closed

datatype done_entry =
    Done_Pub string | Done_Sub string | Done_Dial string int | Done_Dial_Error
  | Done_Send nat | Done_Recv nat | Done_Close

record comm_result =
  cr_frames :: "frame list"
  cr_executed :: "done_entry list"
  cr_refused :: nat
  cr_invalid :: nat
  cr_overflow :: nat
  cr_recv_data :: "string list"
  cr_refused_output :: "(nat \<times> nat) option"

definition empty_result :: comm_result where
  "empty_result =
     \<lparr>cr_frames = [], cr_executed = [], cr_refused = 0, cr_invalid = 0, cr_overflow = 0,
      cr_recv_data = [], cr_refused_output = None\<rparr>"

record comm_state =
  cm_acl :: egress
  cm_mesh :: "endpoint option"
  cm_sock :: bool
  cm_strict :: bool
  cm_refused_outputs :: nat
  cm_effects :: "effect list"

text \<open>The outside world: the broker, the key, the clock and the sockets, by number of effects so far.\<close>

record net =
  nt_mac :: mac
  nt_rc :: "nat \<Rightarrow> int"
  nt_now :: real
  nt_connects :: "string \<Rightarrow> int \<Rightarrow> nat \<Rightarrow> bool"
  nt_sends :: "nat \<Rightarrow> bool"
  nt_receives :: "nat \<Rightarrow> string option"

definition add_effect :: "effect \<Rightarrow> comm_state \<Rightarrow> comm_state" where
  "add_effect x s = s\<lparr>cm_effects := cm_effects s @ [x]\<rparr>"

definition refuse_frame :: "comm_result \<Rightarrow> comm_result" where
  "refuse_frame r = r\<lparr>cr_refused := Suc (cr_refused r)\<rparr>"

definition add_done :: "done_entry \<Rightarrow> comm_result \<Rightarrow> comm_result" where
  "add_done d r = r\<lparr>cr_executed := cr_executed r @ [d]\<rparr>"

definition exec_pub ::
    "(string \<Rightarrow> json option) \<Rightarrow> net \<Rightarrow> comm_state \<Rightarrow> comm_result \<Rightarrow> string \<Rightarrow> string \<Rightarrow> comm_result result \<times> comm_state" where
  "exec_pub loads w s r topic payload =
     (let (ok, acl) = check_topic (nt_now w) (cm_acl s) topic; s' = s\<lparr>cm_acl := acl\<rparr>
      in case (ok, cm_mesh s) of
           (True, Some ep) \<Rightarrow>
             (let body = the (loads payload)
              in (Inr (add_done (Done_Pub topic) r),
                  add_effect (Published topic body)
                    (s'\<lparr>cm_mesh := Some (fst (mesh_publish_raw (nt_mac w) (nt_rc w) (nt_now w) ep topic body False))\<rparr>)))
         | _ \<Rightarrow> (Inr (refuse_frame r), s'))"

definition exec_sub :: "net \<Rightarrow> comm_state \<Rightarrow> comm_result \<Rightarrow> string \<Rightarrow> comm_result result \<times> comm_state" where
  "exec_sub w s r topic =
     (let (ok, acl) = check_topic (nt_now w) (cm_acl s) topic; s' = s\<lparr>cm_acl := acl\<rparr>
      in case (ok, cm_mesh s) of
           (True, Some ep) \<Rightarrow>
             (case mesh_subscribe ep topic 0 of
                (Inl e, ep') \<Rightarrow> (Inl e, s')
              | (Inr _, ep') \<Rightarrow>
                  (Inr (add_done (Done_Sub topic) r), add_effect (Subscribed topic) (s'\<lparr>cm_mesh := Some ep'\<rparr>)))
         | _ \<Rightarrow> (Inr (refuse_frame r), s'))"

definition exec_dial :: "net \<Rightarrow> comm_state \<Rightarrow> comm_result \<Rightarrow> string \<Rightarrow> comm_result result \<times> comm_state" where
  "exec_dial w s r address =
     (let host = host_part address; port = port_of address;
          (ok, acl) = check_host_port (nt_now w) (cm_acl s) host port (shown_address address); s' = s\<lparr>cm_acl := acl\<rparr>
      in if \<not> ok then (Inr (refuse_frame r), s')
         else if nt_connects w host port (length (cm_effects s))
         then (Inr (add_done (Done_Dial host port) r), add_effect (Dialled host port) (s'\<lparr>cm_sock := True\<rparr>))
         else (Inr (add_done Done_Dial_Error r), s'))"

definition exec_send :: "net \<Rightarrow> comm_state \<Rightarrow> comm_result \<Rightarrow> string \<Rightarrow> comm_result result \<times> comm_state" where
  "exec_send w s r data =
     (if \<not> cm_sock s then (Inr (refuse_frame r), s)
      else if nt_sends w (length (cm_effects s))
      then (Inr (add_done (Done_Send (length data)) r), add_effect (Sent (b64_size data)) s)
      else (Inl ConnectionError, s))"

definition exec_recv :: "net \<Rightarrow> comm_state \<Rightarrow> comm_result \<Rightarrow> comm_result result \<times> comm_state" where
  "exec_recv w s r =
     (if \<not> cm_sock s then (Inr (refuse_frame r), s)
      else case nt_receives w (length (cm_effects s)) of
             None \<Rightarrow> (Inl TimeoutError, s)
           | Some d \<Rightarrow>
               (Inr ((add_done (Done_Recv (length d)) r)\<lparr>cr_recv_data := cr_recv_data r @ [d]\<rparr>),
                add_effect (Received (length d)) s))"

definition exec_close :: "comm_state \<Rightarrow> comm_result \<Rightarrow> comm_result result \<times> comm_state" where
  "exec_close s r =
     (Inr (add_done Done_Close r), if cm_sock s then add_effect Closed (s\<lparr>cm_sock := False\<rparr>) else s)"

definition exec_frame ::
    "(string \<Rightarrow> json option) \<Rightarrow> net \<Rightarrow> comm_state \<Rightarrow> comm_result \<Rightarrow> frame \<Rightarrow> comm_result result \<times> comm_state" where
  "exec_frame loads w s r0 f =
     (let r = r0\<lparr>cr_frames := cr_frames r0 @ [f]\<rparr>
      in case fr_kind f of
           INVALID \<Rightarrow> (Inr (r\<lparr>cr_invalid := Suc (cr_invalid r)\<rparr>), s)
         | PUB \<Rightarrow> exec_pub loads w s r (fr_args f ! 0) (fr_args f ! 1)
         | SUB \<Rightarrow> exec_sub w s r (fr_args f ! 0)
         | DIAL \<Rightarrow> exec_dial w s r (fr_args f ! 0)
         | SEND \<Rightarrow> exec_send w s r (fr_args f ! 0)
         | RECV \<Rightarrow> exec_recv w s r
         | CLOSE \<Rightarrow> exec_close s r)"

fun exec_frames ::
    "(string \<Rightarrow> json option) \<Rightarrow> net \<Rightarrow> comm_state \<Rightarrow> comm_result \<Rightarrow> frame list \<Rightarrow> comm_result result \<times> comm_state" where
  "exec_frames loads w s r [] = (Inr r, s)"
| "exec_frames loads w s r (f # fs) =
     (case exec_frame loads w s r f of
        (Inl e, s') \<Rightarrow> (Inl e, s')
      | (Inr r', s') \<Rightarrow> exec_frames loads w s' r' fs)"

definition count_invalid :: "frame list \<Rightarrow> nat" where
  "count_invalid fs = length (filter (\<lambda>f. \<not> fr_valid f) fs)"

definition nc_execute ::
    "(string \<Rightarrow> json option) \<Rightarrow> net \<Rightarrow> comm_state \<Rightarrow> string \<Rightarrow> comm_result result \<times> comm_state" where
  "nc_execute loads w s text =
     (let frames = parse_frames loads text; over = frame_overflow text; bad = count_invalid frames
      in if cm_strict s \<and> (bad \<noteq> 0 \<or> over \<noteq> 0)
         then (Inr (empty_result\<lparr>cr_frames := frames, cr_invalid := bad, cr_overflow := over,
                      cr_refused := length (filter fr_valid frames), cr_refused_output := Some (bad, over)\<rparr>),
               s\<lparr>cm_refused_outputs := Suc (cm_refused_outputs s)\<rparr>)
         else exec_frames loads w s (empty_result\<lparr>cr_overflow := over\<rparr>) frames)"

definition nc_close :: "comm_state \<Rightarrow> comm_state" where
  "nc_close s = (if cm_sock s then add_effect Closed (s\<lparr>cm_sock := False\<rparr>) else s)"

definition new_comm :: "endpoint option \<Rightarrow> egress \<Rightarrow> bool \<Rightarrow> comm_state" where
  "new_comm mesh acl strict =
     \<lparr>cm_acl = acl, cm_mesh = mesh, cm_sock = False, cm_strict = strict, cm_refused_outputs = 0,
      cm_effects = []\<rparr>"

section \<open>What a run may do\<close>

text \<open>A frame as the parser builds it.\<close>

definition frame_ok :: "(string \<Rightarrow> json option) \<Rightarrow> frame \<Rightarrow> bool" where
  "frame_ok loads f =
     (case fr_kind f of
        PUB \<Rightarrow> (\<exists>t p. fr_args f = [t, p] \<and> is_topic t \<and> loads p \<noteq> None)
      | SUB \<Rightarrow> (\<exists>t. fr_args f = [t] \<and> is_topic t)
      | DIAL \<Rightarrow> (\<exists>a. fr_args f = [a] \<and> is_address a)
      | SEND \<Rightarrow> (\<exists>d. fr_args f = [d] \<and> is_b64 d)
      | RECV \<Rightarrow> fr_args f = []
      | CLOSE \<Rightarrow> fr_args f = []
      | INVALID \<Rightarrow> fr_args f = [fr_raw f])"

lemma parse_line_ok: "frame_ok loads (parse_line loads l)"
  unfolding parse_line_def Let_def frame_ok_def by simp

lemma parse_frames_ok: "f \<in> set (parse_frames loads text) \<Longrightarrow> frame_ok loads f"
  unfolding parse_frames_def by (auto dest!: in_set_takeD simp: parse_line_ok)

text \<open>Bytes travel only over an open connection.\<close>

fun conn_ok :: "bool \<Rightarrow> effect list \<Rightarrow> bool" where
  "conn_ok b [] = True"
| "conn_ok b (Dialled h p # es) = conn_ok True es"
| "conn_ok b (Sent n # es) = (b \<and> conn_ok b es)"
| "conn_ok b (Received n # es) = (b \<and> conn_ok b es)"
| "conn_ok b (Closed # es) = (b \<and> conn_ok False es)"
| "conn_ok b (Published t j # es) = conn_ok b es"
| "conn_ok b (Subscribed t # es) = conn_ok b es"

fun conn_after :: "bool \<Rightarrow> effect list \<Rightarrow> bool" where
  "conn_after b [] = b"
| "conn_after b (Dialled h p # es) = conn_after True es"
| "conn_after b (Closed # es) = conn_after False es"
| "conn_after b (e # es) = conn_after b es"

lemma conn_append:
  "conn_ok b (xs @ ys) \<longleftrightarrow> conn_ok b xs \<and> conn_ok (conn_after b xs) ys"
  "conn_after b (xs @ ys) = conn_after (conn_after b xs) ys"
  by (induction b xs rule: conn_ok.induct) auto

definition granted :: "egress \<Rightarrow> effect \<Rightarrow> bool" where
  "granted e x =
     (case x of
        Published t j \<Rightarrow> topic_granted (eg_topics e) t \<and> is_topic t
      | Subscribed t \<Rightarrow> topic_granted (eg_topics e) t \<and> is_topic t
      | Dialled h p \<Rightarrow> address_granted e h p
      | _ \<Rightarrow> True)"

text \<open>An address that a frame asks for and the ACL does not grant, what \<open>_refuse\<close> records of it, and the ACL
  after one refusal for each of a list of frames.\<close>

definition frame_refused :: "egress \<Rightarrow> frame \<Rightarrow> bool" where
  "frame_refused e f =
     (case fr_kind f of
        PUB \<Rightarrow> \<not> topic_granted (eg_topics e) (fr_args f ! 0)
      | SUB \<Rightarrow> \<not> topic_granted (eg_topics e) (fr_args f ! 0)
      | DIAL \<Rightarrow> \<not> address_granted e (host_part (fr_args f ! 0)) (port_of (fr_args f ! 0))
      | _ \<Rightarrow> False)"

definition refusal_of :: "frame \<Rightarrow> string \<times> string" where
  "refusal_of f =
     (if fr_kind f = DIAL then (''host_port'', shown_address (fr_args f ! 0)) else (''topic'', fr_args f ! 0))"

definition acl_refusing :: "real \<Rightarrow> frame list \<Rightarrow> egress \<Rightarrow> egress" where
  "acl_refusing now fs e = fold (\<lambda>f a. case refusal_of f of (kind, target) \<Rightarrow> eg_refuse now a kind target) fs e"

definition events_of :: "egress \<Rightarrow> nat" where
  "events_of e = (case eg_registry e of None \<Rightarrow> 0 | Some r \<Rightarrow> length (rg_events r))"

definition acl_step :: "egress \<Rightarrow> egress \<Rightarrow> bool" where
  "acl_step e e' =
     (eg_topics e' = eg_topics e \<and> eg_hosts e' = eg_hosts e \<and> eg_ports e' = eg_ports e
      \<and> eg_principal e' = eg_principal e \<and> eg_pod_id e' = eg_pod_id e \<and> eg_trace_id e' = eg_trace_id e
      \<and> (eg_registry e' = None \<longleftrightarrow> eg_registry e = None))"

lemma acl_step_refl [simp]: "acl_step e e"
  by (simp add: acl_step_def)

lemma acl_step_trans: "acl_step a b \<Longrightarrow> acl_step b c \<Longrightarrow> acl_step a c"
  unfolding acl_step_def by simp

lemma eg_refuse_step [simp]: "acl_step e (eg_refuse now e k t)"
  by (simp add: acl_step_def eg_refuse_def split: option.split)

lemma eg_refuse_counts:
  "eg_violations (eg_refuse now e k t) = Suc (eg_violations e)"
  "eg_recorded (eg_refuse now e k t) = eg_recorded e + (if eg_registry e = None then 0 else 1)"
  "events_of (eg_refuse now e k t) = events_of e + (if eg_registry e = None then 0 else 1)"
  by (simp_all add: eg_refuse_def events_of_def reg_record_event_def split: option.split)

lemma acl_refusing_simps [simp]:
  "acl_refusing now [] e = e"
  "acl_refusing now (f # fs) e = acl_refusing now fs (case refusal_of f of (k, t) \<Rightarrow> eg_refuse now e k t)"
  by (simp_all add: acl_refusing_def)

lemma acl_refusing_step: "acl_step e (acl_refusing now fs e)"
proof (induction fs arbitrary: e)
  case (Cons f fs)
  show ?case by (cases "refusal_of f") (auto intro: acl_step_trans [OF eg_refuse_step Cons.IH])
qed simp

lemma acl_refusing_counts:
  "eg_violations (acl_refusing now fs e) = eg_violations e + length fs
   \<and> eg_recorded (acl_refusing now fs e) = eg_recorded e + (if eg_registry e = None then 0 else length fs)
   \<and> events_of (acl_refusing now fs e) = events_of e + (if eg_registry e = None then 0 else length fs)"
proof (induction fs arbitrary: e)
  case (Cons f fs)
  obtain k t where kt: "refusal_of f = (k, t)" by fastforce
  have none: "eg_registry (eg_refuse now e k t) = None \<longleftrightarrow> eg_registry e = None"
    using eg_refuse_step unfolding acl_step_def by blast
  show ?case using Cons.IH [of "eg_refuse now e k t"] by (auto simp: kt none eg_refuse_counts)
qed simp

lemma frame_refused_step: "acl_step e e' \<Longrightarrow> frame_refused e' f = frame_refused e f"
  by (simp add: frame_refused_def acl_step_def address_granted_def split: frame_kind.split)

lemma granted_step: "acl_step e e' \<Longrightarrow> granted e' x = granted e x"
  by (simp add: granted_def acl_step_def address_granted_def split: effect.split)

definition comm_step :: "comm_state \<Rightarrow> comm_state \<Rightarrow> bool" where
  "comm_step s s' =
     (acl_step (cm_acl s) (cm_acl s') \<and> cm_strict s' = cm_strict s \<and>
      (\<exists>new. cm_effects s' = cm_effects s @ new \<and> list_all (granted (cm_acl s)) new
         \<and> conn_ok (cm_sock s) new \<and> conn_after (cm_sock s) new = cm_sock s'))"

lemma comm_step_refl [simp]: "comm_step s s"
  by (simp add: comm_step_def)

lemma comm_step_trans:
  assumes "comm_step a b" and "comm_step b c"
  shows "comm_step a c"
proof -
  from assms(1) obtain xs where x: "acl_step (cm_acl a) (cm_acl b)" "cm_strict b = cm_strict a"
    "cm_effects b = cm_effects a @ xs" "list_all (granted (cm_acl a)) xs" "conn_ok (cm_sock a) xs"
    "conn_after (cm_sock a) xs = cm_sock b" unfolding comm_step_def by blast
  from assms(2) obtain ys where y: "acl_step (cm_acl b) (cm_acl c)" "cm_strict c = cm_strict b"
    "cm_effects c = cm_effects b @ ys" "list_all (granted (cm_acl b)) ys" "conn_ok (cm_sock b) ys"
    "conn_after (cm_sock b) ys = cm_sock c" unfolding comm_step_def by blast
  have "granted (cm_acl b) = granted (cm_acl a)" using granted_step [OF x(1)] by blast
  with x y show ?thesis
    unfolding comm_step_def
    by (intro conjI exI [of _ "xs @ ys"]) (auto simp: conn_append intro: acl_step_trans)
qed

lemma comm_step_none:
  "acl_step (cm_acl s) (cm_acl s') \<Longrightarrow> cm_strict s' = cm_strict s \<Longrightarrow> cm_effects s' = cm_effects s \<Longrightarrow>
   cm_sock s' = cm_sock s \<Longrightarrow> comm_step s s'"
  by (simp add: comm_step_def)

lemma comm_step_one:
  "acl_step (cm_acl s) (cm_acl s') \<Longrightarrow> cm_strict s' = cm_strict s \<Longrightarrow> cm_effects s' = cm_effects s @ [x] \<Longrightarrow>
   granted (cm_acl s) x \<Longrightarrow> conn_ok (cm_sock s) [x] \<Longrightarrow> conn_after (cm_sock s) [x] = cm_sock s' \<Longrightarrow>
   comm_step s s'"
  by (simp add: comm_step_def)

lemma check_topic_step: "acl_step e (snd (check_topic now e t))" "fst (check_topic now e t) = topic_granted (eg_topics e) t"
  by (simp_all add: check_topic_def)

lemma exec_frame_step:
  assumes "frame_ok loads f"
  shows "comm_step s (snd (exec_frame loads w s r f))"
proof (cases "fr_kind f")
  case PUB
  then obtain t p where a: "fr_args f = [t, p]" "is_topic t" using assms by (auto simp: frame_ok_def)
  show ?thesis
  proof (cases "topic_granted (eg_topics (cm_acl s)) t \<and> cm_mesh s \<noteq> None")
    case True
    then show ?thesis
      by (intro comm_step_one [where x = "Published t (the (loads p))"])
        (auto simp: exec_frame_def PUB a exec_pub_def check_topic_def add_effect_def granted_def Let_def)
  next
    case False
    then show ?thesis
      by (intro comm_step_none)
        (auto simp: exec_frame_def PUB a exec_pub_def check_topic_def Let_def split: option.split)
  qed
next
  case SUB
  then obtain t where a: "fr_args f = [t]" "is_topic t" using assms by (auto simp: frame_ok_def)
  show ?thesis
  proof (cases "\<exists>ep ep'. topic_granted (eg_topics (cm_acl s)) t \<and> cm_mesh s = Some ep \<and> mesh_subscribe ep t 0 = (Inr (), ep')")
    case True
    then show ?thesis
      by (intro comm_step_one [where x = "Subscribed t"])
        (auto simp: exec_frame_def SUB a exec_sub_def check_topic_def add_effect_def granted_def Let_def)
  next
    case False
    then show ?thesis
      by (intro comm_step_none)
        (auto simp: exec_frame_def SUB a exec_sub_def check_topic_def Let_def split: option.split prod.split sum.split)
  qed
next
  case DIAL
  then obtain d where a: "fr_args f = [d]" using assms by (auto simp: frame_ok_def)
  show ?thesis
  proof (cases "address_granted (cm_acl s) (host_part d) (port_of d) \<and>
      nt_connects w (host_part d) (port_of d) (length (cm_effects s))")
    case True
    then show ?thesis
      by (intro comm_step_one [where x = "Dialled (host_part d) (port_of d)"])
        (auto simp: exec_frame_def DIAL a exec_dial_def check_host_port_def add_effect_def granted_def Let_def)
  next
    case False
    then show ?thesis
      by (intro comm_step_none)
        (auto simp: exec_frame_def DIAL a exec_dial_def check_host_port_def Let_def)
  qed
next
  case SEND
  then obtain d where a: "fr_args f = [d]" using assms by (auto simp: frame_ok_def)
  show ?thesis
  proof (cases "cm_sock s \<and> nt_sends w (length (cm_effects s))")
    case True
    then show ?thesis
      by (intro comm_step_one [where x = "Sent (b64_size d)"])
        (auto simp: exec_frame_def SEND a exec_send_def add_effect_def granted_def Let_def)
  next
    case False
    then show ?thesis
      by (intro comm_step_none) (auto simp: exec_frame_def SEND a exec_send_def Let_def)
  qed
next
  case RECV
  show ?thesis
  proof (cases "cm_sock s \<and> nt_receives w (length (cm_effects s)) \<noteq> None")
    case True
    then obtain d where d: "nt_receives w (length (cm_effects s)) = Some d" by auto
    with True show ?thesis
      by (intro comm_step_one [where x = "Received (length d)"])
        (auto simp: exec_frame_def RECV exec_recv_def add_effect_def granted_def Let_def)
  next
    case False
    then show ?thesis
      by (intro comm_step_none) (auto simp: exec_frame_def RECV exec_recv_def Let_def)
  qed
next
  case CLOSE
  show ?thesis
  proof (cases "cm_sock s")
    case True
    then show ?thesis
      by (intro comm_step_one [where x = Closed])
        (auto simp: exec_frame_def CLOSE exec_close_def add_effect_def granted_def Let_def)
  qed (simp add: exec_frame_def CLOSE exec_close_def)
next
  case INVALID
  then show ?thesis by (simp add: exec_frame_def)
qed

lemma exec_frames_step:
  "(\<forall>f\<in>set fs. frame_ok loads f) \<Longrightarrow> comm_step s (snd (exec_frames loads w s r fs))"
proof (induction fs arbitrary: s r)
  case (Cons f fs)
  have first: "comm_step s (snd (exec_frame loads w s r f))" using Cons.prems by (simp add: exec_frame_step)
  show ?case
  proof (cases "exec_frame loads w s r f")
    case (Pair x s')
    with first Cons.IH Cons.prems show ?thesis
      by (cases x) (auto intro: comm_step_trans)
  qed
qed simp

text \<open>The frames that were executed: all of them, or up to the one that raised.\<close>

fun ran_frames :: "(string \<Rightarrow> json option) \<Rightarrow> net \<Rightarrow> comm_state \<Rightarrow> comm_result \<Rightarrow> frame list \<Rightarrow> frame list" where
  "ran_frames loads w s r [] = []"
| "ran_frames loads w s r (f # fs) =
     f # (case exec_frame loads w s r f of (Inl e, s') \<Rightarrow> [] | (Inr r', s') \<Rightarrow> ran_frames loads w s' r' fs)"

lemma ran_all: "fst (exec_frames loads w s r fs) = Inr res \<Longrightarrow> ran_frames loads w s r fs = fs"
  by (induction fs arbitrary: s r) (auto split: prod.splits sum.splits)

lemma ran_prefix: "\<exists>rest. fs = ran_frames loads w s r fs @ rest"
proof (induction fs arbitrary: s r)
  case (Cons f fs)
  then show ?case by (cases "exec_frame loads w s r f"; cases "fst (exec_frame loads w s r f)") auto
qed simp

lemma exec_frame_acl:
  "cm_acl (snd (exec_frame loads w s r f)) =
     acl_refusing (nt_now w) (filter (frame_refused (cm_acl s)) [f]) (cm_acl s)"
  by (cases "fr_kind f")
    (auto simp: exec_frame_def exec_pub_def exec_sub_def exec_dial_def exec_send_def exec_recv_def exec_close_def
      check_topic_def check_host_port_def frame_refused_def refusal_of_def add_effect_def Let_def
      split: option.split prod.split sum.split)

lemma exec_frames_acl:
  "cm_acl (snd (exec_frames loads w s r fs)) =
     acl_refusing (nt_now w) (filter (frame_refused (cm_acl s)) (ran_frames loads w s r fs)) (cm_acl s)"
proof (induction fs arbitrary: s r)
  case (Cons f fs)
  obtain x s1 where x: "exec_frame loads w s r f = (x, s1)" by fastforce
  have acl: "cm_acl s1 = acl_refusing (nt_now w) (filter (frame_refused (cm_acl s)) [f]) (cm_acl s)"
    using exec_frame_acl [of loads w s r f] by (simp add: x)
  have same: "frame_refused (cm_acl s1) = frame_refused (cm_acl s)"
    using frame_refused_step [OF acl_refusing_step] unfolding acl by blast
  show ?case
  proof (cases x)
    case (Inl e)
    then show ?thesis by (simp add: x acl)
  next
    case (Inr r1)
    have "cm_acl (snd (exec_frames loads w s1 r1 fs)) =
        acl_refusing (nt_now w) (filter (frame_refused (cm_acl s)) (ran_frames loads w s1 r1 fs)) (cm_acl s1)"
      unfolding Cons.IH same ..
    then show ?thesis by (simp add: x Inr acl)
  qed
qed simp

text \<open>C19. A pod reaches only what its contract grants, and a half-understood output does nothing. Whatever text
  the model emits and whatever the network does, executing it publishes and subscribes only to topics the
  egress ACL grants, dials only granted hosts and ports, and sends or receives bytes only over a connection
  that was dialled and not closed; the grants do not change. Of the frames that were executed (all, or those up
  to the one that raised) each with a topic or an address that is not granted raises the violation counter by
  one and, with a registry, is one more event there, written by \<open>_refuse\<close> with its kind and target, in order;
  nothing else touches the counters. In strict mode an output with an unreadable line or more than
  \<open>MAX_FRAMES\<close> lines has no effect at all and counts no violation.\<close>

theorem native_comm_fail_closed:
  assumes "nc_execute loads w s text = (r, s')"
    and "strict_refusal \<longleftrightarrow> cm_strict s \<and> ((\<exists>l\<in>set (take MAX_FRAMES (frame_lines text)). fr_kind (parse_line loads l) = INVALID)
          \<or> MAX_FRAMES < length (frame_lines text))"
    and "executed = (if strict_refusal then [] else
          ran_frames loads w s (empty_result\<lparr>cr_overflow := frame_overflow text\<rparr>) (parse_frames loads text))"
    and "bad = filter (frame_refused (cm_acl s)) executed"
  shows "(\<exists>new. cm_effects s' = cm_effects s @ new \<and> list_all (granted (cm_acl s)) new
        \<and> conn_ok (cm_sock s) new \<and> conn_after (cm_sock s) new = cm_sock s')
    \<and> acl_step (cm_acl s) (cm_acl s')
    \<and> (\<exists>rest. parse_frames loads text = executed @ rest)
    \<and> (\<not> strict_refusal \<and> (\<exists>res. r = Inr res) \<longrightarrow> executed = parse_frames loads text)
    \<and> cm_acl s' = acl_refusing (nt_now w) bad (cm_acl s)
    \<and> eg_violations (cm_acl s') = eg_violations (cm_acl s) + length bad
    \<and> eg_recorded (cm_acl s') = eg_recorded (cm_acl s) + (if eg_registry (cm_acl s) = None then 0 else length bad)
    \<and> events_of (cm_acl s') = events_of (cm_acl s) + (if eg_registry (cm_acl s) = None then 0 else length bad)
    \<and> (strict_refusal \<longrightarrow>
        cm_effects s' = cm_effects s \<and> cm_acl s' = cm_acl s \<and> cm_mesh s' = cm_mesh s
          \<and> (\<exists>res. r = Inr res \<and> cr_executed res = []))"
proof -
  let ?fs = "parse_frames loads text"
  let ?r0 = "empty_result\<lparr>cr_overflow := frame_overflow text\<rparr>"
  have "count_invalid ?fs \<noteq> 0 \<longleftrightarrow>
      (\<exists>l\<in>set (take MAX_FRAMES (frame_lines text)). fr_kind (parse_line loads l) = INVALID)"
    by (auto simp: count_invalid_def parse_frames_def take_map filter_empty_conv fr_valid_def)
  moreover have "frame_overflow text \<noteq> 0 \<longleftrightarrow> MAX_FRAMES < length (frame_lines text)"
    by (auto simp: frame_overflow_def)
  ultimately have strict: "strict_refusal \<longleftrightarrow> cm_strict s \<and> (count_invalid ?fs \<noteq> 0 \<or> frame_overflow text \<noteq> 0)"
    using assms(2) by blast
  show ?thesis
  proof (cases strict_refusal)
    case True
    then have "s' = s\<lparr>cm_refused_outputs := Suc (cm_refused_outputs s)\<rparr> \<and>
        (\<exists>res. r = Inr res \<and> cr_executed res = [])"
      using assms(1) strict by (auto simp: nc_execute_def Let_def empty_result_def)
    with True assms(3,4) show ?thesis by auto
  next
    case False
    then have run: "(r, s') = exec_frames loads w s ?r0 ?fs"
      using assms(1) strict unfolding nc_execute_def Let_def by (simp only: if_False)
    have ran: "executed = ran_frames loads w s ?r0 ?fs" using False assms(3) by simp
    have acl: "cm_acl s' = acl_refusing (nt_now w) bad (cm_acl s)"
      using exec_frames_acl [of loads w s ?r0 ?fs] by (simp add: assms(4) ran flip: run)
    have "comm_step s s'" using exec_frames_step [of ?fs loads s w ?r0] parse_frames_ok by (auto simp flip: run)
    moreover have "\<exists>rest. ?fs = executed @ rest" unfolding ran by (rule ran_prefix)
    moreover have "executed = ?fs" if "r = Inr res" for res
      unfolding ran by (rule ran_all [of _ _ _ _ _ res]) (simp add: that flip: run)
    ultimately show ?thesis
      using False acl acl_refusing_counts [of "nt_now w" bad "cm_acl s"] unfolding comm_step_def by auto
  qed
qed

definition demo_loads :: "string \<Rightarrow> json option" where
  "demo_loads t = (if t = ''1'' then Some (JInt 1) else None)"

definition demo_net :: net where
  "demo_net =
     \<lparr>nt_mac = (\<lambda>k e. []), nt_rc = (\<lambda>n. 0), nt_now = 0, nt_connects = (\<lambda>h p n. True),
      nt_sends = (\<lambda>n. True), nt_receives = (\<lambda>n. Some ''ok'')\<rparr>"

definition demo_comm :: comm_state where
  "demo_comm =
     new_comm (Some (new_endpoint ''pod'' ''local'' [] None None))
       (new_egress [''np/a/#''] [''h''] [80] ''local'' (Some empty_registry) ''pod'' None) True"

definition demo_text :: string where
  "demo_text = ''PUB np/a/x 1'' @ [CHR 0x0A] @ ''PUB np/b 1'' @ [CHR 0x0A] @ ''dial h:080'' @ [CHR 0x0A] @ ''RECV''"

lemma demo_comm_run:
  "cm_effects (snd (nc_execute demo_loads demo_net demo_comm demo_text)) =
     [Published ''np/a/x'' (JInt 1), Dialled ''h'' 80, Received 2]"
  "MAX_FRAMES = 16 \<and> length (frame_lines demo_text) = 4"
  "map (\<lambda>l. fr_kind (parse_line demo_loads l)) (frame_lines demo_text) = [PUB, PUB, DIAL, RECV]"
  "map refusal_of (filter (frame_refused (cm_acl demo_comm)) (ran_frames demo_loads demo_net demo_comm
     (empty_result\<lparr>cr_overflow := frame_overflow demo_text\<rparr>) (parse_frames demo_loads demo_text))) = [(''topic'', ''np/b'')]"
  "cm_effects demo_comm = [] \<and> cm_strict demo_comm \<and> eg_registry (cm_acl demo_comm) = Some empty_registry
     \<and> eg_violations (cm_acl demo_comm) = 0 \<and> events_of (cm_acl demo_comm) = 0"
  "\<exists>l\<in>set (take MAX_FRAMES (frame_lines (''rm'' @ [CHR 0x0A] @ demo_text))). fr_kind (parse_line demo_loads l) = INVALID"
  by code_simp+

theorem native_comm_fail_closed_witness:
  "list_all (granted (cm_acl demo_comm)) [Published ''np/a/x'' (JInt 1), Dialled ''h'' 80, Received 2]
   \<and> eg_violations (cm_acl (snd (nc_execute demo_loads demo_net demo_comm demo_text))) = 1
   \<and> events_of (cm_acl (snd (nc_execute demo_loads demo_net demo_comm demo_text))) = 1
   \<and> cm_effects (snd (nc_execute demo_loads demo_net demo_comm (''rm'' @ [CHR 0x0A] @ demo_text))) = []"
proof -
  let ?ran = "ran_frames demo_loads demo_net demo_comm
     (empty_result\<lparr>cr_overflow := frame_overflow demo_text\<rparr>) (parse_frames demo_loads demo_text)"
  have "\<forall>l\<in>set (frame_lines demo_text). fr_kind (parse_line demo_loads l) \<in> {PUB, DIAL, RECV}"
    using arg_cong [OF demo_comm_run(3), of set] by auto
  then have no: "False \<longleftrightarrow> cm_strict demo_comm \<and> ((\<exists>l\<in>set (take MAX_FRAMES (frame_lines demo_text)).
      fr_kind (parse_line demo_loads l) = INVALID) \<or> MAX_FRAMES < length (frame_lines demo_text))"
    using demo_comm_run(2) by (auto dest: in_set_takeD)
  have ran: "?ran = (if False then [] else ?ran)" by simp
  from native_comm_fail_closed [OF surjective_pairing no ran refl]
  have clean: "list_all (granted (cm_acl demo_comm)) (cm_effects (snd (nc_execute demo_loads demo_net demo_comm demo_text)))
    \<and> eg_violations (cm_acl (snd (nc_execute demo_loads demo_net demo_comm demo_text))) = length (map refusal_of (filter (frame_refused (cm_acl demo_comm)) ?ran))
    \<and> events_of (cm_acl (snd (nc_execute demo_loads demo_net demo_comm demo_text))) = length (map refusal_of (filter (frame_refused (cm_acl demo_comm)) ?ran))"
    using demo_comm_run(5) by auto
  have yes: "True \<longleftrightarrow> cm_strict demo_comm \<and> ((\<exists>l\<in>set (take MAX_FRAMES (frame_lines (''rm'' @ [CHR 0x0A] @ demo_text))).
      fr_kind (parse_line demo_loads l) = INVALID) \<or> MAX_FRAMES < length (frame_lines (''rm'' @ [CHR 0x0A] @ demo_text)))"
    using demo_comm_run(5,6) by blast
  have none: "[] = (if True then [] else ran_frames demo_loads demo_net demo_comm
      (empty_result\<lparr>cr_overflow := frame_overflow (''rm'' @ [CHR 0x0A] @ demo_text)\<rparr>)
      (parse_frames demo_loads (''rm'' @ [CHR 0x0A] @ demo_text)))" by simp
  from native_comm_fail_closed [OF surjective_pairing yes none refl] clean show ?thesis
    unfolding demo_comm_run(1,4) using demo_comm_run(5) by simp
qed

end
