(* ===== verification/Port_Plane.thy ===== *)
theory Port_Plane
  imports Registry
begin

text \<open>
  \<open>TemporalPortPlane\<close> of \<open>neural_pods/symlink.py\<close> and \<open>ReflexChannel\<close> of \<open>neural_pods/reflex.py\<close>: from an alias
  the model emits to the pod that answers.

  \<^item> \<open>normalized\<close>, \<open>port\<close>, \<open>plane\<close>, \<open>tp_bind\<close>, \<open>tp_update\<close>, \<open>tp_resolve\<close>: the two tables of the plane and
    its operations, over the registry of theory \<open>Registry\<close>. Text is ASCII, on which case folding is
    lower case and the Unicode decomposition does nothing.
  \<^item> \<open>reflex\<close>, \<open>rx_invoke\<close>, \<open>rx_miss\<close>, \<open>rx_failover\<close>, \<open>rx_stats\<close>: the channel. The pods are a parameter
    \<open>dispatch\<close>; the readings of the performance counter are \<open>clk 0\<close> (start), \<open>clk 1\<close> (resolved),
    \<open>clk 2\<close> (dispatched) and \<open>clk 3\<close> (failed over).
\<close>

section \<open>Ports\<close>

fun words_from :: "string \<Rightarrow> string \<Rightarrow> string list" where
  "words_from acc [] = (if acc = [] then [] else [rev acc])"
| "words_from acc (c # cs) =
     (if is_space c then (if acc = [] then words_from [] cs else rev acc # words_from [] cs)
      else words_from (c # acc) cs)"

definition normalized :: "string \<Rightarrow> string" where
  "normalized s = join_with (CHR '' '') (words_from [] (map lower_char s))"

record port =
  tp_slot :: int
  tp_generation :: string
  tp_value :: "string option"
  tp_revision :: int
  tp_status :: string

record plane =
  pp_ports :: "(string, port) dict"
  pp_aliases :: "(string, string) dict"

definition empty_plane :: plane where
  "empty_plane = \<lparr>pp_ports = [], pp_aliases = []\<rparr>"

record port_view =
  pv_alias :: string
  pv_knowledge :: string
  pv_slot :: int
  pv_generation :: string
  pv_revision :: int
  pv_value :: "string option"

text \<open>The current generation, valid for the caller: \<open>head\<close> followed by \<open>snapshot\<close>.\<close>

definition current_generation :: "real \<Rightarrow> registry \<Rightarrow> string \<Rightarrow> string \<Rightarrow> string result" where
  "current_generation now r key who =
     (case reg_head r key of
        Inl e \<Rightarrow> Inl e
      | Inr g \<Rightarrow> (case reg_snapshot now r [g] who of Inl e \<Rightarrow> Inl e | Inr _ \<Rightarrow> Inr g))"

definition alias_keys :: "json list \<Rightarrow> string list" where
  "alias_keys xs =
     sorted_set (concat (map (\<lambda>v. case v of JStr s \<Rightarrow> if strip s = [] then [] else [normalized s] | _ \<Rightarrow> []) xs))"

definition next_slot :: "plane \<Rightarrow> int" where
  "next_slot p = (if pp_ports p = [] then 0 else Max ((tp_slot \<circ> snd) ` set (pp_ports p))) + 1"

definition tp_bind ::
    "real \<Rightarrow> registry \<Rightarrow> string \<Rightarrow> plane \<Rightarrow> string \<Rightarrow> json list \<Rightarrow> string option \<Rightarrow> port result \<times> plane" where
  "tp_bind now r who p key aliases value =
     (case current_generation now r key who of
        Inl e \<Rightarrow> (Inl e, p)
      | Inr g \<Rightarrow>
          (let as = alias_keys aliases
           in if as = [] then (Inl ValueError, p)
              else if list_ex (\<lambda>a. dget (pp_aliases p) a \<noteq> None \<and> dget (pp_aliases p) a \<noteq> Some key) as
              then (Inl InvalidState, p)
              else (let port = (case dget (pp_ports p) key of
                      None \<Rightarrow> \<lparr>tp_slot = next_slot p, tp_generation = g, tp_value = value, tp_revision = 1,
                               tp_status = ''active''\<rparr>
                    | Some q \<Rightarrow> q\<lparr>tp_generation := g,
                                  tp_value := (case value of None \<Rightarrow> tp_value q | Some v \<Rightarrow> Some v),
                                  tp_revision := tp_revision q + 1, tp_status := ''active''\<rparr>)
                    in (Inr port,
                        p\<lparr>pp_ports := dput key port (pp_ports p),
                          pp_aliases := fold (\<lambda>a. dput a key) as (pp_aliases p)\<rparr>))))"

definition tp_update ::
    "real \<Rightarrow> registry \<Rightarrow> string \<Rightarrow> plane \<Rightarrow> string \<Rightarrow> string option \<Rightarrow> int option \<Rightarrow> port result \<times> plane" where
  "tp_update now r who p key value expected =
     (case current_generation now r key who of
        Inl e \<Rightarrow> (Inl e, p)
      | Inr g \<Rightarrow>
          (case dget (pp_ports p) key of
             None \<Rightarrow> (Inl InvalidState, p)
           | Some q \<Rightarrow>
               if expected \<noteq> None \<and> expected \<noteq> Some (tp_revision q) then (Inl InvalidState, p)
               else (let port = q\<lparr>tp_generation := g, tp_value := value, tp_revision := tp_revision q + 1,
                                   tp_status := ''active''\<rparr>
                     in (Inr port, p\<lparr>pp_ports := dput key port (pp_ports p)\<rparr>))))"

definition tp_resolve :: "real \<Rightarrow> registry \<Rightarrow> string \<Rightarrow> plane \<Rightarrow> string \<Rightarrow> port_view result" where
  "tp_resolve now r who p alias =
     (let a = normalized alias
      in case dget (pp_aliases p) a of
           None \<Rightarrow> Inl InvalidState
         | Some key \<Rightarrow>
             (case dget (pp_ports p) key of
                None \<Rightarrow> Inl InvalidState
              | Some q \<Rightarrow>
                  if tp_status q \<noteq> ''active'' then Inl InvalidState
                  else case current_generation now r key who of
                         Inl e \<Rightarrow> Inl e
                       | Inr g \<Rightarrow> Inr \<lparr>pv_alias = a, pv_knowledge = key, pv_slot = tp_slot q,
                                       pv_generation = g, pv_revision = tp_revision q,
                                       pv_value = tp_value q\<rparr>))"

section \<open>The reflex channel\<close>

definition SAMPLE_WINDOW :: nat where
  "SAMPLE_WINDOW = 4096"

record reflex =
  rx_default :: "string option"
  rx_max_latency :: real
  rx_invocations :: nat
  rx_hits :: nat
  rx_misses :: nat
  rx_failovers :: nat
  rx_errors :: nat
  rx_reasons :: "(string, nat) dict"
  rx_resolve_ms :: "real list"
  rx_total_ms :: "real list"

definition new_reflex :: "string option \<Rightarrow> real \<Rightarrow> reflex" where
  "new_reflex dpod max_latency =
     \<lparr>rx_default = dpod, rx_max_latency = max_latency, rx_invocations = 0, rx_hits = 0,
      rx_misses = 0, rx_failovers = 0, rx_errors = 0, rx_reasons = [], rx_resolve_ms = [], rx_total_ms = []\<rparr>"

record reflex_answer =
  ra_pod :: string
  ra_result :: json
  ra_reflex :: bool
  ra_reason :: "string option"
  ra_latency :: real

definition push_sample :: "real list \<Rightarrow> real \<Rightarrow> real list" where
  "push_sample xs x = drop (length xs + 1 - SAMPLE_WINDOW) (xs @ [x])"

definition bump_reason :: "string \<Rightarrow> reflex \<Rightarrow> reflex" where
  "bump_reason s c = c\<lparr>rx_reasons := dput s (dget_or (rx_reasons c) s 0 + 1) (rx_reasons c)\<rparr>"

definition rx_failover ::
    "(string \<Rightarrow> json result) \<Rightarrow> (nat \<Rightarrow> real) \<Rightarrow> reflex \<Rightarrow> string \<Rightarrow> reflex_answer result \<times> reflex" where
  "rx_failover dispatch clk c reason =
     (case rx_default c of
        None \<Rightarrow> (Inl RuntimeError, c\<lparr>rx_errors := Suc (rx_errors c)\<rparr>)
      | Some pod \<Rightarrow>
          (case dispatch pod of
             Inl e \<Rightarrow> (Inl RuntimeError, bump_reason ''default_pod_failed'' (c\<lparr>rx_errors := Suc (rx_errors c)\<rparr>))
           | Inr v \<Rightarrow>
               (let total = (clk 3 - clk 0) * 1000
                in (Inr \<lparr>ra_pod = pod, ra_result = v, ra_reflex = False, ra_reason = Some reason,
                        ra_latency = py_round 4 total\<rparr>,
                    c\<lparr>rx_failovers := Suc (rx_failovers c), rx_total_ms := push_sample (rx_total_ms c) total\<rparr>))))"

definition rx_miss ::
    "(string \<Rightarrow> json result) \<Rightarrow> (nat \<Rightarrow> real) \<Rightarrow> reflex \<Rightarrow> string \<Rightarrow> reflex_answer result \<times> reflex" where
  "rx_miss dispatch clk c reason =
     rx_failover dispatch clk (bump_reason reason (c\<lparr>rx_misses := Suc (rx_misses c)\<rparr>)) reason"

text \<open>The pod a resolution names; no value handle is a failed resolution.\<close>

definition pod_key :: "port_view result \<Rightarrow> string option" where
  "pod_key res = (case res of Inl _ \<Rightarrow> None | Inr v \<Rightarrow> pv_value v)"

definition rx_invoke ::
    "(string \<Rightarrow> json result) \<Rightarrow> (nat \<Rightarrow> real) \<Rightarrow> reflex \<Rightarrow> port_view result \<Rightarrow> reflex_answer result \<times> reflex" where
  "rx_invoke dispatch clk c0 res =
     (let ms = (clk 1 - clk 0) * 1000;
          c = c0\<lparr>rx_invocations := Suc (rx_invocations c0), rx_resolve_ms := push_sample (rx_resolve_ms c0) ms\<rparr>
      in case pod_key res of
           None \<Rightarrow> rx_miss dispatch clk c ''unresolved_alias''
         | Some pod \<Rightarrow>
             if ms / 1000 > rx_max_latency c then rx_miss dispatch clk c ''resolution_timeout''
             else case dispatch pod of
                    Inl e \<Rightarrow> rx_miss dispatch clk (c\<lparr>rx_errors := Suc (rx_errors c)\<rparr>) ''dispatch_error''
                  | Inr v \<Rightarrow>
                      (let total = (clk 2 - clk 0) * 1000
                       in (Inr \<lparr>ra_pod = pod, ra_result = v, ra_reflex = True, ra_reason = None,
                               ra_latency = py_round 4 total\<rparr>,
                           c\<lparr>rx_hits := Suc (rx_hits c), rx_total_ms := push_sample (rx_total_ms c) total\<rparr>)))"

definition rx_percentile :: "real list \<Rightarrow> real \<Rightarrow> real option" where
  "rx_percentile xs f =
     (if xs = [] then None
      else Some (py_round 4 (sort xs ! min (length xs - 1) (nat \<lfloor>real (length xs) * f\<rfloor>))))"

record reflex_stats =
  rs_invocations :: nat
  rs_hits :: nat
  rs_misses :: nat
  rs_failovers :: nat
  rs_errors :: nat
  rs_hit_rate :: real
  rs_reasons :: "(string, nat) dict"
  rs_all_misses_covered :: bool
  rs_resolve_p50 :: "real option"
  rs_resolve_p95 :: "real option"
  rs_total_p50 :: "real option"
  rs_total_p95 :: "real option"
  rs_samples :: nat

definition rx_stats :: "reflex \<Rightarrow> reflex_stats" where
  "rx_stats c =
     (let total = rx_hits c + rx_misses c
      in \<lparr>rs_invocations = rx_invocations c, rs_hits = rx_hits c, rs_misses = rx_misses c,
          rs_failovers = rx_failovers c, rs_errors = rx_errors c,
          rs_hit_rate = (if total = 0 then 0 else real (rx_hits c) / real total),
          rs_reasons = rx_reasons c, rs_all_misses_covered = (rx_failovers c = rx_misses c),
          rs_resolve_p50 = rx_percentile (rx_resolve_ms c) (1 / 2),
          rs_resolve_p95 = rx_percentile (rx_resolve_ms c) (95 / 100),
          rs_total_p50 = rx_percentile (rx_total_ms c) (1 / 2),
          rs_total_p95 = rx_percentile (rx_total_ms c) (95 / 100),
          rs_samples = length (rx_resolve_ms c)\<rparr>)"

section \<open>The plane's invariant\<close>

definition plane_ok :: "plane \<Rightarrow> bool" where
  "plane_ok p =
     (wf_dict (pp_ports p) \<and> wf_dict (pp_aliases p)
      \<and> (\<forall>k q. dget (pp_ports p) k = Some q \<longrightarrow> 0 < tp_slot q \<and> 0 < tp_revision q \<and> tp_status q = ''active'')
      \<and> (\<forall>k k' q q'. dget (pp_ports p) k = Some q \<longrightarrow> dget (pp_ports p) k' = Some q' \<longrightarrow>
            tp_slot q = tp_slot q' \<longrightarrow> k = k')
      \<and> (\<forall>a k. dget (pp_aliases p) a = Some k \<longrightarrow> dget (pp_ports p) k \<noteq> None))"

lemma plane_ok_empty: "plane_ok empty_plane"
  by (simp add: plane_ok_def empty_plane_def)

lemma fold_alias_get:
  "dget (fold (\<lambda>a. dput a k) as d) a = (if a \<in> set as then Some k else dget d a)"
  by (induction as arbitrary: d) (auto simp: update_conv')

lemma fold_alias_wf: "wf_dict d \<Longrightarrow> wf_dict (fold (\<lambda>a. dput a k) as d)"
  by (induction as arbitrary: d) auto

lemma next_slot_fresh:
  assumes "plane_ok p"
  shows "0 < next_slot p" and "dget (pp_ports p) k = Some q \<Longrightarrow> tp_slot q < next_slot p"
proof -
  let ?S = "(tp_slot \<circ> snd) ` set (pp_ports p)"
  show less: "tp_slot q < next_slot p" if "dget (pp_ports p) k = Some q" for k q
  proof -
    from map_of_SomeD [OF that] have "(tp_slot \<circ> snd) (k, q) \<in> ?S" by (rule imageI)
    then have "tp_slot q \<le> Max ?S" by (intro Max_ge) auto
    moreover have "pp_ports p \<noteq> []" using that by auto
    ultimately show ?thesis by (simp add: next_slot_def)
  qed
  show "0 < next_slot p"
  proof (cases "pp_ports p")
    case (Cons e es)
    then have "dget (pp_ports p) (fst e) = Some (snd e)" by (cases e) simp
    then obtain k q where "dget (pp_ports p) k = Some q" by blast
    from less [OF this] assms this show ?thesis by (fastforce simp: plane_ok_def)
  qed (simp add: next_slot_def)
qed

text \<open>Writing a port whose slot is its own or fresh.\<close>

lemma plane_ok_put:
  assumes "plane_ok p" and "0 < tp_slot port" and "0 < tp_revision port" and "tp_status port = ''active''"
    and "\<And>k q. dget (pp_ports p) k = Some q \<Longrightarrow> tp_slot q = tp_slot port \<Longrightarrow> k = key"
  shows "plane_ok (p\<lparr>pp_ports := dput key port (pp_ports p),
      pp_aliases := fold (\<lambda>a. dput a key) as (pp_aliases p)\<rparr>)"
proof -
  let ?p = "dput key port (pp_ports p)"
  note P = assms(1) [unfolded plane_ok_def]
  have get: "dget ?p k = (if k = key then Some port else dget (pp_ports p) k)" for k
    by (simp add: update_conv')
  have inj: "k = k'" if "dget ?p k = Some q" "dget ?p k' = Some q'" "tp_slot q = tp_slot q'" for k k' q q'
  proof (cases "k = key \<or> k' = key")
    case True
    then show ?thesis using that assms(5) [of k q] assms(5) [of k' q'] by (auto simp: get split: if_splits)
  next
    case False
    with that P show ?thesis by (auto simp: get)
  qed
  have al: "dget ?p k \<noteq> None" if "dget (fold (\<lambda>a. dput a key) as (pp_aliases p)) a = Some k" for a k
    using that P by (auto simp: get fold_alias_get split: if_splits)
  have each: "0 < tp_slot q \<and> 0 < tp_revision q \<and> tp_status q = ''active''" if "dget ?p k = Some q" for k q
    using that P assms(2-4) by (auto simp: get split: if_splits)
  have wf: "wf_dict ?p" "wf_dict (fold (\<lambda>a. dput a key) as (pp_aliases p))"
    using P by (auto intro: fold_alias_wf)
  have sel: "pp_ports (p\<lparr>pp_ports := P, pp_aliases := A\<rparr>) = P" "pp_aliases (p\<lparr>pp_ports := P, pp_aliases := A\<rparr>) = A"
    for P A by simp_all
  show ?thesis unfolding plane_ok_def sel using wf each inj al by blast
qed

text \<open>How the two writing operations succeed.\<close>

definition port_follows :: "plane \<Rightarrow> string \<Rightarrow> port \<Rightarrow> bool" where
  "port_follows p key port =
     (tp_status port = ''active'' \<and>
      (case dget (pp_ports p) key of
         None \<Rightarrow> tp_slot port = next_slot p \<and> tp_revision port = 1
       | Some q \<Rightarrow> tp_slot port = tp_slot q \<and> tp_revision port = tp_revision q + 1))"

lemma tp_bind_Inr:
  assumes "tp_bind now r who p key aliases value = (Inr port, p')"
  shows "p' = p\<lparr>pp_ports := dput key port (pp_ports p),
      pp_aliases := fold (\<lambda>a. dput a key) (alias_keys aliases) (pp_aliases p)\<rparr>"
    and "\<forall>a\<in>set (alias_keys aliases). dget (pp_aliases p) a = None \<or> dget (pp_aliases p) a = Some key"
    and "port_follows p key port"
  using assms
  by (cases "dget (pp_ports p) key";
      auto simp: tp_bind_def Let_def list_ex_iff port_follows_def split: sum.splits if_splits)+

lemma tp_update_Inr:
  assumes "tp_update now r who p key value expected = (Inr port, p')"
  obtains q where "dget (pp_ports p) key = Some q" and "expected = None \<or> expected = Some (tp_revision q)"
    and "tp_slot port = tp_slot q" and "tp_revision port = tp_revision q + 1" and "tp_status port = ''active''"
    and "tp_value port = value" and "p' = p\<lparr>pp_ports := dput key port (pp_ports p)\<rparr>"
  using assms by (auto simp: tp_update_def Let_def split: sum.splits if_splits option.splits)

lemma tp_bind_Inl: "tp_bind now r who p key aliases value = (Inl e, p') \<Longrightarrow> p' = p"
  by (auto simp: tp_bind_def Let_def split: sum.splits if_splits)

lemma tp_update_Inl: "tp_update now r who p key value expected = (Inl e, p') \<Longrightarrow> p' = p"
  by (auto simp: tp_update_def Let_def split: sum.splits if_splits option.splits)

datatype tp_op =
    Bind real registry string string "json list" "string option"
  | Update real registry string string "string option" "int option"

fun tp_step :: "plane \<Rightarrow> tp_op \<Rightarrow> plane" where
  "tp_step p (Bind now r who key aliases value) = snd (tp_bind now r who p key aliases value)"
| "tp_step p (Update now r who key value expected) = snd (tp_update now r who p key value expected)"

text \<open>An operation either changes nothing or writes one port.\<close>

lemma tp_step_cases:
  obtains (same) "tp_step p op = p"
  | (written) key port xs where "tp_step p op = p\<lparr>pp_ports := dput key port (pp_ports p),
        pp_aliases := fold (\<lambda>a. dput a key) xs (pp_aliases p)\<rparr>"
      and "\<forall>a\<in>set xs. dget (pp_aliases p) a = None \<or> dget (pp_aliases p) a = Some key"
      and "port_follows p key port"
proof (cases op)
  case (Bind now r who key aliases val)
  show thesis
  proof (cases "fst (tp_bind now r who p key aliases val)")
    case (Inl e)
    then have "tp_bind now r who p key aliases val = (Inl e, tp_step p op)" by (simp add: Bind prod_eq_iff)
    then have "tp_step p op = p" by (rule tp_bind_Inl)
    then show thesis by (rule same)
  next
    case (Inr port)
    then have "tp_bind now r who p key aliases val = (Inr port, tp_step p op)" by (simp add: Bind prod_eq_iff)
    from tp_bind_Inr [OF this] show thesis by (rule written)
  qed
next
  case (Update now r who key val expected)
  show thesis
  proof (cases "fst (tp_update now r who p key val expected)")
    case (Inl e)
    then have "tp_update now r who p key val expected = (Inl e, tp_step p op)" by (simp add: Update prod_eq_iff)
    then have "tp_step p op = p" by (rule tp_update_Inl)
    then show thesis by (rule same)
  next
    case (Inr port)
    then have "tp_update now r who p key val expected = (Inr port, tp_step p op)" by (simp add: Update prod_eq_iff)
    then show thesis
      by (rule tp_update_Inr) (rule written [where xs = "[]" and port = port and key = key], simp_all add: port_follows_def)
  qed
qed

lemma tp_step_ok: "plane_ok p \<Longrightarrow> plane_ok (tp_step p op)"
proof -
  assume ok: "plane_ok p"
  then have each: "0 < tp_slot q" "0 < tp_revision q" if "dget (pp_ports p) k = Some q" for k q
    using that by (auto simp: plane_ok_def)
  show ?thesis
  proof (cases rule: tp_step_cases [of p op])
    case (written key port xs)
    note W = written(3) [unfolded port_follows_def]
    have slot: "0 < tp_slot port" "0 < tp_revision port"
      using W next_slot_fresh(1) [OF ok] each [of key] by (auto split: option.splits)
    have own: "k = key" if q: "dget (pp_ports p) k = Some q" "tp_slot q = tp_slot port" for k q
    proof (cases "dget (pp_ports p) key")
      case None
      then have "tp_slot port = next_slot p" using W by simp
      with next_slot_fresh(2) [OF ok q(1)] q(2) show ?thesis by simp
    next
      case (Some q')
      then have "tp_slot q = tp_slot q'" using W q(2) by simp
      with ok q(1) Some show ?thesis unfolding plane_ok_def by blast
    qed
    show ?thesis
      unfolding written(1)
    proof (rule plane_ok_put [OF ok slot])
      show "tp_status port = ''active''" using W by blast
    qed (rule own)
  qed (simp add: ok)
qed

definition revision_of :: "string \<Rightarrow> plane \<Rightarrow> int" where
  "revision_of key p = (case dget (pp_ports p) key of None \<Rightarrow> 0 | Some q \<Rightarrow> tp_revision q)"

text \<open>What an operation never changes.\<close>

definition plane_le :: "plane \<Rightarrow> plane \<Rightarrow> bool" where
  "plane_le p p' =
     ((\<forall>a k. dget (pp_aliases p) a = Some k \<longrightarrow> dget (pp_aliases p') a = Some k)
      \<and> (\<forall>k q. dget (pp_ports p) k = Some q \<longrightarrow>
            (\<exists>q'. dget (pp_ports p') k = Some q' \<and> tp_slot q' = tp_slot q \<and> tp_revision q \<le> tp_revision q'
               \<and> (tp_revision q' = tp_revision q \<longrightarrow> q' = q))))"

lemma plane_le_refl [simp]: "plane_le p p"
  by (simp add: plane_le_def)

lemma plane_le_trans:
  assumes "plane_le a b" and "plane_le b c"
  shows "plane_le a c"
  unfolding plane_le_def
proof (intro conjI allI impI)
  fix x k assume "dget (pp_aliases a) x = Some k"
  then show "dget (pp_aliases c) x = Some k" using assms by (simp add: plane_le_def)
next
  fix k q assume q: "dget (pp_ports a) k = Some q"
  then obtain q' where q': "dget (pp_ports b) k = Some q'" "tp_slot q' = tp_slot q" "tp_revision q \<le> tp_revision q'"
    "tp_revision q' = tp_revision q \<longrightarrow> q' = q" using assms(1) unfolding plane_le_def by metis
  then obtain q'' where "dget (pp_ports c) k = Some q''" "tp_slot q'' = tp_slot q'" "tp_revision q' \<le> tp_revision q''"
    "tp_revision q'' = tp_revision q' \<longrightarrow> q'' = q'" using assms(2) unfolding plane_le_def by metis
  with q' show "\<exists>q'. dget (pp_ports c) k = Some q' \<and> tp_slot q' = tp_slot q \<and> tp_revision q \<le> tp_revision q'
      \<and> (tp_revision q' = tp_revision q \<longrightarrow> q' = q)" by auto
qed

lemma tp_step_le: "plane_le p (tp_step p op)"
proof (cases rule: tp_step_cases [of p op])
  case (written key port xs)
  from written(2,3) show ?thesis
    unfolding plane_le_def port_follows_def by (auto simp: written(1) update_conv' fold_alias_get)
qed simp

interpretation revision_clock: never_decreasing tp_step "revision_of key" for key
proof
  fix p op
  show "revision_of key p \<le> revision_of key (tp_step p op)"
    by (cases rule: tp_step_cases [of p op])
      (auto simp: revision_of_def port_follows_def update_conv' split: option.splits)
qed

interpretation plane_machine: kept_invariant tp_step plane_ok
  by unfold_locales (rule tp_step_ok)

abbreviation tp_run :: "plane \<Rightarrow> tp_op list \<Rightarrow> plane" where
  "tp_run \<equiv> run_steps tp_step"

lemma tp_run_le: "plane_le p (tp_run p ops)"
proof (induction ops arbitrary: p)
  case (Cons op ops)
  from plane_le_trans [OF tp_step_le Cons.IH] show ?case by simp
qed simp

text \<open>Ports are stable addresses. After any sequence of bindings and updates, whatever state the registry is
  in at each of them: every port has its own positive slot, every alias leads to an existing port, and
  from then on an alias never moves to another port, a port never changes its slot, its revision never
  goes down and a port whose revision is the same has not changed at all. So of several updates that
  expect the same revision, at most one succeeds.\<close>

theorem ports_are_stable:
  assumes "p = tp_run empty_plane ops" and "p' = tp_run p ops'"
  shows "plane_ok p \<and> plane_le p p'
    \<and> (tp_update now r who p key v (Some n) = (Inr port, pnew) \<longrightarrow>
       fst (tp_update now' r' who' (tp_run pnew ops'') key v' (Some n)) \<noteq> Inr port')"
proof (intro conjI impI)
  show ok: "plane_ok p" unfolding assms(1) by (rule plane_machine.run_invar [OF plane_ok_empty])
  show "plane_le p p'" unfolding assms(2) by (rule tp_run_le)
  assume u: "tp_update now r who p key v (Some n) = (Inr port, pnew)"
  then have "revision_of key pnew = n + 1"
    by (rule tp_update_Inr) (simp add: revision_of_def update_conv')
  then have later: "n < revision_of key (tp_run pnew ops'')"
    using revision_clock.run_grows [of key pnew ops''] by simp
  show "fst (tp_update now' r' who' (tp_run pnew ops'') key v' (Some n)) \<noteq> Inr port'"
  proof
    assume "fst (tp_update now' r' who' (tp_run pnew ops'') key v' (Some n)) = Inr port'"
    then obtain p2 where "tp_update now' r' who' (tp_run pnew ops'') key v' (Some n) = (Inr port', p2)"
      by (metis prod.collapse)
    then show False by (rule tp_update_Inr) (use later in \<open>simp add: revision_of_def\<close>)
  qed
qed

section \<open>The channel counts\<close>

text \<open>A sequence of invocations: the pods' answers, the clock and the resolution of each.\<close>

type_synonym invocation = "(string \<Rightarrow> json result) \<times> (nat \<Rightarrow> real) \<times> port_view result"

fun rx_run :: "reflex \<Rightarrow> invocation list \<Rightarrow> reflex_answer result list \<times> reflex" where
  "rx_run c [] = ([], c)"
| "rx_run c ((dispatch, clk, res) # es) =
     (let (a, c') = rx_invoke dispatch clk c res; (as, c'') = rx_run c' es in (a # as, c''))"

definition by_reflex :: "reflex_answer result \<Rightarrow> bool" where
  "by_reflex a = (case a of Inl e \<Rightarrow> False | Inr x \<Rightarrow> ra_reflex x)"

definition by_default :: "reflex_answer result \<Rightarrow> bool" where
  "by_default a = (case a of Inl e \<Rightarrow> False | Inr x \<Rightarrow> \<not> ra_reflex x)"

lemma length_push_sample: "length xs \<le> SAMPLE_WINDOW \<Longrightarrow> length (push_sample xs x) = min (Suc (length xs)) SAMPLE_WINDOW"
  by (simp add: push_sample_def)

text \<open>The three ways an invocation ends.\<close>

lemma rx_invoke_ends:
  assumes "rx_invoke dispatch clk c res = (a, c')"
  shows "rx_invocations c' = Suc (rx_invocations c) \<and> rx_default c' = rx_default c
    \<and> rx_resolve_ms c' = push_sample (rx_resolve_ms c) ((clk 1 - clk 0) * 1000)
    \<and> (by_reflex a \<and> rx_hits c' = Suc (rx_hits c) \<and> rx_misses c' = rx_misses c \<and> rx_failovers c' = rx_failovers c
      \<or> by_default a \<and> rx_hits c' = rx_hits c \<and> rx_misses c' = Suc (rx_misses c) \<and> rx_failovers c' = Suc (rx_failovers c)
      \<or> a = Inl RuntimeError \<and> rx_hits c' = rx_hits c \<and> rx_misses c' = Suc (rx_misses c) \<and> rx_failovers c' = rx_failovers c
          \<and> rx_errors c < rx_errors c')"
  using assms
  by (auto simp: rx_invoke_def rx_miss_def rx_failover_def bump_reason_def by_reflex_def by_default_def Let_def
      split: option.splits if_splits sum.splits)

text \<open>The channel's counters say what happened. After any sequence of invocations on a new channel: hits are
  exactly the answers the reflex path gave and failovers exactly those the default pod gave; every
  invocation is a hit or a miss; the misses without a failover are exactly the invocations that raised,
  so \<open>all_misses_covered\<close> is true if and only if every caller got an answer; and one resolution sample is
  kept per invocation, failed resolutions included, up to the window.\<close>

theorem reflex_counters_exact:
  assumes "rx_run (new_reflex default_pod max_latency) es = (as, c)"
  shows "rx_invocations c = length es \<and> rx_hits c + rx_misses c = length es
    \<and> rx_hits c = length (filter by_reflex as) \<and> rx_failovers c = length (filter by_default as)
    \<and> rx_misses c = rx_failovers c + length (filter (\<lambda>a. \<not> is_ok a) as)
    \<and> (rs_all_misses_covered (rx_stats c) \<longleftrightarrow> list_all is_ok as)
    \<and> rs_samples (rx_stats c) = min (length es) SAMPLE_WINDOW"
proof -
  have step: "rx_run d es = (as, c) \<Longrightarrow> length (rx_resolve_ms d) \<le> SAMPLE_WINDOW \<Longrightarrow>
      rx_invocations c = rx_invocations d + length es \<and> rx_hits c + rx_misses c = rx_hits d + rx_misses d + length es
      \<and> rx_hits c = rx_hits d + length (filter by_reflex as) \<and> rx_failovers c = rx_failovers d + length (filter by_default as)
      \<and> rx_misses c = rx_misses d + length (filter by_default as) + length (filter (\<lambda>a. \<not> is_ok a) as)
      \<and> length (rx_resolve_ms c) = min (length (rx_resolve_ms d) + length es) SAMPLE_WINDOW" for d es as
  proof (induction es arbitrary: d as)
    case (Cons e es)
    obtain dispatch clk res where e: "e = (dispatch, clk, res)" by (cases e) auto
    obtain a d' where i: "rx_invoke dispatch clk d res = (a, d')" by fastforce
    obtain bs c'' where r: "rx_run d' es = (bs, c'')" by fastforce
    from Cons.prems(1) i r have eq: "as = a # bs" "c'' = c" by (simp_all add: e)
    note E = rx_invoke_ends [OF i]
    have len: "length (rx_resolve_ms d') = min (Suc (length (rx_resolve_ms d))) SAMPLE_WINDOW"
      using E length_push_sample [OF Cons.prems(2)] by simp
    then have "length (rx_resolve_ms d') \<le> SAMPLE_WINDOW" by simp
    note I = Cons.IH [OF r [unfolded eq(2)] this]
    have kinds: "by_reflex x \<Longrightarrow> is_ok x \<and> \<not> by_default x" "by_default x \<Longrightarrow> is_ok x \<and> \<not> by_reflex x" for x
      by (cases x; simp add: by_reflex_def by_default_def)+
    have raised: "\<not> is_ok (Inl RuntimeError :: reflex_answer result)" "\<not> by_reflex (Inl RuntimeError)"
      "\<not> by_default (Inl RuntimeError)" by (simp_all add: by_reflex_def by_default_def)
    have "length (rx_resolve_ms c) = min (length (rx_resolve_ms d) + length (e # es)) SAMPLE_WINDOW"
      using I len by (simp add: min_def split: if_splits)
    with E I show ?case
      using kinds [of a] raised unfolding eq(1) by (elim conjE disjE) simp_all
  qed simp
  from step [OF assms] have S: "rx_invocations c = length es" "rx_hits c + rx_misses c = length es"
    "rx_hits c = length (filter by_reflex as)" "rx_failovers c = length (filter by_default as)"
    "rx_misses c = rx_failovers c + length (filter (\<lambda>a. \<not> is_ok a) as)"
    "length (rx_resolve_ms c) = min (length es) SAMPLE_WINDOW"
    by (simp_all add: new_reflex_def)
  then have "rs_all_misses_covered (rx_stats c) \<longleftrightarrow> filter (\<lambda>a. \<not> is_ok a) as = []"
    by (simp add: rx_stats_def Let_def)
  with S show ?thesis by (simp add: rx_stats_def Let_def filter_empty_conv list_all_iff)
qed

definition demo_dispatch :: "string \<Rightarrow> json result" where
  "demo_dispatch pod = (if pod = ''tree'' then Inr (JInt 1) else Inl RuntimeError)"

theorem reflex_counters_exact_witness:
  "rx_misses (snd (rx_run (new_reflex (Some ''tree'') 30) [(demo_dispatch, \<lambda>n. real n, Inl InvalidState)])) = 1"
proof -
  let ?r = "rx_run (new_reflex (Some ''tree'') 30) [(demo_dispatch, \<lambda>n. real n, Inl InvalidState)]"
  have "?r = (fst ?r, snd ?r)" by simp
  from reflex_counters_exact [OF this] show ?thesis
    by (simp add: rx_invoke_def rx_miss_def rx_failover_def pod_key_def demo_dispatch_def new_reflex_def bump_reason_def
        by_reflex_def Let_def)
qed

section \<open>The channel and the registry\<close>

text \<open>C20. The reflex reaches only pods of knowledge that is current, authorised and not revoked. If an
  invocation is answered on the reflex path, the alias leads to a port whose value handle is the pod that
  answered, and the current generation of its knowledge is valid for the caller at that time; so once a
  node has been revoked, whatever operations followed, no reflex goes through a generation that was
  derived from it. (The handle itself may have been bound under an earlier generation.)\<close>

theorem reflex_reaches_only_valid_pods:
  assumes "reg_revoke now r x = Inr (affected, r1)" and "r2 = run_steps (reg_step C D) r1 ops"
    and "rx_invoke dispatch clk c (tp_resolve now' r2 who p alias) = (Inr a, c')" and "ra_reflex a"
  shows "\<exists>key q g. dget (pp_aliases p) (normalized alias) = Some key \<and> dget (pp_ports p) key = Some q
    \<and> tp_value q = Some (ra_pod a) \<and> dispatch (ra_pod a) = Inr (ra_result a)
    \<and> reg_head r2 key = Inr g \<and> is_ok (reg_valid now' r2 g who) \<and> (g, x) \<notin> lineage r2"
proof -
  have "rx_failover dispatch clk d reason \<noteq> (Inr a, c')" for d reason
    using assms(4) by (auto simp: rx_failover_def Let_def split: option.splits sum.splits)
  then have miss: "rx_miss dispatch clk d reason \<noteq> (Inr a, c')" for d reason
    by (simp add: rx_miss_def)
  from assms(3) miss obtain v where v: "tp_resolve now' r2 who p alias = Inr v" "pv_value v = Some (ra_pod a)"
    "dispatch (ra_pod a) = Inr (ra_result a)"
    by (auto simp: rx_invoke_def pod_key_def Let_def split: option.splits if_splits sum.splits)
  obtain key q g where k: "dget (pp_aliases p) (normalized alias) = Some key" "dget (pp_ports p) key = Some q"
    "current_generation now' r2 key who = Inr g" "pv_value v = tp_value q"
    using v(1) by (auto simp: tp_resolve_def Let_def split: option.splits if_splits sum.splits)
  have g: "reg_head r2 key = Inr g" "is_ok (reg_valid now' r2 g who)"
    using k(3) by (auto simp: current_generation_def reg_snapshot_def Let_def all_valid_def list_all_iff
        split: sum.splits if_splits)
  have "revoked r1 x"
    using reg_revoke_revoked(1) [OF assms(1), of x] reg_revoke_Inr(1) [OF assms(1)] by simp
  then have "revoked r2 x" unfolding assms(2) by (rule extends_revoked [OF reg_run_extends])
  with reg_valid_not_revoked [OF g(2)] have "(g, x) \<notin> lineage r2" by blast
  with k v g show ?thesis by auto
qed

definition demo_reg :: registry where
  "demo_reg = (case reg_revoke 4 sample_reg ''lora:w'' of Inr (a, r) \<Rightarrow> r | Inl e \<Rightarrow> sample_reg)"

definition demo_plane :: plane where
  "demo_plane = tp_run empty_plane [Bind 5 demo_reg ''local'' ''k'' [JStr '' Lead  Time''] (Some ''tree'')]"

lemma demo_resolve:
  "is_ok (reg_revoke 4 sample_reg ''lora:w'')"
  "pod_key (tp_resolve 6 demo_reg ''local'' demo_plane ''lead time'') = Some ''tree''"
  by code_simp+

lemma demo_answer:
  "fst (rx_invoke demo_dispatch (\<lambda>n. 0) (new_reflex None 30) (tp_resolve 6 demo_reg ''local'' demo_plane ''lead time''))
     = Inr \<lparr>ra_pod = ''tree'', ra_result = JInt 1, ra_reflex = True, ra_reason = None, ra_latency = py_round 4 0\<rparr>"
  by (simp add: rx_invoke_def demo_resolve(2) demo_dispatch_def new_reflex_def Let_def)

theorem reflex_reaches_only_valid_pods_witness:
  "\<exists>key q g. dget (pp_aliases demo_plane) (normalized ''lead time'') = Some key
     \<and> dget (pp_ports demo_plane) key = Some q \<and> tp_value q = Some ''tree''
     \<and> reg_head demo_reg key = Inr g \<and> (g, ''lora:w'') \<notin> lineage demo_reg"
proof -
  obtain a where a: "reg_revoke 4 sample_reg ''lora:w'' = Inr (a, demo_reg)"
    using demo_resolve(1) unfolding demo_reg_def by (cases "reg_revoke 4 sample_reg ''lora:w''") auto
  let ?i = "rx_invoke demo_dispatch (\<lambda>n. 0) (new_reflex None 30) (tp_resolve 6 demo_reg ''local'' demo_plane ''lead time'')"
  have "?i = (Inr \<lparr>ra_pod = ''tree'', ra_result = JInt 1, ra_reflex = True, ra_reason = None, ra_latency = py_round 4 0\<rparr>, snd ?i)"
    using demo_answer by (simp add: prod_eq_iff)
  from reflex_reaches_only_valid_pods [OF a _ this, where ops = "[]" and C = sample_C and D = sample_D]
  show ?thesis by auto
qed

theorem ports_are_stable_witness:
  "revision_of ''k'' (tp_run demo_plane [Update 6 demo_reg ''local'' ''k'' None (Some 1)]) = 2
   \<and> fst (tp_update 7 demo_reg ''local'' (tp_run demo_plane [Update 6 demo_reg ''local'' ''k'' None (Some 1)])
       ''k'' (Some ''x'') (Some 1)) = Inl InvalidState"
proof -
  let ?p1 = "tp_run demo_plane [Update 6 demo_reg ''local'' ''k'' None (Some 1)]"
  have u: "is_ok (fst (tp_update 6 demo_reg ''local'' demo_plane ''k'' None (Some 1)))"
    "revision_of ''k'' ?p1 = 2"
    "is_ok (fst (tp_update 7 demo_reg ''local'' ?p1 ''k'' (Some ''x'') (Some 1)))
       \<or> fst (tp_update 7 demo_reg ''local'' ?p1 ''k'' (Some ''x'') (Some 1)) = Inl InvalidState"
    by code_simp+
  obtain q where q: "tp_update 6 demo_reg ''local'' demo_plane ''k'' None (Some 1) = (Inr q, ?p1)"
    using u(1) by (cases "tp_update 6 demo_reg ''local'' demo_plane ''k'' None (Some 1)") (auto elim: is_okE)
  have never: "fst (tp_update 7 demo_reg ''local'' ?p1 ''k'' (Some ''x'') (Some 1)) \<noteq> Inr q'" for q'
    using ports_are_stable [OF demo_plane_def refl, where key = "''k''" and ops'' = "[]" and n = 1
        and v' = "Some ''x''" and v = None and now = 6 and now' = 7 and r = demo_reg and r' = demo_reg
        and who = "''local''" and who' = "''local''" and port = q and pnew = ?p1 and port' = q'] q
    by (simp only: run_steps.simps simp_thms)
  then have "\<not> is_ok (fst (tp_update 7 demo_reg ''local'' ?p1 ''k'' (Some ''x'') (Some 1)))"
    by (metis is_okE)
  with u show ?thesis by blast
qed

end
