(* ===== verification/Pod_Executor.thy ===== *)
theory Pod_Executor
  imports Resource_Runtime Py_Values "HOL-Library.Multiset"
begin

text \<open>
  \<open>neural_pods/pod_executor.py\<close>: executors, their factory and the pool that activates them under
  a resource budget. A builder makes a new executor at each call or raises; \<open>_infer\<close> of a runtime
  is a parameter, for the tree runtime the booster's prediction is. In governed mode the pool draws on
  the \<open>governor\<close> of theory \<open>Resource_Runtime\<close>, which other callers use as well: the simulation
  below shows that the pool is one more caller that keeps to the governor's interface.
\<close>

section \<open>Executors\<close>

record executor =
  ex_runtime :: string
  ex_ram_bytes :: int
  ex_lease :: "(string \<times> int) option"
  ex_inferences :: nat

definition new_executor :: "string \<Rightarrow> int \<Rightarrow> executor" where
  "new_executor runtime ram =
     \<lparr>ex_runtime = runtime, ex_ram_bytes = ram, ex_lease = None, ex_inferences = 0\<rparr>"

definition ex_activate :: "executor \<Rightarrow> (string \<times> int) option \<Rightarrow> executor" where
  "ex_activate x l =
     x\<lparr>ex_lease := Some (case l of None \<Rightarrow> (''ram'', ex_ram_bytes x) | Some p \<Rightarrow> p)\<rparr>"

definition ex_infer :: "('p \<Rightarrow> json result) \<Rightarrow> executor \<Rightarrow> 'p \<Rightarrow> json result \<times> executor" where
  "ex_infer run x payload =
     (if ex_lease x = None then (Inl RuntimeError, x)
      else case run payload of
          Inl e \<Rightarrow> (Inl e, x)
        | Inr r \<Rightarrow> (Inr r, x\<lparr>ex_inferences := Suc (ex_inferences x)\<rparr>))"

definition ex_release :: "executor \<Rightarrow> executor" where
  "ex_release x = x\<lparr>ex_lease := None\<rparr>"

definition ex_health :: "executor \<Rightarrow> bool" where
  "ex_health x = (ex_lease x \<noteq> None)"

definition ex_stats :: "executor \<Rightarrow> string \<times> nat \<times> bool" where
  "ex_stats x = (ex_runtime x, ex_inferences x, ex_lease x \<noteq> None)"

text \<open>\<open>TreeExecutor._infer\<close>: \<open>predict\<close> turns the features into the booster's probability.\<close>

definition tree_infer :: "(json \<Rightarrow> real result) \<Rightarrow> (string, json) dict \<Rightarrow> json result" where
  "tree_infer predict payload =
     (let features = jget payload ''features''
      in if features = JNull then Inl ValueError
         else case predict features of
             Inl e \<Rightarrow> Inl e
           | Inr p \<Rightarrow> Inr (JObj
               [(''prediction'', JFloat (Fin (if p \<ge> 1 / 2 then 1 else 0))),
                (''probability'', JFloat (Fin (py_round 6 p))),
                (''deterministic'', JBool True)]))"

section \<open>The factory\<close>

type_synonym factory = "(string, executor result) dict"

definition ef_register :: "factory \<Rightarrow> string \<Rightarrow> executor result \<Rightarrow> unit result \<times> factory" where
  "ef_register f kind builder =
     (if dget f kind \<noteq> None then (Inl ValueError, f) else (Inr (), dput kind builder f))"

definition ef_create :: "factory \<Rightarrow> string \<Rightarrow> executor result" where
  "ef_create f kind = (case dget f kind of None \<Rightarrow> Inl KeyError | Some b \<Rightarrow> b)"

definition ef_kinds :: "factory \<Rightarrow> string list" where
  "ef_kinds f = sort (dkeys f)"

section \<open>The pool\<close>

record pool =
  gp_factory :: factory
  gp_governor :: "governor option"
  gp_budget_bytes :: "int option"
  gp_used_bytes :: int
  gp_active :: "(string, executor) dict"
  gp_leases :: "(string, lease) dict"

definition new_pool :: "factory \<Rightarrow> int option \<Rightarrow> governor option \<Rightarrow> pool result" where
  "new_pool f budget g =
     (if g = None \<and> budget = None then Inl ValueError
      else Inr \<lparr>gp_factory = f, gp_governor = g, gp_budget_bytes = budget, gp_used_bytes = 0,
                gp_active = [], gp_leases = []\<rparr>)"

text \<open>The last three lines of \<open>activate\<close>, common to both modes.\<close>

definition gp_enter :: "string \<Rightarrow> executor \<Rightarrow> pool \<Rightarrow> executor result \<times> pool" where
  "gp_enter pod x p =
     (let x' = ex_activate x (Some (''ram'', ex_ram_bytes x))
      in (Inr x', p\<lparr>gp_used_bytes := gp_used_bytes p + ex_ram_bytes x,
                     gp_active := dput pod x' (gp_active p)\<rparr>))"

definition gp_activate :: "pool \<Rightarrow> string \<Rightarrow> string \<Rightarrow> executor result \<times> pool" where
  "gp_activate p pod kind =
     (if dget (gp_active p) pod \<noteq> None then (Inl RuntimeError, p)
      else case ef_create (gp_factory p) kind of
          Inl e \<Rightarrow> (Inl e, p)
        | Inr x \<Rightarrow>
            (case gp_governor p of
               Some g \<Rightarrow>
                 (case gov_try_acquire g ''ram'' (ex_ram_bytes x) None of
                    (Inl e, g') \<Rightarrow> (Inl e, p\<lparr>gp_governor := Some g'\<rparr>)
                  | (Inr None, g') \<Rightarrow> (Inl RuntimeError, p\<lparr>gp_governor := Some g'\<rparr>)
                  | (Inr (Some l), g') \<Rightarrow>
                      gp_enter pod x (p\<lparr>gp_governor := Some g', gp_leases := dput pod l (gp_leases p)\<rparr>))
             | None \<Rightarrow>
                 (case gp_budget_bytes p of
                    None \<Rightarrow> (Inl TypeError, p)
                  | Some b \<Rightarrow>
                      if gp_used_bytes p + ex_ram_bytes x > b then (Inl RuntimeError, p)
                      else gp_enter pod x p)))"

text \<open>
  The middle component is the executor as its holder finds it afterwards: when the governor
  raises, the pod has already left the pool and its executor keeps its lease.
\<close>

definition gp_release :: "pool \<Rightarrow> string \<Rightarrow> unit result \<times> executor option \<times> pool" where
  "gp_release p pod =
     (case dget (gp_active p) pod of
        None \<Rightarrow> (Inr (), None, p)
      | Some x \<Rightarrow>
          (let p1 = p\<lparr>gp_active := dpop pod (gp_active p),
                      gp_used_bytes := gp_used_bytes p - ex_ram_bytes x,
                      gp_leases := dpop pod (gp_leases p)\<rparr>
           in case (dget (gp_leases p) pod, gp_governor p) of
                (Some l, Some g) \<Rightarrow>
                  (case gov_release g l of
                     (Inl e, g') \<Rightarrow> (Inl e, Some x, p1\<lparr>gp_governor := Some g'\<rparr>)
                   | (Inr _, g') \<Rightarrow> (Inr (), Some (ex_release x), p1\<lparr>gp_governor := Some g'\<rparr>))
              | _ \<Rightarrow> (Inr (), Some (ex_release x), p1)))"

text \<open>A caller keeps the executor \<open>activate\<close> returned and uses it directly.\<close>

definition gp_direct :: "pool \<Rightarrow> string \<Rightarrow> (executor \<Rightarrow> executor) \<Rightarrow> pool" where
  "gp_direct p pod f =
     (case dget (gp_active p) pod of
        None \<Rightarrow> p
      | Some x \<Rightarrow> p\<lparr>gp_active := dput pod (f x) (gp_active p)\<rparr>)"

record pool_stats =
  ps_budget_bytes :: "int option"
  ps_budget_owner :: string
  ps_used_bytes :: int
  ps_governed :: bool
  ps_active_pods :: "string list"

definition gp_stats :: "pool \<Rightarrow> pool_stats" where
  "gp_stats p =
     \<lparr>ps_budget_bytes = (case gp_budget_bytes p of
         Some b \<Rightarrow> Some b
       | None \<Rightarrow> (case gp_governor p of None \<Rightarrow> None | Some g \<Rightarrow> bd_ram (gv_budget g))),
      ps_budget_owner = (if gp_governor p \<noteq> None then ''governor'' else ''pool''),
      ps_used_bytes = gp_used_bytes p,
      ps_governed = (gp_governor p \<noteq> None),
      ps_active_pods = sort (dkeys (gp_active p))\<rparr>"

section \<open>The pool among the governor's callers\<close>

text \<open>
  Steps of the pool, of the holders of its executors and of the governor's other callers, which
  keep the leases they were handed in \<open>pw_others\<close>. \<open>run\<close> gives \<open>_infer\<close> of each runtime.
\<close>

record pool_world =
  pw_pool :: pool
  pw_others :: "lease list"

datatype 'p pool_op =
    Activate_Pod string string
  | Release_Pod string
  | Infer_Pod string 'p
  | Executor_Release string
  | Executor_Activate string "(string \<times> int) option"
  | Other_Caller gov_op

fun pw_step :: "(string \<Rightarrow> 'p \<Rightarrow> json result) \<Rightarrow> pool_world \<Rightarrow> 'p pool_op \<Rightarrow> pool_world" where
  "pw_step run w (Activate_Pod pod kind) = w\<lparr>pw_pool := snd (gp_activate (pw_pool w) pod kind)\<rparr>"
| "pw_step run w (Release_Pod pod) = w\<lparr>pw_pool := snd (snd (gp_release (pw_pool w) pod))\<rparr>"
| "pw_step run w (Infer_Pod pod payload) =
     w\<lparr>pw_pool := gp_direct (pw_pool w) pod (\<lambda>x. snd (ex_infer (run (ex_runtime x)) x payload))\<rparr>"
| "pw_step run w (Executor_Release pod) = w\<lparr>pw_pool := gp_direct (pw_pool w) pod ex_release\<rparr>"
| "pw_step run w (Executor_Activate pod l) =
     w\<lparr>pw_pool := gp_direct (pw_pool w) pod (\<lambda>x. ex_activate x l)\<rparr>"
| "pw_step run w (Other_Caller op) =
     (case gp_governor (pw_pool w) of
        None \<Rightarrow> w
      | Some g \<Rightarrow>
          (let v = gov_step \<lparr>gw_gov = g, gw_held = pw_others w\<rparr> op
           in w\<lparr>pw_pool := (pw_pool w)\<lparr>gp_governor := Some (gw_gov v)\<rparr>, pw_others := gw_held v\<rparr>))"

section \<open>What the pool keeps\<close>

text \<open>\<open>used_bytes\<close> is the memory of the active executors, whichever mode the pool is in.\<close>

definition ram_of_active :: "pool \<Rightarrow> int" where
  "ram_of_active p = sum_list (map (ex_ram_bytes \<circ> snd) (gp_active p))"

definition pool_ok :: "pool \<Rightarrow> bool" where
  "pool_ok p = (wf_dict (gp_active p) \<and> gp_used_bytes p = ram_of_active p)"

text \<open>In governed mode every active pod holds a lease of exactly its executor's memory.\<close>

definition leases_match :: "pool \<Rightarrow> bool" where
  "leases_match p =
     (wf_dict (gp_leases p) \<and>
      (\<forall>pod. dget (gp_leases p) pod =
         map_option (\<lambda>x. \<lparr>ls_tier = ''ram'', ls_amount = ex_ram_bytes x, ls_device = None\<rparr>)
           (dget (gp_active p) pod)))"

named_theorems ex_simps "executors keep their memory"

lemma ex_ram_kept [ex_simps]:
  "ex_ram_bytes (ex_activate x l) = ex_ram_bytes x"
  "ex_ram_bytes (ex_release x) = ex_ram_bytes x"
  "ex_ram_bytes (snd (ex_infer run x payload)) = ex_ram_bytes x"
  by (simp_all add: ex_activate_def ex_release_def ex_infer_def split: sum.split)

lemma ram_put:
  "wf_dict d \<Longrightarrow> sum_list (map (ex_ram_bytes \<circ> snd) (dput pod x d)) =
     sum_list (map (ex_ram_bytes \<circ> snd) d) + ex_ram_bytes x
       - (case dget d pod of None \<Rightarrow> 0 | Some y \<Rightarrow> ex_ram_bytes y)"
  by (rule sum_list_update_keys)

lemma ram_pop:
  "wf_dict d \<Longrightarrow> sum_list (map (ex_ram_bytes \<circ> snd) (dpop pod d)) =
     sum_list (map (ex_ram_bytes \<circ> snd) d)
       - (case dget d pod of None \<Rightarrow> 0 | Some y \<Rightarrow> ex_ram_bytes y)"
  by (rule sum_list_pop_keys)

lemma gp_direct_keeps:
  assumes "\<And>x. ex_ram_bytes (f x) = ex_ram_bytes x"
  shows "pool_ok p \<Longrightarrow> pool_ok (gp_direct p pod f)"
    and "leases_match p \<Longrightarrow> leases_match (gp_direct p pod f)"
    and "gp_governor (gp_direct p pod f) = gp_governor p"
    and "gp_leases (gp_direct p pod f) = gp_leases p"
    and "gp_budget_bytes (gp_direct p pod f) = gp_budget_bytes p"
    and "gp_used_bytes (gp_direct p pod f) = gp_used_bytes p"
  using assms
  by (auto simp: gp_direct_def pool_ok_def ram_of_active_def ram_put leases_match_def dict_simps
      split: option.split)

lemma gp_enter_ok:
  "pool_ok p \<Longrightarrow> dget (gp_active p) pod = None \<Longrightarrow> pool_ok (snd (gp_enter pod x p))"
  by (auto simp: gp_enter_def Let_def pool_ok_def ram_of_active_def ram_put ex_simps)

text \<open>What a call of \<open>activate\<close> did.\<close>

lemma gp_activate_cases:
  assumes "gp_activate p pod kind = (r, p')"
  obtains (same) "p' = p"
  | (governed) g x l g' where "gp_governor p = Some g" "dget (gp_active p) pod = None"
      "gov_try_acquire g ''ram'' (ex_ram_bytes x) None = (Inr (Some l), g')"
      "p' = snd (gp_enter pod x (p\<lparr>gp_governor := Some g', gp_leases := dput pod l (gp_leases p)\<rparr>))"
  | (counted) x b where "gp_governor p = None" "dget (gp_active p) pod = None"
      "gp_budget_bytes p = Some b" "gp_used_bytes p + ex_ram_bytes x \<le> b"
      "ef_create (gp_factory p) kind = Inr x" "p' = snd (gp_enter pod x p)"
proof (cases "dget (gp_active p) pod")
  case (Some y)
  with assms same show ?thesis by (auto simp: gp_activate_def)
next
  case None
  show ?thesis
  proof (cases "ef_create (gp_factory p) kind")
    case (Inl e)
    with assms None same show ?thesis by (auto simp: gp_activate_def)
  next
    case (Inr x)
    show ?thesis
    proof (cases "gp_governor p")
      case gov: None
      show ?thesis
      proof (cases "gp_budget_bytes p")
        case nb: None
        with assms None Inr gov same show ?thesis by (auto simp: gp_activate_def)
      next
        case (Some b)
        with assms None Inr gov same counted [of b x] show ?thesis
          by (auto simp: gp_activate_def split: if_splits)
      qed
    next
      case (Some g)
      obtain a g' where acq: "gov_try_acquire g ''ram'' (ex_ram_bytes x) None = (a, g')"
        by fastforce
      have idle: "g' = g" if "\<forall>l. a \<noteq> Inr (Some l)"
        using acquired_one_acquire [OF acq] that by (auto simp: acquired_one_def)
      have gid: "p\<lparr>gp_governor := Some g\<rparr> = p" using Some by (cases p) simp
      show ?thesis
      proof (cases "\<exists>l. a = Inr (Some l)")
        case True
        then obtain l where a: "a = Inr (Some l)" ..
        from assms have "p' = snd (gp_enter pod x
            (p\<lparr>gp_governor := Some g', gp_leases := dput pod l (gp_leases p)\<rparr>))"
          using None Inr Some acq a by (simp add: gp_activate_def)
        with governed Some None acq a show ?thesis by blast
      next
        case False
        with idle have "g' = g" by blast
        moreover from assms False have "p' = p\<lparr>gp_governor := Some g'\<rparr>"
          using None Inr Some acq
          by (auto simp: gp_activate_def split: sum.splits option.splits)
        ultimately show ?thesis using same gid by simp
      qed
    qed
  qed
qed

lemma gp_release_pool:
  assumes "dget (gp_active p) pod = Some x"
  obtains gov where
    "snd (snd (gp_release p pod)) =
       p\<lparr>gp_active := dpop pod (gp_active p), gp_used_bytes := gp_used_bytes p - ex_ram_bytes x,
         gp_leases := dpop pod (gp_leases p), gp_governor := gov\<rparr>"
    and "gov = (case (dget (gp_leases p) pod, gp_governor p) of
         (Some l, Some g) \<Rightarrow> Some (snd (gov_release g l)) | _ \<Rightarrow> gp_governor p)"
  using assms
  by (cases p) (auto simp: gp_release_def Let_def split: option.splits prod.splits sum.splits)

text \<open>Every step keeps the books and never switches the mode.\<close>

lemma activate_keeps_ok: "pool_ok p \<Longrightarrow> pool_ok (snd (gp_activate p pod kind))"
proof -
  assume ok: "pool_ok p"
  obtain r p' where a: "gp_activate p pod kind = (r, p')" by fastforce
  from a have "pool_ok p'"
  proof (cases rule: gp_activate_cases)
    case same
    with ok show ?thesis by simp
  next
    case (governed g x l g')
    let ?q = "p\<lparr>gp_governor := Some g', gp_leases := dput pod l (gp_leases p)\<rparr>"
    have "pool_ok ?q" "dget (gp_active ?q) pod = None"
      using ok governed(2) by (simp_all add: pool_ok_def ram_of_active_def)
    with governed(4) show ?thesis by (simp add: gp_enter_ok)
  next
    case (counted x b)
    with ok show ?thesis by (simp add: gp_enter_ok)
  qed
  with a show ?thesis by simp
qed

lemma release_keeps_ok: "pool_ok p \<Longrightarrow> pool_ok (snd (snd (gp_release p pod)))"
proof (cases "dget (gp_active p) pod")
  case (Some x)
  assume ok: "pool_ok p"
  from Some obtain gov where "snd (snd (gp_release p pod)) =
       p\<lparr>gp_active := dpop pod (gp_active p), gp_used_bytes := gp_used_bytes p - ex_ram_bytes x,
         gp_leases := dpop pod (gp_leases p), gp_governor := gov\<rparr>"
    by (rule gp_release_pool) blast
  with ok Some show ?thesis by (auto simp: pool_ok_def ram_of_active_def ram_pop)
qed (simp add: gp_release_def)

lemma pw_step_ok: "pool_ok (pw_pool w) \<Longrightarrow> pool_ok (pw_pool (pw_step run w op))"
proof (cases op)
  case (Other_Caller op')
  then show "pool_ok (pw_pool w) \<Longrightarrow> ?thesis"
    by (auto simp: Let_def pool_ok_def ram_of_active_def split: option.split)
qed (auto intro: activate_keeps_ok release_keeps_ok gp_direct_keeps(1) simp: ex_simps)

interpretation pool_books: kept_invariant "pw_step run" "\<lambda>w. pool_ok (pw_pool w)" for run
  by unfold_locales (rule pw_step_ok)

section \<open>The governed pool is a caller of the governor\<close>

definition pool_sim :: "gov_world \<Rightarrow> pool_world \<Rightarrow> bool" where
  "pool_sim v w =
     (gp_governor (pw_pool w) = Some (gw_gov v)
      \<and> mset (gw_held v) = mset (pw_others w) + mset (map snd (gp_leases (pw_pool w)))
      \<and> leases_match (pw_pool w) \<and> pool_ok (pw_pool w))"

lemma mset_take_drop:
  "i < length xs \<Longrightarrow> add_mset (xs ! i) (mset (take i xs @ drop (Suc i) xs)) = mset xs"
proof -
  assume "i < length xs"
  then have "xs = take i xs @ xs ! i # drop (Suc i) xs" by (rule id_take_nth_drop)
  then have "mset xs = mset (take i xs @ xs ! i # drop (Suc i) xs)" by simp
  then show ?thesis by (simp del: append_take_drop_id)
qed

lemma mset_vals_put:
  "k \<notin> set (dkeys d) \<Longrightarrow> mset (map snd (dput k v d)) = add_mset v (mset (map snd d))"
  by (induction d) auto

lemma mset_vals_pop:
  "wf_dict d \<Longrightarrow> dget d k = Some v \<Longrightarrow>
     mset (map snd d) = add_mset v (mset (map snd (dpop k d)))"
proof (induction d)
  case (Cons p d)
  obtain j u where p: "p = (j, u)" by (cases p)
  show ?case
  proof (cases "j = k")
    case True
    with Cons.prems(1) have "dpop k d = d" by (intro dpop_id) (simp add: p wf_dict_Cons)
    with True Cons.prems(2) show ?thesis by (simp add: p)
  next
    case False
    with Cons show ?thesis by (simp add: p wf_dict_Cons)
  qed
qed simp

text \<open>A lease that some caller holds can be given back in the abstract world.\<close>

lemma give_back:
  assumes "l \<in># mset (gw_held v)"
  obtains i where "gw_gov (gov_step v (Op_Release i)) = snd (gov_release (gw_gov v) l)"
    and "add_mset l (mset (gw_held (gov_step v (Op_Release i)))) = mset (gw_held v)"
proof -
  from assms obtain i where i: "i < length (gw_held v)" "gw_held v ! i = l"
    by (auto simp: in_set_conv_nth)
  with mset_take_drop [OF i(1)] show ?thesis
    by (intro that [of i]) (simp_all del: append_take_drop_id mset_append)
qed

lemma one_step: "run_steps f a [e] = f a e"
  by simp

lemma enter_matches:
  assumes "leases_match p" and "dget (gp_active p) pod = None"
    and "l = \<lparr>ls_tier = ''ram'', ls_amount = ex_ram_bytes x, ls_device = None\<rparr>"
    and "q = snd (gp_enter pod x (p\<lparr>gp_governor := Some g', gp_leases := dput pod l (gp_leases p)\<rparr>))"
  shows "leases_match q" and "gp_governor q = Some g'"
    and "mset (map snd (gp_leases q)) = add_mset l (mset (map snd (gp_leases p)))"
proof -
  have "dget (gp_leases p) pod = None"
    using assms(1,2) by (simp add: leases_match_def)
  then have "pod \<notin> set (dkeys (gp_leases p))"
    by (simp only: dget_None_keys not_False_eq_True)
  then show "mset (map snd (gp_leases q)) = add_mset l (mset (map snd (gp_leases p)))"
    using mset_vals_put [of pod "gp_leases p" l] by (simp add: assms(4) gp_enter_def Let_def)
qed (use assms in \<open>auto simp: leases_match_def gp_enter_def Let_def dict_simps ex_simps\<close>)

lemma sim_activate:
  assumes "pool_sim v w"
  shows "\<exists>es. pool_sim (run_steps gov_step v es) (pw_step run w (Activate_Pod pod kind))"
proof -
  note gov = assms [unfolded pool_sim_def, THEN conjunct1]
    and held = assms [unfolded pool_sim_def, THEN conjunct2, THEN conjunct1]
    and lm = assms [unfolded pool_sim_def, THEN conjunct2, THEN conjunct2, THEN conjunct1]
  obtain r p' where a: "gp_activate (pw_pool w) pod kind = (r, p')" by fastforce
  have ok: "pool_ok p'"
    using activate_keeps_ok [of "pw_pool w" pod kind] a assms by (simp add: pool_sim_def)
  from a show ?thesis
  proof (cases rule: gp_activate_cases)
    case same
    with assms a have "pool_sim (run_steps gov_step v []) (pw_step run w (Activate_Pod pod kind))"
      by simp
    then show ?thesis ..
  next
    case (governed g x l g')
    from gov governed(1) have g: "g = gw_gov v" by simp
    let ?op = "Op_Acquire ''ram'' (ex_ram_bytes x) None"
    have l: "l = \<lparr>ls_tier = ''ram'', ls_amount = ex_ram_bytes x, ls_device = None\<rparr>"
      using governed(3) by (auto simp: gov_try_acquire_def split: if_splits sum.splits bool.splits)
    note q = enter_matches [OF lm governed(2) l governed(4)]
    have v: "gov_step v ?op = \<lparr>gw_gov = g', gw_held = l # gw_held v\<rparr>"
      using governed(3) by (simp add: g take_lease_def)
    have "pool_sim (gov_step v ?op) (pw_step run w (Activate_Pod pod kind))"
      unfolding pool_sim_def v using a q ok held by simp
    then have "pool_sim (run_steps gov_step v [?op]) (pw_step run w (Activate_Pod pod kind))"
      by (simp only: one_step)
    then show ?thesis ..
  next
    case (counted x b)
    with gov show ?thesis by simp
  qed
qed

lemma pool_simI:
  assumes "pool_ok q" and "leases_match q" and "gp_governor q = Some (gw_gov v)"
    and "mset (gw_held v) = mset (pw_others w) + mset (map snd (gp_leases q))"
  shows "pool_sim v (w\<lparr>pw_pool := q\<rparr>)"
  using assms by (simp add: pool_sim_def)

lemma sim_release:
  assumes "pool_sim v w"
  shows "\<exists>es. pool_sim (run_steps gov_step v es) (pw_step run w (Release_Pod pod))"
proof (cases "dget (gp_active (pw_pool w)) pod")
  case None
  with assms have "pool_sim (run_steps gov_step v []) (pw_step run w (Release_Pod pod))"
    by (simp add: gp_release_def)
  then show ?thesis ..
next
  case (Some x)
  let ?p = "pw_pool w" and ?l = "\<lparr>ls_tier = ''ram'', ls_amount = ex_ram_bytes x, ls_device = None\<rparr>"
  note gov = assms [unfolded pool_sim_def, THEN conjunct1]
    and held = assms [unfolded pool_sim_def, THEN conjunct2, THEN conjunct1]
    and lm = assms [unfolded pool_sim_def, THEN conjunct2, THEN conjunct2, THEN conjunct1]
  from lm Some have l: "dget (gp_leases ?p) pod = Some ?l" and wf: "wf_dict (gp_leases ?p)"
    by (simp_all add: leases_match_def)
  from mset_vals_pop [OF wf l] have vals:
    "mset (map snd (gp_leases ?p)) = add_mset ?l (mset (map snd (dpop pod (gp_leases ?p))))" .
  then have "?l \<in># mset (gw_held v)" using held by simp
  then obtain i where i: "gw_gov (gov_step v (Op_Release i)) = snd (gov_release (gw_gov v) ?l)"
    "add_mset ?l (mset (gw_held (gov_step v (Op_Release i)))) = mset (gw_held v)"
    by (rule give_back)
  from Some obtain gv where q: "snd (snd (gp_release ?p pod)) =
       ?p\<lparr>gp_active := dpop pod (gp_active ?p), gp_used_bytes := gp_used_bytes ?p - ex_ram_bytes x,
         gp_leases := dpop pod (gp_leases ?p), gp_governor := gv\<rparr>"
    and gv: "gv = (case (dget (gp_leases ?p) pod, gp_governor ?p) of
         (Some l, Some g) \<Rightarrow> Some (snd (gov_release g l)) | _ \<Rightarrow> gp_governor ?p)"
    by (rule gp_release_pool)
  have "pool_ok (snd (snd (gp_release ?p pod)))"
    using release_keeps_ok assms by (simp add: pool_sim_def)
  moreover have "leases_match (snd (snd (gp_release ?p pod)))"
    unfolding q using lm by (auto simp: leases_match_def dict_simps)
  moreover have "gp_governor (snd (snd (gp_release ?p pod))) = Some (gw_gov (gov_step v (Op_Release i)))"
    unfolding q i(1) using gv l gov by simp
  moreover have "mset (gw_held (gov_step v (Op_Release i))) =
      mset (pw_others w) + mset (map snd (gp_leases (snd (snd (gp_release ?p pod)))))"
    unfolding q using i(2) held vals by simp
  ultimately have "pool_sim (run_steps gov_step v [Op_Release i]) (pw_step run w (Release_Pod pod))"
    unfolding one_step pw_step.simps by (rule pool_simI)
  then show ?thesis ..
qed

lemma sim_other:
  assumes "pool_sim v w"
  shows "\<exists>es. pool_sim (run_steps gov_step v es) (pw_step run w (Other_Caller op))"
proof -
  let ?u = "\<lparr>gw_gov = gw_gov v, gw_held = pw_others w\<rparr>"
  note gov = assms [unfolded pool_sim_def, THEN conjunct1]
    and held = assms [unfolded pool_sim_def, THEN conjunct2, THEN conjunct1]
  let ?own = "mset (map snd (gp_leases (pw_pool w)))"
  have match: "pool_sim v' (pw_step run w (Other_Caller op))"
    if "gw_gov v' = gw_gov (gov_step ?u op)"
      and "mset (gw_held v') = mset (gw_held (gov_step ?u op)) + ?own" for v'
    using assms that gov
    by (simp add: pool_sim_def Let_def leases_match_def pool_ok_def ram_of_active_def)
  have step: "\<exists>es. gw_gov (run_steps gov_step v es) = gw_gov (gov_step ?u op)
      \<and> mset (gw_held (run_steps gov_step v es)) = mset (gw_held (gov_step ?u op)) + ?own"
  proof (cases "\<exists>i. op = Op_Release i")
    case True
    then obtain i where op: "op = Op_Release i" ..
    show ?thesis
    proof (cases "i < length (pw_others w)")
      case False
      with op held have "gw_gov (run_steps gov_step v []) = gw_gov (gov_step ?u op)
          \<and> mset (gw_held (run_steps gov_step v [])) = mset (gw_held (gov_step ?u op)) + ?own"
        by simp
      then show ?thesis ..
    next
      case i: True
      let ?l = "pw_others w ! i"
      have "?l \<in># mset (gw_held v)" using i held by simp
      then obtain j where j: "gw_gov (gov_step v (Op_Release j)) = snd (gov_release (gw_gov v) ?l)"
        "add_mset ?l (mset (gw_held (gov_step v (Op_Release j)))) = mset (gw_held v)"
        by (rule give_back)
      have "add_mset ?l (mset (gw_held (gov_step v (Op_Release j))))
          = add_mset ?l (mset (take i (pw_others w) @ drop (Suc i) (pw_others w)) + ?own)"
        using j(2) held mset_take_drop [OF i] by (simp del: append_take_drop_id mset_append)
      then have "mset (gw_held (gov_step v (Op_Release j))) = mset (gw_held (gov_step ?u op)) + ?own"
        using i by (simp add: op del: append_take_drop_id mset_append)
      moreover have "gw_gov (gov_step v (Op_Release j)) = gw_gov (gov_step ?u op)"
        using i j(1) by (simp add: op)
      ultimately have "gw_gov (run_steps gov_step v [Op_Release j]) = gw_gov (gov_step ?u op)
          \<and> mset (gw_held (run_steps gov_step v [Op_Release j])) = mset (gw_held (gov_step ?u op)) + ?own"
        by (simp only: one_step simp_thms)
      then show ?thesis ..
    qed
  next
    case False
    then have "gw_gov (gov_step v op) = gw_gov (gov_step ?u op)
        \<and> mset (gw_held (gov_step v op)) = mset (gw_held (gov_step ?u op)) + ?own"
      using held by (cases op) (auto simp: take_lease_def split: sum.split option.split)
    then have "gw_gov (run_steps gov_step v [op]) = gw_gov (gov_step ?u op)
        \<and> mset (gw_held (run_steps gov_step v [op])) = mset (gw_held (gov_step ?u op)) + ?own"
      by (simp only: one_step)
    then show ?thesis ..
  qed
  then obtain es where "gw_gov (run_steps gov_step v es) = gw_gov (gov_step ?u op)"
    "mset (gw_held (run_steps gov_step v es)) = mset (gw_held (gov_step ?u op)) + ?own"
    by blast
  from match [OF this] show ?thesis ..
qed

lemma sim_direct:
  assumes "pool_sim v w" and "\<And>x. ex_ram_bytes (f x) = ex_ram_bytes x"
  shows "\<exists>es. pool_sim (run_steps gov_step v es) (w\<lparr>pw_pool := gp_direct (pw_pool w) pod f\<rparr>)"
proof -
  have "pool_sim (run_steps gov_step v []) (w\<lparr>pw_pool := gp_direct (pw_pool w) pod f\<rparr>)"
    using assms(1) gp_direct_keeps [of f, OF assms(2)] by (simp add: pool_sim_def)
  then show ?thesis ..
qed

interpretation governed_pool: simulation gov_step "pw_step run" pool_sim for run
proof unfold_locales
  fix v w and op :: "'a pool_op"
  assume s: "pool_sim v w"
  show "\<exists>es. pool_sim (run_steps gov_step v es) (pw_step run w op)"
  proof (cases op)
    case (Infer_Pod pod payload)
    show ?thesis unfolding Infer_Pod pw_step.simps by (rule sim_direct [OF s]) (simp add: ex_simps)
  next
    case (Executor_Release pod)
    show ?thesis unfolding Executor_Release pw_step.simps
      by (rule sim_direct [OF s]) (simp add: ex_simps)
  next
    case (Executor_Activate pod l)
    show ?thesis unfolding Executor_Activate pw_step.simps
      by (rule sim_direct [OF s]) (simp add: ex_simps)
  qed (use s sim_activate sim_release sim_other in \<open>simp_all only:\<close>)
qed

lemma sum_list_matched:
  fixes f :: "'b \<Rightarrow> int"
  assumes "wf_dict d" and "wf_dict e" and "\<And>k. dget e k = map_option h (dget d k)"
  shows "sum_list (map (f \<circ> snd) e) = sum_list (map ((f \<circ> h) \<circ> snd) d)"
  using assms
proof (induction d arbitrary: e)
  case Nil
  then have "dget e k = None" for k by simp
  then have "set (dkeys e) = {}" using mem_dkeys not_dkeys dget_None_keys by (metis all_not_in_conv)
  then show ?case by simp
next
  case (Cons p d)
  obtain j x where p: "p = (j, x)" by (cases p)
  have wf: "wf_dict d" "dget d j = None"
    using Cons.prems(1) by (simp_all add: p wf_dict_Cons not_dkeys)
  have "dget (dpop j e) k = map_option h (dget d k)" for k
    using Cons.prems(3) [of k] wf(2) by (auto simp: p dict_simps)
  from Cons.IH [OF wf(1) wf_dict_pop [OF Cons.prems(2)] this]
  have "sum_list (map (f \<circ> snd) (dpop j e)) = sum_list (map ((f \<circ> h) \<circ> snd) d)" .
  moreover have "dget e j = Some (h x)" using Cons.prems(3) [of j] by (simp add: p)
  ultimately show ?case
    using sum_list_pop_keys [OF Cons.prems(2), of f j] by (simp add: p o_def)
qed

lemma own_charges:
  assumes "leases_match p" and "pool_ok p"
  shows "sum_list (map (charge (''ram'', None) \<circ> snd) (gp_leases p)) = gp_used_bytes p"
proof -
  let ?h = "\<lambda>x. \<lparr>ls_tier = ''ram'', ls_amount = ex_ram_bytes x, ls_device = None\<rparr>"
  have "sum_list (map (charge (''ram'', None) \<circ> snd) (gp_leases p)) =
      sum_list (map ((charge (''ram'', None) \<circ> ?h) \<circ> snd) (gp_active p))"
    using assms by (intro sum_list_matched) (simp_all add: leases_match_def pool_ok_def)
  also have "(charge (''ram'', None) \<circ> ?h) = ex_ram_bytes"
    by (simp add: fun_eq_iff charge_def lease_slot_def)
  finally show ?thesis
    using assms(2) unfolding pool_ok_def ram_of_active_def by (elim conjE) (simp only:)
qed

text \<open>What the governor charges to its RAM counter for everyone but the pool.\<close>

definition foreign_ram :: "governor \<Rightarrow> lease list \<Rightarrow> int" where
  "foreign_ram g others =
     sum_list (map (charge (''ram'', None)) others)
     + sum_list (map ((\<lambda>r. charge (''ram'', None) (rs_lease r)) \<circ> snd) (gv_residencies g))"

lemma sim_charged:
  assumes "pool_sim v w"
  shows "charged v (''ram'', None) = gp_used_bytes (pw_pool w) + foreign_ram (gw_gov v) (pw_others w)"
proof -
  note held = assms [unfolded pool_sim_def, THEN conjunct2, THEN conjunct1]
  let ?c = "charge (''ram'', None)"
  have "sum_list (map ?c (gw_held v)) = sum_mset (image_mset ?c (mset (gw_held v)))"
    by (simp flip: sum_mset_sum_list mset_map)
  also have "\<dots> = sum_list (map ?c (pw_others w)) + sum_list (map (?c \<circ> snd) (gp_leases (pw_pool w)))"
    unfolding held by (simp flip: sum_mset_sum_list mset_map)
  finally show ?thesis
    using own_charges [of "pw_pool w"] assms by (simp add: charged_def foreign_ram_def pool_sim_def)
qed

lemma sim_release_ok:
  assumes "pool_sim v w" and "gov_balanced b v"
  shows "fst (gp_release (pw_pool w) pod) = Inr ()"
proof (cases "dget (gp_active (pw_pool w)) pod")
  case (Some x)
  let ?p = "pw_pool w" and ?l = "\<lparr>ls_tier = ''ram'', ls_amount = ex_ram_bytes x, ls_device = None\<rparr>"
  from assms(1) have gov: "gp_governor ?p = Some (gw_gov v)" and lm: "leases_match ?p"
    and held: "mset (gw_held v) = mset (pw_others w) + mset (map snd (gp_leases ?p))"
    by (simp_all add: pool_sim_def)
  from lm Some have l: "dget (gp_leases ?p) pod = Some ?l" by (simp add: leases_match_def)
  then have "?l \<in> set (map snd (gp_leases ?p))" by (force dest: map_of_SomeD)
  then have "?l \<in># mset (gw_held v)" unfolding held by simp
  then have "?l \<in> set (gw_held v)" by simp
  from held_covered [OF gov_balancedD(2) [OF assms(2)] this]
  have "ls_amount ?l \<le> gov_used (gw_gov v) (lease_slot ?l)"
    by (simp only: gov_balancedD(4) [OF assms(2)])
  then have "fst (gov_release (gw_gov v) ?l) = Inr ()"
    by (simp add: gov_release_def Let_def gov_simps)
  then show ?thesis
    using Some l gov by (auto simp: gp_release_def Let_def split: prod.split sum.split)
qed (simp add: gp_release_def)

lemma new_pool_sim:
  assumes "new_pool f budget (Some (new_governor b)) = Inr p"
  shows "pool_sim (new_world b) \<lparr>pw_pool = p, pw_others = []\<rparr>"
  using assms
  by (auto simp: new_pool_def pool_sim_def new_world_def leases_match_def pool_ok_def ram_of_active_def)

text \<open>Without a governor the pool counts by itself.\<close>

definition builders_ok :: "factory \<Rightarrow> bool" where
  "builders_ok f = (\<forall>kind x. dget f kind = Some (Inr x) \<longrightarrow> 0 \<le> ex_ram_bytes x)"

definition standalone_ok :: "factory \<Rightarrow> int \<Rightarrow> pool_world \<Rightarrow> bool" where
  "standalone_ok f b w =
     (pool_ok (pw_pool w) \<and> gp_governor (pw_pool w) = None \<and> gp_factory (pw_pool w) = f
      \<and> gp_budget_bytes (pw_pool w) = Some b \<and> gp_used_bytes (pw_pool w) \<le> b
      \<and> (\<forall>q \<in> set (gp_active (pw_pool w)). 0 \<le> ex_ram_bytes (snd q)))"

lemma standalone_active:
  "standalone_ok f b w \<Longrightarrow> dget (gp_active (pw_pool w)) pod = Some x \<Longrightarrow> 0 \<le> ex_ram_bytes x"
  by (force simp: standalone_ok_def dest: map_of_SomeD)

lemma standalone_direct:
  assumes "standalone_ok f b w" and "\<And>x. ex_ram_bytes (h x) = ex_ram_bytes x"
  shows "standalone_ok f b (w\<lparr>pw_pool := gp_direct (pw_pool w) pod h\<rparr>)"
  using assms standalone_active [OF assms(1)]
  by (auto simp: standalone_ok_def gp_direct_def pool_ok_def ram_of_active_def ram_put
      split: option.split dest!: dput_mem)

lemma standalone_step:
  assumes "builders_ok f" and "standalone_ok f b w"
  shows "standalone_ok f b (pw_step run w op)"
proof (cases op)
  case (Activate_Pod pod kind)
  obtain r p' where a: "gp_activate (pw_pool w) pod kind = (r, p')" by fastforce
  have ok: "pool_ok p'"
    using activate_keeps_ok [of "pw_pool w" pod kind] a assms(2) by (simp add: standalone_ok_def Let_def)
  from a show ?thesis
  proof (cases rule: gp_activate_cases)
    case same
    with assms(2) a Activate_Pod show ?thesis by simp
  next
    case governed
    with assms(2) show ?thesis by (simp add: standalone_ok_def Let_def)
  next
    case (counted x b')
    have "0 \<le> ex_ram_bytes x"
      using counted(5) assms by (auto simp: standalone_ok_def builders_ok_def ef_create_def
          split: option.splits)
    with counted assms(2) a ok show ?thesis
      by (auto simp: Activate_Pod standalone_ok_def gp_enter_def Let_def ex_simps dest!: dput_mem)
  qed
next
  case (Release_Pod pod)
  show ?thesis
  proof (cases "dget (gp_active (pw_pool w)) pod")
    case None
    with assms(2) Release_Pod show ?thesis by (simp add: gp_release_def)
  next
    case (Some x)
    have "0 \<le> ex_ram_bytes x" using Some by (rule standalone_active [OF assms(2)])
    moreover obtain gov where "snd (snd (gp_release (pw_pool w) pod)) =
       (pw_pool w)\<lparr>gp_active := dpop pod (gp_active (pw_pool w)),
         gp_used_bytes := gp_used_bytes (pw_pool w) - ex_ram_bytes x,
         gp_leases := dpop pod (gp_leases (pw_pool w)), gp_governor := gov\<rparr>"
      and "gov = (case (dget (gp_leases (pw_pool w)) pod, gp_governor (pw_pool w)) of
         (Some l, Some g) \<Rightarrow> Some (snd (gov_release g l)) | _ \<Rightarrow> gp_governor (pw_pool w))"
      using gp_release_pool [OF Some] by blast
    ultimately show ?thesis
      using assms(2) release_keeps_ok [of "pw_pool w" pod]
      by (auto simp: Release_Pod standalone_ok_def Let_def split: option.splits dest!: dpop_mem)
  qed
next
  case (Other_Caller op')
  with assms(2) show ?thesis by (simp add: standalone_ok_def Let_def)
qed (use assms(2) in \<open>simp_all add: standalone_direct ex_simps\<close>)

lemma standalone_run:
  assumes "builders_ok f" and "standalone_ok f b w"
  shows "standalone_ok f b (run_steps (pw_step run) w ops)"
  using assms(2) by (induction ops arbitrary: w) (auto intro: standalone_step [OF assms(1)])

section \<open>Properties\<close>

text \<open>C21. A \<open>GovernedExecutorPool\<close> with a \<open>ResourceGovernor\<close> is a well-behaved caller of it. Take any
  sequence of pool activations and releases, direct uses of the executors and acquisitions and releases of the
  governor's other users, where these acquire for activations that are not negative and release leases that they
  hold, and where the builder of a kind makes equal executors each time. The governor's state is one that some
  sequence of its own operations under the same restriction reaches, in which the leases held are the pool's
  and the others'; the pool's \<open>used_bytes\<close> and what the others use make up the governor's RAM counter, both
  within the measured limit; and releasing any pod does not raise. (A caller with a negative activation can pass the
  limit: \<open>negative_activation_overcommits\<close>.)\<close>

theorem pool_refines_governor:
  fixes run :: "string \<Rightarrow> 'p \<Rightarrow> json result"
  assumes "new_pool f budget (Some (new_governor b)) = Inr p"
    and "w = run_steps (pw_step run) \<lparr>pw_pool = p, pw_others = []\<rparr> ops"
  shows "\<exists>es g. g = gw_gov (run_steps gov_step (new_world b) es)
     \<and> gp_governor (pw_pool w) = Some g
     \<and> mset (gw_held (run_steps gov_step (new_world b) es)) =
         mset (pw_others w) + mset (map snd (gp_leases (pw_pool w)))
     \<and> gov_used g (''ram'', None) = gp_used_bytes (pw_pool w) + foreign_ram g (pw_others w)
     \<and> (gov_used g (''ram'', None) = 0 \<or> (\<exists>lim. bd_ram b = Some lim \<and> gov_used g (''ram'', None) \<le> lim))
     \<and> fst (gp_release (pw_pool w) pod) = Inr ()"
proof -
  from governed_pool.run_sim [OF new_pool_sim [OF assms(1)]]
  obtain es where "pool_sim (run_steps gov_step (new_world b) es) w"
    unfolding assms(2) by blast
  note sim = this
  note bal = gov_reachable_balanced [of b es]
  have "within_limit (gw_gov (run_steps gov_step (new_world b) es)) (''ram'', None)"
    by (rule gov_balancedD(5) [OF bal])
  moreover have "gov_limit (gw_gov (run_steps gov_step (new_world b) es)) ''ram'' None = Inr (bd_ram b)"
    by (simp add: gov_limit_def gov_balancedD(3) [OF bal])
  ultimately have lim: "gov_used (gw_gov (run_steps gov_step (new_world b) es)) (''ram'', None) = 0 \<or>
      (\<exists>lim. bd_ram b = Some lim
        \<and> gov_used (gw_gov (run_steps gov_step (new_world b) es)) (''ram'', None) \<le> lim)"
    by (simp add: within_limit_def)
  show ?thesis
    using sim [unfolded pool_sim_def] lim sim_release_ok [OF sim bal, of pod]
      sim_charged [OF sim] gov_balancedD(4) [OF bal, of "(''ram'', None)"]
    by metis
qed

definition tree_factory :: factory where
  "tree_factory = [(''tree'', Inr (new_executor ''xgboost'' 60))]"

definition demo_run :: "string \<Rightarrow> int \<Rightarrow> json result" where
  "demo_run runtime n = Inr (JInt n)"

theorem pool_refines_governor_witness:
  "\<exists>p g. new_pool tree_factory None (Some (new_governor sample_budget)) = Inr p
     \<and> gp_governor (pw_pool (run_steps (pw_step demo_run) \<lparr>pw_pool = p, pw_others = []\<rparr>
         [Activate_Pod ''a'' ''tree'', Activate_Pod ''b'' ''tree'', Infer_Pod ''a'' 7])) = Some g
     \<and> gov_used g (''ram'', None) \<le> 100"
proof -
  obtain p where p: "new_pool tree_factory None (Some (new_governor sample_budget)) = Inr p"
    by (simp add: new_pool_def)
  let ?w = "run_steps (pw_step demo_run) \<lparr>pw_pool = p, pw_others = []\<rparr>
     [Activate_Pod ''a'' ''tree'', Activate_Pod ''b'' ''tree'', Infer_Pod ''a'' 7]"
  from pool_refines_governor [OF p refl, of demo_run
      "[Activate_Pod ''a'' ''tree'', Activate_Pod ''b'' ''tree'', Infer_Pod ''a'' 7]" "''a''"]
  obtain g where g: "gp_governor (pw_pool ?w) = Some g"
    "gov_used g (''ram'', None) = 0 \<or> (\<exists>lim. bd_ram sample_budget = Some lim \<and> gov_used g (''ram'', None) \<le> lim)"
    by blast
  from g(2) have "gov_used g (''ram'', None) \<le> 100" by (auto simp: sample_budget_def)
  with p g(1) show ?thesis by blast
qed

text \<open>A pool without a governor stays within its own budget. If the builders make executors of
  non-negative size and the budget is not negative, then after any sequence of operations
  \<open>used_bytes\<close> is the memory of the executors that are active, between zero and the budget: a
  release gives back what was acquired even if the executor was released by its holder before,
  and a refused or repeated activation charges nothing.\<close>

theorem standalone_pool_within_budget:
  assumes "new_pool f (Some b) None = Inr p" and "builders_ok f" and "0 \<le> b"
    and "w = run_steps (pw_step run) \<lparr>pw_pool = p, pw_others = []\<rparr> ops"
  shows "gp_used_bytes (pw_pool w) = sum_list (map (ex_ram_bytes \<circ> snd) (gp_active (pw_pool w)))
     \<and> 0 \<le> gp_used_bytes (pw_pool w) \<and> gp_used_bytes (pw_pool w) \<le> b"
proof -
  have "standalone_ok f b \<lparr>pw_pool = p, pw_others = []\<rparr>"
    using assms(1,3) by (auto simp: new_pool_def standalone_ok_def pool_ok_def ram_of_active_def)
  from standalone_run [OF assms(2) this] have ok: "standalone_ok f b w"
    unfolding assms(4) .
  then have "0 \<le> sum_list (map (ex_ram_bytes \<circ> snd) (gp_active (pw_pool w)))"
    by (intro sum_list_nonneg) (auto simp: standalone_ok_def Let_def)
  with ok show ?thesis by (simp add: standalone_ok_def Let_def pool_ok_def ram_of_active_def)
qed

theorem standalone_pool_within_budget_witness:
  "\<exists>p. new_pool tree_factory (Some 100) None = Inr p
     \<and> gp_used_bytes (pw_pool (run_steps (pw_step demo_run) \<lparr>pw_pool = p, pw_others = []\<rparr>
         [Activate_Pod ''a'' ''tree'', Executor_Release ''a'', Activate_Pod ''b'' ''tree''])) = 60
     \<and> 60 \<le> (100 :: int)"
proof -
  let ?ops = "[Activate_Pod ''a'' ''tree'', Executor_Release ''a'', Activate_Pod ''b'' ''tree'']"
  obtain p where p: "new_pool tree_factory (Some 100) None = Inr p"
    by (simp add: new_pool_def)
  have "builders_ok tree_factory"
    by (simp add: builders_ok_def tree_factory_def new_executor_def)
  from standalone_pool_within_budget [OF p this _ refl, of demo_run ?ops]
  have "gp_used_bytes (pw_pool (run_steps (pw_step demo_run) \<lparr>pw_pool = p, pw_others = []\<rparr> ?ops)) \<le> 100"
    by simp
  moreover have "gp_used_bytes (pw_pool (run_steps (pw_step demo_run) \<lparr>pw_pool = p, pw_others = []\<rparr> ?ops)) = 60"
    using p by (auto simp: new_pool_def gp_activate_def gp_enter_def gp_direct_def ef_create_def
        tree_factory_def new_executor_def ex_activate_def ex_release_def Let_def)
  ultimately show ?thesis using p by auto
qed

text \<open>A pool that is handed both a budget and a governor reports the budget it does not enforce: the
  activation below goes through although the reported headroom is zero.\<close>

theorem governed_pool_reports_unused_budget:
  "\<exists>p x p'. new_pool tree_factory (Some 0) (Some (new_governor sample_budget)) = Inr p
     \<and> ps_budget_bytes (gp_stats p) = Some 0 \<and> ps_budget_owner (gp_stats p) = ''governor''
     \<and> gp_activate p ''a'' ''tree'' = (Inr x, p') \<and> gp_used_bytes p' = 60"
  by (simp add: new_pool_def gp_stats_def gp_activate_def ef_create_def tree_factory_def
      new_executor_def gov_try_acquire_def gov_fits_def gov_limit_def gov_used_def dget_or_def
      new_governor_def sample_budget_def gp_enter_def Let_def)

end
