(* ===== verification/Replication.thy ===== *)
theory Replication
  imports Py_Values "HOL-Library.Option_ord"
begin

text \<open>
  \<open>neural_pods/replication.py\<close>: revisioned records on several replicas with a write quorum. A replica is a
  \<open>PostgresReplica\<close>, a table with a conditional upsert. What the network does to a call is an argument: for a
  put, the outcome of each attempt (done, failed without effect, failed after the commit, which
  also covers the fault injector); for a get, whether the replica answers. The digest is a parameter.
\<close>

section \<open>Replicas\<close>

record rep_record =
  rr_key :: string
  rr_revision :: int
  rr_deleted :: bool
  rr_payload :: "(string, json) dict"
  rr_digest :: string

type_synonym table = "(string, rep_record) dict"

definition is_ident_start :: "char \<Rightarrow> bool" where
  "is_ident_start c = (let n = (of_char c :: nat) in (65 \<le> n \<and> n \<le> 90) \<or> (97 \<le> n \<and> n \<le> 122) \<or> n = 95)"

definition is_ident :: "string \<Rightarrow> bool" where
  "is_ident s =
     (s \<noteq> [] \<and> is_ident_start (hd s)
      \<and> list_all (\<lambda>c. is_ident_start c \<or> (48 \<le> (of_char c :: nat) \<and> (of_char c :: nat) \<le> 57)) (tl s))"

text \<open>The table name: an identifier, or two of them around a dot.\<close>

definition table_name_ok :: "string \<Rightarrow> bool" where
  "table_name_ok s =
     (let (a, b) = (takeWhile (\<lambda>c. c \<noteq> CHR ''.'') s, dropWhile (\<lambda>c. c \<noteq> CHR ''.'') s)
      in is_ident a \<and> (b = [] \<or> is_ident (tl b)))"

definition pg_create :: "string \<Rightarrow> table result" where
  "pg_create name = (if table_name_ok name then Inr [] else Inl ValueError)"

text \<open>\<open>INSERT ... ON CONFLICT DO UPDATE ... WHERE revision < EXCLUDED.revision\<close>: an older or equal
  revision is dropped without an error.\<close>

definition pg_put :: "string \<Rightarrow> rep_record \<Rightarrow> table \<Rightarrow> table" where
  "pg_put key r t =
     (case dget t key of
        None \<Rightarrow> dput key r t
      | Some old \<Rightarrow> if rr_revision old < rr_revision r then dput key r t else t)"

definition pg_get :: "string \<Rightarrow> table \<Rightarrow> rep_record option" where
  "pg_get key t = dget t key"

section \<open>The coordinator\<close>

datatype put_outcome = Put_Done | Put_Lost | Put_Stored_Then_Failed

record replica_result =
  rp_replica :: string
  rp_ok :: bool
  rp_revision :: "int option"

record replicator =
  qr_replicas :: "(string, table) dict"
  qr_quorum :: int
  qr_max_retries :: nat
  qr_revisions :: "(string, int) dict"

definition new_replicator :: "(string, table) dict \<Rightarrow> int option \<Rightarrow> int \<Rightarrow> real \<Rightarrow> replicator result" where
  "new_replicator replicas quorum max_retries backoff =
     (if replicas = [] then Inl ValueError
      else (let q = (case quorum of None \<Rightarrow> int (length replicas) div 2 + 1
                     | Some n \<Rightarrow> if n = 0 then int (length replicas) div 2 + 1 else n)
            in if \<not> (1 \<le> q \<and> q \<le> int (length replicas)) then Inl ValueError
               else if max_retries < 0 \<or> backoff < 0 then Inl ValueError
               else Inr \<lparr>qr_replicas = replicas, qr_quorum = q, qr_max_retries = nat max_retries,
                         qr_revisions = []\<rparr>))"

text \<open>The attempts at one replica, with \<open>left\<close> retries left.\<close>

fun put_attempts :: "(nat \<Rightarrow> put_outcome) \<Rightarrow> string \<Rightarrow> rep_record \<Rightarrow> nat \<Rightarrow> nat \<Rightarrow> table \<Rightarrow> bool \<times> table" where
  "put_attempts net key r a left t =
     (case net a of
        Put_Done \<Rightarrow> (True, pg_put key r t)
      | Put_Lost \<Rightarrow>
          (case left of 0 \<Rightarrow> (False, t) | Suc l \<Rightarrow> put_attempts net key r (Suc a) l t)
      | Put_Stored_Then_Failed \<Rightarrow>
          (case left of 0 \<Rightarrow> (False, pg_put key r t)
           | Suc l \<Rightarrow> put_attempts net key r (Suc a) l (pg_put key r t)))"

declare put_attempts.simps [simp del]

definition put_one ::
    "(string \<Rightarrow> nat \<Rightarrow> put_outcome) \<Rightarrow> nat \<Rightarrow> string \<Rightarrow> rep_record \<Rightarrow> string \<times> table
       \<Rightarrow> replica_result \<times> string \<times> table" where
  "put_one net retries key r p =
     (let (ok, t) = put_attempts (net (fst p)) key r 0 retries (snd p)
      in (\<lparr>rp_replica = fst p, rp_ok = ok, rp_revision = (if ok then Some (rr_revision r) else None)\<rparr>,
          fst p, t))"

record write_result =
  wr_key :: string
  wr_revision :: int
  wr_quorum :: nat
  wr_replicas :: "replica_result list"

definition current_revision :: "replicator \<Rightarrow> string \<Rightarrow> int" where
  "current_revision s key = dget_or (qr_revisions s) key 0"

definition next_revision :: "int \<Rightarrow> int option \<Rightarrow> int" where
  "next_revision current revision =
     (case revision of None \<Rightarrow> current + 1 | Some n \<Rightarrow> if n = 0 then current + 1 else n)"

definition make_record ::
    "((string, json) dict \<Rightarrow> string) \<Rightarrow> string \<Rightarrow> int \<Rightarrow> bool \<Rightarrow> (string, json) dict \<Rightarrow> rep_record" where
  "make_record H key rv del payload =
     \<lparr>rr_key = key, rr_revision = rv, rr_deleted = del, rr_payload = payload, rr_digest = H payload\<rparr>"

definition count_ok :: "replica_result list \<Rightarrow> nat" where
  "count_ok rs = length (filter rp_ok rs)"

definition qr_write ::
    "((string, json) dict \<Rightarrow> string) \<Rightarrow> (string \<Rightarrow> nat \<Rightarrow> put_outcome) \<Rightarrow> replicator \<Rightarrow> string
       \<Rightarrow> (string, json) dict \<Rightarrow> int option \<Rightarrow> bool \<Rightarrow> write_result result \<times> replicator" where
  "qr_write H net s key payload revision del =
     (let current = current_revision s key; rv = next_revision current revision
      in if rv \<le> current then (Inl ValueError, s)
         else (let r = make_record H key rv del payload;
                   done = map (put_one net (qr_max_retries s) key r) (qr_replicas s);
                   results = map fst done; s' = s\<lparr>qr_replicas := map snd done\<rparr>
               in if int (count_ok results) < qr_quorum s then (Inl RuntimeError, s')
                  else (Inr \<lparr>wr_key = key, wr_revision = rv, wr_quorum = count_ok results,
                             wr_replicas = results\<rparr>,
                        s'\<lparr>qr_revisions := dput key rv (qr_revisions s)\<rparr>)))"

text \<open>\<open>max(records, key=...)\<close>: the first of the records with the highest revision.\<close>

fun first_max :: "rep_record \<Rightarrow> rep_record list \<Rightarrow> rep_record" where
  "first_max best [] = best"
| "first_max best (r # rs) = first_max (if rr_revision best < rr_revision r then r else best) rs"

definition answers :: "(string \<Rightarrow> bool) \<Rightarrow> replicator \<Rightarrow> string \<Rightarrow> rep_record list" where
  "answers up s key =
     concat (map (\<lambda>(name, t). if up name then (case pg_get key t of None \<Rightarrow> [] | Some r \<Rightarrow> [r]) else [])
               (qr_replicas s))"

definition qr_read :: "(string \<Rightarrow> bool) \<Rightarrow> replicator \<Rightarrow> string \<Rightarrow> rep_record option \<times> replicator" where
  "qr_read up s key =
     (case answers up s key of
        [] \<Rightarrow> (None, s)
      | r # rs \<Rightarrow>
          (let w = first_max r rs
           in (if rr_deleted w then None else Some w,
               s\<lparr>qr_revisions := dput key (max (current_revision s key) (rr_revision w)) (qr_revisions s)\<rparr>)))"

definition qr_tombstone ::
    "((string, json) dict \<Rightarrow> string) \<Rightarrow> (string \<Rightarrow> nat \<Rightarrow> put_outcome) \<Rightarrow> replicator \<Rightarrow> string \<Rightarrow> string
       \<Rightarrow> write_result result \<times> replicator" where
  "qr_tombstone H net s key who = qr_write H net s key [(''deleted_by'', JStr who)] None True"

definition qr_health :: "(string \<Rightarrow> bool) \<Rightarrow> replicator \<Rightarrow> (string \<times> bool) list \<times> int \<times> bool" where
  "qr_health up s =
     (let states = map (\<lambda>n. (n, up n)) (dkeys (qr_replicas s))
      in (states, qr_quorum s, qr_quorum s \<le> int (length (filter snd states))))"

section \<open>One put\<close>

lemma pg_put_twice [simp]: "pg_put key r (pg_put key r t) = pg_put key r t"
  by (simp add: pg_put_def dict_simps split: option.split)

lemma pg_put_other: "k \<noteq> key \<Longrightarrow> dget (pg_put key r t) k = dget t k"
  by (simp add: pg_put_def dict_simps split: option.split)

lemma pg_put_same:
  "dget (pg_put key r t) key =
     (case dget t key of None \<Rightarrow> Some r | Some old \<Rightarrow> if rr_revision old < rr_revision r then Some r else Some old)"
  by (simp add: pg_put_def dict_simps split: option.split)

lemma put_attempts_cases:
  "put_attempts net key r a left t = (ok, t') \<Longrightarrow> t' = pg_put key r t \<or> (t' = t \<and> \<not> ok)"
proof (induction net key r a left t arbitrary: ok t' rule: put_attempts.induct)
  case (1 net key r a left t)
  note eq = "1.prems" [unfolded put_attempts.simps [of net key r a left t]]
  show ?case
  proof (cases "net a")
    case Put_Done
    with eq show ?thesis by simp
  next
    case Put_Lost
    show ?thesis
    proof (cases left)
      case 0
      with eq Put_Lost show ?thesis by simp
    next
      case (Suc l)
      with eq Put_Lost have "put_attempts net key r (Suc a) l t = (ok, t')" by simp
      from "1.IH"(1) [OF Put_Lost Suc this] show ?thesis .
    qed
  next
    case Put_Stored_Then_Failed
    show ?thesis
    proof (cases left)
      case 0
      with eq Put_Stored_Then_Failed show ?thesis by simp
    next
      case (Suc l)
      with eq Put_Stored_Then_Failed
      have "put_attempts net key r (Suc a) l (pg_put key r t) = (ok, t')" by simp
      from "1.IH"(2) [OF Put_Stored_Then_Failed Suc this] show ?thesis by auto
    qed
  qed
qed

lemma put_one_cases:
  assumes "put_one net k key r (n, t) = (q, n', t')"
  shows "n' = n" and "rp_replica q = n"
    and "t' = pg_put key r t \<or> (t' = t \<and> \<not> rp_ok q)"
  using assms put_attempts_cases [of "net n" key r 0 k t]
  by (auto simp: put_one_def split: prod.splits)

text \<open>What a call of \<open>write\<close> did.\<close>

lemma qr_write_cases:
  assumes "qr_write H net s key payload revision del = (res, s')"
  obtains (stale) "res = Inl ValueError" "s' = s"
  | (tried) rv r outs where "rv = next_revision (current_revision s key) revision"
      "current_revision s key < rv" "r = make_record H key rv del payload"
      "outs = map (put_one net (qr_max_retries s) key r) (qr_replicas s)"
      "int (count_ok (map fst outs)) < qr_quorum s" "res = Inl RuntimeError"
      "s' = s\<lparr>qr_replicas := map snd outs\<rparr>"
  | (acknowledged) rv r outs where "rv = next_revision (current_revision s key) revision"
      "current_revision s key < rv" "r = make_record H key rv del payload"
      "outs = map (put_one net (qr_max_retries s) key r) (qr_replicas s)"
      "qr_quorum s \<le> int (count_ok (map fst outs))"
      "res = Inr \<lparr>wr_key = key, wr_revision = rv, wr_quorum = count_ok (map fst outs),
                   wr_replicas = map fst outs\<rparr>"
      "s' = s\<lparr>qr_replicas := map snd outs, qr_revisions := dput key rv (qr_revisions s)\<rparr>"
proof -
  let ?rv = "next_revision (current_revision s key) revision"
  let ?r = "make_record H key ?rv del payload"
  let ?done = "map (put_one net (qr_max_retries s) key ?r) (qr_replicas s)"
  consider "?rv \<le> current_revision s key"
    | "current_revision s key < ?rv" "int (count_ok (map fst ?done)) < qr_quorum s"
    | "current_revision s key < ?rv" "qr_quorum s \<le> int (count_ok (map fst ?done))"
    by linarith
  then show ?thesis
  proof cases
    case 1
    with assms stale show ?thesis by (simp add: qr_write_def Let_def)
  next
    case 2
    with assms tried [OF refl _ refl refl] show ?thesis by (simp add: qr_write_def Let_def)
  next
    case 3
    with assms acknowledged [OF refl _ refl refl] show ?thesis by (simp add: qr_write_def Let_def)
  qed
qed

section \<open>Revisions only grow\<close>

datatype rep_op =
    Write "string \<Rightarrow> nat \<Rightarrow> put_outcome" string "(string, json) dict" "int option" bool
  | Read "string \<Rightarrow> bool" string

fun rep_step :: "((string, json) dict \<Rightarrow> string) \<Rightarrow> replicator \<Rightarrow> rep_op \<Rightarrow> replicator" where
  "rep_step H s (Write net key payload revision del) = snd (qr_write H net s key payload revision del)"
| "rep_step H s (Read up key) = snd (qr_read up s key)"

definition stored_revision :: "replicator \<Rightarrow> string \<Rightarrow> string \<Rightarrow> int option" where
  "stored_revision s name key =
     (case dget (qr_replicas s) name of None \<Rightarrow> None | Some t \<Rightarrow> map_option rr_revision (dget t key))"

lemma dget_done:
  "dget (map snd (map (put_one net k key r) ts)) n =
     map_option (\<lambda>t. snd (snd (put_one net k key r (n, t)))) (dget ts n)"
proof (induction ts)
  case (Cons p ts)
  obtain m t where p: "p = (m, t)" by (cases p)
  obtain q m' t' where q: "put_one net k key r (m, t) = (q, m', t')" by (cases "put_one net k key r (m, t)") auto
  from put_one_cases(1) [OF q] Cons.IH show ?case by (simp add: p q)
qed simp

lemma put_revision_grows:
  "map_option rr_revision (dget t k) \<le> map_option rr_revision (dget (snd (snd (put_one net n key r (m, t)))) k)"
proof -
  obtain q m' t' where q: "put_one net n key r (m, t) = (q, m', t')"
    by (cases "put_one net n key r (m, t)") auto
  have "map_option rr_revision (dget t k) \<le> map_option rr_revision (dget (pg_put key r t) k)"
    by (cases "k = key") (auto simp: pg_put_same pg_put_other split: option.split)
  with put_one_cases(3) [OF q] show ?thesis by (auto simp: q)
qed

lemma write_revision_grows:
  "stored_revision s name k \<le> stored_revision (snd (qr_write H net s key payload revision del)) name k"
proof -
  obtain res s' where w: "qr_write H net s key payload revision del = (res, s')" by fastforce
  have grow: "stored_revision s name k \<le> stored_revision (s'' :: replicator) name k"
    if "qr_replicas s'' = map snd (map (put_one net (qr_max_retries s) key r) (qr_replicas s))" for s'' r
    unfolding stored_revision_def that dget_done
    by (cases "dget (qr_replicas s) name") (simp_all add: put_revision_grows)
  from w show ?thesis
    by (cases rule: qr_write_cases) (simp_all add: w grow del: map_map)
qed

lemma read_replicas: "qr_replicas (snd (qr_read up s key)) = qr_replicas s"
  by (simp add: qr_read_def Let_def split: list.split)

interpretation stored_clock: never_decreasing "rep_step H" "\<lambda>s. stored_revision s name key" for H name key
proof unfold_locales
  fix s op
  show "stored_revision s name key \<le> stored_revision (rep_step H s op) name key"
    by (cases op) (simp_all add: write_revision_grows, simp add: stored_revision_def read_replicas)
qed

lemma write_current:
  "current_revision s k \<le> current_revision (snd (qr_write H net s key payload revision del)) k"
proof -
  obtain res s' where w: "qr_write H net s key payload revision del = (res, s')" by fastforce
  then show ?thesis
    by (cases rule: qr_write_cases) (auto simp: w current_revision_def dict_simps)
qed

lemma read_current: "current_revision s k \<le> current_revision (snd (qr_read up s key)) k"
  by (simp add: qr_read_def Let_def current_revision_def dict_simps split: list.split)

interpretation coordinator_clock: never_decreasing "rep_step H" "\<lambda>s. current_revision s key" for H key
proof unfold_locales
  fix s op
  show "current_revision s key \<le> current_revision (rep_step H s op) key"
    by (cases op) (simp_all add: write_current read_current)
qed

section \<open>Histories without a failed write\<close>

text \<open>
  The states that start from empty replicas and in which every write so far was acknowledged,
  with the record of the last write to each key.
\<close>

inductive quorate ::
    "((string, json) dict \<Rightarrow> string) \<Rightarrow> replicator \<Rightarrow> (string \<Rightarrow> rep_record option) \<Rightarrow> bool" for H where
  quorate_new: "new_replicator ts quorum retries backoff = Inr s \<Longrightarrow> wf_dict ts \<Longrightarrow> \<forall>p \<in> set ts. snd p = []
     \<Longrightarrow> quorate H s (\<lambda>_. None)"
| quorate_write: "quorate H s acked \<Longrightarrow> qr_write H net s key payload revision del = (Inr w, s')
     \<Longrightarrow> quorate H s' (acked(key \<mapsto> make_record H key (wr_revision w) del payload))"
| quorate_read: "quorate H s acked \<Longrightarrow> quorate H (snd (qr_read up s key)) acked"

inductive_cases quorate_cases: "quorate H s acked"

text \<open>How a table relates to the last acknowledged write of a key.\<close>

definition table_behind :: "int \<Rightarrow> rep_record option \<Rightarrow> rep_record option \<Rightarrow> bool" where
  "table_behind cur l stored =
     (case stored of None \<Rightarrow> True
      | Some r \<Rightarrow> l \<noteq> None \<and> rr_revision r \<le> cur \<and> (rr_revision r = cur \<longrightarrow> l = Some r))"

definition holders :: "replicator \<Rightarrow> string \<Rightarrow> rep_record \<Rightarrow> string list" where
  "holders s key r = map fst (filter (\<lambda>p. dget (snd p) key = Some r) (qr_replicas s))"

definition quorate_ok :: "replicator \<Rightarrow> (string \<Rightarrow> rep_record option) \<Rightarrow> bool" where
  "quorate_ok s acked =
     (1 \<le> qr_quorum s
      \<and> (\<forall>key. \<forall>p \<in> set (qr_replicas s). table_behind (current_revision s key) (acked key) (dget (snd p) key))
      \<and> (\<forall>key r. acked key = Some r \<longrightarrow> rr_revision r = current_revision s key
            \<and> qr_quorum s \<le> int (length (holders s key r)))
      \<and> (\<forall>key. acked key = None \<longrightarrow> current_revision s key = 0))"

lemma quorate_okD:
  assumes "quorate_ok s acked"
  shows "1 \<le> qr_quorum s"
    and "p \<in> set (qr_replicas s) \<Longrightarrow> table_behind (current_revision s key) (acked key) (dget (snd p) key)"
    and "acked key = Some r \<Longrightarrow> rr_revision r = current_revision s key"
    and "acked key = Some r \<Longrightarrow> qr_quorum s \<le> int (length (holders s key r))"
    and "acked key = None \<Longrightarrow> current_revision s key = 0"
  using assms unfolding quorate_ok_def by blast+

lemma first_max_in: "first_max b rs \<in> insert b (set rs)"
  by (induction rs arbitrary: b) (auto split: if_splits)

lemma first_max_base: "rr_revision b \<le> rr_revision (first_max b rs)"
proof (induction rs arbitrary: b)
  case (Cons r rs)
  show ?case using Cons.IH [of b] Cons.IH [of r] by simp
qed simp

lemma first_max_ge: "x \<in> insert b (set rs) \<Longrightarrow> rr_revision x \<le> rr_revision (first_max b rs)"
proof (induction rs arbitrary: b)
  case (Cons r rs)
  show ?case
  proof (cases "x \<in> set rs")
    case True
    then show ?thesis using Cons.IH by simp
  next
    case False
    with Cons.prems show ?thesis
      using first_max_base [of b rs] first_max_base [of r rs] by auto
  qed
qed simp

lemma answer_mem: "r \<in> set (case x of None \<Rightarrow> [] | Some r \<Rightarrow> [r]) \<longleftrightarrow> x = Some r"
  by (cases x) auto

lemma answer_up_mem: "r \<in> set (if b then xs else []) \<longleftrightarrow> b \<and> r \<in> set xs"
  by simp

lemma answers_mem:
  "r \<in> set (answers up s key) \<longleftrightarrow> (\<exists>p \<in> set (qr_replicas s). up (fst p) \<and> dget (snd p) key = Some r)"
  unfolding answers_def case_prod_unfold set_concat set_map image_image UN_iff answer_up_mem answer_mem pg_get_def ..

text \<open>Two sets of replicas that together are more than all of them overlap.\<close>

lemma quorum_overlap:
  assumes "length (filter P xs) + length (filter Q xs) > length xs"
  obtains x where "x \<in> set xs" "P x" "Q x"
proof (rule ccontr)
  assume no: "\<not> thesis"
  have "\<not> (P x \<and> Q x)" if "x \<in> set xs" for x using that no \<open>\<And>x. x \<in> set xs \<Longrightarrow> P x \<Longrightarrow> Q x \<Longrightarrow> thesis\<close> by blast
  then have "length (filter P xs) + length (filter Q xs) \<le> length xs"
    by (induction xs) auto
  with assms show False by simp
qed

lemma read_of_ok:
  assumes ok: "quorate_ok s acked"
    and few: "int (length (filter (\<lambda>p. \<not> up (fst p)) (qr_replicas s))) < qr_quorum s"
  shows "fst (qr_read up s key) =
    (case acked key of None \<Rightarrow> None | Some r \<Rightarrow> if rr_deleted r then None else Some r)"
proof (cases "acked key")
  case None
  have "answers up s key = []"
  proof (rule ccontr)
    assume "answers up s key \<noteq> []"
    then obtain r where "r \<in> set (answers up s key)" by (cases "answers up s key") auto
    then obtain p where "p \<in> set (qr_replicas s)" "dget (snd p) key = Some r"
      by (auto simp: answers_mem)
    with quorate_okD(2) [OF ok, of p key] None show False by (simp add: table_behind_def)
  qed
  with None show ?thesis by (simp add: qr_read_def)
next
  case (Some r)
  let ?up = "\<lambda>p. up (fst p)" and ?has = "\<lambda>p. dget (snd p) key = Some r"
  have "length (filter ?up (qr_replicas s)) + length (filter (\<lambda>p. \<not> up (fst p)) (qr_replicas s))
      = length (qr_replicas s)"
    by (rule sum_length_filter_compl)
  with few quorate_okD(4) [OF ok Some]
  have "length (filter ?up (qr_replicas s)) + length (filter ?has (qr_replicas s)) > length (qr_replicas s)"
    by (simp add: holders_def)
  then obtain p where "p \<in> set (qr_replicas s)" "?up p" "?has p" by (rule quorum_overlap)
  then have mem: "r \<in> set (answers up s key)" by (auto simp: answers_mem)
  then obtain b rs where a: "answers up s key = b # rs" by (cases "answers up s key") auto
  let ?w = "first_max b rs"
  have "?w \<in> set (answers up s key)" using first_max_in [of b rs] by (simp add: a)
  then obtain q where q: "q \<in> set (qr_replicas s)" "dget (snd q) key = Some ?w"
    by (auto simp: answers_mem)
  from quorate_okD(2) [OF ok q(1), of key] q(2) Some
  have le: "rr_revision ?w \<le> current_revision s key"
    and top: "rr_revision ?w = current_revision s key \<longrightarrow> ?w = r"
    by (auto simp: table_behind_def)
  have "rr_revision r \<le> rr_revision ?w" using mem first_max_ge [of r b rs] by (simp add: a)
  with le quorate_okD(3) [OF ok Some] have "rr_revision ?w = current_revision s key" by simp
  with top have "?w = r" by blast
  with Some a show ?thesis by (simp add: qr_read_def Let_def)
qed

lemma put_behind:
  assumes "table_behind cur l (dget t key)" and "cur < rr_revision r"
    and "put_one net k key r (n, t) = (q, n', t')"
  shows "table_behind (rr_revision r) (Some r) (dget t' key)"
    and "rp_ok q \<Longrightarrow> dget t' key = Some r"
  using assms(1,2) put_one_cases(3) [OF assms(3)]
  by (auto simp: table_behind_def pg_put_same split: option.splits if_splits)

lemma ok_count_le:
  assumes "\<And>x. x \<in> set xs \<Longrightarrow> rp_ok (fst (f x)) \<Longrightarrow> P (snd (f x))"
  shows "length (filter rp_ok (map (fst \<circ> f) xs)) \<le> length (filter P (map (snd \<circ> f) xs))"
  using assms by (induction xs) auto

text \<open>An acknowledged write keeps the invariant.\<close>

lemma quorate_write_ok:
  assumes ok: "quorate_ok s acked" and w: "qr_write H net s key payload revision del = (Inr wr, s')"
  shows "quorate_ok s' (acked(key \<mapsto> make_record H key (wr_revision wr) del payload))"
proof -
  from w obtain rv r where rv: "current_revision s key < rv"
    and r: "r = make_record H key rv del payload"
    and cnt: "qr_quorum s \<le> int (count_ok (map fst (map (put_one net (qr_max_retries s) key r) (qr_replicas s))))"
    and wr: "wr_revision wr = rv"
    and s': "s' = s\<lparr>qr_replicas := map snd (map (put_one net (qr_max_retries s) key r) (qr_replicas s)),
               qr_revisions := dput key rv (qr_revisions s)\<rparr>"
    by (cases rule: qr_write_cases) auto
  let ?put = "put_one net (qr_max_retries s) key r" and ?acked = "acked(key \<mapsto> r)"
  have rrev: "rr_revision r = rv" by (simp add: r make_record_def)
  have cur: "current_revision s' k = (if k = key then rv else current_revision s k)" for k
    by (simp add: s' current_revision_def dict_simps)
  have new: "table_behind (current_revision s' k) (?acked k) (dget (snd (snd (?put p))) k)"
    and stored: "rp_ok (fst (?put p)) \<Longrightarrow> dget (snd (snd (?put p))) key = Some r"
    and other: "k \<noteq> key \<Longrightarrow> dget (snd (snd (?put p))) k = dget (snd p) k"
    if p: "p \<in> set (qr_replicas s)" for p k
  proof -
    obtain n t where nt: "p = (n, t)" by (cases p)
    obtain q n' t' where q: "?put p = (q, n', t')" by (cases "?put p") auto
    note behind = quorate_okD(2) [OF ok p]
    have b: "table_behind (current_revision s key) (acked key) (dget t key)"
      using behind [of key] by (simp add: nt)
    have lt: "current_revision s key < rr_revision r" using rv rrev by simp
    from put_behind [OF b lt q [unfolded nt]]
    have on: "table_behind rv (Some r) (dget t' key)" and st: "rp_ok q \<Longrightarrow> dget t' key = Some r"
      by (simp_all add: rrev)
    show "rp_ok (fst (?put p)) \<Longrightarrow> dget (snd (snd (?put p))) key = Some r" using st q by simp
    show o: "k \<noteq> key \<Longrightarrow> dget (snd (snd (?put p))) k = dget (snd p) k" for k
      using put_one_cases(3) [OF q [unfolded nt]] q nt by (auto simp: pg_put_other)
    show "table_behind (current_revision s' k) (?acked k) (dget (snd (snd (?put p))) k)"
      using on behind [of k] o [of k] by (cases "k = key") (simp_all add: cur q)
  qed
  have keep: "length (holders s k x) = length (holders s' k x)" if "k \<noteq> key" for k x
  proof -
    have "filter (\<lambda>p. dget (snd p) k = Some x) (map (snd \<circ> ?put) (qr_replicas s)) =
        map (snd \<circ> ?put) (filter (\<lambda>p. dget (snd p) k = Some x) (qr_replicas s))"
      using other that by (auto simp: filter_map o_def intro!: arg_cong [where f = "map _"] filter_cong)
    then show ?thesis by (simp add: holders_def s')
  qed
  have "count_ok (map fst (map ?put (qr_replicas s))) \<le> length (holders s' key r)"
    using ok_count_le [of "qr_replicas s" ?put "\<lambda>p. dget (snd p) key = Some r"] stored
    by (simp add: count_ok_def holders_def s')
  with cnt have held: "qr_quorum s \<le> int (length (holders s' key r))" by linarith
  have "quorate_ok s' ?acked"
    unfolding quorate_ok_def
  proof (intro conjI allI ballI impI)
    show "1 \<le> qr_quorum s'" using quorate_okD(1) [OF ok] by (simp add: s')
  next
    fix k p
    assume "p \<in> set (qr_replicas s')"
    then obtain p0 where "p0 \<in> set (qr_replicas s)" "p = snd (?put p0)" by (auto simp: s')
    with new show "table_behind (current_revision s' k) (?acked k) (dget (snd p) k)" by blast
  next
    fix k x
    assume x: "?acked k = Some x"
    show "rr_revision x = current_revision s' k"
      using x rrev quorate_okD(3) [OF ok, of k x] by (cases "k = key") (auto simp: cur)
    show "qr_quorum s' \<le> int (length (holders s' k x))"
      using x held quorate_okD(4) [OF ok, of k x] keep [of k x] by (cases "k = key") (simp_all add: s')
  next
    fix k
    assume "?acked k = None"
    then show "current_revision s' k = 0"
      using quorate_okD(5) [OF ok, of k] by (cases "k = key") (simp_all add: cur)
  qed
  then show ?thesis by (simp add: wr r)
qed

lemma quorate_start:
  assumes "new_replicator ts quorum retries backoff = Inr s" and "\<forall>p \<in> set ts. snd p = []"
  shows "quorate_ok s (\<lambda>_. None)"
proof -
  from assms(1) have s: "qr_replicas s = ts" "qr_revisions s = []" "1 \<le> qr_quorum s"
    by (auto simp: new_replicator_def Let_def split: if_splits option.splits)
  then show ?thesis
    using assms(2) by (simp add: quorate_ok_def table_behind_def current_revision_def dget_or_def)
qed

lemma quorate_read_ok:
  assumes ok: "quorate_ok s acked"
  shows "quorate_ok (snd (qr_read up s key)) acked"
proof -
  have "current_revision (snd (qr_read up s key)) k = current_revision s k" for k
  proof (cases "answers up s key")
    case (Cons b rs)
    have "first_max b rs \<in> set (answers up s key)" using first_max_in [of b rs] by (simp add: Cons)
    then obtain p where "p \<in> set (qr_replicas s)" "dget (snd p) key = Some (first_max b rs)"
      by (auto simp: answers_mem)
    with quorate_okD(2) [OF ok, of p key] have "rr_revision (first_max b rs) \<le> current_revision s key"
      by (simp add: table_behind_def)
    with Cons show ?thesis
      by (simp add: qr_read_def Let_def current_revision_def dict_simps)
  qed (simp add: qr_read_def)
  moreover have "qr_quorum (snd (qr_read up s key)) = qr_quorum s"
    by (simp add: qr_read_def Let_def split: list.split)
  ultimately show ?thesis
    using ok by (simp add: quorate_ok_def holders_def read_replicas)
qed

lemma quorate_invariant: "quorate H s acked \<Longrightarrow> quorate_ok s acked"
  by (induction rule: quorate.induct)
    (simp_all only: quorate_start quorate_write_ok quorate_read_ok)

section \<open>Properties\<close>

text \<open>C22. Quorum reads see the last write. Take a coordinator started on empty replicas in which every
  write so far was acknowledged, whatever attempts failed on the way. A read with fewer than
  \<open>quorum\<close> unreachable replicas returns the record of the last acknowledged write to the key,
  or nothing if that was a tombstone or there was none.\<close>

theorem quorum_read_sees_last_write:
  assumes "quorate H s acked"
    and "int (length (filter (\<lambda>p. \<not> up (fst p)) (qr_replicas s))) < qr_quorum s"
  shows "fst (qr_read up s key) =
    (case acked key of None \<Rightarrow> None | Some r \<Rightarrow> if rr_deleted r then None else Some r)"
  by (rule read_of_ok [OF quorate_invariant [OF assms(1)] assms(2)])

definition three_replicas :: "(string, table) dict" where
  "three_replicas = [(''r1'', []), (''r2'', []), (''r3'', [])]"

definition demo_payload :: "(string, json) dict" where
  "demo_payload = [(''v'', JInt 1)]"

definition demo_net :: "string \<Rightarrow> nat \<Rightarrow> put_outcome" where
  "demo_net name a = (if name = ''r2'' then Put_Lost else Put_Done)"

theorem quorum_read_sees_last_write_witness:
  "\<exists>s w s'. new_replicator three_replicas None 0 0 = Inr s
     \<and> qr_write (\<lambda>_. ''h'') demo_net s ''k'' demo_payload None False = (Inr w, s')
     \<and> fst (qr_read (\<lambda>n. n \<noteq> ''r1'') s' ''k'') =
         Some (make_record (\<lambda>_. ''h'') ''k'' 1 False demo_payload)"
proof -
  obtain s where s: "new_replicator three_replicas None 0 0 = Inr s"
    by (simp add: new_replicator_def three_replicas_def)
  then have st: "s = \<lparr>qr_replicas = three_replicas, qr_quorum = 2, qr_max_retries = 0, qr_revisions = []\<rparr>"
    by (simp add: new_replicator_def three_replicas_def)
  obtain w s' where w: "qr_write (\<lambda>_. ''h'') demo_net s ''k'' demo_payload None False = (Inr w, s')"
    "wr_revision w = 1" "qr_quorum s' = 2" "dkeys (qr_replicas s') = [''r1'', ''r2'', ''r3'']"
    by (simp add: st qr_write_def current_revision_def next_revision_def dget_or_def three_replicas_def
        put_one_def demo_net_def put_attempts.simps count_ok_def Let_def)
  have "quorate (\<lambda>_. ''h'') s (\<lambda>_. None)"
    by (rule quorate_new [OF s]) (simp_all add: three_replicas_def wf_dict_def)
  from quorate_write [OF this w(1)]
  have q: "quorate (\<lambda>_. ''h'') s' [''k'' \<mapsto> make_record (\<lambda>_. ''h'') ''k'' 1 False demo_payload]"
    by (simp add: w(2))
  have "length (filter (\<lambda>p. \<not> fst p \<noteq> ''r1'') (qr_replicas s')) = length (filter (\<lambda>n. n = ''r1'') (dkeys (qr_replicas s')))"
    by (simp add: filter_map o_def)
  then have "int (length (filter (\<lambda>p. \<not> fst p \<noteq> ''r1'') (qr_replicas s'))) < qr_quorum s'"
    by (simp add: w(3,4))
  from quorum_read_sees_last_write [OF q this, of "''k''"] s w(1) show ?thesis
    by (auto simp: make_record_def)
qed

section \<open>A write after a failed one\<close>

lemma put_one_dropped:
  assumes "put_one net k key r (n, t) = (q, n', t')"
  shows "dget t key = Some old \<Longrightarrow> rr_revision r \<le> rr_revision old \<Longrightarrow> t' = t"
    and "rp_ok q \<Longrightarrow> (case dget t key of None \<Rightarrow> True | Some old \<Rightarrow> rr_revision old < rr_revision r) \<Longrightarrow> dget t' key = Some r"
    and "net n 0 = Put_Done \<Longrightarrow> rp_ok q"
  using put_one_cases(3) [OF assms] assms
  by (auto simp: pg_put_def pg_put_same put_one_def put_attempts.simps [of _ _ _ 0] dict_simps split: option.splits prod.splits)

lemma first_max_top: "(\<And>r. r \<in> set rs \<Longrightarrow> rr_revision r \<le> rr_revision b) \<Longrightarrow> first_max b rs = b"
proof (induction rs)
  case (Cons r rs)
  then have "\<not> rr_revision b < rr_revision r" by (simp add: leD)
  with Cons show ?case by simp
qed simp

lemma read_first_top:
  assumes "qr_replicas s = (n, t) # rest" and "up n" and "dget t key = Some r"
    and "\<And>p x. p \<in> set rest \<Longrightarrow> dget (snd p) key = Some x \<Longrightarrow> rr_revision x \<le> rr_revision r"
  shows "fst (qr_read up s key) = (if rr_deleted r then None else Some r)"
proof -
  let ?rs = "answers up (s\<lparr>qr_replicas := rest\<rparr>) key"
  have a: "answers up s key = r # ?rs" using assms(1-3) by (simp add: answers_def pg_get_def)
  have rs: "\<exists>p \<in> set rest. dget (snd p) key = Some x" if "x \<in> set ?rs" for x
    using that by (auto simp: answers_mem)
  have "first_max r ?rs = r" by (rule first_max_top) (use rs assms(4) in blast)
  then show ?thesis by (simp add: qr_read_def a Let_def)
qed



definition triple_store :: replicator where
  "triple_store = \<lparr>qr_replicas = [(''r1'', []), (''r2'', []), (''r3'', [])], qr_quorum = 2, qr_max_retries = 0, qr_revisions = []\<rparr>"

definition one_answers :: "string \<Rightarrow> nat \<Rightarrow> put_outcome" where
  "one_answers n a = (if n = ''r1'' then Put_Done else Put_Lost)"


end
