(* ===== verification/Vllm_Router.thy ===== *)
theory Vllm_Router
  imports Py_Values
begin

text \<open>
  \<open>neural_pods/vllm_router.py\<close>: round-robin calls to model replicas with failover and accounting. The
  replicas' replies are an argument, by URL and attempt number: an answer, an error that the
  router catches, or an exception it does not (an undecodable body, \<open>http.client.HTTPException\<close>).
\<close>

section \<open>Replicas and metrics\<close>

record vllm_replica =
  vr_name :: string
  vr_base_url :: string

definition chat_url :: "vllm_replica \<Rightarrow> string" where
  "chat_url r = rstrip_char CHR ''/'' (vr_base_url r) @ ''/v1/chat/completions''"

definition completions_url :: "vllm_replica \<Rightarrow> string" where
  "completions_url r = rstrip_char CHR ''/'' (vr_base_url r) @ ''/v1/completions''"

definition health_url :: "vllm_replica \<Rightarrow> string" where
  "health_url r = rstrip_char CHR ''/'' (vr_base_url r) @ ''/health''"

record replica_counts =
  rc_requests :: nat
  rc_successes :: nat
  rc_failures :: nat

record router_metrics =
  rm_requests :: nat
  rm_successes :: nat
  rm_failures :: nat
  rm_failovers :: nat
  rm_per_replica :: "(string, replica_counts) dict"

record router =
  vl_replicas :: "vllm_replica list"
  vl_max_attempts :: int
  vl_cursor :: nat
  vl_metrics :: router_metrics

definition no_counts :: replica_counts where
  "no_counts = \<lparr>rc_requests = 0, rc_successes = 0, rc_failures = 0\<rparr>"

definition new_router :: "vllm_replica list \<Rightarrow> int option \<Rightarrow> router result" where
  "new_router replicas max_attempts =
     (if replicas = [] then Inl ValueError
      else (let m = (case max_attempts of None \<Rightarrow> int (length replicas)
                     | Some n \<Rightarrow> if n = 0 then int (length replicas) else n)
            in if m < 1 then Inl ValueError
               else Inr \<lparr>vl_replicas = replicas, vl_max_attempts = m, vl_cursor = 0,
                         vl_metrics = \<lparr>rm_requests = 0, rm_successes = 0, rm_failures = 0, rm_failovers = 0,
                           rm_per_replica = fold (\<lambda>r. dput (vr_name r) no_counts) replicas []\<rparr>\<rparr>))"

definition vl_ordered :: "router \<Rightarrow> vllm_replica list \<times> router" where
  "vl_ordered s =
     (let n = length (vl_replicas s); start = vl_cursor s
      in (map (\<lambda>i. vl_replicas s ! ((start + i) mod n)) [0..<n], s\<lparr>vl_cursor := (start + 1) mod n\<rparr>))"

definition bump_replica ::
    "(replica_counts \<Rightarrow> replica_counts) \<Rightarrow> vllm_replica \<Rightarrow> router_metrics \<Rightarrow> router_metrics" where
  "bump_replica f r m =
     m\<lparr>rm_per_replica := dput (vr_name r) (f (dget_or (rm_per_replica m) (vr_name r) no_counts))
         (rm_per_replica m)\<rparr>"

section \<open>Calls\<close>

datatype reply = Answer json | Caught | Uncaught py_error

datatype outcome = Answered json | All_Failed | Escaped py_error

fun vl_try ::
    "(nat \<Rightarrow> string \<Rightarrow> reply) \<Rightarrow> (vllm_replica \<Rightarrow> string) \<Rightarrow> nat \<Rightarrow> vllm_replica list \<Rightarrow> router_metrics
       \<Rightarrow> outcome \<times> router_metrics" where
  "vl_try net url a [] m = (All_Failed, m\<lparr>rm_failures := Suc (rm_failures m)\<rparr>)"
| "vl_try net url a (r # rs) m =
     (let m1 = bump_replica (\<lambda>c. c\<lparr>rc_requests := Suc (rc_requests c)\<rparr>) r m
      in case net a (url r) of
           Answer v \<Rightarrow>
             (Answered v,
              (bump_replica (\<lambda>c. c\<lparr>rc_successes := Suc (rc_successes c)\<rparr>) r m1)
                \<lparr>rm_successes := Suc (rm_successes m1),
                 rm_failovers := (if a = 0 then rm_failovers m1 else Suc (rm_failovers m1))\<rparr>)
         | Uncaught e \<Rightarrow> (Escaped e, m1)
         | Caught \<Rightarrow>
             vl_try net url (Suc a) rs
               (bump_replica (\<lambda>c. c\<lparr>rc_failures := Suc (rc_failures c)\<rparr>) r m1))"

definition vl_send ::
    "(nat \<Rightarrow> string \<Rightarrow> reply) \<Rightarrow> (vllm_replica \<Rightarrow> string) \<Rightarrow> router \<Rightarrow> outcome \<times> router" where
  "vl_send net url s =
     (let (rs, s1) = vl_ordered s;
          m = vl_metrics s1;
          (out, m') = vl_try net url 0 (take (nat (vl_max_attempts s)) rs)
                        (m\<lparr>rm_requests := Suc (rm_requests m)\<rparr>)
      in (out, s1\<lparr>vl_metrics := m'\<rparr>))"

definition vl_chat :: "(nat \<Rightarrow> string \<Rightarrow> reply) \<Rightarrow> router \<Rightarrow> outcome \<times> router" where
  "vl_chat net s = vl_send net chat_url s"

definition vl_completion :: "(nat \<Rightarrow> string \<Rightarrow> reply) \<Rightarrow> router \<Rightarrow> outcome \<times> router" where
  "vl_completion net s = vl_send net completions_url s"

text \<open>A health request answers with a status, fails with a caught error or raises something else.\<close>

fun vl_health :: "(string \<Rightarrow> int option result) \<Rightarrow> vllm_replica list \<Rightarrow> (string, bool) dict \<Rightarrow> (string, bool) dict result" where
  "vl_health net [] d = Inr d"
| "vl_health net (r # rs) d =
     (case net (health_url r) of
        Inl e \<Rightarrow> Inl e
      | Inr None \<Rightarrow> vl_health net rs (dput (vr_name r) False d)
      | Inr (Some status) \<Rightarrow> vl_health net rs (dput (vr_name r) (200 \<le> status \<and> status < 300) d))"

section \<open>Rotation\<close>

lemma ordered_rotate: "fst (vl_ordered s) = rotate (vl_cursor s) (vl_replicas s)"
  by (rule nth_equalityI) (simp_all add: vl_ordered_def Let_def nth_rotate add.commute)

lemma vl_send_frame:
  "vl_replicas (snd (vl_send net url s)) = vl_replicas s"
  "vl_max_attempts (snd (vl_send net url s)) = vl_max_attempts s"
  "vl_cursor (snd (vl_send net url s)) = (vl_cursor s + 1) mod length (vl_replicas s)"
  by (simp_all add: vl_send_def vl_ordered_def Let_def split: prod.split)

datatype call = Chat "nat \<Rightarrow> string \<Rightarrow> reply" | Completion "nat \<Rightarrow> string \<Rightarrow> reply"

fun vl_step :: "router \<Rightarrow> call \<Rightarrow> router" where
  "vl_step s (Chat net) = snd (vl_chat net s)"
| "vl_step s (Completion net) = snd (vl_completion net s)"

lemma vl_step_frame:
  "vl_replicas (vl_step s c) = vl_replicas s"
  "vl_max_attempts (vl_step s c) = vl_max_attempts s"
  "vl_cursor (vl_step s c) = (vl_cursor s + 1) mod length (vl_replicas s)"
  by (cases c; simp add: vl_chat_def vl_completion_def vl_send_frame)+

lemma vl_run_frame:
  "vl_replicas (run_steps vl_step s cs) = vl_replicas s
   \<and> vl_max_attempts (run_steps vl_step s cs) = vl_max_attempts s"
  by (induction cs arbitrary: s) (simp_all add: vl_step_frame)

lemma vl_run_cursor:
  "vl_cursor s < length (vl_replicas s) \<Longrightarrow>
   vl_cursor (run_steps vl_step s cs) = (vl_cursor s + length cs) mod length (vl_replicas s)"
proof (induction cs arbitrary: s)
  case (Cons c cs)
  let ?n = "length (vl_replicas s)"
  have "(vl_cursor s + 1) mod ?n < ?n" using Cons.prems by (intro mod_less_divisor) linarith
  then have "vl_cursor (run_steps vl_step (vl_step s c) cs) = ((vl_cursor s + 1) mod ?n + length cs) mod ?n"
    using Cons.IH [of "vl_step s c"] by (simp add: vl_step_frame)
  then show ?case by (simp add: mod_add_left_eq)
qed simp

text \<open>The outcome is decided by the first replica that does not fail with a caught error.\<close>

fun first_decisive :: "(nat \<Rightarrow> string \<Rightarrow> reply) \<Rightarrow> nat \<Rightarrow> string list \<Rightarrow> outcome" where
  "first_decisive net a [] = All_Failed"
| "first_decisive net a (u # us) =
     (case net a u of Answer v \<Rightarrow> Answered v | Uncaught e \<Rightarrow> Escaped e | Caught \<Rightarrow> first_decisive net (Suc a) us)"

lemma vl_try_outcome: "fst (vl_try net url a rs m) = first_decisive net a (map url rs)"
  by (induction rs arbitrary: a m) (simp_all add: Let_def split: reply.split)

lemma vl_send_outcome:
  "fst (vl_send net url s) =
     first_decisive net 0 (map url (take (nat (vl_max_attempts s)) (fst (vl_ordered s))))"
  by (simp add: vl_send_def Let_def case_prod_unfold vl_try_outcome)

section \<open>Counting\<close>

definition per_sum :: "(replica_counts \<Rightarrow> nat) \<Rightarrow> router_metrics \<Rightarrow> int" where
  "per_sum f m = sum_list (map ((\<lambda>c. int (f c)) \<circ> snd) (rm_per_replica m))"

lemma bump_frame [simp]:
  "rm_requests (bump_replica h r m) = rm_requests m"
  "rm_successes (bump_replica h r m) = rm_successes m"
  "rm_failures (bump_replica h r m) = rm_failures m"
  "rm_failovers (bump_replica h r m) = rm_failovers m"
  by (simp_all add: bump_replica_def)

lemma bump_wf: "wf_dict (rm_per_replica m) \<Longrightarrow> wf_dict (rm_per_replica (bump_replica h r m))"
  by (simp add: bump_replica_def)

lemma per_sum_bump:
  assumes "wf_dict (rm_per_replica m)" and "f no_counts = 0" and "\<And>c. int (f (h c)) = int (f c) + d"
  shows "per_sum f (bump_replica h r m) = per_sum f m + d"
  unfolding per_sum_def bump_replica_def
  using sum_list_update_keys [OF assms(1), of "\<lambda>c. int (f c)" "vr_name r"] assms(2,3)
  by (simp add: dget_or_def split: option.split)

text \<open>Outcomes, counted.\<close>

definition count_outcomes :: "(outcome \<Rightarrow> bool) \<Rightarrow> outcome list \<Rightarrow> nat" where
  "count_outcomes P os = length (filter P os)"

definition is_answered :: "outcome \<Rightarrow> bool" where
  "is_answered out = (case out of Answered _ \<Rightarrow> True | _ \<Rightarrow> False)"

definition is_escaped :: "outcome \<Rightarrow> bool" where
  "is_escaped out = (case out of Escaped _ \<Rightarrow> True | _ \<Rightarrow> False)"

text \<open>The counters agree with a list of outcomes.\<close>

definition counted :: "router_metrics \<Rightarrow> outcome list \<Rightarrow> bool" where
  "counted m os =
     (wf_dict (rm_per_replica m)
      \<and> rm_successes m = count_outcomes is_answered os
      \<and> rm_failures m = count_outcomes (\<lambda>out. out = All_Failed) os
      \<and> per_sum rc_successes m = int (rm_successes m)
      \<and> per_sum rc_requests m = per_sum rc_successes m + per_sum rc_failures m
          + int (count_outcomes is_escaped os)
      \<and> rm_failovers m \<le> rm_successes m)"

named_theorems tally "counting outcomes"

lemma tally_add [tally]:
  "count_outcomes is_answered (os @ [Answered v]) = Suc (count_outcomes is_answered os)"
  "count_outcomes is_answered (os @ [All_Failed]) = count_outcomes is_answered os"
  "count_outcomes is_answered (os @ [Escaped e]) = count_outcomes is_answered os"
  "count_outcomes is_escaped (os @ [Answered v]) = count_outcomes is_escaped os"
  "count_outcomes is_escaped (os @ [All_Failed]) = count_outcomes is_escaped os"
  "count_outcomes is_escaped (os @ [Escaped e]) = Suc (count_outcomes is_escaped os)"
  "count_outcomes (\<lambda>out. out = All_Failed) (os @ [Answered v]) = count_outcomes (\<lambda>out. out = All_Failed) os"
  "count_outcomes (\<lambda>out. out = All_Failed) (os @ [All_Failed]) = Suc (count_outcomes (\<lambda>out. out = All_Failed) os)"
  "count_outcomes (\<lambda>out. out = All_Failed) (os @ [Escaped e]) = count_outcomes (\<lambda>out. out = All_Failed) os"
  by (simp_all add: count_outcomes_def is_answered_def is_escaped_def)

abbreviation "one_request \<equiv> \<lambda>c :: replica_counts. c\<lparr>rc_requests := Suc (rc_requests c)\<rparr>"
abbreviation "one_success \<equiv> \<lambda>c :: replica_counts. c\<lparr>rc_successes := Suc (rc_successes c)\<rparr>"
abbreviation "one_failure \<equiv> \<lambda>c :: replica_counts. c\<lparr>rc_failures := Suc (rc_failures c)\<rparr>"

lemma per_sum_steps [tally]:
  assumes "wf_dict (rm_per_replica m)"
  shows "per_sum rc_requests (bump_replica one_request r m) = per_sum rc_requests m + 1"
    and "per_sum rc_requests (bump_replica one_success r m) = per_sum rc_requests m"
    and "per_sum rc_requests (bump_replica one_failure r m) = per_sum rc_requests m"
    and "per_sum rc_successes (bump_replica one_request r m) = per_sum rc_successes m"
    and "per_sum rc_successes (bump_replica one_success r m) = per_sum rc_successes m + 1"
    and "per_sum rc_successes (bump_replica one_failure r m) = per_sum rc_successes m"
    and "per_sum rc_failures (bump_replica one_request r m) = per_sum rc_failures m"
    and "per_sum rc_failures (bump_replica one_success r m) = per_sum rc_failures m"
    and "per_sum rc_failures (bump_replica one_failure r m) = per_sum rc_failures m + 1"
  using per_sum_bump [OF assms, where d = 0] per_sum_bump [OF assms, where d = 1]
  by (simp_all add: no_counts_def)

lemma per_sum_totals [tally]:
  "per_sum f (m\<lparr>rm_requests := a\<rparr>) = per_sum f m"
  "per_sum f (m\<lparr>rm_successes := a\<rparr>) = per_sum f m"
  "per_sum f (m\<lparr>rm_failures := a\<rparr>) = per_sum f m"
  "per_sum f (m\<lparr>rm_failovers := a\<rparr>) = per_sum f m"
  "per_sum f (m\<lparr>rm_successes := a, rm_failovers := b\<rparr>) = per_sum f m"
  by (simp_all add: per_sum_def)

lemma vl_try_counted:
  "vl_try net url a rs m = (out, m') \<Longrightarrow> counted m os \<Longrightarrow>
   counted m' (os @ [out]) \<and> rm_requests m' = rm_requests m"
proof (induction net url a rs m arbitrary: out m' rule: vl_try.induct)
  case (1 net url a m)
  then show ?case by (auto simp: counted_def tally)
next
  case (2 net url a r rs m)
  let ?m1 = "bump_replica one_request r m"
  show ?case
  proof (cases "net a (url r)")
    case (Answer v)
    with "2.prems" show ?thesis
      by (auto simp: counted_def tally bump_wf Let_def)
  next
    case Caught
    have "counted (bump_replica one_failure r ?m1) os"
      using "2.prems"(2) by (simp add: counted_def tally bump_wf)
    moreover have "vl_try net url (Suc a) rs (bump_replica one_failure r ?m1) = (out, m')"
      using "2.prems"(1) Caught by (simp add: Let_def)
    ultimately show ?thesis
      using "2.IH" [OF refl Caught] by simp
  next
    case (Uncaught e)
    with "2.prems" show ?thesis
      by (auto simp: counted_def tally bump_wf Let_def)
  qed
qed

section \<open>Runs\<close>

fun vl_call :: "router \<Rightarrow> call \<Rightarrow> outcome" where
  "vl_call s (Chat net) = fst (vl_chat net s)"
| "vl_call s (Completion net) = fst (vl_completion net s)"

fun vl_outcomes :: "router \<Rightarrow> call list \<Rightarrow> outcome list" where
  "vl_outcomes s [] = []"
| "vl_outcomes s (c # cs) = vl_call s c # vl_outcomes (vl_step s c) cs"

lemma vl_send_counted:
  assumes "vl_send net url s = (out, s')" and "counted (vl_metrics s) os"
  shows "counted (vl_metrics s') (os @ [out]) \<and> rm_requests (vl_metrics s') = Suc (rm_requests (vl_metrics s))"
proof -
  obtain rs s1 where o: "vl_ordered s = (rs, s1)" by fastforce
  then have m: "vl_metrics s1 = vl_metrics s" by (auto simp: vl_ordered_def Let_def)
  obtain r m' where t: "vl_try net url 0 (take (nat (vl_max_attempts s)) rs)
      ((vl_metrics s)\<lparr>rm_requests := Suc (rm_requests (vl_metrics s))\<rparr>) = (r, m')" by fastforce
  have "counted ((vl_metrics s)\<lparr>rm_requests := Suc (rm_requests (vl_metrics s))\<rparr>) os"
    using assms(2) by (simp add: counted_def tally)
  from vl_try_counted [OF t this] assms(1) o t m show ?thesis
    by (auto simp: vl_send_def)
qed

lemma vl_step_counted:
  assumes "counted (vl_metrics s) os"
  shows "counted (vl_metrics (vl_step s c)) (os @ [vl_call s c])
    \<and> rm_requests (vl_metrics (vl_step s c)) = Suc (rm_requests (vl_metrics s))"
proof (cases c)
  case (Chat net)
  have "vl_send net chat_url s = (vl_call s c, vl_step s c)" by (simp add: Chat vl_chat_def)
  from vl_send_counted [OF this assms] show ?thesis .
next
  case (Completion net)
  have "vl_send net completions_url s = (vl_call s c, vl_step s c)" by (simp add: Completion vl_completion_def)
  from vl_send_counted [OF this assms] show ?thesis .
qed

lemma vl_run_counted:
  "counted (vl_metrics s) os \<Longrightarrow>
   counted (vl_metrics (run_steps vl_step s cs)) (os @ vl_outcomes s cs)
   \<and> rm_requests (vl_metrics (run_steps vl_step s cs)) = rm_requests (vl_metrics s) + length cs"
proof (induction cs arbitrary: s os)
  case (Cons c cs)
  from vl_step_counted [OF Cons.prems, of c] Cons.IH [of "vl_step s c" "os @ [vl_call s c]"]
  show ?case by simp
qed simp

lemma new_router_counted:
  assumes "new_router replicas n = Inr s"
  shows "counted (vl_metrics s) []" and "vl_replicas s = replicas" and "replicas \<noteq> []"
    and "vl_cursor s = 0" and "rm_requests (vl_metrics s) = 0"
proof -
  define P where "P d = (wf_dict d \<and> (\<forall>p \<in> set d. snd p = no_counts))" for d :: "(string, replica_counts) dict"
  have put: "P d \<Longrightarrow> P (dput k no_counts d)" for k d
    by (auto simp: P_def dest!: dput_mem)
  have fill: "P d \<Longrightarrow> P (fold (\<lambda>r. dput (vr_name r) no_counts) rs d)" for rs d
    by (induction rs arbitrary: d) (simp_all add: put)
  have gen: "P (fold (\<lambda>r. dput (vr_name r) no_counts) replicas [])"
    by (rule fill) (simp add: P_def)
  have zero: "per_sum f m = 0" if "\<forall>p \<in> set (rm_per_replica m). snd p = no_counts" "f no_counts = 0" for f m
  proof -
    have "map ((\<lambda>c. int (f c)) \<circ> snd) (rm_per_replica m) = map (\<lambda>_. 0) (rm_per_replica m)"
      using that by simp
    then show ?thesis unfolding per_sum_def by (simp only: sum_list_0)
  qed
  from assms have m: "vl_metrics s = \<lparr>rm_requests = 0, rm_successes = 0, rm_failures = 0, rm_failovers = 0,
      rm_per_replica = fold (\<lambda>r. dput (vr_name r) no_counts) replicas []\<rparr>"
    by (auto simp: new_router_def Let_def split: if_splits option.splits)
  show "counted (vl_metrics s) []"
  proof -
    from gen have all: "wf_dict (rm_per_replica (vl_metrics s))"
      "\<forall>p \<in> set (rm_per_replica (vl_metrics s)). snd p = no_counts"
      by (simp_all add: m P_def)
    have "per_sum rc_requests (vl_metrics s) = 0" "per_sum rc_successes (vl_metrics s) = 0"
      "per_sum rc_failures (vl_metrics s) = 0"
      by (rule zero [OF all(2)], simp add: no_counts_def)+
    with all(1) show ?thesis unfolding counted_def count_outcomes_def by (simp add: m)
  qed
  show "vl_replicas s = replicas" "replicas \<noteq> []" "vl_cursor s = 0" "rm_requests (vl_metrics s) = 0"
    using assms by (auto simp: new_router_def Let_def split: if_splits option.splits)
qed

section \<open>Properties\<close>

text \<open>The router's accounts are exact. After any sequence of \<open>chat\<close> and \<open>completion\<close> calls on
  a fresh router, \<open>requests\<close> is the number of calls, \<open>successes\<close> and \<open>failures\<close> count the calls
  that were answered and that ran out of replicas; over all replicas the successes add up to the
  successes, and every attempt is a success, a failure or one of the calls that ended in an
  exception the router does not catch. Failovers never exceed successes.\<close>

theorem router_accounts_exact:
  assumes "new_router replicas n = Inr s" and "s' = run_steps vl_step s cs" and "os = vl_outcomes s cs"
  shows "rm_requests (vl_metrics s') = length cs
    \<and> rm_successes (vl_metrics s') = length (filter is_answered os)
    \<and> rm_failures (vl_metrics s') = length (filter (\<lambda>out. out = All_Failed) os)
    \<and> per_sum rc_successes (vl_metrics s') = int (rm_successes (vl_metrics s'))
    \<and> per_sum rc_requests (vl_metrics s') = per_sum rc_successes (vl_metrics s')
        + per_sum rc_failures (vl_metrics s') + int (length (filter is_escaped os))
    \<and> rm_failovers (vl_metrics s') \<le> rm_successes (vl_metrics s')"
  using vl_run_counted [OF new_router_counted(1) [OF assms(1)], of cs] new_router_counted(5) [OF assms(1)]
  by (simp add: counted_def count_outcomes_def assms(2,3))

definition two_replicas :: "vllm_replica list" where
  "two_replicas = [\<lparr>vr_name = ''a'', vr_base_url = ''http://a/''\<rparr>, \<lparr>vr_name = ''b'', vr_base_url = ''http://b''\<rparr>]"

definition a_is_down :: "nat \<Rightarrow> string \<Rightarrow> reply" where
  "a_is_down k u = (if starts_with ''http://a'' u then Caught else Answer (JInt 1))"

theorem router_accounts_exact_witness:
  "\<exists>s. new_router two_replicas None = Inr s
     \<and> rm_failovers (vl_metrics (run_steps vl_step s [Chat a_is_down, Completion a_is_down])) \<le> 2
     \<and> rm_successes (vl_metrics (run_steps vl_step s [Chat a_is_down, Completion a_is_down])) = 2"
proof -
  obtain s where s: "new_router two_replicas None = Inr s"
    by (simp add: new_router_def two_replicas_def)
  let ?cs = "[Chat a_is_down, Completion a_is_down]"
  have "rm_successes (vl_metrics (run_steps vl_step s ?cs)) = 2"
  proof -
    have "case new_router two_replicas None of Inl e \<Rightarrow> False
        | Inr s \<Rightarrow> rm_successes (vl_metrics (run_steps vl_step s ?cs)) = 2"
      by code_simp
    with s show ?thesis by simp
  qed
  with router_accounts_exact [OF s refl refl, of ?cs] s show ?thesis by simp
qed

text \<open>Round robin with failover. On the \<open>k\<close>-th call of a fresh router the replicas are tried in
  the order that starts at position \<open>k\<close> modulo their number and goes round, each at most once
  and no more than \<open>max_attempts\<close> of them; the call's outcome is the reply of the first one that
  does not fail with a caught error, and "all failed" if there is none.\<close>

theorem router_rotates_and_fails_over:
  assumes "new_router replicas n = Inr s" and "s' = run_steps vl_step s cs"
  shows "vl_call s' (Chat net) = first_decisive net 0
      (map chat_url (take (nat (vl_max_attempts s)) (rotate (length cs mod length replicas) replicas)))"
proof -
  have "vl_cursor s' = length cs mod length replicas"
    using vl_run_cursor [of s cs] new_router_counted(2-4) [OF assms(1)] by (simp add: assms(2))
  moreover have "vl_replicas s' = replicas" "vl_max_attempts s' = vl_max_attempts s"
    using vl_run_frame [of s cs] new_router_counted(2) [OF assms(1)] by (simp_all add: assms(2))
  moreover have "vl_call s' (Chat net) =
      first_decisive net 0 (map chat_url (take (nat (vl_max_attempts s')) (fst (vl_ordered s'))))"
    by (simp add: vl_chat_def vl_send_outcome)
  ultimately show ?thesis by (simp add: ordered_rotate)
qed

theorem router_rotates_and_fails_over_witness:
  "\<exists>s. new_router two_replicas None = Inr s
     \<and> vl_call (run_steps vl_step s [Completion a_is_down]) (Chat a_is_down) = Answered (JInt 1)"
proof -
  obtain s where s: "new_router two_replicas None = Inr s" "vl_max_attempts s = 2"
    by (simp add: new_router_def two_replicas_def)
  from router_rotates_and_fails_over [OF s(1) refl, of "[Completion a_is_down]" a_is_down] s
  show ?thesis
    by (simp add: two_replicas_def a_is_down_def starts_with_def chat_url_def rstrip_char_def)
qed

end
