(* ===== verification/Pod_Streams.thy ===== *)
theory Pod_Streams
  imports Py_Values "HOL-Library.Multiset" "HOL-Library.Product_Lexorder"
begin

text \<open>
  \<open>neural_pods/pod_streams.py\<close>: merging the results of branches, and the duplex session. Confidence
  and latency are finite floats, modelled as reals.
\<close>

section \<open>Branches\<close>

record branch =
  hb_branch_id :: string
  hb_pod_id :: string
  hb_generation :: string
  hb_evidence :: "string list"
  hb_answer :: "string option"
  hb_confidence :: real
  hb_latency_ms :: real
  hb_verified :: bool

definition make_branch :: "branch \<Rightarrow> branch result" where
  "make_branch b =
     (if hb_branch_id b = [] \<or> hb_pod_id b = [] \<or> hb_generation b = [] then Inl ValueError
      else if \<not> (0 \<le> hb_confidence b \<and> hb_confidence b \<le> 1) then Inl ValueError
      else if hb_latency_ms b < 0 then Inl ValueError
      else Inr b)"

record merged =
  mg_answer :: "string option"
  mg_evidence :: "string list"
  mg_source_branches :: "string list"
  mg_confidence :: real
  mg_merge_policy :: string

definition rank_key :: "branch \<Rightarrow> real \<times> real \<times> string" where
  "rank_key b = (- hb_confidence b, hb_latency_ms b, hb_branch_id b)"

text \<open>The inner loop over a branch's evidence, then the outer loop over the ranked branches.\<close>

fun collect_keys :: "int \<Rightarrow> string list \<Rightarrow> string list \<Rightarrow> string list" where
  "collect_keys m ev [] = ev"
| "collect_keys m ev (k # ks) =
     (let ev' = (if k \<in> set ev then ev else ev @ [k])
      in if int (length ev') \<ge> m then ev' else collect_keys m ev' ks)"

fun collect :: "int \<Rightarrow> string list \<Rightarrow> branch list \<Rightarrow> string list" where
  "collect m ev [] = ev"
| "collect m ev (b # bs) =
     (let ev' = collect_keys m ev (hb_evidence b)
      in if int (length ev') \<ge> m then ev' else collect m ev' bs)"

definition merge_branches :: "int \<Rightarrow> bool \<Rightarrow> branch list \<Rightarrow> merged result" where
  "merge_branches max_evidence require_verified items =
     (if items = [] then Inl InvalidState
      else (let usable = filter (\<lambda>b. hb_verified b \<or> \<not> require_verified) items
            in if usable = [] then Inl InvalidState
               else (let ranked = sort_key rank_key usable
                     in Inr \<lparr>mg_answer = hb_answer (hd ranked),
                             mg_evidence = collect max_evidence [] ranked,
                             mg_source_branches = map hb_branch_id ranked,
                             mg_confidence = sum_list (map hb_confidence ranked) / real (length ranked),
                             mg_merge_policy = ''verified_confidence_then_latency''\<rparr>)))"

section \<open>The duplex session\<close>

record pod_event =
  pe_event_type :: string
  pe_sequence :: nat
  pe_payload :: "(string, json) dict"

record session =
  ds_session_id :: string
  ds_capabilities :: "string list"
  ds_epoch :: int
  ds_turn_id :: int
  ds_sequence :: nat
  ds_events :: "pod_event list"
  ds_closed :: bool

definition new_session :: "string \<Rightarrow> string list \<Rightarrow> session result" where
  "new_session i caps =
     (if i = [] then Inl ValueError
      else Inr \<lparr>ds_session_id = i, ds_capabilities = remdups caps, ds_epoch = 0, ds_turn_id = 0,
                ds_sequence = 0, ds_events = [], ds_closed = False\<rparr>)"

text \<open>\<open>{"session_id": ..., "epoch": ..., **payload}\<close>: a keyword of the payload overrides.\<close>

definition event_payload :: "session \<Rightarrow> (string, json) dict \<Rightarrow> (string, json) dict" where
  "event_payload s kw =
     fold (\<lambda>(k, v). dput k v) kw [(''session_id'', JStr (ds_session_id s)), (''epoch'', JInt (ds_epoch s))]"

definition ds_emit :: "session \<Rightarrow> string \<Rightarrow> (string, json) dict \<Rightarrow> pod_event result \<times> session" where
  "ds_emit s ty kw =
     (if ds_closed s then (Inl InvalidState, s)
      else (let n = Suc (ds_sequence s);
                e = \<lparr>pe_event_type = ty, pe_sequence = n, pe_payload = event_payload s kw\<rparr>
            in (Inr e, s\<lparr>ds_sequence := n, ds_events := ds_events s @ [e]\<rparr>)))"

text \<open>Both counters move before \<open>emit\<close> finds the session closed.\<close>

definition ds_commit_turn :: "session \<Rightarrow> pod_event result \<times> session" where
  "ds_commit_turn s =
     (let s1 = s\<lparr>ds_turn_id := ds_turn_id s + 1\<rparr>
      in ds_emit s1 ''turn.commit'' [(''turn_id'', JInt (ds_turn_id s1))])"

definition ds_interrupt :: "session \<Rightarrow> string \<Rightarrow> pod_event result \<times> session" where
  "ds_interrupt s reason =
     ds_emit (s\<lparr>ds_epoch := ds_epoch s + 1\<rparr>) ''response.interrupted'' [(''reason'', JStr reason)]"

definition ds_resume :: "session \<Rightarrow> int \<Rightarrow> pod_event list result" where
  "ds_resume s n =
     (if n < 0 \<or> n > int (ds_sequence s) then Inl InvalidState else Inr (drop (nat n) (ds_events s)))"

definition ds_close :: "session \<Rightarrow> pod_event result \<times> session" where
  "ds_close s =
     (case ds_emit s ''session.closed'' [] of
        (Inl e, s') \<Rightarrow> (Inl e, s')
      | (Inr ev, s') \<Rightarrow> (Inr ev, s'\<lparr>ds_closed := True\<rparr>))"

section \<open>Ranking\<close>

lemma rank_key_inj:
  "distinct (map hb_branch_id bs) \<Longrightarrow> inj_on rank_key (set bs)"
  by (auto simp: rank_key_def inj_on_def distinct_map)

text \<open>With distinct keys a sorted list is determined by its elements.\<close>

lemma sort_key_mset:
  assumes "mset xs = mset ys" and "inj_on f (set xs)"
  shows "sort_key f xs = sort_key f ys"
proof (rule properties_for_sort_key [symmetric])
  show "mset (sort_key f xs) = mset ys" by (simp add: assms(1))
  show "sorted (map f (sort_key f xs))" by simp
  have set: "set (sort_key f xs) = set xs" by simp
  fix k
  assume "k \<in> set (sort_key f xs)"
  have "filter (\<lambda>x. f k = f x) zs = filter (\<lambda>x. k = x) zs" if "set zs = set xs" for zs
    using assms(2) that \<open>k \<in> set (sort_key f xs)\<close> by (auto simp: inj_on_def intro!: filter_cong)
  moreover have "set ys = set xs" using assms(1) by (metis set_mset_mset)
  moreover have "filter (\<lambda>x. k = x) zs = replicate (count (mset zs) k) k" for zs
    by (induction zs) auto
  ultimately show "filter (\<lambda>x. f k = f x) (sort_key f xs) = filter (\<lambda>x. f k = f x) ys"
    using assms(1) set by simp
qed

section \<open>Evidence\<close>

text \<open>The reference: the keys in order of first appearance, cut to length.\<close>

definition first_seen :: "string list \<Rightarrow> string list" where
  "first_seen ks = fold (\<lambda>k ev. if k \<in> set ev then ev else ev @ [k]) ks []"

abbreviation add_key :: "string \<Rightarrow> string list \<Rightarrow> string list" where
  "add_key k ev \<equiv> (if k \<in> set ev then ev else ev @ [k])"

lemma fold_add_prefix: "\<exists>zs. fold add_key ks ev = ev @ zs"
proof (induction ks arbitrary: ev)
  case (Cons k ks)
  from Cons [of "add_key k ev"] show ?case by auto
qed simp

lemma collect_keys_take:
  assumes "int (length ev) < m"
  shows "collect_keys m ev ks = take (nat m) (fold add_key ks ev)"
  using assms
proof (induction ks arbitrary: ev)
  case (Cons k ks)
  let ?ev = "add_key k ev"
  obtain zs where zs: "fold add_key ks ?ev = ?ev @ zs" using fold_add_prefix by blast
  show ?case
  proof (cases "int (length ?ev) \<ge> m")
    case True
    moreover have "int (length ?ev) \<le> m" using Cons.prems by simp
    ultimately have "nat m = length ?ev" by simp
    with True zs show ?thesis by (simp add: Let_def)
  next
    case False
    with Cons.IH [of ?ev] show ?thesis by (simp add: Let_def)
  qed
qed simp

lemma collect_take:
  assumes "int (length ev) < m"
  shows "collect m ev bs = take (nat m) (fold add_key (concat (map hb_evidence bs)) ev)"
  using assms
proof (induction bs arbitrary: ev)
  case (Cons b bs)
  let ?full = "fold add_key (hb_evidence b) ev"
  obtain zs where zs: "fold add_key (concat (map hb_evidence bs)) ?full = ?full @ zs"
    using fold_add_prefix by blast
  note one = collect_keys_take [OF Cons.prems, of "hb_evidence b"]
  show ?case
  proof (cases "int (length ?full) < m")
    case True
    with one have "collect_keys m ev (hb_evidence b) = ?full" by simp
    with True Cons.IH [OF True] show ?thesis by (simp add: Let_def)
  next
    case False
    with one zs show ?thesis by (simp add: Let_def)
  qed
qed simp

lemma first_seen_facts:
  "distinct ev \<Longrightarrow> distinct (fold add_key ks ev) \<and> set (fold add_key ks ev) = set ev \<union> set ks"
  by (induction ks arbitrary: ev) auto

section \<open>The session's invariant\<close>

datatype ds_op = Emit string "(string, json) dict" | Commit_Turn | Interrupt string | Close

fun ds_step :: "session \<Rightarrow> ds_op \<Rightarrow> session" where
  "ds_step s (Emit ty kw) = snd (ds_emit s ty kw)"
| "ds_step s Commit_Turn = snd (ds_commit_turn s)"
| "ds_step s (Interrupt reason) = snd (ds_interrupt s reason)"
| "ds_step s Close = snd (ds_close s)"

definition numbered :: "session \<Rightarrow> bool" where
  "numbered s = (map pe_sequence (ds_events s) = [1..<Suc (ds_sequence s)])"

lemma emit_numbered: "numbered s \<Longrightarrow> numbered (snd (ds_emit s ty kw))"
  by (auto simp: numbered_def ds_emit_def Let_def)

lemma numbered_cong:
  "ds_events s' = ds_events s \<Longrightarrow> ds_sequence s' = ds_sequence s \<Longrightarrow> numbered s' = numbered s"
  by (simp add: numbered_def)

lemma close_state:
  "ds_events (snd (ds_close s)) = ds_events (snd (ds_emit s ''session.closed'' []))"
  "ds_sequence (snd (ds_close s)) = ds_sequence (snd (ds_emit s ''session.closed'' []))"
  by (simp_all add: ds_close_def split: prod.split sum.split)

interpretation ds_machine: kept_invariant ds_step numbered
proof unfold_locales
  fix s op
  assume n: "numbered s"
  have up: "numbered (s\<lparr>ds_turn_id := t\<rparr>)" "numbered (s\<lparr>ds_epoch := t\<rparr>)" for t
    using n numbered_cong [of "s\<lparr>ds_turn_id := t\<rparr>" s] numbered_cong [of "s\<lparr>ds_epoch := t\<rparr>" s] by simp_all
  show "numbered (ds_step s op)"
    using n up numbered_cong [OF close_state]
    by (cases op) (simp_all add: ds_commit_turn_def ds_interrupt_def emit_numbered)
qed

text \<open>Events are only appended, and not at all once the session is closed.\<close>

lemma ds_step_appends:
  "\<exists>es. ds_events (ds_step s op) = ds_events s @ es \<and> (ds_closed s \<longrightarrow> es = [] \<and> ds_closed (ds_step s op))"
  by (cases op)
    (auto simp: ds_commit_turn_def ds_interrupt_def ds_close_def ds_emit_def Let_def split: prod.split)

lemma ds_run_appends:
  "\<exists>es. ds_events (run_steps ds_step s ops) = ds_events s @ es \<and> (ds_closed s \<longrightarrow> es = [])"
proof (induction ops arbitrary: s)
  case (Cons op ops)
  obtain es where es: "ds_events (ds_step s op) = ds_events s @ es"
    "ds_closed s \<longrightarrow> es = [] \<and> ds_closed (ds_step s op)" using ds_step_appends by blast
  obtain fs where fs: "ds_events (run_steps ds_step (ds_step s op) ops) = ds_events (ds_step s op) @ fs"
    "ds_closed (ds_step s op) \<longrightarrow> fs = []" using Cons by blast
  from es fs show ?case by auto
qed simp

section \<open>Properties\<close>

text \<open>\<open>merge_branches\<close> does not depend on the order in which the branches arrive: for any two
  orders of the same branches with different ids the results are equal. A merge that succeeds
  answers with a usable branch of highest confidence, and its evidence is the evidence of the
  ranked branches in order of first appearance, without repetition, cut to \<open>max_evidence\<close>.\<close>

theorem merge_is_order_independent:
  assumes "mset xs = mset ys" and "distinct (map hb_branch_id xs)"
    and "1 \<le> m" and "merge_branches m v xs = Inr r"
  shows "merge_branches m v ys = Inr r
    \<and> (\<exists>b \<in> set xs. (hb_verified b \<or> \<not> v) \<and> mg_answer r = hb_answer b
          \<and> (\<forall>c \<in> set xs. hb_verified c \<or> \<not> v \<longrightarrow> hb_confidence c \<le> hb_confidence b))
    \<and> mg_evidence r = take (nat m) (first_seen (concat (map hb_evidence
          (sort_key rank_key (filter (\<lambda>b. hb_verified b \<or> \<not> v) xs)))))
    \<and> distinct (mg_evidence r)"
proof -
  let ?use = "\<lambda>b. hb_verified b \<or> \<not> v"
  let ?ranked = "sort_key rank_key (filter ?use xs)"
  have inj: "inj_on rank_key (set (filter ?use xs))"
    using rank_key_inj [OF assms(2)] by (auto intro: inj_on_subset)
  have "mset (filter ?use xs) = mset (filter ?use ys)" using assms(1) by (metis mset_filter)
  from sort_key_mset [OF this inj] have same: "sort_key rank_key (filter ?use ys) = ?ranked" by simp
  have "xs = [] \<longleftrightarrow> ys = []" using assms(1) by (metis mset_zero_iff)
  moreover have "filter ?use xs = [] \<longleftrightarrow> filter ?use ys = []"
    using \<open>mset (filter ?use xs) = mset (filter ?use ys)\<close> by (metis mset_zero_iff)
  ultimately have eq: "merge_branches m v ys = Inr r"
    using assms(4) same by (simp add: merge_branches_def Let_def split: if_splits)
  from assms(4) have ne: "filter ?use xs \<noteq> []"
    and r: "mg_answer r = hb_answer (hd ?ranked)" "mg_evidence r = collect m [] ?ranked"
    by (auto simp: merge_branches_def Let_def split: if_splits)
  have members: "set ?ranked = set (filter ?use xs)" by simp
  obtain b bs where ranked: "?ranked = b # bs"
    using ne members by (cases ?ranked) (metis empty_set set_empty2, blast)
  then have "b \<in> set (filter ?use xs)" unfolding members [symmetric] by simp
  then have b: "b \<in> set xs" "?use b" by simp_all
  have "\<forall>c \<in> set (filter ?use xs). rank_key b \<le> rank_key c"
  proof
    fix c assume "c \<in> set (filter ?use xs)"
    then have "c \<in> set (b # bs)" using ranked by (metis set_sort)
    moreover have "sorted (map rank_key (b # bs))" using ranked by (metis sorted_sort_key)
    ultimately show "rank_key b \<le> rank_key c" by auto
  qed
  then have top: "\<forall>c \<in> set xs. ?use c \<longrightarrow> hb_confidence c \<le> hb_confidence b"
    by (auto simp: rank_key_def less_eq_prod_def)
  have ev: "mg_evidence r = take (nat m) (first_seen (concat (map hb_evidence ?ranked)))"
    using assms(3) by (simp add: r(2) collect_take first_seen_def)
  have "distinct (first_seen (concat (map hb_evidence ?ranked)))"
    using first_seen_facts [of "[]"] by (simp add: first_seen_def)
  with ev have d: "distinct (mg_evidence r)" by simp
  have "mg_answer r = hb_answer b" using r(1) ranked by simp
  with eq b top ev d show ?thesis by blast
qed

definition sample_branch :: "string \<Rightarrow> real \<Rightarrow> string list \<Rightarrow> branch" where
  "sample_branch i c ev = \<lparr>hb_branch_id = i, hb_pod_id = ''p'', hb_generation = ''g'', hb_evidence = ev,
     hb_answer = Some i, hb_confidence = c, hb_latency_ms = 1, hb_verified = True\<rparr>"

theorem merge_is_order_independent_witness:
  "merge_branches 2 True [sample_branch ''a'' (1 / 2) [''k1'', ''k2''], sample_branch ''b'' 1 [''k2'', ''k3'']]
   = merge_branches 2 True [sample_branch ''b'' 1 [''k2'', ''k3''], sample_branch ''a'' (1 / 2) [''k1'', ''k2'']]"
proof -
  let ?a = "sample_branch ''a'' (1 / 2) [''k1'', ''k2'']" and ?b = "sample_branch ''b'' 1 [''k2'', ''k3'']"
  obtain r where r: "merge_branches 2 True [?a, ?b] = Inr r"
    by (simp add: merge_branches_def sample_branch_def Let_def)
  have "mset [?a, ?b] = mset [?b, ?a]" "distinct (map hb_branch_id [?a, ?b])"
    by (simp_all add: sample_branch_def)
  from merge_is_order_independent [OF this _ r] r show ?thesis by simp
qed

text \<open>C24. A client of a duplex session that remembers the last sequence number it has seen misses
  nothing and sees nothing twice: after any operations the events carry the numbers \<open>1, 2, ...\<close> in
  order, resuming from \<open>n\<close> returns exactly those numbered above \<open>n\<close>, and what was emitted before
  stays; once the session is closed no operation adds an event.\<close>

theorem resume_continues_exactly:
  assumes "new_session i caps = Inr s" and "s1 = run_steps ds_step s ops" and "s2 = run_steps ds_step s1 ops'"
    and "n \<le> ds_sequence s1"
  shows "ds_resume s2 (int n) = Inr (drop n (ds_events s1) @ drop (ds_sequence s1) (ds_events s2))
    \<and> (\<forall>e \<in> set (drop n (ds_events s2)). n < pe_sequence e)
    \<and> map pe_sequence (ds_events s2) = [1..<Suc (ds_sequence s2)]
    \<and> (ds_closed s1 \<longrightarrow> ds_events s2 = ds_events s1)"
proof -
  have "numbered s" using assms(1) by (auto simp: new_session_def numbered_def split: if_splits)
  then have n1: "numbered s1" unfolding assms(2) by (rule ds_machine.run_invar)
  then have n2: "numbered s2" unfolding assms(3) by (rule ds_machine.run_invar)
  from n1 have l1: "length (ds_events s1) = ds_sequence s1"
    by (metis numbered_def length_map length_upt diff_Suc_1)
  from n2 have l2: "length (ds_events s2) = ds_sequence s2"
    by (metis numbered_def length_map length_upt diff_Suc_1)
  obtain es where es: "ds_events s2 = ds_events s1 @ es" "ds_closed s1 \<longrightarrow> es = []"
    using ds_run_appends [of s1 ops'] unfolding assms(3) by blast
  have "ds_resume s2 (int n) = Inr (drop n (ds_events s2))"
    using assms(4) es(1) l1 l2 by (simp add: ds_resume_def)
  moreover have "drop n (ds_events s2) = drop n (ds_events s1) @ drop (ds_sequence s1) (ds_events s2)"
    using es(1) l1 assms(4) by simp
  moreover have "\<forall>e \<in> set (drop n (ds_events s2)). n < pe_sequence e"
  proof
    fix e assume "e \<in> set (drop n (ds_events s2))"
    then have "pe_sequence e \<in> set (drop n (map pe_sequence (ds_events s2)))"
      by (simp add: drop_map)
    then show "n < pe_sequence e"
      using n2 by (simp add: numbered_def drop_upt del: upt_Suc)
  qed
  ultimately show ?thesis using n2 es by (simp add: numbered_def)
qed

theorem resume_continues_exactly_witness:
  "\<exists>s s1 s2. new_session ''s'' [] = Inr s \<and> s1 = run_steps ds_step s [Commit_Turn]
     \<and> s2 = run_steps ds_step s1 [Interrupt ''barge_in'', Close] \<and> length (ds_events s2) = 3
     \<and> ds_resume s2 1 = Inr (drop 1 (ds_events s1) @ drop (ds_sequence s1) (ds_events s2))"
proof -
  obtain s where s: "new_session ''s'' [] = Inr s" by (simp add: new_session_def)
  let ?s1 = "run_steps ds_step s [Commit_Turn]"
  let ?s2 = "run_steps ds_step ?s1 [Interrupt ''barge_in'', Close]"
  have "case new_session ''s'' [] of Inl e \<Rightarrow> False | Inr s \<Rightarrow>
      length (ds_events (run_steps ds_step (run_steps ds_step s [Commit_Turn]) [Interrupt ''barge_in'', Close])) = 3
      \<and> 1 \<le> ds_sequence (run_steps ds_step s [Commit_Turn])"
    by code_simp
  then have len: "length (ds_events ?s2) = 3" "1 \<le> ds_sequence ?s1" by (simp_all add: s)
  from resume_continues_exactly [OF s refl refl len(2), of "[Interrupt ''barge_in'', Close]"]
  have "ds_resume ?s2 1 = Inr (drop 1 (ds_events ?s1) @ drop (ds_sequence ?s1) (ds_events ?s2))"
    unfolding of_nat_1 by (elim conjE)
  with s len(1) show ?thesis by blast
qed

end
