(* ===== verification/Mesh_Cache.thy ===== *)
theory Mesh_Cache
  imports Mesh
begin

text \<open>
  \<open>neural_pods/mesh_cache.py\<close>: results shared between the nodes of the mesh through one Redis, with keys
  scoped to a namespace and a principal. Redis is outside: an operation yields the commands it
  issues, and the reply to a GET is an argument. \<open>H\<close> is the digest of the JSON triple,
  \<open>dumps\<close> and \<open>loads\<close> are the JSON encoder and decoder.
\<close>

section \<open>State\<close>

datatype redis_cmd = RSet string string int | RDel string

datatype raw_reply = Raw_Missing | Raw_Undecodable | Raw_Text string

record mcache =
  mc_pod_id :: string
  mc_principal :: string
  mc_allowed :: "string list"
  mc_namespace :: string
  mc_ttl_s :: int
  mc_mesh :: "endpoint option"
  mc_hits :: nat
  mc_misses :: nat
  mc_writes :: nat
  mc_decode_errors :: nat
  mc_refusals :: nat
  mc_sent :: nat
  mc_received :: nat

definition new_mcache :: "string \<Rightarrow> string \<Rightarrow> string \<Rightarrow> int \<Rightarrow> endpoint option \<Rightarrow> string list \<Rightarrow> mcache" where
  "new_mcache pod who ns ttl mesh allowed =
     \<lparr>mc_pod_id = pod, mc_principal = who, mc_allowed = remdups (who # allowed), mc_namespace = ns,
      mc_ttl_s = ttl, mc_mesh = mesh, mc_hits = 0, mc_misses = 0, mc_writes = 0, mc_decode_errors = 0,
      mc_refusals = 0, mc_sent = 0, mc_received = 0\<rparr>"

definition INVALIDATION_TOPIC :: string where
  "INVALIDATION_TOPIC = ''np/cache/invalidate''"

text \<open>\<open>principal or self.principal\<close>, then the check.\<close>

definition named_principal :: "mcache \<Rightarrow> string option \<Rightarrow> string" where
  "named_principal c p = (case p of None \<Rightarrow> mc_principal c | Some w \<Rightarrow> if w = [] then mc_principal c else w)"

definition mc_authorise :: "mcache \<Rightarrow> string option \<Rightarrow> string result \<times> mcache" where
  "mc_authorise c p =
     (let who = named_principal c p
      in if who \<notin> set (mc_allowed c) then (Inl PermissionError, c\<lparr>mc_refusals := Suc (mc_refusals c)\<rparr>)
         else (Inr who, c))"

definition mc_key :: "(json \<Rightarrow> string) \<Rightarrow> string \<Rightarrow> string \<Rightarrow> string \<Rightarrow> string" where
  "mc_key H ns query who =
     ''np:'' @ ns @ '':'' @ who @ '':'' @ H (JList [JStr ns, JStr who, JStr query])"

definition entry :: "json \<Rightarrow> string \<Rightarrow> json" where
  "entry v writer = JObj [(''value'', v), (''writer'', JStr writer)]"

section \<open>Operations\<close>

definition mc_put ::
    "(json \<Rightarrow> string) \<Rightarrow> (json \<Rightarrow> string) \<Rightarrow> mcache \<Rightarrow> string \<Rightarrow> json \<Rightarrow> string option
       \<Rightarrow> unit result \<times> redis_cmd list \<times> mcache" where
  "mc_put H dumps c query v p =
     (case mc_authorise c p of
        (Inl e, c') \<Rightarrow> (Inl e, [], c')
      | (Inr who, c') \<Rightarrow>
          (Inr (), [RSet (mc_key H (mc_namespace c) query who) (dumps (entry v (mc_pod_id c))) (mc_ttl_s c)],
           c'\<lparr>mc_writes := Suc (mc_writes c')\<rparr>))"

text \<open>\<open>json.loads(raw)["value"]\<close>: every exception it can raise is caught and counted.\<close>

definition stored_value :: "(string \<Rightarrow> json option) \<Rightarrow> raw_reply \<Rightarrow> json option" where
  "stored_value loads raw =
     (case raw of
        Raw_Text s \<Rightarrow> (case loads s of Some (JObj d) \<Rightarrow> dget d ''value'' | _ \<Rightarrow> None)
      | _ \<Rightarrow> None)"

text \<open>The reply \<open>raw\<close> is that of the GET of \<open>mc_key\<close> for the query.\<close>

definition mc_get ::
    "(string \<Rightarrow> json option) \<Rightarrow> mcache \<Rightarrow> string option \<Rightarrow> raw_reply \<Rightarrow> json result \<times> mcache" where
  "mc_get loads c p raw =
     (case mc_authorise c p of
        (Inl e, c') \<Rightarrow> (Inl e, c')
      | (Inr who, c') \<Rightarrow>
          if raw = Raw_Missing then (Inr JNull, c'\<lparr>mc_misses := Suc (mc_misses c')\<rparr>)
          else (case stored_value loads raw of
              None \<Rightarrow> (Inr JNull, c'\<lparr>mc_decode_errors := Suc (mc_decode_errors c')\<rparr>)
            | Some v \<Rightarrow> (Inr v, c'\<lparr>mc_hits := Suc (mc_hits c')\<rparr>)))"

definition invalidation_body :: "mcache \<Rightarrow> string \<Rightarrow> string \<Rightarrow> json" where
  "invalidation_body c who query =
     JObj [(''namespace'', JStr (mc_namespace c)), (''principal'', JStr who), (''query_key'', JStr query),
           (''by'', JStr (mc_pod_id c))]"

definition mc_invalidate ::
    "(json \<Rightarrow> string) \<Rightarrow> mac \<Rightarrow> (nat \<Rightarrow> int) \<Rightarrow> real \<Rightarrow> mcache \<Rightarrow> string \<Rightarrow> string option
       \<Rightarrow> unit result \<times> redis_cmd list \<times> wire \<times> mcache" where
  "mc_invalidate H mac rc now c query p =
     (case mc_authorise c p of
        (Inl e, c') \<Rightarrow> (Inl e, [], [], c')
      | (Inr who, c') \<Rightarrow>
          (let del = [RDel (mc_key H (mc_namespace c) query who)]
           in case mc_mesh c of
                None \<Rightarrow> (Inr (), del, [], c')
              | Some ep \<Rightarrow>
                  (let (ep', w) = mesh_publish_raw mac rc now ep INVALIDATION_TOPIC
                                    (invalidation_body c who query) False
                   in (Inr (), del, w, c'\<lparr>mc_mesh := Some ep', mc_sent := Suc (mc_sent c')\<rparr>))))"

definition mc_subscribe :: "mcache \<Rightarrow> nat \<Rightarrow> unit result \<times> mcache" where
  "mc_subscribe c handler =
     (case mc_mesh c of
        None \<Rightarrow> (Inl RuntimeError, c)
      | Some ep \<Rightarrow>
          (let (r, ep') = mesh_subscribe ep INVALIDATION_TOPIC handler in (r, c\<lparr>mc_mesh := Some ep'\<rparr>)))"

text \<open>The subscribed handler; the second component is what \<open>on_drop\<close> is called with.\<close>

definition mc_handler :: "mcache \<Rightarrow> envelope \<Rightarrow> json option result \<times> mcache" where
  "mc_handler c env =
     (let body = (if truthy (jget env ''body'') then jget env ''body'' else JObj [])
      in case body of
           JObj d \<Rightarrow>
             if jget d ''namespace'' \<noteq> JStr (mc_namespace c) \<or> jget d ''by'' = JStr (mc_pod_id c)
             then (Inr None, c)
             else (Inr (Some body), c\<lparr>mc_received := Suc (mc_received c)\<rparr>)
         | _ \<Rightarrow> (Inl (OtherError ''AttributeError''), c))"

record mcache_stats =
  ms_hits :: nat
  ms_misses :: nat
  ms_writes :: nat
  ms_decode_errors :: nat
  ms_allowed :: "string list"
  ms_refusals :: nat
  ms_mesh_bound :: bool
  ms_sent :: nat
  ms_received :: nat

definition mc_stats :: "mcache \<Rightarrow> mcache_stats" where
  "mc_stats c =
     \<lparr>ms_hits = mc_hits c, ms_misses = mc_misses c, ms_writes = mc_writes c,
      ms_decode_errors = mc_decode_errors c, ms_allowed = sort (mc_allowed c),
      ms_refusals = mc_refusals c, ms_mesh_bound = (mc_mesh c \<noteq> None), ms_sent = mc_sent c,
      ms_received = mc_received c\<rparr>"

section \<open>Several nodes on one Redis\<close>

text \<open>What a SET left at a key; a reply to GET is that, or nothing once the entry expired.\<close>

fun redis_apply :: "(string \<Rightarrow> string option) \<Rightarrow> redis_cmd \<Rightarrow> string \<Rightarrow> string option" where
  "redis_apply m (RSet k v ttl) = m(k \<mapsto> v)"
| "redis_apply m (RDel k) = m(k := None)"

definition redis_reply :: "(string \<Rightarrow> string option) \<Rightarrow> string \<Rightarrow> raw_reply \<Rightarrow> bool" where
  "redis_reply m k raw = (raw = Raw_Missing \<or> (\<exists>v. m k = Some v \<and> raw = Raw_Text v))"

record mc_world =
  mw_nodes :: "mcache list"
  mw_store :: "string \<Rightarrow> string option"

datatype mc_op =
    MC_Put nat string json "string option"
  | MC_Get nat string "string option" raw_reply
  | MC_Invalidate nat string "string option" real

definition node_cmds :: "mc_world \<Rightarrow> nat \<Rightarrow> redis_cmd list \<Rightarrow> mcache \<Rightarrow> mc_world" where
  "node_cmds w i cmds c = \<lparr>mw_nodes = (mw_nodes w)[i := c], mw_store = foldl redis_apply (mw_store w) cmds\<rparr>"

fun mw_step ::
    "(json \<Rightarrow> string) \<Rightarrow> (json \<Rightarrow> string) \<Rightarrow> (string \<Rightarrow> json option) \<Rightarrow> mac \<Rightarrow> (nat \<Rightarrow> int)
       \<Rightarrow> mc_world \<Rightarrow> mc_op \<Rightarrow> mc_world" where
  "mw_step H dumps loads mac rc w (MC_Put i q v p) =
     (if i < length (mw_nodes w)
      then (let (_, cmds, c) = mc_put H dumps (mw_nodes w ! i) q v p in node_cmds w i cmds c) else w)"
| "mw_step H dumps loads mac rc w (MC_Get i q p raw) =
     (if i < length (mw_nodes w)
      then node_cmds w i [] (snd (mc_get loads (mw_nodes w ! i) p raw)) else w)"
| "mw_step H dumps loads mac rc w (MC_Invalidate i q p now) =
     (if i < length (mw_nodes w)
      then (let (_, cmds, _, c) = mc_invalidate H mac rc now (mw_nodes w ! i) q p in node_cmds w i cmds c)
      else w)"

section \<open>The abstract cache: a map from namespace, principal and query\<close>

type_synonym triple = "string \<times> string \<times> string"

fun op_triple :: "mcache list \<Rightarrow> mc_op \<Rightarrow> triple option" where
  "op_triple nodes (MC_Put i q v p) =
     (if i < length nodes \<and> named_principal (nodes ! i) p \<in> set (mc_allowed (nodes ! i))
      then Some (mc_namespace (nodes ! i), named_principal (nodes ! i) p, q) else None)"
| "op_triple nodes (MC_Get i q p raw) = None"
| "op_triple nodes (MC_Invalidate i q p now) =
     (if i < length nodes \<and> named_principal (nodes ! i) p \<in> set (mc_allowed (nodes ! i))
      then Some (mc_namespace (nodes ! i), named_principal (nodes ! i) p, q) else None)"

definition map_step :: "mcache list \<Rightarrow> (triple \<Rightarrow> (json \<times> string) option) \<Rightarrow> mc_op \<Rightarrow> triple \<Rightarrow> (json \<times> string) option" where
  "map_step nodes m op =
     (case op_triple nodes op of
        None \<Rightarrow> m
      | Some t \<Rightarrow>
          (case op of
             MC_Put i q v p \<Rightarrow> m(t \<mapsto> (v, mc_pod_id (nodes ! i)))
           | _ \<Rightarrow> m(t := None)))"

definition triple_key :: "(json \<Rightarrow> string) \<Rightarrow> triple \<Rightarrow> string" where
  "triple_key H t = (case t of (ns, who, q) \<Rightarrow> mc_key H ns q who)"

text \<open>No two of the keys in use have the same digest.\<close>

definition collision_free :: "(json \<Rightarrow> string) \<Rightarrow> triple set \<Rightarrow> bool" where
  "collision_free H T = inj_on (triple_key H) T"

text \<open>The fields of a node that no operation changes.\<close>

definition same_config :: "mcache \<Rightarrow> mcache \<Rightarrow> bool" where
  "same_config c d =
     (mc_namespace c = mc_namespace d \<and> mc_principal c = mc_principal d \<and> mc_allowed c = mc_allowed d
      \<and> mc_pod_id c = mc_pod_id d)"

definition map_sim ::
    "(json \<Rightarrow> string) \<Rightarrow> (json \<Rightarrow> string) \<Rightarrow> triple set \<Rightarrow> mcache list
       \<Rightarrow> (triple \<Rightarrow> (json \<times> string) option) \<Rightarrow> mc_world \<Rightarrow> bool" where
  "map_sim H dumps T nodes m w =
     (length (mw_nodes w) = length nodes \<and> (\<forall>i < length nodes. same_config (mw_nodes w ! i) (nodes ! i))
      \<and> (\<forall>t \<in> T. mw_store w (triple_key H t) = map_option (\<lambda>(v, writer). dumps (entry v writer)) (m t)))"

lemma authorise_cases:
  obtains (refused) "named_principal c p \<notin> set (mc_allowed c)"
      "mc_authorise c p = (Inl PermissionError, c\<lparr>mc_refusals := Suc (mc_refusals c)\<rparr>)"
  | (granted) "named_principal c p \<in> set (mc_allowed c)" "mc_authorise c p = (Inr (named_principal c p), c)"
  by (cases "named_principal c p \<in> set (mc_allowed c)") (auto simp: mc_authorise_def Let_def)

lemma named_principal_config: "same_config c d \<Longrightarrow> named_principal c p = named_principal d p"
  by (simp add: named_principal_def same_config_def split: option.split)

text \<open>The commands of an operation, and the node after it.\<close>

lemma mc_put_effect:
  assumes "mc_put H dumps c q v p = (r, cmds, c')"
  shows "same_config c' c"
    and "cmds = (if named_principal c p \<in> set (mc_allowed c)
           then [RSet (mc_key H (mc_namespace c) q (named_principal c p)) (dumps (entry v (mc_pod_id c))) (mc_ttl_s c)]
           else [])"
  by (cases rule: authorise_cases [of c p]; use assms in \<open>auto simp: mc_put_def same_config_def\<close>)+

lemma mc_invalidate_effect:
  assumes "mc_invalidate H mac rc now c q p = (r, cmds, wire, c')"
  shows "same_config c' c"
    and "cmds = (if named_principal c p \<in> set (mc_allowed c)
           then [RDel (mc_key H (mc_namespace c) q (named_principal c p))] else [])"
  by (cases rule: authorise_cases [of c p];
      use assms in \<open>auto simp: mc_invalidate_def same_config_def Let_def split: option.splits prod.splits\<close>)+

lemma mc_get_config: "same_config (snd (mc_get loads c p raw)) c"
  by (cases rule: authorise_cases [of c p])
    (simp_all add: mc_get_def same_config_def split: option.split)

lemma same_config_trans: "same_config a b \<Longrightarrow> same_config b c \<Longrightarrow> same_config a c"
  by (simp add: same_config_def)

lemma node_cmds_sim:
  assumes s: "map_sim H dumps T nodes m w" and i: "i < length nodes" and c: "same_config c' (mw_nodes w ! i)"
    and st: "\<And>t. t \<in> T \<Longrightarrow> foldl redis_apply (mw_store w) cmds (triple_key H t)
       = map_option (\<lambda>(v, writer). dumps (entry v writer)) (m' t)"
  shows "map_sim H dumps T nodes m' (node_cmds w i cmds c')"
  using s c st i
  by (auto simp: map_sim_def node_cmds_def nth_list_update intro: same_config_trans)

text \<open>Each operation is matched by one step of the map.\<close>

lemma mw_step_sim:
  assumes free: "collision_free H T" and s: "map_sim H dumps T nodes m w"
    and T: "\<And>t. op_triple nodes op = Some t \<Longrightarrow> t \<in> T"
  shows "map_sim H dumps T nodes (map_step nodes m op) (mw_step H dumps loads mac rc w op)"
proof -
  have len: "length (mw_nodes w) = length nodes"
    and cfg: "i < length nodes \<Longrightarrow> same_config (mw_nodes w ! i) (nodes ! i)" for i
    using s by (simp_all add: map_sim_def)
  have store: "t \<in> T \<Longrightarrow> mw_store w (triple_key H t) = map_option (\<lambda>(v, writer). dumps (entry v writer)) (m t)" for t
    using s by (simp add: map_sim_def)
  have inj: "t \<in> T \<Longrightarrow> u \<in> T \<Longrightarrow> triple_key H t = triple_key H u \<longleftrightarrow> t = u" for t u
    using free by (auto simp: collision_free_def inj_on_def)
  show ?thesis
  proof (cases op)
    case (MC_Put i q v p)
    show ?thesis
    proof (cases "i < length nodes")
      case False
      with s MC_Put len show ?thesis by (simp add: map_step_def)
    next
      case i: True
      note c = cfg [OF i]
      obtain r cmds c' where put: "mc_put H dumps (mw_nodes w ! i) q v p = (r, cmds, c')"
        using prod_cases3 by blast
      note eff = mc_put_effect [OF put]
      let ?who = "named_principal (nodes ! i) p"
      let ?t = "(mc_namespace (nodes ! i), ?who, q)"
      have key: "mc_key H (mc_namespace (nodes ! i)) q ?who = triple_key H ?t"
        by (simp add: triple_key_def)
      have al: "mc_allowed (mw_nodes w ! i) = mc_allowed (nodes ! i)"
        "mc_namespace (mw_nodes w ! i) = mc_namespace (nodes ! i)" "mc_pod_id (mw_nodes w ! i) = mc_pod_id (nodes ! i)"
        using c by (simp_all add: same_config_def)
      have "map_sim H dumps T nodes (map_step nodes m op) (node_cmds w i cmds c')"
      proof (rule node_cmds_sim [OF s i eff(1)])
        fix t assume t: "t \<in> T"
        show "foldl redis_apply (mw_store w) cmds (triple_key H t) =
            map_option (\<lambda>(v, writer). dumps (entry v writer)) (map_step nodes m op t)"
          using T [of ?t] inj [OF t, of ?t] store [OF t] i
          by (simp add: eff(2) key al named_principal_config [OF c] MC_Put map_step_def)
      qed
      then show ?thesis using put len i by (simp add: MC_Put)
    qed
  next
    case (MC_Get i q p raw)
    show ?thesis
    proof (cases "i < length nodes")
      case False
      with s MC_Get len show ?thesis by (simp add: map_step_def)
    next
      case i: True
      have "map_sim H dumps T nodes m (node_cmds w i [] (snd (mc_get loads (mw_nodes w ! i) p raw)))"
        by (rule node_cmds_sim [OF s i mc_get_config]) (simp add: store)
      then show ?thesis using len i by (simp add: MC_Get map_step_def)
    qed
  next
    case (MC_Invalidate i q p now)
    show ?thesis
    proof (cases "i < length nodes")
      case False
      with s MC_Invalidate len show ?thesis by (simp add: map_step_def)
    next
      case i: True
      note c = cfg [OF i]
      obtain r cmds wire c' where inv: "mc_invalidate H mac rc now (mw_nodes w ! i) q p = (r, cmds, wire, c')"
        using prod_cases4 by blast
      note eff = mc_invalidate_effect [OF inv]
      let ?who = "named_principal (nodes ! i) p"
      let ?t = "(mc_namespace (nodes ! i), ?who, q)"
      have key: "mc_key H (mc_namespace (nodes ! i)) q ?who = triple_key H ?t"
        by (simp add: triple_key_def)
      have al: "mc_allowed (mw_nodes w ! i) = mc_allowed (nodes ! i)"
        "mc_namespace (mw_nodes w ! i) = mc_namespace (nodes ! i)"
        using c by (simp_all add: same_config_def)
      have "map_sim H dumps T nodes (map_step nodes m op) (node_cmds w i cmds c')"
      proof (rule node_cmds_sim [OF s i eff(1)])
        fix t assume t: "t \<in> T"
        show "foldl redis_apply (mw_store w) cmds (triple_key H t) =
            map_option (\<lambda>(v, writer). dumps (entry v writer)) (map_step nodes m op t)"
          using T [of ?t] inj [OF t, of ?t] store [OF t] i
          by (simp add: eff(2) key al named_principal_config [OF c] MC_Invalidate map_step_def)
      qed
      then show ?thesis using inv len i by (simp add: MC_Invalidate)
    qed
  qed
qed

lemma mw_run_sim:
  assumes "collision_free H T" and "map_sim H dumps T nodes m w"
    and "\<And>op t. op \<in> set ops \<Longrightarrow> op_triple nodes op = Some t \<Longrightarrow> t \<in> T"
  shows "map_sim H dumps T nodes (run_steps (map_step nodes) m ops)
           (run_steps (mw_step H dumps loads mac rc) w ops)"
  using assms(2,3)
proof (induction ops arbitrary: m w)
  case (Cons op ops)
  have "map_sim H dumps T nodes (map_step nodes m op) (mw_step H dumps loads mac rc w op)"
    by (rule mw_step_sim [OF assms(1) Cons.prems(1)]) (use Cons.prems(2) in auto)
  then have "map_sim H dumps T nodes (run_steps (map_step nodes) (map_step nodes m op) ops)
      (run_steps (mw_step H dumps loads mac rc) (mw_step H dumps loads mac rc w op) ops)"
    by (rule Cons.IH) (use Cons.prems(2) in auto)
  then show ?case by simp
qed simp

text \<open>An entry of the map was put there by a node that may serve its principal.\<close>

lemma map_origin:
  "run_steps (map_step nodes) m ops t = Some (v, writer) \<Longrightarrow>
     m t = Some (v, writer) \<or>
     (\<exists>i q p. MC_Put i q v p \<in> set ops \<and> i < length nodes \<and> writer = mc_pod_id (nodes ! i)
        \<and> op_triple nodes (MC_Put i q v p) = Some t)"
proof (induction ops arbitrary: m)
  case (Cons op ops)
  from Cons.prems have "run_steps (map_step nodes) (map_step nodes m op) ops t = Some (v, writer)" by simp
  from Cons.IH [OF this] show ?case
  proof (elim disjE)
    assume "map_step nodes m op t = Some (v, writer)"
    then show ?thesis
      by (cases op) (auto simp: map_step_def split: if_splits option.splits)
  qed (metis list.set_intros(2))
qed simp

section \<open>Properties\<close>

text \<open>C25. Through any number of nodes the shared cache is one map from namespace, principal and query key.
  After any sequence of puts, gets and invalidations at any nodes, a get at a node for a
  principal it does not serve is refused; otherwise it returns nothing (a miss) or exactly the
  value of the latest put to that namespace, principal and query at whichever node, unless it
  was invalidated since, and the node that put it was allowed to serve that principal. The keys
  in use are assumed free of digest collisions, a GET is assumed to return nothing or what the
  last SET left, and the JSON codec to round-trip the entry.\<close>

theorem mesh_cache_refines_map:
  assumes "w = run_steps (mw_step H dumps loads mac rc) \<lparr>mw_nodes = nodes, mw_store = (\<lambda>_. None)\<rparr> ops"
    and "m = run_steps (map_step nodes) (\<lambda>_. None) ops"
    and "collision_free H (insert (mc_namespace (nodes ! i), named_principal (nodes ! i) p, q)
           {t. \<exists>op \<in> set ops. op_triple nodes op = Some t})"
    and "i < length nodes" and "c = mw_nodes w ! i"
    and "redis_reply (mw_store w) (mc_key H (mc_namespace c) q (named_principal c p)) raw"
    and "\<And>v writer. m (mc_namespace c, named_principal c p, q) = Some (v, writer) \<Longrightarrow>
           loads (dumps (entry v writer)) = Some (entry v writer)"
  shows "(named_principal c p \<notin> set (mc_allowed c) \<longrightarrow> fst (mc_get loads c p raw) = Inl PermissionError)
    \<and> (named_principal c p \<in> set (mc_allowed c) \<longrightarrow>
      (raw = Raw_Missing \<and> fst (mc_get loads c p raw) = Inr JNull)
      \<or> (\<exists>v j q' p'. m (mc_namespace c, named_principal c p, q) = Some (v, mc_pod_id (nodes ! j))
            \<and> fst (mc_get loads c p raw) = Inr v \<and> j < length nodes \<and> MC_Put j q' v p' \<in> set ops
            \<and> op_triple nodes (MC_Put j q' v p') = Some (mc_namespace c, named_principal c p, q)))"
proof -
  let ?t = "(mc_namespace c, named_principal c p, q)"
  let ?T = "insert (mc_namespace (nodes ! i), named_principal (nodes ! i) p, q)
           {t. \<exists>op \<in> set ops. op_triple nodes op = Some t}"
  have "map_sim H dumps ?T nodes (\<lambda>_. None) \<lparr>mw_nodes = nodes, mw_store = (\<lambda>_. None)\<rparr>"
    by (simp add: map_sim_def same_config_def)
  from mw_run_sim [OF assms(3) this, of ops loads mac rc]
  have sim: "map_sim H dumps ?T nodes m w" unfolding assms(1,2) by blast
  then have cfg: "same_config c (nodes ! i)" using assms(4) by (simp add: map_sim_def assms(5))
  then have t: "?t = (mc_namespace (nodes ! i), named_principal (nodes ! i) p, q)"
    by (simp add: named_principal_config [OF cfg] same_config_def)
  then have "?t \<in> ?T" by simp
  with sim have store: "mw_store w (triple_key H ?t) = map_option (\<lambda>(v, writer). dumps (entry v writer)) (m ?t)"
    unfolding map_sim_def by blast
  have hit: "\<exists>v j q' p'. m ?t = Some (v, mc_pod_id (nodes ! j)) \<and> fst (mc_get loads c p raw) = Inr v
      \<and> j < length nodes \<and> MC_Put j q' v p' \<in> set ops
      \<and> op_triple nodes (MC_Put j q' v p') = Some ?t"
    if al: "named_principal c p \<in> set (mc_allowed c)" and found: "raw \<noteq> Raw_Missing"
  proof -
    from assms(6) found store obtain v writer where m: "m ?t = Some (v, writer)"
      and raw: "raw = Raw_Text (dumps (entry v writer))"
      by (auto simp: redis_reply_def triple_key_def)
    from map_origin [of nodes "\<lambda>_. None" ops ?t v writer] m obtain j q' p' where
      j: "MC_Put j q' v p' \<in> set ops" "j < length nodes" "writer = mc_pod_id (nodes ! j)"
        "op_triple nodes (MC_Put j q' v p') = Some ?t"
      unfolding assms(2) by blast
    have "stored_value loads raw = Some v"
      using assms(7) [OF m] by (simp add: raw stored_value_def entry_def)
    then have "fst (mc_get loads c p raw) = Inr v"
      using al found by (simp add: mc_get_def mc_authorise_def Let_def)
    with m j show ?thesis by blast
  qed
  show ?thesis
  proof (cases rule: authorise_cases [of c p])
    case refused
    then show ?thesis by (simp add: mc_get_def)
  next
    case granted
    then show ?thesis
    proof (cases "raw = Raw_Missing")
      case True
      with granted show ?thesis by (simp add: mc_get_def)
    next
      case False
      from hit [OF granted(1) False] granted(1) show ?thesis by blast
    qed
  qed
qed

definition demo_node :: "string \<Rightarrow> mcache" where
  "demo_node pod = new_mcache pod ''alice'' ''mesh'' 600 None []"

definition demo_H :: "json \<Rightarrow> string" where
  "demo_H j = (case j of JList [JStr ns, JStr who, JStr q] \<Rightarrow> q | _ \<Rightarrow> [])"

definition demo_dumps :: "json \<Rightarrow> string" where
  "demo_dumps j = (if j = entry (JInt 5) ''n1'' then ''five'' else [])"

definition demo_loads :: "string \<Rightarrow> json option" where
  "demo_loads s = (if s = ''five'' then Some (entry (JInt 5) ''n1'') else None)"

theorem mesh_cache_refines_map_witness:
  "\<exists>c raw. c = mw_nodes (run_steps (mw_step demo_H demo_dumps demo_loads (\<lambda>_ _. []) (\<lambda>_. 0))
        \<lparr>mw_nodes = [demo_node ''n1'', demo_node ''n2''], mw_store = (\<lambda>_. None)\<rparr>
        [MC_Put 0 ''q'' (JInt 5) None]) ! 1
     \<and> raw = Raw_Text ''five'' \<and> fst (mc_get demo_loads c (Some ''alice'') raw) = Inr (JInt 5)"
proof -
  let ?nodes = "[demo_node ''n1'', demo_node ''n2'']" and ?ops = "[MC_Put 0 ''q'' (JInt 5) None]"
  let ?w = "run_steps (mw_step demo_H demo_dumps demo_loads (\<lambda>_ _. []) (\<lambda>_. 0))
        \<lparr>mw_nodes = ?nodes, mw_store = (\<lambda>_. None)\<rparr> ?ops"
  let ?m = "run_steps (map_step ?nodes) (\<lambda>_. None) ?ops" and ?c = "mw_nodes ?w ! 1"
  have c: "?c = demo_node ''n2''" by (simp add: node_cmds_def Let_def case_prod_unfold)
  have facts: "mc_namespace (demo_node x) = ''mesh''" "mc_allowed (demo_node x) = [''alice'']"
    "named_principal (demo_node x) (Some ''alice'') = ''alice''" "named_principal (demo_node x) None = ''alice''"
    "mc_pod_id (demo_node x) = x" for x
    by (simp_all add: demo_node_def new_mcache_def named_principal_def)
  have m: "?m = (\<lambda>_. None)((''mesh'', ''alice'', ''q'') \<mapsto> (JInt 5, ''n1''))"
    by (simp add: map_step_def facts)
  have free: "collision_free demo_H (insert (mc_namespace (?nodes ! 1), named_principal (?nodes ! 1) (Some ''alice''), ''q'')
           {t. \<exists>op \<in> set ?ops. op_triple ?nodes op = Some t})"
    by (simp add: collision_free_def facts)
  have reply: "redis_reply (mw_store ?w) (mc_key demo_H (mc_namespace ?c) ''q'' (named_principal ?c (Some ''alice'')))
      (Raw_Text ''five'')"
    unfolding c facts
    by (simp add: redis_reply_def node_cmds_def mc_put_def mc_authorise_def facts demo_dumps_def Let_def)
  have codec: "demo_loads (demo_dumps (entry v writer)) = Some (entry v writer)"
    if "?m (mc_namespace ?c, named_principal ?c (Some ''alice''), ''q'') = Some (v, writer)" for v writer
    using that unfolding m c facts by (simp add: demo_loads_def demo_dumps_def)
  have al: "named_principal ?c (Some ''alice'') \<in> set (mc_allowed ?c)" unfolding c facts by simp
  have "1 < length ?nodes" by simp
  from mesh_cache_refines_map [OF refl refl free this refl reply codec] al
  obtain v j where v: "?m (mc_namespace ?c, named_principal ?c (Some ''alice''), ''q'') = Some (v, mc_pod_id (?nodes ! j))"
    "fst (mc_get demo_loads ?c (Some ''alice'') (Raw_Text ''five'')) = Inr v"
    by blast
  from v(1) have "v = JInt 5" unfolding m c facts by simp
  with v(2) show ?thesis by blast
qed

end
