(* ===== verification/Storage.thy ===== *)
theory Storage
  imports Mesh_Cache
begin

text \<open>
  \<open>neural_pods/storage.py\<close>: the tiers L1 (Redis) and L2 (Lance tables) behind one put and get, and the session
  affinity. Redis and Lance are outside: an operation yields the commands it issues, and replies are
  arguments. Table rows are dictionaries of JSON values; a column a row lacks reads as null.
\<close>

section \<open>Literals of the filter language\<close>

fun double_quotes :: "string \<Rightarrow> string" where
  "double_quotes [] = []"
| "double_quotes (c # cs) =
     (if c = CHR 0x27 then CHR 0x27 # CHR 0x27 # double_quotes cs else c # double_quotes cs)"

definition sql_literal :: "string \<Rightarrow> string" where
  "sql_literal v = CHR 0x27 # double_quotes v @ [CHR 0x27]"

definition kv_filter :: "string \<Rightarrow> string \<Rightarrow> string" where
  "kv_filter key who = ''key = '' @ sql_literal key @ '' AND principal = '' @ sql_literal who"

section \<open>Session affinity\<close>

record affinity =
  sa_mapping :: "(string, string) dict"
  sa_failovers :: nat
  sa_reuses :: nat

definition new_affinity :: affinity where
  "new_affinity = \<lparr>sa_mapping = [], sa_failovers = 0, sa_reuses = 0\<rparr>"

definition sa_bind :: "affinity \<Rightarrow> string \<Rightarrow> string \<Rightarrow> string \<times> affinity" where
  "sa_bind a sid replica =
     (let a' = (case dget (sa_mapping a) sid of
          None \<Rightarrow> a\<lparr>sa_mapping := dput sid replica (sa_mapping a)\<rparr>
        | Some prev \<Rightarrow>
            if prev \<noteq> replica
            then a\<lparr>sa_failovers := Suc (sa_failovers a), sa_mapping := dput sid replica (sa_mapping a)\<rparr>
            else a\<lparr>sa_reuses := Suc (sa_reuses a)\<rparr>)
      in (the (dget (sa_mapping a') sid), a'))"

definition sa_stats :: "affinity \<Rightarrow> nat \<times> nat \<times> nat" where
  "sa_stats a = (length (sa_mapping a), sa_failovers a, sa_reuses a)"

section \<open>Tables\<close>

type_synonym row = "(string, json) dict"

datatype lance_cmd =
    L_Create string "row list"
  | L_Add_Columns string "string list"
  | L_Merge string "string list" "row list"
  | L_Append string "row list"

text \<open>Listing the tables page by page: the loop ends at a page without a continuation token.\<close>

record page =
  pg_tables :: "string list"
  pg_token :: "string option"

definition token_ends :: "string option \<Rightarrow> bool" where
  "token_ends t = (t = None \<or> t = Some [])"

partial_function (option) list_pages ::
    "(string option \<Rightarrow> page) \<Rightarrow> string option \<Rightarrow> string list \<Rightarrow> string list option" where
  "list_pages lister token names =
     (let p = lister token; names' = names @ pg_tables p
      in if token_ends (pg_token p) then Some names' else list_pages lister (pg_token p) names')"

definition all_tables :: "(string option \<Rightarrow> page) option \<Rightarrow> string list \<Rightarrow> string list option" where
  "all_tables lister legacy =
     (case lister of None \<Rightarrow> Some legacy | Some l \<Rightarrow> list_pages l None [])"

definition st_open :: "string list \<Rightarrow> string \<Rightarrow> string option" where
  "st_open tables name = (if name \<notin> set tables then None else Some name)"

definition evolve_schema :: "string list \<Rightarrow> string list \<Rightarrow> string \<Rightarrow> lance_cmd list" where
  "evolve_schema have incoming name =
     (let missing = filter (\<lambda>c. c \<notin> set have) incoming
      in if missing = [] then [] else [L_Add_Columns name missing])"

definition st_write ::
    "string list \<Rightarrow> string list \<Rightarrow> string \<Rightarrow> row list \<Rightarrow> string list \<Rightarrow> bool \<Rightarrow> lance_cmd list" where
  "st_write tables have name rows keys evolve =
     (if name \<notin> set tables then [L_Create name rows]
      else (if evolve then evolve_schema have (dkeys (hd rows)) name else [])
           @ [if keys \<noteq> [] then L_Merge name keys rows else L_Append name rows])"

section \<open>Put and get\<close>

record storage =
  so_redis :: bool
  so_principal :: string
  so_ttl_s :: int
  so_affinity :: affinity

definition l1_key :: "(json \<Rightarrow> string) \<Rightarrow> string \<Rightarrow> string \<Rightarrow> string" where
  "l1_key H who key = ''np:storage:'' @ who @ '':'' @ H (JStr key)"

definition l1_put :: "(json \<Rightarrow> string) \<Rightarrow> storage \<Rightarrow> string \<Rightarrow> string \<Rightarrow> redis_cmd list" where
  "l1_put H s key encoded =
     (if so_redis s then [RSet (l1_key H (so_principal s) key) encoded (so_ttl_s s)] else [])"

definition kv_row :: "string \<Rightarrow> string \<Rightarrow> string \<Rightarrow> real \<Rightarrow> bool \<Rightarrow> row" where
  "kv_row key encoded who now l1 =
     [(''key'', JStr key), (''value'', JStr encoded), (''principal'', JStr who), (''ts'', JFloat (Fin now)),
      (''l1_eligible'', JBool l1)]"

definition st_put ::
    "(json \<Rightarrow> string) \<Rightarrow> (json \<Rightarrow> string) \<Rightarrow> string list \<Rightarrow> string list \<Rightarrow> real \<Rightarrow> storage \<Rightarrow> string \<Rightarrow> json \<Rightarrow> bool
       \<Rightarrow> redis_cmd list \<times> lance_cmd list" where
  "st_put H dumps tables have now s key v l1 =
     (let encoded = dumps v
      in (if l1 then l1_put H s key encoded else [],
          st_write tables have ''kv'' [kv_row key encoded (so_principal s) now l1] [''key'', ''principal''] True))"

definition decode :: "(string \<Rightarrow> json option) \<Rightarrow> string \<Rightarrow> json result" where
  "decode loads t = (case loads t of None \<Rightarrow> Inl ValueError | Some v \<Rightarrow> Inr v)"

text \<open>\<open>rows\<close> is what the filtered search with limit one returned. A missing value is \<open>None\<close>.\<close>

definition st_get ::
    "(json \<Rightarrow> string) \<Rightarrow> (string \<Rightarrow> json option) \<Rightarrow> string list \<Rightarrow> storage \<Rightarrow> string \<Rightarrow> raw_reply \<Rightarrow> row list
       \<Rightarrow> json option result \<times> redis_cmd list" where
  "st_get H loads tables s key raw rows =
     (let l2 = (if st_open tables ''kv'' = None \<or> rows = [] then (Inr None, [])
                else (case jget (hd rows) ''value'' of
                    JStr encoded \<Rightarrow>
                      (let flag = jget (hd rows) ''l1_eligible'';
                           fill = (if flag = JNull \<or> truthy flag then l1_put H s key encoded else [])
                       in (case decode loads encoded of Inl e \<Rightarrow> (Inl e, fill) | Inr v \<Rightarrow> (Inr (Some v), fill)))
                  | _ \<Rightarrow> (Inl TypeError, [])))
      in if \<not> so_redis s then l2
         else (case raw of
             Raw_Missing \<Rightarrow> l2
           | Raw_Undecodable \<Rightarrow> (Inl ValueError, [])
           | Raw_Text t \<Rightarrow> (case decode loads t of Inl e \<Rightarrow> (Inl e, []) | Inr v \<Rightarrow> (Inr (Some v), []))))"

section \<open>Documents and traces\<close>

definition st_add_documents :: "string list \<Rightarrow> string \<Rightarrow> row list \<Rightarrow> lance_cmd list" where
  "st_add_documents tables ns rows = (if rows = [] then [] else st_write tables [] (''docs_'' @ ns) rows [] False)"

definition st_write_traces :: "string list \<Rightarrow> row list \<Rightarrow> lance_cmd list" where
  "st_write_traces tables rows = (if rows = [] then [] else st_write tables [] ''traces'' rows [] False)"

definition st_search_documents :: "string list \<Rightarrow> string \<Rightarrow> row list \<Rightarrow> row list" where
  "st_search_documents tables ns hits = (case st_open tables (''docs_'' @ ns) of None \<Rightarrow> [] | Some _ \<Rightarrow> hits)"

definition st_query_traces :: "string list \<Rightarrow> string option \<Rightarrow> (string option \<Rightarrow> row list) \<Rightarrow> row list" where
  "st_query_traces tables stage search =
     (case st_open tables ''traces'' of
        None \<Rightarrow> []
      | Some _ \<Rightarrow> search (map_option (\<lambda>s. ''stage = '' @ sql_literal s) stage))"

definition st_kv_session :: "storage \<Rightarrow> string \<Rightarrow> string \<Rightarrow> string \<times> storage" where
  "st_kv_session s sid replica =
     (let (r, a) = sa_bind (so_affinity s) sid replica in (r, s\<lparr>so_affinity := a\<rparr>))"

section \<open>Reading a literal back\<close>

text \<open>The lexer's view of a quoted literal: a doubled quote is a quote, a single one ends it.\<close>

fun literal_body :: "string \<Rightarrow> (string \<times> string) option" where
  "literal_body [] = None"
| "literal_body (c # cs) =
     (if c = CHR 0x27
      then (if cs \<noteq> [] \<and> hd cs = CHR 0x27
            then map_option (\<lambda>(v, r). (c # v, r)) (literal_body (tl cs))
            else Some ([], cs))
      else map_option (\<lambda>(v, r). (c # v, r)) (literal_body cs))"

definition read_literal :: "string \<Rightarrow> (string \<times> string) option" where
  "read_literal s = (if s \<noteq> [] \<and> hd s = CHR 0x27 then literal_body (tl s) else None)"

lemma literal_body_doubled:
  "rest = [] \<or> hd rest \<noteq> CHR 0x27 \<Longrightarrow>
     literal_body (double_quotes v @ CHR 0x27 # rest) = Some (v, rest)"
  by (induction v) auto

lemma read_literal_sql:
  "rest = [] \<or> hd rest \<noteq> CHR 0x27 \<Longrightarrow> read_literal (sql_literal v @ rest) = Some (v, rest)"
  by (simp add: sql_literal_def read_literal_def literal_body_doubled)

section \<open>Listing the tables\<close>

text \<open>The listing returns if the continuation tokens run out, and then has every page once.\<close>

fun page_chain :: "(string option \<Rightarrow> page) \<Rightarrow> string option \<Rightarrow> page list \<Rightarrow> bool" where
  "page_chain lister token [] = False"
| "page_chain lister token (p # ps) =
     (p = lister token \<and> (if ps = [] then token_ends (pg_token p)
                            else \<not> token_ends (pg_token p) \<and> page_chain lister (pg_token p) ps))"

lemma list_pages_chain:
  "page_chain lister token ps \<Longrightarrow>
   list_pages lister token names = Some (names @ concat (map pg_tables ps))"
proof (induction ps arbitrary: token names)
  case (Cons p ps)
  note unfold = list_pages.simps [of lister token names]
  from Cons show ?case
    by (cases "ps = []") (auto simp: unfold Let_def)
qed simp

section \<open>What the tiers hold\<close>

text \<open>The \<open>kv\<close> table after a command: created with its rows, or rows replaced and added by key.\<close>

definition same_keys :: "string list \<Rightarrow> row \<Rightarrow> row \<Rightarrow> bool" where
  "same_keys keys r r' = list_all (\<lambda>k. jget r k = jget r' k) keys"

definition merge_row :: "string list \<Rightarrow> row \<Rightarrow> row list \<Rightarrow> row list" where
  "merge_row keys r rs =
     (if list_ex (same_keys keys r) rs then map (\<lambda>x. if same_keys keys r x then r else x) rs else rs @ [r])"

fun lance_apply :: "row list option \<Rightarrow> lance_cmd \<Rightarrow> row list option" where
  "lance_apply t (L_Create n rows) = Some rows"
| "lance_apply t (L_Add_Columns n cols) = t"
| "lance_apply t (L_Merge n keys rows) = map_option (fold (merge_row keys) rows) t"
| "lance_apply t (L_Append n rows) = map_option (\<lambda>rs. rs @ rows) t"

text \<open>What a search filtered to one key and principal may return.\<close>

definition row_for :: "string \<Rightarrow> string \<Rightarrow> row \<Rightarrow> bool" where
  "row_for key who r = (jget r ''key'' = JStr key \<and> jget r ''principal'' = JStr who)"

definition lance_reply :: "row list option \<Rightarrow> string \<Rightarrow> string \<Rightarrow> row list \<Rightarrow> bool" where
  "lance_reply t key who rows =
     (case filter (row_for key who) (case t of None \<Rightarrow> [] | Some rs \<Rightarrow> rs) of
        [] \<Rightarrow> rows = []
      | rs \<Rightarrow> \<exists>r \<in> set rs. rows = [r])"

definition tables_of :: "row list option \<Rightarrow> string list" where
  "tables_of t = (if t = None then [] else [''kv''])"

record tiers =
  ti_l1 :: "string \<Rightarrow> string option"
  ti_l2 :: "row list option"

text \<open>
  The states that puts and gets of several principals reach when every key keeps its L1 choice
  (\<open>hot\<close>), with the value each key and principal was last put. The pairs in use, \<open>U\<close>, have no
  digest collision.
\<close>

inductive stored ::
    "(json \<Rightarrow> string) \<Rightarrow> (json \<Rightarrow> string) \<Rightarrow> (string \<Rightarrow> json option) \<Rightarrow> (string \<Rightarrow> bool) \<Rightarrow> (string \<times> string) set
       \<Rightarrow> tiers \<Rightarrow> (string \<times> string \<Rightarrow> json option) \<Rightarrow> bool"
  for H dumps loads hot U where
  stored_start: "stored H dumps loads hot U \<lparr>ti_l1 = (\<lambda>_. None), ti_l2 = None\<rparr> (\<lambda>_. None)"
| stored_put: "stored H dumps loads hot U w m \<Longrightarrow> so_redis s \<Longrightarrow> (so_principal s, key) \<in> U
     \<Longrightarrow> loads (dumps v) = Some v
     \<Longrightarrow> st_put H dumps (tables_of (ti_l2 w)) have now s key v (hot key) = (rcs, lcs)
     \<Longrightarrow> stored H dumps loads hot U \<lparr>ti_l1 = foldl redis_apply (ti_l1 w) rcs, ti_l2 = foldl lance_apply (ti_l2 w) lcs\<rparr>
           (m((so_principal s, key) \<mapsto> v))"
| stored_get: "stored H dumps loads hot U w m \<Longrightarrow> so_redis s \<Longrightarrow> (so_principal s, key) \<in> U
     \<Longrightarrow> redis_reply (ti_l1 w) (l1_key H (so_principal s) key) raw
     \<Longrightarrow> lance_reply (ti_l2 w) key (so_principal s) rows
     \<Longrightarrow> st_get H loads (tables_of (ti_l2 w)) s key raw rows = (r, rcs)
     \<Longrightarrow> stored H dumps loads hot U (w\<lparr>ti_l1 := foldl redis_apply (ti_l1 w) rcs\<rparr>) m"

text \<open>L1 holds nothing or the last value, L2 exactly one row with it.\<close>

definition rows_of :: "tiers \<Rightarrow> string \<Rightarrow> string \<Rightarrow> row list" where
  "rows_of w key who = filter (row_for key who) (case ti_l2 w of None \<Rightarrow> [] | Some rs \<Rightarrow> rs)"

definition tiers_ok ::
    "(json \<Rightarrow> string) \<Rightarrow> (json \<Rightarrow> string) \<Rightarrow> (string \<Rightarrow> json option) \<Rightarrow> (string \<Rightarrow> bool) \<Rightarrow> (string \<times> string) set
       \<Rightarrow> tiers \<Rightarrow> (string \<times> string \<Rightarrow> json option) \<Rightarrow> bool" where
  "tiers_ok H dumps loads hot U w m =
     ((\<forall>who key. (case m (who, key) of
          None \<Rightarrow> rows_of w key who = []
        | Some v \<Rightarrow> loads (dumps v) = Some v
            \<and> (\<exists>now. rows_of w key who = [kv_row key (dumps v) who now (hot key)])))
      \<and> (\<forall>(who, key) \<in> U. ti_l1 w (l1_key H who key) \<in>
            (if hot key then {None, map_option dumps (m (who, key))} else {None})))"

lemma kv_row_fields:
  "jget (kv_row key enc who now b) ''key'' = JStr key" "jget (kv_row key enc who now b) ''principal'' = JStr who"
  "jget (kv_row key enc who now b) ''value'' = JStr enc" "jget (kv_row key enc who now b) ''l1_eligible'' = JBool b"
  by (simp_all add: jget_def kv_row_def)

lemma row_for_kv: "row_for k w (kv_row key enc who now b) \<longleftrightarrow> k = key \<and> w = who"
  by (auto simp: row_for_def kv_row_fields)

lemma same_keys_kv: "same_keys [''key'', ''principal''] (kv_row key enc who now b) = row_for key who"
  by (auto simp: fun_eq_iff same_keys_def row_for_def kv_row_fields)

lemma merge_own:
  "filter (row_for key who) (merge_row [''key'', ''principal''] (kv_row key enc who now b) rs) =
     (if filter (row_for key who) rs = [] then [kv_row key enc who now b]
      else map (\<lambda>_. kv_row key enc who now b) (filter (row_for key who) rs))"
proof -
  have "filter (row_for key who) (map (\<lambda>x. if row_for key who x then kv_row key enc who now b else x) rs) =
      map (\<lambda>_. kv_row key enc who now b) (filter (row_for key who) rs)"
    by (induction rs) (auto simp: row_for_kv)
  moreover have "list_ex (row_for key who) rs \<longleftrightarrow> filter (row_for key who) rs \<noteq> []"
    by (auto simp: list_ex_iff filter_empty_conv)
  ultimately show ?thesis by (simp add: merge_row_def same_keys_kv row_for_kv)
qed

lemma merge_other:
  "k \<noteq> key \<or> w \<noteq> who \<Longrightarrow>
   filter (row_for k w) (merge_row [''key'', ''principal''] (kv_row key enc who now b) rs) = filter (row_for k w) rs"
proof -
  assume ne: "k \<noteq> key \<or> w \<noteq> who"
  have "row_for key who x \<Longrightarrow> \<not> row_for k w x" for x using ne by (auto simp: row_for_def)
  then have "filter (row_for k w) (map (\<lambda>x. if row_for key who x then kv_row key enc who now b else x) rs) =
      filter (row_for k w) rs"
    using ne by (induction rs) (auto simp: row_for_kv)
  then show ?thesis using ne by (auto simp: merge_row_def same_keys_kv row_for_kv)
qed

text \<open>The write of one row, whether it creates the table, adds a column or merges.\<close>

lemma write_effect:
  "foldl lance_apply t (st_write (tables_of t) have ''kv'' [r] [''key'', ''principal''] True) =
     Some (case t of None \<Rightarrow> [r] | Some rs \<Rightarrow> merge_row [''key'', ''principal''] r rs)"
  by (cases t) (simp_all add: st_write_def tables_of_def evolve_schema_def Let_def)

lemma rows_after_put:
  assumes "ti_l2 w' = Some (case ti_l2 w of None \<Rightarrow> [kv_row key enc who now b]
      | Some rs \<Rightarrow> merge_row [''key'', ''principal''] (kv_row key enc who now b) rs)"
    and "length (rows_of w key who) \<le> 1"
  shows "rows_of w' k u = (if k = key \<and> u = who then [kv_row key enc who now b] else rows_of w k u)"
proof (cases "ti_l2 w")
  case None
  then show ?thesis using assms(1) by (auto simp: rows_of_def row_for_kv)
next
  case (Some rs)
  show ?thesis
  proof (cases "k = key \<and> u = who")
    case True
    have "length (filter (row_for key who) rs) \<le> 1" using assms(2) Some by (simp add: rows_of_def)
    then have "map (\<lambda>_. kv_row key enc who now b) (filter (row_for key who) rs) = [kv_row key enc who now b]
        \<or> filter (row_for key who) rs = []"
      by (cases "filter (row_for key who) rs") auto
    then show ?thesis using True assms(1) Some merge_own [of key who enc now b rs] by (auto simp: rows_of_def)
  next
    case False
    then show ?thesis using assms(1) Some merge_other [of k key u who enc now b rs] by (auto simp: rows_of_def)
  qed
qed

definition l1_free :: "(json \<Rightarrow> string) \<Rightarrow> (string \<times> string) set \<Rightarrow> bool" where
  "l1_free H U = inj_on (\<lambda>(who, key). l1_key H who key) U"

lemma tiers_okD:
  assumes "tiers_ok H dumps loads hot U w m"
  shows "m (who, key) = None \<Longrightarrow> rows_of w key who = []"
    and "m (who, key) = Some v \<Longrightarrow> loads (dumps v) = Some v"
    and "m (who, key) = Some v \<Longrightarrow> \<exists>now. rows_of w key who = [kv_row key (dumps v) who now (hot key)]"
    and "(who, key) \<in> U \<Longrightarrow> ti_l1 w (l1_key H who key) \<in>
            (if hot key then {None, map_option dumps (m (who, key))} else {None})"
proof -
  note both = assms [unfolded tiers_ok_def]
  note l2 = both [THEN conjunct1, THEN spec, of who, THEN spec, of key]
    and l1 = both [THEN conjunct2, rule_format, of "(who, key)"]
  show "m (who, key) = None \<Longrightarrow> rows_of w key who = []"
    "m (who, key) = Some v \<Longrightarrow> loads (dumps v) = Some v"
    "m (who, key) = Some v \<Longrightarrow> \<exists>now. rows_of w key who = [kv_row key (dumps v) who now (hot key)]"
    using l2 by simp_all
  show "(who, key) \<in> U \<Longrightarrow> ti_l1 w (l1_key H who key) \<in>
      (if hot key then {None, map_option dumps (m (who, key))} else {None})"
    using l1 by (simp only: prod.case)
qed

lemma tiers_okI:
  assumes "\<And>who key. m (who, key) = None \<Longrightarrow> rows_of w key who = []"
    and "\<And>who key v. m (who, key) = Some v \<Longrightarrow> loads (dumps v) = Some v
      \<and> (\<exists>now. rows_of w key who = [kv_row key (dumps v) who now (hot key)])"
    and "\<And>who key. (who, key) \<in> U \<Longrightarrow> ti_l1 w (l1_key H who key) \<in>
            (if hot key then {None, map_option dumps (m (who, key))} else {None})"
  shows "tiers_ok H dumps loads hot U w m"
  unfolding tiers_ok_def
proof (intro conjI allI ballI)
  fix who key
  show "case m (who, key) of None \<Rightarrow> rows_of w key who = []
      | Some v \<Rightarrow> loads (dumps v) = Some v \<and> (\<exists>now. rows_of w key who = [kv_row key (dumps v) who now (hot key)])"
    using assms(1,2) [of who key] by (cases "m (who, key)") simp_all
next
  fix p
  assume "p \<in> U"
  then show "case p of (who, key) \<Rightarrow> ti_l1 w (l1_key H who key) \<in>
            (if hot key then {None, map_option dumps (m (who, key))} else {None})"
    using assms(3) by (cases p) (simp only: prod.case)
qed

lemma rows_le_one: "tiers_ok H dumps loads hot U w m \<Longrightarrow> length (rows_of w key who) \<le> 1"
  using tiers_okD(1,3) [of H dumps loads hot U w m who key] by (cases "m (who, key)") auto

lemma stored_put_ok:
  assumes free: "l1_free H U" and ok: "tiers_ok H dumps loads hot U w m" and red: "so_redis s"
    and U: "(so_principal s, key) \<in> U" and rt: "loads (dumps v) = Some v"
    and put: "st_put H dumps (tables_of (ti_l2 w)) have now s key v (hot key) = (rcs, lcs)"
  shows "tiers_ok H dumps loads hot U
     \<lparr>ti_l1 = foldl redis_apply (ti_l1 w) rcs, ti_l2 = foldl lance_apply (ti_l2 w) lcs\<rparr>
     (m((so_principal s, key) \<mapsto> v))"
proof -
  let ?who = "so_principal s"
  let ?w' = "\<lparr>ti_l1 = foldl redis_apply (ti_l1 w) rcs, ti_l2 = foldl lance_apply (ti_l2 w) lcs\<rparr>"
  let ?row = "kv_row key (dumps v) ?who now (hot key)"
  from put have r: "rcs = (if hot key then [RSet (l1_key H ?who key) (dumps v) (so_ttl_s s)] else [])"
    and l: "lcs = st_write (tables_of (ti_l2 w)) have ''kv'' [?row] [''key'', ''principal''] True"
    using red by (auto simp: st_put_def Let_def l1_put_def)
  have "ti_l2 ?w' = Some (case ti_l2 w of None \<Rightarrow> [?row] | Some rs \<Rightarrow> merge_row [''key'', ''principal''] ?row rs)"
    by (simp add: l write_effect)
  note rows = rows_after_put [OF this rows_le_one [OF ok]]
  have l1: "ti_l1 ?w' (l1_key H u k) \<in> (if hot k then {None, map_option dumps ((m((?who, key) \<mapsto> v)) (u, k))} else {None})"
    if "(u, k) \<in> U" for u k
  proof (cases "l1_key H u k = l1_key H ?who key")
    case True
    then have "(u, k) = (?who, key)"
      using inj_onD [OF free [unfolded l1_free_def], of "(u, k)" "(?who, key)"] that U by simp
    then show ?thesis using tiers_okD(4) [OF ok U] by (auto simp: r split: if_splits)
  next
    case False
    then show ?thesis using tiers_okD(4) [OF ok that] by (auto simp: r split: if_splits)
  qed
  show ?thesis
  proof (rule tiers_okI)
    fix u k
    show "(m((?who, key) \<mapsto> v)) (u, k) = None \<Longrightarrow> rows_of ?w' k u = []"
      using rows [of k u] tiers_okD(1) [OF ok] by (simp split: if_splits)
    show "(m((?who, key) \<mapsto> v)) (u, k) = Some x \<Longrightarrow> loads (dumps x) = Some x
        \<and> (\<exists>t. rows_of ?w' k u = [kv_row k (dumps x) u t (hot k)])" for x
      using rows [of k u] rt tiers_okD(2,3) [OF ok, of u k x] by (auto split: if_splits)
  qed (rule l1)
qed

text \<open>What a get answers and what it writes back to L1.\<close>

lemma st_get_ok:
  assumes ok: "tiers_ok H dumps loads hot U w m" and red: "so_redis s" and U: "(so_principal s, key) \<in> U"
    and raw: "redis_reply (ti_l1 w) (l1_key H (so_principal s) key) raw"
    and rows: "lance_reply (ti_l2 w) key (so_principal s) rows"
    and get: "st_get H loads (tables_of (ti_l2 w)) s key raw rows = (r, rcs)"
  shows "r = Inr (m (so_principal s, key))"
    and "rcs = [] \<or> (\<exists>v. m (so_principal s, key) = Some v \<and> hot key
           \<and> rcs = [RSet (l1_key H (so_principal s) key) (dumps v) (so_ttl_s s)])"
proof -
  let ?who = "so_principal s"
  have "r = Inr (m (?who, key)) \<and> (rcs = [] \<or> (\<exists>v. m (?who, key) = Some v \<and> hot key
      \<and> rcs = [RSet (l1_key H ?who key) (dumps v) (so_ttl_s s)]))"
  proof (cases "m (?who, key)")
    case None
    have none: "rows_of w key ?who = []" by (rule tiers_okD(1) [OF ok None])
    have "rows = []" using rows none by (simp add: lance_reply_def rows_of_def)
    moreover have "ti_l1 w (l1_key H ?who key) = None"
      using tiers_okD(4) [OF ok U] None by (simp split: if_splits)
    then have "raw = Raw_Missing" using raw by (simp add: redis_reply_def)
    ultimately show ?thesis using get red None by (simp add: st_get_def Let_def)
  next
    case (Some v)
    from tiers_okD(3) [OF ok Some] obtain now
      where one: "rows_of w key ?who = [kv_row key (dumps v) ?who now (hot key)]" ..
    then have row: "rows = [kv_row key (dumps v) ?who now (hot key)]"
      using rows by (simp add: lance_reply_def rows_of_def)
    have there: "st_open (tables_of (ti_l2 w)) ''kv'' \<noteq> None"
      using one by (simp add: st_open_def tables_of_def rows_of_def split: option.splits)
    have rt: "decode loads (dumps v) = Inr v" using tiers_okD(2) [OF ok Some] by (simp add: decode_def)
    show ?thesis
    proof (cases "raw = Raw_Missing")
      case True
      with get red row there rt Some show ?thesis
        by (cases "hot key") (auto simp: st_get_def Let_def kv_row_fields l1_put_def)
    next
      case False
      with raw obtain t where t: "ti_l1 w (l1_key H ?who key) = Some t" "raw = Raw_Text t"
        by (auto simp: redis_reply_def)
      with tiers_okD(4) [OF ok U] Some have "t = dumps v" by (simp split: if_splits)
      with get red t(2) rt Some show ?thesis by (simp add: st_get_def)
    qed
  qed
  then show "r = Inr (m (?who, key))"
    and "rcs = [] \<or> (\<exists>v. m (?who, key) = Some v \<and> hot key
      \<and> rcs = [RSet (l1_key H ?who key) (dumps v) (so_ttl_s s)])"
    by blast+
qed

lemma stored_get_ok:
  assumes free: "l1_free H U" and ok: "tiers_ok H dumps loads hot U w m" and U: "(who, key) \<in> U"
    and rcs: "rcs = [] \<or> (\<exists>v. m (who, key) = Some v \<and> hot key \<and> rcs = [RSet (l1_key H who key) (dumps v) ttl])"
  shows "tiers_ok H dumps loads hot U (w\<lparr>ti_l1 := foldl redis_apply (ti_l1 w) rcs\<rparr>) m"
proof (rule tiers_okI)
  fix u k
  let ?w' = "w\<lparr>ti_l1 := foldl redis_apply (ti_l1 w) rcs\<rparr>"
  have same: "rows_of ?w' k u = rows_of w k u" by (simp add: rows_of_def)
  show "m (u, k) = None \<Longrightarrow> rows_of ?w' k u = []"
    unfolding same by (rule tiers_okD(1) [OF ok])
  show "m (u, k) = Some x \<Longrightarrow> loads (dumps x) = Some x
      \<and> (\<exists>now. rows_of ?w' k u = [kv_row k (dumps x) u now (hot k)])" for x
    unfolding same using tiers_okD(2,3) [OF ok] by blast
  assume in_U: "(u, k) \<in> U"
  note old = tiers_okD(4) [OF ok in_U]
  from rcs show "ti_l1 ?w' (l1_key H u k) \<in> (if hot k then {None, map_option dumps (m (u, k))} else {None})"
  proof (elim disjE exE conjE)
    assume "rcs = []"
    with old show ?thesis by simp
  next
    fix v
    assume v: "m (who, key) = Some v" "hot key" "rcs = [RSet (l1_key H who key) (dumps v) ttl]"
    show ?thesis
    proof (cases "l1_key H u k = l1_key H who key")
      case True
      then have "(u, k) = (who, key)"
        using inj_onD [OF free [unfolded l1_free_def], of "(u, k)" "(who, key)"] in_U U by simp
      with v show ?thesis by simp
    next
      case False
      with v old show ?thesis by simp
    qed
  qed
qed

lemma stored_invariant:
  assumes "l1_free H U" and "stored H dumps loads hot U w m"
  shows "tiers_ok H dumps loads hot U w m"
  using assms(2)
proof induction
  case stored_start
  show ?case by (rule tiers_okI) (simp_all add: rows_of_def)
next
  case (stored_put w m s key v cols now rcs lcs)
  show ?case by (rule stored_put_ok [OF assms(1)]) fact+
next
  case (stored_get w m s key raw rows r rcs)
  have ok: "tiers_ok H dumps loads hot U w m" by fact
  note get = st_get_ok(2) [OF ok stored_get.hyps(2-6)]
  show ?case by (rule stored_get_ok [OF assms(1) ok stored_get.hyps(3) get])
qed

section \<open>Properties\<close>

text \<open>A get returns what the last put wrote. Take any sequence of puts and gets by any principals, with
  Redis entries expiring at will, in which the puts to one key agree on its L1 choice, and a codec
  that round-trips the values. A get of a key then returns the value the same principal put
  last, whichever tier answers, and nothing if that principal never put the key; values kept
  out of L1 are not brought into it by reads.\<close>

theorem storage_reads_last_put:
  assumes "l1_free H U" and "stored H dumps loads hot U w m"
    and "so_redis s" and "(so_principal s, key) \<in> U"
    and "redis_reply (ti_l1 w) (l1_key H (so_principal s) key) raw"
    and "lance_reply (ti_l2 w) key (so_principal s) rows"
  shows "fst (st_get H loads (tables_of (ti_l2 w)) s key raw rows) = Inr (m (so_principal s, key))
    \<and> (\<not> hot key \<longrightarrow> ti_l1 w (l1_key H (so_principal s) key) = None
         \<and> snd (st_get H loads (tables_of (ti_l2 w)) s key raw rows) = [])"
proof -
  note ok = stored_invariant [OF assms(1,2)]
  obtain r rcs where g: "st_get H loads (tables_of (ti_l2 w)) s key raw rows = (r, rcs)" by fastforce
  from st_get_ok [OF ok assms(3-6) g] tiers_okD(4) [OF ok assms(4)] g show ?thesis by auto
qed

definition demo_storage :: storage where
  "demo_storage = \<lparr>so_redis = True, so_principal = ''p'', so_ttl_s = 600, so_affinity = new_affinity\<rparr>"

definition int_dumps :: "json \<Rightarrow> string" where
  "int_dumps v = (if v = JInt 1 then ''1'' else [])"

definition int_loads :: "string \<Rightarrow> json option" where
  "int_loads s = (if s = ''1'' then Some (JInt 1) else None)"

theorem storage_reads_last_put_witness:
  "\<exists>w m. stored (\<lambda>_. ''h'') int_dumps int_loads (\<lambda>_. True) {(''p'', ''k'')} w m
     \<and> ti_l1 w ''np:storage:p:h'' = Some ''1''
     \<and> fst (st_get (\<lambda>_. ''h'') int_loads (tables_of (ti_l2 w)) demo_storage ''k'' Raw_Missing
          [kv_row ''k'' ''1'' ''p'' 0 True]) = Inr (Some (JInt 1))"
proof -
  let ?H = "\<lambda>_ :: json. ''h''" and ?row = "kv_row ''k'' ''1'' ''p'' 0 True"
  let ?start = "\<lparr>ti_l1 = (\<lambda>_. None), ti_l2 = None\<rparr>"
  let ?rcs = "[RSet ''np:storage:p:h'' ''1'' 600]" and ?lcs = "[L_Create ''kv'' [?row]]"
  have put: "st_put ?H int_dumps (tables_of (ti_l2 ?start)) [] 0 demo_storage ''k'' (JInt 1) True = (?rcs, ?lcs)"
    by (simp add: st_put_def demo_storage_def int_dumps_def l1_put_def l1_key_def st_write_def tables_of_def Let_def)
  have fields: "so_redis demo_storage" "so_principal demo_storage = ''p''"
    by (simp_all add: demo_storage_def)
  have "stored ?H int_dumps int_loads (\<lambda>_. True) {(''p'', ''k'')}
      \<lparr>ti_l1 = foldl redis_apply (ti_l1 ?start) ?rcs, ti_l2 = foldl lance_apply (ti_l2 ?start) ?lcs\<rparr>
      ((\<lambda>_. None)((so_principal demo_storage, ''k'') \<mapsto> JInt 1))"
    by (rule stored.stored_put [OF stored.stored_start fields(1) _ _ put])
      (simp_all add: fields int_dumps_def int_loads_def)
  then obtain w m where w: "stored ?H int_dumps int_loads (\<lambda>_. True) {(''p'', ''k'')} w m"
    and l1: "ti_l1 w ''np:storage:p:h'' = Some ''1''" and l2: "ti_l2 w = Some [?row]"
    and m: "m (''p'', ''k'') = Some (JInt 1)"
    by (simp add: fields)
  have "row_for ''k'' ''p'' ?row" by (simp add: row_for_kv)
  then have "lance_reply (ti_l2 w) ''k'' (so_principal demo_storage) [?row]"
    by (simp add: lance_reply_def l2 fields)
  moreover have "redis_reply (ti_l1 w) (l1_key ?H (so_principal demo_storage) ''k'') Raw_Missing"
    by (simp add: redis_reply_def)
  moreover have "l1_free ?H {(''p'', ''k'')}" by (simp add: l1_free_def)
  ultimately show ?thesis
    using storage_reads_last_put [OF _ w fields(1), of "''k''" Raw_Missing "[?row]"] w l1 m fields by auto
qed

text \<open>The condition on the L1 choice is needed: \<open>put(l1=False)\<close> leaves the entry that an earlier put of
  the key made in L1, and a get answers with the old value until it expires.\<close>

theorem l1_opt_out_serves_old_value:
  assumes "so_redis s" and "m (l1_key H (so_principal s) key) = Some (dumps old)" and "loads (dumps old) = Some old"
    and "st_put H dumps tables cols now s key new False = (rcs, lcs)"
  shows "redis_reply (foldl redis_apply m rcs) (l1_key H (so_principal s) key) (Raw_Text (dumps old))
    \<and> fst (st_get H loads tables' s key (Raw_Text (dumps old)) rows) = Inr (Some old)"
  using assms by (auto simp: st_put_def Let_def redis_reply_def st_get_def decode_def)

theorem l1_opt_out_serves_old_value_witness:
  "fst (st_get (\<lambda>_. ''h'') int_loads [] demo_storage ''k'' (Raw_Text ''1'') []) = Inr (Some (JInt 1))"
proof -
  have p: "st_put (\<lambda>_. ''h'') int_dumps [] [] 0 demo_storage ''k'' JNull False =
      ([], snd (st_put (\<lambda>_. ''h'') int_dumps [] [] 0 demo_storage ''k'' JNull False))"
    by (simp add: st_put_def Let_def)
  have a: "so_redis demo_storage" "[l1_key (\<lambda>_. ''h'') (so_principal demo_storage) ''k'' \<mapsto> int_dumps (JInt 1)]
      (l1_key (\<lambda>_. ''h'') (so_principal demo_storage) ''k'') = Some (int_dumps (JInt 1))"
    "int_loads (int_dumps (JInt 1)) = Some (JInt 1)"
    by (simp_all add: demo_storage_def int_dumps_def int_loads_def)
  from l1_opt_out_serves_old_value [where m = "[l1_key (\<lambda>_. ''h'') (so_principal demo_storage) ''k'' \<mapsto> int_dumps (JInt 1)]"
      and dumps = int_dumps and loads = int_loads, OF a p, of "[]" "[]"]
  show ?thesis by (simp add: int_dumps_def)
qed

text \<open>The literals of a filter read back as the key and the principal they were made from, whatever
  quotes those contain, so a key cannot change the predicate.\<close>

theorem kv_filter_reads_back:
  "\<exists>r. read_literal (drop 6 (kv_filter key who)) = Some (key, r)
     \<and> read_literal (drop (length '' AND principal = '') r) = Some (who, [])"
  using read_literal_sql [of "'' AND principal = '' @ sql_literal who" key] read_literal_sql [of "[]" who]
  by (simp add: kv_filter_def)

text \<open>Listing the tables terminates and is complete when the catalogue's continuation tokens run
  out: if the pages reached by following the tokens are \<open>ps\<close>, the listing is their tables in
  order, however many pages there are.\<close>

theorem listing_is_complete:
  assumes "page_chain lister None ps"
  shows "all_tables (Some lister) legacy = Some (concat (map pg_tables ps))"
  using list_pages_chain [OF assms, of "[]"] by (simp add: all_tables_def)

definition demo_pages :: "string option \<Rightarrow> page" where
  "demo_pages t = (if t = None then \<lparr>pg_tables = [''a''], pg_token = Some ''t''\<rparr>
     else \<lparr>pg_tables = [''kv''], pg_token = None\<rparr>)"

theorem listing_is_complete_witness:
  "all_tables (Some demo_pages) [] = Some [''a'', ''kv'']"
  using listing_is_complete [of demo_pages "[demo_pages None, demo_pages (Some ''t'')]" "[]"]
  by (simp add: demo_pages_def token_ends_def)

text \<open>Session affinity: the counters account for every bind, and a session is bound to its last replica.\<close>

lemma sa_bind_total:
  "length (sa_mapping (snd (sa_bind a sid r))) + sa_failovers (snd (sa_bind a sid r)) + sa_reuses (snd (sa_bind a sid r))
     = Suc (length (sa_mapping a) + sa_failovers a + sa_reuses a)"
proof (cases "dget (sa_mapping a) sid")
  case None
  then have "sid \<notin> set (dkeys (sa_mapping a))" by (simp only: dget_None_keys not_False_eq_True)
  then have "length (dkeys (dput sid r (sa_mapping a))) = Suc (length (sa_mapping a))"
    by (simp add: dkeys_dput_new del: set_map)
  with None show ?thesis by (simp add: sa_bind_def Let_def)
next
  case (Some prev)
  then have "length (dkeys (dput sid r (sa_mapping a))) = length (dkeys (sa_mapping a))"
    by (intro arg_cong [where f = length] dkeys_dput_old mem_dkeys)
  with Some show ?thesis by (simp add: sa_bind_def Let_def)
qed

lemma sa_bind_binds: "fst (sa_bind a sid r) = r \<and> dget (sa_mapping (snd (sa_bind a sid r))) sid = Some r"
  by (auto simp: sa_bind_def Let_def dict_simps split: option.split)

fun sa_step :: "affinity \<Rightarrow> string \<times> string \<Rightarrow> affinity" where
  "sa_step a (sid, r) = snd (sa_bind a sid r)"

text \<open>After any sequence of binds the sessions known, the failovers and the reuses add up to the number
  of binds, and the last bind of a session decides its replica.\<close>

theorem affinity_counts_every_bind:
  "length (sa_mapping (run_steps sa_step new_affinity bs)) + sa_failovers (run_steps sa_step new_affinity bs)
     + sa_reuses (run_steps sa_step new_affinity bs) = length bs
   \<and> dget (sa_mapping (run_steps sa_step new_affinity (bs @ [(sid, r)]))) sid = Some r"
proof -
  have "length (sa_mapping (run_steps sa_step a bs)) + sa_failovers (run_steps sa_step a bs)
      + sa_reuses (run_steps sa_step a bs) = length (sa_mapping a) + sa_failovers a + sa_reuses a + length bs" for a
  proof (induction bs arbitrary: a)
    case (Cons b bs)
    obtain sid r where b: "b = (sid, r)" by (cases b)
    show ?case using Cons [of "sa_step a b"] sa_bind_total [of a sid r] by (simp add: b)
  qed simp
  then show ?thesis
    by (simp add: new_affinity_def run_steps_append sa_bind_binds)
qed

end
