(* ===== verification/Filter_Lang.thy ===== *)
theory Filter_Lang
  imports Py_Values
begin

text \<open>
  The filter language and the access gate of \<open>neural_pods/local_search.py\<close> (\<open>_match_filter\<close> and
  \<open>_authorized\<close>) on decoded JSON, with Python's \<open>==\<close>, \<open>in\<close> and \<open><\<close> on those values and the
  exceptions they raise. \<open>casefold\<close> and \<open>str\<close> are those of ASCII text: \<open>shown\<close> gives \<open>str(x)\<close> of
  a value that is not a string.
\<close>

section \<open>Comparing values\<close>

fun num_of :: "json \<Rightarrow> pfloat option" where
  "num_of (JBool b) = Some (Fin (if b then 1 else 0))"
| "num_of (JInt n) = Some (Fin (of_int n))"
| "num_of (JFloat f) = Some f"
| "num_of _ = None"

definition pf_eq :: "pfloat \<Rightarrow> pfloat \<Rightarrow> bool" where
  "pf_eq a b = (a \<noteq> NaN \<and> a = b)"

text \<open>\<open>a == b\<close>: numbers by value whatever their type, dictionaries without regard to order.\<close>

fun py_eq :: "json \<Rightarrow> json \<Rightarrow> bool" and py_eq_list :: "json list \<Rightarrow> json list \<Rightarrow> bool"
  and py_eq_obj :: "(string \<times> json) list \<Rightarrow> (string \<times> json) list \<Rightarrow> bool" where
  "py_eq JNull b = (b = JNull)"
| "py_eq (JStr s) b = (b = JStr s)"
| "py_eq (JList xs) b = (case b of JList ys \<Rightarrow> py_eq_list xs ys | _ \<Rightarrow> False)"
| "py_eq (JObj d) b = (case b of JObj e \<Rightarrow> length d = length e \<and> py_eq_obj d e | _ \<Rightarrow> False)"
| "py_eq a b =
     (case (num_of a, num_of b) of (Some x, Some y) \<Rightarrow> pf_eq x y | _ \<Rightarrow> False)"
| "py_eq_list [] ys = (ys = [])"
| "py_eq_list (x # xs) ys = (case ys of [] \<Rightarrow> False | y # ys' \<Rightarrow> py_eq x y \<and> py_eq_list xs ys')"
| "py_eq_obj [] e = True"
| "py_eq_obj ((k, v) # d) e = (case dget e k of None \<Rightarrow> False | Some w \<Rightarrow> py_eq v w \<and> py_eq_obj d e)"

definition in_list :: "json \<Rightarrow> json list \<Rightarrow> bool" where
  "in_list x xs = list_ex (\<lambda>y. py_eq x y) xs"

fun hashable :: "json \<Rightarrow> bool" where
  "hashable (JList _) = False"
| "hashable (JObj _) = False"
| "hashable _ = True"

definition is_substring :: "string \<Rightarrow> string \<Rightarrow> bool" where
  "is_substring s t = list_ex (\<lambda>i. starts_with s (drop i t)) [0..<Suc (length t)]"

text \<open>\<open>x in c\<close>.\<close>

fun py_in :: "json \<Rightarrow> json \<Rightarrow> bool result" where
  "py_in x (JList ys) = Inr (in_list x ys)"
| "py_in x (JStr t) = (case x of JStr s \<Rightarrow> Inr (is_substring s t) | _ \<Rightarrow> Inl TypeError)"
| "py_in x (JObj d) =
     (case x of JStr k \<Rightarrow> Inr (dget d k \<noteq> None)
      | _ \<Rightarrow> if hashable x then Inr False else Inl TypeError)"
| "py_in x _ = Inl TypeError"

text \<open>\<open>list(c)\<close>: what a loop over a value visits.\<close>

fun py_iter :: "json \<Rightarrow> json list result" where
  "py_iter (JList ys) = Inr ys"
| "py_iter (JStr t) = Inr (map (\<lambda>c. JStr [c]) t)"
| "py_iter (JObj d) = Inr (map (\<lambda>p. JStr (fst p)) d)"
| "py_iter _ = Inl TypeError"

text \<open>\<open>a < b\<close>: numbers, strings, and lists by their first difference; anything else has no order.\<close>

fun py_less :: "json \<Rightarrow> json \<Rightarrow> bool result" and py_less_list :: "json list \<Rightarrow> json list \<Rightarrow> bool result" where
  "py_less (JStr s) b = (case b of JStr t \<Rightarrow> Inr (s < t) | _ \<Rightarrow> Inl TypeError)"
| "py_less (JList xs) b = (case b of JList ys \<Rightarrow> py_less_list xs ys | _ \<Rightarrow> Inl TypeError)"
| "py_less a b = (case (num_of a, num_of b) of (Some x, Some y) \<Rightarrow> Inr (pf_gt y x) | _ \<Rightarrow> Inl TypeError)"
| "py_less_list [] ys = Inr (ys \<noteq> [])"
| "py_less_list (x # xs) ys =
     (case ys of
        [] \<Rightarrow> Inr False
      | y # ys' \<Rightarrow> if py_eq x y then py_less_list xs ys' else py_less x y)"

text \<open>\<open>a <= b\<close> on two values that have an order.\<close>

fun py_le :: "json \<Rightarrow> json \<Rightarrow> bool result" where
  "py_le a b =
     (case py_less a b of
        Inl e \<Rightarrow> Inl e
      | Inr l \<Rightarrow> Inr (l \<or> py_eq a b))"

section \<open>Filters\<close>

definition all_in :: "json \<Rightarrow> json list \<Rightarrow> bool result" where
  "all_in expected vs = (case py_iter expected of Inl e \<Rightarrow> Inl e | Inr xs \<Rightarrow> Inr (list_all (\<lambda>x. in_list x vs) xs))"

definition any_in :: "json \<Rightarrow> json list \<Rightarrow> bool result" where
  "any_in expected vs = (case py_iter expected of Inl e \<Rightarrow> Inl e | Inr xs \<Rightarrow> Inr (list_ex (\<lambda>x. in_list x vs) xs))"

definition as_values :: "json \<Rightarrow> json list" where
  "as_values actual = (case actual of JList xs \<Rightarrow> xs | _ \<Rightarrow> [actual])"

text \<open>One entry of a mapping filter.\<close>

definition match_mapping :: "json \<Rightarrow> (string, json) dict \<Rightarrow> bool result" where
  "match_mapping actual e =
     (let in_ok = (case dget e ''in'' of None \<Rightarrow> Inr True | Some c \<Rightarrow> py_in actual c);
          all_ok = (case dget e ''contains'' of None \<Rightarrow> Inr True | Some c \<Rightarrow> all_in c (as_values actual));
          eq_ok = (case dget e ''eq'' of None \<Rightarrow> True | Some v \<Rightarrow> py_eq actual v)
      in case in_ok of
           Inl err \<Rightarrow> Inl err
         | Inr False \<Rightarrow> Inr False
         | Inr True \<Rightarrow> (case all_ok of
               Inl err \<Rightarrow> Inl err
             | Inr False \<Rightarrow> Inr False
             | Inr True \<Rightarrow> Inr eq_ok))"

definition match_entry :: "json \<Rightarrow> json \<Rightarrow> bool result" where
  "match_entry actual expected =
     (case (expected, actual) of
        (JObj e, _) \<Rightarrow> match_mapping actual e
      | (JList xs, JList vs) \<Rightarrow>
          if list_all hashable xs \<and> list_all hashable vs
          then Inr (list_all (\<lambda>x. in_list x vs) xs) else Inl TypeError
      | (_, JList vs) \<Rightarrow> Inr (in_list expected vs)
      | _ \<Rightarrow> Inr (py_eq actual expected))"

fun match_entries :: "(string, json) dict \<Rightarrow> (string \<times> json) list \<Rightarrow> bool result" where
  "match_entries md [] = Inr True"
| "match_entries md ((k, expected) # es) =
     (case match_entry (jget md k) expected of
        Inl e \<Rightarrow> Inl e
      | Inr False \<Rightarrow> Inr False
      | Inr True \<Rightarrow> match_entries md es)"

definition casefold :: "string \<Rightarrow> string" where
  "casefold s = map lower_char s"

definition py_str :: "(json \<Rightarrow> string) \<Rightarrow> json \<Rightarrow> string" where
  "py_str shown v = (case v of JStr s \<Rightarrow> s | _ \<Rightarrow> shown v)"

text \<open>The operators of the triple form \<open>[key, op, expected]\<close>.\<close>

definition ordering_op :: "string \<Rightarrow> json \<Rightarrow> json \<Rightarrow> bool result" where
  "ordering_op op actual expected =
     (case (py_less actual expected, py_le actual expected, py_less expected actual, py_le expected actual) of
        (Inr lt, Inr lte, Inr gt, Inr gte) \<Rightarrow>
          Inr (if op = ''lt'' then lt else if op = ''lte'' then lte else if op = ''gt'' then gt else gte)
      | _ \<Rightarrow> Inr False)"

definition match_op :: "json \<Rightarrow> string \<Rightarrow> json \<Rightarrow> bool result" where
  "match_op actual op expected =
     (let vs = as_values actual
      in if op = ''eq'' \<or> op = ''equals'' then Inr (py_eq actual expected)
         else if op = ''noteq'' then Inr (\<not> py_eq actual expected)
         else if op = ''in'' then py_in actual expected
         else if op = ''notin'' then (case py_in actual expected of Inl e \<Rightarrow> Inl e | Inr b \<Rightarrow> Inr (\<not> b))
         else if op = ''contains'' then Inr (in_list expected vs)
         else if op = ''containsany'' then any_in expected vs
         else if op = ''notcontains'' then Inr (\<not> in_list expected vs)
         else if op = ''notcontainsany'' then (case any_in expected vs of Inl e \<Rightarrow> Inl e | Inr b \<Rightarrow> Inr (\<not> b))
         else if op \<in> {''lt'', ''lte'', ''gt'', ''gte''} then ordering_op op actual expected
         else Inr False)"


text \<open>
  \<open>_match_filter\<close>: a mapping, \<open>["And"|"Or", subs]\<close>, \<open>["Not", sub]\<close> or a triple. Every subfilter
  of a connective is evaluated, so an exception in any of them is raised. The subfilters of a
  connective whose second element is a string or a mapping are its characters or keys, and a
  string is a filter that holds only when it is empty.
\<close>

definition head_word :: "json \<Rightarrow> string" where
  "head_word h = (case h of JStr s \<Rightarrow> casefold s | _ \<Rightarrow> [])"

definition joined :: "string \<Rightarrow> bool list \<Rightarrow> bool" where
  "joined c vs = (if c = ''and'' then list_all id vs else list_ex id vs)"

fun match_filter :: "(json \<Rightarrow> string) \<Rightarrow> (string, json) dict \<Rightarrow> json \<Rightarrow> bool result"
  and match_filters :: "(json \<Rightarrow> string) \<Rightarrow> (string, json) dict \<Rightarrow> json list \<Rightarrow> bool list result" where
  "match_filter shown md (JObj es) = match_entries md es"
| "match_filter shown md (JList []) = Inr True"
| "match_filter shown md (JList (h # rest)) =
     (let c = head_word h
      in if c = ''and'' \<or> c = ''or'' then
           (case rest of
              [] \<Rightarrow> Inl IndexError
            | subs # _ \<Rightarrow>
                (case (case subs of
                         JList xs \<Rightarrow> match_filters shown md xs
                       | _ \<Rightarrow> (case py_iter subs of
                                Inl e \<Rightarrow> Inl e
                              | Inr xs \<Rightarrow> Inr (map (\<lambda>x. \<not> truthy x) xs))) of
                   Inl e \<Rightarrow> Inl e
                 | Inr vs \<Rightarrow> Inr (joined c vs)))
         else if c = ''not'' then
           (case rest of
              [] \<Rightarrow> Inl IndexError
            | sub # _ \<Rightarrow> (case match_filter shown md sub of Inl e \<Rightarrow> Inl e | Inr b \<Rightarrow> Inr (\<not> b)))
         else
           (case rest of
              op # expected # _ \<Rightarrow>
                match_op (jget md (py_str shown h)) (casefold (py_str shown op)) expected
            | _ \<Rightarrow> Inr False))"
| "match_filter shown md f = Inr (\<not> truthy f)"
| "match_filters shown md [] = Inr []"
| "match_filters shown md (x # xs) =
     (case match_filter shown md x of
        Inl e \<Rightarrow> Inl e
      | Inr b \<Rightarrow> (case match_filters shown md xs of Inl e \<Rightarrow> Inl e | Inr bs \<Rightarrow> Inr (b # bs)))"

section \<open>The access gate\<close>

text \<open>\<open>"*" not in acl and principal not in acl\<close>.\<close>

definition acl_refuses :: "json \<Rightarrow> string \<Rightarrow> bool result" where
  "acl_refuses acl p =
     (case py_in (JStr ''*'') acl of
        Inl e \<Rightarrow> Inl e
      | Inr True \<Rightarrow> Inr False
      | Inr False \<Rightarrow> (case py_in (JStr p) acl of Inl e \<Rightarrow> Inl e | Inr b \<Rightarrow> Inr (\<not> b)))"

definition gate_ok :: "(string, json) dict \<Rightarrow> json \<Rightarrow> bool result" where
  "gate_ok md gate =
     (let novelty = jget md ''novelty_score''; contradiction = jget md ''contradiction_score''
      in if novelty = JNull \<or> contradiction = JNull then Inr False
         else case gate of
           JObj g \<Rightarrow>
             (case py_less novelty (dget_or g ''novelty_threshold'' (JFloat (Fin 0))) of
                Inl e \<Rightarrow> Inl e
              | Inr True \<Rightarrow> Inr False
              | Inr False \<Rightarrow>
                  (case py_less (dget_or g ''contradiction_threshold'' (JFloat (Fin 1))) contradiction of
                     Inl e \<Rightarrow> Inl e
                   | Inr b \<Rightarrow> Inr (\<not> b)))
         | _ \<Rightarrow> Inl (OtherError ''AttributeError''))"

definition item_acl :: "(string, json) dict \<Rightarrow> json" where
  "item_acl md =
     (case dget_or md ''acl'' (JList [JStr ''*'']) of JStr s \<Rightarrow> JList [JStr s] | acl \<Rightarrow> acl)"

definition authorized :: "(string, json) dict \<Rightarrow> string option \<Rightarrow> bool result" where
  "authorized md pr =
     (if jget md ''status'' \<notin> {JNull, JStr ''active''} then Inr False
      else if jget md ''revoked'' = JBool True then Inr False
      else
        case (case pr of None \<Rightarrow> Inr False | Some p \<Rightarrow> acl_refuses (item_acl md) p) of
          Inl e \<Rightarrow> Inl e
        | Inr True \<Rightarrow> Inr False
        | Inr False \<Rightarrow>
            if truthy (jget md ''surprise_gate'') then gate_ok md (jget md ''surprise_gate'')
            else Inr True)"

text \<open>What an admitted item satisfies, as the caller reads it.\<close>

lemma authorized_True:
  assumes "authorized md pr = Inr True"
  shows "jget md ''status'' \<in> {JNull, JStr ''active''} \<and> jget md ''revoked'' \<noteq> JBool True
    \<and> (\<forall>p. pr = Some p \<longrightarrow>
          py_in (JStr ''*'') (item_acl md) = Inr True \<or> py_in (JStr p) (item_acl md) = Inr True)"
  using assms
  by (auto simp: authorized_def acl_refuses_def split: if_splits option.splits sum.splits bool.splits)

text \<open>The connectives agree with the propositional ones wherever no subfilter raises.\<close>

lemma match_filters_Inr:
  "match_filters shown md fs = Inr bs \<longleftrightarrow> list_all2 (\<lambda>f b. match_filter shown md f = Inr b) fs bs"
proof (induction fs arbitrary: bs)
  case (Cons f fs)
  have "match_filters shown md (f # fs) = Inr bs \<longleftrightarrow>
      (\<exists>b bs'. match_filter shown md f = Inr b \<and> match_filters shown md fs = Inr bs' \<and> bs = b # bs')"
    by (auto split: sum.splits)
  then show ?case by (auto simp: Cons.IH list_all2_Cons1)
qed auto

lemma head_words:
  "head_word (JStr ''And'') = ''and''" "head_word (JStr ''Or'') = ''or''" "head_word (JStr ''Not'') = ''not''"
  by code_simp+

lemma match_connectives:
  assumes "list_all2 (\<lambda>f b. match_filter shown md f = Inr b) fs bs"
    and "match_filter shown md g = Inr c"
  shows "match_filter shown md (JList [JStr ''And'', JList fs]) = Inr (\<forall>b \<in> set bs. b)
    \<and> match_filter shown md (JList [JStr ''Or'', JList fs]) = Inr (\<exists>b \<in> set bs. b)
    \<and> match_filter shown md (JList [JStr ''Not'', g]) = Inr (\<not> c)"
proof -
  from assms(1) have "match_filters shown md fs = Inr bs" by (simp add: match_filters_Inr)
  with assms(2) show ?thesis
    by (simp add: head_words joined_def list_all_iff list_ex_iff)
qed

end
