(* ===== verification/Local_Search.thy ===== *)
theory Local_Search
  imports Filter_Lang "HOL-Library.Multiset"
begin

text \<open>
  The namespaced search backend (\<open>neural_pods/local_search.py\<close>, \<open>LocalSearchBackend\<close>). The SQLite
  tables are the dictionaries of the state; \<open>now\<close> is the time a call reads, and an embedding is
  what the caller's embedder answers for the text. A branch is a row with its parent, its rows are found by walking to the root
  with the child's version of a key winning. Pinned snapshots, the filter cache and the token
  postings are the three caches of a reader.

  Regular expressions, the embedder and \<open>str\<close> of a value that is not a string come from outside:
  they are fields of \<open>ls_env\<close>. Text is ASCII, floats are reals. The block postings and the vector index are built beside the
  state and never read by \<open>search\<close>; they are not kept here.
\<close>

section \<open>State\<close>

record ls_env =
  env_shown :: "json \<Rightarrow> string"
  env_rx :: "string \<Rightarrow> (string \<Rightarrow> bool) result"
  env_embed :: "(string \<Rightarrow> pfloat list result) option"

record ls_item =
  li_text :: string
  li_vector :: "pfloat list option"
  li_metadata :: "(string, json) dict"
  li_deleted :: bool

type_synonym ls_rows = "(string, ls_item) dict"

record ls_meta =
  nm_created :: string
  nm_last_write :: "string option"
  nm_updated :: string
  nm_read_only :: bool
  nm_pinning :: "(string, json) dict option"
  nm_schema :: "(string, json) dict option"
  nm_revision :: int

type_synonym filter_key = "string \<times> string \<times> int \<times> json \<times> string"

record local_search =
  ls_branches :: "(string \<times> string, string option) dict"
  ls_items :: "(string \<times> string \<times> string, ls_item) dict"
  ls_namespaces :: "(string, ls_meta) dict"
  ls_pinned :: "(string \<times> string, ls_rows) dict"
  ls_filter_cache :: "(filter_key, string list) dict"
  ls_postings :: "(string \<times> string, (string, string list) dict) dict"
  ls_hits :: nat
  ls_misses :: nat

definition fresh_meta :: "string \<Rightarrow> ls_meta" where
  "fresh_meta now = \<lparr>nm_created = now, nm_last_write = None, nm_updated = now, nm_read_only = False,
     nm_pinning = None, nm_schema = None, nm_revision = 0\<rparr>"

definition new_search :: "string \<Rightarrow> local_search" where
  "new_search now =
     \<lparr>ls_branches = [((''default'', ''main''), None)], ls_items = [],
      ls_namespaces = [(''default'', fresh_meta now)], ls_pinned = [], ls_filter_cache = [],
      ls_postings = [], ls_hits = 0, ls_misses = 0\<rparr>"

section \<open>Branches and rows\<close>

definition has_branch :: "local_search \<Rightarrow> string \<Rightarrow> string \<Rightarrow> bool" where
  "has_branch s ns br = (dget (ls_branches s) (ns, br) \<noteq> None)"

text \<open>
  The walk from a branch to the root: the branches it visits, and whether it ended there or came
  back to a branch it had seen.
\<close>

function ls_walk :: "(string \<times> string, string option) dict \<Rightarrow> string \<Rightarrow> string option
    \<Rightarrow> string list \<Rightarrow> string list \<times> bool" where
  "ls_walk B ns None seen = ([], True)"
| "ls_walk B ns (Some c) seen =
     (if c \<in> set seen then ([], False)
      else case dget B (ns, c) of
        None \<Rightarrow> ([c], True)
      | Some parent \<Rightarrow> (let (cs, ended) = ls_walk B ns parent (c # seen) in (c # cs, ended)))"
  by pat_completeness auto

termination
proof (relation "measure (\<lambda>(B, ns, cur, seen). length (filter (\<lambda>p. fst (fst p) = ns \<and> snd (fst p) \<notin> set seen) B))")
  fix B :: "(string \<times> string, string option) dict" and ns c seen parent
  assume c: "c \<notin> set seen" and "dget B (ns, c) = Some parent"
  then have "((ns, c), parent) \<in> set B" by (auto dest: map_of_SomeD)
  then have m: "((ns, c), parent) \<in> set (filter (\<lambda>p. fst (fst p) = ns \<and> snd (fst p) \<notin> set seen) B)"
    using c by simp
  have "filter (\<lambda>p. fst (fst p) = ns \<and> snd (fst p) \<notin> set (c # seen)) B
      = filter (\<lambda>p. snd (fst p) \<noteq> c) (filter (\<lambda>p. fst (fst p) = ns \<and> snd (fst p) \<notin> set seen) B)"
    by (simp add: conj_ac)
  then show "((B, ns, parent, c # seen), (B, ns, Some c, seen)) \<in> measure (\<lambda>(B, ns, cur, seen).
      length (filter (\<lambda>p. fst (fst p) = ns \<and> snd (fst p) \<notin> set seen) B))"
    using m by (auto simp del: filter_filter intro!: length_filter_less)
qed simp

definition ls_chain :: "(string \<times> string, string option) dict \<Rightarrow> string \<Rightarrow> string \<Rightarrow> string list result" where
  "ls_chain B ns br =
     (case ls_walk B ns (Some br) [] of (cs, ended) \<Rightarrow> if ended then Inr cs else Inl RuntimeError)"

definition level_rows :: "(string \<times> string \<times> string, ls_item) dict \<Rightarrow> string \<Rightarrow> string \<Rightarrow> ls_rows" where
  "level_rows I ns br =
     map (\<lambda>p. (snd (snd (fst p)), snd p)) (filter (\<lambda>p. fst (fst p) = ns \<and> fst (snd (fst p)) = br) I)"

definition add_rows :: "ls_rows \<Rightarrow> ls_rows \<Rightarrow> ls_rows" where
  "add_rows acc rows = foldl (\<lambda>d p. dsetdefault (fst p) (snd p) d) acc rows"

text \<open>\<open>_rows\<close>.\<close>

definition ls_rows_of :: "local_search \<Rightarrow> string \<Rightarrow> string \<Rightarrow> ls_rows result" where
  "ls_rows_of s ns br =
     (if \<not> has_branch s ns br then Inl KeyError
      else case ls_chain (ls_branches s) ns br of
        Inl e \<Rightarrow> Inl e
      | Inr chain \<Rightarrow> Inr (foldl (\<lambda>acc b. add_rows acc (level_rows (ls_items s) ns b)) [] chain))"

text \<open>
  \<open>_invalidate_pins\<close>: every derived index of the namespace goes, and the snapshot of every branch
  that inherits from the changed one. The walk to the root has no cycle check: one that runs
  into a cycle without the changed branch never ends, which is an error value here.
\<close>

definition inherits :: "(string \<times> string, string option) dict \<Rightarrow> string \<Rightarrow> string \<Rightarrow> string \<Rightarrow> bool result" where
  "inherits B ns br changed =
     (case ls_walk B ns (Some br) [] of
        (cs, ended) \<Rightarrow>
          if changed \<in> set cs then Inr True
          else if ended then Inr False else Inl (OtherError ''does not return''))"

fun keep_pins :: "(string \<times> string, string option) dict \<Rightarrow> string \<Rightarrow> string
    \<Rightarrow> (string \<times> string, ls_rows) dict \<Rightarrow> (string \<times> string, ls_rows) dict result" where
  "keep_pins B ns changed [] = Inr []"
| "keep_pins B ns changed (p # ps) =
     (case (if fst (fst p) \<noteq> ns then Inr False else inherits B ns (snd (fst p)) changed) of
        Inl e \<Rightarrow> Inl e
      | Inr drop_it \<Rightarrow>
          (case keep_pins B ns changed ps of
             Inl e \<Rightarrow> Inl e
           | Inr ps' \<Rightarrow> Inr (if drop_it then ps' else p # ps')))"

definition ls_invalidate :: "local_search \<Rightarrow> string \<Rightarrow> string \<Rightarrow> local_search \<times> unit result" where
  "ls_invalidate s ns changed =
     (let s1 = s\<lparr>ls_filter_cache := filter (\<lambda>p. fst (fst p) \<noteq> ns) (ls_filter_cache s),
                 ls_postings := filter (\<lambda>p. fst (fst p) \<noteq> ns) (ls_postings s)\<rparr>
      in case keep_pins (ls_branches s) ns changed (ls_pinned s) of
           Inl e \<Rightarrow> (s1, Inl e)
         | Inr ps \<Rightarrow> (s1\<lparr>ls_pinned := ps\<rparr>, Inr ()))"

section \<open>Namespaces\<close>

definition create_namespace :: "local_search \<Rightarrow> string \<Rightarrow> string \<Rightarrow> string \<Rightarrow> local_search" where
  "create_namespace s ns br now =
     s\<lparr>ls_branches := dsetdefault (ns, br) None (ls_branches s),
       ls_namespaces := dsetdefault ns (fresh_meta now) (ls_namespaces s)\<rparr>"

record ls_view =
  nv_rows :: nat
  nv_meta :: ls_meta
  nv_branches :: "(string \<times> string option) list"

definition namespace_metadata :: "local_search \<Rightarrow> string \<Rightarrow> ls_view result" where
  "namespace_metadata s ns =
     (case dget (ls_namespaces s) ns of
        None \<Rightarrow> Inl KeyError
      | Some m \<Rightarrow> Inr
          \<lparr>nv_rows = length (filter (\<lambda>p. fst (fst p) = ns \<and> \<not> li_deleted (snd p)) (ls_items s)),
           nv_meta = m,
           nv_branches = map (\<lambda>p. (snd (fst p), snd p)) (filter (\<lambda>p. fst (fst p) = ns) (ls_branches s))\<rparr>)"

definition put_meta :: "string \<Rightarrow> (ls_meta \<Rightarrow> ls_meta) \<Rightarrow> local_search \<Rightarrow> local_search" where
  "put_meta ns f s =
     (case dget (ls_namespaces s) ns of
        None \<Rightarrow> s
      | Some m \<Rightarrow> s\<lparr>ls_namespaces := dput ns (f m) (ls_namespaces s)\<rparr>)"

definition configure_schema :: "local_search \<Rightarrow> string \<Rightarrow> (string, json) dict \<Rightarrow> string
    \<Rightarrow> local_search \<times> ls_view result" where
  "configure_schema s ns schema now =
     (if dget (ls_namespaces s) ns = None then (s, Inl KeyError)
      else
        let s1 = put_meta ns (\<lambda>m. m\<lparr>nm_schema := Some schema, nm_updated := now, nm_revision := nm_revision m + 1\<rparr>) s
        in case ls_invalidate s1 ns ''*'' of
             (s2, Inl e) \<Rightarrow> (s2, Inl e)
           | (s2, Inr _) \<Rightarrow> (s2, namespace_metadata s2 ns))"

definition embedding_config :: "local_search \<Rightarrow> string \<Rightarrow> (string, json) dict" where
  "embedding_config s ns =
     (let schema = (case dget (ls_namespaces s) ns of
                      None \<Rightarrow> [] | Some m \<Rightarrow> (case nm_schema m of None \<Rightarrow> [] | Some d \<Rightarrow> d));
          embed = (case dget schema ''text'' of Some (JObj t) \<Rightarrow> jget t ''embed'' | _ \<Rightarrow> JNull)
      in case embed of JObj d \<Rightarrow> d | _ \<Rightarrow> if truthy embed then [(''model'', embed)] else [])"

text \<open>\<open>update_namespace_metadata\<close>: \<open>None\<close> leaves a field, and \<open>pinning\<close> can be set to null.\<close>

definition update_namespace_metadata :: "local_search \<Rightarrow> string \<Rightarrow> bool option
    \<Rightarrow> (string, json) dict option option \<Rightarrow> string \<Rightarrow> local_search \<times> ls_view result" where
  "update_namespace_metadata s ns ro pinning now =
     (if dget (ls_namespaces s) ns = None then (s, Inl KeyError)
      else if ro = None \<and> pinning = None then (s, namespace_metadata s ns)
      else
        let s1 = put_meta ns (\<lambda>m. m\<lparr>nm_read_only := (case ro of None \<Rightarrow> nm_read_only m | Some b \<Rightarrow> b),
                                   nm_pinning := (case pinning of None \<Rightarrow> nm_pinning m | Some p \<Rightarrow> p),
                                   nm_updated := now, nm_revision := nm_revision m + 1\<rparr>) s
        in case ls_invalidate s1 ns ''*'' of
             (s2, Inl e) \<Rightarrow> (s2, Inl e)
           | (s2, Inr _) \<Rightarrow> (s2, namespace_metadata s2 ns))"

text \<open>\<open>branch\<close>: the target is the name the caller gives or one made from the time.\<close>

definition ls_branch :: "local_search \<Rightarrow> string \<Rightarrow> string \<Rightarrow> string \<Rightarrow> local_search \<times> string result" where
  "ls_branch s ns source target =
     (if \<not> has_branch s ns source then (s, Inl KeyError)
      else if has_branch s ns target then (s, Inl ValueError)
      else (s\<lparr>ls_branches := dput (ns, target) (Some source) (ls_branches s)\<rparr>, Inr target))"

section \<open>Writes\<close>

definition is_read_only :: "local_search \<Rightarrow> string \<Rightarrow> bool" where
  "is_read_only s ns = (case dget (ls_namespaces s) ns of None \<Rightarrow> False | Some m \<Rightarrow> nm_read_only m)"

definition pf_finite :: "pfloat \<Rightarrow> bool" where
  "pf_finite x = (case x of Fin _ \<Rightarrow> True | _ \<Rightarrow> False)"

definition touch :: "string \<Rightarrow> ls_meta \<Rightarrow> ls_meta" where
  "touch now m = m\<lparr>nm_last_write := Some now, nm_updated := now, nm_revision := nm_revision m + 1\<rparr>"

text \<open>The common end of a write: the row, the namespace's times and revision, the caches.\<close>

definition commit_row :: "local_search \<Rightarrow> string \<Rightarrow> string \<Rightarrow> string \<Rightarrow> ls_item \<Rightarrow> string
    \<Rightarrow> local_search \<times> unit result" where
  "commit_row s ns br key it now =
     ls_invalidate (put_meta ns (touch now) (s\<lparr>ls_items := dput (ns, br, key) it (ls_items s)\<rparr>)) ns br"

text \<open>The vector of an \<open>upsert\<close> with the metadata it brings: the caller's, or the embedder's.\<close>

definition upsert_vector :: "ls_env \<Rightarrow> local_search \<Rightarrow> string \<Rightarrow> string \<Rightarrow> pfloat list option
    \<Rightarrow> (string, json) dict \<Rightarrow> (pfloat list option \<times> (string, json) dict) result" where
  "upsert_vector env s ns text vector md =
     (let cfg = embedding_config s ns
      in case (vector, env_embed env) of
           (None, Some fn) \<Rightarrow>
             if cfg = [] then Inr (None, md)
             else (case fn text of
                 Inl e \<Rightarrow> Inl e
               | Inr v \<Rightarrow> Inr (Some v, dput ''embedding_dimension'' (JInt (int (length v)))
                                 (dput ''embedding_model'' (dget_or cfg ''model'' (JStr ''local'')) md)))
         | _ \<Rightarrow> Inr (vector, md))"

definition dims_ok :: "(string, json) dict \<Rightarrow> pfloat list \<Rightarrow> unit result" where
  "dims_ok cfg v =
     (case jget cfg ''dims'' of
        JNull \<Rightarrow> Inr ()
      | d \<Rightarrow> (case py_int d of
               Inl e \<Rightarrow> Inl e
             | Inr n \<Rightarrow> if int (length v) \<noteq> n then Inl ValueError else Inr ()))"

definition check_vector :: "(string, json) dict \<Rightarrow> pfloat list option \<Rightarrow> unit result" where
  "check_vector cfg vector =
     (case vector of
        None \<Rightarrow> Inr ()
      | Some v \<Rightarrow> if v = [] \<or> \<not> list_all pf_finite v then Inl ValueError else dims_ok cfg v)"

definition ls_upsert :: "ls_env \<Rightarrow> local_search \<Rightarrow> string \<Rightarrow> string \<Rightarrow> string \<Rightarrow> pfloat list option
    \<Rightarrow> (string, json) dict \<Rightarrow> string \<Rightarrow> string \<Rightarrow> local_search \<times> unit result" where
  "ls_upsert env s ns key text vector md br now =
     (case upsert_vector env s ns text vector (dsetdefault ''revision'' (JInt 1) md) of
        Inl e \<Rightarrow> (s, Inl e)
      | Inr (vec, md') \<Rightarrow>
          (case check_vector (embedding_config s ns) vec of
             Inl e \<Rightarrow> (s, Inl e)
           | Inr _ \<Rightarrow>
               if \<not> has_branch s ns br then (s, Inl KeyError)
               else if is_read_only s ns then (s, Inl PermissionError)
               else commit_row s ns br key
                      \<lparr>li_text = text, li_vector = vec, li_metadata = md', li_deleted = False\<rparr> now))"

definition item_revision :: "ls_item \<Rightarrow> int result" where
  "item_revision it = py_int (dget_or (li_metadata it) ''revision'' (JInt 1))"

text \<open>
  \<open>partial_update\<close> (and \<open>update_metadata\<close>, which passes no text and no vector): an unset text or
  vector is \<open>None\<close>.
\<close>

definition merged_item :: "ls_item \<Rightarrow> int \<Rightarrow> (string, json) dict \<Rightarrow> string option
    \<Rightarrow> pfloat list option option \<Rightarrow> ls_item" where
  "merged_item cur rev0 md text vector =
     \<lparr>li_text = (case text of None \<Rightarrow> li_text cur | Some t \<Rightarrow> t),
      li_vector = (case vector of None \<Rightarrow> li_vector cur | Some v \<Rightarrow> v),
      li_metadata = dput ''revision'' (JInt (rev0 + 1))
        (foldl (\<lambda>d p. dput (fst p) (snd p) d) (li_metadata cur) md),
      li_deleted = False\<rparr>"

definition partial_update :: "local_search \<Rightarrow> string \<Rightarrow> string \<Rightarrow> string \<Rightarrow> (string, json) dict
    \<Rightarrow> string option \<Rightarrow> pfloat list option option \<Rightarrow> int option \<Rightarrow> string
    \<Rightarrow> local_search \<times> int result" where
  "partial_update s ns key br md text vector expected now =
     (if \<not> has_branch s ns br then (s, Inl KeyError)
      else if is_read_only s ns then (s, Inl PermissionError)
      else case ls_rows_of s ns br of
        Inl e \<Rightarrow> (s, Inl e)
      | Inr rows \<Rightarrow>
          (case dget rows key of
             None \<Rightarrow> (s, Inl KeyError)
           | Some cur \<Rightarrow>
               if li_deleted cur then (s, Inl KeyError)
               else case item_revision cur of
                 Inl e \<Rightarrow> (s, Inl e)
               | Inr cr \<Rightarrow>
                   if expected \<noteq> None \<and> expected \<noteq> Some cr then (s, Inl ValueError)
                   else
                     let it = merged_item cur cr md text vector
                     in case check_vector [] (li_vector it) of
                          Inl e \<Rightarrow> (s, Inl e)
                        | Inr _ \<Rightarrow>
                            (case commit_row s ns br key it now of
                               (s', Inl e) \<Rightarrow> (s', Inl e)
                             | (s', Inr _) \<Rightarrow> (s', Inr (cr + 1)))))"

definition update_metadata :: "local_search \<Rightarrow> string \<Rightarrow> string \<Rightarrow> (string, json) dict \<Rightarrow> string
    \<Rightarrow> int option \<Rightarrow> string \<Rightarrow> local_search \<times> int result" where
  "update_metadata s ns key md br expected now = partial_update s ns key br md None None expected now"

definition ls_delete :: "local_search \<Rightarrow> string \<Rightarrow> string \<Rightarrow> string \<Rightarrow> string \<Rightarrow> local_search \<times> unit result" where
  "ls_delete s ns key br now =
     (if \<not> has_branch s ns br then (s, Inl KeyError)
      else if is_read_only s ns then (s, Inl PermissionError)
      else
        let it = (case dget (ls_items s) (ns, br, key) of
                    Some old \<Rightarrow> old\<lparr>li_deleted := True\<rparr>
                  | None \<Rightarrow> \<lparr>li_text = [], li_vector = None, li_metadata = [], li_deleted = True\<rparr>)
        in commit_row s ns br key it now)"

text \<open>
  \<open>reembed_namespace\<close>: the rows are rewritten one after the other; an exception in the loop leaves
  those before it rewritten, with the caches and the namespace's revision as they were.
\<close>

fun reembed_rows :: "(string \<Rightarrow> pfloat list result) \<Rightarrow> (string, json) dict \<Rightarrow> string \<Rightarrow> string
    \<Rightarrow> ls_rows \<Rightarrow> local_search \<Rightarrow> local_search \<times> unit result" where
  "reembed_rows fn cfg ns br [] s = (s, Inr ())"
| "reembed_rows fn cfg ns br (p # ps) s =
     (case fn (li_text (snd p)) of
        Inl e \<Rightarrow> (s, Inl e)
      | Inr v \<Rightarrow>
          (case dims_ok cfg v of
             Inl e \<Rightarrow> (s, Inl e)
           | Inr _ \<Rightarrow>
               (case item_revision (snd p) of
                  Inl e \<Rightarrow> (s, Inl e)
                | Inr r \<Rightarrow>
                    let md = dput ''embedding_dimension'' (JInt (int (length v)))
                               (dput ''embedding_model'' (dget_or cfg ''model'' (JStr ''local''))
                                 (dput ''revision'' (JInt (r + 1)) (li_metadata (snd p))));
                        it = \<lparr>li_text = li_text (snd p), li_vector = Some v, li_metadata = md, li_deleted = False\<rparr>
                    in reembed_rows fn cfg ns br ps
                         (s\<lparr>ls_items := dput (ns, br, fst p) it (ls_items s)\<rparr>))))"

definition reembed_namespace :: "ls_env \<Rightarrow> local_search \<Rightarrow> string \<Rightarrow> string
    \<Rightarrow> (string \<Rightarrow> pfloat list result) option \<Rightarrow> string \<Rightarrow> local_search \<times> nat result" where
  "reembed_namespace env s ns br embedder now =
     (case (case embedder of Some f \<Rightarrow> Some f | None \<Rightarrow> env_embed env) of
        None \<Rightarrow> (s, Inl RuntimeError)
      | Some fn \<Rightarrow>
          if \<not> has_branch s ns br then (s, Inl KeyError)
          else if is_read_only s ns then (s, Inl PermissionError)
          else case ls_rows_of s ns br of
            Inl e \<Rightarrow> (s, Inl e)
          | Inr all_rows \<Rightarrow>
              let rows = filter (\<lambda>p. \<not> li_deleted (snd p)) all_rows
              in case reembed_rows fn (embedding_config s ns) ns br rows s of
                   (s1, Inl e) \<Rightarrow> (s1, Inl e)
                 | (s1, Inr _) \<Rightarrow>
                     (case ls_invalidate (put_meta ns (touch now) s1) ns br of
                        (s2, Inl e) \<Rightarrow> (s2, Inl e)
                      | (s2, Inr _) \<Rightarrow> (s2, Inr (length rows))))"

section \<open>Pins\<close>

definition ls_pin :: "local_search \<Rightarrow> string \<Rightarrow> string \<Rightarrow> local_search \<times> nat result" where
  "ls_pin s ns br =
     (case ls_rows_of s ns br of
        Inl e \<Rightarrow> (s, Inl e)
      | Inr rows \<Rightarrow> (s\<lparr>ls_pinned := dput (ns, br) rows (ls_pinned s)\<rparr>, Inr (length rows)))"

definition ls_unpin :: "local_search \<Rightarrow> string \<Rightarrow> string \<Rightarrow> local_search" where
  "ls_unpin s ns br = s\<lparr>ls_pinned := dpop (ns, br) (ls_pinned s)\<rparr>"

text \<open>\<open>_snapshot\<close>, which every reader starts from.\<close>

definition ls_snapshot :: "local_search \<Rightarrow> string \<Rightarrow> string \<Rightarrow> ls_rows result" where
  "ls_snapshot s ns br =
     (case dget (ls_pinned s) (ns, br) of Some rows \<Rightarrow> Inr rows | None \<Rightarrow> ls_rows_of s ns br)"

definition ls_stats :: "local_search \<Rightarrow> string \<Rightarrow> string \<Rightarrow> (nat \<times> bool \<times> ls_view) result" where
  "ls_stats s ns br =
     (case ls_snapshot s ns br of
        Inl e \<Rightarrow> Inl e
      | Inr rows \<Rightarrow>
          (case namespace_metadata s ns of
             Inl e \<Rightarrow> Inl e
           | Inr v \<Rightarrow> Inr (length (filter (\<lambda>p. \<not> li_deleted (snd p)) rows),
                           dget (ls_pinned s) (ns, br) \<noteq> None, v)))"


section \<open>Scoring\<close>

text \<open>\<open>_tokens\<close>: the maximal runs of letters, digits, underscores and hyphens, in lower case.\<close>

definition word_char :: "char \<Rightarrow> bool" where
  "word_char c =
     (let n = (of_char c :: nat)
      in is_digit c \<or> (65 \<le> n \<and> n \<le> 90) \<or> (97 \<le> n \<and> n \<le> 122) \<or> n = 95 \<or> n = 45)"

fun word_runs :: "string \<Rightarrow> string \<Rightarrow> string list" where
  "word_runs cur [] = (if cur = [] then [] else [rev cur])"
| "word_runs cur (c # cs) =
     (if word_char c then word_runs (c # cur) cs
      else if cur = [] then word_runs [] cs else rev cur # word_runs [] cs)"

definition tokens :: "string \<Rightarrow> string list" where
  "tokens text = map casefold (word_runs [] text)"

text \<open>
  \<open>_cosine\<close> cut off below at 0. A vector of a query is a list of JSON values, an element that is
  not a number raises; with an infinity or a NaN in either vector the quotient is NaN or infinite
  divided by infinite, and \<open>max(0.0, nan)\<close> is 0.
\<close>

definition pf_real :: "pfloat \<Rightarrow> real" where
  "pf_real x = (case x of Fin r \<Rightarrow> r | _ \<Rightarrow> 0)"

definition dot :: "real list \<Rightarrow> real list \<Rightarrow> real" where
  "dot a b = sum_list (map2 (*) a b)"

definition cosine_pos :: "pfloat list \<Rightarrow> pfloat list \<Rightarrow> real" where
  "cosine_pos a b =
     (if list_all pf_finite a \<and> list_all pf_finite b then
        let x = map pf_real a; y = map pf_real b; na = sqrt (dot x x); nb = sqrt (dot y y)
        in if na \<noteq> 0 \<and> nb \<noteq> 0 then max 0 (dot x y / (na * nb)) else 0
      else 0)"

definition vector_score :: "json list option \<Rightarrow> pfloat list option \<Rightarrow> real result" where
  "vector_score a b =
     (case (a, b) of
        (Some aa, Some bb) \<Rightarrow>
          if length aa \<noteq> length bb \<or> aa = [] then Inr 0
          else (case map_result (\<lambda>v. case num_of v of None \<Rightarrow> Inl TypeError | Some x \<Rightarrow> Inr x) aa of
                  Inl e \<Rightarrow> Inl e
                | Inr xs \<Rightarrow> Inr (cosine_pos xs bb))
      | _ \<Rightarrow> Inr 0)"

definition doc_freq :: "string list list \<Rightarrow> string \<Rightarrow> nat" where
  "doc_freq docs t = length (filter (\<lambda>d. t \<in> set d) docs)"

definition bm25 :: "nat \<Rightarrow> nat \<Rightarrow> nat \<Rightarrow> real" where
  "bm25 n df tf =
     ln (1 + (real n - real df + 1 / 2) / (real df + 1 / 2)) * (real tf * (22 / 10) / (real tf + 12 / 10))"

definition lexical_score :: "string list list \<Rightarrow> string list \<Rightarrow> string list \<Rightarrow> real" where
  "lexical_score docs qs doc =
     sum_list (map (\<lambda>t. if t \<in> set doc then bm25 (length docs) (doc_freq docs t) (count_list doc t) else 0) qs)
     / max 1 (real (length qs))"

section \<open>Search\<close>

record hit =
  ht_key :: string
  ht_score :: real
  ht_vector :: real
  ht_lexical :: real
  ht_regex :: real
  ht_text :: string
  ht_metadata :: "(string, json) dict"

text \<open>The keyword arguments of \<open>search\<close>; a rank profile is its \<open>score\<close> function.\<close>

record search_args =
  sa_namespace :: string
  sa_branch :: string
  sa_text :: string
  sa_vector :: "json list option"
  sa_regex :: "string option"
  sa_filters :: json
  sa_principal :: "string option"
  sa_top_k :: int
  sa_vector_weight :: real
  sa_lexical_weight :: real
  sa_rank_profile :: "(hit \<Rightarrow> real) option"

text \<open>
  The key of a filter in the cache is its JSON text with the keys of every mapping sorted, here
  the value so sorted; a principal is its \<open>str\<close>.
\<close>

primrec sorted_json :: "json \<Rightarrow> json" where
  "sorted_json JNull = JNull"
| "sorted_json (JBool b) = JBool b"
| "sorted_json (JInt n) = JInt n"
| "sorted_json (JFloat f) = JFloat f"
| "sorted_json (JStr s) = JStr s"
| "sorted_json (JList xs) = JList (map sorted_json xs)"
| "sorted_json (JObj d) = JObj (sort_key fst (map (map_prod id sorted_json) d))"

definition principal_text :: "string option \<Rightarrow> string" where
  "principal_text pr = (case pr of None \<Rightarrow> ''None'' | Some p \<Rightarrow> p)"

definition no_filter_empty :: "json \<Rightarrow> json" where
  "no_filter_empty f = (if truthy f then f else JObj [])"

definition filter_cache_key :: "string \<Rightarrow> string \<Rightarrow> int \<Rightarrow> json \<Rightarrow> string option \<Rightarrow> filter_key" where
  "filter_cache_key ns br r f pr = (ns, br, r, sorted_json (no_filter_empty f), principal_text pr)"

text \<open>The hard gate of an item: not deleted, authorised, and matching the filter.\<close>

definition admits :: "ls_env \<Rightarrow> string option \<Rightarrow> json \<Rightarrow> ls_item \<Rightarrow> bool result" where
  "admits env pr f it =
     (if li_deleted it then Inr False
      else case authorized (li_metadata it) pr of
        Inl e \<Rightarrow> Inl e
      | Inr False \<Rightarrow> Inr False
      | Inr True \<Rightarrow> match_filter (env_shown env) (li_metadata it) (no_filter_empty f))"

fun admitted :: "ls_env \<Rightarrow> string option \<Rightarrow> json \<Rightarrow> ls_rows \<Rightarrow> ls_rows result" where
  "admitted env pr f [] = Inr []"
| "admitted env pr f (p # ps) =
     (case admits env pr f (snd p) of
        Inl e \<Rightarrow> Inl e
      | Inr b \<Rightarrow>
          (case admitted env pr f ps of Inl e \<Rightarrow> Inl e | Inr qs \<Rightarrow> Inr (if b then p # qs else qs)))"

definition allowed_keys :: "ls_env \<Rightarrow> local_search \<Rightarrow> filter_key \<Rightarrow> string option \<Rightarrow> json \<Rightarrow> ls_rows
    \<Rightarrow> local_search \<times> string list result" where
  "allowed_keys env s fk pr f rows =
     (case dget (ls_filter_cache s) fk of
        Some ks \<Rightarrow> (s\<lparr>ls_hits := ls_hits s + 1\<rparr>, Inr ks)
      | None \<Rightarrow>
          let s1 = s\<lparr>ls_misses := ls_misses s + 1\<rparr>
          in case admitted env pr f rows of
               Inl e \<Rightarrow> (s1, Inl e)
             | Inr adm \<Rightarrow> (s1\<lparr>ls_filter_cache := dput fk (dkeys adm) (ls_filter_cache s1)\<rparr>, Inr (dkeys adm)))"

text \<open>
  The token postings: which keys hold each token. They are kept and never change what \<open>search\<close>
  returns (the set of matching keys that \<open>search\<close> forms from them is not used).
\<close>

definition add_posting :: "string \<Rightarrow> (string, string list) dict \<Rightarrow> string \<Rightarrow> (string, string list) dict" where
  "add_posting key d t = dput t (dget_or d t [] @ [key]) d"

definition build_postings :: "ls_rows \<Rightarrow> (string, string list) dict" where
  "build_postings rows =
     foldl (\<lambda>d p. if li_deleted (snd p) then d
                  else foldl (add_posting (fst p)) d (remdups (tokens (li_text (snd p))))) [] rows"

definition fill_postings :: "local_search \<Rightarrow> string \<Rightarrow> string \<Rightarrow> ls_rows \<Rightarrow> local_search" where
  "fill_postings s ns br rows =
     s\<lparr>ls_postings := (case dget (ls_postings s) (ns, br) of
         Some _ \<Rightarrow> ls_postings s | None \<Rightarrow> dput (ns, br) (build_postings rows) (ls_postings s))\<rparr>"

definition score_row :: "search_args \<Rightarrow> (string \<Rightarrow> bool) option \<Rightarrow> string list list \<Rightarrow> string list
    \<Rightarrow> string \<times> ls_item \<Rightarrow> hit result" where
  "score_row a pat docs qs p =
     (case vector_score (sa_vector a) (li_vector (snd p)) of
        Inl e \<Rightarrow> Inl e
      | Inr v \<Rightarrow>
          let lex = lexical_score docs qs (tokens (li_text (snd p)));
              rx = (case pat of None \<Rightarrow> 0 | Some f \<Rightarrow> if f (li_text (snd p)) then 1 else 0)
          in Inr \<lparr>ht_key = fst p,
                  ht_score = sa_vector_weight a * v + sa_lexical_weight a * lex + 15 / 100 * rx,
                  ht_vector = v, ht_lexical = lex, ht_regex = rx,
                  ht_text = li_text (snd p), ht_metadata = li_metadata (snd p)\<rparr>)"

definition search_pattern :: "ls_env \<Rightarrow> search_args \<Rightarrow> (string \<Rightarrow> bool) option result" where
  "search_pattern env a =
     (case sa_regex a of
        None \<Rightarrow> Inr None
      | Some r \<Rightarrow> if r = [] then Inr None
                  else (case env_rx env r of Inl e \<Rightarrow> Inl e | Inr f \<Rightarrow> Inr (Some f)))"

definition best_first :: "hit list \<Rightarrow> hit list" where
  "best_first hs = sort_key (\<lambda>h. (- ht_score h, ht_key h)) hs"

definition pattern_rows :: "(string \<Rightarrow> bool) option \<Rightarrow> ls_rows \<Rightarrow> ls_rows" where
  "pattern_rows pat rows = (case pat of None \<Rightarrow> rows | Some f \<Rightarrow> filter (\<lambda>p. f (li_text (snd p))) rows)"

definition row_tokens :: "ls_rows \<Rightarrow> string list list" where
  "row_tokens rows = map (\<lambda>p. tokens (li_text (snd p))) rows"

text \<open>A purely lexical query drops the rows without a match; a rank profile replaces the score.\<close>

definition lexical_only :: "search_args \<Rightarrow> (string \<Rightarrow> bool) option \<Rightarrow> bool" where
  "lexical_only a pat = (sa_vector a = None \<and> tokens (sa_text a) \<noteq> [] \<and> pat = None)"

definition rescore :: "search_args \<Rightarrow> hit list \<Rightarrow> hit list" where
  "rescore a hs = (case sa_rank_profile a of None \<Rightarrow> hs | Some r \<Rightarrow> map (\<lambda>h. h\<lparr>ht_score := r h\<rparr>) hs)"

text \<open>Everything after the candidates are known.\<close>

definition rank_rows :: "ls_env \<Rightarrow> search_args \<Rightarrow> ls_rows \<Rightarrow> hit list result" where
  "rank_rows env a candidates =
     (case search_pattern env a of
        Inl e \<Rightarrow> Inl e
      | Inr pat \<Rightarrow>
          let cands = pattern_rows pat candidates
          in case map_result (score_row a pat (row_tokens cands) (tokens (sa_text a))) cands of
               Inl e \<Rightarrow> Inl e
             | Inr scored \<Rightarrow>
                 let kept = (if lexical_only a pat then filter (\<lambda>h. ht_lexical h > 0) scored else scored)
                 in Inr (take (nat (sa_top_k a)) (best_first (rescore a kept))))"

definition search :: "ls_env \<Rightarrow> local_search \<Rightarrow> search_args \<Rightarrow> local_search \<times> hit list result" where
  "search env s a =
     (let ns = sa_namespace a; br = sa_branch a
      in if sa_top_k a \<le> 0 then (s, Inr [])
         else case ls_snapshot s ns br of
           Inl e \<Rightarrow> (s, Inl e)
         | Inr rows \<Rightarrow>
             (case namespace_metadata s ns of
                Inl e \<Rightarrow> (s, Inl e)
              | Inr v \<Rightarrow>
                  (case allowed_keys env s
                          (filter_cache_key ns br (nm_revision (nv_meta v)) (sa_filters a) (sa_principal a))
                          (sa_principal a) (sa_filters a) rows of
                     (s1, Inl e) \<Rightarrow> (s1, Inl e)
                   | (s1, Inr ks) \<Rightarrow>
                       (fill_postings s1 ns br rows,
                        rank_rows env a (filter (\<lambda>p. fst p \<in> set ks) rows)))))"


section \<open>Runs\<close>

datatype ls_op =
    LCreate string string string
  | LSchema string "(string, json) dict" string
  | LMeta string "bool option" "(string, json) dict option option" string
  | LBranch string string string
  | LUpsert string string string "pfloat list option" "(string, json) dict" string string
  | LUpdate string string string "(string, json) dict" "string option" "pfloat list option option" "int option" string
  | LDelete string string string string
  | LReembed string string "(string \<Rightarrow> pfloat list result) option" string
  | LPin string string
  | LUnpin string string
  | LSearch search_args

fun ls_step :: "ls_env \<Rightarrow> local_search \<Rightarrow> ls_op \<Rightarrow> local_search" where
  "ls_step env s (LCreate ns br now) = create_namespace s ns br now"
| "ls_step env s (LSchema ns schema now) = fst (configure_schema s ns schema now)"
| "ls_step env s (LMeta ns ro pinning now) = fst (update_namespace_metadata s ns ro pinning now)"
| "ls_step env s (LBranch ns source target) = fst (ls_branch s ns source target)"
| "ls_step env s (LUpsert ns key text vec md br now) = fst (ls_upsert env s ns key text vec md br now)"
| "ls_step env s (LUpdate ns key br md text vec expected now) =
     fst (partial_update s ns key br md text vec expected now)"
| "ls_step env s (LDelete ns key br now) = fst (ls_delete s ns key br now)"
| "ls_step env s (LReembed ns br fn now) = fst (reembed_namespace env s ns br fn now)"
| "ls_step env s (LPin ns br) = fst (ls_pin s ns br)"
| "ls_step env s (LUnpin ns br) = ls_unpin s ns br"
| "ls_step env s (LSearch a) = fst (search env s a)"

text \<open>
  The states the backend reaches, leaving out a re-embedding that raised in its loop: that one
  changes rows without touching the caches.
\<close>

definition broken_off :: "ls_env \<Rightarrow> local_search \<Rightarrow> ls_op \<Rightarrow> bool" where
  "broken_off env s op =
     (case op of LReembed ns br fn now \<Rightarrow> \<not> is_ok (snd (reembed_namespace env s ns br fn now)) | _ \<Rightarrow> False)"

inductive ls_reach :: "ls_env \<Rightarrow> local_search \<Rightarrow> bool" for env where
  ls_start: "ls_reach env (new_search now)"
| ls_next: "ls_reach env s \<Longrightarrow> \<not> broken_off env s op \<Longrightarrow> ls_reach env (ls_step env s op)"

section \<open>Branches form a forest\<close>

definition bpos :: "(string \<times> string, string option) dict \<Rightarrow> string \<times> string \<Rightarrow> nat" where
  "bpos B k = length (takeWhile (\<lambda>p. fst p \<noteq> k) B)"

definition branches_ok :: "(string \<times> string, string option) dict \<Rightarrow> bool" where
  "branches_ok B = (\<forall>ns b p. dget B (ns, b) = Some (Some p) \<longrightarrow>
     dget B (ns, p) \<noteq> None \<and> bpos B (ns, p) < bpos B (ns, b))"

lemma branches_okD:
  "branches_ok B \<Longrightarrow> dget B (ns, b) = Some (Some p) \<Longrightarrow> dget B (ns, p) \<noteq> None"
  "branches_ok B \<Longrightarrow> dget B (ns, b) = Some (Some p) \<Longrightarrow> bpos B (ns, p) < bpos B (ns, b)"
  by (auto simp: branches_ok_def)

lemma bpos_append: "dget B k \<noteq> None \<Longrightarrow> bpos (B @ C) k = bpos B k"
proof -
  assume "dget B k \<noteq> None"
  then obtain v where "(k, v) \<in> set B" by (auto dest: map_of_SomeD)
  then show ?thesis by (auto simp: bpos_def takeWhile_append1)
qed

lemma bpos_le: "bpos B k \<le> length B"
  by (simp add: bpos_def length_takeWhile_le)

lemma bpos_less: "dget B k \<noteq> None \<Longrightarrow> bpos B k < length B"
proof (induction B)
  case (Cons p B)
  then show ?case by (cases p) (auto simp: bpos_def split: if_splits)
qed simp

lemma bpos_new: "dget B k = None \<Longrightarrow> bpos (B @ [(k, v)]) k = length B"
  by (induction B) (auto simp: bpos_def split: if_splits)

lemma branches_ok_add:
  assumes ok: "branches_ok B" and new: "dget B (ns, t) = None"
    and parent: "\<And>p. v = Some p \<Longrightarrow> dget B (ns, p) \<noteq> None"
  shows "branches_ok (dput (ns, t) v B)"
proof -
  have eq: "dput (ns, t) v B = B @ [((ns, t), v)]" by (rule dput_new_append [OF new])
  have "dget (B @ [((ns, t), v)]) (n, p) \<noteq> None \<and> bpos (B @ [((ns, t), v)]) (n, p) < bpos (B @ [((ns, t), v)]) (n, b)"
    if b: "dget (B @ [((ns, t), v)]) (n, b) = Some (Some p)" for n b p
  proof (cases "dget B (n, b)")
    case None
    with b have eqs: "n = ns" "b = t" "v = Some p" by (auto split: if_splits simp: map_add_def)
    with parent have p: "dget B (ns, p) \<noteq> None" by simp
    then show ?thesis
      using bpos_less [OF p] by (auto simp: eqs bpos_append bpos_new [OF new] map_add_def)
  next
    case (Some w)
    with b have w: "w = Some p" using new by (auto simp: map_add_def split: if_splits)
    with ok Some have p: "dget B (n, p) \<noteq> None" and lt: "bpos B (n, p) < bpos B (n, b)"
      by (auto simp: branches_ok_def)
    from p lt Some show ?thesis by (auto simp: bpos_append map_add_def)
  qed
  then show ?thesis unfolding eq branches_ok_def by blast
qed

lemma walk_root:
  "dget B (ns, c) = Some None \<Longrightarrow>
     ls_walk B ns (Some c) seen = (if c \<in> set seen then ([], False) else ([c], True))"
  by simp

lemma walk_up:
  "dget B (ns, c) = Some (Some p) \<Longrightarrow> ls_walk B ns (Some c) seen =
     (if c \<in> set seen then ([], False)
      else (c # fst (ls_walk B ns (Some p) (c # seen)), snd (ls_walk B ns (Some p) (c # seen))))"
  by (simp add: split_beta)

declare ls_walk.simps(2) [simp del]

lemma walk_ends:
  assumes "branches_ok B" "dget B (ns, c) \<noteq> None" "\<And>x. x \<in> set seen \<Longrightarrow> bpos B (ns, c) < bpos B (ns, x)"
  shows "snd (ls_walk B ns (Some c) seen) \<and> (\<forall>x \<in> set (fst (ls_walk B ns (Some c) seen)). dget B (ns, x) \<noteq> None)"
  using assms(2,3)
proof (induction "bpos B (ns, c)" arbitrary: c seen rule: less_induct)
  case less
  have c: "c \<notin> set seen" using less.prems(2) by auto
  obtain parent where par: "dget B (ns, c) = Some parent" using less.prems(1) by auto
  show ?case
  proof (cases parent)
    case None
    with c par walk_root [of B ns c seen] show ?thesis by simp
  next
    case (Some p)
    with par have sp: "dget B (ns, c) = Some (Some p)" by simp
    note d = branches_okD [OF assms(1) sp]
    have "bpos B (ns, p) < bpos B (ns, x)" if "x \<in> set (c # seen)" for x
      using that d(2) less.prems(2) [of x] by auto
    with less.hyps [OF d(2) d(1), of "c # seen"]
    show ?thesis using c less.prems(1) by (simp add: walk_up [OF sp])
  qed
qed

lemma walk_extend:
  assumes "branches_ok B" "dget B (ns, c) \<noteq> None" "dget B k = None"
  shows "ls_walk (dput k v B) ns (Some c) seen = ls_walk B ns (Some c) seen"
  using assms(2)
proof (induction "bpos B (ns, c)" arbitrary: c seen rule: less_induct)
  case less
  obtain parent where par: "dget B (ns, c) = Some parent" using less.prems by auto
  have k: "k \<noteq> (ns, c)" using less.prems assms(3) by auto
  show ?case
  proof (cases parent)
    case None
    with par k have "dget (dput k v B) (ns, c) = Some None" by (simp add: dict_simps)
    with None par show ?thesis
      by (simp add: walk_root)
  next
    case (Some p)
    with par have sp: "dget B (ns, c) = Some (Some p)" by simp
    note d = branches_okD [OF assms(1) sp]
    from sp k have sp': "dget (dput k v B) (ns, c) = Some (Some p)" by (simp add: dict_simps)
    show ?thesis
      by (simp add: walk_up [OF sp] walk_up [OF sp'] less.hyps [OF d(2) d(1)])
  qed
qed

lemma chain_ends:
  assumes "branches_ok B" "dget B (ns, c) \<noteq> None"
  obtains cs where "ls_chain B ns c = Inr cs" "ls_walk B ns (Some c) [] = (cs, True)"
    "\<And>x. x \<in> set cs \<Longrightarrow> dget B (ns, x) \<noteq> None"
proof -
  obtain cs b where w: "ls_walk B ns (Some c) [] = (cs, b)" by (cases "ls_walk B ns (Some c) []")
  from walk_ends [OF assms, of "[]"] show ?thesis
    by (intro that [of cs]) (auto simp: w ls_chain_def)
qed


section \<open>Rows and writes\<close>

lemma level_rows_put_other:
  "(n, b) \<noteq> (ns, br) \<Longrightarrow> level_rows (dput (ns, br, key) it I) n b = level_rows I n b"
  by (induction I) (auto simp: level_rows_def)

lemma dget_level: "dget (level_rows I ns br) k = dget I (ns, br, k)"
  by (induction I) (auto simp: level_rows_def)

lemma dget_add_rows: "dget (add_rows acc rows) k = (case dget acc k of None \<Rightarrow> dget rows k | Some v \<Rightarrow> Some v)"
  unfolding add_rows_def
  by (induction rows arbitrary: acc) (auto simp: dict_simps split: option.splits)

text \<open>The version of a key that a branch sees: the first level of its chain that has the key.\<close>

fun first_level :: "(string \<times> string \<times> string, ls_item) dict \<Rightarrow> string \<Rightarrow> string list \<Rightarrow> string \<Rightarrow> ls_item option" where
  "first_level I ns [] k = None"
| "first_level I ns (b # bs) k = (case dget I (ns, b, k) of Some it \<Rightarrow> Some it | None \<Rightarrow> first_level I ns bs k)"

definition rows_of_chain :: "(string \<times> string \<times> string, ls_item) dict \<Rightarrow> string \<Rightarrow> string list \<Rightarrow> ls_rows" where
  "rows_of_chain I ns cs = foldl (\<lambda>acc b. add_rows acc (level_rows I ns b)) [] cs"

lemma dget_rows_of_chain: "dget (rows_of_chain I ns cs) k = first_level I ns cs k"
proof -
  have "dget (foldl (\<lambda>acc b. add_rows acc (level_rows I ns b)) acc cs) k =
      (case dget acc k of None \<Rightarrow> first_level I ns cs k | Some v \<Rightarrow> Some v)" for acc
    by (induction cs arbitrary: acc) (auto simp: dget_add_rows dget_level split: option.splits)
  then show ?thesis by (simp add: rows_of_chain_def)
qed

lemma rows_of_chain_cong:
  assumes "\<And>b. b \<in> set cs \<Longrightarrow> level_rows I' ns b = level_rows I ns b"
  shows "rows_of_chain I' ns cs = rows_of_chain I ns cs"
proof -
  have "foldl (\<lambda>acc b. add_rows acc (level_rows I' ns b)) acc cs = foldl (\<lambda>acc b. add_rows acc (level_rows I ns b)) acc cs" for acc
    using assms by (induction cs arbitrary: acc) auto
  then show ?thesis by (simp add: rows_of_chain_def)
qed

lemma ls_rows_chain:
  "has_branch s ns br \<Longrightarrow> ls_chain (ls_branches s) ns br = Inr cs \<Longrightarrow>
     ls_rows_of s ns br = Inr (rows_of_chain (ls_items s) ns cs)"
  by (simp add: ls_rows_of_def rows_of_chain_def)

lemma wf_add_rows: "wf_dict acc \<Longrightarrow> wf_dict (add_rows acc rows)"
  unfolding add_rows_def
  by (induction rows arbitrary: acc) (auto simp: dsetdefault_def split: option.split)

lemma wf_rows_of_chain: "wf_dict (rows_of_chain I ns cs)"
proof -
  have "wf_dict acc \<Longrightarrow> wf_dict (foldl (\<lambda>acc b. add_rows acc (level_rows I ns b)) acc cs)" for acc
    by (induction cs arbitrary: acc) (auto intro: wf_add_rows)
  then show ?thesis by (simp add: rows_of_chain_def)
qed

section \<open>Every cache answers as the tables do\<close>

definition cached_ok :: "ls_env \<Rightarrow> local_search \<Rightarrow> filter_key \<times> string list \<Rightarrow> bool" where
  "cached_ok env s c = (case c of ((ns, br, r, cf, pt), ks) \<Rightarrow>
     has_branch s ns br \<and>
     (\<exists>f pr rows adm. sorted_json (no_filter_empty f) = cf \<and> principal_text pr = pt
        \<and> ls_rows_of s ns br = Inr rows \<and> admitted env pr f rows = Inr adm \<and> ks = dkeys adm))"

definition pin_ok :: "local_search \<Rightarrow> (string \<times> string) \<times> ls_rows \<Rightarrow> bool" where
  "pin_ok s p = (has_branch s (fst (fst p)) (snd (fst p))
     \<and> ls_rows_of s (fst (fst p)) (snd (fst p)) = Inr (snd p))"

definition ls_inv :: "ls_env \<Rightarrow> local_search \<Rightarrow> bool" where
  "ls_inv env s = (branches_ok (ls_branches s)
     \<and> (\<forall>k \<in> set (dkeys (ls_branches s)). dget (ls_namespaces s) (fst k) \<noteq> None)
     \<and> (\<forall>p \<in> set (ls_pinned s). pin_ok s p)
     \<and> (\<forall>c \<in> set (ls_filter_cache s). cached_ok env s c))"

lemma ls_invI:
  assumes "branches_ok (ls_branches s)"
    and "\<And>k. k \<in> set (dkeys (ls_branches s)) \<Longrightarrow> dget (ls_namespaces s) (fst k) \<noteq> None"
    and "\<And>p. p \<in> set (ls_pinned s) \<Longrightarrow> pin_ok s p"
    and "\<And>c. c \<in> set (ls_filter_cache s) \<Longrightarrow> cached_ok env s c"
  shows "ls_inv env s"
  using assms unfolding ls_inv_def by blast

lemma ls_invD:
  assumes "ls_inv env s"
  shows "branches_ok (ls_branches s)"
    and "k \<in> set (dkeys (ls_branches s)) \<Longrightarrow> dget (ls_namespaces s) (fst k) \<noteq> None"
    and "p \<in> set (ls_pinned s) \<Longrightarrow> pin_ok s p"
    and "c \<in> set (ls_filter_cache s) \<Longrightarrow> cached_ok env s c"
  using assms unfolding ls_inv_def by blast+

text \<open>What a reader sees depends on the branches and on the levels of its own chain.\<close>

lemma rows_unchanged:
  assumes "branches_ok (ls_branches s)" "has_branch s ns br"
    and same: "ls_branches s' = ls_branches s"
    and levels: "\<And>b. b \<in> set (fst (ls_walk (ls_branches s) ns (Some br) [])) \<Longrightarrow>
      level_rows (ls_items s') ns b = level_rows (ls_items s) ns b"
  shows "ls_rows_of s' ns br = ls_rows_of s ns br"
proof -
  from assms(2) have "dget (ls_branches s) (ns, br) \<noteq> None" by (simp add: has_branch_def)
  from chain_ends [OF assms(1) this] obtain cs
    where cs: "ls_chain (ls_branches s) ns br = Inr cs" and w: "ls_walk (ls_branches s) ns (Some br) [] = (cs, True)"
    by blast
  have hb: "has_branch s' ns br" using assms(2) same by (simp add: has_branch_def)
  have "rows_of_chain (ls_items s') ns cs = rows_of_chain (ls_items s) ns cs"
    by (rule rows_of_chain_cong) (simp add: levels w)
  then show ?thesis
    using ls_rows_chain [OF assms(2) cs] ls_rows_chain [OF hb] cs same by simp
qed

lemma keep_pins_Inr:
  assumes "branches_ok B" "\<And>p. p \<in> set ps \<Longrightarrow> dget B (fst p) \<noteq> None"
  obtains ps' where "keep_pins B ns changed ps = Inr ps'"
    "\<And>p. p \<in> set ps' \<longleftrightarrow> p \<in> set ps \<and>
       (fst (fst p) = ns \<longrightarrow> changed \<notin> set (fst (ls_walk B ns (Some (snd (fst p))) [])))"
proof -
  have "\<exists>ps'. keep_pins B ns changed ps = Inr ps' \<and> (\<forall>p. p \<in> set ps' \<longleftrightarrow> p \<in> set ps \<and>
       (fst (fst p) = ns \<longrightarrow> changed \<notin> set (fst (ls_walk B ns (Some (snd (fst p))) []))))"
    using assms(2)
  proof (induction ps)
    case (Cons p ps)
    obtain n b rows where p: "p = ((n, b), rows)" by (metis surj_pair)
    have "dget B (n, b) \<noteq> None" using Cons.prems [of p] p by simp
    from chain_ends [OF assms(1) this] obtain cs where
      "ls_walk B n (Some b) [] = (cs, True)" by blast
    then have inh: "inherits B n b changed = Inr (changed \<in> set (fst (ls_walk B n (Some b) [])))"
      by (simp add: inherits_def)
    from Cons obtain ps' where ps': "keep_pins B ns changed ps = Inr ps'"
      "\<And>p. p \<in> set ps' \<longleftrightarrow> p \<in> set ps \<and>
       (fst (fst p) = ns \<longrightarrow> changed \<notin> set (fst (ls_walk B ns (Some (snd (fst p))) [])))" by auto
    show ?case
    proof (cases "n = ns")
      case True
      with inh have "inherits B ns b changed = Inr (changed \<in> set (fst (ls_walk B ns (Some b) [])))" by simp
      with ps' True show ?thesis by (auto simp: p)
    next
      case False
      with ps' show ?thesis by (auto simp: p)
    qed
  qed simp
  then show ?thesis using that by blast
qed

text \<open>
  The end of every write: levels other than the written one are as before, and invalidation
  removes exactly what the written level could change.
\<close>

lemma invalidate_keeps:
  assumes inv: "ls_inv env s"
    and B: "ls_branches s1 = ls_branches s" and P: "ls_pinned s1 = ls_pinned s"
    and F: "ls_filter_cache s1 = ls_filter_cache s"
    and N: "\<And>n. dget (ls_namespaces s) n \<noteq> None \<Longrightarrow> dget (ls_namespaces s1) n \<noteq> None"
    and L: "\<And>n b. (n, b) \<noteq> (ns, br) \<Longrightarrow> level_rows (ls_items s1) n b = level_rows (ls_items s) n b"
  shows "snd (ls_invalidate s1 ns br) = Inr () \<and> ls_inv env (fst (ls_invalidate s1 ns br))
    \<and> ls_items (fst (ls_invalidate s1 ns br)) = ls_items s1
    \<and> ls_branches (fst (ls_invalidate s1 ns br)) = ls_branches s
    \<and> ls_namespaces (fst (ls_invalidate s1 ns br)) = ls_namespaces s1"
proof -
  note ok = ls_invD(1) [OF inv]
  have "dget (ls_branches s) (fst p) \<noteq> None" if "p \<in> set (ls_pinned s)" for p
    using ls_invD(3) [OF inv that] by (simp add: pin_ok_def has_branch_def)
  then obtain ps where ps: "keep_pins (ls_branches s) ns br (ls_pinned s) = Inr ps"
    and mem: "\<And>p. p \<in> set ps \<longleftrightarrow> p \<in> set (ls_pinned s) \<and>
       (fst (fst p) = ns \<longrightarrow> br \<notin> set (fst (ls_walk (ls_branches s) ns (Some (snd (fst p))) [])))"
    using keep_pins_Inr [OF ok, of "ls_pinned s" ns br] by blast
  define s2 where "s2 = s1\<lparr>ls_filter_cache := filter (\<lambda>p. fst (fst p) \<noteq> ns) (ls_filter_cache s),
                 ls_postings := filter (\<lambda>p. fst (fst p) \<noteq> ns) (ls_postings s1), ls_pinned := ps\<rparr>"
  have eq: "ls_invalidate s1 ns br = (s2, Inr ())"
    by (simp add: ls_invalidate_def B P F ps s2_def)
  have B2: "ls_branches s2 = ls_branches s" and I2: "ls_items s2 = ls_items s1"
    by (simp_all add: s2_def B)
  have hb: "has_branch s2 n b = has_branch s n b" for n b by (simp add: has_branch_def B2)
  have "ls_inv env s2"
  proof (rule ls_invI)
    show "branches_ok (ls_branches s2)" using ok by (simp add: B2)
    show "dget (ls_namespaces s2) (fst k) \<noteq> None" if "k \<in> set (dkeys (ls_branches s2))" for k
      using N [OF ls_invD(2) [OF inv]] that by (simp add: s2_def B)
    show "pin_ok s2 p" if "p \<in> set (ls_pinned s2)" for p
    proof -
      from that mem [of p] have p: "p \<in> set (ls_pinned s)"
        and out: "fst (fst p) = ns \<longrightarrow> br \<notin> set (fst (ls_walk (ls_branches s) ns (Some (snd (fst p))) []))"
        by (simp_all add: s2_def)
      from ls_invD(3) [OF inv p] have pok: "pin_ok s p" .
      then have hbp: "has_branch s (fst (fst p)) (snd (fst p))" by (simp add: pin_ok_def)
      have "ls_rows_of s2 (fst (fst p)) (snd (fst p)) = ls_rows_of s (fst (fst p)) (snd (fst p))"
      proof (rule rows_unchanged [OF ok hbp B2])
        fix b assume "b \<in> set (fst (ls_walk (ls_branches s) (fst (fst p)) (Some (snd (fst p))) []))"
        with out have "(fst (fst p), b) \<noteq> (ns, br)" by auto
        from L [OF this] show "level_rows (ls_items s2) (fst (fst p)) b = level_rows (ls_items s) (fst (fst p)) b"
          by (simp add: I2)
      qed
      with pok show ?thesis by (simp add: pin_ok_def hb)
    qed
    show "cached_ok env s2 c" if "c \<in> set (ls_filter_cache s2)" for c
    proof -
      obtain n b r cf pt ks where c: "c = ((n, b, r, cf, pt), ks)" by (metis surj_pair)
      from that have cm: "c \<in> set (ls_filter_cache s)" and n: "n \<noteq> ns" by (auto simp: s2_def c)
      from ls_invD(4) [OF inv cm] have cok: "cached_ok env s c" .
      then have hbc: "has_branch s n b" by (simp add: cached_ok_def c)
      have "ls_rows_of s2 n b = ls_rows_of s n b"
        using n L by (intro rows_unchanged [OF ok hbc B2]) (simp add: I2)
      with cok show ?thesis by (simp add: cached_ok_def c hb)
    qed
  qed
  then show ?thesis by (simp add: eq I2 B2) (simp add: s2_def)
qed


lemma put_meta_frame [simp]:
  "ls_branches (put_meta ns f s) = ls_branches s" "ls_items (put_meta ns f s) = ls_items s"
  "ls_pinned (put_meta ns f s) = ls_pinned s" "ls_filter_cache (put_meta ns f s) = ls_filter_cache s"
  "dget (ls_namespaces s) n \<noteq> None \<Longrightarrow> dget (ls_namespaces (put_meta ns f s)) n \<noteq> None"
  by (auto simp: put_meta_def dict_simps split: option.split)

lemma commit_row_keeps:
  assumes "ls_inv env s"
  shows "snd (commit_row s ns br key it now) = Inr () \<and> ls_inv env (fst (commit_row s ns br key it now))
    \<and> ls_items (fst (commit_row s ns br key it now)) = dput (ns, br, key) it (ls_items s)
    \<and> ls_branches (fst (commit_row s ns br key it now)) = ls_branches s"
proof -
  have "snd (ls_invalidate (put_meta ns (touch now) (s\<lparr>ls_items := dput (ns, br, key) it (ls_items s)\<rparr>)) ns br) = Inr ()
    \<and> ls_inv env (fst (ls_invalidate (put_meta ns (touch now) (s\<lparr>ls_items := dput (ns, br, key) it (ls_items s)\<rparr>)) ns br))
    \<and> ls_items (fst (ls_invalidate (put_meta ns (touch now) (s\<lparr>ls_items := dput (ns, br, key) it (ls_items s)\<rparr>)) ns br))
        = ls_items (put_meta ns (touch now) (s\<lparr>ls_items := dput (ns, br, key) it (ls_items s)\<rparr>))
    \<and> ls_branches (fst (ls_invalidate (put_meta ns (touch now) (s\<lparr>ls_items := dput (ns, br, key) it (ls_items s)\<rparr>)) ns br)) = ls_branches s
    \<and> ls_namespaces (fst (ls_invalidate (put_meta ns (touch now) (s\<lparr>ls_items := dput (ns, br, key) it (ls_items s)\<rparr>)) ns br))
        = ls_namespaces (put_meta ns (touch now) (s\<lparr>ls_items := dput (ns, br, key) it (ls_items s)\<rparr>))"
  proof (rule invalidate_keeps [OF assms])
    fix n assume "dget (ls_namespaces s) n \<noteq> None"
    then have "dget (ls_namespaces (s\<lparr>ls_items := dput (ns, br, key) it (ls_items s)\<rparr>)) n \<noteq> None" by simp
    from put_meta_frame(5) [OF this]
    show "dget (ls_namespaces (put_meta ns (touch now) (s\<lparr>ls_items := dput (ns, br, key) it (ls_items s)\<rparr>))) n \<noteq> None" .
  qed (simp_all add: level_rows_put_other)
  then show ?thesis by (simp add: commit_row_def)
qed

lemmas commit_row_D =
  commit_row_keeps [THEN conjunct1] commit_row_keeps [THEN conjunct2, THEN conjunct1]
  commit_row_keeps [THEN conjunct2, THEN conjunct2, THEN conjunct1]
  commit_row_keeps [THEN conjunct2, THEN conjunct2, THEN conjunct2]

lemma upsert_keeps: "ls_inv env s \<Longrightarrow> ls_inv env (fst (ls_upsert env s ns key text vec md br now))"
  by (auto simp: ls_upsert_def commit_row_D(2) split: sum.split prod.split)

lemma delete_keeps: "ls_inv env s \<Longrightarrow> ls_inv env (fst (ls_delete s ns key br now))"
  by (auto simp: ls_delete_def Let_def commit_row_D(2))

lemma update_keeps:
  assumes "ls_inv env s"
  shows "ls_inv env (fst (partial_update s ns key br md text vec expected now))"
proof -
  have c: "ls_inv env (fst (case commit_row s ns br key it now of
      (s', Inl e) \<Rightarrow> (s', Inl e) | (s', Inr _) \<Rightarrow> (s', Inr x)))" for it and x :: int
    using commit_row_D(2) [OF assms, of ns br key it now]
    by (auto split: prod.split sum.split)
  show ?thesis
    unfolding partial_update_def Let_def
    using assms c by (auto split: sum.split option.split)
qed

lemma meta_keeps:
  assumes "ls_inv env s"
  shows "ls_inv env (fst (ls_invalidate (put_meta ns f s) ns x)) \<and> snd (ls_invalidate (put_meta ns f s) ns x) = Inr ()"
  using invalidate_keeps [OF assms, of "put_meta ns f s" ns x] by simp

lemma fst_after:
  "fst (case x of (s2, Inl e) \<Rightarrow> (s2, Inl e) | (s2, Inr u) \<Rightarrow> (s2, g s2 u)) = fst x"
  by (simp split: prod.split sum.split)

lemma schema_keeps: "ls_inv env s \<Longrightarrow> ls_inv env (fst (configure_schema s ns schema now))"
  by (simp add: configure_schema_def Let_def fst_after meta_keeps)

lemma namespace_meta_keeps: "ls_inv env s \<Longrightarrow> ls_inv env (fst (update_namespace_metadata s ns ro pinning now))"
  by (simp add: update_namespace_metadata_def Let_def fst_after meta_keeps)

text \<open>A new branch is on no chain that exists.\<close>

lemma rows_extend:
  assumes "branches_ok (ls_branches s)" "has_branch s ns br" "dget (ls_branches s) k = None"
    and "ls_branches s' = dput k v (ls_branches s)" "ls_items s' = ls_items s"
  shows "has_branch s' ns br \<and> ls_rows_of s' ns br = ls_rows_of s ns br"
proof -
  from assms(2) have d: "dget (ls_branches s) (ns, br) \<noteq> None" by (simp add: has_branch_def)
  have "ls_chain (ls_branches s') ns br = ls_chain (ls_branches s) ns br"
    by (simp add: ls_chain_def assms(4) walk_extend [OF assms(1) d assms(3)])
  moreover have "has_branch s' ns br" using d by (auto simp: has_branch_def assms(4) dict_simps)
  ultimately show ?thesis using assms(2) by (auto simp: ls_rows_of_def assms(5) split: sum.split)
qed

lemma new_branch_keeps:
  assumes inv: "ls_inv env s" and new: "dget (ls_branches s) (ns, t) = None"
    and B: "ls_branches s' = dput (ns, t) v (ls_branches s)" and I: "ls_items s' = ls_items s"
    and P: "ls_pinned s' = ls_pinned s" and F: "ls_filter_cache s' = ls_filter_cache s"
    and par: "\<And>p. v = Some p \<Longrightarrow> dget (ls_branches s) (ns, p) \<noteq> None"
    and N: "\<And>n. dget (ls_namespaces s) n \<noteq> None \<or> n = ns \<Longrightarrow> dget (ls_namespaces s') n \<noteq> None"
  shows "ls_inv env s'"
proof (rule ls_invI)
  note ext = rows_extend [OF ls_invD(1) [OF inv] _ new B I]
  show "branches_ok (ls_branches s')"
    unfolding B by (rule branches_ok_add [OF ls_invD(1) [OF inv] new par])
  show "dget (ls_namespaces s') (fst k) \<noteq> None" if "k \<in> set (dkeys (ls_branches s'))" for k
  proof (rule N)
    from that have "k = (ns, t) \<or> k \<in> set (dkeys (ls_branches s))" by (simp add: B del: set_map)
    then show "dget (ls_namespaces s) (fst k) \<noteq> None \<or> fst k = ns"
      using ls_invD(2) [OF inv, of k] by auto
  qed
  show "pin_ok s' p" if "p \<in> set (ls_pinned s')" for p
    using ls_invD(3) [OF inv, of p] that ext by (auto simp: pin_ok_def P)
  show "cached_ok env s' c" if cin: "c \<in> set (ls_filter_cache s')" for c
  proof -
    obtain n b r cf pt ks where c: "c = ((n, b, r, cf, pt), ks)" by (metis surj_pair)
    from ls_invD(4) [OF inv, of c] cin have cok: "cached_ok env s c" by (simp add: F)
    then have "has_branch s n b" by (simp add: cached_ok_def c)
    from ext [OF this] cok show ?thesis by (simp add: cached_ok_def c)
  qed
qed

lemma branch_keeps: "ls_inv env s \<Longrightarrow> ls_inv env (fst (ls_branch s ns source target))"
proof -
  assume inv: "ls_inv env s"
  show ?thesis
  proof (cases "has_branch s ns source \<and> \<not> has_branch s ns target")
    case True
    then have "dget (ls_branches s) (ns, source) \<noteq> None" and new: "dget (ls_branches s) (ns, target) = None"
      by (auto simp: has_branch_def)
    then have "dget (ls_namespaces s) ns \<noteq> None"
      using ls_invD(2) [OF inv, of "(ns, source)"] mem_dkeys [of "ls_branches s" "(ns, source)"] by auto
    with True show ?thesis
      by (intro new_branch_keeps [OF inv new, where v = "Some source"])
        (auto simp: ls_branch_def has_branch_def)
  qed (use inv in \<open>auto simp: ls_branch_def\<close>)
qed

lemma create_keeps:
  assumes inv: "ls_inv env s"
  shows "ls_inv env (create_namespace s ns br now)"
proof (cases "dget (ls_branches s) (ns, br)")
  case None
  then show ?thesis
    by (intro new_branch_keeps [OF inv None, where v = None])
      (auto simp: create_namespace_def dsetdefault_def dict_simps split: option.split)
next
  case (Some p)
  have "dget (ls_namespaces s) ns \<noteq> None"
    using ls_invD(2) [OF inv mem_dkeys [OF Some]] by simp
  with Some have "create_namespace s ns br now = s"
    by (auto simp: create_namespace_def dsetdefault_def)
  then show ?thesis using inv by simp
qed


lemma rows_has_branch: "ls_rows_of s ns br = Inr rows \<Longrightarrow> has_branch s ns br"
  by (auto simp: ls_rows_of_def split: if_splits)

lemma rows_wf: "ls_rows_of s ns br = Inr rows \<Longrightarrow> wf_dict rows"
  using wf_rows_of_chain by (auto simp: ls_rows_of_def rows_of_chain_def split: if_splits sum.splits)

lemma snapshot_rows:
  assumes "ls_inv env s"
  shows "ls_snapshot s ns br = ls_rows_of s ns br"
proof (cases "dget (ls_pinned s) (ns, br)")
  case (Some rows)
  from ls_invD(3) [OF assms map_of_SomeD [OF Some]] have "ls_rows_of s ns br = Inr rows"
    by (simp add: pin_ok_def)
  then show ?thesis by (simp add: ls_snapshot_def Some)
qed (simp add: ls_snapshot_def)

lemma rows_frame:
  assumes "ls_branches s' = ls_branches s" "ls_items s' = ls_items s"
  shows "ls_rows_of s' ns br = ls_rows_of s ns br" "has_branch s' ns br = has_branch s ns br"
  by (auto simp: ls_rows_of_def has_branch_def assms split: sum.split)

text \<open>An operation that touches only the caches keeps the invariant if what it adds is right.\<close>

lemma cache_keeps:
  assumes inv: "ls_inv env s"
    and "ls_branches s' = ls_branches s" "ls_items s' = ls_items s" "ls_namespaces s' = ls_namespaces s"
    and P: "\<And>p. p \<in> set (ls_pinned s') \<Longrightarrow> p \<in> set (ls_pinned s) \<or> pin_ok s p"
    and F: "\<And>c. c \<in> set (ls_filter_cache s') \<Longrightarrow> c \<in> set (ls_filter_cache s) \<or> cached_ok env s c"
  shows "ls_inv env s'"
proof (rule ls_invI)
  note fr = rows_frame [OF assms(2,3)]
  show "branches_ok (ls_branches s')" using ls_invD(1) [OF inv] by (simp add: assms)
  show "dget (ls_namespaces s') (fst k) \<noteq> None" if "k \<in> set (dkeys (ls_branches s'))" for k
    using ls_invD(2) [OF inv, of k] that by (simp add: assms)
  show "pin_ok s' p" if "p \<in> set (ls_pinned s')" for p
    using P [OF that] ls_invD(3) [OF inv, of p] by (auto simp: pin_ok_def fr)
  show "cached_ok env s' c" if "c \<in> set (ls_filter_cache s')" for c
    using F [OF that] ls_invD(4) [OF inv, of c] by (auto simp: cached_ok_def fr)
qed

lemma pin_keeps: "ls_inv env s \<Longrightarrow> ls_inv env (fst (ls_pin s ns br))"
  by (auto simp: ls_pin_def pin_ok_def dest!: dput_mem intro: rows_has_branch elim!: cache_keeps
      split: sum.split)

lemma unpin_keeps: "ls_inv env s \<Longrightarrow> ls_inv env (ls_unpin s ns br)"
  by (rule cache_keeps) (auto simp: ls_unpin_def dest: dpop_mem)

lemma allowed_frame:
  "ls_branches (fst (allowed_keys env s fk pr f rows)) = ls_branches s"
  "ls_items (fst (allowed_keys env s fk pr f rows)) = ls_items s"
  "ls_namespaces (fst (allowed_keys env s fk pr f rows)) = ls_namespaces s"
  "ls_pinned (fst (allowed_keys env s fk pr f rows)) = ls_pinned s"
  by (simp_all add: allowed_keys_def Let_def split: option.split sum.split)

lemma allowed_keeps:
  assumes inv: "ls_inv env s" and rows: "ls_rows_of s ns br = Inr rows"
  shows "ls_inv env (fst (allowed_keys env s (filter_cache_key ns br r f pr) pr f rows))"
proof (rule cache_keeps [OF inv])
  fix c assume c: "c \<in> set (ls_filter_cache (fst (allowed_keys env s (filter_cache_key ns br r f pr) pr f rows)))"
  have new: "cached_ok env s (filter_cache_key ns br r f pr, dkeys adm)" if "admitted env pr f rows = Inr adm" for adm
    using that rows rows_has_branch [OF rows]
    unfolding cached_ok_def filter_cache_key_def by fastforce
  from c show "c \<in> set (ls_filter_cache s) \<or> cached_ok env s c"
    by (auto simp: allowed_keys_def Let_def new split: option.splits sum.splits dest!: dput_mem)
qed (simp_all add: allowed_frame)

lemma fill_postings_frame [simp]:
  "ls_branches (fill_postings s ns br rows) = ls_branches s" "ls_items (fill_postings s ns br rows) = ls_items s"
  "ls_namespaces (fill_postings s ns br rows) = ls_namespaces s"
  "ls_pinned (fill_postings s ns br rows) = ls_pinned s"
  "ls_filter_cache (fill_postings s ns br rows) = ls_filter_cache s"
  by (simp_all add: fill_postings_def)

lemma fill_postings_keeps: "ls_inv env s \<Longrightarrow> ls_inv env (fill_postings s ns br rows)"
  by (erule cache_keeps) simp_all

lemma search_keeps:
  assumes inv: "ls_inv env s"
  shows "ls_inv env (fst (search env s a))"
proof (cases "ls_snapshot s (sa_namespace a) (sa_branch a)")
  case (Inr rows)
  then have rows: "ls_rows_of s (sa_namespace a) (sa_branch a) = Inr rows"
    by (simp add: snapshot_rows [OF inv])
  show ?thesis
    using allowed_keeps [OF inv rows, of _ "sa_filters a" "sa_principal a"] inv
    unfolding search_def Let_def Inr
    by (auto split: sum.split prod.split intro: fill_postings_keeps) (metis fst_conv fill_postings_keeps)+
qed (use inv in \<open>simp add: search_def Let_def\<close>)

lemma reembed_rows_frame:
  "ls_branches (fst (reembed_rows fn cfg ns br ps s)) = ls_branches s"
  "ls_pinned (fst (reembed_rows fn cfg ns br ps s)) = ls_pinned s"
  "ls_filter_cache (fst (reembed_rows fn cfg ns br ps s)) = ls_filter_cache s"
  "ls_namespaces (fst (reembed_rows fn cfg ns br ps s)) = ls_namespaces s"
  "(n, b) \<noteq> (ns, br) \<Longrightarrow>
     level_rows (ls_items (fst (reembed_rows fn cfg ns br ps s))) n b = level_rows (ls_items s) n b"
  by (induction ps arbitrary: s) (auto simp: Let_def level_rows_put_other split: sum.split)

lemma reembed_keeps:
  assumes inv: "ls_inv env s" and ok: "is_ok (snd (reembed_namespace env s ns br fn now))"
  shows "ls_inv env (fst (reembed_namespace env s ns br fn now))"
proof -
  have fin: "ls_inv env (fst (ls_invalidate (put_meta ns (touch now) s1) ns br))"
    if "s1 = fst (reembed_rows f cfg ns br ps s)" for s1 f cfg ps
  proof -
    have "dget (ls_namespaces (put_meta ns (touch now) s1)) n \<noteq> None" if n: "dget (ls_namespaces s) n \<noteq> None" for n
    proof -
      from n have "dget (ls_namespaces s1) n \<noteq> None" by (simp add: \<open>s1 = _\<close> reembed_rows_frame)
      then show ?thesis by (rule put_meta_frame(5))
    qed
    then show ?thesis
      using invalidate_keeps [OF inv, of "put_meta ns (touch now) s1" ns br]
      by (simp add: that reembed_rows_frame)
  qed
  show ?thesis
    using ok inv unfolding reembed_namespace_def Let_def
    by (auto simp: fst_after split: option.splits if_splits sum.splits prod.splits)
      (metis fin fst_conv)+
qed

lemma reach_inv: "ls_reach env s \<Longrightarrow> ls_inv env s"
proof (induction rule: ls_reach.induct)
  case (ls_start now)
  show ?case
    by (rule ls_invI) (auto simp: new_search_def branches_ok_def split: if_splits)
next
  case (ls_next s op)
  then show ?case
    by (cases op)
      (auto simp: broken_off_def create_keeps schema_keeps namespace_meta_keeps branch_keeps upsert_keeps
        update_keeps delete_keeps reembed_keeps pin_keeps unpin_keeps search_keeps)
qed

end
