(* ===== verification/Search_Laws.thy ===== *)
theory Search_Laws
  imports Local_Search
begin

text \<open>
  What the search backend promises its callers: pinned snapshots and the filter cache answer as
  the tables do, hits are visible to their caller and complete, branches are copy on write and
  \<open>partial_update\<close> is a test and set; and two places where it does not keep its word, the cache
  entry that two principals share and a re-embedding that breaks off.
\<close>

section \<open>Reading\<close>

text \<open>A pinned snapshot is never stale: what a reader starts from is what the tables say, after
  any sequence of operations in which no re-embedding broke off. On the way the parents of a
  branch are walked to the root without meeting a cycle.\<close>

theorem snapshot_is_current:
  assumes "ls_reach env s"
  shows "ls_snapshot s ns br = ls_rows_of s ns br
    \<and> (has_branch s ns br \<longrightarrow> (\<exists>cs. ls_chain (ls_branches s) ns br = Inr cs
         \<and> (\<exists>rows. ls_rows_of s ns br = Inr rows \<and> wf_dict rows
              \<and> (\<forall>k. dget rows k = first_level (ls_items s) ns cs k))))"
proof (intro conjI impI)
  note inv = reach_inv [OF assms]
  show "ls_snapshot s ns br = ls_rows_of s ns br" by (rule snapshot_rows [OF inv])
  assume hb: "has_branch s ns br"
  then have "dget (ls_branches s) (ns, br) \<noteq> None" by (simp add: has_branch_def)
  from chain_ends [OF ls_invD(1) [OF inv] this] obtain cs where cs: "ls_chain (ls_branches s) ns br = Inr cs" by blast
  from ls_rows_chain [OF hb cs] cs
  show "\<exists>cs. ls_chain (ls_branches s) ns br = Inr cs
         \<and> (\<exists>rows. ls_rows_of s ns br = Inr rows \<and> wf_dict rows
              \<and> (\<forall>k. dget rows k = first_level (ls_items s) ns cs k))"
    by (simp add: dget_rows_of_chain wf_rows_of_chain)
qed

definition demo_env :: ls_env where
  "demo_env = \<lparr>env_shown = (\<lambda>_. []), env_rx = (\<lambda>r. Inr (\<lambda>t. is_substring r t)), env_embed = None\<rparr>"

definition demo_search_ops :: "ls_op list" where
  "demo_search_ops = [LUpsert ''default'' ''a'' ''red fox'' None [(''acl'', JList [JStr ''ann''])] ''main'' ''t1'',
     LBranch ''default'' ''main'' ''dev'', LPin ''default'' ''dev'',
     LUpsert ''default'' ''b'' ''blue fox'' None [] ''dev'' ''t2'', LPin ''default'' ''main'']"

definition demo_state :: local_search where
  "demo_state = run_steps (ls_step demo_env) (new_search ''t0'') demo_search_ops"

lemma demo_reach: "ls_reach demo_env demo_state"
  unfolding demo_state_def demo_search_ops_def run_steps.simps
  by (intro ls_next ls_start) (simp_all add: broken_off_def)

theorem snapshot_is_current_witness:
  "ls_snapshot demo_state ''default'' ''main'' = ls_rows_of demo_state ''default'' ''main''"
  using snapshot_is_current [OF demo_reach] by blast

lemma admitted_spec:
  "admitted env pr f ps = Inr qs \<Longrightarrow>
     qs = filter (\<lambda>p. admits env pr f (snd p) = Inr True) ps"
  by (induction ps arbitrary: qs) (auto split: sum.splits if_splits)

lemma admits_True:
  "admits env pr f it = Inr True \<Longrightarrow> \<not> li_deleted it \<and> authorized (li_metadata it) pr = Inr True
     \<and> match_filter (env_shown env) (li_metadata it) (no_filter_empty f) = Inr True"
  by (auto simp: admits_def split: if_splits sum.splits bool.splits)

lemma score_row_hit:
  "score_row a pat docs qs p = Inr h \<Longrightarrow>
     ht_key h = fst p \<and> ht_text h = li_text (snd p) \<and> ht_metadata h = li_metadata (snd p)
     \<and> ht_lexical h = lexical_score docs qs (tokens (li_text (snd p)))"
  by (auto simp: score_row_def Let_def split: sum.splits)

lemma rank_rows_parts:
  assumes "rank_rows env a cands = Inr hits"
  obtains pat scored where
    "map_result (score_row a pat (row_tokens (pattern_rows pat cands)) (tokens (sa_text a))) (pattern_rows pat cands) = Inr scored"
    "search_pattern env a = Inr pat"
    "hits = take (nat (sa_top_k a)) (best_first (rescore a
       (if lexical_only a pat then filter (\<lambda>h. ht_lexical h > 0) scored else scored)))"
  using assms by (auto simp: rank_rows_def Let_def split: sum.splits)

text \<open>The scored rows are the candidates in order.\<close>

lemma scored_rows:
  assumes "map_result (score_row a pat docs qs) cs = Inr scored"
  shows "map ht_key scored = dkeys cs"
    and "h \<in> set scored \<Longrightarrow> \<exists>p \<in> set cs. score_row a pat docs qs p = Inr h"
    and "p \<in> set cs \<Longrightarrow> \<exists>h \<in> set scored. score_row a pat docs qs p = Inr h"
proof -
  note all2 = map_result_Inr [OF assms]
  show "map ht_key scored = dkeys cs"
    using all2 by (induction rule: list_all2_induct) (auto dest: score_row_hit)
  show "\<exists>p \<in> set cs. score_row a pat docs qs p = Inr h" if "h \<in> set scored"
    using all2 that by (induction rule: list_all2_induct) auto
  show "\<exists>h \<in> set scored. score_row a pat docs qs p = Inr h" if "p \<in> set cs"
    using all2 that by (induction rule: list_all2_induct) auto
qed

lemma rescore_hit:
  "h \<in> set (rescore a hs) \<Longrightarrow> \<exists>g \<in> set hs. ht_key h = ht_key g \<and> ht_text h = ht_text g \<and> ht_metadata h = ht_metadata g"
  by (auto simp: rescore_def split: option.splits)

text \<open>Every hit comes from a candidate.\<close>

lemma rank_rows_hit:
  assumes "rank_rows env a cands = Inr hits" "h \<in> set hits"
  shows "\<exists>p \<in> set cands. ht_key h = fst p \<and> ht_text h = li_text (snd p) \<and> ht_metadata h = li_metadata (snd p)"
proof -
  from rank_rows_parts [OF assms(1)] obtain pat scored where
    sc: "map_result (score_row a pat (row_tokens (pattern_rows pat cands)) (tokens (sa_text a))) (pattern_rows pat cands) = Inr scored"
    and hits: "hits = take (nat (sa_top_k a)) (best_first (rescore a
       (if lexical_only a pat then filter (\<lambda>h. ht_lexical h > 0) scored else scored)))" .
  from assms(2) have "h \<in> set (rescore a (if lexical_only a pat then filter (\<lambda>h. ht_lexical h > 0) scored else scored))"
    by (auto simp: hits best_first_def dest: in_set_takeD)
  from rescore_hit [OF this] obtain g where g: "g \<in> set scored"
    and eq: "ht_key h = ht_key g" "ht_text h = ht_text g" "ht_metadata h = ht_metadata g"
    by (auto split: if_splits)
  from scored_rows(2) [OF sc g] obtain p where "p \<in> set (pattern_rows pat cands)"
    "score_row a pat (row_tokens (pattern_rows pat cands)) (tokens (sa_text a)) p = Inr g" by blast
  with score_row_hit [OF this(2)] eq show ?thesis
    by (auto simp: pattern_rows_def split: option.splits)
qed

lemma search_parts:
  assumes "search env s a = (s', Inr hits)" "0 < sa_top_k a"
  obtains rows r s1 ks where
    "ls_snapshot s (sa_namespace a) (sa_branch a) = Inr rows"
    "allowed_keys env s (filter_cache_key (sa_namespace a) (sa_branch a) r (sa_filters a) (sa_principal a))
       (sa_principal a) (sa_filters a) rows = (s1, Inr ks)"
    "rank_rows env a (filter (\<lambda>p. fst p \<in> set ks) rows) = Inr hits"
  using assms unfolding search_def Let_def
  by (auto split: sum.splits prod.splits if_splits)

text \<open>
  The keys a search is allowed to score are those admitted for a filter and a principal with the
  same place in the cache.
\<close>

lemma allowed_keys_spec:
  assumes inv: "ls_inv env s" and rows: "ls_rows_of s ns br = Inr rows"
    and ak: "allowed_keys env s (filter_cache_key ns br r f pr) pr f rows = (s1, Inr ks)"
  obtains f' pr' where "sorted_json (no_filter_empty f') = sorted_json (no_filter_empty f)"
    "principal_text pr' = principal_text pr"
    "ks = dkeys (filter (\<lambda>p. admits env pr' f' (snd p) = Inr True) rows)"
proof (cases "dget (ls_filter_cache s) (filter_cache_key ns br r f pr)")
  case (Some ks')
  with ak have "ks = ks'" by (auto simp: allowed_keys_def)
  with ls_invD(4) [OF inv map_of_SomeD [OF Some]] rows that show ?thesis
    by (auto simp: cached_ok_def filter_cache_key_def dest!: admitted_spec)
next
  case None
  with ak show ?thesis
    by (intro that [of f pr]) (auto simp: allowed_keys_def Let_def dest!: admitted_spec split: sum.splits)
qed

text \<open>A hit that its caller may see, in the words of the tables.\<close>

definition visible_hit :: "ls_env \<Rightarrow> local_search \<Rightarrow> string \<Rightarrow> string \<Rightarrow> json \<Rightarrow> string option \<Rightarrow> hit \<Rightarrow> bool" where
  "visible_hit env s ns br fl pri h =
    (\<exists>rows it f pr. ls_rows_of s ns br = Inr rows
    \<and> dget rows (ht_key h) = Some it \<and> ht_text h = li_text it \<and> ht_metadata h = li_metadata it
    \<and> \<not> li_deleted it
    \<and> jget (li_metadata it) ''revoked'' \<noteq> JBool True
    \<and> jget (li_metadata it) ''status'' \<in> {JNull, JStr ''active''}
    \<and> sorted_json (no_filter_empty f) = sorted_json (no_filter_empty fl)
    \<and> principal_text pr = principal_text pri
    \<and> match_filter (env_shown env) (li_metadata it) (no_filter_empty f) = Inr True
    \<and> (\<forall>p. pri = Some p \<and> p \<noteq> ''None'' \<longrightarrow> authorized (li_metadata it) (Some p) = Inr True))"

lemma search_visible:
  assumes "ls_reach env s" and "search env s a = (s', Inr hits)" and "h \<in> set hits"
  shows "visible_hit env s (sa_namespace a) (sa_branch a) (sa_filters a) (sa_principal a) h"
proof -
  note inv = reach_inv [OF assms(1)]
  have "0 < sa_top_k a" using assms(2,3) by (auto simp: search_def Let_def split: if_splits)
  from search_parts [OF assms(2) this] obtain rows r s1 ks where
    sn: "ls_snapshot s (sa_namespace a) (sa_branch a) = Inr rows"
    and ak: "allowed_keys env s (filter_cache_key (sa_namespace a) (sa_branch a) r (sa_filters a) (sa_principal a))
       (sa_principal a) (sa_filters a) rows = (s1, Inr ks)"
    and rk: "rank_rows env a (filter (\<lambda>p. fst p \<in> set ks) rows) = Inr hits" .
  from sn have rows: "ls_rows_of s (sa_namespace a) (sa_branch a) = Inr rows"
    by (simp add: snapshot_rows [OF inv])
  have wf: "wf_dict rows" by (rule rows_wf [OF rows])
  from allowed_keys_spec [OF inv rows ak] obtain f pr where c: "sorted_json (no_filter_empty f) = sorted_json (no_filter_empty (sa_filters a))"
    and pt: "principal_text pr = principal_text (sa_principal a)"
    and ks: "ks = dkeys (filter (\<lambda>p. admits env pr f (snd p) = Inr True) rows)" .
  from rank_rows_hit [OF rk assms(3)] obtain p where p: "p \<in> set rows" "fst p \<in> set ks"
    and h: "ht_key h = fst p" "ht_text h = li_text (snd p)" "ht_metadata h = li_metadata (snd p)" by fastforce
  from p(1) wf have d: "dget rows (fst p) = Some (snd p)" by (simp add: wf_dict_def)
  from p(2) obtain q where q: "q \<in> set rows" "fst q = fst p" "admits env pr f (snd q) = Inr True"
    by (auto simp: ks)
  from q(1) wf have "dget rows (fst q) = Some (snd q)" by (simp add: wf_dict_def)
  with d q have adm: "admits env pr f (snd p) = Inr True" by simp
  note a1 = admits_True [OF adm]
  have "authorized (li_metadata (snd p)) (Some x) = Inr True" if "sa_principal a = Some x" "x \<noteq> ''None''" for x
  proof -
    from pt that have "pr = Some x" by (cases pr) (auto simp: principal_text_def)
    with a1 show ?thesis by simp
  qed
  with a1 authorized_True [of "li_metadata (snd p)" pr] rows d h c pt show ?thesis
    unfolding visible_hit_def
    by (intro exI [of _ rows] exI [of _ "snd p"] exI [of _ f] exI [of _ pr]) simp
qed



definition demo_query :: "string option \<Rightarrow> json \<Rightarrow> search_args" where
  "demo_query pr f = \<lparr>sa_namespace = ''default'', sa_branch = ''main'', sa_text = [], sa_vector = None,
     sa_regex = None, sa_filters = f, sa_principal = pr, sa_top_k = 5,
     sa_vector_weight = 1, sa_lexical_weight = 0, sa_rank_profile = None\<rparr>"

text \<open>A lexical query scores a row above zero exactly when it shares a token with it.\<close>

lemma bm25_pos: "df \<le> n \<Longrightarrow> 0 < tf \<Longrightarrow> 0 < bm25 n df tf"
  unfolding bm25_def
  by (intro mult_pos_pos divide_pos_pos ln_gt_zero add_pos_pos) (auto simp: field_simps)

lemma lexical_pos:
  "0 < lexical_score docs qs doc \<longleftrightarrow> (\<exists>t \<in> set qs. t \<in> set doc)"
proof -
  let ?g = "\<lambda>t. if t \<in> set doc then bm25 (length docs) (doc_freq docs t) (count_list doc t) else 0"
  have pos: "t \<in> set doc \<Longrightarrow> 0 < ?g t" for t
    by (auto intro!: bm25_pos simp: doc_freq_def count_list_0_iff zero_less_iff_neq_zero)
  have nn: "0 \<le> ?g t" for t using pos [of t] by (cases "t \<in> set doc") auto
  have "0 \<le> sum_list (map ?g qs) \<and> (0 < sum_list (map ?g qs) \<longleftrightarrow> (\<exists>t \<in> set qs. t \<in> set doc))"
  proof (induction qs)
    case (Cons t qs)
    show ?case
    proof (cases "t \<in> set doc")
      case True
      with pos [OF True] Cons show ?thesis by (simp add: add_pos_nonneg)
    next
      case False
      with Cons show ?thesis by simp
    qed
  qed simp
  then show ?thesis
    by (simp add: lexical_score_def zero_less_divide_iff less_max_iff_disj)
qed

lemma map_rescore_key [simp]: "map ht_key (rescore a hs) = map ht_key hs"
  by (simp add: rescore_def split: option.split)

lemma length_rescore [simp]: "length (rescore a hs) = length hs"
  by (simp add: rescore_def split: option.split)

lemma score_row_total: "sa_vector a = None \<Longrightarrow> \<exists>h. score_row a pat docs qs p = Inr h"
  by (simp add: score_row_def vector_score_def Let_def split: option.split)

lemma rank_rows_lexical:
  assumes "sa_vector a = None" "sa_regex a = None" "int (length cands) \<le> sa_top_k a"
  obtains hits where "rank_rows env a cands = Inr hits"
    "\<And>k. k \<in> ht_key ` set hits \<longleftrightarrow> (\<exists>it. (k, it) \<in> set cands
        \<and> (tokens (sa_text a) = [] \<or> (\<exists>t \<in> set (tokens (sa_text a)). t \<in> set (tokens (li_text it)))))"
    "sorted (map (\<lambda>h. (- ht_score h, ht_key h)) hits)"
    "distinct (dkeys cands) \<Longrightarrow> distinct (map ht_key hits)"
proof -
  let ?docs = "row_tokens cands" and ?qs = "tokens (sa_text a)"
  let ?f = "score_row a None ?docs ?qs"
  have f: "?f p = Inr (SOME h. ?f p = Inr h)" for p
    using someI_ex [OF score_row_total [OF assms(1)]] .
  have sc: "map_result ?f cands = Inr (map (\<lambda>p. SOME h. ?f p = Inr h) cands)"
    by (rule map_result_total) (rule f)
  define scored where "scored = map (\<lambda>p. SOME h. ?f p = Inr h) cands"
  note sc = sc [folded scored_def]
  define kept where "kept = (if lexical_only a None then filter (\<lambda>h. ht_lexical h > 0) scored else scored)"
  define hits where "hits = best_first (rescore a kept)"
  have lex: "lexical_only a None \<longleftrightarrow> ?qs \<noteq> []" by (simp add: lexical_only_def assms)
  have "length kept \<le> length cands" by (auto simp: kept_def scored_def intro: order_trans [OF length_filter_le])
  then have len: "length hits \<le> nat (sa_top_k a)"
    using assms(3) by (simp add: hits_def best_first_def)
  have rk: "rank_rows env a cands = Inr hits"
    using sc len by (simp add: rank_rows_def search_pattern_def assms pattern_rows_def hits_def kept_def)
  have keys: "mset (map ht_key hits) = mset (map ht_key kept)"
  proof -
    have "mset (map ht_key hits) = image_mset ht_key (mset (rescore a kept))"
      by (simp add: hits_def best_first_def)
    also have "\<dots> = mset (map ht_key (rescore a kept))" by (simp only: mset_map)
    finally show ?thesis by simp
  qed
  show ?thesis
  proof (rule that [OF rk])
    show "k \<in> ht_key ` set hits \<longleftrightarrow> (\<exists>it. (k, it) \<in> set cands
        \<and> (?qs = [] \<or> (\<exists>t \<in> set ?qs. t \<in> set (tokens (li_text it)))))" for k
    proof -
      have "k \<in> ht_key ` set hits \<longleftrightarrow> k \<in> ht_key ` set kept"
        using mset_eq_setD [OF keys] by simp
      also have "\<dots> \<longleftrightarrow> (\<exists>h \<in> set scored. ht_key h = k \<and> (?qs = [] \<or> 0 < ht_lexical h))"
        by (auto simp: kept_def lex)
      also have "\<dots> \<longleftrightarrow> (\<exists>it. (k, it) \<in> set cands
        \<and> (?qs = [] \<or> (\<exists>t \<in> set ?qs. t \<in> set (tokens (li_text it)))))"
      proof
        assume "\<exists>h \<in> set scored. ht_key h = k \<and> (?qs = [] \<or> 0 < ht_lexical h)"
        then obtain h where h: "h \<in> set scored" "ht_key h = k" "?qs = [] \<or> 0 < ht_lexical h" by blast
        from scored_rows(2) [OF sc h(1)] obtain p where "p \<in> set cands" "?f p = Inr h" by blast
        with score_row_hit [OF this(2)] h(2,3) lexical_pos show "\<exists>it. (k, it) \<in> set cands
          \<and> (?qs = [] \<or> (\<exists>t \<in> set ?qs. t \<in> set (tokens (li_text it))))"
          by (metis prod.collapse)
      next
        assume "\<exists>it. (k, it) \<in> set cands \<and> (?qs = [] \<or> (\<exists>t \<in> set ?qs. t \<in> set (tokens (li_text it))))"
        then obtain it where it: "(k, it) \<in> set cands" "?qs = [] \<or> (\<exists>t \<in> set ?qs. t \<in> set (tokens (li_text it)))" by blast
        from scored_rows(3) [OF sc it(1)] obtain h where "h \<in> set scored" "?f (k, it) = Inr h" by blast
        with score_row_hit [OF this(2)] it(2) lexical_pos
        show "\<exists>h \<in> set scored. ht_key h = k \<and> (?qs = [] \<or> 0 < ht_lexical h)"
          by (metis fst_conv snd_conv)
      qed
      finally show ?thesis .
    qed
    show "sorted (map (\<lambda>h. (- ht_score h, ht_key h)) hits)"
      by (simp add: hits_def best_first_def)
    assume "distinct (dkeys cands)"
    then have "distinct (map ht_key scored)" using scored_rows(1) [OF sc] by simp
    then have "distinct (map ht_key kept)" by (auto simp: kept_def distinct_map_filter)
    then show "distinct (map ht_key hits)"
      by (metis keys mset_eq_imp_distinct_iff)
  qed
qed


lemma admitted_total:
  "(\<And>p. p \<in> set ps \<Longrightarrow> is_ok (admits env pr f (snd p))) \<Longrightarrow> \<exists>qs. admitted env pr f ps = Inr qs"
  by (induction ps) (fastforce elim: is_okE split: sum.splits)+

lemma canon_empty: "sorted_json f = JObj [] \<Longrightarrow> f = JObj []"
proof (cases f)
  case (JObj d)
  assume "sorted_json f = JObj []"
  then have "length (sort_key fst (map (map_prod id sorted_json) d)) = 0" by (simp add: JObj)
  then show ?thesis by (simp add: JObj)
qed simp_all

lemma filter_mem_keys:
  assumes "distinct (dkeys rows)"
  shows "filter (\<lambda>p. fst p \<in> set (dkeys (filter Q rows))) rows = filter Q rows"
  using assms by (intro filter_cong) (auto dest: eq_key_imp_eq_value)

text \<open>C26. A lexical query is complete: without a filter, a vector and a pattern, and with room for
  every row, a search for a principal that is not called None returns exactly the rows of the branch that are not
  deleted, that the access gate admits for it and that share a token with the query (all of them
  when the query has no token), each once and best first, whatever the caches hold. It is assumed that the
  access gate raises on no row that is not deleted (on such a row the search itself would raise) and
  that the state was reached without a re-embedding that raised in its loop; for the principal called None the
  statement is false, since it shares a cache entry with callers without a principal.\<close>

theorem lexical_search_complete:
  assumes reach: "ls_reach env s" and rows: "ls_rows_of s (sa_namespace a) (sa_branch a) = Inr rows"
    and plain: "sa_vector a = None" "sa_regex a = None" "\<not> truthy (sa_filters a)"
    and pr: "sa_principal a = Some p" "p \<noteq> ''None''"
    and room: "0 < sa_top_k a" "int (length rows) \<le> sa_top_k a"
    and ok: "\<forall>q \<in> set rows. \<not> li_deleted (snd q) \<longrightarrow> is_ok (authorized (li_metadata (snd q)) (Some p))"
  shows "\<exists>s' hits. search env s a = (s', Inr hits)
    \<and> (\<forall>k. k \<in> ht_key ` set hits \<longleftrightarrow>
         (\<exists>it. dget rows k = Some it \<and> \<not> li_deleted it \<and> authorized (li_metadata it) (Some p) = Inr True
            \<and> (tokens (sa_text a) = [] \<or> (\<exists>t \<in> set (tokens (sa_text a)). t \<in> set (tokens (li_text it))))))
    \<and> sorted (map (\<lambda>h. (- ht_score h, ht_key h)) hits) \<and> distinct (map ht_key hits)"
proof -
  note inv = reach_inv [OF reach]
  let ?f = "sa_filters a" and ?Q = "\<lambda>q. \<not> li_deleted (snd q) \<and> authorized (li_metadata (snd q)) (Some p) = Inr True"
  have sn: "ls_snapshot s (sa_namespace a) (sa_branch a) = Inr rows" by (simp add: snapshot_rows [OF inv] rows)
  have wf: "wf_dict rows" by (rule rows_wf [OF rows])
  have adm: "admits env (Some p) f' it = (if li_deleted it then Inr False else authorized (li_metadata it) (Some p))"
    if "no_filter_empty f' = JObj []" for f' it
    by (auto simp: admits_def that split: sum.split bool.split)
  have oe: "no_filter_empty ?f = JObj []" using plain by (simp add: no_filter_empty_def)
  have "dget (ls_branches s) (sa_namespace a, sa_branch a) \<noteq> None"
    using rows_has_branch [OF rows] by (simp add: has_branch_def)
  then obtain parent where "dget (ls_branches s) (sa_namespace a, sa_branch a) = Some parent" by blast
  then have "(sa_namespace a, sa_branch a) \<in> set (dkeys (ls_branches s))" by (rule mem_dkeys)
  from ls_invD(2) [OF inv this] obtain m where "dget (ls_namespaces s) (sa_namespace a) = Some m" by auto
  then obtain v where v: "namespace_metadata s (sa_namespace a) = Inr v"
    by (simp add: namespace_metadata_def)
  obtain s1 r where ak: "allowed_keys env s (filter_cache_key (sa_namespace a) (sa_branch a) (nm_revision (nv_meta v)) ?f (sa_principal a))
      (sa_principal a) ?f rows = (s1, r)" by (metis surj_pair)
  have "\<exists>qs. admitted env (sa_principal a) ?f rows = Inr qs"
    using ok by (intro admitted_total) (auto simp: pr adm [OF oe])
  then have "\<exists>ks. r = Inr ks" using ak by (auto simp: allowed_keys_def Let_def split: option.splits)
  then obtain ks where r: "r = Inr ks" by blast
  from allowed_keys_spec [OF inv rows ak [unfolded r]] obtain f' pr' where
    c: "sorted_json (no_filter_empty f') = sorted_json (no_filter_empty ?f)"
    and pt: "principal_text pr' = principal_text (sa_principal a)"
    and ks: "ks = dkeys (filter (\<lambda>q. admits env pr' f' (snd q) = Inr True) rows)" .
  from c oe have "no_filter_empty f' = JObj []" by (simp add: canon_empty)
  moreover have "pr' = Some p" using pt pr by (cases pr') (auto simp: principal_text_def)
  ultimately have ks': "ks = dkeys (filter ?Q rows)" by (simp add: ks adm cong: conj_cong)
  have d: "distinct (dkeys rows)" using wf by (simp add: wf_dict_def)
  have cands: "filter (\<lambda>q. fst q \<in> set ks) rows = filter ?Q rows"
    unfolding ks' by (rule filter_mem_keys [OF d])
  have small: "int (length (filter ?Q rows)) \<le> sa_top_k a"
    using room length_filter_le [of ?Q rows] by linarith
  from rank_rows_lexical [OF plain(1,2) small, of env] obtain hits where
    rk: "rank_rows env a (filter ?Q rows) = Inr hits"
    and keys: "\<And>k. k \<in> ht_key ` set hits \<longleftrightarrow> (\<exists>it. (k, it) \<in> set (filter ?Q rows)
        \<and> (tokens (sa_text a) = [] \<or> (\<exists>t \<in> set (tokens (sa_text a)). t \<in> set (tokens (li_text it)))))"
    and sorted: "sorted (map (\<lambda>h. (- ht_score h, ht_key h)) hits)"
    and dist: "distinct (dkeys (filter ?Q rows)) \<Longrightarrow> distinct (map ht_key hits)" by blast
  have "search env s a = (fill_postings s1 (sa_namespace a) (sa_branch a) rows, Inr hits)"
    using room(1) by (simp add: search_def Let_def sn v ak r cands rk)
  moreover have "distinct (map ht_key hits)" using d by (intro dist) (simp add: distinct_map_filter)
  ultimately show ?thesis
    using keys sorted wf by (auto simp: wf_dict_get_mem)
qed

definition demo_item :: ls_item where
  "demo_item = \<lparr>li_text = ''red fox'', li_vector = None,
     li_metadata = [(''acl'', JList [JStr ''ann'']), (''revision'', JInt 1)], li_deleted = False\<rparr>"

lemma demo_rows: "ls_rows_of demo_state ''default'' ''main'' = Inr [(''a'', demo_item)]"
  unfolding demo_state_def demo_search_ops_def run_steps.simps ls_step.simps
  by code_simp

lemma demo_query_simps [simp]:
  "sa_namespace (demo_query pr f) = ''default''" "sa_branch (demo_query pr f) = ''main''"
  "sa_vector (demo_query pr f) = None" "sa_regex (demo_query pr f) = None"
  "sa_filters (demo_query pr f) = f" "sa_principal (demo_query pr f) = pr" "sa_top_k (demo_query pr f) = 5"
  "tokens (sa_text (demo_query pr f)) = []" "sa_rank_profile (demo_query pr f) = None"
  by (simp_all add: demo_query_def tokens_def)

lemma demo_auth: "authorized [(''acl'', JList [JStr ''ann'']), (''revision'', JInt 1)] (Some ''ann'') = Inr True"
  by code_simp

theorem lexical_search_complete_witness:
  "\<exists>s' hits. search demo_env demo_state (demo_query (Some ''ann'') JNull) = (s', Inr hits) \<and> ht_key ` set hits = {''a''}"
proof -
  have rows: "ls_rows_of demo_state (sa_namespace (demo_query (Some ''ann'') JNull)) (sa_branch (demo_query (Some ''ann'') JNull))
      = Inr [(''a'', demo_item)]"
    by (simp add: demo_rows demo_item_def)
  have ok: "\<forall>q \<in> set [(''a'', demo_item)]. \<not> li_deleted (snd q) \<longrightarrow> is_ok (authorized (li_metadata (snd q)) (Some ''ann''))"
    by (simp add: demo_item_def demo_auth)
  have plain: "sa_vector (demo_query (Some ''ann'') JNull) = None" "sa_regex (demo_query (Some ''ann'') JNull) = None"
    "\<not> truthy (sa_filters (demo_query (Some ''ann'') JNull))"
    "sa_principal (demo_query (Some ''ann'') JNull) = Some ''ann''" "''ann'' \<noteq> ''None''" by simp_all
  have room: "0 < sa_top_k (demo_query (Some ''ann'') JNull)"
    "int (length [(''a'', demo_item)]) \<le> sa_top_k (demo_query (Some ''ann'') JNull)" by simp_all
  obtain s' hits where "search demo_env demo_state (demo_query (Some ''ann'') JNull) = (s', Inr hits)"
    and k: "\<forall>k. k \<in> ht_key ` set hits \<longleftrightarrow>
         (\<exists>it. dget [(''a'', demo_item)] k = Some it \<and> \<not> li_deleted it \<and> authorized (li_metadata it) (Some ''ann'') = Inr True
            \<and> (tokens (sa_text (demo_query (Some ''ann'') JNull)) = [] \<or>
               (\<exists>t \<in> set (tokens (sa_text (demo_query (Some ''ann'') JNull))). t \<in> set (tokens (li_text it)))))"
    using lexical_search_complete [OF demo_reach rows plain room ok] by (elim exE conjE)
  moreover have "ht_key ` set hits = {''a''}"
    using k by (auto simp: demo_item_def demo_auth split: if_splits)
  ultimately show ?thesis by blast
qed


lemma search_lexical:
  assumes "ls_snapshot s (sa_namespace a) (sa_branch a) = Inr rows" "namespace_metadata s (sa_namespace a) = Inr v"
    and "allowed_keys env s (filter_cache_key (sa_namespace a) (sa_branch a) (nm_revision (nv_meta v)) (sa_filters a) (sa_principal a))
      (sa_principal a) (sa_filters a) rows = (s1, Inr ks)"
    and plain: "sa_vector a = None" "sa_regex a = None" "tokens (sa_text a) = []"
    and room: "0 < sa_top_k a" "int (length rows) \<le> sa_top_k a"
  shows "\<exists>hits. search env s a = (fill_postings s1 (sa_namespace a) (sa_branch a) rows, Inr hits)
    \<and> (\<forall>k. k \<in> ht_key ` set hits \<longleftrightarrow> k \<in> set ks \<and> k \<in> set (dkeys rows))"
proof -
  have "int (length (filter (\<lambda>p. fst p \<in> set ks) rows)) \<le> sa_top_k a"
    using room length_filter_le [of "\<lambda>p. fst p \<in> set ks" rows] by linarith
  from rank_rows_lexical [OF plain(1,2) this, of env] obtain hits where
    "rank_rows env a (filter (\<lambda>p. fst p \<in> set ks) rows) = Inr hits"
    "\<And>k. k \<in> ht_key ` set hits \<longleftrightarrow> (\<exists>it. (k, it) \<in> set (filter (\<lambda>p. fst p \<in> set ks) rows)
        \<and> (tokens (sa_text a) = [] \<or> (\<exists>t \<in> set (tokens (sa_text a)). t \<in> set (tokens (li_text it)))))"
    "sorted (map (\<lambda>h. (- ht_score h, ht_key h)) hits)"
    "distinct (dkeys (filter (\<lambda>p. fst p \<in> set ks) rows)) \<Longrightarrow> distinct (map ht_key hits)" by blast
  then show ?thesis
    using room(1) by (intro exI [of _ hits]) (auto simp: search_def Let_def assms(1-3) plain(3) image_iff; force)
qed

lemma demo_parts:
  "ls_snapshot demo_state ''default'' ''main'' = Inr [(''a'', demo_item)]"
  "is_ok (namespace_metadata demo_state ''default'')"
  "ls_filter_cache demo_state = []"
  unfolding demo_state_def demo_search_ops_def run_steps.simps ls_step.simps
  by code_simp+

lemma demo_hits:
  assumes "admits demo_env pr f demo_item = Inr True"
  shows "\<exists>s' hits h. search demo_env demo_state (demo_query pr f) = (s', Inr hits) \<and> h \<in> set hits \<and> ht_key h = ''a''"
proof -
  obtain v where v: "namespace_metadata demo_state ''default'' = Inr v"
    using demo_parts(2) by (auto elim: is_okE)
  have "\<exists>s1. allowed_keys demo_env demo_state
      (filter_cache_key ''default'' ''main'' (nm_revision (nv_meta v)) f pr) pr f [(''a'', demo_item)] = (s1, Inr [''a''])"
    by (simp add: allowed_keys_def Let_def demo_parts(3) assms)
  then obtain s1 where "allowed_keys demo_env demo_state
      (filter_cache_key ''default'' ''main'' (nm_revision (nv_meta v)) f pr) pr f [(''a'', demo_item)] = (s1, Inr [''a''])" ..
  with v have "\<exists>hits. search demo_env demo_state (demo_query pr f) =
      (fill_postings s1 ''default'' ''main'' [(''a'', demo_item)], Inr hits)
      \<and> (\<forall>k. k \<in> ht_key ` set hits \<longleftrightarrow> k \<in> set [''a''] \<and> k \<in> set (dkeys [(''a'', demo_item)]))"
    using search_lexical [of demo_state "demo_query pr f" "[(''a'', demo_item)]" v demo_env s1 "[''a'']"]
    by (simp add: demo_parts(1))
  then obtain hits where r: "search demo_env demo_state (demo_query pr f) =
      (fill_postings s1 ''default'' ''main'' [(''a'', demo_item)], Inr hits)"
    and k: "\<forall>k. k \<in> ht_key ` set hits \<longleftrightarrow> k \<in> set [''a''] \<and> k \<in> set (dkeys [(''a'', demo_item)])"
    by (elim exE conjE)
  from spec [OF k, of "''a''"] have "''a'' \<in> ht_key ` set hits" by simp
  then obtain h where "h \<in> set hits" "ht_key h = ''a''" by (elim imageE) simp
  with r show ?thesis by (intro exI conjI)
qed

lemma demo_admits:
  "admits demo_env (Some ''ann'') (JObj [(''acl'', JStr ''ann'')]) demo_item = Inr True"
  "admits demo_env None JNull demo_item = Inr True"
  "authorized (li_metadata demo_item) (Some ''None'') = Inr False"
  by code_simp+


section \<open>The cache entry shared by two principals\<close>

lemma rank_rows_principal [simp]: "rank_rows env (a\<lparr>sa_principal := pr\<rparr>) cands = rank_rows env a cands"
proof -
  have "score_row (a\<lparr>sa_principal := pr\<rparr>) = score_row a" 
    by (intro ext) (simp add: score_row_def split: sum.split)
  moreover have "search_pattern env (a\<lparr>sa_principal := pr\<rparr>) = search_pattern env a"
    "lexical_only (a\<lparr>sa_principal := pr\<rparr>) = lexical_only a" "rescore (a\<lparr>sa_principal := pr\<rparr>) = rescore a"
    "sa_text (a\<lparr>sa_principal := pr\<rparr>) = sa_text a" "sa_top_k (a\<lparr>sa_principal := pr\<rparr>) = sa_top_k a"
    by (simp_all add: search_pattern_def lexical_only_def rescore_def fun_eq_iff)
  ultimately show ?thesis by (simp only: rank_rows_def)
qed

lemma allowed_then_cached:
  assumes "allowed_keys env s fk pr f rows = (s1, Inr ks)"
  shows "dget (ls_filter_cache s1) fk = Some ks"
  using assms by (auto simp: allowed_keys_def Let_def dict_simps split: option.splits sum.splits)

text \<open>The search without a principal, which the access list does not restrict, fills the cache
  entry that a principal called None reads: directly after it, the same search by that principal
  returns the same hits, whatever their access lists say.\<close>

theorem none_named_principal_reads_all:
  assumes "search env s (a\<lparr>sa_principal := None\<rparr>) = (s1, Inr hits)"
  shows "snd (search env s1 (a\<lparr>sa_principal := Some ''None''\<rparr>)) = Inr hits"
proof (cases "0 < sa_top_k a")
  case False
  with assms show ?thesis by (simp add: search_def)
next
  case True
  let ?ns = "sa_namespace a" and ?br = "sa_branch a"
  from assms True obtain rows v s0 ks where
    sn: "ls_snapshot s ?ns ?br = Inr rows" and v: "namespace_metadata s ?ns = Inr v"
    and ak: "allowed_keys env s (filter_cache_key ?ns ?br (nm_revision (nv_meta v)) (sa_filters a) None) None (sa_filters a) rows = (s0, Inr ks)"
    and s1: "s1 = fill_postings s0 ?ns ?br rows"
    and rk: "rank_rows env a (filter (\<lambda>p. fst p \<in> set ks) rows) = Inr hits"
    unfolding search_def Let_def by (auto split: sum.splits prod.splits)
  have key: "filter_cache_key ?ns ?br r (sa_filters a) (Some ''None'') = filter_cache_key ?ns ?br r (sa_filters a) None" for r
    by (simp add: filter_cache_key_def principal_text_def)
  have fr: "ls_branches s1 = ls_branches s" "ls_items s1 = ls_items s" "ls_namespaces s1 = ls_namespaces s"
    "ls_pinned s1 = ls_pinned s"
    using allowed_frame [of env s "filter_cache_key ?ns ?br (nm_revision (nv_meta v)) (sa_filters a) None" None "sa_filters a" rows]
    by (simp_all add: ak s1)
  have sn1: "ls_snapshot s1 ?ns ?br = Inr rows" using sn by (simp add: ls_snapshot_def fr rows_frame(1) [OF fr(1,2)] split: option.splits)
  have v1: "namespace_metadata s1 ?ns = Inr v" using v by (simp add: namespace_metadata_def fr split: option.splits)
  have hit: "dget (ls_filter_cache s1) (filter_cache_key ?ns ?br (nm_revision (nv_meta v)) (sa_filters a) None) = Some ks"
    using allowed_then_cached [OF ak] by (simp add: s1)
  show ?thesis
    using True by (simp add: search_def Let_def sn1 v1 key) (simp add: allowed_keys_def hit rk)
qed

theorem none_named_principal_reads_all_witness:
  "\<exists>s1 hits h. search demo_env demo_state (demo_query None JNull) = (s1, Inr hits) \<and> h \<in> set hits
     \<and> snd (search demo_env s1 (demo_query (Some ''None'') JNull)) = Inr hits
     \<and> ht_key h = ''a'' \<and> authorized (li_metadata demo_item) (Some ''None'') = Inr False"
proof -
  have up: "(demo_query None JNull)\<lparr>sa_principal := pr\<rparr> = demo_query pr JNull" for pr
    by (simp add: demo_query_def)
  from demo_hits [OF demo_admits(2)] obtain s' hits h where
    r: "search demo_env demo_state (demo_query None JNull) = (s', Inr hits)" "h \<in> set hits" "ht_key h = ''a''" by blast
  from none_named_principal_reads_all [of demo_env demo_state "demo_query None JNull" s' hits] r demo_admits(3)
  show ?thesis by (auto simp: up)
qed


section \<open>Writing\<close>

lemma first_level_put:
  "first_level (dput (ns, br, key) it I) ns (br # cs) k = (if k = key then Some it else first_level I ns (br # cs) k)"
proof -
  have "first_level (dput (ns, br, key) it I) ns ds k = first_level I ns ds k" if "k \<noteq> key" for ds
    using that by (induction ds) (auto simp: dict_simps split: option.split)
  then show ?thesis by (cases "k = key") (simp_all add: dict_simps split: option.split)
qed

lemma chain_head:
  assumes "branches_ok (ls_branches s)" "has_branch s ns br"
  obtains cs where "ls_chain (ls_branches s) ns br = Inr (br # cs)"
    "fst (ls_walk (ls_branches s) ns (Some br) []) = br # cs"
proof -
  from assms(2) obtain p where p: "dget (ls_branches s) (ns, br) = Some p" by (auto simp: has_branch_def)
  then have d: "dget (ls_branches s) (ns, br) \<noteq> None" by simp
  obtain cs where "ls_chain (ls_branches s) ns br = Inr cs" "ls_walk (ls_branches s) ns (Some br) [] = (cs, True)"
    using chain_ends [OF assms(1) d] by blast
  moreover have "\<exists>r. fst (ls_walk (ls_branches s) ns (Some br) []) = br # r"
    using p by (cases p) (auto simp: ls_walk.simps(2) split_beta)
  ultimately show ?thesis using that by auto
qed

text \<open>A committed row: the branch sees it, every other key of the branch and every branch that does
  not inherit from it is as before.\<close>

lemma commit_row_rows:
  assumes inv: "ls_inv env s" and hb: "has_branch s ns br"
    and s': "s' = fst (commit_row s ns br key it now)"
  shows "(\<exists>rows rows'. ls_rows_of s ns br = Inr rows \<and> ls_rows_of s' ns br = Inr rows'
      \<and> (\<forall>k. dget rows' k = (if k = key then Some it else dget rows k)))
    \<and> (\<forall>n b. has_branch s n b \<and> (n = ns \<longrightarrow> br \<notin> set (fst (ls_walk (ls_branches s) n (Some b) [])))
          \<longrightarrow> ls_rows_of s' n b = ls_rows_of s n b)"
proof (intro conjI allI impI)
  note ok = ls_invD(1) [OF inv]
  have B: "ls_branches s' = ls_branches s" and I: "ls_items s' = dput (ns, br, key) it (ls_items s)"
    using commit_row_D(3,4) [OF inv] by (simp_all add: s')
  from chain_head [OF ok hb] obtain cs where cs: "ls_chain (ls_branches s) ns br = Inr (br # cs)" by blast
  have hb': "has_branch s' ns br" using hb by (simp add: has_branch_def B)
  have "ls_rows_of s ns br = Inr (rows_of_chain (ls_items s) ns (br # cs))" by (rule ls_rows_chain [OF hb cs])
  moreover have "ls_rows_of s' ns br = Inr (rows_of_chain (ls_items s') ns (br # cs))"
    using ls_rows_chain [OF hb'] cs by (simp add: B)
  moreover have "dget (rows_of_chain (ls_items s') ns (br # cs)) k
      = (if k = key then Some it else dget (rows_of_chain (ls_items s) ns (br # cs)) k)" for k
    unfolding dget_rows_of_chain I by (rule first_level_put)
  ultimately show "\<exists>rows rows'. ls_rows_of s ns br = Inr rows \<and> ls_rows_of s' ns br = Inr rows'
      \<and> (\<forall>k. dget rows' k = (if k = key then Some it else dget rows k))" by blast
  fix n b assume nb: "has_branch s n b \<and> (n = ns \<longrightarrow> br \<notin> set (fst (ls_walk (ls_branches s) n (Some b) [])))"
  show "ls_rows_of s' n b = ls_rows_of s n b"
  proof (rule rows_unchanged [OF ok _ B])
    show "has_branch s n b" using nb by simp
    fix x assume "x \<in> set (fst (ls_walk (ls_branches s) n (Some b) []))"
    with nb have "(n, x) \<noteq> (ns, br)" by auto
    then show "level_rows (ls_items s') n x = level_rows (ls_items s) n x"
      unfolding I by (rule level_rows_put_other)
  qed
qed

text \<open>C9. Branches are copy on write: a successful upsert is seen by its branch under its key and
  nothing else of that branch changes, and a branch that does not inherit from the written one,
  its parent in particular, sees exactly what it saw before.\<close>

theorem upsert_is_copy_on_write:
  assumes "ls_reach env s" and "ls_upsert env s ns key text vec md br now = (s', Inr u)"
  shows "(\<exists>rows rows' it. ls_rows_of s ns br = Inr rows \<and> ls_rows_of s' ns br = Inr rows'
        \<and> (\<forall>k. dget rows' k = (if k = key then Some it else dget rows k))
        \<and> li_text it = text \<and> \<not> li_deleted it \<and> (\<forall>v. vec = Some v \<longrightarrow> li_vector it = Some v \<and> v \<noteq> [] \<and> list_all pf_finite v))
    \<and> (\<forall>n b. has_branch s n b \<and> (n = ns \<longrightarrow> br \<notin> set (fst (ls_walk (ls_branches s) n (Some b) [])))
          \<longrightarrow> ls_rows_of s' n b = ls_rows_of s n b)"
proof -
  note inv = reach_inv [OF assms(1)]
  from assms(2) obtain v md' where uv: "upsert_vector env s ns text vec (dsetdefault ''revision'' (JInt 1) md) = Inr (v, md')"
    and ck: "is_ok (check_vector (embedding_config s ns) v)"
    and hb: "has_branch s ns br"
    and c: "commit_row s ns br key \<lparr>li_text = text, li_vector = v, li_metadata = md', li_deleted = False\<rparr> now = (s', Inr u)"
    by (auto simp: ls_upsert_def split: sum.splits prod.splits if_splits)
  have vv: "v = Some w \<and> w \<noteq> [] \<and> list_all pf_finite w" if "vec = Some w" for w
    using uv ck that by (auto simp: upsert_vector_def check_vector_def Let_def split: option.splits if_splits)
  have s': "s' = fst (commit_row s ns br key \<lparr>li_text = text, li_vector = v, li_metadata = md', li_deleted = False\<rparr> now)"
    by (simp add: c)
  note cr = commit_row_rows [OF inv hb s']
  show ?thesis
    using cr [THEN conjunct1] cr [THEN conjunct2] vv
    by (intro conjI) (fastforce, assumption)
qed

lemma demo_upsert:
  "case ls_upsert demo_env demo_state ''default'' ''c'' ''green fox'' (Some [Fin 1]) [] ''dev'' ''t5'' of
     (s', r) \<Rightarrow> r = Inr ()"
  unfolding demo_state_def demo_search_ops_def run_steps.simps ls_step.simps by code_simp

lemma demo_main: "has_branch demo_state ''default'' ''main''
    \<and> ''dev'' \<notin> set (fst (ls_walk (ls_branches demo_state) ''default'' (Some ''main'') []))"
  unfolding demo_state_def demo_search_ops_def run_steps.simps ls_step.simps by code_simp

theorem upsert_is_copy_on_write_witness:
  "\<exists>s'. ls_upsert demo_env demo_state ''default'' ''c'' ''green fox'' (Some [Fin 1]) [] ''dev'' ''t5'' = (s', Inr ())
     \<and> ls_rows_of s' ''default'' ''main'' = ls_rows_of demo_state ''default'' ''main''"
proof -
  obtain s' where s': "ls_upsert demo_env demo_state ''default'' ''c'' ''green fox'' (Some [Fin 1]) [] ''dev'' ''t5'' = (s', Inr ())"
    using demo_upsert by (auto split: prod.splits)
  from upsert_is_copy_on_write [OF demo_reach s', THEN conjunct2] demo_main s' show ?thesis by blast
qed

lemma commit_row_read_only:
  "is_read_only (fst (commit_row s ns br key it now)) n = is_read_only s n"
  by (auto simp: commit_row_def ls_invalidate_def Let_def is_read_only_def put_meta_def touch_def dict_simps
      split: sum.split option.split)

lemma partial_update_parts:
  assumes "partial_update s ns key br md text vec expected now = (s', Inr r')"
  obtains rows cur r where "has_branch s ns br" "\<not> is_read_only s ns" "ls_rows_of s ns br = Inr rows"
    "dget rows key = Some cur" "\<not> li_deleted cur" "item_revision cur = Inr r"
    "expected = None \<or> expected = Some r" "r' = r + 1"
    "s' = fst (commit_row s ns br key (merged_item cur r md text vec) now)"
  using assms unfolding partial_update_def Let_def
  by (auto split: if_splits sum.splits option.splits prod.splits)

lemma merged_revision: "item_revision (merged_item cur r md text vec) = Inr (r + 1)"
  by (simp add: item_revision_def merged_item_def dget_or_put)

text \<open>C8. \<open>partial_update\<close> is a test and set on the revision: it succeeds only against the revision
  the item has, writes the merged item under the next revision and changes no other key of the
  branch, and a second update that expects the same revision is refused without an effect, so no
  update is lost.\<close>

theorem partial_update_test_and_set:
  assumes "ls_reach env s" and "partial_update s ns key br md text vec (Some r) now = (s', Inr r')"
  shows "r' = r + 1
    \<and> (\<exists>rows rows' cur. ls_rows_of s ns br = Inr rows \<and> dget rows key = Some cur \<and> \<not> li_deleted cur
         \<and> item_revision cur = Inr r \<and> ls_rows_of s' ns br = Inr rows'
         \<and> (\<forall>k. dget rows' k = (if k = key then Some (merged_item cur r md text vec) else dget rows k)))
    \<and> partial_update s' ns key br md2 text2 vec2 (Some r) now2 = (s', Inl ValueError)
    \<and> ls_reach env s'"
proof -
  note inv = reach_inv [OF assms(1)]
  from partial_update_parts [OF assms(2)] obtain rows cur r0 where
    hb: "has_branch s ns br" and ro: "\<not> is_read_only s ns" and rows: "ls_rows_of s ns br = Inr rows"
    and cur0: "dget rows key = Some cur" "\<not> li_deleted cur" "item_revision cur = Inr r0"
    and exp: "Some r = None \<or> Some r = Some r0" and r0': "r' = r0 + 1"
    and s0': "s' = fst (commit_row s ns br key (merged_item cur r0 md text vec) now)" .
  from exp have "r0 = r" by simp
  note cur = cur0 [unfolded this] and r' = r0' [unfolded this] and s' = s0' [unfolded this]
  from commit_row_rows [OF inv hb s', THEN conjunct1] rows obtain rows' where rows': "ls_rows_of s' ns br = Inr rows'"
    and eq: "\<forall>k. dget rows' k = (if k = key then Some (merged_item cur r md text vec) else dget rows k)" by auto
  have "has_branch s' ns br" "\<not> is_read_only s' ns"
    using hb ro commit_row_D(4) [OF inv] commit_row_read_only by (simp_all add: s' has_branch_def)
  moreover have "dget rows' key = Some (merged_item cur r md text vec)" using eq by simp
  moreover have "\<not> li_deleted (merged_item cur r md text vec)" by (simp add: merged_item_def)
  ultimately have "partial_update s' ns key br md2 text2 vec2 (Some r) now2 = (s', Inl ValueError)"
    by (simp add: partial_update_def rows' merged_revision)
  moreover have "ls_reach env (ls_step env s (LUpdate ns key br md text vec (Some r) now))"
    by (rule ls_next [OF assms(1)]) (simp add: broken_off_def)
  ultimately show ?thesis
    using rows cur r' rows' eq assms(2) by auto
qed

lemma demo_update:
  "case partial_update demo_state ''default'' ''a'' ''dev'' [(''acl'', JNull)] None None (Some 1) ''t6'' of
     (s', r) \<Rightarrow> r = Inr 2"
  unfolding demo_state_def demo_search_ops_def run_steps.simps ls_step.simps by code_simp

theorem partial_update_test_and_set_witness:
  "\<exists>s'. partial_update demo_state ''default'' ''a'' ''dev'' [(''acl'', JNull)] None None (Some 1) ''t6'' = (s', Inr 2)
     \<and> partial_update s' ''default'' ''a'' ''dev'' [] None None (Some 1) ''t7'' = (s', Inl ValueError)"
proof -
  obtain s' where s': "partial_update demo_state ''default'' ''a'' ''dev'' [(''acl'', JNull)] None None (Some 1) ''t6'' = (s', Inr 2)"
    using demo_update by (auto split: prod.splits)
  from partial_update_test_and_set [OF demo_reach s', of "[]" None None "''t7''"] s' show ?thesis by blast
qed

section \<open>A re-embedding that breaks off\<close>

definition half_ops :: "ls_op list" where
  "half_ops = [LUpsert ''default'' ''a'' ''red'' (Some [Fin 1]) [] ''main'' ''t1'',
     LUpsert ''default'' ''b'' ''blue'' (Some [Fin 2]) [] ''main'' ''t2'', LPin ''default'' ''main'']"

definition half_state :: local_search where
  "half_state = run_steps (ls_step demo_env) (new_search ''t0'') half_ops"

definition half_embedder :: "string \<Rightarrow> pfloat list result" where
  "half_embedder t = (if t = ''red'' then Inr [Fin 7, Fin 7] else Inl RuntimeError)"

definition half_done :: "local_search \<times> nat result" where
  "half_done = reembed_namespace demo_env half_state ''default'' ''main'' (Some half_embedder) ''t3''"

text \<open>A re-embedding whose embedder raises on a later row is not atomic: the rows before it are
  rewritten and stay so, while a pinned snapshot and the namespace's revision still answer with
  the old ones.\<close>

theorem failed_reembedding_leaves_stale_pins:
  "snd half_done = Inl RuntimeError
    \<and> map_option li_vector (case ls_rows_of (fst half_done) ''default'' ''main'' of Inr rows \<Rightarrow> dget rows ''a'' | Inl e \<Rightarrow> None)
        = Some (Some [Fin 7, Fin 7])
    \<and> map_option li_vector (case ls_snapshot (fst half_done) ''default'' ''main'' of Inr rows \<Rightarrow> dget rows ''a'' | Inl e \<Rightarrow> None)
        = Some (Some [Fin 1])
    \<and> ls_namespaces (fst half_done) = ls_namespaces half_state"
  unfolding half_done_def half_state_def half_ops_def run_steps.simps ls_step.simps
  by code_simp

end
