(* ===== verification/Search_Query.thy ===== *)
theory Search_Query
  imports Search_Laws
begin

text \<open>
  \<open>LocalSearchBackend.query\<close>: rank expressions, attribute ordering, up to sixteen subqueries fused by
  reciprocal rank, the ungrouped aggregates and the projection of a row. The subqueries run on a
  thread pool; each is a \<open>search\<close>, which writes only the caches, and they are taken one after the
  other here.

  Not modelled: requests with \<open>group_by\<close> (their order is that of \<open>repr\<close>), and an \<open>aggregate_by\<close>
  that is not a mapping but a list of pairs. A weight or a rank
  constant that is not finite is an error here; an attribute sort compares each element with
  those before it, which differs from Python's sort only in which comparison raises first or not
  at all.
\<close>

section \<open>Reading a request\<close>

text \<open>\<open>req.get("top_k", req.get("limit", 10))\<close>, with the \<open>total\<close> of a mapping, as an integer.\<close>

definition limit_of :: "(string, json) dict \<Rightarrow> int result" where
  "limit_of req =
     (case dget_or req ''top_k'' (dget_or req ''limit'' (JInt 10)) of
        JObj d \<Rightarrow> py_int (dget_or d ''total'' (JInt 10))
      | v \<Rightarrow> py_int v)"

text \<open>The limit of a sum: a mapping under \<open>limit\<close> goes before \<open>top_k\<close>.\<close>

definition sum_limit :: "(string, json) dict \<Rightarrow> int result" where
  "sum_limit req =
     (case dget req ''limit'' of
        Some (JObj d) \<Rightarrow> py_int (dget_or d ''total'' (JInt 10))
      | _ \<Rightarrow> py_int (dget_or req ''top_k'' (dget_or req ''limit'' (JInt 10))))"

text \<open>\<open>xs[:n]\<close>: a negative end counts from the back.\<close>

definition slice_to :: "int \<Rightarrow> 'a list \<Rightarrow> 'a list" where
  "slice_to n xs = take (nat (if n < 0 then int (length xs) + n else n)) xs"

definition finite_float :: "json \<Rightarrow> real result" where
  "finite_float v =
     (case py_float v of
        Inl e \<Rightarrow> Inl e
      | Inr (Fin r) \<Rightarrow> Inr r
      | Inr _ \<Rightarrow> Inl (OtherError ''not finite''))"

definition word_of :: "ls_env \<Rightarrow> json \<Rightarrow> string" where
  "word_of env v = casefold (py_str (env_shown env) v)"

section \<open>Attribute order\<close>

fun sort_in :: "(json \<times> 'a) \<Rightarrow> (json \<times> 'a) list \<Rightarrow> (json \<times> 'a) list result" where
  "sort_in x [] = Inr [x]"
| "sort_in x (y # ys) =
     (case py_less (fst y) (fst x) of
        Inl e \<Rightarrow> Inl e
      | Inr True \<Rightarrow> (case sort_in x ys of Inl e \<Rightarrow> Inl e | Inr zs \<Rightarrow> Inr (y # zs))
      | Inr False \<Rightarrow> Inr (x # y # ys))"

fun py_sort :: "(json \<times> 'a) list \<Rightarrow> (json \<times> 'a) list result" where
  "py_sort [] = Inr []"
| "py_sort (x # xs) = (case py_sort xs of Inl e \<Rightarrow> Inl e | Inr ys \<Rightarrow> sort_in x ys)"

text \<open>\<open>hits.sort(key=..., reverse=...)\<close>: reversing keeps equal elements in their order.\<close>

definition attribute_sort :: "json \<Rightarrow> bool \<Rightarrow> hit list \<Rightarrow> hit list result" where
  "attribute_sort attr descending hits =
     (if hits \<noteq> [] \<and> \<not> hashable attr then Inl TypeError
      else
        let keyed = map (\<lambda>h. (case attr of JStr k \<Rightarrow> dget_or (ht_metadata h) k (JStr (ht_key h))
                                         | _ \<Rightarrow> JStr (ht_key h), h)) hits
        in case py_sort (if descending then rev keyed else keyed) of
             Inl e \<Rightarrow> Inl e
           | Inr s \<Rightarrow> Inr (map snd (if descending then rev s else s)))"

section \<open>One subquery\<close>

text \<open>The text, the vector and the two weights that a rank expression gives to \<open>search\<close>.\<close>

definition embed_query :: "ls_env \<Rightarrow> local_search \<Rightarrow> string \<Rightarrow> json list \<Rightarrow> json list result" where
  "embed_query env s ns v =
     (case env_embed env of
        None \<Rightarrow> Inl RuntimeError
      | Some fn \<Rightarrow>
          let options = (if length v > 2 then (case v ! 2 of JObj d \<Rightarrow> d | _ \<Rightarrow> []) else []);
              configured = jget (embedding_config s ns) ''model''
          in if truthy (jget options ''model'') \<and> truthy configured \<and> \<not> py_eq (jget options ''model'') configured
             then Inl ValueError
             else if length v < 2 then Inl IndexError
             else (case fn (py_str (env_shown env) (v ! 1)) of Inl e \<Rightarrow> Inl e | Inr x \<Rightarrow> Inr (map JFloat x)))"

definition rank_terms :: "ls_env \<Rightarrow> local_search \<Rightarrow> string \<Rightarrow> json
    \<Rightarrow> (string \<times> json list option \<times> real \<times> real) result" where
  "rank_terms env s ns rank =
     (case rank of
        JList (field # fn # v # _) \<Rightarrow>
          let w = word_of env fn
          in if w = ''ann'' \<or> w = ''knn'' then
               (case v of
                  JList vs \<Rightarrow>
                    if vs \<noteq> [] \<and> py_eq (hd vs) (JStr ''Embed'') then
                      (case embed_query env s ns vs of Inl e \<Rightarrow> Inl e | Inr x \<Rightarrow> Inr ([], Some x, 1, 0))
                    else Inr ([], Some vs, 1, 0)
                | _ \<Rightarrow> Inr ([], None, 1, 0))
             else if w = ''bm25'' then Inr (py_str (env_shown env) v, None, 0, 1)
             else if w = ''asc'' \<or> w = ''desc'' then Inr ([], None, 0, 0)
             else Inr ([], None, 0, 1)
      | _ \<Rightarrow> Inr ([], None, 0, 1))"

definition query_args :: "string \<Rightarrow> string \<Rightarrow> string option \<Rightarrow> (string, json) dict
    \<Rightarrow> string \<times> json list option \<times> real \<times> real \<Rightarrow> int \<Rightarrow> search_args" where
  "query_args ns br pr sub t k =
     (case t of (text, vector, vw, lw) \<Rightarrow>
        \<lparr>sa_namespace = ns, sa_branch = br, sa_text = text, sa_vector = vector, sa_regex = None,
         sa_filters = jget sub ''filters'', sa_principal = pr, sa_top_k = k,
         sa_vector_weight = vw, sa_lexical_weight = lw, sa_rank_profile = None\<rparr>)"

text \<open>Everything but a sum.\<close>

definition plain_query :: "ls_env \<Rightarrow> string \<Rightarrow> string \<Rightarrow> string option \<Rightarrow> (string, json) dict \<Rightarrow> json
    \<Rightarrow> local_search \<Rightarrow> local_search \<times> hit list result" where
  "plain_query env ns br pr sub rank s =
     (case rank_terms env s ns rank of
        Inl e \<Rightarrow> (s, Inl e)
      | Inr t \<Rightarrow>
          (case limit_of sub of
             Inl e \<Rightarrow> (s, Inl e)
           | Inr k \<Rightarrow>
               (case search env s (query_args ns br pr sub t k) of
                  (s', Inl e) \<Rightarrow> (s', Inl e)
                | (s', Inr hits) \<Rightarrow>
                    (s', case rank of
                           JList (attr # fn # _) \<Rightarrow>
                             if word_of env fn = ''asc'' \<or> word_of env fn = ''desc''
                             then attribute_sort attr (word_of env fn = ''desc'') hits else Inr hits
                         | _ \<Rightarrow> Inr hits))))"

text \<open>
  A sum of clauses, each possibly a \<open>product\<close> with a weight: the weighted scores of a key are added
  and its first hit is kept. The accumulator holds the hit and the score of each key in the order
  they were first seen.
\<close>

type_synonym fused = "(string, hit \<times> real) dict"

definition add_hit :: "real \<Rightarrow> fused \<Rightarrow> hit \<Rightarrow> fused" where
  "add_hit weight acc h =
     (case dget acc (ht_key h) of
        None \<Rightarrow> dput (ht_key h) (h, 0 + weight * ht_score h) acc
      | Some (h0, sc) \<Rightarrow> dput (ht_key h) (h0, sc + weight * ht_score h) acc)"

definition fused_hits :: "fused \<Rightarrow> hit list" where
  "fused_hits acc = best_first (map (\<lambda>p. (fst (snd p))\<lparr>ht_score := snd (snd p)\<rparr>) acc)"

definition weighted :: "ls_env \<Rightarrow> json \<Rightarrow> (real \<times> json) result" where
  "weighted env clause =
     (case clause of
        JList (c # cs) \<Rightarrow>
          if word_of env c = ''product'' then
            (case cs of
               [] \<Rightarrow> Inl IndexError
             | w # rest \<Rightarrow>
                 (case finite_float w of
                    Inl e \<Rightarrow> Inl e
                  | Inr r \<Rightarrow> (case rest of [] \<Rightarrow> Inl IndexError | inner # _ \<Rightarrow> Inr (r, inner))))
          else Inr (1, clause)
      | _ \<Rightarrow> Inr (1, clause))"

lemma weighted_size: "weighted env clause = Inr (w, inner) \<Longrightarrow> size inner \<le> size clause"
  by (auto simp: weighted_def split: json.splits list.splits if_splits sum.splits)

definition is_list :: "json \<Rightarrow> bool" where
  "is_list v = (case v of JList _ \<Rightarrow> True | _ \<Rightarrow> False)"

function one_query :: "ls_env \<Rightarrow> string \<Rightarrow> string \<Rightarrow> string option \<Rightarrow> (string, json) dict \<Rightarrow> json
      \<Rightarrow> local_search \<Rightarrow> local_search \<times> hit list result"
  and sum_query :: "ls_env \<Rightarrow> string \<Rightarrow> string \<Rightarrow> string option \<Rightarrow> (string, json) dict \<Rightarrow> json list
      \<Rightarrow> local_search \<Rightarrow> fused \<Rightarrow> local_search \<times> fused result" where
  "one_query env ns br pr sub rank s =
     (case rank of
        JList (r # rs) \<Rightarrow>
          if word_of env r = ''sum'' then
            (case (case rs of
                     [] \<Rightarrow> (s, Inr [])
                   | JList clauses # _ \<Rightarrow> sum_query env ns br pr sub clauses s []
                   | v # _ \<Rightarrow> (s, case py_iter v of Inl e \<Rightarrow> Inl e | Inr _ \<Rightarrow> Inr [])) of
               (s', Inl e) \<Rightarrow> (s', Inl e)
             | (s', Inr acc) \<Rightarrow>
                 (s', case sum_limit sub of Inl e \<Rightarrow> Inl e | Inr k \<Rightarrow> Inr (slice_to k (fused_hits acc))))
          else plain_query env ns br pr sub rank s
      | _ \<Rightarrow> plain_query env ns br pr sub rank s)"
| "sum_query env ns br pr sub [] s acc = (s, Inr acc)"
| "sum_query env ns br pr sub (clause # cs) s acc =
     (case weighted env clause of
        Inl e \<Rightarrow> (s, Inl e)
      | Inr (w, inner) \<Rightarrow>
          if is_list inner then
            (case one_query env ns br pr sub inner s of
               (s', Inl e) \<Rightarrow> (s', Inl e)
             | (s', Inr hits) \<Rightarrow> sum_query env ns br pr sub cs s' (foldl (add_hit w) acc hits))
          else sum_query env ns br pr sub cs s acc)"
  by pat_completeness auto

termination
  by (relation "measure (case_sum (\<lambda>(env, ns, br, pr, sub, rank, s). size rank)
        (\<lambda>(env, ns, br, pr, sub, clauses, s, acc). size_list size clauses))")
    (auto dest!: weighted_size)

section \<open>Fusion\<close>

text \<open>\<open>_query_row\<close>.\<close>

definition pick_keys :: "(string, json) dict \<Rightarrow> json list \<Rightarrow> (string, json) dict \<Rightarrow> (string, json) dict" where
  "pick_keys md ks row =
     foldl (\<lambda>r k. case k of JStr s \<Rightarrow> (case dget md s of None \<Rightarrow> r | Some v \<Rightarrow> dput s v r) | _ \<Rightarrow> r) row ks"

definition query_row :: "hit \<Rightarrow> (string, json) dict \<Rightarrow> real \<Rightarrow> (string, json) dict result" where
  "query_row h req score =
     (let row = [(''id'', JStr (ht_key h)), (''$dist'', JFloat (Fin score))];
          incl = dget_or req ''include_attributes'' (JBool True)
      in case py_iter (dget_or req ''exclude_attributes'' (JList [])) of
           Inl e \<Rightarrow> Inl e
         | Inr excl \<Rightarrow>
             if \<not> list_all hashable excl then Inl TypeError
             else
               (case (if incl = JBool True then Inr (foldl (\<lambda>r p. dput (fst p) (snd p) r) row (ht_metadata h))
                      else if truthy incl then
                        (case py_iter incl of
                           Inl e \<Rightarrow> Inl e
                         | Inr ks \<Rightarrow> if list_all hashable ks then Inr (pick_keys (ht_metadata h) ks row) else Inl TypeError)
                      else Inr row) of
                  Inl e \<Rightarrow> Inl e
                | Inr r \<Rightarrow> Inr (foldl (\<lambda>r k. case k of JStr s \<Rightarrow> dpop s r | _ \<Rightarrow> r) r excl)))"

text \<open>Reciprocal rank fusion: the last hit of a key is kept.\<close>

definition rank_add :: "real \<Rightarrow> real \<Rightarrow> nat \<Rightarrow> fused \<Rightarrow> hit \<Rightarrow> fused result" where
  "rank_add weight c r acc h =
     (if c + real r = 0 then Inl ZeroDivisionError
      else Inr (dput (ht_key h)
        (h, (case dget acc (ht_key h) of None \<Rightarrow> 0 | Some (_, sc) \<Rightarrow> sc) + weight / (c + real r)) acc))"

fun fuse_list :: "real \<Rightarrow> real \<Rightarrow> nat \<Rightarrow> hit list \<Rightarrow> fused \<Rightarrow> fused result" where
  "fuse_list weight c r [] acc = Inr acc"
| "fuse_list weight c r (h # hs) acc =
     (case rank_add weight c r acc h of
        Inl e \<Rightarrow> Inl e
      | Inr acc' \<Rightarrow> fuse_list weight c (Suc r) hs acc')"

fun fuse_lists :: "json list \<Rightarrow> real \<Rightarrow> hit list list \<Rightarrow> fused \<Rightarrow> fused result" where
  "fuse_lists ws c [] acc = Inr acc"
| "fuse_lists ws c (hs # rest) acc =
     (case (case ws of [] \<Rightarrow> Inr 1 | w # _ \<Rightarrow> finite_float w) of
        Inl e \<Rightarrow> Inl e
      | Inr weight \<Rightarrow>
          (case fuse_list weight c 1 hs acc of
             Inl e \<Rightarrow> Inl e
           | Inr acc' \<Rightarrow> fuse_lists (tl ws) c rest acc'))"

definition rerank_config :: "(string, json) dict \<Rightarrow> (string, json) dict" where
  "rerank_config req =
     (case dget req ''rerank_by'' of Some (JList (_ # JObj d # _)) \<Rightarrow> d | _ \<Rightarrow> [])"

definition rrf :: "(string, json) dict \<Rightarrow> hit list list \<Rightarrow> fused result" where
  "rrf req hss =
     (let cfg = rerank_config req
      in case finite_float (dget_or cfg ''rank_constant'' (JInt 60)) of
           Inl e \<Rightarrow> Inl e
         | Inr c \<Rightarrow>
             (case py_iter (dget_or cfg ''weights'' (JList [])) of
                Inl e \<Rightarrow> Inl e
              | Inr ws \<Rightarrow> fuse_lists ws c hss []))"

text \<open>The subqueries: all of them run, the first exception in their order is raised.\<close>

definition default_rank :: json where
  "default_rank = JList [JStr ''text'', JStr ''BM25'', JStr []]"

fun run_subs :: "ls_env \<Rightarrow> string \<Rightarrow> string \<Rightarrow> string option \<Rightarrow> json list \<Rightarrow> local_search
    \<Rightarrow> local_search \<times> hit list result list" where
  "run_subs env ns br pr [] s = (s, [])"
| "run_subs env ns br pr (q # qs) s =
     (let (s1, r) = (case q of
                       JObj sub \<Rightarrow> one_query env ns br pr sub (dget_or sub ''rank_by'' default_rank) s
                     | _ \<Rightarrow> (s, Inl (OtherError ''AttributeError'')));
          (s2, rs) = run_subs env ns br pr qs s1
      in (s2, r # rs))"

datatype query_result =
    QRows "(string, json) dict list"
  | QFused "(string, json) dict list" json
  | QTotals "(string, json) dict"

definition multi_query :: "ls_env \<Rightarrow> string \<Rightarrow> string \<Rightarrow> string option \<Rightarrow> (string, json) dict \<Rightarrow> json list
    \<Rightarrow> local_search \<Rightarrow> local_search \<times> query_result result" where
  "multi_query env ns br pr req subs s =
     (if length subs > 16 then (s, Inl ValueError)
      else
        let (s1, rs) = run_subs env ns br pr subs s
        in (s1,
            case map_result (\<lambda>r. r) rs of
              Inl e \<Rightarrow> Inl e
            | Inr hss \<Rightarrow>
                (case rrf req hss of
                   Inl e \<Rightarrow> Inl e
                 | Inr acc \<Rightarrow>
                     (case limit_of req of
                        Inl e \<Rightarrow> Inl e
                      | Inr k \<Rightarrow>
                          (case map_result (\<lambda>h. query_row h req (ht_score h)) (slice_to k (fused_hits acc)) of
                             Inl e \<Rightarrow> Inl e
                           | Inr rows \<Rightarrow> Inr (QFused rows (dget_or req ''rerank_by'' (JList [JStr ''RRF'']))))))))"

section \<open>Aggregates\<close>

definition total_of :: "ls_env \<Rightarrow> ls_rows \<Rightarrow> json \<Rightarrow> json result" where
  "total_of env visible expr =
     (case expr of
        JList (op # args) \<Rightarrow>
          if word_of env op = ''sum'' then
            (case visible of
               [] \<Rightarrow> Inr (JInt 0)
             | _ \<Rightarrow>
                 (case args of
                    [] \<Rightarrow> Inl IndexError
                  | field # _ \<Rightarrow>
                      if \<not> hashable field then Inl TypeError
                      else
                        (case map_result (\<lambda>p.
                                 let v = (case field of JStr k \<Rightarrow> dget_or (li_metadata (snd p)) k (JInt 0) | _ \<Rightarrow> JInt 0)
                                 in py_float (if truthy v then v else JInt 0)) visible of
                           Inl e \<Rightarrow> Inl e
                         | Inr fs \<Rightarrow> Inr (JFloat (foldl pf_add (Fin 0) fs)))))
          else Inr (JInt (int (length visible)))
      | JStr (c # _) \<Rightarrow> Inr (JInt (int (length visible)))
      | JObj (_ # _) \<Rightarrow> Inl KeyError
      | v \<Rightarrow> if truthy v then Inl TypeError else Inr (JInt (int (length visible))))"

definition totals :: "ls_env \<Rightarrow> local_search \<Rightarrow> string \<Rightarrow> string \<Rightarrow> string option \<Rightarrow> (string, json) dict
    \<Rightarrow> json \<Rightarrow> query_result result" where
  "totals env s ns br pr req spec =
     (case ls_snapshot s ns br of
        Inl e \<Rightarrow> Inl e
      | Inr rows \<Rightarrow>
          (case admitted env pr (jget req ''filters'') rows of
             Inl e \<Rightarrow> Inl e
           | Inr visible \<Rightarrow>
               (case spec of
                  JObj d \<Rightarrow>
                    (case map_result (\<lambda>p. case total_of env visible (snd p) of Inl e \<Rightarrow> Inl e | Inr v \<Rightarrow> Inr (fst p, v)) d of
                       Inl e \<Rightarrow> Inl e
                     | Inr out \<Rightarrow> Inr (QTotals out))
                | _ \<Rightarrow> Inl TypeError)))"

text \<open>\<open>query\<close>.\<close>

definition query :: "ls_env \<Rightarrow> string \<Rightarrow> string \<Rightarrow> string option \<Rightarrow> (string, json) dict \<Rightarrow> local_search
    \<Rightarrow> local_search \<times> query_result result" where
  "query env ns br pr req s =
     (case dget req ''queries'' of
        Some q \<Rightarrow> (case py_iter q of Inl e \<Rightarrow> (s, Inl e) | Inr subs \<Rightarrow> multi_query env ns br pr req subs s)
      | None \<Rightarrow>
          (case dget req ''aggregate_by'' of
             Some spec \<Rightarrow> (s, totals env s ns br pr req spec)
           | None \<Rightarrow>
               (case one_query env ns br pr req (dget_or req ''rank_by'' default_rank) s of
                  (s', Inl e) \<Rightarrow> (s', Inl e)
                | (s', Inr hits) \<Rightarrow>
                    (s', case map_result (\<lambda>h. query_row h req (ht_score h)) hits of
                           Inl e \<Rightarrow> Inl e
                         | Inr rows \<Rightarrow> Inr (QRows rows)))))"


section \<open>No request goes around the gate\<close>

definition same_tables :: "local_search \<Rightarrow> local_search \<Rightarrow> bool" where
  "same_tables s t = (ls_branches t = ls_branches s \<and> ls_items t = ls_items s \<and> ls_namespaces t = ls_namespaces s
     \<and> ls_pinned t = ls_pinned s)"

lemma search_tables: "same_tables s (fst (search env s a))"
proof -
  have "ls_branches s1 = ls_branches s \<and> ls_items s1 = ls_items s \<and> ls_namespaces s1 = ls_namespaces s \<and> ls_pinned s1 = ls_pinned s"
    if "allowed_keys env s fk pr f rows = (s1, r)" for s1 fk pr f rows r
    using allowed_frame [of env s fk pr f rows] that by simp
  then show ?thesis
    by (auto simp: same_tables_def search_def Let_def split: sum.split prod.split)
qed

lemma same_tables_trans: "same_tables s t \<Longrightarrow> same_tables t u \<Longrightarrow> same_tables s u"
  by (simp add: same_tables_def)

lemma visible_same: "same_tables s t \<Longrightarrow> visible_hit env t = visible_hit env s"
proof -
  assume "same_tables s t"
  then have "ls_rows_of t = ls_rows_of s" by (intro ext rows_frame) (simp_all add: same_tables_def)
  then show ?thesis by (intro ext) (simp only: visible_hit_def)
qed

lemma visible_score [simp]:
  "visible_hit env s ns br fl pr (h\<lparr>ht_score := x\<rparr>) = visible_hit env s ns br fl pr h"
  by (simp add: visible_hit_def)

text \<open>What is kept by every step of a request that starts in \<open>s0\<close>.\<close>

definition on_the_way :: "ls_env \<Rightarrow> local_search \<Rightarrow> local_search \<Rightarrow> bool" where
  "on_the_way env s0 s = (ls_reach env s \<and> same_tables s0 s)"

lemma search_on_the_way:
  assumes "on_the_way env s0 s"
  shows "on_the_way env s0 (fst (search env s a))"
proof -
  have "ls_reach env (ls_step env s (LSearch a))"
    using assms by (intro ls_next) (simp_all add: on_the_way_def broken_off_def)
  then show ?thesis
    using assms same_tables_trans search_tables by (auto simp: on_the_way_def)
qed

lemma search_hits_on_the_way:
  assumes "on_the_way env s0 s" "search env s a = (s', Inr hits)" "h \<in> set hits"
  shows "visible_hit env s0 (sa_namespace a) (sa_branch a) (sa_filters a) (sa_principal a) h"
proof -
  from search_visible [OF _ assms(2,3)] assms(1)
  have "visible_hit env s (sa_namespace a) (sa_branch a) (sa_filters a) (sa_principal a) h"
    by (simp add: on_the_way_def)
  moreover have "visible_hit env s = visible_hit env s0"
    using assms(1) by (intro visible_same) (simp add: on_the_way_def)
  ultimately show ?thesis by simp
qed

lemma sort_in_set: "sort_in x ys = Inr zs \<Longrightarrow> set zs = insert x (set ys)"
proof (induction ys arbitrary: zs)
  case (Cons y ys)
  from Cons.prems consider "zs = x # y # ys" | ws where "sort_in x ys = Inr ws" "zs = y # ws"
    by (simp split: sum.splits bool.splits)
  then show ?case
  proof cases
    case 1
    then show ?thesis by simp
  next
    case (2 ws)
    with Cons.IH [of ws] show ?thesis by (simp add: insert_commute)
  qed
qed simp

lemma py_sort_set: "py_sort xs = Inr ys \<Longrightarrow> set ys = set xs"
proof (induction xs arbitrary: ys)
  case (Cons x xs)
  then obtain zs where "py_sort xs = Inr zs" "sort_in x zs = Inr ys" by (simp split: sum.splits)
  with Cons.IH [of zs] sort_in_set [of x zs ys] show ?case by simp
qed simp

lemma attribute_sort_set: "attribute_sort attr d hits = Inr hs \<Longrightarrow> set hs = set hits"
  by (auto simp: attribute_sort_def Let_def image_image dest!: py_sort_set split: if_splits sum.splits)

lemma query_args_simps [simp]:
  "sa_namespace (query_args ns br pr sub t k) = ns" "sa_branch (query_args ns br pr sub t k) = br"
  "sa_filters (query_args ns br pr sub t k) = jget sub ''filters''" "sa_principal (query_args ns br pr sub t k) = pr"
  by (simp_all add: query_args_def split: prod.split)

lemma plain_query_visible:
  assumes "on_the_way env s0 s"
  shows "on_the_way env s0 (fst (plain_query env ns br pr sub rank s))
    \<and> (\<forall>hits. snd (plain_query env ns br pr sub rank s) = Inr hits \<longrightarrow>
         (\<forall>h \<in> set hits. visible_hit env s0 ns br (jget sub ''filters'') pr h))"
proof -
  have w: "on_the_way env s0 s'" if "search env s a = (s', r)" for a s' r
    using search_on_the_way [OF assms, of a] that by simp
  have v: "\<forall>h \<in> set hs. visible_hit env s0 ns br (jget sub ''filters'') pr h"
    if "search env s (query_args ns br pr sub t k) = (s', Inr hits)" "set hs = set hits" for t k s' hits hs
    using search_hits_on_the_way [OF assms that(1)] that(2) by auto
  show ?thesis
    unfolding plain_query_def
    by (auto split: sum.splits prod.splits json.splits list.splits if_splits dest!: attribute_sort_set
        intro: w assms dest: v [THEN bspec])
qed


declare one_query.simps [simp del]

lemma fused_visible:
  "(\<forall>p \<in> set acc. V (fst (snd p))) \<Longrightarrow> (\<And>h x. V (h\<lparr>ht_score := x\<rparr>) = V h) \<Longrightarrow> \<forall>h \<in> set (fused_hits acc). V h"
  by (auto simp: fused_hits_def best_first_def)

lemma add_hit_visible:
  "(\<forall>p \<in> set acc. V (fst (snd p))) \<Longrightarrow> (\<forall>h \<in> set hits. V h) \<Longrightarrow>
     \<forall>p \<in> set (foldl (add_hit w) acc hits). V (fst (snd p))"
proof (induction hits arbitrary: acc)
  case (Cons h hits)
  have "\<forall>p \<in> set (add_hit w acc h). V (fst (snd p))"
    using Cons.prems by (auto simp: add_hit_def split: option.split dest!: dput_mem map_of_SomeD)
  with Cons show ?case by simp
qed simp

lemma slice_subset: "set (slice_to n xs) \<subseteq> set xs"
  by (simp add: slice_to_def set_take_subset)

lemma one_query_visible:
  shows "on_the_way env s0 s \<Longrightarrow> on_the_way env s0 (fst (one_query env ns br pr sub rank s))
    \<and> (\<forall>hits. snd (one_query env ns br pr sub rank s) = Inr hits \<longrightarrow>
         (\<forall>h \<in> set hits. visible_hit env s0 ns br (jget sub ''filters'') pr h))"
    and "on_the_way env s0 s \<Longrightarrow> (\<forall>p \<in> set acc. visible_hit env s0 ns br (jget sub ''filters'') pr (fst (snd p))) \<Longrightarrow>
      on_the_way env s0 (fst (sum_query env ns br pr sub clauses s acc))
    \<and> (\<forall>acc'. snd (sum_query env ns br pr sub clauses s acc) = Inr acc' \<longrightarrow>
         (\<forall>p \<in> set acc'. visible_hit env s0 ns br (jget sub ''filters'') pr (fst (snd p))))"
proof (induction env ns br pr sub rank s and env ns br pr sub clauses s acc rule: one_query_sum_query.induct)
  case (1 env ns br pr sub rank s)
  let ?V = "visible_hit env s0 ns br (jget sub ''filters'') pr"
  show ?case
  proof (cases "\<exists>r rs. rank = JList (r # rs) \<and> word_of env r = ''sum''")
    case False
    then have "one_query env ns br pr sub rank s = plain_query env ns br pr sub rank s"
      by (auto simp: one_query.simps split: json.split list.split)
    then show ?thesis using plain_query_visible [OF 1(2)] by simp
  next
    case True
    then obtain r rs where rank: "rank = JList (r # rs)" and sum: "word_of env r = ''sum''" by blast
    define body where "body = (case rs of
                     [] \<Rightarrow> (s, Inr [])
                   | JList clauses # _ \<Rightarrow> sum_query env ns br pr sub clauses s []
                   | v # _ \<Rightarrow> (s, case py_iter v of Inl e \<Rightarrow> Inl e | Inr _ \<Rightarrow> Inr []))"
    have one: "one_query env ns br pr sub rank s = (case body of
               (s', Inl e) \<Rightarrow> (s', Inl e)
             | (s', Inr acc) \<Rightarrow>
                 (s', case sum_limit sub of Inl e \<Rightarrow> Inl e | Inr k \<Rightarrow> Inr (slice_to k (fused_hits acc))))"
      by (simp add: one_query.simps rank sum body_def)
    have "on_the_way env s0 (fst body) \<and> (\<forall>acc'. snd body = Inr acc' \<longrightarrow> (\<forall>p \<in> set acc'. ?V (fst (snd p))))"
    proof (cases "\<exists>clauses rest. rs = JList clauses # rest")
      case True
      then obtain clauses rest where rs: "rs = JList clauses # rest" by blast
      have "body = sum_query env ns br pr sub clauses s []" by (simp add: body_def rs)
      then show ?thesis using 1(1) [OF rank refl sum rs refl 1(2)] by simp
    next
      case False
      then have "fst body = s \<and> (\<forall>acc'. snd body = Inr acc' \<longrightarrow> acc' = [])"
        by (auto simp: body_def split: list.splits json.splits sum.splits)
      then show ?thesis using 1(2) by auto
    qed
    moreover obtain s' b where b: "body = (s', b)" by (cases body)
    ultimately have ow: "on_the_way env s0 s'" and vis: "\<And>acc'. b = Inr acc' \<Longrightarrow> \<forall>p \<in> set acc'. ?V (fst (snd p))" by auto
    show ?thesis
    proof (cases b)
      case (Inl e)
      then show ?thesis using ow by (simp add: one b)
    next
      case (Inr acc')
      from fused_visible [of acc' ?V] vis [OF Inr] have "\<forall>h \<in> set (fused_hits acc'). ?V h" by simp
      then have "\<forall>h \<in> set (slice_to k (fused_hits acc')). ?V h" for k
        using slice_subset [of k "fused_hits acc'"] by blast
      then show ?thesis using ow by (auto simp: one b Inr split: sum.splits)
    qed
  qed
next
  case (2 env ns br pr sub s acc)
  then show ?case by simp
next
  case (3 env ns br pr sub clause cs s acc)
  show ?case
  proof (cases "weighted env clause")
    case (Inl e)
    then show ?thesis using "3.prems" by simp
  next
    case (Inr wi)
    obtain w inner where wi: "wi = (w, inner)" by (cases wi)
    show ?thesis
    proof (cases "is_list inner")
      case False
      with "3.IH"(3) [OF Inr wi [symmetric] False "3.prems"] show ?thesis by (simp add: Inr wi)
    next
      case inner: True
      obtain s' r where r: "one_query env ns br pr sub inner s = (s', r)" by (cases "one_query env ns br pr sub inner s")
      note one = "3.IH"(1) [OF Inr wi [symmetric] inner "3.prems"(1)]
      from one have ow: "on_the_way env s0 s'" by (simp add: r)
      show ?thesis
      proof (cases r)
        case (Inl e)
        then show ?thesis using ow r by (simp add: \<open>weighted env clause = Inr wi\<close> wi inner)
      next
        case (Inr hits)
        from one r Inr have "\<forall>h \<in> set hits. visible_hit env s0 ns br (jget sub ''filters'') pr h" by simp
        note acc' = add_hit_visible [OF "3.prems"(2) this, of w]
        have "sum_query env ns br pr sub (clause # cs) s acc = sum_query env ns br pr sub cs s' (foldl (add_hit w) acc hits)"
          using r Inr by (simp add: \<open>weighted env clause = Inr wi\<close> wi inner)
        with "3.IH"(2) [OF \<open>weighted env clause = Inr wi\<close> wi [symmetric] inner r [symmetric] Inr ow acc'] show ?thesis by simp
      qed
    qed
  qed
qed


text \<open>The mappings a request is made of.\<close>

definition subs_of :: "(string, json) dict \<Rightarrow> (string, json) dict list" where
  "subs_of req =
     (case dget req ''queries'' of
        None \<Rightarrow> [req]
      | Some q \<Rightarrow> (case py_iter q of
          Inl e \<Rightarrow> []
        | Inr subs \<Rightarrow> concat (map (\<lambda>v. case v of JObj d \<Rightarrow> [d] | _ \<Rightarrow> []) subs)))"

definition sub_visible :: "ls_env \<Rightarrow> local_search \<Rightarrow> string \<Rightarrow> string \<Rightarrow> string option
    \<Rightarrow> (string, json) dict list \<Rightarrow> hit \<Rightarrow> bool" where
  "sub_visible env s ns br pr subs h = (\<exists>sub \<in> set subs. visible_hit env s ns br (jget sub ''filters'') pr h)"

lemma sub_visible_score [simp]:
  "sub_visible env s ns br pr subs (h\<lparr>ht_score := x\<rparr>) = sub_visible env s ns br pr subs h"
  by (simp add: sub_visible_def)

lemma sub_visible_mono: "set subs \<subseteq> set subs' \<Longrightarrow> sub_visible env s ns br pr subs h \<Longrightarrow> sub_visible env s ns br pr subs' h"
  by (auto simp: sub_visible_def)

definition mappings :: "json list \<Rightarrow> (string, json) dict list" where
  "mappings qs = concat (map (\<lambda>v. case v of JObj d \<Rightarrow> [d] | _ \<Rightarrow> []) qs)"

lemma run_subs_visible:
  "on_the_way env s0 s \<Longrightarrow> on_the_way env s0 (fst (run_subs env ns br pr qs s))
    \<and> (\<forall>hits. Inr hits \<in> set (snd (run_subs env ns br pr qs s)) \<longrightarrow>
         (\<forall>h \<in> set hits. sub_visible env s0 ns br pr (mappings qs) h))"
proof (induction qs arbitrary: s)
  case (Cons q qs)
  define sr where "sr = (case q of
                       JObj sub \<Rightarrow> one_query env ns br pr sub (dget_or sub ''rank_by'' default_rank) s
                     | _ \<Rightarrow> (s, Inl (OtherError ''AttributeError'')))"
  have step: "on_the_way env s0 (fst sr)
      \<and> (\<forall>hits. snd sr = Inr hits \<longrightarrow> (\<forall>h \<in> set hits. sub_visible env s0 ns br pr (mappings (q # qs)) h))"
  proof (cases "\<exists>sub. q = JObj sub")
    case True
    then obtain sub where q: "q = JObj sub" by blast
    then have sr: "sr = one_query env ns br pr sub (dget_or sub ''rank_by'' default_rank) s" by (simp add: sr_def)
    have "sub_visible env s0 ns br pr (mappings (q # qs)) h"
      if "visible_hit env s0 ns br (jget sub ''filters'') pr h" for h
      using that by (auto simp: sub_visible_def mappings_def q)
    with one_query_visible(1) [OF Cons.prems, of ns br pr sub "dget_or sub ''rank_by'' default_rank"]
    show ?thesis unfolding sr by blast
  next
    case False
    then have "sr = (s, Inl (OtherError ''AttributeError''))" by (simp add: sr_def split: json.split)
    then show ?thesis using Cons.prems by simp
  qed
  then have ow: "on_the_way env s0 (fst sr)" by simp
  have eq: "run_subs env ns br pr (q # qs) s =
      (fst (run_subs env ns br pr qs (fst sr)), snd sr # snd (run_subs env ns br pr qs (fst sr)))"
    by (simp add: sr_def split_beta)
  have "set (mappings qs) \<subseteq> set (mappings (q # qs))" by (auto simp: mappings_def)
  note mono = sub_visible_mono [OF this]
  show ?case
    unfolding eq fst_conv snd_conv
  proof (intro conjI allI impI ballI)
    show "on_the_way env s0 (fst (run_subs env ns br pr qs (fst sr)))" using Cons.IH [OF ow] by simp
    fix hits h
    assume "Inr hits \<in> set (snd sr # snd (run_subs env ns br pr qs (fst sr)))" and h: "h \<in> set hits"
    then consider "snd sr = Inr hits" | "Inr hits \<in> set (snd (run_subs env ns br pr qs (fst sr)))" by auto
    then show "sub_visible env s0 ns br pr (mappings (q # qs)) h"
    proof cases
      case 1
      then show ?thesis using step h by simp
    next
      case 2
      then show ?thesis using Cons.IH [OF ow] h mono by blast
    qed
  qed
qed simp

lemma rank_add_visible:
  "rank_add w c r acc h = Inr acc' \<Longrightarrow> \<forall>p \<in> set acc. V (fst (snd p)) \<Longrightarrow> V h \<Longrightarrow> \<forall>p \<in> set acc'. V (fst (snd p))"
  by (auto simp: rank_add_def split: if_splits dest!: dput_mem)

lemma fuse_list_visible:
  "fuse_list w c r hs acc = Inr acc' \<Longrightarrow> \<forall>p \<in> set acc. V (fst (snd p)) \<Longrightarrow> \<forall>h \<in> set hs. V h \<Longrightarrow>
     \<forall>p \<in> set acc'. V (fst (snd p))"
proof (induction hs arbitrary: r acc)
  case (Cons h hs)
  from Cons.prems(1) obtain acc1 where a: "rank_add w c r acc h = Inr acc1" "fuse_list w c (Suc r) hs acc1 = Inr acc'"
    by (simp split: sum.splits)
  from rank_add_visible [OF a(1) Cons.prems(2)] Cons.prems(3) have "\<forall>p \<in> set acc1. V (fst (snd p))" by simp
  from Cons.IH [OF a(2) this] Cons.prems(3) show ?case by simp
qed simp

lemma fuse_lists_visible:
  "fuse_lists ws c hss acc = Inr acc' \<Longrightarrow> \<forall>p \<in> set acc. V (fst (snd p)) \<Longrightarrow> \<forall>hs \<in> set hss. \<forall>h \<in> set hs. V h \<Longrightarrow>
     \<forall>p \<in> set acc'. V (fst (snd p))"
proof (induction hss arbitrary: ws acc)
  case (Cons hs hss)
  from Cons.prems(1) obtain w acc1 where a: "fuse_list w c 1 hs acc = Inr acc1" "fuse_lists (tl ws) c hss acc1 = Inr acc'"
    by (auto split: sum.splits)
  from fuse_list_visible [OF a(1) Cons.prems(2)] Cons.prems(3) have "\<forall>p \<in> set acc1. V (fst (snd p))" by simp
  from Cons.IH [OF a(2) this] Cons.prems(3) show ?case by simp
qed simp

lemma multi_query_visible:
  assumes "on_the_way env s0 s" "multi_query env ns br pr req qs s = (s', Inr res)"
  shows "\<exists>rows rr. res = QFused rows rr \<and> (\<forall>row \<in> set rows. \<exists>h.
     sub_visible env s0 ns br pr (mappings qs) h \<and> query_row h req (ht_score h) = Inr row)"
proof -
  obtain s1 rs where r: "run_subs env ns br pr qs s = (s1, rs)" by (cases "run_subs env ns br pr qs s")
  from assms(2) obtain hss acc k rows rr where hss: "map_result (\<lambda>r. r) rs = Inr hss"
    and acc: "rrf req hss = Inr acc"
    and rows: "map_result (\<lambda>h. query_row h req (ht_score h)) (slice_to k (fused_hits acc)) = Inr rows"
    and res: "res = QFused rows rr"
    by (auto simp: multi_query_def r split: if_splits sum.splits)
  have "\<forall>hs \<in> set hss. \<forall>h \<in> set hs. sub_visible env s0 ns br pr (mappings qs) h"
  proof
    fix hs assume "hs \<in> set hss"
    from map_result_mem [OF hss this] have "Inr hs \<in> set rs" by auto
    with run_subs_visible [OF assms(1), of ns br pr qs] show "\<forall>h \<in> set hs. sub_visible env s0 ns br pr (mappings qs) h"
      by (simp add: r)
  qed
  moreover from acc obtain c ws where "fuse_lists ws c hss [] = Inr acc"
    by (auto simp: rrf_def Let_def split: sum.splits)
  ultimately have "\<forall>p \<in> set acc. sub_visible env s0 ns br pr (mappings qs) (fst (snd p))"
    using fuse_lists_visible [of ws c hss "[]" acc "sub_visible env s0 ns br pr (mappings qs)"] by simp
  then have "\<forall>h \<in> set (fused_hits acc). sub_visible env s0 ns br pr (mappings qs) h"
    by (rule fused_visible) simp
  then have vis: "\<forall>h \<in> set (slice_to k (fused_hits acc)). sub_visible env s0 ns br pr (mappings qs) h"
    using slice_subset [of k "fused_hits acc"] by blast
  have "\<exists>h. sub_visible env s0 ns br pr (mappings qs) h \<and> query_row h req (ht_score h) = Inr row"
    if "row \<in> set rows" for row
    using map_result_mem [OF rows that] vis by blast
  then show ?thesis using res by blast
qed

lemma query_rows_visible:
  assumes "ls_reach env s" and "query env ns br pr req s = (s', Inr res)"
  shows "(\<forall>rows. res = QRows rows \<or> (\<exists>rr. res = QFused rows rr) \<longrightarrow>
       (\<forall>row \<in> set rows. \<exists>h. query_row h req (ht_score h) = Inr row
          \<and> (\<exists>sub \<in> set (subs_of req). visible_hit env s ns br (jget sub ''filters'') pr h)))"
proof -
  have ow: "on_the_way env s s" using assms(1) by (simp add: on_the_way_def same_tables_def)
  show ?thesis
  proof (cases "dget req ''queries''")
    case (Some q)
    with assms(2) obtain qs where qs: "py_iter q = Inr qs" "multi_query env ns br pr req qs s = (s', Inr res)"
      by (auto simp: query_def split: sum.splits)
    have "mappings qs = subs_of req" by (simp add: subs_of_def mappings_def Some qs(1))
    with multi_query_visible [OF ow qs(2)] show ?thesis by (fastforce simp: sub_visible_def)
  next
    case None
    then have subs: "subs_of req = [req]" by (simp add: subs_of_def)
    show ?thesis
    proof (cases "dget req ''aggregate_by''")
      case (Some spec)
      with assms(2) None have "\<exists>d. res = QTotals d"
        by (auto simp: query_def totals_def split: sum.splits json.splits)
      then show ?thesis by auto
    next
      case noagg: None
      obtain s1 r where r: "one_query env ns br pr req (dget_or req ''rank_by'' default_rank) s = (s1, r)"
        by (cases "one_query env ns br pr req (dget_or req ''rank_by'' default_rank) s")
      from assms(2) None noagg obtain hits rows where hits: "r = Inr hits"
        and rows: "map_result (\<lambda>h. query_row h req (ht_score h)) hits = Inr rows" and res: "res = QRows rows"
        by (auto simp: query_def r split: sum.splits)
      have "\<forall>h \<in> set hits. visible_hit env s ns br (jget req ''filters'') pr h"
        using one_query_visible(1) [OF ow, of ns br pr req "dget_or req ''rank_by'' default_rank"]
        by (simp add: r hits)
      then show ?thesis
        using map_result_mem [OF rows] res subs by fastforce
    qed
  qed
qed

lemma query_tables:
  assumes "ls_reach env s"
  shows "same_tables s (fst (query env ns br pr req s))"
proof -
  have ow: "on_the_way env s s" using assms by (simp add: on_the_way_def same_tables_def)
  have self: "same_tables s s" by (simp add: same_tables_def)
  have one: "same_tables s (fst (one_query env ns br pr req rank s))" for rank
    using one_query_visible(1) [OF ow] by (simp add: on_the_way_def)
  have multi: "same_tables s (fst (multi_query env ns br pr req qs s))" for qs
    using run_subs_visible [OF ow, of ns br pr qs] self
    by (auto simp: multi_query_def on_the_way_def split: prod.split)
  show ?thesis
  proof (cases "dget req ''queries''")
    case (Some q)
    then show ?thesis using multi self by (simp add: query_def split: sum.split)
  next
    case None
    then show ?thesis
      using one [of "dget_or req ''rank_by'' default_rank"] self
      by (cases "one_query env ns br pr req (dget_or req ''rank_by'' default_rank) s")
        (simp add: query_def split: option.split sum.split)
  qed
qed



text \<open>The witness: a query of the branch that the access list restricts to one principal.\<close>

lemma demo_query_rows:
  "\<exists>s' rows. query demo_env ''default'' ''main'' (Some ''ann'') [(''rank_by'', JList [])] demo_state = (s', Inr (QRows rows))
     \<and> rows \<noteq> []"
proof -
  let ?a = "query_args ''default'' ''main'' (Some ''ann'') [(''rank_by'', JList [])] ([], None, 0, 1) 10"
  have adm: "admits demo_env (Some ''ann'') (sa_filters ?a) demo_item = Inr True" by code_simp
  obtain v where v: "namespace_metadata demo_state ''default'' = Inr v"
    using demo_parts(2) by (auto elim: is_okE)
  have "\<exists>s1. allowed_keys demo_env demo_state
      (filter_cache_key ''default'' ''main'' (nm_revision (nv_meta v)) (sa_filters ?a) (Some ''ann'')) (Some ''ann'') (sa_filters ?a)
      [(''a'', demo_item)] = (s1, Inr [''a''])"
    using adm by (simp add: allowed_keys_def Let_def demo_parts(3))
  then obtain s1 where ak: "allowed_keys demo_env demo_state
      (filter_cache_key ''default'' ''main'' (nm_revision (nv_meta v)) (sa_filters ?a) (Some ''ann'')) (Some ''ann'') (sa_filters ?a)
      [(''a'', demo_item)] = (s1, Inr [''a''])" ..
  have plain: "sa_vector ?a = None" "sa_regex ?a = None" "tokens (sa_text ?a) = []" "sa_top_k ?a = 10"
    by (simp_all add: query_args_def tokens_def)
  have "\<exists>hits. search demo_env demo_state ?a = (fill_postings s1 ''default'' ''main'' [(''a'', demo_item)], Inr hits)
      \<and> (\<forall>k. k \<in> ht_key ` set hits \<longleftrightarrow> k \<in> set [''a''] \<and> k \<in> set (dkeys [(''a'', demo_item)]))"
    using search_lexical [of demo_state ?a "[(''a'', demo_item)]" v demo_env s1 "[''a'']"] demo_parts(1) v ak plain
    by simp
  then obtain hits where r: "search demo_env demo_state ?a = (fill_postings s1 ''default'' ''main'' [(''a'', demo_item)], Inr hits)"
    and k: "\<forall>k. k \<in> ht_key ` set hits \<longleftrightarrow> k \<in> set [''a''] \<and> k \<in> set (dkeys [(''a'', demo_item)])"
    by (elim exE conjE)
  from spec [OF k, of "''a''"] have ne: "hits \<noteq> []" by auto
  let ?req = "[(''rank_by'', JList [])]"
  have pq: "plain_query demo_env ''default'' ''main'' (Some ''ann'') ?req (JList []) demo_state
      = (fill_postings s1 ''default'' ''main'' [(''a'', demo_item)], Inr hits)"
    using r by (simp add: plain_query_def rank_terms_def limit_of_def dget_or_def)
  have "query_row h ?req (ht_score h) = Inr (foldl (\<lambda>r p. dput (fst p) (snd p) r)
      [(''id'', JStr (ht_key h)), (''$dist'', JFloat (Fin (ht_score h)))] (ht_metadata h))" for h
    by (simp add: query_row_def dget_or_def)
  then have "\<exists>rows. map_result (\<lambda>h. query_row h ?req (ht_score h)) hits = Inr rows \<and> length rows = length hits"
    by (subst map_result_total) auto
  then obtain rows where "map_result (\<lambda>h. query_row h ?req (ht_score h)) hits = Inr rows" "length rows = length hits" by blast
  moreover from this(2) ne have "rows \<noteq> []" by auto
  ultimately show ?thesis
    by (simp add: query_def one_query.simps pq dget_or_def)
qed


section \<open>Reciprocal rank fusion adds what the lists say\<close>

text \<open>The weight of a list and the sum of the contributions of its ranks to a key.\<close>

definition list_weight :: "json list \<Rightarrow> nat \<Rightarrow> real" where
  "list_weight ws i = (if i < length ws then (case finite_float (ws ! i) of Inr w \<Rightarrow> w | Inl e \<Rightarrow> 0) else 1)"

definition rank_gain :: "real \<Rightarrow> nat \<Rightarrow> hit list \<Rightarrow> string \<Rightarrow> real" where
  "rank_gain c r hs k = (\<Sum>j<length hs. if ht_key (hs ! j) = k then 1 / (c + real (r + j)) else 0)"

definition score_of :: "fused \<Rightarrow> string \<Rightarrow> real" where
  "score_of acc k = (case dget acc k of None \<Rightarrow> 0 | Some (_, sc) \<Rightarrow> sc)"

lemma rank_add_score:
  "rank_add w c r acc h = Inr acc' \<Longrightarrow>
     score_of acc' k = score_of acc k + (if ht_key h = k then w / (c + real r) else 0)
     \<and> set (dkeys acc') = insert (ht_key h) (set (dkeys acc))"
  by (auto simp: rank_add_def score_of_def dict_simps split: if_splits simp del: set_map)

lemma rank_gain_Cons:
  "rank_gain c r (h # hs) k = (if ht_key h = k then 1 / (c + real r) else 0) + rank_gain c (Suc r) hs k"
proof -
  have len: "length (h # hs) = Suc (length hs)" by simp
  have "(\<Sum>j<length (h # hs). if ht_key ((h # hs) ! j) = k then 1 / (c + real (r + j)) else 0)
      = (if ht_key h = k then 1 / (c + real r) else 0)
        + (\<Sum>j<length hs. if ht_key (hs ! j) = k then 1 / (c + real (r + Suc j)) else 0)"
    by (simp only: len sum.lessThan_Suc_shift) simp
  then show ?thesis by (simp only: rank_gain_def add_Suc add_Suc_right)
qed

lemma fuse_list_score:
  "fuse_list w c r hs acc = Inr acc' \<Longrightarrow>
     score_of acc' k = score_of acc k + w * rank_gain c r hs k
     \<and> set (dkeys acc') = ht_key ` set hs \<union> set (dkeys acc)"
proof (induction hs arbitrary: r acc)
  case Nil
  then show ?case by (simp add: rank_gain_def)
next
  case (Cons h hs)
  from Cons.prems obtain acc1 where a: "rank_add w c r acc h = Inr acc1" "fuse_list w c (Suc r) hs acc1 = Inr acc'"
    by (simp split: sum.splits)
  from rank_add_score [OF a(1), of k] Cons.IH [OF a(2)] show ?case
    by (auto simp: rank_gain_Cons algebra_simps)
qed

lemma fuse_lists_score:
  "fuse_lists ws c hss acc = Inr acc' \<Longrightarrow>
     score_of acc' k = score_of acc k + (\<Sum>i<length hss. list_weight ws i * rank_gain c 1 (hss ! i) k)
     \<and> set (dkeys acc') = (\<Union>hs \<in> set hss. ht_key ` set hs) \<union> set (dkeys acc)"
proof (induction hss arbitrary: ws acc)
  case (Cons hs hss)
  from Cons.prems obtain w acc1 where w: "(case ws of [] \<Rightarrow> Inr 1 | w # _ \<Rightarrow> finite_float w) = Inr w"
    and a: "fuse_list w c 1 hs acc = Inr acc1" "fuse_lists (tl ws) c hss acc1 = Inr acc'"
    by (auto split: sum.splits)
  have w0: "list_weight ws 0 = w" using w by (cases ws) (auto simp: list_weight_def)
  have ws: "list_weight (tl ws) i = list_weight ws (Suc i)" for i
    by (cases ws) (auto simp: list_weight_def)
  from fuse_list_score [OF a(1), of k] Cons.IH [OF a(2)] show ?case
    by (auto simp: sum.lessThan_Suc_shift w0 ws simp del: sum.lessThan_Suc)
qed simp

text \<open>Reciprocal rank fusion is the sum it is documented as: a fused key is one that some
  subquery returned, and its score adds, over the subqueries and the places at which they return
  the key, the weight of the subquery over the rank constant plus the place counted from one. The
  fused rows are in falling order of that score, equal scores by key.\<close>

theorem rrf_adds_reciprocal_ranks:
  assumes "rrf req hss = Inr acc"
  shows "\<exists>c ws. finite_float (dget_or (rerank_config req) ''rank_constant'' (JInt 60)) = Inr c
    \<and> py_iter (dget_or (rerank_config req) ''weights'' (JList [])) = Inr ws
    \<and> (\<forall>k. (dget acc k \<noteq> None \<longleftrightarrow> (\<exists>hs \<in> set hss. \<exists>h \<in> set hs. ht_key h = k))
        \<and> score_of acc k = (\<Sum>i<length hss. list_weight ws i * rank_gain c 1 (hss ! i) k))
    \<and> sorted (map (\<lambda>h. (- ht_score h, ht_key h)) (fused_hits acc))"
proof -
  from assms obtain c ws where c: "finite_float (dget_or (rerank_config req) ''rank_constant'' (JInt 60)) = Inr c"
    and ws: "py_iter (dget_or (rerank_config req) ''weights'' (JList [])) = Inr ws"
    and f: "fuse_lists ws c hss [] = Inr acc"
    by (auto simp: rrf_def Let_def split: sum.splits)
  have "dget acc k \<noteq> None \<longleftrightarrow> (\<exists>hs \<in> set hss. \<exists>h \<in> set hs. ht_key h = k)" for k
    using fuse_lists_score [OF f, of k] dget_None_keys [of acc k] by auto
  moreover have "score_of acc k = (\<Sum>i<length hss. list_weight ws i * rank_gain c 1 (hss ! i) k)" for k
    using fuse_lists_score [OF f, of k] by (simp add: score_of_def)
  moreover have "sorted (map (\<lambda>h. (- ht_score h, ht_key h)) (fused_hits acc))"
    by (simp add: fused_hits_def best_first_def)
  ultimately show ?thesis using c ws by blast
qed

definition demo_hit :: "string \<Rightarrow> hit" where
  "demo_hit k = \<lparr>ht_key = k, ht_score = 0, ht_vector = 0, ht_lexical = 0, ht_regex = 0, ht_text = [], ht_metadata = []\<rparr>"

theorem rrf_adds_reciprocal_ranks_witness:
  "\<exists>acc. rrf [] [[demo_hit ''a'', demo_hit ''b''], [demo_hit ''b'']] = Inr acc
     \<and> score_of acc ''b'' = 1 / 62 + 1 / 61 \<and> dget acc ''c'' = None"
proof -
  have c: "finite_float (dget_or (rerank_config []) ''rank_constant'' (JInt 60)) = Inr 60"
    by (simp add: finite_float_def rerank_config_def dget_or_def double_limit_def)
  have ws: "py_iter (dget_or (rerank_config []) ''weights'' (JList [])) = Inr []"
    by (simp add: rerank_config_def dget_or_def)
  have "is_ok (rrf [] [[demo_hit ''a'', demo_hit ''b''], [demo_hit ''b'']])"
    unfolding rrf_def Let_def c ws by (simp add: rank_add_def demo_hit_def)
  then obtain acc where r: "rrf [] [[demo_hit ''a'', demo_hit ''b''], [demo_hit ''b'']] = Inr acc"
    by (auto elim: is_okE)
  from rrf_adds_reciprocal_ranks [OF r] c ws
  have k: "\<forall>k. (dget acc k \<noteq> None \<longleftrightarrow> (\<exists>hs \<in> set [[demo_hit ''a'', demo_hit ''b''], [demo_hit ''b'']]. \<exists>h \<in> set hs. ht_key h = k))
        \<and> score_of acc k = (\<Sum>i<length [[demo_hit ''a'', demo_hit ''b''], [demo_hit ''b'']].
             list_weight [] i * rank_gain 60 1 ([[demo_hit ''a'', demo_hit ''b''], [demo_hit ''b'']] ! i) k)"
    by auto
  from spec [OF k, of "''b''"] spec [OF k, of "''c''"] r show ?thesis
    by (cases "dget acc ''c''") (auto simp: demo_hit_def list_weight_def rank_gain_def)
qed

end
