(* ===== verification/Dream.thy ===== *)
theory Dream
  imports Registry Filter_Lang
begin

text \<open>
  Dreaming over the generation history (\<open>neural_pods/dream.py\<close>): the append-only pool of generation
  outcomes, the response of each decision fitted from consecutive generations, the replay
  simulator with its limits, ranking and backtest, and the cycle budget that reads its counter
  off the registry's event log.

  \<open>shown\<close> is \<open>str\<close> of a decision value and \<open>digest\<close> the hash of a JSON value; rates and levels are
  reals, so a level that is infinite or NaN is an error here. Reports and cases are decoded JSON;
  reading their files is an argument of \<open>from_project\<close>.
\<close>

section \<open>Levels\<close>

definition families :: "string list" where
  "families = [''typed'', ''concept'']"

definition family_of :: "json \<Rightarrow> string" where
  "family_of evidence = (if truthy evidence then ''typed'' else ''concept'')"

text \<open>One decision as a number, or as an indicator named after its value.\<close>

definition level_of :: "(json \<Rightarrow> string) \<Rightarrow> string \<Rightarrow> json \<Rightarrow> (string \<times> real) result" where
  "level_of shown name v =
     (case v of
        JBool b \<Rightarrow> Inr (name, if b then 1 else 0)
      | JInt n \<Rightarrow> (case py_float v of Inr (Fin r) \<Rightarrow> Inr (name, r) | Inr _ \<Rightarrow> Inl OverflowError | Inl e \<Rightarrow> Inl e)
      | JFloat (Fin r) \<Rightarrow> Inr (name, r)
      | JFloat _ \<Rightarrow> Inl (OtherError ''not finite'')
      | _ \<Rightarrow> Inr (name @ ''='' @ py_str shown v, 1))"

type_synonym levels = "(string, real) dict"

fun levels_of :: "(json \<Rightarrow> string) \<Rightarrow> (string \<times> json) list \<Rightarrow> levels \<Rightarrow> levels result" where
  "levels_of shown [] acc = Inr acc"
| "levels_of shown ((name, v) # ds) acc =
     (case level_of shown name v of
        Inl e \<Rightarrow> Inl e
      | Inr (k, l) \<Rightarrow> levels_of shown ds (dput k l acc))"

definition level_at :: "levels \<Rightarrow> string \<Rightarrow> real" where
  "level_at ls name = dget_or ls name 0"

section \<open>The pool\<close>

record generation =
  gn_name :: string
  gn_split :: string
  gn_decisions :: "(string, json) dict"
  gn_levels :: levels
  gn_order :: "int option"
  gn_outcome :: "(string, nat \<times> nat) dict"
  gn_hash :: string

record history_pool =
  hp_generations :: "generation list"
  hp_max_order :: "int option"

definition new_history :: history_pool where
  "new_history = \<lparr>hp_generations = [], hp_max_order = None\<rparr>"

definition rate :: "generation \<Rightarrow> string \<Rightarrow> real" where
  "rate g family =
     (case dget (gn_outcome g) family of
        None \<Rightarrow> 0
      | Some (correct, n) \<Rightarrow> if n = 0 then 0 else real correct / real n)"

text \<open>\<open>{c["id"]: c for c in cases}\<close> and a lookup in it: the last case of an id counts.\<close>

fun case_ids :: "(string, json) dict list \<Rightarrow> unit result" where
  "case_ids [] = Inr ()"
| "case_ids (c # cs) =
     (case dget c ''id'' of
        None \<Rightarrow> Inl KeyError
      | Some v \<Rightarrow> if hashable v then case_ids cs else Inl TypeError)"

definition find_case :: "(string, json) dict list \<Rightarrow> json \<Rightarrow> (string, json) dict option" where
  "find_case cases i = find (\<lambda>c. py_eq (jget c ''id'') i) (rev cases)"

definition count_row :: "(string, nat \<times> nat) dict \<Rightarrow> string \<Rightarrow> bool \<Rightarrow> (string, nat \<times> nat) dict" where
  "count_row out family hit =
     (case dget_or out family (0, 0) of
        (correct, n) \<Rightarrow> dput family (correct + (if hit then 1 else 0), n + 1) out)"

fun count_rows :: "(string, json) dict list \<Rightarrow> (string, json) dict list \<Rightarrow> (string, nat \<times> nat) dict
    \<Rightarrow> (string, nat \<times> nat) dict result" where
  "count_rows cases [] out = Inr out"
| "count_rows cases (row # rows) out =
     (case dget row ''id'' of
        None \<Rightarrow> Inl KeyError
      | Some i \<Rightarrow>
          if \<not> hashable i then Inl TypeError
          else count_rows cases rows
            (case find_case cases i of
               None \<Rightarrow> out
             | Some c \<Rightarrow> count_row out (family_of (jget c ''evidence'')) (truthy (jget row ''exact_target_match''))))"

definition empty_outcome :: "(string, nat \<times> nat) dict" where
  "empty_outcome = map (\<lambda>f. (f, (0, 0))) families"

text \<open>
  \<open>add_generation\<close>. The order is stored before the cases and the rows are read, so an exception in
  those leaves it behind.
\<close>

definition add_generation :: "(json \<Rightarrow> string) \<Rightarrow> (json \<Rightarrow> string) \<Rightarrow> string \<Rightarrow> (string, json) dict \<Rightarrow> string
    \<Rightarrow> (string, json) dict list \<Rightarrow> (string, json) dict list \<Rightarrow> int option \<Rightarrow> history_pool
    \<Rightarrow> history_pool \<times> unit result" where
  "add_generation shown digest name decisions split rows cases order p =
     (if name \<in> gn_name ` set (hp_generations p) then (p, Inl ValueError)
      else if (case (order, hp_max_order p) of (Some n, Some m) \<Rightarrow> n \<le> m | _ \<Rightarrow> False) then (p, Inl ValueError)
      else
        let p1 = (case order of None \<Rightarrow> p | Some n \<Rightarrow> p\<lparr>hp_max_order := Some n\<rparr>)
        in case case_ids cases of
             Inl e \<Rightarrow> (p1, Inl e)
           | Inr _ \<Rightarrow>
               (case count_rows cases rows empty_outcome of
                  Inl e \<Rightarrow> (p1, Inl e)
                | Inr out \<Rightarrow>
                    (case levels_of shown decisions [] of
                       Inl e \<Rightarrow> (p1, Inl e)
                     | Inr ls \<Rightarrow>
                         (p1\<lparr>hp_generations := hp_generations p1 @
                            [\<lparr>gn_name = name, gn_split = split, gn_decisions = decisions, gn_levels = ls,
                              gn_order = order, gn_outcome = out, gn_hash = take 12 (digest (JObj decisions))\<rparr>]\<rparr>,
                          Inr ()))))"

text \<open>\<open>from_project\<close>: the known generations in order, those without both files skipped.\<close>

definition known_generations :: "(string \<times> (string, json) dict) list" where
  "known_generations =
     [(''gen3'', [(''concept_oversample'', JInt 0), (''lookup_anchor'', JInt 0)]),
      (''gen4'', [(''concept_oversample'', JInt 3), (''lookup_anchor'', JInt 0)]),
      (''gen5'', [(''concept_oversample'', JInt 3), (''lookup_anchor'', JInt 1)]),
      (''gen6'', [(''concept_oversample'', JInt 3), (''lookup_anchor'', JInt 1), (''base_model'', JStr ''neohorse'')])]"

fun collect_known :: "(json \<Rightarrow> string) \<Rightarrow> (json \<Rightarrow> string) \<Rightarrow> string
    \<Rightarrow> (string \<Rightarrow> ((string, json) dict list \<times> (string, json) dict list) option) \<Rightarrow> int
    \<Rightarrow> (string \<times> (string, json) dict) list \<Rightarrow> history_pool \<Rightarrow> history_pool result" where
  "collect_known shown digest split files n [] p = Inr p"
| "collect_known shown digest split files n ((name, decisions) # ks) p =
     (case files name of
        None \<Rightarrow> collect_known shown digest split files (n + 1) ks p
      | Some (rows, cases) \<Rightarrow>
          (case add_generation shown digest name decisions split rows cases (Some n) p of
             (p', Inl e) \<Rightarrow> Inl e
           | (p', Inr _) \<Rightarrow> collect_known shown digest split files (n + 1) ks p'))"

definition from_project :: "(json \<Rightarrow> string) \<Rightarrow> (json \<Rightarrow> string) \<Rightarrow> string
    \<Rightarrow> (string \<Rightarrow> ((string, json) dict list \<times> (string, json) dict list) option) \<Rightarrow> history_pool result" where
  "from_project shown digest split files =
     (case collect_known shown digest split files 0 known_generations new_history of
        Inl e \<Rightarrow> Inl e
      | Inr p \<Rightarrow> if length (hp_generations p) < 2 then Inl ValueError else Inr p)"

section \<open>Responses\<close>

definition without :: "string option \<Rightarrow> generation list \<Rightarrow> generation list" where
  "without ex gs = filter (\<lambda>g. Some (gn_name g) \<noteq> ex) gs"

definition moved :: "generation \<Rightarrow> generation \<Rightarrow> string list" where
  "moved prev cur =
     filter (\<lambda>n. level_at (gn_levels cur) n \<noteq> level_at (gn_levels prev) n)
       (remdups (dkeys (gn_levels prev) @ dkeys (gn_levels cur)))"

type_synonym slopes = "(string, (string, real list) dict) dict"

definition add_slope :: "generation \<Rightarrow> generation \<Rightarrow> string \<Rightarrow> slopes \<Rightarrow> string \<Rightarrow> slopes" where
  "add_slope prev cur d sl family =
     (let step = level_at (gn_levels cur) d - level_at (gn_levels prev) d;
          delta = rate cur family - rate prev family;
          fams = dget_or sl d []
      in dput d (dput family (dget_or fams family [] @ [delta / step]) fams) sl)"

record ambiguity =
  am_from :: string
  am_to :: string
  am_decisions :: "string list"

fun collect_slopes :: "(generation \<times> generation) list \<Rightarrow> slopes \<Rightarrow> ambiguity list \<Rightarrow> slopes \<times> ambiguity list" where
  "collect_slopes [] sl am = (sl, am)"
| "collect_slopes ((prev, cur) # ps) sl am =
     (case moved prev cur of
        [] \<Rightarrow> collect_slopes ps sl am
      | [d] \<Rightarrow> collect_slopes ps (foldl (add_slope prev cur d) sl families) am
      | ds \<Rightarrow> collect_slopes ps sl
                (am @ [\<lparr>am_from = gn_name prev, am_to = gn_name cur, am_decisions = sort ds\<rparr>]))"

definition mean :: "real list \<Rightarrow> real" where
  "mean xs = sum_list xs / real (length xs)"

type_synonym responses = "(string, (string, real) dict) dict"

definition transitions :: "generation list \<Rightarrow> (generation \<times> generation) list" where
  "transitions gs = zip gs (tl gs)"

definition family_deltas :: "generation list \<Rightarrow> responses \<times> ambiguity list" where
  "family_deltas gs =
     (case collect_slopes (transitions gs) [] [] of
        (sl, am) \<Rightarrow> (map (\<lambda>(d, fams). (d, map (\<lambda>(f, xs). (f, mean xs)) fams)) sl, am))"

text \<open>
  \<open>observed_limits\<close>: the names known so far and those of the generation at hand; a generation before
  the first that has the name does not count.
\<close>

type_synonym limits = "(string, real \<times> real) dict"

definition widen :: "levels \<Rightarrow> limits \<Rightarrow> string \<Rightarrow> limits" where
  "widen ls bnd name =
     (let l = level_at ls name
      in case dget_or bnd name (l, l) of (low, high) \<Rightarrow> dput name (min low l, max high l) bnd)"

definition observed_limits :: "generation list \<Rightarrow> limits" where
  "observed_limits gs =
     foldl (\<lambda>bnd g. foldl (widen (gn_levels g)) bnd (remdups (dkeys bnd @ dkeys (gn_levels g)))) [] gs"

section \<open>The simulator\<close>

record simulator =
  rs_generations :: "generation list"
  rs_responses :: responses
  rs_ambiguous :: "ambiguity list"
  rs_limits :: limits
  rs_baseline :: "generation option"

definition fit_baseline :: "generation list \<Rightarrow> generation option" where
  "fit_baseline gs = find (\<lambda>g. list_all (\<lambda>p. snd p = 0) (gn_levels g)) gs"

definition new_simulator :: "history_pool \<Rightarrow> string option \<Rightarrow> simulator result" where
  "new_simulator p ex =
     (let gs = without ex (hp_generations p)
      in if gs = [] then Inl ValueError
         else Inr \<lparr>rs_generations = gs, rs_responses = fst (family_deltas gs),
                   rs_ambiguous = snd (family_deltas gs), rs_limits = observed_limits gs,
                   rs_baseline = fit_baseline gs\<rparr>)"

datatype prediction = Rate real | Unidentified "string list"

definition unknown_of :: "simulator \<Rightarrow> levels \<Rightarrow> string list" where
  "unknown_of s ls = sort (map fst (filter (\<lambda>p. snd p \<noteq> 0 \<and> dget (rs_responses s) (fst p) = None) ls))"

definition linear_rate :: "simulator \<Rightarrow> generation \<Rightarrow> levels \<Rightarrow> string \<Rightarrow> real" where
  "linear_rate s base ls family =
     foldl (\<lambda>r p. case dget (dget_or (rs_responses s) (fst p) []) family of
                     None \<Rightarrow> r | Some x \<Rightarrow> r + x * snd p) (rate base family) ls"

definition predict :: "simulator \<Rightarrow> levels \<Rightarrow> string \<Rightarrow> prediction" where
  "predict s ls family =
     (case rs_baseline s of
        None \<Rightarrow> Unidentified (if unknown_of s ls = [] then [''intercept''] else unknown_of s ls)
      | Some base \<Rightarrow>
          if unknown_of s ls \<noteq> [] then Unidentified (unknown_of s ls)
          else Rate (py_round 4 (min (max (linear_rate s base ls family) 0) 1)))"

definition simulate :: "(json \<Rightarrow> string) \<Rightarrow> simulator \<Rightarrow> (string, json) dict \<Rightarrow> (string, prediction) dict result" where
  "simulate shown s decisions =
     (case levels_of shown decisions [] of
        Inl e \<Rightarrow> Inl e
      | Inr ls \<Rightarrow> Inr (map (\<lambda>f. (f, predict s ls f)) families))"

definition extrapolation :: "(json \<Rightarrow> string) \<Rightarrow> simulator \<Rightarrow> (string, json) dict
    \<Rightarrow> (string \<times> real \<times> real \<times> real) list result" where
  "extrapolation shown s decisions =
     (case levels_of shown decisions [] of
        Inl e \<Rightarrow> Inl e
      | Inr ls \<Rightarrow> Inr (concat (map (\<lambda>(name, l).
          case dget_or (rs_limits s) name (0, 0) of
            (low, high) \<Rightarrow> if l < low \<or> l > high then [(name, l, low, high)] else []) ls)))"

record dreamt =
  dr_decisions :: "(string, json) dict"
  dr_prediction :: "(string, prediction) dict"
  dr_score :: "real option"
  dr_extrapolates :: "(string \<times> real \<times> real \<times> real) list"
  dr_pool_hash :: string

text \<open>The score of a policy: the rounded sum of its rates, when every family has one.\<close>

fun rates :: "(string \<times> prediction) list \<Rightarrow> real list option" where
  "rates [] = Some []"
| "rates ((f, Rate r) # ps) = (case rates ps of None \<Rightarrow> None | Some rs \<Rightarrow> Some (r # rs))"
| "rates ((f, Unidentified _) # ps) = None"

definition score_of_rates :: "(string, prediction) dict \<Rightarrow> real option" where
  "score_of_rates ps = (case rates ps of None \<Rightarrow> None | Some rs \<Rightarrow> Some (py_round 4 (sum_list rs)))"

definition dream_one :: "(json \<Rightarrow> string) \<Rightarrow> simulator \<Rightarrow> bool \<Rightarrow> (string, json) dict \<Rightarrow> dreamt result" where
  "dream_one shown s allow decisions =
     (case extrapolation shown s decisions of
        Inl e \<Rightarrow> Inl e
      | Inr beyond \<Rightarrow>
          if beyond \<noteq> [] \<and> \<not> allow then Inl ValueError
          else
            (case simulate shown s decisions of
               Inl e \<Rightarrow> Inl e
             | Inr ps \<Rightarrow>
                 Inr \<lparr>dr_decisions = decisions, dr_prediction = ps, dr_score = score_of_rates ps,
                      dr_extrapolates = beyond, dr_pool_hash = gn_hash (last (rs_generations s))\<rparr>))"

definition dream_key :: "dreamt \<Rightarrow> bool \<times> real" where
  "dream_key d = (dr_score d = None, - (case dr_score d of None \<Rightarrow> 0 | Some r \<Rightarrow> r))"

definition dream :: "(json \<Rightarrow> string) \<Rightarrow> simulator \<Rightarrow> (string, json) dict list \<Rightarrow> bool \<Rightarrow> dreamt list result" where
  "dream shown s policies allow =
     (case map_result (dream_one shown s allow) policies of
        Inl e \<Rightarrow> Inl e
      | Inr ds \<Rightarrow> Inr (sort_key dream_key ds))"


section \<open>Backtest\<close>

definition abs_error :: "(string, prediction) dict \<Rightarrow> generation \<Rightarrow> string \<Rightarrow> real option" where
  "abs_error ps g family =
     (case dget ps family of Some (Rate r) \<Rightarrow> Some \<bar>r - rate g family\<bar> | _ \<Rightarrow> None)"

record backtest_row =
  bt_generation :: string
  bt_errors :: "(string \<times> real) list option"
  bt_reason :: "string list"

record backtest =
  bk_generations :: nat
  bk_parameters :: nat
  bk_ambiguous :: "ambiguity list"
  bk_in_mean :: real
  bk_in_max :: real
  bk_degenerate :: bool
  bk_out_generations :: nat
  bk_out_mean :: "real option"
  bk_out_max :: "real option"
  bk_rows :: "backtest_row list"

definition in_sample_errors :: "(json \<Rightarrow> string) \<Rightarrow> simulator \<Rightarrow> real list result" where
  "in_sample_errors shown s =
     (case map_result (\<lambda>g. simulate shown s (gn_decisions g)) (rs_generations s) of
        Inl e \<Rightarrow> Inl e
      | Inr pss \<Rightarrow> Inr (concat (map2 (\<lambda>g ps. List.map_filter (abs_error ps g) families) (rs_generations s) pss)))"

definition held_out :: "(json \<Rightarrow> string) \<Rightarrow> history_pool \<Rightarrow> generation \<Rightarrow> backtest_row result" where
  "held_out shown p g =
     (case new_simulator p (Some (gn_name g)) of
        Inl e \<Rightarrow> Inr \<lparr>bt_generation = gn_name g, bt_errors = None, bt_reason = [''pool empty without it'']\<rparr>
      | Inr s \<Rightarrow>
          (case simulate shown s (gn_decisions g) of
             Inl e \<Rightarrow> Inl e
           | Inr ps \<Rightarrow>
               (case rates ps of
                  None \<Rightarrow> Inr \<lparr>bt_generation = gn_name g, bt_errors = None,
                             bt_reason = (case dget ps (hd families) of Some (Unidentified u) \<Rightarrow> u | _ \<Rightarrow> [])\<rparr>
                | Some _ \<Rightarrow> Inr \<lparr>bt_generation = gn_name g,
                    bt_errors = Some (List.map_filter (\<lambda>f. map_option (\<lambda>x. (f, py_round 4 x)) (abs_error ps g f)) families),
                    bt_reason = []\<rparr>)))"

definition max_or :: "real \<Rightarrow> real list \<Rightarrow> real" where
  "max_or d xs = (case xs of [] \<Rightarrow> d | y # ys \<Rightarrow> foldl max y ys)"

definition backtest_of :: "(json \<Rightarrow> string) \<Rightarrow> history_pool \<Rightarrow> simulator \<Rightarrow> backtest result" where
  "backtest_of shown p s =
     (case in_sample_errors shown s of
        Inl e \<Rightarrow> Inl e
      | Inr ins \<Rightarrow>
          (case map_result (held_out shown p) (hp_generations p) of
             Inl e \<Rightarrow> Inl e
           | Inr rows \<Rightarrow>
               let outs = concat (map (\<lambda>r. case bt_errors r of None \<Rightarrow> [] | Some es \<Rightarrow> map snd es) rows);
                   parameters = 1 + length (rs_responses s)
               in Inr \<lparr>bk_generations = length (hp_generations p), bk_parameters = parameters,
                   bk_ambiguous = rs_ambiguous s,
                   bk_in_mean = py_round 4 (sum_list ins / real (max (length ins) 1)),
                   bk_in_max = py_round 4 (max_or 0 ins),
                   bk_degenerate = (length (rs_generations s) \<le> parameters),
                   bk_out_generations = length (filter (\<lambda>r. bt_errors r \<noteq> None) rows),
                   bk_out_mean = (if outs = [] then None else Some (py_round 4 (mean outs))),
                   bk_out_max = (if outs = [] then None else Some (py_round 4 (max_or 0 outs))),
                   bk_rows = rows\<rparr>))"

section \<open>The cycle budget\<close>

definition dream_cycle_event :: string where
  "dream_cycle_event = ''dream_cycle''"

record cycle_budget =
  cb_max :: int
  cb_window :: real

text \<open>\<open>recent\<close> asks the registry for its events with the default limit of a thousand.\<close>

definition cb_recent :: "cycle_budget \<Rightarrow> registry \<Rightarrow> real \<Rightarrow> reg_event list" where
  "cb_recent b r now = filter (\<lambda>e. now - cb_window b \<le> ev_ts e) (reg_events r (Some dream_cycle_event) 1000)"

definition cb_used :: "cycle_budget \<Rightarrow> registry \<Rightarrow> real \<Rightarrow> int" where
  "cb_used b r now = int (length (cb_recent b r now))"

definition cb_remaining :: "cycle_budget \<Rightarrow> registry \<Rightarrow> real \<Rightarrow> int" where
  "cb_remaining b r now = max (cb_max b - cb_used b r now) 0"

definition cb_check :: "cycle_budget \<Rightarrow> registry \<Rightarrow> real \<Rightarrow> unit result" where
  "cb_check b r now = (if cb_remaining b r now \<le> 0 then Inl PermissionError else Inr ())"

text \<open>The identity of the history, and the record of a cycle in the event log.\<close>

definition outcome_json :: "generation \<Rightarrow> json" where
  "outcome_json g = JObj (map (\<lambda>(f, (c, n)). (f, JObj [(''correct'', JInt (int c)), (''total'', JInt (int n)),
     (''rate'', JFloat (Fin (rate g f)))])) (gn_outcome g))"

definition pool_fingerprint :: "(json \<Rightarrow> string) \<Rightarrow> generation list \<Rightarrow> string" where
  "pool_fingerprint digest gs =
     take 16 (digest (JList (map (\<lambda>g. JObj [(''name'', JStr (gn_name g)), (''decisions'', JObj (gn_decisions g)),
        (''outcome'', outcome_json g)]) gs)))"

definition json_opt :: "('a \<Rightarrow> json) \<Rightarrow> 'a option \<Rightarrow> json" where
  "json_opt f x = (case x of None \<Rightarrow> JNull | Some v \<Rightarrow> f v)"

definition beyond_json :: "string \<times> real \<times> real \<times> real \<Rightarrow> json" where
  "beyond_json b = (case b of (name, l, low, high) \<Rightarrow>
     JObj [(''decision'', JStr name), (''level'', JFloat (Fin l)),
           (''observed'', JList [JFloat (Fin low), JFloat (Fin high)])])"

definition cycle_payload :: "(json \<Rightarrow> string) \<Rightarrow> history_pool option \<Rightarrow> dreamt list \<Rightarrow> dreamt option
    \<Rightarrow> backtest option \<Rightarrow> json \<Rightarrow> string \<Rightarrow> string option \<Rightarrow> real \<Rightarrow> json" where
  "cycle_payload digest pool ranked winner bt lease status reason at_time =
     JObj [(''status'', JStr status), (''reason'', json_opt JStr reason),
       (''pool_fingerprint'', json_opt (\<lambda>p. JStr (pool_fingerprint digest (hp_generations p))) pool),
       (''generations'', JList (case pool of None \<Rightarrow> [] | Some p \<Rightarrow> map (\<lambda>g. JStr (gn_name g)) (hp_generations p))),
       (''candidates'', JList (map (\<lambda>d. JObj (dr_decisions d)) ranked)),
       (''winner'', json_opt (\<lambda>d. JObj (dr_decisions d)) winner),
       (''winner_estimable'', json_opt (\<lambda>d. JBool (dr_score d \<noteq> None)) winner),
       (''winner_extrapolates'', JList (case winner of None \<Rightarrow> [] | Some d \<Rightarrow> map beyond_json (dr_extrapolates d))),
       (''backtest_mode'', json_opt (\<lambda>_. JStr ''leave_one_generation_out'') bt),
       (''out_of_sample_generations'', json_opt (\<lambda>b. JInt (int (bk_out_generations b))) bt),
       (''out_of_sample_max_abs_error'', json_opt (\<lambda>b. json_opt (\<lambda>x. JFloat (Fin x)) (bk_out_max b)) bt),
       (''in_sample_degenerate'', json_opt (\<lambda>b. JBool (bk_degenerate b)) bt),
       (''lease'', lease), (''at'', JFloat (Fin at_time))]"

definition record_cycle :: "(json \<Rightarrow> string) \<Rightarrow> history_pool option \<Rightarrow> dreamt list \<Rightarrow> dreamt option
    \<Rightarrow> backtest option \<Rightarrow> json \<Rightarrow> string \<Rightarrow> string option \<Rightarrow> real \<Rightarrow> real \<Rightarrow> registry \<Rightarrow> json \<times> registry" where
  "record_cycle digest pool ranked winner bt lease status reason at_time now r =
     (let payload = cycle_payload digest pool ranked winner bt lease status reason at_time
      in (payload, reg_record_event now dream_cycle_event payload r))"


section \<open>The pool is append-only\<close>

record pool_entry =
  pe_name :: string
  pe_decisions :: "(string, json) dict"
  pe_split :: string
  pe_rows :: "(string, json) dict list"
  pe_cases :: "(string, json) dict list"
  pe_order :: "int option"

definition pool_step :: "(json \<Rightarrow> string) \<Rightarrow> (json \<Rightarrow> string) \<Rightarrow> history_pool \<Rightarrow> pool_entry \<Rightarrow> history_pool" where
  "pool_step shown digest p e =
     fst (add_generation shown digest (pe_name e) (pe_decisions e) (pe_split e) (pe_rows e) (pe_cases e) (pe_order e) p)"

definition orders :: "generation list \<Rightarrow> int list" where
  "orders gs = List.map_filter gn_order gs"

definition history_ok :: "history_pool \<Rightarrow> bool" where
  "history_ok p = (distinct (map gn_name (hp_generations p)) \<and> sorted_wrt (<) (orders (hp_generations p))
     \<and> (\<forall>n \<in> set (orders (hp_generations p)). \<exists>m. hp_max_order p = Some m \<and> n \<le> m))"

lemma orders_append [simp]: "orders (gs @ [g]) = orders gs @ (case gn_order g of None \<Rightarrow> [] | Some n \<Rightarrow> [n])"
  by (simp add: orders_def List.map_filter_def split: option.split)

lemma add_generation_cases:
  assumes "add_generation shown digest name decisions split rows cases order p = (p', r)"
  obtains "p' = p" "is_ok r = False"
  | "name \<notin> gn_name ` set (hp_generations p)" "\<And>n m. order = Some n \<Longrightarrow> hp_max_order p = Some m \<Longrightarrow> m < n"
    "hp_max_order p' = (case order of None \<Rightarrow> hp_max_order p | Some n \<Rightarrow> Some n)"
    "hp_generations p' = hp_generations p \<or> (\<exists>g. hp_generations p' = hp_generations p @ [g]
       \<and> gn_name g = name \<and> gn_order g = order \<and> gn_decisions g = decisions
       \<and> levels_of shown decisions [] = Inr (gn_levels g) \<and> r = Inr ())"
proof -
  have pr: "p' = fst (add_generation shown digest name decisions split rows cases order p)"
    "r = snd (add_generation shown digest name decisions split rows cases order p)" by (simp_all add: assms)
  consider "name \<in> gn_name ` set (hp_generations p)"
    | "name \<notin> gn_name ` set (hp_generations p)" "\<exists>n m. order = Some n \<and> hp_max_order p = Some m \<and> n \<le> m"
    | "name \<notin> gn_name ` set (hp_generations p)" "\<And>n m. order = Some n \<Longrightarrow> hp_max_order p = Some m \<Longrightarrow> m < n"
    by (meson not_le)
  then show ?thesis
  proof cases
    case 1
    then have "p' = p" "is_ok r = False" by (simp_all add: pr add_generation_def)
    then show ?thesis by (rule that(1))
  next
    case 2
    then have "p' = p" "is_ok r = False" by (auto simp: pr add_generation_def)
    then show ?thesis by (rule that(1))
  next
    case 3
    then have no: "\<not> (case (order, hp_max_order p) of (Some n, Some m) \<Rightarrow> n \<le> m | _ \<Rightarrow> False)"
      by (fastforce split: option.splits)
    show ?thesis
      by (rule that(2) [OF 3]) (use 3(1) no in \<open>auto simp: pr add_generation_def Let_def split: option.split sum.split\<close>)
  qed
qed

lemma pool_step_ok:
  assumes "history_ok p"
  shows "history_ok (pool_step shown digest p e)"
proof -
  obtain p' r where a: "add_generation shown digest (pe_name e) (pe_decisions e) (pe_split e) (pe_rows e) (pe_cases e) (pe_order e) p = (p', r)"
    by (metis surj_pair)
  then have p': "pool_step shown digest p e = p'" by (simp add: pool_step_def)
  from a show ?thesis
  proof (cases rule: add_generation_cases)
    case 1
    then show ?thesis using assms by (simp add: p')
  next
    case 2
    have below: "n < m" if "n \<in> set (orders (hp_generations p))" "pe_order e = Some m" for n m
    proof -
      from assms that(1) obtain k where "hp_max_order p = Some k" "n \<le> k" by (auto simp: history_ok_def)
      with 2(2) [OF that(2)] show ?thesis by fastforce
    qed
    have bound: "\<exists>m. hp_max_order p' = Some m \<and> n \<le> m" if "n \<in> set (orders (hp_generations p))" for n
    proof (cases "pe_order e")
      case None
      then show ?thesis using assms that 2(3) by (auto simp: history_ok_def)
    next
      case (Some m)
      then show ?thesis using below [OF that Some] 2(3) by auto
    qed
    from 2(4) show ?thesis
    proof (elim disjE exE conjE)
      assume "hp_generations p' = hp_generations p"
      then show ?thesis using assms bound by (auto simp: p' history_ok_def)
    next
      fix g assume g: "hp_generations p' = hp_generations p @ [g]" "gn_name g = pe_name e" "gn_order g = pe_order e"
      show ?thesis
        unfolding p' history_ok_def g(1)
        using assms bound below 2(1,3) g(2,3)
        by (auto simp: history_ok_def sorted_wrt_append split: option.split)
    qed
  qed
qed

interpretation pool_log: kept_invariant "pool_step shown digest" history_ok for shown digest
  by unfold_locales (rule pool_step_ok)

text \<open>The history is append-only and ordered: after any sequence of additions, refused and failed
  ones included, no two generations of the pool share a name, the explicit orders of the
  generations strictly increase along the pool, and none is above the recorded maximum.\<close>

theorem pool_names_and_orders:
  "distinct (map gn_name (hp_generations (run_steps (pool_step shown digest) new_history es)))
    \<and> sorted_wrt (<) (orders (hp_generations (run_steps (pool_step shown digest) new_history es)))"
proof -
  have "history_ok new_history" by (simp add: history_ok_def new_history_def orders_def List.map_filter_def)
  from pool_log.run_invar [OF this] show ?thesis by (simp add: history_ok_def)
qed

text \<open>A generation whose cases or rows cannot be read is not added, but it takes its position: the
  maximal order has already moved, so the next generation that legitimately has this order is
  refused, which the comment in \<open>add_generation\<close> says cannot happen.\<close>

theorem failed_add_takes_position:
  assumes "name \<notin> gn_name ` set (hp_generations p)" and "\<forall>m. hp_max_order p = Some m \<longrightarrow> m < n"
    and "case_ids cases = Inl e"
  shows "snd (add_generation shown digest name decisions split rows cases (Some n) p) = Inl e
    \<and> hp_generations (fst (add_generation shown digest name decisions split rows cases (Some n) p)) = hp_generations p
    \<and> snd (add_generation shown digest name2 decisions2 split2 rows2 cases2 (Some n)
         (fst (add_generation shown digest name decisions split rows cases (Some n) p))) = Inl ValueError"
proof -
  have no: "\<not> (case (Some n, hp_max_order p) of (Some n, Some m) \<Rightarrow> n \<le> m | _ \<Rightarrow> False)"
    using assms(2) by (auto split: option.split)
  have eq: "add_generation shown digest name decisions split rows cases (Some n) p = (p\<lparr>hp_max_order := Some n\<rparr>, Inl e)"
    using assms(1,3) no by (auto simp: add_generation_def Let_def)
  show ?thesis unfolding eq by (simp add: add_generation_def)
qed

theorem failed_add_takes_position_witness:
  "snd (add_generation (\<lambda>_. []) (\<lambda>_. []) ''gen4'' [] ''test'' [] []  (Some 1)
     (fst (add_generation (\<lambda>_. []) (\<lambda>_. []) ''gen4'' [] ''test'' [] [[]] (Some 1) new_history))) = Inl ValueError"
  using failed_add_takes_position [of "''gen4''" new_history 1 "[[]]" KeyError "\<lambda>_. []" "\<lambda>_. []" "[]" "''test''" "[]"
      "''gen4''" "[]" "''test''" "[]" "[]"]
  by (simp add: new_history_def)

section \<open>What the responses are\<close>

definition slope :: "string \<Rightarrow> string \<Rightarrow> generation \<times> generation \<Rightarrow> real" where
  "slope d family pc = (rate (snd pc) family - rate (fst pc) family)
     / (level_at (gn_levels (snd pc)) d - level_at (gn_levels (fst pc)) d)"

definition only_moves :: "string \<Rightarrow> generation \<times> generation \<Rightarrow> bool" where
  "only_moves d pc = (moved (fst pc) (snd pc) = [d])"

definition slopes_ok :: "slopes \<Rightarrow> bool" where
  "slopes_ok sl = (\<forall>(d, fams) \<in> set sl. dkeys fams = families)"

lemma add_slopes:
  fixes prev cur :: generation and d :: string
  assumes "slopes_ok sl"
  defines "sl' \<equiv> foldl (add_slope prev cur d) sl families"
  shows "slopes_ok sl'"
    and "f \<in> set families \<Longrightarrow> dget_or (dget_or sl' x []) f [] =
           dget_or (dget_or sl x []) f [] @ (if x = d then [slope d f (prev, cur)] else [])"
    and "dget sl' x \<noteq> None \<longleftrightarrow> dget sl x \<noteq> None \<or> x = d"
proof -
  have fams: "dkeys (dget_or sl d []) = families \<or> dget_or sl d [] = []"
    using assms(1) by (auto simp: slopes_ok_def dget_or_def split: option.split dest!: map_of_SomeD)
  have keys: "dkeys (dput ''concept'' v (dput ''typed'' u (dget_or sl d []))) = families" for u v
    using fams by (elim disjE) (auto simp: families_def map_eq_Cons_conv)
  show "slopes_ok sl'"
    using assms(1) keys
    by (auto simp: sl'_def families_def add_slope_def Let_def slopes_ok_def dget_or_put dest!: dput_mem)
  show "f \<in> set families \<Longrightarrow> dget_or (dget_or sl' x []) f [] =
           dget_or (dget_or sl x []) f [] @ (if x = d then [slope d f (prev, cur)] else [])"
    by (auto simp: sl'_def families_def add_slope_def Let_def dget_or_put slope_def)
  show "dget sl' x \<noteq> None \<longleftrightarrow> dget sl x \<noteq> None \<or> x = d"
    by (auto simp: sl'_def families_def add_slope_def Let_def dict_simps)
qed

lemma collect_slopes_spec:
  assumes "slopes_ok sl"
  shows "slopes_ok (fst (collect_slopes ps sl am))
    \<and> (\<forall>f \<in> set families. dget_or (dget_or (fst (collect_slopes ps sl am)) d []) f [] =
           dget_or (dget_or sl d []) f [] @ map (slope d f) (filter (only_moves d) ps))
    \<and> (dget (fst (collect_slopes ps sl am)) d \<noteq> None \<longleftrightarrow> dget sl d \<noteq> None \<or> filter (only_moves d) ps \<noteq> [])
    \<and> snd (collect_slopes ps sl am) = am @ map (\<lambda>pc. \<lparr>am_from = gn_name (fst pc), am_to = gn_name (snd pc),
         am_decisions = sort (moved (fst pc) (snd pc))\<rparr>) (filter (\<lambda>pc. length (moved (fst pc) (snd pc)) > 1) ps)"
  using assms
proof (induction ps arbitrary: sl am)
  case (Cons pc ps)
  obtain prev cur where pc: "pc = (prev, cur)" by (cases pc)
  consider "moved prev cur = []" | x where "moved prev cur = [x]" | x y ds where "moved prev cur = x # y # ds"
    by (metis neq_Nil_conv)
  then show ?case
  proof cases
    case 1
    then show ?thesis using Cons.IH [OF Cons.prems] by (simp add: pc only_moves_def)
  next
    case (2 x)
    note a = add_slopes [OF Cons.prems, where prev = prev and cur = cur and d = x]
    show ?thesis
      using Cons.IH [OF a(1), of am] a(2) [where x = d] a(3) [where x = d] 2
      by (auto simp: pc only_moves_def)
  next
    case (3 x y ds)
    then show ?thesis using Cons.IH [OF Cons.prems] by (simp add: pc only_moves_def)
  qed
qed simp


lemma family_deltas_get:
  "dget (fst (family_deltas gs)) d = map_option (map (\<lambda>(f, xs). (f, mean xs))) (dget (fst (collect_slopes (transitions gs) [] [])) d)"
  by (cases "collect_slopes (transitions gs) [] []") (simp add: family_deltas_def map_of_map)

text \<open>The fitted responses are what the documentation of \<open>family_deltas\<close> says: the response of a
  family to a decision is the mean slope over exactly those consecutive generations between which
  this decision and no other changed its level, there is none when there is no such pair, and the
  pairs with several changed decisions are reported as ambiguous and charged to none.\<close>

theorem responses_are_means:
  "dget (dget_or (fst (family_deltas gs)) d []) f =
     (if f \<in> set families \<and> filter (only_moves d) (transitions gs) \<noteq> []
      then Some (mean (map (slope d f) (filter (only_moves d) (transitions gs)))) else None)
   \<and> (dget (fst (family_deltas gs)) d \<noteq> None \<longleftrightarrow> filter (only_moves d) (transitions gs) \<noteq> [])
   \<and> snd (family_deltas gs) = map (\<lambda>pc. \<lparr>am_from = gn_name (fst pc), am_to = gn_name (snd pc),
         am_decisions = sort (moved (fst pc) (snd pc))\<rparr>)
       (filter (\<lambda>pc. length (moved (fst pc) (snd pc)) > 1) (transitions gs))"
proof -
  define sl where "sl = fst (collect_slopes (transitions gs) [] [])"
  have ok0: "slopes_ok []" by (simp add: slopes_ok_def)
  note spec = collect_slopes_spec [OF ok0, of "transitions gs" "[]" d, folded sl_def]
  have am: "snd (family_deltas gs) = snd (collect_slopes (transitions gs) [] [])"
    by (cases "collect_slopes (transitions gs) [] []") (simp add: family_deltas_def)
  have get: "dget (fst (family_deltas gs)) d = map_option (map (\<lambda>(f, xs). (f, mean xs))) (dget sl d)"
    by (simp add: family_deltas_get sl_def)
  have "dget (dget_or (fst (family_deltas gs)) d []) f =
     (if f \<in> set families \<and> filter (only_moves d) (transitions gs) \<noteq> []
      then Some (mean (map (slope d f) (filter (only_moves d) (transitions gs)))) else None)"
  proof (cases "dget sl d")
    case None
    with spec get show ?thesis by (simp add: dget_or_def)
  next
    case (Some fams)
    from spec Some have ne: "filter (only_moves d) (transitions gs) \<noteq> []" by simp
    from spec have "slopes_ok sl" by simp
    with Some have k: "dkeys fams = families" by (auto simp: slopes_ok_def dest!: map_of_SomeD)
    have g: "dget (dget_or (fst (family_deltas gs)) d []) f = map_option mean (dget fams f)"
      by (simp add: get Some dget_or_def map_of_map)
    show ?thesis
    proof (cases "f \<in> set families")
      case True
      then have "f \<in> set (dkeys fams)" by (simp only: k)
      then obtain xs where xs: "dget fams f = Some xs" using dget_None_keys [of fams f] by fastforce
      from spec True have "dget_or (dget_or sl d []) f [] = map (slope d f) (filter (only_moves d) (transitions gs))"
        by (simp add: dget_or_def)
      with xs Some have "xs = map (slope d f) (filter (only_moves d) (transitions gs))" by (simp add: dget_or_def)
      with g xs True ne show ?thesis by simp
    next
      case False
      then have "f \<notin> set (dkeys fams)" by (simp only: k not_False_eq_True)
      then have "dget fams f = None" by (rule not_dkeys)
      with g False show ?thesis by simp
    qed
  qed
  with spec get am show ?thesis by simp
qed

text \<open>The same, as a lemma for the proofs below.\<close>

definition resp :: "responses \<Rightarrow> string \<Rightarrow> string \<Rightarrow> real" where
  "resp R f n = (case dget (dget_or R n []) f of None \<Rightarrow> 0 | Some x \<Rightarrow> x)"

lemma linear_rate_sum:
  "linear_rate s base ls f = rate base f + sum_list (map (\<lambda>p. resp (rs_responses s) f (fst p) * snd p) ls)"
proof -
  have "foldl (\<lambda>r p. case dget (dget_or (rs_responses s) (fst p) []) f of None \<Rightarrow> r | Some x \<Rightarrow> r + x * snd p) x ls
      = x + sum_list (map (\<lambda>p. resp (rs_responses s) f (fst p) * snd p) ls)" for x
    by (induction ls arbitrary: x) (auto simp: resp_def split: option.split)
  then show ?thesis by (simp add: linear_rate_def)
qed

lemma level_at_mem: "wf_dict ls \<Longrightarrow> (n, l) \<in> set ls \<Longrightarrow> level_at ls n = l"
  by (simp add: level_at_def dget_or_def wf_dict_get_mem)

lemma level_at_other: "n \<notin> set (dkeys ls) \<Longrightarrow> level_at ls n = 0"
  by (simp add: level_at_def dget_or_def not_dkeys)

lemma sum_levels:
  assumes "wf_dict ls" "finite D" "set (dkeys ls) \<subseteq> D"
  shows "sum_list (map (\<lambda>p. w (fst p) * snd p) ls) = (\<Sum>n\<in>D. w n * level_at ls n)"
proof -
  have d: "distinct (dkeys ls)" using assms(1) by (simp add: wf_dict_def)
  have "sum_list (map (\<lambda>p. w (fst p) * snd p) ls) = sum_list (map (\<lambda>n. w n * level_at ls n) (dkeys ls))"
    using assms(1) by (auto simp: level_at_mem intro!: arg_cong [where f = sum_list])
  also have "\<dots> = (\<Sum>n\<in>set (dkeys ls). w n * level_at ls n)"
    by (rule sum_list_distinct_conv_sum_set [OF d])
  also have "\<dots> = (\<Sum>n\<in>D. w n * level_at ls n)"
    using assms(2,3) by (intro sum.mono_neutral_left) (auto simp: level_at_other simp del: set_map)
  finally show ?thesis .
qed

lemma moved_iff:
  "n \<in> set (moved prev cur) \<longleftrightarrow> level_at (gn_levels cur) n \<noteq> level_at (gn_levels prev) n"
proof
  assume ne: "level_at (gn_levels cur) n \<noteq> level_at (gn_levels prev) n"
  then have "n \<in> set (dkeys (gn_levels prev)) \<or> n \<in> set (dkeys (gn_levels cur))"
    using level_at_other by metis
  with ne show "n \<in> set (moved prev cur)" by (simp add: moved_def del: set_map)
qed (simp add: moved_def)

lemma transition_nth: "Suc i < length gs \<Longrightarrow> (gs ! i, gs ! Suc i) \<in> set (transitions gs)"
  by (auto simp: transitions_def set_zip nth_tl intro!: exI [of _ i])

lemma response_single:
  assumes "filter (only_moves d) (transitions gs) = [pc]" "f \<in> set families"
  shows "resp (fst (family_deltas gs)) f d = slope d f pc"
proof -
  define sl where "sl = fst (collect_slopes (transitions gs) [] [])"
  have ok0: "slopes_ok []" by (simp add: slopes_ok_def)
  note spec = collect_slopes_spec [OF ok0, of "transitions gs" "[]" d, folded sl_def]
  from spec assms obtain fams where fams: "dget sl d = Some fams" by auto
  from spec fams have k: "dkeys fams = families" by (auto simp: slopes_ok_def dest!: map_of_SomeD)
  with assms(2) have "f \<in> set (dkeys fams)" by (simp only:)
  then obtain xs where xs: "dget fams f = Some xs" using dget_None_keys [of fams f] by fastforce
  from spec assms(2) have "dget_or (dget_or sl d []) f [] = map (slope d f) (filter (only_moves d) (transitions gs))"
    by (simp add: dget_or_def)
  with assms(1) fams xs have "xs = [slope d f pc]" by (simp add: dget_or_def)
  then show ?thesis
    using fams xs by (simp add: resp_def family_deltas_get sl_def [symmetric] dget_or_def map_of_map mean_def)
qed

lemma responses_known:
  "filter (only_moves d) (transitions gs) \<noteq> [] \<Longrightarrow> dget (fst (family_deltas gs)) d \<noteq> None"
  using collect_slopes_spec [of "[]" "transitions gs" "[]" d] by (simp add: family_deltas_get slopes_ok_def)

text \<open>A history that changes one decision at a time, each of them once, from a start at level zero.\<close>

definition one_at_a_time :: "generation list \<Rightarrow> bool" where
  "one_at_a_time gs = (gs \<noteq> [] \<and> (\<forall>g \<in> set gs. wf_dict (gn_levels g))
     \<and> (\<forall>p \<in> set (gn_levels (hd gs)). snd p = 0)
     \<and> (\<forall>pc \<in> set (transitions gs). \<exists>d. only_moves d pc)
     \<and> (\<forall>pc \<in> set (transitions gs). \<forall>d. only_moves d pc \<longrightarrow> filter (only_moves d) (transitions gs) = [pc]))"

lemma rate_telescopes:
  assumes one: "one_at_a_time gs" and f: "f \<in> set families" and fin: "finite D"
    and D: "\<And>g. g \<in> set gs \<Longrightarrow> set (dkeys (gn_levels g)) \<subseteq> D"
    and i: "i < length gs"
  shows "rate (gs ! i) f = rate (hd gs) f + (\<Sum>n\<in>D. resp (fst (family_deltas gs)) f n * level_at (gn_levels (gs ! i)) n)"
  using i
proof (induction i)
  case 0
  have z: "level_at (gn_levels (hd gs)) n = 0" for n
    using one by (auto simp: one_at_a_time_def level_at_def dget_or_def split: option.split dest!: map_of_SomeD)
  have "gs ! 0 = hd gs" using 0 by (cases gs) auto
  then show ?case by (simp add: z)
next
  case (Suc i)
  let ?R = "resp (fst (family_deltas gs)) f" and ?a = "gn_levels (gs ! i)" and ?b = "gn_levels (gs ! Suc i)"
  note pc = transition_nth [OF Suc.prems]
  from one pc obtain d where d: "only_moves d (gs ! i, gs ! Suc i)" by (auto simp: one_at_a_time_def)
  with one pc have "filter (only_moves d) (transitions gs) = [(gs ! i, gs ! Suc i)]" by (auto simp: one_at_a_time_def)
  note r = response_single [OF this f]
  have mv: "moved (gs ! i) (gs ! Suc i) = [d]" using d by (simp add: only_moves_def)
  have step: "level_at ?b d \<noteq> level_at ?a d" and other: "\<And>n. n \<noteq> d \<Longrightarrow> level_at ?b n = level_at ?a n"
    using moved_iff [of _ "gs ! i" "gs ! Suc i"] by (auto simp: mv)
  have "d \<in> set (dkeys ?a) \<or> d \<in> set (dkeys ?b)" using step level_at_other by metis
  moreover have "set (dkeys ?a) \<subseteq> D" "set (dkeys ?b) \<subseteq> D" using D Suc.prems by auto
  ultimately have dD: "d \<in> D" by blast
  have "(\<Sum>n\<in>D. ?R n * level_at ?b n) = (\<Sum>n\<in>D. ?R n * level_at ?a n + (if n = d then ?R d * (level_at ?b d - level_at ?a d) else 0))"
    by (intro sum.cong) (auto simp: other algebra_simps)
  also have "\<dots> = (\<Sum>n\<in>D. ?R n * level_at ?a n) + ?R d * (level_at ?b d - level_at ?a d)"
    using fin dD by (simp add: sum.distrib)
  also have "?R d * (level_at ?b d - level_at ?a d) = rate (gs ! Suc i) f - rate (gs ! i) f"
    using step by (simp add: r slope_def)
  finally show ?case using Suc.IH Suc.prems by simp
qed

lemma level_moved_before:
  assumes one: "one_at_a_time gs" and i: "i < length gs" and l: "level_at (gn_levels (gs ! i)) n \<noteq> 0"
  shows "filter (only_moves n) (transitions gs) \<noteq> []"
  using i l
proof (induction i)
  case 0
  have "gs ! 0 = hd gs" using 0 by (cases gs) auto
  moreover have "level_at (gn_levels (hd gs)) n = 0"
    using one by (auto simp: one_at_a_time_def level_at_def dget_or_def split: option.split dest!: map_of_SomeD)
  ultimately show ?case using 0 by simp
next
  case (Suc i)
  note pc = transition_nth [OF Suc.prems(1)]
  from one pc obtain d where d: "only_moves d (gs ! i, gs ! Suc i)" by (auto simp: one_at_a_time_def)
  show ?case
  proof (cases "n = d")
    case True
    then show ?thesis using pc d by (auto simp: filter_empty_conv)
  next
    case False
    then have "level_at (gn_levels (gs ! Suc i)) n = level_at (gn_levels (gs ! i)) n"
      using moved_iff [of n "gs ! i" "gs ! Suc i"] d by (simp add: only_moves_def)
    then show ?thesis using Suc by simp
  qed
qed

text \<open>The in-sample fit is degenerate, as the module warns: on a history that starts with every
  decision at level zero and then changes one decision per generation, each once, the simulator
  predicts for every generation of the history the very rates that were recorded, up to the
  rounding of the answer, so its residuals say nothing about its predictions.\<close>

theorem in_sample_reproduces_history:
  assumes "new_simulator p ex = Inr s" and one: "one_at_a_time (rs_generations s)"
    and bounds: "\<forall>g \<in> set (rs_generations s). 0 \<le> rate g f \<and> rate g f \<le> 1"
    and f: "f \<in> set families" and g: "g \<in> set (rs_generations s)"
  shows "predict s (gn_levels g) f = Rate (py_round 4 (rate g f))"
proof -
  let ?gs = "rs_generations s"
  from assms(1) have s: "rs_responses s = fst (family_deltas ?gs)" "rs_baseline s = fit_baseline ?gs"
    by (auto simp: new_simulator_def Let_def split: if_splits)
  from one obtain g0 rest where gs: "?gs = g0 # rest" by (cases ?gs) (auto simp: one_at_a_time_def)
  have base: "rs_baseline s = Some (hd ?gs)"
    using one by (simp add: s fit_baseline_def gs one_at_a_time_def list_all_iff)
  from g obtain i where i: "i < length ?gs" "g = ?gs ! i" by (auto simp: in_set_conv_nth)
  have wf: "wf_dict (gn_levels g)" using one g by (simp add: one_at_a_time_def)
  have unk: "unknown_of s (gn_levels g) = []"
  proof -
    have "dget (rs_responses s) (fst q) \<noteq> None" if q: "q \<in> set (gn_levels g)" "snd q \<noteq> 0" for q
    proof -
      from q(1) have "level_at (gn_levels g) (fst q) = snd q" by (intro level_at_mem [OF wf]) simp
      with q(2) i have "level_at (gn_levels (?gs ! i)) (fst q) \<noteq> 0" by simp
      from responses_known [OF level_moved_before [OF one i(1) this]] show ?thesis by (simp add: s)
    qed
    then have "filter (\<lambda>q. snd q \<noteq> 0 \<and> dget (rs_responses s) (fst q) = None) (gn_levels g) = []"
      by (auto simp: filter_empty_conv)
    then show ?thesis by (simp add: unknown_of_def)
  qed
  define D where "D = (\<Union>h \<in> set ?gs. set (dkeys (gn_levels h)))"
  have fin: "finite D" by (simp add: D_def)
  have D: "h \<in> set ?gs \<Longrightarrow> set (dkeys (gn_levels h)) \<subseteq> D" for h by (auto simp: D_def)
  have "linear_rate s (hd ?gs) (gn_levels g) f = rate (hd ?gs) f + (\<Sum>n\<in>D. resp (rs_responses s) f n * level_at (gn_levels g) n)"
    unfolding linear_rate_sum using sum_levels [OF wf fin D [OF g]] by simp
  also have "\<dots> = rate g f"
    using rate_telescopes [OF one f fin D i(1)] by (simp add: s i(2))
  finally have "linear_rate s (hd ?gs) (gn_levels g) f = rate g f" .
  then show ?thesis using bounds g by (simp add: predict_def base unk)
qed


definition demo_gen :: "string \<Rightarrow> real \<Rightarrow> nat \<Rightarrow> generation" where
  "demo_gen name l correct = \<lparr>gn_name = name, gn_split = ''test'', gn_decisions = [], gn_levels = [(''c'', l)],
     gn_order = None, gn_outcome = [(''typed'', (correct, 4)), (''concept'', (0, 0))], gn_hash = []\<rparr>"

definition demo_history :: history_pool where
  "demo_history = \<lparr>hp_generations = [demo_gen ''g3'' 0 1, demo_gen ''g4'' 3 2], hp_max_order = None\<rparr>"

theorem in_sample_reproduces_history_witness:
  "\<exists>s. new_simulator demo_history None = Inr s
     \<and> predict s (gn_levels (demo_gen ''g4'' 3 2)) ''typed'' = Rate (py_round 4 (1 / 2))"
proof -
  let ?gs = "[demo_gen ''g3'' 0 1, demo_gen ''g4'' 3 2]"
  obtain s where s: "new_simulator demo_history None = Inr s" and gs: "rs_generations s = ?gs"
    by (auto simp: new_simulator_def Let_def without_def demo_history_def)
  have "one_at_a_time ?gs"
    by (simp add: one_at_a_time_def transitions_def only_moves_def moved_def demo_gen_def level_at_def dget_or_def wf_dict_def)
  then have one: "one_at_a_time (rs_generations s)" by (simp only: gs)
  have bounds: "\<forall>g \<in> set (rs_generations s). 0 \<le> rate g ''typed'' \<and> rate g ''typed'' \<le> 1"
    by (simp add: gs rate_def demo_gen_def)
  have g: "demo_gen ''g4'' 3 2 \<in> set (rs_generations s)" by (simp add: gs)
  have f: "''typed'' \<in> set families" by (simp add: families_def)
  have "rate (demo_gen ''g4'' 3 2) ''typed'' = 1 / 2" by (simp add: rate_def demo_gen_def)
  with in_sample_reproduces_history [OF s one bounds f g] s show ?thesis by auto
qed

section \<open>Dreams stay within the history\<close>

text \<open>The limits of a name are levels that some generation took; a name without limits is in none.\<close>

definition limits_ok :: "generation list \<Rightarrow> limits \<Rightarrow> bool" where
  "limits_ok gs bnd = (\<forall>n low high. dget bnd n = Some (low, high) \<longrightarrow>
     (\<exists>g \<in> set gs. level_at (gn_levels g) n = low) \<and> (\<exists>g \<in> set gs. level_at (gn_levels g) n = high))"

lemma widen_ok:
  assumes "limits_ok gs bnd" "g \<in> set gs"
  shows "limits_ok gs (foldl (widen (gn_levels g)) bnd names)
    \<and> set (dkeys (foldl (widen (gn_levels g)) bnd names)) = set (dkeys bnd) \<union> set names"
  using assms(1)
proof (induction names arbitrary: bnd)
  case (Cons n names)
  let ?l = "level_at (gn_levels g) n"
  have "limits_ok gs (widen (gn_levels g) bnd n)"
    unfolding limits_ok_def
  proof (intro allI impI)
    fix x low high assume a: "dget (widen (gn_levels g) bnd n) x = Some (low, high)"
    show "(\<exists>g \<in> set gs. level_at (gn_levels g) x = low) \<and> (\<exists>g \<in> set gs. level_at (gn_levels g) x = high)"
    proof (cases "x = n")
      case False
      with a have "dget bnd x = Some (low, high)"
        by (auto simp: widen_def Let_def dict_simps split: prod.splits)
      then show ?thesis using Cons.prems by (simp add: limits_ok_def)
    next
      case True
      obtain lo hi where old: "dget_or bnd n (?l, ?l) = (lo, hi)" by (cases "dget_or bnd n (?l, ?l)")
      have att: "(\<exists>g \<in> set gs. level_at (gn_levels g) n = lo) \<and> (\<exists>g \<in> set gs. level_at (gn_levels g) n = hi)"
      proof (cases "dget bnd n")
        case None
        with old have "lo = ?l" "hi = ?l" by (simp_all add: dget_or_def)
        then show ?thesis using assms(2) by blast
      next
        case (Some p)
        with old have "dget bnd n = Some (lo, hi)" by (simp add: dget_or_def)
        then show ?thesis using Cons.prems by (simp add: limits_ok_def)
      qed
      from a True old have "low = min lo ?l" "high = max hi ?l"
        by (auto simp: widen_def Let_def dict_simps)
      with att assms(2) True show ?thesis by (metis max_def min_def)
    qed
  qed
  from Cons.IH [OF this] show ?case
    by (auto simp: widen_def Let_def split: prod.split simp del: set_map)
qed simp

lemma observed_limits_ok:
  "limits_ok gs (observed_limits gs) \<and> (\<forall>g \<in> set gs. set (dkeys (gn_levels g)) \<subseteq> set (dkeys (observed_limits gs)))"
proof -
  define step :: "limits \<Rightarrow> generation \<Rightarrow> limits" where "step = (\<lambda>bnd g. foldl (widen (gn_levels g)) bnd (remdups (dkeys bnd @ dkeys (gn_levels g))))"
  have "set hs \<subseteq> set gs \<Longrightarrow> limits_ok gs bnd \<Longrightarrow> limits_ok gs (foldl step bnd hs)
      \<and> set (dkeys bnd) \<subseteq> set (dkeys (foldl step bnd hs))
      \<and> (\<forall>g \<in> set hs. set (dkeys (gn_levels g)) \<subseteq> set (dkeys (foldl step bnd hs)))" for hs bnd
  proof (induction hs arbitrary: bnd)
    case (Cons h hs)
    from Cons.prems have h: "h \<in> set gs" by simp
    from widen_ok [OF Cons.prems(2) h, of "remdups (dkeys bnd @ dkeys (gn_levels h))"]
    have s: "limits_ok gs (step bnd h)" "set (dkeys (step bnd h)) = set (dkeys bnd) \<union> set (dkeys (gn_levels h))"
      by (auto simp: step_def simp del: set_map)
    from Cons.prems(1) have "set hs \<subseteq> set gs" by simp
    from Cons.IH [OF this s(1)] s(2) show ?case by (simp del: set_map)
  qed simp
  from this [of gs "[]"] show ?thesis
    by (simp add: observed_limits_def step_def limits_ok_def del: set_map)
qed

lemma new_simulator_parts:
  "new_simulator p ex = Inr s \<Longrightarrow> rs_generations s \<noteq> [] \<and> rs_limits s = observed_limits (rs_generations s)"
  by (auto simp: new_simulator_def Let_def split: if_splits)

text \<open>Without the permission to extrapolate, every policy that a dream scores stays within the
  history: each of its levels lies between two levels that generations of the history actually
  took for this decision, a decision that a generation does not mention counting as level zero.
  The ranking holds exactly the policies asked for, each once, identified scores first and the
  best of them first.\<close>

theorem dream_stays_within_history:
  assumes s: "new_simulator p ex = Inr s" and "dream shown s policies False = Inr ranked"
  shows "(\<forall>e \<in> set ranked. dr_extrapolates e = [] \<and>
      (\<exists>ls. levels_of shown (dr_decisions e) [] = Inr ls \<and>
        (\<forall>(n, l) \<in> set ls. \<exists>g \<in> set (rs_generations s). \<exists>h \<in> set (rs_generations s).
           level_at (gn_levels g) n \<le> l \<and> l \<le> level_at (gn_levels h) n)))
    \<and> (\<forall>d. count_list (map dr_decisions ranked) d = count_list policies d)
    \<and> sorted (map dream_key ranked)"
proof -
  from assms(2) obtain ds where ds: "map_result (dream_one shown s False) policies = Inr ds"
    and ranked: "ranked = sort_key dream_key ds"
    by (auto simp: dream_def split: sum.splits)
  note all2 = map_result_Inr [OF ds]
  have dec: "dr_decisions e = d" if "dream_one shown s False d = Inr e" for d e
    using that by (auto simp: dream_one_def split: sum.splits if_splits)
  have pol: "map dr_decisions ds = policies"
    using all2 by (induction rule: list_all2_induct) (auto dest: dec)
  have cnt: "count_list (map dr_decisions ranked) d = count_list (map dr_decisions ds) d" for d
  proof -
    have ins: "count_list (map dr_decisions (insort_key dream_key x xs)) d = count_list (map dr_decisions (x # xs)) d" for x xs
      by (induction xs) auto
    have "count_list (map dr_decisions (foldr (insort_key dream_key) xs [])) d = count_list (map dr_decisions xs) d" for xs
      by (induction xs) (simp_all add: ins)
    then show ?thesis by (simp add: ranked sort_key_def)
  qed
  have within: "dr_extrapolates e = [] \<and> (\<exists>ls. levels_of shown (dr_decisions e) [] = Inr ls \<and>
        (\<forall>(n, l) \<in> set ls. \<exists>g \<in> set (rs_generations s). \<exists>h \<in> set (rs_generations s).
           level_at (gn_levels g) n \<le> l \<and> l \<le> level_at (gn_levels h) n))" if e: "e \<in> set ranked" for e
  proof -
    from e have "e \<in> set ds" by (simp add: ranked)
    from map_result_mem [OF ds this] obtain d where d: "dream_one shown s False d = Inr e" by blast
    then obtain beyond where b: "extrapolation shown s d = Inr beyond" "beyond = []" "dr_extrapolates e = beyond"
      by (auto simp: dream_one_def split: sum.splits if_splits)
    from b(1) obtain ls where ls: "levels_of shown d [] = Inr ls" by (auto simp: extrapolation_def split: sum.splits)
    have "\<exists>g \<in> set (rs_generations s). \<exists>h \<in> set (rs_generations s).
           level_at (gn_levels g) n \<le> l \<and> l \<le> level_at (gn_levels h) n" if nl: "(n, l) \<in> set ls" for n l
    proof -
      obtain low high where lh: "dget_or (rs_limits s) n (0, 0) = (low, high)" by (cases "dget_or (rs_limits s) n (0, 0)")
      have "(case dget_or (rs_limits s) n (0, 0) of (low, high) \<Rightarrow> if l < low \<or> l > high then [(n, l, low, high)] else []) = []"
        using b(1,2) ls nl by (auto simp: extrapolation_def)
      then have l: "low \<le> l" "l \<le> high" by (auto simp: lh split: if_splits)
      show ?thesis
      proof (cases "dget (rs_limits s) n")
        case None
        then have "n \<notin> set (dkeys (observed_limits (rs_generations s)))"
          using new_simulator_parts [OF s] by (simp add: dget_None_keys)
        then have z: "g \<in> set (rs_generations s) \<Longrightarrow> level_at (gn_levels g) n = 0" for g
          using observed_limits_ok [of "rs_generations s"] by (intro level_at_other) blast
        from None lh l have "l = 0" by (simp add: dget_or_def)
        with z new_simulator_parts [OF s] show ?thesis by (metis list.set_intros(1) neq_Nil_conv order_refl)
      next
        case (Some q)
        with lh have "dget (rs_limits s) n = Some (low, high)" by (simp add: dget_or_def)
        then have "dget (observed_limits (rs_generations s)) n = Some (low, high)"
          using new_simulator_parts [OF s] by simp
        with observed_limits_ok [of "rs_generations s"]
        have "(\<exists>g \<in> set (rs_generations s). level_at (gn_levels g) n = low) \<and> (\<exists>g \<in> set (rs_generations s). level_at (gn_levels g) n = high)"
          unfolding limits_ok_def by blast
        with l show ?thesis by metis
      qed
    qed
    with b ls dec [OF d] show ?thesis by auto
  qed
  show ?thesis
  proof (intro conjI ballI allI)
    show "count_list (map dr_decisions ranked) d = count_list policies d" for d
      using cnt [of d] pol by simp
    show "sorted (map dream_key ranked)" by (simp add: ranked)
  qed (use within in blast)+
qed

theorem dream_stays_within_history_witness:
  "\<exists>s ranked. new_simulator demo_history None = Inr s
     \<and> dream (\<lambda>_. []) s [[(''c'', JInt 3)], [(''c'', JInt 0)]] False = Inr ranked
     \<and> (\<forall>e \<in> set ranked. dr_extrapolates e = [])"
proof -
  obtain s where s: "new_simulator demo_history None = Inr s"
    and l: "rs_limits s = observed_limits [demo_gen ''g3'' 0 1, demo_gen ''g4'' 3 2]"
    by (auto simp: new_simulator_def Let_def without_def demo_history_def)
  have l': "rs_limits s = [(''c'', (0, 3))]"
    by (simp add: l observed_limits_def widen_def demo_gen_def level_at_def dget_or_def)
  have ls: "levels_of (\<lambda>_. []) [(''c'', JInt n)] [] = Inr [(''c'', real_of_int n)]" if "n = 3 \<or> n = 0" for n
    using that by (auto simp: level_of_def double_limit_def)
  have "is_ok (dream_one (\<lambda>_. []) s False [(''c'', JInt n)])" if n: "n = 3 \<or> n = 0" for n
  proof -
    have "extrapolation (\<lambda>_. []) s [(''c'', JInt n)] = Inr []"
      using n unfolding extrapolation_def ls [OF n] by (auto simp: l' dget_or_def)
    moreover have "is_ok (simulate (\<lambda>_. []) s [(''c'', JInt n)])"
      unfolding simulate_def ls [OF n] by simp
    ultimately show ?thesis by (auto simp: dream_one_def elim!: is_okE)
  qed
  then obtain e1 e2 where "dream_one (\<lambda>_. []) s False [(''c'', JInt 3)] = Inr e1" "dream_one (\<lambda>_. []) s False [(''c'', JInt 0)] = Inr e2"
    by (metis is_okE)
  then have "\<exists>ranked. dream (\<lambda>_. []) s [[(''c'', JInt 3)], [(''c'', JInt 0)]] False = Inr ranked"
    by (simp add: dream_def)
  then obtain ranked where r: "dream (\<lambda>_. []) s [[(''c'', JInt 3)], [(''c'', JInt 0)]] False = Inr ranked" by blast
  from dream_stays_within_history [OF s r] have "\<forall>e \<in> set ranked. dr_extrapolates e = []" by blast
  with s r show ?thesis by blast
qed

section \<open>The quota\<close>

text \<open>The dream cycles of a registry with a timestamp inside the window, whatever the limit of the query.\<close>

definition cycles_in_window :: "cycle_budget \<Rightarrow> registry \<Rightarrow> real \<Rightarrow> nat" where
  "cycles_in_window b r now =
     length (filter (\<lambda>e. ev_action e = dream_cycle_event \<and> now - cb_window b \<le> ev_ts e) (rg_events r))"

text \<open>A cycle as its runner performs it: check the budget, then record the cycle on the same clock.\<close>

definition guarded_cycle :: "cycle_budget \<Rightarrow> registry \<Rightarrow> real \<times> json \<Rightarrow> registry" where
  "guarded_cycle b r c =
     (case cb_check b r (fst c) of
        Inl e \<Rightarrow> r
      | Inr _ \<Rightarrow> reg_record_event (fst c) dream_cycle_event (snd c) r)"

lemma used_le_window: "cb_used b r now \<le> int (cycles_in_window b r now)"
proof -
  have "length (filter P (take 1000 (rev ys))) \<le> length (filter P ys)" for P and ys :: "reg_event list"
  proof -
    have "length (filter P (take 1000 (rev ys))) + length (filter P (drop 1000 (rev ys))) = length (filter P (rev ys))"
      by (metis append_take_drop_id filter_append length_append)
    moreover have "length (filter P (rev ys)) = length (filter P ys)" by (simp add: rev_filter [symmetric])
    ultimately show ?thesis by simp
  qed
  from this [of "\<lambda>e. now - cb_window b \<le> ev_ts e" "filter (\<lambda>e. ev_action e = dream_cycle_event) (rg_events r)"]
  show ?thesis
    by (simp add: cb_used_def cb_recent_def reg_events_def cycles_in_window_def conj_commute)
qed

lemma window_sorted_used:
  assumes "sorted (map ev_ts (rg_events r))"
  shows "cb_used b r now = int (min 1000 (cycles_in_window b r now))"
proof -
  define ys where "ys = filter (\<lambda>e. ev_action e = dream_cycle_event) (rg_events r)"
  let ?P = "\<lambda>e. now - cb_window b \<le> ev_ts e"
  have srt: "sorted (map ev_ts ys)" using assms by (simp add: ys_def sorted_filter)
  have "filter ?P (take n (rev zs)) = take n (filter ?P (rev zs))" if "sorted (map ev_ts zs)" for n and zs :: "reg_event list"
    using that
  proof (induction zs arbitrary: n rule: rev_induct)
    case (snoc z zs)
    show ?case
    proof (cases n)
      case (Suc m)
      from snoc.prems have s: "sorted (map ev_ts zs)" and le: "\<forall>x \<in> set zs. ev_ts x \<le> ev_ts z"
        by (auto simp: sorted_append)
      show ?thesis
      proof (cases "?P z")
        case True
        with snoc.IH [OF s, of m] Suc show ?thesis by simp
      next
        case False
        with le have none: "\<forall>x \<in> set zs. \<not> ?P x" by fastforce
        then have "filter ?P (take m (rev zs)) = []" "filter ?P (rev zs) = []"
          by (auto simp: filter_empty_conv dest: in_set_takeD)
        with False Suc show ?thesis by simp
      qed
    qed simp
  qed simp
  from this [OF srt, of 1000] have "length (filter ?P (take 1000 (rev ys))) = min 1000 (length (filter ?P (rev ys)))"
    by (simp add: min.commute)
  moreover have "length (filter ?P (rev ys)) = length (filter ?P ys)" by (simp add: rev_filter [symmetric])
  ultimately show ?thesis
    by (simp add: cb_used_def cb_recent_def reg_events_def cycles_in_window_def ys_def conj_commute)
qed

definition quota_ok :: "cycle_budget \<Rightarrow> registry \<Rightarrow> real \<Rightarrow> bool" where
  "quota_ok b r now = (sorted (map ev_ts (rg_events r)) \<and> (\<forall>e \<in> set (rg_events r). ev_ts e \<le> now)
     \<and> int (cycles_in_window b r now) \<le> cb_max b)"

lemma window_shrinks: "now \<le> later \<Longrightarrow> cycles_in_window b r later \<le> cycles_in_window b r now"
proof -
  assume le: "now \<le> later"
  have "length (filter (\<lambda>e. P e \<and> later - w \<le> ev_ts e) es) \<le> length (filter (\<lambda>e. P e \<and> now - w \<le> ev_ts e) es)" for P w and es :: "reg_event list"
    using le by (induction es) auto
  then show ?thesis by (simp add: cycles_in_window_def)
qed

lemma guarded_cycle_ok:
  assumes q: "quota_ok b r now" and le: "now \<le> fst c" and max: "cb_max b \<le> 1000"
  shows "quota_ok b (guarded_cycle b r c) (fst c)"
proof (cases "cb_check b r (fst c)")
  case (Inl e)
  then show ?thesis
    using q le window_shrinks [OF le, of b r] by (auto simp: quota_ok_def guarded_cycle_def intro: order_trans)
next
  case (Inr u)
  then have "cb_used b r (fst c) < cb_max b" by (auto simp: cb_check_def cb_remaining_def split: if_splits)
  moreover have "cb_used b r (fst c) = int (min 1000 (cycles_in_window b r (fst c)))"
    using q by (intro window_sorted_used) (simp add: quota_ok_def)
  ultimately have "int (cycles_in_window b r (fst c)) < cb_max b" using max by simp
  moreover have "cycles_in_window b (reg_record_event (fst c) dream_cycle_event (snd c) r) (fst c)
      \<le> Suc (cycles_in_window b r (fst c))"
    by (simp add: cycles_in_window_def reg_record_event_def)
  ultimately show ?thesis
    using q le Inr by (auto simp: quota_ok_def guarded_cycle_def reg_record_event_def sorted_append intro: order_trans)
qed

text \<open>The budget bounds the self-directed cycles: on a clock that does not run backwards, starting
  from a log without a dream cycle, any number of guarded cycles leaves at most
  \<open>max_per_window\<close> of them in the window that ends now, as long as that maximum is at most the
  thousand events the log returns.\<close>

theorem cycle_quota_binds:
  assumes "0 \<le> cb_max b" "cb_max b \<le> 1000" "rg_events r = []" "sorted (map fst cs)" "cs \<noteq> []"
  shows "int (cycles_in_window b (run_steps (guarded_cycle b) r cs) (fst (last cs))) \<le> cb_max b"
proof -
  have run: "quota_ok b (run_steps (guarded_cycle b) r cs) (fst (last ((now, JNull) # cs)))"
    if "quota_ok b r now" "sorted (now # map fst cs)" for r now and cs :: "(real \<times> json) list"
    using that
  proof (induction cs arbitrary: r now)
    case (Cons c cs)
    from guarded_cycle_ok [OF Cons.prems(1) _ assms(2), of c] Cons.prems(2)
    have "quota_ok b (guarded_cycle b r c) (fst c)" by simp
    from Cons.IH [OF this] Cons.prems(2) show ?case by (cases cs) simp_all
  qed simp
  have q: "quota_ok b r (fst (hd cs))" using assms(1,3) by (simp add: quota_ok_def cycles_in_window_def)
  have "sorted (fst (hd cs) # map fst cs)" using assms(4,5) by (cases cs) auto
  from run [OF q this] assms(5) show ?thesis by (simp add: quota_ok_def)
qed

theorem cycle_quota_binds_witness:
  "cycles_in_window \<lparr>cb_max = 1, cb_window = 10\<rparr> (run_steps (guarded_cycle \<lparr>cb_max = 1, cb_window = 10\<rparr>)
     empty_registry [(1, JNull), (2, JNull), (3, JNull)]) 3 \<le> 1"
  using cycle_quota_binds [of "\<lparr>cb_max = 1, cb_window = 10\<rparr>" empty_registry "[(1, JNull), (2, JNull), (3, JNull)]"]
  by (simp add: empty_registry_def)

text \<open>A budget of more than a thousand cycles is no budget: the log answers with at most its
  thousand newest events, so the check passes whatever is recorded.\<close>

theorem quota_above_the_event_limit_never_binds:
  assumes "1000 < cb_max b"
  shows "cb_check b r now = Inr ()"
proof -
  have "length (cb_recent b r now) \<le> length (reg_events r (Some dream_cycle_event) 1000)"
    unfolding cb_recent_def by (rule length_filter_le)
  also have "\<dots> \<le> 1000" by (simp add: reg_events_def)
  finally show ?thesis using assms by (simp add: cb_check_def cb_remaining_def cb_used_def)
qed

theorem quota_above_the_event_limit_never_binds_witness:
  "cb_check \<lparr>cb_max = 1001, cb_window = 10\<rparr> empty_registry 0 = Inr ()"
  by (rule quota_above_the_event_limit_never_binds) simp

end
