(* ===== verification/Exploration.thy ===== *)
theory Exploration
  imports Py_Values "HOL-Library.Multiset"
begin

text \<open>
  What is remembered of an exploration (\<open>neural_pods/recursive_memory.py\<close>): experiences, their
  replay, the discovery tree and the broad-then-deep explorer, and the sampler that never gives up
  (\<open>ngu_sampling.py\<close>).

  The loops that follow links the data provides need not end: they are partial functions whose value
  is \<open>None\<close> when they do not, and theorems say when they return.
\<close>

section \<open>Experiences\<close>

record experience =
  xp_id :: string
  xp_environment :: string
  xp_condition :: string
  xp_action :: string
  xp_outcome :: string
  xp_verified :: bool
  xp_depth :: int
  xp_parent :: "string option"
  xp_metadata :: "(string, string) dict"

record experience_pod =
  ex_pod_id :: string
  ex_environment :: string
  ex_condition :: string
  ex_action :: string
  ex_outcome :: string
  ex_confidence :: real
  ex_sources :: "string list"
  ex_depth :: int
  ex_semantic_type :: string

definition to_payload :: "experience_pod \<Rightarrow> json" where
  "to_payload p = JObj [
     (''content'', JStr (''If '' @ ex_condition p @ '', perform '' @ ex_action p @ '': '' @ ex_outcome p)),
     (''semantic_type'', JStr (ex_semantic_type p)),
     (''tags'', JList [JStr ''experience'', JStr ''verified'', JStr (ex_environment p)]),
     (''experience'', JObj [
        (''condition'', JStr (ex_condition p)), (''action'', JStr (ex_action p)), (''outcome'', JStr (ex_outcome p)),
        (''confidence'', JFloat (Fin (ex_confidence p))),
        (''source_experience_ids'', JList (map JStr (ex_sources p))), (''depth'', JInt (ex_depth p))])]"

record replay_score =
  rp_evaluated :: nat
  rp_correct :: nat
  rp_coverage :: real
  rp_accuracy :: real

definition replay_policy :: "experience list \<Rightarrow> (string \<Rightarrow> string \<Rightarrow> string) \<Rightarrow> string option \<Rightarrow> replay_score" where
  "replay_policy xs policy environment =
     (let rows = filter (\<lambda>x. xp_verified x \<and> (environment = None \<or> environment = Some (xp_environment x))) xs;
          correct = length (filter (\<lambda>x. policy (xp_condition x) (xp_action x) = xp_outcome x) rows);
          covered = length (filter (\<lambda>x. policy (xp_condition x) (xp_action x) \<noteq> []) rows)
      in if rows = [] then \<lparr>rp_evaluated = 0, rp_correct = 0, rp_coverage = 0, rp_accuracy = 0\<rparr>
         else \<lparr>rp_evaluated = length rows, rp_correct = correct,
               rp_coverage = real covered / real (length rows), rp_accuracy = real correct / real (length rows)\<rparr>)"

text \<open>\<open>discovery_tree\<close>: breadth first along the parent links, without a set of visited rows.\<close>

definition children_of :: "experience list \<Rightarrow> string \<Rightarrow> string list" where
  "children_of xs i = map xp_id (filter (\<lambda>x. xp_parent x = Some i) xs)"

partial_function (option) tree_loop :: "experience list \<Rightarrow> string list \<Rightarrow> experience list \<Rightarrow> experience list option" where
  "tree_loop xs frontier found =
     (case frontier of
        [] \<Rightarrow> Some found
      | i # rest \<Rightarrow>
          (case find (\<lambda>x. xp_id x = i) xs of
             None \<Rightarrow> tree_loop xs rest found
           | Some row \<Rightarrow> tree_loop xs (rest @ children_of xs i) (found @ [row])))"

definition discovery_tree :: "experience list \<Rightarrow> string \<Rightarrow> experience list option" where
  "discovery_tree xs start = tree_loop xs [start] []"

section \<open>Broad, then deep\<close>

text \<open>
  \<open>_confidence\<close>: \<open>max(0.0, min(1.0, x))\<close> keeps its first argument unless the second is smaller or
  larger, so NaN reads as full confidence.
\<close>

definition clamp_unit :: "pfloat \<Rightarrow> real" where
  "clamp_unit x = (case x of Fin r \<Rightarrow> max 0 (min 1 r) | PosInf \<Rightarrow> 1 | NegInf \<Rightarrow> 0 | NaN \<Rightarrow> 1)"

definition confidence :: "experience \<Rightarrow> real" where
  "confidence x =
     (case float_of_string (dget_or (xp_metadata x) ''confidence'' (if xp_verified x then ''1'' else ''0'')) of
        None \<Rightarrow> 0 | Some f \<Rightarrow> clamp_unit f)"

record explorer =
  ex_max_depth :: int
  ex_threshold :: real

definition new_explorer :: "int \<Rightarrow> real \<Rightarrow> explorer result" where
  "new_explorer d t =
     (if d < 1 \<or> \<not> (0 \<le> t \<and> t \<le> 1) then Inl ValueError else Inr \<lparr>ex_max_depth = d, ex_threshold = t\<rparr>)"

definition weak :: "explorer \<Rightarrow> experience \<Rightarrow> bool" where
  "weak e x = (\<not> xp_verified x \<or> confidence x < ex_threshold e)"

text \<open>One child: seen before, or new and on the frontier if it is weak.\<close>

definition take_child :: "explorer \<Rightarrow> experience list \<times> string list \<times> experience list \<Rightarrow> experience
    \<Rightarrow> experience list \<times> string list \<times> experience list" where
  "take_child e st c =
     (case st of (broad, seen, frontier) \<Rightarrow>
        if xp_id c \<in> set seen then st
        else (broad @ [c], xp_id c # seen, if weak e c then frontier @ [c] else frontier))"

partial_function (option) explore_loop :: "explorer \<Rightarrow> (experience \<Rightarrow> experience list)
    \<Rightarrow> experience list \<Rightarrow> string list \<Rightarrow> experience list \<Rightarrow> experience list option" where
  "explore_loop e expand broad seen frontier =
     (case frontier of
        [] \<Rightarrow> Some broad
      | p # rest \<Rightarrow>
          if ex_max_depth e \<le> xp_depth p then explore_loop e expand broad seen rest
          else (case foldl (take_child e) (broad, seen, rest) (expand p) of
                  (broad', seen', frontier') \<Rightarrow> explore_loop e expand broad' seen' frontier'))"

definition explore :: "explorer \<Rightarrow> experience list \<Rightarrow> (experience \<Rightarrow> experience list) \<Rightarrow> experience list option" where
  "explore e seeds expand = explore_loop e expand seeds (map xp_id seeds) (filter (weak e) seeds)"

type_synonym exp_key = "string \<times> string \<times> string \<times> string"

definition group_key :: "experience \<Rightarrow> exp_key" where
  "group_key x = (xp_environment x, xp_condition x, xp_action x, xp_outcome x)"

definition add_group :: "(exp_key, experience list) dict \<Rightarrow> experience \<Rightarrow> (exp_key, experience list) dict" where
  "add_group d x = (if xp_verified x then dput (group_key x) (dget_or d (group_key x) [] @ [x]) d else d)"

definition pod_of_group :: "exp_key \<Rightarrow> experience list \<Rightarrow> experience_pod" where
  "pod_of_group k rows =
     (case k of (env, cond, act, out) \<Rightarrow>
        \<lparr>ex_pod_id = ''experience:'' @ env @ '':'' @ cond @ '':'' @ act @ '':'' @ out,
         ex_environment = env, ex_condition = cond, ex_action = act, ex_outcome = out,
         ex_confidence = sum_list (map confidence rows) / real (length rows),
         ex_sources = map xp_id rows, ex_depth = Min (set (map xp_depth rows)),
         ex_semantic_type = ''context''\<rparr>)"

definition consolidate :: "experience list \<Rightarrow> experience_pod list" where
  "consolidate xs =
     map (\<lambda>(k, rows). pod_of_group k rows) (sort_key fst (foldl add_group [] xs))"

section \<open>Never give up\<close>

text \<open>
  One round over the pending items: \<open>solve\<close> answers for an item and the number of the attempt. Items
  are told apart by their position; the code does it by identity, so one object that is listed twice
  shares its counters there.
\<close>

record ngu_item =
  ng_attempts :: nat
  ng_solved :: "bool option"

definition ngu_try :: "nat \<Rightarrow> (nat \<Rightarrow> nat \<Rightarrow> bool) \<Rightarrow> (nat, ngu_item) dict \<times> nat list \<Rightarrow> nat \<Rightarrow> (nat, ngu_item) dict \<times> nat list" where
  "ngu_try limit solve st i =
     (case st of (d, nxt) \<Rightarrow>
        let a = (case dget d i of None \<Rightarrow> 0 | Some x \<Rightarrow> ng_attempts x) + 1
        in if solve i a then (dput i \<lparr>ng_attempts = a, ng_solved = Some True\<rparr> d, nxt)
           else if a < limit then (dput i \<lparr>ng_attempts = a, ng_solved = None\<rparr> d, nxt @ [i])
           else (dput i \<lparr>ng_attempts = a, ng_solved = Some False\<rparr> d, nxt))"

partial_function (option) ngu_rounds :: "nat \<Rightarrow> (nat \<Rightarrow> nat \<Rightarrow> bool) \<Rightarrow> (nat, ngu_item) dict \<Rightarrow> nat list
    \<Rightarrow> (nat, ngu_item) dict option" where
  "ngu_rounds limit solve d pending =
     (case pending of
        [] \<Rightarrow> Some d
      | _ \<Rightarrow> (case foldl (ngu_try limit solve) (d, []) pending of (d', nxt) \<Rightarrow> ngu_rounds limit solve d' nxt))"

definition never_give_up :: "nat \<Rightarrow> int \<Rightarrow> (nat \<Rightarrow> nat \<Rightarrow> bool) \<Rightarrow> (nat, ngu_item) dict option result" where
  "never_give_up n limit solve =
     (if limit < 1 then Inl ValueError
      else Inr (ngu_rounds (nat limit) solve (map (\<lambda>i. (i, \<lparr>ng_attempts = 0, ng_solved = None\<rparr>)) [0..<n]) [0..<n]))"

section \<open>Loops over links\<close>

lemma mset_step:
  assumes "set ys \<subseteq> B" "\<And>b. b \<in> B \<Longrightarrow> f b < (f a :: nat)"
  shows "(image_mset f (mset (rest @ ys)), image_mset f (mset (a # rest))) \<in> mult less_than"
proof -
  have "(image_mset f (mset rest) + image_mset f (mset ys), image_mset f (mset rest) + {#f a#}) \<in> mult less_than"
    using assms by (intro one_step_implies_mult) auto
  then show ?thesis by simp
qed

lemma wf_frontier: "wf (inv_image (mult less_than) (\<lambda>fr. image_mset f (mset fr)))"
  by (intro wf_inv_image wf_mult wf_less_than)

text \<open>A rank of the ids that falls from a row to its children: the links have no cycle.\<close>

definition ranked :: "(string \<Rightarrow> nat) \<Rightarrow> experience list \<Rightarrow> bool" where
  "ranked rk xs = (\<forall>x \<in> set xs. case xp_parent x of None \<Rightarrow> True
     | Some p \<Rightarrow> p \<in> xp_id ` set xs \<longrightarrow> rk (xp_id x) < rk p)"

text \<open>What a walk along the links can reach.\<close>

inductive below :: "experience list \<Rightarrow> string \<Rightarrow> string \<Rightarrow> bool" for xs where
  below_here: "below xs i i"
| below_child: "below xs i j \<Longrightarrow> x \<in> set xs \<Longrightarrow> xp_parent x = Some j \<Longrightarrow> j \<in> xp_id ` set xs \<Longrightarrow> below xs i (xp_id x)"

lemma find_id:
  "find (\<lambda>x. xp_id x = i) xs = Some row \<Longrightarrow> row \<in> set xs \<and> xp_id row = i"
  by (induction xs) (auto split: if_splits)

lemma find_id_None: "find (\<lambda>x. xp_id x = i) xs = None \<longleftrightarrow> i \<notin> xp_id ` set xs"
  by (induction xs) auto

lemma tree_loop_returns:
  assumes rk: "ranked rk xs"
  shows "\<exists>t. tree_loop xs frontier found = Some t"
proof (induction frontier arbitrary: found rule: wf_induct_rule [OF wf_frontier [of rk]])
  case (1 frontier)
  show ?case
  proof (cases frontier)
    case Nil
    then show ?thesis by (simp add: tree_loop.simps)
  next
    case (Cons i rest)
    have smaller: "(rest, frontier) \<in> inv_image (mult less_than) (\<lambda>fr. image_mset rk (mset fr))"
      using mset_step [of "[]" "{}" rk i rest] by (simp add: Cons)
    show ?thesis
    proof (cases "find (\<lambda>x. xp_id x = i) xs")
      case None
      with 1 [OF smaller] Cons show ?thesis by (subst tree_loop.simps) simp
    next
      case (Some row)
      then have "i \<in> xp_id ` set xs" using find_id [OF Some] by auto
      then have "b \<in> set (children_of xs i) \<Longrightarrow> rk b < rk i" for b
        using rk by (fastforce simp: children_of_def ranked_def)
      from mset_step [of "children_of xs i" "set (children_of xs i)" rk i rest, OF subset_refl this] have "(rest @ children_of xs i, frontier) \<in> inv_image (mult less_than) (\<lambda>fr. image_mset rk (mset fr))"
        by (simp add: Cons)
      from 1 [OF this] Cons Some show ?thesis by (subst tree_loop.simps) simp
    qed
  qed
qed

text \<open>The walk seen from its start: the first step, then the rest.\<close>

lemma below_first:
  assumes "below xs i j"
  shows "j = i \<or> (\<exists>k \<in> set (children_of xs i). i \<in> xp_id ` set xs \<and> below xs k j)"
  using assms
proof (induction rule: below.induct)
  case (below_child i j x)
  show ?case
  proof (cases "j = i")
    case True
    with below_child show ?thesis
      by (intro disjI2 bexI [of _ "xp_id x"]) (auto simp: children_of_def intro: below.below_here)
  next
    case False
    with below_child show ?thesis by (auto intro: below.below_child)
  qed
qed simp

lemma below_up:
  assumes "below xs k j" "k \<in> set (children_of xs i)" "i \<in> xp_id ` set xs"
  shows "below xs i j"
  using assms
proof (induction rule: below.induct)
  case (below_here k)
  then obtain x where "x \<in> set xs" "xp_parent x = Some i" "xp_id x = k" by (auto simp: children_of_def)
  with below.below_child [OF below.below_here, of x xs i] below_here(2) show ?case by auto
qed (auto intro: below.below_child)

definition tree_ok :: "experience list \<Rightarrow> string list \<Rightarrow> experience list \<Rightarrow> experience list \<Rightarrow> bool" where
  "tree_ok xs frontier found t =
     ((\<forall>row \<in> set t. row \<in> set found \<or> (row \<in> set xs \<and> (\<exists>i \<in> set frontier. below xs i (xp_id row))))
    \<and> (\<forall>row \<in> set found. row \<in> set t)
    \<and> (\<forall>i \<in> set frontier. \<forall>j. below xs i j \<longrightarrow> j \<in> xp_id ` set xs \<longrightarrow> j \<in> xp_id ` set t))"

lemma tree_ok_row:
  assumes "tree_ok xs (rest @ children_of xs i) (found @ [row]) t" "row \<in> set xs" "xp_id row = i"
  shows "tree_ok xs (i # rest) found t"
  unfolding tree_ok_def
proof (intro conjI ballI allI impI)
  note ih = assms(1) [unfolded tree_ok_def]
  have i: "i \<in> xp_id ` set xs" using assms(2,3) by auto
  show "r \<in> set found \<or> (r \<in> set xs \<and> (\<exists>i \<in> set (i # rest). below xs i (xp_id r)))" if "r \<in> set t" for r
    using ih that assms(2,3) below_up [OF _ _ i] below.below_here [of xs i] by (auto 4 3)
  show "r \<in> set t" if "r \<in> set found" for r using ih that by auto
  show "j \<in> xp_id ` set t" if m: "m \<in> set (i # rest)" and b: "below xs m j" and j: "j \<in> xp_id ` set xs" for m j
  proof (cases "m = i")
    case True
    with below_first [OF b] have "j = i \<or> (\<exists>k \<in> set (children_of xs i). below xs k j)" by auto
    then show ?thesis
    proof
      assume "j = i"
      with ih assms(3) show ?thesis by auto
    next
      assume "\<exists>k \<in> set (children_of xs i). below xs k j"
      with ih j show ?thesis by simp blast
    qed
  next
    case False
    with m have "m \<in> set (rest @ children_of xs i)" by simp
    with ih b j show ?thesis by blast
  qed
qed

lemma tree_loop_spec:
  assumes "tree_loop xs frontier found = Some t"
  shows "tree_ok xs frontier found t"
proof (rule tree_loop.raw_induct [OF _ assms, where P = "\<lambda>xs frontier found t. tree_ok xs frontier found t"])
  fix loop :: "experience list \<Rightarrow> string list \<Rightarrow> experience list \<Rightarrow> experience list option"
    and xs frontier found t
  assume IH: "\<And>xs frontier found t. loop xs frontier found = Some t \<Longrightarrow> tree_ok xs frontier found t"
    and body: "(case frontier of
      [] \<Rightarrow> Some found
    | i # rest \<Rightarrow>
        (case find (\<lambda>x. xp_id x = i) xs of
           None \<Rightarrow> loop xs rest found
         | Some row \<Rightarrow> loop xs (rest @ children_of xs i) (found @ [row]))) = Some t"
  show "tree_ok xs frontier found t"
  proof (cases frontier)
    case Nil
    then show ?thesis using body by (simp add: tree_ok_def)
  next
    case (Cons i rest)
    show ?thesis
    proof (cases "find (\<lambda>x. xp_id x = i) xs")
      case None
      then have "loop xs rest found = Some t" using body Cons by simp
      from IH [OF this] have ih: "tree_ok xs rest found t" .
      have "j \<notin> xp_id ` set xs" if "below xs i j" for j
        using below_first [OF that] None by (auto simp: find_id_None)
      with ih show ?thesis by (auto simp: tree_ok_def Cons)
    next
      case (Some row)
      then have "loop xs (rest @ children_of xs i) (found @ [row]) = Some t" using body Cons by simp
      from tree_ok_row [OF IH [OF this]] find_id [OF Some] show ?thesis by (simp add: Cons)
    qed
  qed
qed

text \<open>The walk of the discovery tree ends whenever the parent links have no cycle, and it yields
  exactly the recorded ids that lie below its start.\<close>

theorem discovery_tree_ends:
  assumes "ranked rk xs"
  shows "\<exists>t. discovery_tree xs start = Some t \<and> set t \<subseteq> set xs
    \<and> xp_id ` set t = {j. below xs start j} \<inter> xp_id ` set xs"
proof -
  from tree_loop_returns [OF assms] obtain t where t: "discovery_tree xs start = Some t"
    unfolding discovery_tree_def by blast
  from tree_loop_spec [OF this [unfolded discovery_tree_def]]
  have "(\<forall>row \<in> set t. row \<in> set xs \<and> below xs start (xp_id row))"
    "(\<forall>j. below xs start j \<longrightarrow> j \<in> xp_id ` set xs \<longrightarrow> j \<in> xp_id ` set t)"
    by (auto simp: tree_ok_def)
  with t show ?thesis by (intro exI [of _ t]) auto
qed

text \<open>A chain of three rows and a row beside it.\<close>

definition demo_row :: "string \<Rightarrow> string option \<Rightarrow> int \<Rightarrow> bool \<Rightarrow> experience" where
  "demo_row i p d v = \<lparr>xp_id = i, xp_environment = ''e'', xp_condition = ''c'', xp_action = ''a'', xp_outcome = ''o'',
     xp_verified = v, xp_depth = d, xp_parent = p, xp_metadata = []\<rparr>"

definition demo_chain :: "experience list" where
  "demo_chain = [demo_row ''r'' None 0 False, demo_row ''s'' (Some ''r'') 1 False,
     demo_row ''t'' (Some ''s'') 2 True, demo_row ''u'' None 0 True]"

lemma demo_chain_ranked: "ranked (\<lambda>i. if i = ''r'' then 2 else if i = ''s'' then 1 else 0) demo_chain"
  by code_simp

theorem discovery_tree_ends_witness:
  "\<exists>t. discovery_tree demo_chain ''r'' = Some t \<and> ''t'' \<in> xp_id ` set t"
proof -
  have "below demo_chain ''r'' (xp_id (demo_row ''s'' (Some ''r'') 1 False))"
    by (rule below.below_child [OF below.below_here]) (auto simp: demo_chain_def demo_row_def)
  then have s: "below demo_chain ''r'' ''s''" by (simp add: demo_row_def)
  have "below demo_chain ''r'' (xp_id (demo_row ''t'' (Some ''s'') 2 True))"
    by (rule below.below_child [OF s]) (auto simp: demo_chain_def demo_row_def)
  then have "below demo_chain ''r'' ''t''" by (simp add: demo_row_def)
  moreover have "''t'' \<in> xp_id ` set demo_chain" by (simp add: demo_chain_def demo_row_def)
  ultimately show ?thesis using discovery_tree_ends [OF demo_chain_ranked, of "''r''"] by auto
qed

text \<open>A start that is among its own children is never left.\<close>

lemma tree_loop_cycle:
  assumes "j \<in> set (children_of xs j)" "j \<in> set frontier"
  shows "tree_loop xs frontier found = None"
proof (rule ccontr)
  assume "tree_loop xs frontier found \<noteq> None"
  then obtain t where t: "tree_loop xs frontier found = Some t" by auto
  have "\<not> (j \<in> set (children_of xs j) \<and> j \<in> xp_id ` set xs \<and> j \<in> set frontier)"
  proof (rule tree_loop.raw_induct [OF _ t, where P = "\<lambda>xs frontier found t.
      \<not> (j \<in> set (children_of xs j) \<and> j \<in> xp_id ` set xs \<and> j \<in> set frontier)"])
    fix loop :: "experience list \<Rightarrow> string list \<Rightarrow> experience list \<Rightarrow> experience list option"
      and xs frontier found t
    assume IH: "\<And>xs frontier found t. loop xs frontier found = Some t \<Longrightarrow>
        \<not> (j \<in> set (children_of xs j) \<and> j \<in> xp_id ` set xs \<and> j \<in> set frontier)"
      and body: "(case frontier of
        [] \<Rightarrow> Some found
      | i # rest \<Rightarrow>
          (case find (\<lambda>x. xp_id x = i) xs of
             None \<Rightarrow> loop xs rest found
           | Some row \<Rightarrow> loop xs (rest @ children_of xs i) (found @ [row]))) = Some t"
    show "\<not> (j \<in> set (children_of xs j) \<and> j \<in> xp_id ` set xs \<and> j \<in> set frontier)"
    proof
      assume j: "j \<in> set (children_of xs j) \<and> j \<in> xp_id ` set xs \<and> j \<in> set frontier"
      then obtain i rest where f: "frontier = i # rest" by (cases frontier) auto
      show False
      proof (cases "find (\<lambda>x. xp_id x = i) xs")
        case None
        with j f have "j \<in> set rest" by (auto simp: find_id_None)
        with IH [of xs rest found t] body f None j show False by simp
      next
        case (Some row)
        from j f have "j \<in> set (rest @ children_of xs i)" by auto
        with IH [of xs "rest @ children_of xs i" "found @ [row]" t] body f Some j show False by simp
      qed
    qed
  qed
  moreover have "j \<in> xp_id ` set xs" using assms(1) by (auto simp: children_of_def)
  ultimately show False using assms by blast
qed

section \<open>The explorer\<close>

lemma take_child_cases:
  "xp_id c \<in> set seen \<Longrightarrow> take_child e (broad, seen, frontier) c = (broad, seen, frontier)"
  "xp_id c \<notin> set seen \<Longrightarrow> take_child e (broad, seen, frontier) c
     = (broad @ [c], xp_id c # seen, if weak e c then frontier @ [c] else frontier)"
  by (simp_all add: take_child_def)

text \<open>One expansion: the new children follow, each id once, the weak ones join the frontier.\<close>

lemma take_children:
  assumes "foldl (take_child e) (broad, seen, frontier) cs = (broad', seen', frontier')" "set seen = xp_id ` set broad"
  shows "\<exists>new. broad' = broad @ new \<and> frontier' = frontier @ filter (weak e) new \<and> set seen' = xp_id ` set broad'
    \<and> set new \<subseteq> set cs \<and> distinct (map xp_id new) \<and> xp_id ` set new \<inter> xp_id ` set broad = {}
    \<and> xp_id ` set cs \<subseteq> xp_id ` set broad'"
  using assms
proof (induction cs arbitrary: broad seen frontier)
  case (Cons c cs)
  show ?case
  proof (cases "xp_id c \<in> set seen")
    case True
    with Cons.prems have "foldl (take_child e) (broad, seen, frontier) cs = (broad', seen', frontier')"
      by (simp add: take_child_cases)
    from Cons.IH [OF this Cons.prems(2)] True Cons.prems(2) show ?thesis by fastforce
  next
    case False
    with Cons.prems(1) have "foldl (take_child e) (broad @ [c], xp_id c # seen, if weak e c then frontier @ [c] else frontier) cs
        = (broad', seen', frontier')"
      by (simp add: take_child_cases)
    from Cons.IH [OF this] Cons.prems(2) obtain new where
      n: "broad' = (broad @ [c]) @ new" "frontier' = (if weak e c then frontier @ [c] else frontier) @ filter (weak e) new"
        "set seen' = xp_id ` set broad'" "set new \<subseteq> set cs" "distinct (map xp_id new)"
        "xp_id ` set new \<inter> xp_id ` set (broad @ [c]) = {}" "xp_id ` set cs \<subseteq> xp_id ` set broad'"
      by fastforce
    with False Cons.prems(2) show ?thesis by (intro exI [of _ "c # new"]) auto
  qed
qed simp

text \<open>How far a row is from the deepest level.\<close>

definition room_below :: "explorer \<Rightarrow> experience \<Rightarrow> nat" where
  "room_below e x = nat (ex_max_depth e - xp_depth x)"

lemma explore_loop_returns:
  assumes "\<And>p c. c \<in> set (expand p) \<Longrightarrow> xp_depth p < xp_depth c"
    and "set seen = xp_id ` set broad"
  shows "\<exists>t. explore_loop e expand broad seen frontier = Some t"
  using assms(2)
proof (induction frontier arbitrary: broad seen rule: wf_induct_rule [OF wf_frontier [of "room_below e"]])
  case (1 frontier)
  show ?case
  proof (cases frontier)
    case Nil
    then show ?thesis by (simp add: explore_loop.simps)
  next
    case (Cons p rest)
    show ?thesis
    proof (cases "ex_max_depth e \<le> xp_depth p")
      case True
      have "(rest, frontier) \<in> inv_image (mult less_than) (\<lambda>fr. image_mset (room_below e) (mset fr))"
        using mset_step [of "[]" "{}" "room_below e" p rest] by (simp add: Cons)
      from 1(1) [OF this 1(2)] True Cons show ?thesis by (subst explore_loop.simps) simp
    next
      case False
      obtain b s f where step: "foldl (take_child e) (broad, seen, rest) (expand p) = (b, s, f)"
        by (cases "foldl (take_child e) (broad, seen, rest) (expand p)") auto
      from take_children [OF this 1(2)] obtain new where f: "f = rest @ filter (weak e) new" "set new \<subseteq> set (expand p)"
        and s: "set s = xp_id ` set b" by auto
      have "room_below e c < room_below e p" if "c \<in> set (expand p)" for c
        using assms(1) [OF that] False by (simp add: room_below_def)
      with f(2) have "(f, frontier) \<in> inv_image (mult less_than) (\<lambda>fr. image_mset (room_below e) (mset fr))"
        using mset_step [of "filter (weak e) new" "set (expand p)" "room_below e" p rest] by (auto simp: Cons f(1))
      from 1(1) [OF this s] False Cons step show ?thesis by (subst explore_loop.simps) simp
    qed
  qed
qed

definition expandable :: "explorer \<Rightarrow> experience \<Rightarrow> bool" where
  "expandable e p = (weak e p \<and> xp_depth p < ex_max_depth e)"

definition explored :: "explorer \<Rightarrow> (experience \<Rightarrow> experience list) \<Rightarrow> experience list \<Rightarrow> experience list
    \<Rightarrow> experience list \<Rightarrow> bool" where
  "explored e expand broad frontier out =
     (\<exists>new. out = broad @ new \<and> distinct (map xp_id new) \<and> xp_id ` set new \<inter> xp_id ` set broad = {}
      \<and> (\<forall>c \<in> set new. \<exists>p \<in> set out. expandable e p \<and> c \<in> set (expand p))
      \<and> (\<forall>p \<in> set frontier \<union> set new. expandable e p \<longrightarrow> xp_id ` set (expand p) \<subseteq> xp_id ` set out))"

lemma explored_step:
  assumes new: "b = broad @ new" "f = rest @ filter (weak e) new" "set new \<subseteq> set (expand p)" "distinct (map xp_id new)"
      "xp_id ` set new \<inter> xp_id ` set broad = {}" "xp_id ` set (expand p) \<subseteq> xp_id ` set b"
    and p: "p \<in> set broad" "expandable e p" and rec: "explored e expand b f out"
  shows "explored e expand broad (p # rest) out"
proof -
  from rec [unfolded explored_def] obtain more where
    m: "out = b @ more" "distinct (map xp_id more)" "xp_id ` set more \<inter> xp_id ` set b = {}"
    and from_: "\<forall>c \<in> set more. \<exists>p \<in> set out. expandable e p \<and> c \<in> set (expand p)"
    and closed: "\<forall>p \<in> set f \<union> set more. expandable e p \<longrightarrow> xp_id ` set (expand p) \<subseteq> xp_id ` set out"
    by (elim exE conjE)
  show ?thesis
    unfolding explored_def
  proof (intro exI [of _ "new @ more"] conjI ballI impI)
    show "out = broad @ new @ more" by (simp add: m(1) new(1))
    show "distinct (map xp_id (new @ more))" "xp_id ` set (new @ more) \<inter> xp_id ` set broad = {}"
      using new(1,4,5) m(2,3) by auto
    show "\<exists>q \<in> set out. expandable e q \<and> c \<in> set (expand q)" if "c \<in> set (new @ more)" for c
      using that from_ p new(1,3) m(1) by auto
    show "xp_id ` set (expand q) \<subseteq> xp_id ` set out" if "q \<in> set (p # rest) \<union> set (new @ more)" "expandable e q" for q
    proof (cases "q = p")
      case True
      with new(6) m(1) show ?thesis by auto
    next
      case False
      with that new(2) have "q \<in> set f \<union> set more" by (auto simp: expandable_def)
      with closed that(2) show ?thesis by blast
    qed
  qed
qed

lemma explore_loop_spec:
  assumes "explore_loop e expand broad seen frontier = Some out"
    and "set seen = xp_id ` set broad" "set frontier \<subseteq> set broad" "\<forall>p \<in> set frontier. weak e p"
  shows "explored e expand broad frontier out"
proof -
  have "set seen = xp_id ` set broad \<longrightarrow> set frontier \<subseteq> set broad \<longrightarrow> (\<forall>p \<in> set frontier. weak e p)
      \<longrightarrow> explored e expand broad frontier out"
  proof (rule explore_loop.raw_induct [OF _ assms(1), where P = "\<lambda>e expand broad seen frontier out.
      set seen = xp_id ` set broad \<longrightarrow> set frontier \<subseteq> set broad \<longrightarrow> (\<forall>p \<in> set frontier. weak e p)
      \<longrightarrow> explored e expand broad frontier out"], intro impI)
    fix loop :: "explorer \<Rightarrow> (experience \<Rightarrow> experience list) \<Rightarrow> experience list \<Rightarrow> string list \<Rightarrow> experience list \<Rightarrow> experience list option"
      and e expand broad seen frontier out
    assume IH: "\<And>e expand broad seen frontier out. loop e expand broad seen frontier = Some out \<Longrightarrow>
        set seen = xp_id ` set broad \<longrightarrow> set frontier \<subseteq> set broad \<longrightarrow> (\<forall>p \<in> set frontier. weak e p)
        \<longrightarrow> explored e expand broad frontier out"
      and body: "(case frontier of
        [] \<Rightarrow> Some broad
      | p # rest \<Rightarrow>
          if ex_max_depth e \<le> xp_depth p then loop e expand broad seen rest
          else (case foldl (take_child e) (broad, seen, rest) (expand p) of
                  (broad', seen', frontier') \<Rightarrow> loop e expand broad' seen' frontier')) = Some out"
      and inv: "set seen = xp_id ` set broad" "set frontier \<subseteq> set broad" "\<forall>p \<in> set frontier. weak e p"
    show "explored e expand broad frontier out"
    proof (cases frontier)
      case Nil
      then show ?thesis using body by (simp add: explored_def)
    next
      case (Cons p rest)
      show ?thesis
      proof (cases "ex_max_depth e \<le> xp_depth p")
        case True
        then have "loop e expand broad seen rest = Some out" using body Cons by simp
        with IH inv Cons have "explored e expand broad rest out" by simp
        moreover have "\<not> expandable e p" using True by (simp add: expandable_def)
        ultimately show ?thesis unfolding explored_def Cons by auto
      next
        case False
        obtain b s f where step: "foldl (take_child e) (broad, seen, rest) (expand p) = (b, s, f)"
          by (cases "foldl (take_child e) (broad, seen, rest) (expand p)") auto
        then have loop: "loop e expand b s f = Some out" using body Cons False by simp
        from take_children [OF step inv(1)] obtain new where
          new: "b = broad @ new" "f = rest @ filter (weak e) new" "set new \<subseteq> set (expand p)" "distinct (map xp_id new)"
            "xp_id ` set new \<inter> xp_id ` set broad = {}" "xp_id ` set (expand p) \<subseteq> xp_id ` set b"
          and s: "set s = xp_id ` set b" by auto
        have "set f \<subseteq> set b" "\<forall>p \<in> set f. weak e p"
          using inv(2,3) unfolding new(1,2) Cons by auto
        then have "explored e expand b f out" using IH [OF loop] s by blast
        from explored_step [OF new _ _ this] inv(2,3) False Cons show ?thesis
          by (simp add: expandable_def)
      qed
    qed
  qed
  with assms show ?thesis by blast
qed

text \<open>Broad, then deep: when the children of a row lie deeper than the row, the exploration
  ends. It keeps the seeds in front, adds each new id once, adds only children of weak rows above
  the depth limit, and has expanded every weak row above the limit: it is the closure of the seeds
  under the expansion of weak rows.\<close>

theorem explore_is_closure:
  assumes "\<forall>p. \<forall>c \<in> set (expand p). xp_depth p < xp_depth c"
  shows "\<exists>new. explore e seeds expand = Some (seeds @ new)
    \<and> distinct (map xp_id new) \<and> xp_id ` set new \<inter> xp_id ` set seeds = {}
    \<and> (\<forall>c \<in> set new. \<exists>p \<in> set (seeds @ new). expandable e p \<and> c \<in> set (expand p))
    \<and> (\<forall>p \<in> set (seeds @ new). expandable e p \<longrightarrow> xp_id ` set (expand p) \<subseteq> xp_id ` set (seeds @ new))"
proof -
  have "\<exists>out. explore_loop e expand seeds (map xp_id seeds) (filter (weak e) seeds) = Some out"
    by (rule explore_loop_returns) (use assms in simp_all)
  then obtain out where out: "explore_loop e expand seeds (map xp_id seeds) (filter (weak e) seeds) = Some out" ..
  have "explored e expand seeds (filter (weak e) seeds) out"
    by (rule explore_loop_spec [OF out]) simp_all
  then obtain new where n: "out = seeds @ new" "distinct (map xp_id new)" "xp_id ` set new \<inter> xp_id ` set seeds = {}"
    "\<forall>c \<in> set new. \<exists>p \<in> set out. expandable e p \<and> c \<in> set (expand p)"
    and closed: "\<forall>p \<in> set (filter (weak e) seeds) \<union> set new. expandable e p \<longrightarrow> xp_id ` set (expand p) \<subseteq> xp_id ` set out"
    unfolding explored_def by (elim exE conjE)
  have "\<forall>p \<in> set out. expandable e p \<longrightarrow> xp_id ` set (expand p) \<subseteq> xp_id ` set out"
    using closed unfolding n(1) by (auto simp: expandable_def)
  with n out show ?thesis by (intro exI [of _ new]) (simp add: explore_def)
qed

definition demo_expand :: "experience \<Rightarrow> experience list" where
  "demo_expand p = (if xp_id p = ''r'' then [demo_row ''s'' (Some ''r'') (xp_depth p + 1) False, demo_row ''t'' (Some ''r'') (xp_depth p + 1) True] else [])"

theorem explore_is_closure_witness:
  "\<exists>new. explore \<lparr>ex_max_depth = 2, ex_threshold = 3 / 4\<rparr> [demo_row ''r'' None 0 False] demo_expand
       = Some (demo_row ''r'' None 0 False # new)
     \<and> {''s'', ''t''} \<subseteq> xp_id ` set new"
proof -
  let ?e = "\<lparr>ex_max_depth = 2, ex_threshold = 3 / 4 :: real\<rparr>" and ?r = "demo_row ''r'' None 0 False"
  have deeper: "\<forall>p. \<forall>c \<in> set (demo_expand p). xp_depth p < xp_depth c"
    by (auto simp: demo_expand_def demo_row_def split: if_splits)
  obtain new where
    n: "explore ?e [?r] demo_expand = Some ([?r] @ new)"
    and c: "\<forall>p \<in> set ([?r] @ new). expandable ?e p \<longrightarrow> xp_id ` set (demo_expand p) \<subseteq> xp_id ` set ([?r] @ new)"
    using explore_is_closure [OF deeper, of ?e "[?r]"] by (elim exE conjE)
  have "expandable ?e ?r" by (simp add: expandable_def weak_def demo_row_def)
  with c have "xp_id ` set (demo_expand ?r) \<subseteq> xp_id ` set ([?r] @ new)" by simp
  moreover have "xp_id ` set (demo_expand ?r) = {''s'', ''t''}" "xp_id ?r = ''r''" by code_simp+
  ultimately show ?thesis using n by auto
qed

section \<open>What never giving up gives\<close>

text \<open>The attempt that settles an item: the first one that solves it, or the last one.\<close>

definition first_success :: "(nat \<Rightarrow> nat \<Rightarrow> bool) \<Rightarrow> nat \<Rightarrow> nat \<Rightarrow> nat option" where
  "first_success solve i r = find (solve i) [1..<Suc r]"

definition settled_at :: "nat \<Rightarrow> (nat \<Rightarrow> nat \<Rightarrow> bool) \<Rightarrow> nat \<Rightarrow> ngu_item" where
  "settled_at limit solve i =
     (case first_success solve i limit of
        Some a \<Rightarrow> \<lparr>ng_attempts = a, ng_solved = Some True\<rparr>
      | None \<Rightarrow> \<lparr>ng_attempts = limit, ng_solved = Some False\<rparr>)"

text \<open>After \<open>r\<close> rounds: the pending items failed \<open>r\<close> times, the others are settled.\<close>

definition after_rounds :: "nat \<Rightarrow> (nat \<Rightarrow> nat \<Rightarrow> bool) \<Rightarrow> nat \<Rightarrow> nat \<Rightarrow> ngu_item" where
  "after_rounds limit solve r i =
     (if first_success solve i r = None \<and> r < limit then \<lparr>ng_attempts = r, ng_solved = None\<rparr>
      else settled_at limit solve i)"

lemma first_success_steps:
  "first_success solve i 0 = None"
  "first_success solve i (Suc r) = (case first_success solve i r of
      Some a \<Rightarrow> Some a | None \<Rightarrow> if solve i (Suc r) then Some (Suc r) else None)"
proof -
  have "find P (xs @ [x]) = (case find P xs of Some y \<Rightarrow> Some y | None \<Rightarrow> if P x then Some x else None)" for P xs and x :: nat
    by (induction xs) simp_all
  then show "first_success solve i (Suc r) = (case first_success solve i r of
      Some a \<Rightarrow> Some a | None \<Rightarrow> if solve i (Suc r) then Some (Suc r) else None)"
    by (simp add: first_success_def)
qed (simp add: first_success_def)

lemma first_success_stays:
  assumes "r \<le> n" "first_success solve i r = Some a"
  shows "first_success solve i n = Some a"
  using assms by (induction rule: dec_induct) (simp_all add: first_success_steps)

lemma ngu_try_round:
  assumes "dget d i = Some \<lparr>ng_attempts = r, ng_solved = None\<rparr>" "first_success solve i r = None" "r < limit"
  shows "ngu_try limit solve (d, nxt) i =
    (dput i (after_rounds limit solve (Suc r) i) d,
     if first_success solve i (Suc r) = None \<and> Suc r < limit then nxt @ [i] else nxt)"
proof (cases "solve i (Suc r)")
  case True
  have "first_success solve i (Suc r) = Some (Suc r)" using True assms(2) by (simp add: first_success_steps)
  moreover from first_success_stays [OF _ this] have "first_success solve i limit = Some (Suc r)" using assms(3) by simp
  ultimately show ?thesis
    using True assms(1) by (simp add: ngu_try_def after_rounds_def settled_at_def)
next
  case False
  have n: "first_success solve i (Suc r) = None" using False assms(2) by (simp add: first_success_steps)
  show ?thesis
  proof (cases "Suc r < limit")
    case True
    with False n assms(1) show ?thesis by (simp add: ngu_try_def after_rounds_def)
  next
    case False
    then have "limit = Suc r" using assms(3) by simp
    with \<open>\<not> solve i (Suc r)\<close> n assms(1) show ?thesis
      by (simp add: ngu_try_def after_rounds_def settled_at_def)
  qed
qed

lemma ngu_round:
  assumes "distinct pending" "r < limit"
    and "\<forall>i \<in> set pending. dget d i = Some \<lparr>ng_attempts = r, ng_solved = None\<rparr> \<and> first_success solve i r = None"
  shows "\<exists>d'. foldl (ngu_try limit solve) (d, nxt) pending =
      (d', nxt @ filter (\<lambda>i. first_success solve i (Suc r) = None \<and> Suc r < limit) pending)
    \<and> (\<forall>i. dget d' i = (if i \<in> set pending then Some (after_rounds limit solve (Suc r) i) else dget d i))"
  using assms
proof (induction pending arbitrary: d nxt)
  case (Cons i pending)
  have i: "dget d i = Some \<lparr>ng_attempts = r, ng_solved = None\<rparr>" "first_success solve i r = None"
    using Cons.prems(3) by auto
  note one = ngu_try_round [OF i Cons.prems(2), of nxt]
  let ?d = "dput i (after_rounds limit solve (Suc r) i) d"
  have "\<forall>j \<in> set pending. dget ?d j = Some \<lparr>ng_attempts = r, ng_solved = None\<rparr> \<and> first_success solve j r = None"
    using Cons.prems(1,3) by (auto simp: dict_simps)
  from Cons.IH [OF _ Cons.prems(2) this, of "if first_success solve i (Suc r) = None \<and> Suc r < limit then nxt @ [i] else nxt"]
    Cons.prems(1) obtain d' where
    f: "foldl (ngu_try limit solve) (?d, if first_success solve i (Suc r) = None \<and> Suc r < limit then nxt @ [i] else nxt) pending
      = (d', (if first_success solve i (Suc r) = None \<and> Suc r < limit then nxt @ [i] else nxt)
           @ filter (\<lambda>i. first_success solve i (Suc r) = None \<and> Suc r < limit) pending)"
    and d': "\<forall>j. dget d' j = (if j \<in> set pending then Some (after_rounds limit solve (Suc r) j) else dget ?d j)" by auto
  show ?case
    unfolding foldl_Cons one f by (intro exI [of _ d']) (simp add: d' dict_simps)
qed simp

lemma ngu_rounds_settle:
  assumes "distinct pending" "r \<le> limit" "pending = [] \<or> r < limit"
    and "\<forall>i \<in> set pending. dget d i = Some \<lparr>ng_attempts = r, ng_solved = None\<rparr> \<and> first_success solve i r = None"
  shows "\<exists>d'. ngu_rounds limit solve d pending = Some d'
    \<and> (\<forall>i. dget d' i = (if i \<in> set pending then Some (settled_at limit solve i) else dget d i))"
  using assms
proof (induction "limit - r" arbitrary: r d pending rule: less_induct)
  case less
  show ?case
  proof (cases "pending = []")
    case True
    then show ?thesis by (simp add: ngu_rounds.simps)
  next
    case False
    with less.prems(3) have r: "r < limit" by simp
    let ?next = "filter (\<lambda>i. first_success solve i (Suc r) = None \<and> Suc r < limit) pending"
    from ngu_round [OF less.prems(1) r less.prems(4), of "[]"] obtain d1 where
      f: "foldl (ngu_try limit solve) (d, []) pending = (d1, ?next)"
      and d1: "\<forall>i. dget d1 i = (if i \<in> set pending then Some (after_rounds limit solve (Suc r) i) else dget d i)"
      by auto
    have pre: "distinct ?next" "Suc r \<le> limit" "?next = [] \<or> Suc r < limit"
      "\<forall>i \<in> set ?next. dget d1 i = Some \<lparr>ng_attempts = Suc r, ng_solved = None\<rparr> \<and> first_success solve i (Suc r) = None"
      using less.prems(1) r d1 by (auto simp: after_rounds_def filter_empty_conv)
    have "limit - Suc r < limit - r" using r by simp
    from less.hyps [OF this pre] obtain d' where
      d': "ngu_rounds limit solve d1 ?next = Some d'"
      "\<forall>i. dget d' i = (if i \<in> set ?next then Some (settled_at limit solve i) else dget d1 i)" by (elim exE conjE)
    have "ngu_rounds limit solve d pending = Some d'"
    proof -
      obtain a more where p: "pending = a # more" using False by (cases pending) auto
      show ?thesis
        using d'(1) f unfolding p by (subst ngu_rounds.simps) (simp only: list.case prod.case)
    qed
    with d'(2) d1 show ?thesis
      by (intro exI [of _ d']) (auto simp: after_rounds_def)
  qed
qed

text \<open>The sampler ends, whatever the solver answers, and settles every item: an item is solved
  exactly when one of its first \<open>limit\<close> attempts succeeds, and then no attempt is spent after the
  first success; an unsolved item has used all its attempts. A limit below one is refused.\<close>

theorem never_give_up_settles:
  shows "(limit < 1 \<longrightarrow> never_give_up n limit solve = Inl ValueError)
    \<and> (1 \<le> limit \<longrightarrow> (\<exists>d. never_give_up n limit solve = Inr (Some d)
          \<and> (\<forall>i < n. dget d i = Some (settled_at (nat limit) solve i))))"
proof (intro conjI impI)
  assume "limit < 1"
  then show "never_give_up n limit solve = Inl ValueError" by (simp add: never_give_up_def)
next
  assume l: "1 \<le> limit"
  let ?d = "map (\<lambda>i. (i, \<lparr>ng_attempts = 0, ng_solved = None\<rparr>)) [0..<n]"
  have start: "dget ?d i = Some \<lparr>ng_attempts = 0, ng_solved = None\<rparr>" if "i < n" for i
    using that by (auto simp: map_of_eq_Some_iff distinct_map o_def)
  have "\<forall>i \<in> set [0..<n]. dget ?d i = Some \<lparr>ng_attempts = 0, ng_solved = None\<rparr> \<and> first_success solve i 0 = None"
    using start by (simp add: first_success_steps)
  with ngu_rounds_settle [of "[0..<n]" 0 "nat limit" ?d solve] l
  obtain d where "ngu_rounds (nat limit) solve ?d [0..<n] = Some d"
    "\<forall>i. dget d i = (if i \<in> set [0..<n] then Some (settled_at (nat limit) solve i) else dget ?d i)" by auto
  with l show "\<exists>d. never_give_up n limit solve = Inr (Some d) \<and> (\<forall>i < n. dget d i = Some (settled_at (nat limit) solve i))"
    by (simp add: never_give_up_def)
qed

theorem never_give_up_settles_witness:
  "\<exists>d. never_give_up 2 3 (\<lambda>i a. i = 0 \<and> a = 2) = Inr (Some d)
     \<and> dget d 0 = Some \<lparr>ng_attempts = 2, ng_solved = Some True\<rparr> \<and> dget d 1 = Some \<lparr>ng_attempts = 3, ng_solved = Some False\<rparr>"
proof -
  have "settled_at 3 (\<lambda>i a. i = 0 \<and> a = 2) 0 = \<lparr>ng_attempts = 2, ng_solved = Some True\<rparr>"
    "settled_at 3 (\<lambda>i a. i = 0 \<and> a = 2) 1 = \<lparr>ng_attempts = 3, ng_solved = Some False\<rparr>" by code_simp+
  with never_give_up_settles [of 3 2 "\<lambda>i a. i = 0 \<and> a = 2"] show ?thesis by auto
qed

section \<open>Consolidation\<close>

definition rows_of_key :: "experience list \<Rightarrow> exp_key \<Rightarrow> experience list" where
  "rows_of_key xs k = filter (\<lambda>x. xp_verified x \<and> group_key x = k) xs"

lemma rows_of_key_snoc:
  "rows_of_key (xs @ [x]) k = rows_of_key xs k @ (if xp_verified x \<and> group_key x = k then [x] else [])"
  by (simp add: rows_of_key_def)

lemma dget_add_group:
  "dget (add_group d x) k = (if xp_verified x \<and> group_key x = k then Some (dget_or d k [] @ [x]) else dget d k)"
  by (simp add: add_group_def dict_simps)

lemma add_groups:
  "wf_dict (foldl add_group [] xs)"
  "dget (foldl add_group [] xs) k = (if rows_of_key xs k = [] then None else Some (rows_of_key xs k))"
proof -
  show "wf_dict (foldl add_group [] xs)"
    by (induction xs rule: rev_induct) (simp_all add: add_group_def)
  show "dget (foldl add_group [] xs) k = (if rows_of_key xs k = [] then None else Some (rows_of_key xs k))"
  proof (induction xs rule: rev_induct)
    case (snoc x xs)
    then have "dget_or (foldl add_group [] xs) k [] = rows_of_key xs k" by (simp add: dget_or_def)
    with snoc show ?case by (simp add: dget_add_group rows_of_key_snoc)
  qed (simp add: rows_of_key_def)
qed

lemma sort_key_keys: "map f (sort_key f xs) = sort (map f xs)"
proof (rule properties_for_sort [symmetric])
  have "mset (sort_key f xs) = mset xs" by simp
  then show "mset (map f (sort_key f xs)) = mset (map f xs)" by (simp only: mset_map)
qed simp

lemma clamp_unit_bounds: "0 \<le> clamp_unit f \<and> clamp_unit f \<le> 1"
  by (cases f) (auto simp: clamp_unit_def)

lemma confidence_bounds: "0 \<le> confidence x \<and> confidence x \<le> 1"
  using clamp_unit_bounds by (simp add: confidence_def split: option.split)

lemma mean_confidence:
  assumes "rows \<noteq> []"
  shows "sum_list (map confidence rows) / real (length rows) \<in> {0..1}"
proof -
  have "0 \<le> sum_list (map confidence rows) \<and> sum_list (map confidence rows) \<le> real (length rows)" for rows
    by (induction rows) (use confidence_bounds in \<open>auto intro: add_mono\<close>)
  with assms show ?thesis by (simp add: divide_le_eq)
qed

text \<open>Consolidation makes one memory pod for each environment, condition, action and outcome
  that a verified experience has, in ascending order, from exactly the verified experiences with
  these four fields in their recorded order, at their least depth and at their mean confidence,
  which lies between 0 and 1.\<close>

theorem consolidate_groups_exactly:
  "map (\<lambda>p. (ex_environment p, ex_condition p, ex_action p, ex_outcome p)) (consolidate xs)
     = sorted_list_of_set (group_key ` {x \<in> set xs. xp_verified x})
   \<and> (\<forall>p \<in> set (consolidate xs).
        let rows = rows_of_key xs (ex_environment p, ex_condition p, ex_action p, ex_outcome p)
        in rows \<noteq> [] \<and> ex_sources p = map xp_id rows \<and> ex_depth p = Min (xp_depth ` set rows)
           \<and> ex_confidence p = sum_list (map confidence rows) / real (length rows) \<and> ex_confidence p \<in> {0..1})"
proof
  let ?d = "foldl add_group [] xs"
  have wf: "wf_dict ?d" and get: "\<And>k. dget ?d k = (if rows_of_key xs k = [] then None else Some (rows_of_key xs k))"
    using add_groups [of xs] by simp_all
  have keys: "set (dkeys ?d) = group_key ` {x \<in> set xs. xp_verified x}"
  proof -
    have "k \<in> set (dkeys ?d) \<longleftrightarrow> k \<in> group_key ` {x \<in> set xs. xp_verified x}" for k
    proof -
      have "k \<in> set (dkeys ?d) \<longleftrightarrow> rows_of_key xs k \<noteq> []"
        using get [of k] dget_None_keys [of ?d k] by (simp split: if_splits)
      also have "\<dots> \<longleftrightarrow> k \<in> group_key ` {x \<in> set xs. xp_verified x}"
        by (auto simp: rows_of_key_def filter_empty_conv image_iff)
      finally show ?thesis .
    qed
    then show ?thesis by blast
  qed
  have "map (\<lambda>p. (ex_environment p, ex_condition p, ex_action p, ex_outcome p)) (consolidate xs) = map fst (sort_key fst ?d)"
    by (auto simp: consolidate_def pod_of_group_def split: prod.split)
  also have "\<dots> = sort (dkeys ?d)" by (rule sort_key_keys)
  also have "\<dots> = sorted_list_of_set (group_key ` {x \<in> set xs. xp_verified x})"
    using wf unfolding keys [symmetric]
    by (simp only: sorted_list_of_set_sort_remdups wf_dict_def distinct_remdups_id)
  finally show "map (\<lambda>p. (ex_environment p, ex_condition p, ex_action p, ex_outcome p)) (consolidate xs)
     = sorted_list_of_set (group_key ` {x \<in> set xs. xp_verified x})" .
  show "\<forall>p \<in> set (consolidate xs).
        let rows = rows_of_key xs (ex_environment p, ex_condition p, ex_action p, ex_outcome p)
        in rows \<noteq> [] \<and> ex_sources p = map xp_id rows \<and> ex_depth p = Min (xp_depth ` set rows)
           \<and> ex_confidence p = sum_list (map confidence rows) / real (length rows) \<and> ex_confidence p \<in> {0..1}"
  proof
    fix p assume "p \<in> set (consolidate xs)"
    then obtain k rows where k: "(k, rows) \<in> set ?d" and p: "p = pod_of_group k rows"
      by (auto simp: consolidate_def)
    from k wf have "dget ?d k = Some rows" by (simp add: wf_dict_def)
    with get [of k] have rows: "rows = rows_of_key xs k" "rows \<noteq> []" by (auto split: if_splits)
    have "(ex_environment p, ex_condition p, ex_action p, ex_outcome p) = k"
      by (cases k) (simp add: p pod_of_group_def)
    with rows mean_confidence [OF rows(2)] show "let rows = rows_of_key xs (ex_environment p, ex_condition p, ex_action p, ex_outcome p)
        in rows \<noteq> [] \<and> ex_sources p = map xp_id rows \<and> ex_depth p = Min (xp_depth ` set rows)
           \<and> ex_confidence p = sum_list (map confidence rows) / real (length rows) \<and> ex_confidence p \<in> {0..1}"
      by (cases k) (simp add: Let_def p pod_of_group_def)
  qed
qed

theorem consolidate_groups_exactly_witness:
  "\<exists>p. consolidate demo_chain = [p] \<and> ex_sources p = [''t'', ''u''] \<and> ex_depth p = 0"
proof -
  have "{x \<in> set demo_chain. xp_verified x} = {demo_row ''t'' (Some ''s'') 2 True, demo_row ''u'' None 0 True}"
    by (auto simp: demo_chain_def demo_row_def)
  then have keys: "group_key ` {x \<in> set demo_chain. xp_verified x} = {(''e'', ''c'', ''a'', ''o'')}"
    by (simp add: demo_row_def group_key_def)
  have rows: "rows_of_key demo_chain (''e'', ''c'', ''a'', ''o'') = [demo_row ''t'' (Some ''s'') 2 True, demo_row ''u'' None 0 True]"
    by (simp add: rows_of_key_def demo_chain_def demo_row_def group_key_def)
  have "map (\<lambda>p. (ex_environment p, ex_condition p, ex_action p, ex_outcome p)) (consolidate demo_chain)
      = [(''e'', ''c'', ''a'', ''o'')]"
    using consolidate_groups_exactly [of demo_chain] by (simp add: keys)
  then obtain p where p: "consolidate demo_chain = [p]" "ex_environment p = ''e''" "ex_condition p = ''c''"
    "ex_action p = ''a''" "ex_outcome p = ''o''" by (auto simp: map_eq_Cons_conv)
  have "ex_sources p = map xp_id (rows_of_key demo_chain (''e'', ''c'', ''a'', ''o''))"
    "ex_depth p = Min (xp_depth ` set (rows_of_key demo_chain (''e'', ''c'', ''a'', ''o'')))"
    using consolidate_groups_exactly [of demo_chain] by (simp_all add: p Let_def)
  with p(1) show ?thesis by (simp add: rows demo_row_def)
qed

end
