(* ===== verification/Search_Agent.thy ===== *)
theory Search_Agent
  imports Search_Query Exploration
begin

text \<open>
  Search episodes: the bounded search agent over the local backend (\<open>neural_pods/search_agent.py\<close>)
  and the recursive runner that records what its episodes found (\<open>recursive_search.py\<close>).

  The calls of one turn run on a thread pool; each is a \<open>search\<close>, which only fills caches, and they
  are taken in order. The elapsed time of an episode and \<open>str\<close> of a recall are arguments.
\<close>

section \<open>The agent\<close>

record search_action =
  sx_tool :: string
  sx_text :: string
  sx_vector :: "json list option"
  sx_regex :: "string option"
  sx_filters :: json
  sx_top_k :: int

definition bm25_action :: "string \<Rightarrow> int \<Rightarrow> search_action" where
  "bm25_action text k = \<lparr>sx_tool = ''bm25'', sx_text = text, sx_vector = None, sx_regex = None,
     sx_filters = JObj [], sx_top_k = k\<rparr>"

record episode =
  ep_question :: string
  ep_targets :: "string list"
  ep_turns :: "search_action list list"
  ep_hits :: "hit list"
  ep_found :: "string list"
  ep_recall :: real
  ep_mrr :: real
  ep_reward :: real
  ep_latency :: real
  ep_elapsed :: real
  ep_calls :: nat
  ep_tools :: "(string, nat) dict"
  ep_stop :: string

record search_agent =
  ag_namespace :: string
  ag_branch :: string
  ag_max_turns :: int
  ag_parallelism :: int
  ag_budget :: real

definition new_agent :: "string \<Rightarrow> string \<Rightarrow> int \<Rightarrow> int \<Rightarrow> real \<Rightarrow> search_agent result" where
  "new_agent ns br turns par budget =
     (if turns < 1 \<or> par < 1 \<or> budget \<le> 0 then Inl ValueError
      else Inr \<lparr>ag_namespace = ns, ag_branch = br, ag_max_turns = turns, ag_parallelism = par, ag_budget = budget\<rparr>)"

type_synonym policy = "string \<Rightarrow> nat \<Rightarrow> hit list \<Rightarrow> search_action list"

text \<open>\<open>re.findall(r"[\w-]+", text)\<close> and \<open>" ".join(words)\<close>.\<close>

definition word_list :: "string \<Rightarrow> string list" where
  "word_list text = word_runs [] text"

definition spaced :: "string list \<Rightarrow> string" where
  "spaced ws = join_with (CHR '' '') ws"

definition baseline_policy :: policy where
  "baseline_policy question turn observed =
     (let ws = word_list question
      in [bm25_action question 10]
         @ (if turn = 0 \<and> length ws > 3 then [bm25_action (spaced (take (max 2 (length ws div 2)) ws)) 10] else [])
         @ (case observed of
              [] \<Rightarrow> []
            | h # _ \<Rightarrow>
                if turn > 0 \<and> spaced (take 8 (word_list (ht_text h))) \<noteq> []
                then [bm25_action (spaced (take 8 (word_list (ht_text h)))) 10] else []))"

definition adaptive_policy :: policy where
  "adaptive_policy question turn observed =
     (let ws = word_list question
      in [bm25_action question 20]
         @ (if length ws > 4 then [bm25_action (spaced (take 4 ws)) 20, bm25_action (spaced (drop (length ws - 4) ws)) 20] else [])
         @ (if turn = 0 then []
            else concat (map (\<lambda>h. let seed = spaced (take 6 (word_list (ht_text h)))
                                 in if seed \<noteq> [] then [bm25_action seed 20] else []) (take 2 observed))))"

text \<open>\<open>_run_action\<close>: no principal is passed, and each tool sets its own weights.\<close>

definition action_args :: "search_agent \<Rightarrow> search_action \<Rightarrow> search_args" where
  "action_args ag x =
     (let base = \<lparr>sa_namespace = ag_namespace ag, sa_branch = ag_branch ag, sa_text = [], sa_vector = None,
        sa_regex = None, sa_filters = sx_filters x, sa_principal = None, sa_top_k = sx_top_k x,
        sa_vector_weight = 65 / 100, sa_lexical_weight = 35 / 100, sa_rank_profile = None\<rparr>
      in if sx_tool x = ''bm25'' then base\<lparr>sa_text := sx_text x, sa_vector_weight := 0, sa_lexical_weight := 1\<rparr>
         else if sx_tool x = ''ann'' then base\<lparr>sa_vector := sx_vector x, sa_vector_weight := 1, sa_lexical_weight := 0\<rparr>
         else if sx_tool x = ''hybrid'' then base\<lparr>sa_text := sx_text x, sa_vector := sx_vector x\<rparr>
         else base\<lparr>sa_regex := sx_regex x, sa_vector_weight := 0, sa_lexical_weight := 0\<rparr>)"

definition run_action :: "ls_env \<Rightarrow> search_agent \<Rightarrow> search_action \<Rightarrow> local_search \<Rightarrow> local_search \<times> hit list result" where
  "run_action env ag x s =
     (if sx_tool x \<in> {''bm25'', ''ann'', ''hybrid'', ''regex''} then search env s (action_args ag x)
      else (s, Inl ValueError))"

fun run_actions :: "ls_env \<Rightarrow> search_agent \<Rightarrow> search_action list \<Rightarrow> local_search
    \<Rightarrow> local_search \<times> hit list result list" where
  "run_actions env ag [] s = (s, [])"
| "run_actions env ag (x # xs) s =
     (let (s1, r) = run_action env ag x s; (s2, rs) = run_actions env ag xs s1 in (s2, r # rs))"

definition keep_better :: "(string, hit) dict \<Rightarrow> hit \<Rightarrow> (string, hit) dict" where
  "keep_better m h =
     (case dget m (ht_key h) of
        None \<Rightarrow> dput (ht_key h) h m
      | Some p \<Rightarrow> if ht_score h > ht_score p then dput (ht_key h) h m else m)"

definition count_tool :: "(string, nat) dict \<Rightarrow> search_action \<Rightarrow> (string, nat) dict" where
  "count_tool d x = dput (sx_tool x) (dget_or d (sx_tool x) 0 + 1) d"

definition ranked_hits :: "(string, hit) dict \<Rightarrow> hit list" where
  "ranked_hits m = best_first (map snd m)"

record agent_state =
  as_turns :: "search_action list list"
  as_merged :: "(string, hit) dict"
  as_observed :: "hit list"
  as_calls :: nat
  as_tools :: "(string, nat) dict"
  as_stop :: string

text \<open>What one turn adds, and the turns: \<open>left\<close> of them remain.\<close>

definition take_turn :: "search_action list \<Rightarrow> hit list list \<Rightarrow> agent_state \<Rightarrow> agent_state" where
  "take_turn actions batches st =
     (let merged = foldl (foldl keep_better) (as_merged st) batches
      in st\<lparr>as_turns := as_turns st @ [actions], as_merged := merged,
           as_observed := ranked_hits merged, as_calls := as_calls st + length actions,
           as_tools := foldl count_tool (as_tools st) actions\<rparr>)"

fun agent_turns :: "ls_env \<Rightarrow> search_agent \<Rightarrow> policy \<Rightarrow> string \<Rightarrow> string list \<Rightarrow> nat \<Rightarrow> nat \<Rightarrow> agent_state
    \<Rightarrow> local_search \<Rightarrow> local_search \<times> agent_state result" where
  "agent_turns env ag pol q targets 0 turn st s = (s, Inr st)"
| "agent_turns env ag pol q targets (Suc left) turn st s =
     (let actions = pol q turn (as_observed st)
      in if actions = [] then (s, Inr st)
         else
           let (s1, rs) = run_actions env ag actions s
           in case map_result (\<lambda>r. r) rs of
                Inl e \<Rightarrow> (s1, Inl e)
              | Inr batches \<Rightarrow>
                  let st1 = take_turn actions batches st
                  in if set targets \<subseteq> set (dkeys (as_merged st1))
                     then (s1, Inr (st1\<lparr>as_stop := ''targets_found''\<rparr>))
                     else agent_turns env ag pol q targets left (Suc turn) st1 s1)"

fun first_rank :: "string set \<Rightarrow> nat \<Rightarrow> hit list \<Rightarrow> real" where
  "first_rank T i [] = 0"
| "first_rank T i (h # hs) = (if ht_key h \<in> T then 1 / real (i + 1) else first_rank T (Suc i) hs)"

definition finish_episode :: "search_agent \<Rightarrow> string \<Rightarrow> string list \<Rightarrow> real \<Rightarrow> agent_state \<Rightarrow> episode" where
  "finish_episode ag q targets elapsed st =
     (let ranked = ranked_hits (as_merged st);
          found = map ht_key (filter (\<lambda>h. ht_key h \<in> set targets) ranked);
          recall = real (length found) / real (length targets);
          mrr = first_rank (set targets) 0 ranked;
          latency = max 0 (1 - elapsed / ag_budget ag)
      in \<lparr>ep_question = q, ep_targets = targets, ep_turns = as_turns st, ep_hits = ranked, ep_found = found,
          ep_recall = recall, ep_mrr = mrr, ep_reward = recall * 7 / 10 + mrr * 2 / 10 + latency / 10,
          ep_latency = latency, ep_elapsed = elapsed, ep_calls = as_calls st, ep_tools = as_tools st,
          ep_stop = as_stop st\<rparr>)"

definition agent_run :: "ls_env \<Rightarrow> search_agent \<Rightarrow> policy \<Rightarrow> string \<Rightarrow> string list \<Rightarrow> real \<Rightarrow> local_search
    \<Rightarrow> local_search \<times> episode result" where
  "agent_run env ag pol q target_keys elapsed s =
     (let targets = rev (remdups (rev target_keys))
      in if targets = [] then (s, Inl ValueError)
         else
           case agent_turns env ag pol q targets (nat (ag_max_turns ag)) 0
                  \<lparr>as_turns = [], as_merged = [], as_observed = [], as_calls = 0, as_tools = [], as_stop = ''turn_limit''\<rparr> s of
             (s', Inl e) \<Rightarrow> (s', Inl e)
           | (s', Inr st) \<Rightarrow> (s', Inr (finish_episode ag q targets elapsed st)))"

section \<open>The recursive runner\<close>

definition broad_policy :: policy where
  "broad_policy q turn observed = [bm25_action q 1]"

text \<open>\<open>text.split()\<close>.\<close>

fun split_spaces :: "string \<Rightarrow> string \<Rightarrow> string list" where
  "split_spaces cur [] = (if cur = [] then [] else [rev cur])"
| "split_spaces cur (c # cs) =
     (if is_space c then (if cur = [] then split_spaces [] cs else rev cur # split_spaces [] cs)
      else split_spaces (c # cur) cs)"

definition regex_action :: "string list \<Rightarrow> search_action" where
  "regex_action ws = \<lparr>sx_tool = ''regex'', sx_text = [], sx_vector = None,
     sx_regex = Some (''(?i)'' @ join_with (CHR ''|'') ws), sx_filters = JObj [], sx_top_k = 20\<rparr>"

definition deep_policy :: policy where
  "deep_policy q turn observed =
     baseline_policy q turn observed
     @ (if turn = 0 then [bm25_action q 20]
        else (case observed of
                [] \<Rightarrow> []
              | h # _ \<Rightarrow> (let ws = take 6 (split_spaces [] (ht_text h)) in if ws \<noteq> [] then [regex_action ws] else [])))"

text \<open>\<open>_records\<close>: \<open>nat_str\<close> and \<open>real_str\<close> are \<open>str\<close> of an index and of the recall.\<close>

definition action_word :: "search_action \<Rightarrow> string" where
  "action_word x = sx_tool x @ '':'' @
     (if sx_text x \<noteq> [] then sx_text x else (case sx_regex x of None \<Rightarrow> [] | Some r \<Rightarrow> r))"

definition record_id :: "(nat \<Rightarrow> string) \<Rightarrow> string \<Rightarrow> nat \<Rightarrow> nat \<Rightarrow> string" where
  "record_id nat_str q i j = take 24 q @ '':'' @ nat_str i @ '':'' @ nat_str j"

definition found_word :: "string list \<Rightarrow> string" where
  "found_word ks = (let w = join_with (CHR '','') ks in if w = [] then ''none'' else w)"

definition record_of :: "(nat \<Rightarrow> string) \<Rightarrow> (real \<Rightarrow> string) \<Rightarrow> episode \<Rightarrow> string option \<Rightarrow> bool \<Rightarrow> nat \<Rightarrow> nat
    \<Rightarrow> search_action \<Rightarrow> experience" where
  "record_of nat_str real_str ep parent verified i j x =
     \<lparr>xp_id = record_id nat_str (ep_question ep) i j, xp_environment = ''local-search'',
      xp_condition = ep_question ep, xp_action = action_word x, xp_outcome = ''found:'' @ found_word (ep_found ep),
      xp_verified = verified, xp_depth = int i, xp_parent = parent,
      xp_metadata = [(''confidence'', real_str (ep_recall ep))]\<rparr>"

definition records :: "(nat \<Rightarrow> string) \<Rightarrow> (real \<Rightarrow> string) \<Rightarrow> episode \<Rightarrow> string option \<Rightarrow> bool \<Rightarrow> experience list" where
  "records nat_str real_str ep parent verified =
     concat (map (\<lambda>(i, actions). map (\<lambda>(j, x). record_of nat_str real_str ep parent verified i j x) (enumerate 0 actions))
       (enumerate 0 (ep_turns ep)))"

record recursive_result =
  rr_question :: string
  rr_targets :: "string list"
  rr_broad :: episode
  rr_deep :: "episode option"
  rr_experiences :: "experience list"
  rr_pods :: "experience_pod list"

record recursive_runner =
  rn_namespace :: string
  rn_branch :: string
  rn_broad_parallelism :: int
  rn_deep_parallelism :: int
  rn_max_deep_turns :: int

definition recursive_run :: "ls_env \<Rightarrow> (nat \<Rightarrow> string) \<Rightarrow> (real \<Rightarrow> string) \<Rightarrow> recursive_runner \<Rightarrow> string \<Rightarrow> string list
    \<Rightarrow> real \<Rightarrow> real \<Rightarrow> local_search \<Rightarrow> local_search \<times> recursive_result result" where
  "recursive_run env nat_str real_str rn q target_keys t1 t2 s =
     (let targets = rev (remdups (rev target_keys))
      in if targets = [] then (s, Inl ValueError)
         else case new_agent (rn_namespace rn) (rn_branch rn) 1 (rn_broad_parallelism rn) 5 of
           Inl e \<Rightarrow> (s, Inl e)
         | Inr ag \<Rightarrow>
             (case agent_run env ag broad_policy q targets t1 s of
                (s1, Inl e) \<Rightarrow> (s1, Inl e)
              | (s1, Inr broad) \<Rightarrow>
                  let xs = records nat_str real_str broad None (ep_recall broad = 1);
                      finish = (\<lambda>deep xs. case new_explorer (rn_max_deep_turns rn) (3 / 4) of
                        Inl e \<Rightarrow> Inl e
                      | Inr _ \<Rightarrow> Inr \<lparr>rr_question = q, rr_targets = targets, rr_broad = broad, rr_deep = deep,
                                     rr_experiences = xs, rr_pods = consolidate xs\<rparr>)
                  in if ep_recall broad < 1 then
                       (case new_agent (rn_namespace rn) (rn_branch rn) (rn_max_deep_turns rn) (rn_deep_parallelism rn) 5 of
                          Inl e \<Rightarrow> (s1, Inl e)
                        | Inr ag2 \<Rightarrow>
                            (case agent_run env ag2 deep_policy q targets t2 s1 of
                               (s2, Inl e) \<Rightarrow> (s2, Inl e)
                             | (s2, Inr deep) \<Rightarrow>
                                 let parent = (case xs of [] \<Rightarrow> None | x # _ \<Rightarrow> Some (xp_id x))
                                 in (s2, finish (Some deep) (xs @ records nat_str real_str deep parent (ep_recall deep = 1)))))
                     else (s1, finish None xs)))"

section \<open>The records of a recursive run\<close>

lemma take_turn_simps [simp]:
  "as_turns (take_turn xs bs st) = as_turns st @ [xs]"
  "as_merged (take_turn xs bs st) = foldl (foldl keep_better) (as_merged st) bs"
  "as_calls (take_turn xs bs st) = as_calls st + length xs"
  "as_tools (take_turn xs bs st) = foldl count_tool (as_tools st) xs"
  "as_stop (take_turn xs bs st) = as_stop st"
  by (simp_all add: take_turn_def Let_def)

text \<open>A policy that always acts leaves its first actions as the first turn.\<close>

lemma agent_turns_prefix:
  "agent_turns env ag pol q targets left turn st s = (s', Inr st') \<Longrightarrow> \<exists>ys. as_turns st' = as_turns st @ ys"
proof (induction left arbitrary: turn st s)
  case (Suc left)
  then show ?case
    by (fastforce simp: Let_def split: if_splits prod.splits sum.splits)
qed simp

lemma agent_turns_first:
  assumes "agent_turns env ag pol q targets (Suc left) turn st s = (s', Inr st')"
    and "pol q turn (as_observed st) \<noteq> []"
  shows "\<exists>ys. as_turns st' = as_turns st @ pol q turn (as_observed st) # ys"
  using assms by (fastforce simp: Let_def split: if_splits prod.splits sum.splits dest: agent_turns_prefix)

lemma agent_run_first:
  assumes "agent_run env ag pol q keys t s = (s', Inr ep)" and "pol q 0 [] = x # xs" and "1 \<le> ag_max_turns ag"
  shows "ep_question ep = q \<and> (\<exists>ys. ep_turns ep = (x # xs) # ys)"
proof -
  obtain left where left: "nat (ag_max_turns ag) = Suc left"
    using assms(3) by (cases "nat (ag_max_turns ag)") auto
  from assms(1) obtain st where
    tr: "agent_turns env ag pol q (rev (remdups (rev keys))) (Suc left) 0
      \<lparr>as_turns = [], as_merged = [], as_observed = [], as_calls = 0, as_tools = [], as_stop = ''turn_limit''\<rparr> s = (s', Inr st)"
    and ep: "ep = finish_episode ag q (rev (remdups (rev keys))) t st"
    by (auto simp: agent_run_def Let_def left split: if_splits prod.splits sum.splits)
  from agent_turns_first [OF tr] assms(2) show ?thesis by (auto simp: ep finish_episode_def Let_def)
qed

lemma records_first:
  "ep_turns ep = (x # xs) # ys \<Longrightarrow> \<exists>zs. records ns rs ep parent v = record_of ns rs ep parent v 0 0 x # zs"
  by (simp add: records_def)

lemma new_agent_turns: "new_agent ns br turns par b = Inr ag \<Longrightarrow> 1 \<le> ag_max_turns ag"
  by (auto simp: new_agent_def split: if_splits)

lemma deep_policy_acts: "\<exists>x xs. deep_policy q 0 [] = x # xs"
  by (simp add: deep_policy_def baseline_policy_def Let_def)

lemma recursive_run_deep:
  assumes "recursive_run env ns rs rn q keys t1 t2 s = (s', Inr res)" and "rr_deep res \<noteq> None"
  obtains ag1 ag2 broad deep s1 targets where
    "new_agent (rn_namespace rn) (rn_branch rn) 1 (rn_broad_parallelism rn) 5 = Inr ag1"
    "agent_run env ag1 broad_policy q targets t1 s = (s1, Inr broad)"
    "new_agent (rn_namespace rn) (rn_branch rn) (rn_max_deep_turns rn) (rn_deep_parallelism rn) 5 = Inr ag2"
    "agent_run env ag2 deep_policy q targets t2 s1 = (s', Inr deep)"
    "rr_experiences res = records ns rs broad None (ep_recall broad = 1)
       @ records ns rs deep (case records ns rs broad None (ep_recall broad = 1) of [] \<Rightarrow> None | x # _ \<Rightarrow> Some (xp_id x))
           (ep_recall deep = 1)"
  using assms
  by (fastforce simp: recursive_run_def Let_def split: if_splits sum.splits prod.splits)

text \<open>C27. What a deepened run records cannot be replayed. The ids of the records only carry the
  question, the turn and the position, so the first record of the deep episode has the id of the
  first record of the broad one, which is its parent: the id is not unique, the row is its own
  parent, and the walk of the discovery tree from it does not end.\<close>

theorem deepened_records_never_replay:
  assumes "recursive_run env nat_str real_str rn q keys t1 t2 s = (s', Inr res)" and "rr_deep res \<noteq> None"
  shows "\<exists>x \<in> set (rr_experiences res). \<exists>y \<in> set (rr_experiences res).
      x \<noteq> y \<and> xp_parent x = None \<and> xp_parent y = Some (xp_id x) \<and> xp_id y = xp_id x
    \<and> discovery_tree (rr_experiences res) (xp_id x) = None"
proof -
  from recursive_run_deep [OF assms] obtain ag1 ag2 broad deep s1 targets where
    ag: "new_agent (rn_namespace rn) (rn_branch rn) 1 (rn_broad_parallelism rn) 5 = Inr ag1"
      "new_agent (rn_namespace rn) (rn_branch rn) (rn_max_deep_turns rn) (rn_deep_parallelism rn) 5 = Inr ag2"
    and broad: "agent_run env ag1 broad_policy q targets t1 s = (s1, Inr broad)"
    and deep: "agent_run env ag2 deep_policy q targets t2 s1 = (s', Inr deep)"
    and xs: "rr_experiences res = records nat_str real_str broad None (ep_recall broad = 1)
       @ records nat_str real_str deep (case records nat_str real_str broad None (ep_recall broad = 1) of
            [] \<Rightarrow> None | x # _ \<Rightarrow> Some (xp_id x)) (ep_recall deep = 1)" .
  have "broad_policy q 0 [] = [bm25_action q 1]" by (simp add: broad_policy_def)
  from agent_run_first [OF broad this new_agent_turns [OF ag(1)]] records_first obtain a zs where
    b: "records nat_str real_str broad None (ep_recall broad = 1)
      = record_of nat_str real_str broad None (ep_recall broad = 1) 0 0 a # zs" and qb: "ep_question broad = q" by metis
  obtain c cs where "deep_policy q 0 [] = c # cs" using deep_policy_acts by blast
  from agent_run_first [OF deep this new_agent_turns [OF ag(2)]] records_first obtain ys where
    d: "\<And>p. \<exists>zs. records nat_str real_str deep p (ep_recall deep = 1)
      = record_of nat_str real_str deep p (ep_recall deep = 1) 0 0 c # zs" and qd: "ep_question deep = q" by metis
  define x where "x = record_of nat_str real_str broad None (ep_recall broad = 1) 0 0 a"
  define y where "y = record_of nat_str real_str deep (Some (xp_id x)) (ep_recall deep = 1) 0 0 c"
  have mem: "x \<in> set (rr_experiences res)" "y \<in> set (rr_experiences res)"
    using d [of "Some (xp_id x)"] by (auto simp: xs b x_def y_def)
  have links: "xp_parent x = None" "xp_parent y = Some (xp_id x)" "xp_id y = xp_id x"
    by (simp_all add: x_def y_def record_of_def qb qd)
  have "xp_id y \<in> set (children_of (rr_experiences res) (xp_id x))"
    using mem(2) links(2) by (simp add: children_of_def)
  then have "xp_id x \<in> set (children_of (rr_experiences res) (xp_id x))" by (simp only: links(3))
  from tree_loop_cycle [OF this, of "[xp_id x]" "[]"] mem links show ?thesis
    by (intro bexI [of _ x] bexI [of _ y] conjI) (auto simp: discovery_tree_def)
qed

text \<open>A run over a namespace without rows: the probe finds nothing and the run deepens.\<close>

definition only_caches :: "local_search \<Rightarrow> local_search \<Rightarrow> bool" where
  "only_caches s t = (ls_branches t = ls_branches s \<and> ls_items t = ls_items s
     \<and> ls_namespaces t = ls_namespaces s \<and> ls_pinned t = ls_pinned s)"

lemma search_only_caches: "only_caches s (fst (search env s a))"
proof -
  have "only_caches s s1" if "allowed_keys env s fk pr f rows = (s1, r)" for s1 fk pr f rows r
    using allowed_frame [of env s fk pr f rows] that by (simp add: only_caches_def)
  then show ?thesis
    by (auto simp: only_caches_def search_def Let_def split: sum.split prod.split)
qed

lemma only_caches_reads:
  assumes "only_caches s t"
  shows "ls_snapshot t ns br = ls_snapshot s ns br" "namespace_metadata t ns = namespace_metadata s ns"
proof -
  from assms have "ls_rows_of t ns br = ls_rows_of s ns br" by (intro rows_frame) (simp_all add: only_caches_def)
  with assms show "ls_snapshot t ns br = ls_snapshot s ns br" 
    by (simp add: ls_snapshot_def only_caches_def split: option.split)
  from assms show "namespace_metadata t ns = namespace_metadata s ns"
    by (simp add: namespace_metadata_def only_caches_def split: option.split)
qed

lemma search_empty:
  assumes "ls_snapshot s (sa_namespace a) (sa_branch a) = Inr []" "is_ok (namespace_metadata s (sa_namespace a))"
    and "sa_regex a = None"
  shows "snd (search env s a) = Inr []"
proof -
  have ok: False if "allowed_keys env s fk pr f [] = (s1, Inl e)" for fk pr f s1 e
    using that by (simp add: allowed_keys_def Let_def split: option.splits)
  have rk: "rank_rows env a [] = Inr []"
    by (simp add: rank_rows_def search_pattern_def assms(3) pattern_rows_def best_first_def rescore_def split: option.split)
  show ?thesis
    using assms(1,2) by (auto simp: search_def Let_def rk split: sum.split prod.split elim!: is_okE dest!: ok)
qed

definition empty_namespace :: "search_agent \<Rightarrow> local_search \<Rightarrow> bool" where
  "empty_namespace ag s = (ls_snapshot s (ag_namespace ag) (ag_branch ag) = Inr []
     \<and> is_ok (namespace_metadata s (ag_namespace ag)))"

lemma run_actions_empty:
  assumes "empty_namespace ag s" "\<forall>x \<in> set xs. sx_tool x = ''bm25''"
  shows "\<exists>s'. run_actions env ag xs s = (s', replicate (length xs) (Inr [])) \<and> empty_namespace ag s'"
  using assms
proof (induction xs arbitrary: s)
  case (Cons x xs)
  have a: "sa_namespace (action_args ag x) = ag_namespace ag" "sa_branch (action_args ag x) = ag_branch ag"
    "sa_regex (action_args ag x) = None"
    using Cons.prems(2) by (simp_all add: action_args_def Let_def)
  obtain s1 where s1: "search env s (action_args ag x) = (s1, Inr [])"
    using search_empty [of s "action_args ag x" env] Cons.prems(1) a
    by (cases "search env s (action_args ag x)") (simp add: empty_namespace_def)
  then have "empty_namespace ag s1"
    using search_only_caches [of s env "action_args ag x"] Cons.prems(1)
    by (simp add: empty_namespace_def only_caches_reads [of s s1])
  with Cons show ?case by (fastforce simp: run_action_def s1)
qed simp

lemma agent_run_empty:
  assumes "empty_namespace ag s" "\<forall>x \<in> set (pol q 0 []). sx_tool x = ''bm25''" "keys \<noteq> []" "ag_max_turns ag = 1"
  shows "\<exists>s' ep. agent_run env ag pol q keys t s = (s', Inr ep) \<and> empty_namespace ag s' \<and> ep_recall ep = 0"
proof -
  from run_actions_empty [OF assms(1,2), of env] obtain s1 where
    r: "run_actions env ag (pol q 0 []) s = (s1, replicate (length (pol q 0 [])) (Inr []))" "empty_namespace ag s1" by blast
  have m: "map_result (\<lambda>r. r) (replicate n (Inr [])) = Inr (replicate n ([] :: hit list))" for n
    by (induction n) simp_all
  have f: "foldl (foldl keep_better) [] (replicate n []) = []" for n by (induction n) simp_all
  from assms(1,3) r show ?thesis
    by (auto simp: agent_run_def Let_def assms(4) m f finish_episode_def ranked_hits_def best_first_def)
qed

definition demo_runner :: recursive_runner where
  "demo_runner = \<lparr>rn_namespace = ''default'', rn_branch = ''main'', rn_broad_parallelism = 1,
     rn_deep_parallelism = 1, rn_max_deep_turns = 1\<rparr>"

lemma demo_empty: "empty_namespace \<lparr>ag_namespace = ''default'', ag_branch = ''main'', ag_max_turns = 1, ag_parallelism = 1,
    ag_budget = b\<rparr> (new_search ''t0'')"
  unfolding empty_namespace_def search_agent.simps by code_simp

lemma demo_deep_bm25: "\<forall>x \<in> set (deep_policy ''fox'' 0 []). sx_tool x = ''bm25''"
  by (simp add: deep_policy_def baseline_policy_def bm25_action_def Let_def)

theorem deepened_records_never_replay_witness:
  "\<exists>s' res x. recursive_run demo_env (\<lambda>_. ''0'') (\<lambda>_. ''0'') demo_runner ''fox'' [''k''] 0 0 (new_search ''t0'') = (s', Inr res)
     \<and> x \<in> set (rr_experiences res) \<and> discovery_tree (rr_experiences res) (xp_id x) = None"
proof -
  let ?ag = "\<lparr>ag_namespace = ''default'', ag_branch = ''main'', ag_max_turns = 1, ag_parallelism = 1, ag_budget = 5\<rparr>"
  obtain s1 broad where b: "agent_run demo_env ?ag broad_policy ''fox'' [''k''] 0 (new_search ''t0'') = (s1, Inr broad)"
      "empty_namespace ?ag s1" "ep_recall broad = 0"
    using agent_run_empty [where ag = ?ag and pol = broad_policy and q = "''fox''" and keys = "[''k'']"
        and env = demo_env and t = 0, OF demo_empty]
    by (auto simp: broad_policy_def bm25_action_def)
  obtain s2 deep where dp: "agent_run demo_env ?ag deep_policy ''fox'' [''k''] 0 s1 = (s2, Inr deep)"
    using agent_run_empty [where ag = ?ag and pol = deep_policy and q = "''fox''" and keys = "[''k'']" and env = demo_env and t = 0, OF b(2) demo_deep_bm25] by auto
  obtain res where r: "recursive_run demo_env (\<lambda>_. ''0'') (\<lambda>_. ''0'') demo_runner ''fox'' [''k''] 0 0 (new_search ''t0'') = (s2, Inr res)"
    and "rr_deep res = Some deep"
    by (simp add: recursive_run_def Let_def demo_runner_def new_agent_def new_explorer_def b dp)
  with deepened_records_never_replay [OF r] show ?thesis by blast
qed

section \<open>What an episode reports\<close>

definition tool_calls :: "search_action list list \<Rightarrow> string \<Rightarrow> nat" where
  "tool_calls turns t = length (filter (\<lambda>x. sx_tool x = t) (concat turns))"

text \<open>The books of a running episode, and what its next turn keeps of them.\<close>

definition keyed :: "(string, hit) dict \<Rightarrow> bool" where
  "keyed m = (wf_dict m \<and> (\<forall>p \<in> set m. ht_key (snd p) = fst p))"

definition episode_books :: "agent_state \<Rightarrow> bool" where
  "episode_books st =
     (keyed (as_merged st)
    \<and> as_calls st = length (concat (as_turns st))
    \<and> (\<forall>t. dget_or (as_tools st) t 0 = tool_calls (as_turns st) t))"

lemma keep_better_keyed: "keyed m \<Longrightarrow> keyed (keep_better m h)"
  by (auto simp: keyed_def keep_better_def dest!: dput_mem split: option.split)

lemma merge_keyed: "keyed m \<Longrightarrow> keyed (foldl (foldl keep_better) m bs)"
proof -
  have one: "keyed m \<Longrightarrow> keyed (foldl keep_better m b)" for m b
    by (induction b arbitrary: m) (simp_all add: keep_better_keyed)
  show "keyed m \<Longrightarrow> keyed (foldl (foldl keep_better) m bs)"
    by (induction bs arbitrary: m) (simp_all add: one)
qed

lemma count_tools: "dget_or (foldl count_tool d xs) t 0 = dget_or d t 0 + length (filter (\<lambda>x. sx_tool x = t) xs)"
  by (induction xs arbitrary: d) (auto simp: count_tool_def dget_or_put)

lemma take_turn_books: "episode_books st \<Longrightarrow> episode_books (take_turn xs bs st)"
  by (simp add: merge_keyed episode_books_def count_tools tool_calls_def)

lemma agent_turns_books:
  assumes "agent_turns env ag pol q targets left turn st s = (s', Inr st')"
    and "episode_books st" "as_stop st \<noteq> ''targets_found''" "\<not> set targets \<subseteq> set (dkeys (as_merged st))"
  shows "episode_books st'
    \<and> (as_stop st' = ''targets_found'' \<longleftrightarrow> set targets \<subseteq> set (dkeys (as_merged st')))
    \<and> length (as_turns st') \<le> length (as_turns st) + left"
  using assms
proof (induction left arbitrary: turn st s)
  case (Suc left)
  let ?xs = "pol q turn (as_observed st)"
  show ?case
  proof (cases "?xs = []")
    case True
    with Suc.prems show ?thesis by simp
  next
    case False
    obtain s1 rs where r: "run_actions env ag ?xs s = (s1, rs)" by (cases "run_actions env ag ?xs s")
    from Suc.prems(1) False r obtain bs where bs: "map_result (\<lambda>r. r) rs = Inr bs"
      by (auto simp: Let_def split: sum.splits)
    note books = take_turn_books [OF Suc.prems(2), of ?xs bs]
    show ?thesis
    proof (cases "set targets \<subseteq> set (dkeys (as_merged (take_turn ?xs bs st)))")
      case True
      with Suc.prems(1) False r bs books show ?thesis
        by (auto simp: Let_def episode_books_def)
    next
      case False
      with Suc.prems(1) \<open>?xs \<noteq> []\<close> r bs
      have "agent_turns env ag pol q targets left (Suc turn) (take_turn ?xs bs st) s1 = (s', Inr st')"
        by (simp add: Let_def)
      from Suc.IH [OF this books _ False] Suc.prems(3) show ?thesis by simp
    qed
  qed
qed simp

lemma first_rank_bounds: "0 \<le> first_rank T i hs \<and> first_rank T i hs \<le> 1"
  by (induction hs arbitrary: i) auto

lemma first_rank_pos: "0 < first_rank T i hs \<longleftrightarrow> (\<exists>h \<in> set hs. ht_key h \<in> T)"
  by (induction hs arbitrary: i) auto

lemma ranked_keys:
  assumes "keyed m"
  shows "distinct (map ht_key (ranked_hits m))" "set (map ht_key (ranked_hits m)) = set (dkeys m)"
proof -
  have k: "map ht_key (map snd m) = dkeys m" using assms by (simp add: keyed_def)
  have "mset (ranked_hits m) = mset (map snd m)" by (simp add: ranked_hits_def best_first_def)
  then have "mset (map ht_key (ranked_hits m)) = mset (map ht_key (map snd m))" by (simp only: mset_map)
  then have m: "mset (map ht_key (ranked_hits m)) = mset (dkeys m)" by (simp only: k)
  show "set (map ht_key (ranked_hits m)) = set (dkeys m)" using mset_eq_setD [OF m] .
  show "distinct (map ht_key (ranked_hits m))"
    using mset_eq_imp_distinct_iff [OF m] assms by (simp add: keyed_def wf_dict_def)
qed

text \<open>The report in terms of the hits that are left at the end.\<close>

lemma finish_report:
  assumes "episode_books st" "targets \<noteq> []" "distinct targets" "0 \<le> elapsed" "0 < ag_budget ag"
    and ep_def: "ep = finish_episode ag q targets elapsed st"
  shows "ep_recall ep \<in> {0..1}" "ep_recall ep = 1 \<longleftrightarrow> set targets \<subseteq> set (dkeys (as_merged st))"
    and "ep_mrr ep \<in> {0..1}" "ep_latency ep \<in> {0..1}"
    and "distinct (ep_found ep)" "set (ep_found ep) = set targets \<inter> ht_key ` set (ep_hits ep)"
proof -
  let ?rk = "ranked_hits (as_merged st)"
  have keyed: "keyed (as_merged st)" using assms(1) by (simp add: episode_books_def)
  note rk = ranked_keys [OF this]
  have found: "ep_found ep = filter (\<lambda>k. k \<in> set targets) (map ht_key ?rk)"
    by (simp add: ep_def finish_episode_def Let_def filter_map o_def)
  have hits: "ep_hits ep = ?rk" by (simp add: ep_def finish_episode_def Let_def)
  show d: "distinct (ep_found ep)" using rk(1) by (simp add: found)
  show s: "set (ep_found ep) = set targets \<inter> ht_key ` set (ep_hits ep)" by (auto simp: found hits)
  have sub: "set (ep_found ep) \<subseteq> set targets" by (auto simp: found)
  have len: "length (ep_found ep) = card (set (ep_found ep))" "length targets = card (set targets)"
    using distinct_card [OF d] distinct_card [OF assms(3)] by simp_all
  have rec: "ep_recall ep = real (length (ep_found ep)) / real (length targets)"
    by (simp add: ep_def finish_episode_def Let_def)
  have pos: "0 < length targets" using assms(2) by simp
  show "ep_recall ep \<in> {0..1}"
    using card_mono [OF _ sub] pos by (simp add: rec len(1)) (simp add: len(2))
  have "ep_recall ep = 1 \<longleftrightarrow> card (set (ep_found ep)) = card (set targets)"
    using pos assms(2) by (auto simp: rec len)
  also have "\<dots> \<longleftrightarrow> set (ep_found ep) = set targets" using card_subset_eq [OF _ sub] by auto
  also have "\<dots> \<longleftrightarrow> set targets \<subseteq> set (dkeys (as_merged st))" using s rk(2) by (auto simp: hits)
  finally show "ep_recall ep = 1 \<longleftrightarrow> set targets \<subseteq> set (dkeys (as_merged st))" .
  show "ep_mrr ep \<in> {0..1}" using first_rank_bounds by (simp add: ep_def finish_episode_def Let_def)
  show "ep_latency ep \<in> {0..1}" using assms(4,5) by (simp add: ep_def finish_episode_def Let_def)
qed

lemma start_books: "episode_books \<lparr>as_turns = [], as_merged = [], as_observed = [], as_calls = 0,
    as_tools = [], as_stop = ''turn_limit''\<rparr>"
  by (simp add: episode_books_def keyed_def tool_calls_def wf_dict_def dget_or_def)

text \<open>What an episode reports is what it did. Recall, reciprocal rank and reward lie between 0
  and 1, the episode stops because the targets were found exactly when the recall is 1, the found
  keys are the targets among the hits, without repetition, the calls and the count of each tool
  are those of the recorded turns, and there are at most as many turns as the agent allows.\<close>

theorem episode_report_exact:
  assumes "agent_run env ag pol q keys elapsed s = (s', Inr ep)" "0 \<le> elapsed" "0 < ag_budget ag"
  shows "ep_recall ep \<in> {0..1} \<and> ep_mrr ep \<in> {0..1} \<and> ep_reward ep \<in> {0..1}
    \<and> (ep_stop ep = ''targets_found'' \<longleftrightarrow> ep_recall ep = 1)
    \<and> distinct (ep_found ep) \<and> set (ep_found ep) = set keys \<inter> ht_key ` set (ep_hits ep)
    \<and> ep_calls ep = length (concat (ep_turns ep))
    \<and> (\<forall>t. dget_or (ep_tools ep) t 0 = tool_calls (ep_turns ep) t)
    \<and> length (ep_turns ep) \<le> nat (ag_max_turns ag)"
proof -
  let ?ts = "rev (remdups (rev keys))"
  from assms(1) obtain st where ne: "?ts \<noteq> []"
    and tr: "agent_turns env ag pol q ?ts (nat (ag_max_turns ag)) 0
      \<lparr>as_turns = [], as_merged = [], as_observed = [], as_calls = 0, as_tools = [], as_stop = ''turn_limit''\<rparr> s = (s', Inr st)"
    and ep: "ep = finish_episode ag q ?ts elapsed st"
    by (auto simp: agent_run_def Let_def split: if_splits prod.splits sum.splits)
  from agent_turns_books [OF tr start_books] ne have books: "episode_books st"
    and stop: "as_stop st = ''targets_found'' \<longleftrightarrow> set ?ts \<subseteq> set (dkeys (as_merged st))"
    and turns: "length (as_turns st) \<le> nat (ag_max_turns ag)" by auto
  note rep = finish_report [OF books ne _ assms(2,3) ep]
  have parts: "ep_reward ep = ep_recall ep * 7 / 10 + ep_mrr ep * 2 / 10 + ep_latency ep / 10"
    "ep_stop ep = as_stop st" "ep_calls ep = as_calls st" "ep_tools ep = as_tools st" "ep_turns ep = as_turns st"
    by (simp_all add: ep finish_episode_def Let_def)
  have "ep_reward ep \<in> {0..1}" using rep(1,3,4) by (simp add: parts)
  with rep books stop turns show ?thesis by (simp add: parts episode_books_def)
qed

theorem episode_report_exact_witness:
  "\<exists>s' ep. agent_run demo_env \<lparr>ag_namespace = ''default'', ag_branch = ''main'', ag_max_turns = 1, ag_parallelism = 1, ag_budget = 5\<rparr>
       deep_policy ''fox'' [''k''] 1 (new_search ''t0'') = (s', Inr ep)
     \<and> ep_reward ep \<in> {0..1} \<and> ep_stop ep \<noteq> ''targets_found''"
proof -
  let ?ag = "\<lparr>ag_namespace = ''default'', ag_branch = ''main'', ag_max_turns = 1, ag_parallelism = 1, ag_budget = 5\<rparr>"
  obtain s' ep where r: "agent_run demo_env ?ag deep_policy ''fox'' [''k''] 1 (new_search ''t0'') = (s', Inr ep)"
    and "ep_recall ep = 0"
    using agent_run_empty [where ag = ?ag and pol = deep_policy and q = "''fox''" and keys = "[''k'']"
        and env = demo_env and t = 1, OF demo_empty demo_deep_bm25] by auto
  with episode_report_exact [OF r] show ?thesis by auto
qed

text \<open>What an episode shows of the store.\<close>

definition shown_ok :: "ls_env \<Rightarrow> local_search \<Rightarrow> search_agent \<Rightarrow> agent_state \<Rightarrow> bool" where
  "shown_ok env s0 ag st =
     (\<forall>p \<in> set (as_merged st). \<exists>x \<in> set (concat (as_turns st)).
        visible_hit env s0 (ag_namespace ag) (ag_branch ag) (sx_filters x) None (snd p))"

lemma run_actions_visible:
  assumes "run_actions env ag xs s = (s1, rs)" "on_the_way env s0 s"
  shows "on_the_way env s0 s1 \<and> (\<forall>hs \<in> set rs. \<forall>hits. hs = Inr hits \<longrightarrow> (\<forall>h \<in> set hits. \<exists>x \<in> set xs.
     visible_hit env s0 (ag_namespace ag) (ag_branch ag) (sx_filters x) None h))"
  using assms
proof (induction xs arbitrary: s rs s1)
  case (Cons x xs)
  obtain s2 r rs' where r: "run_action env ag x s = (s2, r)" "run_actions env ag xs s2 = (s1, rs')" "rs = r # rs'"
    using Cons.prems(1) by (auto simp: Let_def split: prod.splits)
  have a: "sa_namespace (action_args ag x) = ag_namespace ag" "sa_branch (action_args ag x) = ag_branch ag"
    "sa_filters (action_args ag x) = sx_filters x" "sa_principal (action_args ag x) = None"
    by (simp_all add: action_args_def Let_def)
  have s2: "on_the_way env s0 s2"
    using search_on_the_way [OF Cons.prems(2), of "action_args ag x"] r(1) Cons.prems(2)
    by (auto simp: run_action_def split: if_splits)
  have "visible_hit env s0 (ag_namespace ag) (ag_branch ag) (sx_filters x) None h" if "r = Inr hits" "h \<in> set hits" for hits h
    using search_hits_on_the_way [OF Cons.prems(2), of "action_args ag x" s2 hits h] r(1) that
    by (auto simp: run_action_def a split: if_splits)
  with Cons.IH [OF r(2) s2] show ?case by (fastforce simp: r(3))
qed simp

lemma merge_members:
  assumes "p \<in> set (foldl (foldl keep_better) m bs)"
  shows "p \<in> set m \<or> (\<exists>b \<in> set bs. snd p \<in> set b)"
proof -
  have step: "p \<in> set (keep_better m h) \<Longrightarrow> p \<in> set m \<or> snd p = h" for p m h
    by (auto simp: keep_better_def dest!: dput_mem split: option.splits if_splits)
  have one: "p \<in> set (foldl keep_better m b) \<Longrightarrow> p \<in> set m \<or> snd p \<in> set b" for p m b
    by (induction b arbitrary: m) (auto dest: step)
  show ?thesis using assms by (induction bs arbitrary: m) (auto dest: one)
qed

lemma agent_turns_visible:
  assumes "agent_turns env ag pol q targets left turn st s = (s', Inr st')" "on_the_way env s0 s" "shown_ok env s0 ag st"
  shows "shown_ok env s0 ag st'"
  using assms
proof (induction left arbitrary: turn st s)
  case (Suc left)
  let ?xs = "pol q turn (as_observed st)"
  show ?case
  proof (cases "?xs = []")
    case False
    obtain s1 rs where r: "run_actions env ag ?xs s = (s1, rs)" by (cases "run_actions env ag ?xs s")
    from Suc.prems(1) False r obtain bs where bs: "map_result (\<lambda>r. r) rs = Inr bs"
      by (auto simp: Let_def split: sum.splits)
    note vis = run_actions_visible [OF r Suc.prems(2)]
    have ok: "shown_ok env s0 ag (take_turn ?xs bs st)"
      unfolding shown_ok_def
    proof
      fix p assume "p \<in> set (as_merged (take_turn ?xs bs st))"
      then consider "p \<in> set (as_merged st)" | b where "b \<in> set bs" "snd p \<in> set b"
        using merge_members [of p "as_merged st" bs] by auto
      then show "\<exists>x \<in> set (concat (as_turns (take_turn ?xs bs st))).
          visible_hit env s0 (ag_namespace ag) (ag_branch ag) (sx_filters x) None (snd p)"
      proof cases
        case 1
        with Suc.prems(3) show ?thesis by (fastforce simp: shown_ok_def)
      next
        case 2
        from map_result_mem [OF bs 2(1)] have "Inr b \<in> set rs" by auto
        with vis 2(2) show ?thesis by fastforce
      qed
    qed
    then have stopped: "shown_ok env s0 ag (take_turn ?xs bs st\<lparr>as_stop := w\<rparr>)" for w
      by (simp add: shown_ok_def)
    with Suc.prems(1) False r bs ok vis show ?thesis
      by (auto simp: Let_def split: if_splits intro: Suc.IH)
  qed (use Suc.prems in simp)
qed simp

text \<open>The agent searches without a principal, so every hit of an episode is what some action of
  one of its turns may see in the store as it was at the start: a live, active version that the
  filter admits, but whose access list nobody has asked.\<close>

theorem episode_hits_visible:
  assumes "ls_reach env s" "agent_run env ag pol q keys elapsed s = (s', Inr ep)" "h \<in> set (ep_hits ep)"
  shows "\<exists>x \<in> set (concat (ep_turns ep)). visible_hit env s (ag_namespace ag) (ag_branch ag) (sx_filters x) None h"
proof -
  let ?ts = "rev (remdups (rev keys))"
  from assms(2) obtain st where
    tr: "agent_turns env ag pol q ?ts (nat (ag_max_turns ag)) 0
      \<lparr>as_turns = [], as_merged = [], as_observed = [], as_calls = 0, as_tools = [], as_stop = ''turn_limit''\<rparr> s = (s', Inr st)"
    and ep: "ep = finish_episode ag q ?ts elapsed st"
    by (auto simp: agent_run_def Let_def split: if_splits prod.splits sum.splits)
  have "on_the_way env s s" using assms(1) by (simp add: on_the_way_def same_tables_def)
  from agent_turns_visible [OF tr this] have "shown_ok env s ag st" by (simp add: shown_ok_def)
  then show ?thesis
    using assms(3) by (auto simp: ep finish_episode_def Let_def ranked_hits_def best_first_def shown_ok_def)
qed

lemma merged_not_empty: "foldl keep_better [] (h # hs) \<noteq> []"
proof -
  have k: "keep_better m h \<noteq> []" for m h
    by (cases m) (auto simp: keep_better_def split: option.split)
  have "m \<noteq> [] \<Longrightarrow> foldl keep_better m hs \<noteq> []" for m hs
    by (induction hs arbitrary: m) (simp_all add: k)
  then show ?thesis using k by simp
qed

definition any_row :: search_action where
  "any_row = (bm25_action [] 5)\<lparr>sx_filters := JNull\<rparr>"

lemma demo_action_hits:
  fixes b
  defines "ag \<equiv> \<lparr>ag_namespace = ''default'', ag_branch = ''main'', ag_max_turns = 1, ag_parallelism = 1, ag_budget = b\<rparr>"
  shows "\<exists>s' h hs. search demo_env demo_state (action_args ag any_row) = (s', Inr (h # hs))"
proof -
  let ?a = "action_args ag any_row"
  have a: "sa_namespace ?a = ''default''" "sa_branch ?a = ''main''" "sa_vector ?a = None" "sa_regex ?a = None"
    "sa_filters ?a = JNull" "sa_principal ?a = None" "sa_top_k ?a = 5" "tokens (sa_text ?a) = []"
    by (simp_all add: action_args_def any_row_def bm25_action_def ag_def tokens_def)
  obtain v where v: "namespace_metadata demo_state ''default'' = Inr v"
    using demo_parts(2) by (auto elim: is_okE)
  obtain s1 where "allowed_keys demo_env demo_state
      (filter_cache_key ''default'' ''main'' (nm_revision (nv_meta v)) JNull None) None JNull [(''a'', demo_item)] = (s1, Inr [''a''])"
    by (simp add: allowed_keys_def Let_def demo_parts(3) demo_admits(2))
  with search_lexical [of demo_state ?a "[(''a'', demo_item)]" v demo_env s1 "[''a'']"] v
  obtain hits where r: "search demo_env demo_state ?a = (fill_postings s1 ''default'' ''main'' [(''a'', demo_item)], Inr hits)"
    and k: "\<forall>k. k \<in> ht_key ` set hits \<longleftrightarrow> k \<in> set [''a''] \<and> k \<in> set (dkeys [(''a'', demo_item)])"
    unfolding a demo_parts(1) by auto
  from spec [OF k, of "''a''"] have "hits \<noteq> []" by auto
  with r show ?thesis by (cases hits) auto
qed

theorem episode_hits_visible_witness:
  "\<exists>s' ep h. agent_run demo_env \<lparr>ag_namespace = ''default'', ag_branch = ''main'', ag_max_turns = 1, ag_parallelism = 1, ag_budget = 5\<rparr>
       (\<lambda>_ _ _. [any_row]) ''fox'' [''k''] 1 demo_state = (s', Inr ep)
     \<and> h \<in> set (ep_hits ep) \<and> visible_hit demo_env demo_state ''default'' ''main'' JNull None h"
proof -
  let ?ag = "\<lparr>ag_namespace = ''default'', ag_branch = ''main'', ag_max_turns = 1, ag_parallelism = 1, ag_budget = 5 :: real\<rparr>"
  from demo_action_hits [of 5] obtain s' g hs where
    s: "search demo_env demo_state (action_args ?ag any_row) = (s', Inr (g # hs))" by blast
  define m where "m = foldl keep_better [] (g # hs)"
  have act: "run_action demo_env ?ag any_row demo_state = (s', Inr (g # hs))"
    by (simp add: run_action_def s) (simp add: any_row_def bm25_action_def)
  obtain ep where r: "agent_run demo_env ?ag (\<lambda>_ _ _. [any_row]) ''fox'' [''k''] 1 demo_state = (s', Inr ep)"
    and hits: "ep_hits ep = ranked_hits m" and turns: "ep_turns ep = [[any_row]]"
    by (cases "''k'' \<in> fst ` set (foldl keep_better (keep_better [] g) hs)")
      (simp_all add: agent_run_def Let_def act finish_episode_def m_def)
  have "dkeys m \<noteq> []" using merged_not_empty by (simp add: m_def)
  then have "ranked_hits m \<noteq> []" by (auto simp: ranked_hits_def best_first_def dest: arg_cong [where f = length])
  then obtain h where h: "h \<in> set (ep_hits ep)" by (cases "ranked_hits m") (auto simp: hits)
  from episode_hits_visible [OF demo_reach r h] r h show ?thesis
    by (auto simp: turns any_row_def)
qed

end
