(* ===== verification/Block_Postings.thy ===== *)
theory Block_Postings
  imports Prelude "HOL-Library.Word"
begin

unbundle bit_operations_syntax

text \<open>
  Posting lists (\<open>neural_pods/block_postings.py\<close>): sorted document ids as delta encoded bytes of
  variable length, in blocks of a fixed size per term, or in one block per term and cluster.

  A byte is an 8-bit word; document ids are Python integers, so \<open>d & 127\<close>, \<open>d >> 7\<close> and \<open><<\<close> are
  the operations on \<^typ>\<open>int\<close>. \<open>bytearray.append\<close> refuses a negative number with \<open>ValueError\<close>.
\<close>

type_synonym byte = "8 word"

section \<open>Variable length bytes\<close>

record posting_block =
  pb_first :: int
  pb_last :: int
  pb_values :: "byte list"
  pb_count :: nat

text \<open>The inner loop of \<open>_enc\<close>: one delta, seven bits a byte, the last byte below 128.\<close>

function varint :: "int \<Rightarrow> byte list result" where
  "varint d =
     (if d \<ge> 128 then
        (case varint (drop_bit 7 d) of
           Inl e \<Rightarrow> Inl e
         | Inr bs \<Rightarrow> Inr (word_of_int ((d AND 127) OR 128) # bs))
      else if d < 0 then Inl ValueError
      else Inr [word_of_int d])"
  by auto
termination by (relation "measure nat") (auto simp: drop_bit_eq_div)

declare varint.simps [simp del]

fun enc_from :: "int \<Rightarrow> int list \<Rightarrow> byte list result" where
  "enc_from prev [] = Inr []"
| "enc_from prev (v # vs) =
     (case varint (v - prev) of
        Inl e \<Rightarrow> Inl e
      | Inr bs \<Rightarrow> (case enc_from v vs of Inl e \<Rightarrow> Inl e | Inr ys \<Rightarrow> Inr (bs @ ys)))"

definition postings_enc :: "int list \<Rightarrow> byte list result" where
  "postings_enc vals = enc_from 0 vals"

text \<open>\<open>_dec\<close>: the values so far, the bits of the current one and how many of them there are.\<close>

definition dec_byte :: "int list \<times> int \<times> nat \<Rightarrow> byte \<Rightarrow> int list \<times> int \<times> nat" where
  "dec_byte st b =
     (case st of (vals, cur, shift) \<Rightarrow>
        let cur = cur OR push_bit shift (uint (b AND 127))
        in if b < 128 then (vals @ [if vals = [] then cur else last vals + cur], 0, 0)
           else (vals, cur, shift + 7))"

definition postings_dec :: "byte list \<Rightarrow> int list" where
  "postings_dec buf = fst (foldl dec_byte ([], 0, 0) buf)"

section \<open>Blocks of a term\<close>

record block_postings =
  bp_size :: int
  bp_blocks :: "(string, posting_block list) dict"

definition new_postings :: "int \<Rightarrow> block_postings result" where
  "new_postings n = (if n < 32 then Inl ValueError else Inr \<lparr>bp_size = n, bp_blocks = []\<rparr>)"

text \<open>\<open>sorted(set(...))\<close>, and the slices of \<open>block_size\<close> values.\<close>

definition ascending :: "int list \<Rightarrow> int list" where
  "ascending xs = sort (remdups xs)"

function slices :: "nat \<Rightarrow> int list \<Rightarrow> int list list" where
  "slices n xs = (if n = 0 \<or> xs = [] then [] else take n xs # slices n (drop n xs))"
  by auto
termination by (relation "measure (\<lambda>(n, xs). length xs)") auto

declare slices.simps [simp del]

definition block_of :: "int list \<Rightarrow> posting_block result" where
  "block_of v =
     (case postings_enc v of
        Inl e \<Rightarrow> Inl e
      | Inr bs \<Rightarrow> Inr \<lparr>pb_first = hd v, pb_last = last v, pb_values = bs, pb_count = length v\<rparr>)"

definition bp_add :: "string \<Rightarrow> int list \<Rightarrow> block_postings \<Rightarrow> block_postings result" where
  "bp_add term ids p =
     (case map_result block_of (slices (nat (bp_size p)) (ascending ids)) of
        Inl e \<Rightarrow> Inl e
      | Inr blocks \<Rightarrow> Inr (p\<lparr>bp_blocks := dput term blocks (bp_blocks p)\<rparr>))"

definition bp_union :: "string list \<Rightarrow> block_postings \<Rightarrow> int list" where
  "bp_union terms p =
     ascending (concat (map (\<lambda>t. concat (map (\<lambda>b. postings_dec (pb_values b)) (dget_or (bp_blocks p) t []))) terms))"

record posting_stats =
  ps_terms :: nat
  ps_blocks :: nat
  ps_postings :: nat
  ps_raw :: nat
  ps_packed :: nat
  ps_ratio :: real

definition stats_of :: "nat \<Rightarrow> posting_block list \<Rightarrow> posting_stats" where
  "stats_of terms blocks =
     (let raw = sum_list (map (\<lambda>b. pb_count b * 8) blocks);
          packed = sum_list (map (\<lambda>b. length (pb_values b)) blocks)
      in \<lparr>ps_terms = terms, ps_blocks = length blocks, ps_postings = sum_list (map pb_count blocks),
          ps_raw = raw, ps_packed = packed, ps_ratio = (if packed = 0 then 1 else real raw / real packed)\<rparr>)"

definition bp_stats :: "block_postings \<Rightarrow> posting_stats" where
  "bp_stats p = stats_of (length (bp_blocks p)) (concat (map snd (bp_blocks p)))"

section \<open>Blocks of a term and a cluster\<close>

text \<open>The ids of a cluster in the order of the call: the bounds of the block are read from it.\<close>

type_synonym cluster_postings = "(string, (int, posting_block) dict) dict"

definition cp_put :: "(int, int list) dict \<Rightarrow> int \<times> int \<Rightarrow> (int, int list) dict" where
  "cp_put parts cd = dput (fst cd) (dget_or parts (fst cd) [] @ [snd cd]) parts"

definition cluster_block :: "int \<times> int list \<Rightarrow> (int \<times> posting_block) result" where
  "cluster_block part =
     (case part of (c, v) \<Rightarrow>
        case postings_enc (ascending v) of
          Inl e \<Rightarrow> Inl e
        | Inr bs \<Rightarrow> Inr (c, \<lparr>pb_first = hd v, pb_last = last v, pb_values = bs, pb_count = length (remdups v)\<rparr>))"

definition cp_add :: "string \<Rightarrow> int list \<Rightarrow> int list \<Rightarrow> cluster_postings \<Rightarrow> cluster_postings result" where
  "cp_add term cluster_ids doc_ids p =
     (case map_result cluster_block (foldl cp_put [] (zip cluster_ids doc_ids)) of
        Inl e \<Rightarrow> Inl e
      | Inr parts \<Rightarrow> Inr (dput term parts p))"

definition cp_union :: "string list \<Rightarrow> cluster_postings \<Rightarrow> int list" where
  "cp_union terms p =
     ascending (concat (map (\<lambda>t. concat (map (\<lambda>cb. postings_dec (pb_values (snd cb))) (dget_or p t []))) terms))"

definition cp_stats :: "cluster_postings \<Rightarrow> posting_stats" where
  "cp_stats p = stats_of (length p) (concat (map (\<lambda>tp. map snd (snd tp)) p))"

section \<open>What is encoded is decoded\<close>

text \<open>Adding bits above those that are there already.\<close>

lemma or_push_bit:
  fixes c x :: int
  assumes "0 \<le> c" "c < 2 ^ s"
  shows "c OR push_bit s x = c + x * 2 ^ s"
proof -
  have "take_bit s c = c" using assms by (simp add: take_bit_int_eq_self)
  then have "\<not> bit c n" if "s \<le> n" for n using that by (metis bit_take_bit_iff not_less)
  then have "c + push_bit s x = c OR push_bit s x"
    by (intro disjunctive_add) (auto simp: bit_push_bit_iff not_le)
  then show ?thesis by (simp add: push_bit_eq_mult)
qed

lemma low_bits:
  assumes "128 \<le> (d :: int)"
  shows "(d AND 127) OR 128 = d mod 128 + 128"
proof -
  have "d AND 127 = d mod 128" using take_bit_eq_mask [of 7 d] by (simp add: take_bit_eq_mod mask_eq_exp_minus_1)
  moreover have "d mod 128 OR push_bit 7 1 = d mod 128 + 1 * 2 ^ 7" by (rule or_push_bit) simp_all
  ultimately show ?thesis by (simp add: push_bit_eq_mult)
qed

lemma small_word: "0 \<le> n \<Longrightarrow> n < 256 \<Longrightarrow> uint (word_of_int n :: byte) = n"
  by (simp add: uint_word_of_int)

lemma word_low_bits: "uint ((b :: byte) AND 127) = uint b mod 128"
proof -
  have "uint (b AND 127) = uint b AND 127" by (simp add: uint_and)
  then show ?thesis using take_bit_eq_mask [of 7 "uint b"] by (simp add: take_bit_eq_mod mask_eq_exp_minus_1)
qed

lemma dec_last_byte:
  assumes "0 \<le> d" "d < 128" "0 \<le> c" "c < 2 ^ s"
  shows "dec_byte (vals, c, s) (word_of_int d) = (vals @ [if vals = [] then c + d * 2 ^ s else last vals + (c + d * 2 ^ s)], 0, 0)"
proof -
  have u: "uint (word_of_int d :: byte) = d" using assms by (intro small_word) auto
  then have "(word_of_int d :: byte) < 128" using assms by (simp add: word_less_def)
  then show ?thesis using assms by (simp add: dec_byte_def word_low_bits u or_push_bit)
qed

lemma dec_more_byte:
  assumes "128 \<le> d" "0 \<le> c" "c < 2 ^ s"
  shows "dec_byte (vals, c, s) (word_of_int ((d AND 127) OR 128)) = (vals, c + d mod 128 * 2 ^ s, s + 7)"
proof -
  have m: "0 \<le> d mod 128" "d mod 128 < 128" by simp_all
  then have u: "uint (word_of_int (d mod 128 + 128) :: byte) = d mod 128 + 128" by (intro small_word) auto
  have "dec_byte (vals, c, s) w = (vals, c + d mod 128 * 2 ^ s, s + 7)" if w: "uint w = d mod 128 + 128" for w
  proof -
    have "\<not> w < 128" using m w by (simp add: word_less_def)
    moreover have "uint (w AND 127) = d mod 128" by (simp add: word_low_bits w)
    ultimately show ?thesis using assms by (simp add: dec_byte_def or_push_bit)
  qed
  from this [OF u] show ?thesis unfolding low_bits [OF assms(1)] .
qed

lemma dec_varint:
  assumes "varint d = Inr bs" "0 \<le> c" "c < 2 ^ s"
  shows "foldl dec_byte (vals, c, s) bs
     = (vals @ [if vals = [] then c + d * 2 ^ s else last vals + (c + d * 2 ^ s)], 0, 0)"
  using assms
proof (induction d arbitrary: bs c s rule: varint.induct)
  case (1 d)
  show ?case
  proof (cases "128 \<le> d")
    case True
    with 1(2) obtain ys where ys: "varint (drop_bit 7 d) = Inr ys"
      and bs: "bs = word_of_int ((d AND 127) OR 128) # ys"
      by (auto simp: varint.simps [of d] split: sum.splits)
    have "d mod 128 * 2 ^ s \<le> 127 * 2 ^ s" "(2 :: int) ^ (s + 7) = 128 * 2 ^ s"
      by (auto intro: mult_right_mono simp: power_add)
    with 1(4) have "c + d mod 128 * 2 ^ s < 2 ^ (s + 7)" by linarith
    from 1(1) [OF True ys _ this] have
      "foldl dec_byte (vals, c + d mod 128 * 2 ^ s, s + 7) ys
       = (vals @ [if vals = [] then c + d mod 128 * 2 ^ s + drop_bit 7 d * 2 ^ (s + 7)
                  else last vals + (c + d mod 128 * 2 ^ s + drop_bit 7 d * 2 ^ (s + 7))], 0, 0)"
      using 1(3) by simp
    moreover have "d mod 128 * 2 ^ s + drop_bit 7 d * 2 ^ (s + 7) = d * 2 ^ s"
    proof -
      have "d * 2 ^ s = (d mod 128 + d div 128 * 128) * 2 ^ s" by simp
      also have "\<dots> = d mod 128 * 2 ^ s + d div 128 * 128 * 2 ^ s" by (rule distrib_right)
      finally show ?thesis by (simp add: drop_bit_eq_div power_add mult.assoc mult.left_commute)
    qed
    ultimately show ?thesis using True 1(3,4) by (simp add: bs dec_more_byte add.assoc)
  next
    case False
    with 1(2) have "0 \<le> d" "bs = [word_of_int d]" by (auto simp: varint.simps [of d] split: if_splits)
    with False 1(3,4) show ?thesis by (simp add: dec_last_byte)
  qed
qed

lemma varint_ok: "is_ok (varint d) \<longleftrightarrow> 0 \<le> d"
proof (induction d rule: varint.induct)
  case (1 d)
  show ?case
  proof (cases "128 \<le> d")
    case True
    then show ?thesis using 1 [OF True] by (auto simp: varint.simps [of d] split: sum.splits)
  qed (simp add: varint.simps [of d])
qed

lemma enc_from_dec:
  assumes "enc_from prev vs = Inr bs" "vals = [] \<longrightarrow> prev = 0" "vals \<noteq> [] \<longrightarrow> last vals = prev"
  shows "foldl dec_byte (vals, 0, 0) bs = (vals @ vs, 0, 0)"
  using assms
proof (induction vs arbitrary: prev bs vals)
  case (Cons v vs)
  then obtain b1 b2 where b: "varint (v - prev) = Inr b1" "enc_from v vs = Inr b2" "bs = b1 @ b2"
    by (auto split: sum.splits)
  have "foldl dec_byte (vals, 0, 0) b1 = (vals @ [v], 0, 0)"
    using dec_varint [OF b(1), of 0 0 vals] Cons.prems(2,3) by auto
  then show ?case using Cons.IH [OF b(2), of "vals @ [v]"] by (simp add: b(3))
qed simp

lemma dec_enc: "postings_enc vs = Inr bs \<Longrightarrow> postings_dec bs = vs"
  using enc_from_dec [of 0 vs bs "[]"] by (simp add: postings_enc_def postings_dec_def)

lemma enc_ok: "is_ok (enc_from prev vs) \<longleftrightarrow> sorted (prev # vs)"
proof (induction vs arbitrary: prev)
  case (Cons v vs)
  show ?case using varint_ok [of "v - prev"] Cons.IH [of v]
    by (cases "varint (v - prev)"; cases "enc_from v vs") (auto simp: order_trans)
qed simp

lemma varint_error: "varint d = Inl e \<Longrightarrow> e = ValueError"
  by (induction d rule: varint.induct) (subst (asm) (2) varint.simps, auto split: if_splits sum.splits)

lemma enc_error: "enc_from prev vs = Inl e \<Longrightarrow> e = ValueError"
  by (induction vs arbitrary: prev) (auto split: sum.splits dest: varint_error)

text \<open>C28. The byte encoding of postings loses nothing: exactly the ascending lists of ids that are not
  negative (repetitions included) are encoded, and decoding the bytes gives the list back, whatever the size of
  the ids; every other list, one with a negative or an unsorted id, is refused with \<open>ValueError\<close>.\<close>

theorem postings_round_trip:
  "(if sorted (0 # vs) then \<exists>bs. postings_enc vs = Inr bs \<and> postings_dec bs = vs else postings_enc vs = Inl ValueError)"
  using enc_ok [of 0 vs] dec_enc [of vs] enc_error [of 0 vs] by (cases "postings_enc vs") (auto simp: postings_enc_def)

theorem postings_round_trip_witness:
  "(\<exists>bs. postings_enc [3, 300, 70000] = Inr bs \<and> postings_dec bs = [3, 300, 70000])
   \<and> postings_enc [3, 2] = Inl ValueError \<and> postings_enc [-1] = Inl ValueError"
  using postings_round_trip [of "[3, 300, 70000]"] postings_round_trip [of "[3, 2]"] postings_round_trip [of "[-1]"] by simp

section \<open>The index refines a map from terms to sets of ids\<close>

definition ids_of :: "block_postings \<Rightarrow> string \<Rightarrow> int set" where
  "ids_of p t = {v. \<exists>b \<in> set (dget_or (bp_blocks p) t []). v \<in> set (postings_dec (pb_values b))}"

definition cluster_ids_of :: "cluster_postings \<Rightarrow> string \<Rightarrow> int set" where
  "cluster_ids_of p t = {v. \<exists>cb \<in> set (dget_or p t []). v \<in> set (postings_dec (pb_values (snd cb)))}"

lemma ascending_spec [simp]: "set (ascending xs) = set xs" "sorted (ascending xs)" "distinct (ascending xs)"
  by (simp_all add: ascending_def)

lemma ascending_eq: "set xs = A \<Longrightarrow> ascending xs = sorted_list_of_set A"
  by (metis ascending_def sorted_list_of_set_sort_remdups)

lemma union_eq: "bp_union ts p = sorted_list_of_set (\<Union>t \<in> set ts. ids_of p t)"
  unfolding bp_union_def by (rule ascending_eq) (auto simp: ids_of_def)

lemma cluster_union_eq: "cp_union ts p = sorted_list_of_set (\<Union>t \<in> set ts. cluster_ids_of p t)"
  unfolding cp_union_def by (rule ascending_eq) (force simp: cluster_ids_of_def)

lemma slices_concat: "0 < n \<Longrightarrow> concat (slices n xs) = xs"
proof (induction n xs rule: slices.induct)
  case (1 n xs)
  then show ?case by (cases "xs = []") (simp_all add: slices.simps [of n xs] slices.simps [of n "[]"])
qed

lemma slices_size: "0 < n \<Longrightarrow> ys \<in> set (slices n xs) \<Longrightarrow> ys \<noteq> [] \<and> length ys \<le> n"
proof (induction n xs rule: slices.induct)
  case (1 n xs)
  then show ?case by (cases "xs = []") (auto simp: slices.simps [of n xs] slices.simps [of n "[]"])
qed

lemma block_of_spec:
  "block_of v = Inr b \<Longrightarrow> postings_dec (pb_values b) = v \<and> pb_first b = hd v \<and> pb_last b = last v \<and> pb_count b = length v"
  by (auto simp: block_of_def dec_enc split: sum.splits)

lemma block_of_ok: "is_ok (block_of v) \<longleftrightarrow> sorted (0 # v)"
  using enc_ok [of 0 v] by (auto simp: block_of_def postings_enc_def split: sum.splits)

lemma blocks_decode:
  "map_result block_of vs = Inr bs \<Longrightarrow> map (\<lambda>b. postings_dec (pb_values b)) bs = vs"
  by (induction vs arbitrary: bs) (auto simp: block_of_spec split: sum.splits)

lemma map_result_ok: "is_ok (map_result f xs) \<longleftrightarrow> (\<forall>x \<in> set xs. is_ok (f x))"
  by (induction xs) (auto split: sum.splits)

lemma sorted_pieces:
  assumes "sorted (concat vss)" "ys \<in> set vss"
  shows "sorted ys"
  using assms by (induction vss) (auto simp: sorted_append)

lemma sorted_ends:
  assumes "sorted ys" "ys \<noteq> []"
  shows "hd ys = Min (set ys)" "last ys = Max (set (ys :: int list))"
proof -
  show "hd ys = Min (set ys)" using assms by (cases ys) (auto intro!: Min_eqI [symmetric])
  show "last ys = Max (set ys)"
    using assms by (cases ys rule: rev_cases) (auto simp: sorted_append intro!: Max_eqI [symmetric])
qed

lemma block_of_error: "block_of v = Inl e \<Longrightarrow> e = ValueError"
  by (auto simp: block_of_def postings_enc_def split: sum.splits dest: enc_error)

lemma blocks_error: "map_result block_of vs = Inl e \<Longrightarrow> e = ValueError"
  by (induction vs) (auto split: sum.splits dest: block_of_error)

lemma add_error: "bp_add term ids p = Inl e \<Longrightarrow> e = ValueError"
  by (auto simp: bp_add_def split: sum.splits dest: blocks_error)

lemma slices_distinct: "distinct (concat vss) \<Longrightarrow> ys \<in> set vss \<Longrightarrow> distinct ys"
  by (induction vss) auto

text \<open>C29. The posting index refines a map from terms to sets of ids. Adding a term replaces its set
  and touches no other term; it is refused exactly when an id is negative, with \<open>ValueError\<close>; the blocks of the
  term, decoded one after the other, are the ids in ascending order, each once; every block holds between one
  and \<open>block_size\<close> of them, itself strictly ascending, with the bounds and the count that it states; and a union
  lists the ids of its terms in ascending order, each once.\<close>

theorem postings_refine_sets:
  assumes "0 < bp_size p"
  shows "bp_union ts p = sorted_list_of_set (\<Union>t \<in> set ts. ids_of p t)
    \<and> (is_ok (bp_add term ids p) \<longleftrightarrow> (\<forall>v \<in> set ids. 0 \<le> v))
    \<and> (\<forall>e. bp_add term ids p = Inl e \<longrightarrow> e = ValueError)
    \<and> (\<forall>p'. bp_add term ids p = Inr p' \<longrightarrow>
         ids_of p' = (ids_of p)(term := set ids) \<and> bp_size p' = bp_size p
       \<and> concat (map (\<lambda>b. postings_dec (pb_values b)) (dget_or (bp_blocks p') term [])) = sorted_list_of_set (set ids)
       \<and> (\<forall>b \<in> set (dget_or (bp_blocks p') term []).
            let vs = postings_dec (pb_values b)
            in sorted vs \<and> distinct vs
               \<and> 0 < pb_count b \<and> int (pb_count b) \<le> bp_size p \<and> pb_count b = length vs
               \<and> pb_first b = Min (set vs) \<and> pb_last b = Max (set vs)))"
proof (intro conjI allI impI)
  let ?vss = "slices (nat (bp_size p)) (ascending ids)"
  have all: "concat ?vss = ascending ids" using assms by (simp add: slices_concat)
  show "bp_union ts p = sorted_list_of_set (\<Union>t \<in> set ts. ids_of p t)" by (rule union_eq)
  have pieces: "sorted ys" if "ys \<in> set ?vss" for ys using sorted_pieces [OF _ that] by (simp add: all)
  have members: "(\<forall>ys \<in> set ?vss. \<forall>v \<in> set ys. 0 \<le> v) \<longleftrightarrow> (\<forall>v \<in> set ids. 0 \<le> v)"
    using arg_cong [OF all, of set] by auto
  have "is_ok (bp_add term ids p) \<longleftrightarrow> is_ok (map_result block_of ?vss)"
    by (simp add: bp_add_def split: sum.split)
  also have "\<dots> \<longleftrightarrow> (\<forall>v \<in> set ids. 0 \<le> v)"
    using pieces members by (simp add: map_result_ok block_of_ok)
  finally show "is_ok (bp_add term ids p) \<longleftrightarrow> (\<forall>v \<in> set ids. 0 \<le> v)" .
  show "e = ValueError" if "bp_add term ids p = Inl e" for e using that by (rule add_error)
  fix p' assume "bp_add term ids p = Inr p'"
  then obtain bs where bs: "map_result block_of ?vss = Inr bs" and p': "p' = p\<lparr>bp_blocks := dput term bs (bp_blocks p)\<rparr>"
    by (auto simp: bp_add_def split: sum.splits)
  have "(\<Union>b \<in> set bs. set (postings_dec (pb_values b))) = set (concat ?vss)"
    by (simp flip: blocks_decode [OF bs])
  also have "\<dots> = set ids" by (simp only: all ascending_spec)
  finally have ids: "(\<Union>b \<in> set bs. set (postings_dec (pb_values b))) = set ids" .
  then show "ids_of p' = (ids_of p)(term := set ids)"
    by (auto simp: ids_of_def p' dict_simps fun_eq_iff)
  show "bp_size p' = bp_size p" by (simp add: p')
  show "concat (map (\<lambda>b. postings_dec (pb_values b)) (dget_or (bp_blocks p') term [])) = sorted_list_of_set (set ids)"
    using blocks_decode [OF bs] all ascending_eq [OF refl, of ids] by (simp add: p' dict_simps)
  show "\<forall>b \<in> set (dget_or (bp_blocks p') term []).
            let vs = postings_dec (pb_values b)
            in sorted vs \<and> distinct vs
               \<and> 0 < pb_count b \<and> int (pb_count b) \<le> bp_size p \<and> pb_count b = length vs
               \<and> pb_first b = Min (set vs) \<and> pb_last b = Max (set vs)"
  proof
    fix b assume "b \<in> set (dget_or (bp_blocks p') term [])"
    then have "b \<in> set bs" by (simp add: p' dict_simps)
    from map_result_mem [OF bs this] obtain ys where ys: "ys \<in> set ?vss" "block_of ys = Inr b" by blast
    note blk = block_of_spec [OF ys(2)]
    have size: "ys \<noteq> []" "length ys \<le> nat (bp_size p)" using slices_size [OF _ ys(1)] assms by auto
    have "hd ys = Min (set ys)" "last ys = Max (set ys)"
      using pieces [OF ys(1)] size(1) by (rule sorted_ends)+
    moreover have "distinct ys" using slices_distinct [OF _ ys(1)] by (simp add: all)
    ultimately show "let vs = postings_dec (pb_values b)
            in sorted vs \<and> distinct vs
               \<and> 0 < pb_count b \<and> int (pb_count b) \<le> bp_size p \<and> pb_count b = length vs
               \<and> pb_first b = Min (set vs) \<and> pb_last b = Max (set vs)"
      using assms blk size pieces [OF ys(1)] by (simp add: Let_def)
  qed
qed

theorem postings_refine_sets_witness:
  "\<exists>p. bp_add ''t'' [9, 5, 300, 5] \<lparr>bp_size = 32, bp_blocks = []\<rparr> = Inr p \<and> bp_union [''t''] p = [5, 9, 300]"
proof -
  note spec = postings_refine_sets [of "\<lparr>bp_size = 32, bp_blocks = []\<rparr>" _ "''t''" "[9, 5, 300, 5]"]
  obtain p where p: "bp_add ''t'' [9, 5, 300, 5] \<lparr>bp_size = 32, bp_blocks = []\<rparr> = Inr p"
    using spec by (cases "bp_add ''t'' [9, 5, 300, 5] \<lparr>bp_size = 32, bp_blocks = []\<rparr>") auto
  with spec have "ids_of p ''t'' = {9, 5, 300}" "bp_size p = 32" by auto
  then have "bp_union [''t''] p = sorted_list_of_set {9, 5, 300}"
    using postings_refine_sets [of p "[''t'']"] by simp
  also have "\<dots> = [5, 9, 300]" by (simp add: sorted_list_of_set_insert_remove)
  finally show ?thesis using p by simp
qed

section \<open>Postings by cluster\<close>

lemma cp_put_parts:
  "set (dget_or (foldl cp_put parts cds) c []) = set (dget_or parts c []) \<union> {d. (c, d) \<in> set cds}"
  by (induction cds arbitrary: parts) (auto simp: cp_put_def dict_simps)

lemma cp_put_wf: "wf_dict parts \<Longrightarrow> wf_dict (foldl cp_put parts cds)"
  by (induction cds arbitrary: parts) (simp_all add: cp_put_def)

lemma cp_put_values:
  assumes "wf_dict parts"
  shows "(\<exists>c. d \<in> set (dget_or parts c [])) \<longleftrightarrow> (\<exists>part \<in> set parts. d \<in> set (snd part))"
proof
  assume "\<exists>c. d \<in> set (dget_or parts c [])"
  then obtain c where "d \<in> set (dget_or parts c [])" ..
  then show "\<exists>part \<in> set parts. d \<in> set (snd part)"
    by (cases "dget parts c") (force simp: dget_or_def dest: map_of_SomeD)+
next
  assume "\<exists>part \<in> set parts. d \<in> set (snd part)"
  then obtain c v where "(c, v) \<in> set parts" "d \<in> set v" by auto
  with assms have "dget_or parts c [] = v" by (simp add: wf_dict_def dget_or_def)
  with \<open>d \<in> set v\<close> show "\<exists>c. d \<in> set (dget_or parts c [])" by blast
qed

text \<open>The clustered index also refines a map from terms to sets of ids: adding a term makes its
  set that of the ids that were paired with a cluster, the longer of the two argument lists being
  cut, whatever the clusters are, and touches no other term.\<close>

theorem cluster_postings_refine_sets:
  assumes "cp_add term cs ds p = Inr p'"
  shows "cluster_ids_of p' = (cluster_ids_of p)(term := set (take (length cs) ds))
    \<and> cp_union ts p' = sorted_list_of_set (\<Union>t \<in> set ts. cluster_ids_of p' t)"
proof -
  let ?parts = "foldl cp_put [] (zip cs ds)"
  from assms obtain bs where bs: "map_result cluster_block ?parts = Inr bs" and p': "p' = dput term bs p"
    by (auto simp: cp_add_def split: sum.splits)
  have "(\<Union>cb \<in> set bs. set (postings_dec (pb_values (snd cb)))) = (\<Union>part \<in> set ?parts. set (snd part))"
    using map_result_Inr [OF bs]
  proof (induction rule: list_all2_induct)
    case (Cons part parts cb cbs)
    then have "set (postings_dec (pb_values (snd cb))) = set (snd part)"
      by (auto simp: cluster_block_def dec_enc split: prod.splits sum.splits)
    with Cons show ?case by simp
  qed simp
  also have "\<dots> = {d. \<exists>c. d \<in> set (dget_or ?parts c [])}"
    using cp_put_values [OF cp_put_wf [of "[]" "zip cs ds"]] by auto
  also have "\<dots> = set (map snd (zip cs ds))"
  proof -
    have "set (dget_or ?parts c []) = {d. (c, d) \<in> set (zip cs ds)}" for c
      by (simp add: cp_put_parts) (simp add: dget_or_def)
    then show ?thesis by force
  qed
  also have "\<dots> = set (take (length cs) ds)" by (simp add: map_snd_zip_take min_def)
  finally have "(\<Union>cb \<in> set bs. set (postings_dec (pb_values (snd cb)))) = set (take (length cs) ds)" .
  moreover have "cluster_ids_of p' = (cluster_ids_of p)(term := \<Union>cb \<in> set bs. set (postings_dec (pb_values (snd cb))))"
    by (intro ext) (simp add: cluster_ids_of_def p' dget_or_put UNION_eq)
  ultimately have "cluster_ids_of p' = (cluster_ids_of p)(term := set (take (length cs) ds))" by simp
  then show ?thesis by (simp add: cluster_union_eq)
qed

theorem cluster_postings_refine_sets_witness:
  "\<exists>p. cp_add ''t'' [1, 2, 1] [7, 9, 4] [] = Inr p \<and> cluster_ids_of p ''t'' = {4, 7, 9}"
proof -
  have "is_ok (cp_add ''t'' [1, 2, 1] [7, 9, 4] [])" by code_simp
  then obtain p where p: "cp_add ''t'' [1, 2, 1] [7, 9, 4] [] = Inr p" by (rule is_okE)
  with cluster_postings_refine_sets [OF p] show ?thesis by auto
qed

text \<open>The stated bounds of such a block follow the order of the call.\<close>

lemma cluster_block_bounds_follow_call:
  "cp_add ''t'' [1, 1] [7, 4] [] = Inr [(''t'', [(1, \<lparr>pb_first = 7, pb_last = 4, pb_values = [4, 3], pb_count = 2\<rparr>)])]"
  by code_simp

end
