(* ===== verification/Raft_Frames.thy ===== *)
theory Raft_Frames
  imports Block_Postings
begin

text \<open>
  Peer transport (\<open>neural_pods/raft_transport.py\<close>): frames of a header, the digest of the manifest
  and a payload, the client that keeps its connections and retries, and the server's reading loop.

  A frame is a list of bytes, the header \<open>"!4sIQ"\<close> is written out: a magic of four bytes and two
  unsigned integers in network order, of four and eight bytes. What the network does with an attempt
  is an argument. TLS, threads and timeouts are outside; the peer certificate that the server asks
  for is not modelled. \<open>struct.error\<close> is an \<open>OtherError\<close>.
\<close>

section \<open>Frames\<close>

definition magic :: "byte list" where
  "magic = [78, 80, 82, 49]"

definition header_size :: nat where
  "header_size = 16"

text \<open>\<open>k\<close> bytes of an unsigned integer, the most significant first, and back.\<close>

fun be_bytes :: "nat \<Rightarrow> nat \<Rightarrow> byte list" where
  "be_bytes 0 n = []"
| "be_bytes (Suc k) n = be_bytes k (n div 256) @ [word_of_nat (n mod 256)]"

definition be_value :: "byte list \<Rightarrow> nat" where
  "be_value bs = foldl (\<lambda>n b. n * 256 + unat b) 0 bs"

definition pack_uint :: "nat \<Rightarrow> int \<Rightarrow> byte list result" where
  "pack_uint k n = (if 0 \<le> n \<and> n < 256 ^ k then Inr (be_bytes k (nat n)) else Inl (OtherError ''struct.error''))"

text \<open>\<open>s.encode("ascii")\<close> and \<open>b.decode("ascii", errors="ignore")\<close>.\<close>

definition ascii_encode :: "string \<Rightarrow> byte list result" where
  "ascii_encode s = (if \<forall>c \<in> set s. of_char c < (128 :: nat) then Inr (map of_char s) else Inl ValueError)"

definition ascii_ignore :: "byte list \<Rightarrow> string" where
  "ascii_ignore bs = map (\<lambda>b. char_of (unat b)) (filter (\<lambda>b. b < 128) bs)"

definition encode_raft_frame :: "byte list \<Rightarrow> string \<Rightarrow> int \<Rightarrow> nat \<Rightarrow> byte list result" where
  "encode_raft_frame payload manifest_hash sequence max_bytes =
     (case ascii_encode manifest_hash of
        Inl e \<Rightarrow> Inl e
      | Inr digest \<Rightarrow>
          if length digest \<noteq> 64 then Inl ValueError
          else
            let body = digest @ payload
            in if length body > max_bytes then Inl ValueError
               else case pack_uint 4 (int (length body)) of
                 Inl e \<Rightarrow> Inl e
               | Inr size_bytes \<Rightarrow>
                   (case pack_uint 8 sequence of
                      Inl e \<Rightarrow> Inl e
                    | Inr seq_bytes \<Rightarrow> Inr (magic @ size_bytes @ seq_bytes @ body)))"

text \<open>\<open>_HEADER.unpack\<close>: magic, size of the body and sequence number.\<close>

definition unpack_header :: "byte list \<Rightarrow> byte list \<times> nat \<times> nat" where
  "unpack_header h = (take 4 h, be_value (take 4 (drop 4 h)), be_value (take 8 (drop 8 h)))"

definition decode_raft_frame :: "byte list \<Rightarrow> string \<Rightarrow> nat \<Rightarrow> (nat \<times> byte list) result" where
  "decode_raft_frame frame expected_manifest max_bytes =
     (if length frame < header_size then Inl (OtherError ''RaftFrameError'')
      else case unpack_header (take header_size frame) of
        (mg, n, sequence) \<Rightarrow>
          if mg \<noteq> magic \<or> n > max_bytes \<or> length frame \<noteq> header_size + n then Inl (OtherError ''RaftFrameError'')
          else
            let body = drop header_size frame
            in if ascii_ignore (take 64 body) \<noteq> expected_manifest then Inl (OtherError ''RaftFrameError'')
               else Inr (sequence, drop 64 body))"

section \<open>The server\<close>

text \<open>
  \<open>_connection\<close> on all the bytes that arrive before the peer closes: the header, then as many bytes
  as it says, then the checks; the connection ends at the first frame that is cut or refused. The
  result is what the callback is given.
\<close>

function read_frames :: "string \<Rightarrow> nat \<Rightarrow> byte list \<Rightarrow> (nat \<times> byte list) list" where
  "read_frames manifest max_bytes bs =
     (if length bs < header_size then []
      else case unpack_header (take header_size bs) of
        (_, n, _) \<Rightarrow>
          if length bs < header_size + n then []
          else case decode_raft_frame (take (header_size + n) bs) manifest max_bytes of
            Inl _ \<Rightarrow> []
          | Inr x \<Rightarrow> x # read_frames manifest max_bytes (drop (header_size + n) bs))"
  by pat_completeness auto
termination by (relation "measure (\<lambda>(m, k, bs). length bs)") (auto simp: header_size_def)

declare read_frames.simps [simp del]

section \<open>The client\<close>

text \<open>
  What happens to one attempt: the connection is refused, \<open>sendall\<close> raises after the kernel took some bytes of
  the frame, or it returns, the kernel having taken all of them. That says nothing of what the peer receives: bytes
  that were taken may still be lost when the connection breaks, always from some byte on (below). A connection that
  is kept is not opened again, so \<open>Refused\<close> then stands for a send that fails before its first byte.
\<close>

datatype attempt = Refused | Cut nat | Handed

record raft_client =
  rc_peers :: "nat list"
  rc_manifest :: string
  rc_max_retries :: int
  rc_max_bytes :: nat
  rc_sockets :: "(nat, nat) dict"
  rc_sequence :: nat
  rc_wires :: "byte list list"

definition new_client :: "nat list \<Rightarrow> string \<Rightarrow> int \<Rightarrow> nat \<Rightarrow> raft_client result" where
  "new_client peers manifest retries max_bytes =
     (if retries < 0 then Inl ValueError
      else Inr \<lparr>rc_peers = peers, rc_manifest = manifest, rc_max_retries = retries, rc_max_bytes = max_bytes,
                rc_sockets = [], rc_sequence = 0, rc_wires = []\<rparr>)"

text \<open>\<open>rc_wires\<close> holds, for each connection ever opened, the bytes that the kernel took; its peer receives
  some first part of them.\<close>

definition rc_connect :: "nat \<Rightarrow> raft_client \<Rightarrow> raft_client" where
  "rc_connect peer c =
     (case dget (rc_sockets c) peer of
        Some _ \<Rightarrow> c
      | None \<Rightarrow> c\<lparr>rc_sockets := dput peer (length (rc_wires c)) (rc_sockets c), rc_wires := rc_wires c @ [[]]\<rparr>)"

definition rc_put :: "nat \<Rightarrow> byte list \<Rightarrow> raft_client \<Rightarrow> raft_client" where
  "rc_put peer bs c =
     (case dget (rc_sockets c) peer of
        None \<Rightarrow> c
      | Some i \<Rightarrow> c\<lparr>rc_wires := (rc_wires c)[i := rc_wires c ! i @ bs]\<rparr>)"

definition rc_drop :: "nat \<Rightarrow> raft_client \<Rightarrow> raft_client" where
  "rc_drop peer c = c\<lparr>rc_sockets := dpop peer (rc_sockets c)\<rparr>"

text \<open>The attempts that are left; one that the argument does not mention is refused.\<close>

fun rc_attempts :: "nat \<Rightarrow> byte list \<Rightarrow> nat \<Rightarrow> attempt list \<Rightarrow> raft_client \<Rightarrow> raft_client \<times> bool" where
  "rc_attempts peer frame 0 as c = (c, False)"
| "rc_attempts peer frame (Suc n) [] c = rc_attempts peer frame n [] (rc_drop peer c)"
| "rc_attempts peer frame (Suc n) (a # as) c =
     (case a of
        Refused \<Rightarrow> rc_attempts peer frame n as (rc_drop peer c)
      | Cut k \<Rightarrow> rc_attempts peer frame n as (rc_drop peer (rc_put peer (take k frame) (rc_connect peer c)))
      | Handed \<Rightarrow> (rc_put peer frame (rc_connect peer c), True))"

definition rc_send :: "nat \<Rightarrow> byte list \<Rightarrow> attempt list \<Rightarrow> raft_client \<Rightarrow> raft_client \<times> nat result" where
  "rc_send peer payload as c =
     (let c1 = c\<lparr>rc_sequence := rc_sequence c + 1\<rparr>
      in case encode_raft_frame payload (rc_manifest c1) (int (rc_sequence c1)) (rc_max_bytes c1) of
           Inl e \<Rightarrow> (c1, Inl e)
         | Inr frame \<Rightarrow>
             if dget (rc_sockets c1) peer = None \<and> peer \<notin> set (rc_peers c1) then (c1, Inl KeyError)
             else case rc_attempts peer frame (nat (rc_max_retries c1 + 1)) as c1 of
               (c2, ok) \<Rightarrow> (c2, if ok then Inr (rc_sequence c1) else Inl ConnectionError))"

definition rc_close :: "raft_client \<Rightarrow> raft_client" where
  "rc_close c = c\<lparr>rc_sockets := []\<rparr>"

section \<open>Headers and frames come back\<close>

lemma be_bytes_length [simp]: "length (be_bytes k n) = k"
  by (induction k arbitrary: n) simp_all

lemma be_value_snoc: "be_value (bs @ [b]) = be_value bs * 256 + unat b"
  by (simp add: be_value_def)

lemma unat_byte: "n < 256 \<Longrightarrow> unat (word_of_nat n :: byte) = n"
  by (simp add: unat_of_nat)

lemma be_round_trip: "n < 256 ^ k \<Longrightarrow> be_value (be_bytes k n) = n"
proof (induction k arbitrary: n)
  case (Suc k)
  then have "n div 256 < 256 ^ k" by (simp add: less_mult_imp_div_less mult.commute)
  from Suc.IH [OF this] show ?case by (simp add: be_value_snoc unat_byte)
qed (simp add: be_value_def)

lemma byte_less: "unat (b :: byte) < 256"
proof -
  have "unat b < 2 ^ LENGTH(8)" by (rule unsigned_less)
  then show ?thesis by simp
qed

lemma be_value_less: "be_value bs < 256 ^ length bs"
proof (induction bs rule: rev_induct)
  case (snoc b bs)
  have "unat b < 256" by (rule byte_less)
  with snoc show ?case by (simp add: be_value_snoc)
qed (simp add: be_value_def)

lemma be_bytes_value: "be_bytes (length bs) (be_value bs) = bs"
proof (induction bs rule: rev_induct)
  case (snoc b bs)
  have "unat b < 256" by (rule byte_less)
  with snoc show ?case by (simp add: be_value_snoc)
qed simp

lemma pack_uint_Inr: "pack_uint k n = Inr bs \<longleftrightarrow> 0 \<le> n \<and> n < 256 ^ k \<and> bs = be_bytes k (nat n)"
  by (auto simp: pack_uint_def)

lemma ascii_round_trip: "ascii_encode s = Inr bs \<Longrightarrow> ascii_ignore bs = s \<and> length bs = length s"
proof -
  assume "ascii_encode s = Inr bs"
  then have c: "\<forall>c \<in> set s. of_char c < (128 :: nat)" and bs: "bs = map of_char s"
    by (auto simp: ascii_encode_def split: if_splits)
  have one: "(of_char c :: byte) < 128 \<and> char_of (unat (of_char c :: byte)) = c" if "of_char c < (128 :: nat)" for c
  proof -
    have "unat (of_char c :: byte) = of_char c"
      using that unat_byte [of "of_char c"] by (simp only: of_nat_of_char)
    with that show ?thesis by (simp add: word_less_nat_alt)
  qed
  have "filter (\<lambda>b. b < 128) (map of_char s :: byte list) = map of_char s" using c one by (auto intro: filter_True)
  then have "ascii_ignore bs = map (\<lambda>c. char_of (unat (of_char c :: byte))) s" by (simp add: ascii_ignore_def bs)
  also have "\<dots> = s" using c one by (intro map_idI) auto
  finally show ?thesis by (simp add: bs)
qed

lemma encode_frame_iff:
  "encode_raft_frame payload m s k = Inr f \<longleftrightarrow>
     (\<exists>digest. ascii_encode m = Inr digest \<and> length digest = 64 \<and> 64 + length payload \<le> k
        \<and> 64 + length payload < 256 ^ 4 \<and> 0 \<le> s \<and> s < 256 ^ 8
        \<and> f = magic @ be_bytes 4 (64 + length payload) @ be_bytes 8 (nat s) @ digest @ payload)"
proof -
  have "nat (64 + int (length payload)) = 64 + length payload" by linarith
  then show ?thesis
    by (auto simp: encode_raft_frame_def Let_def pack_uint_Inr split: sum.splits)
      (auto simp: pack_uint_def split: if_splits)
qed

lemma frame_parts:
  assumes "length digest = 64" and f_def: "f = magic @ be_bytes 4 n @ be_bytes 8 s @ digest @ payload"
  shows "take header_size (f @ zs) = magic @ be_bytes 4 n @ be_bytes 8 s"
    and "drop header_size f = digest @ payload" "length f = header_size + 64 + length payload"
  using assms by (simp_all add: f_def header_size_def magic_def)

lemma unpack_packed:
  "n < 256 ^ 4 \<Longrightarrow> s < 256 ^ 8 \<Longrightarrow> unpack_header (magic @ be_bytes 4 n @ be_bytes 8 s) = (magic, n, s)"
  by (simp add: unpack_header_def magic_def be_round_trip)

lemma decode_encoded:
  assumes "encode_raft_frame payload m (int s) k = Inr f"
  shows "decode_raft_frame f m k = Inr (s, payload)"
proof -
  from assms obtain digest where d: "ascii_encode m = Inr digest" "length digest = 64"
    and len: "64 + length payload \<le> k" "64 + length payload < 256 ^ 4" "s < 256 ^ 8"
    and f: "f = magic @ be_bytes 4 (64 + length payload) @ be_bytes 8 s @ digest @ payload"
    unfolding encode_frame_iff by auto
  have h: "take header_size f = magic @ be_bytes 4 (64 + length payload) @ be_bytes 8 s"
    using frame_parts(1) [OF d(2) f, of "[]"] by simp
  show ?thesis
    using frame_parts(2,3) [OF d(2) f] ascii_round_trip [OF d(1)] len d(2)
    unfolding decode_raft_frame_def h
    by (simp add: unpack_packed)
qed

text \<open>The digest is compared as text with the bytes above 127 left out; none can hide in 64 of them.\<close>

lemma ascii_ignore_exact:
  assumes "ascii_ignore bs = m" "length bs \<le> length m" "ascii_encode m = Inr digest"
  shows "bs = digest"
proof -
  have "length (filter (\<lambda>b. b < 128) bs) = length bs"
    using assms(1,2) by (intro antisym length_filter_le) (auto simp: ascii_ignore_def)
  then have all: "\<forall>b \<in> set bs. b < 128" by (metis filter_id_conv length_filter_less less_irrefl)
  then have "m = map (\<lambda>b. char_of (unat b)) bs" using assms(1) by (auto simp: ascii_ignore_def filter_True)
  moreover have "(of_char (char_of (unat b)) :: byte) = b" if "b < 128" for b :: byte
  proof -
    have "unat b < 256" by (rule byte_less)
    then have "(of_char (char_of (unat b)) :: nat) = unat b" by simp
    then have "(of_char (char_of (unat b)) :: byte) = word_of_nat (unat b)" by (metis of_nat_of_char)
    then show ?thesis by simp
  qed
  ultimately have "map of_char m = bs" using all by (auto intro: map_idI)
  moreover have "digest = map of_char m" using assms(3) by (auto simp: ascii_encode_def split: if_splits)
  ultimately show ?thesis by simp
qed

lemma guard_Inr: "(if b then Inl e else r) = Inr x \<longleftrightarrow> \<not> b \<and> r = Inr x"
  by simp

lemma decoded_is_encoded:
  assumes dec: "decode_raft_frame f m k = Inr (s, payload)" and m: "ascii_encode m = Inr digest" "length m = 64"
  shows "encode_raft_frame payload m (int s) k = Inr f"
proof -
  define n where "n = be_value (take 4 (drop 4 f))"
  have h: "take 4 (take header_size f) = take 4 f" "take 4 (drop 4 (take header_size f)) = take 4 (drop 4 f)"
    "take 8 (drop 8 (take header_size f)) = take 8 (drop 8 f)"
    by (simp_all add: header_size_def take_drop)
  have f: "header_size \<le> length f" "take 4 f = magic" "n \<le> k" "length f = header_size + n"
    "ascii_ignore (take 64 (drop header_size f)) = m" "s = be_value (take 8 (drop 8 f))" "payload = drop 64 (drop header_size f)"
    using dec unfolding decode_raft_frame_def unpack_header_def h prod.case Let_def guard_Inr n_def [symmetric]
    by (simp_all only: de_Morgan_disj not_not not_less prod.inject sum.inject simp_thms)
  have d: "take 64 (drop header_size f) = digest" by (rule ascii_ignore_exact [OF f(5) _ m(1)]) (simp add: m(2))
  have ld: "length digest = 64" using ascii_round_trip [OF m(1)] m(2) by simp
  then have len: "n = 64 + length payload"
    using arg_cong [OF d, of length] f(4,7) by (auto simp: min_def split: if_splits)
  have b4: "be_bytes 4 n = take 4 (drop 4 f)" "n < 256 ^ 4"
    using be_bytes_value [of "take 4 (drop 4 f)"] be_value_less [of "take 4 (drop 4 f)"] f(1)
    by (simp_all add: n_def header_size_def)
  have b8: "be_bytes 8 s = take 8 (drop 8 f)" "s < 256 ^ 8"
    using be_bytes_value [of "take 8 (drop 8 f)"] be_value_less [of "take 8 (drop 8 f)"] f(1)
    by (simp_all add: f(6) header_size_def)
  have "f = take 4 f @ take 4 (drop 4 f) @ take 8 (drop 8 f) @ take 64 (drop 16 f) @ drop 64 (drop 16 f)"
    using append_take_drop_id [of 4 f] append_take_drop_id [of 4 "drop 4 f"] append_take_drop_id [of 8 "drop 8 f"]
      append_take_drop_id [of 64 "drop 16 f"] by simp
  also have "\<dots> = magic @ be_bytes 4 n @ be_bytes 8 s @ digest @ payload"
    using d f(2,7) by (simp add: b4(1) b8(1) header_size_def)
  finally show ?thesis
    unfolding encode_frame_iff using m(1) ld f(3) len b4(2) b8(2) by auto
qed

text \<open>C31. The frame decoder accepts exactly the encodings. For a manifest digest of 64 ASCII
  characters, a frame decodes to a sequence number and a payload if and only if encoding these
  gives the very same bytes: what is sent comes back, and no other bytes are ever taken for a
  frame of this manifest.\<close>

theorem frames_decode_iff_encoded:
  assumes "ascii_encode manifest = Inr digest" "length manifest = 64"
  shows "decode_raft_frame frame manifest max_bytes = Inr (s, payload)
     \<longleftrightarrow> encode_raft_frame payload manifest (int s) max_bytes = Inr frame"
  using decode_encoded decoded_is_encoded [OF _ assms] by blast

theorem frames_decode_iff_encoded_witness:
  "\<exists>f. encode_raft_frame [1, 2] (replicate 64 (CHR ''a'')) 7 100 = Inr f
     \<and> decode_raft_frame f (replicate 64 (CHR ''a'')) 100 = Inr (7, [1, 2])"
proof -
  have m: "is_ok (ascii_encode (replicate 64 (CHR ''a'')))" "length (replicate 64 (CHR ''a'')) = 64"
    "is_ok (encode_raft_frame [1, 2] (replicate 64 (CHR ''a'')) (int 7) 100)" by code_simp+
  from m(1) obtain d where d: "ascii_encode (replicate 64 (CHR ''a'')) = Inr d" by (rule is_okE)
  from m(3) obtain f where "encode_raft_frame [1, 2] (replicate 64 (CHR ''a'')) (int 7) 100 = Inr f" by (rule is_okE)
  with frames_decode_iff_encoded [OF d m(2), of f 100 7 "[1, 2]"] show ?thesis by auto
qed

section \<open>What the server is given\<close>

text \<open>A numbered payload that can be framed, and its frame.\<close>

definition framable :: "string \<Rightarrow> nat \<Rightarrow> nat \<times> byte list \<Rightarrow> bool" where
  "framable m k x = is_ok (encode_raft_frame (snd x) m (int (fst x)) k)"

definition frame_of :: "string \<Rightarrow> nat \<Rightarrow> nat \<times> byte list \<Rightarrow> byte list" where
  "frame_of m k x = (case encode_raft_frame (snd x) m (int (fst x)) k of Inl _ \<Rightarrow> [] | Inr f \<Rightarrow> f)"

lemma framable_encode: "framable m k x \<Longrightarrow> encode_raft_frame (snd x) m (int (fst x)) k = Inr (frame_of m k x)"
  by (auto simp: framable_def frame_of_def elim: is_okE)

text \<open>Frames one after the other, and a part of a further one.\<close>

definition wire_of :: "string \<Rightarrow> nat \<Rightarrow> (nat \<times> byte list) list \<Rightarrow> byte list \<Rightarrow> byte list \<Rightarrow> bool" where
  "wire_of m k xs part w =
     (w = concat (map (frame_of m k) xs) @ part \<and> (\<forall>x \<in> set xs. framable m k x)
    \<and> (part = [] \<or> (\<exists>x j. framable m k x \<and> j < length (frame_of m k x) \<and> part = take j (frame_of m k x))))"

lemma frame_shape:
  assumes "framable m k x"
  obtains n s where "length (frame_of m k x) = header_size + n"
    "\<And>zs. unpack_header (take header_size (frame_of m k x @ zs)) = (magic, n, s)"
proof -
  from framable_encode [OF assms] obtain digest where d: "length digest = 64"
    and len: "64 + length (snd x) < 256 ^ 4" "fst x < 256 ^ 8"
    and f: "frame_of m k x = magic @ be_bytes 4 (64 + length (snd x)) @ be_bytes 8 (fst x) @ digest @ snd x"
    unfolding encode_frame_iff by auto
  show thesis
    by (rule that) (use frame_parts(3) [OF d f] frame_parts(1) [OF d f] unpack_packed [OF len] in simp_all)
qed

lemma read_frame:
  assumes "framable m k x"
  shows "read_frames m k (frame_of m k x @ zs) = x # read_frames m k zs"
proof -
  obtain n s where sh: "length (frame_of m k x) = header_size + n"
    "\<And>zs. unpack_header (take header_size (frame_of m k x @ zs)) = (magic, n, s)"
    using frame_shape [OF assms] by metis
  have "decode_raft_frame (frame_of m k x) m k = Inr x"
    using decode_encoded [OF framable_encode [OF assms]] by simp
  with sh show ?thesis by (subst read_frames.simps) simp
qed

lemma read_cut_frame:
  assumes "framable m k x" "j < length (frame_of m k x)"
  shows "read_frames m k (take j (frame_of m k x)) = []"
proof (cases "j < header_size")
  case False
  obtain n s where sh: "length (frame_of m k x) = header_size + n"
    "\<And>zs. unpack_header (take header_size (frame_of m k x @ zs)) = (magic, n, s)"
    using frame_shape [OF assms(1)] by metis
  have "take header_size (take j (frame_of m k x)) = take header_size (frame_of m k x @ [])"
    using False by (simp add: min_def)
  with sh False assms(2) show ?thesis by (subst read_frames.simps) (simp add: min_def)
qed (use assms(2) in \<open>subst read_frames.simps, simp\<close>)

lemma read_wire: "wire_of m k xs part w \<Longrightarrow> read_frames m k w = xs"
proof (induction xs arbitrary: w)
  case Nil
  then show ?case using read_cut_frame by (auto simp: wire_of_def read_frames.simps [of m k "[]"] header_size_def)
next
  case (Cons x xs)
  then have x: "framable m k x" and w: "w = frame_of m k x @ (concat (map (frame_of m k) xs) @ part)"
    and rest: "wire_of m k xs part (concat (map (frame_of m k) xs) @ part)"
    by (auto simp: wire_of_def)
  show ?case unfolding w read_frame [OF x] using Cons.IH [OF rest] by simp
qed

section \<open>Client and server together\<close>

text \<open>
  What a client can come to: with the payloads it was asked to send, under the sequence numbers they
  were given, and the numbers of the sends that returned.
\<close>

inductive rc_reach :: "string \<Rightarrow> nat \<Rightarrow> raft_client \<Rightarrow> (nat \<Rightarrow> byte list option) \<Rightarrow> nat set \<Rightarrow> bool" for m k where
  rc_start: "new_client peers m retries k = Inr c \<Longrightarrow> rc_reach m k c Map.empty {}"
| rc_sent: "rc_reach m k c sent acked \<Longrightarrow> rc_send peer payload as c = (c', r)
    \<Longrightarrow> rc_reach m k c' (sent(rc_sequence c' \<mapsto> payload)) (case r of Inl _ \<Rightarrow> acked | Inr n \<Rightarrow> insert n acked)"
| rc_closed: "rc_reach m k c sent acked \<Longrightarrow> rc_reach m k (rc_close c) sent acked"

text \<open>
  The books of the client. A connection that is still open holds whole frames only, numbered below
  the next one; every connection holds frames of payloads that were sent, in ascending order.
\<close>

definition wire_ok :: "raft_client \<Rightarrow> (nat \<Rightarrow> byte list option) \<Rightarrow> nat \<Rightarrow> bool \<Rightarrow> byte list \<Rightarrow> bool" where
  "wire_ok c sent bnd opened w =
     (\<exists>xs part. wire_of (rc_manifest c) (rc_max_bytes c) xs part w
        \<and> sorted_wrt (<) (map fst xs) \<and> (\<forall>x \<in> set xs. sent (fst x) = Some (snd x) \<and> fst x \<le> rc_sequence c)
        \<and> (opened \<longrightarrow> part = [] \<and> (\<forall>x \<in> set xs. fst x < bnd)))"

definition client_ok :: "raft_client \<Rightarrow> (nat \<Rightarrow> byte list option) \<Rightarrow> nat \<Rightarrow> bool" where
  "client_ok c sent bnd =
     (wf_dict (rc_sockets c) \<and> distinct (map snd (rc_sockets c)) \<and> (\<forall>i \<in> snd ` set (rc_sockets c). i < length (rc_wires c))
    \<and> (\<forall>i < length (rc_wires c). wire_ok c sent bnd (i \<in> snd ` set (rc_sockets c)) (rc_wires c ! i)))"

lemma client_okD:
  assumes "client_ok c sent n"
  shows "wf_dict (rc_sockets c)" "distinct (map snd (rc_sockets c))"
    and "i \<in> snd ` set (rc_sockets c) \<Longrightarrow> i < length (rc_wires c)"
    and "i < length (rc_wires c) \<Longrightarrow> wire_ok c sent n (i \<in> snd ` set (rc_sockets c)) (rc_wires c ! i)"
  using assms by (auto simp: client_ok_def)

lemma wire_ok_shut: "wire_ok c sent n b w \<Longrightarrow> (b' \<longrightarrow> b) \<Longrightarrow> wire_ok c sent n b' w"
  by (auto simp: wire_ok_def)

lemma wire_ok_cong:
  "rc_manifest c' = rc_manifest c \<Longrightarrow> rc_max_bytes c' = rc_max_bytes c \<Longrightarrow> rc_sequence c' = rc_sequence c
   \<Longrightarrow> wire_ok c' sent n b w = wire_ok c sent n b w"
  by (simp add: wire_ok_def)

lemma rc_simps [simp]:
  "rc_manifest (rc_connect peer c) = rc_manifest c" "rc_max_bytes (rc_connect peer c) = rc_max_bytes c"
  "rc_sequence (rc_connect peer c) = rc_sequence c" "rc_manifest (rc_put peer bs c) = rc_manifest c"
  "rc_max_bytes (rc_put peer bs c) = rc_max_bytes c" "rc_sequence (rc_put peer bs c) = rc_sequence c"
  "rc_manifest (rc_drop peer c) = rc_manifest c" "rc_max_bytes (rc_drop peer c) = rc_max_bytes c"
  "rc_sequence (rc_drop peer c) = rc_sequence c" "rc_sockets (rc_put peer bs c) = rc_sockets c"
  "rc_wires (rc_drop peer c) = rc_wires c"
  by (simp_all add: rc_connect_def rc_put_def rc_drop_def split: option.split)

lemma drop_ok:
  assumes "client_ok c sent n"
  shows "client_ok (rc_drop peer c) sent n"
proof -
  have sub: "set (dpop peer (rc_sockets c)) \<subseteq> set (rc_sockets c)" by (auto simp: AList.delete_eq)
  have "distinct (map snd (dpop peer (rc_sockets c)))"
    using client_okD(2) [OF assms] by (simp add: AList.delete_eq distinct_map_filter)
  moreover have "wire_ok (rc_drop peer c) sent n (i \<in> snd ` set (dpop peer (rc_sockets c))) (rc_wires c ! i)"
    if "i < length (rc_wires c)" for i
    using wire_ok_shut [OF client_okD(4) [OF assms that], of "i \<in> snd ` set (dpop peer (rc_sockets c))"] sub
    by (auto simp: wire_ok_cong [of "rc_drop peer c" c])
  ultimately show ?thesis
    using client_okD(1,3) [OF assms] sub by (auto simp: client_ok_def rc_drop_def)
qed

lemma connect_ok:
  assumes "client_ok c sent n"
  shows "client_ok (rc_connect peer c) sent n" "\<exists>i. dget (rc_sockets (rc_connect peer c)) peer = Some i"
proof -
  show "\<exists>i. dget (rc_sockets (rc_connect peer c)) peer = Some i"
    by (cases "dget (rc_sockets c) peer") (simp_all add: rc_connect_def dict_simps)
  show "client_ok (rc_connect peer c) sent n"
  proof (cases "dget (rc_sockets c) peer")
    case None
    let ?c = "rc_connect peer c"
    have c': "rc_sockets ?c = rc_sockets c @ [(peer, length (rc_wires c))]" "rc_wires ?c = rc_wires c @ [[]]"
      using None by (simp_all add: rc_connect_def dput_new_append)
    have old: "i < length (rc_wires c)" if "i \<in> snd ` set (rc_sockets c)" for i using client_okD(3) [OF assms that] .
    have "wire_ok ?c sent n (i \<in> snd ` set (rc_sockets ?c)) (rc_wires ?c ! i)" if "i < length (rc_wires ?c)" for i
    proof (cases "i = length (rc_wires c)")
      case True
      then show ?thesis by (simp add: c' wire_ok_def wire_of_def) (intro exI [of _ "[]"], simp)
    next
      case False
      with that have "i < length (rc_wires c)" by (simp add: c')
      from client_okD(4) [OF assms this] False show ?thesis
        by (simp add: c' nth_append wire_ok_cong [of ?c c] \<open>i < length (rc_wires c)\<close>)
    qed
    moreover have "wf_dict (rc_sockets ?c)" using client_okD(1) [OF assms] by (simp add: rc_connect_def None)
    moreover have "distinct (map snd (rc_sockets ?c))" using client_okD(2) [OF assms] old by (auto simp: c')
    moreover have "i < length (rc_wires ?c)" if "i \<in> snd ` set (rc_sockets ?c)" for i
      using that old by (auto simp: c' less_Suc_eq)
    ultimately show ?thesis by (simp add: client_ok_def)
  qed (use assms in \<open>simp add: rc_connect_def\<close>)
qed

lemma replace_wire_ok:
  assumes "client_ok c sent n" "wire_ok c sent n (i \<in> snd ` set (rc_sockets c)) w"
  shows "client_ok (c\<lparr>rc_wires := (rc_wires c)[i := w]\<rparr>) sent n"
proof -
  let ?c = "c\<lparr>rc_wires := (rc_wires c)[i := w]\<rparr>"
  have "wire_ok ?c sent n (j \<in> snd ` set (rc_sockets c)) ((rc_wires c)[i := w] ! j)" if "j < length (rc_wires c)" for j
    using client_okD(4) [OF assms(1) that] assms(2) that
    by (cases "j = i") (simp_all add: wire_ok_cong [of ?c c])
  with assms(1) show ?thesis by (simp add: client_ok_def)
qed

lemma bound_ok: "client_ok c sent n \<Longrightarrow> n \<le> n' \<Longrightarrow> client_ok c sent n'"
  by (fastforce simp: client_ok_def wire_ok_def)

text \<open>What each connection is read as only grows.\<close>

definition reads_grow :: "raft_client \<Rightarrow> raft_client \<Rightarrow> bool" where
  "reads_grow c c' =
     (length (rc_wires c) \<le> length (rc_wires c')
    \<and> (\<forall>i < length (rc_wires c). set (read_frames (rc_manifest c) (rc_max_bytes c) (rc_wires c ! i))
         \<subseteq> set (read_frames (rc_manifest c) (rc_max_bytes c) (rc_wires c' ! i))))"

lemma reads_grow_refl: "rc_wires c' = rc_wires c \<Longrightarrow> reads_grow c c'"
  by (simp add: reads_grow_def)

lemma reads_grow_trans:
  assumes "reads_grow c c'" "reads_grow c' c''" "rc_manifest c' = rc_manifest c" "rc_max_bytes c' = rc_max_bytes c"
  shows "reads_grow c c''"
proof -
  have "set (read_frames (rc_manifest c) (rc_max_bytes c) (rc_wires c ! i))
      \<subseteq> set (read_frames (rc_manifest c) (rc_max_bytes c) (rc_wires c'' ! i))" if "i < length (rc_wires c)" for i
  proof -
    have "i < length (rc_wires c')" using assms(1) that by (simp add: reads_grow_def)
    with assms that show ?thesis unfolding reads_grow_def by (metis (no_types, lifting) subset_trans)
  qed
  with assms(1,2) show ?thesis by (simp add: reads_grow_def)
qed

lemma connect_grows: "reads_grow c (rc_connect peer c)"
  by (auto simp: reads_grow_def rc_connect_def nth_append split: option.split)

text \<open>Writing the start of the next frame to an open connection, or all of it.\<close>

lemma put_open:
  assumes ok: "client_ok c sent n" and i: "dget (rc_sockets c) peer = Some i"
    and x: "framable (rc_manifest c) (rc_max_bytes c) (n, payload)" "sent n = Some payload" "n = rc_sequence c"
  defines "f \<equiv> frame_of (rc_manifest c) (rc_max_bytes c) (n, payload)"
  shows "reads_grow c (rc_put peer (take j f) c)"
    and "wire_ok c sent n False (rc_wires c ! i @ take j f)"
    and "wire_ok c sent (Suc n) True (rc_wires c ! i @ f)"
    and "(n, payload) \<in> set (read_frames (rc_manifest c) (rc_max_bytes c) (rc_wires c ! i @ f))"
proof -
  have mem: "i \<in> snd ` set (rc_sockets c)" using i by (force dest: map_of_SomeD)
  then have len: "i < length (rc_wires c)" by (rule client_okD(3) [OF ok])
  from client_okD(4) [OF ok len] mem obtain xs where
    w: "wire_of (rc_manifest c) (rc_max_bytes c) xs [] (rc_wires c ! i)" and s: "sorted_wrt (<) (map fst xs)"
    and xs: "\<forall>x \<in> set xs. sent (fst x) = Some (snd x) \<and> fst x \<le> rc_sequence c" "\<forall>x \<in> set xs. fst x < n"
    by (auto simp: wire_ok_def)
  have whole: "wire_of (rc_manifest c) (rc_max_bytes c) (xs @ [(n, payload)]) [] (rc_wires c ! i @ f)"
    using w x(1) by (auto simp: wire_of_def f_def)
  then show "(n, payload) \<in> set (read_frames (rc_manifest c) (rc_max_bytes c) (rc_wires c ! i @ f))"
    by (simp add: read_wire)
  have full: "wire_ok c sent (Suc n) b (rc_wires c ! i @ f)" for b
    unfolding wire_ok_def using whole s xs x(2,3)
    by (intro exI [of _ "xs @ [(n, payload)]"] exI [of _ "[]"]) (auto simp: sorted_wrt_append less_Suc_eq)
  then show "wire_ok c sent (Suc n) True (rc_wires c ! i @ f)" .
  have cut: "wire_of (rc_manifest c) (rc_max_bytes c) xs (take j f) (rc_wires c ! i @ take j f)" if "j < length f"
    using w x(1) that by (auto simp: wire_of_def f_def)
  show "wire_ok c sent n False (rc_wires c ! i @ take j f)"
  proof (cases "j < length f")
    case True
    with cut s xs show ?thesis by (auto simp: wire_ok_def)
  next
    case False
    then show ?thesis using full [of False] by (simp add: wire_ok_def)
  qed
  show "reads_grow c (rc_put peer (take j f) c)"
  proof -
    have "set xs \<subseteq> set (read_frames (rc_manifest c) (rc_max_bytes c) (rc_wires c ! i @ take j f))"
      using read_wire [OF whole] read_wire [OF cut] by (cases "j < length f") auto
    then show ?thesis using i len by (auto simp: reads_grow_def rc_put_def nth_list_update read_wire [OF w])
  qed
qed

lemma attempts_ok:
  assumes "client_ok c sent n" and "framable (rc_manifest c) (rc_max_bytes c) (n, payload)" "sent n = Some payload" "n = rc_sequence c"
    and "rc_attempts peer (frame_of (rc_manifest c) (rc_max_bytes c) (n, payload)) r as c = (c', ok)"
  shows "client_ok c' sent (Suc n) \<and> reads_grow c c' \<and> rc_sequence c' = n \<and> rc_manifest c' = rc_manifest c
    \<and> rc_max_bytes c' = rc_max_bytes c
    \<and> (ok \<longrightarrow> (\<exists>w \<in> set (rc_wires c'). (n, payload) \<in> set (read_frames (rc_manifest c) (rc_max_bytes c) w)))"
  using assms
proof (induction r arbitrary: c as)
  case 0
  then show ?case by (auto intro: reads_grow_refl bound_ok)
next
  case (Suc r)
  let ?f = "frame_of (rc_manifest c) (rc_max_bytes c) (n, payload)"
  have next_: ?case if d: "client_ok d sent n" "reads_grow c d" "rc_manifest d = rc_manifest c"
      "rc_max_bytes d = rc_max_bytes c" "rc_sequence d = rc_sequence c" and run: "rc_attempts peer ?f r as' d = (c', ok)" for d as'
    using Suc.IH [of d as'] Suc.prems(2-4) that reads_grow_trans [OF d(2) _ d(3,4)] by auto
  have dropped: "reads_grow c (rc_drop peer d)" if "reads_grow c d" for d
    using that by (simp add: reads_grow_def)
  let ?d = "rc_connect peer c"
  obtain i where i: "dget (rc_sockets ?d) peer = Some i" using connect_ok(2) [OF Suc.prems(1)] by blast
  have x: "framable (rc_manifest ?d) (rc_max_bytes ?d) (n, payload)" "n = rc_sequence ?d"
    using Suc.prems(2,4) by simp_all
  note put = put_open [OF connect_ok(1) [OF Suc.prems(1)] i x(1) Suc.prems(3) x(2), unfolded rc_simps]
  have mem: "i \<in> snd ` set (rc_sockets ?d)" using i by (force dest: map_of_SomeD)
  note okd = connect_ok(1) [OF Suc.prems(1), of peer]
  show ?case
  proof (cases as)
    case Nil
    show ?thesis
      using Suc.prems(5) unfolding Nil rc_attempts.simps
      by (intro next_ [OF drop_ok [OF Suc.prems(1)] dropped]) (auto intro: reads_grow_refl)
  next
    case (Cons a as')
    show ?thesis
    proof (cases a)
      case Refused
      show ?thesis
        using Suc.prems(5) unfolding Cons Refused rc_attempts.simps attempt.case
        by (intro next_ [OF drop_ok [OF Suc.prems(1)] dropped]) (auto intro: reads_grow_refl)
    next
      case (Cut j)
      let ?e = "rc_drop peer (rc_put peer (take j ?f) ?d)"
      have "client_ok ?e sent n"
      proof -
        have e: "?e = (rc_drop peer ?d)\<lparr>rc_wires := (rc_wires (rc_drop peer ?d))[i := rc_wires ?d ! i @ take j ?f]\<rparr>"
          by (simp add: rc_drop_def rc_put_def i)
        have "wire_ok (rc_drop peer ?d) sent n (i \<in> snd ` set (rc_sockets (rc_drop peer ?d))) (rc_wires ?d ! i @ take j ?f)"
        proof -
          have "i \<notin> snd ` set (rc_sockets (rc_drop peer ?d))"
            using client_okD(2) [OF okd] map_of_SomeD [OF i]
            by (auto simp: rc_drop_def AList.delete_eq distinct_map inj_on_def split: if_splits) force
          with put(2) show ?thesis by (simp add: wire_ok_cong [of "rc_drop peer ?d" ?d])
        qed
        from replace_wire_ok [OF drop_ok [OF okd] this] show ?thesis unfolding e .
      qed
      moreover have "reads_grow c ?e"
        using reads_grow_trans [OF connect_grows put(1)] by (intro dropped) simp
      ultimately show ?thesis
        using Suc.prems(5) unfolding Cons Cut rc_attempts.simps attempt.case by (intro next_) simp_all
    next
      case Handed
      have c': "c' = rc_put peer ?f ?d" "ok" using Suc.prems(5) by (simp_all add: Cons Handed)
      then have w: "c' = ?d\<lparr>rc_wires := (rc_wires ?d)[i := rc_wires ?d ! i @ ?f]\<rparr>" by (simp add: rc_put_def i)
      have "client_ok c' sent (Suc n)"
        unfolding w using put(3) bound_ok [OF okd, of "Suc n"] mem by (intro replace_wire_ok) simp_all
      moreover have "reads_grow c c'" using reads_grow_trans [OF connect_grows put(1) [of "length ?f"]] by (simp add: c'(1))
      moreover have "rc_wires ?d ! i @ ?f \<in> set (rc_wires c')"
        unfolding w using client_okD(3) [OF okd mem] by (simp add: set_update_memI)
      ultimately show ?thesis using put(4) c' Suc.prems(4) by (auto intro!: bexI)
    qed
  qed
qed

text \<open>The number that a send takes is new.\<close>

lemma next_number_ok:
  assumes "client_ok c sent (Suc (rc_sequence c))"
  defines "c1 \<equiv> c\<lparr>rc_sequence := rc_sequence c + 1\<rparr>"
  shows "client_ok c1 (sent(rc_sequence c1 \<mapsto> payload)) (rc_sequence c1)"
proof -
  have "wire_ok c1 (sent(rc_sequence c1 \<mapsto> payload)) (rc_sequence c1) b w" if "wire_ok c sent (Suc (rc_sequence c)) b w" for b w
    using that unfolding wire_ok_def c1_def by (elim exE conjE, intro exI conjI) auto
  with assms(1) show ?thesis by (simp add: client_ok_def c1_def)
qed

definition acked_read :: "string \<Rightarrow> nat \<Rightarrow> raft_client \<Rightarrow> (nat \<Rightarrow> byte list option) \<Rightarrow> nat \<Rightarrow> bool" where
  "acked_read m k c sent n =
     (n \<le> rc_sequence c \<and> (\<exists>p. sent n = Some p \<and> (\<exists>w \<in> set (rc_wires c). (n, p) \<in> set (read_frames m k w))))"

lemma send_ok:
  assumes ok: "client_ok c sent (Suc (rc_sequence c))" and send: "rc_send peer payload as c = (c', r)"
  defines "sent' \<equiv> sent(rc_sequence c' \<mapsto> payload)"
  shows "client_ok c' sent' (Suc (rc_sequence c'))" "rc_sequence c' = rc_sequence c + 1"
    and "rc_manifest c' = rc_manifest c" "rc_max_bytes c' = rc_max_bytes c" "reads_grow c c'"
    and "r = Inr n \<Longrightarrow> acked_read (rc_manifest c) (rc_max_bytes c) c' sent' n"
proof -
  define c1 where "c1 = c\<lparr>rc_sequence := rc_sequence c + 1\<rparr>"
  have c1: "rc_sequence c1 = rc_sequence c + 1" "rc_manifest c1 = rc_manifest c" "rc_max_bytes c1 = rc_max_bytes c"
    "rc_wires c1 = rc_wires c" "rc_max_retries c1 = rc_max_retries c"
    by (simp_all add: c1_def)
  note new = next_number_ok [OF ok, of payload, folded c1_def]
  have "client_ok c' sent' (Suc (rc_sequence c')) \<and> rc_sequence c' = rc_sequence c + 1
    \<and> rc_manifest c' = rc_manifest c \<and> rc_max_bytes c' = rc_max_bytes c \<and> reads_grow c c'
    \<and> (\<forall>n. r = Inr n \<longrightarrow> acked_read (rc_manifest c) (rc_max_bytes c) c' sent' n)"
  proof (cases "\<exists>e. r = Inl e \<and> c' = c1")
    case True
    then show ?thesis using bound_ok [OF new] by (auto simp: sent'_def c1 intro: reads_grow_refl)
  next
    case False
    then obtain f where f: "encode_raft_frame payload (rc_manifest c1) (int (rc_sequence c1)) (rc_max_bytes c1) = Inr f"
      and run: "(case rc_attempts peer f (nat (rc_max_retries c1 + 1)) as c1 of
        (c2, ok) \<Rightarrow> (c2, if ok then Inr (rc_sequence c1) else Inl ConnectionError)) = (c', r)"
      using send unfolding rc_send_def Let_def c1_def [symmetric] by (auto split: sum.splits if_splits)
    then obtain ok where att: "rc_attempts peer f (nat (rc_max_retries c1 + 1)) as c1 = (c', ok)"
      and r: "r = (if ok then Inr (rc_sequence c1) else Inl ConnectionError)" by (auto split: prod.splits)
    have x: "framable (rc_manifest c1) (rc_max_bytes c1) (rc_sequence c1, payload)"
      "f = frame_of (rc_manifest c1) (rc_max_bytes c1) (rc_sequence c1, payload)"
      using f by (simp_all add: framable_def frame_of_def)
    from attempts_ok [OF new x(1) _ refl att [unfolded x(2)]] have
      a: "client_ok c' (sent(rc_sequence c1 \<mapsto> payload)) (Suc (rc_sequence c1))" "reads_grow c1 c'" "rc_sequence c' = rc_sequence c1"
        "rc_manifest c' = rc_manifest c" "rc_max_bytes c' = rc_max_bytes c"
      and got: "ok \<Longrightarrow> \<exists>w \<in> set (rc_wires c'). (rc_sequence c1, payload) \<in> set (read_frames (rc_manifest c) (rc_max_bytes c) w)"
      by (simp_all add: c1)
    have "reads_grow c c'" using a(2) by (simp add: reads_grow_def c1)
    moreover have "acked_read (rc_manifest c) (rc_max_bytes c) c' sent' n" if "r = Inr n" for n
      using that got a(3) by (auto simp: r acked_read_def sent'_def split: if_splits)
    ultimately show ?thesis using a by (simp add: sent'_def c1)
  qed
  then show "client_ok c' sent' (Suc (rc_sequence c'))" "rc_sequence c' = rc_sequence c + 1"
    "rc_manifest c' = rc_manifest c" "rc_max_bytes c' = rc_max_bytes c" "reads_grow c c'"
    "r = Inr n \<Longrightarrow> acked_read (rc_manifest c) (rc_max_bytes c) c' sent' n" by blast+
qed

lemma acked_grows:
  assumes "acked_read (rc_manifest c) (rc_max_bytes c) c sent n" "reads_grow c c'" "rc_sequence c \<le> rc_sequence c'"
    "\<And>j. j \<le> rc_sequence c \<Longrightarrow> sent' j = sent j"
  shows "acked_read (rc_manifest c) (rc_max_bytes c) c' sent' n"
proof -
  from assms(1) obtain p w where p: "n \<le> rc_sequence c" "sent n = Some p" and w: "w \<in> set (rc_wires c)"
    "(n, p) \<in> set (read_frames (rc_manifest c) (rc_max_bytes c) w)"
    by (auto simp: acked_read_def)
  from w obtain i where i: "i < length (rc_wires c)"
    "(n, p) \<in> set (read_frames (rc_manifest c) (rc_max_bytes c) (rc_wires c ! i))"
    by (auto simp: in_set_conv_nth [of w])
  with i assms(2) have "rc_wires c' ! i \<in> set (rc_wires c')"
    "(n, p) \<in> set (read_frames (rc_manifest c) (rc_max_bytes c) (rc_wires c' ! i))"
    by (auto simp: reads_grow_def)
  with p assms(3,4) show ?thesis by (auto simp: acked_read_def)
qed

lemma reach_books:
  assumes "rc_reach m k c sent acked"
  shows "client_ok c sent (Suc (rc_sequence c)) \<and> rc_manifest c = m \<and> rc_max_bytes c = k \<and> (\<forall>n \<in> acked. acked_read m k c sent n)"
  using assms
proof (induction rule: rc_reach.induct)
  case (rc_start peers retries c)
  then show ?case by (auto simp: new_client_def client_ok_def split: if_splits)
next
  case (rc_sent c sent acked peer payload as c' r)
  then have ok: "client_ok c sent (Suc (rc_sequence c))" and mk: "rc_manifest c = m" "rc_max_bytes c = k" by auto
  note s = send_ok [OF ok rc_sent(2)]
  have old: "acked_read m k c' (sent(rc_sequence c' \<mapsto> payload)) n" if "n \<in> acked" for n
    using acked_grows [of c sent n c' "sent(rc_sequence c' \<mapsto> payload)"] rc_sent.IH that s(2,5) by (simp add: mk)
  show ?case
    using s(1,3,4,6) old by (auto simp: mk split: sum.split simp del: fun_upd_apply)
next
  case (rc_closed c sent acked)
  have "client_ok (rc_close c) sent n" if "client_ok c sent n" for n
  proof -
    have "wire_ok (rc_close c) sent n False (rc_wires c ! i)" if "i < length (rc_wires c)" for i
      using wire_ok_shut [OF client_okD(4) [OF \<open>client_ok c sent n\<close> that], of False]
      by (simp add: wire_ok_cong [of "c\<lparr>rc_sockets := []\<rparr>" c] rc_close_def)
    then show ?thesis by (simp add: client_ok_def rc_close_def)
  qed
  with rc_closed show ?case by (simp add: rc_close_def acked_read_def)
qed

text \<open>The first bytes of a connection are read as the first of its frames.\<close>

lemma read_wires:
  "\<forall>x \<in> set xs. framable m k x \<Longrightarrow> read_frames m k (concat (map (frame_of m k) xs) @ zs) = xs @ read_frames m k zs"
  by (induction xs) (simp_all add: read_frame)

lemma take_wire:
  "wire_of m k xs part w \<Longrightarrow> \<exists>ys zs part'. xs = ys @ zs \<and> wire_of m k ys part' (take j w)"
proof (induction xs arbitrary: w j)
  case Nil
  then have "wire_of m k [] (take j part) (take j w)"
    by (auto simp: wire_of_def take_take) (metis min_less_iff_disj)
  then show ?case by blast
next
  case (Cons x xs)
  define rest where "rest = concat (map (frame_of m k) xs) @ part"
  have x: "framable m k x" and w: "w = frame_of m k x @ rest" and wire: "wire_of m k xs part rest"
    using Cons.prems by (auto simp: wire_of_def rest_def)
  show ?case
  proof (cases "j < length (frame_of m k x)")
    case True
    then have "wire_of m k [] (take j (frame_of m k x)) (take j w)" using x unfolding wire_of_def w by (intro conjI disjI2 exI [of _ x] exI [of _ j]) simp_all
    then show ?thesis by blast
  next
    case False
    obtain ys zs part' where "xs = ys @ zs" "wire_of m k ys part' (take (j - length (frame_of m k x)) rest)"
      using Cons.IH [OF wire] by blast
    then have "x # xs = (x # ys) @ zs \<and> wire_of m k (x # ys) part' (take j w)"
      using x False by (simp add: wire_of_def w)
    then show ?thesis by blast
  qed
qed

lemma given_when_arrived:
  assumes "wire_of m k (as @ x # bs) part w" and "distinct (as @ x # bs)"
  shows "x \<in> set (read_frames m k (take j w)) \<longleftrightarrow> length (concat (map (frame_of m k) (as @ [x]))) \<le> j"
proof
  let ?head = "concat (map (frame_of m k) (as @ [x]))"
  assume "length ?head \<le> j"
  then have t: "take j w = ?head @ take (j - length ?head) (concat (map (frame_of m k) bs) @ part)"
    using assms(1) by (simp add: wire_of_def)
  have "\<forall>y \<in> set (as @ [x]). framable m k y" using assms(1) by (auto simp: wire_of_def)
  from read_wires [OF this] show "x \<in> set (read_frames m k (take j w))" unfolding t by simp
next
  let ?head = "concat (map (frame_of m k) (as @ [x]))"
  assume given: "x \<in> set (read_frames m k (take j w))"
  obtain ys zs part' where ys: "as @ x # bs = ys @ zs" "wire_of m k ys part' (take j w)"
    using take_wire [OF assms(1)] by blast
  then have "x \<in> set ys" using given by (simp add: read_wire)
  then obtain us vs where u: "ys = us @ x # vs" by (auto simp: in_set_conv_decomp)
  have "x \<notin> set as" "x \<notin> set bs" using assms(2) by auto
  moreover have "as @ x # bs = us @ x # (vs @ zs)" using ys(1) u by simp
  ultimately have "us = as" by (metis append_Cons_eq_iff)
  then have "length ?head \<le> length (concat (map (frame_of m k) ys))" by (simp add: u)
  also have "\<dots> \<le> length (take j w)" using ys(2) by (simp add: wire_of_def del: length_take)
  finally show "length ?head \<le> j" by simp
qed

text \<open>C30. Client and server agree over a network that refuses and cuts connections at any byte. Whatever first
  part of the bytes of a connection arrives, the server is given payloads that the client was asked to send,
  under their own sequence numbers, in strictly ascending order and each at most once; a frame that was cut gives
  nothing, and more bytes only give more. A send that returned its number handed its whole frame to one connection,
  whatever is sent and closed later, and the server is given it exactly when the bytes up to the end of that frame
  arrive: a returned send is lost with a connection that breaks before. (A send that failed
  may have been given to the server as well, and a retried one twice, on two connections.)\<close>

theorem raft_delivery_exact:
  assumes "rc_reach m k c sent acked"
  shows "(\<forall>w \<in> set (rc_wires c). \<forall>j. sorted_wrt (<) (map fst (read_frames m k (take j w)))
           \<and> (\<forall>x \<in> set (read_frames m k (take j w)). sent (fst x) = Some (snd x))
           \<and> (\<exists>more. read_frames m k w = read_frames m k (take j w) @ more))
    \<and> (\<forall>n \<in> acked. \<exists>p frame u v. sent n = Some p \<and> encode_raft_frame p m (int n) k = Inr frame
         \<and> u @ frame @ v \<in> set (rc_wires c)
         \<and> (\<forall>j. (n, p) \<in> set (read_frames m k (take j (u @ frame @ v))) \<longleftrightarrow> length (u @ frame) \<le> j))"
proof -
  from reach_books [OF assms] have ok: "client_ok c sent (Suc (rc_sequence c))" and mk: "rc_manifest c = m" "rc_max_bytes c = k"
    and ack: "\<forall>n \<in> acked. acked_read m k c sent n" by auto
  have wire: "\<exists>xs part. wire_of m k xs part w \<and> sorted_wrt (<) (map fst xs) \<and> (\<forall>x \<in> set xs. sent (fst x) = Some (snd x))"
    if "w \<in> set (rc_wires c)" for w
  proof -
    from that obtain i where "i < length (rc_wires c)" "w = rc_wires c ! i" by (auto simp: in_set_conv_nth)
    with client_okD(4) [OF ok] show ?thesis unfolding wire_ok_def mk by blast
  qed
  have part: "sorted_wrt (<) (map fst (read_frames m k (take j w)))
      \<and> (\<forall>x \<in> set (read_frames m k (take j w)). sent (fst x) = Some (snd x))
      \<and> (\<exists>more. read_frames m k w = read_frames m k (take j w) @ more)" if w: "w \<in> set (rc_wires c)" for w j
  proof -
    obtain xs part where xs: "wire_of m k xs part w" "sorted_wrt (<) (map fst xs)" "\<forall>x \<in> set xs. sent (fst x) = Some (snd x)"
      using wire [OF w] by blast
    obtain ys zs part' where "xs = ys @ zs" "wire_of m k ys part' (take j w)" using take_wire [OF xs(1)] by blast
    with xs show ?thesis by (auto simp: read_wire sorted_wrt_append)
  qed
  have "\<exists>p frame u v. sent n = Some p \<and> encode_raft_frame p m (int n) k = Inr frame \<and> u @ frame @ v \<in> set (rc_wires c)
      \<and> (\<forall>j. (n, p) \<in> set (read_frames m k (take j (u @ frame @ v))) \<longleftrightarrow> length (u @ frame) \<le> j)" if "n \<in> acked" for n
  proof -
    obtain p w where p: "sent n = Some p" and w: "w \<in> set (rc_wires c)" "(n, p) \<in> set (read_frames m k w)"
      using ack \<open>n \<in> acked\<close> by (auto simp: acked_read_def)
    obtain xs part where xs: "wire_of m k xs part w" "sorted_wrt (<) (map fst xs)" using wire [OF w(1)] by blast
    then obtain as bs where ab: "xs = as @ (n, p) # bs" using w(2) by (auto simp: read_wire in_set_conv_decomp)
    have "distinct (map fst xs)" using xs(2) by (simp add: strict_sorted_iff)
    then have "distinct (as @ (n, p) # bs)" unfolding ab distinct_map by blast
    from given_when_arrived [OF xs(1) [unfolded ab] this] have
      g: "(n, p) \<in> set (read_frames m k (take j w)) \<longleftrightarrow> length (concat (map (frame_of m k) as) @ frame_of m k (n, p)) \<le> j" for j
      by simp
    have "w = concat (map (frame_of m k) as) @ frame_of m k (n, p) @ (concat (map (frame_of m k) bs) @ part)"
      "framable m k (n, p)" using xs(1) by (simp_all add: wire_of_def ab)
    with p w(1) g framable_encode [of m k "(n, p)"] show ?thesis by (metis fst_conv snd_conv)
  qed
  with part show ?thesis by blast
qed

definition demo_raft :: "attempt list \<Rightarrow> raft_client \<Rightarrow> raft_client \<times> nat result" where
  "demo_raft as c = rc_send 1 [7, 7] as c"

definition demo_raft_client :: raft_client where
  "demo_raft_client = \<lparr>rc_peers = [1], rc_manifest = replicate 64 (CHR ''a''), rc_max_retries = 2, rc_max_bytes = 100,
     rc_sockets = [], rc_sequence = 0, rc_wires = []\<rparr>"

theorem raft_delivery_exact_witness:
  "\<exists>c u frame v. demo_raft [Cut 20, Refused, Handed] demo_raft_client = (c, Inr 1)
     \<and> encode_raft_frame [7, 7] (replicate 64 (CHR ''a'')) (int 1) 100 = Inr frame \<and> u @ frame @ v \<in> set (rc_wires c)
     \<and> (1, [7, 7]) \<in> set (read_frames (replicate 64 (CHR ''a'')) 100 (take (length (u @ frame)) (u @ frame @ v)))
     \<and> (1, [7, 7]) \<notin> set (read_frames (replicate 64 (CHR ''a'')) 100 (take (length u) (u @ frame @ v)))"
proof -
  have "rc_reach (replicate 64 (CHR ''a'')) 100 demo_raft_client Map.empty {}"
    by (rule rc_start [of "[1]" _ 2]) (simp add: new_client_def demo_raft_client_def)
  moreover have "snd (demo_raft [Cut 20, Refused, Handed] demo_raft_client) = Inr 1" by code_simp
  then obtain c where c: "demo_raft [Cut 20, Refused, Handed] demo_raft_client = (c, Inr 1)"
    by (cases "demo_raft [Cut 20, Refused, Handed] demo_raft_client") auto
  moreover have "rc_sequence (fst (demo_raft [Cut 20, Refused, Handed] demo_raft_client)) = 1" by code_simp
  then have s: "rc_sequence c = 1" by (simp add: c)
  ultimately have "rc_reach (replicate 64 (CHR ''a'')) 100 c [1 \<mapsto> [7, 7]] {1}"
    using rc_sent [of _ _ demo_raft_client Map.empty "{}" 1 "[7, 7]" "[Cut 20, Refused, Handed]" c "Inr 1"]
    by (simp add: demo_raft_def)
  from raft_delivery_exact [OF this] obtain frame u v where
    f: "encode_raft_frame [7, 7] (replicate 64 (CHR ''a'')) (int 1) 100 = Inr frame" "u @ frame @ v \<in> set (rc_wires c)"
      "\<And>j. (1, [7, 7]) \<in> set (read_frames (replicate 64 (CHR ''a'')) 100 (take j (u @ frame @ v))) \<longleftrightarrow> length (u @ frame) \<le> j"
    by auto
  have "frame \<noteq> []" using f(1) unfolding encode_frame_iff by (auto simp: magic_def)
  with f(3) [of "length (u @ frame)"] f(3) [of "length u"] f(1,2) c show ?thesis by auto
qed

end
