(* ===== verification/Typed_Pods.thy ===== *)
theory Typed_Pods
  imports Registry Filter_Lang "HOL-Library.Multiset"
begin

text \<open>
  Typed pods on top of the registry: the payload contracts of the pod types and the header read from
  an artifact (\<open>neural_pods/pod_types.py\<close>), the tags of training records and the taxonomy filter
  (\<open>pod_taxonomy.py\<close>), the manifest that an execution is bound to (\<open>execution_manifest.py\<close>), the
  alias index (\<open>registry_lookup_kb.py\<close>) and the delete tokens (\<open>lifecycle_transport.py\<close>).

  Payloads are decoded JSON. Matrices and their product, inverse and unit are arguments.
\<close>

section \<open>Payload contracts\<close>

datatype pod_type =
    Context | Model | Math | Reasoning | Retrieval | Router | Transport | Runtime | Vision
  | Policy | Embedding | Quantization

definition pod_type_value :: "pod_type \<Rightarrow> string" where
  "pod_type_value t =
     (case t of Context \<Rightarrow> ''context'' | Model \<Rightarrow> ''model'' | Math \<Rightarrow> ''math'' | Reasoning \<Rightarrow> ''reasoning''
      | Retrieval \<Rightarrow> ''retrieval'' | Router \<Rightarrow> ''router'' | Transport \<Rightarrow> ''transport'' | Runtime \<Rightarrow> ''runtime''
      | Vision \<Rightarrow> ''vision'' | Policy \<Rightarrow> ''policy'' | Embedding \<Rightarrow> ''embedding'' | Quantization \<Rightarrow> ''quantization'')"

definition pod_types :: "pod_type list" where
  "pod_types = [Context, Model, Math, Reasoning, Retrieval, Router, Transport, Runtime, Vision, Policy,
     Embedding, Quantization]"

text \<open>\<open>PodType(x)\<close> and \<open>ModelVariant(x)\<close>: only the values themselves.\<close>

definition pod_type_of :: "json \<Rightarrow> pod_type result" where
  "pod_type_of x =
     (case find (\<lambda>t. x = JStr (pod_type_value t)) pod_types of None \<Rightarrow> Inl ValueError | Some t \<Rightarrow> Inr t)"

definition model_variants :: "string list" where
  "model_variants = [''lora'', ''distilled'', ''moe'', ''quantized'', ''base'', ''speculator'', ''embedding'']"

type_synonym payload = "(string, json) dict"

text \<open>A check that raises \<open>ValueError\<close>, and checks one after the other.\<close>

definition require :: "bool \<Rightarrow> unit result" where
  "require b = (if b then Inr () else Inl ValueError)"

fun checks :: "unit result list \<Rightarrow> unit result" where
  "checks [] = Inr ()"
| "checks (r # rs) = (case r of Inl e \<Rightarrow> Inl e | Inr _ \<Rightarrow> checks rs)"

text \<open>\<open>set(gate)\<close> of a gate that is true: a dictionary gives its keys, a number cannot be iterated.\<close>

definition gate_names :: "json \<Rightarrow> json list result" where
  "gate_names gate =
     (case py_iter gate of
        Inl e \<Rightarrow> Inl e
      | Inr xs \<Rightarrow> if list_all hashable xs then Inr xs else Inl TypeError)"

definition check_gate :: "payload \<Rightarrow> unit result" where
  "check_gate p =
     (let gate = dget_or p ''surprise_gate'' (JObj [])
      in if truthy gate then
           (case gate_names gate of
              Inl e \<Rightarrow> Inl e
            | Inr xs \<Rightarrow> require (JStr ''novelty_threshold'' \<in> set xs \<and> JStr ''contradiction_threshold'' \<in> set xs))
         else Inr ())"

definition is_str :: "json \<Rightarrow> bool" where
  "is_str x = (case x of JStr _ \<Rightarrow> True | _ \<Rightarrow> False)"

definition is_mapping :: "json \<Rightarrow> bool" where
  "is_mapping x = (case x of JObj _ \<Rightarrow> True | _ \<Rightarrow> False)"

definition supplied_ok :: "payload \<Rightarrow> (json \<Rightarrow> bool) \<Rightarrow> string \<Rightarrow> unit result" where
  "supplied_ok p ok k = require (case dget p k of None \<Rightarrow> True | Some v \<Rightarrow> ok v)"

definition check_context :: "payload \<Rightarrow> unit result" where
  "check_context p = checks [require (truthy (jget p ''content'') \<or> truthy (jget p ''text'')), check_gate p]"

definition check_model :: "payload \<Rightarrow> unit result" where
  "check_model p =
     (let variant = dget_or p ''model_variant'' (JStr ''lora'')
      in checks (
           map (\<lambda>k. require (truthy (jget p k))) [''reader_identity'', ''input_schema'', ''output_schema'']
         @ [supplied_ok p is_str ''model_family'']
         @ map (supplied_ok p is_str) [''post_training'', ''interface'']
         @ map (supplied_ok p (\<lambda>v. v = JNull \<or> is_str v)) [''router_ref'', ''ranker_ref'', ''stage_role'']
         @ map (supplied_ok p (\<lambda>v. v = JNull \<or> is_mapping v)) [''parallel_strategy'', ''cache_policy'']
         @ [require (variant \<in> set (map JStr model_variants)),
            require (truthy (jget p ''adapter_sha256'') \<or> truthy (jget p ''model_sha256'')),
            require (variant = JStr ''moe'' \<longrightarrow> truthy (jget p ''experts'')),
            require (variant = JStr ''distilled'' \<longrightarrow> truthy (jget p ''teacher_identity''))]))"

definition check_math :: "payload \<Rightarrow> unit result" where
  "check_math p =
     checks (map (\<lambda>k. require (k \<in> set (dkeys p))) [''expression'', ''operands'', ''unit'']
       @ [require (case jget p ''operands'' of JList _ \<Rightarrow> True | JObj _ \<Rightarrow> True | _ \<Rightarrow> False)])"

definition check_other :: "pod_type \<Rightarrow> payload \<Rightarrow> unit result" where
  "check_other t p =
     checks [
       require (truthy (jget p ''content'') \<or> truthy (jget p ''text'') \<or> truthy (jget p ''capabilities'')),
       require (t = Transport \<longrightarrow> ''capabilities'' \<in> set (dkeys p) \<and> ''link_contract'' \<in> set (dkeys p)),
       require (t = Runtime \<longrightarrow> truthy (jget p ''interface'') \<and> truthy (jget p ''capabilities'')),
       require (t = Embedding \<longrightarrow> truthy (jget p ''embedding_model'')),
       require (t = Quantization \<longrightarrow> truthy (jget p ''quantization_method''))]"

definition validate_payload :: "json \<Rightarrow> payload \<Rightarrow> unit result" where
  "validate_payload pod_type p =
     (case pod_type_of pod_type of
        Inl e \<Rightarrow> Inl e
      | Inr t \<Rightarrow>
          (case t of
             Context \<Rightarrow> check_context p
           | Model \<Rightarrow> check_model p
           | Math \<Rightarrow> check_math p
           | _ \<Rightarrow> check_other t p))"

text \<open>\<open>pod_type_for_task\<close>: the first rule that applies.\<close>

definition pod_type_for_task :: "string \<Rightarrow> pod_type" where
  "pod_type_for_task task =
     (if starts_with ''deadline'' task \<or> is_substring ''buffer'' task then Math
      else if task \<in> {''lookup'', ''followup_lookup'', ''stale_followup'', ''missing''} then Context
      else if task \<in> {''tool_call'', ''route'', ''expert_route''} then Router
      else if task \<in> {''pod_link'', ''transport'', ''attestation''} then Transport
      else if task \<in> {''duplex'', ''realtime'', ''speculative_decode''} then Runtime
      else if task \<in> {''ocr'', ''vision''} then Vision
      else if task \<in> {''embedding'', ''rerank''} then Embedding
      else if task \<in> {''quantization'', ''loftq'', ''qat''} then Quantization
      else if task \<in> {''replay_policy'', ''rsi'', ''policy''} then Policy
      else Context)"

section \<open>From the payload to the registry and back\<close>

definition typed_artifact ::
    "(json \<Rightarrow> string) \<Rightarrow> digest \<Rightarrow> real \<Rightarrow> registry \<Rightarrow> string \<Rightarrow> json \<Rightarrow> payload \<Rightarrow> string list \<Rightarrow> string
       \<Rightarrow> (string \<times> registry) result" where
  "typed_artifact C D now r kind pod_type payload parents who =
     (case pod_type_of pod_type of
        Inl e \<Rightarrow> Inl e
      | Inr t \<Rightarrow>
          let body = dput ''semantic_type'' (JStr (pod_type_value t)) payload
          in case validate_payload (JStr (pod_type_value t)) body of
               Inl e \<Rightarrow> Inl e
             | Inr _ \<Rightarrow> reg_artifact C D now r kind (JObj body) parents who)"

record pod_header =
  ph_pod_id :: string
  ph_type :: pod_type
  ph_origins :: "string list"
  ph_knowledge :: "string list"
  ph_generations :: "string list"
  ph_artifact :: string
  ph_tuples :: "json list list"
  ph_fields :: "json list"

text \<open>
  \<open>from_artifact\<close>. Only artifacts have a payload with a type; the two lists hold the fields that are
  copied as tuples (tags, aliases, capabilities, entities) and the ones that are copied as they are.
\<close>

definition tuple_of :: "payload \<Rightarrow> string \<Rightarrow> json list result" where
  "tuple_of p k = py_iter (dget_or p k (JList []))"

definition from_artifact :: "string \<Rightarrow> string \<Rightarrow> reg_node \<Rightarrow> pod_header result" where
  "from_artifact key i nd =
     (case nd_payload nd of
        Artifact_Payload (JObj p) origins gens parents h \<Rightarrow>
          (case pod_type_of (dget_or p ''semantic_type'' (jget p ''pod_type'')) of
             Inl e \<Rightarrow> Inl ValueError
           | Inr t \<Rightarrow>
               if gens = [] then Inl ValueError
               else
                 (case map_result (\<lambda>r. r) [tuple_of p ''tags'', tuple_of p ''aliases'', tuple_of p ''capabilities'',
                     py_iter (dget_or p ''entity_ids'' (dget_or p ''entities'' (JList [])))] of
                    Inl e \<Rightarrow> Inl e
                  | Inr tuples \<Rightarrow> Inr
                      \<lparr>ph_pod_id = i, ph_type = t, ph_origins = origins,
                       ph_knowledge = sorted_set (map (\<lambda>g. fst (snd g)) gens), ph_generations = sorted_set (map fst gens),
                       ph_artifact = key, ph_tuples = tuples,
                       ph_fields = map (jget p) [''surprise_gate'', ''model_variant'', ''model_family'', ''post_training'',
                         ''interface'', ''pod_identity'', ''semantic_role'', ''domain'', ''sensitivity'', ''confidence'']\<rparr>))
      | Artifact_Payload _ _ _ _ _ \<Rightarrow> Inl (OtherError ''AttributeError'')
      | _ \<Rightarrow> Inl ValueError)"

definition single :: "string list \<Rightarrow> string option" where
  "single ks = (case ks of [k] \<Rightarrow> Some k | _ \<Rightarrow> None)"

definition knowledge_key :: "pod_header \<Rightarrow> string option" where
  "knowledge_key h = single (ph_knowledge h)"

definition generation_key :: "pod_header \<Rightarrow> string option" where
  "generation_key h = single (ph_generations h)"

section \<open>Training records and the taxonomy filter\<close>

definition taxonomy_types :: "string list" where
  "taxonomy_types = [''context'', ''math'', ''model'', ''reasoning'', ''retrieval'']"

definition required_tags :: "string \<Rightarrow> string list" where
  "required_tags kind =
     (if kind = ''context'' then [''pod:context'', ''role:knowledge'']
      else if kind = ''math'' then [''pod:math'', ''role:calculation'', ''has:unit'']
      else if kind = ''model'' then [''pod:model'', ''role:execution'', ''has:interface'']
      else if kind = ''reasoning'' then [''pod:reasoning'', ''role:inference'']
      else [''pod:retrieval'', ''role:search''])"

definition training_fields :: "string list" where
  "training_fields = [''id'', ''pod_type'', ''domain'', ''semantic_role'', ''tags'', ''origin_keys'',
     ''knowledge_key'', ''generation_key'', ''split'', ''input'', ''target'']"

text \<open>A type or a split that is no string but a list or a dictionary has no hash: \<open>TypeError\<close>.\<close>

definition among :: "json \<Rightarrow> string list \<Rightarrow> unit result" where
  "among x names = (if hashable x then require (x \<in> set (map JStr names)) else Inl TypeError)"

definition check_tags :: "json \<Rightarrow> json \<Rightarrow> unit result" where
  "check_tags kind tags =
     (case tags of
        JList xs \<Rightarrow>
          if list_all hashable xs
          then require (\<forall>t \<in> set (required_tags (case kind of JStr k \<Rightarrow> k | _ \<Rightarrow> [])). JStr t \<in> set xs)
          else Inl TypeError
      | _ \<Rightarrow> Inl ValueError)"

definition validate_training_record :: "payload \<Rightarrow> unit result" where
  "validate_training_record rec =
     checks [
       require (set training_fields \<subseteq> set (dkeys rec)),
       among (jget rec ''pod_type'') taxonomy_types,
       check_tags (jget rec ''pod_type'') (jget rec ''tags''),
       require (truthy (jget rec ''origin_keys'') \<and> truthy (jget rec ''knowledge_key'') \<and> truthy (jget rec ''generation_key'')),
       among (jget rec ''split'') [''train'', ''validation'', ''test'']]"

record pod_descriptor =
  pd_artifact :: string
  pd_type :: string
  pd_domain :: string
  pd_tags :: "string list"
  pd_hard :: bool

definition make_descriptor :: "string \<Rightarrow> string \<Rightarrow> string \<Rightarrow> string list \<Rightarrow> bool \<Rightarrow> pod_descriptor result" where
  "make_descriptor key t d tags hard =
     (if t \<notin> set taxonomy_types then Inl ValueError
      else if list_all is_space d then Inl ValueError
      else Inr \<lparr>pd_artifact = key, pd_type = t, pd_domain = d, pd_tags = tags, pd_hard = hard\<rparr>)"

definition taxonomy_score :: "string list \<Rightarrow> string list \<Rightarrow> pod_descriptor \<Rightarrow> real" where
  "taxonomy_score required soft p =
     (if pd_domain p \<in> set soft then 2 else 0) + real (card (set required \<inter> set (pd_tags p)))"

definition hard_match :: "string option \<Rightarrow> string option \<Rightarrow> string list \<Rightarrow> pod_descriptor \<Rightarrow> bool" where
  "hard_match d t required p =
     ((d = None \<or> d = Some (pd_domain p)) \<and> (t = None \<or> t = Some (pd_type p)) \<and> set required \<subseteq> set (pd_tags p))"

text \<open>\<open>sorted(..., reverse=True)\<close> keeps equal scores in their order.\<close>

definition route_candidates ::
    "pod_descriptor list \<Rightarrow> string option \<Rightarrow> string option \<Rightarrow> string list \<Rightarrow> string list \<Rightarrow> pod_descriptor list" where
  "route_candidates pods d t required soft =
     sort_key (\<lambda>p. - taxonomy_score required soft p) (filter (hard_match d t required) pods)"

section \<open>Execution manifests\<close>

record exec_manifest =
  em_generation :: string
  em_artifacts :: "string list"
  em_origins :: "string list"
  em_reader :: "string option"
  em_snapshot :: "string list \<times> string"

definition node_generations :: "reg_node \<Rightarrow> string list" where
  "node_generations nd = (case nd_payload nd of Artifact_Payload _ _ gens _ _ \<Rightarrow> map fst gens | _ \<Rightarrow> [])"

definition node_origins :: "reg_node \<Rightarrow> string list" where
  "node_origins nd = (case nd_payload nd of Artifact_Payload _ origins _ _ _ \<Rightarrow> origins | _ \<Rightarrow> [])"

definition manifest_deps :: "string \<Rightarrow> string list \<Rightarrow> string option \<Rightarrow> string list" where
  "manifest_deps gen artifacts reader =
     gen # artifacts @ (case reader of None \<Rightarrow> [] | Some k \<Rightarrow> if k = [] then [] else [k])"

definition derived_from :: "registry \<Rightarrow> string \<Rightarrow> string \<Rightarrow> string list result" where
  "derived_from r gen artifact =
     (case reg_get_node r artifact of
        Inl e \<Rightarrow> Inl e
      | Inr nd \<Rightarrow> if gen \<in> set (node_generations nd) then Inr (node_origins nd) else Inl InvalidState)"

definition check_reader :: "registry \<Rightarrow> string \<Rightarrow> string option \<Rightarrow> unit result" where
  "check_reader r gen reader =
     (case reader of
        None \<Rightarrow> Inr ()
      | Some k \<Rightarrow>
          if k = [] then Inr ()
          else case reg_get_node r k of
            Inl e \<Rightarrow> Inl e
          | Inr nd \<Rightarrow>
              if nd_kind nd \<notin> {''lora'', ''model''} then Inl InvalidState
              else if gen \<notin> set (node_generations nd) then Inl InvalidState
              else Inr ())"

definition build_manifest ::
    "real \<Rightarrow> registry \<Rightarrow> string \<Rightarrow> string list \<Rightarrow> string option \<Rightarrow> string \<Rightarrow> exec_manifest result" where
  "build_manifest now r gen keys reader who =
     (let artifacts = sorted_set keys
      in if artifacts = [] then Inl InvalidState
         else case reg_snapshot now r (manifest_deps gen artifacts reader) who of
           Inl e \<Rightarrow> Inl e
         | Inr snap \<Rightarrow>
             (case (reg_roots r gen, reg_get_node r gen) of
                (Inr origins, Inr nd) \<Rightarrow>
                  if nd_kind nd \<noteq> ''knowledge'' then Inl InvalidState
                  else (case map_result (derived_from r gen) artifacts of
                          Inl e \<Rightarrow> Inl e
                        | Inr oss \<Rightarrow>
                            (case check_reader r gen reader of
                               Inl e \<Rightarrow> Inl e
                             | Inr _ \<Rightarrow> Inr \<lparr>em_generation = gen, em_artifacts = artifacts,
                                 em_origins = sorted_set (origins @ concat oss), em_reader = reader, em_snapshot = snap\<rparr>))
              | (Inl e, _) \<Rightarrow> Inl e
              | (_, Inl e) \<Rightarrow> Inl e))"

definition validate_manifest :: "real \<Rightarrow> registry \<Rightarrow> exec_manifest \<Rightarrow> (string list \<times> string) result" where
  "validate_manifest now r m =
     (case reg_snapshot now r (manifest_deps (em_generation m) (em_artifacts m) (em_reader m)) (snd (em_snapshot m)) of
        Inl e \<Rightarrow> Inl e
      | Inr cur \<Rightarrow> if fst cur \<noteq> fst (em_snapshot m) then Inl InvalidState else Inr cur)"

definition manifest_json :: "exec_manifest \<Rightarrow> json" where
  "manifest_json m = JObj [
     (''generation_key'', JStr (em_generation m)), (''artifact_keys'', JList (map JStr (em_artifacts m))),
     (''origin_keys'', JList (map JStr (em_origins m))),
     (''reader_key'', (case em_reader m of None \<Rightarrow> JNull | Some k \<Rightarrow> JStr k)),
     (''principal'', JStr (snd (em_snapshot m)))]"

section \<open>The alias index\<close>

type_synonym alias_kb = "(string, (string \<times> real) list) dict"

definition kb_add :: "string \<Rightarrow> string \<Rightarrow> real \<Rightarrow> alias_kb \<Rightarrow> alias_kb result" where
  "kb_add alias key prior kb =
     (if alias = [] \<or> key = [] \<or> \<not> (0 \<le> prior \<and> prior \<le> 1) then Inl ValueError
      else Inr (dput (casefold alias) (dget_or kb (casefold alias) [] @ [(key, prior)]) kb))"

definition kb_candidates :: "real \<Rightarrow> registry \<Rightarrow> alias_kb \<Rightarrow> string \<Rightarrow> string \<Rightarrow> (string \<times> real \<times> string) list" where
  "kb_candidates now r kb alias who =
     concat (map (\<lambda>(key, prior).
         case reg_head r key of
           Inl _ \<Rightarrow> []
         | Inr node \<Rightarrow> if is_ok (reg_snapshot now r [node] who) then [(key, prior, node)] else [])
       (dget_or kb (casefold alias) []))"

definition kb_batch :: "real \<Rightarrow> registry \<Rightarrow> alias_kb \<Rightarrow> string list \<Rightarrow> string \<Rightarrow> (string \<times> real \<times> string) list list" where
  "kb_batch now r kb aliases who = map (\<lambda>a. kb_candidates now r kb a who) aliases"

section \<open>Delete tokens\<close>

record 'm lifecycle_token =
  dt_identity :: string
  dt_generation :: string
  dt_snapshot :: string
  dt_write :: string
  dt_matrix :: 'm

definition compose :: "('m \<Rightarrow> 'm \<Rightarrow> 'm) \<Rightarrow> 'm \<Rightarrow> 'm list \<Rightarrow> 'm result" where
  "compose mul eye writes = (if writes = [] then Inl ValueError else Inr (foldl mul eye writes))"

text \<open>\<open>ids.index(target)\<close>: the first write of that name.\<close>

fun first_write :: "string \<Rightarrow> (string \<times> 'm) list \<Rightarrow> ('m \<times> (string \<times> 'm) list) option" where
  "first_write target [] = None"
| "first_write target (w # ws) = (if fst w = target then Some (snd w, ws) else first_write target ws)"

definition delete_token :: "('m \<Rightarrow> 'm \<Rightarrow> 'm) \<Rightarrow> ('m \<Rightarrow> 'm) \<Rightarrow> 'm \<Rightarrow> (string \<times> 'm) list \<Rightarrow> string \<Rightarrow> string \<Rightarrow> string \<Rightarrow> string
    \<Rightarrow> 'm lifecycle_token result" where
  "delete_token mul ginv eye writes target identity gen snap =
     (case first_write target writes of
        None \<Rightarrow> Inl KeyError
      | Some (m, later) \<Rightarrow>
          let tok = (\<lambda>x. \<lparr>dt_identity = identity, dt_generation = gen, dt_snapshot = snap, dt_write = target, dt_matrix = x\<rparr>)
          in if later = [] then Inr (tok (ginv m))
             else case compose mul eye (map snd later) of
               Inl e \<Rightarrow> Inl e
             | Inr suffix \<Rightarrow> Inr (tok (mul (mul (ginv suffix) (ginv m)) suffix)))"

definition apply_token :: "('m \<Rightarrow> 'm \<Rightarrow> 'm) \<Rightarrow> 'm \<Rightarrow> 'm lifecycle_token \<Rightarrow> string \<Rightarrow> string \<Rightarrow> string \<Rightarrow> 'm result" where
  "apply_token mul state tok identity gen snap =
     (if (dt_identity tok, dt_generation tok, dt_snapshot tok) \<noteq> (identity, gen, snap) then Inl ValueError
      else Inr (mul state (dt_matrix tok)))"

definition validate_binding :: "real \<Rightarrow> registry \<Rightarrow> 'm lifecycle_token \<Rightarrow> string \<Rightarrow> unit result" where
  "validate_binding now r tok who =
     (case reg_head r (dt_identity tok) of
        Inl _ \<Rightarrow> Inl InvalidState
      | Inr cur \<Rightarrow>
          if cur \<noteq> dt_generation tok then Inl InvalidState
          else case reg_snapshot now r [cur] who of Inl e \<Rightarrow> Inl e | Inr _ \<Rightarrow> Inr ())"

definition static_token :: "('m \<Rightarrow> 'm) \<Rightarrow> (string \<times> 'm) list \<Rightarrow> string \<Rightarrow> 'm result" where
  "static_token ginv writes target =
     (case first_write target writes of None \<Rightarrow> Inl KeyError | Some (m, _) \<Rightarrow> Inr (ginv m))"

section \<open>The header of a typed artifact\<close>

lemma pod_type_of_value: "pod_type_of (JStr (pod_type_value t)) = Inr t"
  by (cases t) (simp_all add: pod_type_of_def pod_types_def pod_type_value_def)

lemma artifact_payload:
  assumes "reg_artifact C D now r kind payload parents who = Inr (i, r')" "\<not> present r i"
  obtains nd origins gens parents' h where "dget (rg_nodes r') i = Some nd" "nd_kind nd = kind"
    "nd_payload nd = Artifact_Payload payload origins gens parents' h" "gens \<noteq> []"
    "origins = sort (filter (is_origin r) (lineage_of r parents))"
    "gens = concat (map (generation_entry r) (lineage_of r parents))"
proof -
  from assms(1) obtain origins gens where g: "gens \<noteq> []" and add: "reg_add D r kind
      (Artifact_Payload payload origins gens (sorted_set parents) (C payload)) parents = Inr (i, r')"
    and og: "origins = sort (filter (is_origin r) (lineage_of r parents))"
      "gens = concat (map (generation_entry r) (lineage_of r parents))"
    by (auto simp only: reg_artifact_def Let_def split: if_splits)
  let ?nd = "\<lparr>nd_kind = kind, nd_payload = Artifact_Payload payload origins gens (sorted_set parents) (C payload),
    nd_revoked = False\<rparr>"
  have "dget (rg_nodes r') i = Some ?nd" using reg_add_fresh(1) [OF add assms(2), of i] by simp
  then show thesis using g og by (rule that [OF _ reg_node.select_convs(1) reg_node.select_convs(2)])
qed

text \<open>The lineage of a fresh artifact, and what is found in it.\<close>

lemma fresh_lineage:
  assumes "reg_wf r" and "reg_add D r kind payload parents = Inr (i, r')" and "\<not> present r i"
  shows "(i, x) \<in> lineage r' \<longleftrightarrow> x = i \<or> x \<in> set (lineage_of r parents)"
    and "x \<noteq> i \<Longrightarrow> dget (rg_nodes r') x = dget (rg_nodes r) x"
    and "nd_kind (the (dget (rg_nodes r') i)) = kind" and "i \<notin> set (lineage_of r parents)" and "present r' i"
proof -
  note new = reg_add_fresh [OF assms(2,3)]
  show "x \<noteq> i \<Longrightarrow> dget (rg_nodes r') x = dget (rg_nodes r) x" by (simp add: new(1))
  show "nd_kind (the (dget (rg_nodes r') i)) = kind" "present r' i"
    by (simp_all add: new(1) present_def)
  have src: "\<forall>(c, p) \<in> set (rg_edges r). c \<noteq> i \<and> p \<noteq> i" using assms(1,3) by (auto simp: reg_wf_def)
  have above: "x \<in> set (lineage_of r parents) \<longleftrightarrow> (\<exists>p \<in> set parents. (p, x) \<in> lineage r)" for x
    by (auto simp: lineage_of_def reach_rtrancl lineage_def simp del: reach.simps)
  show "(i, x) \<in> lineage r' \<longleftrightarrow> x = i \<or> x \<in> set (lineage_of r parents)" unfolding above
  proof
    assume "x = i \<or> (\<exists>p \<in> set parents. (p, x) \<in> lineage r)"
    moreover have "(i, x) \<in> lineage r'" if "p \<in> set parents" "(p, x) \<in> lineage r" for p
    proof -
      have "(i, p) \<in> set (rg_edges r')" using that(1) by (simp add: new(2))
      moreover have "(p, x) \<in> lineage r'" using that(2) extends_lineage [OF reg_add_extends(1) [OF assms(2)]] by blast
      ultimately show ?thesis by (simp add: lineage_def converse_rtrancl_into_rtrancl)
    qed
    ultimately show "(i, x) \<in> lineage r'" by auto
  qed (rule lineage_new_source [OF new(2) src new(4)])
  have "p = i" if "(p, i) \<in> lineage r" for p
    using that unfolding lineage_def by (cases rule: rtranclE) (use src in auto)
  with new(4) show "i \<notin> set (lineage_of r parents)" by (auto simp: above)
qed

definition is_generation :: "registry \<Rightarrow> string \<Rightarrow> bool" where
  "is_generation r g =
     (case dget (rg_nodes r) g of
        Some nd \<Rightarrow> nd_kind nd = ''knowledge'' \<and> (case nd_payload nd of Knowledge_Payload _ _ _ _ _ \<Rightarrow> True | _ \<Rightarrow> False)
      | None \<Rightarrow> False)"

lemma generation_entry_ids: "fst ` set (generation_entry r x) = (if is_generation r x then {x} else {})"
proof (cases "dget (rg_nodes r) x")
  case (Some nd)
  show ?thesis
    by (cases "nd_payload nd"; simp only: generation_entry_def is_generation_def Some option.case reg_payload.case; simp)
qed (simp add: generation_entry_def is_generation_def)

lemma fresh_roots:
  assumes "reg_wf r" and "reg_add D r kind payload parents = Inr (i, r')" and "\<not> present r i" and "kind \<noteq> ''origin''"
  shows "reg_roots r' i = Inr (sort (filter (is_origin r) (lineage_of r parents)))"
    and "kind \<noteq> ''knowledge'' \<Longrightarrow>
      g \<in> fst ` set (concat (map (generation_entry r) (lineage_of r parents))) \<longleftrightarrow> (i, g) \<in> lineage r' \<and> is_generation r' g"
proof -
  note new = fresh_lineage [OF assms(1-3)] and here = fresh_lineage(5) [OF assms(1-3)]
  let ?as = "reach (rg_edges r') [i] []" and ?up = "lineage_of r parents"
  have as: "set ?as = insert i (set ?up)"
    using new(1) by (auto simp: reach_rtrancl lineage_def simp del: reach.simps)
  have self: "\<not> is_origin r' i"
    using new(3) here assms(4) by (auto simp: is_origin_def present_def)
  have same: "is_origin r' x = is_origin r x" if "x \<in> set ?up" for x
  proof -
    have "x \<noteq> i" using new(4) that by auto
    then show ?thesis by (simp add: is_origin_def new(2))
  qed
  have "sort (filter (is_origin r') ?as) = sort (filter (is_origin r) ?up)"
  proof (rule sorted_distinct_set_unique)
    show "distinct (sort (filter (is_origin r') ?as))" by (simp add: reach_distinct del: reach.simps)
    show "distinct (sort (filter (is_origin r) ?up))" by (simp add: lineage_of_def del: reach.simps)
    show "set (sort (filter (is_origin r') ?as)) = set (sort (filter (is_origin r) ?up))"
      using as self same by (auto simp del: reach.simps)
  qed (simp_all del: reach.simps)
  then show "reg_roots r' i = Inr (sort (filter (is_origin r) ?up))"
    using here by (simp add: reg_roots_def reg_ancestors_Inr [THEN iffD2] del: reach.simps)
  have gen: "is_generation r' x = is_generation r x" if "x \<in> set ?up" for x
  proof -
    have "x \<noteq> i" using new(4) that by auto
    then show ?thesis by (simp add: is_generation_def new(2))
  qed
  assume "kind \<noteq> ''knowledge''"
  then have "\<not> is_generation r' i" using new(3) here by (auto simp: is_generation_def present_def)
  moreover have "g \<in> fst ` set (concat (map (generation_entry r) ?up)) \<longleftrightarrow> g \<in> set ?up \<and> is_generation r g"
    unfolding set_concat set_map image_UN image_image generation_entry_ids by auto
  ultimately show "g \<in> fst ` set (concat (map (generation_entry r) ?up)) \<longleftrightarrow> (i, g) \<in> lineage r' \<and> is_generation r' g"
    using new(1) [of g] gen [of g] by blast
qed

text \<open>The fields that are copied as tuples.\<close>

definition tuple_fields :: "payload \<Rightarrow> json list" where
  "tuple_fields p = [dget_or p ''tags'' (JList []), dget_or p ''aliases'' (JList []), dget_or p ''capabilities'' (JList []),
     dget_or p ''entity_ids'' (dget_or p ''entities'' (JList []))]"

lemma py_iter_error: "py_iter x = Inl e \<Longrightarrow> e = TypeError"
  by (cases x) auto

lemma map_result_error: "map_result f xs = Inl e \<Longrightarrow> \<exists>x \<in> set xs. f x = Inl e"
proof (induction xs)
  case (Cons x xs)
  then show ?case by (cases "f x") (auto split: sum.splits)
qed simp

lemma map_result_defined: "map_result f xs = Inr ys \<Longrightarrow> x \<in> set xs \<Longrightarrow> \<exists>y. f x = Inr y"
proof (induction xs arbitrary: ys)
  case (Cons z xs)
  then show ?case by (auto split: sum.splits)
qed simp

text \<open>C32. The type of a pod survives the registry. In a well-formed registry, an artifact that is new to it is
  stored under the semantic type that was asked for with a payload that meets the contract of that type, and the
  header read from it has this type; its origins are the roots of its lineage, as \<open>roots\<close> gives them, and its
  generations are the knowledge generations of its lineage, at least one. Reading the header
  fails only with \<open>TypeError\<close>, and only for a tags, aliases, capabilities or entities field that
  is not iterable, which no contract looks at. (Storing the same artifact again changes nothing; its header
  is then that of the first time.)\<close>

theorem typed_artifact_keeps_type:
  assumes "reg_wf r" "typed_artifact C D now r kind pt payload parents who = Inr (i, r')" "\<not> present r i"
  shows "\<exists>t nd body. pod_type_of pt = Inr t \<and> dget (rg_nodes r') i = Some nd \<and> nd_kind nd = kind
    \<and> body = dput ''semantic_type'' (JStr (pod_type_value t)) payload
    \<and> validate_payload (JStr (pod_type_value t)) body = Inr ()
    \<and> (case from_artifact key i nd of
         Inr h \<Rightarrow> ph_type h = t \<and> ph_pod_id h = i \<and> ph_artifact h = key \<and> ph_generations h \<noteq> []
           \<and> reg_roots r' i = Inr (ph_origins h)
           \<and> (\<forall>g. g \<in> set (ph_generations h) \<longleftrightarrow> (i, g) \<in> lineage r' \<and> is_generation r' g)
       | Inl e \<Rightarrow> e = TypeError \<and> (\<exists>x \<in> set (tuple_fields body). \<not> is_ok (py_iter x)))"
proof -
  from assms(2) obtain t where t: "pod_type_of pt = Inr t" and
    v: "validate_payload (JStr (pod_type_value t)) (dput ''semantic_type'' (JStr (pod_type_value t)) payload) = Inr ()" and
    art: "reg_artifact C D now r kind (JObj (dput ''semantic_type'' (JStr (pod_type_value t)) payload)) parents who = Inr (i, r')"
    by (auto simp: typed_artifact_def Let_def split: sum.splits)
  define body where "body = dput ''semantic_type'' (JStr (pod_type_value t)) payload"
  from artifact_payload [OF art assms(3)] obtain nd origins gens parents' h where
    nd: "dget (rg_nodes r') i = Some nd" "nd_kind nd = kind" "nd_payload nd = Artifact_Payload (JObj body) origins gens parents' h" "gens \<noteq> []"
    and og: "origins = sort (filter (is_origin r) (lineage_of r parents))" "gens = concat (map (generation_entry r) (lineage_of r parents))"
    unfolding body_def .
  obtain os gs where kind: "kind \<in> set artifact_kinds" and add: "reg_add D r kind (Artifact_Payload
      (JObj (dput ''semantic_type'' (JStr (pod_type_value t)) payload)) os gs (sorted_set parents)
      (C (JObj (dput ''semantic_type'' (JStr (pod_type_value t)) payload)))) parents = Inr (i, r')"
    by (rule reg_artifact_Inr [OF art])
  have kinds: "kind \<noteq> ''origin''" "kind \<noteq> ''knowledge''" using kind by (auto simp: artifact_kinds_def)
  note roots = fresh_roots [OF assms(1) add assms(3) kinds(1), folded og]
  have ty: "pod_type_of (dget_or body ''semantic_type'' x) = Inr t" for x
    by (simp add: body_def dget_or_put pod_type_of_value)
  let ?tuples = "map_result (\<lambda>r. r) [tuple_of body ''tags'', tuple_of body ''aliases'', tuple_of body ''capabilities'',
      py_iter (dget_or body ''entity_ids'' (dget_or body ''entities'' (JList [])))]"
  have all: "[tuple_of body ''tags'', tuple_of body ''aliases'', tuple_of body ''capabilities'',
      py_iter (dget_or body ''entity_ids'' (dget_or body ''entities'' (JList [])))] = map py_iter (tuple_fields body)"
    by (simp add: tuple_fields_def tuple_of_def)
  have fa: "from_artifact key i nd = (case ?tuples of Inl e \<Rightarrow> Inl e | Inr tuples \<Rightarrow> Inr
      \<lparr>ph_pod_id = i, ph_type = t, ph_origins = origins,
       ph_knowledge = sorted_set (map (\<lambda>g. fst (snd g)) gens), ph_generations = sorted_set (map fst gens),
       ph_artifact = key, ph_tuples = tuples,
       ph_fields = map (jget body) [''surprise_gate'', ''model_variant'', ''model_family'', ''post_training'',
         ''interface'', ''pod_identity'', ''semantic_role'', ''domain'', ''sensitivity'', ''confidence'']\<rparr>)"
    using nd(4) by (simp only: from_artifact_def nd(3) reg_payload.case json.case ty sum.case if_False)
  have "set (sorted_set (map fst gens)) \<noteq> {}" using nd(4) by (simp add: sorted_set_def)
  then have some: "sorted_set (map fst gens) \<noteq> []" by (metis list.set(1))
  have gens: "\<forall>g. g \<in> set (sorted_set (map fst gens)) \<longleftrightarrow> (i, g) \<in> lineage r' \<and> is_generation r' g"
    unfolding set_sorted_set set_map using roots(2) [OF kinds(2)] by blast
  have bad: "e = TypeError \<and> (\<exists>x \<in> set (tuple_fields body). \<not> is_ok (py_iter x))" if "?tuples = Inl e" for e
  proof -
    from map_result_error [OF that [unfolded all]] obtain x where x: "x \<in> set (tuple_fields body)" "py_iter x = Inl e" by auto
    show ?thesis using py_iter_error [OF x(2)] x by (intro conjI bexI [of _ x]) simp_all
  qed
  have "case from_artifact key i nd of
      Inr h \<Rightarrow> ph_type h = t \<and> ph_pod_id h = i \<and> ph_artifact h = key \<and> ph_generations h \<noteq> []
        \<and> reg_roots r' i = Inr (ph_origins h)
        \<and> (\<forall>g. g \<in> set (ph_generations h) \<longleftrightarrow> (i, g) \<in> lineage r' \<and> is_generation r' g)
    | Inl e \<Rightarrow> e = TypeError \<and> (\<exists>x \<in> set (tuple_fields body). \<not> is_ok (py_iter x))"
  proof (cases ?tuples)
    case (Inl e)
    then show ?thesis using bad [OF Inl] by (simp only: fa sum.case)
  next
    case (Inr tuples)
    show ?thesis using some roots(1) gens
      by (simp only: fa Inr sum.case pod_header.select_convs simp_thms)
  qed
  then show ?thesis using t nd v unfolding body_def by blast
qed

definition demo_math :: payload where
  "demo_math = [(''expression'', JStr ''a+b''), (''operands'', JList []), (''unit'', JStr ''days'')]"

theorem typed_artifact_keeps_type_witness:
  "\<exists>i r' nd h. typed_artifact sample_C sample_D 3 sample_reg ''text'' (JStr ''math'') demo_math [''lora:w''] ''local'' = Inr (i, r')
     \<and> dget (rg_nodes r') i = Some nd \<and> from_artifact ''k'' i nd = Inr h \<and> ph_type h = Math"
proof -
  let ?r = "typed_artifact sample_C sample_D 3 sample_reg ''text'' (JStr ''math'') demo_math [''lora:w''] ''local''"
  have "map_sum id fst ?r = Inr ''text:answer''" by code_simp
  then obtain r' where r: "?r = Inr (''text:answer'', r')" by (cases ?r) auto
  have new: "\<not> present sample_reg ''text:answer''" unfolding present_def by code_simp
  have ty: "pod_type_of (JStr ''math'') = Inr Math"
    using pod_type_of_value [of Math] by (simp add: pod_type_value_def)
  have "list_all (\<lambda>x. is_ok (py_iter x)) (tuple_fields (dput ''semantic_type'' (JStr (pod_type_value Math)) demo_math))"
    by code_simp
  then have it: "\<forall>x \<in> set (tuple_fields (dput ''semantic_type'' (JStr (pod_type_value Math)) demo_math)). is_ok (py_iter x)"
    by (simp add: list_all_iff)
  have wf: "reg_wf sample_reg"
    unfolding sample_reg_def by (rule reg_machine.run_invar [OF reg_wf_empty])
  from typed_artifact_keeps_type [OF wf r new, of "''k''"] ty obtain nd where nd: "dget (rg_nodes r') ''text:answer'' = Some nd"
    and c: "case from_artifact ''k'' ''text:answer'' nd of Inr h \<Rightarrow> ph_type h = Math | Inl e \<Rightarrow>
      (\<exists>x \<in> set (tuple_fields (dput ''semantic_type'' (JStr (pod_type_value Math)) demo_math)). \<not> is_ok (py_iter x))"
    by (elim exE conjE) (rule that, simp, simp split: sum.splits)
  from c it obtain h where "from_artifact ''k'' ''text:answer'' nd = Inr h" "ph_type h = Math"
    by (cases "from_artifact ''k'' ''text:answer'' nd") auto
  with r nd show ?thesis by blast
qed

section \<open>What a manifest binds\<close>

lemma dead_lineage:
  assumes "reg_revoke now r x = Inr (affected, r1)" "(d, x) \<in> lineage r" "d \<in> set ids"
  shows "reg_snapshot now' (run_steps (reg_step C D) r1 ops) ids who = Inl InvalidState"
proof -
  let ?r = "run_steps (reg_step C D) r1 ops"
  have "revoked r1 x" using reg_revoke_revoked(1) [OF assms(1), of x] reg_revoke_Inr(1) [OF assms(1)] by simp
  then have "node_bars now' ?r who x"
    using extends_revoked [OF reg_run_extends] by (fastforce simp: node_bars_def revoked_def split: option.splits)
  moreover have "(d, x) \<in> lineage ?r"
    using assms(2) extends_lineage [OF reg_run_extends] by (fastforce simp: lineage_def reg_revoke_Inr(2) [OF assms(1)])
  ultimately have "\<not> is_ok (reg_valid now' ?r d who)" by (intro not_valid_if_bars)
  then have "\<not> all_valid now' ?r (sorted_set ids) who"
    using assms(3) by (auto simp: all_valid_def list_all_iff sorted_set_def)
  then show ?thesis by (simp add: reg_snapshot_def Let_def)
qed

lemma build_manifest_parts:
  assumes "build_manifest now r gen keys reader who = Inr m"
  shows "em_generation m = gen" "em_artifacts m = sorted_set keys" "em_reader m = reader"
    and "reg_snapshot now r (manifest_deps gen (sorted_set keys) reader) who = Inr (em_snapshot m)"
    and "\<exists>oss. map_result (derived_from r gen) (sorted_set keys) = Inr oss" "is_ok (check_reader r gen reader)"
    and "\<exists>nd. reg_get_node r gen = Inr nd \<and> nd_kind nd = ''knowledge''"
proof -
  obtain snap where snap: "reg_snapshot now r (manifest_deps gen (sorted_set keys) reader) who = Inr snap"
    using assms by (auto simp only: build_manifest_def Let_def split: if_splits sum.splits)
  obtain origins nd where nd: "reg_roots r gen = Inr origins" "reg_get_node r gen = Inr nd" "nd_kind nd = ''knowledge''"
    using assms by (auto simp only: build_manifest_def Let_def snap sum.case prod.case split: if_splits sum.splits)
  obtain oss where oss: "map_result (derived_from r gen) (sorted_set keys) = Inr oss"
    using assms by (auto simp only: build_manifest_def Let_def snap nd sum.case prod.case split: if_splits sum.splits)
  obtain u where u: "check_reader r gen reader = Inr u"
    using assms by (auto simp only: build_manifest_def Let_def snap nd oss sum.case prod.case split: if_splits sum.splits)
  have "m = \<lparr>em_generation = gen, em_artifacts = sorted_set keys, em_origins = sorted_set (origins @ concat oss),
      em_reader = reader, em_snapshot = snap\<rparr>"
    using assms by (simp add: build_manifest_def snap nd oss u Let_def split: if_splits)
  then show "em_generation m = gen" "em_artifacts m = sorted_set keys" "em_reader m = reader"
    "reg_snapshot now r (manifest_deps gen (sorted_set keys) reader) who = Inr (em_snapshot m)"
    by (simp_all add: snap)
  show "\<exists>oss. map_result (derived_from r gen) (sorted_set keys) = Inr oss" "is_ok (check_reader r gen reader)"
    "\<exists>nd. reg_get_node r gen = Inr nd \<and> nd_kind nd = ''knowledge''"
    using oss u nd by simp_all
qed

text \<open>An execution manifest binds what it lists. Building one proves that the generation is
  knowledge and that every artifact, and the reader if there is one, is derived from it; it
  validates as long as nothing changes; and once any node in the lineage of the generation, of an
  artifact or of the reader has been revoked it never validates again, at any time and whatever
  follows.\<close>

theorem manifest_binds_lineage:
  assumes "build_manifest now r gen keys reader who = Inr m"
  shows "validate_manifest now r m = Inr (em_snapshot m)
    \<and> (\<exists>nd. reg_get_node r gen = Inr nd \<and> nd_kind nd = ''knowledge'')
    \<and> (\<forall>a \<in> set keys. \<exists>nd. reg_get_node r a = Inr nd \<and> gen \<in> set (node_generations nd))
    \<and> (\<forall>k. reader = Some k \<and> k \<noteq> [] \<longrightarrow> (\<exists>nd. reg_get_node r k = Inr nd \<and> gen \<in> set (node_generations nd)))
    \<and> (\<forall>t d x affected r1 ops now'. d \<in> set (manifest_deps gen keys reader) \<longrightarrow> (d, x) \<in> lineage r
         \<longrightarrow> reg_revoke t r x = Inr (affected, r1)
         \<longrightarrow> validate_manifest now' (run_steps (reg_step C D) r1 ops) m = Inl InvalidState)"
proof (intro conjI allI ballI impI)
  note parts = build_manifest_parts [OF assms]
  have who: "snd (em_snapshot m) = who"
    using parts(4) by (auto simp: reg_snapshot_def Let_def split: if_splits dest: sym)
  show "validate_manifest now r m = Inr (em_snapshot m)"
    by (simp add: validate_manifest_def parts(1-4) who)
  show "\<exists>nd. reg_get_node r gen = Inr nd \<and> nd_kind nd = ''knowledge''" by (rule parts(7))
  fix a assume "a \<in> set keys"
  then have a: "a \<in> set (sorted_set keys)" by (simp add: sorted_set_def)
  from parts(5) obtain oss where "map_result (derived_from r gen) (sorted_set keys) = Inr oss" ..
  from map_result_defined [OF this a] obtain os where "derived_from r gen a = Inr os" by blast
  then show "\<exists>nd. reg_get_node r a = Inr nd \<and> gen \<in> set (node_generations nd)"
    by (auto simp: derived_from_def split: sum.splits if_splits)
next
  fix k assume "reader = Some k \<and> k \<noteq> []"
  then show "\<exists>nd. reg_get_node r k = Inr nd \<and> gen \<in> set (node_generations nd)"
    using build_manifest_parts(6) [OF assms] by (auto simp: check_reader_def split: sum.splits if_splits)
next
  fix t d x affected r1 ops now'
  assume d: "d \<in> set (manifest_deps gen keys reader)" and x: "(d, x) \<in> lineage r" and rev: "reg_revoke t r x = Inr (affected, r1)"
  note parts = build_manifest_parts [OF assms]
  have "d \<in> set (manifest_deps gen (sorted_set keys) reader)" using d by (simp add: manifest_deps_def sorted_set_def)
  from dead_lineage [OF rev x this] show "validate_manifest now' (run_steps (reg_step C D) r1 ops) m = Inl InvalidState"
    by (simp add: validate_manifest_def parts(1-3))
qed

theorem manifest_binds_lineage_witness:
  "\<exists>m affected r1. build_manifest 3 sample_reg ''knowledge:k+'' [''lora:w''] (Some ''lora:w'') ''local'' = Inr m
     \<and> reg_revoke 4 sample_reg ''origin:o1'' = Inr (affected, r1) \<and> validate_manifest 5 r1 m = Inl InvalidState"
proof -
  have "is_ok (build_manifest 3 sample_reg ''knowledge:k+'' [''lora:w''] (Some ''lora:w'') ''local'')" by code_simp
  then obtain m where m: "build_manifest 3 sample_reg ''knowledge:k+'' [''lora:w''] (Some ''lora:w'') ''local'' = Inr m" by (rule is_okE)
  have "is_ok (reg_revoke 4 sample_reg ''origin:o1'')" by code_simp
  then obtain affected r1 where rev: "reg_revoke 4 sample_reg ''origin:o1'' = Inr (affected, r1)"
    by (cases "reg_revoke 4 sample_reg ''origin:o1''") auto
  have "''lora:w'' \<in> set (manifest_deps ''knowledge:k+'' [''lora:w''] (Some ''lora:w''))" by (simp add: manifest_deps_def)
  then have "validate_manifest 5 (run_steps (reg_step sample_C sample_D) r1 []) m = Inl InvalidState"
    by (rule manifest_binds_lineage [OF m, THEN conjunct2, THEN conjunct2, THEN conjunct2, THEN conjunct2, rule_format,
          OF _ sample_reg_lineage rev])
  then have "validate_manifest 5 r1 m = Inl InvalidState" by (simp only: run_steps.simps)
  with m rev show ?thesis by blast
qed

section \<open>Deleting one write\<close>

lemma foldl_unit:
  assumes "\<And>a b c. mul (mul a b) c = mul a (mul b c)" "\<And>a. mul a eye = a" "\<And>a. mul eye a = a"
  shows "foldl mul s xs = mul s (foldl mul eye xs)"
proof (induction xs arbitrary: s)
  case (Cons x xs)
  show ?case unfolding foldl_Cons Cons [of "mul s x"] Cons [of "mul eye x"] by (simp add: assms)
qed (simp add: assms)

definition invertible :: "('m \<Rightarrow> 'm \<Rightarrow> 'm) \<Rightarrow> 'm \<Rightarrow> 'm \<Rightarrow> bool" where
  "invertible mul eye a = (\<exists>b. mul a b = eye \<and> mul b a = eye)"

lemma invertible_foldl:
  assumes ac: "\<And>a b c. mul (mul a b) c = mul a (mul b c)" and un: "\<And>a. mul a eye = a" "\<And>a. mul eye a = a"
    and all: "\<forall>x \<in> set xs. invertible mul eye x"
  shows "invertible mul eye (foldl mul eye xs)"
  using all
proof (induction xs rule: rev_induct)
  case Nil
  then show ?case by (auto simp: invertible_def un)
next
  case (snoc x xs)
  then obtain a b where a: "mul (foldl mul eye xs) a = eye" "mul a (foldl mul eye xs) = eye"
    and b: "mul x b = eye" "mul b x = eye" by (auto simp: invertible_def)
  have "mul (mul (foldl mul eye xs) x) (mul b a) = mul (foldl mul eye xs) (mul (mul x b) a)" by (simp only: ac)
  moreover have "mul (mul b a) (mul (foldl mul eye xs) x) = mul b (mul (mul a (foldl mul eye xs)) x)" by (simp only: ac)
  ultimately show ?case by (auto simp: invertible_def a b un intro!: exI [of _ "mul b a"])
qed

lemma first_write_split:
  "target \<notin> fst ` set pre \<Longrightarrow> first_write target (pre @ (target, m) # post) = Some (m, post)"
  by (induction pre) auto

text \<open>A delete token removes exactly its write. For a product that is associative with a unit and an
  inverse that inverts what can be inverted, the token made for a write, applied to a state that
  went through all the writes, gives the state that went through the others in their order, however
  many came later and although the writes do not commute. Under any other identity, generation or
  snapshot the token is refused.\<close>

theorem delete_token_removes_write:
  assumes assoc: "\<forall>a b c. mul (mul a b) c = mul a (mul b c)" and unit: "\<forall>a. mul a eye = a \<and> mul eye a = a"
    and ginv: "\<forall>a. invertible mul eye a \<longrightarrow> mul a (ginv a) = eye \<and> mul (ginv a) a = eye"
    and inv_m: "\<forall>w \<in> set ((target, m) # post). invertible mul eye (snd w)"
    and first: "target \<notin> fst ` set pre"
  shows "\<exists>tok. delete_token mul ginv eye (pre @ (target, m) # post) target identity gen snap = Inr tok
    \<and> apply_token mul (foldl mul state (map snd (pre @ (target, m) # post))) tok identity gen snap
        = Inr (foldl mul state (map snd (pre @ post)))
    \<and> (\<forall>s i g n. (i, g, n) \<noteq> (identity, gen, snap) \<longrightarrow> apply_token mul s tok i g n = Inl ValueError)"
proof -
  have ac: "mul (mul a b) c = mul a (mul b c)" for a b c using assoc by blast
  have un: "mul a eye = a" "mul eye a = a" for a using unit by blast+
  let ?Q = "foldl mul eye (map snd post)" and ?P = "foldl mul state (map snd pre)"
  define x where "x = (if post = [] then ginv m else mul (mul (ginv ?Q) (ginv m)) ?Q)"
  have tok: "delete_token mul ginv eye (pre @ (target, m) # post) target identity gen snap = Inr
      \<lparr>dt_identity = identity, dt_generation = gen, dt_snapshot = snap, dt_write = target, dt_matrix = x\<rparr>"
    by (simp add: delete_token_def first_write_split [OF first] compose_def x_def)
  have im: "mul m (ginv m) = eye" using ginv inv_m by simp
  have iq: "mul ?Q (ginv ?Q) = eye"
    using ginv invertible_foldl [of mul eye "map snd post", OF ac un(1) un(2)] inv_m by auto
  have rest: "foldl mul s (map snd post) = mul s ?Q" for s by (rule foldl_unit) (simp_all only: ac un)
  have "mul (foldl mul state (map snd (pre @ (target, m) # post))) x = foldl mul state (map snd (pre @ post))"
  proof (cases "post = []")
    case True
    then show ?thesis by (simp add: x_def ac im un)
  next
    case False
    have "mul (mul (mul ?P m) ?Q) x = mul ?P (mul m (mul (mul ?Q (ginv ?Q)) (mul (ginv m) ?Q)))"
      using False by (simp only: x_def if_False ac)
    also have "\<dots> = mul ?P (mul (mul m (ginv m)) ?Q)" unfolding iq un by (simp only: ac)
    also have "\<dots> = mul ?P ?Q" by (simp only: im un)
    finally show ?thesis
      by (simp only: map_append list.map foldl_append foldl_Cons snd_conv rest [of "mul ?P m"] rest [of ?P])
  qed
  then show ?thesis by (simp add: tok apply_token_def)
qed

text \<open>Reflections and shifts of the line: two of them do not commute.\<close>

definition demo_mul :: "bool \<times> int \<Rightarrow> bool \<times> int \<Rightarrow> bool \<times> int" where
  "demo_mul a b = (fst a \<noteq> fst b, (if fst b then - snd a else snd a) + snd b)"

definition demo_ginv :: "bool \<times> int \<Rightarrow> bool \<times> int" where
  "demo_ginv a = (fst a, if fst a then snd a else - snd a)"

theorem delete_token_removes_write_witness:
  "demo_mul (False, 3) (True, 1) \<noteq> demo_mul (True, 1) (False, 3)
   \<and> (\<exists>tok. delete_token demo_mul demo_ginv (False, 0) [(''a'', (False, 3)), (''b'', (True, 1)), (''c'', (False, 5))] ''b'' ''i'' ''g'' ''s'' = Inr tok
     \<and> apply_token demo_mul (demo_mul (demo_mul (demo_mul (False, 0) (False, 3)) (True, 1)) (False, 5)) tok ''i'' ''g'' ''s''
         = Inr (demo_mul (demo_mul (False, 0) (False, 3)) (False, 5))
     \<and> apply_token demo_mul (False, 0) tok ''i'' ''g2'' ''s'' = Inl ValueError)"
proof -
  have "\<forall>a b c. demo_mul (demo_mul a b) c = demo_mul a (demo_mul b c)"
    "\<forall>a. demo_mul a (False, 0) = a \<and> demo_mul (False, 0) a = a"
    "\<forall>a. invertible demo_mul (False, 0) a \<longrightarrow> demo_mul a (demo_ginv a) = (False, 0) \<and> demo_mul (demo_ginv a) a = (False, 0)"
    by (auto simp: demo_mul_def demo_ginv_def)
  moreover have "\<forall>w \<in> set ((''b'', (True, 1)) # [(''c'', (False, 5))]). invertible demo_mul (False, 0) (snd w)"
    by (auto simp: invertible_def demo_mul_def intro: exI [of _ "(True, 1)"] exI [of _ "- 5"])
  ultimately have "\<exists>tok. delete_token demo_mul demo_ginv (False, 0) ([(''a'', (False, 3))] @ (''b'', (True, 1)) # [(''c'', (False, 5))]) ''b'' ''i'' ''g'' ''s'' = Inr tok
     \<and> apply_token demo_mul (foldl demo_mul (False, 0) (map snd ([(''a'', (False, 3))] @ (''b'', (True, 1)) # [(''c'', (False, 5))]))) tok ''i'' ''g'' ''s''
         = Inr (foldl demo_mul (False, 0) (map snd ([(''a'', (False, 3))] @ [(''c'', (False, 5))])))
     \<and> (\<forall>s i g n. (i, g, n) \<noteq> (''i'', ''g'', ''s'') \<longrightarrow> apply_token demo_mul s tok i g n = Inl ValueError)"
    by (rule delete_token_removes_write) simp
  then show ?thesis by (auto simp: demo_mul_def)
qed

section \<open>The order of the routed candidates\<close>

text \<open>The taxonomy filter is a filter with two groups. The pods that pass the hard domain, the type and
  the required tags come out with the ones of a soft domain first, each group in the order of the
  input: the number of shared tags, which is part of the score, is the same for every one of them.\<close>

theorem route_is_two_groups:
  "route_candidates pods d t required soft =
     filter (\<lambda>p. pd_domain p \<in> set soft) (filter (hard_match d t required) pods)
     @ filter (\<lambda>p. pd_domain p \<notin> set soft) (filter (hard_match d t required) pods)"
proof -
  let ?ok = "filter (hard_match d t required) pods" and ?soft = "\<lambda>p. pd_domain p \<in> set soft"
  let ?key = "\<lambda>p. - taxonomy_score required soft p" and ?n = "real (card (set required))"
  have score: "?key p = (if ?soft p then - 2 else 0) - ?n" if "p \<in> set ?ok" for p
  proof -
    have "set required \<inter> set (pd_tags p) = set required" using that by (auto simp: hard_match_def)
    then show ?thesis by (simp add: taxonomy_score_def)
  qed
  have same: "filter (\<lambda>x. ?key k = ?key x) xs = filter (\<lambda>x. ?soft k = ?soft x) xs"
    if "k \<in> set ?ok" "set xs \<subseteq> set ?ok" for k xs
  proof (rule filter_cong [OF refl])
    fix x assume "x \<in> set xs"
    then have "x \<in> set ?ok" using that(2) by blast
    then show "(?key k = ?key x) = (?soft k = ?soft x)" unfolding score [OF that(1)] score [OF \<open>x \<in> set ?ok\<close>] by simp
  qed
  have "sort_key ?key ?ok = filter ?soft ?ok @ filter (\<lambda>p. \<not> ?soft p) ?ok"
  proof (rule properties_for_sort_key)
    show "mset (filter ?soft ?ok @ filter (\<lambda>p. \<not> ?soft p) ?ok) = mset ?ok"
      by (simp only: mset_append mset_filter) (rule multiset_partition [symmetric])
  next
    fix k assume k: "k \<in> set (filter ?soft ?ok @ filter (\<lambda>p. \<not> ?soft p) ?ok)"
    then have "k \<in> set ?ok" by auto
    then show "filter (\<lambda>x. ?key k = ?key x) (filter ?soft ?ok @ filter (\<lambda>p. \<not> ?soft p) ?ok) = filter (\<lambda>x. ?key k = ?key x) ?ok"
      by (cases "?soft k"; subst (1 2) same) (auto simp: filter_empty_conv conj_commute intro!: filter_cong)
  next
    have a: "map ?key (filter ?soft ?ok) = map (\<lambda>_. - 2 - ?n) (filter ?soft ?ok)"
      by (rule map_cong [OF refl], subst score) auto
    have b: "map ?key (filter (\<lambda>p. \<not> ?soft p) ?ok) = map (\<lambda>_. 0 - ?n) (filter (\<lambda>p. \<not> ?soft p) ?ok)"
      by (rule map_cong [OF refl], subst score) auto
    show "sorted (map ?key (filter ?soft ?ok @ filter (\<lambda>p. \<not> ?soft p) ?ok))"
      unfolding map_append a b by (auto simp: sorted_append sorted_replicate map_replicate_const)
  qed
  then show ?thesis by (simp add: route_candidates_def)
qed

end
