(* ===== verification/Perception.thy ===== *)
theory Perception
  imports Py_Values
begin

text \<open>
  The perception stream (\<open>neural_pods/perception.py\<close>): a bounded queue, a drain thread that hands the
  events to a consumer, and the counters. The drain thread is modelled by where it stands in its
  loop, and every critical section is one step, so that the calls of other threads come between any
  two of them. Events are values of any type.
\<close>

section \<open>The stream\<close>

text \<open>
  Where the drain thread is: about to look at the stop flag, about to take an event, in the consumer
  with an event, back from it with the outcome not yet booked, or gone.
\<close>

datatype 'e drain_thread = At_Loop | In_Loop | Calling nat 'e | Booking 'e bool | Gone

record 'e perception =
  ps_pod_id :: string
  ps_max_queue :: int
  ps_min_interval :: real
  ps_queue :: "'e list"
  ps_dropped :: nat
  ps_rate_dropped :: nat
  ps_emitted :: nat
  ps_consumed :: nat
  ps_errors :: nat
  ps_inflight :: int
  ps_last_emit :: real
  ps_consumer :: "nat option"
  ps_stopped :: bool
  ps_thread :: "'e drain_thread"

definition new_stream :: "string \<Rightarrow> int \<Rightarrow> real option \<Rightarrow> 'e perception" where
  "new_stream pod max_queue max_events =
     \<lparr>ps_pod_id = pod, ps_max_queue = max_queue,
      ps_min_interval = (case max_events of None \<Rightarrow> 0 | Some r \<Rightarrow> if r = 0 then 0 else 1 / r),
      ps_queue = [], ps_dropped = 0, ps_rate_dropped = 0, ps_emitted = 0, ps_consumed = 0, ps_errors = 0,
      ps_inflight = 0, ps_last_emit = 0, ps_consumer = None, ps_stopped = False, ps_thread = At_Loop\<rparr>"

datatype emit_result = Ok | Dropped | Rate_Dropped

definition ps_emit :: "real \<Rightarrow> 'e \<Rightarrow> 'e perception \<Rightarrow> 'e perception \<times> emit_result" where
  "ps_emit now e s =
     (if ps_min_interval s \<noteq> 0 \<and> now - ps_last_emit s < ps_min_interval s
      then (s\<lparr>ps_rate_dropped := ps_rate_dropped s + 1\<rparr>, Rate_Dropped)
      else if int (length (ps_queue s)) \<ge> ps_max_queue s
      then (s\<lparr>ps_dropped := ps_dropped s + 1\<rparr>, Dropped)
      else (s\<lparr>ps_last_emit := now, ps_queue := ps_queue s @ [e], ps_emitted := ps_emitted s + 1\<rparr>, Ok))"

definition ps_set_consumer :: "nat option \<Rightarrow> 'e perception \<Rightarrow> 'e perception" where
  "ps_set_consumer c s = s\<lparr>ps_consumer := c\<rparr>"

text \<open>What a consumer does with an event: it returns, raises an \<open>Exception\<close>, or raises something that is
  none (\<open>SystemExit\<close>, \<open>KeyboardInterrupt\<close>), which the thread does not catch.\<close>

datatype consumer_outcome = Returns | Raises | Exits

definition ps_take :: "'e perception \<Rightarrow> 'e perception" where
  "ps_take s =
     (case (ps_consumer s, ps_queue s) of
        (Some c, e # es) \<Rightarrow> s\<lparr>ps_queue := es, ps_inflight := ps_inflight s + 1, ps_thread := Calling c e\<rparr>
      | _ \<Rightarrow> s\<lparr>ps_thread := At_Loop\<rparr>)"

text \<open>One step of \<open>_drain_loop\<close>; the outcome counts only inside the consumer.\<close>

definition ps_drain_step :: "consumer_outcome \<Rightarrow> 'e perception \<Rightarrow> 'e perception" where
  "ps_drain_step out s =
     (case ps_thread s of
        At_Loop \<Rightarrow> s\<lparr>ps_thread := (if ps_stopped s then Gone else In_Loop)\<rparr>
      | In_Loop \<Rightarrow> ps_take s
      | Calling c e \<Rightarrow>
          s\<lparr>ps_thread := (case out of Returns \<Rightarrow> Booking e False | Raises \<Rightarrow> Booking e True | Exits \<Rightarrow> Gone)\<rparr>
      | Booking e failed \<Rightarrow>
          (if failed then s\<lparr>ps_inflight := ps_inflight s - 1, ps_errors := ps_errors s + 1, ps_thread := At_Loop\<rparr>
           else s\<lparr>ps_inflight := ps_inflight s - 1, ps_consumed := ps_consumed s + 1, ps_thread := At_Loop\<rparr>)
      | Gone \<Rightarrow> s)"

definition ps_stop :: "'e perception \<Rightarrow> 'e perception" where
  "ps_stop s = s\<lparr>ps_stopped := True\<rparr>"

text \<open>\<open>close\<close> and \<open>drain\<close> look at the states that the others leave behind: \<open>close\<close> at the one in which
  \<open>join\<close> returns, \<open>drain\<close> at the ones of its polls, each with the time it read before, and at last once
  more when the time is up.\<close>

definition ps_closed :: "'e perception \<Rightarrow> bool" where
  "ps_closed s = (case ps_thread s of Gone \<Rightarrow> True | _ \<Rightarrow> False)"

definition ps_idle :: "'e perception \<Rightarrow> bool" where
  "ps_idle s = (ps_queue s = [] \<and> ps_inflight s = 0)"

fun ps_drain :: "real \<Rightarrow> (real \<times> 'e perception) list \<Rightarrow> 'e perception \<Rightarrow> bool" where
  "ps_drain deadline [] final = ps_idle final"
| "ps_drain deadline ((now, s) # polls) final =
     (if now < deadline then (if ps_idle s then True else ps_drain deadline polls final) else ps_idle final)"

record perception_stats =
  pt_pod_id :: string
  pt_counts :: "nat list"
  pt_inflight :: int
  pt_has_consumer :: bool
  pt_alive :: bool

text \<open>The counts are emitted, consumed, dropped, rate dropped, consumer errors and queued.\<close>

definition ps_stats :: "'e perception \<Rightarrow> perception_stats" where
  "ps_stats s =
     \<lparr>pt_pod_id = ps_pod_id s,
      pt_counts = [ps_emitted s, ps_consumed s, ps_dropped s, ps_rate_dropped s, ps_errors s, length (ps_queue s)],
      pt_inflight = ps_inflight s, pt_has_consumer = (ps_consumer s \<noteq> None), pt_alive = (\<not> ps_closed s)\<rparr>"

section \<open>The synthetic detector\<close>

definition detection :: "string \<Rightarrow> int list \<Rightarrow> real \<Rightarrow> json" where
  "detection cls box conf =
     JObj [(''class'', JStr cls), (''box'', JList (map JInt box)), (''conf'', JFloat (Fin conf))]"

definition synthetic_detector_event :: "real \<Rightarrow> int \<Rightarrow> json" where
  "synthetic_detector_event now sq =
     (let x = sq * 37 mod 640; y = sq * 53 mod 480
      in JObj [(''seq'', JInt sq),
         (''detections'', JList [detection ''component'' [x, y, x + 20, y + 20] (91 / 100),
                                 detection ''pallet'' [y, x, y + 40, x + 40] (78 / 100)]),
         (''ts_ms'', JInt (py_trunc (now * 1000)))])"

section \<open>What the calls leave behind\<close>

text \<open>
  A history of the stream: the results of \<open>emit\<close>, the events handed to a consumer and the outcomes
  booked for them, in the order of the critical sections, whichever threads they belong to.
\<close>

datatype 'e ps_label = Emitted real 'e emit_result | Given nat 'e | Settled 'e bool

definition drain_label :: "'e perception \<Rightarrow> 'e ps_label list" where
  "drain_label s =
     (case ps_thread s of
        In_Loop \<Rightarrow> (case (ps_consumer s, ps_queue s) of (Some c, e # es) \<Rightarrow> [Given c e] | _ \<Rightarrow> [])
      | Booking e failed \<Rightarrow> [Settled e failed]
      | _ \<Rightarrow> [])"

inductive ps_run :: "'e perception \<Rightarrow> 'e ps_label list \<Rightarrow> 'e perception \<Rightarrow> bool" for s0 where
  ps_start: "ps_run s0 [] s0"
| ps_run_emit: "ps_run s0 tr s \<Longrightarrow> ps_emit now e s = (s', r) \<Longrightarrow> ps_run s0 (tr @ [Emitted now e r]) s'"
| ps_run_consumer: "ps_run s0 tr s \<Longrightarrow> ps_run s0 tr (ps_set_consumer c s)"
| ps_run_stop: "ps_run s0 tr s \<Longrightarrow> ps_run s0 tr (ps_stop s)"
| ps_run_drain: "ps_run s0 tr s \<Longrightarrow> ps_run s0 (tr @ drain_label s) (ps_drain_step out s)"

definition accepted :: "'e ps_label list \<Rightarrow> (real \<times> 'e) list" where
  "accepted tr = concat (map (\<lambda>l. case l of Emitted now e Ok \<Rightarrow> [(now, e)] | _ \<Rightarrow> []) tr)"

definition refused :: "emit_result \<Rightarrow> 'e ps_label list \<Rightarrow> nat" where
  "refused r tr = length (filter (\<lambda>l. case l of Emitted _ _ r' \<Rightarrow> r' = r | _ \<Rightarrow> False) tr)"

definition given :: "'e ps_label list \<Rightarrow> 'e list" where
  "given tr = concat (map (\<lambda>l. case l of Given c e \<Rightarrow> [e] | _ \<Rightarrow> []) tr)"

definition settled :: "'e ps_label list \<Rightarrow> ('e \<times> bool) list" where
  "settled tr = concat (map (\<lambda>l. case l of Settled e failed \<Rightarrow> [(e, failed)] | _ \<Rightarrow> []) tr)"

lemmas history_defs = accepted_def refused_def given_def settled_def

text \<open>The event that the thread holds; a thread that is gone may have taken one with it.\<close>

definition holds :: "'e perception \<Rightarrow> 'e list \<Rightarrow> bool" where
  "holds s cur =
     (case ps_thread s of
        At_Loop \<Rightarrow> cur = [] | In_Loop \<Rightarrow> cur = [] | Calling c e \<Rightarrow> cur = [e] | Booking e f \<Rightarrow> cur = [e]
      | Gone \<Rightarrow> length cur \<le> 1)"

definition delivery_ok :: "'e ps_label list \<Rightarrow> 'e perception \<Rightarrow> bool" where
  "delivery_ok tr s =
     (map snd (accepted tr) = given tr @ ps_queue s
      \<and> (\<exists>cur. given tr = map fst (settled tr) @ cur \<and> holds s cur \<and> ps_inflight s = int (length cur)))"

definition counts_ok :: "'e ps_label list \<Rightarrow> 'e perception \<Rightarrow> bool" where
  "counts_ok tr s =
     (ps_emitted s = length (accepted tr) \<and> ps_dropped s = refused Dropped tr \<and> ps_rate_dropped s = refused Rate_Dropped tr
      \<and> ps_consumed s = length (filter (\<lambda>x. \<not> snd x) (settled tr)) \<and> ps_errors s = length (filter snd (settled tr)))"

definition rate_ok :: "'e ps_label list \<Rightarrow> 'e perception \<Rightarrow> bool" where
  "rate_ok tr s =
     ((accepted tr \<noteq> [] \<longrightarrow> ps_last_emit s = fst (last (accepted tr)))
      \<and> (ps_min_interval s \<noteq> 0 \<longrightarrow> successively (\<lambda>a b. b - a \<ge> ps_min_interval s) (map fst (accepted tr))))"

definition bound_ok :: "'e perception \<Rightarrow> bool" where
  "bound_ok s = (ps_max_queue s \<ge> 0 \<longrightarrow> int (length (ps_queue s)) \<le> ps_max_queue s)"

lemma delivery_run: "ps_run (new_stream pod mx rate) tr s \<Longrightarrow> delivery_ok tr s"
proof (induction rule: ps_run.induct)
  case ps_start
  then show ?case by (simp add: delivery_ok_def history_defs holds_def new_stream_def)
next
  case (ps_run_emit tr s now e s' r)
  then show ?case by (auto simp: delivery_ok_def history_defs holds_def ps_emit_def split: if_splits)
next
  case (ps_run_drain tr s out)
  then show ?case
    by (cases "ps_thread s"; cases out)
      (auto simp: delivery_ok_def history_defs holds_def ps_drain_step_def ps_take_def drain_label_def
        split: list.splits option.splits)
qed (simp_all add: delivery_ok_def holds_def ps_set_consumer_def ps_stop_def)

lemma counts_run: "ps_run (new_stream pod mx rate) tr s \<Longrightarrow> counts_ok tr s"
proof (induction rule: ps_run.induct)
  case (ps_run_emit tr s now e s' r)
  then show ?case by (auto simp: counts_ok_def history_defs ps_emit_def split: if_splits)
next
  case (ps_run_drain tr s out)
  then show ?case
    by (cases "ps_thread s"; cases out)
      (auto simp: counts_ok_def history_defs ps_drain_step_def ps_take_def drain_label_def split: list.splits option.splits)
qed (simp_all add: counts_ok_def history_defs new_stream_def ps_set_consumer_def ps_stop_def)

lemma drain_step_keeps [simp]:
  "ps_last_emit (ps_drain_step out s) = ps_last_emit s" "ps_min_interval (ps_drain_step out s) = ps_min_interval s"
  "ps_max_queue (ps_drain_step out s) = ps_max_queue s" "ps_consumer (ps_drain_step out s) = ps_consumer s"
  "ps_stopped (ps_drain_step out s) = ps_stopped s"
  by (auto simp: ps_drain_step_def ps_take_def split: drain_thread.split list.split option.split)

lemma drain_label_accepts [simp]: "accepted (tr @ drain_label s) = accepted tr"
  by (auto simp: accepted_def drain_label_def split: drain_thread.split list.split option.split)

lemma drain_step_queue: "length (ps_queue (ps_drain_step out s)) \<le> length (ps_queue s)"
  by (auto simp: ps_drain_step_def ps_take_def split: drain_thread.split list.split option.split)

lemma accepted_emit [simp]:
  "accepted (tr @ [Emitted now e r]) = (case r of Ok \<Rightarrow> accepted tr @ [(now, e)] | _ \<Rightarrow> accepted tr)"
  by (cases r) (simp_all add: accepted_def)

lemma rate_run: "ps_run (new_stream pod mx rate) tr s \<Longrightarrow> rate_ok tr s"
proof (induction rule: ps_run.induct)
  case (ps_run_emit tr s now e s' r)
  then show ?case
    by (cases "accepted tr = []") (auto simp: rate_ok_def ps_emit_def successively_append_iff last_map split: if_splits)
qed (simp_all add: rate_ok_def accepted_def [of "[]"] new_stream_def ps_set_consumer_def ps_stop_def)

lemma bound_run: "ps_run (new_stream pod mx rate) tr s \<Longrightarrow> bound_ok s \<and> ps_max_queue s = mx"
proof (induction rule: ps_run.induct)
  case (ps_run_emit tr s now e s' r)
  then show ?case by (auto simp: bound_ok_def ps_emit_def split: if_splits)
next
  case (ps_run_drain tr s out)
  then show ?case using drain_step_queue [of out s] by (auto simp: bound_ok_def)
qed (auto simp: bound_ok_def new_stream_def ps_set_consumer_def ps_stop_def)

text \<open>C33. The perception stream loses nothing and says so. However the calls of the producers, of the
  drain thread and of \<open>close\<close> interleave, the accepted events are given to the consumer in their
  order, each once: what was accepted is what was given followed by what is queued, and what was
  given is what was settled followed by at most one event in flight. The counters are exact, the
  queue keeps its bound, two accepted events are at least the configured interval apart, and a
  poll of \<open>drain\<close> succeeds exactly when every accepted event has been settled.\<close>

theorem perception_loses_nothing:
  assumes "ps_run (new_stream pod mx rate) tr s"
  shows "map snd (accepted tr) = given tr @ ps_queue s
    \<and> (\<exists>cur. given tr = map fst (settled tr) @ cur \<and> length cur \<le> 1 \<and> ps_inflight s = int (length cur))
    \<and> ps_emitted s = length (accepted tr) \<and> ps_dropped s = refused Dropped tr \<and> ps_rate_dropped s = refused Rate_Dropped tr
    \<and> ps_consumed s = length (filter (\<lambda>x. \<not> snd x) (settled tr)) \<and> ps_errors s = length (filter snd (settled tr))
    \<and> (0 \<le> mx \<longrightarrow> int (length (ps_queue s)) \<le> mx)
    \<and> (ps_min_interval s \<noteq> 0 \<longrightarrow> successively (\<lambda>a b. b - a \<ge> ps_min_interval s) (map fst (accepted tr)))
    \<and> (ps_idle s \<longleftrightarrow> map snd (accepted tr) = map fst (settled tr))"
proof -
  from delivery_run [OF assms] obtain cur where all: "map snd (accepted tr) = given tr @ ps_queue s"
    and g: "given tr = map fst (settled tr) @ cur" and cur: "holds s cur" "ps_inflight s = int (length cur)"
    by (auto simp: delivery_ok_def)
  have "length cur \<le> 1" using cur(1) by (auto simp: holds_def split: drain_thread.splits)
  moreover have "ps_idle s \<longleftrightarrow> map snd (accepted tr) = map fst (settled tr)"
    unfolding all g ps_idle_def cur(2) by auto
  ultimately show ?thesis
    using all g cur(2) counts_run [OF assms] rate_run [OF assms] bound_run [OF assms]
    by (auto simp: counts_ok_def rate_ok_def bound_ok_def)
qed

definition demo_stream :: "nat perception" where
  "demo_stream = new_stream ''camera'' 2 (Some 1)"

theorem perception_loses_nothing_witness:
  "\<exists>tr s. ps_run demo_stream tr s \<and> map snd (accepted tr) = [7, 8] \<and> given tr = [7] \<and> ps_queue s = [8]
     \<and> ps_inflight s = 1 \<and> ps_emitted s = 2 \<and> ps_rate_dropped s = 1 \<and> \<not> ps_idle s"
proof -
  let ?a = "fst (ps_emit 5 7 demo_stream)"
  let ?b = "ps_set_consumer (Some 0) ?a"
  let ?c = "ps_drain_step Returns ?b"
  let ?d = "ps_drain_step Returns ?c"
  let ?e = "fst (ps_emit (11 / 2) 9 ?d)"
  let ?f = "fst (ps_emit 6 8 ?e)"
  note defs = demo_stream_def new_stream_def ps_emit_def ps_set_consumer_def ps_drain_step_def ps_take_def drain_label_def
  have "ps_run demo_stream ([] @ [Emitted 5 7 Ok]) ?a"
    by (rule ps_run_emit [OF ps_start]) (simp add: defs)
  then have "ps_run demo_stream (([] @ [Emitted 5 7 Ok]) @ drain_label ?b) ?c"
    by (intro ps_run_drain ps_run_consumer)
  then have "ps_run demo_stream ((([] @ [Emitted 5 7 Ok]) @ drain_label ?b) @ drain_label ?c) ?d"
    by (rule ps_run_drain)
  then have "ps_run demo_stream (((([] @ [Emitted 5 7 Ok]) @ drain_label ?b) @ drain_label ?c) @ [Emitted (11 / 2) 9 Rate_Dropped]) ?e"
    by (rule ps_run_emit) (simp add: defs)
  then have full: "ps_run demo_stream ((((([] @ [Emitted 5 7 Ok]) @ drain_label ?b) @ drain_label ?c) @ [Emitted (11 / 2) 9 Rate_Dropped]) @ [Emitted 6 8 Ok]) ?f"
    by (rule ps_run_emit) (simp add: defs)
  have eq: "((((([] @ [Emitted 5 7 Ok]) @ drain_label ?b) @ drain_label ?c) @ [Emitted (11 / 2) 9 Rate_Dropped]) @ [Emitted 6 8 Ok])
      = [Emitted 5 7 Ok, Given 0 7, Emitted (11 / 2) 9 Rate_Dropped, Emitted 6 8 Ok]"
    by (simp add: defs)
  have run: "ps_run demo_stream [Emitted 5 7 Ok, Given 0 7, Emitted (11 / 2) 9 Rate_Dropped, Emitted 6 8 Ok] ?f"
    by (rule full [unfolded eq])
  from perception_loses_nothing [OF run [unfolded demo_stream_def]] have
    "ps_emitted ?f = 2 \<and> ps_rate_dropped ?f = 1 \<and> ps_queue ?f = [8] \<and> ps_inflight ?f = 1 \<and> \<not> ps_idle ?f"
    by (simp add: history_defs demo_stream_def [symmetric])
  with run show ?thesis
    by (intro exI [of _ "[Emitted 5 7 Ok, Given 0 7, Emitted (11 / 2) 9 Rate_Dropped, Emitted 6 8 Ok]"] exI [of _ ?f])
      (simp add: history_defs)
qed

section \<open>Draining comes to an end\<close>

text \<open>How many steps of the thread are left until nothing is queued or held.\<close>

definition drain_rank :: "'e perception \<Rightarrow> nat" where
  "drain_rank s =
     (case ps_thread s of
        At_Loop \<Rightarrow> 4 * length (ps_queue s) | In_Loop \<Rightarrow> 4 * length (ps_queue s) - 1
      | Calling c e \<Rightarrow> 4 * length (ps_queue s) + 2 | Booking e f \<Rightarrow> 4 * length (ps_queue s) + 1 | Gone \<Rightarrow> 0)"

definition draining :: "'e perception \<Rightarrow> bool" where
  "draining s =
     (ps_consumer s \<noteq> None \<and> \<not> ps_stopped s
      \<and> (case ps_thread s of At_Loop \<Rightarrow> ps_inflight s = 0 | In_Loop \<Rightarrow> ps_inflight s = 0 | Gone \<Rightarrow> False | _ \<Rightarrow> ps_inflight s = 1))"

lemma drain_progress:
  assumes "draining s" "\<not> ps_idle s" "out \<noteq> Exits"
  shows "draining (ps_drain_step out s)" "drain_rank (ps_drain_step out s) < drain_rank s"
  using assms
  by (cases "ps_thread s"; cases out; cases "ps_queue s";
      force simp: draining_def ps_idle_def drain_rank_def ps_drain_step_def ps_take_def)+

lemma drain_reaches_idle:
  "draining s \<Longrightarrow> Exits \<notin> set outs \<Longrightarrow> drain_rank s \<le> length outs \<Longrightarrow>
     \<exists>k \<le> length outs. ps_idle (fold ps_drain_step (take k outs) s)"
proof (induction outs arbitrary: s)
  case Nil
  then show ?case
    by (cases "ps_queue s") (auto simp: drain_rank_def draining_def ps_idle_def split: drain_thread.splits)
next
  case (Cons out outs)
  show ?case
  proof (cases "ps_idle s")
    case True
    then show ?thesis by (intro exI [of _ 0]) simp
  next
    case False
    from Cons.prems have "out \<noteq> Exits" by auto
    note step = drain_progress [OF Cons.prems(1) False this]
    have "\<exists>k \<le> length outs. ps_idle (fold ps_drain_step (take k outs) (ps_drain_step out s))"
      using step Cons.prems by (intro Cons.IH) simp_all
    then obtain k where "k \<le> length outs" "ps_idle (fold ps_drain_step (take k outs) (ps_drain_step out s))" by blast
    then show ?thesis by (intro exI [of _ "Suc k"]) simp
  qed
qed

lemma run_fold: "ps_run s0 tr s \<Longrightarrow> \<exists>tr'. ps_run s0 tr' (fold ps_drain_step outs s)"
proof (induction outs arbitrary: tr s)
  case (Cons out outs)
  from Cons.IH [OF ps_run_drain [OF Cons.prems]] show ?case by simp
qed auto

lemma run_draining:
  assumes "ps_run (new_stream pod mx rate) tr s" "ps_consumer s \<noteq> None" "\<not> ps_stopped s" "ps_thread s \<noteq> Gone"
  shows "draining s"
proof -
  from delivery_run [OF assms(1)] obtain cur where "holds s cur" "ps_inflight s = int (length cur)"
    by (auto simp: delivery_ok_def)
  with assms(2-) show ?thesis by (cases "ps_thread s") (simp_all add: draining_def holds_def)
qed

text \<open>C34. Draining comes to an end. In any reachable state with a consumer, a running thread and no call
  of \<open>close\<close>, once nothing more is emitted the thread needs at most four steps an event, and two
  for the one it holds, until a poll of \<open>drain\<close> succeeds, whether the consumer returns or raises;
  every event that was ever accepted has then been counted as consumed or as an error.\<close>

theorem perception_drains:
  assumes "ps_run (new_stream pod mx rate) tr s" "ps_consumer s \<noteq> None \<and> \<not> ps_stopped s \<and> ps_thread s \<noteq> Gone"
    "Exits \<notin> set outs \<and> length outs = 4 * length (ps_queue s) + 2"
  shows "\<exists>k \<le> length outs. \<exists>t. t = fold ps_drain_step (take k outs) s \<and> ps_idle t
    \<and> ps_consumed t + ps_errors t = ps_emitted t \<and> (\<forall>now deadline polls. now < deadline \<longrightarrow> ps_drain deadline ((now, t) # polls) t)"
proof -
  have "draining s" using assms by (intro run_draining) auto
  moreover have "drain_rank s \<le> length outs"
    using assms(3) by (auto simp: drain_rank_def split: drain_thread.split)
  ultimately obtain k where k: "k \<le> length outs" and idle: "ps_idle (fold ps_drain_step (take k outs) s)"
    using drain_reaches_idle [of s outs] assms(3) by blast
  define t where "t = fold ps_drain_step (take k outs) s"
  from run_fold [OF assms(1), of "take k outs"] obtain tr' where run: "ps_run (new_stream pod mx rate) tr' t" by (auto simp: t_def)
  have idle: "ps_idle t" using idle by (simp add: t_def)
  from delivery_run [OF run] idle have "map snd (accepted tr') = map fst (settled tr')"
    by (auto simp: delivery_ok_def ps_idle_def)
  then have "length (accepted tr') = length (settled tr')" by (metis length_map)
  then have "ps_consumed t + ps_errors t = ps_emitted t"
    using counts_run [OF run] sum_length_filter_compl [of snd "settled tr'"] by (simp add: counts_ok_def)
  then show ?thesis using k idle t_def by (intro exI [of _ k] conjI exI [of _ t]) simp_all
qed

theorem perception_drains_witness:
  "\<exists>k \<le> 6. \<exists>t. t = fold ps_drain_step (take k [Raises, Raises, Raises, Returns, Returns, Returns])
       (ps_set_consumer (Some 0) (fst (ps_emit 5 7 demo_stream))) \<and> ps_idle t \<and> ps_consumed t + ps_errors t = 1"
proof -
  let ?s = "ps_set_consumer (Some 0) (fst (ps_emit 5 7 demo_stream))"
  let ?outs = "[Raises, Raises, Raises, Returns, Returns, Returns]"
  note defs = demo_stream_def new_stream_def ps_emit_def ps_set_consumer_def
  have run: "ps_run (new_stream ''camera'' 2 (Some 1)) ([] @ [Emitted 5 7 Ok]) ?s"
    by (intro ps_run_consumer ps_run_emit [OF ps_start]) (simp add: defs)
  have live: "ps_consumer ?s \<noteq> None \<and> \<not> ps_stopped ?s \<and> ps_thread ?s \<noteq> Gone" by (simp add: defs)
  have outs: "Exits \<notin> set ?outs \<and> length ?outs = 4 * length (ps_queue ?s) + 2" by (simp add: defs)
  from perception_drains [OF run live outs] obtain k t where k: "k \<le> length ?outs" and t: "t = fold ps_drain_step (take k ?outs) ?s"
    "ps_idle t" "ps_consumed t + ps_errors t = ps_emitted t" by blast
  have em: "ps_emitted (fold ps_drain_step os s) = ps_emitted s" for os s
    by (induction os arbitrary: s) (auto simp: ps_drain_step_def ps_take_def split: drain_thread.split list.split option.split)
  have "ps_emitted t = 1" by (simp add: t(1) em) (simp add: defs)
  with k t show ?thesis by (intro exI [of _ k] conjI exI [of _ t]) simp_all
qed

text \<open>A consumer that leaves with \<open>SystemExit\<close> takes the thread and its event with it: whatever is
  called afterwards, no poll of \<open>drain\<close> succeeds again.\<close>

lemma exited_consumer_blocks_drain:
  assumes "ps_thread s = Calling c e" "ps_inflight s = 1" "ps_run (ps_drain_step Exits s) tr t"
  shows "\<not> ps_idle t"
proof -
  have "ps_thread t = Gone \<and> ps_inflight t = 1" using assms(3)
  proof (induction rule: ps_run.induct)
    case ps_start
    show ?case by (simp add: ps_drain_step_def assms)
  qed (auto simp: ps_emit_def ps_set_consumer_def ps_stop_def ps_drain_step_def split: if_splits)
  then show ?thesis by (simp add: ps_idle_def)
qed

end
