(* ===== verification/Architecture.thy ===== *)
theory Architecture
  imports Prelude
begin

text \<open>
  The layer check (\<open>neural_pods/architecture.py\<close>): which imports of a syntax tree count at run time, the
  import graph of a package and the verdict on it. A package is the list of its modules with their
  trees, in the order of their paths; reading and parsing the files is not modelled.
\<close>

section \<open>Syntax trees\<close>

text \<open>
  What the check looks at of a node: the test of an \<open>if\<close>, the names of an import, and the children in
  the order of \<open>iter_child_nodes\<close>. The number stands for the identity of the object.
\<close>

datatype if_test = Test_Name string | Test_Attribute string | Other_Test

datatype node_kind =
    If_Stmt if_test
  | From_Import nat "string option" "string list"
  | Import_Stmt "string list"
  | Other_Node

datatype ast = Node (nid: nat) (kind_of: node_kind) (children: "ast list")

definition is_type_checking :: "if_test \<Rightarrow> bool" where
  "is_type_checking t =
     (case t of Test_Name i \<Rightarrow> i = ''TYPE_CHECKING'' | Test_Attribute a \<Rightarrow> a = ''TYPE_CHECKING'' | Other_Test \<Rightarrow> False)"

definition skipped :: "ast \<Rightarrow> bool" where
  "skipped n = (case kind_of n of If_Stmt t \<Rightarrow> is_type_checking t | _ \<Rightarrow> False)"

lemma sum_list_filter_le: "sum_list (map (f :: 'a \<Rightarrow> nat) (filter P xs)) \<le> sum_list (map f xs)"
  by (induction xs) auto

lemma size_children: "sum_list (map size cs) < size (Node i k cs)"
  by (simp add: size_list_conv_sum_list le_imp_less_Suc)

text \<open>\<open>_walk_runtime\<close>: the end of the code's stack is the head of the list.\<close>

function runtime_loop :: "ast list \<Rightarrow> ast list" where
  "runtime_loop [] = []"
| "runtime_loop (n # stack) = n # runtime_loop (rev (filter (\<lambda>c. \<not> skipped c) (children n)) @ stack)"
  by pat_completeness auto
termination
proof (relation "measure (\<lambda>st. sum_list (map size st))")
  fix n stack
  obtain i k cs where n: "n = Node i k cs" by (cases n)
  have "sum_list (map size (filter (\<lambda>c. \<not> skipped c) cs)) \<le> sum_list (map size cs)"
    by (rule sum_list_filter_le)
  also have "\<dots> < size n" unfolding n by (rule size_children)
  finally show "(rev (filter (\<lambda>c. \<not> skipped c) (children n)) @ stack, n # stack) \<in> measure (\<lambda>st. sum_list (map size st))"
    by (simp add: n rev_map [symmetric] sum_list_rev)
qed simp

definition walk_runtime :: "ast \<Rightarrow> ast list" where
  "walk_runtime t = runtime_loop [t]"

text \<open>\<open>ast.walk\<close>: breadth first.\<close>

function walk_loop :: "ast list \<Rightarrow> ast list" where
  "walk_loop [] = []"
| "walk_loop (n # todo) = n # walk_loop (todo @ children n)"
  by pat_completeness auto
termination
proof (relation "measure (\<lambda>st. sum_list (map size st))")
  fix n todo
  obtain i k cs where n: "n = Node i k cs" by (cases n)
  show "(todo @ children n, n # todo) \<in> measure (\<lambda>st. sum_list (map size st))"
    using size_children [of cs i k] by (simp add: n)
qed simp

definition ast_walk :: "ast \<Rightarrow> ast list" where
  "ast_walk t = walk_loop [t]"

section \<open>The import graph\<close>

definition dotted :: "string \<Rightarrow> string list" where
  "dotted m = split_on CHR ''.'' m"

text \<open>\<open>_sibling_targets\<close>; an empty module name counts as none.\<close>

definition sibling_targets :: "nat \<Rightarrow> string option \<Rightarrow> string list \<Rightarrow> string list \<Rightarrow> string list" where
  "sibling_targets level md names known =
     (let m = (case md of None \<Rightarrow> [] | Some s \<Rightarrow> s)
      in if level \<noteq> 0 then
           (if m \<noteq> [] then filter (\<lambda>r. r \<in> set known) [hd (dotted m)]
            else filter (\<lambda>a. a \<in> set known) names)
         else if starts_with ''neural_pods'' m then
           (if 1 < length (dotted m) then filter (\<lambda>r. r \<in> set known) [dotted m ! 1] else [])
           @ filter (\<lambda>a. a \<in> set known) names
         else [])"

record import_facts =
  if_runtime :: "(string, string list) dict"
  if_type_only :: "(string, string list) dict"
  if_backends :: "(string, string list) dict"

text \<open>\<open>d.setdefault(m, set()).update(ts)\<close>, with a set as a list without repetitions.\<close>

definition add_targets :: "string \<Rightarrow> string list \<Rightarrow> (string, string list) dict \<Rightarrow> (string, string list) dict" where
  "add_targets m ts d = dput m (remdups (dget_or d m [] @ ts)) d"

type_synonym owners = "(string, string list) dict"

definition add_backend :: "owners \<Rightarrow> string \<Rightarrow> string \<Rightarrow> import_facts \<Rightarrow> import_facts" where
  "add_backend owners m name fs =
     (if hd (dotted name) \<in> set (dkeys owners)
      then fs\<lparr>if_backends := add_targets m [hd (dotted name)] (if_backends fs)\<rparr> else fs)"

definition scan_node :: "owners \<Rightarrow> string list \<Rightarrow> string \<Rightarrow> nat set \<Rightarrow> import_facts \<Rightarrow> ast \<Rightarrow> import_facts" where
  "scan_node owners known m at_runtime fs n =
     (case kind_of n of
        From_Import level md names \<Rightarrow>
          (let ts = sibling_targets level md names known
           in if nid n \<in> at_runtime
              then add_backend owners m (case md of None \<Rightarrow> [] | Some s \<Rightarrow> s)
                     (fs\<lparr>if_runtime := add_targets m ts (if_runtime fs)\<rparr>)
              else fs\<lparr>if_type_only := add_targets m ts (if_type_only fs)\<rparr>)
      | Import_Stmt names \<Rightarrow>
          (if nid n \<in> at_runtime then foldl (\<lambda>fs a. add_backend owners m a fs) fs names else fs)
      | _ \<Rightarrow> fs)"

type_synonym package = "(string \<times> ast) list"

definition modules :: "package \<Rightarrow> string list" where
  "modules pkg = filter (\<lambda>m. m \<noteq> ''__init__'') (map fst pkg)"

definition scan_module :: "owners \<Rightarrow> string list \<Rightarrow> import_facts \<Rightarrow> string \<times> ast \<Rightarrow> import_facts" where
  "scan_module owners known fs mt =
     (if fst mt = ''__init__'' then fs
      else foldl (scan_node owners known (fst mt) (set (map nid (walk_runtime (snd mt))))) fs (ast_walk (snd mt)))"

definition import_graph :: "owners \<Rightarrow> package \<Rightarrow> import_facts" where
  "import_graph owners pkg =
     foldl (scan_module owners (modules pkg)) \<lparr>if_runtime = [], if_type_only = [], if_backends = []\<rparr> pkg"

section \<open>The verdict\<close>

definition layers :: "string list" where
  "layers = [''kern'', ''storage'', ''haushalt'', ''nervensystem'', ''pod_arm'']"

definition LAYER_OF :: "(string, string) dict" where
  "LAYER_OF =
     map (\<lambda>m. (m, ''kern'')) [''registry'', ''pod_types'', ''pod_contract'', ''pod_builder'', ''pod_taxonomy'', ''pod_profiles'',
       ''execution_manifest'', ''model'', ''model_pod'', ''pod_executor'', ''data'', ''semantics'', ''lifecycle_transport'',
       ''resource_runtime'', ''fault_injection'', ''raft_backend'', ''raft_transport'', ''placement'', ''replication'',
       ''vllm_router'', ''architecture'']
     @ map (\<lambda>m. (m, ''storage'')) [''storage'', ''pod_cache'', ''snapshot_store'', ''vector_index'', ''block_postings'',
       ''local_search'', ''ranking'', ''postgres_store'', ''registry_lookup_kb'', ''alias_resolver'', ''contextual_retrieval'',
       ''spacy_enrichment'']
     @ [(''household'', ''haushalt'')]
     @ map (\<lambda>m. (m, ''nervensystem'')) [''mesh'', ''mesh_cache'', ''native_comm'', ''taskgraph'', ''perception'', ''pod_protocol'',
       ''pod_socket'', ''pod_streams'', ''adaptive_batcher'']
     @ map (\<lambda>m. (m, ''pod_arm'')) [''reflex'', ''dream'', ''symlink'', ''dragonfly'', ''routing'', ''semantic_routing'',
       ''routing_harness'', ''search_agent'', ''recursive_search'', ''recursive_memory'', ''ngu_sampling'',
       ''continuous_concepts'', ''research_tools'']"

definition BACKEND_OWNERS :: owners where
  "BACKEND_OWNERS =
     [(''lancedb'', [''storage'']), (''paho'', [''mesh'']), (''psycopg'', [''postgres_store'', ''replication'']),
      (''qdrant_client'', [''routing'', ''semantic_routing''])]"

definition rank_of :: "(string, string) dict \<Rightarrow> string \<Rightarrow> nat option" where
  "rank_of layer_of m =
     (case dget layer_of m of
        None \<Rightarrow> None
      | Some l \<Rightarrow> dget (zip layers [0..<length layers]) l)"

datatype violation =
    Upward string string
  | Trespass string string
  | Unplaced string
  | Gone_Module string
  | Unknown_Layer string
  | Import_Cycle string string

definition upward_imports :: "(string, string) dict \<Rightarrow> import_facts \<Rightarrow> violation list" where
  "upward_imports layer_of fs =
     concat (map (\<lambda>m. case rank_of layer_of m of
         None \<Rightarrow> []
       | Some r \<Rightarrow> concat (map (\<lambda>t. case rank_of layer_of t of
             None \<Rightarrow> []
           | Some r' \<Rightarrow> if r' > r then [Upward m t] else []) (sorted_set (dget_or (if_runtime fs) m []))))
       (sorted_set (dkeys (if_runtime fs))))"

definition trespasses :: "owners \<Rightarrow> import_facts \<Rightarrow> violation list" where
  "trespasses owners fs =
     concat (map (\<lambda>m. map (Trespass m)
         (filter (\<lambda>b. m \<notin> set (dget_or owners b [])) (sorted_set (dget_or (if_backends fs) m []))))
       (sorted_set (dkeys (if_backends fs))))"

definition import_cycles :: "import_facts \<Rightarrow> (string \<times> string) list" where
  "import_cycles fs =
     sort (remdups (concat (map (\<lambda>(m, ts).
         map (\<lambda>t. if m \<le> t then (m, t) else (t, m)) (filter (\<lambda>t. m \<in> set (dget_or (if_runtime fs) t [])) ts))
       (if_runtime fs))))"

record verdict =
  vd_ok :: bool
  vd_modules :: nat
  vd_layers :: "(string, string list) dict"
  vd_runtime_edges :: nat
  vd_type_only :: "(string, string list) dict"
  vd_violations :: "violation list"

definition arch_check :: "(string, string) dict \<Rightarrow> owners \<Rightarrow> package \<Rightarrow> verdict" where
  "arch_check layer_of owners pkg =
     (let known = modules pkg; fs = import_graph owners pkg;
          vs = upward_imports layer_of fs @ trespasses owners fs
            @ map Unplaced (sorted_set (filter (\<lambda>m. m \<notin> set (dkeys layer_of)) known))
            @ map Gone_Module (sorted_set (filter (\<lambda>m. m \<notin> set known) (dkeys layer_of)))
            @ map Unknown_Layer (sorted_set (map fst (filter (\<lambda>(m, l). l \<notin> set layers) layer_of)))
            @ map (\<lambda>(m, t). Import_Cycle m t) (import_cycles fs)
      in \<lparr>vd_ok = (vs = []), vd_modules = length (remdups known),
          vd_layers = map (\<lambda>l. (l, sorted_set (map fst (filter (\<lambda>(m, l'). l' = l) layer_of)))) layers,
          vd_runtime_edges = sum_list (map (\<lambda>(m, ts). length ts) (if_runtime fs)),
          vd_type_only = map (\<lambda>m. (m, sorted_set (dget_or (if_type_only fs) m [])))
            (filter (\<lambda>m. dget_or (if_type_only fs) m [] \<noteq> []) (sorted_set (dkeys (if_type_only fs)))),
          vd_violations = vs\<rparr>)"

section \<open>Which imports count at run time\<close>

text \<open>The nodes of a tree, and the ones reached without entering an \<open>if TYPE_CHECKING\<close> below the root.\<close>

inductive in_tree :: "ast \<Rightarrow> ast \<Rightarrow> bool" for t where
  tree_root: "in_tree t t"
| tree_child: "in_tree t n \<Longrightarrow> c \<in> set (children n) \<Longrightarrow> in_tree t c"

inductive runtime_in :: "ast \<Rightarrow> ast \<Rightarrow> bool" for t where
  runtime_root: "runtime_in t t"
| runtime_child: "runtime_in t n \<Longrightarrow> c \<in> set (children n) \<Longrightarrow> \<not> skipped c \<Longrightarrow> runtime_in t c"

lemma in_tree_step: "in_tree t n \<longleftrightarrow> n = t \<or> (\<exists>c \<in> set (children t). in_tree c n)"
proof
  assume "in_tree t n"
  then show "n = t \<or> (\<exists>c \<in> set (children t). in_tree c n)"
    by induction (auto intro: in_tree.intros)
next
  have "in_tree c n \<Longrightarrow> c \<in> set (children t) \<Longrightarrow> in_tree t n" for c
    by (induction rule: in_tree.induct) (auto intro: in_tree.intros)
  then show "n = t \<or> (\<exists>c \<in> set (children t). in_tree c n) \<Longrightarrow> in_tree t n"
    by (auto intro: in_tree.intros)
qed

lemma runtime_in_step: "runtime_in t n \<longleftrightarrow> n = t \<or> (\<exists>c \<in> set (children t). \<not> skipped c \<and> runtime_in c n)"
proof
  assume "runtime_in t n"
  then show "n = t \<or> (\<exists>c \<in> set (children t). \<not> skipped c \<and> runtime_in c n)"
    by induction (auto intro: runtime_in.intros)
next
  have "runtime_in c n \<Longrightarrow> c \<in> set (children t) \<Longrightarrow> \<not> skipped c \<Longrightarrow> runtime_in t n" for c
    by (induction rule: runtime_in.induct) (auto intro: runtime_in.intros)
  then show "n = t \<or> (\<exists>c \<in> set (children t). \<not> skipped c \<and> runtime_in c n) \<Longrightarrow> runtime_in t n"
    by (auto intro: runtime_in.intros)
qed

lemma runtime_loop_set: "set (runtime_loop st) = {n. \<exists>t \<in> set st. runtime_in t n}"
proof (induction st rule: runtime_loop.induct)
  case (2 t st)
  have "n \<in> set (runtime_loop (t # st)) \<longleftrightarrow> (\<exists>u \<in> set (t # st). runtime_in u n)" for n
    using runtime_in_step [of t n] 2 by auto
  then show ?case by blast
qed simp

lemma walk_loop_set: "set (walk_loop st) = {n. \<exists>t \<in> set st. in_tree t n}"
proof (induction st rule: walk_loop.induct)
  case (2 t st)
  have "n \<in> set (walk_loop (t # st)) \<longleftrightarrow> (\<exists>u \<in> set (t # st). in_tree u n)" for n
    using in_tree_step [of t n] 2 by auto
  then show ?case by blast
qed simp

lemma runtime_set: "set (walk_runtime t) = {n. runtime_in t n}"
  unfolding walk_runtime_def runtime_loop_set by simp

lemma walk_set: "set (ast_walk t) = {n. in_tree t n}"
  unfolding ast_walk_def walk_loop_set by simp

lemma runtime_in_tree: "runtime_in t n \<Longrightarrow> in_tree t n"
  by (induction rule: runtime_in.induct) (auto intro: in_tree.intros)

lemma runtime_ids:
  assumes "inj_on nid {n. in_tree t n}" "in_tree t n"
  shows "nid n \<in> set (map nid (walk_runtime t)) \<longleftrightarrow> runtime_in t n"
  using assms runtime_in_tree [of t] by (auto simp: runtime_set inj_on_def)

definition imports_to :: "(string, string list) dict \<Rightarrow> string \<Rightarrow> string set" where
  "imports_to d m = set (dget_or d m [])"

lemma imports_add [simp]: "imports_to (add_targets m ts d) k = (if k = m then imports_to d m \<union> set ts else imports_to d k)"
  by (simp add: imports_to_def add_targets_def dict_simps)

lemma add_backend_keeps [simp]:
  "if_runtime (add_backend owners m a fs) = if_runtime fs" "if_type_only (add_backend owners m a fs) = if_type_only fs"
  by (simp_all add: add_backend_def)

lemma add_backends_keep [simp]:
  "if_runtime (foldl (\<lambda>fs a. add_backend owners m a fs) fs names) = if_runtime fs"
  "if_type_only (foldl (\<lambda>fs a. add_backend owners m a fs) fs names) = if_type_only fs"
  by (induction names arbitrary: fs) simp_all

definition targets_of :: "string list \<Rightarrow> ast \<Rightarrow> string set" where
  "targets_of known n =
     (case kind_of n of From_Import level md names \<Rightarrow> set (sibling_targets level md names known) | _ \<Rightarrow> {})"

lemma scan_node_imports:
  "imports_to (if_runtime (scan_node owners known m R fs n)) k =
     imports_to (if_runtime fs) k \<union> (if k = m \<and> nid n \<in> R then targets_of known n else {})"
  "imports_to (if_type_only (scan_node owners known m R fs n)) k =
     imports_to (if_type_only fs) k \<union> (if k = m \<and> nid n \<notin> R then targets_of known n else {})"
  by (auto simp: scan_node_def targets_of_def Let_def split: node_kind.splits)

lemma scan_nodes_imports:
  "imports_to (if_runtime (foldl (scan_node owners known m R) fs ns)) k =
     imports_to (if_runtime fs) k \<union> (if k = m then \<Union>n \<in> {n \<in> set ns. nid n \<in> R}. targets_of known n else {})"
  "imports_to (if_type_only (foldl (scan_node owners known m R) fs ns)) k =
     imports_to (if_type_only fs) k \<union> (if k = m then \<Union>n \<in> {n \<in> set ns. nid n \<notin> R}. targets_of known n else {})"
  by (induction ns arbitrary: fs) (auto simp: scan_node_imports split: if_splits)

definition runtime_targets :: "string list \<Rightarrow> string \<times> ast \<Rightarrow> string set" where
  "runtime_targets known mt =
     (if fst mt = ''__init__'' then {} else \<Union>n \<in> {n. runtime_in (snd mt) n}. targets_of known n)"

definition type_targets :: "string list \<Rightarrow> string \<times> ast \<Rightarrow> string set" where
  "type_targets known mt =
     (if fst mt = ''__init__'' then {} else \<Union>n \<in> {n. in_tree (snd mt) n \<and> \<not> runtime_in (snd mt) n}. targets_of known n)"

lemma scan_module_imports:
  assumes "inj_on nid {n. in_tree (snd mt) n}"
  shows "imports_to (if_runtime (scan_module owners known fs mt)) k =
      imports_to (if_runtime fs) k \<union> (if k = fst mt then runtime_targets known mt else {})"
    and "imports_to (if_type_only (scan_module owners known fs mt)) k =
      imports_to (if_type_only fs) k \<union> (if k = fst mt then type_targets known mt else {})"
proof -
  have run: "{n \<in> set (ast_walk (snd mt)). nid n \<in> set (map nid (walk_runtime (snd mt)))} = {n. runtime_in (snd mt) n}"
    using runtime_ids [OF assms] runtime_in_tree by (auto simp: walk_set simp del: set_map)
  have ann: "{n \<in> set (ast_walk (snd mt)). nid n \<notin> set (map nid (walk_runtime (snd mt)))}
      = {n. in_tree (snd mt) n \<and> \<not> runtime_in (snd mt) n}"
    using runtime_ids [OF assms] by (auto simp: walk_set simp del: set_map)
  show "imports_to (if_runtime (scan_module owners known fs mt)) k =
      imports_to (if_runtime fs) k \<union> (if k = fst mt then runtime_targets known mt else {})"
    by (auto simp: scan_module_def scan_nodes_imports run runtime_targets_def simp del: set_map)
  show "imports_to (if_type_only (scan_module owners known fs mt)) k =
      imports_to (if_type_only fs) k \<union> (if k = fst mt then type_targets known mt else {})"
    by (auto simp: scan_module_def scan_nodes_imports ann type_targets_def simp del: set_map)
qed

lemma scan_modules_imports:
  assumes "\<forall>mt \<in> set pkg. inj_on nid {n. in_tree (snd mt) n}"
  shows "imports_to (if_runtime (foldl (scan_module owners known) fs pkg)) k =
      imports_to (if_runtime fs) k \<union> (\<Union>mt \<in> {mt \<in> set pkg. fst mt = k}. runtime_targets known mt)"
    and "imports_to (if_type_only (foldl (scan_module owners known) fs pkg)) k =
      imports_to (if_type_only fs) k \<union> (\<Union>mt \<in> {mt \<in> set pkg. fst mt = k}. type_targets known mt)"
  using assms by (induction pkg arbitrary: fs) (auto simp: scan_module_imports split: if_splits)

text \<open>The import graph tells run time from annotation. In a package whose nodes have their own
  identities, a module is recorded to import a sibling at run time exactly when one of its
  \<open>from\<close> imports names that sibling and is reached without entering an \<open>if TYPE_CHECKING\<close>, and as
  an annotation exactly when one that is inside such a block, on either branch of it, does; the
  explicit stack of the walk visits exactly these nodes, and \<open>__init__\<close> counts for neither.\<close>

theorem import_graph_exact:
  assumes "\<forall>mt \<in> set pkg. inj_on nid {n. in_tree (snd mt) n}"
  shows "imports_to (if_runtime (import_graph owners pkg)) k =
      {t. \<exists>tree n. (k, tree) \<in> set pkg \<and> k \<noteq> ''__init__'' \<and> runtime_in tree n \<and> t \<in> targets_of (modules pkg) n}
    \<and> imports_to (if_type_only (import_graph owners pkg)) k =
      {t. \<exists>tree n. (k, tree) \<in> set pkg \<and> k \<noteq> ''__init__'' \<and> in_tree tree n \<and> \<not> runtime_in tree n \<and> t \<in> targets_of (modules pkg) n}"
  unfolding import_graph_def scan_modules_imports [OF assms]
  by (force simp: imports_to_def dget_or_def runtime_targets_def type_targets_def)

definition demo_package :: package where
  "demo_package =
     [(''__init__'', Node 0 Other_Node [Node 1 (From_Import 1 (Some ''data'') [''x'']) []]),
      (''data'', Node 0 Other_Node [Node 1 (From_Import 1 (Some ''model.core'') [''M'']) [],
         Node 2 (If_Stmt (Test_Name ''TYPE_CHECKING'')) [Node 3 (From_Import 1 None [''registry'']) []]]),
      (''model'', Node 0 Other_Node [Node 1 Other_Node [Node 2 (From_Import 1 None [''registry'', ''other'']) []]]),
      (''registry'', Node 0 Other_Node [Node 1 (From_Import 0 (Some ''neural_pods.data'') [''y'']) []])]"

lemma demo_package_ids: "\<forall>mt \<in> set demo_package. inj_on nid {n. in_tree (snd mt) n}"
proof -
  have "\<forall>mt \<in> set demo_package. inj_on nid (set (ast_walk (snd mt)))"
    by (simp add: demo_package_def ast_walk_def)
  then show ?thesis by (simp only: walk_set)
qed

theorem import_graph_exact_witness:
  "\<exists>tree n. (''data'', tree) \<in> set demo_package \<and> in_tree tree n \<and> \<not> runtime_in tree n \<and> ''registry'' \<in> targets_of (modules demo_package) n"
proof -
  have "''registry'' \<in> imports_to (if_type_only (import_graph [] demo_package)) ''data''" by code_simp
  then show ?thesis using import_graph_exact [OF demo_package_ids, of "[]" "''data''"] by auto
qed

section \<open>What a clean verdict means\<close>

abbreviation runtime_imports :: "owners \<Rightarrow> package \<Rightarrow> string \<Rightarrow> string set" where
  "runtime_imports owners pkg \<equiv> imports_to (if_runtime (import_graph owners pkg))"

lemma sibling_known: "set (sibling_targets level md names known) \<subseteq> set known"
  by (auto simp: sibling_targets_def Let_def split: if_splits)

lemma targets_known: "targets_of known n \<subseteq> set known"
  using sibling_known by (auto simp: targets_of_def split: node_kind.splits)

lemma scan_modules_known:
  "\<lbrakk>\<forall>mt \<in> set pkg. fst mt = ''__init__'' \<or> fst mt \<in> set known;
    t \<in> imports_to (if_runtime (foldl (scan_module owners known) fs pkg)) k\<rbrakk>
   \<Longrightarrow> t \<in> imports_to (if_runtime fs) k \<or> t \<in> set known \<and> k \<in> set known"
proof (induction pkg arbitrary: fs)
  case (Cons mt pkg)
  then have "t \<in> imports_to (if_runtime (scan_module owners known fs mt)) k \<or> t \<in> set known \<and> k \<in> set known" by auto
  then show ?case
    using Cons.prems(1) targets_known by (auto simp: scan_module_def scan_nodes_imports split: if_splits)
qed simp

lemma runtime_imports_known:
  "t \<in> runtime_imports owners pkg k \<Longrightarrow> t \<in> set (modules pkg) \<and> k \<in> set (modules pkg)"
  unfolding import_graph_def
  by (drule scan_modules_known [rotated]) (auto simp: modules_def imports_to_def dget_or_def)

lemma add_targets_wf [simp]: "wf_dict d \<Longrightarrow> wf_dict (add_targets m ts d)"
  by (simp add: add_targets_def)

lemma scan_nodes_wf: "wf_dict (if_runtime fs) \<Longrightarrow> wf_dict (if_runtime (foldl (scan_node owners known m R) fs ns))"
proof (induction ns arbitrary: fs)
  case (Cons n ns)
  then have "wf_dict (if_runtime (scan_node owners known m R fs n))"
    by (auto simp: scan_node_def Let_def split: node_kind.split)
  then show ?case using Cons.IH by simp
qed simp

lemma scan_modules_wf: "wf_dict (if_runtime fs) \<Longrightarrow> wf_dict (if_runtime (foldl (scan_module owners known) fs pkg))"
proof (induction pkg arbitrary: fs)
  case (Cons mt pkg)
  then have "wf_dict (if_runtime (scan_module owners known fs mt))"
    by (simp add: scan_module_def scan_nodes_wf)
  then show ?case using Cons.IH by simp
qed simp

lemma runtime_wf: "wf_dict (if_runtime (import_graph owners pkg))"
  by (simp add: import_graph_def scan_modules_wf)

lemma imports_keys: "t \<in> imports_to d m \<Longrightarrow> m \<in> set (dkeys d)"
  unfolding imports_to_def dget_or_def by (cases "dget d m") (simp_all add: mem_dkeys del: set_map)

lemma sorted_set_empty [simp]: "sorted_set xs = [] \<longleftrightarrow> xs = []"
  by (metis list.set(1) set_empty set_sorted_set)

lemma concat_sorted_empty: "concat (map f (sorted_set xs)) = [] \<longleftrightarrow> (\<forall>x \<in> set xs. f x = [])"
  by simp

lemma over_keys: "(\<forall>m \<in> set (dkeys d). \<forall>t \<in> imports_to d m. P m t) \<longleftrightarrow> (\<forall>m t. t \<in> imports_to d m \<longrightarrow> P m t)"
  using imports_keys [of _ d] by blast

lemma no_upward:
  "upward_imports layer_of fs = [] \<longleftrightarrow>
     (\<forall>m t r r'. t \<in> imports_to (if_runtime fs) m \<longrightarrow> rank_of layer_of m = Some r \<longrightarrow> rank_of layer_of t = Some r' \<longrightarrow> r' \<le> r)"
proof -
  have "upward_imports layer_of fs = [] \<longleftrightarrow> (\<forall>m \<in> set (dkeys (if_runtime fs)). \<forall>t \<in> imports_to (if_runtime fs) m.
      \<forall>r r'. rank_of layer_of m = Some r \<longrightarrow> rank_of layer_of t = Some r' \<longrightarrow> r' \<le> r)"
    unfolding upward_imports_def concat_sorted_empty imports_to_def
    by (intro ball_cong refl, auto split: option.split, meson leI)
  then show ?thesis unfolding over_keys by blast
qed

lemma no_trespass:
  "trespasses owners fs = [] \<longleftrightarrow> (\<forall>m b. b \<in> imports_to (if_backends fs) m \<longrightarrow> m \<in> set (dget_or owners b []))"
proof -
  have "trespasses owners fs = [] \<longleftrightarrow>
      (\<forall>m \<in> set (dkeys (if_backends fs)). \<forall>b \<in> imports_to (if_backends fs) m. m \<in> set (dget_or owners b []))"
    unfolding trespasses_def concat_sorted_empty imports_to_def
    by (intro ball_cong refl) (simp add: filter_empty_conv)
  then show ?thesis unfolding over_keys .
qed

lemma sort_empty: "sort xs = [] \<longleftrightarrow> xs = []"
  by (metis set_empty set_sort)

lemma no_cycles:
  assumes "wf_dict (if_runtime fs)"
  shows "import_cycles fs = [] \<longleftrightarrow>
     (\<forall>m t. t \<in> imports_to (if_runtime fs) m \<longrightarrow> m \<notin> imports_to (if_runtime fs) t)"
proof -
  have "import_cycles fs = [] \<longleftrightarrow> (\<forall>(m, ts) \<in> set (if_runtime fs). \<forall>t \<in> set ts. m \<notin> imports_to (if_runtime fs) t)"
    unfolding import_cycles_def sort_empty remdups_eq_nil_iff concat_eq_Nil_conv
    by (auto simp: filter_empty_conv imports_to_def)
  also have "\<dots> \<longleftrightarrow> (\<forall>m \<in> set (dkeys (if_runtime fs)). \<forall>t \<in> imports_to (if_runtime fs) m. m \<notin> imports_to (if_runtime fs) t)"
  proof -
    have "imports_to (if_runtime fs) m = set ts" if "(m, ts) \<in> set (if_runtime fs)" for m ts
      using wf_dict_get_mem [OF assms, of m ts] that by (simp add: imports_to_def dget_or_def)
    then show ?thesis by fastforce
  qed
  finally show ?thesis unfolding over_keys .
qed

text \<open>A clean verdict means that the documented rules hold, and each breach of one spoils it: the
  manifest places exactly the modules of the package, on layers that exist, no import at run time
  points to a higher layer, a backend is imported only by its owners, and no two modules import each
  other.\<close>

lemma clean_verdict:
  "vd_ok (arch_check layer_of owners pkg) \<longleftrightarrow>
     set (modules pkg) = set (dkeys layer_of) \<and> snd ` set layer_of \<subseteq> set layers
     \<and> (\<forall>m t r r'. t \<in> runtime_imports owners pkg m \<longrightarrow> rank_of layer_of m = Some r \<longrightarrow> rank_of layer_of t = Some r' \<longrightarrow> r' \<le> r)
     \<and> (\<forall>m b. b \<in> imports_to (if_backends (import_graph owners pkg)) m \<longrightarrow> m \<in> set (dget_or owners b []))
     \<and> (\<forall>m t. t \<in> runtime_imports owners pkg m \<longrightarrow> m \<notin> runtime_imports owners pkg t)"
proof -
  have place: "filter (\<lambda>m. m \<notin> set (dkeys layer_of)) (modules pkg) = [] \<and> filter (\<lambda>m. m \<notin> set (modules pkg)) (dkeys layer_of) = []
      \<longleftrightarrow> set (modules pkg) = set (dkeys layer_of)"
    unfolding filter_empty_conv by blast
  have lay: "filter (\<lambda>(m, l). l \<notin> set layers) layer_of = [] \<longleftrightarrow> snd ` set layer_of \<subseteq> set layers"
    unfolding filter_empty_conv by auto
  define u where "u = upward_imports layer_of (import_graph owners pkg)"
  define v where "v = trespasses owners (import_graph owners pkg)"
  define c where "c = import_cycles (import_graph owners pkg)"
  define up where "up = filter (\<lambda>m. m \<notin> set (dkeys layer_of)) (modules pkg)"
  define gone where "gone = filter (\<lambda>m. m \<notin> set (modules pkg)) (dkeys layer_of)"
  define unk where "unk = filter (\<lambda>(m, l). l \<notin> set layers) layer_of"
  have "vd_ok (arch_check layer_of owners pkg) \<longleftrightarrow>
      u @ v @ map Unplaced (sorted_set up) @ map Gone_Module (sorted_set gone)
        @ map Unknown_Layer (sorted_set (map fst unk)) @ map (\<lambda>(m, t). Import_Cycle m t) c = []"
    by (simp only: arch_check_def Let_def verdict.select_convs u_def v_def c_def up_def gone_def unk_def)
  then have "vd_ok (arch_check layer_of owners pkg) \<longleftrightarrow> u = [] \<and> v = [] \<and> (up = [] \<and> gone = []) \<and> unk = [] \<and> c = []"
    by simp
  then have ok: "vd_ok (arch_check layer_of owners pkg) \<longleftrightarrow> u = [] \<and> v = []
      \<and> set (modules pkg) = set (dkeys layer_of) \<and> snd ` set layer_of \<subseteq> set layers \<and> c = []"
    unfolding place [folded up_def gone_def] lay [folded unk_def] .
  show ?thesis
    unfolding ok u_def v_def c_def no_upward no_trespass no_cycles [OF runtime_wf]
    by (simp only: conj_ac)
qed

text \<open>The layers have different names, so modules of the same rank are on the same layer.\<close>

lemma rank_layer: "rank_of layer_of m = Some r \<longleftrightarrow> r < length layers \<and> dget layer_of m = Some (layers ! r)"
proof -
  have "dget (zip layers [0..<length layers]) l = Some r \<longleftrightarrow> r < length layers \<and> layers ! r = l" for l
    by (auto simp: layers_def upt_rec nth_Cons split: nat.splits)
  then show ?thesis by (auto simp: rank_of_def split: option.split)
qed

lemma placed_rank:
  assumes "snd ` set layer_of \<subseteq> set layers" "m \<in> set (dkeys layer_of)"
  shows "\<exists>r. rank_of layer_of m = Some r"
proof -
  from assms(2) obtain l where l: "dget layer_of m = Some l" using dget_None_keys [of layer_of m] by (cases "dget layer_of m") simp_all
  then have "l \<in> set layers" using assms(1) map_of_SomeD [OF l] by force
  then obtain r where "r < length layers" "layers ! r = l" by (auto simp: in_set_conv_nth)
  with l show ?thesis by (auto simp: rank_layer)
qed


definition ring :: package where
  "ring =
     [(''data'', Node 0 Other_Node [Node 1 (From_Import 1 (Some ''model'') []) []]),
      (''model'', Node 0 Other_Node [Node 1 (From_Import 1 (Some ''registry'') []) []]),
      (''registry'', Node 0 Other_Node [Node 1 (From_Import 1 (Some ''data'') []) []])]"

definition ring_layers :: "(string, string) dict" where
  "ring_layers = filter (\<lambda>(m, l). m \<in> {''data'', ''model'', ''registry''}) LAYER_OF"


end
