(* ===== verification/Snapshot_Store.thy ===== *)
theory Snapshot_Store
  imports Py_Values
begin

text \<open>
  The snapshot store (\<open>neural_pods/snapshot_store.py\<close>): immutable files named by revision and digest, the
  pointer to the latest one, the log, and compaction. A directory maps file names to contents, and
  each operation on it is a list of file system steps, so that a crash can come between any two of
  them or tear the file that is being written. The compressed encoding of rows, its decoder and the
  digest are arguments; the pointer and the log stand for their decoded JSON. The namespaces
  \<open>.\<close> and \<open>..\<close>, which the name check lets pass, are ordinary ones here, but the root and its parent in the code.
  What a step has written stays: the page cache is not modelled, and \<open>LATEST\<close> is renamed without \<open>fsync\<close>, so a crash
  is one of the process, not a loss of power.
\<close>

section \<open>Files and names\<close>

datatype 'b file_data = Snap 'b | Pointer int string string | Wal "json list"

type_synonym 'b dir = "(string, 'b file_data) dict"

definition digit :: "nat \<Rightarrow> char" where
  "digit d = char_of (48 + d)"

fun digits :: "nat \<Rightarrow> string" where
  "digits n = (if n < 10 then [digit n] else digits (n div 10) @ [digit (n mod 10)])"

declare digits.simps [simp del]

text \<open>\<open>f"{n:020d}"\<close> of a number that is not negative.\<close>

definition padded :: "nat \<Rightarrow> string" where
  "padded n = replicate (20 - length (digits n)) CHR ''0'' @ digits n"

definition snap_prefix :: "int \<Rightarrow> string" where
  "snap_prefix rv = ''snapshot-'' @ padded (nat rv) @ ''-''"

definition snap_name :: "int \<Rightarrow> string \<Rightarrow> string" where
  "snap_name rv hash = snap_prefix rv @ take 16 hash @ ''.json.gz''"

text \<open>The \<open>glob\<close> of a prefix and the suffix of the snapshots, sorted.\<close>

definition ends_with :: "string \<Rightarrow> string \<Rightarrow> bool" where
  "ends_with p s = starts_with (rev p) (rev s)"

definition matches :: "string \<Rightarrow> string \<Rightarrow> bool" where
  "matches prefix name = (starts_with prefix name \<and> ends_with ''.json.gz'' (drop (length prefix) name))"

definition glob :: "string \<Rightarrow> 'b dir \<Rightarrow> string list" where
  "glob prefix d = sort (filter (matches prefix) (dkeys d))"

definition safe_namespace :: "string \<Rightarrow> bool" where
  "safe_namespace ns =
     (ns \<noteq> [] \<and> list_all (\<lambda>c. is_digit c \<or> CHR ''a'' \<le> c \<and> c \<le> CHR ''z'' \<or> CHR ''A'' \<le> c \<and> c \<le> CHR ''Z''
        \<or> c \<in> {CHR ''_'', CHR ''.'', CHR ''-''}) ns)"

section \<open>Writing\<close>

datatype 'b fs_step = Put string "'b file_data" | Rename string string

fun fs_do :: "'b dir \<Rightarrow> 'b fs_step \<Rightarrow> 'b dir" where
  "fs_do d (Put n c) = dput n c d"
| "fs_do d (Rename a b) = (case dget d a of None \<Rightarrow> d | Some c \<Rightarrow> dput b c (dpop a d))"

text \<open>\<open>write\<close> in a directory: the snapshot, unless its name exists, then the pointer, each by way of a
  temporary file.\<close>

definition write_steps :: "('r \<Rightarrow> 'b) \<Rightarrow> ('b \<Rightarrow> string) \<Rightarrow> string \<Rightarrow> int \<Rightarrow> 'r \<Rightarrow> 'b dir \<Rightarrow> 'b fs_step list" where
  "write_steps enc sha tmp rv rows d =
     (let data = enc rows; final = snap_name rv (sha data)
      in (if final \<in> set (dkeys d) then [] else [Put tmp (Snap data), Rename tmp final])
         @ [Put ''LATEST.tmp'' (Pointer rv (sha data) final), Rename ''LATEST.tmp'' ''LATEST''])"

record snapshot_ref =
  sr_namespace :: string
  sr_revision :: int
  sr_digest :: string
  sr_file :: string

type_synonym 'b store = "(string, 'b dir) dict"

definition ss_write :: "('r \<Rightarrow> 'b) \<Rightarrow> ('b \<Rightarrow> string) \<Rightarrow> string \<Rightarrow> string \<Rightarrow> int \<Rightarrow> 'r \<Rightarrow> 'b store \<Rightarrow> snapshot_ref result \<times> 'b store" where
  "ss_write enc sha tmp ns rv rows s =
     (if rv < 0 then (Inl ValueError, s)
      else if \<not> safe_namespace ns then (Inl ValueError, s)
      else
        let d = dget_or s ns []
        in (Inr \<lparr>sr_namespace = ns, sr_revision = rv, sr_digest = sha (enc rows), sr_file = snap_name rv (sha (enc rows))\<rparr>,
            dput ns (foldl fs_do d (write_steps enc sha tmp rv rows d)) s))"

section \<open>Reading\<close>

definition missing :: py_error where
  "missing = OtherError ''FileNotFoundError''"

text \<open>Which file to read, and the digest that the pointer promises.\<close>

definition locate :: "int option \<Rightarrow> 'b dir \<Rightarrow> (int \<times> string \<times> string option) result" where
  "locate revision d =
     (case revision of
        None \<Rightarrow>
          (case dget d ''LATEST'' of
             Some (Pointer rv hash name) \<Rightarrow> Inr (rv, name, Some hash)
           | None \<Rightarrow> Inl missing
           | _ \<Rightarrow> Inl ValueError)
      | Some rv \<Rightarrow>
          (if rv < 0 \<or> glob (snap_prefix rv) d = [] then Inl missing
           else Inr (rv, last (glob (snap_prefix rv) d), None)))"

definition dir_read :: "('b \<Rightarrow> 'r result) \<Rightarrow> ('b \<Rightarrow> string) \<Rightarrow> string \<Rightarrow> int option \<Rightarrow> 'b dir \<Rightarrow> (snapshot_ref \<times> 'r) result" where
  "dir_read dec sha ns revision d =
     (case locate revision d of
        Inl e \<Rightarrow> Inl e
      | Inr (rv, name, expected) \<Rightarrow>
          (case dget d name of
             None \<Rightarrow> Inl missing
           | Some (Snap data) \<Rightarrow>
               if expected \<noteq> None \<and> expected \<noteq> Some [] \<and> expected \<noteq> Some (sha data) then Inl ValueError
               else (case dec data of
                       Inl e \<Rightarrow> Inl e
                     | Inr rows \<Rightarrow> Inr (\<lparr>sr_namespace = ns, sr_revision = rv, sr_digest = sha data, sr_file = name\<rparr>, rows))
           | Some _ \<Rightarrow> Inl ValueError))"

text \<open>\<open>read\<close> creates the directory of a namespace that it does not find.\<close>

definition ss_read :: "('b \<Rightarrow> 'r result) \<Rightarrow> ('b \<Rightarrow> string) \<Rightarrow> string \<Rightarrow> int option \<Rightarrow> 'b store \<Rightarrow> (snapshot_ref \<times> 'r) result \<times> 'b store" where
  "ss_read dec sha ns revision s =
     (if \<not> safe_namespace ns then (Inl ValueError, s)
      else (dir_read dec sha ns revision (dget_or s ns []), dsetdefault ns [] s))"

section \<open>The log and compaction\<close>

definition dir_append :: "json \<Rightarrow> 'b dir \<Rightarrow> 'b dir" where
  "dir_append event d =
     dput ''wal.jsonl'' (Wal ((case dget d ''wal.jsonl'' of Some (Wal es) \<Rightarrow> es | _ \<Rightarrow> []) @ [event])) d"

definition ss_append_wal :: "string \<Rightarrow> json \<Rightarrow> 'b store \<Rightarrow> unit result \<times> 'b store" where
  "ss_append_wal ns event s =
     (if \<not> safe_namespace ns then (Inl ValueError, s)
      else (Inr (), dput ns (dir_append event (dget_or s ns [])) s))"

definition stale_files :: "nat \<Rightarrow> 'b dir \<Rightarrow> string list" where
  "stale_files keep d = (let files = glob ''snapshot-'' d in take (length files - keep) files)"

definition dir_compact :: "nat \<Rightarrow> 'b dir \<Rightarrow> 'b dir" where
  "dir_compact keep d = foldl (\<lambda>d n. dpop n d) d (stale_files keep d)"

definition ss_compact :: "string \<Rightarrow> int \<Rightarrow> 'b store \<Rightarrow> nat result \<times> 'b store" where
  "ss_compact ns keep s =
     (if keep < 1 then (Inl ValueError, s)
      else if \<not> safe_namespace ns then (Inl ValueError, s)
      else let d = dget_or s ns []
           in (Inr (length (stale_files (nat keep) d)), dput ns (dir_compact (nat keep) d) s))"

section \<open>Numbers in names\<close>

definition digits_number :: "string \<Rightarrow> nat" where
  "digits_number s = foldl (\<lambda>a c. a * 10 + (of_char c - 48)) 0 s"

lemma digit_code: "d < 10 \<Longrightarrow> of_char (digit d) = (48 + d :: nat)"
  by (simp add: digit_def)

lemma digits_number_snoc: "digits_number (s @ [c]) = digits_number s * 10 + (of_char c - 48)"
  by (simp add: digits_number_def)

lemma digits_number_digits: "digits_number (digits n) = n"
proof (induction n rule: digits.induct)
  case (1 n)
  show ?case
  proof (cases "n < 10")
    case True
    then show ?thesis by (simp add: digits.simps [of n] digits_number_def digit_code)
  next
    case False
    with 1 show ?thesis by (simp add: digits.simps [of n] digits_number_snoc digit_code)
  qed
qed

lemma digits_number_zeros: "digits_number (replicate k CHR ''0'' @ s) = digits_number s"
  by (induction k) (simp_all add: digits_number_def)

lemma digits_number_padded: "digits_number (padded n) = n"
  by (simp add: padded_def digits_number_zeros digits_number_digits)

definition decimal :: "char \<Rightarrow> bool" where
  "decimal c = (48 \<le> (of_char c :: nat) \<and> (of_char c :: nat) < 58)"

lemma digits_decimal: "\<forall>c \<in> set (digits n). decimal c"
proof (induction n rule: digits.induct)
  case (1 n)
  then show ?case
    by (cases "n < 10") (auto simp: digits.simps [of n] decimal_def digit_code)
qed

lemma padded_decimal: "c \<in> set (padded n) \<Longrightarrow> decimal c"
  using digits_decimal by (auto simp: padded_def decimal_def split: if_splits)

lemma digits_length: "0 < k \<Longrightarrow> n < 10 ^ k \<Longrightarrow> length (digits n) \<le> k"
proof (induction n arbitrary: k rule: digits.induct)
  case (1 n)
  show ?case
  proof (cases "n < 10")
    case False
    then obtain j where k: "k = Suc j" "0 < j" using "1.prems" by (cases k; cases "k - 1") auto
    from "1.prems"(2) have "n div 10 < 10 ^ j" unfolding k by (simp add: less_mult_imp_div_less mult.commute)
    with "1.IH" [OF False k(2)] show ?thesis using False by (simp add: digits.simps [of n] k)
  qed (simp add: digits.simps [of n] "1.prems" Suc_leI)
qed

lemma padded_length: "n < 10 ^ 20 \<Longrightarrow> length (padded n) = 20"
  using digits_length [of 20 n] by (simp add: padded_def)

lemma block_less:
  assumes "i < j" "a < n"
  shows "i * n + a < j * n + (b :: nat)"
proof -
  have "i * n + a < Suc i * n" using assms(2) by simp
  also have "\<dots> \<le> j * n" using assms(1) by (intro mult_le_mono1) simp
  finally show ?thesis by simp
qed

text \<open>Decimal strings of one length compare as their numbers do.\<close>

lemma digits_number_Cons: "digits_number (c # s) = (of_char c - 48) * 10 ^ length s + digits_number s"
  by (induction s rule: rev_induct) (simp_all add: digits_number_def algebra_simps)

lemma digits_number_bound: "\<forall>c \<in> set s. decimal c \<Longrightarrow> digits_number s < 10 ^ length s"
proof (induction s)
  case (Cons c s)
  let ?x = "of_char c - 48 :: nat"
  have "?x * 10 ^ length s + digits_number s < Suc ?x * 10 ^ length s" using Cons by simp
  also have "\<dots> \<le> 10 * 10 ^ length s" using Cons.prems by (intro mult_le_mono1) (auto simp: decimal_def)
  finally show ?case by (simp add: digits_number_Cons)
qed (simp add: digits_number_def)

lemma decimal_order:
  "length s = length t \<Longrightarrow> \<forall>c \<in> set s. decimal c \<Longrightarrow> \<forall>c \<in> set t. decimal c \<Longrightarrow> s < t \<longleftrightarrow> digits_number s < digits_number t"
proof (induction s t rule: list_induct2)
  case (Cons c s d t)
  let ?c = "of_char c :: nat" and ?d = "of_char d :: nat"
  have b: "digits_number s < 10 ^ length t" "digits_number t < 10 ^ length t"
    using digits_number_bound [of s] digits_number_bound [of t] Cons by simp_all
  have ord: "48 \<le> ?c" "48 \<le> ?d" "(c < d) = (?c < ?d)" "(c = d) = (?c = ?d)"
    using Cons.prems by (simp_all add: decimal_def less_char_def)
  have less: "(c # s < d # t) = (?c < ?d \<or> ?c = ?d \<and> digits_number s < digits_number t)"
  proof -
    have ih: "(s < t) = (digits_number s < digits_number t)" using Cons.IH Cons.prems by simp
    show ?thesis unfolding Cons_less_Cons ih ord(3) ord(4) ..
  qed
  have num: "digits_number (c # s) = (?c - 48) * 10 ^ length t + digits_number s"
    "digits_number (d # t) = (?d - 48) * 10 ^ length t + digits_number t"
    using Cons.hyps by (simp_all only: digits_number_Cons)
  consider "?c < ?d" | "?c = ?d" | "?d < ?c" by linarith
  then show ?case
  proof cases
    case 1
    then have "?c - 48 < ?d - 48" using ord by simp
    with 1 show ?thesis unfolding less num using block_less [OF _ b(1)] by simp
  next
    case 2
    then show ?thesis unfolding less num by simp
  next
    case 3
    then have "?d - 48 < ?c - 48" using ord by simp
    then have "(?d - 48) * 10 ^ length t + digits_number t < (?c - 48) * 10 ^ length t + digits_number s"
      by (rule block_less [OF _ b(2)])
    with 3 show ?thesis unfolding less num by auto
  qed
qed simp

lemma padded_order: "m < 10 ^ 20 \<Longrightarrow> n < 10 ^ 20 \<Longrightarrow> padded m < padded n \<longleftrightarrow> m < n"
  using decimal_order [of "padded m" "padded n"] by (simp add: padded_length padded_decimal digits_number_padded)

lemma dash_free: "CHR ''-'' \<notin> set (padded n)"
  using padded_decimal [of "CHR ''-''" n] by (auto simp: decimal_def)

lemma split_dash: "a @ CHR ''-'' # x = b @ CHR ''-'' # y \<Longrightarrow> CHR ''-'' \<notin> set a \<Longrightarrow> CHR ''-'' \<notin> set b \<Longrightarrow> a = b"
proof (induction a arbitrary: b)
  case Nil
  then show ?case by (cases b) auto
next
  case (Cons c a)
  then show ?case by (cases b) auto
qed

lemma snap_name_prefix:
  assumes "0 \<le> r" "0 \<le> rv"
  shows "starts_with (snap_prefix r) (snap_name rv h) \<longleftrightarrow> r = rv"
proof
  assume "starts_with (snap_prefix r) (snap_name rv h)"
  then obtain x where "snap_name rv h = snap_prefix r @ x" by (auto simp: starts_with_iff)
  then have "padded (nat rv) @ CHR ''-'' # take 16 h @ ''.json.gz'' = padded (nat r) @ CHR ''-'' # x"
    by (simp add: snap_name_def snap_prefix_def)
  then have "padded (nat rv) = padded (nat r)" by (rule split_dash) (rule dash_free)+
  then have "nat rv = nat r" by (metis digits_number_padded)
  with assms show "r = rv" by simp
qed (auto simp: snap_name_def starts_with_iff)

lemma ends_with_iff: "ends_with p s \<longleftrightarrow> (\<exists>r. s = r @ p)"
proof -
  have "ends_with p s \<longleftrightarrow> (\<exists>r. rev s = rev p @ r)" by (simp add: ends_with_def starts_with_iff)
  also have "\<dots> \<longleftrightarrow> (\<exists>r. s = r @ p)" by (metis rev_append rev_rev_ident)
  finally show ?thesis .
qed

lemma snap_name_matches: "matches (snap_prefix rv) (snap_name rv h)" "matches ''snapshot-'' (snap_name rv h)"
  by (auto simp: matches_def snap_name_def snap_prefix_def starts_with_iff ends_with_iff)

definition visible :: "string \<Rightarrow> bool" where
  "visible n = (n = ''LATEST'' \<or> starts_with ''snapshot-'' n)"

lemma visible_names [simp]: "visible (snap_name rv h)" "visible ''LATEST''" "\<not> visible ''LATEST.tmp''" "\<not> visible ''wal.jsonl''"
  by (auto simp: visible_def snap_name_def snap_prefix_def starts_with_iff)

lemma matches_visible: "matches (snap_prefix rv) n \<Longrightarrow> visible n" "matches ''snapshot-'' n \<Longrightarrow> visible n"
  by (auto simp: matches_def visible_def snap_prefix_def starts_with_iff)

lemma snap_name_special [simp]: "snap_name rv h \<noteq> ''LATEST''" "snap_name rv h \<noteq> ''LATEST.tmp''" "snap_name rv h \<noteq> ''wal.jsonl''"
  "''LATEST'' \<noteq> snap_name rv h"
  by (simp_all add: snap_name_def snap_prefix_def)

section \<open>What a reader sees\<close>

text \<open>Two directories that agree on the pointer and the snapshots.\<close>

definition same_view :: "'b dir \<Rightarrow> 'b dir \<Rightarrow> bool" where
  "same_view d d' = (\<forall>n. visible n \<longrightarrow> dget d n = dget d' n)"

lemma glob_set: "set (glob p d) = {n \<in> set (dkeys d). matches p n}"
  by (auto simp: glob_def)

lemma glob_eq:
  assumes "wf_dict d" "wf_dict d'" "\<And>n. matches p n \<Longrightarrow> (dget d n = None) = (dget d' n = None)"
  shows "glob p d = glob p d'"
proof (rule sorted_distinct_set_unique)
  show "set (glob p d) = set (glob p d')"
    unfolding glob_set using assms(3) dget_None_keys [of d] dget_None_keys [of d'] by blast
qed (use assms in \<open>simp_all add: glob_def wf_dict_def\<close>)

text \<open>The directories that the operations and crashes leave: a snapshot is named by its revision and
  its digest, the pointer names a snapshot; temporary names can hold anything.\<close>

definition entry_ok :: "('b \<Rightarrow> string) \<Rightarrow> string \<Rightarrow> 'b file_data \<Rightarrow> bool" where
  "entry_ok sha n c =
     ((visible n \<longrightarrow> (\<exists>rv data. 0 \<le> rv \<and> n = snap_name rv (sha data) \<and> c = Snap data)
         \<or> n = ''LATEST'' \<and> (\<exists>rv hash. 0 \<le> rv \<and> hash \<noteq> [] \<and> c = Pointer rv hash (snap_name rv hash))))"

definition dir_ok :: "('b \<Rightarrow> string) \<Rightarrow> 'b dir \<Rightarrow> bool" where
  "dir_ok sha d = (wf_dict d \<and> (\<forall>n c. dget d n = Some c \<longrightarrow> entry_ok sha n c))"

lemma dir_ok_put: "dir_ok sha d \<Longrightarrow> entry_ok sha n c \<Longrightarrow> dir_ok sha (dput n c d)"
  by (auto simp: dir_ok_def dict_simps)

lemma dir_ok_pop: "dir_ok sha d \<Longrightarrow> dir_ok sha (dpop n d)"
  by (auto simp: dir_ok_def dict_simps split: if_splits)

lemma dir_ok_invisible: "dir_ok sha d \<Longrightarrow> \<not> visible n \<Longrightarrow> dir_ok sha (dput n c d)"
  by (rule dir_ok_put) (simp_all add: entry_ok_def)

lemma dir_ok_snap:
  assumes "dir_ok sha d" "dget d (snap_name rv h) = Some c"
  shows "\<exists>r data. 0 \<le> r \<and> snap_name rv h = snap_name r (sha data) \<and> c = Snap data"
  using assms by (fastforce simp: dir_ok_def entry_ok_def)

lemma dir_ok_latest:
  assumes "dir_ok sha d" "dget d ''LATEST'' = Some c"
  shows "\<exists>rv hash. 0 \<le> rv \<and> hash \<noteq> [] \<and> c = Pointer rv hash (snap_name rv hash)"
proof -
  from assms have "entry_ok sha ''LATEST'' c" by (simp add: dir_ok_def)
  then show ?thesis by (simp add: entry_ok_def)
qed

lemma read_revision_cong:
  assumes "wf_dict d" "wf_dict d'" "\<And>n. matches (snap_prefix rv) n \<Longrightarrow> dget d n = dget d' n"
  shows "dir_read dec sha ns (Some rv) d = dir_read dec sha ns (Some rv) d'"
proof -
  have g: "glob (snap_prefix rv) d = glob (snap_prefix rv) d'" using assms by (intro glob_eq) simp_all
  show ?thesis
  proof (cases "rv < 0 \<or> glob (snap_prefix rv) d = []")
    case False
    then have "last (glob (snap_prefix rv) d) \<in> set (glob (snap_prefix rv) d)" by simp
    then have "dget d (last (glob (snap_prefix rv) d)) = dget d' (last (glob (snap_prefix rv) d))"
      using assms(3) unfolding glob_set by blast
    then show ?thesis using False by (simp add: dir_read_def locate_def g)
  qed (auto simp: dir_read_def locate_def g)
qed

lemma read_view:
  assumes "dir_ok sha d" "wf_dict d'" "same_view d d'"
  shows "dir_read dec sha ns revision d = dir_read dec sha ns revision d'"
proof (cases revision)
  case None
  have l: "dget d ''LATEST'' = dget d' ''LATEST''" using assms(3) by (simp add: same_view_def)
  show ?thesis
  proof (cases "dget d ''LATEST''")
    case None
    with l \<open>revision = None\<close> show ?thesis by (simp add: dir_read_def locate_def)
  next
    case (Some c)
    from dir_ok_latest [OF assms(1) this] obtain rv hash where "c = Pointer rv hash (snap_name rv hash)" by blast
    moreover have "dget d (snap_name rv hash) = dget d' (snap_name rv hash)" using assms(3) by (simp add: same_view_def)
    ultimately show ?thesis using Some l \<open>revision = None\<close> by (simp add: dir_read_def locate_def)
  qed
next
  case (Some rv)
  then show ?thesis
    using assms matches_visible(1) by (auto simp: dir_ok_def same_view_def intro!: read_revision_cong)
qed

section \<open>Crashes\<close>

text \<open>
  What a list of steps can leave behind when it stops: any number of them done, and the file that is
  being written torn to anything. A log line that is torn is not modelled.
\<close>

inductive crash_states :: "'b fs_step list \<Rightarrow> 'b dir \<Rightarrow> 'b dir \<Rightarrow> bool" where
  crash_stop: "crash_states steps d d"
| crash_torn: "crash_states (Put n c # steps) d (dput n torn d)"
| crash_later: "crash_states steps (fs_do d st) d' \<Longrightarrow> crash_states (st # steps) d d'"

inductive_cases crash_NilE: "crash_states [] d d'"
inductive_cases crash_ConsE: "crash_states (st # steps) d d'"

lemma no_crash: "crash_states steps d (foldl fs_do d steps)"
  by (induction steps arbitrary: d) (auto intro: crash_states.intros)

text \<open>The directories that are reached from an empty one, with crashes anywhere in a write or a compaction.\<close>

inductive ss_reach :: "('r \<Rightarrow> 'b) \<Rightarrow> ('b \<Rightarrow> string) \<Rightarrow> 'b dir \<Rightarrow> bool" for enc sha where
  reach_empty: "ss_reach enc sha []"
| reach_write: "ss_reach enc sha d \<Longrightarrow> 0 \<le> rv \<Longrightarrow> crash_states (write_steps enc sha (''.snapshot-'' @ tmp) rv rows d) d d' \<Longrightarrow> ss_reach enc sha d'"
| reach_append: "ss_reach enc sha d \<Longrightarrow> ss_reach enc sha (dir_append event d)"
| reach_compact: "ss_reach enc sha d \<Longrightarrow> ss_reach enc sha (foldl (\<lambda>d n. dpop n d) d (take k (stale_files keep d)))"

lemma hidden_tmp [simp]: "\<not> visible (''.snapshot-'' @ t)" "snap_name rv h \<noteq> ''.snapshot-'' @ t" "''LATEST.tmp'' \<noteq> ''.snapshot-'' @ t"
    "''LATEST'' \<noteq> ''.snapshot-'' @ t" "''.snapshot-'' @ t \<noteq> snap_name rv h"
  by (auto simp: visible_def snap_name_def snap_prefix_def starts_with_iff)

lemma put_hidden: "\<not> visible n \<Longrightarrow> same_view d (dput n c d)"
  by (auto simp: same_view_def dict_simps)

lemma rename_view: "\<not> visible a \<Longrightarrow> same_view (dput b c d) (fs_do (dput a c d) (Rename a b))"
  by (auto simp: same_view_def dict_simps)

lemma same_view_trans: "same_view a b \<Longrightarrow> same_view b c \<Longrightarrow> same_view a c"
  by (simp add: same_view_def)

lemma same_view_put: "same_view a b \<Longrightarrow> same_view (dput n c a) (dput n c b)"
  by (simp add: same_view_def dict_simps)

lemma same_view_refl [simp]: "same_view d d"
  by (simp add: same_view_def)

text \<open>The steps of a write and the three views that a reader can have in between.\<close>

definition with_snap :: "('r \<Rightarrow> 'b) \<Rightarrow> ('b \<Rightarrow> string) \<Rightarrow> int \<Rightarrow> 'r \<Rightarrow> 'b dir \<Rightarrow> 'b dir" where
  "with_snap enc sha rv rows d =
     (let f = snap_name rv (sha (enc rows)) in if f \<in> set (dkeys d) then d else dput f (Snap (enc rows)) d)"

definition with_latest :: "('r \<Rightarrow> 'b) \<Rightarrow> ('b \<Rightarrow> string) \<Rightarrow> int \<Rightarrow> 'r \<Rightarrow> 'b dir \<Rightarrow> 'b dir" where
  "with_latest enc sha rv rows d =
     dput ''LATEST'' (Pointer rv (sha (enc rows)) (snap_name rv (sha (enc rows)))) (with_snap enc sha rv rows d)"

lemma fs_do_wf [simp]: "wf_dict d \<Longrightarrow> wf_dict (fs_do d st)"
  by (cases st) (auto split: option.split)

lemma fs_steps_wf: "wf_dict d \<Longrightarrow> wf_dict (foldl fs_do d sts)"
  by (induction sts arbitrary: d) simp_all

lemma crash_wf: "crash_states steps d d' \<Longrightarrow> wf_dict d \<Longrightarrow> wf_dict d'"
  by (induction rule: crash_states.induct) simp_all

lemma crash_Nil: "crash_states [] d d' \<longleftrightarrow> d' = d"
  by (auto elim: crash_NilE intro: crash_stop)

lemma crash_Cons:
  "crash_states (st # steps) d d' \<Longrightarrow>
     d' = d \<or> (\<exists>n c torn. st = Put n c \<and> d' = dput n torn d) \<or> crash_states steps (fs_do d st) d'"
  by (erule crash_ConsE) auto

lemma pointer_crash:
  assumes "crash_states [Put ''LATEST.tmp'' p, Rename ''LATEST.tmp'' ''LATEST''] d d'"
  shows "same_view d d' \<or> same_view (dput ''LATEST'' p d) d'"
  using crash_Cons [OF assms] put_hidden [of "''LATEST.tmp''" d] rename_view [of "''LATEST.tmp''" "''LATEST''" p d]
  by (auto dest!: crash_Cons simp: crash_Nil simp del: fs_do.simps(2))

lemma write_crash:
  fixes enc :: "'r \<Rightarrow> 'b"
  assumes "crash_states (write_steps enc sha t rv rows d) d d'" "\<not> visible t"
  shows "same_view d d' \<or> same_view (with_snap enc sha rv rows d) d' \<or> same_view (with_latest enc sha rv rows d) d'"
proof -
  define f where "f = snap_name rv (sha (enc rows))"
  define p :: "'b file_data" where "p = Pointer rv (sha (enc rows)) f"
  define rest where "rest = [Put ''LATEST.tmp'' p, Rename ''LATEST.tmp'' ''LATEST'']"
  show ?thesis
  proof (cases "f \<in> set (dkeys d)")
    case True
    then have c: "crash_states rest d d'"
      using assms(1) by (simp add: write_steps_def Let_def f_def p_def rest_def del: set_map)
    from True have w: "with_latest enc sha rv rows d = dput ''LATEST'' p d"
      by (simp add: with_latest_def with_snap_def Let_def f_def p_def del: set_map)
    show ?thesis unfolding w using pointer_crash [OF c [unfolded rest_def]] by blast
  next
    case False
    define d2 where "d2 = fs_do (dput t (Snap (enc rows)) d) (Rename t f)"
    have c: "crash_states (Put t (Snap (enc rows)) # Rename t f # rest) d d'"
      using assms(1) False by (simp add: write_steps_def Let_def f_def p_def rest_def del: set_map)
    have v: "same_view (with_snap enc sha rv rows d) d2"
      using rename_view [OF assms(2), of f "Snap (enc rows)" d] False
      by (simp add: with_snap_def Let_def f_def d2_def del: set_map fs_do.simps(2))
    from crash_Cons [OF c] crash_Cons [of "Rename t f" rest "dput t (Snap (enc rows)) d" d']
    consider "d' = d" | torn where "d' = dput t torn d" | "crash_states rest d2 d'"
      unfolding d2_def by auto
    then show ?thesis
    proof cases
      case 3
      have w: "with_latest enc sha rv rows d = dput ''LATEST'' p (with_snap enc sha rv rows d)"
        by (simp only: with_latest_def f_def p_def)
      from pointer_crash [OF 3 [unfolded rest_def]] show ?thesis
        unfolding w using same_view_trans [OF v] same_view_trans [OF same_view_put [OF v]] by blast
    qed (use put_hidden [OF assms(2)] same_view_refl in blast)+
  qed
qed

lemma complete_view:
  fixes enc :: "'r \<Rightarrow> 'b"
  assumes "\<not> visible t"
  shows "same_view (with_latest enc sha rv rows d) (foldl fs_do d (write_steps enc sha t rv rows d))"
proof -
  define f where "f = snap_name rv (sha (enc rows))"
  define p :: "'b file_data" where "p = Pointer rv (sha (enc rows)) f"
  define d2 where "d2 = (if f \<in> set (dkeys d) then d else fs_do (dput t (Snap (enc rows)) d) (Rename t f))"
  have v: "same_view (with_snap enc sha rv rows d) d2"
    using rename_view [OF assms, of f "Snap (enc rows)" d]
    by (simp add: with_snap_def Let_def f_def d2_def del: set_map fs_do.simps(2))
  have w: "with_latest enc sha rv rows d = dput ''LATEST'' p (with_snap enc sha rv rows d)"
    by (simp only: with_latest_def f_def p_def)
  have "foldl fs_do d (write_steps enc sha t rv rows d) = fs_do (dput ''LATEST.tmp'' p d2) (Rename ''LATEST.tmp'' ''LATEST'')"
    by (simp add: write_steps_def Let_def f_def [symmetric] p_def [symmetric] d2_def del: set_map fs_do.simps(2))
  then show ?thesis
    unfolding w using same_view_trans [OF same_view_put [OF v] rename_view] visible_names(3) by metis
qed

section \<open>What is reached\<close>

lemma put_rename_ok:
  assumes "dir_ok sha d" "\<not> visible a" "entry_ok sha b c" "crash_states (Put a c # Rename a b # steps) d d'"
  shows "dir_ok sha d' \<or> (\<exists>d2. dir_ok sha d2 \<and> crash_states steps d2 d')"
proof -
  have d1: "dir_ok sha (dput a x d)" for x by (rule dir_ok_invisible [OF assms(1,2)])
  have d2: "dir_ok sha (fs_do (dput a c d) (Rename a b))"
    using dir_ok_put [OF dir_ok_pop [OF d1 [of c], of a] assms(3)] by (simp add: dict_simps)
  from crash_Cons [OF assms(4)] crash_Cons [of "Rename a b" steps "dput a c d" d']
  consider "d' = d" | torn where "d' = dput a torn d" | "crash_states steps (fs_do (dput a c d) (Rename a b)) d'"
    by auto
  then show ?thesis
  proof cases
    case 3
    then show ?thesis using d2 by blast
  qed (use assms(1) d1 in simp_all)
qed

lemma write_ok:
  assumes "dir_ok sha d" "\<not> visible t" "0 \<le> rv" "\<forall>b. length (sha b) = 64" "crash_states (write_steps enc sha t rv rows d) d d'"
  shows "dir_ok sha d'"
proof -
  let ?f = "snap_name rv (sha (enc rows))"
  let ?rest = "[Put ''LATEST.tmp'' (Pointer rv (sha (enc rows)) ?f), Rename ''LATEST.tmp'' ''LATEST'']"
  have p: "entry_ok sha ''LATEST'' (Pointer rv (sha (enc rows)) ?f)"
    using assms(3,4) by (auto simp: entry_ok_def dest: spec [of _ "enc rows"])
  have f: "entry_ok sha ?f (Snap (enc rows))" using assms(3) by (auto simp: entry_ok_def)
  have rest: "dir_ok sha e'" if "dir_ok sha e" "crash_states ?rest e e'" for e e'
    using put_rename_ok [OF that(1) visible_names(3) p that(2)] by (auto simp: crash_Nil)
  show ?thesis
  proof (cases "?f \<in> set (dkeys d)")
    case True
    then show ?thesis using assms(5) rest [OF assms(1)] by (simp add: write_steps_def Let_def del: set_map)
  next
    case False
    then have "crash_states (Put t (Snap (enc rows)) # Rename t ?f # ?rest) d d'"
      using assms(5) by (simp add: write_steps_def Let_def del: set_map)
    from put_rename_ok [OF assms(1,2) f this] rest show ?thesis by blast
  qed
qed

lemma pops_ok: "dir_ok sha d \<Longrightarrow> dir_ok sha (foldl (\<lambda>d n. dpop n d) d ns)"
  by (induction ns arbitrary: d) (simp_all add: dir_ok_pop)

lemma reach_ok: "ss_reach enc sha d \<Longrightarrow> \<forall>b. length (sha b) = 64 \<Longrightarrow> dir_ok sha d"
proof (induction rule: ss_reach.induct)
  case reach_empty
  then show ?case by (simp add: dir_ok_def)
next
  case (reach_write d rv tmp rows d')
  from write_ok [OF reach_write.IH [OF reach_write.prems] hidden_tmp(1) reach_write.hyps(2) reach_write.prems reach_write.hyps(3)]
  show ?case .
next
  case (reach_append d event)
  then show ?case unfolding dir_append_def by (intro dir_ok_invisible) simp_all
qed (rule pops_ok)

lemma with_snap_ok: "dir_ok sha d \<Longrightarrow> 0 \<le> rv \<Longrightarrow> dir_ok sha (with_snap enc sha rv rows d)"
  unfolding with_snap_def Let_def by (auto intro!: dir_ok_put simp: entry_ok_def)

lemma with_latest_ok:
  "dir_ok sha d \<Longrightarrow> 0 \<le> rv \<Longrightarrow> \<forall>b. length (sha b) = 64 \<Longrightarrow> dir_ok sha (with_latest enc sha rv rows d)"
  unfolding with_latest_def
  by (intro dir_ok_put with_snap_ok) (auto simp: entry_ok_def dest: spec [of _ "enc rows"])

lemma other_revision:
  fixes enc :: "'r \<Rightarrow> 'b"
  assumes "dir_ok sha d" "0 \<le> rv" "r \<noteq> rv"
  shows "dir_read dec sha ns (Some r) (with_snap enc sha rv rows d) = dir_read dec sha ns (Some r) d"
    and "dir_read dec sha ns (Some r) (with_latest enc sha rv rows d) = dir_read dec sha ns (Some r) d"
proof -
  have wf: "wf_dict d" using assms(1) by (simp add: dir_ok_def)
  then have wf': "wf_dict (with_snap enc sha rv rows d)" "wf_dict (with_latest enc sha rv rows d)"
    by (simp_all add: with_snap_def with_latest_def Let_def)
  have same: "dget (with_snap enc sha rv rows d) n = dget d n" "dget (with_latest enc sha rv rows d) n = dget d n"
    if m: "matches (snap_prefix r) n" "0 \<le> r" for n
  proof -
    from m have "n \<noteq> snap_name rv (sha (enc rows))"
      using snap_name_prefix [OF m(2) assms(2)] assms(3) by (auto simp: matches_def)
    moreover have "n \<noteq> ''LATEST''" using m by (auto simp: matches_def snap_prefix_def starts_with_iff)
    ultimately show "dget (with_snap enc sha rv rows d) n = dget d n" "dget (with_latest enc sha rv rows d) n = dget d n"
      by (simp_all add: with_snap_def with_latest_def Let_def dict_simps)
  qed
  show "dir_read dec sha ns (Some r) (with_snap enc sha rv rows d) = dir_read dec sha ns (Some r) d"
    "dir_read dec sha ns (Some r) (with_latest enc sha rv rows d) = dir_read dec sha ns (Some r) d"
  proof (atomize (full), cases "0 \<le> r")
    case True
    show "dir_read dec sha ns (Some r) (with_snap enc sha rv rows d) = dir_read dec sha ns (Some r) d
        \<and> dir_read dec sha ns (Some r) (with_latest enc sha rv rows d) = dir_read dec sha ns (Some r) d"
      by (intro conjI read_revision_cong wf wf' same True)
  qed (simp add: dir_read_def locate_def)
qed

lemma with_snap_latest: "dget (with_snap enc sha rv rows d) ''LATEST'' = dget d ''LATEST''"
  by (simp add: with_snap_def Let_def dict_simps)

text \<open>A write that got as far as the snapshot does not change what the old pointer leads to.\<close>

lemma old_pointer_holds:
  assumes "dir_ok sha d" "is_ok (dir_read dec sha ns None d) \<or> dget d ''LATEST'' = None"
  shows "dir_read dec sha ns None (with_snap enc sha rv rows d) = dir_read dec sha ns None d"
proof (cases "dget d ''LATEST''")
  case None
  then show ?thesis by (simp add: dir_read_def locate_def with_snap_latest)
next
  case (Some c)
  with assms(1) obtain r hash where c: "dget d ''LATEST'' = Some (Pointer r hash (snap_name r hash))"
    using dir_ok_latest by blast
  with assms(2) obtain x where "dget d (snap_name r hash) = Some x"
    by (auto simp: dir_read_def locate_def split: option.splits)
  then have "dget (with_snap enc sha rv rows d) (snap_name r hash) = dget d (snap_name r hash)"
    using mem_dkeys [of d "snap_name r hash"] by (auto simp: with_snap_def Let_def dict_simps simp del: set_map)
  with c show ?thesis by (simp add: dir_read_def locate_def with_snap_latest)
qed

section \<open>Atomic writes\<close>

text \<open>C36. Writing a snapshot is atomic under crashes of the process. From any directory that operations and
  crashes have left and whose pointer can be read or is missing, a write that stops anywhere, even in the middle of a file,
  leaves a directory in which the latest snapshot is the old one or the new one, and in which
  every other revision reads as before. (A loss of power is not covered: the temporary file of the pointer is
  not synced before it is renamed.)\<close>

theorem snapshot_write_atomic:
  assumes "\<forall>b. length (sha b) = 64" "ss_reach enc sha d" "0 \<le> rv"
    "is_ok (dir_read dec sha ns None d) \<or> dget d ''LATEST'' = None"
    "crash_states (write_steps enc sha (''.snapshot-'' @ tmp) rv rows d) d d'"
  shows "dir_read dec sha ns None d' \<in> {dir_read dec sha ns None d,
      dir_read dec sha ns None (foldl fs_do d (write_steps enc sha (''.snapshot-'' @ tmp) rv rows d))}
    \<and> (\<forall>r. r \<noteq> rv \<longrightarrow> dir_read dec sha ns (Some r) d' = dir_read dec sha ns (Some r) d)"
proof -
  note ok = reach_ok [OF assms(2,1)]
  then have wf: "wf_dict d" by (simp add: dir_ok_def)
  have wf': "wf_dict d'" by (rule crash_wf [OF assms(5) wf])
  note ok1 = with_snap_ok [OF ok assms(3), of enc rows] and ok2 = with_latest_ok [OF ok assms(3,1), of enc rows]
  have full: "dir_read dec sha ns None (with_latest enc sha rv rows d)
      = dir_read dec sha ns None (foldl fs_do d (write_steps enc sha (''.snapshot-'' @ tmp) rv rows d))"
    by (rule read_view [OF ok2 fs_steps_wf [OF wf] complete_view [OF hidden_tmp(1)]])
  from write_crash [OF assms(5) hidden_tmp(1)] consider
    "same_view d d'" | "same_view (with_snap enc sha rv rows d) d'" | "same_view (with_latest enc sha rv rows d) d'" by blast
  then show ?thesis
  proof cases
    case 1
    then show ?thesis using read_view [OF ok wf' 1, of dec ns] by simp
  next
    case 2
    note v = read_view [OF ok1 wf' 2, of dec ns, symmetric]
    show ?thesis
      unfolding v using old_pointer_holds [OF ok assms(4), of enc rv rows] other_revision(1) [OF ok assms(3), of _ dec ns enc rows]
      by simp
  next
    case 3
    note v = read_view [OF ok2 wf' 3, of dec ns, symmetric]
    show ?thesis unfolding v using full other_revision(2) [OF ok assms(3), of _ dec ns enc rows] by simp
  qed
qed

text \<open>A digest and an encoding to run the model on.\<close>

definition demo_sha :: "nat list \<Rightarrow> string" where
  "demo_sha b = replicate 64 (digit (length b mod 10))"

definition demo_rows :: "nat list \<Rightarrow> nat list" where
  "demo_rows rows = rows"

definition demo_dir :: "nat list dir" where
  "demo_dir = foldl fs_do [] (write_steps demo_rows demo_sha (''.snapshot-'' @ ''a'') 1 [7] [])"

lemma demo_dir_reach: "ss_reach demo_rows demo_sha demo_dir"
  unfolding demo_dir_def by (rule reach_write [OF reach_empty _ no_crash]) simp

theorem snapshot_write_atomic_witness:
  "\<exists>ref. dir_read Inr demo_sha ''n'' None demo_dir = Inr (ref, [7])
     \<and> dir_read Inr demo_sha ''n'' (Some 1) (dput ''.snapshot-b'' (Wal []) demo_dir) = Inr (ref, [7])
     \<and> dir_read Inr demo_sha ''n'' None (dput ''.snapshot-b'' (Wal []) demo_dir) \<noteq> Inl missing"
proof -
  let ?steps = "write_steps demo_rows demo_sha (''.snapshot-'' @ ''b'') 2 [8, 9] demo_dir"
  have len: "\<forall>b. length (demo_sha b) = 64" by (simp add: demo_sha_def)
  have old: "is_ok (dir_read Inr demo_sha ''n'' None demo_dir)" by code_simp
  have "?steps = Put (''.snapshot-'' @ ''b'') (Snap (demo_rows [8, 9])) # tl ?steps" by code_simp
  then have c: "crash_states ?steps demo_dir (dput (''.snapshot-'' @ ''b'') (Wal []) demo_dir)" by (metis crash_torn)
  note atomic = snapshot_write_atomic [OF len demo_dir_reach _ disjI1 [OF old] c]
  have "dir_read Inr demo_sha ''n'' (Some 1) (dput ''.snapshot-b'' (Wal []) demo_dir) = dir_read Inr demo_sha ''n'' (Some 1) demo_dir"
    using atomic by simp
  moreover have "dir_read Inr demo_sha ''n'' None (dput ''.snapshot-b'' (Wal []) demo_dir) \<in>
      {dir_read Inr demo_sha ''n'' None demo_dir, dir_read Inr demo_sha ''n'' None (foldl fs_do demo_dir ?steps)}"
    using atomic by simp
  moreover have "dir_read Inr demo_sha ''n'' None demo_dir
      = Inr (\<lparr>sr_namespace = ''n'', sr_revision = 1, sr_digest = demo_sha [7], sr_file = snap_name 1 (demo_sha [7])\<rparr>, [7])"
    "dir_read Inr demo_sha ''n'' (Some 1) demo_dir
      = Inr (\<lparr>sr_namespace = ''n'', sr_revision = 1, sr_digest = demo_sha [7], sr_file = snap_name 1 (demo_sha [7])\<rparr>, [7])"
    "dir_read Inr demo_sha ''n'' None (foldl fs_do demo_dir ?steps) \<noteq> Inl missing" by code_simp+
  ultimately show ?thesis by auto
qed

section \<open>Round trip\<close>

text \<open>C37. What is written is read. After a write that returned, reading the latest snapshot gives the
  same reference and the decoded rows, unless a stored file of the revision has another content
  under the same sixteen characters of digest; every other revision and every other namespace
  reads as before. If the revision was new, reading it by its number gives the same.\<close>

theorem snapshot_round_trip:
  assumes "\<forall>b. length (sha b) = 64" "ss_reach enc sha (dget_or s ns [])" "0 \<le> rv" "safe_namespace ns" "dec (enc rows) = Inr rows'"
    "dget (dget_or s ns []) (snap_name rv (sha (enc rows))) \<in> {None, Some (Snap (enc rows))}"
    "ss_write enc sha (''.snapshot-'' @ tmp) ns rv rows s = (r, s')"
  shows "\<exists>ref. r = Inr ref \<and> fst (ss_read dec sha ns None s') = Inr (ref, rows')
    \<and> (\<forall>q. q \<noteq> rv \<longrightarrow> fst (ss_read dec sha ns (Some q) s') = fst (ss_read dec sha ns (Some q) s))
    \<and> (\<forall>ns' q. ns' \<noteq> ns \<longrightarrow> fst (ss_read dec sha ns' q s') = fst (ss_read dec sha ns' q s))
    \<and> (glob (snap_prefix rv) (dget_or s ns []) = [] \<longrightarrow> fst (ss_read dec sha ns (Some rv) s') = Inr (ref, rows'))"
proof -
  define d where "d = dget_or s ns []"
  define f where "f = snap_name rv (sha (enc rows))"
  let ?L = "with_latest enc sha rv rows d"
  define ref where "ref = \<lparr>sr_namespace = ns, sr_revision = rv, sr_digest = sha (enc rows), sr_file = f\<rparr>"
  note ok = reach_ok [OF assms(2,1), folded d_def]
  then have wf: "wf_dict d" by (simp add: dir_ok_def)
  note okL = with_latest_ok [OF ok assms(3,1), of enc rows]
  let ?e = "foldl fs_do d (write_steps enc sha (''.snapshot-'' @ tmp) rv rows d)"
  have r: "r = Inr ref" and s': "s' = dput ns ?e s"
    using assms(3,4,7) by (auto simp: ss_write_def Let_def ref_def f_def d_def)
  have "dir_read dec sha ns q ?L = dir_read dec sha ns q ?e" for q
    by (rule read_view [OF okL fs_steps_wf [OF wf] complete_view [OF hidden_tmp(1)]])
  then have read: "fst (ss_read dec sha ns q s') = dir_read dec sha ns q ?L" for q
    by (simp add: ss_read_def s' assms(4) dict_simps)
  have old: "fst (ss_read dec sha ns q s) = dir_read dec sha ns q d" for q
    by (simp add: ss_read_def assms(4) d_def)
  have f: "dget ?L f = Some (Snap (enc rows))"
    using assms(6) mem_dkeys [of d f]
    by (auto simp: with_latest_def with_snap_def Let_def f_def d_def dict_simps dget_None_keys simp del: set_map)
  have "dir_read dec sha ns None ?L = Inr (ref, rows')"
    using f by (simp add: dir_read_def locate_def with_latest_def dict_simps assms(5) ref_def f_def)
  moreover have "dir_read dec sha ns (Some rv) ?L = Inr (ref, rows')" if "glob (snap_prefix rv) d = []"
  proof -
    have "{n \<in> set (dkeys d). matches (snap_prefix rv) n} = {}" using that by (metis glob_set list.set(1))
    then have "set (glob (snap_prefix rv) ?L) = {f}"
      using snap_name_matches(1) [of rv] okL
      unfolding glob_set with_latest_def with_snap_def
      by (auto simp: Let_def f_def matches_def snap_prefix_def starts_with_iff simp del: set_map)
    then have "last (glob (snap_prefix rv) ?L) = f" "glob (snap_prefix rv) ?L \<noteq> []"
      by (metis last_in_set list.set(1) insert_not_empty singletonD, force)
    then show ?thesis using f assms(3) by (simp add: dir_read_def locate_def assms(5) ref_def)
  qed
  ultimately show ?thesis
    using other_revision(2) [OF ok assms(3)] r
    by (auto simp: read old d_def [symmetric]) (auto simp: ss_read_def s' dict_simps)
qed

theorem snapshot_round_trip_witness:
  "\<exists>r s'. ss_write demo_rows demo_sha ''.snapshot-b'' ''n'' 2 [8, 9] [(''n'', demo_dir)] = (r, s')
     \<and> (\<exists>ref. fst (ss_read Inr demo_sha ''n'' None s') = Inr (ref, [8, 9]) \<and> fst (ss_read Inr demo_sha ''n'' (Some 2) s') = Inr (ref, [8, 9]))
     \<and> (\<exists>ref. fst (ss_read Inr demo_sha ''n'' (Some 1) s') = Inr (ref, [7]))"
proof -
  obtain r s' where w: "ss_write demo_rows demo_sha (''.snapshot-'' @ ''b'') ''n'' 2 [8, 9] [(''n'', demo_dir)] = (r, s')"
    by (cases "ss_write demo_rows demo_sha (''.snapshot-'' @ ''b'') ''n'' 2 [8, 9] [(''n'', demo_dir)]")
  have len: "\<forall>b. length (demo_sha b) = 64" by (simp add: demo_sha_def)
  have d: "ss_reach demo_rows demo_sha (dget_or [(''n'', demo_dir)] ''n'' [])"
    using demo_dir_reach by (simp add: dget_or_def)
  have ns: "safe_namespace ''n''" by code_simp
  have dec: "(Inr :: nat list \<Rightarrow> nat list result) (demo_rows [8, 9]) = Inr [8, 9]" by (simp add: demo_rows_def)
  have new: "dget (dget_or [(''n'', demo_dir)] ''n'' []) (snap_name 2 (demo_sha (demo_rows [8, 9]))) \<in> {None, Some (Snap (demo_rows [8, 9]))}"
    by code_simp
  have g: "glob (snap_prefix 2) (dget_or [(''n'', demo_dir)] ''n'' []) = []" by code_simp
  have one: "\<exists>ref. fst (ss_read Inr demo_sha ''n'' (Some 1) [(''n'', demo_dir)]) = Inr (ref, [7])"
    by (intro exI [of _ "\<lparr>sr_namespace = ''n'', sr_revision = 1, sr_digest = demo_sha [7], sr_file = snap_name 1 (demo_sha [7])\<rparr>"]) code_simp
  have "\<exists>ref. r = Inr ref \<and> fst (ss_read Inr demo_sha ''n'' None s') = Inr (ref, [8, 9])
      \<and> (\<forall>q. q \<noteq> 2 \<longrightarrow> fst (ss_read Inr demo_sha ''n'' (Some q) s') = fst (ss_read Inr demo_sha ''n'' (Some q) [(''n'', demo_dir)]))
      \<and> (\<forall>ns' q. ns' \<noteq> ''n'' \<longrightarrow> fst (ss_read Inr demo_sha ns' q s') = fst (ss_read Inr demo_sha ns' q [(''n'', demo_dir)]))
      \<and> (glob (snap_prefix 2) (dget_or [(''n'', demo_dir)] ''n'' []) = []
          \<longrightarrow> fst (ss_read Inr demo_sha ''n'' (Some 2) s') = Inr (ref, [8, 9]))"
    by (rule snapshot_round_trip [where enc = demo_rows and sha = demo_sha and dec = Inr and rows = "[8, 9]", OF len d _ ns dec new w]) simp
  then obtain ref where "fst (ss_read Inr demo_sha ''n'' None s') = Inr (ref, [8, 9])" "fst (ss_read Inr demo_sha ''n'' (Some 2) s') = Inr (ref, [8, 9])"
    "fst (ss_read Inr demo_sha ''n'' (Some 1) s') = fst (ss_read Inr demo_sha ''n'' (Some 1) [(''n'', demo_dir)])"
    using g by auto
  with one w show ?thesis by (intro exI [of _ r] exI [of _ s']) auto
qed

section \<open>Compaction\<close>

lemma append_order: "length a = length b \<Longrightarrow> a < b \<Longrightarrow> a @ x < b @ (y :: string)"
  by (induction a b rule: list_induct2) auto

lemma same_prefix_order: "p @ x < p @ (y :: string) \<longleftrightarrow> x < y"
  by (induction p) auto

lemma snap_name_order:
  assumes "0 \<le> a" "a < b" "b < 10 ^ 20"
  shows "snap_name a g < snap_name b h"
proof -
  have n: "nat a < 10 ^ 20" "nat b < 10 ^ 20" using assms by auto
  have "padded (nat a) < padded (nat b)" using padded_order [OF n] assms by simp
  then have "padded (nat a) @ ''-'' @ take 16 g @ ''.json.gz'' < padded (nat b) @ ''-'' @ take 16 h @ ''.json.gz''"
    using padded_length n by (intro append_order) simp_all
  then have "''snapshot-'' @ padded (nat a) @ ''-'' @ take 16 g @ ''.json.gz'' < ''snapshot-'' @ padded (nat b) @ ''-'' @ take 16 h @ ''.json.gz''"
    by (simp only: same_prefix_order)
  then show ?thesis by (simp only: snap_name_def snap_prefix_def append_assoc)
qed

lemma pops_get: "dget (foldl (\<lambda>d n. dpop n d) d ns) n = (if n \<in> set ns then None else dget d n)"
  by (induction ns arbitrary: d) (auto simp: dict_simps)

lemma pops_wf: "wf_dict d \<Longrightarrow> wf_dict (foldl (\<lambda>d n. dpop n d) d ns)"
  by (induction ns arbitrary: d) simp_all

lemma pops_keys: "set (dkeys (foldl (\<lambda>d n. dpop n d) d ns)) = set (dkeys d) - set ns"
  by (induction ns arbitrary: d) (auto simp: dkeys_dpop simp del: set_map)

lemma set_minus_take:
  assumes "distinct xs"
  shows "set xs - set (take k xs) = set (drop k xs)"
proof -
  have "set xs = set (take k xs) \<union> set (drop k xs)" by (metis append_take_drop_id set_append)
  moreover have "set (take k xs) \<inter> set (drop k xs) = {}" using assms by (intro set_take_disj_set_drop_if_distinct) simp_all
  ultimately show ?thesis by blast
qed

lemma glob_sorted: "wf_dict d \<Longrightarrow> sorted (glob p d) \<and> distinct (glob p d)"
  by (simp add: glob_def wf_dict_def)

lemma compact_glob:
  assumes "wf_dict d"
  shows "glob ''snapshot-'' (dir_compact keep d) = drop (length (glob ''snapshot-'' d) - keep) (glob ''snapshot-'' d)"
proof (rule sorted_distinct_set_unique)
  let ?g = "glob ''snapshot-'' d"
  let ?k = "length ?g - keep"
  note sd = glob_sorted [OF assms, of "''snapshot-''"]
  have "set (glob ''snapshot-'' (dir_compact keep d)) = set ?g - set (take ?k ?g)"
    unfolding glob_set dir_compact_def stale_files_def Let_def pops_keys by auto
  also have "\<dots> = set (drop ?k ?g)" using sd by (intro set_minus_take) simp
  finally show "set (glob ''snapshot-'' (dir_compact keep d)) = set (drop ?k ?g)" .
  have w: "wf_dict (dir_compact keep d)" using assms by (simp add: dir_compact_def pops_wf)
  show "sorted (glob ''snapshot-'' (dir_compact keep d))" "distinct (glob ''snapshot-'' (dir_compact keep d))"
    using glob_sorted [OF w] by simp_all
  show "sorted (drop ?k ?g)" "distinct (drop ?k ?g)" using sd by (simp_all add: sorted_wrt_drop)
qed

text \<open>Compaction keeps the newest snapshots. With \<open>keep\<close> at least one, as many snapshots remain as
  \<open>keep\<close> and the directory allow, none that is removed has a higher revision than one that
  remains, and if the latest pointer names the highest revision, reading the latest gives the same
  as before. (Revisions are below \<open>10 ^ 20\<close>, where the padded names sort as the numbers.)\<close>

theorem compact_keeps_newest:
  assumes "\<forall>b. length (sha b) = 64" "ss_reach enc sha d" "1 \<le> keep" "dir_read dec sha ns None d = Inr (ref, rows)"
    "sr_revision ref < 10 ^ 20"
    "\<forall>r h. 0 \<le> r \<longrightarrow> snap_name r h \<in> set (dkeys d) \<longrightarrow> snap_name r h = sr_file ref \<or> r < sr_revision ref"
  shows "dir_read dec sha ns None (dir_compact keep d) = Inr (ref, rows)
    \<and> length (glob ''snapshot-'' (dir_compact keep d)) = min keep (length (glob ''snapshot-'' d))
    \<and> (\<forall>r h r' h'. 0 \<le> r \<longrightarrow> 0 \<le> r' \<longrightarrow> r < 10 ^ 20 \<longrightarrow> snap_name r h \<in> set (stale_files keep d)
         \<longrightarrow> snap_name r' h' \<in> set (glob ''snapshot-'' (dir_compact keep d)) \<longrightarrow> r \<le> r')"
proof (intro conjI allI impI)
  let ?g = "glob ''snapshot-'' d"
  note ok = reach_ok [OF assms(2,1)]
  then have wf: "wf_dict d" by (simp add: dir_ok_def)
  note sd = glob_sorted [OF wf, of "''snapshot-''"]
  from assms(4) obtain c where "dget d ''LATEST'' = Some c" by (auto simp: dir_read_def locate_def split: option.splits)
  with dir_ok_latest [OF ok] obtain rv hash where p: "dget d ''LATEST'' = Some (Pointer rv hash (snap_name rv hash))" "0 \<le> rv" by blast
  with assms(4) have ref: "sr_revision ref = rv" "sr_file ref = snap_name rv hash" and there: "snap_name rv hash \<in> set (dkeys d)"
    using mem_dkeys [of d "snap_name rv hash"]
    by (auto simp: dir_read_def locate_def split: option.splits file_data.splits if_splits sum.splits simp del: set_map)
  have all: "n \<le> snap_name rv hash" if "n \<in> set ?g" for n
  proof -
    from that have n: "n \<in> set (dkeys d)" "matches ''snapshot-'' n" unfolding glob_set by blast+
    then obtain c where c: "dget d n = Some c" using dget_None_keys [of d n] by (cases "dget d n") auto
    have "n \<noteq> ''LATEST''" using n(2) by (auto simp: matches_def starts_with_iff)
    with ok c matches_visible(2) [OF n(2)] obtain r data where r: "0 \<le> r" "n = snap_name r (sha data)"
      by (fastforce simp: dir_ok_def entry_ok_def)
    show ?thesis
    proof (cases "n = snap_name rv hash")
      case False
      then have "r < rv" using assms(6) r n(1) ref by auto
      then show ?thesis using snap_name_order [OF r(1)] assms(5) r(2) ref(1) by (simp add: less_imp_le)
    qed simp
  qed
  have pos: "snap_name rv hash \<in> set ?g" using there snap_name_matches(2) unfolding glob_set by blast
  have keep: "snap_name rv hash \<notin> set (stale_files keep d)"
  proof
    assume "snap_name rv hash \<in> set (stale_files keep d)"
    then obtain i where i: "i < length ?g - keep" "?g ! i = snap_name rv hash"
      by (auto simp: stale_files_def Let_def in_set_conv_nth)
    have "sorted_wrt (<) ?g" using sd by (simp add: strict_sorted_iff)
    then have "?g ! i < ?g ! Suc i" by (rule sorted_wrt_nth_less) (use i assms(3) in linarith)+
    moreover have "?g ! Suc i \<in> set ?g" using i assms(3) by (intro nth_mem) linarith
    ultimately show False using all [of "?g ! Suc i"] i(2) by simp
  qed
  have "''LATEST'' \<notin> set (stale_files keep d)"
    by (auto simp: stale_files_def Let_def glob_set matches_def starts_with_iff dest!: in_set_takeD)
  with keep have "dget (dir_compact keep d) ''LATEST'' = dget d ''LATEST''"
    "dget (dir_compact keep d) (snap_name rv hash) = dget d (snap_name rv hash)"
    by (simp_all add: dir_compact_def pops_get)
  then show "dir_read dec sha ns None (dir_compact keep d) = Inr (ref, rows)"
    using assms(4) p(1) by (simp add: dir_read_def locate_def)
  show "length (glob ''snapshot-'' (dir_compact keep d)) = min keep (length ?g)"
    unfolding compact_glob [OF wf] by simp
  fix r h r' h'
  assume r: "0 \<le> r" "0 \<le> r'" "r < 10 ^ 20" "snap_name r h \<in> set (stale_files keep d)"
    "snap_name r' h' \<in> set (glob ''snapshot-'' (dir_compact keep d))"
  let ?k = "length ?g - keep"
  have "sorted (take ?k ?g @ drop ?k ?g)" using sd by simp
  then have "\<forall>x \<in> set (take ?k ?g). \<forall>y \<in> set (drop ?k ?g). x \<le> y" unfolding sorted_append by blast
  then have "snap_name r h \<le> snap_name r' h'"
    using r(4,5) unfolding compact_glob [OF wf] by (simp add: stale_files_def Let_def)
  then show "r \<le> r'" using snap_name_order [of r' r h' h] r by force
qed

definition demo_write :: "int \<Rightarrow> nat list \<Rightarrow> nat list dir \<Rightarrow> nat list dir" where
  "demo_write rv rows d = foldl fs_do d (write_steps demo_rows demo_sha (''.snapshot-'' @ ''a'') rv rows d)"

lemma demo_write_reach: "ss_reach demo_rows demo_sha d \<Longrightarrow> 0 \<le> rv \<Longrightarrow> ss_reach demo_rows demo_sha (demo_write rv rows d)"
  unfolding demo_write_def by (rule reach_write [OF _ _ no_crash])

theorem compact_keeps_newest_witness:
  "\<exists>ref. dir_read Inr demo_sha ''n'' None (dir_compact 1 (demo_write 2 [8, 9] demo_dir)) = Inr (ref, [8, 9])
     \<and> length (glob ''snapshot-'' (dir_compact 1 (demo_write 2 [8, 9] demo_dir))) = 1"
proof -
  let ?d = "demo_write 2 [8, 9] demo_dir"
  let ?ref = "\<lparr>sr_namespace = ''n'', sr_revision = 2, sr_digest = demo_sha [8, 9], sr_file = snap_name 2 (demo_sha [8, 9])\<rparr>"
  have len: "\<forall>b. length (demo_sha b) = 64" by (simp add: demo_sha_def)
  have d: "ss_reach demo_rows demo_sha ?d" by (intro demo_write_reach demo_dir_reach) simp
  have read: "dir_read Inr demo_sha ''n'' None ?d = Inr (?ref, [8, 9])" by code_simp
  have keys: "dkeys ?d = [snap_name 1 (demo_sha [7]), snap_name 2 (demo_sha [8, 9]), ''LATEST'']
      \<or> dkeys ?d = [snap_name 1 (demo_sha [7]), ''LATEST'', snap_name 2 (demo_sha [8, 9])]" by code_simp
  have other: "\<forall>r h. 0 \<le> r \<longrightarrow> snap_name r h \<in> set (dkeys ?d) \<longrightarrow> snap_name r h = sr_file ?ref \<or> r < sr_revision ?ref"
  proof (intro allI impI)
    fix r :: int and h assume r: "0 \<le> r" "snap_name r h \<in> set (dkeys ?d)"
    from r(2) keys have "snap_name r h = snap_name 1 (demo_sha [7]) \<or> snap_name r h = snap_name 2 (demo_sha [8, 9])"
      by (auto simp del: set_map)
    then show "snap_name r h = sr_file ?ref \<or> r < sr_revision ?ref"
    proof
      assume "snap_name r h = snap_name 1 (demo_sha [7])"
      then have "starts_with (snap_prefix r) (snap_name 1 (demo_sha [7]))" using snap_name_prefix [of r r h] r(1) by simp
      then show ?thesis using snap_name_prefix [of r 1] r(1) by simp
    qed simp
  qed
  have "length (glob ''snapshot-'' ?d) = 2" by code_simp
  with compact_keeps_newest [OF len d _ read _ other, of 1] show ?thesis by (intro exI [of _ ?ref]) simp
qed

text \<open>The latest pointer follows the order of the calls, compaction the order of the revisions: after a
  write of an older revision, compaction removes the snapshot that the pointer names.\<close>

lemma compaction_can_drop_latest:
  "is_ok (dir_read Inr demo_sha ''n'' None (demo_write 3 [7] (demo_write 5 [8, 9] [])))
   \<and> dir_read Inr demo_sha ''n'' None (dir_compact 1 (demo_write 3 [7] (demo_write 5 [8, 9] []))) = Inl missing"
  by code_simp

text \<open>Two contents of one revision: reading it by its number gives the one with the greater digest, not
  the one that was written last.\<close>

lemma revision_read_takes_greatest_digest:
  "map_sum id snd (dir_read Inr demo_sha ''n'' (Some 1) (demo_write 1 [7] (demo_write 1 [8, 9] []))) = Inr [8, 9]
   \<and> map_sum id snd (dir_read Inr demo_sha ''n'' None (demo_write 1 [7] (demo_write 1 [8, 9] []))) = Inr [7]"
  by code_simp

end
