(* ===== verification/Failpoints.thy ===== *)
theory Failpoints
  imports Prelude
begin

text \<open>The named failpoints (\<open>neural_pods/fault_injection.py\<close>): counts, periods, delays and what raises.\<close>

record fail_action =
  fa_kind :: string
  fa_delay :: real
  fa_every :: int

record injector =
  fi_actions :: "(string, fail_action) dict"
  fi_counts :: "(string, nat) dict"

definition new_injector :: "(string, fail_action) dict \<Rightarrow> injector" where
  "new_injector actions = \<lparr>fi_actions = actions, fi_counts = []\<rparr>"

text \<open>What a hit does: nothing, or it sleeps for the delay, if that is not zero, and raises if the kind says so.\<close>

datatype hit_outcome = Passes | Fires real bool

definition fi_hit :: "string \<Rightarrow> injector \<Rightarrow> injector \<times> hit_outcome" where
  "fi_hit name f =
     (case dget (fi_actions f) name of
        None \<Rightarrow> (f, Passes)
      | Some a \<Rightarrow>
          let n = dget_or (fi_counts f) name 0 + 1; f' = f\<lparr>fi_counts := dput name n (fi_counts f)\<rparr>
          in if fa_every a > 1 \<and> int n mod fa_every a \<noteq> 0 then (f', Passes)
             else (f', Fires (fa_delay a) (fa_kind a \<in> {''error'', ''raise'', ''panic''})))"

definition fi_count :: "injector \<Rightarrow> (string, nat) dict" where
  "fi_count f = fi_counts f"

fun fi_hits :: "string list \<Rightarrow> injector \<Rightarrow> injector \<times> hit_outcome list" where
  "fi_hits [] f = (f, [])"
| "fi_hits (n # ns) f = (case fi_hit n f of (f1, r) \<Rightarrow> case fi_hits ns f1 of (f2, rs) \<Rightarrow> (f2, r # rs))"

lemma hit_actions [simp]: "fi_actions (fst (fi_hit n f)) = fi_actions f"
  by (simp add: fi_hit_def Let_def split: option.split)

lemma hits_Cons: "fst (fi_hits (n # ns) f) = fst (fi_hits ns (fst (fi_hit n f)))"
  by (simp add: case_prod_beta)

lemma hits_actions [simp]: "fi_actions (fst (fi_hits ns f)) = fi_actions f"
  by (induction ns arbitrary: f) (simp_all add: hits_Cons del: fi_hits.simps(2))

lemma hit_count:
  "dget_or (fi_counts (fst (fi_hit n f))) m 0 =
     dget_or (fi_counts f) m 0 + (if m = n \<and> dget (fi_actions f) m \<noteq> None then 1 else 0)"
  by (simp add: fi_hit_def Let_def dict_simps split: option.split)

lemma hits_snoc: "fst (fi_hits (ns @ [n]) f) = fst (fi_hit n (fst (fi_hits ns f)))"
  by (induction ns arbitrary: f) (simp_all add: hits_Cons case_prod_beta)

lemma hits_count:
  "dget_or (fi_counts (fst (fi_hits ns f))) m 0 =
     dget_or (fi_counts f) m 0 + (if dget (fi_actions f) m \<noteq> None then count_list ns m else 0)"
  by (induction ns arbitrary: f) (simp_all add: hits_Cons hit_count del: fi_hits.simps(2))

text \<open>Failpoints are deterministic: in a run from a fresh injector the outcome of a hit depends only on
  how often its own name was hit before. A name without an action never fires and is never counted;
  one with a period above one fires exactly at the multiples of it, any other always, and it raises
  exactly for the kinds \<open>error\<close>, \<open>raise\<close> and \<open>panic\<close>.\<close>

theorem failpoints_fire_on_schedule:
  "snd (fi_hit n (fst (fi_hits ns (new_injector actions)))) =
     (case dget actions n of
        None \<Rightarrow> Passes
      | Some a \<Rightarrow>
          if fa_every a \<le> 1 \<or> fa_every a dvd int (count_list ns n + 1)
          then Fires (fa_delay a) (fa_kind a \<in> {''error'', ''raise'', ''panic''}) else Passes)
   \<and> dget_or (fi_count (fst (fi_hits (ns @ [n]) (new_injector actions)))) n 0 =
       (if dget actions n = None then 0 else count_list ns n + 1)"
proof -
  define f where "f = fst (fi_hits ns (new_injector actions))"
  have a: "fi_actions f = actions" by (simp add: f_def new_injector_def)
  have c: "dget_or (fi_counts f) n 0 = (if dget actions n \<noteq> None then count_list ns n else 0)"
    unfolding f_def hits_count by (simp add: new_injector_def dget_or_def)
  show ?thesis
    unfolding hits_snoc f_def [symmetric] fi_count_def hit_count
    by (cases "dget actions n") (auto simp: fi_hit_def a c Let_def dvd_eq_mod_eq_0)
qed

end
