(* ===== verification/Semantics.thy ===== *)
theory Semantics
  imports Typed_Pods Port_Plane
begin

text \<open>
  The semantic compiler (\<open>neural_pods/semantics.py\<close>): the checks of a hard record and its soft
  annotations, what is published for it, the description of a generation, the walk along relations
  and the query resolver. Records are decoded JSON; the digest and the parser of ISO timestamps are
  arguments. Labels, aliases, tags, relation targets and the names of a source are text: a value
  of another type ends in \<open>TypeError\<close> here. Text is ASCII, as in \<open>Port_Plane\<close>.
\<close>

section \<open>Clusters\<close>

definition semantic_roles :: "string list" where
  "semantic_roles = [''FACT'', ''RULE'', ''EVENT'', ''PROCEDURE'', ''PREFERENCE'', ''CONSTRAINT'', ''DEFINITION'', ''RELATION'',
     ''TIME_SERIES'', ''DOCUMENT'', ''PERSON'', ''ORGANIZATION'', ''PRODUCT'', ''LOCATION'']"

definition jkey :: "payload \<Rightarrow> string \<Rightarrow> json result" where
  "jkey d k = (case dget d k of None \<Rightarrow> Inl KeyError | Some v \<Rightarrow> Inr v)"

text \<open>\<open>d[k]\<close> of a value that should be a dictionary.\<close>

definition jread :: "json \<Rightarrow> string \<Rightarrow> json result" where
  "jread x k = (case x of JObj d \<Rightarrow> jkey d k | _ \<Rightarrow> Inl TypeError)"

definition cluster_descriptor :: "payload \<Rightarrow> json result" where
  "cluster_descriptor s =
     (case jkey s ''retrieval'' of
        Inl e \<Rightarrow> Inl e
      | Inr r \<Rightarrow>
          (case map_result (\<lambda>x. x) [jread r ''domain'', jkey s ''type'', jkey s ''predicate'', jkey s ''role''] of
             Inl e \<Rightarrow> Inl e
           | Inr vs \<Rightarrow> Inr (JObj ((''schema'', JStr ''semantic-cluster:v1'') # zip [''domain'', ''type'', ''predicate'', ''role''] vs))))"

definition cluster_key :: "(json \<Rightarrow> string) \<Rightarrow> json \<Rightarrow> string" where
  "cluster_key dig descriptor = ''cluster:v1:'' @ dig descriptor"

definition semantic_cluster :: "(json \<Rightarrow> string) \<Rightarrow> payload \<Rightarrow> (string \<times> json) result" where
  "semantic_cluster dig s =
     (case cluster_descriptor s of Inl e \<Rightarrow> Inl e | Inr d \<Rightarrow> Inr (cluster_key dig d, d))"

section \<open>Checking a record\<close>

definition canonical_char :: "char \<Rightarrow> bool" where
  "canonical_char c = (CHR ''a'' \<le> c \<and> c \<le> CHR ''z'' \<or> is_digit c \<or> c \<in> {CHR '':'', CHR ''_'', CHR ''-''})"

definition canonical_name :: "string \<Rightarrow> bool" where
  "canonical_name s = (s \<noteq> [] \<and> list_all canonical_char s)"

definition text_of :: "json \<Rightarrow> string" where
  "text_of x = (case x of JStr s \<Rightarrow> s | _ \<Rightarrow> [])"

definition named :: "json \<Rightarrow> bool" where
  "named x = (is_str x \<and> text_of x \<noteq> [])"

definition required_hard :: "string list" where
  "required_hard = [''subject_id'', ''subject_label'', ''predicate'', ''object'', ''source'', ''owner'', ''acl'', ''role'']"

definition check_component :: "json \<Rightarrow> unit result" where
  "check_component x =
     (case x of JNull \<Rightarrow> Inr () | JStr s \<Rightarrow> require (canonical_name s) | _ \<Rightarrow> Inl TypeError)"

definition check_lead_time :: "payload \<Rightarrow> unit result" where
  "check_lead_time h =
     checks [
       require (case jget h ''object'' of
           JObj d \<Rightarrow> jget d ''unit'' = JStr ''days''
             \<and> (case jget d ''value'' of JInt n \<Rightarrow> 0 \<le> n | JFloat f \<Rightarrow> \<not> pf_gt (Fin 0) f | _ \<Rightarrow> False)
         | _ \<Rightarrow> False),
       require (truthy (jget h ''component_id'') \<and> truthy (jget h ''component_label''))]"

definition check_source :: "json \<Rightarrow> unit result" where
  "check_source x =
     (case x of
        JObj d \<Rightarrow> require ({''system'', ''record_id'', ''version'', ''content''} \<subseteq> set (dkeys d))
      | _ \<Rightarrow> Inl (OtherError ''AttributeError''))"

definition check_hard :: "payload \<Rightarrow> unit result" where
  "check_hard h =
     checks [
       require (set required_hard \<subseteq> set (dkeys h)),
       require (jget h ''role'' \<in> set (map JStr semantic_roles)),
       require (is_str (jget h ''subject_id'') \<and> canonical_name (text_of (jget h ''subject_id''))),
       require (is_str (jget h ''predicate'') \<and> canonical_name (text_of (jget h ''predicate''))),
       require (case jget h ''acl'' of JList xs \<Rightarrow> xs \<noteq> [] \<and> list_all named xs | _ \<Rightarrow> False),
       require (named (jget h ''owner'')),
       check_component (jget h ''component_id''),
       (if jget h ''predicate'' = JStr ''lead_time'' then check_lead_time h else Inr ()),
       check_source (jget h ''source'')]"

definition utc_stamp :: "(string \<Rightarrow> iso_time) \<Rightarrow> json \<Rightarrow> real option result" where
  "utc_stamp parse x =
     (case x of
        JNull \<Rightarrow> Inr None
      | JStr s \<Rightarrow> (case parse s of Aware t \<Rightarrow> Inr (Some t) | _ \<Rightarrow> Inl ValueError)
      | _ \<Rightarrow> Inl TypeError)"

definition validity :: "(string \<Rightarrow> iso_time) \<Rightarrow> payload \<Rightarrow> (real option \<times> real option) result" where
  "validity parse h =
     (case utc_stamp parse (jget h ''valid_from'') of
        Inl e \<Rightarrow> Inl e
      | Inr a \<Rightarrow>
          (case utc_stamp parse (jget h ''valid_until'') of
             Inl e \<Rightarrow> Inl e
           | Inr b \<Rightarrow> (case (a, b) of
                 (Some x, Some y) \<Rightarrow> if x \<ge> y then Inl ValueError else Inr (a, b)
               | _ \<Rightarrow> Inr (a, b))))"

definition soft_fields :: "string list" where
  "soft_fields = [''tags'', ''topics'', ''aliases'', ''relations'', ''summary'', ''classification'']"

definition check_soft :: "payload \<Rightarrow> unit result" where
  "check_soft a =
     checks [
       require (set (dkeys a) = {''field'', ''value'', ''source'', ''confidence''}),
       among (jget a ''field'') soft_fields,
       require ((case jget a ''confidence'' of
             JInt n \<Rightarrow> 0 \<le> n \<and> n \<le> 1
           | JFloat (Fin x) \<Rightarrow> 0 \<le> x \<and> x \<le> 1
           | _ \<Rightarrow> False) \<and> truthy (jget a ''source''))]"

text \<open>\<open>digest\<close> refuses numbers that JSON cannot write.\<close>

fun finite_json :: "json \<Rightarrow> bool" where
  "finite_json (JFloat f) = (case f of Fin x \<Rightarrow> True | _ \<Rightarrow> False)"
| "finite_json (JList xs) = list_all finite_json xs"
| "finite_json (JObj d) = list_all (\<lambda>p. finite_json (snd p)) d"
| "finite_json _ = True"

section \<open>Compiling a record\<close>

definition texts :: "json \<Rightarrow> string list result" where
  "texts x =
     (case py_iter x of Inl e \<Rightarrow> Inl e | Inr xs \<Rightarrow> if list_all is_str xs then Inr (map text_of xs) else Inl TypeError)"

definition knowledge_id :: "(json \<Rightarrow> string) \<Rightarrow> payload \<Rightarrow> string" where
  "knowledge_id dig h =
     ''knowledge:v2:'' @ dig (JList [jget h ''subject_id'', jget h ''component_id'', jget h ''predicate'', jget h ''role''])"

definition no_legacy :: "registry \<Rightarrow> unit result" where
  "no_legacy r =
     checks (map (\<lambda>(key, g, i).
         case reg_get_node r i of
           Inl e \<Rightarrow> Inl e
         | Inr nd \<Rightarrow>
             (case nd_payload nd of
                Knowledge_Payload _ _ sem _ _ \<Rightarrow>
                  (case sem of
                     JObj d \<Rightarrow>
                       (case py_in (JStr ''semantic-compiler:v1'') (dget_or d ''transform_chain'' (JList [])) of
                          Inl e \<Rightarrow> Inl e
                        | Inr old \<Rightarrow> if old then Inl InvalidState else Inr ())
                   | _ \<Rightarrow> Inl (OtherError ''AttributeError''))
              | _ \<Rightarrow> Inr ())) (rg_heads r))"

definition retrieval_of :: "payload \<Rightarrow> payload list \<Rightarrow> json result" where
  "retrieval_of h soft =
     (case (texts (dget_or h ''trusted_aliases'' (JList [])), texts (dget_or h ''trusted_tags'' (JList []))) of
        (Inr aliases, Inr tags) \<Rightarrow>
          if is_str (jget h ''subject_label'') then
            Inr (JObj [
              (''trusted_aliases'', JList (map JStr (sorted_set (text_of (jget h ''subject_label'') # aliases)))),
              (''entities'', JList (jget h ''subject_id'' # (if truthy (jget h ''component_id'') then [jget h ''component_id''] else []))),
              (''tags'', JList (map JStr (sorted_set tags))),
              (''domain'', dget_or h ''domain'' (JStr ''general'')),
              (''language'', dget_or h ''language'' (JStr ''und'')),
              (''soft_annotations'', JList (map JObj soft))])
          else Inl TypeError
      | (Inl e, _) \<Rightarrow> Inl e
      | (_, Inl e) \<Rightarrow> Inl e)"

definition semantic_of :: "payload \<Rightarrow> json \<Rightarrow> payload" where
  "semantic_of h retrieval =
     [(''role'', jget h ''role''), (''type'', dget_or h ''type'' (JStr (casefold (text_of (jget h ''role''))))),
      (''subject'', jget h ''subject_id''), (''subject_label'', jget h ''subject_label''), (''predicate'', jget h ''predicate''),
      (''object'', jget h ''object''), (''component'', jget h ''component_id''), (''component_label'', jget h ''component_label''),
      (''relations'', dget_or h ''relations'' (JList [])), (''constraints'', dget_or h ''constraints'' (JList [])),
      (''uncertainty'', jget h ''uncertainty''), (''retrieval'', retrieval),
      (''transform_chain'', JList [JStr ''normalize:unicode-nfkd-v1'', JStr ''semantic-compiler:v2''])]"

text \<open>What the lifecycle holds beside the interval; \<open>i\<close> is the id of the origin.\<close>

definition lifecycle_rest :: "payload \<Rightarrow> string \<Rightarrow> payload" where
  "lifecycle_rest h i =
     [(''owner'', jget h ''owner''), (''depends_on'', dget_or h ''depends_on'' (JList [])), (''source'', JStr i)]"

text \<open>The origin is stored before the generation is published, and stays if that fails.\<close>

definition store_record ::
    "(json \<Rightarrow> string) \<Rightarrow> digest \<Rightarrow> real \<Rightarrow> registry \<Rightarrow> payload \<Rightarrow> string \<Rightarrow> json \<Rightarrow> real option \<times> real option \<Rightarrow> string
       \<Rightarrow> string result \<times> registry" where
  "store_record dig D now r h key sem valid who =
     (case (jget h ''source'', jget h ''acl'', texts (dget_or h ''depends_on'' (JList []))) of
        (JObj src, JList acl, Inr deps) \<Rightarrow>
          (if \<not> (is_str (jget src ''system'') \<and> is_str (jget src ''record_id'') \<and> is_str (jget src ''version'')) then (Inl TypeError, r)
           else case reg_origin dig D r (text_of (jget src ''system'')) (text_of (jget src ''record_id''))
                       (text_of (jget src ''version'')) (jget src ''content'') (map text_of acl) of
             Inl e \<Rightarrow> (Inl e, r)
           | Inr (i, r1) \<Rightarrow>
               (case reg_publish D now r1 key sem (i # deps) who (map text_of acl)
                       (Some (map_option Aware (fst valid), map_option Aware (snd valid), lifecycle_rest h i)) of
                  Inl e \<Rightarrow> (Inl e, r1)
                | Inr (g, r2) \<Rightarrow> (Inr g, r2)))
      | (_, _, Inl e) \<Rightarrow> (Inl e, r)
      | _ \<Rightarrow> (Inl TypeError, r))"

definition publish_record ::
    "(json \<Rightarrow> string) \<Rightarrow> digest \<Rightarrow> (string \<Rightarrow> iso_time) \<Rightarrow> real \<Rightarrow> registry \<Rightarrow> payload \<Rightarrow> payload list \<Rightarrow> string
       \<Rightarrow> string result \<times> registry" where
  "publish_record dig D parse now r h soft who =
     (case check_hard h of
        Inl e \<Rightarrow> (Inl e, r)
      | Inr _ \<Rightarrow>
          (case validity parse h of
             Inl e \<Rightarrow> (Inl e, r)
           | Inr valid \<Rightarrow>
               (case checks (map check_soft soft) of
                  Inl e \<Rightarrow> (Inl e, r)
                | Inr _ \<Rightarrow>
                    (case no_legacy r of
                       Inl e \<Rightarrow> (Inl e, r)
                     | Inr _ \<Rightarrow>
                         (case retrieval_of h soft of
                            Inl e \<Rightarrow> (Inl e, r)
                          | Inr ret \<Rightarrow>
                              if \<not> (finite_json (JObj (semantic_of h ret)) \<and> finite_json (JObj h)) then (Inl ValueError, r)
                              else store_record dig D now r h (knowledge_id dig h) (JObj (semantic_of h ret)) valid who)))))"

record sem_view =
  sv_origins :: "string list"
  sv_knowledge :: string
  sv_node :: string
  sv_generation :: int
  sv_cluster :: "string \<times> json"
  sv_retrieval :: json
  sv_fields :: payload
  sv_lifecycle :: lifecycle
  sv_acl :: "string list"
  sv_revoked :: bool

definition sem_describe :: "(json \<Rightarrow> string) \<Rightarrow> registry \<Rightarrow> string \<Rightarrow> sem_view result" where
  "sem_describe dig r i =
     (case reg_get_node r i of
        Inl e \<Rightarrow> Inl e
      | Inr nd \<Rightarrow>
          (case nd_payload nd of
             Knowledge_Payload key g (JObj sem) acl lc \<Rightarrow>
               (case (reg_roots r i, semantic_cluster dig sem, jkey sem ''retrieval'', lc) of
                  (Inr origins, Inr cl, Inr ret, Some l) \<Rightarrow>
                    Inr \<lparr>sv_origins = origins, sv_knowledge = key, sv_node = i, sv_generation = g, sv_cluster = cl, sv_retrieval = ret,
                      sv_fields = filter (\<lambda>p. fst p \<noteq> ''retrieval'') sem, sv_lifecycle = l, sv_acl = acl, sv_revoked = nd_revoked nd\<rparr>
                | (Inl e, _, _, _) \<Rightarrow> Inl e
                | (_, Inl e, _, _) \<Rightarrow> Inl e
                | (_, _, Inl e, _) \<Rightarrow> Inl e
                | _ \<Rightarrow> Inl KeyError)
           | Knowledge_Payload _ _ _ _ _ \<Rightarrow> Inl TypeError
           | _ \<Rightarrow> Inl KeyError))"

definition sem_compile ::
    "(json \<Rightarrow> string) \<Rightarrow> digest \<Rightarrow> (string \<Rightarrow> iso_time) \<Rightarrow> real \<Rightarrow> registry \<Rightarrow> payload \<Rightarrow> payload list \<Rightarrow> string
       \<Rightarrow> sem_view result \<times> registry" where
  "sem_compile dig D parse now r h soft who =
     (case publish_record dig D parse now r h soft who of
        (Inl e, r1) \<Rightarrow> (Inl e, r1)
      | (Inr g, r1) \<Rightarrow> (sem_describe dig r1 g, r1))"

section \<open>Walking along relations\<close>

text \<open>The relations of a node that the caller asked for: predicate and target.\<close>

definition relation_edge :: "string list \<Rightarrow> json \<Rightarrow> (string \<times> string) list result" where
  "relation_edge preds x =
     (case x of
        JObj rel \<Rightarrow>
          if jget rel ''predicate'' \<in> set (map JStr preds) \<and> truthy (jget rel ''target_knowledge_key'')
          then (case jget rel ''target_knowledge_key'' of
                  JStr t \<Rightarrow> Inr [(text_of (jget rel ''predicate''), t)] | _ \<Rightarrow> Inl TypeError)
          else Inr []
      | _ \<Rightarrow> Inl (OtherError ''AttributeError''))"

definition relation_edges :: "string list \<Rightarrow> reg_node \<Rightarrow> (string \<times> string) list result" where
  "relation_edges preds nd =
     (case nd_payload nd of
        Knowledge_Payload _ _ (JObj d) _ _ \<Rightarrow>
          (case py_iter (dget_or d ''relations'' (JList [])) of
             Inl e \<Rightarrow> Inl e
           | Inr xs \<Rightarrow> map_sum id concat (map_result (relation_edge preds) xs))
      | Knowledge_Payload _ _ _ _ _ \<Rightarrow> Inl (OtherError ''AttributeError'')
      | _ \<Rightarrow> Inl KeyError)"

definition edges_at :: "registry \<Rightarrow> string list \<Rightarrow> string \<Rightarrow> (string \<times> string) list result" where
  "edges_at r preds node =
     (case reg_get_node r node of Inl e \<Rightarrow> Inl e | Inr nd \<Rightarrow> relation_edges preds nd)"

lemma current_generation_head: "current_generation now r key who = Inr g \<Longrightarrow> reg_head r key = Inr g \<and> key \<in> set (dkeys (rg_heads r))"
  by (auto simp: current_generation_def reg_head_def mem_dkeys split: sum.splits option.splits simp del: set_map)

type_synonym walk = "(string \<times> string) list \<times> (string \<times> string \<times> string) list"

text \<open>The loop: the queue of keys with their depths, the generations visited and the edges passed.\<close>

function rel_loop ::
    "real \<Rightarrow> registry \<Rightarrow> string list \<Rightarrow> nat \<Rightarrow> string \<Rightarrow> (string \<times> nat) list \<Rightarrow> (string \<times> string) list
       \<Rightarrow> (string \<times> string \<times> string) list \<Rightarrow> walk result" where
  "rel_loop now r preds hops who [] visited edges = Inr (visited, edges)"
| "rel_loop now r preds hops who ((key, depth) # queue) visited edges =
     (if key \<in> set (dkeys visited) then rel_loop now r preds hops who queue visited edges
      else case current_generation now r key who of
        Inl e \<Rightarrow> Inl e
      | Inr node \<Rightarrow>
          if length (visited @ [(key, node)]) > 1000 then Inl InvalidState
          else if depth \<ge> hops then rel_loop now r preds hops who queue (visited @ [(key, node)]) edges
          else case edges_at r preds node of
            Inl e \<Rightarrow> Inl e
          | Inr es \<Rightarrow> rel_loop now r preds hops who (queue @ map (\<lambda>(p, t). (t, depth + 1)) es)
              (visited @ [(key, node)]) (edges @ map (\<lambda>(p, t). (key, p, t)) es))"
  by pat_completeness auto
termination
proof (relation "measures
    [\<lambda>(now, r, preds, hops, who, queue, visited, edges). card (set (dkeys (rg_heads r)) - set (dkeys visited)),
     \<lambda>(now, r, preds, hops, who, queue, visited, edges). length queue]", goal_cases)
  case (3 now r preds hops who key depth queue visited edges node)
  then have "key \<in> set (dkeys (rg_heads r))" using current_generation_head by blast
  then have "card (set (dkeys (rg_heads r)) - set (dkeys (visited @ [(key, node)]))) < card (set (dkeys (rg_heads r)) - set (dkeys visited))"
    using 3 by (intro psubset_card_mono) auto
  then show ?case by simp
next
  case (4 now r preds hops who key depth queue visited edges node es)
  then have "key \<in> set (dkeys (rg_heads r))" using current_generation_head by blast
  then have "card (set (dkeys (rg_heads r)) - set (dkeys (visited @ [(key, node)]))) < card (set (dkeys (rg_heads r)) - set (dkeys visited))"
    using 4 by (intro psubset_card_mono) auto
  then show ?case by simp
qed simp_all

declare rel_loop.simps [simp del]

definition walk_relations ::
    "real \<Rightarrow> registry \<Rightarrow> string \<Rightarrow> string list \<Rightarrow> int \<Rightarrow> string \<Rightarrow> (walk \<times> string list \<times> string) result" where
  "walk_relations now r key preds max_hops who =
     (if \<not> (0 \<le> max_hops \<and> max_hops \<le> 16) then Inl ValueError
      else case rel_loop now r preds (nat max_hops) who [(key, 0)] [] [] of
        Inl e \<Rightarrow> Inl e
      | Inr (visited, edges) \<Rightarrow>
          (case reg_snapshot now r (map snd visited) who of
             Inl e \<Rightarrow> Inl e
           | Inr snap \<Rightarrow> Inr ((visited, edges), snap)))"

section \<open>The walk visits exactly what is near\<close>

text \<open>The relations between current generations, and the invariant of the loop; \<open>dep\<close> is the depth at
  which a key was visited.\<close>

definition edges_from :: "registry \<Rightarrow> string list \<Rightarrow> string \<Rightarrow> (string \<times> string) list" where
  "edges_from r preds a =
     (case reg_head r a of Inl e \<Rightarrow> [] | Inr node \<Rightarrow> (case edges_at r preds node of Inl e \<Rightarrow> [] | Inr es \<Rightarrow> es))"

definition related :: "registry \<Rightarrow> string list \<Rightarrow> (string \<times> string) set" where
  "related r preds = {(a, b). b \<in> snd ` set (edges_from r preds a)}"

definition covered :: "(string \<Rightarrow> nat) \<Rightarrow> (string \<times> nat) list \<Rightarrow> (string \<times> string) list \<Rightarrow> string \<Rightarrow> nat \<Rightarrow> bool" where
  "covered dep queue visited t b = (t \<in> set (dkeys visited) \<and> dep t \<le> b \<or> (\<exists>d \<le> b. (t, d) \<in> set queue))"

definition queue_ok :: "(string \<Rightarrow> nat) \<Rightarrow> (string \<times> nat) list \<Rightarrow> (string \<times> string) list \<Rightarrow> bool" where
  "queue_ok dep queue visited =
     (sorted (map snd queue) \<and> (\<forall>x \<in> set queue. snd x \<le> snd (hd queue) + 1)
      \<and> (\<forall>k \<in> set (dkeys visited). \<forall>x \<in> set queue. dep k \<le> snd x))"

definition paths_ok ::
    "real \<Rightarrow> registry \<Rightarrow> string list \<Rightarrow> nat \<Rightarrow> string \<Rightarrow> string \<Rightarrow> (string \<Rightarrow> nat) \<Rightarrow> (string \<times> nat) list \<Rightarrow> (string \<times> string) list \<Rightarrow> bool" where
  "paths_ok now r preds hops who start dep queue visited =
     ((\<forall>x \<in> set queue. (start, fst x) \<in> related r preds ^^ snd x \<and> snd x \<le> hops)
      \<and> (\<forall>x \<in> set visited. (start, fst x) \<in> related r preds ^^ dep (fst x) \<and> dep (fst x) \<le> hops
           \<and> current_generation now r (fst x) who = Inr (snd x)))"

definition cover_ok :: "registry \<Rightarrow> string list \<Rightarrow> nat \<Rightarrow> string \<Rightarrow> (string \<Rightarrow> nat) \<Rightarrow> (string \<times> nat) list \<Rightarrow> (string \<times> string) list \<Rightarrow> bool" where
  "cover_ok r preds hops start dep queue visited =
     (covered dep queue visited start 0
      \<and> (\<forall>k \<in> set (dkeys visited). dep k < hops \<longrightarrow> (\<forall>t. (k, t) \<in> related r preds \<longrightarrow> covered dep queue visited t (dep k + 1))))"

definition edges_ok :: "registry \<Rightarrow> string list \<Rightarrow> nat \<Rightarrow> (string \<Rightarrow> nat) \<Rightarrow> (string \<times> string) list \<Rightarrow> (string \<times> string \<times> string) list \<Rightarrow> bool" where
  "edges_ok r preds hops dep visited edges =
     (set edges = {(a, p, b). (a \<in> set (dkeys visited) \<and> dep a < hops) \<and> (p, b) \<in> set (edges_from r preds a)})"

definition walk_inv ::
    "real \<Rightarrow> registry \<Rightarrow> string list \<Rightarrow> nat \<Rightarrow> string \<Rightarrow> string \<Rightarrow> (string \<Rightarrow> nat) \<Rightarrow> (string \<times> nat) list \<Rightarrow> (string \<times> string) list
       \<Rightarrow> (string \<times> string \<times> string) list \<Rightarrow> bool" where
  "walk_inv now r preds hops who start dep queue visited edges =
     (queue_ok dep queue visited \<and> paths_ok now r preds hops who start dep queue visited
      \<and> cover_ok r preds hops start dep queue visited \<and> edges_ok r preds hops dep visited edges
      \<and> wf_dict visited \<and> length visited \<le> 1000)"

lemmas walk_inv_defs = walk_inv_def queue_ok_def paths_ok_def cover_ok_def edges_ok_def

lemma covered_seen:
  assumes "covered dep ((key, d) # queue) visited t b" "key \<in> set (dkeys visited)" "dep key \<le> d"
  shows "covered dep queue visited t b"
  using assms by (auto simp: covered_def simp del: set_map)

lemma walk_inv_seen:
  assumes "walk_inv now r preds hops who start dep ((key, d) # queue) visited edges" "key \<in> set (dkeys visited)"
  shows "walk_inv now r preds hops who start dep queue visited edges"
proof -
  have d: "dep key \<le> d" using assms by (auto simp: walk_inv_defs simp del: set_map)
  have "queue_ok dep queue visited"
    using assms(1) by (cases queue) (force simp: walk_inv_defs simp del: set_map)+
  moreover have c: "covered dep queue visited t b" if "covered dep ((key, d) # queue) visited t b" for t b
    using that assms(2) d by (rule covered_seen)
  ultimately show ?thesis
    using assms c by (auto simp: walk_inv_def paths_ok_def cover_ok_def simp del: set_map)
qed

lemma covered_new:
  assumes "covered dep ((key, d) # queue) visited t b" "key \<notin> set (dkeys visited)"
  shows "covered (dep(key := d)) (queue @ more_q) (visited @ [(key, node)]) t b"
  using assms by (auto simp: covered_def)

lemma union_guarded: "{(a, p, b). P a \<and> Q a p b} \<union> {(a, p, b). R a \<and> Q a p b} = {(a, p, b). (P a \<or> R a) \<and> Q a p b}"
  by auto

lemma walk_inv_new:
  assumes inv: "walk_inv now r preds hops who start dep ((key, d) # queue) visited edges"
    and new: "key \<notin> set (dkeys visited)" and cur: "current_generation now r key who = Inr node"
    and len: "length visited < 1000" and es: "d < hops \<Longrightarrow> es = edges_from r preds key" "\<not> d < hops \<Longrightarrow> es = []"
  shows "walk_inv now r preds hops who start (dep(key := d)) (queue @ map (\<lambda>(p, t). (t, d + 1)) es)
     (visited @ [(key, node)]) (edges @ map (\<lambda>(p, t). (key, p, t)) es)"
proof -
  let ?q = "queue @ map (\<lambda>(p, t). (t, d + 1)) es" and ?v = "visited @ [(key, node)]" and ?dep = "dep(key := d)"
  have old: "?dep k = dep k" if "k \<in> set (dkeys visited)" for k using that new by auto
  have q: "queue_ok dep ((key, d) # queue) visited" and pa: "paths_ok now r preds hops who start dep ((key, d) # queue) visited"
    and co: "cover_ok r preds hops start dep ((key, d) # queue) visited" and ed: "edges_ok r preds hops dep visited edges"
    using inv by (simp_all add: walk_inv_def)
  have "queue_ok ?dep ?q ?v"
  proof -
    have rest: "sorted (map snd queue)" "\<forall>x \<in> set queue. d \<le> snd x \<and> snd x \<le> d + 1"
      using q unfolding queue_ok_def by simp_all
    have "map (snd \<circ> (\<lambda>(p, t). (t, d + 1))) es = replicate (length es) (d + 1)"
      by (simp add: comp_def case_prod_beta map_replicate_const)
    then have so: "sorted (map snd ?q)" using rest by (auto simp: sorted_append)
    have low: "\<forall>x \<in> set ?q. d \<le> snd x \<and> snd x \<le> d + 1" using rest by auto
    have one: "\<forall>x \<in> set ?q. snd x \<le> snd (hd ?q) + 1"
    proof
      fix x assume x: "x \<in> set ?q"
      then have "?q \<noteq> []" by (rule list.set_cases) simp_all
      then have "hd ?q \<in> set ?q" by (rule hd_in_set)
      then have "d \<le> snd (hd ?q)" and "snd x \<le> d + 1" using low x by blast+
      then show "snd x \<le> snd (hd ?q) + 1" by linarith
    qed
    have "\<forall>k \<in> set (dkeys visited). dep k \<le> d" using q by (simp add: queue_ok_def del: set_map)
    then have "\<forall>k \<in> set (dkeys ?v). ?dep k \<le> d" using new by auto
    then have "\<forall>k \<in> set (dkeys ?v). \<forall>x \<in> set ?q. ?dep k \<le> snd x" using low by (meson order_trans)
    then show ?thesis unfolding queue_ok_def using so one by blast
  qed
  moreover have "paths_ok now r preds hops who start ?dep ?q ?v"
  proof -
    have path: "(start, key) \<in> related r preds ^^ d" "d \<le> hops" using pa by (auto simp: paths_ok_def)
    have next_q: "\<forall>x \<in> set (map (\<lambda>(p, t). (t, d + 1)) es). (start, fst x) \<in> related r preds ^^ snd x \<and> snd x \<le> hops"
    proof
      fix x assume "x \<in> set (map (\<lambda>(p, t). (t, d + 1)) es)"
      then obtain p t where x: "(p, t) \<in> set es" "x = (t, d + 1)" by auto
      then have lt: "d < hops" using es(2) by (cases "d < hops") auto
      then have "(key, t) \<in> related r preds" using x(1) es(1) by (force simp: related_def)
      then show "(start, fst x) \<in> related r preds ^^ snd x \<and> snd x \<le> hops" using path(1) lt x(2) by auto
    qed
    have "\<forall>x \<in> set visited. ?dep (fst x) = dep (fst x)" using new by auto
    then have "\<forall>x \<in> set ?v. (start, fst x) \<in> related r preds ^^ ?dep (fst x) \<and> ?dep (fst x) \<le> hops
        \<and> current_generation now r (fst x) who = Inr (snd x)"
      using pa path cur by (simp add: paths_ok_def ball_Un)
    moreover have "\<forall>x \<in> set queue. (start, fst x) \<in> related r preds ^^ snd x \<and> snd x \<le> hops"
      using pa by (simp add: paths_ok_def)
    ultimately show ?thesis using next_q unfolding paths_ok_def set_append by blast
  qed
  moreover have "cover_ok r preds hops start ?dep ?q ?v"
  proof -
    have "covered ?dep ?q ?v t (d + 1)" if "d < hops" "(key, t) \<in> related r preds" for t
      using that es(1) by (force simp: covered_def related_def)
    then show ?thesis
      using co covered_new [OF _ new] new by (auto simp: cover_ok_def simp del: set_map)
  qed
  moreover have "edges_ok r preds hops ?dep ?v (edges @ map (\<lambda>(p, t). (key, p, t)) es)"
  proof -
    have "a \<in> set (dkeys ?v) \<and> ?dep a < hops \<longleftrightarrow> a \<in> set (dkeys visited) \<and> dep a < hops \<or> a = key \<and> d < hops" for a
      using new by auto
    moreover have "set (map (\<lambda>(p, t). (key, p, t)) es) = {(a, p, b). (a = key \<and> d < hops) \<and> (p, b) \<in> set (edges_from r preds a)}"
      using es by (cases "d < hops") auto
    moreover have "set edges = {(a, p, b). (a \<in> set (dkeys visited) \<and> dep a < hops) \<and> (p, b) \<in> set (edges_from r preds a)}"
      using ed by (simp add: edges_ok_def del: set_map)
    ultimately show ?thesis by (simp only: edges_ok_def set_append union_guarded)
  qed
  ultimately show ?thesis
    using inv new len by (auto simp: walk_inv_def wf_dict_def)
qed

lemma rel_loop_inv:
  "rel_loop now r preds hops who queue visited edges = Inr (v, e)
     \<Longrightarrow> walk_inv now r preds hops who start dep queue visited edges
     \<Longrightarrow> \<exists>dep'. walk_inv now r preds hops who start dep' [] v e"
proof (induction now r preds hops who queue visited edges arbitrary: dep rule: rel_loop.induct)
  case (1 now r preds hops who visited edges)
  then show ?case by (auto simp: rel_loop.simps)
next
  case (2 now r preds hops who key depth queue visited edges)
  show ?case
  proof (cases "key \<in> set (dkeys visited)")
    case True
    then show ?thesis using 2(1) [OF True] 2(4) walk_inv_seen [OF 2(5) True] by (simp add: rel_loop.simps del: set_map)
  next
    case new: False
    obtain node where cur: "current_generation now r key who = Inr node" and len: "length visited < 1000"
      using 2(4) new by (auto simp: rel_loop.simps split: sum.splits if_splits simp del: set_map)
    note visit = walk_inv_new [OF 2(5) new cur len]
    show ?thesis
    proof (cases "depth \<ge> hops")
      case True
      then show ?thesis
        using 2(2) [OF new cur] 2(4) new cur len visit [of "[]"] by (simp add: rel_loop.simps del: set_map)
    next
      case False
      obtain es where es: "edges_at r preds node = Inr es"
        using 2(4) new cur len False by (auto simp: rel_loop.simps split: sum.splits simp del: set_map)
      then have "es = edges_from r preds key"
        using current_generation_head [OF cur] by (simp add: edges_from_def)
      then show ?thesis
        using 2(3) [OF new cur _ False es] 2(4) new cur len False es visit [of es] by (simp add: rel_loop.simps del: set_map)
    qed
  qed
qed

lemma walk_inv_start: "walk_inv now r preds hops who key dep [(key, 0)] [] []"
  by (simp add: walk_inv_defs covered_def wf_dict_def)

lemma near_visited:
  assumes "walk_inv now r preds hops who start dep [] v e"
  shows "(start, k) \<in> related r preds ^^ m \<Longrightarrow> m \<le> hops \<Longrightarrow> k \<in> set (dkeys v) \<and> dep k \<le> m"
proof (induction m arbitrary: k)
  case 0
  then show ?case using assms by (simp add: walk_inv_def cover_ok_def covered_def del: set_map)
next
  case (Suc m)
  then obtain a where a: "(start, a) \<in> related r preds ^^ m" "(a, k) \<in> related r preds" by auto
  then have "a \<in> set (dkeys v)" "dep a \<le> m" using Suc by (simp_all del: set_map)
  then have "covered dep [] v k (dep a + 1)"
    using assms a(2) Suc.prems(2) by (simp add: walk_inv_def cover_ok_def del: set_map)
  then show ?case using \<open>dep a \<le> m\<close> by (simp add: covered_def del: set_map)
qed

lemma visited_near:
  assumes "walk_inv now r preds hops who start dep [] v e" "k \<in> set (dkeys v)"
  shows "(start, k) \<in> related r preds ^^ dep k" "dep k \<le> hops"
  using assms by (auto simp: walk_inv_def paths_ok_def)

text \<open>C38. A walk of relations that succeeds has visited exactly the knowledge keys within the asked number
  of hops of the first, each at its current valid generation and once, has passed exactly the relations with
  an asked predicate that leave a key nearer than that, and has pinned all it visited, at most 1000, in one
  snapshot.\<close>

theorem walk_relations_exact:
  assumes "walk_relations now r key preds max_hops who = Inr ((visited, edges), snap)"
  shows "set (dkeys visited) = {k. \<exists>m. m \<le> nat max_hops \<and> (key, k) \<in> related r preds ^^ m}
    \<and> set edges = {(a, p, b). (\<exists>m. m < nat max_hops \<and> (key, a) \<in> related r preds ^^ m) \<and> (p, b) \<in> set (edges_from r preds a)}
    \<and> list_all (\<lambda>x. current_generation now r (fst x) who = Inr (snd x)) visited
    \<and> distinct (dkeys visited) \<and> length visited \<le> 1000
    \<and> reg_snapshot now r (map snd visited) who = Inr snap"
proof -
  have loop: "rel_loop now r preds (nat max_hops) who [(key, 0)] [] [] = Inr (visited, edges)"
    and snap: "reg_snapshot now r (map snd visited) who = Inr snap"
    using assms by (auto simp: walk_relations_def split: if_splits sum.splits)
  obtain dep where inv: "walk_inv now r preds (nat max_hops) who key dep [] visited edges"
    using rel_loop_inv [OF loop walk_inv_start] by blast
  note near = near_visited [OF inv] and visited = visited_near [OF inv]
  have keys: "set (dkeys visited) = {k. \<exists>m. m \<le> nat max_hops \<and> (key, k) \<in> related r preds ^^ m}"
    using near visited by blast
  have "a \<in> set (dkeys visited) \<and> dep a < nat max_hops \<longleftrightarrow> (\<exists>m. m < nat max_hops \<and> (key, a) \<in> related r preds ^^ m)" for a
    using near visited by (meson le_less_trans less_imp_le)
  moreover have "set edges = {(a, p, b). (a \<in> set (dkeys visited) \<and> dep a < nat max_hops) \<and> (p, b) \<in> set (edges_from r preds a)}"
    using inv by (simp add: walk_inv_def edges_ok_def del: set_map)
  ultimately have "set edges = {(a, p, b). (\<exists>m. m < nat max_hops \<and> (key, a) \<in> related r preds ^^ m) \<and> (p, b) \<in> set (edges_from r preds a)}"
    by simp
  moreover have "list_all (\<lambda>x. current_generation now r (fst x) who = Inr (snd x)) visited"
    "distinct (dkeys visited)" "length visited \<le> 1000"
    using inv by (simp_all add: walk_inv_def paths_ok_def list_all_iff wf_dict_def del: set_map)
  ultimately show ?thesis using keys snap by blast
qed

definition walk_reg :: registry where
  "walk_reg = run_steps (reg_step sample_C sample_D) empty_registry
     [Do_Origin ''erp'' ''o1'' ''1'' (JStr ''text'') [''*''],
      Do_Publish 1 ''m'' (JObj []) [''origin:o1''] ''local'' [''*''] None,
      Do_Publish 2 ''k'' (JObj [(''relations'', JList
          [JObj [(''predicate'', JStr ''uses''), (''target_knowledge_key'', JStr ''m'')],
           JObj [(''predicate'', JStr ''owns''), (''target_knowledge_key'', JStr ''z'')]])])
        [''origin:o1''] ''local'' [''*''] None]"

theorem walk_relations_exact_witness:
  "\<exists>visited edges snap. walk_relations 3 walk_reg ''k'' [''uses''] 1 ''local'' = Inr ((visited, edges), snap)
     \<and> edges = [(''k'', ''uses'', ''m'')]
     \<and> {k. \<exists>m. m \<le> nat 1 \<and> (''k'', k) \<in> related walk_reg [''uses''] ^^ m} = {''k'', ''m''}"
proof -
  have walk: "walk_relations 3 walk_reg ''k'' [''uses''] 1 ''local''
      = Inr (([(''k'', ''knowledge:k+''), (''m'', ''knowledge:m+'')], [(''k'', ''uses'', ''m'')]),
          ([''knowledge:k+'', ''knowledge:m+''], ''local''))"
    by code_simp
  from walk_relations_exact [OF walk] have "{k. \<exists>m. m \<le> nat 1 \<and> (''k'', k) \<in> related walk_reg [''uses''] ^^ m} = {''k'', ''m''}"
    by simp
  with walk show ?thesis by blast
qed

section \<open>Soft annotations are text only\<close>

definition without_key :: "string \<Rightarrow> payload \<Rightarrow> payload" where
  "without_key k d = filter (\<lambda>p. fst p \<noteq> k) d"

text \<open>What a compiled record stores, given its validity interval and the entry its key had before.\<close>

definition stored_record :: "(json \<Rightarrow> string) \<Rightarrow> registry \<Rightarrow> payload \<Rightarrow> json \<Rightarrow> real option \<times> real option \<Rightarrow> string list
    \<Rightarrow> string \<Rightarrow> reg_payload" where
  "stored_record dig r h ret valid acl origin =
     (let previous = dget (rg_heads r) (knowledge_id dig h)
      in Knowledge_Payload (knowledge_id dig h) (case previous of None \<Rightarrow> 1 | Some (g, i) \<Rightarrow> g + 1) (JObj (semantic_of h ret))
           (sorted_set acl) (Some \<lparr>lc_from = fst valid, lc_until = snd valid, lc_rest = lifecycle_rest h origin,
             lc_supersedes = map_option snd previous\<rparr>))"

lemma check_lifecycle_aware:
  "check_lifecycle (Some (map_option Aware a, map_option Aware b, x)) = Inr lc \<Longrightarrow> lc = Some (a, b, x)"
  by (cases a; cases b) (auto simp: check_lifecycle_def split: if_splits)

lemma publish_stores:
  assumes "reg_publish D now r key sem parents who acl (Some (map_option Aware a, map_option Aware b, x)) = Inr (i, r')"
    and "\<not> present r i"
  shows "dget (rg_nodes r') i = Some \<lparr>nd_kind = ''knowledge'',
      nd_payload = Knowledge_Payload key (case dget (rg_heads r) key of None \<Rightarrow> 1 | Some (g, h) \<Rightarrow> g + 1) sem (sorted_set acl)
         (Some \<lparr>lc_from = a, lc_until = b, lc_rest = x, lc_supersedes = map_option snd (dget (rg_heads r) key)\<rparr>), nd_revoked = False\<rparr>"
  using assms(1) reg_add_fresh(1) [OF _ assms(2)]
  by (auto simp: reg_publish_def Let_def reg_record_event_def dest!: check_lifecycle_aware split: if_splits sum.splits prod.splits)

lemma node_kinds_apart:
  assumes "reg_origin C D r ns i v x acl = Inr (oid, r1)" and "reg_publish D now r1 key sem parents who acl' lc = Inr (g, r2)"
  shows "g \<noteq> oid"
proof -
  have "\<exists>w. oid = ''origin:'' @ w" using assms(1) unfolding reg_origin_def
    by (cases rule: reg_add_cases) (auto simp: node_id_def)
  moreover have "\<exists>w. g = ''knowledge:'' @ w" using assms(2)
  proof (rule reg_publish_Inr, goal_cases)
    case (1 r3 g' lc')
    then show ?case by (cases rule: reg_add_cases [OF 1(4)]) (auto simp: node_id_def)
  qed
  ultimately show ?thesis by auto
qed

text \<open>The origin that the source of a record stands for.\<close>

definition record_origin :: "(json \<Rightarrow> string) \<Rightarrow> digest \<Rightarrow> registry \<Rightarrow> payload \<Rightarrow> payload \<Rightarrow> string list \<Rightarrow> (string \<times> registry) result" where
  "record_origin dig D r src h acl =
     reg_origin dig D r (text_of (jget src ''system'')) (text_of (jget src ''record_id''))
        (text_of (jget src ''version'')) (jget src ''content'') acl"

lemma record_stored:
  assumes "publish_record dig D parse now r h soft who = (Inr g, r2)" and "\<not> present r g"
  obtains ret valid xs src deps i r1 where "validity parse h = Inr valid" and "jget h ''acl'' = JList xs" and "retrieval_of h soft = Inr ret"
    and "jget h ''source'' = JObj src" and "texts (dget_or h ''depends_on'' (JList [])) = Inr deps"
    and "record_origin dig D r src h (map text_of xs) = Inr (i, r1)"
    and "dget (rg_nodes r2) g = Some \<lparr>nd_kind = ''knowledge'', nd_payload = stored_record dig r h ret valid (map text_of xs) i, nd_revoked = False\<rparr>"
    and "\<exists>n. dget (rg_heads r2) (knowledge_id dig h) = Some (n, g)"
    and "reg_wf r \<Longrightarrow> reg_roots r2 g = Inr (sort (filter (is_origin r1) (lineage_of r1 (i # deps))))"
proof -
  from assms(1) obtain ret valid where v: "validity parse h = Inr valid" and ret: "retrieval_of h soft = Inr ret"
    and st: "store_record dig D now r h (knowledge_id dig h) (JObj (semantic_of h ret)) valid who = (Inr g, r2)"
    by (auto simp: publish_record_def split: sum.splits if_splits)
  from st obtain src xs deps i r1 where xs: "jget h ''acl'' = JList xs" and src: "jget h ''source'' = JObj src"
    and deps: "texts (dget_or h ''depends_on'' (JList [])) = Inr deps"
    and org: "record_origin dig D r src h (map text_of xs) = Inr (i, r1)"
    and pub: "reg_publish D now r1 (knowledge_id dig h) (JObj (semantic_of h ret)) (i # deps) who (map text_of xs)
        (Some (map_option Aware (fst valid), map_option Aware (snd valid), lifecycle_rest h i)) = Inr (g, r2)"
    by (auto simp: store_record_def record_origin_def split: sum.splits json.splits if_splits prod.splits)
  have heads: "rg_heads r1 = rg_heads r"
    using org unfolding record_origin_def reg_origin_def by (rule reg_add_extends(2))
  have fresh: "\<not> present r1 g"
    using org assms(2) node_kinds_apart [OF org [unfolded record_origin_def] pub] unfolding record_origin_def reg_origin_def
    by (cases rule: reg_add_cases) (auto simp: present_def map_add_def split: option.splits)
  from pub obtain rb n lc where add: "reg_add D r1 ''knowledge'' (Knowledge_Payload (knowledge_id dig h) n (JObj (semantic_of h ret))
        (sorted_set (map text_of xs)) lc) (i # deps) = Inr (g, rb)"
    and r2: "r2 = reg_record_event now ''publish'' (JObj [(''node'', JStr g), (''knowledge'', JStr (knowledge_id dig h)),
        (''generation'', JInt n)]) (rb\<lparr>rg_heads := dput (knowledge_id dig h) (n, g) (rg_heads rb)\<rparr>)"
    by (rule reg_publish_Inr)
  have tables: "rg_nodes r2 = rg_nodes rb" "rg_edges r2 = rg_edges rb" by (simp_all add: r2)
  have "reg_roots r2 g = reg_roots rb g"
    unfolding reg_roots_def reg_ancestors_def reg_get_node_def tables is_origin_def ..
  moreover have "reg_wf r \<Longrightarrow> reg_wf r1"
    using org unfolding record_origin_def reg_origin_def by (auto elim: reg_add_wf)
  ultimately have roots: "reg_wf r \<Longrightarrow> reg_roots r2 g = Inr (sort (filter (is_origin r1) (lineage_of r1 (i # deps))))"
    using fresh_roots(1) [OF _ add fresh] by simp
  from publish_stores [OF pub fresh] reg_publish_keeps(3) [OF pub] show thesis
    by (intro that [OF v xs ret src deps org _ _ roots]) (simp_all add: stored_record_def Let_def heads)
qed

lemma retrieval_parts:
  assumes "retrieval_of h soft = Inr ret" "retrieval_of h soft' = Inr ret'"
  obtains d d' where "ret = JObj d" "ret' = JObj d'" "without_key ''soft_annotations'' d = without_key ''soft_annotations'' d'"
    "jkey d ''domain'' = jkey d' ''domain''"
  using assms by (auto simp: retrieval_of_def without_key_def jkey_def split: sum.splits if_splits)

lemma semantic_reads:
  "jkey (semantic_of h ret) ''retrieval'' = Inr ret"
  "filter (\<lambda>p. fst p \<noteq> ''retrieval'') (semantic_of h ret) = filter (\<lambda>p. fst p \<noteq> ''retrieval'') (semantic_of h ret')"
  "jkey (semantic_of h ret) ''type'' = Inr (dget_or h ''type'' (JStr (casefold (text_of (jget h ''role'')))))"
  "jkey (semantic_of h ret) ''predicate'' = Inr (jget h ''predicate'')"
  "jkey (semantic_of h ret) ''role'' = Inr (jget h ''role'')"
  by (simp_all add: semantic_of_def jkey_def)

lemma view_stored:
  assumes "sem_describe dig r g = Inr view" and "dget (rg_nodes r) g = Some \<lparr>nd_kind = kind, nd_payload = stored_record dig r0 h ret valid acl org, nd_revoked = b\<rparr>"
  shows "Knowledge_Payload (sv_knowledge view) (sv_generation view) (JObj (semantic_of h ret)) (sv_acl view) (Some (sv_lifecycle view))
      = stored_record dig r0 h ret valid acl org"
    and "sv_node view = g" "sv_retrieval view = ret" "sv_revoked view = b"
    and "semantic_cluster dig (semantic_of h ret) = Inr (sv_cluster view)"
    and "sv_fields view = filter (\<lambda>p. fst p \<noteq> ''retrieval'') (semantic_of h ret)"
    and "reg_roots r g = Inr (sv_origins view)"
  using assms by (auto simp: sem_describe_def reg_get_node_def stored_record_def Let_def semantic_reads(1) split: sum.splits)

text \<open>C39. Soft annotations cannot set hard metadata. When the same record is compiled with two lists of
  annotations in the same well-formed registry, each giving a node that is new there (the digest includes the number of
  the generation, so only a collision gives an old one), both views show the same origins, knowledge
  key, generation, cluster, hard fields, access list and lifecycle (the owner, the validity interval, what the record
  depends on, its source and the generation it supersedes, the owner and the dependencies being those of the record),
  and the same retrieval text but for the annotations themselves; each view is of the generation that its
  registry now names for the key of the record.\<close>

theorem annotations_are_text_only:
  assumes "sem_compile dig D parse now r h soft who = (Inr view, r1)" and "sem_compile dig D parse now r h soft' who = (Inr view', r1')"
    and "reg_wf r" and "\<not> present r (sv_node view)" and "\<not> present r (sv_node view')"
  shows "sv_knowledge view = knowledge_id dig h \<and> sv_knowledge view' = knowledge_id dig h \<and> sv_origins view = sv_origins view'
    \<and> sv_generation view = sv_generation view' \<and> sv_cluster view = sv_cluster view' \<and> sv_fields view = sv_fields view'
    \<and> sv_acl view = sv_acl view' \<and> sv_lifecycle view = sv_lifecycle view' \<and> \<not> sv_revoked view \<and> \<not> sv_revoked view'
    \<and> (\<exists>i. lc_rest (sv_lifecycle view) = [(''owner'', jget h ''owner''),
         (''depends_on'', dget_or h ''depends_on'' (JList [])), (''source'', JStr i)])
    \<and> (\<exists>d d'. sv_retrieval view = JObj d \<and> sv_retrieval view' = JObj d' \<and> without_key ''soft_annotations'' d = without_key ''soft_annotations'' d')
    \<and> reg_head r1 (knowledge_id dig h) = Inr (sv_node view) \<and> reg_head r1' (knowledge_id dig h) = Inr (sv_node view')"
proof -
  obtain g g' where c: "publish_record dig D parse now r h soft who = (Inr g, r1)" "sem_describe dig r1 g = Inr view"
    and c': "publish_record dig D parse now r h soft' who = (Inr g', r1')" "sem_describe dig r1' g' = Inr view'"
    using assms(1,2) by (auto simp: sem_compile_def split: prod.splits sum.splits)
  have node: "sv_node view = g" "sv_node view' = g'"
    using c(2) c'(2) by (auto simp: sem_describe_def split: sum.splits reg_payload.splits json.splits option.splits)
  obtain ret valid xs src deps i ra where s: "validity parse h = Inr valid" "jget h ''acl'' = JList xs" "retrieval_of h soft = Inr ret"
      "dget (rg_nodes r1) g = Some \<lparr>nd_kind = ''knowledge'', nd_payload = stored_record dig r h ret valid (map text_of xs) i, nd_revoked = False\<rparr>"
    and src: "jget h ''source'' = JObj src" "texts (dget_or h ''depends_on'' (JList [])) = Inr deps"
      "record_origin dig D r src h (map text_of xs) = Inr (i, ra)"
    and head: "\<exists>n. dget (rg_heads r1) (knowledge_id dig h) = Some (n, g)"
    and roots: "reg_roots r1 g = Inr (sort (filter (is_origin ra) (lineage_of ra (i # deps))))"
    using record_stored [OF c(1)] assms(3,4) node(1) by metis
  obtain ret' valid' xs' src' deps' i' ra' where s': "validity parse h = Inr valid'" "jget h ''acl'' = JList xs'" "retrieval_of h soft' = Inr ret'"
      "dget (rg_nodes r1') g' = Some \<lparr>nd_kind = ''knowledge'', nd_payload = stored_record dig r h ret' valid' (map text_of xs') i', nd_revoked = False\<rparr>"
    and src': "jget h ''source'' = JObj src'" "texts (dget_or h ''depends_on'' (JList [])) = Inr deps'"
      "record_origin dig D r src' h (map text_of xs') = Inr (i', ra')"
    and head': "\<exists>n. dget (rg_heads r1') (knowledge_id dig h) = Some (n, g')"
    and roots': "reg_roots r1' g' = Inr (sort (filter (is_origin ra') (lineage_of ra' (i' # deps'))))"
    using record_stored [OF c'(1)] assms(3,5) node(2) by metis
  have same: "valid' = valid" "xs' = xs" "src' = src" "deps' = deps" using s(1,2) s'(1,2) src(1,2) src'(1,2) by auto
  then have org: "i' = i" "ra' = ra" using src(3) src'(3) by simp_all
  obtain d d' where d: "ret = JObj d" "ret' = JObj d'" "without_key ''soft_annotations'' d = without_key ''soft_annotations'' d'"
    "jkey d ''domain'' = jkey d' ''domain''"
    by (rule retrieval_parts [OF s(3) s'(3)])
  note v = view_stored [OF c(2) s(4)] and v' = view_stored [OF c'(2) s'(4)]
  have "semantic_cluster dig (semantic_of h ret) = semantic_cluster dig (semantic_of h ret')"
    by (simp add: semantic_cluster_def cluster_descriptor_def semantic_reads(1,3-5) jread_def d)
  then have cluster: "sv_cluster view = sv_cluster view'" using v(5) v'(5) by simp
  have fields: "sv_fields view = sv_fields view'" using v(6) v'(6) semantic_reads(2) [of h ret ret'] by simp
  have origins: "sv_origins view = sv_origins view'" using v(7) v'(7) roots roots' by (simp add: same org)
  have "sv_knowledge view = knowledge_id dig h" "sv_knowledge view' = knowledge_id dig h" "sv_generation view = sv_generation view'"
    "sv_acl view = sv_acl view'" "sv_lifecycle view = sv_lifecycle view'"
    "lc_rest (sv_lifecycle view) = lifecycle_rest h i"
    using v(1) v'(1) by (simp_all add: stored_record_def Let_def same org)
  moreover have "reg_head r1 (knowledge_id dig h) = Inr (sv_node view)" "reg_head r1' (knowledge_id dig h) = Inr (sv_node view')"
    using head head' node by (auto simp: reg_head_def)
  ultimately show ?thesis using cluster fields origins v(3,4) v'(3,4) d(1-3) unfolding lifecycle_rest_def by blast
qed

definition demo_hard :: payload where
  "demo_hard = [(''subject_id'', JStr ''supplier:m''), (''subject_label'', JStr ''Meier''), (''predicate'', JStr ''lead_time''),
     (''object'', JObj [(''value'', JInt 18), (''unit'', JStr ''days'')]),
     (''source'', JObj [(''system'', JStr ''erp''), (''record_id'', JStr ''7''), (''version'', JStr ''1''), (''content'', JStr ''raw'')]),
     (''owner'', JStr ''ops''), (''acl'', JList [JStr ''*'']), (''role'', JStr ''FACT''),
     (''component_id'', JStr ''gear''), (''component_label'', JStr ''Gear'')]"

definition demo_soft :: "payload list" where
  "demo_soft = [[(''field'', JStr ''tags''), (''value'', JStr ''urgent''), (''source'', JStr ''llm''), (''confidence'', JInt 1)]]"

fun demo_D :: digest where
  "demo_D k (Knowledge_Payload key g sem acl lc) ps =
     (case sem of JObj d \<Rightarrow> (case jget d ''retrieval'' of JObj e \<Rightarrow> (if jget e ''soft_annotations'' = JList [] then ''plain'' else ''soft'') | _ \<Rightarrow> []) | _ \<Rightarrow> [])"
| "demo_D k p ps = sample_D k p ps"

lemma compiled_node: "map_sum id sv_node (fst x) = Inr n \<Longrightarrow> \<exists>v r. x = (Inr v, r) \<and> sv_node v = n"
  by (cases x; cases "fst x") auto

theorem annotations_are_text_only_witness:
  "\<exists>view view'. fst (sem_compile sample_C demo_D (\<lambda>s. Not_Iso) 1 empty_registry demo_hard [] ''local'') = Inr view
     \<and> fst (sem_compile sample_C demo_D (\<lambda>s. Not_Iso) 1 empty_registry demo_hard demo_soft ''local'') = Inr view'
     \<and> sv_node view \<noteq> sv_node view' \<and> sv_fields view = sv_fields view'"
proof -
  obtain view r1 where a: "sem_compile sample_C demo_D (\<lambda>s. Not_Iso) 1 empty_registry demo_hard [] ''local'' = (Inr view, r1)"
    "sv_node view = ''knowledge:plain''"
  proof -
    have "map_sum id sv_node (fst (sem_compile sample_C demo_D (\<lambda>s. Not_Iso) 1 empty_registry demo_hard [] ''local'')) = Inr ''knowledge:plain''"
      by code_simp
    then show thesis using that compiled_node by blast
  qed
  obtain view' r1' where b: "sem_compile sample_C demo_D (\<lambda>s. Not_Iso) 1 empty_registry demo_hard demo_soft ''local'' = (Inr view', r1')"
    "sv_node view' = ''knowledge:soft''"
  proof -
    have "map_sum id sv_node (fst (sem_compile sample_C demo_D (\<lambda>s. Not_Iso) 1 empty_registry demo_hard demo_soft ''local'')) = Inr ''knowledge:soft''"
      by code_simp
    then show thesis using that compiled_node by blast
  qed
  have fresh: "\<not> present empty_registry i" for i by (simp add: present_def empty_registry_def)
  from annotations_are_text_only [OF a(1) b(1) reg_wf_empty fresh fresh] a b show ?thesis by auto
qed

end
