(* ===== verification/Symlinks.thy ===== *)
theory Symlinks
  imports Semantics Snapshot_Store
begin

text \<open>
  The catalogue of embedded links, \<open>NeuralSymlinks\<close> of \<open>neural_pods/symlink.py\<close>: a model is trained to emit
  \<open>LINK s CLUSTER c\<close>, and the catalogue turns such text back into the current, valid generation it names. The two
  tables are dictionaries; \<open>indexed\<close> stands for the table \<open>semantic_bindings\<close>, which the semantic router fills.
\<close>

section \<open>The tables\<close>

record link =
  ln_slot :: nat
  ln_cluster :: nat
  ln_identity :: string
  ln_adapter :: "string option"

record catalogue =
  ca_clusters :: "(string, nat \<times> json) dict"
  ca_links :: "(string, link) dict"

definition empty_catalogue :: catalogue where
  "empty_catalogue = \<lparr>ca_clusters = [], ca_links = []\<rparr>"

definition identity_descriptor :: "(json \<Rightarrow> string) \<Rightarrow> string \<Rightarrow> payload \<Rightarrow> json result" where
  "identity_descriptor dig key s =
     (case semantic_cluster dig s of
        Inl e \<Rightarrow> Inl e
      | Inr (ck, cl) \<Rightarrow>
          (case map_result (\<lambda>x. x) [jkey s ''subject'', jkey s ''component'',
                  (case jkey s ''retrieval'' of Inl e \<Rightarrow> Inl e | Inr ret \<Rightarrow> jread ret ''trusted_aliases'')] of
             Inl e \<Rightarrow> Inl e
           | Inr vs \<Rightarrow> Inr (JObj ([(''knowledge_key'', JStr key), (''cluster_key'', JStr ck), (''cluster'', cl)]
                          @ zip [''subject'', ''component'', ''aliases''] vs))))"

definition link_binding :: "catalogue \<Rightarrow> string \<Rightarrow> link result" where
  "link_binding ca key = (case dget (ca_links ca) key of None \<Rightarrow> Inl InvalidState | Some b \<Rightarrow> Inr b)"

text \<open>SQLite gives a new row the number after the greatest.\<close>

definition fresh_slot :: "nat list \<Rightarrow> nat" where
  "fresh_slot xs = (if xs = [] then 0 else Max (set xs)) + 1"

definition cluster_slots :: "catalogue \<Rightarrow> nat list" where
  "cluster_slots ca = map (fst \<circ> snd) (ca_clusters ca)"

definition link_slots :: "catalogue \<Rightarrow> nat list" where
  "link_slots ca = map (ln_slot \<circ> snd) (ca_links ca)"

definition add_cluster :: "catalogue \<Rightarrow> string \<Rightarrow> json \<Rightarrow> nat \<times> catalogue" where
  "add_cluster ca ck cl =
     (case dget (ca_clusters ca) ck of
        Some (s, _) \<Rightarrow> (s, ca)
      | None \<Rightarrow> (let s = fresh_slot (cluster_slots ca) in (s, ca\<lparr>ca_clusters := dput ck (s, cl) (ca_clusters ca)\<rparr>)))"

definition put_identity :: "catalogue \<Rightarrow> string \<Rightarrow> nat \<Rightarrow> string \<Rightarrow> link \<times> catalogue" where
  "put_identity ca key s ident =
     (let b = (case dget (ca_links ca) key of
            None \<Rightarrow> \<lparr>ln_slot = fresh_slot (link_slots ca), ln_cluster = s, ln_identity = ident, ln_adapter = None\<rparr>
          | Some b \<Rightarrow> b\<lparr>ln_cluster := s, ln_identity := ident, ln_adapter := None\<rparr>)
      in (b, ca\<lparr>ca_links := dput key b (ca_links ca)\<rparr>))"

section \<open>Registering an identity\<close>

text \<open>\<open>node(i)["payload"]["semantic"]\<close> and the access list beside it.\<close>

definition semantic_at :: "registry \<Rightarrow> string \<Rightarrow> (json \<times> string list) result" where
  "semantic_at r i =
     (case reg_get_node r i of
        Inl e \<Rightarrow> Inl e
      | Inr nd \<Rightarrow> (case nd_payload nd of Knowledge_Payload _ _ sem acl _ \<Rightarrow> Inr (sem, acl) | _ \<Rightarrow> Inl KeyError))"

text \<open>The descriptor that a generation of a key gives now, with its access list.\<close>

definition described :: "(json \<Rightarrow> string) \<Rightarrow> registry \<Rightarrow> string \<Rightarrow> string \<Rightarrow> (json \<times> string list) result" where
  "described dig r key i =
     (case semantic_at r i of
        Inl e \<Rightarrow> Inl e
      | Inr (JObj s, acl) \<Rightarrow>
          (case identity_descriptor dig key s of Inl e \<Rightarrow> Inl e | Inr d \<Rightarrow> Inr (d, acl))
      | Inr _ \<Rightarrow> Inl TypeError)"

text \<open>Whether the row is still good: its identity is valid and has the same descriptor.\<close>

definition same_identity :: "real \<Rightarrow> registry \<Rightarrow> string \<Rightarrow> link \<Rightarrow> json \<Rightarrow> bool result" where
  "same_identity now r who b descriptor =
     (case reg_snapshot now r [ln_identity b] who of
        Inl e \<Rightarrow> Inr False
      | Inr _ \<Rightarrow> (case semantic_at r (ln_identity b) of Inl e \<Rightarrow> Inl e | Inr (s, _) \<Rightarrow> Inr (py_eq s descriptor)))"

definition new_identity ::
    "(json \<Rightarrow> string) \<Rightarrow> digest \<Rightarrow> real \<Rightarrow> registry \<Rightarrow> catalogue \<Rightarrow> string \<Rightarrow> string \<Rightarrow> json \<Rightarrow> string list \<Rightarrow> string
       \<Rightarrow> link result \<times> registry \<times> catalogue" where
  "new_identity dig D now r ca key g descriptor acl who =
     (case reg_origin dig D r ''semantic-link-compiler'' key ''1'' descriptor acl of
        Inl e \<Rightarrow> (Inl e, r, ca)
      | Inr (i, r1) \<Rightarrow>
          (case reg_roots r1 g of
             Inl e \<Rightarrow> (Inl e, r1, ca)
           | Inr os \<Rightarrow>
               (case reg_publish D now r1 (''identity-link:'' @ key) descriptor (i # os) who acl None of
                  Inl e \<Rightarrow> (Inl e, r1, ca)
                | Inr (ident, r2) \<Rightarrow>
                    (case descriptor of
                       JObj d \<Rightarrow>
                         (let (s, ca1) = add_cluster ca (text_of (jget d ''cluster_key'')) (jget d ''cluster'');
                              (b, ca2) = put_identity ca1 key s ident
                          in (Inr b, r2, ca2))
                     | _ \<Rightarrow> (Inl TypeError, r2, ca)))))"

definition link_register ::
    "(json \<Rightarrow> string) \<Rightarrow> digest \<Rightarrow> real \<Rightarrow> registry \<Rightarrow> catalogue \<Rightarrow> string \<Rightarrow> string \<Rightarrow> link result \<times> registry \<times> catalogue" where
  "link_register dig D now r ca key who =
     (case current_generation now r key who of
        Inl e \<Rightarrow> (Inl e, r, ca)
      | Inr g \<Rightarrow>
          (case described dig r key g of
             Inl e \<Rightarrow> (Inl e, r, ca)
           | Inr (descriptor, acl) \<Rightarrow>
               (case dget (ca_links ca) key of
                  None \<Rightarrow> new_identity dig D now r ca key g descriptor acl who
                | Some b \<Rightarrow>
                    (case same_identity now r who b descriptor of
                       Inl e \<Rightarrow> (Inl e, r, ca)
                     | Inr same \<Rightarrow>
                         if same then (Inr b, r, ca) else new_identity dig D now r ca key g descriptor acl who))))"

section \<open>Training and attaching an adapter\<close>

definition link_text :: "link \<Rightarrow> string" where
  "link_text b = ''LINK '' @ digits (ln_slot b) @ '' CLUSTER '' @ digits (ln_cluster b)"

definition target_text :: "catalogue \<Rightarrow> string \<Rightarrow> string result" where
  "target_text ca key = (case link_binding ca key of Inl e \<Rightarrow> Inl e | Inr b \<Rightarrow> Inr (link_text b))"

definition adapter_payload :: "payload \<Rightarrow> string \<Rightarrow> link \<Rightarrow> payload" where
  "adapter_payload pl key b =
     dput ''target_knowledge_key'' (JStr key) (dput ''cluster_slot'' (JInt (int (ln_cluster b)))
       (dput ''link_slot'' (JInt (int (ln_slot b))) (dput ''task'' (JStr ''link'') pl)))"

definition link_attach ::
    "(json \<Rightarrow> string) \<Rightarrow> digest \<Rightarrow> real \<Rightarrow> registry \<Rightarrow> catalogue \<Rightarrow> string \<Rightarrow> payload \<Rightarrow> (json \<times> json) list \<Rightarrow> string
       \<Rightarrow> string result \<times> registry \<times> catalogue" where
  "link_attach dig D now r ca key pl pairs who =
     (case link_binding ca key of
        Inl e \<Rightarrow> (Inl e, r, ca)
      | Inr b \<Rightarrow>
          if pairs = [] \<or> list_ex (\<lambda>(q, a). a \<noteq> JStr (link_text b)) pairs then (Inl ValueError, r, ca)
          else case reg_origin dig D r ''qwen-link-training'' key ''1'' (JList (map (\<lambda>(q, a). JList [q, a]) pairs)) [who] of
            Inl e \<Rightarrow> (Inl e, r, ca)
          | Inr (i, r1) \<Rightarrow>
              (case reg_artifact dig D now r1 ''lora'' (JObj (adapter_payload pl key b)) [ln_identity b, i] who of
                 Inl e \<Rightarrow> (Inl e, r1, ca)
               | Inr (art, r2) \<Rightarrow>
                   (Inr art, r2, ca\<lparr>ca_links := dput key (b\<lparr>ln_adapter := Some art\<rparr>) (ca_links ca)\<rparr>)))"

section \<open>Reading a link\<close>

record active_link =
  al_link :: link
  al_generation :: string
  al_cluster :: json

definition adapter_ok :: "registry \<Rightarrow> catalogue \<Rightarrow> string \<Rightarrow> link \<Rightarrow> string \<Rightarrow> json \<Rightarrow> unit result" where
  "adapter_ok r ca key b art ck =
     (case reg_get_node r art of
        Inl e \<Rightarrow> Inl e
      | Inr nd \<Rightarrow>
          (case nd_payload nd of
             Artifact_Payload (JObj p) os gs ps h \<Rightarrow>
               if ln_identity b \<notin> fst ` set gs then Inl InvalidState
               else if \<not> (py_eq (jget p ''target_knowledge_key'') (JStr key) \<and> py_eq (jget p ''link_slot'') (JInt (int (ln_slot b)))
                      \<and> py_eq (jget p ''cluster_slot'') (JInt (int (ln_cluster b)))) then Inl InvalidState
               else (case find (\<lambda>(k, s, cl). s = ln_cluster b) (ca_clusters ca) of
                       None \<Rightarrow> Inl InvalidState
                     | Some (k, _) \<Rightarrow> if JStr k = ck then Inr () else Inl InvalidState)
           | Artifact_Payload _ os gs ps h \<Rightarrow> if ln_identity b \<notin> fst ` set gs then Inl InvalidState else Inl (OtherError ''AttributeError'')
           | _ \<Rightarrow> Inl KeyError))"

definition active_binding ::
    "(json \<Rightarrow> string) \<Rightarrow> real \<Rightarrow> registry \<Rightarrow> catalogue \<Rightarrow> string \<Rightarrow> string \<Rightarrow> active_link result" where
  "active_binding dig now r ca key who =
     (case link_binding ca key of
        Inl e \<Rightarrow> Inl e
      | Inr b \<Rightarrow>
          (case ln_adapter b of
             None \<Rightarrow> Inl InvalidState
           | Some art \<Rightarrow>
               (case reg_head r key of
                  Inl e \<Rightarrow> Inl e
                | Inr g \<Rightarrow>
                    (case (reg_snapshot now r [ln_identity b, art, g] who, semantic_at r (ln_identity b), described dig r key g) of
                       (Inl e, _, _) \<Rightarrow> Inl e
                     | (_, Inl e, _) \<Rightarrow> Inl e
                     | (_, _, Inl e) \<Rightarrow> Inl e
                     | (Inr _, Inr (JObj identity, _), Inr (current, _)) \<Rightarrow>
                         if \<not> py_eq (JObj identity) current then Inl InvalidState
                         else (case adapter_ok r ca key b art (jget identity ''cluster_key'') of
                                 Inl e \<Rightarrow> Inl e
                               | Inr _ \<Rightarrow> Inr \<lparr>al_link = b, al_generation = g, al_cluster = jget identity ''cluster_key''\<rparr>)
                     | _ \<Rightarrow> Inl InvalidState))))"

text \<open>The numbers of \<open>LINK ([1-9][0-9]*) CLUSTER ([1-9][0-9]*)\<close>.\<close>

definition positive_numeral :: "string \<Rightarrow> bool" where
  "positive_numeral s = (s \<noteq> [] \<and> hd s \<noteq> CHR ''0'' \<and> list_all decimal s)"

definition link_numbers :: "string \<Rightarrow> (nat \<times> nat) option" where
  "link_numbers s =
     (let t = drop 5 s; a = takeWhile decimal t; u = dropWhile decimal t; c = drop 9 u
      in if take 5 s = ''LINK '' \<and> positive_numeral a \<and> take 9 u = '' CLUSTER '' \<and> positive_numeral c
         then Some (digits_number a, digits_number c) else None)"

definition link_resolve ::
    "(json \<Rightarrow> string) \<Rightarrow> real \<Rightarrow> registry \<Rightarrow> catalogue \<Rightarrow> (string, string \<times> string) dict \<Rightarrow> string \<Rightarrow> string \<Rightarrow> string
       \<Rightarrow> (active_link \<times> string \<times> string list \<times> string) result" where
  "link_resolve dig now r ca indexed text key who =
     (case link_numbers (strip text) of
        None \<Rightarrow> Inl InvalidState
      | Some ns \<Rightarrow>
          (case active_binding dig now r ca key who of
             Inl e \<Rightarrow> Inl e
           | Inr al \<Rightarrow>
               (let b = al_link al in
                if ns \<noteq> (ln_slot b, ln_cluster b) then Inl InvalidState
                else case dget indexed (al_generation al) of
                  None \<Rightarrow> Inl InvalidState
                | Some (art, vec) \<Rightarrow>
                    (case reg_snapshot now r ([ln_identity b] @ (case ln_adapter b of None \<Rightarrow> [] | Some a \<Rightarrow> [a]) @ [al_generation al, art, vec]) who of
                       Inl e \<Rightarrow> Inl e
                     | Inr snap \<Rightarrow> Inr (al, art, snap)))))"

definition cluster_members ::
    "(json \<Rightarrow> string) \<Rightarrow> real \<Rightarrow> registry \<Rightarrow> catalogue \<Rightarrow> json \<Rightarrow> string \<Rightarrow> string list result" where
  "cluster_members dig now r ca ck who =
     map_sum id (\<lambda>xs. sort (concat xs))
       (map_result (\<lambda>key. case active_binding dig now r ca key who of
            Inl e \<Rightarrow> if e = InvalidState then Inr [] else Inl e
          | Inr al \<Rightarrow> Inr (if py_eq (al_cluster al) ck then [key] else [])) (dkeys (ca_links ca)))"

section \<open>Slots\<close>

text \<open>The operations on the registry and the catalogue together; every operation of the registry may come between
  those of the catalogue.\<close>

datatype link_op =
    Reg_Op reg_op
  | Link_Register real string string
  | Link_Attach real string payload "(json \<times> json) list" string

fun link_step :: "(json \<Rightarrow> string) \<Rightarrow> digest \<Rightarrow> registry \<times> catalogue \<Rightarrow> link_op \<Rightarrow> registry \<times> catalogue" where
  "link_step dig D (r, ca) (Reg_Op op) = (reg_step dig D r op, ca)"
| "link_step dig D (r, ca) (Link_Register now key who) = snd (link_register dig D now r ca key who)"
| "link_step dig D (r, ca) (Link_Attach now key pl pairs who) = snd (link_attach dig D now r ca key pl pairs who)"

text \<open>No two keys share a slot.\<close>

definition slots_ok :: "catalogue \<Rightarrow> bool" where
  "slots_ok ca =
     (\<forall>k k' b b'. dget (ca_links ca) k = Some b \<longrightarrow> dget (ca_links ca) k' = Some b' \<longrightarrow> ln_slot b = ln_slot b' \<longrightarrow> k = k')"

lemma slots_okD:
  "slots_ok ca \<Longrightarrow> dget (ca_links ca) k = Some b \<Longrightarrow> dget (ca_links ca) k' = Some b' \<Longrightarrow> ln_slot b = ln_slot b' \<Longrightarrow> k = k'"
  by (auto simp: slots_ok_def)

lemma fresh_slot_greater: "x \<in> set xs \<Longrightarrow> x < fresh_slot xs"
  by (auto simp: fresh_slot_def less_Suc_eq_le)

lemma link_slot_less:
  assumes "dget (ca_links ca) k = Some b"
  shows "ln_slot b < fresh_slot (link_slots ca)"
  using map_of_SomeD [OF assms] by (intro fresh_slot_greater) (force simp: link_slots_def)

lemma slots_ok_put:
  assumes "slots_ok ca" and "\<And>k b'. dget (ca_links ca) k = Some b' \<Longrightarrow> ln_slot b' = ln_slot b \<Longrightarrow> k = key"
  shows "slots_ok (ca\<lparr>ca_links := dput key b (ca_links ca)\<rparr>)"
proof -
  have "k = k'" if "dget (dput key b (ca_links ca)) k = Some c" "dget (dput key b (ca_links ca)) k' = Some c'" "ln_slot c = ln_slot c'"
    for k k' c c'
    using that assms(1) assms(2) [of k c] assms(2) [of k' c'] by (auto simp: update_conv' slots_ok_def split: if_splits)
  then show ?thesis by (simp add: slots_ok_def)
qed

lemma slots_ok_put_identity:
  assumes "slots_ok ca"
  shows "slots_ok (snd (put_identity ca key s ident))"
  unfolding put_identity_def Let_def snd_conv
proof (rule slots_ok_put [OF assms], goal_cases)
  case (1 k b')
  then show ?case
    using assms link_slot_less [OF 1(1)] by (auto simp: slots_ok_def split: option.splits)
qed

lemma slots_ok_add_cluster: "slots_ok (snd (add_cluster ca ck cl)) = slots_ok ca"
  by (auto simp: add_cluster_def slots_ok_def Let_def split: option.splits)

lemma slots_ok_new_identity: "slots_ok ca \<Longrightarrow> slots_ok (snd (snd (new_identity dig D now r ca key g d acl who)))"
  using slots_ok_put_identity slots_ok_add_cluster
  by (auto simp: new_identity_def Let_def split: sum.splits prod.splits json.splits) (metis snd_conv)+

lemma slots_ok_attach: "slots_ok ca \<Longrightarrow> slots_ok (snd (snd (link_attach dig D now r ca key pl pairs who)))"
  by (auto simp: link_attach_def link_binding_def slots_ok_def split: sum.splits option.splits)
    (auto simp: update_conv' split: if_splits)

interpretation link_machine: kept_invariant "link_step dig D" "\<lambda>s. slots_ok (snd s)" for dig D
proof
  fix s :: "registry \<times> catalogue" and e
  assume "slots_ok (snd s)"
  then show "slots_ok (snd (link_step dig D s e))"
    using slots_ok_new_identity slots_ok_attach
    by (cases s; cases e) (auto simp: link_register_def split: sum.splits option.splits)
qed

lemma slots_ok_empty: "slots_ok empty_catalogue"
  by (simp add: slots_ok_def empty_catalogue_def)

section \<open>Reading what was written\<close>

lemma digits_of_number:
  "s \<noteq> [] \<Longrightarrow> hd s \<noteq> CHR ''0'' \<Longrightarrow> list_all decimal s \<Longrightarrow> 0 < digits_number s \<and> digits (digits_number s) = s"
proof (induction s rule: rev_induct)
  case (snoc c s)
  let ?d = "of_char c - 48 :: nat"
  have c: "?d < 10" "digit ?d = c" using snoc.prems(3) by (auto simp: digit_def decimal_def)
  show ?case
  proof (cases "s = []")
    case True
    have "?d \<noteq> 0"
    proof
      assume "?d = 0"
      moreover have "digit 0 = CHR ''0''" by code_simp
      ultimately have "c = CHR ''0''" using c(2) by simp
      then show False using snoc.prems(2) True by simp
    qed
    then show ?thesis using True c by (simp add: digits_number_def digits.simps [of ?d])
  next
    case False
    then have "0 < digits_number s" "digits (digits_number s) = s" using snoc by simp_all
    then show ?thesis using c by (simp add: digits_number_snoc digits.simps [of "_ * 10 + _"])
  qed
qed simp

lemma link_numbers_text: "link_numbers s = Some (ln_slot b, ln_cluster b) \<Longrightarrow> s = link_text b"
proof -
  assume a: "link_numbers s = Some (ln_slot b, ln_cluster b)"
  define t where "t = drop 5 s"
  define u where "u = dropWhile decimal t"
  have p: "take 5 s = ''LINK ''" "positive_numeral (takeWhile decimal t)" "take 9 u = '' CLUSTER ''" "positive_numeral (drop 9 u)"
    "digits_number (takeWhile decimal t) = ln_slot b" "digits_number (drop 9 u) = ln_cluster b"
    using a by (auto simp: link_numbers_def Let_def t_def u_def split: if_splits)
  have "digits (ln_slot b) = takeWhile decimal t" "digits (ln_cluster b) = drop 9 u"
    using digits_of_number [of "takeWhile decimal t"] digits_of_number [of "drop 9 u"] p(2,4)
    unfolding positive_numeral_def p(5,6) by blast+
  moreover have "s = take 5 s @ takeWhile decimal t @ take 9 u @ drop 9 u"
    by (simp add: t_def u_def)
  ultimately show ?thesis unfolding link_text_def p(1,3) by simp
qed

lemma digits_end: "takeWhile decimal (digits n @ CHR '' '' # s) = digits n"
  using digits_decimal [of n] by (simp add: takeWhile_append decimal_def)

lemma link_text_slot: "link_text b = link_text b' \<Longrightarrow> ln_slot b = ln_slot b'"
proof -
  assume "link_text b = link_text b'"
  then have "takeWhile decimal (digits (ln_slot b) @ CHR '' '' # ''CLUSTER '' @ digits (ln_cluster b))
      = takeWhile decimal (digits (ln_slot b') @ CHR '' '' # ''CLUSTER '' @ digits (ln_cluster b'))"
    by (simp add: link_text_def)
  then have "digits (ln_slot b) = digits (ln_slot b')" by (simp only: digits_end)
  then show ?thesis by (metis digits_number_digits)
qed

text \<open>C40. Text that the model emits reaches a generation only when it is, but for surrounding space, exactly the
  link text registered for the expected key, and whatever operations on registry and catalogue came before, no
  other key has that text. What is returned is the current generation of the key with its indexed artifact; the
  identity, the adapter, the generation, the artifact and the vector are all valid for the caller at that moment,
  and the identity still describes the generation.\<close>

theorem link_resolve_exact:
  fixes dig :: "json \<Rightarrow> string" and D :: digest and ops :: "link_op list"
  defines "s \<equiv> run_steps (link_step dig D) (empty_registry, empty_catalogue) ops"
  assumes "link_resolve dig now (fst s) (snd s) indexed text key who = Inr (al, art, snap)"
  shows "\<exists>b a vec. dget (ca_links (snd s)) key = Some b \<and> strip text = link_text b \<and> ln_adapter b = Some a
    \<and> reg_head (fst s) key = Inr (al_generation al) \<and> dget indexed (al_generation al) = Some (art, vec)
    \<and> set (fst snap) = {ln_identity b, a, al_generation al, art, vec} \<and> all_valid now (fst s) (fst snap) who
    \<and> (\<exists>sem d acl acl'. semantic_at (fst s) (ln_identity b) = Inr (sem, acl)
         \<and> described dig (fst s) key (al_generation al) = Inr (d, acl') \<and> py_eq sem d)
    \<and> {k. \<exists>c. dget (ca_links (snd s)) k = Some c \<and> link_text c = strip text} = {key}"
proof -
  define r where "r = fst s"
  define ca where "ca = snd s"
  have ok: "slots_ok ca"
    unfolding ca_def s_def by (rule link_machine.run_invar) (simp add: slots_ok_empty)
  obtain b vec where n: "link_numbers (strip text) = Some (ln_slot b, ln_cluster b)" and act: "active_binding dig now r ca key who = Inr al"
    and b: "b = al_link al" and vec: "dget indexed (al_generation al) = Some (art, vec)"
    and snap: "reg_snapshot now r ([ln_identity b] @ (case ln_adapter b of None \<Rightarrow> [] | Some a \<Rightarrow> [a]) @ [al_generation al, art, vec]) who = Inr snap"
    using assms(2) by (auto simp: link_resolve_def Let_def r_def ca_def split: option.splits sum.splits if_splits prod.splits)
  from act b obtain a where a: "dget (ca_links ca) key = Some b" "ln_adapter b = Some a" "reg_head r key = Inr (al_generation al)"
    and id: "\<exists>sem d acl acl'. semantic_at r (ln_identity b) = Inr (sem, acl) \<and> described dig r key (al_generation al) = Inr (d, acl') \<and> py_eq sem d"
    by (auto simp: active_binding_def link_binding_def simp del: py_eq.simps split: option.splits sum.splits json.splits if_splits prod.splits)
  have same: "strip text = link_text b" by (rule link_numbers_text [OF n])
  have "k = key" if "dget (ca_links ca) k = Some c" "link_text c = strip text" for k c
  proof -
    have "ln_slot c = ln_slot b" using that(2) same by (intro link_text_slot) simp
    then show ?thesis by (rule slots_okD [OF ok that(1) a(1)])
  qed
  then have only: "{k. \<exists>c. dget (ca_links ca) k = Some c \<and> link_text c = strip text} = {key}"
    using a(1) same [symmetric] by blast
  have ids: "set (fst snap) = {ln_identity b, a, al_generation al, art, vec}" "all_valid now r (fst snap) who"
    using snap a(2) by (auto simp: reg_snapshot_def Let_def split: if_splits)
  show ?thesis
    unfolding r_def [symmetric] ca_def [symmetric]
    by (intro exI [of _ b] exI [of _ a] exI [of _ vec] conjI a same vec ids id only)
qed

definition link_sem :: json where
  "link_sem = JObj [(''role'', JStr ''FACT''), (''type'', JStr ''fact''), (''subject'', JStr ''supplier:m''), (''predicate'', JStr ''lead_time''),
     (''component'', JStr ''gear''), (''retrieval'', JObj [(''domain'', JStr ''general''), (''trusted_aliases'', JList [JStr ''Meier''])])]"

definition link_ops :: "link_op list" where
  "link_ops =
     [Reg_Op (Do_Origin ''erp'' ''o1'' ''1'' (JStr ''text'') [''*'']),
      Reg_Op (Do_Publish 1 ''k'' link_sem [''origin:o1''] ''local'' [''*''] None),
      Reg_Op (Do_Artifact 2 ''text'' (JStr ''t'') [''knowledge:k+''] ''local''),
      Reg_Op (Do_Artifact 2 ''vector'' (JStr ''v'') [''knowledge:k+''] ''local''),
      Link_Register 3 ''k'' ''local'',
      Link_Attach 4 ''k'' [] [(JStr ''Where is k?'', JStr ''LINK 1 CLUSTER 1'')] ''local'']"

theorem link_resolve_exact_witness:
  "\<exists>al snap. link_resolve sample_C 5 (fst (run_steps (link_step sample_C sample_D) (empty_registry, empty_catalogue) link_ops))
        (snd (run_steps (link_step sample_C sample_D) (empty_registry, empty_catalogue) link_ops))
        [(''knowledge:k+'', (''text:t'', ''vector:v''))] '' LINK 1 CLUSTER 1 '' ''k'' ''local'' = Inr (al, ''text:t'', snap)
     \<and> link_text (al_link al) = ''LINK 1 CLUSTER 1''
     \<and> all_valid 5 (fst (run_steps (link_step sample_C sample_D) (empty_registry, empty_catalogue) link_ops)) (fst snap) ''local''"
proof -
  let ?s = "run_steps (link_step sample_C sample_D) (empty_registry, empty_catalogue) link_ops"
  let ?x = "link_resolve sample_C 5 (fst ?s) (snd ?s) [(''knowledge:k+'', (''text:t'', ''vector:v''))] '' LINK 1 CLUSTER 1 '' ''k'' ''local''"
  have "map_sum id (\<lambda>(al, art, snap). (art, link_text (al_link al))) ?x = Inr (''text:t'', ''LINK 1 CLUSTER 1'')"
    by code_simp
  then obtain al snap where x: "?x = Inr (al, ''text:t'', snap)" "link_text (al_link al) = ''LINK 1 CLUSTER 1''"
    by (cases ?x) auto
  from link_resolve_exact [OF x(1)] have "all_valid 5 (fst ?s) (fst snap) ''local''" by blast
  with x show ?thesis by blast
qed

end
