(* ===== verification/Batcher_Wait.thy ===== *)
theory Batcher_Wait
  imports Adaptive_Batcher
begin

text \<open>
  How long a request waits in the micro-batcher: the number of batches that are taken before it is bounded
  by the requests stamped no later, and an idle worker takes a batch as soon as a stamp is old enough. The clients'
  clock readings need not be in the order in which they enter the queue (the stamp is read before the lock).
\<close>

section \<open>Steps on the queues\<close>

text \<open>A selection by a worker that holds nothing only shortens queues from the front; if it takes a batch, it
  takes a request no younger than any head it found.\<close>

lemma select_takes:
  assumes inv: "bt_inv b" and idle: "bt_selected b = []"
  shows "shorter b (bt_select now b) \<and>
    (bt_selected (bt_select now b) = [] \<and> (\<forall>k h t. queue_of (bt_select now b) k = h # t \<longrightarrow> now - br_submitted h < bt_max_wait b)
     \<or> bt_selected (bt_select now b) \<noteq> [] \<and> (\<exists>b1 first. shorter b b1 \<and> shorter b1 (bt_select now b)
        \<and> add_mset first (queued_mset (bt_select now b)) \<subseteq># queued_mset b
        \<and> (\<forall>k h t. queue_of b1 k = h # t \<longrightarrow> br_submitted first \<le> br_submitted h)))"
  using inv idle
proof (cases rule: bt_select_cases [of b now])
  case wait
  then show ?thesis using idle by (auto simp: bt_keeps_def dget_or_def split: option.splits)
next
  case (batch k first q b1 items rest c)
  let ?b' = "bt_select now b"
  have wf: "wf_dict (bt_queues b1)" using batch(1) by (simp add: bt_inv_def queues_pure_def)
  have q: "queue_of b1 k = first # q" using batch(3) by (simp add: dget_or_def)
  obtain d where d: "first # q = d @ rest" using take_batch_suffix [OF batch(6)] by blast
  have sh: "shorter b1 ?b'"
    using wf q d by (intro shorter_put [of b1 k d rest]) (simp_all add: batch(7))
  obtain n where "bt_max_batch b = Suc n" using inv by (cases "bt_max_batch b") (auto simp: bt_inv_def)
  moreover have "dget_or (bt_futures b1) (br_id first) Pending \<noteq> Cancelled" using batch(4) by (simp add: fresh_def)
  ultimately obtain items' where items: "items = first # items'" using batch(6) by (auto split: prod.splits)
  obtain e where e: "mset (first # q) = mset items + mset rest + mset e" using take_batch_spec [OF batch(6)] by blast
  have "queued_mset ?b' + mset (first # q) = queued_mset b1 + mset rest"
    using mset_all_queued_put [OF wf, of k rest] mset_all_queued_pop [OF wf, of k] unfolding q by (simp add: batch(7))
  then have "queued_mset b1 = queued_mset ?b' + mset items + mset e" unfolding e by (simp add: ac_simps)
  then have "add_mset first (queued_mset ?b') \<subseteq># queued_mset b1" by (simp add: items)
  then have take: "add_mset first (queued_mset ?b') \<subseteq># queued_mset b"
    using batch(8) subset_mset.order_trans unfolding shorter_def by blast
  have "br_submitted first \<le> br_submitted h" if "queue_of b1 j = h # t" for j h t
    using batch(5) that by (auto simp: dget_or_def split: option.splits)
  moreover have "bt_selected ?b' \<noteq> []" by (simp add: batch(7) items)
  ultimately show ?thesis using batch(8) sh take shorter_trans [OF batch(8) sh] by blast
qed

lemma submit_queue:
  "\<exists>x. br_submitted x = made \<and> br_id x = bt_next b \<and> (bt_queues (bt_submit now made b p k t) = bt_queues b
     \<or> bt_queues (bt_submit now made b p k t) = dput k (queue_of b k @ [x]) (bt_queues b))"
  by (rule exI [of _ "\<lparr>br_id = bt_next b, br_payload = p, br_key = k,
      br_deadline = map_option (\<lambda>t. now + t / 1000) t, br_submitted = made\<rparr>"])
    (simp add: bt_submit_def Let_def)

lemma distinct_by_count: "(\<And>a. count (mset xs) a \<le> 1) \<Longrightarrow> distinct xs"
  by (metis One_nat_def count_mset_0_iff distinct_count_atmost_1 le_Suc_eq le_zero_eq)

lemma queued_ids:
  assumes "bt_ok b"
  shows "distinct (queue_of b k)" and "r \<in># queued_mset b \<Longrightarrow> br_id r < bt_next b" and "set (queue_of b k) \<subseteq> set_mset (queued_mset b)"
    and "inj_on br_id (set_mset (queued_mset b))"
proof -
  have sub: "mset (map br_id (all_queued (bt_queues b))) \<subseteq># mset [0..<bt_next b]"
    using assms unfolding bt_ok_def bt_inv_def held_def
    by (metis image_mset_union mset_map mset_subset_eq_add_left subset_mset.order_trans)
  have "count (mset (map br_id (all_queued (bt_queues b)))) a \<le> 1" for a
    using mset_subset_eq_count [OF sub, of a] distinct_count_atmost_1 [of "[0..<bt_next b]"]
    by (simp split: if_splits)
  then have dist: "distinct (map br_id (all_queued (bt_queues b)))" by (rule distinct_by_count)
  then show "inj_on br_id (set_mset (queued_mset b))" by (simp add: distinct_map)
  from dist have "distinct (all_queued (bt_queues b))" by (simp add: distinct_map)
  then have one: "count (queued_mset b) a \<le> 1" for a
    using distinct_count_atmost_1 [of "all_queued (bt_queues b)"] by (simp split: if_splits)
  have wf: "wf_dict (bt_queues b)" using assms by (simp add: bt_ok_def bt_inv_def queues_pure_def)
  have le: "mset (queue_of b k) \<subseteq># queued_mset b"
    using mset_all_queued_pop [OF wf, of k] by (metis mset_subset_eq_add_right)
  show "distinct (queue_of b k)"
    by (rule distinct_by_count) (meson le mset_subset_eq_count one order_trans)
  show "r \<in># queued_mset b \<Longrightarrow> br_id r < bt_next b"
    using mset_subset_eqD [OF sub, of "br_id r"] by auto
  show "set (queue_of b k) \<subseteq> set_mset (queued_mset b)"
    using set_mset_mono [OF le] by simp
qed

text \<open>The kinds of steps, seen from the queues.\<close>

lemma step_queues:
  assumes "bt_ok b"
  obtains (shorten) "shorter b (bt_step b e)" and "bt_next b \<le> bt_next (bt_step b e)"
      and "bt_selected b = [] \<and> bt_selected (bt_step b e) \<noteq> [] \<longrightarrow> (\<exists>b1 first. shorter b b1 \<and> shorter b1 (bt_step b e)
        \<and> add_mset first (queued_mset (bt_step b e)) \<subseteq># queued_mset b
        \<and> (\<forall>k h t. queue_of b1 k = h # t \<longrightarrow> br_submitted first \<le> br_submitted h))"
  | (append) now p k t x where "e = Submit now (br_submitted x) p k t" and "br_id x = bt_next b"
      and "bt_queues (bt_step b e) = dput k (queue_of b k @ [x]) (bt_queues b)" and "bt_selected (bt_step b e) = bt_selected b"
proof -
  have wf: "wf_dict (bt_queues b)" using assms by (simp add: bt_ok_def bt_inv_def queues_pure_def)
  have same: "shorter b b'" if "bt_queues b' = bt_queues b" for b' using wf that by (simp add: shorter_def)
  show thesis
  proof (cases e)
    case (Submit now made p k t)
    have sel: "bt_selected (bt_step b e) = bt_selected b" by (simp add: Submit bt_submit_def Let_def)
    obtain x where x: "br_submitted x = made" "br_id x = bt_next b" "bt_queues (bt_submit now made b p k t) = bt_queues b
       \<or> bt_queues (bt_submit now made b p k t) = dput k (queue_of b k @ [x]) (bt_queues b)"
      using submit_queue by metis
    from x(3) show ?thesis
    proof
      assume "bt_queues (bt_submit now made b p k t) = dput k (queue_of b k @ [x]) (bt_queues b)"
      then show ?thesis using x(1,2) sel by (intro append [of now x p k t]) (simp_all add: Submit)
    next
      assume "bt_queues (bt_submit now made b p k t) = bt_queues b"
      then show ?thesis
        using sel by (intro shorten) (auto simp: Submit intro!: same, simp add: bt_submit_def Let_def)
    qed
  next
    case (Cancel i)
    then show ?thesis
      by (intro shorten) (auto simp: bt_cancel_def intro!: same split: option.split future.split)
  next
    case (Close c)
    have "shorter b (bt_close b c)" if c
    proof -
      have "queue_of (bt_close b c) k = []" for k
        using that by (auto simp: bt_close_def dget_or_def split: option.split dest!: map_of_SomeD)
      moreover have "wf_dict (bt_queues (bt_close b c))"
        using wf that by (simp add: bt_close_def wf_dict_def case_prod_beta comp_def)
      ultimately show ?thesis using that by (simp add: shorter_def bt_close_def)
    qed
    moreover have "shorter b (bt_close b c)" if "\<not> c" using that by (intro same) (simp add: bt_close_def)
    ultimately show ?thesis by (intro shorten) (auto simp: Close bt_close_def)
  next
    case (Select now)
    show ?thesis
    proof (cases "bt_selected b = [] \<and> bt_running b = [] \<and> 0 < bt_queued b")
      case True
      have "bt_next (bt_select now b) = bt_next b"
        using bt_select_inv [of b now] assms True by (simp add: bt_ok_def)
      with True show ?thesis
        using select_takes [of b now] assms by (intro shorten) (auto simp: Select bt_ok_def)
    qed (intro shorten; auto simp: Select intro: same)
  next
    case (Start now)
    then show ?thesis by (intro shorten) (auto simp: bt_start_def Let_def intro!: same)
  next
    case (Finish t ans)
    then show ?thesis by (intro shorten) (auto simp: bt_finish_def Let_def intro!: same split: prod.split)
  qed
qed

section \<open>The bound\<close>

text \<open>The batches taken in a run, the queued requests stamped no later than a time, and the submissions in a run
  that are stamped so.\<close>

fun batches_taken :: "('k, 'p) batcher \<Rightarrow> ('k, 'p) bt_event list \<Rightarrow> nat" where
  "batches_taken b [] = 0"
| "batches_taken b (e # es) =
     (if bt_selected b = [] \<and> bt_selected (bt_step b e) \<noteq> [] then 1 else 0) + batches_taken (bt_step b e) es"

definition stamped_by :: "real \<Rightarrow> ('k, 'p) batcher \<Rightarrow> nat" where
  "stamped_by T b = size (filter_mset (\<lambda>x. br_submitted x \<le> T) (queued_mset b))"

fun submits_by :: "real \<Rightarrow> ('k, 'p) bt_event list \<Rightarrow> nat" where
  "submits_by T [] = 0"
| "submits_by T (e # es) = (case e of Submit now made p k t \<Rightarrow> if made \<le> T then 1 else 0 | _ \<Rightarrow> 0) + submits_by T es"

text \<open>A request waits in a queue, itself and all before it stamped no later than \<open>T\<close>.\<close>

definition ahead_by :: "real \<Rightarrow> ('k, 'p) batcher \<Rightarrow> ('k, 'p) batch_req \<Rightarrow> bool" where
  "ahead_by T b r = (\<exists>u v. queue_of b (br_key r) = u @ r # v \<and> (\<forall>x \<in> set u. br_submitted x \<le> T) \<and> br_submitted r \<le> T)"

lemma ahead_shorter:
  assumes "shorter b b'" and "ahead_by T b r" and "distinct (queue_of b (br_key r))" and "r \<in> set (queue_of b' (br_key r))"
  shows "ahead_by T b' r"
proof -
  obtain u v where q: "queue_of b (br_key r) = u @ r # v" "\<forall>x \<in> set u. br_submitted x \<le> T" "br_submitted r \<le> T"
    using assms(2) by (auto simp: ahead_by_def)
  obtain d where d: "queue_of b (br_key r) = d @ queue_of b' (br_key r)" using assms(1) by (auto simp: shorter_def)
  have "r \<notin> set d" using assms(3,4) unfolding d by auto
  then obtain u' where "u = d @ u'"
    using q(1) d by (auto simp: append_eq_append_conv2 Cons_eq_append_conv append_eq_Cons_conv)
  then show ?thesis using q d by (auto simp: ahead_by_def)
qed

lemma ahead_head:
  assumes "ahead_by T b r"
  obtains h t where "queue_of b (br_key r) = h # t" "br_submitted h \<le> T"
proof -
  obtain u v where q: "queue_of b (br_key r) = u @ r # v" "\<forall>x \<in> set u. br_submitted x \<le> T" "br_submitted r \<le> T"
    using assms by (auto simp: ahead_by_def)
  then show thesis by (cases u) (auto intro: that)
qed

lemma stays_gone:
  assumes "bt_ok b" and "br_id r < bt_next b" and "r \<notin> set (queue_of b (br_key r))"
  shows "r \<notin> set (queue_of (bt_step b e) (br_key r)) \<and> br_id r < bt_next (bt_step b e)"
  using assms(1)
proof (cases rule: step_queues [where e = e])
  case shorten
  obtain d where "queue_of b (br_key r) = d @ queue_of (bt_step b e) (br_key r)"
    using shorten(1) unfolding shorter_def by blast
  then show ?thesis using assms(2,3) shorten(2) by auto
next
  case (append now p k t x)
  have "bt_next (bt_step b e) = Suc (bt_next b)" using append(1) by (simp add: bt_submit_def Let_def)
  then show ?thesis using assms(2,3) append(2,3) by (auto simp: dict_simps)
qed

lemma stays_gone_run:
  "bt_ok b \<Longrightarrow> br_id r < bt_next b \<Longrightarrow> r \<notin> set (queue_of b (br_key r)) \<Longrightarrow> r \<notin> set (queue_of (bt_run b es) (br_key r))"
proof (induction es arbitrary: b)
  case (Cons e es)
  have "bt_ok (bt_step b e)" using Cons.prems(1) by (rule bt_machine.step_invar)
  then have "r \<notin> set (queue_of (bt_run (bt_step b e) es) (br_key r))"
    using stays_gone [OF Cons.prems, of e] by (intro Cons.IH) simp_all
  then show ?case by simp
qed simp

lemma next_grows: "bt_ok b \<Longrightarrow> bt_next b \<le> bt_next (bt_step b e)"
proof -
  assume "bt_ok b"
  then show ?thesis
  proof (cases rule: step_queues [where e = e])
    case (append now p k t x)
    then show ?thesis by (simp add: bt_submit_def Let_def)
  qed
qed

lemma stamped_sub: "M \<subseteq># N \<Longrightarrow> size (filter_mset P M) \<le> size (filter_mset P N)"
  by (intro size_mset_mono multiset_filter_mono)

lemma step_bound:
  assumes ok: "bt_ok b" and ah: "ahead_by T b r" and stay: "r \<in> set (queue_of (bt_step b e) (br_key r))"
  shows "ahead_by T (bt_step b e) r \<and> batches_taken b [e] + stamped_by T (bt_step b e) \<le> stamped_by T b + submits_by T [e]"
  using ok
proof (cases rule: step_queues [where e = e])
  case shorten
  have ah': "ahead_by T (bt_step b e) r" by (rule ahead_shorter [OF shorten(1) ah queued_ids(1) [OF ok] stay])
  show ?thesis
  proof (cases "bt_selected b = [] \<and> bt_selected (bt_step b e) \<noteq> []")
    case True
    then obtain b1 first where b1: "shorter b b1" "shorter b1 (bt_step b e)"
      and take: "add_mset first (queued_mset (bt_step b e)) \<subseteq># queued_mset b"
      and least: "\<forall>k h t. queue_of b1 k = h # t \<longrightarrow> br_submitted first \<le> br_submitted h" using shorten(3) by blast
    have "r \<in> set (queue_of b1 (br_key r))" using b1(2) stay by (auto simp: shorter_def) (metis UnI2 set_append)
    then have "ahead_by T b1 r" by (rule ahead_shorter [OF b1(1) ah queued_ids(1) [OF ok]])
    then obtain h t where "queue_of b1 (br_key r) = h # t" "br_submitted h \<le> T" by (rule ahead_head)
    with least have "br_submitted first \<le> T" by fastforce
    then have "Suc (stamped_by T (bt_step b e)) \<le> stamped_by T b"
      using stamped_sub [OF take, of "\<lambda>x. br_submitted x \<le> T"] by (simp add: stamped_by_def)
    with ah' True show ?thesis by simp
  next
    case False
    have "stamped_by T (bt_step b e) \<le> stamped_by T b"
      using shorten(1) unfolding stamped_by_def shorter_def by (intro stamped_sub) blast
    with ah' False show ?thesis by auto
  qed
next
  case (append now p k t x)
  have wf: "wf_dict (bt_queues b)" using ok by (simp add: bt_ok_def bt_inv_def queues_pure_def)
  have "queued_mset (bt_step b e) = add_mset x (queued_mset b)"
    using mset_all_queued_put [OF wf, of k "queue_of b k @ [x]"] by (simp add: append(3) ac_simps)
  then have "stamped_by T (bt_step b e) = stamped_by T b + (if br_submitted x \<le> T then 1 else 0)"
    by (simp add: stamped_by_def)
  moreover have "ahead_by T (bt_step b e) r"
  proof -
    obtain u v where q: "queue_of b (br_key r) = u @ r # v" "\<forall>y \<in> set u. br_submitted y \<le> T" "br_submitted r \<le> T"
      using ah by (auto simp: ahead_by_def)
    then have "queue_of (bt_step b e) (br_key r) = u @ r # (if br_key r = k then v @ [x] else v)"
      unfolding append(3) by (auto simp: dict_simps)
    with q(2,3) show ?thesis unfolding ahead_by_def by blast
  qed
  moreover have "submits_by T [e] = (if br_submitted x \<le> T then 1 else 0)" by (simp add: append(1))
  ultimately show ?thesis using append(4) by simp
qed

lemma run_bound:
  "bt_ok b \<Longrightarrow> ahead_by T b r \<Longrightarrow> r \<in> set (queue_of (bt_run b es) (br_key r)) \<Longrightarrow>
     ahead_by T (bt_run b es) r \<and> batches_taken b es + stamped_by T (bt_run b es) \<le> stamped_by T b + submits_by T es"
proof (induction es arbitrary: b)
  case (Cons e es)
  have ok': "bt_ok (bt_step b e)" using Cons.prems(1) by (rule bt_machine.step_invar)
  have "r \<in># queued_mset b"
    using Cons.prems(2) queued_ids(3) [OF Cons.prems(1), of "br_key r"] by (auto simp: ahead_by_def)
  then have "br_id r < bt_next b" by (rule queued_ids(2) [OF Cons.prems(1)])
  then have next_id: "br_id r < bt_next (bt_step b e)"
    using next_grows [OF Cons.prems(1), of e] by simp
  have "r \<in> set (queue_of (bt_step b e) (br_key r))"
    using stays_gone_run [OF ok' next_id, of es] Cons.prems(3) by auto
  note st = step_bound [OF Cons.prems(1,2) this]
  from Cons.IH [OF ok' _ _] st Cons.prems(3) show ?case by fastforce
qed simp

lemma queued_in_queue:
  assumes "bt_ok b" and "r \<in># queued_mset b"
  shows "r \<in> set (queue_of b (br_key r))"
proof -
  have wf: "wf_dict (bt_queues b)" and pure: "queues_pure (bt_queues b)"
    using assms(1) by (simp_all add: bt_ok_def bt_inv_def queues_pure_def)
  obtain k q where kq: "(k, q) \<in> set (bt_queues b)" "r \<in> set q" using assms(2) by (auto simp: all_queued_def)
  then have "dget (bt_queues b) k = Some q" using wf by (simp add: wf_dict_get_mem)
  then show ?thesis using kq(2) queues_pure_get [OF pure, of r k] by (simp add: dget_or_def)
qed

text \<open>An idle worker that looks when the stamps are old enough takes a batch, unless the request was dropped.\<close>

lemma idle_takes:
  assumes ok: "bt_ok b" and idle: "bt_selected b = []" "bt_running b = []" and ah: "ahead_by T b r" and old: "T + bt_max_wait b \<le> now"
  shows "bt_selected (bt_step b (Select now)) \<noteq> [] \<or> future_done (fut (bt_step b (Select now)) (br_id r))"
proof -
  let ?b' = "bt_select now b"
  have inv: "bt_inv b" using ok by (simp add: bt_ok_def)
  have r: "r \<in># queued_mset b" using ah queued_ids(3) [OF ok, of "br_key r"] by (auto simp: ahead_by_def)
  then have "all_queued (bt_queues b) \<noteq> []" by auto
  then have "0 < bt_queued b" using inv by (simp add: bt_inv_def)
  then have step: "bt_step b (Select now) = ?b'" using idle by simp
  note sel = select_takes [OF inv idle(1), of now] and sinv = bt_select_inv [OF inv idle(1), of now]
  have ok': "bt_ok ?b'" using bt_machine.step_invar [OF ok, of "Select now"] step by simp
  show ?thesis
  proof (cases "bt_selected ?b' = []")
    case True
    have "r \<notin> set (queue_of ?b' (br_key r))"
    proof
      assume "r \<in> set (queue_of ?b' (br_key r))"
      with sel have "ahead_by T ?b' r" by (intro ahead_shorter [OF _ ah queued_ids(1) [OF ok]]) blast
      then obtain h t where h: "queue_of ?b' (br_key r) = h # t" "br_submitted h \<le> T" by (rule ahead_head)
      with sel True have "now - br_submitted h < bt_max_wait b" by blast
      with h(2) old show False by linarith
    qed
    then have gone: "r \<notin># queued_mset ?b'" using queued_in_queue [OF ok'] by blast
    have sub: "queued_mset ?b' \<subseteq># queued_mset b" using sel by (simp add: shorter_def)
    have "br_id r \<notin># image_mset br_id (held ?b')"
    proof
      assume "br_id r \<in># image_mset br_id (held ?b')"
      then obtain x where x: "x \<in># queued_mset ?b'" "br_id x = br_id r"
        using True sinv idle(2) by (auto simp: held_def)
      then have "x \<in># queued_mset b" using sub by (meson mset_subset_eqD)
      with r x(2) queued_ids(4) [OF ok] have "x = r" by (simp add: inj_on_def)
      with x(1) gone show False by simp
    qed
    moreover have "br_id r < bt_next ?b'" using queued_ids(2) [OF ok r] sinv by simp
    ultimately have "future_done (fut ?b' (br_id r))" using ok' by (auto simp: bt_ok_def bt_inv_def open_held_def)
    then show ?thesis unfolding step by blast
  qed (unfold step, blast)
qed

text \<open>C17. A request waits a bounded time for its batch. Let a request wait in its queue in a state that clients and
  worker reach, and let \<open>T\<close> be no earlier than its stamp and the stamps of those in front of it. In every run
  that leaves it waiting, whatever clients submit, cancel or close and whatever the model answers, the worker has
  taken fewer batches than there are requests stamped no later than \<open>T\<close>, queued at the start or submitted on the
  way. And once \<open>max_wait\<close> has passed since \<open>T\<close>, the next selection of a worker that holds no batch takes one,
  unless the request was cancelled or has expired, which ends its future. (How long the model takes for a batch is
  not bounded by the batcher.)\<close>

theorem wait_is_bounded:
  assumes "new_batcher max_batch wait_ms target_ms max_queue = Inr b0" and "b = bt_run b0 before"
    and "queue_of b (br_key r) = u @ r # v" and "\<forall>x \<in> set (u @ [r]). br_submitted x \<le> T"
    and "b' = bt_run b es" and "r \<in> set (queue_of b' (br_key r))"
  shows "batches_taken b es < stamped_by T b + submits_by T es
    \<and> (bt_selected b' = [] \<and> bt_running b' = [] \<and> T + bt_max_wait b' \<le> now \<longrightarrow>
         bt_selected (bt_step b' (Select now)) \<noteq> [] \<or> future_done (fut (bt_step b' (Select now)) (br_id r)))"
proof -
  have ok: "bt_ok b" unfolding assms(2) by (rule bt_machine.run_invar [OF new_batcher_ok [OF assms(1)]])
  have ok': "bt_ok b'" unfolding assms(5) by (rule bt_machine.run_invar [OF ok])
  have "ahead_by T b r" using assms(3,4) by (auto simp: ahead_by_def)
  note bound = run_bound [OF ok this assms(6) [unfolded assms(5)], folded assms(5)]
  have "r \<in># queued_mset b'" using queued_ids(3) [OF ok', of "br_key r"] assms(6) by blast
  moreover have "br_submitted r \<le> T" using assms(4) by simp
  ultimately have "r \<in># filter_mset (\<lambda>x. br_submitted x \<le> T) (queued_mset b')" by simp
  then have "0 < stamped_by T b'" unfolding stamped_by_def by (metis nonempty_has_size empty_not_add_mset multi_member_split)
  then show ?thesis using bound idle_takes [OF ok'] by auto
qed

definition wait_start :: "(nat, nat) bt_event list" where
  "wait_start = [Submit 0 0 7 0 None, Submit 1 1 8 1 None]"

definition wait_end :: "(nat, nat) bt_event list" where
  "wait_end = [Select 10, Start 10, Finish 5 (Inr [JNull])]"

definition wait_batcher :: "(nat, nat) batcher" where
  "wait_batcher = \<lparr>bt_max_batch = 2, bt_max_wait = 2 / 1000, bt_target = 100 / 1000, bt_max_queue = 4, bt_queues = [],
     bt_futures = [], bt_next = 0, bt_stopping = False, bt_queued = 0, bt_stats = zero_stats, bt_selected = [], bt_running = []\<rparr>"

definition waiting_req :: "(nat, nat) batch_req" where
  "waiting_req = \<lparr>br_id = 1, br_payload = 8, br_key = 1, br_deadline = None, br_submitted = 1\<rparr>"

lemma wait_runs:
  "queue_of (bt_run wait_batcher wait_start) (br_key waiting_req) = [] @ waiting_req # []"
  "waiting_req \<in> set (queue_of (bt_run (bt_run wait_batcher wait_start) wait_end) (br_key waiting_req))"
  "bt_selected (bt_run (bt_run wait_batcher wait_start) wait_end) = []" "bt_running (bt_run (bt_run wait_batcher wait_start) wait_end) = []"
  "bt_max_wait (bt_run (bt_run wait_batcher wait_start) wait_end) = 2 / 1000"
  "fut (bt_step (bt_run (bt_run wait_batcher wait_start) wait_end) (Select 20)) 1 = Pending"
  "batches_taken (bt_run wait_batcher wait_start) wait_end = 1"
  by (simp_all add: wait_batcher_def wait_start_def wait_end_def waiting_req_def bt_submit_def bt_select_def bt_start_def
      bt_finish_def settle_def future_done_def Let_def dget_or_def hold_back_def fut_def expired_def numeral_2_eq_2)

theorem wait_is_bounded_witness:
  "1 < stamped_by 1 (bt_run wait_batcher wait_start) + submits_by 1 wait_end
    \<and> bt_selected (bt_step (bt_run (bt_run wait_batcher wait_start) wait_end) (Select 20)) \<noteq> []"
proof -
  have new: "new_batcher 2 2 100 4 = Inr wait_batcher" by (simp add: new_batcher_def wait_batcher_def)
  have stamps: "\<forall>x \<in> set ([] @ [waiting_req]). br_submitted x \<le> 1" by (simp add: waiting_req_def)
  from wait_is_bounded [OF new refl wait_runs(1) stamps refl wait_runs(2), of 20]
  show ?thesis using wait_runs(3-7) by (simp add: waiting_req_def future_done_def)
qed

end
