(* ===== verification/Spec2Isabelle.thy ===== *)
theory Spec2Isabelle
  imports Mesh Registry Resource_Runtime Household Placement Pod_Protocol Task_Graph Adaptive_Batcher Pod_Cache Native_Comm Port_Plane Pod_Executor Replication Vllm_Router Pod_Streams Storage Search_Query Mesh_Cache Dream Search_Agent Raft_Frames Typed_Pods Perception Architecture Snapshot_Store Failpoints Semantics Symlinks Batcher_Wait
begin

text \<open>
  Neural Pods, the runtime under \<open>src/neural_pods\<close>: a model of its Python code and its correctness.

  \<^bold>\<open>The program.\<close> A pod is a small unit of knowledge or computation. The \<^emph>\<open>registry\<close> keeps the lineage
  of what pods know in a SQLite graph: origins, generations derived from them and artifacts, with a commit
  barrier and revocation. Pods are addressed through \<^emph>\<open>contracts\<close> (manifests and links with hop budgets,
  deadlines and access lists), talk over an in-process \<^emph>\<open>transport\<close> or an MQTT \<^emph>\<open>mesh\<close>, run in
  \<^emph>\<open>executors\<close> under a resource \<^emph>\<open>governor\<close>, are batched, composed into task graphs, placed on replicas,
  lent between the donors of a \<^emph>\<open>household\<close>, searched, cached and stored in tiers. The parts meet in a few
  places, and these are modelled by importing the definitions of the part below: the household writes and
  replays the registry's event log, the native communication executor publishes through a mesh endpoint,
  the mesh cache announces invalidations on it, the reflex channel resolves ports that the registry
  validates, the executor pool draws on the governor, the tracked transport drives the request tracker.

  \<^bold>\<open>Conventions\<close> (theory \<open>Prelude\<close>). A Python exception is a value of \<open>py_error\<close>, an operation that may raise
  returns \<open>py_error + 'a\<close>, and one that also changes state returns the state it leaves behind, so
  mutations made before an exception are visible. A \<open>dict\<close> is an association list in insertion order; a
  Python \<open>int\<close> is an \<open>int\<close>; a float that is only added and compared is a \<open>real\<close> (rounding is not
  modelled), and where NaN and infinities reach the code \<open>Py_Values\<close> has an extended type and the
  conversions \<open>int(x)\<close> and \<open>float(x)\<close> on decoded JSON with every exception they raise. Clock readings,
  network outcomes, replies of services (Redis, Lance, MQTT, vLLM, sockets), digests, MACs and JSON codecs are
  arguments; what a theorem assumes of them is a named premise. Code inside a lock is one step.
  Properties of a whole component speak of \<open>run_steps\<close>, any sequence of its operations. Three locales carry
  the arguments that recur: \<open>kept_invariant\<close> (every operation keeps an invariant, so every run does),
  \<open>never_decreasing\<close> (epochs, fences, revisions) and \<open>simulation\<close> (a component built on another one runs
  as that one); further locales state the interfaces \<open>event_log\<close> (registry), \<open>admission\<close> (governor) and
  \<open>ledger\<close> (request tracker). Each is interpreted on the model's own operations, in the theory of the part
  that provides them.

  \<^bold>\<open>Theories and what their lemmas show.\<close>
  \<^item> \<open>Pod_Contract\<close> (\<open>pod_contract.py\<close>): manifests, link validation, hops and the lifecycle gate. A manifest
    becomes active only through three checked transitions; each hop spends the budget of a link twice.
  \<^item> \<open>Registry\<close> (\<open>registry.py\<close>): the tables as dictionaries, the recursive queries as \<open>reach\<close> (proved to be
    the transitive closure), publish, artifact, commit, revoke, events. The lineage stays acyclic, a revocation
    reaches everything derived and is final, only valid answers are committed.
  \<^item> \<open>Resource_Runtime\<close> (\<open>resource_runtime.py\<close>): budgets, governor, bound handler, request tracker. The governor
    never over-commits, a handler gives back what it took, residents are pinned to their generation.
  \<^item> \<open>Household\<close> (\<open>household.py\<close>): offers, allocations, starts, releases, replay of the event log. The books
    agree with the offers after every operation, a restart rebuilds exactly the running allocations.
  \<^item> \<open>Pod_Protocol\<close> (\<open>pod_protocol.py\<close>): requests, signatures, in-process transport with retries, tracking, fan-out.
    Hop chains are bounded; every dispatch has one of the outcomes the code means, up to the boundary of the deadline.
  \<^item> \<open>Mesh\<close> (\<open>mesh.py\<close>): envelopes, topic access lists, publish, forward, subscribe, arrival. Relays are bounded
    and acyclic, only admitted envelopes are delivered, what is published arrives, and the two topic walks are characterised.
  \<^item> \<open>Placement\<close> (\<open>placement.py\<close>): assignment over zones, routing, reconciliation and the fenced leader lease.
  \<^item> \<open>Task_Graph\<close> (\<open>taskgraph.py\<close>): the constructor's cycle check is exact; runs of the bounded pool end, give
    results that do not depend on the schedule, and can deadlock when dependencies are listed late.
  \<^item> \<open>Adaptive_Batcher\<close> (\<open>adaptive_batcher.py\<close>): queues, selection, delivery, cancellation. Every request is in one
    place until its future is settled once; batches are delivered in order; the oldest head goes first.
  \<^item> \<open>Batcher_Wait\<close>: how many batches can be taken before a request, and when an idle worker takes one.
  \<^item> \<open>Pod_Cache\<close> (\<open>pod_cache.py\<close>): the search split at its lock, eviction, invalidation and pins. Memory is
    bounded, a hit is a recent answer to the same key, and a Redis hit leaves its key in flight for ever.
  \<^item> \<open>Native_Comm\<close> (\<open>native_comm.py\<close>): the frame grammar, the egress list and the executor. Nothing leaves the
    process that the link does not grant, every refusal is counted and recorded, and in strict mode a malformed output
    has no effect at all.
  \<^item> \<open>Port_Plane\<close> (\<open>symlink.py\<close>, \<open>reflex.py\<close>): the temporal port plane and the reflex channel over the registry.
  \<^item> \<open>Pod_Executor\<close> (\<open>pod_executor.py\<close>): executors and the governed pool. The pool is simulated by the governor's own
    operations, so its admissions respect the measured budget and its releases succeed.
  \<^item> \<open>Replication\<close> (\<open>replication.py\<close>): the conditional upsert of a replica and the quorum coordinator. After writes
    that were all acknowledged a quorum read returns the last; a put that a replica drops is counted as
    a success, so a write after a failed one can be acknowledged and never read.
  \<^item> \<open>Vllm_Router\<close> (\<open>vllm_router.py\<close>): rotation, failover and exact accounts.
  \<^item> \<open>Pod_Streams\<close> (\<open>pod_streams.py\<close>): the merge of branches, independent of their order, and the duplex session,
    whose resume continues exactly.
  \<^item> \<open>Mesh_Cache\<close> (\<open>mesh_cache.py\<close>): all nodes together refine one map from namespace, principal and query.
  \<^item> \<open>Storage\<close> (\<open>storage.py\<close>): filter literals, schema evolution, the two tiers (a read returns the last put while
    the puts of a key agree on its L1 choice), table listing, session affinity.
  \<^item> \<open>Filter_Lang\<close>, \<open>Local_Search\<close>, \<open>Search_Laws\<close>, \<open>Search_Query\<close> (\<open>local_search.py\<close>): the filter language and the access
    gate on decoded JSON; namespaces, branches, rows, writes, pins and search with its caches; what holds of every
    reachable state (hits are visible to their caller, lexical queries are complete, branches are copy on write,
    \<open>partial_update\<close> loses no update) and the two places where the caches go wrong; rank expressions, fusion
    by reciprocal ranks and the proof that no request goes around the gate.
  \<^item> \<open>Dream\<close> (\<open>dream.py\<close>): the history pool, the responses fitted from single changes, the simulator, its ranking and
    backtest, and the cycle budget on the registry's event log. Dreams stay within the observed levels, the in-sample
    fit reproduces its own points, and the quota binds up to the event limit of the log.
  \<^item> \<open>Exploration\<close> (\<open>recursive_memory.py\<close>, \<open>ngu_sampling.py\<close>): experiences, the discovery tree (it ends when the
    parent links have no cycle), the explorer (the closure of its seeds under the expansion of weak rows),
    consolidation and the sampler, which settles every item.
  \<^item> \<open>Search_Agent\<close> (\<open>search_agent.py\<close>, \<open>recursive_search.py\<close>): search episodes over \<open>Local_Search\<close>, whose reports are
    exact, and the recursive runner, whose deepened records cannot be replayed.
  \<^item> \<open>Block_Postings\<close> (\<open>block_postings.py\<close>): the varint encoding of ascending ids on 8-bit words, which loses nothing, and
    the two posting indexes, each a refinement of a map from terms to sets of ids.
  \<^item> \<open>Raft_Frames\<close> (\<open>raft_transport.py\<close>): the frames, whose decoder accepts exactly the encodings, and the client with its
    connections and retries over a network that cuts them at any byte, whose deliveries are exact for
    whatever part of each connection arrives.
  \<^item> \<open>Typed_Pods\<close> (\<open>pod_types.py\<close>, \<open>pod_taxonomy.py\<close>, \<open>execution_manifest.py\<close>, \<open>registry_lookup_kb.py\<close>,
    \<open>lifecycle_transport.py\<close>): the payload contracts of the pod types and the headers read from artifacts, training
    records and the taxonomy filter, execution manifests, which a revocation in their lineage ends, the alias index
    and the delete tokens of writes that do not commute.
  \<^item> \<open>Perception\<close> (\<open>perception.py\<close>): the bounded event stream with its drain thread as a step relation, interleaved with
    all other calls. Nothing accepted is lost or reordered, the counters are exact, and draining ends.
  \<^item> \<open>Architecture\<close> (\<open>architecture.py\<close>): the walk over syntax trees, the import graph and the layer check. A clean
    verdict layers every chain of imports; rings of three inside a layer pass.
  \<^item> \<open>Snapshot_Store\<close> (\<open>snapshot_store.py\<close>): snapshots as file system steps with crashes between and inside them, reading,
    the log and compaction. Writes are atomic, what is written is read, compaction keeps the newest revisions.
  \<^item> \<open>Failpoints\<close> (\<open>fault_injection.py\<close>): named failpoints that fire on a schedule of their own counts.
  \<^item> \<open>Semantics\<close> (\<open>semantics.py\<close>): checking and compiling a hard record with its soft annotations, the view of a generation,
    and the walk along relations. Annotations never change more than their own text; a walk visits exactly what is
    within its hops, each key at its current valid generation.
  \<^item> \<open>Symlinks\<close> (\<open>symlink.py\<close>): the catalogue of embedded links over registry and semantics. Text resolves only when it is
    the one link text of the expected key, and only to its current, valid generation.
  \<^bold>\<open>Bounds and fuel.\<close> Loops are structural recursions or functions with a
  termination proof: the cycle check of a task graph (each pass resolves a node), the eviction loop of the
  pod cache (each round removes an entry), the registry's recursive query (each round reaches a new node).
  Loops that may not end are stated as such: a pool run is a sequence of steps with its termination and its
  possible deadlock proved, the only recursion with fuel is \<open>path_end\<close>, for the critical path that a finished task graph
  reports (as many steps as the graph has nodes, which a graph without a cycle does not use up), and the paged table listing is a \<open>partial_function\<close> that is shown to return when the
  continuation tokens run out. The mesh's fifteen publish attempts and the batch and queue limits are the code's.

  \<^bold>\<open>Not modelled.\<close>
  \<^item> Inside the modelled modules: opening databases, threads and sockets, hashing files, probing the hardware, writing
    logs and receipts to files; \<open>stats\<close> methods that only project the state.
  \<^item> Modules of \<open>src/neural_pods\<close> that only call numerical or retrieval libraries (\<open>model.py\<close>, \<open>routing.py\<close>, \<open>dragonfly.py\<close>,
    \<open>vector_index.py\<close>, \<open>spacy_enrichment.py\<close>, \<open>continuous_concepts.py\<close>, \<open>model_pod.py\<close>) and those that the manifest lists as not
    modelled.
  \<^item> \<open>src/research\<close> (benchmarks, training and evidence scripts), the scripts in the root of \<open>src\<close>, \<open>src/archive\<close>, the
    test suites and the Rust binding \<open>src/bindings\<close>: drivers around the runtime.
\<close>

end
